(* ===== verification/Skala_Prelude.thy ===== *)
theory Skala_Prelude
  imports Main "HOL-Library.Word"
begin

text \<open>
  Shared vocabulary of the development: the machine integers of the C sources as words, the
  in-memory byte images of integers (little-endian, as the node writes its packed structs on the
  supported targets), big-endian byte strings, the \<^verbatim>\<open>vector_t\<close> accessors the components rely on,
  and the generic lemmas on words, lists and loops that several components use.
\<close>

unbundle bit_operations_syntax

type_synonym byte = "8 word"
type_synonym u32 = "32 word"
type_synonym u64 = "64 word"

abbreviation UINT64_MAX :: u64 where
  "UINT64_MAX \<equiv> 18446744073709551615"

named_theorems word_nat_simps \<open>reading wrapped word operations as natural numbers\<close>
named_theorems bytes_simps \<open>lengths and inverses of byte encodings\<close>

section \<open>Byte images\<close>

text \<open>\<open>le_bytes n v\<close> is the \<open>n\<close>-byte little-endian image of \<open>v\<close>.\<close>

primrec le_bytes :: "nat \<Rightarrow> nat \<Rightarrow> byte list" where
  "le_bytes 0 v = []"
| "le_bytes (Suc n) v = of_nat v # le_bytes n (v div 256)"

primrec le_val :: "byte list \<Rightarrow> nat" where
  "le_val [] = 0"
| "le_val (b # bs) = unat b + 256 * le_val bs"

text \<open>The value of a big-endian byte string, the layout of hashes and decoded targets.\<close>

fun be_val_from :: "nat \<Rightarrow> byte list \<Rightarrow> nat" where
  "be_val_from v [] = v"
| "be_val_from v (b # bs) = be_val_from (256 * v + unat b) bs"

definition be_val :: "byte list \<Rightarrow> nat" where
  "be_val bs = be_val_from 0 bs"

text \<open>The \<open>n\<close> bytes from offset \<open>off\<close> on.\<close>

definition bytes_at :: "nat \<Rightarrow> nat \<Rightarrow> byte list \<Rightarrow> byte list" where
  "bytes_at off n bs = take n (drop off bs)"

section \<open>Vectors\<close>

text \<open>
  The dynamic array of \<^verbatim>\<open>dlibc/vector.h\<close> seen through its accessors: a list, where reading out of
  range gives NULL (\<open>None\<close>), appending puts the element last and removing closes the gap.
\<close>

definition vec_get :: "'a list \<Rightarrow> nat \<Rightarrow> 'a option" where
  "vec_get v i = (if i < length v then Some (v ! i) else None)"

definition vec_push_back :: "'a list \<Rightarrow> 'a \<Rightarrow> 'a list" where
  "vec_push_back v x = v @ [x]"

definition vec_pop_at :: "'a list \<Rightarrow> nat \<Rightarrow> 'a list" where
  "vec_pop_at v i = (if i < length v then take i v @ drop (Suc i) v else v)"

definition vec_back :: "'a list \<Rightarrow> 'a option" where
  "vec_back v = (if v = [] then None else Some (last v))"

section \<open>Fixed-size records on disk and on the wire\<close>

text \<open>
  Reading \<open>count\<close> records of \<open>sz\<close> bytes each from a stream, as the \<^verbatim>\<open>fread\<close> loops of the node do: a
  short read fails the whole load.
\<close>

fun read_records :: "nat \<Rightarrow> nat \<Rightarrow> (byte list \<Rightarrow> 'a) \<Rightarrow> byte list \<Rightarrow> ('a list \<times> byte list) option" where
  "read_records 0 sz dec bs = Some ([], bs)"
| "read_records (Suc n) sz dec bs =
     (if length bs < sz then None
      else case read_records n sz dec (drop sz bs) of
        None \<Rightarrow> None
      | Some (xs, rest) \<Rightarrow> Some (dec (take sz bs) # xs, rest))"

text \<open>The contract of a packed struct: an image of constant size that decodes to the value.\<close>

locale byte_codec =
  fixes image :: "'a \<Rightarrow> byte list" and dec :: "byte list \<Rightarrow> 'a" and wf :: "'a \<Rightarrow> bool" and sz :: nat
  assumes image_length: "wf x \<Longrightarrow> length (image x) = sz"
    and dec_image: "wf x \<Longrightarrow> dec (image x) = x"
begin

lemma image_inj: "wf x \<Longrightarrow> wf y \<Longrightarrow> image x = image y \<Longrightarrow> x = y"
  by (metis dec_image)

lemma image_append_inj:
  "wf x \<Longrightarrow> wf y \<Longrightarrow> image x @ r = image y @ r' \<Longrightarrow> x = y \<and> r = r'"
  using image_length [of x] image_length [of y] image_inj [of x y] by (auto simp: append_eq_append_conv)

lemma read_records_images:
  "\<forall>x\<in>set xs. wf x \<Longrightarrow> read_records (length xs) sz dec (concat (map image xs) @ rest) = Some (xs, rest)"
  by (induction xs) (auto simp: image_length dec_image)

lemma drop_images: "\<forall>x\<in>set xs. wf x \<Longrightarrow> drop (sz * k) (concat (map image xs)) = concat (map image (drop k xs))"
proof (induction xs arbitrary: k)
  case (Cons x xs)
  then show ?case by (cases k) (auto simp: image_length)
qed simp

lemma length_images: "\<forall>x\<in>set xs. wf x \<Longrightarrow> length (concat (map image xs)) = sz * length xs"
  by (induction xs) (auto simp: image_length)

end

section \<open>Maps keyed by a field of the value\<close>

text \<open>
  The contract of the node's hash maps, which store every value under a key computed from it: what a
  lookup returns after an insertion, and hence after a run of insertions.
\<close>

locale keyed_map =
  fixes key_of :: "'v \<Rightarrow> 'k" and ins :: "'m \<Rightarrow> 'v \<Rightarrow> 'm" and look :: "'m \<Rightarrow> 'k \<Rightarrow> 'v option"
  assumes look_ins: "look (ins m v) k = (if k = key_of v then Some v else look m k)"
begin

lemma look_foldl_other: "\<forall>v\<in>set vs. key_of v \<noteq> k \<Longrightarrow> look (foldl ins m vs) k = look m k"
  by (induction vs arbitrary: m) (auto simp: look_ins)

lemma look_foldl_hit:
  "\<exists>v\<in>set vs. key_of v = k \<Longrightarrow> \<exists>v\<in>set vs. key_of v = k \<and> look (foldl ins m vs) k = Some v"
proof (induction vs arbitrary: m)
  case (Cons v vs)
  show ?case
  proof (cases "\<exists>v\<in>set vs. key_of v = k")
    case True
    from Cons.IH [OF this, of "ins m v"] show ?thesis by auto
  next
    case False
    then show ?thesis using Cons.prems look_foldl_other [of vs k "ins m v"] by (auto simp: look_ins)
  qed
qed simp

end

section \<open>Lemmas on byte images\<close>

lemma unat_lt_8: "unat (x :: byte) < 256"
  using unsigned_less [of x] by simp

lemma unat_lt_32: "unat (x :: u32) < 4294967296"
  using unsigned_less [of x] by simp

lemma unat_lt_64: "unat (x :: u64) < 18446744073709551616"
  using unsigned_less [of x] by simp

lemma of_nat_byte_256: "(of_nat (256 * n) :: byte) = 0"
  unfolding word_of_nat_eq_0_iff by simp

lemma length_le_bytes [simp, bytes_simps]: "length (le_bytes n v) = n"
  by (induction n arbitrary: v) auto

lemma le_val_le_bytes [bytes_simps]: "le_val (le_bytes n v) = v mod 256 ^ n"
proof (induction n arbitrary: v)
  case 0
  then show ?case by simp
next
  case (Suc n)
  have "le_val (le_bytes (Suc n) v) = v mod 256 + 256 * ((v div 256) mod 256 ^ n)"
    by (simp add: Suc unat_of_nat)
  also have "\<dots> = v mod (256 * 256 ^ n)"
    by (simp add: mod_mult2_eq)
  finally show ?case by simp
qed

lemma le_bytes_le_val [bytes_simps]: "le_bytes (length bs) (le_val bs) = bs"
proof (induction bs)
  case Nil
  then show ?case by simp
next
  case (Cons b bs)
  have "unat b < 256" by (rule unat_lt_8)
  then have "(unat b + 256 * le_val bs) div 256 = le_val bs"
    by simp
  moreover have "(of_nat (unat b + 256 * le_val bs) :: byte) = b"
    by (simp only: of_nat_add of_nat_byte_256) simp
  ultimately show ?case using Cons by simp
qed

lemma le_val_bound: "le_val bs < 256 ^ length bs"
proof (induction bs)
  case Nil
  then show ?case by simp
next
  case (Cons b bs)
  have "unat b < 256" by (rule unat_lt_8)
  with Cons show ?case by simp
qed

lemma be_val_from_eq: "be_val_from v bs = v * 256 ^ length bs + be_val_from 0 bs"
proof (induction bs arbitrary: v)
  case Nil
  then show ?case by simp
next
  case (Cons b bs)
  have "be_val_from v (b # bs) = (256 * v + unat b) * 256 ^ length bs + be_val_from 0 bs"
    using Cons [of "256 * v + unat b"] by simp
  moreover have "be_val_from 0 (b # bs) = unat b * 256 ^ length bs + be_val_from 0 bs"
    using Cons [of "unat b"] by simp
  ultimately show ?case by (simp add: algebra_simps)
qed

lemma be_val_Nil [simp]: "be_val [] = 0"
  by (simp add: be_val_def)

lemma be_val_Cons [simp]: "be_val (b # bs) = unat b * 256 ^ length bs + be_val bs"
  using be_val_from_eq [of "unat b" bs] by (simp add: be_val_def)

lemma be_val_append: "be_val (as @ bs) = be_val as * 256 ^ length bs + be_val bs"
  by (induction as) (auto simp: algebra_simps power_add)

lemma be_val_replicate_0 [simp]: "be_val (replicate n 0) = 0"
  by (induction n) auto

lemma be_val_bound: "be_val bs < 256 ^ length bs"
proof (induction bs)
  case Nil
  then show ?case by simp
next
  case (Cons b bs)
  have "unat b < 256" by (rule unat_lt_8)
  then have "Suc (unat b) * 256 ^ length bs \<le> 256 * 256 ^ length bs"
    by (intro mult_le_mono1) simp
  with Cons show ?case
    unfolding be_val_Cons length_Cons power_Suc mult_Suc by linarith
qed

lemma bytes_at_here: "length a = n \<Longrightarrow> bytes_at 0 n (a @ b) = a"
  by (simp add: bytes_at_def)

lemma bytes_at_skip: "length a \<le> off \<Longrightarrow> bytes_at off n (a @ b) = bytes_at (off - length a) n b"
  by (simp add: bytes_at_def)

lemma bytes_at_all: "length a = n \<Longrightarrow> bytes_at 0 n a = a"
  by (simp add: bytes_at_def)

lemma bytes_at_Cons: "0 < off \<Longrightarrow> bytes_at off n (b # bs) = bytes_at (off - 1) n bs"
  by (simp add: bytes_at_def drop_Cons')

lemmas bytes_at_simps = bytes_at_here bytes_at_skip bytes_at_all bytes_at_Cons

section \<open>Lemmas on words\<close>

lemma word_carry_iff:
  fixes x y :: "'a::len word"
  shows "x + y < x \<longleftrightarrow> 2 ^ LENGTH('a) \<le> unat x + unat y"
proof -
  have "x \<le> x + y \<longleftrightarrow> unat x + unat y < 2 ^ LENGTH('a)"
    by (simp add: no_olen_add_nat)
  then show ?thesis by (simp add: not_le [symmetric])
qed

lemma unat_drop_bit [word_nat_simps]: "unat (drop_bit n w) = unat w div 2 ^ n"
  unfolding unat_drop_bit_eq by (rule drop_bit_eq_div)

lemma unat_take_bit [word_nat_simps]: "unat (take_bit n w) = unat w mod 2 ^ n"
  unfolding unsigned_take_bit_eq by (rule take_bit_eq_mod)

lemma and_mask_take_bit: "w AND (2 ^ n - 1) = take_bit n (w :: 'a::len word)"
  by (simp add: take_bit_eq_mask mask_eq_exp_minus_1)

lemma unat_ucast_take: "unat (ucast (w :: 'a::len word) :: 'b::len word) = unat w mod 2 ^ LENGTH('b)"
  unfolding unsigned_ucast_eq by (rule take_bit_eq_mod)

section \<open>Lemmas on vectors\<close>

lemma vec_get_Some_iff: "vec_get v i = Some x \<longleftrightarrow> i < length v \<and> v ! i = x"
  by (auto simp: vec_get_def)

lemma vec_back_snoc [simp]: "vec_back (v @ [x]) = Some x"
  by (simp add: vec_back_def)

lemma vec_pop_at_last: "vec_pop_at (v @ [x]) (length v) = v"
  by (simp add: vec_pop_at_def)

lemma unat_of_nat_64: "n < 2 ^ 64 \<Longrightarrow> unat (of_nat n :: u64) = n"
  by (simp add: unat_of_nat)

end
