(* ===== verification/Uint256.thy ===== *)
theory Uint256
  imports Skala_Prelude
begin

text \<open>
  The 256-bit unsigned integers of \<^verbatim>\<open>include/uint256.h\<close>: four 64-bit limbs, least significant first.
  Every operation is the limb loop of the source; \<open>u256_val\<close> reads a value as a natural number and
  the lemmas state each loop as arithmetic modulo \<open>2 ^ 256\<close> with its overflow, borrow or failure
  result. An operation that updates a value in place returns the new value together with the C
  function's result.
\<close>

datatype uint256_t = U256 (limb0: u64) (limb1: u64) (limb2: u64) (limb3: u64)

fun limbs :: "uint256_t \<Rightarrow> u64 list" where
  "limbs (U256 a b c d) = [a, b, c, d]"

fun of_limbs :: "u64 list \<Rightarrow> uint256_t" where
  "of_limbs [a, b, c, d] = U256 a b c d"
| "of_limbs _ = U256 0 0 0 0"

definition uint256_from_u64 :: "u64 \<Rightarrow> uint256_t" where
  "uint256_from_u64 val = U256 val 0 0 0"

section \<open>Addition and subtraction\<close>

text \<open>The carry loop of \<open>uint256_add_u64\<close>: stop at the first limb that did not wrap to zero.\<close>

fun propagate_carry :: "u64 list \<Rightarrow> u64 list \<times> bool" where
  "propagate_carry [] = ([], True)"
| "propagate_carry (x # xs) =
     (let x' = x + 1 in
      if x' \<noteq> 0 then (x' # xs, False)
      else (case propagate_carry xs of (ys, ov) \<Rightarrow> (x' # ys, ov)))"

fun uint256_add_u64 :: "uint256_t \<Rightarrow> u64 \<Rightarrow> uint256_t \<times> bool" where
  "uint256_add_u64 (U256 l0 l1 l2 l3) amount =
     (let l0' = l0 + amount in
      if l0' < l0 then (case propagate_carry [l1, l2, l3] of (ys, ov) \<Rightarrow> (of_limbs (l0' # ys), ov))
      else (U256 l0' l1 l2 l3, False))"

fun add_limbs :: "u64 list \<Rightarrow> u64 list \<Rightarrow> u64 \<Rightarrow> u64 list \<times> u64" where
  "add_limbs (a # as) (b # bs) carry =
     (let a' = a + (b + carry);
          carry' = (if carry \<noteq> 0 then (if a' \<le> a then 1 else 0) else (if a' < a then 1 else 0))
      in case add_limbs as bs carry' of (r, c) \<Rightarrow> (a' # r, c))"
| "add_limbs _ _ carry = ([], carry)"

definition uint256_add :: "uint256_t \<Rightarrow> uint256_t \<Rightarrow> uint256_t \<times> bool" where
  "uint256_add a b = (case add_limbs (limbs a) (limbs b) 0 of (r, c) \<Rightarrow> (of_limbs r, c > 0))"

fun propagate_borrow :: "u64 list \<Rightarrow> u64 list \<times> bool" where
  "propagate_borrow [] = ([], True)"
| "propagate_borrow (x # xs) =
     (if x > 0 then ((x - 1) # xs, False)
      else (case propagate_borrow xs of (ys, u) \<Rightarrow> (UINT64_MAX # ys, u)))"

fun uint256_subtract_u64 :: "uint256_t \<Rightarrow> u64 \<Rightarrow> uint256_t \<times> bool" where
  "uint256_subtract_u64 (U256 l0 l1 l2 l3) amount =
     (if l0 \<ge> amount then (U256 (l0 - amount) l1 l2 l3, False)
      else (let borrow = amount - l0; l0' = UINT64_MAX - borrow + 1 in
            case propagate_borrow [l1, l2, l3] of (ys, u) \<Rightarrow> (of_limbs (l0' # ys), u)))"

text \<open>The guard of \<open>uint256_subtract\<close>, from the most significant limb down: \<open>a < b\<close>?\<close>

fun limbs_underflow :: "u64 list \<Rightarrow> u64 list \<Rightarrow> bool" where
  "limbs_underflow (a # as) (b # bs) =
     (if a > b then False else if a < b then True else limbs_underflow as bs)"
| "limbs_underflow _ _ = False"

fun sub_limbs :: "u64 list \<Rightarrow> u64 list \<Rightarrow> u64 \<Rightarrow> u64 list" where
  "sub_limbs (a # as) (b # bs) borrow =
     (let a' = a - (b + borrow);
          borrow' = (if borrow \<noteq> 0 then (if a' \<ge> a then 1 else 0) else (if a' > a then 1 else 0))
      in a' # sub_limbs as bs borrow')"
| "sub_limbs _ _ borrow = []"

definition uint256_subtract :: "uint256_t \<Rightarrow> uint256_t \<Rightarrow> uint256_t \<times> bool" where
  "uint256_subtract a b =
     (if limbs_underflow (rev (limbs a)) (rev (limbs b)) then (a, False)
      else (of_limbs (sub_limbs (limbs a) (limbs b) 0), True))"

section \<open>Comparison, conversion, division\<close>

fun cmp_limbs :: "u64 list \<Rightarrow> u64 list \<Rightarrow> int" where
  "cmp_limbs (a # as) (b # bs) = (if a > b then 1 else if a < b then - 1 else cmp_limbs as bs)"
| "cmp_limbs _ _ = 0"

definition uint256_cmp :: "uint256_t \<Rightarrow> uint256_t \<Rightarrow> int" where
  "uint256_cmp a b = cmp_limbs (rev (limbs a)) (rev (limbs b))"

fun uint256_is_zero :: "uint256_t \<Rightarrow> bool" where
  "uint256_is_zero (U256 a b c d) = (a = 0 \<and> b = 0 \<and> c = 0 \<and> d = 0)"

text \<open>Eight bytes folded into one limb, most significant byte first.\<close>

fun limb_from_be :: "u64 \<Rightarrow> byte list \<Rightarrow> u64" where
  "limb_from_be value [] = value"
| "limb_from_be value (b # bs) = limb_from_be (push_bit 8 value OR ucast b) bs"

definition uint256_from_be_bytes :: "byte list \<Rightarrow> uint256_t" where
  "uint256_from_be_bytes bytes =
     of_limbs (map (\<lambda>limb. limb_from_be 0 (take 8 (drop ((3 - limb) * 8) bytes))) [0, 1, 2, 3])"

definition uint256_bitwise_not :: "uint256_t \<Rightarrow> uint256_t" where
  "uint256_bitwise_not a = of_limbs (map NOT (limbs a))"

text \<open>One step of the long division: \<open>remainder = (remainder << 1) | bit\<close>.\<close>

fun shift_in :: "uint256_t \<Rightarrow> u64 \<Rightarrow> uint256_t" where
  "shift_in (U256 r0 r1 r2 r3) b =
     U256 (push_bit 1 r0 OR b)
          (push_bit 1 r1 OR drop_bit 63 r0)
          (push_bit 1 r2 OR drop_bit 63 r1)
          (push_bit 1 r3 OR drop_bit 63 r2)"

definition limb_bit :: "uint256_t \<Rightarrow> nat \<Rightarrow> u64" where
  "limb_bit n i = drop_bit (i mod 64) (limbs n ! (i div 64)) AND 1"

definition set_limb_bit :: "uint256_t \<Rightarrow> nat \<Rightarrow> uint256_t" where
  "set_limb_bit q i =
     of_limbs ((limbs q)[i div 64 := limbs q ! (i div 64) OR push_bit (i mod 64) 1])"

fun divide_loop :: "nat \<Rightarrow> uint256_t \<Rightarrow> uint256_t \<Rightarrow> uint256_t \<Rightarrow> uint256_t \<Rightarrow> uint256_t" where
  "divide_loop 0 numerator denominator quot remainder = quot"
| "divide_loop (Suc i) numerator denominator quot remainder =
     (let remainder' = shift_in remainder (limb_bit numerator i) in
      if uint256_cmp remainder' denominator \<ge> 0
      then divide_loop i numerator denominator (set_limb_bit quot i)
             (fst (uint256_subtract remainder' denominator))
      else divide_loop i numerator denominator quot remainder')"

definition uint256_divide :: "uint256_t \<Rightarrow> uint256_t \<Rightarrow> uint256_t option" where
  "uint256_divide numerator denominator =
     (if uint256_is_zero denominator then None
      else Some (divide_loop 256 numerator denominator (uint256_from_u64 0) (uint256_from_u64 0)))"

section \<open>Values\<close>

primrec lval :: "u64 list \<Rightarrow> nat" where
  "lval [] = 0"
| "lval (x # xs) = unat x + 18446744073709551616 * lval xs"

definition u256_val :: "uint256_t \<Rightarrow> nat" where
  "u256_val a = lval (limbs a)"

definition TWO256 :: nat where
  "TWO256 = 2 ^ 256"

lemma length_limbs [simp]: "length (limbs a) = 4"
  by (cases a) simp

lemma of_limbs_limbs [simp]: "of_limbs (limbs a) = a"
  by (cases a) simp

lemma limbs_of_limbs [simp]: "length xs = 4 \<Longrightarrow> limbs (of_limbs xs) = xs"
  by (auto simp: length_Suc_conv numeral_eq_Suc)

lemma lval_bound: "lval xs < 18446744073709551616 ^ length xs"
proof (induction xs)
  case Nil
  then show ?case by simp
next
  case (Cons x xs)
  have "unat x < 18446744073709551616" by (rule unat_lt_64)
  with Cons show ?case by simp
qed

lemma lval_inj: "length xs = length ys \<Longrightarrow> lval xs = lval ys \<Longrightarrow> xs = ys"
proof (induction xs ys rule: list_induct2)
  case Nil
  then show ?case by simp
next
  case (Cons x xs y ys)
  have b: "unat x < 18446744073709551616" "unat y < 18446744073709551616" by (rule unat_lt_64)+
  have "unat x = lval (x # xs) mod 18446744073709551616" using b by simp
  also have "\<dots> = unat y" using b Cons.prems by simp
  finally have "unat x = unat y" .
  with Cons.prems have "x = y" "lval xs = lval ys" by (simp_all add: word_unat_eq_iff)
  with Cons.IH show ?case by simp
qed


section \<open>Carries and borrows\<close>

lemma unat_add_carry:
  fixes x y :: u64
  shows "unat (x + y) + (if x + y < x then 18446744073709551616 else 0) = unat x + unat y"
proof -
  have "unat x < 18446744073709551616" "unat y < 18446744073709551616" by (rule unat_lt_64)+
  then show ?thesis
    using word_carry_iff [of x y] by (auto simp: unat_word_ariths mod_if)
qed

lemma unat_Suc_64: "unat (x + 1 :: u64) = (if x + 1 = 0 then 0 else Suc (unat x))"
proof -
  have "unat x < 18446744073709551616" by (rule unat_lt_64)
  then have "unat (x + 1) = (if Suc (unat x) = 18446744073709551616 then 0 else Suc (unat x))"
    by (simp add: unat_word_ariths mod_if)
  then show ?thesis by (metis Zero_not_Suc unat_eq_0)
qed

lemma unat_wrap_64: "(x :: u64) + 1 = 0 \<Longrightarrow> unat x = 18446744073709551615"
proof -
  assume "x + 1 = 0"
  then have "x = - 1" by (simp add: eq_neg_iff_add_eq_0)
  also have "\<dots> = UINT64_MAX" by simp
  finally show ?thesis by simp
qed

lemma propagate_carry_val:
  assumes "propagate_carry xs = (ys, ov)"
  shows "length ys = length xs \<and>
    lval ys + (if ov then 18446744073709551616 ^ length xs else 0) = lval xs + 1"
  using assms
proof (induction xs arbitrary: ys ov)
  case Nil
  then show ?case by auto
next
  case (Cons x xs)
  show ?case
  proof (cases "x + 1 = 0")
    case True
    obtain zs o2 where r: "propagate_carry xs = (zs, o2)" by fastforce
    with Cons.prems True have "ys = 0 # zs" "ov = o2" by (auto simp: Let_def)
    with Cons.IH [OF r] unat_wrap_64 [OF True] show ?thesis by (auto simp: algebra_simps)
  next
    case False
    with Cons.prems show ?thesis by (auto simp: Let_def unat_Suc_64)
  qed
qed

lemma add_carry_step:
  fixes a b carry :: u64
  assumes "carry = 0 \<or> carry = 1"
  defines "a' \<equiv> a + (b + carry)"
  shows "unat a' + 18446744073709551616 *
      unat (if carry \<noteq> 0 then (if a' \<le> a then 1 else 0) else (if a' < a then 1 else 0) :: u64)
    = unat a + unat b + unat carry"
proof (cases "carry = 0")
  case True
  then show ?thesis
    using unat_add_carry [of a b] by (auto simp: a'_def)
next
  case False
  with assms have c1: "carry = 1" by simp
  show ?thesis
  proof (cases "b + 1 = 0")
    case True
    then show ?thesis using unat_wrap_64 [OF True] by (simp add: a'_def c1)
  next
    case no_wrap: False
    then have "a' \<le> a \<longleftrightarrow> a' < a" by (auto simp: a'_def c1 le_less)
    then show ?thesis
      using unat_add_carry [of a "b + 1"] no_wrap by (auto simp: a'_def c1 unat_Suc_64)
  qed
qed

lemma add_limbs_val:
  assumes "length as = length bs" and "carry = 0 \<or> carry = 1"
  shows "length (fst (add_limbs as bs carry)) = length as \<and>
    (snd (add_limbs as bs carry) = 0 \<or> snd (add_limbs as bs carry) = 1) \<and>
    lval (fst (add_limbs as bs carry)) +
      18446744073709551616 ^ length as * unat (snd (add_limbs as bs carry))
    = lval as + lval bs + unat carry"
  using assms
proof (induction as bs arbitrary: carry rule: list_induct2)
  case Nil
  then show ?case by auto
next
  case (Cons a as b bs)
  define a' where "a' = a + (b + carry)"
  define carry' :: u64 where
    "carry' = (if carry \<noteq> 0 then (if a' \<le> a then 1 else 0) else (if a' < a then 1 else 0))"
  have unf: "add_limbs (a # as) (b # bs) carry
      = (a' # fst (add_limbs as bs carry'), snd (add_limbs as bs carry'))"
    by (simp add: Let_def a'_def carry'_def case_prod_beta)
  have "carry' = 0 \<or> carry' = 1" by (simp add: carry'_def)
  note IH = Cons.IH [OF this]
  have step: "unat a' + 18446744073709551616 * unat carry' = unat a + unat b + unat carry"
    unfolding a'_def carry'_def by (rule add_carry_step [OF Cons.prems(1)])
  show ?case
    unfolding unf using IH step by (simp add: algebra_simps)
qed

lemma lval_snoc: "lval (xs @ [x]) = lval xs + 18446744073709551616 ^ length xs * unat x"
  by (induction xs) (auto simp: algebra_simps)

lemma lval_less_msb:
  assumes "length as = length bs" and "a < (b :: u64)"
  shows "lval (as @ [a]) < lval (bs @ [b])"
proof -
  have "lval as < 18446744073709551616 ^ length bs"
    using lval_bound [of as] assms(1) by simp
  moreover have "18446744073709551616 ^ length bs * Suc (unat a)
      \<le> 18446744073709551616 ^ length bs * unat b"
    using assms(2) by (intro mult_le_mono2) (simp add: word_less_nat_alt)
  ultimately have "lval as + 18446744073709551616 ^ length bs * unat a
      < 18446744073709551616 ^ length bs * unat b"
    by (simp add: algebra_simps)
  then show ?thesis using assms(1) by (simp add: lval_snoc)
qed

lemma cmp_limbs_val:
  assumes "length as = length bs"
  shows "cmp_limbs as bs =
    (if lval (rev as) > lval (rev bs) then 1 else if lval (rev as) < lval (rev bs) then - 1 else 0)"
  using assms
proof (induction as bs rule: list_induct2)
  case Nil
  then show ?case by simp
next
  case (Cons a as b bs)
  have "lval (rev as @ [a]) < lval (rev bs @ [b])" if "a < b"
    using lval_less_msb [of "rev as" "rev bs"] that Cons.hyps by simp
  moreover have "lval (rev bs @ [b]) < lval (rev as @ [a])" if "b < a"
    using lval_less_msb [of "rev bs" "rev as"] that Cons.hyps by simp
  ultimately show ?case
    using Cons by (cases a b rule: linorder_cases) (auto simp: lval_snoc)
qed

lemma limbs_underflow_cmp: "length as = length bs \<Longrightarrow> limbs_underflow as bs \<longleftrightarrow> cmp_limbs as bs = - 1"
  by (induction as bs rule: list_induct2) auto

lemma sub_borrow_step:
  fixes a b borrow :: u64
  assumes "borrow = 0 \<or> borrow = 1"
  defines "a' \<equiv> a - (b + borrow)"
  shows "unat a' + unat b + unat borrow = unat a + 18446744073709551616 *
      unat (if borrow \<noteq> 0 then (if a' \<ge> a then 1 else 0) else (if a' > a then 1 else 0) :: u64)"
proof -
  have a: "a = a' + (b + borrow)" by (simp add: a'_def)
  have ua: "unat a + (if a < a' then 18446744073709551616 else 0) = unat a' + unat (b + borrow)"
    using unat_add_carry [of a' "b + borrow"] a by simp
  show ?thesis
  proof (cases "borrow = 0")
    case True
    then show ?thesis using ua by auto
  next
    case False
    with assms have b1: "borrow = 1" by simp
    show ?thesis
    proof (cases "b + 1 = 0")
      case True
      then have "a' = a" by (simp add: a'_def b1)
      then show ?thesis using unat_wrap_64 [OF True] by (simp add: b1)
    next
      case no_wrap: False
      then have "a' \<ge> a \<longleftrightarrow> a' > a" using a by (auto simp: b1 le_less)
      then show ?thesis using ua no_wrap by (auto simp: b1 unat_Suc_64)
    qed
  qed
qed

lemma sub_limbs_val:
  assumes "length as = length bs" and "borrow = 0 \<or> borrow = 1"
  shows "length (sub_limbs as bs borrow) = length as \<and>
    (\<exists>k. lval (sub_limbs as bs borrow) + lval bs + unat borrow
        = lval as + 18446744073709551616 ^ length as * k)"
  using assms
proof (induction as bs arbitrary: borrow rule: list_induct2)
  case Nil
  then show ?case by auto
next
  case (Cons a as b bs)
  define a' where "a' = a - (b + borrow)"
  define borrow' :: u64 where
    "borrow' = (if borrow \<noteq> 0 then (if a' \<ge> a then 1 else 0) else (if a' > a then 1 else 0))"
  have unf: "sub_limbs (a # as) (b # bs) borrow = a' # sub_limbs as bs borrow'"
    by (simp add: Let_def a'_def borrow'_def)
  have "borrow' = 0 \<or> borrow' = 1" by (simp add: borrow'_def)
  note IH = Cons.IH [OF this]
  then obtain k where k: "lval (sub_limbs as bs borrow') + lval bs + unat borrow'
        = lval as + 18446744073709551616 ^ length as * k" by blast
  have step: "unat a' + unat b + unat borrow = unat a + 18446744073709551616 * unat borrow'"
    unfolding a'_def borrow'_def by (rule sub_borrow_step [OF Cons.prems(1)])
  have "lval (a' # sub_limbs as bs borrow') + lval (b # bs) + unat borrow
      = unat a + 18446744073709551616 * (lval (sub_limbs as bs borrow') + lval bs + unat borrow')"
    using step by (simp add: algebra_simps)
  also have "\<dots> = lval (a # as) + 18446744073709551616 ^ length (a # as) * k"
    unfolding k by (simp add: algebra_simps)
  finally show ?case unfolding unf using IH by auto
qed

lemma TWO256_limbs: "TWO256 = 18446744073709551616 ^ 4"
  by (simp add: TWO256_def)

lemma u256_val_bound: "u256_val a < TWO256"
  using lval_bound [of "limbs a"] by (simp add: u256_val_def TWO256_limbs del: power_numeral)

lemma u256_val_inj: "u256_val a = u256_val b \<longleftrightarrow> a = b"
proof
  assume "u256_val a = u256_val b"
  then have "limbs a = limbs b" by (intro lval_inj) (auto simp: u256_val_def)
  then show "a = b" by (metis of_limbs_limbs)
qed simp

lemma uint256_from_u64_val [simp]: "u256_val (uint256_from_u64 x) = unat x"
  by (simp add: u256_val_def uint256_from_u64_def)

lemma uint256_is_zero_val: "uint256_is_zero a \<longleftrightarrow> u256_val a = 0"
  by (cases a) (simp add: u256_val_def unat_eq_0)

lemma uint256_cmp_val:
  "uint256_cmp a b = (if u256_val a > u256_val b then 1 else if u256_val a < u256_val b then - 1 else 0)"
  by (simp add: uint256_cmp_def cmp_limbs_val u256_val_def)

lemma uint256_add_val:
  "u256_val (fst (uint256_add a b)) + (if snd (uint256_add a b) then TWO256 else 0)
   = u256_val a + u256_val b"
proof -
  obtain r c where rc: "add_limbs (limbs a) (limbs b) 0 = (r, c)" by fastforce
  with add_limbs_val [of "limbs a" "limbs b" 0]
  have "length r = 4" "c = 0 \<or> c = 1"
    "lval r + 18446744073709551616 ^ 4 * unat c = lval (limbs a) + lval (limbs b)"
    by simp_all
  then show ?thesis
    by (auto simp: uint256_add_def rc u256_val_def TWO256_limbs simp del: power_numeral)
qed

lemma uint256_add_u64_val:
  "u256_val (fst (uint256_add_u64 a x)) + (if snd (uint256_add_u64 a x) then TWO256 else 0)
   = u256_val a + unat x"
proof (cases a)
  case (U256 l0 l1 l2 l3)
  obtain ys ov where r: "propagate_carry [l1, l2, l3] = (ys, ov)" by fastforce
  let ?B = "18446744073709551616 :: nat"
  have L: "length [l1, l2, l3] = 3" by simp
  note pc = propagate_carry_val [OF r, unfolded L]
  have len: "length ys = 3" using pc by blast
  have v: "lval ys + (if ov then ?B ^ 3 else 0) = lval [l1, l2, l3] + 1" using pc by blast
  have "u256_val (fst (uint256_add_u64 a x)) + (if snd (uint256_add_u64 a x) then TWO256 else 0)
      = (if l0 + x < l0 then unat (l0 + x) + ?B * (lval ys + (if ov then ?B ^ 3 else 0))
         else unat (l0 + x) + ?B * lval [l1, l2, l3])"
    using len by (simp add: U256 r u256_val_def Let_def TWO256_def del: propagate_carry.simps)
  also have "\<dots> = u256_val a + unat x"
    unfolding v using unat_add_carry [of l0 x] by (auto simp: U256 u256_val_def)
  finally show ?thesis .
qed

lemma uint256_subtract_val:
  "snd (uint256_subtract a b) = (u256_val b \<le> u256_val a)"
  "u256_val (fst (uint256_subtract a b)) =
     (if u256_val b \<le> u256_val a then u256_val a - u256_val b else u256_val a)"
proof -
  have uf: "limbs_underflow (rev (limbs a)) (rev (limbs b)) \<longleftrightarrow> u256_val a < u256_val b"
    by (simp add: limbs_underflow_cmp cmp_limbs_val u256_val_def)
  then show "snd (uint256_subtract a b) = (u256_val b \<le> u256_val a)"
    by (simp add: uint256_subtract_def)
  from sub_limbs_val [of "limbs a" "limbs b" 0]
  obtain k where len: "length (sub_limbs (limbs a) (limbs b) 0) = 4"
    and k: "lval (sub_limbs (limbs a) (limbs b) 0) + u256_val b = u256_val a + TWO256 * k"
    by (auto simp: u256_val_def TWO256_limbs simp del: power_numeral)
  show "u256_val (fst (uint256_subtract a b)) =
     (if u256_val b \<le> u256_val a then u256_val a - u256_val b else u256_val a)"
  proof (cases "u256_val b \<le> u256_val a")
    case True
    have "lval (sub_limbs (limbs a) (limbs b) 0) < TWO256"
      using lval_bound [of "sub_limbs (limbs a) (limbs b) 0"] len
      by (simp add: TWO256_limbs del: power_numeral)
    with k True u256_val_bound [of b] have "k = 0" by (cases k) auto
    with k True uf len show ?thesis by (simp add: uint256_subtract_def u256_val_def)
  next
    case False
    with uf show ?thesis by (simp add: uint256_subtract_def)
  qed
qed

section \<open>Bits and division\<close>

lemma bit_lval_Cons:
  "bit (unat (x :: u64) + 18446744073709551616 * v) i = (if i < 64 then bit x i else bit v (i - 64))"
proof -
  let ?n = "unat x + 18446744073709551616 * v"
  have x: "unat x < 18446744073709551616" by (rule unat_lt_64)
  have t: "take_bit 64 ?n = unat x" using x by (simp add: take_bit_eq_mod)
  have d: "drop_bit 64 ?n = v" using x by (simp add: drop_bit_eq_div)
  show ?thesis
  proof (cases "i < 64")
    case True
    then have "bit ?n i = bit (take_bit 64 ?n) i" by (simp add: bit_take_bit_iff)
    then show ?thesis using True by (simp add: t bit_unsigned_iff)
  next
    case False
    then have "bit ?n i = bit (drop_bit 64 ?n) (i - 64)" by (simp add: bit_drop_bit_eq)
    then show ?thesis using False by (simp add: d)
  qed
qed

lemma bit_lval: "bit (lval xs) i \<longleftrightarrow> i < 64 * length xs \<and> bit (xs ! (i div 64)) (i mod 64)"
proof (induction xs arbitrary: i)
  case Nil
  then show ?case by simp
next
  case (Cons x xs)
  show ?case
  proof (cases "i < 64")
    case True
    then show ?thesis by (simp only: lval.simps bit_lval_Cons) simp
  next
    case False
    then have "i div 64 = Suc ((i - 64) div 64)" "i mod 64 = (i - 64) mod 64"
      by (simp_all add: le_div_geq le_mod_geq)
    with False show ?thesis
      by (simp only: lval.simps bit_lval_Cons) (auto simp: Cons)
  qed
qed

lemma bit_u256_val: "bit (u256_val a) i \<longleftrightarrow> i < 256 \<and> bit (limbs a ! (i div 64)) (i mod 64)"
  by (simp add: u256_val_def bit_lval)

lemma limb_bit_val:
  assumes "i < 256"
  shows "unat (limb_bit n i) = of_bool (bit (u256_val n) i)"
proof -
  let ?w = "limbs n ! (i div 64)"
  have "drop_bit (i mod 64) ?w AND 1 = of_bool (odd (drop_bit (i mod 64) ?w))"
    by (simp add: and_one_eq mod2_eq_if)
  then show ?thesis
    unfolding bit_u256_val using assms by (simp add: limb_bit_def bit_iff_odd_drop_bit)
qed

lemma set_limb_bit_val:
  assumes "i < 256"
  shows "u256_val (set_limb_bit q i) = set_bit i (u256_val q)"
proof (rule bit_eqI)
  fix j
  have len: "length ((limbs q)[i div 64 := limbs q ! (i div 64) OR push_bit (i mod 64) 1]) = 4" by simp
  show "bit (u256_val (set_limb_bit q i)) j = bit (set_bit i (u256_val q)) j"
    using assms
    by (auto simp: bit_u256_val set_limb_bit_def limbs_of_limbs [OF len] bit_set_bit_iff
        nth_list_update bit_or_iff bit_push_bit_iff bit_1_iff bit_exp_iff)
      (metis div_mult_mod_eq)+
qed

lemma double_mod_64: "(2 * (n :: nat)) mod 18446744073709551616 = 2 * (n mod 9223372036854775808)"
  using mult_mod_right [of 2 n 9223372036854775808] by simp

lemma unat_shl_or:
  fixes r c :: u64
  assumes "unat c \<le> 1"
  shows "unat (push_bit 1 r OR c) = (2 * unat r) mod 18446744073709551616 + unat c"
proof -
  have bound: "x < h \<Longrightarrow> 2 * x + unat c < 2 * h" for x h :: nat using assms by linarith
  have c: "c = 0 \<or> c = 1" unfolding word_unat_eq_iff using assms by auto
  have "push_bit 1 r OR c = push_bit 1 r + c"
    using c by (auto intro!: disjunctive_add [symmetric] simp: bit_push_bit_iff bit_1_iff bit_0)
  moreover have "unat (push_bit 1 r) = (2 * unat r) mod 18446744073709551616"
    by (simp add: push_bit_eq_mult unat_word_ariths mult.commute)
  moreover have "2 * (unat r mod 9223372036854775808) + unat c < 18446744073709551616"
    using bound [of "unat r mod 9223372036854775808" 9223372036854775808] by simp
  ultimately show ?thesis by (simp add: unat_word_ariths double_mod_64)
qed

lemma shl_split: "2 * (n :: nat) = (2 * n) mod 18446744073709551616 + 18446744073709551616 * (n div 9223372036854775808)"
  unfolding double_mod_64 using mult_div_mod_eq [of 9223372036854775808 n] by linarith

lemma shift_in_val:
  assumes "u256_val r < 2 ^ 255" and "unat b \<le> 1"
  shows "u256_val (shift_in r b) = 2 * u256_val r + unat b"
proof (cases r)
  case (U256 r0 r1 r2 r3)
  have hi: "unat (drop_bit 63 (x :: u64)) = unat x div 9223372036854775808" for x
    by (simp add: drop_bit_eq_div unat_div_distrib)
  have le1: "unat (drop_bit 63 (x :: u64)) \<le> 1" for x
    using unat_lt_64 [of x] by (simp add: hi less_mult_imp_div_less)
  have top: "unat r3 div 9223372036854775808 = 0"
  proof (rule ccontr)
    assume "\<not> ?thesis"
    then have "unat r3 \<ge> 9223372036854775808" by simp
    then show False using assms(1) by (simp add: U256 u256_val_def)
  qed
  have eqs: "unat (push_bit 1 y OR drop_bit 63 x) = 2 * unat y mod 18446744073709551616 + unat x div 9223372036854775808"
    for x y :: u64
    unfolding unat_shl_or [OF le1] hi ..
  have tele: "m0 + c + B * ((m1 + h0) + B * ((m2 + h1) + B * (m3 + h2 + B * 0)))
      = 2 * (x0 + B * (x1 + B * (x2 + B * (x3 + B * 0)))) + c"
    if "2 * x0 = m0 + B * h0" "2 * x1 = m1 + B * h1" "2 * x2 = m2 + B * h2" "2 * x3 = m3 + B * 0"
    for m0 m1 m2 m3 h0 h1 h2 x0 x1 x2 x3 c B :: nat
    using that by algebra
  show ?thesis
    unfolding U256 u256_val_def shift_in.simps limbs.simps lval.simps eqs unat_shl_or [OF assms(2)]
    by (rule tele [OF shl_split shl_split shl_split shl_split [of "unat r3", unfolded top]])
qed

text \<open>Reading one more bit of the numerator, and what it does to quotient and remainder.\<close>

lemma numerator_prefix: "(n :: nat) div 2 ^ i = 2 * (n div 2 ^ Suc i) + of_bool (bit n i)"
proof -
  have "n div 2 ^ Suc i = n div 2 ^ i div 2" unfolding power_Suc2 by (rule div_mult2_eq)
  then show ?thesis by (simp add: bit_iff_odd)
qed

lemma numerator_prefix_bound: "i < 256 \<Longrightarrow> u256_val n div 2 ^ Suc i < 2 ^ 255"
proof -
  assume i: "i < 256"
  then have "256 - Suc i + Suc i = 256" by simp
  then have "(2 :: nat) ^ (256 - Suc i) * 2 ^ Suc i = TWO256"
    unfolding power_add [symmetric] TWO256_def by (rule arg_cong)
  then have "u256_val n div 2 ^ Suc i < 2 ^ (256 - Suc i)"
    using u256_val_bound [of n] by (intro less_mult_imp_div_less) (simp only:)
  also have "\<dots> \<le> 2 ^ 255" by (intro power_increasing) auto
  finally show ?thesis .
qed

lemma binary_division_step:
  fixes P D b :: nat
  assumes "0 < D" and "b \<le> 1"
  defines "r' \<equiv> 2 * (P mod D) + b"
  shows "(2 * P + b) div D = 2 * (P div D) + (if D \<le> r' then 1 else 0)"
    and "(2 * P + b) mod D = (if D \<le> r' then r' - D else r')"
proof -
  have "x < D \<Longrightarrow> 2 * x + b < 2 * D" for x using assms(2) by linarith
  then have r2: "r' < 2 * D" unfolding r'_def using assms(1) by simp
  have "2 * P + b = 2 * (D * (P div D) + P mod D) + b" by simp
  then have bm: "2 * P + b = r' + 2 * (P div D) * D"
    unfolding r'_def by (simp only: algebra_simps)
  have "(2 * P + b) div D = 2 * (P div D) + r' div D" "(2 * P + b) mod D = r' mod D"
    unfolding bm using assms(1) by simp_all
  moreover have "r' div D = (if D \<le> r' then 1 else 0)" "r' mod D = (if D \<le> r' then r' - D else r')"
    using r2 assms(1) by (auto simp: le_div_geq le_mod_geq)
  ultimately show "(2 * P + b) div D = 2 * (P div D) + (if D \<le> r' then 1 else 0)"
    and "(2 * P + b) mod D = (if D \<le> r' then r' - D else r')" by simp_all
qed

lemma divide_loop_val:
  assumes "i \<le> 256" and "0 < u256_val d"
    and "u256_val r = (u256_val n div 2 ^ i) mod u256_val d"
    and "u256_val q = 2 ^ i * ((u256_val n div 2 ^ i) div u256_val d)"
  shows "u256_val (divide_loop i n d q r) = u256_val n div u256_val d"
  using assms
proof (induction i arbitrary: q r)
  case 0
  then show ?case by simp
next
  case (Suc i)
  let ?N = "u256_val n" and ?D = "u256_val d"
  define P where "P = ?N div 2 ^ Suc i"
  define b :: nat where "b = of_bool (bit ?N i)"
  define r' where "r' = shift_in r (limb_bit n i)"
  from Suc.prems have i: "i < 256" and D: "0 < ?D" by simp_all
  have b: "b \<le> 1" by (simp add: b_def)
  have P': "?N div 2 ^ i = 2 * P + b" unfolding P_def b_def by (rule numerator_prefix)
  have "u256_val r < 2 ^ 255"
    using Suc.prems(3) numerator_prefix_bound [OF i, of n]
    by (metis mod_less_eq_dividend order.strict_trans1)
  then have r': "u256_val r' = 2 * (P mod ?D) + b"
    unfolding r'_def using shift_in_val [of r "limb_bit n i"] Suc.prems(3)
    by (simp add: limb_bit_val [OF i] b_def P_def)
  have nb: "\<not> bit (u256_val q) i"
    using Suc.prems(4) by (simp add: bit_iff_odd mult.assoc)
  note dm = binary_division_step [OF D b, of P, folded r' P']
  show ?case
  proof (cases "?D \<le> u256_val r'")
    case True
    have "u256_val (set_limb_bit q i) = 2 ^ i * ((?N div 2 ^ i) div ?D)"
      unfolding dm using True nb Suc.prems(4)
      by (simp add: set_limb_bit_val [OF i] set_bit_eq P_def algebra_simps)
    with True Suc.IH [of "fst (uint256_subtract r' d)" "set_limb_bit q i"] i D dm(2) show ?thesis
      by (simp add: r'_def [symmetric] uint256_cmp_val uint256_subtract_val Let_def)
  next
    case False
    have "u256_val q = 2 ^ i * ((?N div 2 ^ i) div ?D)"
      unfolding dm using False Suc.prems(4) by (simp add: P_def)
    with False Suc.IH [of r' q] i D dm(2) show ?thesis
      by (simp add: r'_def [symmetric] uint256_cmp_val Let_def)
  qed
qed

lemma uint256_divide_val:
  "uint256_divide n d = Some q \<Longrightarrow> u256_val q = u256_val n div u256_val d"
  using divide_loop_val [of 256 d "uint256_from_u64 0" n "uint256_from_u64 0"] u256_val_bound [of n]
  by (auto simp: uint256_divide_def uint256_is_zero_val TWO256_def split: if_splits)

section \<open>Bytes, complement, 64-bit subtraction\<close>

lemma unat_not_64: "unat (NOT (x :: u64)) = 18446744073709551615 - unat x"
proof -
  have "NOT x = UINT64_MAX - x" by (simp add: not_eq_complement)
  moreover have "x \<le> UINT64_MAX" unfolding word_le_nat_alt using unat_lt_64 [of x] by simp
  ultimately show ?thesis by (simp add: unat_sub)
qed

lemma lval_not: "lval (map NOT xs) + lval xs + 1 = 18446744073709551616 ^ length xs"
proof (induction xs)
  case Nil
  then show ?case by simp
next
  case (Cons x xs)
  have "unat (NOT x) + unat x = 18446744073709551615"
    using unat_lt_64 [of x] by (simp add: unat_not_64)
  then have "lval (map NOT (x # xs)) + lval (x # xs) + 1
      = 18446744073709551616 * (lval (map NOT xs) + lval xs + 1)"
    by simp
  also have "\<dots> = 18446744073709551616 ^ length (x # xs)"
    unfolding Cons by simp
  finally show ?case .
qed

lemma uint256_bitwise_not_val: "u256_val (uint256_bitwise_not a) = TWO256 - 1 - u256_val a"
  using lval_not [of "limbs a"]
  by (simp add: u256_val_def uint256_bitwise_not_def TWO256_limbs del: power_numeral)

lemma mod_mult_add_left: "((a mod m) * k + c) mod m = (a * k + c) mod (m :: nat)"
  by (metis mod_add_left_eq mod_mult_left_eq)

lemma limb_from_be_val:
  "unat (limb_from_be v bs) = be_val_from (unat v) bs mod 18446744073709551616"
proof (induction bs arbitrary: v)
  case Nil
  then show ?case using unat_lt_64 [of v] by simp
next
  case (Cons b bs)
  have "push_bit 8 v OR ucast b = push_bit 8 v + (ucast b :: u64)"
    by (intro disjunctive_add [symmetric])
      (auto simp: bit_push_bit_iff bit_unsigned_iff dest: bit_imp_le_length)
  moreover have "take_bit 64 (unat b) = unat b"
    using unat_lt_8 [of b] by (simp add: take_bit_nat_eq_self)
  ultimately have "unat (push_bit 8 v OR ucast b) = (256 * unat v + unat b) mod 18446744073709551616"
    by (simp add: unat_word_ariths push_bit_eq_mult unsigned_ucast_eq take_bit_word_eq_self mult.commute mod_simps)
  then show ?case
    unfolding limb_from_be.simps Cons be_val_from.simps
    by (subst (1 2) be_val_from_eq) (simp only: mod_mult_add_left)
qed

lemma uint256_from_be_bytes_val:
  assumes "length bytes = 32"
  shows "u256_val (uint256_from_be_bytes bytes) = be_val bytes"
proof -
  have limb: "unat (limb_from_be 0 (take 8 (drop k bytes))) = be_val (take 8 (drop k bytes))"
    if "k \<le> 24" for k
  proof -
    have "be_val (take 8 (drop k bytes)) < 256 ^ 8"
      using be_val_bound [of "take 8 (drop k bytes)"] that assms by simp
    then show ?thesis by (simp add: limb_from_be_val be_val_def)
  qed
  have "bytes = take 8 bytes @ take 8 (drop 8 bytes) @ take 8 (drop 16 bytes) @ take 8 (drop 24 bytes)"
  proof -
    have "take (8 + (8 + (8 + 8))) bytes = take 8 bytes @ take 8 (drop 8 bytes) @
        take 8 (drop (8 + 8) bytes) @ take 8 (drop (8 + 8 + 8) bytes)"
      by (simp only: take_add drop_drop add.assoc add.commute)
    with assms show ?thesis by simp
  qed
  then have "be_val bytes = be_val (take 8 bytes @ take 8 (drop 8 bytes) @ take 8 (drop 16 bytes) @ take 8 (drop 24 bytes))"
    by (rule arg_cong)
  also have "\<dots> = be_val (take 8 (drop 24 bytes)) + 18446744073709551616 * (be_val (take 8 (drop 16 bytes))
      + 18446744073709551616 * (be_val (take 8 (drop 8 bytes)) + 18446744073709551616 * be_val (take 8 bytes)))"
    using assms by (simp add: be_val_append)
  finally show ?thesis
    using limb [of 0] limb [of 8] limb [of 16] limb [of 24]
    by (simp add: uint256_from_be_bytes_def u256_val_def)
qed

lemma propagate_borrow_val:
  assumes "propagate_borrow xs = (ys, u)"
  shows "length ys = length xs \<and>
    lval ys + 1 = lval xs + (if u then 18446744073709551616 ^ length xs else 0)"
  using assms
proof (induction xs arbitrary: ys u)
  case Nil
  then show ?case by auto
next
  case (Cons x xs)
  show ?case
  proof (cases "x > 0")
    case True
    then have "unat (x - 1) + 1 = unat x" by (simp add: unat_sub word_less_nat_alt word_le_nat_alt)
    with True Cons.prems show ?thesis by auto
  next
    case False
    obtain zs o2 where r: "propagate_borrow xs = (zs, o2)" by fastforce
    with Cons.prems False have "ys = UINT64_MAX # zs" "u = o2" "x = 0"
      by (auto simp: word_less_nat_alt unat_eq_0)
    moreover have "lval (UINT64_MAX # zs) + 1 = 18446744073709551616 * (lval zs + 1)" by simp
    ultimately show ?thesis
      using Cons.IH [OF r] by (simp only: length_Cons lval.simps power_Suc) (auto simp: algebra_simps)
  qed
qed

lemma uint256_subtract_u64_val:
  "u256_val (fst (uint256_subtract_u64 a x)) + unat x
   = u256_val a + (if snd (uint256_subtract_u64 a x) then TWO256 else 0)"
proof (cases a)
  case (U256 l0 l1 l2 l3)
  let ?B = "18446744073709551616 :: nat"
  obtain ys u where r: "propagate_borrow [l1, l2, l3] = (ys, u)" by fastforce
  have L: "length [l1, l2, l3] = 3" by simp
  note pb = propagate_borrow_val [OF r, unfolded L]
  have len: "length ys = 3" using pb by blast
  have v: "lval ys + 1 = lval [l1, l2, l3] + (if u then ?B ^ 3 else 0)" using pb by blast
  show ?thesis
  proof (cases "x \<le> l0")
    case True
    then have "unat (l0 - x) + unat x = unat l0" by (simp add: unat_sub word_le_nat_alt)
    with True show ?thesis by (simp add: U256 u256_val_def)
  next
    case False
    define l0' where "l0' = UINT64_MAX - (x - l0) + 1"
    have "m - (x - l0) + 1 + x = (m + 1) + l0" for m by (simp add: algebra_simps)
    moreover have "UINT64_MAX + 1 = 0" by simp
    ultimately have l0': "l0' + x = l0" unfolding l0'_def by (simp only: add_0)
    have "l0' + x < l0' \<longleftrightarrow> x + l0' < x"
      unfolding word_carry_iff by (simp only: add.commute)
    then have "l0' + x < l0'" using False l0' by (simp only: add.commute not_le)
    then have c: "unat l0' + unat x = unat l0 + ?B"
      using unat_add_carry [of l0' x] unfolding l0' by simp
    have res: "uint256_subtract_u64 a x = (of_limbs (l0' # ys), u)"
      unfolding U256 uint256_subtract_u64.simps Let_def r l0'_def [symmetric] using False by simp
    have "u256_val (fst (uint256_subtract_u64 a x)) + unat x = unat l0' + unat x + ?B * lval ys"
      unfolding res using len by (simp add: u256_val_def)
    also have "\<dots> = unat l0 + ?B * (lval ys + 1)" unfolding c by simp
    also have "\<dots> = u256_val a + (if u then TWO256 else 0)"
      unfolding v by (simp add: U256 u256_val_def TWO256_def)
    finally show ?thesis by (simp add: res)
  qed
qed

lemmas u256_vals =
  uint256_from_u64_val uint256_cmp_val uint256_subtract_val uint256_is_zero_val
  uint256_bitwise_not_val

lemma uint256_add_no_overflow:
  assumes "u256_val a + u256_val b < TWO256"
  shows "u256_val (fst (uint256_add a b)) = u256_val a + u256_val b" "\<not> snd (uint256_add a b)"
  using uint256_add_val [of a b] assms by (auto split: if_splits)

lemma uint256_add_u64_no_overflow:
  assumes "u256_val a + unat x < TWO256"
  shows "u256_val (fst (uint256_add_u64 a x)) = u256_val a + unat x" "\<not> snd (uint256_add_u64 a x)"
  using uint256_add_u64_val [of a x] assms by (auto split: if_splits)

lemma uint256_add_u64_overflow_iff: "snd (uint256_add_u64 a x) \<longleftrightarrow> TWO256 \<le> u256_val a + unat x"
  using uint256_add_u64_val [of a x] u256_val_bound [of "fst (uint256_add_u64 a x)"]
  by (auto split: if_splits)

lemma uint256_add_overflow_iff: "snd (uint256_add a b) \<longleftrightarrow> TWO256 \<le> u256_val a + u256_val b"
  using uint256_add_val [of a b] u256_val_bound [of "fst (uint256_add a b)"]
  by (auto split: if_splits)

section \<open>Properties\<close>

text \<open>
  C22: the 256-bit operations the ledger and the fork choice rest on are exact. Adding two values or
  adding a 64-bit amount gives the sum modulo \<open>2 ^ 256\<close> and reports overflow exactly when the sum does
  not fit; subtraction succeeds exactly when it does not underflow and otherwise leaves the minuend
  alone; comparison orders by value; and the restoring division returns the integer quotient for
  every non-zero denominator (its shifted remainder never loses a bit), refusing zero.
\<close>

theorem uint256_arithmetic_exact:
  "u256_val (fst (uint256_add a b)) = (u256_val a + u256_val b) mod 2 ^ 256 \<and>
   (snd (uint256_add a b) = (2 ^ 256 \<le> u256_val a + u256_val b)) \<and>
   u256_val (fst (uint256_add_u64 a x)) = (u256_val a + unat x) mod 2 ^ 256 \<and>
   (snd (uint256_add_u64 a x) = (2 ^ 256 \<le> u256_val a + unat x)) \<and>
   uint256_subtract a b =
     (if u256_val b \<le> u256_val a then (fst (uint256_subtract a b), True) else (a, False)) \<and>
   u256_val (fst (uint256_subtract a b)) =
     (if u256_val b \<le> u256_val a then u256_val a - u256_val b else u256_val a) \<and>
   uint256_cmp a b = sgn (int (u256_val a) - int (u256_val b)) \<and>
   map_option u256_val (uint256_divide a b) =
     (if u256_val b = 0 then None else Some (u256_val a div u256_val b))"
proof -
  have mod_id: "r = s mod T" if "r + (if f then T else 0) = s" "r < T" for r s T :: nat and f
    using that by (auto split: if_splits)
  have 1: "u256_val (fst (uint256_add a b)) = (u256_val a + u256_val b) mod TWO256"
    by (rule mod_id [OF uint256_add_val u256_val_bound])
  have 2: "u256_val (fst (uint256_add_u64 a x)) = (u256_val a + unat x) mod TWO256"
    by (rule mod_id [OF uint256_add_u64_val u256_val_bound])
  have 3: "uint256_subtract a b =
      (if u256_val b \<le> u256_val a then (fst (uint256_subtract a b), True) else (a, False))"
    using uint256_subtract_val [of a b] by (auto simp: prod_eq_iff u256_val_inj)
  have 4: "uint256_cmp a b = sgn (int (u256_val a) - int (u256_val b))"
    by (auto simp: uint256_cmp_val sgn_if)
  have 5: "map_option u256_val (uint256_divide a b) =
      (if u256_val b = 0 then None else Some (u256_val a div u256_val b))"
  proof (cases "u256_val b = 0")
    case True
    then show ?thesis by (simp add: uint256_divide_def uint256_is_zero_val)
  next
    case False
    then obtain q where "uint256_divide a b = Some q"
      by (auto simp: uint256_divide_def uint256_is_zero_val)
    with False uint256_divide_val [OF this] show ?thesis by simp
  qed
  show ?thesis
    unfolding TWO256_def [symmetric]
    by (intro conjI 1 2 3 4 5 uint256_add_overflow_iff uint256_add_u64_overflow_iff
        uint256_subtract_val(2))
qed

end
