(* ===== verification/Utils.thy ===== *)
theory Utils
  imports Uint256
begin

text \<open>
  The helpers of \<^verbatim>\<open>include/utils.h\<close> and \<^verbatim>\<open>src/crypto/crypto.c\<close> that consensus and the user interface
  share: byte-wise comparison of hashes with targets, decoding of compact difficulty targets, and
  printing and parsing of addresses as hexadecimal.
\<close>

definition PROTO_VERSION :: u32 where "PROTO_VERSION = 1"

section \<open>Comparing big-endian byte strings\<close>

text \<open>
  \<^verbatim>\<open>CompareHashToTarget\<close> (utils.h), \<^verbatim>\<open>Uint256_CompareBE\<close> (block.c) and \<^verbatim>\<open>Cmp256BE\<close> (autolykos2.c) are
  three copies of one loop over the 32 bytes.
\<close>

fun CompareHashToTarget :: "byte list \<Rightarrow> byte list \<Rightarrow> int" where
  "CompareHashToTarget (h # hs) (t # ts) =
     (if h < t then - 1 else if h > t then 1 else CompareHashToTarget hs ts)"
| "CompareHashToTarget _ _ = 0"

section \<open>Compact difficulty targets\<close>

definition target_with :: "nat \<Rightarrow> u32 \<Rightarrow> byte list" where
  "target_with k mantissa =
     (replicate 32 0)[k := ucast (drop_bit 16 mantissa AND 0xff),
                      k + 1 := ucast (drop_bit 8 mantissa AND 0xff),
                      k + 2 := ucast (mantissa AND 0xff)]"

definition DecodeCompactTarget :: "u32 \<Rightarrow> byte list option" where
  "DecodeCompactTarget nBits =
     (let exponent = drop_bit 24 nBits;
          mantissa = nBits AND 0x007fffff;
          negative = (nBits AND 0x00800000 \<noteq> 0)
      in if negative \<or> mantissa = 0 then None
         else if exponent \<le> 3 then Some (target_with 29 (drop_bit (8 * (3 - unat exponent)) mantissa))
         else (let byteIndex = unat exponent - 3 in
               if byteIndex > 29 then None else Some (target_with (32 - byteIndex - 3) mantissa)))"

section \<open>Hexadecimal addresses\<close>

definition hex_digit :: "nat \<Rightarrow> char" where
  "hex_digit n = ''0123456789abcdef'' ! n"

definition to_hex :: "byte list \<Rightarrow> string" where
  "to_hex bytes = concat (map (\<lambda>b. [hex_digit (unat (drop_bit 4 b)), hex_digit (unat (b AND 0x0F))]) bytes)"

definition AddressToHexString :: "byte list \<Rightarrow> string" where
  "AddressToHexString address = to_hex address"

definition hex_value :: "char \<Rightarrow> int" where
  "hex_value c =
     (let v = (of_char c :: int) in
      if of_char (CHR ''0'') \<le> v \<and> v \<le> of_char (CHR ''9'') then v - of_char (CHR ''0'')
      else if of_char (CHR ''a'') \<le> v \<and> v \<le> of_char (CHR ''f'') then 10 + v - of_char (CHR ''a'')
      else if of_char (CHR ''A'') \<le> v \<and> v \<le> of_char (CHR ''F'') then 10 + v - of_char (CHR ''A'')
      else - 1)"

fun parse_hex_pairs :: "string \<Rightarrow> byte list option" where
  "parse_hex_pairs (hi # lo # rest) =
     (if hex_value hi < 0 \<or> hex_value lo < 0 then None
      else map_option (\<lambda>bs. (push_bit 4 (of_int (hex_value hi)) OR of_int (hex_value lo)) # bs)
             (parse_hex_pairs rest))"
| "parse_hex_pairs _ = Some []"

fun skip_0x :: "string \<Rightarrow> string" where
  "skip_0x (c # d # rest) =
     (if c = CHR ''0'' \<and> (d = CHR ''x'' \<or> d = CHR ''X'') then rest else c # d # rest)"
| "skip_0x s = s"

definition ParseHexAddress32 :: "string \<Rightarrow> byte list option" where
  "ParseHexAddress32 s = (let p = skip_0x s in if length p \<noteq> 64 then None else parse_hex_pairs p)"

section \<open>Comparison lemmas\<close>

lemma be_val_less_msb:
  assumes "length as = length bs" and "a < (b :: byte)"
  shows "be_val (a # as) < be_val (b # bs)"
proof -
  have "Suc (unat a) * 256 ^ length bs \<le> unat b * 256 ^ length bs"
    using assms(2) by (intro mult_le_mono1) (simp add: word_less_nat_alt)
  moreover have "be_val as < 256 ^ length bs" using be_val_bound [of as] assms(1) by simp
  ultimately show ?thesis
    unfolding be_val_Cons mult_Suc assms(1) by linarith
qed

lemma CompareHashToTarget_val:
  "length hs = length ts \<Longrightarrow> CompareHashToTarget hs ts =
     (if be_val hs < be_val ts then - 1 else if be_val ts < be_val hs then 1 else 0)"
proof (induction hs ts rule: list_induct2)
  case Nil
  then show ?case by simp
next
  case (Cons h hs t ts)
  show ?case
  proof (cases h t rule: linorder_cases)
    case less
    then show ?thesis using be_val_less_msb [OF Cons.hyps less] by simp
  next
    case equal
    then show ?thesis using Cons by simp
  next
    case greater
    then show ?thesis using be_val_less_msb [OF Cons.hyps [symmetric] greater] by simp
  qed
qed

lemma CompareHashToTarget_le0:
  "length hs = length ts \<Longrightarrow> CompareHashToTarget hs ts \<le> 0 \<longleftrightarrow> be_val hs \<le> be_val ts"
  by (auto simp: CompareHashToTarget_val)

section \<open>Compact target lemmas\<close>

definition compact_mantissa :: "u32 \<Rightarrow> nat" where
  "compact_mantissa nBits = unat (nBits AND 0x007fffff)"

definition compact_exponent :: "u32 \<Rightarrow> nat" where
  "compact_exponent nBits = unat (drop_bit 24 nBits)"

lemma length_target_with [simp, bytes_simps]: "length (target_with k m) = 32"
  by (simp add: target_with_def)

lemma DecodeCompactTarget_length: "DecodeCompactTarget nBits = Some t \<Longrightarrow> length t = 32"
  by (auto simp: DecodeCompactTarget_def Let_def split: if_splits)

lemma be_val_update3:
  assumes "k + 2 < n"
  shows "be_val ((replicate n 0)[k := a, k + 1 := b, k + 2 := c])
    = (unat a * 65536 + unat b * 256 + unat c) * 256 ^ (n - 3 - k)"
proof -
  have "(replicate n 0)[k := a, k + 1 := b, k + 2 := c]
      = replicate k 0 @ [a, b, c] @ replicate (n - 3 - k) 0"
    using assms by (intro nth_equalityI) (auto simp: nth_append nth_list_update nth_Cons split: nat.splits)
  then show ?thesis
    by (simp add: be_val_append power_add algebra_simps)
qed

lemma unat_low_byte: "unat (ucast ((m :: u32) AND 0xff) :: byte) = unat m mod 256"
proof -
  have "m AND 0xff = take_bit 8 m" using and_mask_take_bit [of m 8] by simp
  then show ?thesis by (simp only: unat_ucast_take unat_take_bit) simp
qed

lemma mult_256_256: "(256 :: nat) * 256 = 65536"
  by simp

lemma bytes3_split:
  assumes "x < 2 ^ 23"
  shows "x div 65536 mod 256 * 65536 + x div 256 mod 256 * 256 + x mod 256 = (x :: nat)"
proof -
  have "x div 65536 < 128" using assms by (simp add: less_mult_imp_div_less)
  then have "x div 65536 mod 256 = x div 256 div 256" by (simp add: div_mult2_eq [symmetric])
  moreover have "x div 256 div 256 * 256 + x div 256 mod 256 = x div 256" by (rule div_mult_mod_eq)
  moreover have "x div 256 * 256 + x mod 256 = x" by (rule div_mult_mod_eq)
  ultimately show ?thesis by (metis add_mult_distrib mult.assoc mult_256_256)
qed

lemma target_with_val:
  assumes "k \<le> 29" and "unat m < 2 ^ 23"
  shows "be_val (target_with k m) = unat m * 256 ^ (29 - k)"
proof -
  have "be_val (target_with k m)
      = (unat m div 65536 mod 256 * 65536 + unat m div 256 mod 256 * 256 + unat m mod 256)
        * 256 ^ (29 - k)"
    unfolding target_with_def using assms(1) be_val_update3 [of k 32]
    by (simp only: unat_low_byte unat_drop_bit) simp
  then show ?thesis using bytes3_split [OF assms(2)] by (simp only:)
qed

lemma compact_mantissa_bound: "compact_mantissa nBits < 2 ^ 23"
proof -
  have "nBits AND 0x007fffff = take_bit 23 nBits" using and_mask_take_bit [of nBits 23] by simp
  then show ?thesis unfolding compact_mantissa_def by (simp only: unat_take_bit) simp
qed

definition compact_value :: "u32 \<Rightarrow> nat" where
  "compact_value nBits =
     (if compact_exponent nBits \<le> 3
      then compact_mantissa nBits div 256 ^ (3 - compact_exponent nBits)
      else compact_mantissa nBits * 256 ^ (compact_exponent nBits - 3))"

lemma DecodeCompactTarget_Some:
  "DecodeCompactTarget nBits =
     (if nBits AND 0x00800000 \<noteq> 0 \<or> compact_mantissa nBits = 0 \<or> 32 < compact_exponent nBits then None
      else Some (if compact_exponent nBits \<le> 3
                 then target_with 29 (drop_bit (8 * (3 - compact_exponent nBits)) (nBits AND 0x007fffff))
                 else target_with (32 - compact_exponent nBits) (nBits AND 0x007fffff)))"
proof -
  define m where "m = nBits AND 0x007fffff"
  define e where "e = drop_bit 24 nBits"
  have "(e \<le> 3) = (unat e \<le> 3)" by (simp add: word_le_nat_alt)
  then show ?thesis
    unfolding DecodeCompactTarget_def compact_mantissa_def compact_exponent_def m_def [symmetric]
      e_def [symmetric] Let_def
    by (auto simp: unat_eq_0)
qed

lemma DecodeCompactTarget_val:
  assumes "DecodeCompactTarget nBits = Some t"
  shows "be_val t = compact_value nBits"
proof -
  define m where "m = nBits AND 0x007fffff"
  have m: "unat m < 2 ^ 23" "unat m = compact_mantissa nBits"
    using compact_mantissa_bound [of nBits] by (simp_all add: compact_mantissa_def m_def)
  have md: "unat (drop_bit n m) = unat m div 2 ^ n" "unat (drop_bit n m) < 2 ^ 23" for n
    unfolding unat_drop_bit using m(1) by (auto intro: le_less_trans [OF div_le_dividend])
  have p: "(2 :: nat) ^ (8 * n) = 256 ^ n" for n by (simp add: power_mult)
  show ?thesis
  proof (cases "compact_exponent nBits \<le> 3")
    case True
    then have "t = target_with 29 (drop_bit (8 * (3 - compact_exponent nBits)) m)"
      using assms unfolding DecodeCompactTarget_Some m_def by (auto split: if_splits)
    then show ?thesis
      using True target_with_val [OF order.refl md(2)]
      by (simp only: compact_value_def md(1) m(2) p) simp
  next
    case False
    then have "t = target_with (32 - compact_exponent nBits) m" "compact_exponent nBits \<le> 32"
      using assms unfolding DecodeCompactTarget_Some m_def by (auto split: if_splits)
    then show ?thesis
      using False m by (simp add: target_with_val compact_value_def)
  qed
qed

section \<open>Hexadecimal round trip\<close>

lemma hex_value_digit: "n < 16 \<Longrightarrow> hex_value (hex_digit n) = int n"
  by (auto simp: hex_value_def hex_digit_def Let_def less_Suc_eq numeral_eq_Suc nth_Cons')

lemma nibbles: "push_bit 4 (drop_bit 4 b) OR (b AND 0x0F) = (b :: byte)"
proof -
  have "b AND 0x0F = take_bit 4 b" using and_mask_take_bit [of b 4] by simp
  then show ?thesis by (simp only: ) (rule bit_eqI, auto simp: bit_simps)
qed

lemma nibble_bounds: "unat (drop_bit 4 (b :: byte)) < 16" "unat (b AND 0x0F) < 16"
proof -
  show "unat (drop_bit 4 b) < 16" unfolding unat_drop_bit using unat_lt_8 [of b] by simp
  have "b AND 0x0F = take_bit 4 b" using and_mask_take_bit [of b 4] by simp
  then show "unat (b AND 0x0F) < 16" by (simp only: unat_take_bit) simp
qed

lemma length_to_hex [bytes_simps]: "length (to_hex bs) = 2 * length bs"
  by (induction bs) (auto simp: to_hex_def)

lemma parse_hex_pairs_to_hex: "parse_hex_pairs (to_hex bs) = Some bs"
proof (induction bs)
  case Nil
  then show ?case by (simp add: to_hex_def)
next
  case (Cons b bs)
  define hi lo where "hi = drop_bit 4 b" and "lo = b AND 0x0F"
  have h: "hex_value (hex_digit (unat hi)) = int (unat hi)" "hex_value (hex_digit (unat lo)) = int (unat lo)"
    using nibble_bounds [of b] by (simp_all add: hex_value_digit hi_def lo_def)
  have "to_hex (b # bs) = hex_digit (unat hi) # hex_digit (unat lo) # to_hex bs"
    by (simp add: to_hex_def hi_def lo_def)
  then show ?case
    using Cons nibbles [of b] by (simp add: h hi_def [symmetric] lo_def [symmetric])
qed

lemma hex_digit_not_x: "n < 16 \<Longrightarrow> hex_digit n \<noteq> CHR ''x'' \<and> hex_digit n \<noteq> CHR ''X''"
  by (auto simp: hex_digit_def less_Suc_eq numeral_eq_Suc nth_Cons')

lemma skip_0x_to_hex: "skip_0x (to_hex bs) = to_hex bs"
  using hex_digit_not_x nibble_bounds by (cases bs) (auto simp: to_hex_def)

section \<open>Properties\<close>

text \<open>
  For two 32-byte strings, \<^verbatim>\<open>CompareHashToTarget\<close> orders them as the 256-bit big-endian
  numbers they denote; in particular the proof-of-work test (result at most zero) is exactly
  "the hash, read as a number, does not exceed the target".
\<close>

lemma CompareHashToTarget_numeric:
  assumes "length hash = 32" and "length target = 32"
  shows "CompareHashToTarget hash target = sgn (int (be_val hash) - int (be_val target))"
  using assms by (simp add: CompareHashToTarget_val sgn_if)

text \<open>
  \<^verbatim>\<open>DecodeCompactTarget\<close> rejects exactly the encodings with the sign bit, a zero mantissa or an
  exponent above 32, and otherwise produces 32 bytes whose big-endian value is the mantissa scaled
  by 256 to the power of the exponent minus three, digits below the last byte dropped.
\<close>

lemma DecodeCompactTarget_correct:
  "case DecodeCompactTarget nBits of
     None \<Rightarrow> bit nBits 23 \<or> compact_mantissa nBits = 0 \<or> 32 < compact_exponent nBits
   | Some t \<Rightarrow> \<not> (bit nBits 23 \<or> compact_mantissa nBits = 0 \<or> 32 < compact_exponent nBits)
       \<and> length t = 32 \<and> be_val t = compact_value nBits"
proof -
  have sign: "(nBits AND 0x00800000 \<noteq> 0) = bit nBits 23"
    using bit_iff_and_push_bit_not_eq_0 [of nBits 23] by (simp add: push_bit_eq_mult)
  show ?thesis
  proof (cases "DecodeCompactTarget nBits")
    case None
    then show ?thesis unfolding DecodeCompactTarget_Some sign by (auto split: if_splits)
  next
    case (Some t)
    then have "\<not> (bit nBits 23 \<or> compact_mantissa nBits = 0 \<or> 32 < compact_exponent nBits)"
      unfolding DecodeCompactTarget_Some sign by (auto split: if_splits)
    then show ?thesis
      using Some DecodeCompactTarget_val [OF Some] DecodeCompactTarget_length [OF Some] by simp
  qed
qed

text \<open>
  Parsing a printed address gives the address back, with or without the \<^verbatim>\<open>0x\<close> prefix the user
  may type.
\<close>

lemma ParseHexAddress32_AddressToHexString:
  assumes "length address = 32"
  shows "ParseHexAddress32 (AddressToHexString address) = Some address \<and>
    ParseHexAddress32 (''0x'' @ AddressToHexString address) = Some address"
  using assms
  by (simp add: ParseHexAddress32_def AddressToHexString_def skip_0x_to_hex length_to_hex
      parse_hex_pairs_to_hex)

end
