(* ===== verification/Console_Text.thy ===== *)
theory Console_Text
  imports Utils
begin

text \<open>
  Text at the prompt: printing 256-bit numbers in decimal (\<^verbatim>\<open>include/utils.h\<close>, \<^verbatim>\<open>include/uint256.h\<close>), and what
  \<^verbatim>\<open>src/main.c\<close> uses of the C library to read a command: \<^verbatim>\<open>fgets\<close>, \<^verbatim>\<open>strtok\<close>, \<^verbatim>\<open>strtoull\<close>, \<^verbatim>\<open>strtol\<close> and \<^verbatim>\<open>strtoul\<close>.
  A C string is the list of its characters before the terminator.
\<close>

section \<open>Printing numbers\<close>

text \<open>
  One pass of the division by ten, from the most significant limb down. The 128-bit intermediate value is a
  natural number, which it cannot exceed.
\<close>

fun div10 :: "u64 list \<Rightarrow> u64 \<Rightarrow> u64 list \<times> u64" where
  "div10 [] remainder = ([], remainder)"
| "div10 (t # ts) remainder =
     (let cur = unat remainder * 2 ^ 64 + unat t in
      case div10 ts (of_nat (cur mod 10)) of (qs, r) \<Rightarrow> (of_nat (cur div 10) # qs, r))"

definition digit_char :: "nat \<Rightarrow> char" where
  "digit_char n = char_of (48 + int n)"

text \<open>The digits, least significant first; the buffer takes 79 of them.\<close>

function decimal_digits :: "u64 list \<Rightarrow> nat \<Rightarrow> string" where
  "decimal_digits tmp digitCount =
     (if list_all (\<lambda>t. t = 0) tmp then []
      else case div10 tmp 0 of
        (tmp', remainder) \<Rightarrow>
          if digitCount < 79 then digit_char (unat remainder) # decimal_digits tmp' (Suc digitCount) else [])"
  by pat_completeness auto
termination by (relation "measure (\<lambda>(tmp, digitCount). 79 - digitCount)") auto

definition uint256_serialize :: "uint256_t \<Rightarrow> string" where
  "uint256_serialize value = rev (decimal_digits (rev (limbs value)) 0)"

text \<open>\<open>None\<close>: the buffer is left as it was.\<close>

definition Uint256ToDecimal :: "uint256_t \<Rightarrow> nat \<Rightarrow> string option" where
  "Uint256ToDecimal value outSize =
     (if outSize = 0 then None
      else if list_all (\<lambda>t. t = 0) (limbs value) then Some (if outSize \<ge> 2 then ''0'' else [])
      else
        let digits = decimal_digits (rev (limbs value)) 0; digitCount = length digits;
            writeLen = (if digitCount < outSize - 1 then digitCount else outSize - 1)
        in Some (map (\<lambda>i. digits ! (digitCount - 1 - i)) [0..<writeLen]))"

section \<open>Reading numbers\<close>

definition isspace :: "char \<Rightarrow> bool" where
  "isspace c \<longleftrightarrow> c = CHR '' '' \<or> of_char c \<in> {9 .. 13 :: nat}"

text \<open>The value of a character as a digit of the base.\<close>

definition digit_of :: "nat \<Rightarrow> char \<Rightarrow> nat option" where
  "digit_of base c =
     (let v = (if hex_value c < 0 then None else Some (nat (hex_value c))) in
      case v of None \<Rightarrow> None | Some d \<Rightarrow> if d < base then Some d else None)"

fun digits_from :: "nat \<Rightarrow> nat \<Rightarrow> string \<Rightarrow> nat \<times> string" where
  "digits_from base acc [] = (acc, [])"
| "digits_from base acc (c # s) =
     (case digit_of base c of None \<Rightarrow> (acc, c # s) | Some d \<Rightarrow> digits_from base (acc * base + d) s)"

fun skip_sign :: "string \<Rightarrow> bool \<times> string" where
  "skip_sign [] = (False, [])"
| "skip_sign (c # s) = (if c = CHR ''-'' then (True, s) else if c = CHR ''+'' then (False, s) else (False, c # s))"

text \<open>In base 16 a \<open>0x\<close> counts only in front of a digit.\<close>

fun skip_prefix :: "nat \<Rightarrow> string \<Rightarrow> string" where
  "skip_prefix base (a # b # c # s) =
     (if base = 16 \<and> a = CHR ''0'' \<and> (b = CHR ''x'' \<or> b = CHR ''X'') \<and> digit_of base c \<noteq> None then c # s else a # b # c # s)"
| "skip_prefix base s = s"

text \<open>Sign, magnitude and the place where reading stopped; without any digit this is the start of the string.\<close>

definition scan_number :: "nat \<Rightarrow> string \<Rightarrow> (bool \<times> nat) option \<times> string" where
  "scan_number base s =
     (case skip_sign (dropWhile isspace s) of
        (neg, rest) \<Rightarrow>
          let ds = skip_prefix base rest in
          (case ds of
             [] \<Rightarrow> (None, s)
           | c # _ \<Rightarrow> if digit_of base c = None then (None, s)
                      else case digits_from base 0 ds of (m, rest') \<Rightarrow> (Some (neg, m), rest')))"

text \<open>Values beyond the type are replaced by its largest (or smallest) value, as the C library does.\<close>

definition strtoull :: "nat \<Rightarrow> string \<Rightarrow> u64 \<times> string" where
  "strtoull base s =
     (case scan_number base s of
        (None, rest) \<Rightarrow> (0, rest)
      | (Some (neg, m), rest) \<Rightarrow> (if m \<ge> 2 ^ 64 then UINT64_MAX else if neg then - of_nat m else of_nat m, rest))"

definition strtol :: "nat \<Rightarrow> string \<Rightarrow> int \<times> string" where
  "strtol base s =
     (case scan_number base s of
        (None, rest) \<Rightarrow> (0, rest)
      | (Some (neg, m), rest) \<Rightarrow>
          (if neg then max (- (2 ^ 63)) (- int m) else min (2 ^ 63 - 1) (int m), rest))"

text \<open>The check the commands make on a number: no leading minus, nothing left over.\<close>

definition number_arg :: "string \<Rightarrow> u64 option" where
  "number_arg s =
     (case strtoull 10 s of
        (v, rest) \<Rightarrow> if s = [] \<or> hd s = CHR ''-'' \<or> rest \<noteq> [] then None else Some v)"

definition port_arg :: "string \<Rightarrow> 16 word option" where
  "port_arg s =
     (case strtol 10 s of
        (v, rest) \<Rightarrow> if s = [] \<or> hd s = CHR ''-'' \<or> rest \<noteq> [] \<or> v \<le> 0 \<or> v > 65535 then None else Some (of_int v))"

section \<open>Lines and words\<close>

text \<open>\<^verbatim>\<open>fgets\<close> reads up to a line feed, at most one character less than the buffer holds; \<open>None\<close> at the end of the input.\<close>

fun fgets_loop :: "nat \<Rightarrow> string \<Rightarrow> string \<times> string" where
  "fgets_loop 0 input = ([], input)"
| "fgets_loop (Suc n) [] = ([], [])"
| "fgets_loop (Suc n) (c # input) =
     (if c = CHR 0x0A then ([c], input) else case fgets_loop n input of (l, rest) \<Rightarrow> (c # l, rest))"

definition fgets :: "nat \<Rightarrow> string \<Rightarrow> (string \<times> string) option" where
  "fgets bufSize input = (if input = [] then None else Some (fgets_loop (bufSize - 1) input))"

text \<open>\<^verbatim>\<open>line[strcspn(line, "\r\n")] = '\0'\<close>; the string ends at a zero byte anyway.\<close>

definition cut_line :: "string \<Rightarrow> string" where
  "cut_line line = takeWhile (\<lambda>c. c \<noteq> CHR 0x0D \<and> c \<noteq> CHR 0x0A \<and> c \<noteq> CHR 0x00) line"

definition blank :: "char \<Rightarrow> bool" where
  "blank c \<longleftrightarrow> c = CHR '' '' \<or> c = CHR 0x09"

text \<open>One call of \<^verbatim>\<open>strtok\<close> with blanks and tabulators: the word and what the next call goes on with.\<close>

definition strtok :: "string \<Rightarrow> (string \<times> string) option" where
  "strtok s =
     (let s' = dropWhile blank s in
      if s' = [] then None else Some (takeWhile (\<lambda>c. \<not> blank c) s', tl (dropWhile (\<lambda>c. \<not> blank c) s')))"

lemma strtok_shorter: "strtok s = Some (w, rest) \<Longrightarrow> length rest < length s"
proof -
  assume a: "strtok s = Some (w, rest)"
  let ?s = "dropWhile blank s"
  have ne: "?s \<noteq> []" and r: "rest = tl (dropWhile (\<lambda>c. \<not> blank c) ?s)" using a by (auto simp: strtok_def Let_def split: if_splits)
  have "length rest \<le> length (dropWhile (\<lambda>c. \<not> blank c) ?s) - 1" using r by simp
  moreover have "length (dropWhile (\<lambda>c. \<not> blank c) ?s) \<le> length ?s" "length ?s \<le> length s" by (simp_all add: length_dropWhile_le)
  moreover have "0 < length ?s" using ne by simp
  ultimately show ?thesis by linarith
qed

text \<open>All the words of a line.\<close>

function words_of :: "string \<Rightarrow> string list" where
  "words_of s = (case strtok s of None \<Rightarrow> [] | Some (w, rest) \<Rightarrow> w # words_of rest)"
  by pat_completeness auto
termination by (relation "measure length") (auto simp: strtok_shorter)

declare words_of.simps [simp del] decimal_digits.simps [simp del]

section \<open>Printing is decimal notation\<close>

text \<open>The reference: the decimal notation of a natural number.\<close>

fun dec :: "nat \<Rightarrow> string" where
  "dec n = (if n < 10 then [digit_char n] else dec (n div 10) @ [digit_char (n mod 10)])"

declare dec.simps [simp del]

lemma div10_val:
  "unat r < 10 \<Longrightarrow> div10 ts r = (qs, r') \<Longrightarrow>
     length qs = length ts \<and> unat r' < 10 \<and> 10 * lval (rev qs) + unat r' = unat r * 18446744073709551616 ^ length ts + lval (rev ts)"
proof (induction ts arbitrary: r qs)
  case (Cons t ts)
  define cur where "cur = unat r * 18446744073709551616 + unat t"
  let ?B = "18446744073709551616 ^ length ts :: nat"
  obtain qs0 where d: "div10 ts (of_nat (cur mod 10)) = (qs0, r')" and qs: "qs = of_nat (cur div 10) # qs0"
    using Cons.prems(2) by (auto simp: Let_def cur_def split: prod.splits)
  have "cur < 10 * 2 ^ 64" using Cons.prems(1) unat_lt_64 [of t] by (simp add: cur_def)
  then have q: "unat (of_nat (cur div 10) :: u64) = cur div 10" by (intro unat_of_nat_64) simp
  have m: "unat (of_nat (cur mod 10) :: u64) = cur mod 10" by (intro unat_of_nat_64) simp
  have ih: "length qs0 = length ts" "unat r' < 10" "10 * lval (rev qs0) + unat r' = cur mod 10 * ?B + lval (rev ts)"
    using Cons.IH [OF _ d, unfolded m] by simp_all
  have "10 * lval (rev qs) + unat r' = 10 * (cur div 10) * ?B + (10 * lval (rev qs0) + unat r')"
    using qs q ih(1) by (simp add: lval_snoc)
  also have "\<dots> = (10 * (cur div 10) + cur mod 10) * ?B + lval (rev ts)" unfolding ih(3) distrib_right by simp
  also have "\<dots> = cur * ?B + lval (rev ts)" by simp
  also have "\<dots> = unat r * 18446744073709551616 ^ length (t # ts) + lval (rev (t # ts))" by (simp add: cur_def lval_snoc distrib_right)
  finally show ?case using ih(1,2) qs by simp
qed simp

lemma lval_zero_iff: "lval ts = 0 \<longleftrightarrow> list_all (\<lambda>t. t = 0) ts"
  by (induction ts) (auto simp: unat_eq_0)

lemma decimal_digits_dec:
  "0 < lval (rev ts) \<Longrightarrow> lval (rev ts) < 10 ^ (79 - k) \<Longrightarrow> k \<le> 79 \<Longrightarrow> rev (decimal_digits ts k) = dec (lval (rev ts))"
proof (induction ts k rule: decimal_digits.induct)
  case (1 tmp k)
  let ?n = "lval (rev tmp)"
  obtain qs r where d: "div10 tmp 0 = (qs, r)" by fastforce
  have v: "unat r < 10" "10 * lval (rev qs) + unat r = ?n" using div10_val [OF _ d] by simp_all
  have nz: "\<not> list_all (\<lambda>t. t = 0) tmp" using 1(2) lval_zero_iff [of "rev tmp"] by simp
  have k: "k < 79" using 1(2-4) by (cases "k = 79") simp_all
  have e: "rev (decimal_digits tmp k) = rev (decimal_digits qs (Suc k)) @ [digit_char (unat r)]"
    using nz d k by (subst decimal_digits.simps) simp
  have r: "unat r = ?n mod 10" "lval (rev qs) = ?n div 10" using v(1) unfolding v(2) [symmetric] by simp_all
  show ?case
  proof (cases "?n < 10")
    case True
    then have "lval (rev qs) = 0" using r by simp
    then have "decimal_digits qs (Suc k) = []" using lval_zero_iff [of "rev qs"] by (subst decimal_digits.simps) simp
    then show ?thesis using True e r by (subst dec.simps) simp
  next
    case False
    have "10 ^ (79 - k) = (10 :: nat) * 10 ^ (79 - Suc k)" using k by (simp add: Suc_diff_Suc flip: power_Suc)
    then have "lval (rev qs) < 10 ^ (79 - Suc k)" using 1(3) r(2) by (simp add: less_mult_imp_div_less mult.commute)
    then have "rev (decimal_digits qs (Suc k)) = dec (?n div 10)"
      using 1(1) [OF nz d [symmetric] k] False r(2) k by simp
    then show ?thesis using False e r by (subst dec.simps) simp
  qed
qed

lemma dec_nonempty: "dec n \<noteq> []"
  by (subst dec.simps) simp

lemma length_dec: "n < 10 ^ Suc k \<Longrightarrow> length (dec n) \<le> Suc k"
proof (induction k arbitrary: n)
  case (Suc k)
  then have "n div 10 < 10 ^ Suc k" by (simp add: less_mult_imp_div_less mult.commute)
  then show ?case using Suc.IH by (subst dec.simps) simp
qed (simp add: dec.simps)

lemma TWO256_digits: "TWO256 < 10 ^ 78"
  by (simp add: TWO256_def)

lemma serialize_dec: "u256_val v \<noteq> 0 \<Longrightarrow> uint256_serialize v = dec (u256_val v)"
proof -
  assume nz: "u256_val v \<noteq> 0"
  have "u256_val v < 10 ^ 78" using u256_val_bound [of v] TWO256_digits by (rule less_trans)
  also have "(10 :: nat) ^ 78 \<le> 10 ^ (79 - 0)" by simp
  finally show ?thesis unfolding uint256_serialize_def using nz decimal_digits_dec [of "rev (limbs v)" 0] by (simp add: u256_val_def)
qed

lemma map_from_end: "k \<le> length ds \<Longrightarrow> map (\<lambda>i. ds ! (length ds - 1 - i)) [0..<k] = take k (rev ds)"
  by (intro nth_equalityI) (simp_all add: rev_nth)

text \<open>The number is written out whole when the buffer is large enough, else its leading digits.\<close>

lemma ToDecimal_dec:
  "Uint256ToDecimal v outSize = (if outSize = 0 then None else Some (take (outSize - 1) (dec (u256_val v))))"
proof (cases "u256_val v = 0")
  case True
  then have "list_all (\<lambda>t. t = 0) (limbs v)" using lval_zero_iff by (simp add: u256_val_def)
  moreover have "dec 0 = ''0''" by (simp add: dec.simps digit_char_def char_of_def)
  ultimately show ?thesis using True by (auto simp: Uint256ToDecimal_def)
next
  case False
  then have "\<not> list_all (\<lambda>t. t = 0) (limbs v)" using lval_zero_iff by (simp add: u256_val_def)
  moreover have "rev (decimal_digits (rev (limbs v)) 0) = dec (u256_val v)" using serialize_dec [OF False] by (simp add: uint256_serialize_def)
  ultimately show ?thesis
    using map_from_end [of _ "decimal_digits (rev (limbs v)) 0"] length_rev [of "decimal_digits (rev (limbs v)) 0"]
    by (auto simp: Uint256ToDecimal_def Let_def)
qed

section \<open>Reading numbers back\<close>

lemma digit_of_char: "d < 10 \<Longrightarrow> base \<ge> 10 \<Longrightarrow> digit_of base (digit_char d) = Some d"
proof -
  assume d: "d < 10" "base \<ge> 10"
  have "of_char (digit_char d) = 48 + int d" using d by (simp add: digit_char_def)
  then have "hex_value (digit_char d) = int d" using d by (simp add: hex_value_def Let_def)
  then show ?thesis using d by (simp add: digit_of_def)
qed

lemma digit_char_plain: "d < 10 \<Longrightarrow> \<not> isspace (digit_char d) \<and> digit_char d \<noteq> CHR ''-'' \<and> digit_char d \<noteq> CHR ''+'' \<and> \<not> blank (digit_char d)"
proof -
  assume "d < 10"
  then have "d \<in> {0, 1, 2, 3, 4, 5, 6, 7, 8, 9}" by auto
  then show ?thesis by (auto simp: digit_char_def char_of_def isspace_def blank_def)
qed

definition is_digit :: "char \<Rightarrow> bool" where
  "is_digit c \<longleftrightarrow> (\<exists>d<10. c = digit_char d)"

lemma is_digit_char [simp]: "d < 10 \<Longrightarrow> is_digit (digit_char d)"
  by (auto simp: is_digit_def)

lemma dec_digits: "list_all is_digit (dec n)"
  by (induction n rule: dec.induct) (subst dec.simps, auto)

lemma digits_from_dec: "digits_from 10 acc (dec n @ s) = digits_from 10 (acc * 10 ^ length (dec n) + n) s"
proof (induction n arbitrary: acc s rule: dec.induct)
  case (1 n)
  show ?case
  proof (cases "n < 10")
    case True
    then show ?thesis by (simp add: dec.simps [of n] digit_of_char)
  next
    case False
    then have e: "dec n = dec (n div 10) @ [digit_char (n mod 10)]" by (subst dec.simps) simp
    have m: "n mod 10 < 10" by simp
    have "10 * (n div 10) + n mod 10 = n" by simp
    then show ?thesis unfolding e using 1 [OF False] digit_of_char [OF m, of 10] by (simp add: algebra_simps)
  qed
qed

text \<open>The commands read a decimal number as itself; one that does not fit becomes the largest number.\<close>

lemma number_arg_dec: "number_arg (dec n) = Some (if n < 2 ^ 64 then of_nat n else UINT64_MAX)"
proof -
  obtain c s where e: "dec n = c # s" using dec_nonempty by (cases "dec n") auto
  obtain d where d: "d < 10" "c = digit_char d" using dec_digits [of n] e by (auto simp: is_digit_def)
  note pl = digit_char_plain [OF d(1)]
  have "c \<noteq> CHR ''-''" "\<not> isspace c" "digit_of 10 c \<noteq> None" using pl d digit_of_char [of d 10] by auto
  moreover have "skip_prefix 10 (c # s) = c # s" by (cases s rule: list.exhaust; cases "tl s") auto
  moreover have "skip_sign (c # s) = (False, c # s)" using pl d by simp
  moreover have "digits_from 10 0 (c # s) = (n, [])" using digits_from_dec [of 0 n "[]"] e by simp
  ultimately show ?thesis by (auto simp: number_arg_def strtoull_def scan_number_def e)
qed

section \<open>Words\<close>

lemma words_of_nonblank: "w \<in> set (words_of s) \<Longrightarrow> w \<noteq> [] \<and> list_all (\<lambda>c. \<not> blank c) w"
proof (induction s rule: words_of.induct)
  case (1 s)
  show ?case
  proof (cases "strtok s")
    case None
    then show ?thesis using 1(2) by (simp add: words_of.simps [of s])
  next
    case (Some p)
    obtain v rest where p: "p = (v, rest)" by fastforce
    have "v = takeWhile (\<lambda>c. \<not> blank c) (dropWhile blank s)" "dropWhile blank s \<noteq> []" using Some p by (auto simp: strtok_def Let_def split: if_splits)
    then have "v \<noteq> [] \<and> list_all (\<lambda>c. \<not> blank c) v" using hd_dropWhile [of blank s]
      by (cases "dropWhile blank s") (auto simp: list_all_iff dest: set_takeWhileD)
    then show ?thesis using 1 Some p by (auto simp: words_of.simps [of s])
  qed
qed

lemma takeWhile_all: "list_all P w \<Longrightarrow> \<not> P c \<Longrightarrow> takeWhile P (w @ c # s) = w \<and> dropWhile P (w @ c # s) = c # s"
  by (induction w) simp_all

lemma words_of_Cons:
  assumes "w \<noteq> []" "list_all (\<lambda>c. \<not> blank c) w"
  shows "words_of w = [w]" "words_of (w @ CHR '' '' # s) = w # words_of s"
proof -
  have "hd w \<in> set w" using assms(1) by simp
  then have h: "dropWhile blank (w @ t) = w @ t" for t using assms by (cases w) (auto simp: list_all_iff)
  have t: "takeWhile (\<lambda>c. \<not> blank c) w = w" "dropWhile (\<lambda>c. \<not> blank c) w = []" using assms(2) by (simp_all add: list_all_iff)
  have "strtok w = Some (w, [])" unfolding strtok_def using h [of "[]"] t assms(1) by (simp only: append_Nil2 Let_def) simp
  moreover have "words_of [] = []" by (simp add: words_of.simps strtok_def)
  ultimately show "words_of w = [w]" by (simp add: words_of.simps [of w])
  have "strtok (w @ CHR '' '' # s) = Some (w, s)"
    using h [of "CHR '' '' # s"] takeWhile_all [OF assms(2), of "CHR '' ''" s] by (simp add: strtok_def blank_def)
  then show "words_of (w @ CHR '' '' # s) = w # words_of s" by (simp add: words_of.simps [of "w @ CHR '' '' # s"])
qed

section \<open>Bytes in hexadecimal\<close>

lemma hex_digit_plain: "d < 16 \<Longrightarrow> digit_of 16 (hex_digit d) = Some d \<and> \<not> isspace (hex_digit d) \<and> hex_digit d \<noteq> CHR ''-'' \<and> hex_digit d \<noteq> CHR ''+'' \<and> \<not> blank (hex_digit d)"
proof -
  assume "d < 16"
  then have "d \<in> {0, 1, 2, 3, 4, 5, 6, 7, 8, 9, 10, 11, 12, 13, 14, 15}" by (simp add: less_Suc_eq numeral_eq_Suc)
  then show ?thesis by (auto simp: hex_digit_def hex_value_def digit_of_def isspace_def blank_def)
qed

lemma strtoull_hex_pair: "a < 16 \<Longrightarrow> b < 16 \<Longrightarrow> strtoull 16 [hex_digit a, hex_digit b] = (of_nat (a * 16 + b), [])"
  using hex_digit_plain [of a] hex_digit_plain [of b] by (simp add: strtoull_def scan_number_def)

end
