(* ===== verification/Crypto.thy ===== *)
theory Crypto
  imports Utils
begin

text \<open>
  The cryptographic layer: \<^verbatim>\<open>src/crypto/crypto.c\<close> and \<^verbatim>\<open>src/blake2/blake2.c\<close>. OpenSSL and
  libsecp256k1 are external code and enter as the fields of the record \<open>crypto_env\<close>, which every
  definition that hashes or checks a signature takes as its first argument. What the node relies on
  about them is stated where a lemma needs it (\<open>sha256_env\<close>, \<open>ecdsa_signs\<close>).
\<close>

section \<open>External primitives\<close>

text \<open>
  \<open>EVP_blake2b512\<close> and \<open>EVP_blake2s256\<close> stand for a whole init/update/final run of the OpenSSL digest
  (\<open>None\<close> when OpenSSL reports an error). Parsed keys and signatures of libsecp256k1 are opaque byte
  strings.
\<close>

record crypto_env =
  SHA256 :: "byte list \<Rightarrow> byte list"
  EVP_blake2b512 :: "byte list \<Rightarrow> byte list option"
  EVP_blake2s256 :: "byte list \<Rightarrow> byte list option"
  ec_pubkey_parse :: "byte list \<Rightarrow> byte list option"
  ecdsa_signature_parse_compact :: "byte list \<Rightarrow> byte list option"
  ecdsa_verify :: "byte list \<Rightarrow> byte list \<Rightarrow> byte list \<Rightarrow> bool"
  ec_seckey_verify :: "byte list \<Rightarrow> bool"
  ecdsa_sign :: "byte list \<Rightarrow> byte list \<Rightarrow> byte list option"
  ecdsa_signature_serialize_compact :: "byte list \<Rightarrow> byte list"

section \<open>Hashing\<close>

definition crypto_hash_to_32 :: "crypto_env \<Rightarrow> byte list \<Rightarrow> byte list" where
  "crypto_hash_to_32 E dat = SHA256 E dat"

text \<open>The double SHA-256 of block and transaction identifiers.\<close>

definition sha256d :: "crypto_env \<Rightarrow> byte list \<Rightarrow> byte list" where
  "sha256d E dat = SHA256 E (SHA256 E dat)"

definition Blake2_HashInternal ::
  "(byte list \<Rightarrow> byte list option) \<Rightarrow> nat \<Rightarrow> byte list \<Rightarrow> nat \<Rightarrow> byte list option" where
  "Blake2_HashInternal md maxDigestLen input outLen =
     (if outLen = 0 \<or> outLen > maxDigestLen then None
      else case md input of
        None \<Rightarrow> None
      | Some digest \<Rightarrow> if length digest < outLen then None else Some (take outLen digest))"

definition Blake2b_Hash :: "crypto_env \<Rightarrow> byte list \<Rightarrow> nat \<Rightarrow> byte list option" where
  "Blake2b_Hash E input outLen = Blake2_HashInternal (EVP_blake2b512 E) 64 input outLen"

definition Blake2s_Hash :: "crypto_env \<Rightarrow> byte list \<Rightarrow> nat \<Rightarrow> byte list option" where
  "Blake2s_Hash E input outLen = Blake2_HashInternal (EVP_blake2s256 E) 32 input outLen"

section \<open>Signatures\<close>

definition Crypto_VerifySignature :: "crypto_env \<Rightarrow> byte list \<Rightarrow> byte list \<Rightarrow> byte list \<Rightarrow> bool" where
  "Crypto_VerifySignature E dat sig publicKey =
     (let digest = crypto_hash_to_32 E dat in
      case (ec_pubkey_parse E publicKey, ecdsa_signature_parse_compact E sig) of
        (Some pub, Some s) \<Rightarrow> ecdsa_verify E s digest pub
      | _ \<Rightarrow> False)"

definition Crypto_SignData :: "crypto_env \<Rightarrow> byte list \<Rightarrow> byte list \<Rightarrow> byte list" where
  "Crypto_SignData E dat privateKey =
     (let digest = crypto_hash_to_32 E dat in
      if \<not> ec_seckey_verify E privateKey then replicate 64 0
      else case ecdsa_sign E digest privateKey of
        None \<Rightarrow> replicate 64 0
      | Some s \<Rightarrow> ecdsa_signature_serialize_compact E s)"

section \<open>What the libraries promise\<close>

definition sha256_env :: "crypto_env \<Rightarrow> bool" where
  "sha256_env E \<longleftrightarrow> (\<forall>m. length (SHA256 E m) = 32)"

text \<open>
  \<open>ecdsa_signs E sk pk\<close>: \<open>sk\<close> is a valid secret key with compressed public key \<open>pk\<close>, signing with it
  succeeds, and a signature written by libsecp256k1 parses back and verifies under that key.
\<close>

definition ecdsa_signs :: "crypto_env \<Rightarrow> byte list \<Rightarrow> byte list \<Rightarrow> bool" where
  "ecdsa_signs E sk pk \<longleftrightarrow>
     ec_seckey_verify E sk \<and>
     (\<exists>pub. ec_pubkey_parse E pk = Some pub \<and>
       (\<forall>digest. \<exists>s. ecdsa_sign E digest sk = Some s \<and>
          ecdsa_signature_parse_compact E (ecdsa_signature_serialize_compact E s) = Some s \<and>
          ecdsa_verify E s digest pub))"

section \<open>Lemmas\<close>

lemma Blake2_HashInternal_length:
  "Blake2_HashInternal md n input outLen = Some out \<Longrightarrow> length out = outLen"
  by (auto simp: Blake2_HashInternal_def split: if_splits option.splits)

lemma Blake2b_Hash_length: "Blake2b_Hash E input outLen = Some out \<Longrightarrow> length out = outLen"
  unfolding Blake2b_Hash_def by (rule Blake2_HashInternal_length)

lemma sha256d_length: "sha256_env E \<Longrightarrow> length (sha256d E m) = 32"
  by (simp add: sha256_env_def sha256d_def)

lemma Crypto_sign_verify:
  assumes "ecdsa_signs E sk pk"
  shows "Crypto_VerifySignature E dat (Crypto_SignData E dat sk) pk"
proof -
  obtain pub s where "ec_seckey_verify E sk" "ec_pubkey_parse E pk = Some pub"
      "ecdsa_sign E (SHA256 E dat) sk = Some s" "ecdsa_verify E s (SHA256 E dat) pub"
      "ecdsa_signature_parse_compact E (ecdsa_signature_serialize_compact E s) = Some s"
    using assms unfolding ecdsa_signs_def by metis
  then show ?thesis
    by (simp add: Crypto_VerifySignature_def Crypto_SignData_def crypto_hash_to_32_def Let_def)
qed

end
