(* ===== verification/Transaction.thy ===== *)
theory Transaction
  imports Crypto
begin

text \<open>
  Transactions: the structs of \<^verbatim>\<open>include/block/transaction.h\<close> and the operations of
  \<^verbatim>\<open>src/block/transaction.c\<close>. A transaction is hashed, stored and sent as its packed memory image,
  \<open>tx_image\<close>; \<open>tx_wf\<close> states the sizes of the C arrays.
\<close>

section \<open>Data\<close>

type_synonym address = "byte list"

record transaction_t =
  tx_timestamp :: u64
  fee :: u64
  amount1 :: u64
  amount2 :: u64
  senderAddress :: address
  recipientAddress1 :: address
  recipientAddress2 :: address
  compressedPublicKey :: "byte list"
  tx_version :: byte
  tx_reserved :: "byte list"

record signed_transaction_t =
  transaction :: transaction_t
  signature :: "byte list"

definition tx_wf :: "transaction_t \<Rightarrow> bool" where
  "tx_wf t \<longleftrightarrow> length (senderAddress t) = 32 \<and> length (recipientAddress1 t) = 32 \<and>
     length (recipientAddress2 t) = 32 \<and> length (compressedPublicKey t) = 33 \<and>
     length (tx_reserved t) = 6"

definition stx_wf :: "signed_transaction_t \<Rightarrow> bool" where
  "stx_wf s \<longleftrightarrow> tx_wf (transaction s) \<and> length (signature s) = 64"

definition zeroAddress :: address where
  "zeroAddress = replicate 32 0"

definition Address_IsCoinbase :: "address \<Rightarrow> bool" where
  "Address_IsCoinbase a = list_all (\<lambda>b. b = 0xFF) a"

section \<open>Memory image\<close>

definition tx_image :: "transaction_t \<Rightarrow> byte list" where
  "tx_image t =
     le_bytes 8 (unat (tx_timestamp t)) @ le_bytes 8 (unat (fee t)) @
     le_bytes 8 (unat (amount1 t)) @ le_bytes 8 (unat (amount2 t)) @
     senderAddress t @ recipientAddress1 t @ recipientAddress2 t @
     compressedPublicKey t @ [tx_version t] @ tx_reserved t"

definition stx_image :: "signed_transaction_t \<Rightarrow> byte list" where
  "stx_image s = tx_image (transaction s) @ signature s"

definition read_u64 :: "nat \<Rightarrow> byte list \<Rightarrow> u64" where
  "read_u64 off bs = of_nat (le_val (bytes_at off 8 bs))"

definition tx_of_image :: "byte list \<Rightarrow> transaction_t" where
  "tx_of_image bs =
     \<lparr> tx_timestamp = read_u64 0 bs, fee = read_u64 8 bs, amount1 = read_u64 16 bs,
       amount2 = read_u64 24 bs, senderAddress = bytes_at 32 32 bs, recipientAddress1 = bytes_at 64 32 bs,
       recipientAddress2 = bytes_at 96 32 bs, compressedPublicKey = bytes_at 128 33 bs,
       tx_version = bs ! 161, tx_reserved = bytes_at 162 6 bs \<rparr>"

definition stx_of_image :: "byte list \<Rightarrow> signed_transaction_t" where
  "stx_of_image bs = \<lparr> transaction = tx_of_image (take 168 bs), signature = bytes_at 168 64 bs \<rparr>"

section \<open>Operations\<close>

definition Transaction_Init :: signed_transaction_t where
  "Transaction_Init = stx_of_image (replicate 232 0)"

definition Transaction_CalculateHash :: "crypto_env \<Rightarrow> signed_transaction_t \<Rightarrow> byte list" where
  "Transaction_CalculateHash E tx =
     (let buffer = tx_image (transaction tx); outHash = SHA256 E buffer in SHA256 E outHash)"

definition Transaction_Sign :: "crypto_env \<Rightarrow> signed_transaction_t \<Rightarrow> byte list \<Rightarrow> signed_transaction_t" where
  "Transaction_Sign E tx privateKey =
     tx\<lparr> signature := Crypto_SignData E (Transaction_CalculateHash E tx) privateKey \<rparr>"

definition Transaction_Verify :: "crypto_env \<Rightarrow> signed_transaction_t \<Rightarrow> bool" where
  "Transaction_Verify E tx =
     (let t = transaction tx in
      if Address_IsCoinbase (senderAddress t) then
        (if amount1 t = 0 then False
         else if amount2 t \<noteq> 0 then False
         else if Address_IsCoinbase (recipientAddress1 t) \<or> Address_IsCoinbase (recipientAddress2 t)
         then False
         else if recipientAddress2 t \<noteq> zeroAddress then False
         else True)
      else if SHA256 E (compressedPublicKey t) \<noteq> senderAddress t then False
      else if amount1 t = 0 then False
      else if fee t > amount1 t then False
      else if tx_version t \<noteq> 1 then False
      else if Address_IsCoinbase (recipientAddress1 t) \<or> Address_IsCoinbase (recipientAddress2 t)
      then False
      else if amount2 t = 0 \<and> recipientAddress2 t \<noteq> zeroAddress then False
      else Crypto_VerifySignature E (Transaction_CalculateHash E tx) (signature tx)
             (compressedPublicKey t))"

section \<open>Images round trip\<close>

lemma length_tx_image [bytes_simps]: "tx_wf t \<Longrightarrow> length (tx_image t) = 168"
  by (simp add: tx_wf_def tx_image_def)

lemma length_stx_image [bytes_simps]: "stx_wf s \<Longrightarrow> length (stx_image s) = 232"
  by (simp add: stx_wf_def stx_image_def length_tx_image)

lemma u64_image: "of_nat (le_val (le_bytes 8 (unat (x :: u64)))) = x"
proof -
  have "unat x mod 256 ^ 8 = unat x" using unat_lt_64 [of x] by simp
  then show ?thesis by (simp add: le_val_le_bytes)
qed

lemma tx_image_roundtrip: "tx_wf t \<Longrightarrow> tx_of_image (tx_image t) = t"
  by (simp add: tx_wf_def tx_of_image_def tx_image_def read_u64_def bytes_at_simps u64_image nth_append)

lemma stx_image_roundtrip: "stx_wf s \<Longrightarrow> stx_of_image (stx_image s) = s"
  by (simp add: stx_wf_def stx_of_image_def stx_image_def length_tx_image bytes_at_simps tx_image_roundtrip)

interpretation tx_codec: byte_codec tx_image tx_of_image tx_wf 168
  by unfold_locales (auto simp: length_tx_image tx_image_roundtrip)

interpretation stx_codec: byte_codec stx_image stx_of_image stx_wf 232
  by unfold_locales (auto simp: length_stx_image stx_image_roundtrip)

lemma tx_of_image_wf: "length bs = 168 \<Longrightarrow> tx_wf (tx_of_image bs)"
  by (simp add: tx_wf_def tx_of_image_def bytes_at_def)

lemma stx_of_image_wf: "length bs = 232 \<Longrightarrow> stx_wf (stx_of_image bs)"
  by (simp add: stx_wf_def stx_of_image_def tx_of_image_wf bytes_at_def)

section \<open>Address lemmas\<close>

lemma Address_IsCoinbase_iff: "length a = 32 \<Longrightarrow> Address_IsCoinbase a \<longleftrightarrow> a = replicate 32 0xFF"
  by (auto simp: Address_IsCoinbase_def list_all_iff intro: replicate_eqI)

lemma Address_IsCoinbase_replicate [simp]:
  "Address_IsCoinbase (replicate n b) \<longleftrightarrow> n = 0 \<or> b = 0xFF"
  by (auto simp: Address_IsCoinbase_def list_all_iff)

lemma zeroAddress_not_coinbase [simp]: "\<not> Address_IsCoinbase zeroAddress"
  by (simp add: zeroAddress_def)

lemma length_zeroAddress [simp, bytes_simps]: "length zeroAddress = 32"
  by (simp add: zeroAddress_def)

section \<open>Verification lemmas\<close>

lemma Transaction_Verify_amount1: "Transaction_Verify E tx \<Longrightarrow> amount1 (transaction tx) \<noteq> 0"
  by (auto simp: Transaction_Verify_def Let_def split: if_splits)

lemma Transaction_Verify_fee:
  "Transaction_Verify E tx \<Longrightarrow> \<not> Address_IsCoinbase (senderAddress (transaction tx)) \<Longrightarrow>
     fee (transaction tx) \<le> amount1 (transaction tx)"
  by (auto simp: Transaction_Verify_def Let_def split: if_splits)

lemma Transaction_Verify_recipients:
  "Transaction_Verify E tx \<Longrightarrow> \<not> Address_IsCoinbase (recipientAddress1 (transaction tx))
     \<and> \<not> Address_IsCoinbase (recipientAddress2 (transaction tx))"
  by (auto simp: Transaction_Verify_def Let_def split: if_splits)

lemma Transaction_Verify_amount2_zero:
  "Transaction_Verify E tx \<Longrightarrow> amount2 (transaction tx) = 0 \<Longrightarrow>
     recipientAddress2 (transaction tx) = zeroAddress"
  by (auto simp: Transaction_Verify_def Let_def split: if_splits)

lemma Transaction_Verify_coinbase:
  "Transaction_Verify E tx \<Longrightarrow> Address_IsCoinbase (senderAddress (transaction tx)) \<Longrightarrow>
     amount2 (transaction tx) = 0 \<and> recipientAddress2 (transaction tx) = zeroAddress"
  by (auto simp: Transaction_Verify_def Let_def split: if_splits)

section \<open>Properties\<close>

text \<open>
  A spend that is well formed (non-zero amount, fee within the amount, version 1, no payment to
  the coinbase marker, a zeroed second recipient when there is no second amount) and whose sender
  address is the hash of the signer's public key passes \<^verbatim>\<open>Transaction_Verify\<close> once
  \<^verbatim>\<open>Transaction_Sign\<close> signed it, given that libsecp256k1 verifies its own signatures.
\<close>

lemma Transaction_Sign_Verify:
  fixes tx :: signed_transaction_t
  defines "t \<equiv> transaction tx"
  assumes "ecdsa_signs E sk (compressedPublicKey t)"
    and "senderAddress t = SHA256 E (compressedPublicKey t)"
    and "\<not> Address_IsCoinbase (senderAddress t)"
    and "amount1 t \<noteq> 0" and "fee t \<le> amount1 t" and "tx_version t = 1"
    and "\<not> Address_IsCoinbase (recipientAddress1 t)"
    and "\<not> Address_IsCoinbase (recipientAddress2 t)"
    and "amount2 t = 0 \<longrightarrow> recipientAddress2 t = zeroAddress"
  shows "Transaction_Verify E (Transaction_Sign E tx sk)"
proof -
  have "Transaction_CalculateHash E (Transaction_Sign E tx sk) = Transaction_CalculateHash E tx"
    by (simp add: Transaction_CalculateHash_def Transaction_Sign_def)
  then show ?thesis
    using assms(2-) Crypto_sign_verify [OF assms(2)]
    by (auto simp: Transaction_Verify_def Transaction_Sign_def t_def Let_def)
qed

text \<open>A concrete environment and transaction.\<close>

definition demo_env :: crypto_env where
  "demo_env = \<lparr> SHA256 = (\<lambda>m. take 32 (m @ replicate 32 0)), EVP_blake2b512 = (\<lambda>m. Some (take 64 (m @ replicate 64 0))),
     EVP_blake2s256 = (\<lambda>m. Some (take 32 (m @ replicate 32 0))), ec_pubkey_parse = Some,
     ecdsa_signature_parse_compact = Some, ecdsa_verify = (\<lambda>s d p. s = d), ec_seckey_verify = (\<lambda>k. True),
     ecdsa_sign = (\<lambda>d k. Some d), ecdsa_signature_serialize_compact = (\<lambda>s. s) \<rparr>"

definition demo_tx :: signed_transaction_t where
  "demo_tx = \<lparr> transaction = \<lparr> tx_timestamp = 5, fee = 1, amount1 = 10, amount2 = 0,
     senderAddress = replicate 32 2, recipientAddress1 = replicate 32 3, recipientAddress2 = zeroAddress,
     compressedPublicKey = replicate 33 2, tx_version = 1, tx_reserved = replicate 6 0 \<rparr>,
     signature = replicate 64 0 \<rparr>"

definition demo_signed :: signed_transaction_t where
  "demo_signed = demo_tx\<lparr> signature := sha256d demo_env (sha256d demo_env (tx_image (transaction demo_tx))) \<rparr>"

lemma demo_signed_verifies: "Transaction_Verify demo_env demo_signed"
  by (simp add: Transaction_Verify_def demo_signed_def demo_tx_def demo_env_def Let_def
      Crypto_VerifySignature_def Transaction_CalculateHash_def crypto_hash_to_32_def sha256d_def
      zeroAddress_def)

text \<open>
  A transaction that \<^verbatim>\<open>Transaction_Verify\<close> accepts is either a coinbase paying a non-zero amount
  to a single ordinary recipient, or a spend whose sender is the hash of the public key that signed
  its content, with a non-zero amount that covers the fee; neither pays to the coinbase marker.
\<close>

lemma Transaction_Verify_sound:
  assumes "Transaction_Verify E tx"
  shows "let t = transaction tx in
     amount1 t \<noteq> 0 \<and> \<not> Address_IsCoinbase (recipientAddress1 t) \<and>
     (amount2 t = 0 \<longrightarrow> recipientAddress2 t = zeroAddress) \<and>
     (if Address_IsCoinbase (senderAddress t) then amount2 t = 0
      else senderAddress t = SHA256 E (compressedPublicKey t) \<and> fee t \<le> amount1 t \<and> tx_version t = 1 \<and>
           Crypto_VerifySignature E (sha256d E (tx_image t)) (signature tx) (compressedPublicKey t))"
  using assms
  by (auto simp: Transaction_Verify_def Transaction_CalculateHash_def sha256d_def Let_def split: if_splits)

end
