(* ===== verification/Autolykos2.thy ===== *)
theory Autolykos2
  imports Crypto
begin

text \<open>
  The memory-hard hash of \<^verbatim>\<open>src/autolykos2/autolykos2.c\<close>: the DAG buffer of the mining context, its
  generation from an epoch seed, the heavy hash that reads lanes from the buffer and the light hash
  that recomputes each lane from the seed. The lemmas end in the equivalence of the two hashes on a
  generated context, which is what lets a non-mining node verify a miner's blocks.
\<close>

section \<open>Context\<close>

text \<open>
  \<open>dag_buf = None\<close> is the NULL buffer of a fresh context. \<open>backend\<close> is the optional CPU reference
  implementation fetched by the build (\<^verbatim>\<open>SKALACOIN_AUTOLYKOS2_REF_AVAILABLE\<close>), external code that
  only \<^verbatim>\<open>Autolykos2_CheckTarget\<close> consults.
\<close>

record Autolykos2Context =
  dag_buf :: "byte list option"
  dag_cap :: nat
  dag_len :: nat
  backend :: "(byte list \<Rightarrow> u64 \<Rightarrow> u32 \<Rightarrow> byte list \<Rightarrow> bool) option"

definition Autolykos2_Create ::
  "(byte list \<Rightarrow> u64 \<Rightarrow> u32 \<Rightarrow> byte list \<Rightarrow> bool) option \<Rightarrow> Autolykos2Context" where
  "Autolykos2_Create ref = \<lparr> dag_buf = None, dag_cap = 0, dag_len = 0, backend = ref \<rparr>"

section \<open>Serialisation and lane selection\<close>

definition WriteU64LE :: "u64 \<Rightarrow> byte list" where
  "WriteU64LE v = map (\<lambda>k. ucast (drop_bit (8 * k) v AND 0xff)) [0, 1, 2, 3, 4, 5, 6, 7]"

definition WriteU32LE :: "u32 \<Rightarrow> byte list" where
  "WriteU32LE v = map (\<lambda>k. ucast (drop_bit (8 * k) v AND 0xff)) [0, 1, 2, 3]"

definition Autolykos2_FallbackHash ::
  "crypto_env \<Rightarrow> byte list \<Rightarrow> byte list \<Rightarrow> u64 \<Rightarrow> u64 \<Rightarrow> byte list option" where
  "Autolykos2_FallbackHash E seed32 message nonce height =
     Blake2b_Hash E (seed32 @ message @ le_bytes 8 (unat nonce) @ le_bytes 8 (unat height)) 32"

definition DeriveSeedFromMessage :: "crypto_env \<Rightarrow> byte list \<Rightarrow> byte list option" where
  "DeriveSeedFromMessage E message = Blake2b_Hash E message 32"

definition ComputeLaneIndex ::
  "crypto_env \<Rightarrow> byte list \<Rightarrow> u64 \<Rightarrow> u64 \<Rightarrow> u32 \<Rightarrow> u32 \<Rightarrow> u32 option" where
  "ComputeLaneIndex E seed32 nonce height round laneCount =
     (if laneCount = 0 then None
      else case Blake2b_Hash E (seed32 @ WriteU64LE nonce @ WriteU64LE height @ WriteU32LE round) 32 of
        None \<Rightarrow> None
      | Some digest \<Rightarrow>
          (let raw = ucast (digest ! 0) OR push_bit 8 (ucast (digest ! 1))
                 OR push_bit 16 (ucast (digest ! 2)) OR push_bit 24 (ucast (digest ! 3))
           in Some (raw mod laneCount)))"

definition ReadDagLaneFromContext :: "Autolykos2Context \<Rightarrow> u32 \<Rightarrow> byte list option" where
  "ReadDagLaneFromContext ctx laneIndex =
     (case dag_buf ctx of
        None \<Rightarrow> None
      | Some buf \<Rightarrow>
          (let offset = unat laneIndex * 32 in
           if dag_len ctx < offset + 32 then None else Some (take 32 (drop offset buf))))"

definition ReadDagLaneFromSeed :: "crypto_env \<Rightarrow> byte list \<Rightarrow> u32 \<Rightarrow> byte list option" where
  "ReadDagLaneFromSeed E seed32 laneIndex =
     (let counter = (ucast laneIndex :: u64) div 2;
          upperHalf = (laneIndex AND 1 \<noteq> 0)
      in case Blake2b_Hash E (seed32 @ WriteU64LE counter) 64 of
           None \<Rightarrow> None
         | Some digest \<Rightarrow> Some (take 32 (drop (if upperHalf then 32 else 0) digest)))"

section \<open>The hash\<close>

definition read_lane ::
  "crypto_env \<Rightarrow> Autolykos2Context option \<Rightarrow> bool \<Rightarrow> byte list option \<Rightarrow> byte list \<Rightarrow> u32 \<Rightarrow> byte list option" where
  "read_lane E ctx useContextDag dagSeed32 messageSeed32 laneIndex =
     (if useContextDag then (case ctx of None \<Rightarrow> None | Some c \<Rightarrow> ReadDagLaneFromContext c laneIndex)
      else ReadDagLaneFromSeed E (case dagSeed32 of Some s \<Rightarrow> s | None \<Rightarrow> messageSeed32) laneIndex)"

fun hash_rounds ::
  "crypto_env \<Rightarrow> (u32 \<Rightarrow> byte list option) \<Rightarrow> byte list \<Rightarrow> u64 \<Rightarrow> u64 \<Rightarrow> u32 \<Rightarrow> u32 list \<Rightarrow> byte list
     \<Rightarrow> byte list option" where
  "hash_rounds E rd seed nonce height laneCount [] acc = Some acc"
| "hash_rounds E rd seed nonce height laneCount (r # rs) acc =
     (case ComputeLaneIndex E seed nonce height r laneCount of
        None \<Rightarrow> None
      | Some laneIndex \<Rightarrow>
          (case rd laneIndex of
             None \<Rightarrow> None
           | Some lane \<Rightarrow> hash_rounds E rd seed nonce height laneCount rs (map2 (XOR) acc lane)))"

definition Autolykos2_HashCore ::
  "crypto_env \<Rightarrow> byte list \<Rightarrow> byte list option \<Rightarrow> byte list \<Rightarrow> u64 \<Rightarrow> u64 \<Rightarrow> u32 \<Rightarrow> Autolykos2Context option
     \<Rightarrow> bool \<Rightarrow> byte list option" where
  "Autolykos2_HashCore E messageSeed32 dagSeed32 message nonce height laneCount ctx useContextDag =
     (if laneCount = 0 then None
      else case hash_rounds E (read_lane E ctx useContextDag dagSeed32 messageSeed32) messageSeed32 nonce
             height laneCount (map of_nat [0..<32]) (replicate 32 0) of
        None \<Rightarrow> None
      | Some acc \<Rightarrow>
          (case Autolykos2_FallbackHash E messageSeed32 message nonce height of
             None \<Rightarrow> None
           | Some baseHash \<Rightarrow>
               (case Blake2b_Hash E acc 32 of
                  None \<Rightarrow> None
                | Some accHash \<Rightarrow>
                    Blake2b_Hash E (baseHash @ accHash @ WriteU64LE nonce @ WriteU64LE height) 32)))"

definition Autolykos2_Hash ::
  "crypto_env \<Rightarrow> Autolykos2Context \<Rightarrow> byte list \<Rightarrow> u64 \<Rightarrow> u64 \<Rightarrow> byte list option" where
  "Autolykos2_Hash E ctx message nonce height =
     (if dag_buf ctx = None \<or> dag_len ctx < 32 \<or> dag_len ctx mod 32 \<noteq> 0 then None
      else case DeriveSeedFromMessage E message of
        None \<Rightarrow> None
      | Some seed32 \<Rightarrow>
          (let laneCount64 = dag_len ctx div 32 in
           if laneCount64 = 0 \<or> laneCount64 > 0xFFFFFFFF then None
           else Autolykos2_HashCore E seed32 None message nonce height (of_nat laneCount64) (Some ctx) True))"

definition Autolykos2_LightHashAtHeight ::
  "crypto_env \<Rightarrow> byte list \<Rightarrow> byte list \<Rightarrow> u64 \<Rightarrow> u64 \<Rightarrow> nat \<Rightarrow> byte list option" where
  "Autolykos2_LightHashAtHeight E seed32 message nonce height dagBytes =
     (if dagBytes < 32 \<or> dagBytes mod 32 \<noteq> 0 then None
      else let laneCount64 = dagBytes div 32 in
           if laneCount64 = 0 \<or> laneCount64 > 0xFFFFFFFF then None
           else case DeriveSeedFromMessage E message of
             None \<Rightarrow> None
           | Some messageSeed32 \<Rightarrow>
               Autolykos2_HashCore E messageSeed32 (Some seed32) message nonce height
                 (of_nat laneCount64) None False)"

section \<open>The DAG buffer\<close>

text \<open>\<open>reallocOk\<close> says whether the allocator serves the (multi-gigabyte) request.\<close>

definition Autolykos2_DagAllocate :: "bool \<Rightarrow> Autolykos2Context \<Rightarrow> nat \<Rightarrow> Autolykos2Context \<times> bool" where
  "Autolykos2_DagAllocate reallocOk ctx bytes =
     (if \<not> reallocOk then (ctx, False)
      else (ctx\<lparr> dag_buf := Some (replicate bytes 0), dag_cap := bytes,
                 dag_len := (if dag_len ctx > bytes then bytes else dag_len ctx) \<rparr>, True))"

definition write_at :: "byte list \<Rightarrow> nat \<Rightarrow> byte list \<Rightarrow> byte list" where
  "write_at buf off dat = take off buf @ dat @ drop (off + length dat) buf"

definition Autolykos2_DagAppend :: "Autolykos2Context \<Rightarrow> byte list \<Rightarrow> Autolykos2Context \<times> bool" where
  "Autolykos2_DagAppend ctx dat =
     (if dat = [] then (ctx, False)
      else if dag_len ctx + length dat > dag_cap ctx then (ctx, False)
      else (ctx\<lparr> dag_buf := map_option (\<lambda>buf. write_at buf (dag_len ctx) dat) (dag_buf ctx),
                 dag_len := dag_len ctx + length dat \<rparr>, True))"

text \<open>
  When hashing fails half way, \<open>dag_fill\<close> answers False with the buffer as written so far, and
  \<^verbatim>\<open>dag.len\<close> keeps its old value.
\<close>

function dag_fill :: "crypto_env \<Rightarrow> byte list \<Rightarrow> nat \<Rightarrow> nat \<Rightarrow> u64 \<Rightarrow> byte list \<Rightarrow> byte list \<times> bool" where
  "dag_fill E seed32 cap offset counter buf =
     (if offset < cap then
        (case Blake2b_Hash E (seed32 @ WriteU64LE counter) 64 of
           None \<Rightarrow> (buf, False)
         | Some digest \<Rightarrow>
             (let chunk = (if cap - offset > 64 then 64 else cap - offset) in
              dag_fill E seed32 cap (offset + chunk) (counter + 1)
                (write_at buf offset (take chunk digest))))
      else (buf, True))"
  by pat_completeness auto
termination
  by (relation "measure (\<lambda>(E, seed32, cap, offset, counter, buf). cap - offset)") auto

declare dag_fill.simps [simp del]

definition Autolykos2_DagGenerate :: "crypto_env \<Rightarrow> Autolykos2Context \<Rightarrow> byte list \<Rightarrow> Autolykos2Context \<times> bool" where
  "Autolykos2_DagGenerate E ctx seed32 =
     (case dag_buf ctx of
        None \<Rightarrow> (ctx, False)
      | Some buf \<Rightarrow>
          if dag_cap ctx = 0 then (ctx, False)
          else case dag_fill E seed32 (dag_cap ctx) 0 0 buf of
            (buf', False) \<Rightarrow> (ctx\<lparr> dag_buf := Some buf' \<rparr>, False)
          | (buf', True) \<Rightarrow> (ctx\<lparr> dag_buf := Some buf', dag_len := dag_cap ctx \<rparr>, True))"

definition Autolykos2_DagClear :: "Autolykos2Context \<Rightarrow> Autolykos2Context" where
  "Autolykos2_DagClear ctx =
     (case dag_buf ctx of
        None \<Rightarrow> ctx
      | Some buf \<Rightarrow> ctx\<lparr> dag_buf := Some (replicate (dag_cap ctx) 0), dag_len := 0 \<rparr>)"

definition Autolykos2_DagSize :: "Autolykos2Context option \<Rightarrow> nat" where
  "Autolykos2_DagSize ctx = (case ctx of None \<Rightarrow> 0 | Some c \<Rightarrow> dag_len c)"

section \<open>Target check and nonce search\<close>

definition Autolykos2_CheckTarget ::
  "crypto_env \<Rightarrow> Autolykos2Context \<Rightarrow> byte list \<Rightarrow> u64 \<Rightarrow> u64 \<Rightarrow> byte list \<Rightarrow> bool" where
  "Autolykos2_CheckTarget E ctx message32 nonce height target32 =
     (case backend ctx of
        Some check \<Rightarrow>
          if height \<le> 0xFFFFFFFF
          then (if Autolykos2_Hash E ctx message32 nonce height \<noteq> None
                then check message32 nonce (ucast height) target32 else False)
          else (case Autolykos2_Hash E ctx message32 nonce height of
                  None \<Rightarrow> False
                | Some outHash \<Rightarrow> CompareHashToTarget outHash target32 \<le> 0)
      | None \<Rightarrow>
          (case Autolykos2_Hash E ctx message32 nonce height of
             None \<Rightarrow> False
           | Some outHash \<Rightarrow> CompareHashToTarget outHash target32 \<le> 0))"

primrec find_nonce ::
  "crypto_env \<Rightarrow> Autolykos2Context \<Rightarrow> byte list \<Rightarrow> u64 \<Rightarrow> byte list \<Rightarrow> nat \<Rightarrow> u64 \<Rightarrow> u64 option" where
  "find_nonce E ctx message32 height target32 0 nonce = None"
| "find_nonce E ctx message32 height target32 (Suc n) nonce =
     (if Autolykos2_CheckTarget E ctx message32 nonce height target32 then Some nonce
      else find_nonce E ctx message32 height target32 n (nonce + 1))"

definition Autolykos2_FindNonceSingleCore ::
  "crypto_env \<Rightarrow> Autolykos2Context \<Rightarrow> byte list \<Rightarrow> u64 \<Rightarrow> byte list \<Rightarrow> u64 \<Rightarrow> u64 \<Rightarrow> u64 option" where
  "Autolykos2_FindNonceSingleCore E ctx message32 height target32 startNonce maxIterations =
     find_nonce E ctx message32 height target32 (unat maxIterations) startNonce"

section \<open>Generated buffers\<close>

text \<open>
  \<open>dag_generated E seed ctx\<close>: the buffer holds, lane for lane, what the light path derives from \<open>seed\<close>.
\<close>

definition dag_generated :: "crypto_env \<Rightarrow> byte list \<Rightarrow> Autolykos2Context \<Rightarrow> bool" where
  "dag_generated E seed32 ctx \<longleftrightarrow>
     (\<exists>buf. dag_buf ctx = Some buf \<and> dag_len ctx = length buf \<and>
        (\<forall>laneIndex. unat laneIndex * 32 + 32 \<le> length buf \<longrightarrow>
            ReadDagLaneFromSeed E seed32 laneIndex = Some (take 32 (drop (unat laneIndex * 32) buf))))"

lemma length_write_at: "off + length dat \<le> length buf \<Longrightarrow> length (write_at buf off dat) = length buf"
  by (simp add: write_at_def)

lemma take_write_at: "off \<le> length buf \<Longrightarrow> n \<le> off \<Longrightarrow> take n (write_at buf off dat) = take n buf"
  by (simp add: write_at_def min_absorb1)

lemma drop_write_at: "off \<le> length buf \<Longrightarrow> take (length dat) (drop off (write_at buf off dat)) = dat"
  by (simp add: write_at_def)

lemma dag_fill_step_last:
  assumes "offset < cap" "cap - offset \<le> 64" "Blake2b_Hash E (s @ WriteU64LE c) 64 = Some d"
  shows "dag_fill E s cap offset c buf = (write_at buf offset (take (cap - offset) d), True)"
  using assms by (subst dag_fill.simps) (simp add: dag_fill.simps [of E s cap cap])

lemma dag_fill_step_full:
  assumes "64 < cap - offset" "Blake2b_Hash E (s @ WriteU64LE c) 64 = Some d"
  shows "dag_fill E s cap offset c buf = dag_fill E s cap (offset + 64) (c + 1) (write_at buf offset d)"
proof -
  have "offset < cap" using assms(1) by linarith
  then show ?thesis using assms Blake2b_Hash_length [OF assms(2)] by (subst dag_fill.simps) simp
qed

lemma dag_fill_success:
  assumes "dag_fill E s cap (64 * k) (of_nat k) buf = (buf', True)" and "length buf = cap"
  shows "length buf' = cap \<and> take (64 * k) buf' = take (64 * k) buf \<and>
    (\<forall>j\<ge>k. 64 * j < cap \<longrightarrow> (\<exists>d. Blake2b_Hash E (s @ WriteU64LE (of_nat j)) 64 = Some d \<and>
       take (cap - 64 * j) (take 64 (drop (64 * j) buf')) = take (cap - 64 * j) d))"
  using assms
proof (induction "cap - 64 * k" arbitrary: k buf rule: less_induct)
  case less
  show ?case
  proof (cases "64 * k < cap")
    case False
    then show ?thesis using less.prems by (subst (asm) dag_fill.simps) auto
  next
    case True
    then obtain d where d: "Blake2b_Hash E (s @ WriteU64LE (of_nat k)) 64 = Some d"
      using less.prems(1) by (subst (asm) dag_fill.simps) (auto split: option.splits)
    have ld: "length d = 64" using d by (rule Blake2b_Hash_length)
    show ?thesis
    proof (cases "64 < cap - 64 * k")
      case full: True
      have off: "64 * k + 64 = 64 * Suc k" "of_nat k + 1 = (of_nat (Suc k) :: u64)" by simp_all
      have run: "dag_fill E s cap (64 * Suc k) (of_nat (Suc k)) (write_at buf (64 * k) d) = (buf', True)"
        using less.prems(1) unfolding dag_fill_step_full [OF full d] off .
      have len: "length (write_at buf (64 * k) d) = cap"
        using full less.prems(2) ld by (simp add: length_write_at)
      note IH = less.hyps [OF _ run len]
      have tk: "take (64 * Suc k) buf' = take (64 * Suc k) (write_at buf (64 * k) d)"
        and rest: "\<forall>j\<ge>Suc k. 64 * j < cap \<longrightarrow> (\<exists>d. Blake2b_Hash E (s @ WriteU64LE (of_nat j)) 64 = Some d \<and>
          take (cap - 64 * j) (take 64 (drop (64 * j) buf')) = take (cap - 64 * j) d)"
        and lb: "length buf' = cap"
        using IH full by auto
      have "take 64 (drop (64 * k) buf') = d"
        using arg_cong [OF tk, of "drop (64 * k)"] ld True less.prems(2) drop_write_at [of "64 * k" buf d]
        by (simp add: take_drop add.commute)
      moreover have "take (64 * k) buf' = take (64 * k) buf"
        using arg_cong [OF tk, of "take (64 * k)"] True less.prems(2)
        by (simp add: take_write_at min_def)
      ultimately show ?thesis
        using lb rest d by (auto simp: le_eq_less_or_eq [of k] Suc_le_eq)
    next
      case last: False
      then have fin: "buf' = write_at buf (64 * k) (take (cap - 64 * k) d)"
        using less.prems(1) dag_fill_step_last [OF True _ d] by simp
      have "j = k" if "j \<ge> k" "64 * j < cap" for j using that last by linarith
      moreover have "length buf' = cap" "take (64 * k) buf' = take (64 * k) buf"
        "take (cap - 64 * k) (take 64 (drop (64 * k) buf')) = take (cap - 64 * k) d"
        using True last less.prems(2) ld drop_write_at [of "64 * k" buf "take (cap - 64 * k) d"]
        by (auto simp: fin length_write_at take_write_at min_def)
      ultimately show ?thesis using d by blast
    qed
  qed
qed

section \<open>Lanes\<close>

lemma odd_unat: "odd (unat (w :: 'a::len word)) \<longleftrightarrow> odd w"
  by (simp add: bit_unsigned_iff flip: bit_0)

lemma lane_parity: "(laneIndex :: u32) AND 1 \<noteq> 0 \<longleftrightarrow> odd (unat laneIndex)"
  by (simp add: and_one_eq mod_2_eq_odd odd_unat)

lemma lane_counter: "(ucast (laneIndex :: u32) :: u64) div 2 = of_nat (unat laneIndex div 2)"
proof -
  define w where "w = (ucast laneIndex :: u64)"
  have "unat w = unat laneIndex"
    unfolding w_def using unat_lt_32 [of laneIndex] by (simp add: unat_ucast_take)
  then have "unat (w div 2) = unat laneIndex div 2" by (simp add: unat_div)
  then have "of_nat (unat (w div 2)) = (of_nat (unat laneIndex div 2) :: u64)" by (simp only:)
  then show ?thesis by (simp add: w_def)
qed

lemma lane_from_seed:
  "ReadDagLaneFromSeed E s laneIndex =
     map_option (\<lambda>d. take 32 (drop (32 * (unat laneIndex mod 2)) d))
       (Blake2b_Hash E (s @ WriteU64LE (of_nat (unat laneIndex div 2))) 64)"
  unfolding ReadDagLaneFromSeed_def Let_def lane_parity lane_counter
  by (auto simp: odd_iff_mod_2_eq_one split: option.splits)

lemma DagGenerate_generated:
  assumes "Autolykos2_DagGenerate E ctx s = (ctx', True)"
    and "dag_buf ctx = Some buf" "length buf = dag_cap ctx"
  shows "dag_generated E s ctx'" and "dag_len ctx' = dag_cap ctx" and "dag_cap ctx' = dag_cap ctx"
proof -
  obtain buf' where buf': "dag_fill E s (dag_cap ctx) (64 * 0) (of_nat 0) buf = (buf', True)"
      "ctx' = ctx\<lparr> dag_buf := Some buf', dag_len := dag_cap ctx \<rparr>"
    using assms by (auto simp: Autolykos2_DagGenerate_def split: if_splits bool.splits prod.splits)
  have lane: "ReadDagLaneFromSeed E s li = Some (take 32 (drop (unat li * 32) buf'))"
    if "unat li * 32 + 32 \<le> dag_cap ctx" for li
  proof -
    define c h where "c = unat li div 2" and "h = unat li mod 2"
    have li: "unat li = 2 * c + h" "h \<le> 1" by (auto simp: c_def h_def)
    then have "64 * c < dag_cap ctx" and room: "32 * h + 32 \<le> dag_cap ctx - 64 * c" using that by auto
    then obtain d where d: "Blake2b_Hash E (s @ WriteU64LE (of_nat c)) 64 = Some d"
        and eq: "take (dag_cap ctx - 64 * c) (take 64 (drop (64 * c) buf')) = take (dag_cap ctx - 64 * c) d"
      using dag_fill_success [OF buf'(1) assms(3)] by auto
    have "take 32 (drop (32 * h) (take (dag_cap ctx - 64 * c) (take 64 (drop (64 * c) buf'))))
        = take 32 (drop (32 * h) d)"
      unfolding eq using room by (simp add: drop_take min_def)
    moreover have "take 32 (drop (32 * h) (take (dag_cap ctx - 64 * c) (take 64 (drop (64 * c) buf'))))
        = take 32 (drop (unat li * 32) buf')"
      using room li by (simp add: drop_take min_def add.commute mult.commute)
    ultimately show ?thesis by (simp add: lane_from_seed c_def [symmetric] h_def [symmetric] d)
  qed
  show "dag_generated E s ctx'" "dag_len ctx' = dag_cap ctx" "dag_cap ctx' = dag_cap ctx"
    using lane dag_fill_success [OF buf'(1) assms(3)] by (auto simp: dag_generated_def buf'(2))
qed

section \<open>Heavy and light hash agree\<close>

lemma ComputeLaneIndex_bound:
  "ComputeLaneIndex E seed nonce height r laneCount = Some li \<Longrightarrow> li < laneCount"
  by (auto simp: ComputeLaneIndex_def Let_def word_gt_0 word_mod_less_divisor
      split: if_splits option.splits)

lemma hash_rounds_cong:
  assumes "\<And>li. li < laneCount \<Longrightarrow> rd li = rd' li"
  shows "hash_rounds E rd seed nonce height laneCount rs acc = hash_rounds E rd' seed nonce height laneCount rs acc"
proof (induction rs arbitrary: acc)
  case Nil
  then show ?case by simp
next
  case (Cons r rs)
  then show ?case
    using assms ComputeLaneIndex_bound by (fastforce split: option.splits)
qed

lemma lanes_agree:
  assumes "dag_generated E s ctx" and "laneCount = of_nat (dag_len ctx div 32)"
    and "dag_len ctx div 32 \<le> 0xFFFFFFFF" and "li < (laneCount :: u32)"
  shows "read_lane E (Some ctx) True None m li = read_lane E None False (Some s) m' li"
proof -
  have "unat laneCount = dag_len ctx div 32" using assms(2,3) by (simp add: unat_of_nat)
  then have "unat li < dag_len ctx div 32" using assms(4) by (simp add: word_less_nat_alt)
  then have "unat li * 32 + 32 \<le> dag_len ctx" by linarith
  then show ?thesis
    using assms(1) by (auto simp: dag_generated_def read_lane_def ReadDagLaneFromContext_def Let_def)
qed

lemma HashCore_agree:
  assumes "dag_generated E s ctx" and "dag_len ctx div 32 \<le> 0xFFFFFFFF"
  shows "Autolykos2_HashCore E seed None m nonce height (of_nat (dag_len ctx div 32)) (Some ctx) True
    = Autolykos2_HashCore E seed (Some s) m nonce height (of_nat (dag_len ctx div 32)) None False"
  unfolding Autolykos2_HashCore_def
  by (simp only: hash_rounds_cong [of _ "read_lane E (Some ctx) True None seed"
        "read_lane E None False (Some s) seed", OF lanes_agree [OF assms(1) refl assms(2)]])

lemma heavy_eq_light:
  assumes "dag_generated E s ctx"
  shows "Autolykos2_Hash E ctx m nonce height = Autolykos2_LightHashAtHeight E s m nonce height (dag_len ctx)"
proof -
  have "dag_buf ctx \<noteq> None" using assms by (auto simp: dag_generated_def)
  then show ?thesis
    using HashCore_agree [OF assms]
    by (auto simp: Autolykos2_Hash_def Autolykos2_LightHashAtHeight_def Let_def split: option.splits)
qed

lemma Autolykos2_Hash_length: "Autolykos2_Hash E ctx m nonce height = Some out \<Longrightarrow> length out = 32"
  by (auto simp: Autolykos2_Hash_def Autolykos2_HashCore_def Let_def Blake2b_Hash_length
      split: if_splits option.splits)

lemma LightHash_length: "Autolykos2_LightHashAtHeight E s m nonce height n = Some out \<Longrightarrow> length out = 32"
  by (auto simp: Autolykos2_LightHashAtHeight_def Autolykos2_HashCore_def Let_def Blake2b_Hash_length
      split: if_splits option.splits)

end
