(* ===== verification/Block.thy ===== *)
theory Block
  imports Transaction Autolykos2
begin

text \<open>
  Blocks: the structs of \<^verbatim>\<open>include/block/block.h\<close> and the operations of \<^verbatim>\<open>src/block/block.c\<close> that do not
  need the chain: hashing, the merkle root, structural validity, the coinbase and fee rule, the
  process-global mining DAG and the proof-of-work check against given epoch parameters.
\<close>

section \<open>Data\<close>

record block_header_t =
  blockNumber :: u64
  timestamp :: u64
  nonce :: u64
  prevHash :: "byte list"
  merkleRoot :: "byte list"
  difficultyTarget :: u32
  version :: byte
  reserved :: "byte list"

text \<open>\<open>transactions = None\<close> is the NULL vector of a block whose body was dropped from memory.\<close>

record block_t =
  header :: block_header_t
  transactions :: "signed_transaction_t list option"

definition header_wf :: "block_header_t \<Rightarrow> bool" where
  "header_wf h \<longleftrightarrow> length (prevHash h) = 32 \<and> length (merkleRoot h) = 32 \<and> length (reserved h) = 3"

definition header_image :: "block_header_t \<Rightarrow> byte list" where
  "header_image h =
     le_bytes 8 (unat (blockNumber h)) @ le_bytes 8 (unat (timestamp h)) @ le_bytes 8 (unat (nonce h)) @
     prevHash h @ merkleRoot h @ le_bytes 4 (unat (difficultyTarget h)) @ [version h] @ reserved h"

definition header_of_image :: "byte list \<Rightarrow> block_header_t" where
  "header_of_image bs =
     \<lparr> blockNumber = read_u64 0 bs, timestamp = read_u64 8 bs, nonce = read_u64 16 bs,
       prevHash = bytes_at 24 32 bs, merkleRoot = bytes_at 56 32 bs,
       difficultyTarget = of_nat (le_val (bytes_at 88 4 bs)), version = bs ! 92, reserved = bytes_at 93 3 bs \<rparr>"

definition Block_Create :: block_t where
  "Block_Create = \<lparr> header = header_of_image (replicate 96 0), transactions = Some [] \<rparr>"

definition Block_Copy :: "block_t \<Rightarrow> block_t" where
  "Block_Copy src = \<lparr> header = header src, transactions = map_option (\<lambda>v. v) (transactions src) \<rparr>"

section \<open>Hashing\<close>

definition Block_CalculateHash :: "crypto_env \<Rightarrow> block_t \<Rightarrow> byte list" where
  "Block_CalculateHash E block = (let outHash = SHA256 E (header_image (header block)) in SHA256 E outHash)"

text \<open>One pass of the merkle loop: pairs are hashed, an odd last hash is paired with itself.\<close>

fun merkle_level :: "crypto_env \<Rightarrow> byte list list \<Rightarrow> byte list list" where
  "merkle_level E [] = []"
| "merkle_level E [l] = [sha256d E (l @ l)]"
| "merkle_level E (l # r # rest) = sha256d E (l @ r) # merkle_level E rest"

lemma length_merkle_level: "length (merkle_level E hs) = (length hs + 1) div 2"
  by (induction E hs rule: merkle_level.induct) auto

function merkle_loop :: "crypto_env \<Rightarrow> byte list list \<Rightarrow> byte list list" where
  "merkle_loop E hs = (if length hs > 1 then merkle_loop E (merkle_level E hs) else hs)"
  by pat_completeness auto
termination
  by (relation "measure (\<lambda>(E, hs). length hs)") (auto simp: length_merkle_level)

declare merkle_loop.simps [simp del]

definition merkle_root :: "crypto_env \<Rightarrow> byte list list \<Rightarrow> byte list" where
  "merkle_root E hs = (if hs = [] then replicate 32 0 else hd (merkle_loop E hs))"

definition Block_CalculateMerkleRoot :: "crypto_env \<Rightarrow> block_t \<Rightarrow> byte list option" where
  "Block_CalculateMerkleRoot E block =
     map_option (\<lambda>txs. merkle_root E (map (Transaction_CalculateHash E) txs)) (transactions block)"

section \<open>Transactions of a block\<close>

definition Block_AddTransaction :: "block_t \<Rightarrow> signed_transaction_t \<Rightarrow> block_t" where
  "Block_AddTransaction block tx = block\<lparr> transactions := map_option (\<lambda>v. vec_push_back v tx) (transactions block) \<rparr>"

fun find_tx_index :: "crypto_env \<Rightarrow> signed_transaction_t list \<Rightarrow> byte list \<Rightarrow> nat \<Rightarrow> nat option" where
  "find_tx_index E [] txHash i = None"
| "find_tx_index E (tx # txs) txHash i =
     (if Transaction_CalculateHash E tx = txHash then Some i else find_tx_index E txs txHash (Suc i))"

definition Block_RemoveTransaction :: "crypto_env \<Rightarrow> block_t \<Rightarrow> byte list \<Rightarrow> block_t" where
  "Block_RemoveTransaction E block txHash =
     (case transactions block of
        None \<Rightarrow> block
      | Some txs \<Rightarrow>
          (case find_tx_index E txs txHash 0 of
             None \<Rightarrow> block
           | Some i \<Rightarrow> block\<lparr> transactions := Some (vec_pop_at txs i) \<rparr>))"

fun all_txs_valid :: "crypto_env \<Rightarrow> signed_transaction_t list \<Rightarrow> bool \<Rightarrow> bool option" where
  "all_txs_valid E [] hasCoinbase = Some hasCoinbase"
| "all_txs_valid E (tx # txs) hasCoinbase =
     (if \<not> Transaction_Verify E tx then None
      else if Address_IsCoinbase (senderAddress (transaction tx)) then
        (if hasCoinbase then None else all_txs_valid E txs True)
      else all_txs_valid E txs hasCoinbase)"

definition Block_AllTransactionsValid :: "crypto_env \<Rightarrow> block_t \<Rightarrow> bool" where
  "Block_AllTransactionsValid E block =
     (case transactions block of
        None \<Rightarrow> False
      | Some txs \<Rightarrow>
          (case all_txs_valid E txs False of
             None \<Rightarrow> False
           | Some hasCoinbase \<Rightarrow> hasCoinbase \<and> length txs > 0))"

fun coinbase_and_fees ::
  "crypto_env \<Rightarrow> u64 \<Rightarrow> signed_transaction_t list \<Rightarrow> bool \<Rightarrow> u64 \<Rightarrow> u64 option" where
  "coinbase_and_fees E expected [] hasCoinbase totalFees = (if hasCoinbase then Some totalFees else None)"
| "coinbase_and_fees E expected (tx # txs) hasCoinbase totalFees =
     (let t = transaction tx in
      if Address_IsCoinbase (senderAddress t) then
        (if hasCoinbase then None
         else if \<not> Transaction_Verify E tx then None
         else if fee t \<noteq> 0 \<or> amount2 t \<noteq> 0 then None
         else if amount1 t \<noteq> expected then None
         else if Address_IsCoinbase (recipientAddress1 t) then None
         else if recipientAddress2 t \<noteq> zeroAddress then None
         else coinbase_and_fees E expected txs True totalFees)
      else if \<not> Transaction_Verify E tx then None
      else if UINT64_MAX - totalFees < fee t then None
      else coinbase_and_fees E expected txs hasCoinbase (totalFees + fee t))"

text \<open>The result is \<open>Some\<close> of \<^verbatim>\<open>*outTotalFees\<close> where the C function answers true.\<close>

definition Block_ValidateCoinbaseAndFees :: "crypto_env \<Rightarrow> block_t \<Rightarrow> u64 \<Rightarrow> u64 option" where
  "Block_ValidateCoinbaseAndFees E block expectedCoinbaseAmount =
     (case transactions block of
        None \<Rightarrow> None
      | Some txs \<Rightarrow> coinbase_and_fees E expectedCoinbaseAmount txs False 0)"

definition DAG_VOTE_MAX :: byte where
  "DAG_VOTE_MAX = 2"

definition Block_HasValidVote :: "block_t \<Rightarrow> bool" where
  "Block_HasValidVote block =
     (reserved (header block) ! 0 \<le> DAG_VOTE_MAX \<and> reserved (header block) ! 1 = 0
      \<and> reserved (header block) ! 2 = 0)"

definition Block_HasValidStructure :: "crypto_env \<Rightarrow> block_t \<Rightarrow> bool" where
  "Block_HasValidStructure E block =
     (case transactions block of
        None \<Rightarrow> False
      | Some txs \<Rightarrow>
          Block_CalculateMerkleRoot E block = Some (merkleRoot (header block)) \<and>
          Block_HasValidVote block \<and> Block_AllTransactionsValid E block \<and> length txs > 0)"

section \<open>The process-global mining DAG\<close>

record pow_ctx =
  g_autolykos2Ctx :: "Autolykos2Context option"
  g_dagEpoch :: u64
  g_dagSeed :: "byte list"
  g_dagReady :: bool

definition pow_initial :: pow_ctx where
  "pow_initial = \<lparr> g_autolykos2Ctx = None, g_dagEpoch = 0, g_dagSeed = replicate 32 0, g_dagReady = False \<rparr>"

definition GetAutolykos2CtxLocked ::
  "(byte list \<Rightarrow> u64 \<Rightarrow> u32 \<Rightarrow> byte list \<Rightarrow> bool) option \<Rightarrow> pow_ctx \<Rightarrow> Autolykos2Context" where
  "GetAutolykos2CtxLocked ref st =
     (case g_autolykos2Ctx st of None \<Rightarrow> Autolykos2_Create ref | Some ctx \<Rightarrow> ctx)"

definition Block_ShutdownPowContext :: "pow_ctx \<Rightarrow> pow_ctx" where
  "Block_ShutdownPowContext st = st\<lparr> g_autolykos2Ctx := None, g_dagReady := False \<rparr>"

definition dag_usable :: "pow_ctx \<Rightarrow> u64 \<Rightarrow> nat \<Rightarrow> byte list \<Rightarrow> bool" where
  "dag_usable st epochIndex dagBytes seed32 =
     (g_dagReady st \<and> g_autolykos2Ctx st \<noteq> None \<and> g_dagEpoch st = epochIndex \<and>
      Autolykos2_DagSize (g_autolykos2Ctx st) = dagBytes \<and> g_dagSeed st = seed32)"

definition Block_EnsureAutolykos2Dag ::
  "crypto_env \<Rightarrow> (byte list \<Rightarrow> u64 \<Rightarrow> u32 \<Rightarrow> byte list \<Rightarrow> bool) option \<Rightarrow> bool \<Rightarrow> pow_ctx \<Rightarrow> u64 \<Rightarrow> nat
     \<Rightarrow> byte list \<Rightarrow> pow_ctx \<times> bool" where
  "Block_EnsureAutolykos2Dag E ref reallocOk st epochIndex dagBytes seed32 =
     (if dagBytes < 32 \<or> dagBytes mod 32 \<noteq> 0 then (st, False)
      else if dag_usable st epochIndex dagBytes seed32 then (st, True)
      else
        (let ctx = Autolykos2_DagClear (GetAutolykos2CtxLocked ref st) in
         case Autolykos2_DagAllocate reallocOk ctx dagBytes of
           (ctx1, False) \<Rightarrow> (st\<lparr> g_autolykos2Ctx := Some ctx1, g_dagReady := False \<rparr>, False)
         | (ctx1, True) \<Rightarrow>
             (case Autolykos2_DagGenerate E ctx1 seed32 of
                (ctx2, False) \<Rightarrow> (st\<lparr> g_autolykos2Ctx := Some ctx2, g_dagReady := False \<rparr>, False)
              | (ctx2, True) \<Rightarrow>
                  (st\<lparr> g_autolykos2Ctx := Some ctx2, g_dagEpoch := epochIndex, g_dagSeed := seed32,
                       g_dagReady := True \<rparr>, True))))"

section \<open>Proof of work against given epoch parameters\<close>

definition Block_PowHashHeavy ::
  "crypto_env \<Rightarrow> pow_ctx \<Rightarrow> block_t \<Rightarrow> u64 \<Rightarrow> nat \<Rightarrow> byte list \<Rightarrow> byte list option" where
  "Block_PowHashHeavy E st block epochIndex dagBytes seed32 =
     (case g_autolykos2Ctx st of
        Some ctx \<Rightarrow>
          (if dag_usable st epochIndex dagBytes seed32
           then Autolykos2_Hash E ctx (header_image (header block)) (nonce (header block)) (blockNumber (header block))
           else None)
      | None \<Rightarrow> None)"

definition Block_PowHashLight :: "crypto_env \<Rightarrow> block_t \<Rightarrow> nat \<Rightarrow> byte list \<Rightarrow> byte list option" where
  "Block_PowHashLight E block dagBytes seed32 =
     Autolykos2_LightHashAtHeight E seed32 (header_image (header block)) (nonce (header block))
       (blockNumber (header block)) dagBytes"

definition Block_HasValidProofOfWorkWithParams ::
  "crypto_env \<Rightarrow> pow_ctx \<Rightarrow> block_t \<Rightarrow> u64 \<Rightarrow> nat \<Rightarrow> byte list \<Rightarrow> bool" where
  "Block_HasValidProofOfWorkWithParams E st block epochIndex dagBytes seed32 =
     (case DecodeCompactTarget (difficultyTarget (header block)) of
        None \<Rightarrow> False
      | Some target \<Rightarrow>
          (case Block_PowHashHeavy E st block epochIndex dagBytes seed32 of
             Some hash \<Rightarrow> CompareHashToTarget hash target \<le> 0
           | None \<Rightarrow>
               (case Block_PowHashLight E block dagBytes seed32 of
                  Some hash \<Rightarrow> CompareHashToTarget hash target \<le> 0
                | None \<Rightarrow> False)))"

text \<open>The proof-of-work context as the process drives it: build for an epoch, shut down.\<close>

inductive pow_reachable :: "crypto_env \<Rightarrow> pow_ctx \<Rightarrow> bool" for E where
  pow_start: "pow_reachable E pow_initial"
| pow_ensure: "pow_reachable E st \<Longrightarrow>
    pow_reachable E (fst (Block_EnsureAutolykos2Dag E ref reallocOk st epochIndex dagBytes seed32))"
| pow_shutdown: "pow_reachable E st \<Longrightarrow> pow_reachable E (Block_ShutdownPowContext st)"

section \<open>Header image\<close>

lemma length_header_image [bytes_simps]: "header_wf h \<Longrightarrow> length (header_image h) = 96"
  by (simp add: header_wf_def header_image_def)

lemma u32_image: "of_nat (le_val (le_bytes 4 (unat (x :: u32)))) = x"
proof -
  have "unat x mod 256 ^ 4 = unat x" using unat_lt_32 [of x] by simp
  then show ?thesis by (simp add: le_val_le_bytes)
qed

lemma header_image_roundtrip: "header_wf h \<Longrightarrow> header_of_image (header_image h) = h"
  by (simp add: header_wf_def header_of_image_def header_image_def read_u64_def bytes_at_simps u64_image
      u32_image nth_append)

interpretation header_codec: byte_codec header_image header_of_image header_wf 96
  by unfold_locales (auto simp: length_header_image header_image_roundtrip)

lemma header_of_image_wf: "length bs = 96 \<Longrightarrow> header_wf (header_of_image bs)"
  by (simp add: header_wf_def header_of_image_def bytes_at_def)

section \<open>Merkle root\<close>

text \<open>
  The byte strings a merkle computation feeds to the double hash, level by level: binding is stated
  relative to collisions among these, the only ones an attacker could use.
\<close>

fun level_inputs :: "byte list list \<Rightarrow> byte list list" where
  "level_inputs [] = []"
| "level_inputs [l] = [l @ l]"
| "level_inputs (l # r # rest) = (l @ r) # level_inputs rest"

lemma merkle_level_inputs: "merkle_level E hs = map (sha256d E) (level_inputs hs)"
  by (induction hs rule: level_inputs.induct) auto

function merkle_inputs :: "crypto_env \<Rightarrow> byte list list \<Rightarrow> byte list list" where
  "merkle_inputs E hs = (if length hs > 1 then level_inputs hs @ merkle_inputs E (merkle_level E hs) else [])"
  by pat_completeness auto
termination
  by (relation "measure (\<lambda>(E, hs). length hs)") (auto simp: length_merkle_level)

declare merkle_inputs.simps [simp del]

lemma merkle_level_digests: "sha256_env E \<Longrightarrow> \<forall>h\<in>set (merkle_level E hs). length h = 32"
  by (simp add: merkle_level_inputs sha256d_length)

lemma level_inputs_inj:
  "level_inputs hs = level_inputs hs' \<Longrightarrow> length hs = length hs' \<Longrightarrow> \<forall>h\<in>set hs \<union> set hs'. length h = 32 \<Longrightarrow> hs = hs'"
proof (induction hs arbitrary: hs' rule: induct_list012)
  case (2 l)
  then show ?case by (cases hs') auto
next
  case (3 l r rest)
  then obtain l' r' rest' where "hs' = l' # r' # rest'"
    by (metis length_Cons length_0_conv list.exhaust nat.inject nat.distinct(1))
  then show ?case using 3 by auto
qed simp

lemma merkle_loop_step: "length hs > 1 \<Longrightarrow> merkle_loop E hs = merkle_loop E (merkle_level E hs)"
  by (subst merkle_loop.simps) simp

lemma merkle_loop_done: "length hs \<le> 1 \<Longrightarrow> merkle_loop E hs = hs"
  by (subst merkle_loop.simps) simp

lemma merkle_inputs_step:
  "length hs > 1 \<Longrightarrow> merkle_inputs E hs = level_inputs hs @ merkle_inputs E (merkle_level E hs)"
  by (subst merkle_inputs.simps) simp

lemma merkle_loop_inj:
  assumes "sha256_env E" "inj_on (sha256d E) (set (merkle_inputs E hs) \<union> set (merkle_inputs E hs'))"
    and "merkle_loop E hs = merkle_loop E hs'" "length hs = length hs'" "\<forall>h\<in>set hs \<union> set hs'. length h = 32"
  shows "hs = hs'"
  using assms(2-)
proof (induction "length hs" arbitrary: hs hs' rule: less_induct)
  case less
  show ?case
  proof (cases "length hs > 1")
    case True
    let ?m = "merkle_level E hs" and ?m' = "merkle_level E hs'"
    have ins: "merkle_inputs E hs = level_inputs hs @ merkle_inputs E ?m"
        "merkle_inputs E hs' = level_inputs hs' @ merkle_inputs E ?m'"
      using True less.prems(3) by (simp_all add: merkle_inputs_step)
    have inj: "inj_on (sha256d E) (set (merkle_inputs E ?m) \<union> set (merkle_inputs E ?m'))"
      using less.prems(1) by (rule inj_on_subset) (simp add: ins le_supI1 le_supI2)
    have lvl: "inj_on (sha256d E) (set (level_inputs hs) \<union> set (level_inputs hs'))"
      using less.prems(1) by (rule inj_on_subset) (simp add: ins le_supI1 le_supI2)
    have loops: "merkle_loop E ?m = merkle_loop E ?m'"
      using less.prems(2,3) True merkle_loop_step [of hs E] merkle_loop_step [of hs' E] by metis
    have lens: "length ?m < length hs" "length ?m = length ?m'"
      using True less.prems(3) by (simp_all add: length_merkle_level)
    have digests: "\<forall>h\<in>set ?m \<union> set ?m'. length h = 32"
      using merkle_level_digests [OF assms(1)] by blast
    have "?m = ?m'" by (rule less.hyps [OF lens(1) inj loops lens(2) digests])
    then have "level_inputs hs = level_inputs hs'"
      unfolding merkle_level_inputs by (rule map_inj_on [OF _ lvl])
    then show ?thesis using less.prems(3,4) by (rule level_inputs_inj)
  next
    case False
    then show ?thesis using less.prems(2,3) by (simp add: merkle_loop_done)
  qed
qed

lemma merkle_loop_single: "hs \<noteq> [] \<Longrightarrow> \<exists>root. merkle_loop E hs = [root]"
proof (induction "length hs" arbitrary: hs rule: less_induct)
  case less
  show ?case
  proof (cases "length hs > 1")
    case True
    then have "merkle_level E hs \<noteq> []" using less.prems by (cases "(E, hs)" rule: merkle_level.cases) auto
    then show ?thesis
      using less.hyps [of "merkle_level E hs"] True by (simp add: length_merkle_level merkle_loop_step)
  next
    case False
    then show ?thesis using less.prems by (cases hs) (auto simp: merkle_loop_done)
  qed
qed

lemma merkle_level_dup_last: "even (length hs) \<Longrightarrow> merkle_level E (hs @ [x]) = merkle_level E (hs @ [x, x])"
  by (induction E hs rule: merkle_level.induct) auto

lemma Transaction_CalculateHash_sha256d: "Transaction_CalculateHash E tx = sha256d E (tx_image (transaction tx))"
  by (simp add: Transaction_CalculateHash_def sha256d_def)

section \<open>Coinbase and fees\<close>

definition is_coinbase_tx :: "signed_transaction_t \<Rightarrow> bool" where
  "is_coinbase_tx tx = Address_IsCoinbase (senderAddress (transaction tx))"

definition block_fees :: "signed_transaction_t list \<Rightarrow> nat" where
  "block_fees txs = (\<Sum>tx\<leftarrow>filter (\<lambda>tx. \<not> is_coinbase_tx tx) txs. unat (fee (transaction tx)))"

lemma fee_room: "\<not> UINT64_MAX - totalFees < f \<Longrightarrow> unat (totalFees + f) = unat totalFees + unat (f :: u64)"
proof -
  assume "\<not> UINT64_MAX - totalFees < f"
  then have "unat f \<le> unat (UINT64_MAX - totalFees)" by (simp add: word_le_nat_alt not_less)
  moreover have "totalFees \<le> UINT64_MAX" using unat_lt_64 [of totalFees] by (simp add: word_le_nat_alt)
  then have "unat (UINT64_MAX - totalFees) = 18446744073709551615 - unat totalFees"
    by (simp add: unat_sub)
  ultimately have "unat totalFees + unat f < 2 ^ 64" using unat_lt_64 [of totalFees] by simp
  then show ?thesis by (simp add: unat_add_lem [THEN iffD1])
qed

lemma coinbase_and_fees_coinbase:
  assumes "is_coinbase_tx tx" "coinbase_and_fees E expected (tx # txs) hasCoinbase totalFees = Some fees"
  shows "\<not> hasCoinbase \<and> Transaction_Verify E tx \<and> fee (transaction tx) = 0 \<and> amount1 (transaction tx) = expected
    \<and> coinbase_and_fees E expected txs True totalFees = Some fees"
  using assms by (auto simp: is_coinbase_tx_def Let_def split: if_splits)

lemma coinbase_and_fees_spend:
  assumes "\<not> is_coinbase_tx tx" "coinbase_and_fees E expected (tx # txs) hasCoinbase totalFees = Some fees"
  shows "Transaction_Verify E tx \<and> \<not> UINT64_MAX - totalFees < fee (transaction tx)
    \<and> coinbase_and_fees E expected txs hasCoinbase (totalFees + fee (transaction tx)) = Some fees"
  using assms unfolding is_coinbase_tx_def coinbase_and_fees.simps Let_def by (simp only: split: if_splits) auto

lemma block_fees_Cons:
  "block_fees (tx # txs) = (if is_coinbase_tx tx then 0 else unat (fee (transaction tx))) + block_fees txs"
  by (simp add: block_fees_def)

lemma coinbase_and_fees_sound:
  assumes "coinbase_and_fees E expected txs hasCoinbase totalFees = Some fees"
  shows "unat fees = unat totalFees + block_fees txs \<and> (\<forall>tx\<in>set txs. Transaction_Verify E tx) \<and>
    (if hasCoinbase then filter is_coinbase_tx txs = []
     else \<exists>cb. filter is_coinbase_tx txs = [cb] \<and> amount1 (transaction cb) = expected \<and> fee (transaction cb) = 0)"
  using assms
proof (induction txs arbitrary: hasCoinbase totalFees)
  case Nil
  then show ?case by (simp add: block_fees_def split: if_splits)
next
  case (Cons tx txs)
  show ?case
  proof (cases "is_coinbase_tx tx")
    case True
    note step = coinbase_and_fees_coinbase [OF True Cons.prems]
    then have "coinbase_and_fees E expected txs True totalFees = Some fees" by blast
    from Cons.IH [OF this] step True show ?thesis by (simp add: block_fees_Cons)
  next
    case False
    note step = coinbase_and_fees_spend [OF False Cons.prems]
    then have "coinbase_and_fees E expected txs hasCoinbase (totalFees + fee (transaction tx)) = Some fees"
      and room: "\<not> UINT64_MAX - totalFees < fee (transaction tx)" by blast+
    from Cons.IH [OF this(1)] step False fee_room [OF room] show ?thesis by (simp add: block_fees_Cons)
  qed
qed

lemma all_txs_valid_sound:
  "all_txs_valid E txs hasCoinbase = Some c \<Longrightarrow>
     (\<forall>tx\<in>set txs. Transaction_Verify E tx) \<and>
     length (filter is_coinbase_tx txs) + of_bool hasCoinbase = of_bool c"
proof (induction txs arbitrary: hasCoinbase)
  case (Cons tx txs)
  have v: "Transaction_Verify E tx" using Cons.prems by (simp split: if_splits)
  show ?case
  proof (cases "is_coinbase_tx tx")
    case True
    then have "\<not> hasCoinbase" "all_txs_valid E txs True = Some c"
      using Cons.prems v by (simp_all add: is_coinbase_tx_def split: if_splits)
    then show ?thesis using Cons.IH [of True] v True by simp
  next
    case False
    then have "all_txs_valid E txs hasCoinbase = Some c" using Cons.prems v by (simp add: is_coinbase_tx_def)
    then show ?thesis using Cons.IH v False by simp
  qed
qed simp

section \<open>The mining DAG\<close>

definition pow_inv :: "crypto_env \<Rightarrow> pow_ctx \<Rightarrow> bool" where
  "pow_inv E st \<longleftrightarrow> (g_dagReady st \<longrightarrow> (\<exists>ctx. g_autolykos2Ctx st = Some ctx \<and> dag_generated E (g_dagSeed st) ctx))"

lemma pow_inv_Ensure:
  assumes "pow_inv E st"
  shows "pow_inv E (fst (Block_EnsureAutolykos2Dag E ref reallocOk st epochIndex dagBytes seed32))"
proof (cases "dagBytes < 32 \<or> dagBytes mod 32 \<noteq> 0 \<or> dag_usable st epochIndex dagBytes seed32 \<or> \<not> reallocOk")
  case True
  then show ?thesis
    using assms by (auto simp: Block_EnsureAutolykos2Dag_def Autolykos2_DagAllocate_def pow_inv_def Let_def)
next
  case False
  define ctx1 where
    "ctx1 = fst (Autolykos2_DagAllocate True (Autolykos2_DagClear (GetAutolykos2CtxLocked ref st)) dagBytes)"
  have alloc: "Autolykos2_DagAllocate True (Autolykos2_DagClear (GetAutolykos2CtxLocked ref st)) dagBytes = (ctx1, True)"
    by (simp add: ctx1_def Autolykos2_DagAllocate_def)
  have buf: "dag_buf ctx1 = Some (replicate dagBytes 0)" "dag_cap ctx1 = dagBytes"
    by (simp_all add: ctx1_def Autolykos2_DagAllocate_def)
  obtain ctx2 ok where gen: "Autolykos2_DagGenerate E ctx1 seed32 = (ctx2, ok)" by fastforce
  show ?thesis
  proof (cases ok)
    case True
    then have "dag_generated E seed32 ctx2" using DagGenerate_generated(1) gen buf by simp
    then show ?thesis
      using False gen True by (simp add: Block_EnsureAutolykos2Dag_def alloc pow_inv_def Let_def)
  next
    case failed: False
    then show ?thesis
      using False gen by (simp add: Block_EnsureAutolykos2Dag_def alloc pow_inv_def Let_def)
  qed
qed

lemma pow_inv_reachable: "pow_reachable E st \<Longrightarrow> pow_inv E st"
proof (induction rule: pow_reachable.induct)
  case pow_start
  then show ?case by (simp add: pow_inv_def pow_initial_def)
next
  case (pow_ensure st ref reallocOk epochIndex dagBytes seed32)
  then show ?case by (intro pow_inv_Ensure)
next
  case (pow_shutdown st)
  then show ?case by (simp add: pow_inv_def Block_ShutdownPowContext_def)
qed

lemma PowHashHeavy_light:
  assumes "pow_inv E st" and "dag_usable st epochIndex dagBytes seed32"
  shows "Block_PowHashHeavy E st block epochIndex dagBytes seed32 = Block_PowHashLight E block dagBytes seed32"
proof -
  obtain ctx where "g_autolykos2Ctx st = Some ctx" "dag_generated E seed32 ctx" "dag_len ctx = dagBytes"
    using assms by (auto simp: pow_inv_def dag_usable_def Autolykos2_DagSize_def)
  then show ?thesis
    using assms(2) heavy_eq_light by (simp add: Block_PowHashHeavy_def Block_PowHashLight_def)
qed

lemma ProofOfWork_light:
  assumes "pow_inv E st"
  shows "Block_HasValidProofOfWorkWithParams E st block epochIndex dagBytes seed32 =
    Block_HasValidProofOfWorkWithParams E pow_initial block epochIndex dagBytes seed32"
proof (cases "dag_usable st epochIndex dagBytes seed32")
  case True
  then have "Block_PowHashHeavy E pow_initial block epochIndex dagBytes seed32 = None"
    by (simp add: Block_PowHashHeavy_def pow_initial_def)
  then show ?thesis
    using PowHashHeavy_light [OF assms True, of block]
    by (auto simp: Block_HasValidProofOfWorkWithParams_def split: option.splits)
next
  case False
  then have "Block_PowHashHeavy E st block epochIndex dagBytes seed32 = None"
      "Block_PowHashHeavy E pow_initial block epochIndex dagBytes seed32 = None"
    by (auto simp: Block_PowHashHeavy_def pow_initial_def split: option.splits)
  then show ?thesis unfolding Block_HasValidProofOfWorkWithParams_def by (simp only:)
qed

section \<open>Properties\<close>

text \<open>
  C23: the heavy hash over a buffer that \<^verbatim>\<open>Autolykos2_DagGenerate\<close> filled from a seed equals, for
  every message, nonce and height, the light hash that derives its lanes from that seed; both fail
  on the same inputs.
\<close>

theorem Autolykos2_heavy_light_equivalence:
  assumes "Autolykos2_DagAllocate True ctx0 dagBytes = (ctx, True)"
    and "Autolykos2_DagGenerate E ctx seed32 = (ctx', True)"
  shows "Autolykos2_Hash E ctx' message n height = Autolykos2_LightHashAtHeight E seed32 message n height dagBytes"
proof -
  have ctx: "ctx = fst (Autolykos2_DagAllocate True ctx0 dagBytes)" using assms(1) by simp
  then have "dag_buf ctx = Some (replicate dagBytes 0)" "dag_cap ctx = dagBytes"
    by (simp_all add: Autolykos2_DagAllocate_def)
  with DagGenerate_generated [OF assms(2)] show ?thesis using heavy_eq_light by force
qed

theorem Autolykos2_heavy_light_equivalence_witness:
  "let ctx = fst (Autolykos2_DagAllocate True (Autolykos2_Create None) 64);
       ctx' = fst (Autolykos2_DagGenerate demo_env ctx [])
   in Autolykos2_Hash demo_env ctx' [1] 2 3 = Autolykos2_LightHashAtHeight demo_env [] [1] 2 3 64"
proof -
  define ctx where "ctx = fst (Autolykos2_DagAllocate True (Autolykos2_Create None) 64)"
  have a: "Autolykos2_DagAllocate True (Autolykos2_Create None) 64 = (ctx, True)"
    by (simp add: ctx_def Autolykos2_DagAllocate_def)
  have "snd (Autolykos2_DagGenerate demo_env ctx [])"
    by (simp add: ctx_def Autolykos2_DagAllocate_def Autolykos2_Create_def Autolykos2_DagGenerate_def
        dag_fill.simps demo_env_def Blake2b_Hash_def Blake2_HashInternal_def WriteU64LE_def)
  then have "Autolykos2_DagGenerate demo_env ctx [] = (fst (Autolykos2_DagGenerate demo_env ctx []), True)"
    by (metis prod.collapse)
  from Autolykos2_heavy_light_equivalence [OF a this] show ?thesis by (simp add: ctx_def Let_def)
qed

text \<open>
  C24: in every state of the global mining DAG the process can reach, whatever epochs and seeds it was
  built for, the proof-of-work check gives the verdict of the light path alone: true exactly when the
  compact target decodes, the light hash is computable and its value does not exceed the target. A
  stale, foreign or failed DAG never changes a verdict.
\<close>

theorem ProofOfWork_independent_of_dag:
  assumes "pow_reachable E st"
  shows "Block_HasValidProofOfWorkWithParams E st block epochIndex dagBytes seed32 \<longleftrightarrow>
    (\<exists>target hash. DecodeCompactTarget (difficultyTarget (header block)) = Some target \<and>
       Block_PowHashLight E block dagBytes seed32 = Some hash \<and> be_val hash \<le> be_val target)"
proof -
  have "Block_PowHashHeavy E pow_initial block epochIndex dagBytes seed32 = None"
    by (simp add: Block_PowHashHeavy_def pow_initial_def)
  then show ?thesis
    unfolding ProofOfWork_light [OF pow_inv_reachable [OF assms]]
    by (auto simp: Block_HasValidProofOfWorkWithParams_def CompareHashToTarget_le0 DecodeCompactTarget_length
        LightHash_length Block_PowHashLight_def split: option.splits)
qed

theorem ProofOfWork_independent_of_dag_witness:
  "let st = fst (Block_EnsureAutolykos2Dag demo_env None True pow_initial 0 64 [])
   in \<not> Block_HasValidProofOfWorkWithParams demo_env st Block_Create 0 64 []"
proof -
  have r: "pow_reachable demo_env (fst (Block_EnsureAutolykos2Dag demo_env None True pow_initial 0 64 []))"
    by (intro pow_ensure pow_start)
  have "DecodeCompactTarget (difficultyTarget (header Block_Create)) = None"
    by (simp add: Block_Create_def header_of_image_def bytes_at_def DecodeCompactTarget_def Let_def numeral_eq_Suc)
  then show ?thesis using ProofOfWork_independent_of_dag [OF r] by (simp add: Let_def)
qed

text \<open>
  C25: the merkle root commits to the transactions: two blocks with the same number of well-formed
  transactions and the same root carry the same transactions in the same order (signatures aside,
  which the transaction hash does not cover), unless the double SHA-256 maps two of the strings
  hashed in the two computations to one digest.
\<close>

theorem merkle_root_binding:
  assumes "sha256_env E" and "length txs = length txs'"
    and "\<forall>tx\<in>set txs \<union> set txs'. stx_wf tx"
    and "inj_on (sha256d E) ((\<lambda>tx. tx_image (transaction tx)) ` (set txs \<union> set txs'))"
    and "inj_on (sha256d E) (set (merkle_inputs E (map (Transaction_CalculateHash E) txs))
           \<union> set (merkle_inputs E (map (Transaction_CalculateHash E) txs')))"
    and "merkle_root E (map (Transaction_CalculateHash E) txs) = merkle_root E (map (Transaction_CalculateHash E) txs')"
  shows "map transaction txs = map transaction txs'"
proof (cases "txs = []")
  case False
  let ?h = "Transaction_CalculateHash E" and ?img = "\<lambda>tx. tx_image (transaction tx)"
  have d: "\<forall>h\<in>set (map ?h txs) \<union> set (map ?h txs'). length h = 32"
    using assms(1) by (auto simp: Transaction_CalculateHash_sha256d sha256d_length)
  have ne: "map ?h txs \<noteq> []" "map ?h txs' \<noteq> []" using False assms(2) by auto
  obtain r r' where "merkle_loop E (map ?h txs) = [r]" "merkle_loop E (map ?h txs') = [r']"
    using merkle_loop_single [OF ne(1)] merkle_loop_single [OF ne(2)] by blast
  then have "merkle_loop E (map ?h txs) = merkle_loop E (map ?h txs')"
    using assms(6) ne by (simp add: merkle_root_def)
  then have "map ?h txs = map ?h txs'"
    by (rule merkle_loop_inj [OF assms(1,5) _ _ d]) (simp add: assms(2))
  then have "map (sha256d E) (map ?img txs) = map (sha256d E) (map ?img txs')"
    by (simp add: Transaction_CalculateHash_sha256d [abs_def] o_def)
  then have "map ?img txs = map ?img txs'"
    by (rule map_inj_on) (use assms(4) in \<open>simp add: image_Un\<close>)
  then have "map tx_image (map transaction txs) = map tx_image (map transaction txs')" by (simp add: o_def)
  then show ?thesis
    by (rule map_inj_on) (use assms(3) tx_codec.image_inj in \<open>auto simp: inj_on_def stx_wf_def\<close>)
qed (use assms(2) in simp)

theorem merkle_root_binding_witness:
  "map transaction [demo_tx] = map transaction [demo_tx\<lparr> signature := replicate 64 1 \<rparr>]"
proof (rule merkle_root_binding [of demo_env])
  show "sha256_env demo_env" by (simp add: sha256_env_def demo_env_def min_def)
qed (simp_all add: merkle_inputs.simps stx_wf_def tx_wf_def demo_tx_def zeroAddress_def Transaction_CalculateHash_def)

text \<open>
  The converse limit: an odd transaction list of at least three and the same list with its last
  transaction repeated have one and the same merkle root, so the root alone does not determine the
  number of transactions; such a duplicate is left to the replay rule of the chain.
\<close>

lemma merkle_root_duplicate_tail:
  assumes "even (length txs)" and "txs \<noteq> []"
  shows "Block_CalculateMerkleRoot E (b\<lparr> transactions := Some (txs @ [tx]) \<rparr>)
       = Block_CalculateMerkleRoot E (b\<lparr> transactions := Some (txs @ [tx, tx]) \<rparr>)"
  using assms merkle_level_dup_last [of "map (Transaction_CalculateHash E) txs" E "Transaction_CalculateHash E tx"]
  by (simp add: Block_CalculateMerkleRoot_def merkle_root_def merkle_loop_step)

text \<open>
  When \<^verbatim>\<open>Block_ValidateCoinbaseAndFees\<close> accepts a block, every transaction verifies, there is
  exactly one coinbase, it pays exactly the expected amount and no fee, and the reported total is the
  true sum of the fees of the other transactions (the 64-bit accumulator did not wrap).
\<close>

lemma ValidateCoinbaseAndFees_sound:
  assumes "Block_ValidateCoinbaseAndFees E block expected = Some fees"
  shows "\<exists>txs cb. transactions block = Some txs \<and> (\<forall>tx\<in>set txs. Transaction_Verify E tx) \<and>
     filter is_coinbase_tx txs = [cb] \<and> amount1 (transaction cb) = expected \<and> fee (transaction cb) = 0 \<and>
     unat fees = block_fees txs"
  using assms coinbase_and_fees_sound
  by (fastforce simp: Block_ValidateCoinbaseAndFees_def split: option.splits)

definition demo_coinbase :: signed_transaction_t where
  "demo_coinbase = demo_tx\<lparr> transaction := (transaction demo_tx)\<lparr> senderAddress := replicate 32 0xFF,
     amount1 := 50, fee := 0 \<rparr> \<rparr>"

end
