(* ===== verification/Emission.thy ===== *)
theory Emission
  imports Uint256
begin

text \<open>
  The emission schedule of \<^verbatim>\<open>include/constants.h\<close>. The C functions read and write the global
  \<^verbatim>\<open>g_currentReward\<close>; here they take it as an argument and return the pair of their result and its new
  value. The \<^verbatim>\<open>__int128\<close> long division is written over the naturals, where it cannot overflow either
  (the running remainder stays below the divisor).
\<close>

section \<open>Constants\<close>

definition EPOCH_LENGTH :: nat where "EPOCH_LENGTH = 350000"
definition PHASE1_TARGET_BLOCKS :: u64 where "PHASE1_TARGET_BLOCKS = 3000000"
definition EMISSION_ACCELERATION_FACTOR :: u64 where "EMISSION_ACCELERATION_FACTOR = 1"
definition INFLATION_PERCENTAGE_PER_EPOCH_TENTHS :: nat where "INFLATION_PERCENTAGE_PER_EPOCH_TENTHS = 15"
definition MONERO_EMISSION_SPEED_FACTOR :: nat where "MONERO_EMISSION_SPEED_FACTOR = 20"
definition M_CAP :: u64 where "M_CAP = 18446744073709551615"
definition TAIL_EMISSION :: u64 where "TAIL_EMISSION = 750000000000"

lemmas emission_constants = EPOCH_LENGTH_def PHASE1_TARGET_BLOCKS_def EMISSION_ACCELERATION_FACTOR_def
  INFLATION_PERCENTAGE_PER_EPOCH_TENTHS_def MONERO_EMISSION_SPEED_FACTOR_def M_CAP_def TAIL_EMISSION_def

section \<open>Epoch inflation\<close>

primrec add_times :: "nat \<Rightarrow> uint256_t \<Rightarrow> uint256_t \<Rightarrow> uint256_t" where
  "add_times 0 acc x = acc"
| "add_times (Suc n) acc x = add_times n (fst (uint256_add acc x)) x"

text \<open>Long division of the limbs by a small divisor, most significant limb first.\<close>

fun div_limbs :: "nat \<Rightarrow> nat \<Rightarrow> u64 list \<Rightarrow> u64 list" where
  "div_limbs divisor remainder [] = []"
| "div_limbs divisor remainder (l # ls) =
     (let current = remainder * 2 ^ 64 + unat l
      in of_nat (current div divisor) # div_limbs divisor (current mod divisor) ls)"

definition effectiveEpochLength :: u64 where
  "effectiveEpochLength =
     (if of_nat EPOCH_LENGTH div EMISSION_ACCELERATION_FACTOR > 0
      then of_nat EPOCH_LENGTH div EMISSION_ACCELERATION_FACTOR else 1)"

definition GetInflationRateRewardAtHeight :: "uint256_t \<Rightarrow> u64 \<Rightarrow> u64 \<Rightarrow> u64 \<times> u64" where
  "GetInflationRateRewardAtHeight currentSupply height currentReward =
     (if height = 0 then (TAIL_EMISSION, TAIL_EMISSION)
      else if height mod effectiveEpochLength = 0 then
        (let multiplied = add_times INFLATION_PERCENTAGE_PER_EPOCH_TENTHS (uint256_from_u64 0) currentSupply;
             divisor = 1000 * effectiveEpochLength;
             quotient_limbs = div_limbs (unat divisor) 0 (rev (limbs multiplied));
             inflationPerBlock = last quotient_limbs;
             reward = (if inflationPerBlock > TAIL_EMISSION then inflationPerBlock else TAIL_EMISSION)
         in (reward, reward))
      else (if currentReward > TAIL_EMISSION then currentReward else TAIL_EMISSION, currentReward))"

section \<open>Block reward\<close>

definition CalculateBlockRewardAtHeight :: "uint256_t \<Rightarrow> u64 \<Rightarrow> u64 \<Rightarrow> u64 \<times> u64" where
  "CalculateBlockRewardAtHeight currentSupply height currentReward =
     (let effectivePhase1Blocks =
        (if PHASE1_TARGET_BLOCKS div EMISSION_ACCELERATION_FACTOR > 0
         then PHASE1_TARGET_BLOCKS div EMISSION_ACCELERATION_FACTOR else 1)
      in if height \<ge> effectivePhase1Blocks
         then GetInflationRateRewardAtHeight currentSupply height currentReward
         else if limb1 currentSupply > 0 \<or> limb2 currentSupply > 0 \<or> limb3 currentSupply > 0 \<or>
                 limb0 currentSupply \<ge> M_CAP
         then GetInflationRateRewardAtHeight currentSupply height currentReward
         else
           (let generated = limb0 currentSupply;
                remaining = M_CAP - generated;
                reward = drop_bit MONERO_EMISSION_SPEED_FACTOR remaining;
                reward1 =
                  (if EMISSION_ACCELERATION_FACTOR > 1 \<and> reward > 0
                   then (if unat reward * unat EMISSION_ACCELERATION_FACTOR > unat remaining then remaining
                         else reward * EMISSION_ACCELERATION_FACTOR)
                   else reward);
                blocksLeft = effectivePhase1Blocks - height;
                minRewardToFinish = (remaining + blocksLeft - 1) div blocksLeft;
                reward2 = (if reward1 < minRewardToFinish then minRewardToFinish else reward1);
                reward3 = (if reward2 > remaining then remaining else reward2)
            in if reward3 > TAIL_EMISSION then (reward3, currentReward)
               else GetInflationRateRewardAtHeight currentSupply height currentReward))"

section \<open>The long division\<close>

lemma div_limbs_val:
  assumes "0 < d" and "r < d"
  shows "length (div_limbs d r ls) = length ls \<and>
    lval (rev (div_limbs d r ls)) = (r * 18446744073709551616 ^ length ls + lval (rev ls)) div d"
  using assms(2)
proof (induction ls arbitrary: r)
  case Nil
  then show ?case by simp
next
  case (Cons l ls)
  let ?B = "18446744073709551616 :: nat"
  define c P where "c = r * ?B + unat l" and "P = ?B ^ length ls"
  have "unat l < ?B" by (rule unat_lt_64)
  then have "c < (r + 1) * ?B" by (simp add: c_def)
  also have "\<dots> \<le> d * ?B" using Cons.prems by (intro mult_le_mono1) simp
  finally have "c div d < ?B" using assms(1) by (simp add: less_mult_imp_div_less mult.commute)
  then have q: "unat (of_nat (c div d) :: u64) = c div d" by (simp add: unat_of_nat)
  have IH: "length (div_limbs d (c mod d) ls) = length ls"
      "lval (rev (div_limbs d (c mod d) ls)) = (c mod d * P + lval (rev ls)) div d"
    using Cons.IH [of "c mod d"] assms(1) by (simp_all add: P_def)
  have split: "c * P + v = d * (c div d * P) + (c mod d * P + v)" for v
    by (metis (no_types, lifting) add.assoc add_mult_distrib mult.assoc mult_div_mod_eq)
  have "lval (rev (div_limbs d r (l # ls))) = (c mod d * P + lval (rev ls)) div d + P * (c div d)"
    using IH q by (simp add: Let_def c_def [symmetric] lval_snoc P_def [symmetric])
  also have "\<dots> = (c * P + lval (rev ls)) div d"
    unfolding split using assms(1) by simp
  also have "c * P + lval (rev ls) = r * ?B ^ length (l # ls) + lval (rev (l # ls))"
    by (simp add: c_def P_def lval_snoc algebra_simps)
  finally show ?case using IH(1) by (simp add: Let_def c_def [symmetric])
qed

lemma lval_last: "ls \<noteq> [] \<Longrightarrow> unat (last ls) = lval (rev ls) mod 18446744073709551616"
  by (cases ls rule: rev_cases) (auto simp: unat_lt_64)

lemma add_times_val: "u256_val (add_times n acc x) = (u256_val acc + n * u256_val x) mod TWO256"
proof (induction n arbitrary: acc)
  case 0
  then show ?case using u256_val_bound [of acc] by simp
next
  case (Suc n)
  let ?s = "uint256_add acc x"
  have "u256_val (fst ?s) + (if snd ?s then TWO256 else 0) = u256_val acc + u256_val x"
    by (rule uint256_add_val)
  then have "u256_val acc + u256_val x + n * u256_val x
      = (u256_val (fst ?s) + n * u256_val x) + (if snd ?s then TWO256 else 0)" by linarith
  then have "(u256_val acc + u256_val x + n * u256_val x) mod TWO256 = (u256_val (fst ?s) + n * u256_val x) mod TWO256"
    by (simp only: mod_add_self2 add_0_right split: if_split) simp
  moreover have "u256_val acc + Suc n * u256_val x = u256_val acc + u256_val x + n * u256_val x" by simp
  ultimately show ?case using Suc [of "fst ?s"] by (simp only: add_times.simps)
qed

lemma effectiveEpochLength_val: "effectiveEpochLength = 350000"
  by (simp add: effectiveEpochLength_def emission_constants)

lemma epoch_inflation_val:
  assumes "height \<noteq> 0" and "height mod 350000 = 0"
  shows "unat (fst (GetInflationRateRewardAtHeight S height g)) =
    max 750000000000 ((15 * u256_val S mod TWO256) div 350000000 mod 2 ^ 64)"
    and "snd (GetInflationRateRewardAtHeight S height g) = fst (GetInflationRateRewardAtHeight S height g)"
proof -
  define m where "m = add_times 15 (uint256_from_u64 0) S"
  define qs where "qs = div_limbs 350000000 0 (rev (limbs m))"
  have m: "u256_val m = 15 * u256_val S mod TWO256" by (simp add: m_def add_times_val)
  have qs: "length qs = 4" "lval (rev qs) = u256_val m div 350000000"
    using div_limbs_val [of 350000000 0 "rev (limbs m)"] by (simp_all add: qs_def u256_val_def)
  then have l: "unat (last qs) = u256_val m div 350000000 mod 2 ^ 64"
    using lval_last [of qs] by (cases qs) auto
  have def': "GetInflationRateRewardAtHeight S height g =
      (let reward = (if last qs > TAIL_EMISSION then last qs else TAIL_EMISSION) in (reward, reward))"
    using assms
    by (simp add: GetInflationRateRewardAtHeight_def effectiveEpochLength_val m_def qs_def
        INFLATION_PERCENTAGE_PER_EPOCH_TENTHS_def Let_def)
  then show "snd (GetInflationRateRewardAtHeight S height g) = fst (GetInflationRateRewardAtHeight S height g)"
    by (simp add: Let_def)
  show "unat (fst (GetInflationRateRewardAtHeight S height g)) =
    max 750000000000 ((15 * u256_val S mod TWO256) div 350000000 mod 2 ^ 64)"
    using def' l m by (simp add: Let_def TAIL_EMISSION_def word_less_nat_alt max_def)
qed

lemma inflation_floor: "TAIL_EMISSION \<le> fst (GetInflationRateRewardAtHeight S height g)"
  by (auto simp: GetInflationRateRewardAtHeight_def Let_def)

lemma reward_floor: "TAIL_EMISSION \<le> fst (CalculateBlockRewardAtHeight S height g)"
  using inflation_floor [of S height g]
  by (auto simp: CalculateBlockRewardAtHeight_def Let_def)

lemma phase_one_reward:
  assumes "height < 3000000" and "u256_val S < 2 ^ 64 - 1"
    and "750000000000 < (2 ^ 64 - 1 - u256_val S) div 2 ^ 20"
  obtains r where "\<And>g. CalculateBlockRewardAtHeight S height g = (r, g)"
    and "(2 ^ 64 - 1 - u256_val S) div 2 ^ 20 \<le> unat r" and "u256_val S + unat r \<le> 2 ^ 64 - 1"
proof -
  obtain l0 l1 l2 l3 where S: "S = U256 l0 l1 l2 l3" by (cases S)
  have v: "u256_val S = unat l0 + 18446744073709551616 * (unat l1 + 18446744073709551616 * (unat l2 + 18446744073709551616 * unat l3))"
    by (simp add: u256_val_def S)
  have z: "unat l1 = 0" "unat l2 = 0" "unat l3 = 0" using assms(2) v by auto
  then have z': "l1 = 0" "l2 = 0" "l3 = 0" by (simp_all add: unat_eq_0)
  have l0: "u256_val S = unat l0" using v z by simp
  define rem where "rem = M_CAP - l0"
  have "l0 \<le> M_CAP" using unat_lt_64 [of l0] by (simp add: word_le_nat_alt M_CAP_def)
  then have rem: "unat rem = 18446744073709551615 - unat l0" by (simp add: rem_def unat_sub M_CAP_def)
  define base where "base = drop_bit 20 rem"
  have base: "unat base = unat rem div 2 ^ 20" unfolding base_def by (rule unat_drop_bit)
  define bl where "bl = 3000000 - height"
  define r2 where "r2 = (if base < (rem + bl - 1) div bl then (rem + bl - 1) div bl else base)"
  define r3 where "r3 = (if r2 > rem then rem else r2)"
  have ge: "unat base \<le> unat r2" by (auto simp: r2_def word_less_nat_alt)
  have "unat base \<le> unat rem" unfolding base by simp
  then have r3: "unat base \<le> unat r3" "unat r3 \<le> unat rem" using ge by (auto simp: r3_def word_less_nat_alt)
  have big: "750000000000 < unat base" using assms(3) base rem l0 by simp
  then have "TAIL_EMISSION < r3" using r3 by (simp add: TAIL_EMISSION_def word_less_nat_alt)
  moreover have "\<not> l0 \<ge> M_CAP" using assms(2) l0 by (simp add: M_CAP_def word_le_nat_alt)
  moreover have "\<not> 3000000 \<le> height" using assms(1) by simp
  ultimately have "CalculateBlockRewardAtHeight S height g = (r3, g)" for g
    using z' by (auto simp: CalculateBlockRewardAtHeight_def S PHASE1_TARGET_BLOCKS_def
        EMISSION_ACCELERATION_FACTOR_def MONERO_EMISSION_SPEED_FACTOR_def Let_def rem_def [symmetric] bl_def [symmetric]
        base_def [symmetric] r2_def r3_def split: if_splits)
  moreover have "(2 ^ 64 - 1 - u256_val S) div 2 ^ 20 \<le> unat r3" "u256_val S + unat r3 \<le> 2 ^ 64 - 1"
    using r3 base rem l0 assms(2) by simp_all
  ultimately show thesis by (rule that)
qed

section \<open>Properties\<close>

text \<open>
  No block is ever paid less than the tail emission of 0.75 coins; once phase one is over (height at
  least 3,000,000) a block at an epoch boundary is paid 1.5 percent of the supply divided over the
  350,000 blocks of the epoch (computed by the limb-wise long division, in 64 bits), or the tail
  emission if that is more, and the boundary stores that reward as the one of the coming epoch.
\<close>

lemma reward_schedule_tail_and_inflation:
  "TAIL_EMISSION \<le> fst (CalculateBlockRewardAtHeight S height g) \<and>
   (3000000 \<le> height \<and> height mod 350000 = 0 \<longrightarrow>
     unat (fst (CalculateBlockRewardAtHeight S height g)) =
       max 750000000000 ((15 * u256_val S mod 2 ^ 256) div 350000000 mod 2 ^ 64) \<and>
     snd (CalculateBlockRewardAtHeight S height g) = fst (CalculateBlockRewardAtHeight S height g))"
proof -
  have "CalculateBlockRewardAtHeight S height g = GetInflationRateRewardAtHeight S height g \<and> height \<noteq> 0"
    if "3000000 \<le> height"
    using that by (auto simp: CalculateBlockRewardAtHeight_def emission_constants)
  then show ?thesis
    using reward_floor [of S height g] epoch_inflation_val [of height S g] by (auto simp: TWO256_def)
qed

text \<open>
  On the phase-one curve (height below 3,000,000, supply below the cap, and the base reward, the
  remaining supply shifted right by 20, above the tail emission) the reward is at least that base
  reward and at most what remains, so supply plus reward never passes 2^64 - 1; the stored epoch reward
  is left alone.
\<close>

lemma reward_phase_one_bounds:
  assumes "height < 3000000" and "u256_val S < 2 ^ 64 - 1"
    and "750000000000 < (2 ^ 64 - 1 - u256_val S) div 2 ^ 20"
  shows "(2 ^ 64 - 1 - u256_val S) div 2 ^ 20 \<le> unat (fst (CalculateBlockRewardAtHeight S height g)) \<and>
    u256_val S + unat (fst (CalculateBlockRewardAtHeight S height g)) \<le> 2 ^ 64 - 1 \<and>
    snd (CalculateBlockRewardAtHeight S height g) = g"
  by (rule phase_one_reward [OF assms]) simp

end
