(* ===== verification/Fetch_Scheduler.thy ===== *)
theory Fetch_Scheduler
  imports Skala_Prelude
begin

text \<open>
  The reorganisation penalty of \<^verbatim>\<open>src/nets/fetch_scheduler.c\<close> in its 64-bit integer arithmetic, with the
  constants of \<^verbatim>\<open>include/constants.h\<close>. The lemmas reduce it to a closed form over the naturals and show
  that none of its saturating branches is ever taken.
\<close>

section \<open>Definitions\<close>

definition REORG_PENALTY_GRACE_BLOCKS :: u64 where "REORG_PENALTY_GRACE_BLOCKS = 3"
definition REORG_PENALTY_FACTOR_NUM :: u64 where "REORG_PENALTY_FACTOR_NUM = 1"
definition REORG_PENALTY_FACTOR_DEN :: u64 where "REORG_PENALTY_FACTOR_DEN = 1"
definition REORG_PENALTY_EXPONENT :: nat where "REORG_PENALTY_EXPONENT = 2"
definition REORG_PENALTY_REF_BLOCK_TIME :: u64 where "REORG_PENALTY_REF_BLOCK_TIME = 150"
definition REORG_PENALTY_MAX_DEPTH :: u64 where "REORG_PENALTY_MAX_DEPTH = 1000"
definition TARGET_BLOCK_TIME :: u64 where "TARGET_BLOCK_TIME = 90"

lemmas reorg_constants = REORG_PENALTY_GRACE_BLOCKS_def REORG_PENALTY_FACTOR_NUM_def
  REORG_PENALTY_FACTOR_DEN_def REORG_PENALTY_EXPONENT_def REORG_PENALTY_REF_BLOCK_TIME_def
  REORG_PENALTY_MAX_DEPTH_def TARGET_BLOCK_TIME_def

text \<open>The power loop; \<open>None\<close> is the early return of the saturated value.\<close>

fun raise_depth :: "nat \<Rightarrow> u64 \<Rightarrow> u64 \<Rightarrow> u64 option" where
  "raise_depth 0 depth raised = Some raised"
| "raise_depth (Suc n) depth raised =
     (if depth \<noteq> 0 \<and> raised > UINT64_MAX div depth then None else raise_depth n depth (raised * depth))"

definition FetchScheduler_ComputeReorgPenaltyBlocks :: "u64 \<Rightarrow> u64" where
  "FetchScheduler_ComputeReorgPenaltyBlocks delayBlocks =
     (if delayBlocks \<le> REORG_PENALTY_GRACE_BLOCKS then 0
      else
        (let depth = (if delayBlocks > REORG_PENALTY_MAX_DEPTH then REORG_PENALTY_MAX_DEPTH else delayBlocks)
         in case raise_depth REORG_PENALTY_EXPONENT depth 1 of
              None \<Rightarrow> UINT64_MAX
            | Some raised \<Rightarrow>
                (let numeratorScale = REORG_PENALTY_FACTOR_NUM * REORG_PENALTY_REF_BLOCK_TIME;
                     denominator = REORG_PENALTY_FACTOR_DEN * TARGET_BLOCK_TIME
                 in if denominator = 0 then 0
                    else if numeratorScale \<noteq> 0 \<and> raised > UINT64_MAX div numeratorScale then UINT64_MAX
                    else (let numerator = raised * numeratorScale;
                              penalty = numerator div denominator
                          in if numerator mod denominator \<noteq> 0 then penalty + 1 else penalty))))"

section \<open>Closed form\<close>

definition reorg_penalty :: "nat \<Rightarrow> nat" where
  "reorg_penalty d = (if d \<le> 3 then 0 else ((min d 1000)\<^sup>2 * 150 + 89) div 90)"

lemma unat_mult_small: "unat x * unat y < 2 ^ 64 \<Longrightarrow> unat (x * y :: u64) = unat x * unat y"
  by (simp add: unat_word_ariths)

lemma raise_depth_square:
  assumes "0 < unat depth" and "unat depth \<le> 1000"
  shows "\<exists>r. raise_depth 2 depth 1 = Some r \<and> unat r = (unat depth)\<^sup>2"
proof -
  have sq: "unat depth * unat depth \<le> 1000 * 1000" using assms(2) by (intro mult_le_mono)
  have "unat (UINT64_MAX div depth) = 18446744073709551615 div unat depth" by (simp add: unat_div)
  moreover have "18446744073709551615 div 1000 \<le> 18446744073709551615 div unat depth"
    using assms by (intro div_le_mono2)
  ultimately have room: "18446744073709551 \<le> unat (UINT64_MAX div depth)" by simp
  then have "\<not> depth > UINT64_MAX div depth" "\<not> 1 > UINT64_MAX div depth"
    using assms(2) by (simp_all add: word_less_nat_alt)
  moreover have "unat (depth * depth) = (unat depth)\<^sup>2"
    using sq by (simp add: unat_mult_small power2_eq_square)
  ultimately show ?thesis by (auto simp: numeral_2_eq_2)
qed

lemma ceil_div: "0 < d \<Longrightarrow> (if n mod d \<noteq> 0 then n div d + 1 else n div d) = (n + (d - 1)) div (d :: nat)"
proof -
  assume d: "0 < d"
  show ?thesis
  proof (cases "n mod d = 0")
    case True
    then obtain q where n: "n = d * q" by (metis mod_0_imp_dvd dvd_def)
    have "(d * q + (d - 1)) div d = (d - 1) div d + q" using d by (metis add.commute div_mult_self2 less_numeral_extra(3))
    then show ?thesis using n d by simp
  next
    case False
    define q r where "q = n div d" and "r = n mod d"
    have "n = q * d + r" "0 < r" using False by (simp_all add: q_def r_def)
    then have "n + (d - 1) = (r - 1) + (q + 1) * d" using d by (cases r; cases d) auto
    then have "n + (d - 1) = (n mod d - 1) + (n div d + 1) * d" by (simp only: q_def r_def)
    then have "(n + (d - 1)) div d = (n div d + 1) + (n mod d - 1) div d"
      using d by (metis div_mult_self1 less_numeral_extra(3))
    moreover have "(n mod d - 1) div d = 0" using d by (simp add: less_imp_diff_less)
    ultimately show ?thesis using False by simp
  qed
qed

lemma ceil90: "(if n mod 90 \<noteq> 0 then n div 90 + 1 else n div 90) = (n + 89) div (90 :: nat)"
  using ceil_div [of 90 n] by simp

lemma penalty_val: "unat (FetchScheduler_ComputeReorgPenaltyBlocks d) = reorg_penalty (unat d)"
proof (cases "unat d \<le> 3")
  case True
  then have "d \<le> 3" by (simp add: word_le_nat_alt)
  then show ?thesis using True by (simp add: FetchScheduler_ComputeReorgPenaltyBlocks_def reorg_penalty_def reorg_constants)
next
  case False
  define depth where "depth = (if d > 1000 then 1000 else d)"
  have depth: "unat depth = min (unat d) 1000" by (auto simp: depth_def word_less_nat_alt)
  then obtain r where r: "raise_depth 2 depth 1 = Some r" "unat r = (unat depth)\<^sup>2"
    using raise_depth_square [of depth] False by auto
  have bound: "unat r \<le> 1000 * 1000" unfolding r(2) power2_eq_square using depth by (intro mult_le_mono) auto
  have m: "unat (r * 150) = unat r * 150" using bound unat_mult_small [of r 150] by simp
  have pen: "FetchScheduler_ComputeReorgPenaltyBlocks d = (if r * 150 mod 90 \<noteq> 0 then r * 150 div 90 + 1 else r * 150 div 90)"
  proof -
    have "\<not> d \<le> 3" "\<not> r > UINT64_MAX div 150"
      using False bound by (simp_all add: word_le_nat_alt word_less_nat_alt unat_div)
    then show ?thesis
      unfolding FetchScheduler_ComputeReorgPenaltyBlocks_def reorg_constants Let_def depth_def [symmetric] r(1)
      by simp
  qed
  have q: "unat (r * 150 div 90) = unat r * 150 div 90" "unat (r * 150 mod 90) = unat r * 150 mod 90"
    by (simp_all add: unat_div unat_mod m)
  have "unat (r * 150 div 90 + 1) = unat r * 150 div 90 + 1"
    using bound q(1) by (simp add: unat_word_ariths)
  moreover have "r * 150 mod 90 \<noteq> 0 \<longleftrightarrow> unat r * 150 mod 90 \<noteq> 0" using q(2) by (metis unat_eq_0)
  ultimately have "unat (FetchScheduler_ComputeReorgPenaltyBlocks d) = (unat r * 150 + 89) div 90"
    unfolding pen if_distrib [of unat] q(1) by (simp only: ceil90)
  then show ?thesis using False by (simp add: reorg_penalty_def r(2) depth)
qed

lemma reorg_penalty_mono: "a \<le> b \<Longrightarrow> reorg_penalty a \<le> reorg_penalty b"
  by (auto simp: reorg_penalty_def intro!: div_le_mono power_mono)

lemma reorg_penalty_exceeds_depth: "3 < d \<Longrightarrow> d \<le> 1000 \<Longrightarrow> d < reorg_penalty d"
proof -
  assume d: "3 < d" "d \<le> 1000"
  define x where "x = d * d"
  have "4 * d \<le> x" using d(1) unfolding x_def by (intro mult_le_mono1) simp
  then have "Suc d * 90 \<le> x * 150 + 89" using d(1) by simp
  then have "Suc d * 90 \<le> d\<^sup>2 * 150 + 89" by (simp add: x_def power2_eq_square)
  then show ?thesis using d by (simp add: reorg_penalty_def min_absorb1 less_eq_div_iff_mult_less_eq flip: Suc_le_eq)
qed

section \<open>Properties\<close>

text \<open>
  The integer penalty is exactly zero up to the grace depth of three blocks and the depth squared,
  capped at one thousand, times 150/90 rounded up above it; no 64-bit operation saturates or wraps, the
  penalty never decreases with depth, and above the grace depth it exceeds the depth itself (so a
  branch cannot serve its penalty before outgrowing the fork), up to the cap.
\<close>

lemma reorg_penalty_closed_form:
  "unat (FetchScheduler_ComputeReorgPenaltyBlocks d) =
     (if unat d \<le> 3 then 0 else ((min (unat d) 1000)\<^sup>2 * 150 + 89) div 90) \<and>
   (d \<le> e \<longrightarrow> FetchScheduler_ComputeReorgPenaltyBlocks d \<le> FetchScheduler_ComputeReorgPenaltyBlocks e) \<and>
   (3 < d \<and> d \<le> 1000 \<longrightarrow> d < FetchScheduler_ComputeReorgPenaltyBlocks d)"
  using penalty_val [of d] reorg_penalty_mono [of "unat d" "unat e"] reorg_penalty_exceeds_depth [of "unat d"]
  by (simp add: word_le_nat_alt word_less_nat_alt penalty_val) (simp add: reorg_penalty_def)

end
