(* ===== verification/Chain_Consensus.thy ===== *)
theory Chain_Consensus
  imports Block Emission Fetch_Scheduler
begin

text \<open>
  The chain as a data structure and the pure consensus functions of \<^verbatim>\<open>src/block/chain.c\<close> that are read
  off it: proof-of-work weights, the difficulty retarget, the DAG size recurrence with its cache and the
  epoch seed. Heights and vote counters are naturals: they are bounded by the number of blocks in
  memory, and DAG sizes by 8 GiB, so the 64-bit operations of the source do not wrap on them.
\<close>

section \<open>The chain\<close>

text \<open>
  \<open>dagEpochs\<close> is the valid prefix of the memoised table, so \<^verbatim>\<open>dagEpochsComputed\<close> is its length; the
  capacity of the allocation is not modelled.
\<close>

record dag_epoch_state_t =
  sizeBytes :: nat
  downQualified :: bool

record blockchain_t =
  blocks :: "block_t list"
  chain_size :: nat
  dagEpochs :: "dag_epoch_state_t list"

definition Chain_Create :: blockchain_t where
  "Chain_Create = \<lparr> blocks = [], chain_size = 0, dagEpochs = [] \<rparr>"

definition Chain_InvalidateDagEpochs :: "blockchain_t \<Rightarrow> blockchain_t" where
  "Chain_InvalidateDagEpochs chain = chain\<lparr> dagEpochs := [] \<rparr>"

definition Chain_ClearBlocks :: "blockchain_t \<Rightarrow> blockchain_t" where
  "Chain_ClearBlocks chain = Chain_InvalidateDagEpochs (chain\<lparr> blocks := [], chain_size := 0 \<rparr>)"

definition Chain_Size :: "blockchain_t \<Rightarrow> nat" where
  "Chain_Size chain = length (blocks chain)"

definition Chain_GetBlock :: "blockchain_t \<Rightarrow> nat \<Rightarrow> block_t option" where
  "Chain_GetBlock chain index = vec_get (blocks chain) index"

definition Chain_GetBlockCopy :: "blockchain_t \<Rightarrow> nat \<Rightarrow> block_t option" where
  "Chain_GetBlockCopy chain index = map_option Block_Copy (vec_get (blocks chain) index)"

fun links_ok :: "crypto_env \<Rightarrow> nat \<Rightarrow> block_t list \<Rightarrow> bool" where
  "links_ok E i (prevBlk # blk # rest) =
     (if blockNumber (header blk) \<noteq> of_nat i then False
      else if prevHash (header blk) \<noteq> Block_CalculateHash E prevBlk then False
      else links_ok E (Suc i) (blk # rest))"
| "links_ok E i _ = True"

definition Chain_IsValid :: "crypto_env \<Rightarrow> blockchain_t \<Rightarrow> bool" where
  "Chain_IsValid E chain =
     (case blocks chain of
        [] \<Rightarrow> True
      | genesis # _ \<Rightarrow> links_ok E 1 (blocks chain) \<and> blockNumber (header genesis) = 0)"

section \<open>Work\<close>

definition Chain_ComputeBlockWork :: "u32 \<Rightarrow> uint256_t option" where
  "Chain_ComputeBlockWork difficultyTargetBits =
     (case DecodeCompactTarget difficultyTargetBits of
        None \<Rightarrow> None
      | Some targetBytes \<Rightarrow>
          (let target = uint256_from_be_bytes targetBytes;
               (denominator, overflow) = uint256_add_u64 target 1
           in if overflow \<or> uint256_is_zero denominator then None
              else case uint256_divide (uint256_bitwise_not target) denominator of
                None \<Rightarrow> None
              | Some work \<Rightarrow>
                  (let (work', overflow') = uint256_add_u64 work 1 in
                   if overflow' then None else Some work')))"

fun sum_work :: "uint256_t \<Rightarrow> block_t list \<Rightarrow> uint256_t option" where
  "sum_work workSum [] = Some workSum"
| "sum_work workSum (blk # rest) =
     (case Chain_ComputeBlockWork (difficultyTarget (header blk)) of
        None \<Rightarrow> None
      | Some work \<Rightarrow>
          (let (workSum', overflow) = uint256_add workSum work in
           if overflow then None else sum_work workSum' rest))"

definition Chain_ComputeWorkRange :: "blockchain_t \<Rightarrow> nat \<Rightarrow> nat \<Rightarrow> uint256_t option" where
  "Chain_ComputeWorkRange chain from to =
     (if from > to then None
      else if to > length (blocks chain) then None
      else sum_work (uint256_from_u64 0) (take (to - from) (drop from (blocks chain))))"

definition Chain_ComputeBranchWork :: "block_t list \<Rightarrow> uint256_t option" where
  "Chain_ComputeBranchWork bs = sum_work (uint256_from_u64 0) bs"

section \<open>Difficulty\<close>

definition INITIAL_DIFFICULTY :: u32 where "INITIAL_DIFFICULTY = 0x1f0c1422"
definition DIFFICULTY_ADJUSTMENT_INTERVAL :: nat where "DIFFICULTY_ADJUSTMENT_INTERVAL = 3840"

function normalize_up :: "u64 \<Rightarrow> u32 \<Rightarrow> u64 \<times> u32" where
  "normalize_up newMantissa exponent =
     (if newMantissa > 0x007fffff then normalize_up (newMantissa div 256) (exponent + 1)
      else (newMantissa, exponent))"
  by pat_completeness auto
termination
  by (relation "measure (\<lambda>(m, e). unat m)") (auto simp: unat_div word_less_nat_alt)

function normalize_down :: "u64 \<Rightarrow> u32 \<Rightarrow> u64 \<times> u32" where
  "normalize_down newMantissa exponent =
     (if newMantissa > 0 \<and> newMantissa < 32768 \<and> exponent > 3
      then normalize_down (newMantissa * 256) (exponent - 1)
      else (newMantissa, exponent))"
  by pat_completeness auto
termination
  by (relation "measure (\<lambda>(m, e). unat e)") (auto simp: unat_sub word_less_nat_alt word_le_nat_alt)

declare normalize_up.simps [simp del] normalize_down.simps [simp del]

definition targetTime :: u64 where
  "targetTime = TARGET_BLOCK_TIME * 1000 * (of_nat DIFFICULTY_ADJUSTMENT_INTERVAL - 1)"

text \<open>The retarget arithmetic, from the measured span and the current compact target.\<close>

definition retarget :: "u64 \<Rightarrow> u32 \<Rightarrow> u32" where
  "retarget actualTime currentTarget =
     (let clampedTime =
        (if actualTime > targetTime * 2 then targetTime * 2
         else if actualTime < targetTime div 2 then targetTime div 2 else actualTime);
          exponent = drop_bit 24 currentTarget;
          mantissa = currentTarget AND 0x007fffff
      in if mantissa = 0 \<or> exponent = 0 then INITIAL_DIFFICULTY
         else
           (let newMantissa = (ucast mantissa * clampedTime) div targetTime;
                (m1, e1) = normalize_up newMantissa exponent;
                (m2, e2) = normalize_down m1 e1
            in if e2 > 32 then push_bit 24 32 OR 0x007fffff
               else
                 (let e3 = (if e2 < 1 then 1 else e2);
                      c = (ucast m2 :: u32);
                      c1 = (if c = 0 then 1 else c);
                      c2 = (if c1 > 0x007fffff then 0x007fffff else c1)
                  in push_bit 24 e3 OR (c2 AND 0x007fffff))))"

definition Chain_ComputeTargetAtHeight :: "blockchain_t \<Rightarrow> nat \<Rightarrow> u32 \<Rightarrow> u32" where
  "Chain_ComputeTargetAtHeight chain height currentTarget =
     (if height < DIFFICULTY_ADJUSTMENT_INTERVAL then INITIAL_DIFFICULTY
      else if height > length (blocks chain) then 0
      else case (vec_get (blocks chain) (height - 1),
                 vec_get (blocks chain) (height - DIFFICULTY_ADJUSTMENT_INTERVAL)) of
        (Some lastBlock, Some adjustmentBlock) \<Rightarrow>
          (let actualTime =
             (if timestamp (header lastBlock) > timestamp (header adjustmentBlock)
              then timestamp (header lastBlock) - timestamp (header adjustmentBlock) else 0)
           in if actualTime = 0 then currentTarget else retarget actualTime currentTarget)
      | _ \<Rightarrow> 0)"

text \<open>The loop over adjustment boundaries; \<open>fuel\<close> counts the boundaries still at or below the height.\<close>

primrec target_loop :: "nat \<Rightarrow> blockchain_t \<Rightarrow> nat \<Rightarrow> u32 \<Rightarrow> u32" where
  "target_loop 0 chain h target = target"
| "target_loop (Suc fuel) chain h target =
     target_loop fuel chain (h + DIFFICULTY_ADJUSTMENT_INTERVAL) (Chain_ComputeTargetAtHeight chain h target)"

definition Chain_GetTargetForHeight :: "blockchain_t \<Rightarrow> nat \<Rightarrow> u32" where
  "Chain_GetTargetForHeight chain height =
     target_loop (height div DIFFICULTY_ADJUSTMENT_INTERVAL) chain DIFFICULTY_ADJUSTMENT_INTERVAL INITIAL_DIFFICULTY"

section \<open>The DAG size recurrence\<close>

definition DAG_MIN_SIZE :: nat where "DAG_MIN_SIZE = 2 * 2 ^ 30"
definition DAG_BASE_SIZE :: nat where "DAG_BASE_SIZE = 2 * 2 ^ 30"
definition DAG_MAX_SIZE :: nat where "DAG_MAX_SIZE = 8 * 2 ^ 30"
definition DAG_EPOCH_STEP :: nat where "DAG_EPOCH_STEP = 2 ^ 30"
definition DAG_BRAKE_NUM :: nat where "DAG_BRAKE_NUM = 1"
definition DAG_BRAKE_DEN :: nat where "DAG_BRAKE_DEN = 2"
definition DAG_DOWN_NUM :: nat where "DAG_DOWN_NUM = 7"
definition DAG_DOWN_DEN :: nat where "DAG_DOWN_DEN = 8"
definition DAG_VOTE_HOLD :: byte where "DAG_VOTE_HOLD = 1"
definition DAG_VOTE_DOWN :: byte where "DAG_VOTE_DOWN = 2"

lemmas dag_constants = DAG_MIN_SIZE_def DAG_BASE_SIZE_def DAG_MAX_SIZE_def DAG_EPOCH_STEP_def

definition count_votes :: "byte \<Rightarrow> block_t list \<Rightarrow> nat" where
  "count_votes vote bs = length (filter (\<lambda>blk. reserved (header blk) ! 0 = vote) bs)"

definition dag_next_size :: "nat \<Rightarrow> bool \<Rightarrow> bool \<Rightarrow> bool \<Rightarrow> nat" where
  "dag_next_size prevSize down priorDown brake =
     (if down \<and> priorDown
      then (if prevSize > DAG_MIN_SIZE + DAG_EPOCH_STEP then prevSize - DAG_EPOCH_STEP else DAG_MIN_SIZE)
      else if brake then prevSize
      else (if prevSize + DAG_EPOCH_STEP < DAG_MAX_SIZE then prevSize + DAG_EPOCH_STEP else DAG_MAX_SIZE))"

text \<open>
  One iteration of the fold for entry \<open>k = length cache\<close>: \<open>None\<close> when the deciding epoch is not complete.
\<close>

definition extend_step :: "block_t list \<Rightarrow> dag_epoch_state_t list \<Rightarrow> dag_epoch_state_t list option" where
  "extend_step bs cache =
     (let k = length cache; prev = k - 1; from = prev * EPOCH_LENGTH; to = from + EPOCH_LENGTH
      in if to > length bs then None
         else
           (let epoch = take EPOCH_LENGTH (drop from bs);
                holdVotes = count_votes DAG_VOTE_HOLD epoch;
                downVotes = count_votes DAG_VOTE_DOWN epoch;
                brake = ((holdVotes + downVotes) * DAG_BRAKE_DEN > EPOCH_LENGTH * DAG_BRAKE_NUM);
                down = (downVotes * DAG_DOWN_DEN > EPOCH_LENGTH * DAG_DOWN_NUM);
                cache' = cache[prev := (cache ! prev)\<lparr> downQualified := down \<rparr>];
                priorDown = (if prev \<ge> 1 then downQualified (cache' ! (prev - 1)) else False);
                next_size = dag_next_size (sizeBytes (cache' ! prev)) down priorDown brake
            in Some (cache' @ [\<lparr> sizeBytes = next_size, downQualified = False \<rparr>])))"

primrec extend_loop :: "nat \<Rightarrow> block_t list \<Rightarrow> dag_epoch_state_t list \<Rightarrow> dag_epoch_state_t list \<times> bool" where
  "extend_loop 0 bs cache = (cache, True)"
| "extend_loop (Suc n) bs cache =
     (case extend_step bs cache of None \<Rightarrow> (cache, False) | Some cache' \<Rightarrow> extend_loop n bs cache')"

definition Chain_ExtendDagEpochsLocked :: "blockchain_t \<Rightarrow> nat \<Rightarrow> blockchain_t \<times> bool" where
  "Chain_ExtendDagEpochsLocked chain epochIndex =
     (let cache0 = (if dagEpochs chain = [] then [\<lparr> sizeBytes = DAG_BASE_SIZE, downQualified = False \<rparr>]
                    else dagEpochs chain);
          (cache, ok) = extend_loop (Suc epochIndex - length cache0) (blocks chain) cache0
      in (chain\<lparr> dagEpochs := cache \<rparr>, ok))"

definition Chain_EpochDagSeedForHeightLocked :: "crypto_env \<Rightarrow> blockchain_t \<Rightarrow> nat \<Rightarrow> byte list option" where
  "Chain_EpochDagSeedForHeightLocked E chain blockHeight =
     (let epochIndex = blockHeight div EPOCH_LENGTH in
      if epochIndex = 0 then Some (replicate 32 0)
      else let seedBlockNumber = epochIndex * EPOCH_LENGTH - 1 in
           if seedBlockNumber \<ge> length (blocks chain) then None
           else map_option (Block_CalculateHash E) (vec_get (blocks chain) seedBlockNumber))"

definition Chain_DagParamsForHeightLocked ::
  "crypto_env \<Rightarrow> blockchain_t \<Rightarrow> nat \<Rightarrow> blockchain_t \<times> (nat \<times> byte list) option" where
  "Chain_DagParamsForHeightLocked E chain blockHeight =
     (let epochIndex = blockHeight div EPOCH_LENGTH;
          (chain', ok) = Chain_ExtendDagEpochsLocked chain epochIndex
      in if \<not> ok then (chain', None)
         else let bytes = sizeBytes (dagEpochs chain' ! epochIndex) in
              case Chain_EpochDagSeedForHeightLocked E chain' blockHeight of
                None \<Rightarrow> (chain', None)
              | Some seed \<Rightarrow>
                  if bytes < 32 \<or> bytes mod 32 \<noteq> 0 then (chain', None) else (chain', Some (bytes, seed)))"

definition Block_HasValidProofOfWork :: "crypto_env \<Rightarrow> pow_ctx \<Rightarrow> block_t \<Rightarrow> blockchain_t \<Rightarrow> blockchain_t \<times> bool" where
  "Block_HasValidProofOfWork E st block chain =
     (case Chain_DagParamsForHeightLocked E chain (unat (blockNumber (header block))) of
        (chain', None) \<Rightarrow> (chain', False)
      | (chain', Some (dagBytes, seed)) \<Rightarrow>
          (chain', Block_HasValidProofOfWorkWithParams E st block
             (blockNumber (header block) div of_nat EPOCH_LENGTH) dagBytes seed))"

definition Block_IsFullyValid :: "crypto_env \<Rightarrow> pow_ctx \<Rightarrow> block_t \<Rightarrow> blockchain_t \<Rightarrow> blockchain_t \<times> bool" where
  "Block_IsFullyValid E st block chain =
     (if Block_HasValidStructure E block then Block_HasValidProofOfWork E st block chain else (chain, False))"

section \<open>Work lemmas\<close>

definition block_work :: "block_t \<Rightarrow> nat" where
  "block_work blk = 2 ^ 256 div (compact_value (difficultyTarget (header blk)) + 1)"

definition branch_work :: "block_t list \<Rightarrow> nat" where
  "branch_work bs = (\<Sum>blk\<leftarrow>bs. block_work blk)"

lemma compact_value_bound:
  assumes "DecodeCompactTarget nBits = Some t"
  shows "compact_value nBits + 1 < TWO256"
proof (cases "compact_exponent nBits \<le> 3")
  case True
  have "compact_value nBits \<le> compact_mantissa nBits" using True by (simp add: compact_value_def)
  then show ?thesis using compact_mantissa_bound [of nBits] by (simp add: TWO256_def)
next
  case False
  have "compact_exponent nBits \<le> 32" using assms by (auto simp: DecodeCompactTarget_Some split: if_splits)
  then have "(256 :: nat) ^ (compact_exponent nBits - 3) \<le> 256 ^ 29" by (intro power_increasing) auto
  then have "compact_value nBits \<le> 2 ^ 23 * 256 ^ 29"
    using False compact_mantissa_bound [of nBits] unfolding compact_value_def by (simp only: if_False) (intro mult_le_mono, simp_all)
  then show ?thesis by (simp add: TWO256_def)
qed

lemma exact_work: "t + 1 \<le> W \<Longrightarrow> (W - 1 - t) div (t + 1) + 1 = W div (t + 1)" for t W :: nat
proof -
  assume "t + 1 \<le> W"
  then have "W = (W - 1 - t) + (t + 1)" by simp
  then have "W div (t + 1) = ((W - 1 - t) + (t + 1)) div (t + 1)" by simp
  also have "\<dots> = (W - 1 - t) div (t + 1) + 1" by (rule div_add_self2) simp
  finally show ?thesis by simp
qed

lemma ComputeBlockWork_val:
  "map_option u256_val (Chain_ComputeBlockWork nBits) =
     (if DecodeCompactTarget nBits = None \<or> compact_value nBits = 0 then None
      else Some (TWO256 div (compact_value nBits + 1)))"
proof (cases "DecodeCompactTarget nBits")
  case None
  then show ?thesis by (simp add: Chain_ComputeBlockWork_def)
next
  case (Some bytes)
  define t where "t = uint256_from_be_bytes bytes"
  have t: "u256_val t = compact_value nBits"
    using uint256_from_be_bytes_val [of bytes] DecodeCompactTarget_length [OF Some] DecodeCompactTarget_val [OF Some]
    by (simp add: t_def)
  have tb: "u256_val t + 1 < TWO256" using compact_value_bound [OF Some] t by simp
  obtain d ov where d: "uint256_add_u64 t 1 = (d, ov)" by fastforce
  have dv: "u256_val d = u256_val t + 1" "\<not> ov"
    using uint256_add_u64_no_overflow [of t 1] tb d by simp_all
  have nz: "\<not> uint256_is_zero d" using dv by (simp add: uint256_is_zero_val)
  obtain q where q: "uint256_divide (uint256_bitwise_not t) d = Some q"
    using nz by (auto simp: uint256_divide_def)
  have qv: "u256_val q = (TWO256 - 1 - u256_val t) div (u256_val t + 1)"
    using uint256_divide_val [OF q] dv by (simp add: uint256_bitwise_not_val)
  have work: "u256_val q + 1 = TWO256 div (u256_val t + 1)"
    unfolding qv using tb by (intro exact_work) simp
  obtain w ov' where w: "uint256_add_u64 q 1 = (w, ov')" by fastforce
  have res: "Chain_ComputeBlockWork nBits = (if ov' then None else Some w)"
    by (simp add: Chain_ComputeBlockWork_def Some t_def [symmetric] d dv(2) nz q w Let_def)
  have ov': "ov' \<longleftrightarrow> TWO256 \<le> TWO256 div (u256_val t + 1)"
    using uint256_add_u64_overflow_iff [of q 1] w work by simp
  show ?thesis
  proof (cases "u256_val t = 0")
    case True
    then show ?thesis using res ov' t Some by simp
  next
    case False
    have "TWO256 div (u256_val t + 1) < TWO256" using False by (intro div_less_dividend) (auto simp: TWO256_def)
    then have "\<not> ov'" using ov' by simp
    then have "u256_val w = u256_val q + 1" using uint256_add_u64_val [of q 1] w by simp
    then show ?thesis using res \<open>\<not> ov'\<close> work t False Some by simp
  qed
qed

lemma sum_work_val: "sum_work acc bs = Some w \<Longrightarrow> u256_val w = u256_val acc + branch_work bs"
proof (induction bs arbitrary: acc)
  case (Cons blk bs)
  then obtain v where v: "Chain_ComputeBlockWork (difficultyTarget (header blk)) = Some v"
    by (auto split: option.splits)
  then have vv: "u256_val v = block_work blk"
    using ComputeBlockWork_val [of "difficultyTarget (header blk)"]
    by (auto simp: block_work_def TWO256_def split: if_splits)
  obtain a ov where a: "uint256_add acc v = (a, ov)" by fastforce
  then have "\<not> ov" "sum_work a bs = Some w" using Cons.prems v by (auto split: if_splits)
  moreover have "u256_val a = u256_val acc + u256_val v"
    using uint256_add_val [of acc v] a \<open>\<not> ov\<close> by simp
  ultimately show ?case using Cons.IH vv by (simp add: branch_work_def)
qed (simp add: branch_work_def)

section \<open>Compact encoding\<close>

lemma mask23: "(w :: u32) AND 0x007fffff = take_bit 23 w"
  using and_mask_take_bit [of w 23] by simp

lemma take_bit_small: "unat c < 2 ^ n \<Longrightarrow> take_bit n c = (c :: u32)"
  unfolding word_unat_eq_iff unat_take_bit by (rule mod_less)

lemma compact_pack:
  assumes "unat e < 256" and "unat c < 2 ^ 23"
  defines "w \<equiv> push_bit 24 e OR (c AND 0x007fffff) :: u32"
  shows "compact_exponent w = unat e" and "compact_mantissa w = unat c" and "w AND 0x00800000 = 0"
proof -
  have c: "c AND 0x007fffff = c" using assms(2) by (simp only: mask23) (rule take_bit_small)
  have w: "w = push_bit 24 e OR c" by (simp only: w_def c)
  have tc: "take_bit 23 c = c" using assms(2) by (rule take_bit_small)
  have cb: "\<not> bit c n" if "23 \<le> n" for n
    using tc that by (metis bit_take_bit_iff not_less)
  have "take_bit 8 e = e" using assms(1) by (intro take_bit_small) simp
  then have eb: "\<not> bit e n" if "8 \<le> n" for n using that by (metis bit_take_bit_iff not_less)
  show "compact_exponent w = unat e"
  proof -
    have "drop_bit 24 w = e"
      by (rule bit_word_eqI) (auto simp: w bit_simps cb, metis eb not_less)
    then show ?thesis by (simp add: compact_exponent_def)
  qed
  show "compact_mantissa w = unat c"
  proof -
    have "take_bit 23 w = c"
      by (rule bit_word_eqI) (auto simp: w bit_simps cb)
    then show ?thesis by (simp only: compact_mantissa_def mask23)
  qed
  have "\<not> bit w 23" by (simp add: w bit_simps cb)
  then show "w AND 0x00800000 = 0"
    using bit_iff_and_push_bit_not_eq_0 [of w 23] by (simp add: push_bit_eq_mult)
qed

section \<open>The retarget\<close>

lemma normalize_up_stop: "unat m < 2 ^ 23 \<Longrightarrow> normalize_up m e = (m, e)"
  by (subst normalize_up.simps) (simp add: word_less_nat_alt)

lemma normalize_up_once: "2 ^ 23 \<le> unat m \<Longrightarrow> unat m < 2 ^ 31 \<Longrightarrow> normalize_up m e = (m div 256, e + 1)"
proof -
  assume m: "2 ^ 23 \<le> unat m" "unat m < 2 ^ 31"
  have "unat (m div 256) = unat m div 256" by (simp add: unat_div)
  moreover have "unat m div 256 < 2 ^ 23" using m(2) by (simp add: less_mult_imp_div_less)
  ultimately have "normalize_up (m div 256) (e + 1) = (m div 256, e + 1)"
    using normalize_up_stop by simp
  then show ?thesis using m(1) by (subst normalize_up.simps) (simp add: word_less_nat_alt)
qed

lemma normalize_down_step:
  assumes "0 < unat m" "unat m < 32768" "3 < unat e"
  shows "normalize_down m e = normalize_down (m * 256) (e - 1)" "unat (m * 256) = unat m * 256"
    "unat (e - 1) = unat e - 1"
proof -
  show "normalize_down m e = normalize_down (m * 256) (e - 1)"
    using assms by (subst normalize_down.simps) (simp add: word_less_nat_alt)
  show "unat (m * 256) = unat m * 256" using assms(2) unat_mult_small [of m 256] by simp
  show "unat (e - 1) = unat e - 1" using assms(3) by (simp add: unat_sub word_le_nat_alt)
qed

lemma normalize_down_value:
  assumes "unat m < 2 ^ 23" "3 \<le> unat e" "normalize_down m e = (m', e')"
  shows "unat m' * 256 ^ (unat e' - 3) = unat m * 256 ^ (unat e - 3) \<and> unat m' < 2 ^ 23 \<and>
    3 \<le> unat e' \<and> unat e' \<le> unat e \<and> (m' = 0 \<longleftrightarrow> m = 0) \<and> (32768 \<le> unat m \<or> m = 0 \<longrightarrow> e' = e \<and> m' = m)"
  using assms
proof (induction "unat e" arbitrary: m e rule: less_induct)
  case less
  show ?case
  proof (cases "0 < unat m \<and> unat m < 32768 \<and> 3 < unat e")
    case True
    note st = normalize_down_step [of m e] True
    have run: "normalize_down (m * 256) (e - 1) = (m', e')" using less.prems(3) st by simp
    have small: "unat (m * 256) < 2 ^ 23" using st by simp
    have e1: "3 \<le> unat (e - 1)" "unat (e - 1) < unat e" using st by auto
    have pw: "unat e - 3 = Suc (unat (e - 1) - 3)" using st by auto
    have "unat (m * 256) * 256 ^ (unat (e - 1) - 3) = unat m * 256 ^ (unat e - 3)"
      unfolding pw using st by simp
    moreover have "(m * 256 = 0) = (m = 0)"
      using st unat_eq_0 [of "m * 256"] by (auto simp: unat_eq_0)
    ultimately show ?thesis
      using less.hyps [OF e1(2) small e1(1) run] e1 True by (auto simp: unat_eq_0 [symmetric])
  next
    case False
    then have "(m', e') = (m, e)"
      using less.prems by (subst (asm) normalize_down.simps) (auto simp: word_less_nat_alt unat_gt_0 split: if_splits)
    then show ?thesis using less.prems by simp
  qed
qed

lemma targetTime_val: "unat targetTime = 345510000"
  by (simp add: targetTime_def TARGET_BLOCK_TIME_def DIFFICULTY_ADJUSTMENT_INTERVAL_def)

text \<open>A usable compact target: what the retarget keeps, starting from the initial difficulty.\<close>

definition target_ok :: "u32 \<Rightarrow> bool" where
  "target_ok t \<longleftrightarrow> t AND 0x00800000 = 0 \<and> 0 < compact_mantissa t \<and> 3 \<le> compact_exponent t \<and> compact_exponent t \<le> 32"

lemma target_ok_value: "target_ok t \<Longrightarrow> compact_value t = compact_mantissa t * 256 ^ (compact_exponent t - 3)"
  by (auto simp: target_ok_def compact_value_def)

lemma target_ok_decodes: "target_ok t \<Longrightarrow> DecodeCompactTarget t \<noteq> None \<and> 0 < compact_value t"
  by (auto simp: target_ok_def DecodeCompactTarget_Some compact_value_def)

lemma pack_target_ok:
  assumes "0 < unat c" "unat c < 2 ^ 23" "3 \<le> unat e" "unat e \<le> 32"
  shows "target_ok (push_bit 24 e OR (c AND 0x007fffff))"
    and "compact_value (push_bit 24 e OR (c AND 0x007fffff)) = unat c * 256 ^ (unat e - 3)"
proof -
  have e: "unat e < 256" using assms(4) by simp
  note cp = compact_pack [OF e assms(2)]
  show ok: "target_ok (push_bit 24 e OR (c AND 0x007fffff))"
    unfolding target_ok_def cp using assms by simp
  show "compact_value (push_bit 24 e OR (c AND 0x007fffff)) = unat c * 256 ^ (unat e - 3)"
    unfolding target_ok_value [OF ok] cp ..
qed

lemma initial_target_ok: "target_ok INITIAL_DIFFICULTY"
  by (simp add: target_ok_def INITIAL_DIFFICULTY_def compact_mantissa_def compact_exponent_def)

definition clamp_time :: "u64 \<Rightarrow> u64" where
  "clamp_time actualTime =
     (if actualTime > targetTime * 2 then targetTime * 2
      else if actualTime < targetTime div 2 then targetTime div 2 else actualTime)"

lemma clamp_time_bounds:
  "172755000 \<le> unat (clamp_time a)" "unat (clamp_time a) \<le> 691020000"
proof -
  have "unat (targetTime * 2) = 691020000" using unat_mult_small [of targetTime 2] by (simp add: targetTime_val)
  moreover have "unat (targetTime div 2) = 172755000" by (simp add: unat_div targetTime_val)
  ultimately show "172755000 \<le> unat (clamp_time a)" "unat (clamp_time a) \<le> 691020000"
    by (auto simp: clamp_time_def word_less_nat_alt)
qed

definition finish_target :: "u64 \<times> u32 \<Rightarrow> u32" where
  "finish_target me =
     (if snd me > 32 then push_bit 24 32 OR 0x007fffff
      else let e3 = (if snd me < 1 then 1 else snd me);
               c = (ucast (fst me) :: u32);
               c1 = (if c = 0 then 1 else c);
               c2 = (if c1 > 0x007fffff then 0x007fffff else c1)
           in push_bit 24 e3 OR (c2 AND 0x007fffff))"

lemma retarget_pipeline:
  assumes "target_ok t"
  shows "retarget a t =
    finish_target (case normalize_up ((ucast (t AND 0x007fffff) * clamp_time a) div targetTime) (drop_bit 24 t) of
                     (m, e) \<Rightarrow> normalize_down m e)"
proof -
  define m e where "m = t AND 0x007fffff" and "e = drop_bit 24 t"
  have "m \<noteq> 0" "e \<noteq> 0"
    using assms by (auto simp: target_ok_def compact_mantissa_def compact_exponent_def m_def e_def)
  then show ?thesis
    unfolding retarget_def clamp_time_def [symmetric] m_def [symmetric] e_def [symmetric]
    by (simp add: finish_target_def Let_def case_prod_unfold)
qed

lemma finish_target_pack:
  assumes "0 < unat m" "unat m < 2 ^ 23" "3 \<le> unat e" "unat e \<le> 32"
  shows "target_ok (finish_target (m, e)) \<and> compact_value (finish_target (m, e)) = unat m * 256 ^ (unat e - 3)"
proof -
  define c where "c = (ucast m :: u32)"
  have c: "unat c = unat m" unfolding c_def using assms(2) by (simp add: unat_ucast_take)
  then have "c \<noteq> 0" "\<not> c > 0x007fffff" using assms by (auto simp: word_less_nat_alt)
  moreover have "\<not> e > 32" "\<not> e < 1" using assms by (auto simp: word_less_nat_alt)
  ultimately have "finish_target (m, e) = push_bit 24 e OR (c AND 0x007fffff)"
    unfolding finish_target_def fst_conv snd_conv c_def [symmetric] Let_def by (simp only: if_False)
  then show ?thesis using pack_target_ok [of c e] c assms by simp
qed

lemma finish_target_zero:
  assumes "3 \<le> unat e" "unat e \<le> 32"
  shows "target_ok (finish_target (0, e)) \<and> compact_value (finish_target (0, e)) = 256 ^ (unat e - 3)"
proof -
  have "\<not> e > 32" "\<not> e < 1" using assms by (auto simp: word_less_nat_alt)
  then have "finish_target (0, e) = push_bit 24 e OR (1 AND 0x007fffff)"
    unfolding finish_target_def fst_conv snd_conv Let_def by (simp only: if_False) simp
  then show ?thesis using pack_target_ok [of 1 e] assms by simp
qed

lemma finish_target_max:
  assumes "32 < unat e"
  shows "target_ok (finish_target (m, e)) \<and> compact_value (finish_target (m, e)) = 8388607 * 256 ^ 29"
proof -
  have "e > 32" using assms by (simp add: word_less_nat_alt)
  then have "finish_target (m, e) = push_bit 24 32 OR (0x007fffff AND 0x007fffff)"
    unfolding finish_target_def by (simp only: snd_conv if_True and.idem)
  then show ?thesis using pack_target_ok [of "0x007fffff" 32] by simp
qed

lemma scaled_mantissa:
  fixes a :: u64 and t :: u32
  assumes "target_ok t"
  defines "nm \<equiv> (ucast (t AND 0x007fffff) * clamp_time a) div targetTime"
  shows "compact_mantissa t div 2 \<le> unat nm" and "unat nm \<le> 2 * compact_mantissa t"
proof -
  define M where "M = compact_mantissa t"
  define m where "m = t AND 0x007fffff"
  define c where "c = unat (clamp_time a)"
  have M: "M < 2 ^ 23" unfolding M_def by (rule compact_mantissa_bound)
  have um: "unat (ucast m :: u64) = M" using M by (simp add: M_def compact_mantissa_def unat_ucast_take m_def)
  have cb: "172755000 \<le> c" "c \<le> 691020000" unfolding c_def by (rule clamp_time_bounds)+
  have "M * c \<le> 8388608 * 691020000" using M cb by (intro mult_le_mono) auto
  then have "unat (ucast m * clamp_time a :: u64) = M * c"
    using unat_mult_small [of "ucast m" "clamp_time a"] um by (simp add: c_def)
  then have nm: "unat nm = M * c div 345510000" by (simp add: nm_def m_def [symmetric] unat_div targetTime_val)
  have "M * 172755000 div 345510000 \<le> M * c div 345510000" using cb by (intro div_le_mono mult_le_mono) auto
  then show "compact_mantissa t div 2 \<le> unat nm" unfolding nm M_def [symmetric] by simp
  have "M * c div 345510000 \<le> M * 691020000 div 345510000" using cb by (intro div_le_mono mult_le_mono) auto
  then show "unat nm \<le> 2 * compact_mantissa t" unfolding nm M_def [symmetric] by simp
qed

lemma retarget_bounds:
  assumes "target_ok t"
  shows "target_ok (retarget a t) \<and> compact_value (retarget a t) \<le> 2 * compact_value t \<and>
    compact_value t \<le> 2 * compact_value (retarget a t) + 256 ^ (compact_exponent t - 3)"
proof -
  define nm where "nm = (ucast (t AND 0x007fffff) * clamp_time a) div targetTime"
  define e where "e = drop_bit 24 t"
  define M U where "M = compact_mantissa t" and "U = (256 :: nat) ^ (unat e - 3)"
  have e: "compact_exponent t = unat e" "3 \<le> unat e" "unat e \<le> 32"
    using assms by (auto simp: target_ok_def compact_exponent_def e_def)
  have v: "compact_value t = M * U" using target_ok_value [OF assms] by (simp add: e M_def U_def)
  have M: "0 < M" "M < 2 ^ 23" using assms compact_mantissa_bound by (auto simp: target_ok_def M_def)
  have lo: "M div 2 \<le> unat nm" and hi: "unat nm \<le> 2 * M"
    using scaled_mantissa [OF assms, of a] by (simp_all add: nm_def M_def)
  have pipe: "retarget a t = finish_target (case normalize_up nm e of (m, e) \<Rightarrow> normalize_down m e)"
    unfolding nm_def e_def by (rule retarget_pipeline [OF assms])
  have goal: ?thesis if "target_ok (retarget a t)" "compact_value (retarget a t) = X" "X \<le> 2 * (M * U)" "M * U \<le> 2 * X + U" for X
    using that v by (simp add: e U_def)
  show ?thesis
  proof (cases "unat nm < 2 ^ 23")
    case True
    obtain m2 e2 where r: "normalize_down nm e = (m2, e2)" by fastforce
    note nd = normalize_down_value [OF True e(2) r]
    have pr: "retarget a t = finish_target (m2, e2)" using pipe normalize_up_stop [OF True] r by simp
    show ?thesis
    proof (cases "nm = 0")
      case True
      then have "m2 = 0" "e2 = e" "M = 1" using nd lo M by auto
      then show ?thesis using finish_target_zero [OF e(2,3)] pr by (intro goal [of U]) (simp_all add: U_def)
    next
      case False
      have val: "target_ok (retarget a t) \<and> compact_value (retarget a t) = unat nm * U"
        using finish_target_pack [of m2 e2] nd e False unfolding pr U_def by (simp add: unat_gt_0)
      have "M * U \<le> (2 * unat nm + 1) * U" using lo by (intro mult_le_mono1) linarith
      moreover have "unat nm * U \<le> 2 * M * U" using hi by (intro mult_le_mono1)
      ultimately show ?thesis using val by (intro goal [of "unat nm * U"]) (simp_all add: algebra_simps)
    qed
  next
    case False
    then have big: "2 ^ 23 \<le> unat nm" "unat nm < 2 ^ 31" using hi M by auto
    have q: "unat (nm div 256) = unat nm div 256" by (simp add: unat_div)
    have q': "32768 \<le> unat nm div 256" "unat nm div 256 < 2 ^ 23"
      using big hi M by (simp_all add: less_eq_div_iff_mult_less_eq less_mult_imp_div_less)
    have e1: "unat (e + 1) = unat e + 1" using e by (simp add: unat_word_ariths)
    obtain m2 e2 where r: "normalize_down (nm div 256) (e + 1) = (m2, e2)" by fastforce
    have "m2 = nm div 256" "e2 = e + 1"
      using normalize_down_value [OF _ _ r] q q' e e1 by auto
    then have pr: "retarget a t = finish_target (nm div 256, e + 1)"
      using pipe normalize_up_once [OF big] r by simp
    show ?thesis
    proof (cases "unat e = 32")
      case True
      then have val: "target_ok (retarget a t) \<and> compact_value (retarget a t) = 8388607 * U"
        using finish_target_max [of "e + 1"] e1 unfolding pr U_def by simp
      have "8388607 * U \<le> 2 * M * U" using hi big by (intro mult_le_mono1) simp
      moreover have "M * U \<le> (2 * 8388607 + 1) * U" using M by (intro mult_le_mono1) simp
      ultimately show ?thesis using val by (intro goal [of "8388607 * U"]) (simp_all add: algebra_simps)
    next
      case False
      have pw: "(256 :: nat) ^ (unat e + 1 - 3) = 256 * U" using e by (simp add: U_def Suc_diff_le flip: power_Suc)
      have "target_ok (retarget a t) \<and> compact_value (retarget a t) = unat (nm div 256) * 256 ^ (unat (e + 1) - 3)"
        unfolding pr using finish_target_pack [of "nm div 256" "e + 1"] q q' e e1 False by simp
      then have val: "target_ok (retarget a t) \<and> compact_value (retarget a t) = (unat nm div 256 * 256) * U"
        using q e1 pw by (simp add: mult.assoc)
      have "unat nm div 256 * 256 \<le> unat nm" "unat nm < unat nm div 256 * 256 + 256" by simp_all
      then have "unat nm div 256 * 256 \<le> 2 * M" "M \<le> 2 * (unat nm div 256 * 256) + 1" using hi big M by auto
      then have "(unat nm div 256 * 256) * U \<le> 2 * M * U" "M * U \<le> (2 * (unat nm div 256 * 256) + 1) * U"
        by (simp_all only: mult_le_mono1)
      then show ?thesis using val by (intro goal [of "(unat nm div 256 * 256) * U"]) (simp_all add: algebra_simps)
    qed
  qed
qed

lemma ComputeTarget_ok:
  assumes "target_ok t" and "h \<le> length (blocks chain)" and "DIFFICULTY_ADJUSTMENT_INTERVAL \<le> h"
  shows "target_ok (Chain_ComputeTargetAtHeight chain h t)"
  using assms retarget_bounds [OF assms(1)]
  by (auto simp: Chain_ComputeTargetAtHeight_def vec_get_def Let_def DIFFICULTY_ADJUSTMENT_INTERVAL_def)

lemma target_loop_ok:
  "target_ok t \<Longrightarrow> h + fuel * DIFFICULTY_ADJUSTMENT_INTERVAL \<le> length (blocks chain) + DIFFICULTY_ADJUSTMENT_INTERVAL \<Longrightarrow>
     DIFFICULTY_ADJUSTMENT_INTERVAL \<le> h \<Longrightarrow> target_ok (target_loop fuel chain h t)"
proof (induction fuel arbitrary: h t)
  case (Suc fuel)
  have "h \<le> length (blocks chain)" using Suc.prems(2) by simp
  then show ?case using Suc ComputeTarget_ok [OF Suc.prems(1)] by (simp add: algebra_simps)
qed simp

lemma GetTarget_ok: "height \<le> length (blocks chain) \<Longrightarrow> target_ok (Chain_GetTargetForHeight chain height)"
  unfolding Chain_GetTargetForHeight_def
  by (rule target_loop_ok [OF initial_target_ok])
    (simp_all, metis add_le_cancel_right div_times_less_eq_dividend le_trans add.commute)

section \<open>The DAG size as a function of the headers\<close>

definition epoch_blocks :: "block_t list \<Rightarrow> nat \<Rightarrow> block_t list" where
  "epoch_blocks bs k = take EPOCH_LENGTH (drop (k * EPOCH_LENGTH) bs)"

definition dag_down :: "block_t list \<Rightarrow> nat \<Rightarrow> bool" where
  "dag_down bs k = (count_votes DAG_VOTE_DOWN (epoch_blocks bs k) * DAG_DOWN_DEN > EPOCH_LENGTH * DAG_DOWN_NUM)"

definition dag_brake :: "block_t list \<Rightarrow> nat \<Rightarrow> bool" where
  "dag_brake bs k =
     ((count_votes DAG_VOTE_HOLD (epoch_blocks bs k) + count_votes DAG_VOTE_DOWN (epoch_blocks bs k)) * DAG_BRAKE_DEN
        > EPOCH_LENGTH * DAG_BRAKE_NUM)"

text \<open>The recurrence from scratch: the size of epoch \<open>k + 1\<close> is decided by the votes of epochs \<open>k\<close> and \<open>k - 1\<close>.\<close>

primrec dag_size_spec :: "block_t list \<Rightarrow> nat \<Rightarrow> nat" where
  "dag_size_spec bs 0 = DAG_BASE_SIZE"
| "dag_size_spec bs (Suc k) =
     dag_next_size (dag_size_spec bs k) (dag_down bs k) (k \<ge> 1 \<and> dag_down bs (k - 1)) (dag_brake bs k)"

definition cache_ok :: "block_t list \<Rightarrow> dag_epoch_state_t list \<Rightarrow> bool" where
  "cache_ok bs cache \<longleftrightarrow>
     (\<forall>k < length cache. sizeBytes (cache ! k) = dag_size_spec bs k \<and> k * EPOCH_LENGTH \<le> length bs \<and>
        (Suc k < length cache \<longrightarrow> downQualified (cache ! k) = dag_down bs k))"

definition dag_cache_ok :: "blockchain_t \<Rightarrow> bool" where
  "dag_cache_ok chain \<longleftrightarrow> cache_ok (blocks chain) (dagEpochs chain)"

lemma epoch_blocks_append: "Suc k * EPOCH_LENGTH \<le> length bs \<Longrightarrow> epoch_blocks (bs @ cs) k = epoch_blocks bs k"
  by (simp add: epoch_blocks_def)

lemma dag_votes_append:
  "Suc k * EPOCH_LENGTH \<le> length bs \<Longrightarrow> dag_down (bs @ cs) k = dag_down bs k \<and> dag_brake (bs @ cs) k = dag_brake bs k"
  by (simp add: dag_down_def dag_brake_def epoch_blocks_append)

lemma dag_size_spec_append: "k * EPOCH_LENGTH \<le> length bs \<Longrightarrow> dag_size_spec (bs @ cs) k = dag_size_spec bs k"
proof (induction k)
  case (Suc k)
  have prior: "(k \<ge> 1 \<and> dag_down (bs @ cs) (k - 1)) = (k \<ge> 1 \<and> dag_down bs (k - 1))"
    using Suc.prems dag_votes_append [of "k - 1" bs cs] by (cases k) auto
  have "k * EPOCH_LENGTH \<le> length bs" using Suc.prems by simp
  then show ?case
    unfolding dag_size_spec.simps prior using Suc.IH dag_votes_append [OF Suc.prems, of cs] by simp
qed simp

lemma cache_ok_append: "cache_ok bs cache \<Longrightarrow> cache_ok (bs @ cs) cache"
  unfolding cache_ok_def
proof (intro allI impI conjI)
  fix k
  assume *: "\<forall>k<length cache. sizeBytes (cache ! k) = dag_size_spec bs k \<and> k * EPOCH_LENGTH \<le> length bs \<and>
    (Suc k < length cache \<longrightarrow> downQualified (cache ! k) = dag_down bs k)" and k: "k < length cache"
  then have ok: "k * EPOCH_LENGTH \<le> length bs" "sizeBytes (cache ! k) = dag_size_spec bs k" by auto
  then show "sizeBytes (cache ! k) = dag_size_spec (bs @ cs) k" by (simp add: dag_size_spec_append)
  show "k * EPOCH_LENGTH \<le> length (bs @ cs)" using ok by simp
  assume "Suc k < length cache"
  then have "Suc k * EPOCH_LENGTH \<le> length bs" "downQualified (cache ! k) = dag_down bs k" using * k by auto
  then show "downQualified (cache ! k) = dag_down (bs @ cs) k" using dag_votes_append [of k bs cs] by simp
qed

lemma dag_cache_append:
  "dag_cache_ok chain \<Longrightarrow> dag_cache_ok (chain\<lparr> blocks := blocks chain @ bs, chain_size := n \<rparr>)"
  by (simp add: dag_cache_ok_def cache_ok_append)

lemma extend_step_ok:
  assumes "cache_ok bs cache" and "cache \<noteq> []"
  shows "case extend_step bs cache of
           None \<Rightarrow> length bs < length cache * EPOCH_LENGTH
         | Some cache' \<Rightarrow> cache_ok bs cache' \<and> length cache' = Suc (length cache)"
proof -
  obtain n where n: "length cache = Suc n" using assms(2) by (cases cache) auto
  define c' where "c' = cache[n := (cache ! n)\<lparr> downQualified := dag_down bs n \<rparr>]"
  define prior where "prior = (n \<ge> 1 \<and> dag_down bs (n - 1))"
  have prior: "(if n \<ge> 1 then downQualified (c' ! (n - 1)) else False) = prior"
  proof (cases n)
    case (Suc m)
    then have "downQualified (cache ! m) = dag_down bs m" using assms(1) n by (simp add: cache_ok_def)
    then show ?thesis using Suc by (simp add: prior_def c'_def)
  qed (simp add: prior_def)
  have sz: "sizeBytes (c' ! n) = dag_size_spec bs n" using assms(1) n by (simp add: cache_ok_def c'_def)
  show ?thesis
  proof (cases "Suc n * EPOCH_LENGTH > length bs")
    case True
    then show ?thesis using n by (simp add: extend_step_def Let_def algebra_simps)
  next
    case False
    have "extend_step bs cache = Some (c' @ [\<lparr> sizeBytes = dag_size_spec bs (Suc n), downQualified = False \<rparr>])"
    proof -
      have room: "\<not> n * EPOCH_LENGTH + EPOCH_LENGTH > length bs" using False by (simp add: add.commute)
      show ?thesis
        unfolding extend_step_def Let_def n diff_Suc_1 epoch_blocks_def [symmetric] dag_down_def [symmetric]
          dag_brake_def [symmetric] c'_def [symmetric] prior sz dag_size_spec.simps prior_def
        using room by simp
    qed
    moreover have "cache_ok bs (c' @ [\<lparr> sizeBytes = dag_size_spec bs (Suc n), downQualified = False \<rparr>])"
      using assms(1) False n
      by (auto simp: cache_ok_def c'_def nth_append nth_list_update less_Suc_eq)
    ultimately show ?thesis using n by (simp add: c'_def)
  qed
qed

lemma extend_loop_ok:
  assumes "cache_ok bs cache" and "cache \<noteq> []" and "extend_loop n bs cache = (cache', ok)"
  shows "cache_ok bs cache' \<and> (if ok then length cache' = length cache + n
     else length bs < (length cache + n - 1) * EPOCH_LENGTH \<and> 0 < n)"
  using assms
proof (induction n arbitrary: cache)
  case (Suc n)
  show ?case
  proof (cases "extend_step bs cache")
    case None
    then have "length bs < length cache * EPOCH_LENGTH" "\<not> ok" "cache' = cache"
      using extend_step_ok [OF Suc.prems(1,2)] Suc.prems(3) by auto
    moreover have "length cache * EPOCH_LENGTH \<le> (length cache + n) * EPOCH_LENGTH" by (intro mult_le_mono1) simp
    ultimately show ?thesis using Suc.prems(1) by (auto intro: less_le_trans)
  next
    case (Some c1)
    then have c1: "cache_ok bs c1" "length c1 = Suc (length cache)"
      using extend_step_ok [OF Suc.prems(1,2)] by auto
    have "c1 \<noteq> []" using c1(2) by auto
    moreover have "extend_loop n bs c1 = (cache', ok)" using Suc.prems(3) Some by simp
    ultimately show ?thesis using Suc.IH [OF c1(1)] c1(2) by (auto split: if_splits)
  qed
qed simp

lemma dag_size_band: "DAG_MIN_SIZE \<le> dag_size_spec bs k \<and> dag_size_spec bs k \<le> DAG_MAX_SIZE \<and> 2 ^ 30 dvd dag_size_spec bs k"
proof (induction k)
  case (Suc k)
  then show ?case
    unfolding dag_size_spec.simps dag_next_size_def dag_constants by (auto intro!: dvd_diff_nat dvd_add)
qed (simp add: dag_constants)

lemma ExtendDag_ok:
  assumes "dag_cache_ok chain" and "Chain_ExtendDagEpochsLocked chain k = (chain', ok)"
  shows "dag_cache_ok chain' \<and> blocks chain' = blocks chain \<and> chain_size chain' = chain_size chain \<and>
    (ok \<longleftrightarrow> k * EPOCH_LENGTH \<le> length (blocks chain)) \<and>
    (ok \<longrightarrow> k < length (dagEpochs chain') \<and> sizeBytes (dagEpochs chain' ! k) = dag_size_spec (blocks chain) k)"
proof -
  define c0 where "c0 = (if dagEpochs chain = [] then [\<lparr> sizeBytes = DAG_BASE_SIZE, downQualified = False \<rparr>] else dagEpochs chain)"
  obtain c ok' where r: "extend_loop (Suc k - length c0) (blocks chain) c0 = (c, ok')" by fastforce
  have res: "chain' = chain\<lparr> dagEpochs := c \<rparr>" "ok = ok'"
    using assms(2) by (simp_all add: Chain_ExtendDagEpochsLocked_def Let_def c0_def [symmetric] r)
  have c0: "cache_ok (blocks chain) c0" "c0 \<noteq> []"
    using assms(1) by (auto simp: c0_def dag_cache_ok_def cache_ok_def)
  note lp = extend_loop_ok [OF c0 r]
  have len: "ok \<Longrightarrow> k < length c" "\<not> ok \<Longrightarrow> length (blocks chain) < k * EPOCH_LENGTH"
    using lp res(2) by (auto split: if_splits)
  then show ?thesis using lp res by (auto simp: dag_cache_ok_def cache_ok_def)
qed

text \<open>The epoch seed and the parameters as functions of the blocks alone.\<close>

definition dag_params_spec :: "crypto_env \<Rightarrow> block_t list \<Rightarrow> nat \<Rightarrow> (nat \<times> byte list) option" where
  "dag_params_spec E bs height =
     (let k = height div EPOCH_LENGTH in
      if length bs < k * EPOCH_LENGTH then None
      else Some (dag_size_spec bs k,
                 if k = 0 then replicate 32 0 else Block_CalculateHash E (bs ! (k * EPOCH_LENGTH - 1))))"

lemma DagParams_spec:
  assumes "dag_cache_ok chain"
  shows "\<exists>cache. Chain_DagParamsForHeightLocked E chain height =
      (chain\<lparr> dagEpochs := cache \<rparr>, dag_params_spec E (blocks chain) height) \<and>
    dag_cache_ok (chain\<lparr> dagEpochs := cache \<rparr>)"
proof -
  let ?k = "height div EPOCH_LENGTH" and ?bs = "blocks chain"
  obtain chain' ok where x: "Chain_ExtendDagEpochsLocked chain ?k = (chain', ok)" by fastforce
  note xo = ExtendDag_ok [OF assms x]
  have ch: "chain' = chain\<lparr> dagEpochs := dagEpochs chain' \<rparr>" using xo by (cases chain; cases chain') simp
  have band: "\<not> dag_size_spec ?bs ?k < 32" "dag_size_spec ?bs ?k mod 32 = 0"
    using dag_size_band [of ?bs ?k] by (auto simp: dag_constants elim: dvdE)
  have L: "0 < EPOCH_LENGTH" by (simp add: EPOCH_LENGTH_def)
  have "Chain_DagParamsForHeightLocked E chain height = (chain', dag_params_spec E ?bs height)"
  proof (cases ok)
    case False
    then show ?thesis using xo by (simp add: Chain_DagParamsForHeightLocked_def x Let_def dag_params_spec_def)
  next
    case True
    then have le: "?k * EPOCH_LENGTH \<le> length ?bs" "sizeBytes (dagEpochs chain' ! ?k) = dag_size_spec ?bs ?k" using xo by auto
    show ?thesis
    proof (cases "?k = 0")
      case True
      with x have x0: "Chain_ExtendDagEpochsLocked chain 0 = (chain', ok)" by simp
      show ?thesis
        using \<open>ok\<close> le band xo True x0
        by (simp add: Chain_DagParamsForHeightLocked_def x Let_def dag_params_spec_def Chain_EpochDagSeedForHeightLocked_def)
    next
      case False
      then have "?k * EPOCH_LENGTH - 1 < length ?bs" using le(1) L by (metis diff_less less_le_trans less_numeral_extra(1) linorder_not_less nat_0_less_mult_iff neq0_conv)
      then show ?thesis
        using \<open>ok\<close> le band xo False
        by (simp add: Chain_DagParamsForHeightLocked_def x Let_def dag_params_spec_def
            Chain_EpochDagSeedForHeightLocked_def vec_get_def)
    qed
  qed
  then show ?thesis using xo ch by metis
qed

section \<open>Links\<close>

lemma links_ok_nth:
  "links_ok E i bs \<longleftrightarrow>
     (\<forall>j. Suc j < length bs \<longrightarrow> blockNumber (header (bs ! Suc j)) = of_nat (i + j) \<and>
        prevHash (header (bs ! Suc j)) = Block_CalculateHash E (bs ! j))"
proof (induction E i bs rule: links_ok.induct)
  case (1 E i p b rest)
  have "(\<forall>j. Suc j < length (p # b # rest) \<longrightarrow> Q j) \<longleftrightarrow> Q 0 \<and> (\<forall>j. Suc j < length (b # rest) \<longrightarrow> Q (Suc j))" for Q
    using less_Suc_eq_0_disj by auto
  note split = this
  show ?case
    unfolding links_ok.simps split using 1 by (auto simp: add.commute)
qed auto

lemma Chain_IsValid_nth:
  "Chain_IsValid E chain \<longleftrightarrow>
     (\<forall>i < length (blocks chain). blockNumber (header (blocks chain ! i)) = of_nat i \<and>
        (0 < i \<longrightarrow> prevHash (header (blocks chain ! i)) = Block_CalculateHash E (blocks chain ! (i - 1))))"
proof (cases "blocks chain")
  case (Cons g rest)
  have "(\<forall>i < length (blocks chain). Q i) \<longleftrightarrow> Q 0 \<and> (\<forall>j. Suc j < length (blocks chain) \<longrightarrow> Q (Suc j))" for Q
    using Cons less_Suc_eq_0_disj by auto
  note split = this
  show ?thesis
    unfolding split Chain_IsValid_def links_ok_nth using Cons by auto
qed (simp add: Chain_IsValid_def)

section \<open>Properties\<close>

text \<open>
  The work of a compact target is exactly 2^256 divided by the target plus one, computed through
  the 256-bit complement, division and increment of the code; it is refused only for an undecodable or
  zero target.
\<close>

lemma ComputeBlockWork_exact:
  "map_option u256_val (Chain_ComputeBlockWork nBits) =
     (if DecodeCompactTarget nBits = None \<or> compact_value nBits = 0 then None
      else Some (2 ^ 256 div (compact_value nBits + 1)))"
  using ComputeBlockWork_val [of nBits] by (simp only: TWO256_def)

text \<open>
  C31: the retarget at an adjustment boundary keeps the compact target usable (positive, unsigned,
  exponent from 3 to 32, hence decodable) and moves its value by at most a factor of two either way, up
  to one unit of the old encoding; consequently the target required at every height up to the tip is
  usable.
\<close>

theorem retarget_clamped:
  assumes "target_ok t" and "3840 \<le> height" and "height \<le> length (blocks chain)"
  shows "target_ok (Chain_ComputeTargetAtHeight chain height t) \<and>
    compact_value (Chain_ComputeTargetAtHeight chain height t) \<le> 2 * compact_value t \<and>
    compact_value t \<le> 2 * compact_value (Chain_ComputeTargetAtHeight chain height t) + 256 ^ (compact_exponent t - 3) \<and>
    target_ok (Chain_GetTargetForHeight chain height)"
proof -
  have "Chain_ComputeTargetAtHeight chain height t \<in> {t} \<union> range (\<lambda>a. retarget a t)"
    using assms(2,3)
    by (auto simp: Chain_ComputeTargetAtHeight_def vec_get_def Let_def DIFFICULTY_ADJUSTMENT_INTERVAL_def)
  then show ?thesis
    using retarget_bounds [OF assms(1)] assms(1) GetTarget_ok [OF assms(3)] by auto
qed

definition demo_block :: "nat \<Rightarrow> block_t" where
  "demo_block i = Block_Create\<lparr> header := (header Block_Create)\<lparr> blockNumber := of_nat i, timestamp := of_nat (1000 * i) \<rparr> \<rparr>"

theorem retarget_clamped_witness:
  "let chain = \<lparr> blocks = map demo_block [0..<3840], chain_size = 3840, dagEpochs = [] \<rparr>
   in compact_value (Chain_ComputeTargetAtHeight chain 3840 INITIAL_DIFFICULTY) \<le> 2 * compact_value INITIAL_DIFFICULTY \<and>
      target_ok (Chain_GetTargetForHeight chain 3840)"
  using retarget_clamped [OF initial_target_ok, of 3840
      "\<lparr> blocks = map demo_block [0..<3840], chain_size = 3840, dagEpochs = [] \<rparr>"]
  by (simp add: Let_def)

text \<open>
  The DAG parameters of a height are a function of the block headers alone, whatever the memo table
  held before (as long as it was filled from this chain): the size is the vote recurrence from scratch
  and the seed the hash of the last block of the previous epoch; they are available exactly when the
  preceding epochs are complete. The size always lies between 2 and 8 GiB and is a multiple of the
  32-byte lane, and the table stays correct.
\<close>

lemma DagParams_function_of_headers:
  assumes "dag_cache_ok chain"
  shows "snd (Chain_DagParamsForHeightLocked E chain height) = dag_params_spec E (blocks chain) height \<and>
    dag_cache_ok (fst (Chain_DagParamsForHeightLocked E chain height)) \<and>
    (\<forall>n seed. dag_params_spec E (blocks chain) height = Some (n, seed) \<longrightarrow>
       2 * 2 ^ 30 \<le> n \<and> n \<le> 8 * 2 ^ 30 \<and> 32 dvd n)"
proof -
  have "(32 :: nat) dvd 2 ^ 30" by simp
  then have "32 dvd dag_size_spec bs k" for bs k using dag_size_band [of bs k] by (blast intro: dvd_trans)
  then show ?thesis
    using DagParams_spec [OF assms, of E height] dag_size_band
    by (auto simp: dag_params_spec_def Let_def dag_constants split: if_splits)
qed

text \<open>
  Between consecutive epochs the DAG grows by at most one gibibyte whatever the votes, it shrinks
  only when more than 7/8 of the blocks of two consecutive epochs voted for it, and a braking majority
  without that never lets it grow.
\<close>

lemma dag_walk_bounded:
  "dag_size_spec bs (Suc k) \<le> dag_size_spec bs k + 2 ^ 30 \<and>
   (dag_size_spec bs (Suc k) < dag_size_spec bs k \<longrightarrow> 1 \<le> k \<and> dag_down bs k \<and> dag_down bs (k - 1)) \<and>
   (dag_brake bs k \<longrightarrow> dag_size_spec bs (Suc k) \<le> dag_size_spec bs k)"
  using dag_size_band [of bs k]
  by (auto simp: dag_next_size_def dag_constants)

end
