(* ===== verification/Account_Ledger.thy ===== *)
theory Account_Ledger
  imports Transaction
begin

text \<open>
  The abstract ledger: an account model where every address has a balance (a natural number) and a
  block moves coins between balances. \<open>apply_transfer\<close> says what one transaction means, \<open>spec_spend\<close>
  when it is covered. The locale \<open>account_store\<close> is the contract of a store that keeps such balances in
  256-bit entries; the selection pass of \<^verbatim>\<open>balance_sheet.c\<close> and the ledger pass of \<^verbatim>\<open>chain.c\<close> are both
  instances.
\<close>

section \<open>Balances\<close>

type_synonym balances = "address \<Rightarrow> nat"

text \<open>The coins in circulation: the sum of the (finitely many) non-zero balances.\<close>

definition total_balance :: "balances \<Rightarrow> nat" where
  "total_balance b = (\<Sum>a\<in>{a. b a \<noteq> 0}. b a)"

definition finite_balances :: "balances \<Rightarrow> bool" where
  "finite_balances b \<longleftrightarrow> finite {a. b a \<noteq> 0}"

definition add_to :: "balances \<Rightarrow> address \<Rightarrow> nat \<Rightarrow> balances" where
  "add_to b a n = b(a := b a + n)"

definition take_from :: "balances \<Rightarrow> address \<Rightarrow> nat \<Rightarrow> balances" where
  "take_from b a n = b(a := b a - n)"

section \<open>Meaning of a transaction\<close>

definition spend_total :: "transaction_t \<Rightarrow> nat" where
  "spend_total t = unat (amount1 t) + unat (amount2 t) + unat (fee t)"

definition payout_total :: "transaction_t \<Rightarrow> nat" where
  "payout_total t = unat (amount1 t) + unat (amount2 t)"

definition pay_recipients :: "balances \<Rightarrow> transaction_t \<Rightarrow> balances" where
  "pay_recipients b t =
     (let b1 = add_to b (recipientAddress1 t) (unat (amount1 t)) in
      if amount2 t > 0 then add_to b1 (recipientAddress2 t) (unat (amount2 t)) else b1)"

definition apply_transfer :: "balances \<Rightarrow> transaction_t \<Rightarrow> balances" where
  "apply_transfer b t =
     pay_recipients (if Address_IsCoinbase (senderAddress t) then b
                     else take_from b (senderAddress t) (spend_total t)) t"

definition covered :: "balances \<Rightarrow> transaction_t \<Rightarrow> bool" where
  "covered b t \<longleftrightarrow> Address_IsCoinbase (senderAddress t) \<or> spend_total t \<le> b (senderAddress t)"

text \<open>A block's transactions, in order; each must be covered by what precedes it.\<close>

fun spec_block :: "balances \<Rightarrow> transaction_t list \<Rightarrow> balances option" where
  "spec_block b [] = Some b"
| "spec_block b (t # ts) = (if covered b t then spec_block (apply_transfer b t) ts else None)"

section \<open>Totals\<close>

lemma finite_balances_upd: "finite_balances b \<Longrightarrow> finite_balances (b(a := n))"
  unfolding finite_balances_def by (rule finite_subset [of _ "insert a {x. b x \<noteq> 0}"]) auto

lemma total_balance_split:
  assumes "finite S" "{x. c x \<noteq> 0} \<subseteq> S" "a \<in> S"
  shows "total_balance c = c a + sum c (S - {a})"
proof -
  have "total_balance c = sum c S"
    unfolding total_balance_def using assms(1,2) by (intro sum.mono_neutral_left) auto
  then show ?thesis using sum.remove [OF assms(1,3), of c] by simp
qed

lemma total_balance_upd:
  assumes "finite_balances b"
  shows "total_balance (b(a := n)) + b a = total_balance b + n"
proof -
  let ?S = "insert a {x. b x \<noteq> 0}"
  have fin: "finite ?S" using assms by (simp add: finite_balances_def)
  have "sum (b(a := n)) (?S - {a}) = sum b (?S - {a})" by (rule sum.cong) auto
  moreover have "total_balance b = b a + sum b (?S - {a})"
    by (rule total_balance_split [OF fin]) auto
  moreover have "total_balance (b(a := n)) = (b(a := n)) a + sum (b(a := n)) (?S - {a})"
    by (rule total_balance_split [OF fin]) auto
  ultimately show ?thesis by simp
qed

lemma total_add_to [simp]: "finite_balances b \<Longrightarrow> total_balance (add_to b a n) = total_balance b + n"
  using total_balance_upd [of b a "b a + n"] by (simp add: add_to_def)

lemma total_take_from:
  "finite_balances b \<Longrightarrow> n \<le> b a \<Longrightarrow> total_balance (take_from b a n) + n = total_balance b"
  using total_balance_upd [of b a "b a - n"] by (simp add: take_from_def)

lemma finite_add_to [simp]: "finite_balances b \<Longrightarrow> finite_balances (add_to b a n)"
  by (simp add: add_to_def finite_balances_upd)

lemma finite_take_from [simp]: "finite_balances b \<Longrightarrow> finite_balances (take_from b a n)"
  by (simp add: take_from_def finite_balances_upd)

lemma balance_le_total: "finite_balances b \<Longrightarrow> b a \<le> total_balance b"
proof -
  assume fin: "finite_balances b"
  show ?thesis
  proof (cases "b a = 0")
    case False
    then show ?thesis
      using fin unfolding total_balance_def finite_balances_def by (intro member_le_sum) auto
  qed simp
qed

lemma amount2_zero [simp]: "\<not> amount2 t > 0 \<longleftrightarrow> amount2 t = 0"
  by (simp add: word_gt_0)

lemma finite_pay_recipients [simp]: "finite_balances b \<Longrightarrow> finite_balances (pay_recipients b t)"
  by (simp add: pay_recipients_def Let_def)

lemma total_pay_recipients:
  "finite_balances b \<Longrightarrow> total_balance (pay_recipients b t) = total_balance b + payout_total t"
  by (auto simp: pay_recipients_def payout_total_def Let_def word_gt_0)

lemma finite_apply_transfer [simp]: "finite_balances b \<Longrightarrow> finite_balances (apply_transfer b t)"
  by (simp add: apply_transfer_def)

lemma total_apply_transfer:
  assumes "finite_balances b" and "covered b t"
  shows "total_balance (apply_transfer b t)
     + (if Address_IsCoinbase (senderAddress t) then 0 else unat (fee t))
     = total_balance b + (if Address_IsCoinbase (senderAddress t) then payout_total t else 0)"
  using assms total_take_from [of b "spend_total t" "senderAddress t"]
  by (auto simp: apply_transfer_def total_pay_recipients covered_def spend_total_def payout_total_def)

definition spend_fees :: "transaction_t list \<Rightarrow> nat" where
  "spend_fees ts = (\<Sum>t\<leftarrow>filter (\<lambda>t. \<not> Address_IsCoinbase (senderAddress t)) ts. unat (fee t))"

definition coinbase_payout :: "transaction_t list \<Rightarrow> nat" where
  "coinbase_payout ts = (\<Sum>t\<leftarrow>filter (\<lambda>t. Address_IsCoinbase (senderAddress t)) ts. payout_total t)"

lemma finite_spec_block: "finite_balances b \<Longrightarrow> spec_block b ts = Some b' \<Longrightarrow> finite_balances b'"
  by (induction ts arbitrary: b) (auto split: if_splits dest: finite_apply_transfer)

text \<open>Conservation: a block creates its coinbase payout and destroys its fees, nothing else.\<close>

lemma total_spec_block:
  "finite_balances b \<Longrightarrow> spec_block b ts = Some b' \<Longrightarrow>
     total_balance b' + spend_fees ts = total_balance b + coinbase_payout ts"
proof (induction ts arbitrary: b)
  case (Cons t ts)
  then have c: "covered b t" and rec: "spec_block (apply_transfer b t) ts = Some b'"
    by (auto split: if_splits)
  show ?case
    using Cons.IH [OF finite_apply_transfer [OF Cons.prems(1)] rec] total_apply_transfer [OF Cons.prems(1) c]
    by (auto simp: spend_fees_def coinbase_payout_def split: if_splits)
qed (simp add: spend_fees_def coinbase_payout_def)

text \<open>More coins never hurt: what a block could spend it can still spend when balances are larger.\<close>

definition le_balances :: "balances \<Rightarrow> balances \<Rightarrow> bool" where
  "le_balances b c \<longleftrightarrow> (\<forall>a. b a \<le> c a)"

lemma le_apply_transfer: "le_balances b c \<Longrightarrow> le_balances (apply_transfer b t) (apply_transfer c t)"
  by (auto simp: le_balances_def apply_transfer_def pay_recipients_def add_to_def take_from_def Let_def
      intro: diff_le_mono)

lemma le_add_to_right: "le_balances b c \<Longrightarrow> le_balances b (add_to c a n)"
  by (auto simp: le_balances_def add_to_def intro: le_trans)

lemma le_pay_recipients_right: "le_balances b c \<Longrightarrow> le_balances b (pay_recipients c t)"
  by (simp add: pay_recipients_def Let_def le_add_to_right)

lemma covered_mono: "le_balances b c \<Longrightarrow> covered b t \<Longrightarrow> covered c t"
  by (auto simp: le_balances_def covered_def intro: le_trans)

text \<open>
  Covering the spends alone covers the whole block: coinbases only add coins.
\<close>

lemma spec_block_of_spends:
  assumes "le_balances b c" and "spec_block b (filter (\<lambda>t. \<not> Address_IsCoinbase (senderAddress t)) ts) = Some b'"
  shows "\<exists>c'. spec_block c ts = Some c'"
  using assms
proof (induction ts arbitrary: b c)
  case (Cons t ts)
  show ?case
  proof (cases "Address_IsCoinbase (senderAddress t)")
    case True
    then have "le_balances b (apply_transfer c t)" "covered c t"
      using Cons.prems(1) by (simp_all add: apply_transfer_def le_pay_recipients_right covered_def)
    then show ?thesis using Cons.IH Cons.prems(2) True by simp
  next
    case False
    then show ?thesis
      using Cons.IH [OF le_apply_transfer [OF Cons.prems(1)]] Cons.prems covered_mono
      by (auto split: if_splits)
  qed
qed simp

section \<open>The contract of an account store\<close>

locale account_store =
  fixes inv :: "'s \<Rightarrow> bool"
    and bal :: "'s \<Rightarrow> balances"
    and credit :: "'s \<Rightarrow> address \<Rightarrow> u64 \<Rightarrow> 's option"
    and debit :: "'s \<Rightarrow> address \<Rightarrow> uint256_t \<Rightarrow> u64 \<Rightarrow> 's option"
  assumes credit_succeeds: "inv s \<Longrightarrow> bal s a + unat x < TWO256 \<Longrightarrow> \<exists>s'. credit s a x = Some s'"
    and credit_bal: "inv s \<Longrightarrow> credit s a x = Some s' \<Longrightarrow> inv s' \<and> bal s' = add_to (bal s) a (unat x)"
    and debit_iff: "inv s \<Longrightarrow> 0 < u256_val v \<Longrightarrow> (\<exists>s'. debit s a v ts = Some s') \<longleftrightarrow> u256_val v \<le> bal s a"
    and debit_bal: "inv s \<Longrightarrow> 0 < u256_val v \<Longrightarrow> debit s a v ts = Some s' \<Longrightarrow> inv s' \<and> bal s' = take_from (bal s) a (u256_val v)"
begin

definition pay :: "'s \<Rightarrow> transaction_t \<Rightarrow> 's option" where
  "pay s t = (case credit s (recipientAddress1 t) (amount1 t) of
      None \<Rightarrow> None
    | Some s1 \<Rightarrow> if amount2 t > 0 then credit s1 (recipientAddress2 t) (amount2 t) else Some s1)"

lemma pay_bal: "inv s \<Longrightarrow> pay s t = Some s' \<Longrightarrow> inv s' \<and> bal s' = pay_recipients (bal s) t"
proof -
  assume s: "inv s" "pay s t = Some s'"
  then obtain s1 where s1: "credit s (recipientAddress1 t) (amount1 t) = Some s1"
    by (auto simp: pay_def split: option.splits)
  then show ?thesis
    using s credit_bal [OF s(1) s1] credit_bal [of s1 "recipientAddress2 t" "amount2 t" s']
    by (auto simp: pay_def pay_recipients_def Let_def split: if_splits)
qed

lemma pay_succeeds:
  assumes "inv s" and "finite_balances (bal s)" and "total_balance (bal s) + payout_total t < TWO256"
  shows "\<exists>s'. pay s t = Some s'"
proof -
  have "bal s a + unat (amount1 t) < TWO256" for a
    using balance_le_total [OF assms(2), of a] assms(3) by (simp add: payout_total_def)
  then obtain s1 where s1: "credit s (recipientAddress1 t) (amount1 t) = Some s1"
    using credit_succeeds [OF assms(1)] by blast
  note b1 = credit_bal [OF assms(1) s1]
  have "bal s1 a + unat (amount2 t) < TWO256" for a
    using balance_le_total [of "bal s1" a] assms(2,3) b1 by (simp add: payout_total_def)
  then show ?thesis using s1 credit_succeeds b1 by (auto simp: pay_def)
qed

lemma debit_pay:
  assumes "inv s" and "finite_balances (bal s)" and "total_balance (bal s) < TWO256"
    and "u256_val v = spend_total t" and "amount1 t \<noteq> 0"
  shows "(\<exists>s1 s'. debit s a v ts = Some s1 \<and> pay s1 t = Some s') \<longleftrightarrow> spend_total t \<le> bal s a"
proof
  assume "\<exists>s1 s'. debit s a v ts = Some s1 \<and> pay s1 t = Some s'"
  then show "spend_total t \<le> bal s a"
    using debit_iff [OF assms(1), of v a ts] assms(4,5) by (auto simp: spend_total_def unat_gt_0)
next
  assume le: "spend_total t \<le> bal s a"
  moreover have pos: "0 < u256_val v" using assms(4,5) by (simp add: spend_total_def unat_gt_0)
  ultimately obtain s1 where s1: "debit s a v ts = Some s1"
    using debit_iff [OF assms(1)] assms(4) by metis
  note b1 = debit_bal [OF assms(1) pos s1]
  have "total_balance (bal s1) + spend_total t = total_balance (bal s)"
    using total_take_from [OF assms(2) le] b1 assms(4) by simp
  then have "total_balance (bal s1) + payout_total t < TWO256"
    using assms(3) by (simp add: spend_total_def payout_total_def)
  then show "\<exists>s1 s'. debit s a v ts = Some s1 \<and> pay s1 t = Some s'"
    using pay_succeeds b1 assms(2) s1 by (metis finite_take_from)
qed

end

end
