(* ===== verification/Balance_Sheet.thy ===== *)
theory Balance_Sheet
  imports Account_Ledger
begin

text \<open>
  The balance sheet of \<^verbatim>\<open>src/balance_sheet.c\<close> (the khash map from addresses to entries, its file
  format, and the selection of spendable transactions on a scratch copy) together with the debit and
  credit helpers of \<^verbatim>\<open>src/block/chain.c\<close> that write to it. Both the scratch copy and the global sheet
  are shown to be account stores.
\<close>

section \<open>Entries and the map\<close>

record balance_sheet_entry_t =
  entry_address :: address
  balance :: uint256_t
  lastTxTimestamp :: u64

type_synonym sheet_map = "address \<rightharpoonup> balance_sheet_entry_t"

text \<open>\<open>None\<close> is the NULL map before \<^verbatim>\<open>BalanceSheet_Init\<close>.\<close>

type_synonym sheet = "sheet_map option"

definition BalanceSheet_Init :: sheet where
  "BalanceSheet_Init = Some (\<lambda>_. None)"

definition BalanceSheet_Destroy :: "sheet \<Rightarrow> sheet" where
  "BalanceSheet_Destroy s = None"

text \<open>The return value of \<^verbatim>\<open>kh_put\<close> is 0 for a key that was present and 1 for a new one.\<close>

definition BalanceSheet_InsertLocked :: "sheet \<Rightarrow> balance_sheet_entry_t \<Rightarrow> sheet \<times> int" where
  "BalanceSheet_InsertLocked s entry =
     (case s of
        None \<Rightarrow> (None, - 1)
      | Some m \<Rightarrow> (Some (m(entry_address entry \<mapsto> entry)), if m (entry_address entry) = None then 1 else 0))"

definition BalanceSheet_Insert :: "sheet \<Rightarrow> balance_sheet_entry_t \<Rightarrow> sheet \<times> int" where
  "BalanceSheet_Insert s entry = (case s of None \<Rightarrow> (None, - 1) | Some m \<Rightarrow> BalanceSheet_InsertLocked s entry)"

definition BalanceSheet_Lookup :: "sheet \<Rightarrow> address \<Rightarrow> balance_sheet_entry_t option" where
  "BalanceSheet_Lookup s a = (case s of None \<Rightarrow> None | Some m \<Rightarrow> m a)"

section \<open>Files\<close>

text \<open>
  An entry on disk is its 72-byte struct image. \<open>order\<close> is the bucket order in which khash walks the map,
  an external choice.
\<close>

definition entry_image :: "balance_sheet_entry_t \<Rightarrow> byte list" where
  "entry_image e =
     entry_address e @ concat (map (\<lambda>l. le_bytes 8 (unat l)) (limbs (balance e)))
       @ le_bytes 8 (unat (lastTxTimestamp e))"

definition entry_of_image :: "byte list \<Rightarrow> balance_sheet_entry_t" where
  "entry_of_image bs =
     \<lparr> entry_address = bytes_at 0 32 bs,
       balance = U256 (read_u64 32 bs) (read_u64 40 bs) (read_u64 48 bs) (read_u64 56 bs),
       lastTxTimestamp = read_u64 64 bs \<rparr>"

text \<open>
  What the file system answers to a save of the sheet: does the file open, and does the write of the \<open>i\<close>-th
  entry succeed. Opening empties the old file, so a save that fails in between leaves only the entries
  written so far. The flush of \<^verbatim>\<open>fclose\<close> is not checked by the source and is taken to succeed.
\<close>

record sheet_io =
  sheet_opens :: bool
  sheet_written :: "nat \<Rightarrow> bool"

fun write_entries :: "(nat \<Rightarrow> bool) \<Rightarrow> nat \<Rightarrow> balance_sheet_entry_t list \<Rightarrow> byte list \<times> bool" where
  "write_entries wr i [] = ([], True)"
| "write_entries wr i (e # es) =
     (if \<not> wr i then ([], False)
      else case write_entries wr (Suc i) es of (bytes, ok) \<Rightarrow> (entry_image e @ bytes, ok))"

text \<open>The file afterwards and the returned flag; \<open>order\<close> is the bucket order of the map, where unused buckets are skipped.\<close>

definition BalanceSheet_SaveToFile :: "sheet_io \<Rightarrow> byte list option \<Rightarrow> sheet \<Rightarrow> address list \<Rightarrow> byte list option \<times> bool" where
  "BalanceSheet_SaveToFile io file s order =
     (case s of
        None \<Rightarrow> (file, False)
      | Some m \<Rightarrow>
          if \<not> sheet_opens io then (file, False)
          else case write_entries (sheet_written io) 0 (List.map_filter m order) of (bytes, ok) \<Rightarrow> (Some bytes, ok))"

function load_entries :: "byte list \<Rightarrow> sheet \<Rightarrow> sheet \<times> bool" where
  "load_entries bs s =
     (if length bs < 72 then (s, True)
      else (let (s', ret) = BalanceSheet_InsertLocked s (entry_of_image (take 72 bs)) in
            if ret < 0 then (s', False) else load_entries (drop 72 bs) s'))"
  by pat_completeness auto
termination
  by (relation "measure (\<lambda>(bs, s). length bs)") auto

declare load_entries.simps [simp del]

definition BalanceSheet_LoadFromFile :: "sheet \<Rightarrow> byte list option \<Rightarrow> sheet \<times> bool" where
  "BalanceSheet_LoadFromFile s file =
     (case s of
        None \<Rightarrow> (s, False)
      | Some m \<Rightarrow> (case file of None \<Rightarrow> (s, False) | Some bs \<Rightarrow> load_entries bs s))"

section \<open>Spending on the scratch copy\<close>

text \<open>The three additions of a spend, \<^verbatim>\<open>BuildSpendAmount\<close> of chain.c; the selection pass inlines them.\<close>

definition BuildSpendAmount :: "transaction_t \<Rightarrow> uint256_t option" where
  "BuildSpendAmount t =
     (let (s1, o1) = uint256_add_u64 (uint256_from_u64 0) (amount1 t) in
      if o1 then None
      else let (s2, o2) = uint256_add_u64 s1 (amount2 t) in
           if o2 then None
           else let (s3, o3) = uint256_add_u64 s2 (fee t) in if o3 then None else Some s3)"

definition fresh_entry :: "address \<Rightarrow> balance_sheet_entry_t" where
  "fresh_entry a = \<lparr> entry_address = a, balance = uint256_from_u64 0, lastTxTimestamp = 0 \<rparr>"

definition BalanceSheet_GetSimEntry ::
  "sheet \<Rightarrow> sheet_map \<Rightarrow> address \<Rightarrow> sheet_map \<times> balance_sheet_entry_t" where
  "BalanceSheet_GetSimEntry s simMap a =
     (case simMap a of
        Some e \<Rightarrow> (simMap, e)
      | None \<Rightarrow>
          (case BalanceSheet_Lookup s a of
             Some e \<Rightarrow> (simMap(a \<mapsto> e), e)
           | None \<Rightarrow> (simMap(a \<mapsto> fresh_entry a), fresh_entry a)))"

definition BalanceSheet_StoreSimEntry :: "sheet_map \<Rightarrow> balance_sheet_entry_t \<Rightarrow> sheet_map" where
  "BalanceSheet_StoreSimEntry simMap entry = simMap(entry_address entry \<mapsto> entry)"

text \<open>The debit and credit steps of \<^verbatim>\<open>BalanceSheet_ApplyCandidateTransaction\<close>; False is its early return.\<close>

definition sim_debit :: "sheet \<Rightarrow> sheet_map \<Rightarrow> address \<Rightarrow> uint256_t \<Rightarrow> sheet_map \<times> bool" where
  "sim_debit s simMap a spend =
     (let (sim1, senderEntry) = BalanceSheet_GetSimEntry s simMap a in
      if uint256_cmp (balance senderEntry) spend < 0 then (sim1, False)
      else let (b, ok) = uint256_subtract (balance senderEntry) spend in
           if \<not> ok then (sim1, False)
           else (BalanceSheet_StoreSimEntry sim1 (senderEntry\<lparr> balance := b \<rparr>), True))"

definition sim_credit :: "sheet \<Rightarrow> sheet_map \<Rightarrow> address \<Rightarrow> u64 \<Rightarrow> sheet_map \<times> bool" where
  "sim_credit s simMap a amount =
     (let (sim1, entry) = BalanceSheet_GetSimEntry s simMap a;
          (b, overflow) = uint256_add_u64 (balance entry) amount in
      if overflow then (sim1, False)
      else (BalanceSheet_StoreSimEntry sim1 (entry\<lparr> balance := b \<rparr>), True))"

text \<open>
  The result is the scratch map with \<open>Some\<close> of \<^verbatim>\<open>*outFee\<close> when the C function answers true; for a coinbase
  the fee stays at the zero the caller put there.
\<close>

definition BalanceSheet_ApplyCandidateTransaction ::
  "crypto_env \<Rightarrow> sheet \<Rightarrow> sheet_map \<Rightarrow> signed_transaction_t \<Rightarrow> sheet_map \<times> u64 option" where
  "BalanceSheet_ApplyCandidateTransaction E s simMap tx =
     (let t = transaction tx in
      if Address_IsCoinbase (senderAddress t) then (simMap, Some 0)
      else if \<not> Transaction_Verify E tx then (simMap, None)
      else case BuildSpendAmount t of
        None \<Rightarrow> (fst (BalanceSheet_GetSimEntry s simMap (senderAddress t)), None)
      | Some spend \<Rightarrow>
          (let (sim1, ok1) = sim_debit s simMap (senderAddress t) spend in
           if \<not> ok1 then (sim1, None)
           else let (sim2, ok2) = sim_credit s sim1 (recipientAddress1 t) (amount1 t) in
                if \<not> ok2 then (sim2, None)
                else if amount2 t > 0 then
                  (let (sim3, ok3) = sim_credit s sim2 (recipientAddress2 t) (amount2 t) in
                   if \<not> ok3 then (sim3, None) else (sim3, Some (fee t)))
                else (sim2, Some (fee t))))"

fun select_loop ::
  "crypto_env \<Rightarrow> sheet \<Rightarrow> sheet_map \<Rightarrow> signed_transaction_t list \<Rightarrow> signed_transaction_t list \<Rightarrow> u64
     \<Rightarrow> signed_transaction_t list \<times> u64" where
  "select_loop E s simMap [] accepted totalFees = (accepted, totalFees)"
| "select_loop E s simMap (tx # txs) accepted totalFees =
     (if Address_IsCoinbase (senderAddress (transaction tx)) then select_loop E s simMap txs accepted totalFees
      else case BalanceSheet_ApplyCandidateTransaction E s simMap tx of
        (sim', None) \<Rightarrow> select_loop E s sim' txs accepted totalFees
      | (sim', Some f) \<Rightarrow> select_loop E s sim' txs (accepted @ [tx]) (totalFees + f))"

definition BalanceSheet_SelectSpendableTransactions ::
  "crypto_env \<Rightarrow> sheet \<Rightarrow> signed_transaction_t list \<Rightarrow> signed_transaction_t list \<times> u64" where
  "BalanceSheet_SelectSpendableTransactions E s candidates =
     (if candidates = [] then ([], 0) else select_loop E s (\<lambda>_. None) candidates [] 0)"

section \<open>Spending on the sheet\<close>

definition CreditAddress :: "sheet \<Rightarrow> address \<Rightarrow> u64 \<Rightarrow> sheet \<times> bool" where
  "CreditAddress s a amount =
     (if amount = 0 then (s, True)
      else case BalanceSheet_Lookup s a of
        Some entry \<Rightarrow>
          (let (b, overflow) = uint256_add_u64 (balance entry) amount in
           if overflow then (s, False)
           else let (s', ret) = BalanceSheet_Insert s (entry\<lparr> balance := b \<rparr>) in (s', ret \<ge> 0))
      | None \<Rightarrow>
          (let (s', ret) = BalanceSheet_Insert s ((fresh_entry a)\<lparr> balance := uint256_from_u64 amount \<rparr>)
           in (s', ret \<ge> 0)))"

definition DebitAddress :: "sheet \<Rightarrow> address \<Rightarrow> uint256_t \<Rightarrow> u64 \<Rightarrow> sheet \<times> bool" where
  "DebitAddress s a amount txTimestamp =
     (case BalanceSheet_Lookup s a of
        None \<Rightarrow> (s, False)
      | Some entry \<Rightarrow>
          if uint256_cmp (balance entry) amount < 0 then (s, False)
          else let (b, ok) = uint256_subtract (balance entry) amount in
               if \<not> ok then (s, False)
               else let entry' = entry\<lparr> balance := b,
                          lastTxTimestamp := (if txTimestamp > lastTxTimestamp entry then txTimestamp
                                              else lastTxTimestamp entry) \<rparr>;
                        (s', ret) = BalanceSheet_Insert s entry'
                    in (s', ret \<ge> 0))"

section \<open>Reading balances off a map\<close>

definition map_wf :: "sheet_map \<Rightarrow> bool" where
  "map_wf m \<longleftrightarrow> (\<forall>a e. m a = Some e \<longrightarrow> entry_address e = a)"

definition map_bal :: "sheet_map \<Rightarrow> balances" where
  "map_bal m a = (case m a of None \<Rightarrow> 0 | Some e \<Rightarrow> u256_val (balance e))"

definition sheet_inv :: "sheet \<Rightarrow> bool" where
  "sheet_inv s \<longleftrightarrow> (\<exists>m. s = Some m \<and> map_wf m)"

definition sheet_bal :: "sheet \<Rightarrow> balances" where
  "sheet_bal s = (case s of None \<Rightarrow> (\<lambda>_. 0) | Some m \<Rightarrow> map_bal m)"

definition last_ts :: "sheet \<Rightarrow> address \<Rightarrow> u64" where
  "last_ts s a = (case BalanceSheet_Lookup s a of None \<Rightarrow> 0 | Some e \<Rightarrow> lastTxTimestamp e)"

text \<open>The scratch copy reads through to the sheet.\<close>

definition sim_view :: "sheet \<Rightarrow> sheet_map \<Rightarrow> sheet_map" where
  "sim_view s simMap a = (case simMap a of Some e \<Rightarrow> Some e | None \<Rightarrow> BalanceSheet_Lookup s a)"

definition sim_inv :: "sheet \<Rightarrow> sheet_map \<Rightarrow> bool" where
  "sim_inv s simMap \<longleftrightarrow> map_wf (sim_view s simMap)"

definition sim_bal :: "sheet \<Rightarrow> sheet_map \<Rightarrow> balances" where
  "sim_bal s simMap = map_bal (sim_view s simMap)"

definition succeeded :: "'s \<times> bool \<Rightarrow> 's option" where
  "succeeded r = (if snd r then Some (fst r) else None)"

section \<open>Amounts\<close>

lemma BuildSpendAmount_val: "\<exists>v. BuildSpendAmount t = Some v \<and> u256_val v = spend_total t"
proof -
  let ?a = "uint256_add_u64 (uint256_from_u64 0) (amount1 t)"
  let ?b = "uint256_add_u64 (fst ?a) (amount2 t)"
  let ?c = "uint256_add_u64 (fst ?b) (fee t)"
  note lt = unat_lt_64 [of "amount1 t"] unat_lt_64 [of "amount2 t"] unat_lt_64 [of "fee t"]
  have big: "3 * 18446744073709551616 < TWO256" by (simp add: TWO256_def)
  have a: "u256_val (fst ?a) = unat (amount1 t)" "\<not> snd ?a"
    using uint256_add_u64_no_overflow [of "uint256_from_u64 0" "amount1 t"] lt big by simp_all
  have b: "u256_val (fst ?b) = unat (amount1 t) + unat (amount2 t)" "\<not> snd ?b"
    using uint256_add_u64_no_overflow [of "fst ?a" "amount2 t"] a lt big by simp_all
  have c: "u256_val (fst ?c) = spend_total t" "\<not> snd ?c"
    using uint256_add_u64_no_overflow [of "fst ?b" "fee t"] b lt big by (simp_all add: spend_total_def)
  have "BuildSpendAmount t = Some (fst ?c)"
    using a(2) b(2) c(2) by (simp add: BuildSpendAmount_def Let_def case_prod_unfold)
  with c(1) show ?thesis by blast
qed

lemma spend_total_pos: "amount1 t \<noteq> 0 \<Longrightarrow> 0 < spend_total t"
  by (simp add: spend_total_def unat_gt_0)

section \<open>Map updates\<close>

lemma map_wf_upd: "map_wf m \<Longrightarrow> map_wf (m(entry_address e \<mapsto> e))"
  by (auto simp: map_wf_def)

lemma map_bal_upd: "map_bal (m(a \<mapsto> e)) = (map_bal m)(a := u256_val (balance e))"
  by (auto simp: map_bal_def)

lemma sim_view_upd: "sim_view s (simMap(a \<mapsto> e)) = (sim_view s simMap)(a \<mapsto> e)"
  by (auto simp: sim_view_def)

lemma sim_view_empty [simp]: "sim_view s (\<lambda>_. None) = BalanceSheet_Lookup s"
  by (auto simp: sim_view_def)

lemma fresh_entry_simps [simp]:
  "entry_address (fresh_entry a) = a" "u256_val (balance (fresh_entry a)) = 0" "lastTxTimestamp (fresh_entry a) = 0"
  by (simp_all add: fresh_entry_def)

lemma GetSimEntry_view:
  assumes "sim_inv s simMap" and "BalanceSheet_GetSimEntry s simMap a = (sim1, e)"
  shows "entry_address e = a \<and> u256_val (balance e) = sim_bal s simMap a \<and> sim_inv s sim1 \<and>
    sim_bal s sim1 = sim_bal s simMap"
proof (cases "sim_view s simMap a")
  case None
  then have n: "simMap a = None" "BalanceSheet_Lookup s a = None"
    by (auto simp: sim_view_def split: option.splits)
  then have e: "sim1 = simMap(a \<mapsto> fresh_entry a)" "e = fresh_entry a"
    using assms(2) by (auto simp: BalanceSheet_GetSimEntry_def)
  have "sim_inv s sim1"
    using map_wf_upd [OF assms(1) [unfolded sim_inv_def], of "fresh_entry a"]
    by (simp add: sim_inv_def e sim_view_upd)
  moreover have "sim_bal s sim1 = sim_bal s simMap"
    using None by (auto simp: sim_bal_def e sim_view_upd map_bal_def)
  ultimately show ?thesis using None by (simp add: e sim_bal_def map_bal_def)
next
  case (Some e')
  then have e: "e = e'" "sim1 = simMap \<or> sim1 = simMap(a \<mapsto> e')"
    using assms(2) by (auto simp: BalanceSheet_GetSimEntry_def sim_view_def split: option.splits)
  then have "sim_view s sim1 = sim_view s simMap" using Some by (auto simp: sim_view_upd)
  then show ?thesis
    using Some e(1) assms(1) by (auto simp: sim_inv_def sim_bal_def map_bal_def map_wf_def)
qed

lemma StoreSimEntry_view:
  assumes "sim_inv s simMap"
  shows "sim_inv s (BalanceSheet_StoreSimEntry simMap e) \<and>
    sim_bal s (BalanceSheet_StoreSimEntry simMap e) = (sim_bal s simMap)(entry_address e := u256_val (balance e))"
  using assms map_wf_upd
  by (simp add: BalanceSheet_StoreSimEntry_def sim_inv_def sim_bal_def sim_view_upd map_bal_upd)

lemma sim_debit_view:
  assumes "sim_inv s simMap" and "sim_debit s simMap a v = (sim', ok)"
  shows "sim_inv s sim' \<and> (ok \<longleftrightarrow> u256_val v \<le> sim_bal s simMap a) \<and>
    sim_bal s sim' = (if ok then take_from (sim_bal s simMap) a (u256_val v) else sim_bal s simMap)"
proof -
  obtain sim1 e where g: "BalanceSheet_GetSimEntry s simMap a = (sim1, e)" by fastforce
  note v = GetSimEntry_view [OF assms(1) g]
  obtain b ok' where b: "uint256_subtract (balance e) v = (b, ok')" by fastforce
  then have sub: "ok' = (u256_val v \<le> u256_val (balance e))"
      "u256_val b = (if u256_val v \<le> u256_val (balance e) then u256_val (balance e) - u256_val v else u256_val (balance e))"
    using uint256_subtract_val [of "balance e" v] by simp_all
  have st: "sim_inv s (BalanceSheet_StoreSimEntry sim1 (e\<lparr>balance := b\<rparr>))"
      "sim_bal s (BalanceSheet_StoreSimEntry sim1 (e\<lparr>balance := b\<rparr>)) = (sim_bal s simMap)(a := u256_val b)"
    using StoreSimEntry_view [of s sim1 "e\<lparr>balance := b\<rparr>"] v by simp_all
  show ?thesis
    using assms(2) v sub st
    by (auto simp: sim_debit_def g b uint256_cmp_val take_from_def split: if_splits)
qed

lemma sim_credit_view:
  assumes "sim_inv s simMap" and "sim_credit s simMap a x = (sim', ok)"
  shows "sim_inv s sim' \<and> (ok \<longleftrightarrow> sim_bal s simMap a + unat x < TWO256) \<and>
    sim_bal s sim' = (if ok then add_to (sim_bal s simMap) a (unat x) else sim_bal s simMap)"
proof -
  obtain sim1 e where g: "BalanceSheet_GetSimEntry s simMap a = (sim1, e)" by fastforce
  note v = GetSimEntry_view [OF assms(1) g]
  obtain b ov where b: "uint256_add_u64 (balance e) x = (b, ov)" by fastforce
  have ov: "ov \<longleftrightarrow> \<not> u256_val (balance e) + unat x < TWO256"
    using uint256_add_u64_overflow_iff [of "balance e" x] b by auto
  have bv: "\<not> ov \<Longrightarrow> u256_val b = u256_val (balance e) + unat x"
    using uint256_add_u64_val [of "balance e" x] b by simp
  have st: "sim_inv s (BalanceSheet_StoreSimEntry sim1 (e\<lparr>balance := b\<rparr>))"
      "sim_bal s (BalanceSheet_StoreSimEntry sim1 (e\<lparr>balance := b\<rparr>)) = (sim_bal s simMap)(a := u256_val b)"
    using StoreSimEntry_view [of s sim1 "e\<lparr>balance := b\<rparr>"] v by simp_all
  show ?thesis
    using assms(2) v ov bv st by (auto simp: sim_credit_def g b add_to_def split: if_splits)
qed

interpretation sim_store: account_store "sim_inv s" "sim_bal s"
  "\<lambda>simMap a x. succeeded (sim_credit s simMap a x)" "\<lambda>simMap a v ts. succeeded (sim_debit s simMap a v)" for s
proof
  fix simMap simMap' :: sheet_map and a x v and ts :: u64
  assume inv: "sim_inv s simMap"
  show "\<exists>s'. succeeded (sim_credit s simMap a x) = Some s'" if "sim_bal s simMap a + unat x < TWO256"
    using sim_credit_view [OF inv, of a x] that by (cases "sim_credit s simMap a x") (auto simp: succeeded_def)
  show "sim_inv s simMap' \<and> sim_bal s simMap' = add_to (sim_bal s simMap) a (unat x)"
    if "succeeded (sim_credit s simMap a x) = Some simMap'"
    using sim_credit_view [OF inv, of a x] that
    by (cases "sim_credit s simMap a x") (auto simp: succeeded_def split: if_splits)
  show "(\<exists>s'. succeeded (sim_debit s simMap a v) = Some s') = (u256_val v \<le> sim_bal s simMap a)"
    using sim_debit_view [OF inv, of a v] by (cases "sim_debit s simMap a v") (auto simp: succeeded_def)
  show "sim_inv s simMap' \<and> sim_bal s simMap' = take_from (sim_bal s simMap) a (u256_val v)"
    if "succeeded (sim_debit s simMap a v) = Some simMap'"
    using sim_debit_view [OF inv, of a v] that
    by (cases "sim_debit s simMap a v") (auto simp: succeeded_def split: if_splits)
qed

section \<open>The sheet as an account store\<close>

lemma Lookup_Some [simp]: "BalanceSheet_Lookup (Some m) a = m a"
  by (simp add: BalanceSheet_Lookup_def)

lemma Lookup_initialised [simp]: "BalanceSheet_Lookup (Some m) = m"
  by (rule ext) simp

lemma Insert_Some:
  "BalanceSheet_Insert (Some m) e = (Some (m(entry_address e \<mapsto> e)), if m (entry_address e) = None then 1 else 0)"
  by (simp add: BalanceSheet_Insert_def BalanceSheet_InsertLocked_def)

lemma sheet_inv_upd: "map_wf m \<Longrightarrow> sheet_inv (Some (m(entry_address e \<mapsto> e)))"
  by (simp add: sheet_inv_def map_wf_upd)

lemma CreditAddress_view:
  assumes "sheet_inv s" and "CreditAddress s a x = (s', ok)"
  shows "sheet_inv s' \<and> (ok \<longleftrightarrow> sheet_bal s a + unat x < TWO256) \<and>
    sheet_bal s' = (if ok then add_to (sheet_bal s) a (unat x) else sheet_bal s)"
proof -
  obtain m where m: "s = Some m" "map_wf m" using assms(1) by (auto simp: sheet_inv_def)
  have x: "unat x < TWO256" using unat_lt_64 [of x] by (simp add: TWO256_def)
  show ?thesis
  proof (cases "x = 0")
    case True
    then show ?thesis
      using assms(2) m u256_val_bound
      by (auto simp: CreditAddress_def sheet_inv_def add_to_def sheet_bal_def map_bal_def TWO256_def split: option.splits)
  next
    case x0: False
    show ?thesis
    proof (cases "m a")
      case None
      then have "s' = Some (m(a \<mapsto> (fresh_entry a)\<lparr>balance := uint256_from_u64 x\<rparr>))" "ok"
        using assms(2) x0 by (auto simp: CreditAddress_def m Insert_Some)
      then show ?thesis
        using None x map_wf_upd [OF m(2), of "(fresh_entry a)\<lparr>balance := uint256_from_u64 x\<rparr>"]
        by (auto simp: sheet_inv_def sheet_bal_def m map_bal_upd add_to_def) (auto simp: map_bal_def)
    next
      case (Some e)
      obtain b ov where b: "uint256_add_u64 (balance e) x = (b, ov)" by fastforce
      have ov: "ov \<longleftrightarrow> \<not> u256_val (balance e) + unat x < TWO256"
        using uint256_add_u64_overflow_iff [of "balance e" x] b by auto
      have bv: "\<not> ov \<Longrightarrow> u256_val b = u256_val (balance e) + unat x"
        using uint256_add_u64_val [of "balance e" x] b by simp
      have ea: "entry_address e = a" using Some m(2) by (simp add: map_wf_def)
      have bal: "sheet_bal s a = u256_val (balance e)" by (simp add: sheet_bal_def m map_bal_def Some)
      show ?thesis
        using assms Some x0 ov bv bal sheet_inv_upd [OF m(2), of "e\<lparr>balance := b\<rparr>"] ea
        by (auto simp: CreditAddress_def m b Insert_Some sheet_bal_def map_bal_upd add_to_def split: if_splits)
    qed
  qed
qed

lemma DebitAddress_view:
  assumes "sheet_inv s" and "DebitAddress s a v ts = (s', ok)" and "0 < u256_val v"
  shows "sheet_inv s' \<and> (ok \<longleftrightarrow> u256_val v \<le> sheet_bal s a) \<and>
    sheet_bal s' = (if ok then take_from (sheet_bal s) a (u256_val v) else sheet_bal s)"
proof -
  obtain m where m: "s = Some m" "map_wf m" using assms(1) by (auto simp: sheet_inv_def)
  show ?thesis
  proof (cases "m a")
    case None
    then show ?thesis
      using assms by (auto simp: DebitAddress_def m sheet_bal_def map_bal_def)
  next
    case (Some e)
    obtain b ok' where b: "uint256_subtract (balance e) v = (b, ok')" by fastforce
    then have sub: "ok' = (u256_val v \<le> u256_val (balance e))"
        "u256_val b = (if u256_val v \<le> u256_val (balance e) then u256_val (balance e) - u256_val v else u256_val (balance e))"
      using uint256_subtract_val [of "balance e" v] by simp_all
    define e' where "e' = e\<lparr>balance := b, lastTxTimestamp := (if ts > lastTxTimestamp e then ts else lastTxTimestamp e)\<rparr>"
    have ea: "entry_address e = a" using Some m(2) by (simp add: map_wf_def)
    have e': "entry_address e' = a" "balance e' = b" using ea by (simp_all add: e'_def)
    have bal: "sheet_bal s a = u256_val (balance e)" by (simp add: sheet_bal_def m map_bal_def Some)
    have res: "DebitAddress s a v ts = (if u256_val v \<le> sheet_bal s a then (Some (m(a \<mapsto> e')), True) else (s, False))"
      using sub(1) Some bal e'
      by (auto simp: DebitAddress_def m b Insert_Some uint256_cmp_val Let_def e'_def [symmetric])
    show ?thesis
      using assms(2) res sub bal assms(1) sheet_inv_upd [OF m(2), of e'] e'
      by (auto simp: sheet_bal_def m map_bal_upd take_from_def split: if_splits)
  qed
qed

interpretation sheet_store: account_store sheet_inv sheet_bal
  "\<lambda>s a x. succeeded (CreditAddress s a x)" "\<lambda>s a v ts. succeeded (DebitAddress s a v ts)"
proof
  fix s s' a x v and ts :: u64
  assume inv: "sheet_inv s"
  show "\<exists>s'. succeeded (CreditAddress s a x) = Some s'" if "sheet_bal s a + unat x < TWO256"
    using CreditAddress_view [OF inv, of a x] that by (cases "CreditAddress s a x") (auto simp: succeeded_def)
  show "sheet_inv s' \<and> sheet_bal s' = add_to (sheet_bal s) a (unat x)"
    if "succeeded (CreditAddress s a x) = Some s'"
    using CreditAddress_view [OF inv, of a x] that
    by (cases "CreditAddress s a x") (auto simp: succeeded_def split: if_splits)
  show "(\<exists>s'. succeeded (DebitAddress s a v ts) = Some s') = (u256_val v \<le> sheet_bal s a)" if "0 < u256_val v"
    using DebitAddress_view [OF inv, of a v ts] that by (cases "DebitAddress s a v ts") (auto simp: succeeded_def)
  show "sheet_inv s' \<and> sheet_bal s' = take_from (sheet_bal s) a (u256_val v)"
    if "0 < u256_val v" "succeeded (DebitAddress s a v ts) = Some s'"
    using DebitAddress_view [OF inv, of a v ts] that
    by (cases "DebitAddress s a v ts") (auto simp: succeeded_def split: if_splits)
qed

section \<open>Selection of spendable transactions\<close>

text \<open>The greedy specification over abstract balances.\<close>

fun spec_select ::
  "crypto_env \<Rightarrow> balances \<Rightarrow> signed_transaction_t list \<Rightarrow> signed_transaction_t list \<times> balances" where
  "spec_select E b [] = ([], b)"
| "spec_select E b (tx # txs) =
     (if \<not> Address_IsCoinbase (senderAddress (transaction tx)) \<and> Transaction_Verify E tx \<and> covered b (transaction tx)
      then let (acc, b') = spec_select E (apply_transfer b (transaction tx)) txs in (tx # acc, b')
      else spec_select E b txs)"

lemma ApplyCandidate_refines:
  assumes "sim_inv s simMap" "finite_balances (sim_bal s simMap)" "total_balance (sim_bal s simMap) < TWO256"
    and "\<not> Address_IsCoinbase (senderAddress (transaction tx))"
    and "BalanceSheet_ApplyCandidateTransaction E s simMap tx = (sim', r)"
  shows "sim_inv s sim' \<and>
    (if Transaction_Verify E tx \<and> covered (sim_bal s simMap) (transaction tx)
     then r = Some (fee (transaction tx)) \<and> sim_bal s sim' = apply_transfer (sim_bal s simMap) (transaction tx)
     else r = None \<and> sim_bal s sim' = sim_bal s simMap)"
proof (cases "Transaction_Verify E tx")
  case False
  then show ?thesis
    using assms by (auto simp: BalanceSheet_ApplyCandidateTransaction_def Let_def)
next
  case ver: True
  let ?t = "transaction tx" and ?b = "sim_bal s simMap"
  obtain v where v: "BuildSpendAmount ?t = Some v" "u256_val v = spend_total ?t" using BuildSpendAmount_val by blast
  obtain sim1 ok1 where d: "sim_debit s simMap (senderAddress ?t) v = (sim1, ok1)" by fastforce
  note dv = sim_debit_view [OF assms(1) d]
  show ?thesis
  proof (cases "covered ?b ?t")
    case False
    then have "\<not> ok1" using dv assms(4) v(2) by (simp add: covered_def)
    then show ?thesis
      using assms(4,5) False ver v(1) d dv
      by (auto simp: BalanceSheet_ApplyCandidateTransaction_def Let_def)
  next
    case True
    then have le: "spend_total ?t \<le> ?b (senderAddress ?t)" using assms(4) by (simp add: covered_def)
    then obtain s1 s' where r1: "succeeded (sim_debit s simMap (senderAddress ?t) v) = Some s1"
        and r2: "sim_store.pay s s1 ?t = Some s'"
      using sim_store.debit_pay [OF assms(1-3) v(2) Transaction_Verify_amount1 [OF ver]] by blast
    have "0 < u256_val v" using v(2) spend_total_pos Transaction_Verify_amount1 [OF ver] by simp
    from sim_store.debit_bal [OF assms(1) this r1] sim_store.pay_bal [OF _ r2]
    have fin: "sim_inv s s' \<and> sim_bal s s' = apply_transfer ?b ?t"
      using assms(4) by (simp add: apply_transfer_def v(2))
    have "BalanceSheet_ApplyCandidateTransaction E s simMap tx = (s', Some (fee ?t))"
      using r1 r2 [unfolded sim_store.pay_def] assms(4) ver v(1)
      by (auto simp: BalanceSheet_ApplyCandidateTransaction_def succeeded_def Let_def
          case_prod_unfold split: if_splits option.splits)
    then show ?thesis using fin assms(5) True ver by simp
  qed
qed

lemma total_apply_transfer_le:
  "finite_balances b \<Longrightarrow> covered b t \<Longrightarrow> \<not> Address_IsCoinbase (senderAddress t) \<Longrightarrow>
     total_balance (apply_transfer b t) \<le> total_balance b"
  using total_apply_transfer [of b t] by simp

definition fees_of :: "signed_transaction_t list \<Rightarrow> nat" where
  "fees_of txs = (\<Sum>tx\<leftarrow>txs. unat (fee (transaction tx)))"

lemma select_loop_refines:
  assumes "sim_inv s simMap" "finite_balances (sim_bal s simMap)" "total_balance (sim_bal s simMap) < TWO256"
  shows "select_loop E s simMap txs accepted totalFees =
    (accepted @ fst (spec_select E (sim_bal s simMap) txs),
     totalFees + of_nat (fees_of (fst (spec_select E (sim_bal s simMap) txs))))"
  using assms
proof (induction txs arbitrary: simMap accepted totalFees)
  case Nil
  then show ?case by (simp add: fees_of_def)
next
  case (Cons tx txs)
  let ?b = "sim_bal s simMap" and ?t = "transaction tx"
  show ?case
  proof (cases "Address_IsCoinbase (senderAddress ?t)")
    case True
    then show ?thesis using Cons by simp
  next
    case nc: False
    obtain sim' r where ap: "BalanceSheet_ApplyCandidateTransaction E s simMap tx = (sim', r)" by fastforce
    note rf = ApplyCandidate_refines [OF Cons.prems nc ap]
    show ?thesis
    proof (cases "Transaction_Verify E tx \<and> covered ?b ?t")
      case True
      then have b': "sim_bal s sim' = apply_transfer ?b ?t" "sim_inv s sim'" "r = Some (fee ?t)" using rf by simp_all
      have "finite_balances (sim_bal s sim')" "total_balance (sim_bal s sim') < TWO256"
        using total_apply_transfer_le [of ?b ?t] Cons.prems True nc unfolding b'(1) by simp_all
      from Cons.IH [OF b'(2) this] show ?thesis
        using True nc ap b' by (simp add: fees_of_def case_prod_unfold Let_def)
    next
      case False
      then have b': "sim_bal s sim' = ?b" "sim_inv s sim'" "r = None" using rf by (auto split: if_splits)
      show ?thesis
        using Cons.IH [OF b'(2)] Cons.prems False nc ap b' by auto
    qed
  qed
qed

lemma SelectSpendable_refines:
  assumes "sheet_inv s" "finite_balances (sheet_bal s)" "total_balance (sheet_bal s) < TWO256"
  shows "BalanceSheet_SelectSpendableTransactions E s candidates =
    (fst (spec_select E (sheet_bal s) candidates), of_nat (fees_of (fst (spec_select E (sheet_bal s) candidates))))"
proof -
  have "sim_bal s (\<lambda>_. None) = sheet_bal s" "sim_inv s (\<lambda>_. None)"
    using assms(1) by (auto simp: sim_bal_def sim_inv_def sheet_bal_def sheet_inv_def BalanceSheet_Lookup_def)
  then show ?thesis
    using select_loop_refines [of s "\<lambda>_. None" E candidates "[]" 0] assms(2,3)
    by (auto simp: BalanceSheet_SelectSpendableTransactions_def fees_of_def)
qed

lemma spec_select_length: "length (fst (spec_select E b txs)) \<le> length (filter (\<lambda>tx. \<not> Address_IsCoinbase (senderAddress (transaction tx))) txs)"
  by (induction E b txs rule: spec_select.induct) (auto simp: Let_def case_prod_unfold)

text \<open>When nothing was refused, the whole list of spends is covered in order.\<close>

lemma spec_select_all:
  assumes "length (fst (spec_select E b txs)) = length (filter (\<lambda>tx. \<not> Address_IsCoinbase (senderAddress (transaction tx))) txs)"
  shows "fst (spec_select E b txs) = filter (\<lambda>tx. \<not> Address_IsCoinbase (senderAddress (transaction tx))) txs \<and>
    (\<exists>b'. spec_block b (map transaction (filter (\<lambda>tx. \<not> Address_IsCoinbase (senderAddress (transaction tx))) txs)) = Some b')"
  using assms
proof (induction txs arbitrary: b)
  case (Cons tx txs)
  show ?case
  proof (cases "Address_IsCoinbase (senderAddress (transaction tx))")
    case True
    then show ?thesis using Cons by simp
  next
    case False
    have "Transaction_Verify E tx \<and> covered b (transaction tx)"
    proof (rule ccontr)
      assume "\<not> (Transaction_Verify E tx \<and> covered b (transaction tx))"
      then show False using Cons.prems spec_select_length [of E b txs] False by (auto split: if_splits)
    qed
    then show ?thesis
      using Cons.IH [of "apply_transfer b (transaction tx)"] Cons.prems False
      by (auto simp: Let_def case_prod_unfold)
  qed
qed simp

section \<open>Files round trip\<close>

definition entry_wf :: "balance_sheet_entry_t \<Rightarrow> bool" where
  "entry_wf e \<longleftrightarrow> length (entry_address e) = 32"

lemma entry_image_roundtrip: "entry_wf e \<Longrightarrow> entry_of_image (entry_image e) = e"
  by (cases "balance e")
    (simp add: entry_wf_def entry_of_image_def entry_image_def read_u64_def bytes_at_simps u64_image)

interpretation entry_codec: byte_codec entry_image entry_of_image entry_wf 72
proof
  fix e
  assume "entry_wf e"
  then show "length (entry_image e) = 72"
    by (cases "balance e") (simp add: entry_wf_def entry_image_def)
qed (rule entry_image_roundtrip)

definition sheet_put :: "sheet_map \<Rightarrow> balance_sheet_entry_t \<Rightarrow> sheet_map" where
  "sheet_put m e = the (fst (BalanceSheet_InsertLocked (Some m) e))"

interpretation sheet_keys: keyed_map entry_address sheet_put "\<lambda>m a. BalanceSheet_Lookup (Some m) a"
  by unfold_locales (simp add: sheet_put_def BalanceSheet_InsertLocked_def)

lemma Insert_put:
  "fst (BalanceSheet_InsertLocked (Some m) e) = Some (sheet_put m e) \<and> 0 \<le> snd (BalanceSheet_InsertLocked (Some m) e)"
  by (simp add: sheet_put_def BalanceSheet_InsertLocked_def)

lemma load_entries_images:
  "\<forall>e\<in>set es. entry_wf e \<Longrightarrow> load_entries (concat (map entry_image es)) (Some m) = (Some (foldl sheet_put m es), True)"
proof (induction es arbitrary: m)
  case Nil
  then show ?case by (simp add: load_entries.simps)
next
  case (Cons e es)
  then have "length (entry_image e) = 72" "entry_of_image (entry_image e) = e"
    using entry_codec.image_length entry_codec.dec_image by auto
  then show ?case
    using Cons Insert_put [of m e] by (subst load_entries.simps) (auto simp: Let_def case_prod_unfold)
qed

lemma write_entries_all: "write_entries wr i es = (bytes, True) \<Longrightarrow> bytes = concat (map entry_image es)"
  by (induction es arbitrary: i bytes) (auto split: if_splits prod.splits)

lemma map_filter_dom: "set order = dom m \<Longrightarrow> List.map_filter m order = map (the \<circ> m) order"
proof -
  assume "set order = dom m"
  then have "\<forall>a\<in>set order. m a \<noteq> None" by auto
  then show ?thesis by (induction order) (auto simp: map_filter_simps)
qed

lemma save_as_entries:
  assumes "set order = dom m" "BalanceSheet_SaveToFile io file (Some m) order = (file', True)"
  shows "file' = Some (concat (map entry_image (map (the \<circ> m) order)))"
  using assms(2) write_entries_all [of "sheet_written io" 0 "map (the \<circ> m) order"]
  by (simp add: BalanceSheet_SaveToFile_def map_filter_dom [OF assms(1)] split: if_splits prod.splits)

lemma save_succeeds:
  "sheet_opens io \<Longrightarrow> \<forall>i. sheet_written io i \<Longrightarrow> s \<noteq> None \<Longrightarrow> snd (BalanceSheet_SaveToFile io file s order)"
proof -
  assume a: "sheet_opens io" "\<forall>i. sheet_written io i" "s \<noteq> None"
  have "snd (write_entries (sheet_written io) i es)" for i es
    using a(2) by (induction es arbitrary: i) (simp_all add: case_prod_unfold)
  then show ?thesis using a(1,3) by (auto simp: BalanceSheet_SaveToFile_def case_prod_unfold)
qed

section \<open>Properties\<close>

text \<open>A sheet with one funded account, for concrete instances.\<close>

definition demo_sheet :: sheet where
  "demo_sheet = Some (\<lambda>a. if a = replicate 32 2
     then Some \<lparr> entry_address = replicate 32 2, balance = uint256_from_u64 100, lastTxTimestamp = 3 \<rparr> else None)"

lemma demo_sheet_facts:
  "sheet_inv demo_sheet" "finite_balances (sheet_bal demo_sheet)" "total_balance (sheet_bal demo_sheet) < TWO256"
proof -
  show "sheet_inv demo_sheet" by (auto simp: sheet_inv_def demo_sheet_def map_wf_def)
  have b: "sheet_bal demo_sheet = (\<lambda>_. 0)(replicate 32 2 := 100)"
    by (auto simp: sheet_bal_def demo_sheet_def map_bal_def)
  show f: "finite_balances (sheet_bal demo_sheet)" unfolding b by (rule finite_balances_upd) (simp add: finite_balances_def)
  have "total_balance (\<lambda>_. 0) = 0" by (simp add: total_balance_def)
  then show "total_balance (sheet_bal demo_sheet) < TWO256"
    using total_balance_upd [of "\<lambda>_. 0" "replicate 32 2" 100] unfolding b
    by (simp add: finite_balances_def TWO256_def)
qed

text \<open>
  The selection of spendable transactions on the scratch copy is the greedy choice over abstract
  balances: a candidate is taken exactly when it is not a coinbase, verifies, and its amounts plus fee
  are covered by the sender's balance after the candidates taken before it; a refused candidate leaves
  every balance as it was, and the reported fee total is the sum of the fees taken, modulo 2^64.
\<close>

lemma SelectSpendable_greedy:
  assumes "sheet_inv s" and "finite_balances (sheet_bal s)" and "total_balance (sheet_bal s) < TWO256"
  shows "BalanceSheet_SelectSpendableTransactions E s candidates =
    (let accepted = fst (spec_select E (sheet_bal s) candidates)
     in (accepted, of_nat (\<Sum>tx\<leftarrow>accepted. unat (fee (transaction tx)))))"
  using SelectSpendable_refines [OF assms] by (simp add: Let_def fees_of_def)

text \<open>
  When writing the sheet to disk reports success, in whatever bucket order the hash map walks, loading the
  file into a fresh sheet gives back the same map, balances and replay guards included.
\<close>

lemma BalanceSheet_save_load:
  assumes "map_wf m" and "\<forall>a\<in>dom m. length a = 32" and "set order = dom m"
    and "BalanceSheet_SaveToFile io file (Some m) order = (file', True)"
  shows "BalanceSheet_LoadFromFile BalanceSheet_Init file' = (Some m, True)"
proof -
  define es where "es = map (the \<circ> m) order"
  have in_m: "\<forall>e\<in>set es. m (entry_address e) = Some e"
    using assms(1,3) by (force simp: es_def map_wf_def domIff)
  then have wf: "\<forall>e\<in>set es. entry_wf e" using assms(2) by (auto simp: entry_wf_def)
  have dom: "entry_address ` set es = dom m"
    using assms(1,3) by (force simp: es_def map_wf_def image_iff domIff)
  have "foldl sheet_put (\<lambda>_. None) es a = m a" for a
  proof (cases "\<exists>e\<in>set es. entry_address e = a")
    case True
    from sheet_keys.look_foldl_hit [OF this, of "\<lambda>_. None"] show ?thesis using in_m by auto
  next
    case False
    then have "m a = None" using dom by (metis domIff image_iff)
    then show ?thesis using sheet_keys.look_foldl_other [of es a "\<lambda>_. None"] False by auto
  qed
  then have "foldl sheet_put (\<lambda>_. None) es = m" by blast
  then show ?thesis
    using load_entries_images [OF wf, of "\<lambda>_. None"]
    by (simp add: BalanceSheet_LoadFromFile_def BalanceSheet_Init_def save_as_entries [OF assms(3,4)] es_def [symmetric])
qed

end
