(* ===== verification/Tx_Mempool.thy ===== *)
theory Tx_Mempool
  imports Transaction
begin

text \<open>
  The transaction pool of \<^verbatim>\<open>src/txmempool.c\<close>: a hash map from transaction hashes to transactions, its
  admission policy against the node's clock and the expiry sweep. Walks over the map take the bucket
  order of khash as an argument.
\<close>

section \<open>Definitions\<close>

type_synonym pool_map = "byte list \<rightharpoonup> signed_transaction_t"

text \<open>\<open>None\<close> is the NULL map before \<^verbatim>\<open>TxMempool_Init\<close> and after \<^verbatim>\<open>TxMempool_Destroy\<close>.\<close>

type_synonym pool = "pool_map option"

definition TX_MAX_FUTURE_DRIFT_MS :: u64 where "TX_MAX_FUTURE_DRIFT_MS = 2 * 60 * 60 * 1000"
definition TX_EXPIRY_MS :: u64 where "TX_EXPIRY_MS = 4 * 24 * 60 * 60 * 1000"

definition TxMempool_Init :: pool where
  "TxMempool_Init = Some (\<lambda>_. None)"

definition TxMempool_Destroy :: "pool \<Rightarrow> pool" where
  "TxMempool_Destroy p = None"

definition TxMempool_PolicyAccepts :: "signed_transaction_t \<Rightarrow> u64 \<Rightarrow> bool" where
  "TxMempool_PolicyAccepts tx nowMs =
     (let ts = tx_timestamp (transaction tx) in
      if ts > nowMs \<and> ts - nowMs > TX_MAX_FUTURE_DRIFT_MS then False
      else if nowMs > ts \<and> nowMs - ts > TX_EXPIRY_MS then False
      else True)"

definition expired :: "u64 \<Rightarrow> signed_transaction_t \<Rightarrow> bool" where
  "expired nowMs tx =
     (let ts = tx_timestamp (transaction tx) in nowMs > ts \<and> nowMs - ts > TX_EXPIRY_MS)"

fun prune_loop :: "u64 \<Rightarrow> byte list list \<Rightarrow> pool_map \<Rightarrow> nat \<Rightarrow> pool_map \<times> nat" where
  "prune_loop nowMs [] m removed = (m, removed)"
| "prune_loop nowMs (k # ks) m removed =
     (case m k of
        None \<Rightarrow> prune_loop nowMs ks m removed
      | Some tx \<Rightarrow>
          if expired nowMs tx then prune_loop nowMs ks (m(k := None)) (removed + 1)
          else prune_loop nowMs ks m removed)"

definition TxMempool_PruneExpired :: "pool \<Rightarrow> byte list list \<Rightarrow> u64 \<Rightarrow> pool \<times> nat" where
  "TxMempool_PruneExpired p order nowMs =
     (case p of
        None \<Rightarrow> (None, 0)
      | Some m \<Rightarrow> (let (m', removed) = prune_loop nowMs order m 0 in (Some m', removed)))"

text \<open>
  The return value of \<^verbatim>\<open>kh_put\<close> is 0 for a key that was present and positive for a new one (1 or 2 by
  the history of the bucket, a difference no caller looks at; the model says 1).
\<close>

definition TxMempool_Insert :: "crypto_env \<Rightarrow> pool \<Rightarrow> signed_transaction_t \<Rightarrow> pool \<times> int" where
  "TxMempool_Insert E p tx =
     (case p of
        None \<Rightarrow> (None, - 1)
      | Some m \<Rightarrow>
          (let txHash = Transaction_CalculateHash E tx
           in (Some (m(txHash \<mapsto> tx)), if m txHash = None then 1 else 0)))"

definition TxMempool_Lookup :: "pool \<Rightarrow> byte list \<Rightarrow> signed_transaction_t option" where
  "TxMempool_Lookup p txHash = (case p of None \<Rightarrow> None | Some m \<Rightarrow> m txHash)"

definition TxMempool_Snapshot :: "pool \<Rightarrow> byte list list \<Rightarrow> signed_transaction_t list" where
  "TxMempool_Snapshot p order =
     (case p of None \<Rightarrow> [] | Some m \<Rightarrow> List.map_filter m order)"

definition TxMempool_Remove :: "pool \<Rightarrow> byte list \<Rightarrow> pool \<times> bool" where
  "TxMempool_Remove p txHash =
     (case p of
        None \<Rightarrow> (None, False)
      | Some m \<Rightarrow> if m txHash = None then (p, False) else (Some (m(txHash := None)), True))"

section \<open>Invariant: every transaction is stored under its hash\<close>

definition pool_wf :: "crypto_env \<Rightarrow> pool \<Rightarrow> bool" where
  "pool_wf E p \<longleftrightarrow> (\<forall>h tx. TxMempool_Lookup p h = Some tx \<longrightarrow> Transaction_CalculateHash E tx = h)"

lemma lookup_insert:
  "p \<noteq> None \<Longrightarrow> TxMempool_Lookup (fst (TxMempool_Insert E p tx)) h =
     (if h = Transaction_CalculateHash E tx then Some tx else TxMempool_Lookup p h)"
  by (auto simp: TxMempool_Lookup_def TxMempool_Insert_def Let_def split: option.splits)

lemma lookup_remove:
  "TxMempool_Lookup (fst (TxMempool_Remove p h)) h' = (if h' = h then None else TxMempool_Lookup p h')"
  by (auto simp: TxMempool_Lookup_def TxMempool_Remove_def split: option.splits)

text \<open>An initialised pool is a keyed map; the operations on \<open>Some m\<close> are those of the C code.\<close>

definition pool_put :: "crypto_env \<Rightarrow> pool_map \<Rightarrow> signed_transaction_t \<Rightarrow> pool_map" where
  "pool_put E m tx = the (fst (TxMempool_Insert E (Some m) tx))"

interpretation mempool: keyed_map "Transaction_CalculateHash E" "pool_put E" "\<lambda>m h. TxMempool_Lookup (Some m) h" for E
  by unfold_locales (simp add: pool_put_def TxMempool_Insert_def TxMempool_Lookup_def Let_def)

lemma TxMempool_Insert_put: "fst (TxMempool_Insert E (Some m) tx) = Some (pool_put E m tx)"
  by (simp add: pool_put_def TxMempool_Insert_def Let_def)

lemma pool_wf_insert: "pool_wf E p \<Longrightarrow> pool_wf E (fst (TxMempool_Insert E p tx))"
  by (cases p) (auto simp: pool_wf_def TxMempool_Insert_def TxMempool_Lookup_def Let_def)

lemma pool_wf_remove: "pool_wf E p \<Longrightarrow> pool_wf E (fst (TxMempool_Remove p h))"
  by (auto simp: pool_wf_def lookup_remove split: if_splits)

section \<open>The expiry sweep\<close>

lemma prune_loop_lookup:
  "fst (prune_loop nowMs ks m n) h =
     (case m h of None \<Rightarrow> None | Some tx \<Rightarrow> if h \<in> set ks \<and> expired nowMs tx then None else Some tx)"
proof (induction ks arbitrary: m n)
  case Nil
  then show ?case by (simp split: option.splits)
next
  case (Cons k ks)
  show ?case
  proof (cases "\<exists>tx. m k = Some tx \<and> expired nowMs tx")
    case True
    define m' where "m' = m(k := None)"
    have "prune_loop nowMs (k # ks) m n = prune_loop nowMs ks m' (n + 1)" using True by (auto simp: m'_def)
    moreover have "m' h = (if h = k then None else m h)" by (simp add: m'_def)
    ultimately show ?thesis using Cons.IH [of m' "n + 1"] True by (auto split: option.splits)
  next
    case False
    then have "prune_loop nowMs (k # ks) m n = prune_loop nowMs ks m n" by (auto split: option.splits)
    then show ?thesis using Cons.IH [of m n] False by (auto split: option.splits)
  qed
qed

lemma prune_loop_count:
  "distinct ks \<Longrightarrow> snd (prune_loop nowMs ks m n) =
     n + length (filter (\<lambda>k. \<exists>tx. m k = Some tx \<and> expired nowMs tx) ks)"
proof (induction ks arbitrary: m n)
  case (Cons k ks)
  have "filter (\<lambda>k'. \<exists>tx. (m(k := None)) k' = Some tx \<and> expired nowMs tx) ks
      = filter (\<lambda>k. \<exists>tx. m k = Some tx \<and> expired nowMs tx) ks"
    using Cons.prems by (intro filter_cong) auto
  then show ?case using Cons by (auto split: option.splits)
qed simp

section \<open>Clock arithmetic\<close>

lemma later_by_iff:
  "(a :: u64) > b \<and> a - b > d \<longleftrightarrow> unat a > unat b + unat d"
proof (cases "b < a")
  case True
  then have "unat (a - b) = unat a - unat b" by (simp add: unat_sub)
  then show ?thesis using True by (auto simp: word_less_nat_alt)
next
  case False
  then show ?thesis by (auto simp: word_less_nat_alt)
qed

lemma expired_iff: "expired nowMs tx \<longleftrightarrow> unat (tx_timestamp (transaction tx)) + 345600000 < unat nowMs"
  by (simp add: expired_def Let_def later_by_iff TX_EXPIRY_MS_def)

lemma policy_not_expired: "TxMempool_PolicyAccepts tx nowMs \<Longrightarrow> \<not> expired nowMs tx"
  by (auto simp: TxMempool_PolicyAccepts_def expired_def Let_def split: if_splits)

section \<open>Properties\<close>

text \<open>
  The admission policy accepts a transaction exactly when its timestamp is at most two hours ahead
  of the clock and at most four days behind it, for all 64-bit clock and timestamp values (the unsigned
  subtractions never wrap).
\<close>

lemma PolicyAccepts_window:
  "TxMempool_PolicyAccepts tx nowMs \<longleftrightarrow>
     unat (tx_timestamp (transaction tx)) \<le> unat nowMs + 7200000 \<and>
     unat nowMs \<le> unat (tx_timestamp (transaction tx)) + 345600000"
  unfolding TxMempool_PolicyAccepts_def Let_def later_by_iff
  by (simp add: TX_EXPIRY_MS_def TX_MAX_FUTURE_DRIFT_MS_def not_less)

text \<open>
  The expiry sweep removes exactly the transactions more than four days old, keeps every other one
  under its hash, and returns how many it removed, whatever the bucket order; in particular what the
  admission policy accepts at the same clock reading survives the sweep.
\<close>

lemma PruneExpired_exact:
  assumes "set order = dom m" and "distinct order"
    and "TxMempool_PruneExpired (Some m) order nowMs = (p', removed)"
  shows "(\<forall>h. TxMempool_Lookup p' h =
           (case m h of None \<Rightarrow> None
            | Some tx \<Rightarrow> if unat (tx_timestamp (transaction tx)) + 345600000 < unat nowMs then None else Some tx)) \<and>
    removed = card {h \<in> dom m. TxMempool_Lookup p' h = None} \<and>
    (\<forall>h tx. m h = Some tx \<and> TxMempool_PolicyAccepts tx nowMs \<longrightarrow> TxMempool_Lookup p' h = Some tx)"
proof -
  have p': "p' = Some (fst (prune_loop nowMs order m 0))" "removed = snd (prune_loop nowMs order m 0)"
    using assms(3) by (auto simp: TxMempool_PruneExpired_def Let_def case_prod_unfold)
  have look: "TxMempool_Lookup p' h =
      (case m h of None \<Rightarrow> None | Some tx \<Rightarrow> if expired nowMs tx then None else Some tx)" for h
    using assms(1) by (auto simp: p'(1) TxMempool_Lookup_def prune_loop_lookup split: option.splits)
  have "removed = card (set (filter (\<lambda>k. \<exists>tx. m k = Some tx \<and> expired nowMs tx) order))"
    using prune_loop_count [OF assms(2)] assms(2) p'(2) by (simp add: distinct_card del: set_filter)
  also have "set (filter (\<lambda>k. \<exists>tx. m k = Some tx \<and> expired nowMs tx) order) = {h \<in> dom m. TxMempool_Lookup p' h = None}"
    using assms(1) look by (auto split: option.splits if_splits)
  finally have count: "removed = card {h \<in> dom m. TxMempool_Lookup p' h = None}" .
  have keep: "TxMempool_Lookup p' h = Some tx" if "m h = Some tx" "TxMempool_PolicyAccepts tx nowMs" for h tx
    using that look [of h] policy_not_expired by simp
  show ?thesis
    using look count keep unfolding expired_iff by blast
qed

end
