(* ===== verification/Chain_Node.thy ===== *)
theory Chain_Node
  imports Chain_Consensus Balance_Sheet Tx_Mempool
begin

text \<open>
  The node state around the chain and the operations of \<^verbatim>\<open>src/block/chain.c\<close> that change it: appending a
  block, rolling back, replacing a branch, wiping, and recomputing the runtime globals. Each C function
  becomes a function from the state to the state and its return value; locks are not modelled, since
  every one of these functions runs under the write lock from start to end. Blocks are values, so the
  ownership of their transaction vectors (which the source documents at length) is not modelled either.
\<close>

section \<open>State\<close>

text \<open>
  \<open>disk i\<close> is what \<^verbatim>\<open>Chain_LoadBlockFromFile\<close> returns, transactions included, for block \<open>i\<close> of the data
  directory (\<open>None\<close> when it fails).
\<close>

record node_state =
  g_chain :: blockchain_t
  g_currentSupply :: uint256_t
  g_currentReward :: u64
  g_currentBlockHeight :: u64
  g_difficultyTarget :: u32
  g_sheetMap :: sheet
  g_txMempool :: pool
  g_pow :: pow_ctx
  disk :: "nat \<Rightarrow> block_t option"

definition Chain_OnTipAdvanced :: "node_state \<Rightarrow> node_state" where
  "Chain_OnTipAdvanced st =
     st\<lparr> g_difficultyTarget := Chain_GetTargetForHeight (g_chain st) (Chain_Size (g_chain st)) \<rparr>"

definition Chain_Wipe :: "node_state \<Rightarrow> node_state" where
  "Chain_Wipe st =
     st\<lparr> g_chain := Chain_ClearBlocks (g_chain st), g_currentBlockHeight := 0,
         g_difficultyTarget := INITIAL_DIFFICULTY \<rparr>"

text \<open>The node as \<^verbatim>\<open>main\<close> brings it up without stored data, and the \<^verbatim>\<open>wipechain\<close> command.\<close>

definition fresh_node :: node_state where
  "fresh_node = \<lparr> g_chain = Chain_Create, g_currentSupply = uint256_from_u64 0,
     g_currentReward = fst (CalculateBlockRewardAtHeight (uint256_from_u64 0) (of_nat (Chain_Size Chain_Create)) 750000000000),
     g_currentBlockHeight = 0, g_difficultyTarget = INITIAL_DIFFICULTY, g_sheetMap = BalanceSheet_Init,
     g_txMempool = TxMempool_Init, g_pow = pow_initial, disk = (\<lambda>_. None) \<rparr>"

definition wipechain :: "node_state \<Rightarrow> node_state" where
  "wipechain st =
     (let st1 = Chain_Wipe (st\<lparr> disk := (\<lambda>_. None) \<rparr>)
      in st1\<lparr> g_sheetMap := BalanceSheet_Init, g_currentSupply := uint256_from_u64 0,
              g_difficultyTarget := INITIAL_DIFFICULTY,
              g_currentReward := fst (CalculateBlockRewardAtHeight (uint256_from_u64 0)
                                        (of_nat (Chain_Size (g_chain st1))) (g_currentReward st1)) \<rparr>)"

text \<open>Blocks whose transactions were dropped from memory are read back from disk.\<close>

definition Chain_BorrowBlockTransactions :: "node_state \<Rightarrow> nat \<Rightarrow> block_t option" where
  "Chain_BorrowBlockTransactions st index =
     (case vec_get (blocks (g_chain st)) index of
        Some blk \<Rightarrow> (if transactions blk \<noteq> None then Some blk else disk st index)
      | None \<Rightarrow> disk st index)"

section \<open>Replay guard\<close>

text \<open>The latest timestamp seen for the sender of \<open>t\<close>: its sheet entry, then earlier spends of the block.\<close>

definition baseline :: "sheet \<Rightarrow> transaction_t \<Rightarrow> u64" where
  "baseline s t = (case BalanceSheet_Lookup s (senderAddress t) of None \<Rightarrow> 0 | Some e \<Rightarrow> lastTxTimestamp e)"

fun fold_earlier :: "signed_transaction_t list \<Rightarrow> transaction_t \<Rightarrow> u64 \<Rightarrow> u64" where
  "fold_earlier [] t lastSeen = lastSeen"
| "fold_earlier (prev # prevs) t lastSeen =
     (let p = transaction prev in
      if Address_IsCoinbase (senderAddress p) then fold_earlier prevs t lastSeen
      else if senderAddress p \<noteq> senderAddress t then fold_earlier prevs t lastSeen
      else fold_earlier prevs t (if tx_timestamp p > lastSeen then tx_timestamp p else lastSeen))"

fun ordering_loop :: "sheet \<Rightarrow> signed_transaction_t list \<Rightarrow> signed_transaction_t list \<Rightarrow> bool" where
  "ordering_loop s earlier [] = True"
| "ordering_loop s earlier (tx # txs) =
     (let t = transaction tx in
      if Address_IsCoinbase (senderAddress t) then ordering_loop s (earlier @ [tx]) txs
      else if tx_timestamp t \<le> fold_earlier earlier t (baseline s t) then False
      else ordering_loop s (earlier @ [tx]) txs)"

definition Chain_BlockRespectsSenderOrdering :: "sheet \<Rightarrow> block_t \<Rightarrow> bool" where
  "Chain_BlockRespectsSenderOrdering s block =
     (case transactions block of None \<Rightarrow> False | Some txs \<Rightarrow> ordering_loop s [] txs)"

section \<open>Appending a block\<close>

text \<open>The second pass of \<^verbatim>\<open>Chain_AddBlockLocked\<close>, one transaction.\<close>

definition ledger_credit :: "sheet \<Rightarrow> transaction_t \<Rightarrow> sheet \<times> bool" where
  "ledger_credit s t =
     (let (s1, ok1) = CreditAddress s (recipientAddress1 t) (amount1 t) in
      if \<not> ok1 then (s1, False)
      else if amount2 t > 0 then
        (if recipientAddress2 t = zeroAddress then (s1, False)
         else CreditAddress s1 (recipientAddress2 t) (amount2 t))
      else (s1, True))"

definition ledger_tx :: "sheet \<Rightarrow> transaction_t \<Rightarrow> sheet \<times> bool" where
  "ledger_tx s t =
     (if \<not> Address_IsCoinbase (senderAddress t) then
        (case BuildSpendAmount t of
           None \<Rightarrow> (s, False)
         | Some spend \<Rightarrow>
             (let (s1, ok1) = DebitAddress s (senderAddress t) spend (tx_timestamp t) in
              if \<not> ok1 then (s1, False) else ledger_credit s1 t))
      else ledger_credit s t)"

fun ledger_pass :: "sheet \<Rightarrow> signed_transaction_t list \<Rightarrow> sheet \<times> bool" where
  "ledger_pass s [] = (s, True)"
| "ledger_pass s (tx # txs) =
     (let (s1, ok) = ledger_tx s (transaction tx) in if \<not> ok then (s1, False) else ledger_pass s1 txs)"

fun remove_mined :: "crypto_env \<Rightarrow> pool \<Rightarrow> signed_transaction_t list \<Rightarrow> pool" where
  "remove_mined E p [] = p"
| "remove_mined E p (tx # txs) =
     (if Address_IsCoinbase (senderAddress (transaction tx)) then remove_mined E p txs
      else remove_mined E (fst (TxMempool_Remove p (Transaction_CalculateHash E tx))) txs)"

definition nonCoinbaseCount :: "signed_transaction_t list \<Rightarrow> nat" where
  "nonCoinbaseCount txs = length (filter (\<lambda>tx. \<not> Address_IsCoinbase (senderAddress (transaction tx))) txs)"

text \<open>
  The validation of a block against the chain and the sheet, up to the push: \<open>Some\<close> of the coinbase
  amount it must carry, \<open>None\<close> where the C function returns false. The chain is returned because the
  lookup of the DAG parameters extends its memo table.
\<close>

definition validate_economics :: "crypto_env \<Rightarrow> sheet \<Rightarrow> u64 \<Rightarrow> block_t \<Rightarrow> signed_transaction_t list \<Rightarrow> u64 option" where
  "validate_economics E s reward block txs =
     (if txs = [] then None
      else let (spendable, totalFees) = BalanceSheet_SelectSpendableTransactions E s txs in
           if length spendable \<noteq> nonCoinbaseCount txs then None
           else if UINT64_MAX - reward < totalFees then None
           else let expectedCoinbaseAmount = reward + totalFees in
                case Block_ValidateCoinbaseAndFees E block expectedCoinbaseAmount of
                  None \<Rightarrow> None
                | Some observedFees \<Rightarrow>
                    if observedFees \<noteq> totalFees then None
                    else if \<not> Chain_BlockRespectsSenderOrdering s block then None
                    else Some expectedCoinbaseAmount)"

definition extends_tip :: "crypto_env \<Rightarrow> blockchain_t \<Rightarrow> block_t \<Rightarrow> bool" where
  "extends_tip E chain block =
     (let expectedIndex = length (blocks chain) in
      if unat (blockNumber (header block)) \<noteq> expectedIndex then False
      else if expectedIndex > 0 then
        (case vec_get (blocks chain) (expectedIndex - 1) of
           None \<Rightarrow> False
         | Some parent \<Rightarrow> Block_CalculateHash E parent = prevHash (header block))
      else True)"

definition Chain_AddBlockLocked :: "crypto_env \<Rightarrow> node_state \<Rightarrow> block_t \<Rightarrow> node_state \<times> bool" where
  "Chain_AddBlockLocked E st block =
     (case transactions block of
        None \<Rightarrow> (st, False)
      | Some txs \<Rightarrow>
          if \<not> extends_tip E (g_chain st) block then (st, False)
          else
            (let expectedIndex = length (blocks (g_chain st));
                 (chain', params) = Chain_DagParamsForHeightLocked E (g_chain st) (unat (blockNumber (header block)));
                 st1 = st\<lparr> g_chain := chain' \<rparr>
             in case params of
                  None \<Rightarrow> (st1, False)
                | Some (dagBytes, dagSeed) \<Rightarrow>
                    if \<not> Block_HasValidProofOfWorkWithParams E (g_pow st) block
                           (blockNumber (header block) div of_nat EPOCH_LENGTH) dagBytes dagSeed
                    then (st1, False)
                    else if difficultyTarget (header block) \<noteq> Chain_GetTargetForHeight chain' expectedIndex
                    then (st1, False)
                    else
                      (case validate_economics E (g_sheetMap st) (g_currentReward st) block txs of
                         None \<Rightarrow> (st1, False)
                       | Some expectedCoinbaseAmount \<Rightarrow>
                           (let chain2 = chain'\<lparr> blocks := vec_push_back (blocks chain') block,
                                                 chain_size := chain_size chain' + 1 \<rparr>;
                                (sheet', ok) = ledger_pass (g_sheetMap st) txs;
                                st2 = st1\<lparr> g_chain := chain2,
                                           g_currentBlockHeight := of_nat (chain_size chain2 - 1),
                                           g_sheetMap := sheet',
                                           g_txMempool := remove_mined E (g_txMempool st) txs \<rparr>
                            in if \<not> ok then (st2, False)
                               else
                                 (let supply' = fst (uint256_add_u64 (g_currentSupply st) expectedCoinbaseAmount);
                                      reward' = fst (CalculateBlockRewardAtHeight supply'
                                                       (of_nat (chain_size chain2)) (g_currentReward st))
                                  in (st2\<lparr> g_currentSupply := supply', g_currentReward := reward' \<rparr>, True))))))"

definition Chain_AddBlock :: "crypto_env \<Rightarrow> node_state \<Rightarrow> block_t \<Rightarrow> node_state \<times> bool" where
  "Chain_AddBlock E st block =
     (if transactions block = None then (st, False)
      else let (st', ok) = Chain_AddBlockLocked E st block in
           if ok then (Chain_OnTipAdvanced st', True) else (st', False))"

section \<open>Rolling back\<close>

fun restore_txs :: "crypto_env \<Rightarrow> pool \<Rightarrow> signed_transaction_t list \<Rightarrow> pool" where
  "restore_txs E p [] = p"
| "restore_txs E p (tx # txs) =
     (if Address_IsCoinbase (senderAddress (transaction tx)) then restore_txs E p txs
      else restore_txs E (fst (TxMempool_Insert E p tx)) txs)"

text \<open>Blocks \<open>i - 1\<close> down to \<open>height\<close>, newest first; a block that cannot be read is skipped.\<close>

fun restore_blocks :: "crypto_env \<Rightarrow> node_state \<Rightarrow> nat list \<Rightarrow> pool \<Rightarrow> pool" where
  "restore_blocks E st [] p = p"
| "restore_blocks E st (idx # idxs) p =
     (case Chain_BorrowBlockTransactions st idx of
        None \<Rightarrow> restore_blocks E st idxs p
      | Some source \<Rightarrow>
          (case transactions source of
             None \<Rightarrow> restore_blocks E st idxs p
           | Some txs \<Rightarrow> restore_blocks E st idxs (restore_txs E p txs)))"

definition replay_credit :: "sheet \<Rightarrow> address \<Rightarrow> u64 \<Rightarrow> sheet" where
  "replay_credit s a amount =
     (case BalanceSheet_Lookup s a of
        None \<Rightarrow> fst (BalanceSheet_Insert s ((fresh_entry a)\<lparr> balance := uint256_from_u64 amount \<rparr>))
      | Some e \<Rightarrow> fst (BalanceSheet_Insert s (e\<lparr> balance := fst (uint256_add_u64 (balance e) amount) \<rparr>)))"

definition replay_spend :: "transaction_t \<Rightarrow> uint256_t" where
  "replay_spend t =
     (let s1 = fst (uint256_add_u64 (uint256_from_u64 0) (amount1 t));
          s2 = (if amount2 t > 0 then fst (uint256_add_u64 s1 (amount2 t)) else s1)
      in if fee t > 0 then fst (uint256_add_u64 s2 (fee t)) else s2)"

definition replay_debit :: "sheet \<Rightarrow> transaction_t \<Rightarrow> sheet" where
  "replay_debit s t =
     (let e = (case BalanceSheet_Lookup s (senderAddress t) of Some e \<Rightarrow> e | None \<Rightarrow> fresh_entry (senderAddress t));
          e1 = e\<lparr> balance := fst (uint256_subtract (balance e) (replay_spend t)) \<rparr>;
          e2 = (if tx_timestamp t > lastTxTimestamp e1 then e1\<lparr> lastTxTimestamp := tx_timestamp t \<rparr> else e1)
      in fst (BalanceSheet_Insert s e2))"

definition replay_tx :: "sheet \<Rightarrow> uint256_t \<Rightarrow> transaction_t \<Rightarrow> sheet \<times> uint256_t" where
  "replay_tx s supply t =
     (if Address_IsCoinbase (senderAddress t)
      then (replay_credit s (recipientAddress1 t) (amount1 t), fst (uint256_add_u64 supply (amount1 t)))
      else let s1 = replay_debit s t;
               s2 = replay_credit s1 (recipientAddress1 t) (amount1 t);
               s3 = (if amount2 t > 0 then replay_credit s2 (recipientAddress2 t) (amount2 t) else s2)
           in (s3, supply))"

fun replay_txs :: "sheet \<Rightarrow> uint256_t \<Rightarrow> signed_transaction_t list \<Rightarrow> sheet \<times> uint256_t" where
  "replay_txs s supply [] = (s, supply)"
| "replay_txs s supply (tx # txs) =
     (let (s', supply') = replay_tx s supply (transaction tx) in replay_txs s' supply' txs)"

text \<open>\<open>None\<close> in the last component: a block's transactions could not be read, the replay stops there.\<close>

fun replay_blocks :: "node_state \<Rightarrow> nat list \<Rightarrow> sheet \<Rightarrow> uint256_t \<Rightarrow> sheet \<times> uint256_t option" where
  "replay_blocks st [] s supply = (s, Some supply)"
| "replay_blocks st (i # is) s supply =
     (case Chain_BorrowBlockTransactions st i of
        None \<Rightarrow> (s, None)
      | Some blk \<Rightarrow>
          (case transactions blk of
             None \<Rightarrow> replay_blocks st is s supply
           | Some txs \<Rightarrow> (let (s', supply') = replay_txs s supply txs in replay_blocks st is s' supply')))"

fun pop_down :: "'a list \<Rightarrow> nat list \<Rightarrow> 'a list" where
  "pop_down v [] = v"
| "pop_down v (i # is) = pop_down (vec_pop_at v i) is"

definition Chain_RollbackToHeightLocked :: "crypto_env \<Rightarrow> node_state \<Rightarrow> nat \<Rightarrow> node_state \<times> bool" where
  "Chain_RollbackToHeightLocked E st height =
     (let cur = length (blocks (g_chain st)) in
      if height \<ge> cur then (st, True)
      else
        (let above = rev [height..<cur];
             pool' = restore_blocks E st above (g_txMempool st);
             kept = pop_down (blocks (g_chain st)) above;
             st1 = st\<lparr> g_txMempool := pool',
                       g_chain := Chain_InvalidateDagEpochs
                                    ((g_chain st)\<lparr> blocks := kept, chain_size := length kept \<rparr>),
                       g_currentBlockHeight := (if length kept \<noteq> 0 then of_nat (length kept - 1) else 0),
                       g_sheetMap := BalanceSheet_Init \<rparr>
         in case replay_blocks st1 [0..<length kept] BalanceSheet_Init (uint256_from_u64 0) of
              (sheet', None) \<Rightarrow> (st1\<lparr> g_sheetMap := sheet' \<rparr>, False)
            | (sheet', Some rebuiltSupply) \<Rightarrow>
                (st1\<lparr> g_sheetMap := sheet', g_currentSupply := rebuiltSupply,
                      g_currentReward := fst (CalculateBlockRewardAtHeight rebuiltSupply (of_nat (length kept))
                                                (g_currentReward st)) \<rparr>, True)))"

definition Chain_RollbackToHeight :: "crypto_env \<Rightarrow> node_state \<Rightarrow> nat \<Rightarrow> node_state \<times> bool" where
  "Chain_RollbackToHeight E st height =
     (let (st', ok) = Chain_RollbackToHeightLocked E st height in (Chain_OnTipAdvanced st', ok))"

fun coinbase_supply :: "uint256_t \<Rightarrow> signed_transaction_t list \<Rightarrow> uint256_t option" where
  "coinbase_supply supply [] = Some supply"
| "coinbase_supply supply (tx # txs) =
     (if Address_IsCoinbase (senderAddress (transaction tx)) then
        (let (supply', overflow) = uint256_add_u64 supply (amount1 (transaction tx)) in
         if overflow then None else coinbase_supply supply' txs)
      else coinbase_supply supply txs)"

fun recompute_supply :: "node_state \<Rightarrow> nat list \<Rightarrow> uint256_t \<Rightarrow> uint256_t option" where
  "recompute_supply st [] supply = Some supply"
| "recompute_supply st (i # is) supply =
     (case Chain_BorrowBlockTransactions st i of
        None \<Rightarrow> None
      | Some blk \<Rightarrow>
          (case coinbase_supply supply (case transactions blk of None \<Rightarrow> [] | Some txs \<Rightarrow> txs) of
             None \<Rightarrow> None
           | Some supply' \<Rightarrow> recompute_supply st is supply'))"

definition Chain_RecomputeRuntimeState :: "node_state \<Rightarrow> node_state \<times> bool" where
  "Chain_RecomputeRuntimeState st =
     (case recompute_supply st [0..<chain_size (g_chain st)] (uint256_from_u64 0) of
        None \<Rightarrow> (st, False)
      | Some rebuiltSupply \<Rightarrow>
          (st\<lparr> g_currentSupply := rebuiltSupply,
               g_currentReward := fst (CalculateBlockRewardAtHeight rebuiltSupply
                                         (of_nat (chain_size (g_chain st))) (g_currentReward st)) \<rparr>, True))"

section \<open>Replacing a branch\<close>

definition MEDIAN_TIME_SPAN :: nat where "MEDIAN_TIME_SPAN = 11"
definition IBD_TIP_AGE_BLOCKS :: u64 where "IBD_TIP_AGE_BLOCKS = 20"

definition Chain_MedianTimePastLocked :: "blockchain_t \<Rightarrow> u64" where
  "Chain_MedianTimePastLocked chain =
     (let bs = blocks chain in
      if bs = [] then 0
      else let samples = map (\<lambda>blk. timestamp (header blk)) (take MEDIAN_TIME_SPAN (rev bs))
           in sort samples ! (length samples div 2))"

text \<open>\<open>now\<close> is the reading of \<^verbatim>\<open>get_current_time_ms\<close>.\<close>

definition Chain_IsInitialBlockDownload :: "blockchain_t \<Rightarrow> u64 \<Rightarrow> bool" where
  "Chain_IsInitialBlockDownload chain now =
     (if blocks chain = [] then True
      else let medianTime = Chain_MedianTimePastLocked chain in
           if medianTime = 0 \<or> now \<le> medianTime then False
           else now - medianTime > IBD_TIP_AGE_BLOCKS * TARGET_BLOCK_TIME * 1000)"

fun branch_links :: "crypto_env \<Rightarrow> nat \<Rightarrow> byte list \<Rightarrow> block_t list \<Rightarrow> bool" where
  "branch_links E height expectedPrevHash [] = True"
| "branch_links E height expectedPrevHash (b # bs) =
     (if transactions b = None then False
      else if unat (blockNumber (header b)) \<noteq> height then False
      else if prevHash (header b) \<noteq> expectedPrevHash then False
      else branch_links E (Suc height) (Block_CalculateHash E b) bs)"

definition Chain_BranchIsLinkedLocked :: "crypto_env \<Rightarrow> blockchain_t \<Rightarrow> nat \<Rightarrow> block_t list \<Rightarrow> bool" where
  "Chain_BranchIsLinkedLocked E chain forkHeight newBlocks =
     (if newBlocks = [] \<or> forkHeight = 0 then False
      else case vec_get (blocks chain) (forkHeight - 1) of
        None \<Rightarrow> False
      | Some parent \<Rightarrow> branch_links E forkHeight (Block_CalculateHash E parent) newBlocks)"

definition Chain_ReorgPenaltyForDepth :: "u64 \<Rightarrow> u64" where
  "Chain_ReorgPenaltyForDepth reorgDepth = FetchScheduler_ComputeReorgPenaltyBlocks reorgDepth"

text \<open>The delay rule: has the branch waited, or outgrown our tip, by its penalty?\<close>

definition penalty_served :: "nat \<Rightarrow> nat \<Rightarrow> nat \<Rightarrow> u64 \<Rightarrow> bool" where
  "penalty_served tipCount forkHeight count observedAtTipHeight =
     (let tipHeight = (if tipCount > 0 then of_nat (tipCount - 1) else 0 :: u64);
          fork = of_nat forkHeight;
          observedTip = (if observedAtTipHeight > tipHeight then tipHeight else observedAtTipHeight);
          depth = (if observedTip \<ge> fork then observedTip - fork + 1 else 1);
          penalty = FetchScheduler_ComputeReorgPenaltyBlocks depth;
          localGrowth = (if tipHeight \<ge> observedTip then tipHeight - observedTip else 0);
          candidateTip = fork + of_nat count - 1;
          branchLead = (if candidateTip > tipHeight then candidateTip - tipHeight else 0);
          elapsed = (if localGrowth > branchLead then localGrowth else branchLead)
      in \<not> elapsed < penalty)"

fun snapshot_blocks :: "node_state \<Rightarrow> nat list \<Rightarrow> block_t list option" where
  "snapshot_blocks st [] = Some []"
| "snapshot_blocks st (i # is) =
     (case Chain_BorrowBlockTransactions st i of
        None \<Rightarrow> None
      | Some src \<Rightarrow> map_option ((#) (Block_Copy src)) (snapshot_blocks st is))"

text \<open>Append blocks until one fails.\<close>

fun add_blocks :: "crypto_env \<Rightarrow> node_state \<Rightarrow> block_t list \<Rightarrow> node_state \<times> bool" where
  "add_blocks E st [] = (st, True)"
| "add_blocks E st (b # bs) =
     (let (st', ok) = Chain_AddBlockLocked E st b in if \<not> ok then (st', False) else add_blocks E st' bs)"

definition swap_branch :: "crypto_env \<Rightarrow> node_state \<Rightarrow> nat \<Rightarrow> block_t list \<Rightarrow> block_t list \<Rightarrow> node_state \<times> bool" where
  "swap_branch E st forkHeight snapshot candidate =
     (let (st1, rolled) = Chain_RollbackToHeightLocked E st forkHeight in
      if \<not> rolled then (st1, False)
      else let (st2, applied) = add_blocks E st1 candidate in
           if applied then (st2, True)
           else let (st3, rolled2) = Chain_RollbackToHeightLocked E st2 forkHeight in
                if \<not> rolled2 then (st3, False) else (fst (add_blocks E st3 snapshot), False))"

definition Chain_ReplaceBranch ::
  "crypto_env \<Rightarrow> u64 \<Rightarrow> node_state \<Rightarrow> nat \<Rightarrow> block_t list \<Rightarrow> u64 \<Rightarrow> bool \<Rightarrow> node_state \<times> bool" where
  "Chain_ReplaceBranch E now st forkHeight newBlocks observedAtTipHeight bypassPenalty =
     (if newBlocks = [] \<or> forkHeight = 0 then (st, False)
      else
        (let tipCount = length (blocks (g_chain st));
             result =
               (if forkHeight > tipCount then (st, False)
                else if \<not> Chain_BranchIsLinkedLocked E (g_chain st) forkHeight newBlocks then (st, False)
                else if \<not> bypassPenalty \<and> \<not> Chain_IsInitialBlockDownload (g_chain st) now \<and> tipCount > forkHeight \<and>
                        \<not> penalty_served tipCount forkHeight (length newBlocks) observedAtTipHeight
                then (st, False)
                else case (Chain_ComputeWorkRange (g_chain st) forkHeight tipCount, Chain_ComputeBranchWork newBlocks) of
                  (Some incumbentWork, Some candidateWork) \<Rightarrow>
                    if uint256_cmp candidateWork incumbentWork \<le> 0 then (st, False)
                    else (case snapshot_blocks st [forkHeight..<tipCount] of
                            None \<Rightarrow> (st, False)
                          | Some snapshot \<Rightarrow> swap_branch E st forkHeight snapshot (map Block_Copy newBlocks))
                | _ \<Rightarrow> (st, False))
         in (Chain_OnTipAdvanced (fst result), snd result)))"

end
