(* ===== verification/Chain_Ledger.thy ===== *)
theory Chain_Ledger
  imports Chain_Node
begin

text \<open>
  What the ledger pass of \<^verbatim>\<open>Chain_AddBlockLocked\<close> and the replay of \<^verbatim>\<open>Chain_RollbackToHeightLocked\<close> do to
  the balance sheet, read through the abstract ledger: balances move by \<open>spec_block\<close>, the per-sender
  timestamps by \<open>note_spend\<close>. From these follow conservation of coins, the replay guard and the fact that
  a rollback rebuilds the sheet the remaining blocks define.
\<close>

section \<open>Timestamps of spends\<close>

definition note_spend :: "(address \<Rightarrow> u64) \<Rightarrow> transaction_t \<Rightarrow> address \<Rightarrow> u64" where
  "note_spend f t =
     (if Address_IsCoinbase (senderAddress t) then f
      else f(senderAddress t := max (f (senderAddress t)) (tx_timestamp t)))"

text \<open>A transaction that pays a second amount to the all-zero address.\<close>

definition pays_nobody :: "transaction_t \<Rightarrow> bool" where
  "pays_nobody t \<longleftrightarrow> amount2 t > 0 \<and> recipientAddress2 t = zeroAddress"

definition payments_addressed :: "signed_transaction_t list \<Rightarrow> bool" where
  "payments_addressed txs \<longleftrightarrow> (\<forall>tx\<in>set txs. \<not> pays_nobody (transaction tx))"

lemma note_spend_mono: "f a \<le> note_spend f t a"
  by (simp add: note_spend_def)

lemma foldl_note_spend_mono: "f a \<le> foldl note_spend f ts a"
  by (induction ts arbitrary: f) (auto intro: order_trans [OF note_spend_mono])

text \<open>The fold keeps the latest timestamp of every sender.\<close>

lemma foldl_note_spend_ge:
  "t \<in> set ts \<Longrightarrow> \<not> Address_IsCoinbase (senderAddress t) \<Longrightarrow>
     tx_timestamp t \<le> foldl note_spend f ts (senderAddress t)"
proof (induction ts arbitrary: f)
  case (Cons u ts)
  show ?case
  proof (cases "t = u")
    case True
    then have "tx_timestamp t \<le> note_spend f u (senderAddress t)" using Cons.prems(2) by (simp add: note_spend_def)
    then show ?thesis using foldl_note_spend_mono [of "note_spend f u" "senderAddress t" ts] by simp
  next
    case False
    then show ?thesis using Cons by simp
  qed
qed simp

section \<open>Effect of the sheet operations on timestamps\<close>

lemma last_ts_upd: "last_ts (Some (m(a \<mapsto> e))) = (last_ts (Some m))(a := lastTxTimestamp e)"
  by (rule ext) (simp add: last_ts_def)

lemma CreditAddress_ts:
  assumes "sheet_inv s" and "CreditAddress s a x = (s', ok)"
  shows "last_ts s' = last_ts s"
proof -
  obtain m where m: "s = Some m" "map_wf m" using assms(1) by (auto simp: sheet_inv_def)
  show ?thesis
  proof (cases "x = 0")
    case True
    then show ?thesis using assms(2) by (simp add: CreditAddress_def)
  next
    case False
    then show ?thesis
      using assms(2) m
      by (auto simp: CreditAddress_def Insert_Some last_ts_upd map_wf_def Let_def last_ts_def fun_eq_iff
          split: option.splits prod.splits if_splits)
  qed
qed

lemma DebitAddress_ts:
  assumes "sheet_inv s" and "DebitAddress s a v ts = (s', True)"
  shows "last_ts s' = (last_ts s)(a := max (last_ts s a) ts)"
proof -
  obtain m where m: "s = Some m" "map_wf m" using assms(1) by (auto simp: sheet_inv_def)
  then obtain e where e: "m a = Some e" "entry_address e = a"
    using assms(2) by (auto simp: DebitAddress_def map_wf_def split: option.splits)
  then show ?thesis
    using assms(2) m
    by (auto simp: DebitAddress_def Insert_Some last_ts_upd Let_def last_ts_def fun_eq_iff max_def
        split: prod.splits if_splits)
qed

section \<open>The ledger pass\<close>

lemma ledger_credit_pay:
  assumes "\<not> pays_nobody t"
  shows "succeeded (ledger_credit s t) = sheet_store.pay s t"
proof -
  obtain s1 ok where c: "CreditAddress s (recipientAddress1 t) (amount1 t) = (s1, ok)" by fastforce
  show ?thesis
    unfolding sheet_store.pay_def using assms c
    by (auto simp: ledger_credit_def succeeded_def pays_nobody_def)
qed

lemma ledger_credit_keeps:
  assumes "sheet_inv s" and "ledger_credit s t = (s', ok)"
  shows "sheet_inv s' \<and> last_ts s' = last_ts s \<and>
    (finite_balances (sheet_bal s) \<longrightarrow> finite_balances (sheet_bal s') \<and>
       total_balance (sheet_bal s') \<le> total_balance (sheet_bal s) + payout_total t)"
proof -
  obtain s1 ok1 where c1: "CreditAddress s (recipientAddress1 t) (amount1 t) = (s1, ok1)" by fastforce
  obtain s2 ok2 where c2: "CreditAddress s1 (recipientAddress2 t) (amount2 t) = (s2, ok2)" by fastforce
  note v1 = CreditAddress_view [OF assms(1) c1] and t1 = CreditAddress_ts [OF assms(1) c1]
  then have v2: "sheet_inv s2 \<and> (ok2 \<longleftrightarrow> sheet_bal s1 (recipientAddress2 t) + unat (amount2 t) < TWO256) \<and>
      sheet_bal s2 = (if ok2 then add_to (sheet_bal s1) (recipientAddress2 t) (unat (amount2 t)) else sheet_bal s1)"
    and t2: "last_ts s2 = last_ts s1"
    using CreditAddress_view [OF _ c2] CreditAddress_ts [OF _ c2] by blast+
  have "s' = s1 \<or> s' = s2"
    using assms(2) by (auto simp: ledger_credit_def c1 c2 split: if_splits)
  then show ?thesis
  proof
    assume "s' = s1"
    then show ?thesis using v1 t1 by (auto simp: payout_total_def)
  next
    assume "s' = s2"
    moreover have "finite_balances (sheet_bal s) \<longrightarrow> finite_balances (sheet_bal s1) \<and>
        total_balance (sheet_bal s1) \<le> total_balance (sheet_bal s) + unat (amount1 t)"
      using v1 by auto
    ultimately show ?thesis using v1 t1 v2 t2 by (auto simp: payout_total_def)
  qed
qed

definition created :: "transaction_t \<Rightarrow> nat" where
  "created t = (if Address_IsCoinbase (senderAddress t) then payout_total t else 0)"

lemma coinbase_payout_Cons: "coinbase_payout (t # ts) = created t + coinbase_payout ts"
  by (simp add: coinbase_payout_def created_def)

text \<open>Whether or not it succeeds, a step of the pass creates no coins beyond a coinbase's.\<close>

lemma ledger_tx_keeps:
  assumes "sheet_inv s" and "finite_balances (sheet_bal s)" and "amount1 t \<noteq> 0" and "ledger_tx s t = (s', ok)"
  shows "sheet_inv s' \<and> finite_balances (sheet_bal s') \<and>
    total_balance (sheet_bal s') \<le> total_balance (sheet_bal s) + created t"
proof (cases "Address_IsCoinbase (senderAddress t)")
  case True
  then have "ledger_credit s t = (s', ok)" using assms(4) by (simp add: ledger_tx_def)
  from ledger_credit_keeps [OF assms(1) this] show ?thesis using assms(2) True by (simp add: created_def)
next
  case False
  obtain v where v: "BuildSpendAmount t = Some v" "u256_val v = spend_total t" using BuildSpendAmount_val by blast
  obtain s1 ok1 where d: "DebitAddress s (senderAddress t) v (tx_timestamp t) = (s1, ok1)" by fastforce
  have pos: "0 < u256_val v" using v(2) spend_total_pos [OF assms(3)] by simp
  note view = DebitAddress_view [OF assms(1) d pos]
  show ?thesis
  proof (cases ok1)
    case ok: True
    then have c: "ledger_credit s1 t = (s', ok)" using assms(4) False v(1) d by (simp add: ledger_tx_def)
    have "total_balance (sheet_bal s1) + spend_total t = total_balance (sheet_bal s)"
      using total_take_from [OF assms(2)] view ok v(2) by auto
    then show ?thesis
      using ledger_credit_keeps [OF _ c] view ok assms(2) False
      by (auto simp: created_def payout_total_def spend_total_def)
  next
    case notok: False
    then have "s' = s1" using assms(4) False v(1) d by (simp add: ledger_tx_def)
    then show ?thesis using view notok assms(2) by simp
  qed
qed

lemma ledger_tx_refines:
  assumes "sheet_inv s" and "finite_balances (sheet_bal s)" and "amount1 t \<noteq> 0" and "\<not> pays_nobody t"
    and "total_balance (sheet_bal s) + created t < TWO256"
  shows "snd (ledger_tx s t) \<longleftrightarrow> covered (sheet_bal s) t"
    and "snd (ledger_tx s t) \<Longrightarrow> sheet_inv (fst (ledger_tx s t)) \<and>
      sheet_bal (fst (ledger_tx s t)) = apply_transfer (sheet_bal s) t \<and>
      last_ts (fst (ledger_tx s t)) = note_spend (last_ts s) t"
proof -
  have "(snd (ledger_tx s t) \<longleftrightarrow> covered (sheet_bal s) t) \<and>
    (snd (ledger_tx s t) \<longrightarrow> sheet_inv (fst (ledger_tx s t)) \<and>
      sheet_bal (fst (ledger_tx s t)) = apply_transfer (sheet_bal s) t \<and>
      last_ts (fst (ledger_tx s t)) = note_spend (last_ts s) t)"
  proof (cases "Address_IsCoinbase (senderAddress t)")
    case True
    then have e: "ledger_tx s t = ledger_credit s t" by (simp add: ledger_tx_def)
    obtain s' where p: "sheet_store.pay s t = Some s'"
      using sheet_store.pay_succeeds [OF assms(1,2)] assms(5) True by (auto simp: created_def)
    then have r: "snd (ledger_credit s t)" "fst (ledger_credit s t) = s'"
      using ledger_credit_pay [OF assms(4), of s] by (auto simp: succeeded_def split: if_splits)
    then show ?thesis
      using sheet_store.pay_bal [OF assms(1) p] ledger_credit_keeps [OF assms(1), of t "fst (ledger_credit s t)"] True e
      by (auto simp: covered_def apply_transfer_def note_spend_def prod_eq_iff)
  next
    case False
    obtain v where v: "BuildSpendAmount t = Some v" "u256_val v = spend_total t" using BuildSpendAmount_val by blast
    obtain s1 ok1 where d: "DebitAddress s (senderAddress t) v (tx_timestamp t) = (s1, ok1)" by fastforce
    have pos: "0 < u256_val v" using v(2) spend_total_pos [OF assms(3)] by simp
    note view = DebitAddress_view [OF assms(1) d pos]
    show ?thesis
    proof (cases ok1)
      case ok: True
      have e: "ledger_tx s t = ledger_credit s1 t" using False v(1) d ok by (simp add: ledger_tx_def)
      have i1: "sheet_inv s1" "sheet_bal s1 = take_from (sheet_bal s) (senderAddress t) (spend_total t)"
        "spend_total t \<le> sheet_bal s (senderAddress t)" using view ok v(2) by auto
      have "total_balance (sheet_bal s1) + spend_total t = total_balance (sheet_bal s)"
        using total_take_from [OF assms(2) i1(3)] i1(2) by simp
      then have "total_balance (sheet_bal s1) + payout_total t < TWO256"
        using assms(5) by (simp add: spend_total_def payout_total_def)
      then obtain s' where p: "sheet_store.pay s1 t = Some s'"
        using sheet_store.pay_succeeds [OF i1(1)] assms(2) i1(2) by auto
      then have r: "ledger_credit s1 t = (s', True)"
        using ledger_credit_pay [OF assms(4), of s1] by (auto simp: succeeded_def prod_eq_iff split: if_splits)
      have "last_ts s1 = note_spend (last_ts s) t" using DebitAddress_ts assms(1) d ok False by (simp add: note_spend_def)
      then show ?thesis
        using sheet_store.pay_bal [OF i1(1) p] ledger_credit_keeps [OF i1(1) r] r False e i1(2,3)
        by (simp add: covered_def apply_transfer_def)
    next
      case notok: False
      then have "ledger_tx s t = (s1, False)" using False v(1) d by (simp add: ledger_tx_def)
      then show ?thesis using view notok False v(2) by (auto simp: covered_def)
    qed
  qed
  then show "snd (ledger_tx s t) \<longleftrightarrow> covered (sheet_bal s) t"
    and "snd (ledger_tx s t) \<Longrightarrow> sheet_inv (fst (ledger_tx s t)) \<and>
      sheet_bal (fst (ledger_tx s t)) = apply_transfer (sheet_bal s) t \<and>
      last_ts (fst (ledger_tx s t)) = note_spend (last_ts s) t"
    by blast+
qed

text \<open>The pass as a whole implements the abstract block, and fails exactly where it is not covered.\<close>

definition amounts_ok :: "signed_transaction_t list \<Rightarrow> bool" where
  "amounts_ok txs \<longleftrightarrow> (\<forall>tx\<in>set txs. amount1 (transaction tx) \<noteq> 0)"

lemma ledger_pass_keeps:
  "sheet_inv s \<Longrightarrow> finite_balances (sheet_bal s) \<Longrightarrow> amounts_ok txs \<Longrightarrow> ledger_pass s txs = (s', ok) \<Longrightarrow>
     sheet_inv s' \<and> finite_balances (sheet_bal s') \<and>
     total_balance (sheet_bal s') \<le> total_balance (sheet_bal s) + coinbase_payout (map transaction txs)"
proof (induction txs arbitrary: s)
  case (Cons tx txs)
  obtain s1 ok1 where l: "ledger_tx s (transaction tx) = (s1, ok1)" by fastforce
  have k: "sheet_inv s1 \<and> finite_balances (sheet_bal s1) \<and>
      total_balance (sheet_bal s1) \<le> total_balance (sheet_bal s) + created (transaction tx)"
    using ledger_tx_keeps [OF Cons.prems(1,2) _ l] Cons.prems(3) by (simp add: amounts_ok_def)
  show ?case
  proof (cases ok1)
    case True
    then have "ledger_pass s1 txs = (s', ok)" using Cons.prems(4) l by simp
    then show ?thesis
      using Cons.IH [of s1] k Cons.prems(3) by (auto simp: amounts_ok_def coinbase_payout_Cons)
  next
    case False
    then show ?thesis using Cons.prems(4) l k by (simp add: coinbase_payout_Cons)
  qed
qed simp

lemma ledger_pass_refines:
  assumes "sheet_inv s" "finite_balances (sheet_bal s)" "amounts_ok txs" "payments_addressed txs"
    and "total_balance (sheet_bal s) + coinbase_payout (map transaction txs) < TWO256"
  shows "case spec_block (sheet_bal s) (map transaction txs) of
      None \<Rightarrow> \<not> snd (ledger_pass s txs)
    | Some b' \<Rightarrow> snd (ledger_pass s txs) \<and> sheet_inv (fst (ledger_pass s txs)) \<and>
        sheet_bal (fst (ledger_pass s txs)) = b' \<and>
        last_ts (fst (ledger_pass s txs)) = foldl note_spend (last_ts s) (map transaction txs)"
  using assms
proof (induction txs arbitrary: s)
  case (Cons tx txs)
  let ?t = "transaction tx"
  obtain s1 ok1 where l: "ledger_tx s ?t = (s1, ok1)" by fastforce
  have hyp: "amount1 ?t \<noteq> 0" "\<not> pays_nobody ?t" "amounts_ok txs" "payments_addressed txs"
    "total_balance (sheet_bal s) + created ?t < TWO256"
    using Cons.prems(3-5) by (auto simp: amounts_ok_def payments_addressed_def coinbase_payout_Cons)
  note ref = ledger_tx_refines [OF Cons.prems(1,2) hyp(1,2,5), unfolded l, simplified]
  show ?case
  proof (cases ok1)
    case True
    have s1: "sheet_inv s1" "sheet_bal s1 = apply_transfer (sheet_bal s) ?t" "last_ts s1 = note_spend (last_ts s) ?t"
      using ref True by auto
    have "total_balance (sheet_bal s1) + coinbase_payout (map transaction txs) < TWO256"
      using ledger_tx_keeps [OF Cons.prems(1,2) hyp(1) l] Cons.prems(5) by (simp add: coinbase_payout_Cons)
    from Cons.IH [OF s1(1) _ hyp(3,4) this] show ?thesis
      using ref True l s1 Cons.prems(2) by (simp split: option.splits)
  next
    case False
    then show ?thesis using ref l by simp
  qed
qed simp

lemma ledger_pass_addressed: "snd (ledger_pass s txs) \<Longrightarrow> payments_addressed txs"
proof (induction txs arbitrary: s)
  case (Cons tx txs)
  obtain s1 ok1 where l: "ledger_tx s (transaction tx) = (s1, ok1)" by fastforce
  have c: "\<not> pays_nobody t" if "snd (ledger_credit s' t)" for s' t
    using that by (auto simp: ledger_credit_def pays_nobody_def Let_def case_prod_unfold split: if_splits)
  have ok: "ok1" "snd (ledger_pass s1 txs)" using Cons.prems l by (auto split: if_splits)
  then have "\<not> pays_nobody (transaction tx)"
    using l c by (auto simp: ledger_tx_def case_prod_unfold Let_def split: if_splits option.splits; metis snd_conv)
  then show ?case using Cons.IH [OF ok(2)] by (simp add: payments_addressed_def)
qed (simp add: payments_addressed_def)

section \<open>The replay of a rollback\<close>

definition replayable :: "transaction_t \<Rightarrow> bool" where
  "replayable t \<longleftrightarrow> amount1 t \<noteq> 0 \<and> (Address_IsCoinbase (senderAddress t) \<longrightarrow> amount2 t = 0)"

lemma sheet_upd_view:
  assumes "map_wf m" and "entry_address e = a"
  shows "sheet_inv (Some (m(a \<mapsto> e)))"
    and "sheet_bal (Some (m(a \<mapsto> e))) = (sheet_bal (Some m))(a := u256_val (balance e))"
    and "last_ts (Some (m(a \<mapsto> e))) = (last_ts (Some m))(a := lastTxTimestamp e)"
  using sheet_inv_upd [OF assms(1), of e] assms(2) by (simp_all add: sheet_bal_def map_bal_upd last_ts_upd)

lemma sheet_at:
  "m a = Some e \<Longrightarrow> sheet_bal (Some m) a = u256_val (balance e) \<and> last_ts (Some m) a = lastTxTimestamp e"
  "m a = None \<Longrightarrow> sheet_bal (Some m) a = 0 \<and> last_ts (Some m) a = 0"
  by (simp_all add: sheet_bal_def map_bal_def last_ts_def)

lemma replay_credit_view:
  assumes "sheet_inv s" and "sheet_bal s a + unat x < TWO256"
  shows "sheet_inv (replay_credit s a x) \<and> sheet_bal (replay_credit s a x) = add_to (sheet_bal s) a (unat x) \<and>
    last_ts (replay_credit s a x) = last_ts s"
proof -
  obtain m where m: "s = Some m" "map_wf m" using assms(1) by (auto simp: sheet_inv_def)
  show ?thesis
  proof (cases "m a")
    case None
    define e where "e = (fresh_entry a)\<lparr> balance := uint256_from_u64 x \<rparr>"
    have e: "entry_address e = a" "u256_val (balance e) = unat x" "lastTxTimestamp e = 0" by (simp_all add: e_def)
    have "replay_credit s a x = Some (m(a \<mapsto> e))" using None m e(1) by (simp add: replay_credit_def Insert_Some e_def)
    then show ?thesis
      using sheet_upd_view [OF m(2) e(1)] sheet_at(2) [of m a] None e m(1) by (auto simp: add_to_def)
  next
    case (Some old)
    define e where "e = old\<lparr> balance := fst (uint256_add_u64 (balance old) x) \<rparr>"
    have e: "entry_address e = a" "u256_val (balance e) = u256_val (balance old) + unat x"
      "lastTxTimestamp e = lastTxTimestamp old"
      using Some m uint256_add_u64_no_overflow [of "balance old" x] assms(2) sheet_at(1) [of m a old] Some
      by (auto simp: e_def map_wf_def)
    have "replay_credit s a x = Some (m(a \<mapsto> e))" using Some m e(1) by (simp add: replay_credit_def Insert_Some e_def)
    then show ?thesis
      using sheet_upd_view [OF m(2) e(1)] sheet_at(1) [of m a old] Some e m(1) by (auto simp: add_to_def)
  qed
qed

lemma replay_spend_val: "u256_val (replay_spend t) = spend_total t"
proof -
  let ?a = "uint256_add_u64 (uint256_from_u64 0) (amount1 t)"
  note lt = unat_lt_64 [of "amount1 t"] unat_lt_64 [of "amount2 t"] unat_lt_64 [of "fee t"]
  have big: "3 * 18446744073709551616 < TWO256" by (simp add: TWO256_def)
  have a: "u256_val (fst ?a) = unat (amount1 t)"
    using uint256_add_u64_no_overflow [of "uint256_from_u64 0" "amount1 t"] lt big by simp
  define b where "b = (if amount2 t > 0 then fst (uint256_add_u64 (fst ?a) (amount2 t)) else fst ?a)"
  have b: "u256_val b = unat (amount1 t) + unat (amount2 t)"
    using uint256_add_u64_no_overflow [of "fst ?a" "amount2 t"] a lt big by (auto simp: b_def word_gt_0)
  have "replay_spend t = (if fee t > 0 then fst (uint256_add_u64 b (fee t)) else b)"
    by (simp add: replay_spend_def Let_def b_def)
  then show ?thesis
    using uint256_add_u64_no_overflow [of b "fee t"] b lt big by (auto simp: spend_total_def word_gt_0)
qed

lemma replay_debit_view:
  assumes "sheet_inv s" and "spend_total t \<le> sheet_bal s (senderAddress t)"
  shows "sheet_inv (replay_debit s t) \<and>
    sheet_bal (replay_debit s t) = take_from (sheet_bal s) (senderAddress t) (spend_total t) \<and>
    last_ts (replay_debit s t) = (last_ts s)(senderAddress t := max (last_ts s (senderAddress t)) (tx_timestamp t))"
proof -
  obtain m where m: "s = Some m" "map_wf m" using assms(1) by (auto simp: sheet_inv_def)
  define a where "a = senderAddress t"
  define old where "old = (case m a of Some e \<Rightarrow> e | None \<Rightarrow> fresh_entry a)"
  have old: "entry_address old = a" "u256_val (balance old) = sheet_bal s a" "lastTxTimestamp old = last_ts s a"
    using m sheet_at [of m a] by (auto simp: old_def map_wf_def split: option.splits)
  define e where "e = old\<lparr> balance := fst (uint256_subtract (balance old) (replay_spend t)),
      lastTxTimestamp := max (lastTxTimestamp old) (tx_timestamp t) \<rparr>"
  have e: "entry_address e = a" "u256_val (balance e) = sheet_bal s a - spend_total t"
    "lastTxTimestamp e = max (last_ts s a) (tx_timestamp t)"
    using old assms(2) uint256_subtract_val [of "balance old" "replay_spend t"]
    by (simp_all add: e_def replay_spend_val a_def)
  have "replay_debit s t = Some (m(a \<mapsto> e))"
    using m(1) e(1) unfolding replay_debit_def Let_def a_def [symmetric] BalanceSheet_Lookup_def
    by (auto simp: old_def [symmetric] e_def Insert_Some max_def)
  then show ?thesis
    using sheet_upd_view [OF m(2) e(1)] e m(1) by (auto simp: take_from_def a_def)
qed

lemma replay_tx_refines:
  assumes "sheet_inv s" "finite_balances (sheet_bal s)" "replayable t" "covered (sheet_bal s) t"
    and "total_balance (sheet_bal s) + created t < TWO256" "u256_val sup0 + created t < TWO256"
    and "replay_tx s sup0 t = (s', sup')"
  shows "sheet_inv s' \<and> sheet_bal s' = apply_transfer (sheet_bal s) t \<and> last_ts s' = note_spend (last_ts s) t \<and>
    u256_val sup' = u256_val sup0 + created t"
proof (cases "Address_IsCoinbase (senderAddress t)")
  case True
  then have c: "created t = unat (amount1 t)" "amount2 t = 0"
    using assms(3) by (simp_all add: created_def payout_total_def replayable_def)
  have "sheet_bal s a + unat (amount1 t) < TWO256" for a
    using balance_le_total [OF assms(2), of a] assms(5) c(1) by simp
  then show ?thesis
    using replay_credit_view [OF assms(1), of "recipientAddress1 t" "amount1 t"] True c assms(6,7)
      uint256_add_u64_no_overflow [of sup0 "amount1 t"]
    by (auto simp: replay_tx_def apply_transfer_def pay_recipients_def note_spend_def)
next
  case False
  define s1 where "s1 = replay_debit s t"
  have cov: "spend_total t \<le> sheet_bal s (senderAddress t)" using assms(4) False by (simp add: covered_def)
  note d = replay_debit_view [OF assms(1) cov, folded s1_def]
  have tot: "total_balance (sheet_bal s1) + spend_total t = total_balance (sheet_bal s)"
    using total_take_from [OF assms(2) cov] d by simp
  have fin: "finite_balances (sheet_bal s1)" using d assms(2) by simp
  have room: "total_balance (sheet_bal s1) + unat (amount1 t) + unat (amount2 t) < TWO256"
    using tot assms(5) by (simp add: spend_total_def)
  define s2 where "s2 = replay_credit s1 (recipientAddress1 t) (amount1 t)"
  have "sheet_bal s1 (recipientAddress1 t) + unat (amount1 t) < TWO256"
    using balance_le_total [OF fin, of "recipientAddress1 t"] room by simp
  note c1 = replay_credit_view [OF conjunct1 [OF d] this, folded s2_def]
  have "total_balance (sheet_bal s2) = total_balance (sheet_bal s1) + unat (amount1 t)" "finite_balances (sheet_bal s2)"
    using c1 fin by simp_all
  then have "sheet_bal s2 (recipientAddress2 t) + unat (amount2 t) < TWO256"
    using balance_le_total [of "sheet_bal s2" "recipientAddress2 t"] room by simp
  note c2 = replay_credit_view [OF conjunct1 [OF c1] this]
  have "s' = (if amount2 t > 0 then replay_credit s2 (recipientAddress2 t) (amount2 t) else s2)" "sup' = sup0"
    using assms(7) False by (auto simp: replay_tx_def Let_def s1_def s2_def)
  then show ?thesis
    using c1 c2 d False
    by (auto simp: apply_transfer_def pay_recipients_def note_spend_def created_def Let_def)
qed

lemma replay_txs_refines:
  assumes "sheet_inv s" "finite_balances (sheet_bal s)" "\<forall>tx\<in>set txs. replayable (transaction tx)"
    and "spec_block (sheet_bal s) (map transaction txs) = Some b'"
    and "total_balance (sheet_bal s) + coinbase_payout (map transaction txs) < TWO256"
    and "u256_val sup0 + coinbase_payout (map transaction txs) < TWO256"
    and "replay_txs s sup0 txs = (s', sup')"
  shows "sheet_inv s' \<and> sheet_bal s' = b' \<and> last_ts s' = foldl note_spend (last_ts s) (map transaction txs) \<and>
    u256_val sup' = u256_val sup0 + coinbase_payout (map transaction txs)"
  using assms
proof (induction txs arbitrary: s sup0)
  case Nil
  then show ?case by (simp add: coinbase_payout_def)
next
  case (Cons tx txs)
  let ?t = "transaction tx"
  obtain s1 sup1 where r: "replay_tx s sup0 ?t = (s1, sup1)" by fastforce
  have cov: "covered (sheet_bal s) ?t" and rec: "spec_block (apply_transfer (sheet_bal s) ?t) (map transaction txs) = Some b'"
    using Cons.prems(4) by (auto split: if_splits)
  have one: "sheet_inv s1 \<and> sheet_bal s1 = apply_transfer (sheet_bal s) ?t \<and> last_ts s1 = note_spend (last_ts s) ?t \<and>
      u256_val sup1 = u256_val sup0 + created ?t"
    using replay_tx_refines [OF Cons.prems(1,2) _ cov _ _ r] Cons.prems(3,5,6) by (simp add: coinbase_payout_Cons)
  have "total_balance (sheet_bal s1) \<le> total_balance (sheet_bal s) + created ?t"
    using total_apply_transfer [OF Cons.prems(2) cov] one by (auto simp: created_def split: if_splits)
  then have room: "total_balance (sheet_bal s1) + coinbase_payout (map transaction txs) < TWO256"
    "u256_val sup1 + coinbase_payout (map transaction txs) < TWO256"
    using Cons.prems(5,6) one by (simp_all add: coinbase_payout_Cons)
  have "finite_balances (sheet_bal s1)" "spec_block (sheet_bal s1) (map transaction txs) = Some b'"
    "replay_txs s1 sup1 txs = (s', sup')" "\<forall>tx\<in>set txs. replayable (transaction tx)"
    using one Cons.prems(2,3,7) rec r by simp_all
  from Cons.IH [OF conjunct1 [OF one] this(1,4,2) room this(3)] show ?case
    using one by (simp add: coinbase_payout_Cons)
qed

text \<open>The transactions of block \<open>i\<close>, in memory or on disk, and those of the first \<open>n\<close> blocks.\<close>

definition block_txs :: "node_state \<Rightarrow> nat \<Rightarrow> signed_transaction_t list" where
  "block_txs st i =
     (case Chain_BorrowBlockTransactions st i of
        None \<Rightarrow> []
      | Some blk \<Rightarrow> (case transactions blk of None \<Rightarrow> [] | Some txs \<Rightarrow> txs))"

definition chain_history :: "node_state \<Rightarrow> nat \<Rightarrow> signed_transaction_t list" where
  "chain_history st n = concat (map (block_txs st) [0..<n])"

definition readable :: "node_state \<Rightarrow> nat \<Rightarrow> bool" where
  "readable st n \<longleftrightarrow> (\<forall>i < n. Chain_BorrowBlockTransactions st i \<noteq> None)"

lemma replay_blocks_readable:
  "(\<forall>i\<in>set ixs. Chain_BorrowBlockTransactions st i \<noteq> None) \<Longrightarrow>
     replay_blocks st ixs s sup0 =
       (let (s', sup') = replay_txs s sup0 (concat (map (block_txs st) ixs)) in (s', Some sup'))"
proof (induction ixs arbitrary: s sup0)
  case (Cons i ixs)
  have app: "replay_txs s sup0 (xs @ ys) = (let (s', sup') = replay_txs s sup0 xs in replay_txs s' sup' ys)"
    for s sup0 xs ys
    by (induction xs arbitrary: s sup0) (auto simp: Let_def case_prod_unfold)
  obtain blk where b: "Chain_BorrowBlockTransactions st i = Some blk" using Cons.prems by auto
  show ?case
    using Cons b by (auto simp: block_txs_def app case_prod_unfold Let_def split: option.splits)
qed simp

lemma replay_blocks_unreadable:
  "\<exists>i\<in>set ixs. Chain_BorrowBlockTransactions st i = None \<Longrightarrow> snd (replay_blocks st ixs s sup0) = None"
  by (induction ixs arbitrary: s sup0) (auto split: option.splits simp: Let_def case_prod_unfold)

lemma pop_down_take: "height \<le> n \<Longrightarrow> n \<le> length v \<Longrightarrow> pop_down v (rev [height..<n]) = take height v @ drop n v"
proof (induction "n - height" arbitrary: n v)
  case (Suc k)
  then obtain m where n: "n = Suc m" "height \<le> m" by (cases n) auto
  have "vec_pop_at v m = take m v @ drop n v"
    using Suc.prems n by (simp add: vec_pop_at_def)
  then show ?case using Suc.hyps(1) [of m "take m v @ drop n v"] Suc.hyps(2) Suc.prems n by simp
qed simp

end
