(* ===== verification/Chain_Accept.thy ===== *)
theory Chain_Accept
  imports Chain_Ledger
begin

text \<open>
  What \<^verbatim>\<open>Chain_AddBlock\<close> guarantees: the block it accepts, the ledger it leaves behind, conservation of
  coins, the replay guard, and what remains unchanged when it refuses.
\<close>

section \<open>The call as validation followed by a commit\<close>

definition accepted :: "crypto_env \<Rightarrow> node_state \<Rightarrow> block_t \<Rightarrow> u64 option" where
  "accepted E st block =
     (case transactions block of
        None \<Rightarrow> None
      | Some txs \<Rightarrow>
          if extends_tip E (g_chain st) block \<and>
             (case dag_params_spec E (blocks (g_chain st)) (unat (blockNumber (header block))) of
                None \<Rightarrow> False
              | Some (dagBytes, dagSeed) \<Rightarrow>
                  Block_HasValidProofOfWorkWithParams E (g_pow st) block
                    (blockNumber (header block) div of_nat EPOCH_LENGTH) dagBytes dagSeed) \<and>
             difficultyTarget (header block) = Chain_GetTargetForHeight (g_chain st) (length (blocks (g_chain st)))
          then validate_economics E (g_sheetMap st) (g_currentReward st) block txs
          else None)"

definition with_cache :: "node_state \<Rightarrow> dag_epoch_state_t list \<Rightarrow> node_state" where
  "with_cache st cache = st\<lparr> g_chain := (g_chain st)\<lparr> dagEpochs := cache \<rparr> \<rparr>"

definition commit :: "crypto_env \<Rightarrow> node_state \<Rightarrow> block_t \<Rightarrow> signed_transaction_t list \<Rightarrow> u64 \<Rightarrow> node_state \<times> bool" where
  "commit E st block txs expected =
     (let chain2 = (g_chain st)\<lparr> blocks := blocks (g_chain st) @ [block], chain_size := chain_size (g_chain st) + 1 \<rparr>;
          st2 = st\<lparr> g_chain := chain2, g_currentBlockHeight := of_nat (chain_size (g_chain st)),
                    g_sheetMap := fst (ledger_pass (g_sheetMap st) txs),
                    g_txMempool := remove_mined E (g_txMempool st) txs \<rparr>;
          supply' = fst (uint256_add_u64 (g_currentSupply st) expected)
      in if \<not> snd (ledger_pass (g_sheetMap st) txs) then (st2, False)
         else (st2\<lparr> g_currentSupply := supply',
                    g_currentReward := fst (CalculateBlockRewardAtHeight supply'
                        (of_nat (chain_size (g_chain st) + 1)) (g_currentReward st)) \<rparr>, True))"

lemma ComputeTarget_blocks:
  "blocks c = blocks c' \<Longrightarrow> Chain_ComputeTargetAtHeight c h t = Chain_ComputeTargetAtHeight c' h t"
  by (simp add: Chain_ComputeTargetAtHeight_def)

lemma target_loop_blocks: "blocks c = blocks c' \<Longrightarrow> target_loop n c h t = target_loop n c' h t"
  using ComputeTarget_blocks [of c c'] by (induction n arbitrary: h t) simp_all

lemma GetTarget_blocks: "blocks c = blocks c' \<Longrightarrow> Chain_GetTargetForHeight c h = Chain_GetTargetForHeight c' h"
  unfolding Chain_GetTargetForHeight_def by (rule target_loop_blocks)

lemma GetTarget_cache [simp]: "Chain_GetTargetForHeight (c\<lparr> dagEpochs := d \<rparr>) h = Chain_GetTargetForHeight c h"
  by (rule GetTarget_blocks) simp

lemma IsValid_blocks: "blocks c = blocks c' \<Longrightarrow> Chain_IsValid E c = Chain_IsValid E c'"
  by (simp add: Chain_IsValid_nth)

lemma AddBlockLocked_eq:
  assumes "dag_cache_ok (g_chain st)"
  shows "\<exists>cache. dag_cache_ok ((g_chain st)\<lparr> dagEpochs := cache \<rparr>) \<and>
    Chain_AddBlockLocked E st block =
      (case accepted E st block of
         None \<Rightarrow> (with_cache st cache, False)
       | Some expected \<Rightarrow> commit E (with_cache st cache) block (the (transactions block)) expected)"
proof (cases "transactions block = None \<or> \<not> extends_tip E (g_chain st) block")
  case True
  then have "Chain_AddBlockLocked E st block = (with_cache st (dagEpochs (g_chain st)), False)" "accepted E st block = None"
    by (auto simp: Chain_AddBlockLocked_def accepted_def with_cache_def split: option.splits)
  then show ?thesis using assms by (intro exI [of _ "dagEpochs (g_chain st)"]) simp
next
  case False
  then obtain txs where txs: "transactions block = Some txs" "extends_tip E (g_chain st) block" by auto
  obtain cache where c: "Chain_DagParamsForHeightLocked E (g_chain st) (unat (blockNumber (header block))) =
      ((g_chain st)\<lparr> dagEpochs := cache \<rparr>,
       dag_params_spec E (blocks (g_chain st)) (unat (blockNumber (header block))))"
    "dag_cache_ok ((g_chain st)\<lparr> dagEpochs := cache \<rparr>)"
    using DagParams_spec [OF assms] by blast
  show ?thesis
  proof (intro exI [of _ cache] conjI c(2))
    show "Chain_AddBlockLocked E st block =
      (case accepted E st block of
         None \<Rightarrow> (with_cache st cache, False)
       | Some expected \<Rightarrow> commit E (with_cache st cache) block (the (transactions block)) expected)"
      using txs c(1)
      by (simp add: Chain_AddBlockLocked_def accepted_def Let_def commit_def with_cache_def vec_push_back_def
          case_prod_unfold split: option.splits)
  qed
qed

section \<open>What validation establishes\<close>

text \<open>The facts about a block's transactions that validation leaves behind.\<close>

definition block_txs_ok :: "crypto_env \<Rightarrow> sheet \<Rightarrow> u64 \<Rightarrow> signed_transaction_t list \<Rightarrow> u64 \<Rightarrow> bool" where
  "block_txs_ok E s reward txs expected \<longleftrightarrow>
     (\<forall>tx\<in>set txs. Transaction_Verify E tx) \<and>
     (\<exists>cb. filter is_coinbase_tx txs = [cb] \<and> amount1 (transaction cb) = expected \<and> fee (transaction cb) = 0) \<and>
     unat expected = unat reward + block_fees txs \<and>
     (\<exists>b'. spec_block (sheet_bal s) (map transaction txs) = Some b') \<and>
     ordering_loop s [] txs"

lemma Verify_amounts:
  "Transaction_Verify E tx \<Longrightarrow> amount1 (transaction tx) \<noteq> 0 \<and> (is_coinbase_tx tx \<longrightarrow> amount2 (transaction tx) = 0)"
  by (simp add: Transaction_Verify_def is_coinbase_tx_def Let_def split: if_splits)

lemma validate_economics_sound:
  assumes "sheet_inv s" "finite_balances (sheet_bal s)" "total_balance (sheet_bal s) < TWO256"
    and "transactions block = Some txs" and "validate_economics E s reward block txs = Some expected"
  shows "block_txs_ok E s reward txs expected"
proof -
  let ?sp = "spec_select E (sheet_bal s) txs" and ?spends = "filter (\<lambda>tx. \<not> is_coinbase_tx tx) txs"
  define fees where "fees = snd (BalanceSheet_SelectSpendableTransactions E s txs)"
  have v: "length (fst (BalanceSheet_SelectSpendableTransactions E s txs)) = nonCoinbaseCount txs"
    "\<not> UINT64_MAX - reward < fees" "expected = reward + fees"
    "Block_ValidateCoinbaseAndFees E block expected = Some fees" "Chain_BlockRespectsSenderOrdering s block"
    using assms(5)
    by (auto simp: validate_economics_def Let_def case_prod_unfold fees_def split: if_splits option.splits)
  have cb: "coinbase_and_fees E expected txs False 0 = Some fees"
    using v(4) assms(4) by (simp add: Block_ValidateCoinbaseAndFees_def)
  note sound = coinbase_and_fees_sound [OF cb]
  have "length (fst ?sp) = length ?spends"
    using v(1) SelectSpendable_refines [OF assms(1-3), of E txs] by (simp add: nonCoinbaseCount_def is_coinbase_tx_def)
  then obtain b' where b': "spec_block (sheet_bal s) (map transaction ?spends) = Some b'"
    using spec_select_all [of E "sheet_bal s" txs] by (auto simp: is_coinbase_tx_def)
  have "map transaction ?spends = filter (\<lambda>t. \<not> Address_IsCoinbase (senderAddress t)) (map transaction txs)"
    by (simp add: filter_map is_coinbase_tx_def comp_def)
  then have "\<exists>c'. spec_block (sheet_bal s) (map transaction txs) = Some c'"
    using spec_block_of_spends [of "sheet_bal s" "sheet_bal s"] b' by (simp add: le_balances_def)
  moreover have "unat expected = unat reward + unat fees"
    using fee_room [OF v(2)] v(3) by simp
  ultimately show ?thesis
    using sound v(5) assms(4) by (simp add: block_txs_ok_def Chain_BlockRespectsSenderOrdering_def)
qed

lemma block_fees_spend_fees: "block_fees txs = spend_fees (map transaction txs)"
  by (simp add: block_fees_def spend_fees_def filter_map comp_def is_coinbase_tx_def)

lemma coinbase_payout_txs:
  "coinbase_payout (map transaction txs) = (\<Sum>tx\<leftarrow>filter is_coinbase_tx txs. payout_total (transaction tx))"
  by (simp add: coinbase_payout_def filter_map comp_def is_coinbase_tx_def [abs_def])

lemma block_txs_ok_payout:
  assumes "block_txs_ok E s reward txs expected"
  shows "coinbase_payout (map transaction txs) = unat expected" and "amounts_ok txs"
    and "\<forall>tx\<in>set txs. replayable (transaction tx)"
proof -
  obtain cb where cb: "filter is_coinbase_tx txs = [cb]" "amount1 (transaction cb) = expected"
    using assms by (auto simp: block_txs_ok_def)
  have ver: "\<forall>tx\<in>set txs. Transaction_Verify E tx" using assms by (simp add: block_txs_ok_def)
  have "cb \<in> set (filter is_coinbase_tx txs)" using cb(1) by simp
  then have "amount2 (transaction cb) = 0" using ver Verify_amounts by fastforce
  then show "coinbase_payout (map transaction txs) = unat expected"
    using cb by (simp add: coinbase_payout_txs payout_total_def)
  show "amounts_ok txs" "\<forall>tx\<in>set txs. replayable (transaction tx)"
    using ver Verify_amounts by (auto simp: amounts_ok_def replayable_def is_coinbase_tx_def)
qed

section \<open>Invariants of the node\<close>

text \<open>
  \<open>chain_inv\<close>: the blocks are numbered and linked, the size field is their number and the memo table of
  the DAG recurrence is right. \<open>coins_inv\<close>: the sheet is well formed and at most \<open>2 ^ 64\<close> coins exist
  per block, so that no 256-bit balance can overflow.
\<close>

definition chain_inv :: "crypto_env \<Rightarrow> node_state \<Rightarrow> bool" where
  "chain_inv E st \<longleftrightarrow> Chain_IsValid E (g_chain st) \<and> chain_size (g_chain st) = length (blocks (g_chain st)) \<and>
     dag_cache_ok (g_chain st) \<and> length (blocks (g_chain st)) \<le> 2 ^ 64"

definition coins_inv :: "node_state \<Rightarrow> bool" where
  "coins_inv st \<longleftrightarrow> sheet_inv (g_sheetMap st) \<and> finite_balances (sheet_bal (g_sheetMap st)) \<and>
     total_balance (sheet_bal (g_sheetMap st)) \<le> 2 ^ 64 * length (blocks (g_chain st))"

lemma coins_room:
  assumes "chain_inv E st" and "coins_inv st"
  shows "total_balance (sheet_bal (g_sheetMap st)) < TWO256"
    and "n \<le> 2 ^ 64 \<Longrightarrow> total_balance (sheet_bal (g_sheetMap st)) + n < TWO256"
proof -
  have "2 ^ 64 * length (blocks (g_chain st)) \<le> 2 ^ 64 * 2 ^ 64"
    using assms(1) unfolding chain_inv_def by (intro mult_left_mono) auto
  then have t: "total_balance (sheet_bal (g_sheetMap st)) \<le> 2 ^ 64 * 2 ^ 64"
    using assms(2) unfolding coins_inv_def by linarith
  have big: "2 ^ 64 * 2 ^ 64 + 2 ^ 64 < TWO256" by (simp add: TWO256_def)
  show "total_balance (sheet_bal (g_sheetMap st)) < TWO256" using t big by linarith
  show "n \<le> 2 ^ 64 \<Longrightarrow> total_balance (sheet_bal (g_sheetMap st)) + n < TWO256" using t big by linarith
qed

lemma extends_tip_linked:
  assumes "extends_tip E chain block" and "Chain_IsValid E chain"
  shows "Chain_IsValid E (chain\<lparr> blocks := blocks chain @ [block], chain_size := n, dagEpochs := d \<rparr>)"
    and "unat (blockNumber (header block)) = length (blocks chain)"
    and "blocks chain \<noteq> [] \<Longrightarrow> prevHash (header block) = Block_CalculateHash E (last (blocks chain))"
proof -
  show num: "unat (blockNumber (header block)) = length (blocks chain)"
    using assms(1) by (simp add: extends_tip_def Let_def split: if_splits)
  show prev: "blocks chain \<noteq> [] \<Longrightarrow> prevHash (header block) = Block_CalculateHash E (last (blocks chain))"
    using assms(1)
    by (auto simp: extends_tip_def Let_def vec_get_def last_conv_nth split: if_splits)
  have bn: "blockNumber (header block) = of_nat (length (blocks chain))" using num by (simp flip: num)
  show "Chain_IsValid E (chain\<lparr> blocks := blocks chain @ [block], chain_size := n, dagEpochs := d \<rparr>)"
    unfolding Chain_IsValid_nth
  proof (intro allI impI)
    fix i
    assume i: "i < length (blocks (chain\<lparr> blocks := blocks chain @ [block], chain_size := n, dagEpochs := d \<rparr>))"
    show "blockNumber (header (blocks (chain\<lparr> blocks := blocks chain @ [block], chain_size := n, dagEpochs := d \<rparr>) ! i)) = of_nat i \<and>
      (0 < i \<longrightarrow> prevHash (header (blocks (chain\<lparr> blocks := blocks chain @ [block], chain_size := n, dagEpochs := d \<rparr>) ! i)) =
         Block_CalculateHash E (blocks (chain\<lparr> blocks := blocks chain @ [block], chain_size := n, dagEpochs := d \<rparr>) ! (i - 1)))"
    proof (cases "i < length (blocks chain)")
      case True
      then show ?thesis using assms(2) by (auto simp: Chain_IsValid_nth nth_append)
    next
      case False
      then have "i = length (blocks chain)" using i by simp
      then show ?thesis using bn prev by (auto simp: nth_append last_conv_nth)
    qed
  qed
qed

section \<open>The commit\<close>

lemma accepted_facts:
  assumes "accepted E st block = Some expected"
  obtains txs dagBytes dagSeed where "transactions block = Some txs" "extends_tip E (g_chain st) block"
    "dag_params_spec E (blocks (g_chain st)) (unat (blockNumber (header block))) = Some (dagBytes, dagSeed)"
    "Block_HasValidProofOfWorkWithParams E (g_pow st) block (blockNumber (header block) div of_nat EPOCH_LENGTH) dagBytes dagSeed"
    "difficultyTarget (header block) = Chain_GetTargetForHeight (g_chain st) (length (blocks (g_chain st)))"
    "validate_economics E (g_sheetMap st) (g_currentReward st) block txs = Some expected"
  using assms by (auto simp: accepted_def split: option.splits if_splits)

lemma with_cache_simps [simp]:
  "g_sheetMap (with_cache st c) = g_sheetMap st" "g_currentSupply (with_cache st c) = g_currentSupply st"
  "g_currentReward (with_cache st c) = g_currentReward st" "g_txMempool (with_cache st c) = g_txMempool st"
  "g_currentBlockHeight (with_cache st c) = g_currentBlockHeight st" "g_pow (with_cache st c) = g_pow st"
  "g_difficultyTarget (with_cache st c) = g_difficultyTarget st" "disk (with_cache st c) = disk st"
  "blocks (g_chain (with_cache st c)) = blocks (g_chain st)"
  "chain_size (g_chain (with_cache st c)) = chain_size (g_chain st)"
  by (simp_all add: with_cache_def)

lemma commit_simps:
  "blocks (g_chain (fst (commit E st block txs c))) = blocks (g_chain st) @ [block]"
  "chain_size (g_chain (fst (commit E st block txs c))) = chain_size (g_chain st) + 1"
  "dagEpochs (g_chain (fst (commit E st block txs c))) = dagEpochs (g_chain st)"
  "g_sheetMap (fst (commit E st block txs c)) = fst (ledger_pass (g_sheetMap st) txs)"
  "g_txMempool (fst (commit E st block txs c)) = remove_mined E (g_txMempool st) txs"
  "g_currentBlockHeight (fst (commit E st block txs c)) = of_nat (chain_size (g_chain st))"
  "g_pow (fst (commit E st block txs c)) = g_pow st" "disk (fst (commit E st block txs c)) = disk st"
  "g_difficultyTarget (fst (commit E st block txs c)) = g_difficultyTarget st"
  "snd (commit E st block txs c) = snd (ledger_pass (g_sheetMap st) txs)"
  by (simp_all add: commit_def Let_def)

lemma commit_supply:
  "snd (commit E st block txs c) \<Longrightarrow>
     g_currentSupply (fst (commit E st block txs c)) = fst (uint256_add_u64 (g_currentSupply st) c) \<and>
     g_currentReward (fst (commit E st block txs c)) =
       fst (CalculateBlockRewardAtHeight (fst (uint256_add_u64 (g_currentSupply st) c))
              (of_nat (chain_size (g_chain st) + 1)) (g_currentReward st))"
  by (simp add: commit_def Let_def split: if_splits)

text \<open>An accepted block keeps the chain well formed, whatever the ledger looks like.\<close>

lemma commit_chain:
  assumes "chain_inv E st" "accepted E st block = Some expected" "dag_cache_ok ((g_chain st)\<lparr> dagEpochs := cache \<rparr>)"
  shows "chain_inv E (fst (commit E (with_cache st cache) block txs expected))"
proof -
  let ?st = "fst (commit E (with_cache st cache) block txs expected)"
  have tip: "extends_tip E (g_chain st) block" using accepted_facts [OF assms(2)] by blast
  have valid: "Chain_IsValid E (g_chain st)" using assms(1) by (simp add: chain_inv_def)
  have chain: "g_chain ?st = (g_chain st)\<lparr> blocks := blocks (g_chain st) @ [block], chain_size := chain_size (g_chain st) + 1, dagEpochs := cache \<rparr>"
    by (simp add: commit_def Let_def with_cache_def)
  have "dag_cache_ok (g_chain ?st)"
    using cache_ok_append [of "blocks (g_chain st)" cache "[block]"] assms(3) by (simp add: chain dag_cache_ok_def)
  moreover have "length (blocks (g_chain st)) < 2 ^ 64"
    using extends_tip_linked(2) [OF tip valid] unat_lt_64 [of "blockNumber (header block)"] by simp
  ultimately show ?thesis using extends_tip_linked(1) [OF tip valid] assms(1) by (simp add: chain_inv_def chain)
qed

lemma AddBlockLocked_chain:
  assumes "chain_inv E st" "Chain_AddBlockLocked E st block = (st', ok)"
  shows "chain_inv E st' \<and> (\<exists>bs. blocks (g_chain st') = blocks (g_chain st) @ bs \<and> bs \<in> {[], [block]} \<and> (ok \<longrightarrow> bs = [block])) \<and>
    disk st' = disk st \<and> g_pow st' = g_pow st"
proof -
  obtain cache where c: "dag_cache_ok ((g_chain st)\<lparr> dagEpochs := cache \<rparr>)" "Chain_AddBlockLocked E st block =
      (case accepted E st block of
         None \<Rightarrow> (with_cache st cache, False)
       | Some expected \<Rightarrow> commit E (with_cache st cache) block (the (transactions block)) expected)"
    using AddBlockLocked_eq assms(1) by (metis chain_inv_def)
  show ?thesis
  proof (cases "accepted E st block")
    case None
    then have st': "st' = with_cache st cache" "\<not> ok" using c(2) assms(2) by simp_all
    have "Chain_IsValid E (g_chain st')" "dag_cache_ok (g_chain st')"
      using assms(1) c(1) IsValid_blocks [of "g_chain st'" "g_chain st"]
      by (simp_all add: st' chain_inv_def) (simp add: with_cache_def)
    then show ?thesis using assms(1) st'(2) by (simp add: st'(1) chain_inv_def)
  next
    case (Some expected)
    then have "st' = fst (commit E (with_cache st cache) block (the (transactions block)) expected)"
      using c(2) assms(2) by (simp add: prod_eq_iff)
    then show ?thesis using commit_chain [OF assms(1) Some c(1)] by (simp add: commit_simps)
  qed
qed

text \<open>An accepted block keeps both invariants, whether or not its ledger pass completes.\<close>

lemma commit_inv:
  assumes "chain_inv E st" "coins_inv st" "accepted E st block = Some expected" "transactions block = Some txs"
    and "dag_cache_ok ((g_chain st)\<lparr> dagEpochs := cache \<rparr>)"
  shows "block_txs_ok E (g_sheetMap st) (g_currentReward st) txs expected"
    and "chain_inv E (fst (commit E (with_cache st cache) block txs expected))"
    and "coins_inv (fst (commit E (with_cache st cache) block txs expected))"
proof -
  let ?st = "fst (commit E (with_cache st cache) block txs expected)"
  have f: "validate_economics E (g_sheetMap st) (g_currentReward st) block txs = Some expected"
    using accepted_facts [OF assms(3)] assms(4) by (metis option.sel)
  have sh: "sheet_inv (g_sheetMap st)" "finite_balances (sheet_bal (g_sheetMap st))" using assms(2) by (simp_all add: coins_inv_def)
  show ok: "block_txs_ok E (g_sheetMap st) (g_currentReward st) txs expected"
    by (rule validate_economics_sound [OF sh coins_room(1) [OF assms(1,2)] assms(4) f])
  show "chain_inv E ?st" by (rule commit_chain [OF assms(1,3,5)])
  have "total_balance (sheet_bal (fst (ledger_pass (g_sheetMap st) txs))) \<le> total_balance (sheet_bal (g_sheetMap st)) + unat expected"
    "sheet_inv (fst (ledger_pass (g_sheetMap st) txs))" "finite_balances (sheet_bal (fst (ledger_pass (g_sheetMap st) txs)))"
    using ledger_pass_keeps [OF sh block_txs_ok_payout(2) [OF ok] surjective_pairing] block_txs_ok_payout(1) [OF ok] by auto
  then show "coins_inv ?st"
    using assms(2) unat_lt_64 [of expected] by (simp add: coins_inv_def commit_simps)
qed

lemma AddBlockLocked_inv:
  assumes "chain_inv E st" "coins_inv st" "Chain_AddBlockLocked E st block = (st', ok)"
  shows "chain_inv E st' \<and> coins_inv st' \<and> disk st' = disk st \<and> g_pow st' = g_pow st"
proof -
  obtain cache where c: "dag_cache_ok ((g_chain st)\<lparr> dagEpochs := cache \<rparr>)" "Chain_AddBlockLocked E st block =
      (case accepted E st block of
         None \<Rightarrow> (with_cache st cache, False)
       | Some expected \<Rightarrow> commit E (with_cache st cache) block (the (transactions block)) expected)"
    using AddBlockLocked_eq assms(1) by (metis chain_inv_def)
  have "coins_inv st'"
  proof (cases "accepted E st block")
    case None
    then have "st' = with_cache st cache" using c(2) assms(3) by simp
    then show ?thesis using assms(2) by (simp add: coins_inv_def)
  next
    case (Some expected)
    obtain txs where txs: "transactions block = Some txs" using accepted_facts [OF Some] by blast
    then have "st' = fst (commit E (with_cache st cache) block txs expected)" using c(2) assms(3) Some by (simp add: prod_eq_iff)
    then show ?thesis using commit_inv(3) [OF assms(1,2) Some txs c(1)] by simp
  qed
  then show ?thesis using AddBlockLocked_chain [OF assms(1,3)] by blast
qed

text \<open>A successful call, in full.\<close>

definition appended :: "crypto_env \<Rightarrow> node_state \<Rightarrow> block_t \<Rightarrow> signed_transaction_t list \<Rightarrow> u64 \<Rightarrow> node_state \<Rightarrow> bool" where
  "appended E st block txs expected st' \<longleftrightarrow>
     transactions block = Some txs \<and> block_txs_ok E (g_sheetMap st) (g_currentReward st) txs expected \<and>
     payments_addressed txs \<and>
     blocks (g_chain st') = blocks (g_chain st) @ [block] \<and>
     spec_block (sheet_bal (g_sheetMap st)) (map transaction txs) = Some (sheet_bal (g_sheetMap st')) \<and>
     last_ts (g_sheetMap st') = foldl note_spend (last_ts (g_sheetMap st)) (map transaction txs) \<and>
     g_txMempool st' = remove_mined E (g_txMempool st) txs \<and>
     g_currentBlockHeight st' = of_nat (length (blocks (g_chain st))) \<and>
     g_currentSupply st' = fst (uint256_add_u64 (g_currentSupply st) expected) \<and>
     g_currentReward st' = fst (CalculateBlockRewardAtHeight (g_currentSupply st')
                                  (of_nat (length (blocks (g_chain st')))) (g_currentReward st))"

lemma AddBlockLocked_True:
  assumes "chain_inv E st" "coins_inv st" "Chain_AddBlockLocked E st block = (st', True)"
  shows "\<exists>expected. accepted E st block = Some expected \<and> appended E st block (the (transactions block)) expected st'"
proof -
  obtain cache where c: "dag_cache_ok ((g_chain st)\<lparr> dagEpochs := cache \<rparr>)" "Chain_AddBlockLocked E st block =
      (case accepted E st block of
         None \<Rightarrow> (with_cache st cache, False)
       | Some expected \<Rightarrow> commit E (with_cache st cache) block (the (transactions block)) expected)"
    using AddBlockLocked_eq assms(1) by (metis chain_inv_def)
  obtain expected where acc: "accepted E st block = Some expected" using c(2) assms(3) by (auto split: option.splits)
  obtain txs where txs: "transactions block = Some txs" using accepted_facts [OF acc] by blast
  have r: "commit E (with_cache st cache) block txs expected = (st', True)" using c(2) assms(3) acc txs by simp
  then have st': "st' = fst (commit E (with_cache st cache) block txs expected)"
    and ok: "snd (commit E (with_cache st cache) block txs expected)" by simp_all
  note ver = commit_inv [OF assms(1,2) acc txs c(1)]
  have pass: "snd (ledger_pass (g_sheetMap st) txs)" using ok by (simp add: commit_simps)
  note addr = ledger_pass_addressed [OF pass]
  have "spec_block (sheet_bal (g_sheetMap st)) (map transaction txs) = Some (sheet_bal (fst (ledger_pass (g_sheetMap st) txs)))
      \<and> last_ts (fst (ledger_pass (g_sheetMap st) txs)) = foldl note_spend (last_ts (g_sheetMap st)) (map transaction txs)"
    using ledger_pass_refines [of "g_sheetMap st" txs] assms(2) block_txs_ok_payout [OF ver(1)] addr pass
      coins_room(2) [OF assms(1,2), of "unat expected"] unat_lt_64 [of expected]
    by (auto simp: coins_inv_def split: option.splits)
  then show ?thesis
    using ver(1) txs acc addr commit_supply [OF ok] assms(1)
    by (intro exI [of _ expected]) (simp add: appended_def st' commit_simps chain_inv_def)
qed

text \<open>A refusal changes nothing but the memo table, unless a transaction pays its second amount to nobody.\<close>

definition block_addressed :: "block_t \<Rightarrow> bool" where
  "block_addressed block \<longleftrightarrow> (case transactions block of None \<Rightarrow> True | Some txs \<Rightarrow> payments_addressed txs)"

lemma commit_addressed:
  assumes "chain_inv E st" "coins_inv st" "accepted E st block = Some expected" "transactions block = Some txs"
    and "dag_cache_ok ((g_chain st)\<lparr> dagEpochs := cache \<rparr>)"
  shows "snd (ledger_pass (g_sheetMap st) txs) \<longleftrightarrow> payments_addressed txs"
proof
  assume addr: "payments_addressed txs"
  note ver = commit_inv(1) [OF assms]
  show "snd (ledger_pass (g_sheetMap st) txs)"
    using ledger_pass_refines [of "g_sheetMap st" txs] assms(2) block_txs_ok_payout [OF ver] addr ver
      coins_room(2) [OF assms(1,2), of "unat expected"] unat_lt_64 [of expected]
    by (auto simp: coins_inv_def block_txs_ok_def split: option.splits)
qed (rule ledger_pass_addressed)

lemma AddBlockLocked_False:
  assumes "chain_inv E st" "coins_inv st" "Chain_AddBlockLocked E st block = (st', False)"
  shows "(\<exists>cache. dag_cache_ok ((g_chain st)\<lparr> dagEpochs := cache \<rparr>) \<and> st' = with_cache st cache) \<or>
    (\<not> block_addressed block \<and> accepted E st block \<noteq> None \<and> blocks (g_chain st') = blocks (g_chain st) @ [block])"
proof -
  obtain cache where c: "dag_cache_ok ((g_chain st)\<lparr> dagEpochs := cache \<rparr>)" "Chain_AddBlockLocked E st block =
      (case accepted E st block of
         None \<Rightarrow> (with_cache st cache, False)
       | Some expected \<Rightarrow> commit E (with_cache st cache) block (the (transactions block)) expected)"
    using AddBlockLocked_eq assms(1) by (metis chain_inv_def)
  show ?thesis
  proof (cases "accepted E st block")
    case None
    then show ?thesis using c assms(3) by auto
  next
    case (Some expected)
    obtain txs where txs: "transactions block = Some txs" using accepted_facts [OF Some] by blast
    have r: "commit E (with_cache st cache) block txs expected = (st', False)" using c(2) assms(3) Some txs by simp
    then have "\<not> snd (ledger_pass (g_sheetMap st) txs)" by (metis commit_simps(10) snd_conv with_cache_simps(1))
    then have "\<not> payments_addressed txs" using commit_addressed [OF assms(1,2) Some txs c(1)] by simp
    moreover have "blocks (g_chain st') = blocks (g_chain st) @ [block]"
      using commit_simps(1) [of E "with_cache st cache" block txs expected] r by simp
    ultimately show ?thesis using txs Some by (simp add: block_addressed_def)
  qed
qed

lemma AddBlockLocked_unaddressed:
  assumes "chain_inv E st" "coins_inv st" "accepted E st block \<noteq> None" "\<not> block_addressed block"
  shows "\<not> snd (Chain_AddBlockLocked E st block) \<and>
    blocks (g_chain (fst (Chain_AddBlockLocked E st block))) = blocks (g_chain st) @ [block]"
proof -
  obtain expected where acc: "accepted E st block = Some expected" using assms(3) by blast
  obtain cache where c: "dag_cache_ok ((g_chain st)\<lparr> dagEpochs := cache \<rparr>)" "Chain_AddBlockLocked E st block =
      (case accepted E st block of
         None \<Rightarrow> (with_cache st cache, False)
       | Some expected \<Rightarrow> commit E (with_cache st cache) block (the (transactions block)) expected)"
    using AddBlockLocked_eq assms(1) by (metis chain_inv_def)
  obtain txs where txs: "transactions block = Some txs" using accepted_facts [OF acc] by blast
  have "Chain_AddBlockLocked E st block = commit E (with_cache st cache) block txs expected"
    using c(2) acc txs by simp
  then show ?thesis
    using commit_addressed [OF assms(1,2) acc txs c(1)] assms(4) txs by (simp add: commit_simps block_addressed_def)
qed

section \<open>The replay guard\<close>

text \<open>Spends of each sender carry strictly increasing timestamps, starting above \<open>f\<close>.\<close>

fun increasing_from :: "(address \<Rightarrow> u64) \<Rightarrow> transaction_t list \<Rightarrow> bool" where
  "increasing_from f [] = True"
| "increasing_from f (t # ts) =
     ((Address_IsCoinbase (senderAddress t) \<or> f (senderAddress t) < tx_timestamp t) \<and> increasing_from (note_spend f t) ts)"

lemma increasing_from_append:
  "increasing_from f (xs @ ys) \<longleftrightarrow> increasing_from f xs \<and> increasing_from (foldl note_spend f xs) ys"
  by (induction xs arbitrary: f) auto

lemma fold_earlier_spends:
  "\<not> Address_IsCoinbase (senderAddress t) \<Longrightarrow>
     fold_earlier earlier t (f (senderAddress t)) = foldl note_spend f (map transaction earlier) (senderAddress t)"
proof (induction earlier arbitrary: f)
  case (Cons p ps)
  have "fold_earlier (p # ps) t (f (senderAddress t)) =
      fold_earlier ps t (note_spend f (transaction p) (senderAddress t))"
    using Cons.prems by (auto simp: note_spend_def Let_def max_def)
  then show ?case using Cons.IH [OF Cons.prems, of "note_spend f (transaction p)"] by simp
qed simp

lemma ordering_loop_increasing:
  "ordering_loop s earlier txs \<longleftrightarrow>
     increasing_from (foldl note_spend (last_ts s) (map transaction earlier)) (map transaction txs)"
proof (induction txs arbitrary: earlier)
  case (Cons tx txs)
  have base: "baseline s t = last_ts s (senderAddress t)" for t by (simp add: baseline_def last_ts_def)
  show ?case
  proof (cases "Address_IsCoinbase (senderAddress (transaction tx))")
    case True
    then show ?thesis using Cons.IH [of "earlier @ [tx]"] by (simp add: Let_def)
  next
    case False
    then show ?thesis
      using Cons.IH [of "earlier @ [tx]"] fold_earlier_spends [OF False, of earlier "last_ts s"]
      by (auto simp: Let_def base not_le)
  qed
qed simp

lemma increasing_from_bound:
  "increasing_from f ts \<Longrightarrow> t \<in> set ts \<Longrightarrow> \<not> Address_IsCoinbase (senderAddress t) \<Longrightarrow> f (senderAddress t) < tx_timestamp t"
proof (induction ts arbitrary: f)
  case (Cons u ts)
  then show ?case
    using Cons.IH [of "note_spend f u"] note_spend_mono [of f "senderAddress t" u] by (auto intro: le_less_trans)
qed simp

lemma increasing_from_nth:
  assumes "increasing_from f ts" "i < j" "j < length ts" "senderAddress (ts ! i) = senderAddress (ts ! j)"
    and "\<not> Address_IsCoinbase (senderAddress (ts ! i))"
  shows "tx_timestamp (ts ! i) < tx_timestamp (ts ! j)"
proof -
  have split: "ts = take j ts @ ts ! j # drop (Suc j) ts" using assms(3) by (rule id_take_nth_drop)
  have "increasing_from (foldl note_spend f (take j ts)) (ts ! j # drop (Suc j) ts)"
    using assms(1) split by (metis increasing_from_append)
  then have "foldl note_spend f (take j ts) (senderAddress (ts ! i)) < tx_timestamp (ts ! j)"
    using assms(4,5) by simp
  moreover have "ts ! i \<in> set (take j ts)"
    using assms(2,3) by (metis in_set_conv_nth length_take min.absorb2 nth_take order_less_imp_le)
  ultimately show ?thesis using foldl_note_spend_ge [OF _ assms(5)] by (meson le_less_trans)
qed

section \<open>A concrete node\<close>

text \<open>
  An environment whose Blake2b digests are all zero, so that every header meets its target, a node with
  one block and one funded account, and a block that spends from it.
\<close>

definition easy_env :: crypto_env where
  "easy_env = demo_env\<lparr> EVP_blake2b512 := (\<lambda>m. Some (replicate 64 0)) \<rparr>"

definition funded_node :: node_state where
  "funded_node = \<lparr> g_chain = \<lparr> blocks = [demo_block 0], chain_size = 1, dagEpochs = [] \<rparr>,
     g_currentSupply = uint256_from_u64 100, g_currentReward = 50, g_currentBlockHeight = 0,
     g_difficultyTarget = INITIAL_DIFFICULTY, g_sheetMap = demo_sheet, g_txMempool = TxMempool_Init,
     g_pow = pow_initial, disk = (\<lambda>_. None) \<rparr>"

definition coinbase_of :: "u64 \<Rightarrow> signed_transaction_t" where
  "coinbase_of x = demo_tx\<lparr> transaction := (transaction demo_tx)\<lparr> senderAddress := replicate 32 0xFF,
     recipientAddress1 := replicate 32 2, amount1 := x, fee := 0 \<rparr> \<rparr>"

definition easy_block :: "nat \<Rightarrow> byte list \<Rightarrow> signed_transaction_t list \<Rightarrow> block_t" where
  "easy_block n prev txs = \<lparr> header = (header Block_Create)\<lparr> blockNumber := of_nat n, prevHash := prev,
     difficultyTarget := INITIAL_DIFFICULTY \<rparr>, transactions = Some txs \<rparr>"

lemma easy_blake [simp]: "n \<le> 64 \<Longrightarrow> 0 < n \<Longrightarrow> Blake2b_Hash easy_env m n = Some (replicate n 0)"
  by (simp add: Blake2b_Hash_def Blake2_HashInternal_def easy_env_def)

lemma easy_rounds:
  "laneCount \<noteq> 0 \<Longrightarrow> hash_rounds easy_env (read_lane easy_env None False (Some sd) ms) ms nn h laneCount rs (replicate 32 0)
     = Some (replicate 32 0)"
  by (induction rs) (simp_all add: ComputeLaneIndex_def read_lane_def ReadDagLaneFromSeed_def zip_replicate Let_def)

lemma easy_pow:
  assumes "DecodeCompactTarget (difficultyTarget (header block)) = Some target" "length target = 32"
  shows "Block_HasValidProofOfWorkWithParams easy_env pow_initial block ep (2 * 2 ^ 30) sd"
proof -
  have "(of_nat (2 * 2 ^ 30 div 32) :: u32) \<noteq> 0" by simp
  note r = easy_rounds [OF this]
  have "Block_PowHashLight easy_env block (2 * 2 ^ 30) sd = Some (replicate 32 0)"
    using r by (simp add: Block_PowHashLight_def Autolykos2_LightHashAtHeight_def DeriveSeedFromMessage_def
        Autolykos2_HashCore_def Autolykos2_FallbackHash_def)
  moreover have "CompareHashToTarget (replicate 32 0) target \<le> 0"
    using CompareHashToTarget_le0 [of "replicate 32 0" target] assms(2) by (simp add: be_val_replicate_0)
  ultimately show ?thesis
    using assms(1) by (simp add: Block_HasValidProofOfWorkWithParams_def Block_PowHashHeavy_def pow_initial_def)
qed

lemma easy_target: "\<exists>target. DecodeCompactTarget INITIAL_DIFFICULTY = Some target \<and> length target = 32"
  by (simp add: DecodeCompactTarget_Some INITIAL_DIFFICULTY_def compact_mantissa_def compact_exponent_def target_with_def)

lemma easy_accepted_block:
  assumes "g_pow st = pow_initial" "length (blocks (g_chain st)) = n" "n < 3840"
    and "n = 0 \<or> prevHash (header b) = Block_CalculateHash easy_env (last (blocks (g_chain st)))"
    and "transactions b = Some txs" "unat (blockNumber (header b)) = n" "difficultyTarget (header b) = INITIAL_DIFFICULTY"
  shows "accepted easy_env st b = validate_economics easy_env (g_sheetMap st) (g_currentReward st) b txs"
proof -
  have tip: "extends_tip easy_env (g_chain st) b"
    using assms(2,4,6) by (auto simp: extends_tip_def Let_def vec_get_def last_conv_nth)
  have "dag_params_spec easy_env (blocks (g_chain st)) n = Some (2 * 2 ^ 30, replicate 32 0)"
    using assms(3) by (simp add: dag_params_spec_def EPOCH_LENGTH_def DAG_BASE_SIZE_def)
  moreover have "Chain_GetTargetForHeight (g_chain st) n = INITIAL_DIFFICULTY"
    using assms(3) by (simp add: Chain_GetTargetForHeight_def DIFFICULTY_ADJUSTMENT_INTERVAL_def)
  ultimately show ?thesis
    using tip assms(1,2,5-7) easy_target easy_pow [of b] by (auto simp: accepted_def)
qed

lemma easy_accepted:
  assumes "g_pow st = pow_initial" "length (blocks (g_chain st)) = n" "n < 3840"
    and "n = 0 \<or> prev = Block_CalculateHash easy_env (last (blocks (g_chain st)))"
  shows "accepted easy_env st (easy_block n prev txs) =
    validate_economics easy_env (g_sheetMap st) (g_currentReward st) (easy_block n prev txs) txs"
  by (rule easy_accepted_block [OF assms(1-3)]) (use assms(3,4) in \<open>auto simp: easy_block_def unat_of_nat\<close>)

lemma funded_node_inv: "chain_inv easy_env funded_node" "coins_inv funded_node"
proof -
  have "total_balance (sheet_bal demo_sheet) = 100"
  proof -
    have b: "sheet_bal demo_sheet = add_to (\<lambda>_. 0) (replicate 32 2) 100"
      by (rule ext) (simp add: sheet_bal_def map_bal_def demo_sheet_def add_to_def)
    show ?thesis unfolding b by (subst total_add_to) (simp_all add: finite_balances_def total_balance_def)
  qed
  then show "coins_inv funded_node" using demo_sheet_facts by (simp add: coins_inv_def funded_node_def)
  show "chain_inv easy_env funded_node"
    by (simp add: chain_inv_def funded_node_def Chain_IsValid_def demo_block_def dag_cache_ok_def cache_ok_def)
qed

definition signed :: "transaction_t \<Rightarrow> signed_transaction_t" where
  "signed t = \<lparr> transaction = t, signature = sha256d easy_env (sha256d easy_env (tx_image t)) \<rparr>"

definition spend_tx :: "u64 \<Rightarrow> signed_transaction_t" where
  "spend_tx x = signed ((transaction demo_tx)\<lparr> amount2 := x \<rparr>)"

definition spend_block :: "u64 \<Rightarrow> block_t" where
  "spend_block x = easy_block 1 (Block_CalculateHash easy_env (demo_block 0)) [coinbase_of 51, spend_tx x]"

lemma spend_tx_verifies: "Transaction_Verify easy_env (spend_tx x)"
  by (simp add: Transaction_Verify_def spend_tx_def signed_def demo_tx_def easy_env_def demo_env_def Let_def
      Crypto_VerifySignature_def Transaction_CalculateHash_def crypto_hash_to_32_def sha256d_def zeroAddress_def)

lemma coinbase_of_verifies: "x \<noteq> 0 \<Longrightarrow> Transaction_Verify easy_env (coinbase_of x)"
  by (simp add: Transaction_Verify_def coinbase_of_def demo_tx_def zeroAddress_def Let_def)

lemma spend_block_accepted: "unat x \<le> 80 \<Longrightarrow> accepted easy_env funded_node (spend_block x) = Some 51"
proof -
  assume x: "unat x \<le> 80"
  let ?txs = "[coinbase_of 51, spend_tx x]"
  have cb: "Address_IsCoinbase (senderAddress (transaction (coinbase_of 51)))"
    "\<not> Address_IsCoinbase (senderAddress (transaction (spend_tx x)))"
    by (simp_all add: coinbase_of_def spend_tx_def signed_def demo_tx_def Address_IsCoinbase_def list_all_iff)
  have cov: "covered (sheet_bal demo_sheet) (transaction (spend_tx x))"
    using x by (simp add: covered_def spend_tx_def signed_def demo_tx_def spend_total_def sheet_bal_def map_bal_def demo_sheet_def)
  have sel: "BalanceSheet_SelectSpendableTransactions easy_env demo_sheet ?txs = ([spend_tx x], 1)"
    using SelectSpendable_refines [OF demo_sheet_facts, of easy_env ?txs] cb cov spend_tx_verifies
    by (simp add: fees_of_def Let_def) (simp add: spend_tx_def signed_def demo_tx_def)
  have ord: "ordering_loop demo_sheet [] ?txs"
    using cb by (simp add: Let_def baseline_def demo_sheet_def) (simp add: spend_tx_def signed_def demo_tx_def)
  have fees: "coinbase_and_fees easy_env 51 ?txs False 0 = Some 1"
    using cb spend_tx_verifies coinbase_of_verifies [of 51]
    by (simp add: Let_def) (simp add: spend_tx_def signed_def coinbase_of_def demo_tx_def)
  have "validate_economics easy_env demo_sheet 50 (easy_block 1 prev ?txs) ?txs = Some 51" for prev
    using sel ord fees cb
    by (simp add: validate_economics_def nonCoinbaseCount_def Block_ValidateCoinbaseAndFees_def easy_block_def
        Chain_BlockRespectsSenderOrdering_def Let_def)
  then show ?thesis
    unfolding spend_block_def by (subst easy_accepted) (simp_all add: funded_node_def)
qed

section \<open>Properties\<close>

lemma OnTipAdvanced_simps [simp]:
  "g_chain (Chain_OnTipAdvanced st) = g_chain st" "g_sheetMap (Chain_OnTipAdvanced st) = g_sheetMap st"
  "g_currentSupply (Chain_OnTipAdvanced st) = g_currentSupply st" "g_currentReward (Chain_OnTipAdvanced st) = g_currentReward st"
  "g_txMempool (Chain_OnTipAdvanced st) = g_txMempool st" "g_pow (Chain_OnTipAdvanced st) = g_pow st"
  "g_currentBlockHeight (Chain_OnTipAdvanced st) = g_currentBlockHeight st" "disk (Chain_OnTipAdvanced st) = disk st"
  by (simp_all add: Chain_OnTipAdvanced_def)

lemma OnTipAdvanced_inv [simp]:
  "chain_inv E (Chain_OnTipAdvanced st) = chain_inv E st" "coins_inv (Chain_OnTipAdvanced st) = coins_inv st"
  by (simp_all add: chain_inv_def coins_inv_def)

lemma AddBlock_Locked:
  "Chain_AddBlock E st block = (st', ok) \<Longrightarrow>
     (\<exists>st1. Chain_AddBlockLocked E st block = (st1, ok) \<and> st' = (if ok then Chain_OnTipAdvanced st1 else st1))"
proof (cases "transactions block = None")
  case True
  moreover assume "Chain_AddBlock E st block = (st', ok)"
  ultimately show ?thesis by (simp add: Chain_AddBlock_def Chain_AddBlockLocked_def)
next
  case False
  moreover assume "Chain_AddBlock E st block = (st', ok)"
  ultimately show ?thesis by (auto simp: Chain_AddBlock_def case_prod_unfold Let_def prod_eq_iff split: if_splits)
qed

lemma AddBlock_inv:
  assumes "chain_inv E st" "coins_inv st" "Chain_AddBlock E st block = (st', ok)"
  shows "chain_inv E st' \<and> coins_inv st'"
proof -
  obtain st1 where st1: "Chain_AddBlockLocked E st block = (st1, ok)" "st' = (if ok then Chain_OnTipAdvanced st1 else st1)"
    using AddBlock_Locked [OF assms(3)] by blast
  show ?thesis using AddBlockLocked_inv [OF assms(1,2) st1(1)] by (simp add: st1(2))
qed

lemma AddBlock_appended:
  assumes "chain_inv E st" "coins_inv st" "Chain_AddBlock E st block = (st', True)"
  shows "\<exists>expected. accepted E st block = Some expected \<and> appended E st block (the (transactions block)) expected st'"
proof -
  obtain st1 where st1: "Chain_AddBlockLocked E st block = (st1, True)" "st' = Chain_OnTipAdvanced st1"
    using AddBlock_Locked [OF assms(3)] by (metis (full_types))
  show ?thesis using AddBlockLocked_True [OF assms(1,2) st1(1)] by (simp add: appended_def st1(2))
qed

text \<open>
  C4: a block \<^verbatim>\<open>Chain_AddBlock\<close> accepts carries the next height, links to the tip by hash, claims the
  difficulty the chain requires at that height, has valid proof of work under the DAG size and seed the
  headers define, consists of transactions that all verify, and contains exactly one coinbase, worth the
  current reward plus the block's fees; it becomes the new tip and the chain stays numbered and linked.
\<close>

theorem AddBlock_accepts_only_valid:
  assumes "chain_inv E st" and "coins_inv st" and "Chain_AddBlock E st block = (st', True)"
  shows "\<exists>txs cb dagBytes dagSeed.
    transactions block = Some txs \<and>
    unat (blockNumber (header block)) = length (blocks (g_chain st)) \<and>
    (blocks (g_chain st) \<noteq> [] \<longrightarrow> prevHash (header block) = Block_CalculateHash E (last (blocks (g_chain st)))) \<and>
    difficultyTarget (header block) = Chain_GetTargetForHeight (g_chain st) (length (blocks (g_chain st))) \<and>
    dag_params_spec E (blocks (g_chain st)) (length (blocks (g_chain st))) = Some (dagBytes, dagSeed) \<and>
    Block_HasValidProofOfWorkWithParams E (g_pow st) block (blockNumber (header block) div of_nat EPOCH_LENGTH) dagBytes dagSeed \<and>
    (\<forall>tx\<in>set txs. Transaction_Verify E tx) \<and>
    filter is_coinbase_tx txs = [cb] \<and>
    unat (amount1 (transaction cb)) = unat (g_currentReward st) + block_fees txs \<and>
    blocks (g_chain st') = blocks (g_chain st) @ [block] \<and> Chain_IsValid E (g_chain st')"
proof -
  obtain expected where a: "accepted E st block = Some expected" "appended E st block (the (transactions block)) expected st'"
    using AddBlock_appended [OF assms] by blast
  have valid: "Chain_IsValid E (g_chain st)" "Chain_IsValid E (g_chain st')"
    using assms(1) AddBlock_inv [OF assms] by (simp_all add: chain_inv_def)
  from a(1) show ?thesis
  proof (rule accepted_facts)
    fix txs dagBytes dagSeed
    assume f: "transactions block = Some txs" "extends_tip E (g_chain st) block"
      "dag_params_spec E (blocks (g_chain st)) (unat (blockNumber (header block))) = Some (dagBytes, dagSeed)"
      "Block_HasValidProofOfWorkWithParams E (g_pow st) block (blockNumber (header block) div of_nat EPOCH_LENGTH) dagBytes dagSeed"
      "difficultyTarget (header block) = Chain_GetTargetForHeight (g_chain st) (length (blocks (g_chain st)))"
    note link = extends_tip_linked [OF f(2) valid(1)]
    obtain cb where cb: "filter is_coinbase_tx txs = [cb]" "amount1 (transaction cb) = expected"
      using a(2) f(1) by (auto simp: appended_def block_txs_ok_def)
    show ?thesis
      by (rule exI [of _ txs], rule exI [of _ cb], rule exI [of _ dagBytes], rule exI [of _ dagSeed])
        (use f link cb a(2) valid(2) in \<open>auto simp: appended_def block_txs_ok_def\<close>)
  qed
qed

lemma spend_block_added: "\<exists>st'. Chain_AddBlock easy_env funded_node (spend_block 0) = (st', True)"
proof -
  have acc: "accepted easy_env funded_node (spend_block 0) = Some 51" by (rule spend_block_accepted) simp
  have t: "transactions (spend_block 0) = Some [coinbase_of 51, spend_tx 0]" by (simp add: spend_block_def easy_block_def)
  have addr: "payments_addressed [coinbase_of 51, spend_tx 0]"
    by (simp add: payments_addressed_def pays_nobody_def coinbase_of_def spend_tx_def signed_def demo_tx_def)
  obtain cache where c: "dag_cache_ok ((g_chain funded_node)\<lparr> dagEpochs := cache \<rparr>)"
    "Chain_AddBlockLocked easy_env funded_node (spend_block 0) =
       commit easy_env (with_cache funded_node cache) (spend_block 0) [coinbase_of 51, spend_tx 0] 51"
    using AddBlockLocked_eq [of funded_node easy_env "spend_block 0"] funded_node_inv(1) acc t
    by (auto simp: chain_inv_def)
  then have "snd (Chain_AddBlockLocked easy_env funded_node (spend_block 0))"
    using commit_addressed [OF funded_node_inv acc t c(1)] addr by (simp add: commit_simps)
  then show ?thesis using t by (simp add: Chain_AddBlock_def case_prod_unfold Let_def)
qed

theorem AddBlock_accepts_only_valid_witness:
  "unat (blockNumber (header (spend_block 0))) = 1 \<and>
   Chain_IsValid easy_env (g_chain (fst (Chain_AddBlock easy_env funded_node (spend_block 0))))"
proof -
  obtain st' where a: "Chain_AddBlock easy_env funded_node (spend_block 0) = (st', True)" using spend_block_added by blast
  have "length (blocks (g_chain funded_node)) = 1" by (simp add: funded_node_def)
  with AddBlock_accepts_only_valid [OF funded_node_inv a] a show ?thesis by auto
qed

text \<open>
  C10: accepting a block applies exactly its transactions to the balances, in order and each covered by
  what precedes it, and records for every sender the latest timestamp it spent with; the 256-bit
  arithmetic of the ledger pass never overflows or underflows on the way.
\<close>

theorem AddBlock_refines_ledger:
  assumes "chain_inv E st" and "coins_inv st" and "Chain_AddBlock E st block = (st', True)"
    and "transactions block = Some txs"
  shows "spec_block (sheet_bal (g_sheetMap st)) (map transaction txs) = Some (sheet_bal (g_sheetMap st')) \<and>
    last_ts (g_sheetMap st') = foldl note_spend (last_ts (g_sheetMap st)) (map transaction txs)"
  using AddBlock_appended [OF assms(1-3)] assms(4) by (auto simp: appended_def)

theorem AddBlock_refines_ledger_witness:
  "spec_block (sheet_bal demo_sheet) [transaction (coinbase_of 51), transaction (spend_tx 0)] =
     Some (sheet_bal (g_sheetMap (fst (Chain_AddBlock easy_env funded_node (spend_block 0)))))"
proof -
  obtain st' where a: "Chain_AddBlock easy_env funded_node (spend_block 0) = (st', True)" using spend_block_added by blast
  have t: "transactions (spend_block 0) = Some [coinbase_of 51, spend_tx 0]" by (simp add: spend_block_def easy_block_def)
  show ?thesis using AddBlock_refines_ledger [OF funded_node_inv a t] a by (simp add: funded_node_def)
qed

text \<open>
  C5: accepting a block increases the coins in circulation by exactly the block reward in force: fees are
  taken from the senders and paid out again by the coinbase, and nothing else is created or destroyed.
\<close>

theorem AddBlock_conserves_coins:
  assumes "chain_inv E st" and "coins_inv st" and "Chain_AddBlock E st block = (st', True)"
  shows "total_balance (sheet_bal (g_sheetMap st')) = total_balance (sheet_bal (g_sheetMap st)) + unat (g_currentReward st)"
proof -
  define txs where "txs = the (transactions block)"
  obtain expected where a: "appended E st block txs expected st'"
    using AddBlock_appended [OF assms] by (auto simp: txs_def)
  then have ok: "block_txs_ok E (g_sheetMap st) (g_currentReward st) txs expected"
    and b: "spec_block (sheet_bal (g_sheetMap st)) (map transaction txs) = Some (sheet_bal (g_sheetMap st'))"
    by (simp_all add: appended_def)
  have "finite_balances (sheet_bal (g_sheetMap st))" using assms(2) by (simp add: coins_inv_def)
  from total_spec_block [OF this b] show ?thesis
    using block_txs_ok_payout(1) [OF ok] ok by (simp add: block_txs_ok_def block_fees_spend_fees)
qed

theorem AddBlock_conserves_coins_witness:
  "total_balance (sheet_bal (g_sheetMap (fst (Chain_AddBlock easy_env funded_node (spend_block 0))))) =
     total_balance (sheet_bal demo_sheet) + 50"
proof -
  obtain st' where a: "Chain_AddBlock easy_env funded_node (spend_block 0) = (st', True)" using spend_block_added by blast
  show ?thesis using AddBlock_conserves_coins [OF funded_node_inv a] a by (simp add: funded_node_def)
qed

text \<open>
  The replay guard. Every spend of an accepted block is strictly newer than the last spend of its
  sender recorded before, two spends of one sender within the block are in strictly increasing order of
  timestamp, and afterwards the recorded timestamp is at least that of every spend of the block, so no
  copy of any of them, nor an older one, can be accepted in a later block.
\<close>

lemma AddBlock_replay_guard:
  assumes "chain_inv E st" and "coins_inv st" and "Chain_AddBlock E st block = (st', True)"
    and "transactions block = Some txs" and "tx \<in> set txs" and "\<not> is_coinbase_tx tx"
  shows "last_ts (g_sheetMap st) (senderAddress (transaction tx)) < tx_timestamp (transaction tx) \<and>
    tx_timestamp (transaction tx) \<le> last_ts (g_sheetMap st') (senderAddress (transaction tx)) \<and>
    (\<forall>i j. i < j \<and> j < length txs \<and> txs ! i = tx \<and> senderAddress (transaction (txs ! j)) = senderAddress (transaction tx)
       \<longrightarrow> tx_timestamp (transaction tx) < tx_timestamp (transaction (txs ! j))) \<and>
    (\<forall>st2 block2 txs2 st3. chain_inv E st2 \<and> coins_inv st2 \<and> g_sheetMap st2 = g_sheetMap st' \<and>
       transactions block2 = Some txs2 \<and> tx \<in> set txs2 \<longrightarrow> Chain_AddBlock E st2 block2 \<noteq> (st3, True))"
proof -
  let ?t = "transaction tx"
  have sp: "\<not> Address_IsCoinbase (senderAddress ?t)" using assms(6) by (simp add: is_coinbase_tx_def)
  have inc: "increasing_from (last_ts (g_sheetMap s)) (map transaction ts)"
    if "chain_inv E s" "coins_inv s" "Chain_AddBlock E s b = (s', True)" "transactions b = Some ts" for s b s' ts
  proof -
    note h = that
    obtain e where e: "appended E s b ts e s'" using AddBlock_appended [OF h(1-3)] h(4) by auto
    show ?thesis using e ordering_loop_increasing [of "g_sheetMap s" "[]" ts] by (simp add: appended_def block_txs_ok_def)
  qed
  note inc1 = inc [OF assms(1-4)]
  have mem: "?t \<in> set (map transaction txs)" using assms(5) by simp
  have new: "tx_timestamp ?t \<le> last_ts (g_sheetMap st') (senderAddress ?t)"
    using AddBlock_appended [OF assms(1-3)] assms(4) foldl_note_spend_ge [OF mem sp] by (auto simp: appended_def)
  have later: "tx_timestamp ?t < tx_timestamp (transaction (txs ! j))"
    if "i < j" "j < length txs" "txs ! i = tx" "senderAddress (transaction (txs ! j)) = senderAddress ?t" for i j
    using increasing_from_nth [OF inc1, of i j] that sp by simp
  have never: "Chain_AddBlock E st2 block2 \<noteq> (st3, True)"
    if "chain_inv E st2" "coins_inv st2" "g_sheetMap st2 = g_sheetMap st'" "transactions block2 = Some txs2" "tx \<in> set txs2"
    for st2 block2 txs2 st3
  proof
    assume "Chain_AddBlock E st2 block2 = (st3, True)"
    from increasing_from_bound [OF inc [OF that(1,2) this that(4)], of ?t] show False
      using that(3,5) sp new by simp
  qed
  show ?thesis
    using increasing_from_bound [OF inc1 mem sp] new later never by blast
qed

text \<open>
  A refusal leaves the node as it was. When every second payment of the block names a recipient and
  \<^verbatim>\<open>Chain_AddBlock\<close> answers false, blocks, balance sheet, supply, reward, heights, difficulty and pool
  are unchanged (only the memo table of the DAG recurrence may have grown).
\<close>

lemma AddBlock_refusal_unchanged:
  assumes "chain_inv E st" and "coins_inv st" and "Chain_AddBlock E st block = (st', False)"
    and "block_addressed block"
  shows "\<exists>cache. st' = st\<lparr> g_chain := (g_chain st)\<lparr> dagEpochs := cache \<rparr> \<rparr>"
proof -
  obtain st1 where st1: "Chain_AddBlockLocked E st block = (st1, False)" "st' = st1"
    using AddBlock_Locked [OF assms(3)] by (metis (full_types))
  show ?thesis using AddBlockLocked_False [OF assms(1,2) st1(1)] assms(4) st1(2) by (auto simp: with_cache_def)
qed

text \<open>
  C21: the exception. A block that passes the whole validation but contains a spend with a second amount
  and an all-zero second recipient is refused by the ledger pass after it has been appended: the caller
  is told false and the block is in the chain.
\<close>

theorem AddBlock_unaddressed_payment:
  assumes "chain_inv E st" and "coins_inv st" and "accepted E st block \<noteq> None" and "\<not> block_addressed block"
  shows "\<not> snd (Chain_AddBlock E st block) \<and>
    blocks (g_chain (fst (Chain_AddBlock E st block))) = blocks (g_chain st) @ [block]"
proof -
  have "transactions block \<noteq> None" using assms(3) by (auto simp: accepted_def split: option.splits)
  then show ?thesis
    using AddBlockLocked_unaddressed [OF assms] by (simp add: Chain_AddBlock_def case_prod_unfold Let_def)
qed

theorem AddBlock_unaddressed_payment_witness:
  "\<not> snd (Chain_AddBlock easy_env funded_node (spend_block 4)) \<and>
   blocks (g_chain (fst (Chain_AddBlock easy_env funded_node (spend_block 4)))) = [demo_block 0, spend_block 4]"
proof -
  have "\<not> block_addressed (spend_block 4)"
    by (simp add: block_addressed_def spend_block_def easy_block_def payments_addressed_def pays_nobody_def
        spend_tx_def signed_def demo_tx_def)
  from AddBlock_unaddressed_payment [OF funded_node_inv _ this] show ?thesis
    using spend_block_accepted [of 4] by (simp add: funded_node_def)
qed

end
