(* ===== verification/Chain_Files.thy ===== *)
theory Chain_Files
  imports Chain_Node
begin

text \<open>
  The chain on disk (the file functions of \<^verbatim>\<open>src/block/chain.c\<close>, \<^verbatim>\<open>storage/block_table.h\<close>): three files, the
  metadata, the concatenated blocks, and a table with one fixed-size record per block that says where its
  bytes start. Saving writes new files beside the old ones and renames them into place, dropping the
  transactions of every written block from memory; loading reads them back, all blocks or a single one.
  The directory handling and the outcome of the writes and renames are an argument of saving.
\<close>

section \<open>File formats\<close>

record chain_files =
  meta_file :: "byte list option"
  data_file :: "byte list option"
  table_file :: "byte list option"

record block_table_entry_t =
  bt_blockNumber :: u64
  bt_byteNumber :: u64
  bt_blockSize :: u64

definition table_image :: "block_table_entry_t \<Rightarrow> byte list" where
  "table_image e =
     le_bytes 8 (unat (bt_blockNumber e)) @ le_bytes 8 (unat (bt_byteNumber e)) @ le_bytes 8 (unat (bt_blockSize e))"

definition table_of_image :: "byte list \<Rightarrow> block_table_entry_t" where
  "table_of_image bs = \<lparr> bt_blockNumber = read_u64 0 bs, bt_byteNumber = read_u64 8 bs, bt_blockSize = read_u64 16 bs \<rparr>"

definition u256_image :: "uint256_t \<Rightarrow> byte list" where
  "u256_image v = concat (map (\<lambda>l. le_bytes 8 (unat l)) (limbs v))"

definition u256_of_image :: "byte list \<Rightarrow> uint256_t" where
  "u256_of_image bs = U256 (read_u64 0 bs) (read_u64 8 bs) (read_u64 16 bs) (read_u64 24 bs)"

definition block_image :: "block_header_t \<Rightarrow> signed_transaction_t list \<Rightarrow> byte list" where
  "block_image h txs = header_image h @ le_bytes 8 (length txs) @ concat (map stx_image txs)"

definition LONG_MAX :: nat where "LONG_MAX = 2 ^ 63 - 1"

section \<open>Loading one block\<close>

text \<open>The header, the transaction count and the rest of the stream.\<close>

definition read_block_head :: "byte list \<Rightarrow> (block_header_t \<times> u64 \<times> byte list) option" where
  "read_block_head s =
     (if length s < 96 then None
      else if length (drop 96 s) < 8 then None
      else Some (header_of_image (take 96 s), read_u64 96 s, drop 104 s))"

text \<open>A relative \<^verbatim>\<open>fseek\<close> from \<open>pos\<close>: it fails when the new position is negative or not a \<open>long\<close>.\<close>

definition seek_cur :: "nat \<Rightarrow> int \<Rightarrow> bool" where
  "seek_cur pos off \<longleftrightarrow> 0 \<le> int pos + off \<and> int pos + off \<le> int LONG_MAX"

text \<open>The results are the block, if any, and the \<open>outTxCount\<close> value.\<close>

definition Chain_LoadBlockFromFile :: "chain_files \<Rightarrow> u64 \<Rightarrow> bool \<Rightarrow> block_t option \<times> u64" where
  "Chain_LoadBlockFromFile f blkNumber loadTransactions =
     (case (meta_file f, data_file f, table_file f) of
        (Some m, Some d, Some t) \<Rightarrow>
          (if length m < 8 then (None, 0)
           else if blkNumber \<ge> read_u64 0 m then (None, 0)
           else let tableOffset = blkNumber * 24 in
             if blkNumber \<noteq> 0 \<and> tableOffset div blkNumber \<noteq> 24 then (None, 0)
             else if unat tableOffset > LONG_MAX then (None, 0)
             else if length (drop (unat tableOffset) t) < 24 then (None, 0)
             else let loc = table_of_image (take 24 (drop (unat tableOffset) t)) in
               if bt_blockNumber loc \<noteq> blkNumber then (None, 0)
               else if unat (bt_byteNumber loc) > LONG_MAX then (None, 0)
               else (case read_block_head (drop (unat (bt_byteNumber loc)) d) of
                       None \<Rightarrow> (None, 0)
                     | Some (h, txSize, rest) \<Rightarrow>
                         if loadTransactions then
                           (case read_records (unat txSize) 232 stx_of_image rest of
                              None \<Rightarrow> (None, txSize)
                            | Some (txs, rest') \<Rightarrow> (Some \<lparr> header = h, transactions = Some txs \<rparr>, txSize))
                         else let skipBytes = txSize * 232 in
                           if txSize > 0 \<and>
                              (skipBytes div txSize \<noteq> 232 \<or> unat skipBytes > LONG_MAX \<or>
                               \<not> seek_cur (unat (bt_byteNumber loc) + 104) (int (unat skipBytes)))
                           then (None, txSize)
                           else (Some \<lparr> header = h, transactions = None \<rparr>, txSize)))
      | _ \<Rightarrow> (None, 0))"

section \<open>Loading the chain\<close>

text \<open>The out parameters; \<open>None\<close> when the metadata file ends before the field.\<close>

record load_out =
  outLastSavedHash :: "byte list option"
  outCurrentSupply :: "uint256_t option"
  outDifficultyTarget :: "u32 option"
  outCurrentReward :: "u64 option"

definition read_meta :: "byte list \<Rightarrow> load_out" where
  "read_meta m =
     \<lparr> outLastSavedHash = (if length m < 40 then None else Some (bytes_at 8 32 m)),
       outCurrentSupply = (if length m < 72 then None else Some (u256_of_image (bytes_at 40 32 m))),
       outDifficultyTarget = (if length m < 76 then None else Some (of_nat (le_val (bytes_at 72 4 m)))),
       outCurrentReward = (if length m < 84 then None else Some (read_u64 76 m)) \<rparr>"

fun load_blocks :: "nat \<Rightarrow> nat \<Rightarrow> byte list \<Rightarrow> byte list \<Rightarrow> bool \<Rightarrow> blockchain_t \<Rightarrow> blockchain_t \<times> bool" where
  "load_blocks 0 i t d loadTransactions chain = (chain, True)"
| "load_blocks (Suc n) i t d loadTransactions chain =
     (if length t < 24 then (chain, False)
      else let loc = table_of_image (take 24 t) in
        if bt_blockNumber loc \<noteq> of_nat i then (chain, False)
        else if unat (bt_byteNumber loc) > LONG_MAX then (chain, False)
        else (case read_block_head (drop (unat (bt_byteNumber loc)) d) of
                None \<Rightarrow> (chain, False)
              | Some (h, txSize, rest) \<Rightarrow>
                  (case (if loadTransactions then map_option (Some \<circ> fst) (read_records (unat txSize) 232 stx_of_image rest)
                         else if txSize > 0 \<and> \<not> seek_cur (unat (bt_byteNumber loc) + 104) (sint (txSize * 232)) then None
                         else Some None) of
                     None \<Rightarrow> (chain, False)
                   | Some txs \<Rightarrow>
                       load_blocks n (Suc i) (drop 24 t) d loadTransactions
                         (chain\<lparr> blocks := vec_push_back (blocks chain) \<lparr> header = h, transactions = txs \<rparr>,
                                 chain_size := chain_size chain + 1 \<rparr>))))"

definition Chain_LoadFromFile :: "chain_files \<Rightarrow> blockchain_t \<Rightarrow> bool \<Rightarrow> blockchain_t \<times> load_out \<times> bool" where
  "Chain_LoadFromFile f chain loadTransactions =
     (case (meta_file f, data_file f, table_file f) of
        (Some m, Some d, Some t) \<Rightarrow>
          (if length m < 84 then (chain, read_meta m, False)
           else let savedSize = unat (read_u64 0 m);
                    (chain', ok) = load_blocks savedSize 0 t d loadTransactions (Chain_ClearBlocks chain)
                in (if ok then chain'\<lparr> chain_size := savedSize \<rparr> else chain', read_meta m, ok))
      | _ \<Rightarrow> (chain, read_meta [], False))"

section \<open>Saving\<close>

text \<open>
  What the file system answers: are the directory and the three temporary files available, do the writes
  for block \<open>i\<close> succeed, and how many of the three renames are done before one fails. The writes to the
  metadata file are not checked by the source and are taken to succeed.
\<close>

record save_io =
  dir_ready :: bool
  written :: "nat \<Rightarrow> bool"
  renamed :: nat

fun save_blocks :: "save_io \<Rightarrow> chain_files \<Rightarrow> nat \<Rightarrow> u64 \<Rightarrow> block_t list \<Rightarrow> block_t list \<times> (byte list \<times> byte list) option" where
  "save_blocks io f i byteCount [] = ([], Some ([], []))"
| "save_blocks io f i byteCount (blk # bs) =
     (case (if transactions blk = None then fst (Chain_LoadBlockFromFile f (of_nat i) True) else Some blk) of
        None \<Rightarrow> (blk # bs, None)
      | Some diskCopy \<Rightarrow>
          (case transactions diskCopy of
             None \<Rightarrow> (blk # bs, None)
           | Some txs \<Rightarrow>
               if \<not> written io i then (blk # bs, None)
               else let byteCount' = byteCount + 96 + 8 + 232 * of_nat (length txs);
                        entry = \<lparr> bt_blockNumber = of_nat i, bt_byteNumber = byteCount,
                                  bt_blockSize = byteCount' - byteCount \<rparr>;
                        (bs', r) = save_blocks io f (Suc i) byteCount' bs
                    in (blk\<lparr> transactions := None \<rparr> # bs',
                        map_option (\<lambda>(d, t). (block_image (header diskCopy) txs @ d, table_image entry @ t)) r)))"

definition meta_image :: "nat \<Rightarrow> byte list \<Rightarrow> uint256_t \<Rightarrow> u32 \<Rightarrow> u64 \<Rightarrow> byte list" where
  "meta_image savedSize lastHash curSupply target reward =
     le_bytes 8 savedSize @ lastHash @ u256_image curSupply @ le_bytes 4 (unat target) @ le_bytes 8 (unat reward)"

definition Chain_SaveToFile ::
  "crypto_env \<Rightarrow> save_io \<Rightarrow> chain_files \<Rightarrow> blockchain_t \<Rightarrow> uint256_t \<Rightarrow> u64 \<Rightarrow> blockchain_t \<times> chain_files \<times> bool" where
  "Chain_SaveToFile E io f chain curSupply curReward =
     (if \<not> dir_ready io then (chain, f, False)
      else case save_blocks io f 0 0 (blocks chain) of
        (bs, None) \<Rightarrow> (chain\<lparr> blocks := bs \<rparr>, f, False)
      | (bs, Some (d, t)) \<Rightarrow>
          (let (lastHash, target) =
                 (case vec_back bs of
                    Some lastBlock \<Rightarrow> (Block_CalculateHash E lastBlock, difficultyTarget (header lastBlock))
                  | None \<Rightarrow> (replicate 32 0, INITIAL_DIFFICULTY));
               m = meta_image (length bs) lastHash curSupply target curReward;
               f1 = (if renamed io \<ge> 1 then f\<lparr> meta_file := Some m \<rparr> else f);
               f2 = (if renamed io \<ge> 2 then f1\<lparr> data_file := Some d \<rparr> else f1);
               f3 = (if renamed io \<ge> 3 then f2\<lparr> table_file := Some t \<rparr> else f2)
           in (chain\<lparr> blocks := bs \<rparr>, f3, renamed io \<ge> 3)))"

section \<open>Codecs\<close>

interpretation table_codec: byte_codec table_image table_of_image "\<lambda>_. True" 24
  by unfold_locales (simp_all add: table_image_def table_of_image_def read_u64_def bytes_at_simps u64_image)

interpretation u256_codec: byte_codec u256_image u256_of_image "\<lambda>_. True" 32
proof
  fix v
  show "length (u256_image v) = 32" by (cases v) (simp add: u256_image_def)
  show "u256_of_image (u256_image v) = v"
    by (cases v) (simp add: u256_image_def u256_of_image_def read_u64_def bytes_at_simps u64_image)
qed

section \<open>What the loaders return is well formed\<close>

definition block_wf :: "block_t \<Rightarrow> bool" where
  "block_wf b \<longleftrightarrow> header_wf (header b) \<and> (case transactions b of None \<Rightarrow> True | Some txs \<Rightarrow> list_all stx_wf txs)"

lemma read_records_wf:
  "read_records n sz dec bs = Some (xs, rest) \<Longrightarrow> (\<And>b. length b = sz \<Longrightarrow> P (dec b)) \<Longrightarrow> list_all P xs \<and> length xs = n"
  by (induction n sz dec bs arbitrary: xs rest rule: read_records.induct) (auto split: if_splits option.splits)

lemmas read_stxs_wf = read_records_wf [where P = stx_wf, OF _ stx_of_image_wf]

lemma read_block_head_wf: "read_block_head s = Some (h, n, rest) \<Longrightarrow> header_wf h"
  by (auto simp: read_block_head_def header_of_image_wf split: if_splits)

lemma LoadBlock_wf:
  assumes "Chain_LoadBlockFromFile f i ld = (Some b, n)"
  shows "block_wf b \<and> (ld \<longrightarrow> (\<exists>txs. transactions b = Some txs \<and> length txs = unat n)) \<and> (\<not> ld \<longrightarrow> transactions b = None)"
  using assms unfolding Chain_LoadBlockFromFile_def Let_def
  by (auto simp: block_wf_def dest!: read_block_head_wf read_stxs_wf split: option.splits if_splits)

lemma load_blocks_wf:
  "load_blocks n i t d ld chain = (chain', ok) \<Longrightarrow>
     \<exists>bs. blocks chain' = blocks chain @ bs \<and> list_all block_wf bs \<and> chain_size chain' = chain_size chain + length bs \<and>
       (ok \<longrightarrow> length bs = n) \<and> dagEpochs chain' = dagEpochs chain \<and>
       list_all (\<lambda>b. transactions b = None \<longleftrightarrow> \<not> ld) bs"
proof (induction n i t d ld chain rule: load_blocks.induct)
  case (2 n i t d ld chain)
  show ?case
  proof (cases "load_blocks (Suc n) i t d ld chain = (chain, False)")
    case True
    then show ?thesis using "2.prems" by auto
  next
    case False
    let ?loc = "table_of_image (take 24 t)"
    obtain h txSize rest where h: "read_block_head (drop (unat (bt_byteNumber ?loc)) d) = Some (h, txSize, rest)"
      using False by (auto simp: Let_def split: if_splits option.splits)
    obtain txs where txs: "(if ld then map_option (Some \<circ> fst) (read_records (unat txSize) 232 stx_of_image rest)
                         else if txSize > 0 \<and> \<not> seek_cur (unat (bt_byteNumber ?loc) + 104) (sint (txSize * 232)) then None
                         else Some None) = Some txs"
      using False h by (cases "(if ld then map_option (Some \<circ> fst) (read_records (unat txSize) 232 stx_of_image rest)
                         else if txSize > 0 \<and> \<not> seek_cur (unat (bt_byteNumber ?loc) + 104) (sint (txSize * 232)) then None
                         else Some None)") (auto simp: Let_def split: if_splits)
    let ?b = "\<lparr> header = h, transactions = txs \<rparr>"
    let ?c = "chain\<lparr> blocks := vec_push_back (blocks chain) ?b, chain_size := chain_size chain + 1 \<rparr>"
    have g: "\<not> length t < 24" "\<not> bt_blockNumber ?loc \<noteq> of_nat i" "\<not> LONG_MAX < unat (bt_byteNumber ?loc)"
      using False by (auto simp: Let_def split: if_splits)
    have r: "load_blocks n (Suc i) (drop 24 t) d ld ?c = (chain', ok)"
      using "2.prems" g h txs by (simp add: Let_def)
    have wf: "block_wf ?b" "transactions ?b = None \<longleftrightarrow> \<not> ld"
      using read_block_head_wf [OF h] txs by (auto simp: block_wf_def dest: read_stxs_wf split: if_splits)
    from "2.IH" [OF g(1) refl g(2,3) h refl refl txs r] show ?thesis
      using wf by (auto simp: vec_push_back_def)
  qed
qed simp

section \<open>What a save writes\<close>

text \<open>The block a height stands for: the one in memory, or its copy on disk once the transactions were dropped.\<close>

definition stored :: "chain_files \<Rightarrow> nat \<Rightarrow> block_t \<Rightarrow> block_t option" where
  "stored f i b = (if transactions b = None then fst (Chain_LoadBlockFromFile f (of_nat i) True) else Some b)"

definition block_bytes :: "block_t \<Rightarrow> byte list" where
  "block_bytes b = block_image (header b) (the (transactions b))"

fun table_entries :: "nat \<Rightarrow> u64 \<Rightarrow> block_t list \<Rightarrow> block_table_entry_t list" where
  "table_entries i c [] = []"
| "table_entries i c (b # bs) =
     \<lparr> bt_blockNumber = of_nat i, bt_byteNumber = c, bt_blockSize = of_nat (length (block_bytes b)) \<rparr>
       # table_entries (Suc i) (c + of_nat (length (block_bytes b))) bs"

definition whole :: "block_t \<Rightarrow> bool" where
  "whole b \<longleftrightarrow> block_wf b \<and> transactions b \<noteq> None"

lemma length_block_bytes: "whole b \<Longrightarrow> length (block_bytes b) = 104 + 232 * length (the (transactions b))"
  using stx_codec.length_images [of "the (transactions b)"]
  by (auto simp: whole_def block_wf_def block_bytes_def block_image_def length_header_image list_all_iff simp del: length_concat)

lemma stored_whole: "stored f i b = Some b' \<Longrightarrow> block_wf b \<Longrightarrow> whole b'"
  using LoadBlock_wf [of f "of_nat i" True b' "snd (Chain_LoadBlockFromFile f (of_nat i) True)"]
  by (auto simp: stored_def whole_def prod_eq_iff split: if_splits)

lemma save_blocks_Some:
  "save_blocks io f i c bs = (bs', Some (d, t)) \<Longrightarrow> list_all block_wf bs \<Longrightarrow>
     bs' = map (\<lambda>b. b\<lparr> transactions := None \<rparr>) bs \<and>
     (\<exists>fbs. length fbs = length bs \<and> (\<forall>k<length bs. stored f (i + k) (bs ! k) = Some (fbs ! k)) \<and> list_all whole fbs \<and>
        d = concat (map block_bytes fbs) \<and> t = concat (map table_image (table_entries i c fbs)))"
proof (induction bs arbitrary: i c bs' d t)
  case (Cons b bs)
  obtain fb txs where fb: "stored f i b = Some fb" "transactions fb = Some txs" "written io i"
    using Cons.prems(1) by (auto simp: stored_def split: option.splits if_splits)
  have w: "whole fb" using stored_whole [OF fb(1)] Cons.prems(2) by simp
  let ?c = "c + 96 + 8 + 232 * of_nat (length txs)"
  have l: "of_nat (length (block_bytes fb)) = ?c - c" "?c = c + of_nat (length (block_bytes fb))"
    using length_block_bytes [OF w] fb(2) by simp_all
  obtain bs1 d1 t1 where r: "save_blocks io f (Suc i) ?c bs = (bs1, Some (d1, t1))" "bs' = b\<lparr> transactions := None \<rparr> # bs1"
    "d = block_image (header fb) txs @ d1"
    "t = table_image \<lparr> bt_blockNumber = of_nat i, bt_byteNumber = c, bt_blockSize = ?c - c \<rparr> @ t1"
    using Cons.prems(1) fb by (auto simp: stored_def [symmetric] Let_def split: prod.splits option.splits)
  from Cons.IH [OF r(1)] Cons.prems(2) obtain fbs where fbs: "bs1 = map (\<lambda>b. b\<lparr> transactions := None \<rparr>) bs"
    "length fbs = length bs" "\<forall>k<length bs. stored f (Suc i + k) (bs ! k) = Some (fbs ! k)" "list_all whole fbs"
    "d1 = concat (map block_bytes fbs)" "t1 = concat (map table_image (table_entries (Suc i) ?c fbs))" by auto
  have s: "\<forall>k<length (b # bs). stored f (i + k) ((b # bs) ! k) = Some ((fb # fbs) ! k)"
    using fb(1) fbs(3) by (auto simp: nth_Cons split: nat.splits)
  have "t = concat (map table_image (table_entries i c (fb # fbs)))"
    unfolding r(4) fbs(6) by (simp only: table_entries.simps list.map concat.simps l [symmetric])
  then show ?case
    using r(2,3) fbs s w fb(2) by (intro conjI exI [of _ "fb # fbs"]) (auto simp: block_bytes_def [of fb])
qed simp

lemma length_table_entries [simp]: "length (table_entries i c bs) = length bs"
  by (induction bs arbitrary: i c) auto

lemma table_entries_nth:
  "k < length bs \<Longrightarrow> table_entries i c bs ! k =
     \<lparr> bt_blockNumber = of_nat (i + k), bt_byteNumber = c + of_nat (length (concat (map block_bytes (take k bs)))),
       bt_blockSize = of_nat (length (block_bytes (bs ! k))) \<rparr>"
  by (induction bs arbitrary: i c k) (auto simp: nth_Cons add.assoc split: nat.splits simp del: length_concat)

lemma drop_table:
  "k < length bs \<Longrightarrow> \<exists>r. drop (24 * k) (concat (map table_image (table_entries i c bs))) = table_image (table_entries i c bs ! k) @ r"
  using table_codec.drop_images [of "table_entries i c bs" k] by (simp add: Cons_nth_drop_Suc [symmetric])

lemma drop_concat: "drop (length (concat (map g (take k xs)))) (concat (map g xs)) = concat (map g (drop k xs))"
  by (metis append_eq_conv_conj append_take_drop_id concat_append map_append)

lemma read_whole_block:
  assumes "whole b" "length (the (transactions b)) < 2 ^ 64"
  shows "\<exists>r. read_block_head (block_bytes b @ rest) = Some (header b, of_nat (length (the (transactions b))), r) \<and>
    read_records (length (the (transactions b))) 232 stx_of_image r = Some (the (transactions b), rest)"
proof -
  have w: "header_wf (header b)" "\<forall>x\<in>set (the (transactions b)). stx_wf x"
    using assms(1) by (auto simp: whole_def block_wf_def list_all_iff)
  let ?r = "concat (map stx_image (the (transactions b))) @ rest"
  have "le_val (le_bytes 8 (length (the (transactions b)))) = length (the (transactions b))"
    using assms(2) by (simp add: le_val_le_bytes)
  then have "read_block_head (block_bytes b @ rest) = Some (header b, of_nat (length (the (transactions b))), ?r)"
    using length_header_image [OF w(1)]
    by (simp add: block_bytes_def block_image_def read_block_head_def read_u64_def bytes_at_simps header_image_roundtrip [OF w(1)])
  then show ?thesis using stx_codec.read_records_images [OF w(2)] by blast
qed

text \<open>The bytes of a save, and what they read back to.\<close>

definition fits :: "block_t list \<Rightarrow> bool" where
  "fits fbs \<longleftrightarrow> length (concat (map block_bytes fbs)) \<le> LONG_MAX \<and> 24 * length fbs \<le> LONG_MAX"

definition holds :: "chain_files \<Rightarrow> block_t list \<Rightarrow> bool" where
  "holds f fbs \<longleftrightarrow> (\<exists>m. meta_file f = Some m \<and> 84 \<le> length m \<and> read_u64 0 m = of_nat (length fbs)) \<and>
     data_file f = Some (concat (map block_bytes fbs)) \<and>
     table_file f = Some (concat (map table_image (table_entries 0 0 fbs)))"

lemma fits_offset:
  assumes "fits fbs" shows "length (concat (map block_bytes (take k fbs))) \<le> LONG_MAX"
proof -
  have "length (concat (map block_bytes fbs)) =
      length (concat (map block_bytes (take k fbs))) + length (concat (map block_bytes (drop k fbs)))"
    by (metis append_take_drop_id concat_append length_append map_append)
  then show ?thesis using assms by (simp add: fits_def)
qed

lemma LONG_MAX_lt: "n \<le> LONG_MAX \<Longrightarrow> n < 2 ^ 64"
  by (simp add: LONG_MAX_def)

lemma unat_of_nat_long: "n \<le> LONG_MAX \<Longrightarrow> unat (of_nat n :: u64) = n"
  by (simp add: unat_of_nat LONG_MAX_def)

lemma fits_txs:
  assumes "fits fbs" "list_all whole fbs" "b \<in> set fbs" shows "length (the (transactions b)) \<le> LONG_MAX"
proof -
  have "length (block_bytes b) \<le> length (concat (map block_bytes fbs))"
    using assms(3) by (induction fbs) (auto simp del: length_concat)
  moreover have "length (block_bytes b) = 104 + 232 * length (the (transactions b))"
    using assms(2,3) by (intro length_block_bytes) (simp add: list_all_iff)
  ultimately show ?thesis using assms(1) unfolding fits_def by linarith
qed

lemma whole_eta: "whole b \<Longrightarrow> \<lparr> header = header b, transactions = Some (the (transactions b)) \<rparr> = b"
  by (cases b) (auto simp: whole_def)

lemma data_at:
  assumes "fits fbs" "list_all whole fbs" "k < length fbs"
  shows "\<exists>rest r. drop (length (concat (map block_bytes (take k fbs)))) (concat (map block_bytes fbs)) = block_bytes (fbs ! k) @ rest \<and>
    read_block_head (block_bytes (fbs ! k) @ rest) = Some (header (fbs ! k), of_nat (length (the (transactions (fbs ! k)))), r) \<and>
    read_records (length (the (transactions (fbs ! k)))) 232 stx_of_image r = Some (the (transactions (fbs ! k)), rest)"
proof -
  have m: "fbs ! k \<in> set fbs" using assms(3) by simp
  have "drop (length (concat (map block_bytes (take k fbs)))) (concat (map block_bytes fbs)) =
      block_bytes (fbs ! k) @ concat (map block_bytes (drop (Suc k) fbs))"
    unfolding drop_concat using assms(3) by (simp add: Cons_nth_drop_Suc [symmetric])
  then show ?thesis
    using read_whole_block [of "fbs ! k" "concat (map block_bytes (drop (Suc k) fbs))"] LONG_MAX_lt [OF fits_txs [OF assms(1,2) m]]
      assms(2) m by (auto simp: list_all_iff)
qed

lemma LoadBlock_holds:
  assumes "holds f fbs" "fits fbs" "list_all whole fbs" "k < length fbs"
  shows "Chain_LoadBlockFromFile f (of_nat k) True = (Some (fbs ! k), of_nat (length (the (transactions (fbs ! k)))))"
proof -
  obtain m where f: "meta_file f = Some m" "84 \<le> length m" "read_u64 0 m = of_nat (length fbs)"
    "data_file f = Some (concat (map block_bytes fbs))" "table_file f = Some (concat (map table_image (table_entries 0 0 fbs)))"
    using assms(1) by (auto simp: holds_def)
  have n: "24 * length fbs \<le> LONG_MAX" using assms(2) by (simp add: fits_def)
  have k: "unat (of_nat k :: u64) = k" "unat (of_nat (length fbs) :: u64) = length fbs" "unat (of_nat k * 24 :: u64) = 24 * k"
    using n assms(4) unat_of_nat_long [of "24 * k"] by (simp_all add: unat_of_nat_long mult.commute)
  let ?e = "table_entries 0 0 fbs ! k" and ?off = "length (concat (map block_bytes (take k fbs)))"
  obtain r where t: "drop (24 * k) (concat (map table_image (table_entries 0 0 fbs))) = table_image ?e @ r"
    using drop_table [OF assms(4)] by blast
  have e: "bt_blockNumber ?e = of_nat k" "unat (bt_byteNumber ?e) = ?off" "?off \<le> LONG_MAX"
    using table_entries_nth [OF assms(4), of 0 0] unat_of_nat_long [OF fits_offset [OF assms(2)]] fits_offset [OF assms(2), of k]
    by (simp_all del: length_concat)
  have d: "(of_nat k * 24 :: u64) div of_nat k = 24" if "k \<noteq> 0"
    by (rule word_unat_eq_iff [THEN iffD2]) (use that k in \<open>simp add: unat_div\<close>)
  have g: "\<not> (of_nat (length fbs) :: u64) \<le> of_nat k" "\<not> (of_nat k \<noteq> (0::u64) \<and> (of_nat k * 24 :: u64) div of_nat k \<noteq> 24)"
    "\<not> LONG_MAX < unat (of_nat k * 24 :: u64)"
    using k n assms(4) by (simp add: word_le_nat_alt, use d in \<open>cases "k = 0"; simp\<close>, simp)
  have tl: "length (table_image ?e) = 24" "table_of_image (table_image ?e) = ?e"
    using table_codec.image_length table_codec.dec_image by auto
  obtain rest r' where b: "drop ?off (concat (map block_bytes fbs)) = block_bytes (fbs ! k) @ rest"
    "read_block_head (block_bytes (fbs ! k) @ rest) = Some (header (fbs ! k), of_nat (length (the (transactions (fbs ! k)))), r')"
    "read_records (length (the (transactions (fbs ! k)))) 232 stx_of_image r' = Some (the (transactions (fbs ! k)), rest)"
    using data_at [OF assms(2-4)] by blast
  have m: "fbs ! k \<in> set fbs" using assms(4) by simp
  have c: "unat (of_nat (length (the (transactions (fbs ! k)))) :: u64) = length (the (transactions (fbs ! k)))"
    by (rule unat_of_nat_long [OF fits_txs [OF assms(2,3) m]])
  have w: "\<lparr> header = header (fbs ! k), transactions = Some (the (transactions (fbs ! k))) \<rparr> = fbs ! k"
    by (rule whole_eta) (use assms(3) m in \<open>simp add: list_all_iff\<close>)
  have l: "\<not> LONG_MAX < ?off" "\<not> length m < 8" using e(3) f(2) by linarith+
  show ?thesis
    using l g
    by (simp add: Chain_LoadBlockFromFile_def f Let_def k t tl e b c w del: length_concat not_le)
qed

text \<open>A block without its transactions, as it is kept in memory.\<close>

definition strip :: "block_t \<Rightarrow> block_t" where
  "strip b = b\<lparr> transactions := None \<rparr>"

lemma strip_simps [simp]: "header (strip b) = header b" "transactions (strip b) = None"
  "Block_CalculateHash E (strip b) = Block_CalculateHash E b"
  by (simp_all add: strip_def Block_CalculateHash_def)

lemma fits_seek:
  assumes "fits fbs" "list_all whole fbs" "k < length fbs"
  shows "seek_cur (length (concat (map block_bytes (take k fbs))) + 104)
    (sint (of_nat (length (the (transactions (fbs ! k)))) * 232 :: u64))"
proof -
  let ?off = "length (concat (map block_bytes (take k fbs)))" and ?n = "length (the (transactions (fbs ! k)))"
  have w: "whole (fbs ! k)" using assms(2,3) by (simp add: list_all_length)
  have "concat (map block_bytes fbs) = concat (map block_bytes (take k fbs)) @ block_bytes (fbs ! k) @ concat (map block_bytes (drop (Suc k) fbs))"
    using assms(3) by (metis append_take_drop_id concat.simps(2) concat_append list.simps(9) map_append Cons_nth_drop_Suc)
  then have "?off + (104 + 232 * ?n) \<le> length (concat (map block_bytes fbs))" using length_block_bytes [OF w] by simp
  then have le: "?off + (104 + 232 * ?n) \<le> LONG_MAX" using assms(1) by (simp add: fits_def)
  then have "232 * ?n < 2 ^ 63" by (simp add: LONG_MAX_def)
  moreover have "sint (of_nat x :: u64) = int x" if "x < 2 ^ 63" for x
    using that unat_of_nat [of x, where 'a = 64] signed_take_bit_int_eq_self [of 63 "int x"] by (simp add: sint_uint uint_nat)
  ultimately have "sint (of_nat (232 * ?n) :: u64) = int (232 * ?n)" by blast
  then show ?thesis using le by (simp add: seek_cur_def mult.commute)
qed

lemma load_blocks_holds:
  assumes "fits fbs" "list_all whole fbs" "k \<le> length fbs"
  shows "load_blocks (length fbs - k) k (drop (24 * k) (concat (map table_image (table_entries 0 0 fbs)))) (concat (map block_bytes fbs)) full chain
     = (chain\<lparr> blocks := blocks chain @ map (if full then id else strip) (drop k fbs), chain_size := chain_size chain + (length fbs - k) \<rparr>, True)"
  using assms(3)
proof (induction "length fbs - k" arbitrary: k chain)
  case (Suc n)
  then have k: "k < length fbs" "length fbs - k = Suc n" "n = length fbs - Suc k" by simp_all
  let ?e = "table_entries 0 0 fbs ! k" and ?off = "length (concat (map block_bytes (take k fbs)))"
  obtain r where t: "drop (24 * k) (concat (map table_image (table_entries 0 0 fbs))) = table_image ?e @ r"
    using drop_table [OF k(1)] by blast
  have tl: "length (table_image ?e) = 24" "table_of_image (table_image ?e) = ?e"
    using table_codec.image_length table_codec.dec_image by auto
  have "drop 24 (drop (24 * k) (concat (map table_image (table_entries 0 0 fbs)))) = r" unfolding t using tl by simp
  then have r: "drop (24 * Suc k) (concat (map table_image (table_entries 0 0 fbs))) = r" by (simp add: add.commute)
  have e: "bt_blockNumber ?e = of_nat k" "unat (bt_byteNumber ?e) = ?off" "\<not> LONG_MAX < ?off"
    using table_entries_nth [OF k(1), of 0 0] unat_of_nat_long [OF fits_offset [OF assms(1)]] fits_offset [OF assms(1), of k]
    by (simp_all del: length_concat add: not_less)
  obtain rest r' where b: "drop ?off (concat (map block_bytes fbs)) = block_bytes (fbs ! k) @ rest"
    "read_block_head (block_bytes (fbs ! k) @ rest) = Some (header (fbs ! k), of_nat (length (the (transactions (fbs ! k)))), r')"
    "read_records (length (the (transactions (fbs ! k)))) 232 stx_of_image r' = Some (the (transactions (fbs ! k)), rest)"
    using data_at [OF assms(1,2) k(1)] by blast
  have m: "fbs ! k \<in> set fbs" using k(1) by simp
  have c: "unat (of_nat (length (the (transactions (fbs ! k)))) :: u64) = length (the (transactions (fbs ! k)))"
    by (rule unat_of_nat_long [OF fits_txs [OF assms(1,2) m]])
  have w: "\<lparr> header = header (fbs ! k), transactions = Some (the (transactions (fbs ! k))) \<rparr> = fbs ! k"
    by (rule whole_eta) (use assms(2) m in \<open>simp add: list_all_iff\<close>)
  have d: "\<lparr> header = header (fbs ! k), transactions = None \<rparr> = strip (fbs ! k)" by (cases "fbs ! k") (simp add: strip_def)
  note sk = fits_seek [OF assms(1,2) k(1)]
  let ?g = "if full then id else strip"
  let ?c = "chain\<lparr> blocks := blocks chain @ [?g (fbs ! k)], chain_size := chain_size chain + 1 \<rparr>"
  have "load_blocks n (Suc k) r (concat (map block_bytes fbs)) full ?c =
      (?c\<lparr> blocks := blocks ?c @ map ?g (drop (Suc k) fbs), chain_size := chain_size ?c + (length fbs - Suc k) \<rparr>, True)"
    using Suc.hyps(1) [OF k(3), of ?c] k r by simp
  moreover have "drop k fbs = fbs ! k # drop (Suc k) fbs" using k(1) by (simp add: Cons_nth_drop_Suc)
  ultimately show ?case
    unfolding k(2) t using k sk
    by (cases full) (simp_all add: tl e b c w d Let_def vec_push_back_def del: length_concat)
qed simp

text \<open>The hash and the target recorded for the tip.\<close>

definition tip_fields :: "crypto_env \<Rightarrow> block_t list \<Rightarrow> byte list \<times> u32" where
  "tip_fields E bs =
     (if bs = [] then (replicate 32 0, INITIAL_DIFFICULTY)
      else (Block_CalculateHash E (last bs), difficultyTarget (header (last bs))))"

lemma tip_fields_dropped: "tip_fields E (map (\<lambda>b. b\<lparr> transactions := None \<rparr>) bs) = tip_fields E bs"
  by (simp add: tip_fields_def last_map Block_CalculateHash_def)

lemma SaveToFile_True:
  assumes "Chain_SaveToFile E io f chain curSupply curReward = (chain', f', True)"
  shows "\<exists>bs d t. save_blocks io f 0 0 (blocks chain) = (bs, Some (d, t)) \<and> chain' = chain\<lparr> blocks := bs \<rparr> \<and>
    f' = \<lparr> meta_file = Some (meta_image (length bs) (fst (tip_fields E bs)) curSupply (snd (tip_fields E bs)) curReward),
           data_file = Some d, table_file = Some t \<rparr>"
proof -
  obtain bs d t where s: "save_blocks io f 0 0 (blocks chain) = (bs, Some (d, t))"
    using assms by (auto simp: Chain_SaveToFile_def split: if_splits prod.splits option.splits)
  moreover have "(case vec_back bs of Some lastBlock \<Rightarrow> (Block_CalculateHash E lastBlock, difficultyTarget (header lastBlock))
      | None \<Rightarrow> (replicate 32 0, INITIAL_DIFFICULTY)) = tip_fields E bs"
    by (simp add: tip_fields_def vec_back_def)
  ultimately show ?thesis
    using assms by (cases f) (auto simp: Chain_SaveToFile_def Let_def case_prod_unfold split: if_splits)
qed

definition meta_ok :: "chain_files \<Rightarrow> load_out \<Rightarrow> bool" where
  "meta_ok f out \<longleftrightarrow> (\<exists>m. meta_file f = Some m \<and> length m = 84 \<and> read_meta m = out)"

lemma read_meta_image:
  assumes "length h = 32"
  shows "length (meta_image n h s target reward) = 84"
    and "read_meta (meta_image n h s target reward) =
      \<lparr> outLastSavedHash = Some h, outCurrentSupply = Some s, outDifficultyTarget = Some target, outCurrentReward = Some reward \<rparr>"
  using assms u256_codec.image_length u256_codec.dec_image
  by (simp_all add: meta_image_def read_meta_def read_u64_def bytes_at_simps u64_image u32_image)

lemma SaveToFile_holds:
  assumes "Chain_SaveToFile E io f chain curSupply curReward = (chain', f', True)"
    and "list_all block_wf (blocks chain)" and "length (blocks chain) < 2 ^ 64" and "\<And>x. length (SHA256 E x) = 32"
  shows "chain' = chain\<lparr> blocks := map (\<lambda>b. b\<lparr> transactions := None \<rparr>) (blocks chain) \<rparr> \<and>
    meta_ok f' \<lparr> outLastSavedHash = Some (fst (tip_fields E (blocks chain))), outCurrentSupply = Some curSupply,
       outDifficultyTarget = Some (snd (tip_fields E (blocks chain))), outCurrentReward = Some curReward \<rparr> \<and>
    (\<exists>fbs. length fbs = length (blocks chain) \<and> (\<forall>k<length fbs. stored f k (blocks chain ! k) = Some (fbs ! k)) \<and>
       list_all whole fbs \<and> holds f' fbs)"
proof -
  obtain bs d t where s: "save_blocks io f 0 0 (blocks chain) = (bs, Some (d, t))" "chain' = chain\<lparr> blocks := bs \<rparr>"
    "f' = \<lparr> meta_file = Some (meta_image (length bs) (fst (tip_fields E bs)) curSupply (snd (tip_fields E bs)) curReward),
           data_file = Some d, table_file = Some t \<rparr>"
    using SaveToFile_True [OF assms(1)] by blast
  from save_blocks_Some [OF s(1) assms(2)] obtain fbs where fbs: "bs = map (\<lambda>b. b\<lparr> transactions := None \<rparr>) (blocks chain)"
    "length fbs = length (blocks chain)" "\<forall>k<length fbs. stored f k (blocks chain ! k) = Some (fbs ! k)" "list_all whole fbs"
    "d = concat (map block_bytes fbs)" "t = concat (map table_image (table_entries 0 0 fbs))" by auto
  have h: "length (fst (tip_fields E bs)) = 32" using assms(4) by (simp add: tip_fields_def Block_CalculateHash_def)
  have "read_u64 0 (meta_image (length bs) (fst (tip_fields E bs)) curSupply (snd (tip_fields E bs)) curReward) = of_nat (length fbs)"
    using assms(3) fbs(1,2) by (simp add: meta_image_def read_u64_def bytes_at_simps le_val_le_bytes)
  then have "holds f' fbs" using s(3) fbs(5,6) read_meta_image(1) [OF h] by (simp add: holds_def)
  moreover have "meta_ok f' \<lparr> outLastSavedHash = Some (fst (tip_fields E bs)), outCurrentSupply = Some curSupply,
       outDifficultyTarget = Some (snd (tip_fields E bs)), outCurrentReward = Some curReward \<rparr>"
    using s(3) read_meta_image [OF h] by (simp add: meta_ok_def)
  ultimately show ?thesis using fbs s(2) tip_fields_dropped [of E "blocks chain"] by auto
qed

lemma LoadFromFile_holds:
  assumes "holds f fbs" "fits fbs" "list_all whole fbs" "meta_ok f out"
  shows "Chain_LoadFromFile f chain full =
    ((Chain_ClearBlocks chain)\<lparr> blocks := map (if full then id else strip) fbs, chain_size := length fbs \<rparr>, out, True)"
proof -
  obtain m where f: "meta_file f = Some m" "length m = 84" "read_meta m = out" "read_u64 0 m = of_nat (length fbs)"
    "data_file f = Some (concat (map block_bytes fbs))" "table_file f = Some (concat (map table_image (table_entries 0 0 fbs)))"
    using assms(1,4) by (auto simp: holds_def meta_ok_def)
  have "24 * length fbs \<le> LONG_MAX" using assms(2) by (simp add: fits_def)
  then have n: "unat (of_nat (length fbs) :: u64) = length fbs" by (intro unat_of_nat_long) simp
  have z: "blocks (Chain_ClearBlocks chain) = []" "chain_size (Chain_ClearBlocks chain) = 0"
    by (simp_all add: Chain_ClearBlocks_def Chain_InvalidateDagEpochs_def)
  show ?thesis
    using load_blocks_holds [OF assms(2,3), of 0 full "Chain_ClearBlocks chain"] z
    by (simp add: Chain_LoadFromFile_def f n Let_def)
qed

section \<open>A save keeps what the node can read\<close>

lemma votes_strip: "epoch_blocks (map strip bs) k = map strip (epoch_blocks bs k)"
  "count_votes v (map strip bs) = count_votes v bs"
  by (simp_all add: epoch_blocks_def take_map drop_map count_votes_def filter_map o_def)

lemma dag_strip: "dag_down (map strip bs) k = dag_down bs k" "dag_size_spec (map strip bs) k = dag_size_spec bs k"
proof -
  show d: "dag_down (map strip bs) k = dag_down bs k" for k by (simp add: dag_down_def votes_strip)
  have "dag_brake (map strip bs) k = dag_brake bs k" for k by (simp add: dag_brake_def votes_strip)
  then show "dag_size_spec (map strip bs) k = dag_size_spec bs k" by (induction k) (simp_all add: d)
qed

lemma dag_cache_strip: "dag_cache_ok (chain\<lparr> blocks := map strip (blocks chain) \<rparr>) = dag_cache_ok chain"
  by (simp add: dag_cache_ok_def cache_ok_def dag_strip)

lemma Chain_IsValid_strip: "Chain_IsValid E (chain\<lparr> blocks := map strip (blocks chain) \<rparr>) = Chain_IsValid E chain"
  by (auto simp: Chain_IsValid_nth)

text \<open>Any save, complete or not, leaves the headers and the memo table alone: it only drops transactions from memory.\<close>

lemma save_blocks_strips:
  "save_blocks io f i c bs = (bs', r) \<Longrightarrow> map strip bs' = map strip bs"
proof (induction bs arbitrary: i c bs' r)
  case (Cons b bs)
  have "map strip (fst (save_blocks io f j d bs)) = map strip bs" for j d by (rule Cons.IH [OF prod.collapse [symmetric]])
  moreover have "strip (b\<lparr> transactions := None \<rparr>) = strip b" by (simp add: strip_def)
  ultimately show ?case using Cons.prems by (auto simp: Let_def case_prod_unfold split: option.splits if_splits)
qed simp

lemma SaveToFile_strips:
  assumes "Chain_SaveToFile E io f chain curSupply curReward = (chain', f', ok)"
  shows "\<exists>bs. chain' = chain\<lparr> blocks := bs \<rparr> \<and> map strip bs = map strip (blocks chain)"
proof -
  obtain bs r where s: "save_blocks io f 0 0 (blocks chain) = (bs, r)" by fastforce
  have "chain' = chain \<or> chain' = chain\<lparr> blocks := bs \<rparr>"
    using assms s by (auto simp: Chain_SaveToFile_def Let_def case_prod_unfold split: if_splits option.splits)
  then show ?thesis using save_blocks_strips [OF s] by (elim disjE) (auto intro: exI [of _ "blocks chain"])
qed

lemma SaveToFile_keeps_chain:
  assumes "Chain_SaveToFile E io f chain curSupply curReward = (chain', f', ok)"
  shows "Chain_IsValid E chain' = Chain_IsValid E chain \<and> dag_cache_ok chain' = dag_cache_ok chain \<and>
    chain_size chain' = chain_size chain \<and> length (blocks chain') = length (blocks chain)"
proof -
  obtain bs where b: "chain' = chain\<lparr> blocks := bs \<rparr>" "map strip bs = map strip (blocks chain)"
    using SaveToFile_strips [OF assms] by blast
  have "chain'\<lparr> blocks := map strip (blocks chain') \<rparr> = chain\<lparr> blocks := map strip (blocks chain) \<rparr>" using b by simp
  then show ?thesis
    using Chain_IsValid_strip [of E chain'] Chain_IsValid_strip [of E chain] dag_cache_strip [of chain'] dag_cache_strip [of chain]
      map_eq_imp_length_eq [OF b(2)] b(1) by simp
qed

text \<open>The block reads of a node whose data directory holds \<open>f\<close>.\<close>

definition load_disk :: "chain_files \<Rightarrow> nat \<Rightarrow> block_t option" where
  "load_disk f i = fst (Chain_LoadBlockFromFile f (of_nat i) True)"

definition files_fit :: "chain_files \<Rightarrow> bool" where
  "files_fit f \<longleftrightarrow> length (the (data_file f)) \<le> LONG_MAX \<and> length (the (table_file f)) \<le> LONG_MAX"

lemma files_fit_fits: "files_fit f \<Longrightarrow> holds f fbs \<Longrightarrow> fits fbs"
  using table_codec.length_images [of "table_entries 0 0 fbs"] by (simp add: files_fit_def holds_def fits_def del: length_concat)

lemma stored_borrow:
  "disk st = load_disk f \<Longrightarrow> i < length (blocks (g_chain st)) \<Longrightarrow>
     Chain_BorrowBlockTransactions st i = stored f i (blocks (g_chain st) ! i)"
  by (simp add: Chain_BorrowBlockTransactions_def stored_def load_disk_def vec_get_def)

lemma SaveToFile_borrow:
  assumes "Chain_SaveToFile E io f (g_chain st) curSupply curReward = (chain', f', True)" and "disk st = load_disk f"
    and "list_all block_wf (blocks (g_chain st))" and "files_fit f'" and "\<And>x. length (SHA256 E x) = 32"
    and "length (blocks (g_chain st)) < 2 ^ 64"
  shows "chain' = (g_chain st)\<lparr> blocks := map strip (blocks (g_chain st)) \<rparr>"
    and "\<forall>i < length (blocks (g_chain st)).
      Chain_BorrowBlockTransactions (st\<lparr> g_chain := chain', disk := load_disk f' \<rparr>) i = Chain_BorrowBlockTransactions st i"
proof -
  obtain fbs where fbs: "length fbs = length (blocks (g_chain st))" "\<forall>k<length fbs. stored f k (blocks (g_chain st) ! k) = Some (fbs ! k)"
    "list_all whole fbs" "holds f' fbs"
    using SaveToFile_holds [OF assms(1,3,6,5)] by auto
  show c: "chain' = (g_chain st)\<lparr> blocks := map strip (blocks (g_chain st)) \<rparr>"
    using SaveToFile_holds [OF assms(1,3,6,5)] by (simp add: strip_def [abs_def])
  show "\<forall>i < length (blocks (g_chain st)).
      Chain_BorrowBlockTransactions (st\<lparr> g_chain := chain', disk := load_disk f' \<rparr>) i = Chain_BorrowBlockTransactions st i"
    using fbs stored_borrow [OF assms(2)] LoadBlock_holds [OF fbs(4) files_fit_fits [OF assms(4) fbs(4)] fbs(3)]
    by (simp add: Chain_BorrowBlockTransactions_def c vec_get_def load_disk_def)
qed

section \<open>When a save succeeds and what a failed one leaves\<close>

lemma save_blocks_succeeds:
  "\<forall>k<length bs. written io (i + k) \<and> stored f (i + k) (bs ! k) \<noteq> None \<Longrightarrow> list_all block_wf bs \<Longrightarrow>
     \<exists>bs' d t. save_blocks io f i c bs = (bs', Some (d, t))"
proof (induction bs arbitrary: i c)
  case (Cons b bs)
  have h: "written io i" "stored f i b \<noteq> None" using Cons.prems(1) by force+
  then obtain fb where fb: "stored f i b = Some fb" by blast
  then obtain txs where "transactions fb = Some txs" using stored_whole [OF fb] Cons.prems(2) by (auto simp: whole_def)
  moreover have "\<forall>k<length bs. written io (Suc i + k) \<and> stored f (Suc i + k) (bs ! k) \<noteq> None"
    using Cons.prems(1) by (metis Suc_less_eq add_Suc add_Suc_right length_Cons nth_Cons_Suc)
  then have "\<exists>bs' d t. save_blocks io f (Suc i) c' bs = (bs', Some (d, t))" for c'
    using Cons.prems(2) by (intro Cons.IH) simp_all
  then have "\<exists>bs' d t. save_blocks io f (Suc i) (c + 96 + 8 + 232 * of_nat (length txs)) bs = (bs', Some (d, t))" .
  ultimately show ?case using h(1) fb by (auto simp: stored_def [symmetric] Let_def)
qed simp

lemma SaveToFile_succeeds:
  assumes "dir_ready io" "renamed io = 3" "\<forall>k<length (blocks chain). written io k" "list_all block_wf (blocks chain)"
    and "length fbs = length (blocks chain)" "\<forall>k<length fbs. stored f k (blocks chain ! k) = Some (fbs ! k)"
  shows "\<exists>chain' f'. Chain_SaveToFile E io f chain curSupply curReward = (chain', f', True) \<and>
    data_file f' = Some (concat (map block_bytes fbs)) \<and> table_file f' = Some (concat (map table_image (table_entries 0 0 fbs)))"
proof -
  obtain bs d t where s: "save_blocks io f 0 0 (blocks chain) = (bs, Some (d, t))"
    using save_blocks_succeeds [of "blocks chain" io 0 f 0] assms(3-6) by auto
  then obtain chain' f' where r: "Chain_SaveToFile E io f chain curSupply curReward = (chain', f', True)"
    using assms(1,2) by (simp add: Chain_SaveToFile_def Let_def case_prod_unfold)
  obtain fbs' where h: "length fbs' = length (blocks chain)" "\<forall>k<length fbs'. stored f k (blocks chain ! k) = Some (fbs' ! k)"
    "d = concat (map block_bytes fbs')" "t = concat (map table_image (table_entries 0 0 fbs'))"
    using save_blocks_Some [OF s assms(4)] by auto
  have "fbs' = fbs" using h(1,2) assms(5,6) by (intro nth_equalityI) auto
  then show ?thesis using r SaveToFile_True [OF r] s h(3,4) by auto
qed

lemma save_blocks_fails:
  "j < length bs \<Longrightarrow> \<not> written io (i + j) \<Longrightarrow> \<forall>k<j. written io (i + k) \<Longrightarrow> list_all (\<lambda>b. transactions b \<noteq> None) bs \<Longrightarrow>
     save_blocks io f i c bs = (map strip (take j bs) @ drop j bs, None)"
proof (induction bs arbitrary: i c j)
  case (Cons b bs)
  obtain txs where t: "transactions b = Some txs" using Cons.prems(4) by auto
  show ?case
  proof (cases j)
    case 0
    then show ?thesis using Cons.prems(2) t by simp
  next
    case (Suc j')
    have "save_blocks io f (Suc i) c' bs = (map strip (take j' bs) @ drop j' bs, None)" for c'
      using Cons.prems Suc by (intro Cons.IH) (auto simp: Suc_less_eq2)
    moreover have "written io i" using Cons.prems(3) Suc by force
    ultimately show ?thesis using t Suc by (simp add: Let_def strip_def)
  qed
qed simp

section \<open>Properties\<close>

text \<open>Two stored blocks, empty files and a file system that answers well, for concrete instances.\<close>

definition file_block :: block_t where
  "file_block = \<lparr> header = header_of_image (replicate 96 0), transactions = Some [stx_of_image (replicate 232 1)] \<rparr>"

definition file_chain :: blockchain_t where
  "file_chain = Chain_Create\<lparr> blocks := [file_block, file_block], chain_size := 2 \<rparr>"

definition no_files :: chain_files where
  "no_files = \<lparr> meta_file = None, data_file = None, table_file = None \<rparr>"

lemma file_block_whole: "whole file_block"
  by (simp add: whole_def block_wf_def file_block_def header_of_image_wf stx_of_image_wf)

lemma file_chain_fits: "fits [file_block, file_block]"
  using length_block_bytes [OF file_block_whole] by (simp add: fits_def LONG_MAX_def file_block_def)

lemma file_chain_blocks [simp]: "blocks file_chain = [file_block, file_block]"
  by (simp add: file_chain_def)

text \<open>
  Saving and loading the chain is lossless. When the directory is there, the writes and renames
  succeed, every block can be read (from memory, or from the old files if its transactions were dropped)
  and the files stay within the range of a \<open>long\<close>, saving succeeds; the files it leaves load into exactly
  those blocks with their transactions and return the supply, reward, tip hash and tip target that were
  saved, and each single block reads back by its number.
\<close>

lemma Chain_save_load:
  assumes "dir_ready io" and "renamed io = 3" and "\<forall>k<length (blocks chain). written io k"
    and "list_all block_wf (blocks chain)" and "\<forall>x. length (SHA256 E x) = 32"
    and "length fbs = length (blocks chain)" and "\<forall>k<length fbs. stored f k (blocks chain ! k) = Some (fbs ! k)" and "fits fbs"
  shows "\<exists>chain' f'. Chain_SaveToFile E io f chain curSupply curReward = (chain', f', True) \<and>
    Chain_LoadFromFile f' anyChain True =
      ((Chain_ClearBlocks anyChain)\<lparr> blocks := fbs, chain_size := length fbs \<rparr>,
       \<lparr> outLastSavedHash = Some (fst (tip_fields E (blocks chain))), outCurrentSupply = Some curSupply,
         outDifficultyTarget = Some (snd (tip_fields E (blocks chain))), outCurrentReward = Some curReward \<rparr>, True) \<and>
    (\<forall>k<length fbs. fst (Chain_LoadBlockFromFile f' (of_nat k) True) = Some (fbs ! k))"
proof -
  have n: "length (blocks chain) < 2 ^ 64" using assms(6,8) LONG_MAX_lt [of "length (blocks chain)"] by (simp add: fits_def)
  obtain chain' f' where s: "Chain_SaveToFile E io f chain curSupply curReward = (chain', f', True)"
    using SaveToFile_succeeds [OF assms(1-4,6,7)] by blast
  obtain fbs' where h: "length fbs' = length (blocks chain)" "\<forall>k<length fbs'. stored f k (blocks chain ! k) = Some (fbs' ! k)"
    "list_all whole fbs'" "holds f' fbs'"
    using SaveToFile_holds [OF s assms(4) n] assms(5) by auto
  have "fbs' = fbs" using h(1,2) assms(6,7) by (intro nth_equalityI) auto
  then show ?thesis
    using s h LoadFromFile_holds [of f' fbs] LoadBlock_holds [of f' fbs] SaveToFile_holds [OF s assms(4) n] assms(5,8) by auto
qed

text \<open>
  C30: whatever bytes the three files contain, loading either leaves the chain alone or leaves one of
  well-formed blocks, with 32-byte hashes and full-size transactions, whose size field is their number and
  whose memo table is empty; when it reports success the number of blocks is the one in the metadata, and
  transactions are present exactly when they were asked for.
\<close>

theorem Chain_LoadFromFile_well_formed:
  "Chain_LoadFromFile f chain ld = (chain', out, ok) \<Longrightarrow>
     \<not> ok \<and> chain' = chain \<or>
     list_all block_wf (blocks chain') \<and> chain_size chain' = length (blocks chain') \<and> dagEpochs chain' = [] \<and>
     list_all (\<lambda>b. transactions b = None \<longleftrightarrow> \<not> ld) (blocks chain') \<and>
     (ok \<longrightarrow> (\<exists>m. meta_file f = Some m \<and> 84 \<le> length m \<and> out = read_meta m \<and> length (blocks chain') = unat (read_u64 0 m)))"
proof -
  assume a: "Chain_LoadFromFile f chain ld = (chain', out, ok)"
  have z: "blocks (Chain_ClearBlocks chain) = []" "chain_size (Chain_ClearBlocks chain) = 0" "dagEpochs (Chain_ClearBlocks chain) = []"
    by (simp_all add: Chain_ClearBlocks_def Chain_InvalidateDagEpochs_def)
  show ?thesis
  proof (cases "\<not> ok \<and> chain' = chain")
    case False
    then obtain m d t c1 where l: "meta_file f = Some m" "\<not> length m < 84" "out = read_meta m"
      "load_blocks (unat (read_u64 0 m)) 0 t d ld (Chain_ClearBlocks chain) = (c1, ok)"
      "chain' = (if ok then c1\<lparr> chain_size := unat (read_u64 0 m) \<rparr> else c1)"
      using a by (auto simp: Chain_LoadFromFile_def Let_def split: option.splits if_splits prod.splits)
    from load_blocks_wf [OF l(4)] z show ?thesis using l by auto
  qed simp
qed

theorem Chain_LoadFromFile_well_formed_witness:
  "fst (Chain_LoadFromFile \<lparr> meta_file = Some (replicate 84 0), data_file = Some [], table_file = Some [1, 2] \<rparr> file_chain True)
     = Chain_Create"
proof -
  let ?f = "\<lparr> meta_file = Some (replicate 84 0), data_file = Some [], table_file = Some [1, 2] \<rparr> :: chain_files"
  have r: "read_u64 0 (replicate 84 0) = 0" by (simp add: read_u64_def bytes_at_def eval_nat_numeral)
  then have l: "Chain_LoadFromFile ?f file_chain True = (fst (Chain_LoadFromFile ?f file_chain True), read_meta (replicate 84 0), True)"
    by (simp add: Chain_LoadFromFile_def)
  from Chain_LoadFromFile_well_formed [OF l] r show ?thesis
    by (cases "fst (Chain_LoadFromFile ?f file_chain True)") (simp add: Chain_Create_def)
qed

text \<open>
  A save that fails while writing a block has already dropped the transactions of every block before
  it. The files are unchanged and the call reports failure, but if a block was never stored before, its
  transactions exist nowhere any more: reading it back fails from then on.
\<close>

lemma failed_save_loses_transactions:
  assumes "dir_ready io" and "j < length (blocks (g_chain st))" and "\<not> written io j" and "\<forall>k<j. written io k"
    and "list_all (\<lambda>b. transactions b \<noteq> None) (blocks (g_chain st))" and "disk st = load_disk f"
  shows "\<exists>chain'. Chain_SaveToFile E io f (g_chain st) curSupply curReward = (chain', f, False) \<and>
    (\<forall>i<j. Chain_BorrowBlockTransactions st i = Some (blocks (g_chain st) ! i) \<and>
           Chain_BorrowBlockTransactions (st\<lparr> g_chain := chain' \<rparr>) i = load_disk f i)"
proof -
  let ?bs = "map strip (take j (blocks (g_chain st))) @ drop j (blocks (g_chain st))"
  have "save_blocks io f 0 0 (blocks (g_chain st)) = (?bs, None)"
    using save_blocks_fails [of j "blocks (g_chain st)" io 0 f 0] assms(2-5) by simp
  then have "Chain_SaveToFile E io f (g_chain st) curSupply curReward = ((g_chain st)\<lparr> blocks := ?bs \<rparr>, f, False)"
    using assms(1) by (simp add: Chain_SaveToFile_def)
  moreover have "Chain_BorrowBlockTransactions (st\<lparr> g_chain := (g_chain st)\<lparr> blocks := ?bs \<rparr> \<rparr>) i = load_disk f i" if "i < j" for i
    using that assms(2,6) by (simp add: Chain_BorrowBlockTransactions_def vec_get_def nth_append)
  moreover have "Chain_BorrowBlockTransactions st i = Some (blocks (g_chain st) ! i)" if "i < j" for i
    using that assms(2,5) by (simp add: Chain_BorrowBlockTransactions_def vec_get_def list_all_length)
  ultimately show ?thesis by blast
qed

end
