(* ===== verification/Chain_History.thy ===== *)
theory Chain_History
  imports Chain_Accept Chain_Files
begin

text \<open>
  The node's ledger as a function of its chain: in a \<open>synced\<close> node the balance sheet, the per-sender
  timestamps and the supply are what replaying the blocks from genesis yields. Appending, rolling back and
  replacing a branch keep a node synced; from this follow that a rollback undoes an append, that no spend
  is in the chain twice, and what a branch replacement guarantees.
\<close>

section \<open>History of a chain\<close>

lemma chain_history_Suc: "chain_history st (Suc n) = chain_history st n @ block_txs st n"
  by (simp add: chain_history_def)

lemma chain_history_0 [simp]: "chain_history st 0 = []"
  by (simp add: chain_history_def)

text \<open>The first \<open>n\<close> blocks can be read and replayed.\<close>

definition history_ok :: "node_state \<Rightarrow> nat \<Rightarrow> bool" where
  "history_ok st n \<longleftrightarrow>
     readable st n \<and>
     (\<exists>b. spec_block (\<lambda>_. 0) (map transaction (chain_history st n)) = Some b) \<and>
     (\<forall>tx\<in>set (chain_history st n). replayable (transaction tx) \<and> \<not> pays_nobody (transaction tx)) \<and>
     increasing_from (\<lambda>_. 0) (map transaction (chain_history st n)) \<and>
     (\<forall>i < n. coinbase_payout (map transaction (block_txs st i)) \<le> 2 ^ 64)"

definition synced :: "node_state \<Rightarrow> bool" where
  "synced st \<longleftrightarrow>
     (let n = length (blocks (g_chain st)); ts = map transaction (chain_history st n) in
      history_ok st n \<and> sheet_inv (g_sheetMap st) \<and>
      spec_block (\<lambda>_. 0) ts = Some (sheet_bal (g_sheetMap st)) \<and>
      last_ts (g_sheetMap st) = foldl note_spend (\<lambda>_. 0) ts \<and>
      u256_val (g_currentSupply st) = coinbase_payout ts)"

lemma spec_block_append:
  "spec_block b (xs @ ys) = (case spec_block b xs of None \<Rightarrow> None | Some b' \<Rightarrow> spec_block b' ys)"
  by (induction xs arbitrary: b) auto

lemma coinbase_payout_append: "coinbase_payout (xs @ ys) = coinbase_payout xs + coinbase_payout ys"
  by (simp add: coinbase_payout_def)

lemma history_ok_mono:
  assumes "history_ok st n" and "k \<le> n"
  shows "history_ok st k"
  using assms(2,1)
proof (induction rule: inc_induct)
  case (step m)
  then have "history_ok st (Suc m)" by simp
  then show ?case
    by (auto simp: history_ok_def chain_history_Suc spec_block_append increasing_from_append readable_def
        split: option.splits)
qed

lemma history_payout: "history_ok st n \<Longrightarrow> coinbase_payout (map transaction (chain_history st n)) \<le> 2 ^ 64 * n"
proof (induction n)
  case (Suc n)
  have "history_ok st n" using history_ok_mono [OF Suc.prems] by simp
  moreover have "coinbase_payout (map transaction (block_txs st n)) \<le> 2 ^ 64" using Suc.prems by (simp add: history_ok_def)
  ultimately show ?case using Suc.IH by (simp add: chain_history_Suc coinbase_payout_append)
qed (simp add: coinbase_payout_def)

text \<open>The history depends only on what can be read for each block.\<close>

lemma borrow_same:
  "blocks (g_chain st) = blocks (g_chain st') \<Longrightarrow> disk st = disk st' \<Longrightarrow>
     Chain_BorrowBlockTransactions st i = Chain_BorrowBlockTransactions st' i"
  unfolding Chain_BorrowBlockTransactions_def by (simp split: option.split)

lemma history_cong:
  assumes "\<forall>i < n. Chain_BorrowBlockTransactions st i = Chain_BorrowBlockTransactions st' i"
  shows "chain_history st n = chain_history st' n" and "history_ok st n = history_ok st' n"
proof -
  have b: "\<forall>i < n. block_txs st i = block_txs st' i" using assms by (simp add: block_txs_def)
  then have "map (block_txs st) [0..<n] = map (block_txs st') [0..<n]" by (intro map_cong) auto
  then show h: "chain_history st n = chain_history st' n" by (simp only: chain_history_def)
  show "history_ok st n = history_ok st' n" using assms b by (simp add: history_ok_def h readable_def)
qed

lemma finite_zero_balances [simp]: "finite_balances (\<lambda>_. 0)" "total_balance (\<lambda>_. 0) = 0"
  by (simp_all add: finite_balances_def total_balance_def)

lemma synced_total:
  assumes "synced st"
  shows "finite_balances (sheet_bal (g_sheetMap st))"
    and "total_balance (sheet_bal (g_sheetMap st)) +
           spend_fees (map transaction (chain_history st (length (blocks (g_chain st))))) = u256_val (g_currentSupply st)"
    and "u256_val (g_currentSupply st) \<le> 2 ^ 64 * length (blocks (g_chain st))"
proof -
  let ?ts = "map transaction (chain_history st (length (blocks (g_chain st))))"
  have s: "spec_block (\<lambda>_. 0) ?ts = Some (sheet_bal (g_sheetMap st))" "u256_val (g_currentSupply st) = coinbase_payout ?ts"
    "history_ok st (length (blocks (g_chain st)))"
    using assms by (simp_all add: synced_def Let_def)
  show "finite_balances (sheet_bal (g_sheetMap st))" by (rule finite_spec_block [OF _ s(1)]) simp
  show "total_balance (sheet_bal (g_sheetMap st)) + spend_fees ?ts = u256_val (g_currentSupply st)"
    using total_spec_block [OF _ s(1)] s(2) by simp
  show "u256_val (g_currentSupply st) \<le> 2 ^ 64 * length (blocks (g_chain st))"
    using history_payout [OF s(3)] s(2) by simp
qed

lemma synced_coins: "synced st \<Longrightarrow> coins_inv st"
  using synced_total [of st] by (simp add: coins_inv_def) (simp add: synced_def Let_def)

section \<open>Appending\<close>

text \<open>\<open>st'\<close> has the blocks of \<open>st\<close> and possibly more, on the same disk.\<close>

definition extends :: "node_state \<Rightarrow> node_state \<Rightarrow> bool" where
  "extends st st' \<longleftrightarrow> (\<exists>bs. blocks (g_chain st') = blocks (g_chain st) @ bs) \<and> disk st' = disk st \<and> g_pow st' = g_pow st"

lemma extends_refl [simp]: "extends st st"
  by (simp add: extends_def)

lemma extends_trans: "extends a b \<Longrightarrow> extends b c \<Longrightarrow> extends a c"
  by (auto simp: extends_def)

lemma extends_borrow:
  assumes "extends st st'" and "i < length (blocks (g_chain st))"
  shows "Chain_BorrowBlockTransactions st' i = Chain_BorrowBlockTransactions st i"
  using assms by (auto simp: extends_def Chain_BorrowBlockTransactions_def vec_get_def nth_append)

lemma extends_history:
  assumes "extends st st'" and "n \<le> length (blocks (g_chain st))"
  shows "chain_history st' n = chain_history st n" and "history_ok st' n = history_ok st n"
  using history_cong [of n st' st] extends_borrow [OF assms(1)] assms(2) by simp_all

lemma AddBlockLocked_extends:
  assumes "chain_inv E st" "coins_inv st" "Chain_AddBlockLocked E st block = (st', ok)"
  shows "extends st st'"
proof -
  note k = AddBlockLocked_inv [OF assms]
  show ?thesis
  proof (cases ok)
    case True
    then show ?thesis using AddBlockLocked_True [OF assms(1,2)] assms(3) k by (auto simp: extends_def appended_def)
  next
    case False
    then have "Chain_AddBlockLocked E st block = (st', False)" using assms(3) by simp
    from AddBlockLocked_False [OF assms(1,2) this] show ?thesis using k by (auto simp: extends_def)
  qed
qed

lemma synced_appended:
  assumes "synced st" "appended E st block txs expected st'" "disk st' = disk st" "g_pow st' = g_pow st"
    and "sheet_inv (g_sheetMap st')" and "length (blocks (g_chain st)) < 2 ^ 64"
  shows "synced st'"
proof -
  let ?n = "length (blocks (g_chain st))"
  have a: "transactions block = Some txs" "block_txs_ok E (g_sheetMap st) (g_currentReward st) txs expected"
    "payments_addressed txs" "blocks (g_chain st') = blocks (g_chain st) @ [block]"
    "spec_block (sheet_bal (g_sheetMap st)) (map transaction txs) = Some (sheet_bal (g_sheetMap st'))"
    "last_ts (g_sheetMap st') = foldl note_spend (last_ts (g_sheetMap st)) (map transaction txs)"
    "g_currentSupply st' = fst (uint256_add_u64 (g_currentSupply st) expected)"
    using assms(2) by (simp_all add: appended_def)
  have ext: "extends st st'" using a(4) assms(3,4) by (simp add: extends_def)
  have top: "Chain_BorrowBlockTransactions st' ?n = Some block" "block_txs st' ?n = txs"
    using a(1,4) by (simp_all add: block_txs_def Chain_BorrowBlockTransactions_def vec_get_def nth_append)
  note pay = block_txs_ok_payout [OF a(2)]
  have s: "history_ok st ?n" "spec_block (\<lambda>_. 0) (map transaction (chain_history st ?n)) = Some (sheet_bal (g_sheetMap st))"
    "last_ts (g_sheetMap st) = foldl note_spend (\<lambda>_. 0) (map transaction (chain_history st ?n))"
    "u256_val (g_currentSupply st) = coinbase_payout (map transaction (chain_history st ?n))"
    using assms(1) by (simp_all add: synced_def Let_def)
  have h: "chain_history st' (Suc ?n) = chain_history st ?n @ txs"
    using extends_history(1) [OF ext] top(2) by (simp add: chain_history_Suc)
  have "increasing_from (last_ts (g_sheetMap st)) (map transaction txs)"
    using a(2) ordering_loop_increasing [of "g_sheetMap st" "[]" txs] by (simp add: block_txs_ok_def)
  then have inc: "increasing_from (\<lambda>_. 0) (map transaction (chain_history st' (Suc ?n)))"
    using s(1,3) by (simp add: h increasing_from_append history_ok_def)
  have spec: "spec_block (\<lambda>_. 0) (map transaction (chain_history st' (Suc ?n))) = Some (sheet_bal (g_sheetMap st'))"
    using s(2) a(5) by (simp add: h spec_block_append)
  have "history_ok st' ?n" using s(1) extends_history(2) [OF ext] by simp
  then have ok: "history_ok st' (Suc ?n)"
    using inc spec top pay a(3) h unat_lt_64 [of expected] s(1)
    by (auto simp: history_ok_def readable_def payments_addressed_def less_Suc_eq)
  have "u256_val (g_currentSupply st) + unat expected < TWO256"
  proof -
    have "2 ^ 64 * ?n \<le> 2 ^ 64 * 2 ^ 64" using assms(6) by (intro mult_left_mono) auto
    then have "u256_val (g_currentSupply st) \<le> 2 ^ 64 * 2 ^ 64" using synced_total(3) [OF assms(1)] by linarith
    moreover have "2 ^ 64 * 2 ^ 64 + 2 ^ 64 < TWO256" by (simp add: TWO256_def)
    ultimately show ?thesis using unat_lt_64 [of expected] by simp
  qed
  then have "u256_val (g_currentSupply st') = coinbase_payout (map transaction (chain_history st' (Suc ?n)))"
    using uint256_add_u64_no_overflow [of "g_currentSupply st" expected] s(4) pay(1) a(7)
    by (simp add: h coinbase_payout_append)
  then show ?thesis
    using ok spec assms(5) a(4,6) s(3) by (simp add: synced_def Let_def h)
qed

lemma synced_with_cache: "synced st \<Longrightarrow> synced (with_cache st cache)"
proof -
  assume s: "synced st"
  have e: "extends st (with_cache st cache)" by (simp add: extends_def)
  show ?thesis using s extends_history [OF e] by (simp add: synced_def Let_def)
qed

lemma AddBlockLocked_synced:
  assumes "chain_inv E st" "synced st" "Chain_AddBlockLocked E st block = (st', ok)" "ok \<or> block_addressed block"
  shows "synced st'"
proof (cases ok)
  case True
  note c = synced_coins [OF assms(2)]
  have r: "Chain_AddBlockLocked E st block = (st', True)" using assms(3) True by simp
  obtain e where e: "accepted E st block = Some e" "appended E st block (the (transactions block)) e st'"
    using AddBlockLocked_True [OF assms(1) c r] by blast
  have k: "coins_inv st'" "disk st' = disk st" "g_pow st' = g_pow st" using AddBlockLocked_inv [OF assms(1) c r] by auto
  have tip: "extends_tip E (g_chain st) block" using accepted_facts [OF e(1)] by blast
  have "length (blocks (g_chain st)) < 2 ^ 64"
    using extends_tip_linked(2) [OF tip] assms(1) unat_lt_64 [of "blockNumber (header block)"] by (simp add: chain_inv_def)
  then show ?thesis using synced_appended [OF assms(2) e(2) k(2,3)] k(1) by (simp add: coins_inv_def)
next
  case False
  then have r: "Chain_AddBlockLocked E st block = (st', False)" using assms(3) by simp
  from AddBlockLocked_False [OF assms(1) synced_coins [OF assms(2)] r] show ?thesis
    using assms(4) False synced_with_cache [OF assms(2)] by auto
qed

lemma AddBlockLocked_blocks:
  assumes "chain_inv E st" "synced st" "Chain_AddBlockLocked E st block = (st', True)"
  shows "blocks (g_chain st') = blocks (g_chain st) @ [block]"
  using AddBlockLocked_True [OF assms(1) synced_coins [OF assms(2)] assms(3)] by (auto simp: appended_def)

lemma AddBlockLocked_synced_or_longer:
  assumes "chain_inv E st" "synced st" "Chain_AddBlockLocked E st block = (st', ok)"
  shows "synced st' \<or> length (blocks (g_chain st)) < length (blocks (g_chain st'))"
proof (cases ok)
  case False
  then have r: "Chain_AddBlockLocked E st block = (st', False)" using assms(3) by simp
  from AddBlockLocked_False [OF assms(1) synced_coins [OF assms(2)] r] show ?thesis
    using synced_with_cache [OF assms(2)] by auto
qed (use AddBlockLocked_synced [OF assms] in simp)

lemma add_blocks_facts:
  assumes "chain_inv E st" "synced st" "add_blocks E st bs = (st', ok)"
  shows "chain_inv E st' \<and> extends st st' \<and> (synced st' \<or> length (blocks (g_chain st)) < length (blocks (g_chain st'))) \<and>
    (ok \<longrightarrow> synced st' \<and> blocks (g_chain st') = blocks (g_chain st) @ bs) \<and>
    (list_all block_addressed bs \<longrightarrow> synced st')"
  using assms
proof (induction bs arbitrary: st)
  case (Cons b bs)
  obtain st1 ok1 where l: "Chain_AddBlockLocked E st b = (st1, ok1)" by fastforce
  note c = synced_coins [OF Cons.prems(2)]
  have i: "chain_inv E st1" using AddBlockLocked_inv [OF Cons.prems(1) c l] by blast
  have e: "extends st st1" by (rule AddBlockLocked_extends [OF Cons.prems(1) c l])
  have s: "ok1 \<or> block_addressed b \<Longrightarrow> synced st1" by (rule AddBlockLocked_synced [OF Cons.prems(1,2) l])
  show ?case
  proof (cases ok1)
    case True
    then have r: "add_blocks E st1 bs = (st', ok)" using Cons.prems(3) l by simp
    have "Chain_AddBlockLocked E st b = (st1, True)" using l True by simp
    note b = AddBlockLocked_blocks [OF Cons.prems(1,2) this]
    have "synced st' \<or> length (blocks (g_chain st)) < length (blocks (g_chain st'))"
      using Cons.IH [OF i s [OF disjI1 [OF True]] r] b by auto
    then show ?thesis using Cons.IH [OF i s [OF disjI1 [OF True]] r] extends_trans [OF e, of st'] b by simp
  next
    case False
    then have "st' = st1" "\<not> ok" using Cons.prems(3) l by simp_all
    then show ?thesis using i e s AddBlockLocked_synced_or_longer [OF Cons.prems(1,2) l] by simp
  qed
qed simp

section \<open>Rolling back\<close>

lemma IsValid_take: "Chain_IsValid E chain \<Longrightarrow> blocks chain' = take n (blocks chain) \<Longrightarrow> Chain_IsValid E chain'"
  unfolding Chain_IsValid_nth by (auto simp: less_imp_diff_less)

lemma sheet_Init [simp]: "sheet_inv BalanceSheet_Init" "sheet_bal BalanceSheet_Init = (\<lambda>_. 0)" "last_ts BalanceSheet_Init = (\<lambda>_. 0)"
  by (auto simp: sheet_inv_def BalanceSheet_Init_def map_wf_def sheet_bal_def map_bal_def last_ts_def)

lemma dag_cache_empty [simp]: "dag_cache_ok (Chain_InvalidateDagEpochs chain)"
  by (simp add: dag_cache_ok_def cache_ok_def Chain_InvalidateDagEpochs_def)

text \<open>The state in which the replay of a rollback starts.\<close>

definition truncated :: "crypto_env \<Rightarrow> node_state \<Rightarrow> nat \<Rightarrow> node_state" where
  "truncated E st height =
     st\<lparr> g_txMempool := restore_blocks E st (rev [height..<length (blocks (g_chain st))]) (g_txMempool st),
         g_chain := Chain_InvalidateDagEpochs
                      ((g_chain st)\<lparr> blocks := take height (blocks (g_chain st)), chain_size := height \<rparr>),
         g_currentBlockHeight := (if height \<noteq> 0 then of_nat (height - 1) else 0),
         g_sheetMap := BalanceSheet_Init \<rparr>"

lemma Rollback_truncated:
  assumes "height < length (blocks (g_chain st))"
  shows "Chain_RollbackToHeightLocked E st height =
    (case replay_blocks (truncated E st height) [0..<height] BalanceSheet_Init (uint256_from_u64 0) of
       (sheet', None) \<Rightarrow> ((truncated E st height)\<lparr> g_sheetMap := sheet' \<rparr>, False)
     | (sheet', Some sup') \<Rightarrow>
         ((truncated E st height)\<lparr> g_sheetMap := sheet', g_currentSupply := sup',
            g_currentReward := fst (CalculateBlockRewardAtHeight sup' (of_nat height) (g_currentReward st)) \<rparr>, True))"
proof -
  have p: "pop_down (blocks (g_chain st)) (rev [height..<length (blocks (g_chain st))]) = take height (blocks (g_chain st))"
    using pop_down_take [of height "length (blocks (g_chain st))" "blocks (g_chain st)"] assms by simp
  show ?thesis
    unfolding Chain_RollbackToHeightLocked_def Let_def p using assms
    by (simp add: truncated_def split: prod.split option.split)
qed

lemma truncated_borrow:
  "i < height \<Longrightarrow> height \<le> length (blocks (g_chain st)) \<Longrightarrow>
     Chain_BorrowBlockTransactions (truncated E st height) i = Chain_BorrowBlockTransactions st i"
  by (simp add: Chain_BorrowBlockTransactions_def truncated_def Chain_InvalidateDagEpochs_def vec_get_def)

text \<open>A rollback rebuilds exactly the ledger of the blocks it keeps.\<close>

lemma Rollback_facts:
  assumes "chain_inv E st" "history_ok st height" "height < length (blocks (g_chain st))"
    and "Chain_RollbackToHeightLocked E st height = (st', ok)"
  shows "ok \<and> chain_inv E st' \<and> synced st' \<and> blocks (g_chain st') = take height (blocks (g_chain st)) \<and>
    disk st' = disk st \<and> g_pow st' = g_pow st \<and>
    g_txMempool st' = restore_blocks E st (rev [height..<length (blocks (g_chain st))]) (g_txMempool st) \<and>
    g_currentReward st' = fst (CalculateBlockRewardAtHeight (g_currentSupply st') (of_nat height) (g_currentReward st))"
proof -
  let ?t = "truncated E st height" and ?ts = "map transaction (chain_history st height)"
  have b: "\<forall>i < height. Chain_BorrowBlockTransactions ?t i = Chain_BorrowBlockTransactions st i"
    using truncated_borrow assms(3) by simp
  have hist: "chain_history ?t height = chain_history st height" using history_cong(1) [OF b] .
  have ok: "history_ok ?t height" using history_cong(2) [OF b] assms(2) by simp
  then have "\<forall>i\<in>set [0..<height]. Chain_BorrowBlockTransactions ?t i \<noteq> None" by (auto simp: history_ok_def readable_def)
  from replay_blocks_readable [OF this]
  obtain s' sup' where r: "replay_txs BalanceSheet_Init (uint256_from_u64 0) (chain_history st height) = (s', sup')"
    "replay_blocks ?t [0..<height] BalanceSheet_Init (uint256_from_u64 0) = (s', Some sup')"
    using hist by (auto simp: chain_history_def case_prod_unfold Let_def prod_eq_iff)
  obtain b' where b': "spec_block (\<lambda>_. 0) ?ts = Some b'" using assms(2) by (auto simp: history_ok_def)
  have room: "coinbase_payout ?ts < TWO256"
  proof -
    have "2 ^ 64 * height \<le> 2 ^ 64 * 2 ^ 64"
      using assms(1,3) unfolding chain_inv_def by (intro mult_left_mono) auto
    then have "coinbase_payout ?ts \<le> 2 ^ 64 * 2 ^ 64" using history_payout [OF assms(2)] by linarith
    moreover have "2 ^ 64 * 2 ^ 64 < TWO256" by (simp add: TWO256_def)
    ultimately show ?thesis by linarith
  qed
  have rep: "sheet_inv s' \<and> sheet_bal s' = b' \<and> last_ts s' = foldl note_spend (\<lambda>_. 0) ?ts \<and> u256_val sup' = coinbase_payout ?ts"
    using replay_txs_refines [OF sheet_Init(1) _ _ _ _ _ r(1)] b' room assms(2) by (simp add: history_ok_def)
  define st1 where "st1 = ?t\<lparr> g_sheetMap := s', g_currentSupply := sup',
      g_currentReward := fst (CalculateBlockRewardAtHeight sup' (of_nat height) (g_currentReward st)) \<rparr>"
  have st': "st' = st1" "ok" using assms(4) Rollback_truncated [OF assms(3), of E] r(2) by (simp_all add: st1_def)
  have f: "blocks (g_chain st1) = take height (blocks (g_chain st))" "chain_size (g_chain st1) = height"
    "g_sheetMap st1 = s'" "g_currentSupply st1 = sup'" "disk st1 = disk st" "g_pow st1 = g_pow st"
    "dag_cache_ok (g_chain st1)"
    by (simp_all add: st1_def truncated_def) (simp_all add: Chain_InvalidateDagEpochs_def)
  have len: "length (blocks (g_chain st1)) = height" using f(1) assms(3) by simp
  have b1: "\<forall>i < height. Chain_BorrowBlockTransactions st1 i = Chain_BorrowBlockTransactions st i"
    using assms(3) by (simp add: Chain_BorrowBlockTransactions_def vec_get_def f(1,5))
  have "synced st1"
    using rep b' history_cong [OF b1] assms(2) by (simp add: synced_def Let_def len f(3,4))
  moreover have "chain_inv E st1"
    using assms(1,3) IsValid_take [OF _ f(1)] f(2,7) len by (simp add: chain_inv_def)
  ultimately show ?thesis
    using st' f by (simp add: st1_def truncated_def)
qed

lemma Rollback_noop: "length (blocks (g_chain st)) \<le> height \<Longrightarrow> Chain_RollbackToHeightLocked E st height = (st, True)"
  by (simp add: Chain_RollbackToHeightLocked_def)

text \<open>The same, with the trivial case included.\<close>

lemma Rollback_synced:
  assumes "chain_inv E st" "history_ok st height" "height < length (blocks (g_chain st)) \<or> synced st"
    and "Chain_RollbackToHeightLocked E st height = (st', ok)"
  shows "ok \<and> chain_inv E st' \<and> synced st' \<and> blocks (g_chain st') = take height (blocks (g_chain st)) \<and>
    disk st' = disk st \<and> g_pow st' = g_pow st"
proof (cases "height < length (blocks (g_chain st))")
  case True
  then show ?thesis using Rollback_facts [OF assms(1,2) True assms(4)] by blast
next
  case False
  then show ?thesis using assms Rollback_noop [of st height E] by simp
qed

section \<open>Replacing a branch\<close>

lemma Block_Copy_id [simp]: "Block_Copy b = b"
  by (simp add: Block_Copy_def option.map_ident)

lemma snapshot_blocks_Some:
  "snapshot_blocks st ixs = Some bs \<Longrightarrow> map Some bs = map (Chain_BorrowBlockTransactions st) ixs"
  by (induction ixs arbitrary: bs) (auto split: option.splits)

lemma snapshot_addressed:
  assumes "history_ok st n" "snapshot_blocks st [k..<n] = Some bs"
  shows "list_all block_addressed bs"
proof -
  have "block_addressed b" if "b \<in> set bs" for b
  proof -
    have "Some b \<in> set (map Some bs)" using that by simp
    then obtain i where i: "i < n" "Chain_BorrowBlockTransactions st i = Some b"
      using snapshot_blocks_Some [OF assms(2)] by auto
    have "set (block_txs st i) \<subseteq> set (chain_history st n)" using i(1) by (auto simp: chain_history_def)
    then show ?thesis
      using i(2) assms(1)
      by (auto simp: block_addressed_def payments_addressed_def history_ok_def block_txs_def split: option.splits)
  qed
  then show ?thesis by (simp add: list_all_iff)
qed

lemma swap_branch_synced:
  assumes "chain_inv E st" "synced st" "forkHeight \<le> length (blocks (g_chain st))" "list_all block_addressed snapshot"
    and "swap_branch E st forkHeight snapshot candidate = (st', ok)"
  shows "chain_inv E st' \<and> synced st' \<and> disk st' = disk st \<and> g_pow st' = g_pow st \<and>
    (ok \<longrightarrow> blocks (g_chain st') = take forkHeight (blocks (g_chain st)) @ candidate) \<and>
    (\<not> ok \<longrightarrow> (\<exists>bs. blocks (g_chain st') = take forkHeight (blocks (g_chain st)) @ bs))"
proof -
  have h: "history_ok st forkHeight" using assms(2,3) history_ok_mono by (auto simp: synced_def Let_def)
  obtain st1 ok1 where r1: "Chain_RollbackToHeightLocked E st forkHeight = (st1, ok1)" by fastforce
  have f1: "ok1" "chain_inv E st1" "synced st1" "blocks (g_chain st1) = take forkHeight (blocks (g_chain st))"
    "disk st1 = disk st" "g_pow st1 = g_pow st"
    using Rollback_synced [OF assms(1) h disjI2 [OF assms(2)] r1] by auto
  have len1: "length (blocks (g_chain st1)) = forkHeight" using f1(4) assms(3) by simp
  obtain st2 ok2 where r2: "add_blocks E st1 candidate = (st2, ok2)" by fastforce
  note f2 = add_blocks_facts [OF f1(2,3) r2]
  then have e2: "extends st1 st2" by blast
  show ?thesis
  proof (cases ok2)
    case True
    then show ?thesis using assms(5) r1 f1 r2 f2 by (auto simp: swap_branch_def extends_def)
  next
    case False
    have h2: "history_ok st2 forkHeight"
      using extends_history(2) [OF e2, of forkHeight] f1(3) len1 by (simp add: synced_def Let_def)
    obtain st3 ok3 where r3: "Chain_RollbackToHeightLocked E st2 forkHeight = (st3, ok3)" by fastforce
    note f3 = Rollback_synced [OF conjunct1 [OF f2] h2 _ r3]
    have "forkHeight < length (blocks (g_chain st2)) \<or> synced st2" using f2 len1 by auto
    note f3 = f3 [OF this]
    obtain st4 ok4 where r4: "add_blocks E st3 snapshot = (st4, ok4)" by fastforce
    have f4: "chain_inv E st4" "extends st3 st4" "synced st4"
      using add_blocks_facts [OF _ _ r4] f3 assms(4) by auto
    have res: "st' = st4" "\<not> ok"
      using assms(5) r1 f1(1) r2 False r3 f3 r4 by (simp_all add: swap_branch_def)
    have "take forkHeight (blocks (g_chain st2)) = take forkHeight (blocks (g_chain st))"
      using e2 f1(4) len1 by (auto simp: extends_def)
    then show ?thesis using f1(5,6) e2 f3 f4 res by (auto simp: extends_def)
  qed
qed

text \<open>The call either refuses without touching the chain or reaches the swap.\<close>

definition may_replace :: "crypto_env \<Rightarrow> u64 \<Rightarrow> node_state \<Rightarrow> nat \<Rightarrow> block_t list \<Rightarrow> u64 \<Rightarrow> bool \<Rightarrow> bool" where
  "may_replace E now st forkHeight newBlocks observedAtTipHeight bypassPenalty \<longleftrightarrow>
     newBlocks \<noteq> [] \<and> 0 < forkHeight \<and> forkHeight \<le> length (blocks (g_chain st)) \<and>
     Chain_BranchIsLinkedLocked E (g_chain st) forkHeight newBlocks \<and>
     (bypassPenalty \<or> Chain_IsInitialBlockDownload (g_chain st) now \<or> length (blocks (g_chain st)) = forkHeight \<or>
      penalty_served (length (blocks (g_chain st))) forkHeight (length newBlocks) observedAtTipHeight) \<and>
     branch_work (drop forkHeight (blocks (g_chain st))) < branch_work newBlocks"

lemma ReplaceBranch_cases:
  assumes "Chain_ReplaceBranch E now st forkHeight newBlocks observedAtTipHeight bypassPenalty = (st', ok)"
  shows "(\<not> ok \<and> (st' = st \<or> st' = Chain_OnTipAdvanced st)) \<or>
    (may_replace E now st forkHeight newBlocks observedAtTipHeight bypassPenalty \<and>
     (\<exists>snapshot st1. snapshot_blocks st [forkHeight..<length (blocks (g_chain st))] = Some snapshot \<and>
        swap_branch E st forkHeight snapshot newBlocks = (st1, ok) \<and> st' = Chain_OnTipAdvanced st1))"
proof (cases "newBlocks = [] \<or> forkHeight = 0 \<or> forkHeight > length (blocks (g_chain st)) \<or>
    \<not> Chain_BranchIsLinkedLocked E (g_chain st) forkHeight newBlocks \<or>
    (\<not> bypassPenalty \<and> \<not> Chain_IsInitialBlockDownload (g_chain st) now \<and> length (blocks (g_chain st)) > forkHeight \<and>
     \<not> penalty_served (length (blocks (g_chain st))) forkHeight (length newBlocks) observedAtTipHeight)")
  case True
  then show ?thesis using assms unfolding Chain_ReplaceBranch_def Let_def by (auto split: if_splits)
next
  case False
  define res where "res = (case (Chain_ComputeWorkRange (g_chain st) forkHeight (length (blocks (g_chain st))), Chain_ComputeBranchWork newBlocks) of
      (Some incumbentWork, Some candidateWork) \<Rightarrow>
        if uint256_cmp candidateWork incumbentWork \<le> 0 then (st, False)
        else (case snapshot_blocks st [forkHeight..<length (blocks (g_chain st))] of
                None \<Rightarrow> (st, False)
              | Some snapshot \<Rightarrow> swap_branch E st forkHeight snapshot newBlocks)
    | _ \<Rightarrow> (st, False))"
  have copy: "map Block_Copy newBlocks = newBlocks" by (simp add: map_idI)
  have "(st', ok) = (Chain_OnTipAdvanced (fst res), snd res)"
    using assms False unfolding Chain_ReplaceBranch_def Let_def copy res_def by auto
  then have r: "st' = Chain_OnTipAdvanced (fst res)" "ok = snd res" by simp_all
  show ?thesis
  proof (cases "\<exists>iw cw snapshot. Chain_ComputeWorkRange (g_chain st) forkHeight (length (blocks (g_chain st))) = Some iw \<and>
      Chain_ComputeBranchWork newBlocks = Some cw \<and> \<not> uint256_cmp cw iw \<le> 0 \<and>
      snapshot_blocks st [forkHeight..<length (blocks (g_chain st))] = Some snapshot")
    case True
    then obtain iw cw snapshot where w: "Chain_ComputeWorkRange (g_chain st) forkHeight (length (blocks (g_chain st))) = Some iw"
      "Chain_ComputeBranchWork newBlocks = Some cw" "\<not> uint256_cmp cw iw \<le> 0"
      "snapshot_blocks st [forkHeight..<length (blocks (g_chain st))] = Some snapshot" by blast
    have "u256_val iw = branch_work (drop forkHeight (blocks (g_chain st)))" "u256_val cw = branch_work newBlocks"
      using w(1,2) sum_work_val by (auto simp: Chain_ComputeWorkRange_def Chain_ComputeBranchWork_def split: if_splits)
    moreover have "u256_val iw < u256_val cw" using w(3) by (auto simp: uint256_cmp_val split: if_splits)
    ultimately have "may_replace E now st forkHeight newBlocks observedAtTipHeight bypassPenalty"
      using False by (auto simp: may_replace_def)
    moreover have "res = swap_branch E st forkHeight snapshot newBlocks" using w by (simp add: res_def)
    ultimately show ?thesis
      using r w(4) by (intro disjI2 conjI exI [of _ snapshot] exI [of _ "fst res"]) (simp_all add: prod_eq_iff)
  next
    case False
    then have "res = (st, False)" unfolding res_def by (auto split: option.splits)
    then show ?thesis using r by simp
  qed
qed

section \<open>Reachable nodes\<close>

text \<open>
  The operations of the running node on its chain and pool, with every outcome. Each step carries its effect
  on the agreement of the ledger with the chain. Two outcomes break it: a block that was pushed and then
  refused by its ledger pass (see \<open>AddBlock_unaddressed_payment\<close>), which shows as a refusal that grew the
  chain, and a save that fails half way or exceeds what a \<^verbatim>\<open>long\<close> offset can address (see \<open>Chain_Files\<close>).
  Wiping the chain starts over with an empty ledger.
\<close>

datatype ledger_effect = Keeps | Breaks | Restarts

fun in_step_after :: "ledger_effect \<Rightarrow> bool \<Rightarrow> bool" where
  "in_step_after Keeps c = c"
| "in_step_after Breaks c = False"
| "in_step_after Restarts c = True"

definition add_effect :: "node_state \<Rightarrow> node_state \<Rightarrow> bool \<Rightarrow> ledger_effect" where
  "add_effect st st' ok = (if ok \<or> length (blocks (g_chain st')) = length (blocks (g_chain st)) then Keeps else Breaks)"

text \<open>A save that succeeded, of blocks and hashes with the sizes of their C types, into files that can be addressed.\<close>

definition save_complete :: "crypto_env \<Rightarrow> node_state \<Rightarrow> chain_files \<Rightarrow> bool \<Rightarrow> bool" where
  "save_complete E st f' ok \<longleftrightarrow> ok \<and> files_fit f' \<and> list_all block_wf (blocks (g_chain st)) \<and>
     length (blocks (g_chain st)) < 2 ^ 64 \<and> (\<forall>x. length (SHA256 E x) = 32)"

inductive node_step :: "crypto_env \<Rightarrow> ledger_effect \<Rightarrow> node_state \<Rightarrow> node_state \<Rightarrow> bool" for E where
  step_add: "Chain_AddBlock E st block = (st', ok) \<Longrightarrow> node_step E (add_effect st st' ok) st st'"
| step_rollback: "Chain_RollbackToHeight E st height = (st', ok) \<Longrightarrow> node_step E Keeps st st'"
| step_replace: "Chain_ReplaceBranch E now st forkHeight newBlocks observed bypass = (st', ok) \<Longrightarrow> node_step E Keeps st st'"
| step_submit: "node_step E Keeps st (st\<lparr> g_txMempool := fst (TxMempool_Insert E (g_txMempool st) tx) \<rparr>)"
| step_prune: "node_step E Keeps st (st\<lparr> g_txMempool := fst (TxMempool_PruneExpired (g_txMempool st) order nowMs) \<rparr>)"
| step_dag: "pow_reachable E pow \<Longrightarrow> node_step E Keeps st (st\<lparr> g_pow := pow \<rparr>)"
| step_params: "node_step E Keeps st (st\<lparr> g_chain := fst (Chain_DagParamsForHeightLocked E (g_chain st) height) \<rparr>)"
| step_wipe: "node_step E Restarts st (wipechain st)"
| step_save: "Chain_SaveToFile E io f (g_chain st) (g_currentSupply st) (g_currentReward st) = (chain', f', ok) \<Longrightarrow>
    disk st = load_disk f \<Longrightarrow>
    node_step E (if save_complete E st f' ok then Keeps else Breaks) st (st\<lparr> g_chain := chain', disk := load_disk f' \<rparr>)"

text \<open>
  \<open>node_run E c st\<close>: the node can come to \<open>st\<close>; the flag tells whether no step since the start or the last
  wipe has broken the agreement of ledger and chain.
\<close>

inductive node_run :: "crypto_env \<Rightarrow> bool \<Rightarrow> node_state \<Rightarrow> bool" for E where
  run_start: "node_run E True fresh_node"
| run_step: "node_run E c st \<Longrightarrow> node_step E e st st' \<Longrightarrow> node_run E (in_step_after e c) st'"

text \<open>All states the node can come to (\<open>c\<close> false), or those it comes to with ledger and chain in step (\<open>c\<close> true).\<close>

definition reached :: "crypto_env \<Rightarrow> bool \<Rightarrow> node_state \<Rightarrow> bool" where
  "reached E c st \<longleftrightarrow> (\<exists>c'. node_run E c' st \<and> (c \<longrightarrow> c'))"

abbreviation reachable :: "crypto_env \<Rightarrow> node_state \<Rightarrow> bool" where
  "reachable E st \<equiv> reached E True st"

lemma reach_start: "reached E c fresh_node"
  using run_start by (auto simp: reached_def)

lemma reach_step: "reached E c st \<Longrightarrow> node_step E e st st' \<Longrightarrow> (c \<Longrightarrow> e \<noteq> Breaks) \<Longrightarrow> reached E c st'"
  using run_step by (cases e) (fastforce simp: reached_def)+

lemma reach_keeps: "reached E c st \<Longrightarrow> node_step E Keeps st st' \<Longrightarrow> reached E c st'"
  by (erule (1) reach_step) simp

lemma reached_weaken: "reached E c st \<Longrightarrow> (c' \<Longrightarrow> c) \<Longrightarrow> reached E c' st"
  by (auto simp: reached_def)

lemma reached_run: "node_run E c st \<Longrightarrow> reached E c st"
  by (auto simp: reached_def)

inductive_cases node_stepE: "node_step E e st st'"

lemma synced_same:
  assumes "synced st" "g_chain st' = g_chain st" "g_sheetMap st' = g_sheetMap st" "g_currentSupply st' = g_currentSupply st"
    and "disk st' = disk st"
  shows "synced st'"
proof -
  have "Chain_BorrowBlockTransactions st' i = Chain_BorrowBlockTransactions st i" for i
    by (rule borrow_same) (simp_all add: assms(2,5))
  then show ?thesis using assms history_cong [of "length (blocks (g_chain st))" st' st] by (simp add: synced_def Let_def)
qed

lemma chain_inv_same: "chain_inv E st \<Longrightarrow> g_chain st' = g_chain st \<Longrightarrow> chain_inv E st'"
  by (simp add: chain_inv_def)

lemma AddBlock_synced:
  assumes "chain_inv E st" "synced st" "Chain_AddBlock E st block = (st', ok)" "ok \<or> block_addressed block"
  shows "chain_inv E st' \<and> synced st'"
proof -
  obtain st1 where st1: "Chain_AddBlockLocked E st block = (st1, ok)" "st' = (if ok then Chain_OnTipAdvanced st1 else st1)"
    using AddBlock_Locked [OF assms(3)] by blast
  have "synced st1" by (rule AddBlockLocked_synced [OF assms(1,2) st1(1) assms(4)])
  then have "synced st'" by (rule synced_same) (simp_all add: st1(2))
  then show ?thesis using AddBlock_inv [OF assms(1) synced_coins [OF assms(2)] assms(3)] by blast
qed

lemma RollbackToHeight_synced:
  assumes "chain_inv E st" "synced st" "Chain_RollbackToHeight E st height = (st', ok)"
  shows "ok \<and> chain_inv E st' \<and> synced st' \<and> blocks (g_chain st') = take height (blocks (g_chain st)) \<and> disk st' = disk st"
proof -
  obtain st1 where st1: "Chain_RollbackToHeightLocked E st height = (st1, ok)" "st' = Chain_OnTipAdvanced st1"
    using assms(3) by (auto simp: Chain_RollbackToHeight_def Let_def split: prod.splits)
  show ?thesis
  proof (cases "height < length (blocks (g_chain st))")
    case True
    have "history_ok st height" using assms(2) True history_ok_mono by (auto simp: synced_def Let_def)
    from Rollback_facts [OF assms(1) this True st1(1)] show ?thesis
      using synced_same [of st1 st'] by (simp add: st1(2))
  next
    case False
    then show ?thesis using assms(1,2) st1 Rollback_noop [of st height E] synced_same [of st st'] by simp
  qed
qed

lemma ReplaceBranch_synced:
  assumes "chain_inv E st" "synced st"
    and "Chain_ReplaceBranch E now st forkHeight newBlocks observed bypass = (st', ok)"
  shows "chain_inv E st' \<and> synced st' \<and>
    (ok \<longrightarrow> blocks (g_chain st') = take forkHeight (blocks (g_chain st)) @ newBlocks)"
  using ReplaceBranch_cases [OF assms(3)]
proof
  assume "\<not> ok \<and> (st' = st \<or> st' = Chain_OnTipAdvanced st)"
  then show ?thesis using assms(1,2) synced_same [of st st'] by auto
next
  assume r: "may_replace E now st forkHeight newBlocks observed bypass \<and>
     (\<exists>snapshot st1. snapshot_blocks st [forkHeight..<length (blocks (g_chain st))] = Some snapshot \<and>
        swap_branch E st forkHeight snapshot newBlocks = (st1, ok) \<and> st' = Chain_OnTipAdvanced st1)"
  then obtain snapshot st1 where s: "snapshot_blocks st [forkHeight..<length (blocks (g_chain st))] = Some snapshot"
    "swap_branch E st forkHeight snapshot newBlocks = (st1, ok)" "st' = Chain_OnTipAdvanced st1" by blast
  have le: "forkHeight \<le> length (blocks (g_chain st))" using r by (simp add: may_replace_def)
  have "list_all block_addressed snapshot"
    using snapshot_addressed [OF _ s(1)] assms(2) by (simp add: synced_def Let_def)
  note sw = swap_branch_synced [OF assms(1,2) le this s(2)]
  then have "synced st'" using synced_same [of st1 st'] s(3) by simp
  then show ?thesis using sw s(3) by simp
qed

lemma empty_synced:
  "blocks (g_chain st) = [] \<Longrightarrow> chain_size (g_chain st) = 0 \<Longrightarrow> dagEpochs (g_chain st) = [] \<Longrightarrow>
     g_sheetMap st = BalanceSheet_Init \<Longrightarrow> g_currentSupply st = uint256_from_u64 0 \<Longrightarrow> chain_inv E st \<and> synced st"
  by (simp add: chain_inv_def Chain_IsValid_def dag_cache_ok_def cache_ok_def synced_def history_ok_def
      readable_def coinbase_payout_def Let_def)

lemma SaveToFile_synced:
  assumes "chain_inv E st" "synced st"
    and "Chain_SaveToFile E io f (g_chain st) curSupply curReward = (chain', f', True)" "disk st = load_disk f"
    and "list_all block_wf (blocks (g_chain st))" "files_fit f'" "length (blocks (g_chain st)) < 2 ^ 64" "\<forall>x. length (SHA256 E x) = 32"
  shows "chain_inv E (st\<lparr> g_chain := chain', disk := load_disk f' \<rparr>) \<and> synced (st\<lparr> g_chain := chain', disk := load_disk f' \<rparr>)"
proof -
  let ?st = "st\<lparr> g_chain := chain', disk := load_disk f' \<rparr>"
  note b = SaveToFile_borrow [OF assms(3-6) _ assms(7)]
  have c: "chain' = (g_chain st)\<lparr> blocks := map strip (blocks (g_chain st)) \<rparr>" using b(1) assms(8) by blast
  have "\<forall>i < length (blocks (g_chain st)). Chain_BorrowBlockTransactions ?st i = Chain_BorrowBlockTransactions st i"
    using b(2) assms(8) by blast
  from history_cong [OF this] have "synced ?st" using assms(2) by (simp add: synced_def Let_def c)
  moreover have "chain_inv E ?st" using assms(1) by (simp add: chain_inv_def c Chain_IsValid_strip dag_cache_strip)
  ultimately show ?thesis by blast
qed

lemma DagParams_synced:
  assumes "chain_inv E st" "synced st"
  shows "chain_inv E (st\<lparr> g_chain := fst (Chain_DagParamsForHeightLocked E (g_chain st) height) \<rparr>) \<and>
    synced (st\<lparr> g_chain := fst (Chain_DagParamsForHeightLocked E (g_chain st) height) \<rparr>)"
proof -
  obtain cache where "fst (Chain_DagParamsForHeightLocked E (g_chain st) height) = (g_chain st)\<lparr> dagEpochs := cache \<rparr>"
    "dag_cache_ok ((g_chain st)\<lparr> dagEpochs := cache \<rparr>)"
    using DagParams_spec [of "g_chain st" E height] assms(1) by (auto simp: chain_inv_def)
  then show ?thesis
    using assms synced_with_cache [OF assms(2), of cache] IsValid_blocks [of "(g_chain st)\<lparr> dagEpochs := cache \<rparr>" "g_chain st" E]
    by (simp add: chain_inv_def with_cache_def)
qed

text \<open>The chain part of the invariant survives every outcome of every operation, on any ledger.\<close>

lemma AddBlock_chain:
  assumes "chain_inv E st" "Chain_AddBlock E st block = (st', ok)"
  shows "chain_inv E st'"
proof -
  obtain st1 where st1: "Chain_AddBlockLocked E st block = (st1, ok)" "st' = (if ok then Chain_OnTipAdvanced st1 else st1)"
    using AddBlock_Locked [OF assms(2)] by blast
  then show ?thesis using AddBlockLocked_chain [OF assms(1) st1(1)] by simp
qed

lemma add_blocks_chain: "chain_inv E st \<Longrightarrow> chain_inv E (fst (add_blocks E st bs))"
proof (induction bs arbitrary: st)
  case (Cons b bs)
  obtain st1 ok1 where l: "Chain_AddBlockLocked E st b = (st1, ok1)" by fastforce
  then have "chain_inv E st1" using AddBlockLocked_chain [OF Cons.prems l] by blast
  then show ?case using Cons.IH l by simp
qed simp

lemma RollbackLocked_chain:
  assumes "chain_inv E st"
  shows "chain_inv E (fst (Chain_RollbackToHeightLocked E st height))"
proof (cases "height < length (blocks (g_chain st))")
  case True
  obtain sheet' r where "replay_blocks (truncated E st height) [0..<height] BalanceSheet_Init (uint256_from_u64 0) = (sheet', r)"
    by fastforce
  then have c: "g_chain (fst (Chain_RollbackToHeightLocked E st height)) = g_chain (truncated E st height)"
    using Rollback_truncated [OF True, of E] by (cases r) simp_all
  have b: "blocks (g_chain (truncated E st height)) = take height (blocks (g_chain st))"
    "chain_size (g_chain (truncated E st height)) = height" "dag_cache_ok (g_chain (truncated E st height))"
    by (simp_all add: truncated_def) (simp_all add: Chain_InvalidateDagEpochs_def)
  show ?thesis using assms True IsValid_take [OF _ b(1)] b by (simp add: chain_inv_def c)
qed (use assms Rollback_noop in simp)

lemma swap_branch_chain: "chain_inv E st \<Longrightarrow> chain_inv E (fst (swap_branch E st forkHeight snapshot candidate))"
  by (simp add: swap_branch_def Let_def case_prod_unfold RollbackLocked_chain add_blocks_chain)

lemma ReplaceBranch_chain:
  assumes "chain_inv E st" "Chain_ReplaceBranch E now st forkHeight newBlocks observed bypass = (st', ok)"
  shows "chain_inv E st'"
  using ReplaceBranch_cases [OF assms(2)]
proof
  assume "may_replace E now st forkHeight newBlocks observed bypass \<and>
    (\<exists>snapshot st1. snapshot_blocks st [forkHeight..<length (blocks (g_chain st))] = Some snapshot \<and>
      swap_branch E st forkHeight snapshot newBlocks = (st1, ok) \<and> st' = Chain_OnTipAdvanced st1)"
  then obtain snapshot st1 where "swap_branch E st forkHeight snapshot newBlocks = (st1, ok)" "st' = Chain_OnTipAdvanced st1" by blast
  then show ?thesis using swap_branch_chain [OF assms(1), of forkHeight snapshot newBlocks] by simp
qed (use assms(1) in auto)

lemma DagParams_chain:
  assumes "chain_inv E st"
  shows "chain_inv E (st\<lparr> g_chain := fst (Chain_DagParamsForHeightLocked E (g_chain st) height) \<rparr>)"
proof -
  obtain cache where "fst (Chain_DagParamsForHeightLocked E (g_chain st) height) = (g_chain st)\<lparr> dagEpochs := cache \<rparr>"
    "dag_cache_ok ((g_chain st)\<lparr> dagEpochs := cache \<rparr>)"
    using DagParams_spec [of "g_chain st" E height] assms by (auto simp: chain_inv_def)
  then show ?thesis
    using assms IsValid_blocks [of "(g_chain st)\<lparr> dagEpochs := cache \<rparr>" "g_chain st" E] by (simp add: chain_inv_def)
qed

lemma wipe_synced: "chain_inv E (wipechain st) \<and> synced (wipechain st)"
  by (rule empty_synced) (simp_all add: wipechain_def Chain_Wipe_def Chain_ClearBlocks_def Chain_InvalidateDagEpochs_def Let_def)

lemma node_step_chain: "node_step E e st st' \<Longrightarrow> chain_inv E st \<Longrightarrow> chain_inv E st'"
proof (induction rule: node_step.induct)
  case (step_rollback st height st' ok)
  then show ?case using RollbackLocked_chain [of E st height]
    by (auto simp: Chain_RollbackToHeight_def Let_def case_prod_unfold)
next
  case (step_save io f st chain' f' ok)
  then show ?case using SaveToFile_keeps_chain [OF step_save.hyps(1)] by (simp add: chain_inv_def)
qed (auto intro: AddBlock_chain ReplaceBranch_chain DagParams_chain chain_inv_same simp: wipe_synced)

text \<open>The mining DAG of a reachable node is one that the DAG operations can produce.\<close>

lemma AddBlockLocked_pow: "g_pow (fst (Chain_AddBlockLocked E st b)) = g_pow st"
  by (simp add: Chain_AddBlockLocked_def Let_def case_prod_unfold split: option.split)

lemma AddBlock_pow: "g_pow (fst (Chain_AddBlock E st b)) = g_pow st"
  using AddBlockLocked_pow [of E st b] by (simp add: Chain_AddBlock_def Let_def case_prod_unfold Chain_OnTipAdvanced_def)

lemma add_blocks_pow: "g_pow (fst (add_blocks E st bs)) = g_pow st"
  by (induction bs arbitrary: st) (simp_all add: Let_def case_prod_unfold AddBlockLocked_pow)

lemma RollbackLocked_pow: "g_pow (fst (Chain_RollbackToHeightLocked E st height)) = g_pow st"
  by (simp add: Chain_RollbackToHeightLocked_def Let_def case_prod_unfold split: option.split)

lemma swap_branch_pow: "g_pow (fst (swap_branch E st height snapshot candidate)) = g_pow st"
  by (simp add: swap_branch_def Let_def case_prod_unfold add_blocks_pow RollbackLocked_pow)

lemma node_step_pow: "node_step E e st st' \<Longrightarrow> pow_reachable E (g_pow st) \<Longrightarrow> pow_reachable E (g_pow st')"
proof (induction rule: node_step.induct)
  case (step_add st block st' ok)
  then show ?case using AddBlock_pow [of E st block] by simp
next
  case (step_rollback st height st' ok)
  then show ?case using RollbackLocked_pow [of E st height]
    by (auto simp: Chain_RollbackToHeight_def Chain_OnTipAdvanced_def Let_def case_prod_unfold)
next
  case (step_replace now st forkHeight newBlocks observed bypass st' ok)
  have "g_pow st' = g_pow st"
    using ReplaceBranch_cases [OF step_replace.hyps]
  proof
    assume "may_replace E now st forkHeight newBlocks observed bypass \<and>
      (\<exists>snapshot st1. snapshot_blocks st [forkHeight..<length (blocks (g_chain st))] = Some snapshot \<and>
        swap_branch E st forkHeight snapshot newBlocks = (st1, ok) \<and> st' = Chain_OnTipAdvanced st1)"
    then obtain snapshot st1 where "swap_branch E st forkHeight snapshot newBlocks = (st1, ok)" "st' = Chain_OnTipAdvanced st1" by blast
    then show ?thesis using swap_branch_pow [of E st forkHeight snapshot newBlocks] by (simp add: Chain_OnTipAdvanced_def)
  qed (auto simp: Chain_OnTipAdvanced_def)
  then show ?case using step_replace by simp
qed (simp_all add: wipechain_def Chain_Wipe_def Let_def)

lemma AddBlock_in_step:
  assumes "chain_inv E st" "synced st" "Chain_AddBlock E st block = (st', ok)" "add_effect st st' ok \<noteq> Breaks"
  shows "synced st'"
proof -
  obtain st1 where st1: "Chain_AddBlockLocked E st block = (st1, ok)" "st' = (if ok then Chain_OnTipAdvanced st1 else st1)"
    using AddBlock_Locked [OF assms(3)] by blast
  have "ok \<or> \<not> length (blocks (g_chain st)) < length (blocks (g_chain st1))"
    using assms(4) st1(2) by (auto simp: add_effect_def split: if_splits)
  then have "synced st1" using AddBlockLocked_synced [OF assms(1,2) st1(1)] AddBlockLocked_synced_or_longer [OF assms(1,2) st1(1)] by blast
  then show ?thesis by (rule synced_same) (simp_all add: st1(2))
qed

lemma node_step_synced:
  "node_step E e st st' \<Longrightarrow> chain_inv E st \<Longrightarrow> synced st \<or> e = Restarts \<Longrightarrow> e \<noteq> Breaks \<Longrightarrow> synced st'"
proof (induction rule: node_step.induct)
  case (step_add st block st' ok)
  then show ?case using AddBlock_in_step by (auto simp: add_effect_def split: if_splits)
next
  case (step_rollback st height st' ok)
  then show ?case using RollbackToHeight_synced by blast
next
  case (step_replace now st forkHeight newBlocks observed bypass st' ok)
  then show ?case using ReplaceBranch_synced by blast
next
  case (step_params st height)
  then show ?case using DagParams_synced by blast
next
  case (step_save io f st chain' f' ok)
  then have g: "save_complete E st f' ok" "synced st" by (auto split: if_splits)
  then have "Chain_SaveToFile E io f (g_chain st) (g_currentSupply st) (g_currentReward st) = (chain', f', True)"
    using step_save.hyps(1) by (simp add: save_complete_def)
  from SaveToFile_synced [OF step_save.prems(1) g(2) this step_save.hyps(2)] g(1) show ?case by (simp add: save_complete_def)
qed (auto intro: synced_same simp: wipe_synced)

lemma node_run_inv: "node_run E c st \<Longrightarrow> chain_inv E st \<and> (c \<longrightarrow> synced st)"
proof (induction rule: node_run.induct)
  case run_start
  show ?case using empty_synced [of fresh_node E] by (simp add: fresh_node_def Chain_Create_def)
next
  case (run_step c st e st')
  then show ?case using node_step_chain [OF run_step.hyps(2)] node_step_synced [OF run_step.hyps(2)] by (cases e) auto
qed

lemma reached_chain: "reached E c st \<Longrightarrow> chain_inv E st"
  using node_run_inv by (auto simp: reached_def)

lemma reached_pow: "reached E c st \<Longrightarrow> pow_reachable E (g_pow st)"
proof -
  have "node_run E c' st \<Longrightarrow> pow_reachable E (g_pow st)" for c'
    by (induction rule: node_run.induct) (auto simp: fresh_node_def intro: pow_start node_step_pow)
  then show "reached E c st \<Longrightarrow> pow_reachable E (g_pow st)" by (auto simp: reached_def)
qed

lemmas reachable_pow = reached_pow [where c = True]

lemma reachable_inv: "reachable E st \<Longrightarrow> chain_inv E st \<and> synced st"
  using node_run_inv by (auto simp: reached_def)

text \<open>Appending a block keeps ledger and chain in step when the block is accepted or its payments are addressed.\<close>

lemma reached_AddBlock:
  assumes "reached E c st" "c \<Longrightarrow> ok \<or> block_addressed b" "Chain_AddBlock E st b = (st', ok)"
  shows "reached E c st'"
proof (rule reach_step [OF assms(1) step_add [OF assms(3)]])
  assume c
  then have i: "chain_inv E st" "synced st" using assms(1) reachable_inv by auto
  obtain st1 where st1: "Chain_AddBlockLocked E st b = (st1, ok)" "st' = (if ok then Chain_OnTipAdvanced st1 else st1)"
    using AddBlock_Locked [OF assms(3)] by blast
  show "add_effect st st' ok \<noteq> Breaks"
  proof (cases ok)
    case False
    then have "Chain_AddBlockLocked E st b = (st1, False)" using st1(1) by simp
    from AddBlockLocked_False [OF i(1) synced_coins [OF i(2)] this] show ?thesis
      using assms(2) \<open>c\<close> False st1(2) by (auto simp: add_effect_def)
  qed (simp add: add_effect_def)
qed

section \<open>The delay rule in plain arithmetic\<close>

definition reorg_delay_served :: "nat \<Rightarrow> nat \<Rightarrow> nat \<Rightarrow> nat \<Rightarrow> bool" where
  "reorg_delay_served tipCount forkHeight count observedAt =
     (let tip = tipCount - 1; observed = min observedAt tip;
          depth = (if forkHeight \<le> observed then observed - forkHeight + 1 else 1);
          localGrowth = tip - observed; branchLead = (forkHeight + count - 1) - tip
      in reorg_penalty depth \<le> max localGrowth branchLead)"

lemma unat_max: "unat (if a > b then a else b :: u64) = max (unat a) (unat b)"
  by (simp add: word_less_nat_alt max_def)

lemma unat_minus_clip: "unat (if a > b then a - b else 0 :: u64) = unat a - unat b"
  by (auto simp: word_less_nat_alt unat_sub word_le_nat_alt)

lemma unat_minus_clip_le: "unat (if b \<le> a then a - b else 0 :: u64) = unat a - unat b"
  by (auto simp: unat_sub word_le_nat_alt)

lemma penalty_served_val:
  assumes "0 < forkHeight" "forkHeight < tipCount" "tipCount < 2 ^ 64" "forkHeight + count < 2 ^ 64"
  shows "penalty_served tipCount forkHeight count obs = reorg_delay_served tipCount forkHeight count (unat obs)"
proof -
  define tip fork where "tip = (of_nat (tipCount - 1) :: u64)" and "fork = (of_nat forkHeight :: u64)"
  define o' where "o' = (if obs > tip then tip else obs)"
  define depth where "depth = (if o' \<ge> fork then o' - fork + 1 else 1)"
  define lead where "lead = (if fork + of_nat count - 1 > tip then fork + of_nat count - 1 - tip else 0)"
  define growth where "growth = (if tip \<ge> o' then tip - o' else 0)"
  have t: "unat tip = tipCount - 1" "unat fork = forkHeight" 
    unfolding tip_def fork_def using assms by (simp_all only: unat_of_nat_64 less_imp_diff_less)
  have o: "unat o' = min (unat obs) (tipCount - 1)" using t(1) by (auto simp: o'_def word_less_nat_alt)
  have d: "unat depth = (if forkHeight \<le> unat o' then unat o' - forkHeight + 1 else 1)"
  proof (cases "forkHeight \<le> unat o'")
    case True
    then have "unat (o' - fork) = unat o' - forkHeight" using t(2) by (simp add: unat_sub word_le_nat_alt)
    moreover have "unat o' < 2 ^ 64 - 1 + 1" using unat_lt_64 [of o'] by simp
    ultimately have "unat (o' - fork + 1) = unat o' - forkHeight + 1"
      using True assms(1) by (simp add: unat_word_ariths)
    then show ?thesis using True t(2) by (simp add: depth_def word_le_nat_alt)
  next
    case False
    then show ?thesis using t(2) by (simp add: depth_def word_le_nat_alt)
  qed
  have sum: "fork + of_nat count - 1 = of_nat (forkHeight + count - 1)" using assms(1) by (simp add: fork_def of_nat_diff)
  have c: "unat (fork + of_nat count - 1) = forkHeight + count - 1" 
    unfolding sum using assms(4) by (simp only: unat_of_nat_64 less_imp_diff_less)
  have l: "unat lead = (forkHeight + count - 1) - (tipCount - 1)" unfolding lead_def unat_minus_clip c t(1) ..
  have g: "unat growth = (tipCount - 1) - unat o'" unfolding growth_def unat_minus_clip_le t(1) ..
  have pos: "(0 < tipCount) = True" using assms(2) by simp
  have "penalty_served tipCount forkHeight count obs \<longleftrightarrow>
      \<not> (if growth > lead then growth else lead) < FetchScheduler_ComputeReorgPenaltyBlocks depth"
    unfolding penalty_served_def Let_def pos if_True tip_def [symmetric] fork_def [symmetric] o'_def [symmetric]
      depth_def [symmetric] lead_def [symmetric] growth_def [symmetric] ..
  also have "\<dots> \<longleftrightarrow> reorg_penalty (unat depth) \<le> max (unat growth) (unat lead)"
    unfolding word_less_nat_alt [of "if growth > lead then growth else lead"] unat_max penalty_val not_less ..
  finally show ?thesis by (simp add: reorg_delay_served_def Let_def d l g o)
qed

section \<open>A concrete chain\<close>

definition tip_hash :: "node_state \<Rightarrow> byte list" where
  "tip_hash st = (if blocks (g_chain st) = [] then [] else Block_CalculateHash easy_env (last (blocks (g_chain st))))"

definition coinbase_block :: "node_state \<Rightarrow> block_t" where
  "coinbase_block st = easy_block (length (blocks (g_chain st))) (tip_hash st) [coinbase_of (g_currentReward st)]"

lemma coinbase_block_added:
  assumes "chain_inv easy_env st" "coins_inv st" "g_pow st = pow_initial" "length (blocks (g_chain st)) < 3840"
    and "g_currentReward st \<noteq> 0"
  shows "snd (Chain_AddBlockLocked easy_env st (coinbase_block st))"
    and "Chain_AddBlock easy_env st (coinbase_block st) = (fst (Chain_AddBlock easy_env st (coinbase_block st)), True)"
proof -
  let ?b = "coinbase_block st" and ?cb = "coinbase_of (g_currentReward st)"
  have t: "transactions ?b = Some [?cb]" by (simp add: coinbase_block_def easy_block_def)
  have c: "Address_IsCoinbase (senderAddress (transaction ?cb))" "\<not> Address_IsCoinbase (recipientAddress1 (transaction ?cb))"
    by (simp_all add: coinbase_of_def demo_tx_def Address_IsCoinbase_def list_all_iff)
  have f: "fee (transaction ?cb) = 0" "amount2 (transaction ?cb) = 0" "amount1 (transaction ?cb) = g_currentReward st"
    "recipientAddress2 (transaction ?cb) = zeroAddress"
    by (simp_all add: coinbase_of_def demo_tx_def)
  have "BalanceSheet_SelectSpendableTransactions easy_env (g_sheetMap st) [?cb] = ([], 0)"
    using c(1) by (simp add: BalanceSheet_SelectSpendableTransactions_def)
  moreover have "coinbase_and_fees easy_env (g_currentReward st) [?cb] False 0 = Some 0"
    using c f coinbase_of_verifies [OF assms(5)] by (simp add: Let_def)
  ultimately have "validate_economics easy_env (g_sheetMap st) (g_currentReward st) ?b [?cb] = Some (g_currentReward st)"
    using c(1) t by (simp add: validate_economics_def nonCoinbaseCount_def Block_ValidateCoinbaseAndFees_def
        Chain_BlockRespectsSenderOrdering_def Let_def)
  then have acc: "accepted easy_env st ?b = Some (g_currentReward st)"
    using easy_accepted [OF assms(3) refl assms(4), of "tip_hash st" "[?cb]"]
    by (auto simp: coinbase_block_def tip_hash_def)
  obtain cache where d: "dag_cache_ok ((g_chain st)\<lparr> dagEpochs := cache \<rparr>)"
    "Chain_AddBlockLocked easy_env st ?b = commit easy_env (with_cache st cache) ?b [?cb] (g_currentReward st)"
    using AddBlockLocked_eq [of st easy_env ?b] assms(1) acc t by (auto simp: chain_inv_def)
  show l: "snd (Chain_AddBlockLocked easy_env st ?b)"
    using d(2) commit_addressed [OF assms(1,2) acc t d(1)] f
    by (simp add: commit_simps payments_addressed_def pays_nobody_def)
  then show "Chain_AddBlock easy_env st ?b = (fst (Chain_AddBlock easy_env st ?b), True)"
    using t by (simp add: Chain_AddBlock_def case_prod_unfold Let_def)
qed

definition node1 :: node_state where
  "node1 = fst (Chain_AddBlock easy_env fresh_node (coinbase_block fresh_node))"

lemma fresh_node_simps:
  "blocks (g_chain fresh_node) = []" "g_pow fresh_node = pow_initial" "g_currentReward fresh_node = 17592186044415"
  by (simp_all add: fresh_node_def Chain_Create_def Chain_Size_def CalculateBlockRewardAtHeight_def Let_def
      PHASE1_TARGET_BLOCKS_def EMISSION_ACCELERATION_FACTOR_def M_CAP_def TAIL_EMISSION_def
      MONERO_EMISSION_SPEED_FACTOR_def uint256_from_u64_def)

lemma node1_added: "Chain_AddBlock easy_env fresh_node (coinbase_block fresh_node) = (node1, True)"
  using coinbase_block_added(2) [of fresh_node] reachable_inv [OF reach_start, of easy_env] synced_coins [of fresh_node]
  by (simp add: fresh_node_simps node1_def)

lemma node1_reachable: "reachable easy_env node1"
  by (rule reached_AddBlock [OF reach_start _ node1_added]) simp

lemma node1_simps:
  "blocks (g_chain node1) = [coinbase_block fresh_node]" "g_pow node1 = pow_initial" "disk node1 = (\<lambda>_. None)"
proof -
  have i: "chain_inv easy_env fresh_node" "coins_inv fresh_node"
    using reachable_inv [OF reach_start] synced_coins by blast+
  obtain st1 where st1: "Chain_AddBlockLocked easy_env fresh_node (coinbase_block fresh_node) = (st1, True)"
    "node1 = Chain_OnTipAdvanced st1"
    using AddBlock_Locked [OF node1_added] by (metis (full_types))
  note l = AddBlockLocked_inv [OF i st1(1)]
  show "blocks (g_chain node1) = [coinbase_block fresh_node]"
    using AddBlockLocked_True [OF i st1(1)] by (auto simp: appended_def fresh_node_simps st1(2))
  show "g_pow node1 = pow_initial" "disk node1 = (\<lambda>_. None)"
    using l by (simp_all add: st1(2) fresh_node_simps) (simp add: fresh_node_def)
qed

section \<open>Properties\<close>

text \<open>
  C1: the ledger is a function of the chain. In every state the node can come to by any mixture of appends,
  refusals, rollbacks, branch replacements, pool operations, saves and wipes, whatever their outcome, the
  chain is numbered and linked by hashes and the size field and the memo table are right. As long as neither
  a refused block was left in the chain (the outcome of \<open>AddBlock_unaddressed_payment\<close>) nor a save failed
  or outgrew the offsets of its files since the start or the last wipe, replaying all transactions from genesis succeeds and yields exactly the
  balances, the per-sender timestamps and the supply the node holds.
\<close>

theorem reachable_ledger_is_replay:
  assumes "node_run E in_step st"
  shows "Chain_IsValid E (g_chain st) \<and> chain_size (g_chain st) = length (blocks (g_chain st)) \<and> dag_cache_ok (g_chain st) \<and>
    (in_step \<longrightarrow>
      (let ts = map transaction (chain_history st (length (blocks (g_chain st))))
       in spec_block (\<lambda>_. 0) ts = Some (sheet_bal (g_sheetMap st)) \<and>
          last_ts (g_sheetMap st) = foldl note_spend (\<lambda>_. 0) ts \<and>
          u256_val (g_currentSupply st) = coinbase_payout ts))"
  using node_run_inv [OF assms] by (simp add: chain_inv_def synced_def Let_def)

theorem reachable_ledger_is_replay_witness:
  "u256_val (g_currentSupply node1) = coinbase_payout (map transaction (chain_history node1 1))"
proof -
  have "node_run easy_env True node1" using node1_reachable by (auto simp: reached_def)
  from reachable_ledger_is_replay [OF this] show ?thesis by (simp add: Let_def node1_simps)
qed

lemma increasing_spends:
  "increasing_from f ts \<Longrightarrow> increasing_from f (filter (\<lambda>t. \<not> Address_IsCoinbase (senderAddress t)) ts)"
  by (induction ts arbitrary: f) (auto simp: note_spend_def)

text \<open>
  C9: no spend is in the chain twice. In every state the node comes to with ledger and chain in step (no
  refused block left in the chain and no save that failed or outgrew its files since the start or the last wipe), the non-coinbase
  transactions of all blocks are pairwise distinct, and those of one sender appear in strictly increasing
  order of timestamp.
\<close>

theorem no_spend_twice:
  assumes "node_run E True st"
  shows "let spends = filter (\<lambda>t. \<not> Address_IsCoinbase (senderAddress t))
                        (map transaction (chain_history st (length (blocks (g_chain st)))))
    in distinct spends \<and>
       (\<forall>i j. i < j \<and> j < length spends \<and> senderAddress (spends ! i) = senderAddress (spends ! j) \<longrightarrow>
          tx_timestamp (spends ! i) < tx_timestamp (spends ! j))"
proof -
  define spends where "spends = filter (\<lambda>t. \<not> Address_IsCoinbase (senderAddress t))
      (map transaction (chain_history st (length (blocks (g_chain st)))))"
  have "increasing_from (\<lambda>_. 0) spends"
    using node_run_inv [OF assms] increasing_spends by (auto simp: synced_def Let_def history_ok_def spends_def)
  then have less: "tx_timestamp (spends ! i) < tx_timestamp (spends ! j)"
    if "i < j" "j < length spends" "senderAddress (spends ! i) = senderAddress (spends ! j)" for i j
  proof -
    have "spends ! i \<in> set spends" using that by simp
    then have "\<not> Address_IsCoinbase (senderAddress (spends ! i))" unfolding spends_def by simp
    then show ?thesis using increasing_from_nth [OF \<open>increasing_from (\<lambda>_. 0) spends\<close> that] by simp
  qed
  then have "distinct spends"
    unfolding distinct_conv_nth by (metis less_irrefl nat_neq_iff)
  then show ?thesis using less unfolding spends_def [symmetric] Let_def by blast
qed

theorem no_spend_twice_witness:
  "distinct (filter (\<lambda>t. \<not> Address_IsCoinbase (senderAddress t)) (map transaction (chain_history node1 1)))"
proof -
  have "node_run easy_env True node1" using node1_reachable by (auto simp: reached_def)
  from no_spend_twice [OF this] show ?thesis by (simp add: Let_def node1_simps)
qed

text \<open>
  What \<^verbatim>\<open>g_currentSupply\<close> counts. In every reachable state it equals the coins in circulation plus
  all fees ever paid: fees return through the coinbase, which is added to the supply in full, so every
  recycled fee is counted again.
\<close>

lemma supply_counts_fees:
  assumes "reachable E st"
  shows "u256_val (g_currentSupply st) = total_balance (sheet_bal (g_sheetMap st))
    + spend_fees (map transaction (chain_history st (length (blocks (g_chain st)))))"
  using reachable_inv [OF assms] synced_total(2) by simp

text \<open>
  C11: rolling a reachable node back to a height succeeds, keeps exactly the blocks below that height and
  rebuilds the ledger those blocks define, in balances, timestamps and supply.
\<close>

theorem Rollback_rebuilds_ledger:
  assumes "reachable E st" and "height \<le> length (blocks (g_chain st))"
    and "Chain_RollbackToHeight E st height = (st', ok)"
  shows "ok \<and> blocks (g_chain st') = take height (blocks (g_chain st)) \<and> Chain_IsValid E (g_chain st') \<and>
    (let ts = map transaction (chain_history st height)
     in spec_block (\<lambda>_. 0) ts = Some (sheet_bal (g_sheetMap st')) \<and>
        last_ts (g_sheetMap st') = foldl note_spend (\<lambda>_. 0) ts \<and>
        u256_val (g_currentSupply st') = coinbase_payout ts)"
proof -
  have inv: "chain_inv E st" "synced st" using reachable_inv [OF assms(1)] by auto
  note r = RollbackToHeight_synced [OF inv assms(3)]
  have len: "length (blocks (g_chain st')) = height" using r assms(2) by simp
  have "Chain_BorrowBlockTransactions st' i = Chain_BorrowBlockTransactions st i" if "i < height" for i
    using r that assms(2) by (simp add: Chain_BorrowBlockTransactions_def vec_get_def)
  then have "chain_history st' height = chain_history st height" using history_cong(1) [of height st' st] by simp
  then show ?thesis using r by (simp add: synced_def chain_inv_def Let_def len)
qed

theorem Rollback_rebuilds_ledger_witness:
  "blocks (g_chain (fst (Chain_RollbackToHeight easy_env node1 0))) = [] \<and>
   u256_val (g_currentSupply (fst (Chain_RollbackToHeight easy_env node1 0))) = 0"
proof -
  obtain st' ok where r: "Chain_RollbackToHeight easy_env node1 0 = (st', ok)" by fastforce
  show ?thesis using Rollback_rebuilds_ledger [OF node1_reachable _ r] r by (simp add: Let_def coinbase_payout_def)
qed

text \<open>
  C12: a rollback undoes an append: after accepting a block and rolling back to the height before it, the
  blocks, all balances, all timestamps and the supply are those of before, and every spend of the block is
  back in the transaction pool.
\<close>

lemma restore_txs_lookup:
  "p \<noteq> None \<Longrightarrow> restore_txs E p txs \<noteq> None \<and>
     (\<forall>h. TxMempool_Lookup p h \<noteq> None \<longrightarrow> TxMempool_Lookup (restore_txs E p txs) h \<noteq> None) \<and>
     (\<forall>tx\<in>set txs. \<not> is_coinbase_tx tx \<longrightarrow> TxMempool_Lookup (restore_txs E p txs) (Transaction_CalculateHash E tx) \<noteq> None)"
proof (induction txs arbitrary: p)
  case (Cons tx txs)
  define p' where "p' = (if is_coinbase_tx tx then p else fst (TxMempool_Insert E p tx))"
  have p': "p' \<noteq> None" using Cons.prems by (auto simp: p'_def TxMempool_Insert_def Let_def)
  have r: "restore_txs E p (tx # txs) = restore_txs E p' txs" by (simp add: p'_def is_coinbase_tx_def)
  have look: "TxMempool_Lookup p h \<noteq> None \<Longrightarrow> TxMempool_Lookup p' h \<noteq> None" for h
    using lookup_insert [OF Cons.prems, of E tx h] by (simp add: p'_def)
  have new: "\<not> is_coinbase_tx tx \<Longrightarrow> TxMempool_Lookup p' (Transaction_CalculateHash E tx) \<noteq> None"
    using lookup_insert [OF Cons.prems, of E tx] by (simp add: p'_def)
  show ?case using Cons.IH [OF p'] look new unfolding r by auto
qed simp

lemma u256_val_eq: "u256_val a = u256_val b \<Longrightarrow> a = b"
  by (cases a; cases b) (simp add: u256_val_inj)

theorem Rollback_undoes_AddBlock:
  assumes "chain_inv E st" and "synced st" and "g_txMempool st \<noteq> None"
    and "Chain_AddBlock E st block = (st1, True)"
    and "Chain_RollbackToHeight E st1 (length (blocks (g_chain st))) = (st2, ok)"
  shows "ok \<and> blocks (g_chain st2) = blocks (g_chain st) \<and> sheet_bal (g_sheetMap st2) = sheet_bal (g_sheetMap st) \<and>
    last_ts (g_sheetMap st2) = last_ts (g_sheetMap st) \<and> g_currentSupply st2 = g_currentSupply st \<and>
    (\<forall>tx\<in>set (the (transactions block)). \<not> is_coinbase_tx tx \<longrightarrow>
       TxMempool_Lookup (g_txMempool st2) (Transaction_CalculateHash E tx) \<noteq> None)"
proof -
  let ?n = "length (blocks (g_chain st))"
  obtain e where a: "appended E st block (the (transactions block)) e st1"
    using AddBlock_appended [OF assms(1) synced_coins [OF assms(2)] assms(4)] by blast
  have s1: "chain_inv E st1" "synced st1" using AddBlock_synced [OF assms(1,2,4)] by auto
  have b1: "blocks (g_chain st1) = blocks (g_chain st) @ [block]" using a by (simp add: appended_def)
  note r = RollbackToHeight_synced [OF s1 assms(5)]
  have b2: "blocks (g_chain st2) = blocks (g_chain st)" using r b1 by simp
  have "disk st1 = disk st"
    using AddBlock_Locked [OF assms(4)] AddBlockLocked_inv [OF assms(1) synced_coins [OF assms(2)]] by (auto split: if_splits)
  then have "Chain_BorrowBlockTransactions st2 i = Chain_BorrowBlockTransactions st i" for i
    by (intro borrow_same) (simp_all add: b2 r)
  then have h: "chain_history st2 ?n = chain_history st ?n" using history_cong(1) [of ?n st2 st] by simp
  obtain st3 where l: "Chain_RollbackToHeightLocked E st1 ?n = (st3, ok)" "st2 = Chain_OnTipAdvanced st3"
    using assms(5) by (auto simp: Chain_RollbackToHeight_def Let_def split: prod.splits)
  have "history_ok st1 ?n" using s1(2) b1 history_ok_mono [of st1 "Suc ?n" ?n] by (simp add: synced_def Let_def)
  from Rollback_facts [OF s1(1) this _ l(1)] have "g_txMempool st3 = restore_blocks E st1 [?n] (g_txMempool st1)"
    by (simp add: b1)
  moreover have "Chain_BorrowBlockTransactions st1 ?n = Some block" "transactions block = Some (the (transactions block))"
    using a by (auto simp: Chain_BorrowBlockTransactions_def b1 vec_get_def nth_append appended_def)
  ultimately have pool: "g_txMempool st2 = restore_txs E (g_txMempool st1) (the (transactions block))"
    by (simp add: l(2) split: option.splits)
  have keep: "p \<noteq> None \<Longrightarrow> remove_mined E p txs \<noteq> None" for p txs
    by (induction txs arbitrary: p) (auto simp: TxMempool_Remove_def)
  have "g_txMempool st1 \<noteq> None" using a keep [OF assms(3)] by (simp add: appended_def)
  from restore_txs_lookup [OF this] show ?thesis
    using r assms(2) b2 h u256_val_eq pool by (simp add: synced_def Let_def)
qed

theorem Rollback_undoes_AddBlock_witness:
  "sheet_bal (g_sheetMap (fst (Chain_RollbackToHeight easy_env node1 0))) = (\<lambda>_. 0) \<and>
   g_currentSupply (fst (Chain_RollbackToHeight easy_env node1 0)) = uint256_from_u64 0"
proof -
  obtain st' ok where r: "Chain_RollbackToHeight easy_env node1 0 = (st', ok)" by fastforce
  have i: "chain_inv easy_env fresh_node" "synced fresh_node" using reachable_inv [OF reach_start] by auto
  have "g_txMempool fresh_node \<noteq> None" by (simp add: fresh_node_def TxMempool_Init_def)
  from Rollback_undoes_AddBlock [OF i this node1_added, of st' ok] show ?thesis
    using r by (simp add: fresh_node_simps) (simp add: fresh_node_def)
qed

text \<open>
  C6: a branch is adopted only if it is a well-formed continuation of one of our blocks, carries
  strictly more cumulative work than what it replaces, and has served the delay for its depth (unless the
  operator bypassed it, the node is in initial block download or the branch only extends the tip); then the chain is exactly the common
  prefix followed by the branch, numbered and linked, and the ledger is the replay of that chain.
\<close>

theorem ReplaceBranch_sound:
  assumes "chain_inv E st" and "synced st"
    and "Chain_ReplaceBranch E now st forkHeight newBlocks observed bypass = (st', True)"
    and "length (blocks (g_chain st)) < 2 ^ 64" and "forkHeight + length newBlocks < 2 ^ 64"
  shows "0 < forkHeight \<and> forkHeight \<le> length (blocks (g_chain st)) \<and> newBlocks \<noteq> [] \<and>
    prevHash (header (hd newBlocks)) = Block_CalculateHash E (blocks (g_chain st) ! (forkHeight - 1)) \<and>
    branch_work (drop forkHeight (blocks (g_chain st))) < branch_work newBlocks \<and>
    (bypass \<or> Chain_IsInitialBlockDownload (g_chain st) now \<or> length (blocks (g_chain st)) = forkHeight \<or>
     reorg_delay_served (length (blocks (g_chain st))) forkHeight (length newBlocks) (unat observed)) \<and>
    blocks (g_chain st') = take forkHeight (blocks (g_chain st)) @ newBlocks \<and>
    Chain_IsValid E (g_chain st') \<and> synced st'"
proof -
  have m: "may_replace E now st forkHeight newBlocks observed bypass"
    using ReplaceBranch_cases [OF assms(3)] by simp
  then have "Chain_BranchIsLinkedLocked E (g_chain st) forkHeight newBlocks" "newBlocks \<noteq> []"
    "0 < forkHeight" "forkHeight \<le> length (blocks (g_chain st))"
    by (simp_all add: may_replace_def)
  then have "prevHash (header (hd newBlocks)) = Block_CalculateHash E (blocks (g_chain st) ! (forkHeight - 1))"
    by (cases newBlocks) (auto simp: Chain_BranchIsLinkedLocked_def vec_get_def split: if_splits)
  moreover have "bypass \<or> Chain_IsInitialBlockDownload (g_chain st) now \<or> length (blocks (g_chain st)) = forkHeight \<or>
      reorg_delay_served (length (blocks (g_chain st))) forkHeight (length newBlocks) (unat observed)"
    using m penalty_served_val [OF _ _ assms(4,5), of observed]
    by (cases "length (blocks (g_chain st)) = forkHeight") (auto simp: may_replace_def)
  ultimately show ?thesis
    using m ReplaceBranch_synced [OF assms(1-3)] by (simp add: may_replace_def chain_inv_def)
qed

lemma node1_block: "snd (Chain_AddBlockLocked easy_env node1 (coinbase_block node1))"
proof (rule coinbase_block_added(1))
  show "chain_inv easy_env node1" "coins_inv node1" using reachable_inv [OF node1_reachable] by (simp_all add: synced_coins)
  obtain e where "appended easy_env fresh_node (coinbase_block fresh_node) (the (transactions (coinbase_block fresh_node))) e node1"
    using AddBlock_appended [OF _ _ node1_added] reachable_inv [OF reach_start] synced_coins by blast
  then have "g_currentReward node1 \<ge> TAIL_EMISSION" by (simp add: appended_def reward_floor)
  then show "g_currentReward node1 \<noteq> 0" by (auto simp: TAIL_EMISSION_def)
qed (simp_all add: node1_simps)

lemma initial_work: "\<exists>w. Chain_ComputeBlockWork INITIAL_DIFFICULTY = Some w \<and> 0 < u256_val w"
proof -
  obtain t where t: "DecodeCompactTarget INITIAL_DIFFICULTY = Some t" "0 < compact_value INITIAL_DIFFICULTY"
    using target_ok_decodes [OF initial_target_ok] by auto
  have "map_option u256_val (Chain_ComputeBlockWork INITIAL_DIFFICULTY) = Some (TWO256 div (compact_value INITIAL_DIFFICULTY + 1))"
    using ComputeBlockWork_val [of INITIAL_DIFFICULTY] t by simp
  moreover have "0 < TWO256 div (compact_value INITIAL_DIFFICULTY + 1)"
    using compact_value_bound [OF t(1)] by (simp add: div_greater_zero_iff)
  ultimately show ?thesis by auto
qed

lemma node1_replaced:
  "Chain_ReplaceBranch easy_env 0 node1 1 [coinbase_block node1] 0 False =
     (fst (Chain_ReplaceBranch easy_env 0 node1 1 [coinbase_block node1] 0 False), True)"
proof -
  let ?b = "coinbase_block node1"
  have linked: "Chain_BranchIsLinkedLocked easy_env (g_chain node1) 1 [?b]"
    by (simp add: Chain_BranchIsLinkedLocked_def vec_get_def node1_simps coinbase_block_def [of node1] easy_block_def tip_hash_def)
  obtain w where w: "Chain_ComputeBlockWork INITIAL_DIFFICULTY = Some w" "0 < u256_val w" using initial_work by blast
  have sum: "uint256_add (uint256_from_u64 0) w = (w, False)"
    using uint256_add_val [of "uint256_from_u64 0" w] u256_val_bound [of w] u256_val_bound [of "fst (uint256_add (uint256_from_u64 0) w)"]
    by (auto simp: prod_eq_iff u256_val_inj split: if_splits)
  have work: "Chain_ComputeWorkRange (g_chain node1) 1 1 = Some (uint256_from_u64 0)" "Chain_ComputeBranchWork [?b] = Some w"
    using w(1) sum
    by (simp_all add: Chain_ComputeWorkRange_def Chain_ComputeBranchWork_def node1_simps coinbase_block_def [of node1] easy_block_def)
  have cmp: "\<not> uint256_cmp w (uint256_from_u64 0) \<le> 0" using w(2) by (simp add: uint256_cmp_val)
  have "snd (swap_branch easy_env node1 1 [] [?b])"
    using node1_block Rollback_noop [of node1 1 easy_env]
    by (simp add: swap_branch_def node1_simps case_prod_unfold Let_def)
  then have "snd (Chain_ReplaceBranch easy_env 0 node1 1 [?b] 0 False)"
    using linked work cmp by (simp add: Chain_ReplaceBranch_def node1_simps Let_def)
  then show ?thesis by (simp add: prod_eq_iff)
qed

theorem ReplaceBranch_sound_witness:
  "blocks (g_chain (fst (Chain_ReplaceBranch easy_env 0 node1 1 [coinbase_block node1] 0 False)))
     = [coinbase_block fresh_node, coinbase_block node1]"
proof -
  have i: "chain_inv easy_env node1" "synced node1" using reachable_inv [OF node1_reachable] by auto
  from ReplaceBranch_sound [OF i node1_replaced] show ?thesis by (simp add: node1_simps)
qed

end
