(* ===== verification/Orphan_Pool.thy ===== *)
theory Orphan_Pool
  imports Chain_History
begin

text \<open>
  The pool of blocks that do not extend the tip yet (\<^verbatim>\<open>src/nets/orphan_pool.c\<close>): bounded insertion with
  eviction of the oldest entry, collection of a branch by following parent hashes, and the attach loop
  that feeds pooled blocks to the chain. The pool lock is not modelled; the loops of the attach step run
  on the pool and the node together.
\<close>

section \<open>Entries\<close>

record orphan_entry_t =
  oe_block :: block_t
  oe_height :: u64
  oe_observedAtTipHeight :: u64
  oe_sequence :: u64
  oe_hash :: "byte list"

text \<open>\<open>None\<close> is the NULL vector before the first use and after \<^verbatim>\<open>OrphanPool_Destroy\<close>.\<close>

record orphan_pool =
  g_orphans :: "orphan_entry_t list option"
  g_nextSequence :: u64

definition MAX_ORPHAN_BLOCKS :: nat where "MAX_ORPHAN_BLOCKS = 512"

definition OrphanPool_InitLocked :: "orphan_pool \<Rightarrow> orphan_pool" where
  "OrphanPool_InitLocked p = (if g_orphans p = None then p\<lparr> g_orphans := Some [] \<rparr> else p)"

definition OrphanPool_Init :: "orphan_pool \<Rightarrow> orphan_pool" where
  "OrphanPool_Init p = OrphanPool_InitLocked p"

definition OrphanPool_Destroy :: "orphan_pool \<Rightarrow> orphan_pool" where
  "OrphanPool_Destroy p = p\<lparr> g_orphans := None \<rparr>"

definition orphans :: "orphan_pool \<Rightarrow> orphan_entry_t list" where
  "orphans p = (case g_orphans p of None \<Rightarrow> [] | Some es \<Rightarrow> es)"

fun find_hash :: "orphan_entry_t list \<Rightarrow> byte list \<Rightarrow> nat option" where
  "find_hash [] h = None"
| "find_hash (e # es) h = (if oe_hash e = h then Some 0 else map_option Suc (find_hash es h))"

text \<open>The index, or \<open>None\<close> for the C function's \<open>-1\<close>.\<close>

definition OrphanPool_FindByHashLocked :: "orphan_pool \<Rightarrow> byte list \<Rightarrow> nat option" where
  "OrphanPool_FindByHashLocked p blockHash = find_hash (orphans p) blockHash"

section \<open>Insertion\<close>

fun oldest_index :: "orphan_entry_t list \<Rightarrow> nat \<Rightarrow> nat \<Rightarrow> u64 \<Rightarrow> nat" where
  "oldest_index [] i oldestIndex oldestSequence = oldestIndex"
| "oldest_index (e # es) i oldestIndex oldestSequence =
     (if oe_sequence e < oldestSequence then oldest_index es (Suc i) i (oe_sequence e)
      else oldest_index es (Suc i) oldestIndex oldestSequence)"

definition OrphanPool_EvictOldestLocked :: "orphan_entry_t list \<Rightarrow> orphan_entry_t list \<times> bool" where
  "OrphanPool_EvictOldestLocked es =
     (if es = [] then (es, False) else (vec_pop_at es (oldest_index es 0 0 UINT64_MAX), True))"

lemma oldest_index_bound: "k < n + length es \<Longrightarrow> 0 < length es \<longrightarrow> i = n \<Longrightarrow> oldest_index es i k s < n + length es"
proof (induction es arbitrary: i k s n)
  case (Cons e es)
  show ?case
    using Cons.IH [of n "Suc n" "Suc n" "oe_sequence e"] Cons.IH [of k "Suc n" "Suc n" s] Cons.prems by (cases es) auto
qed simp

lemma EvictOldest_length: "es \<noteq> [] \<Longrightarrow> length (fst (OrphanPool_EvictOldestLocked es)) = length es - 1"
  using oldest_index_bound [of 0 0 es 0 UINT64_MAX]
  by (auto simp: OrphanPool_EvictOldestLocked_def vec_pop_at_def)

function evict_loop :: "orphan_entry_t list \<Rightarrow> orphan_entry_t list" where
  "evict_loop es =
     (if MAX_ORPHAN_BLOCKS \<le> length es then
        (let (es', evicted) = OrphanPool_EvictOldestLocked es in if \<not> evicted then es' else evict_loop es')
      else es)"
  by pat_completeness auto
termination
proof (relation "measure length")
  fix es x es' evicted
  assume a: "MAX_ORPHAN_BLOCKS \<le> length es" "x = OrphanPool_EvictOldestLocked es" "(es', evicted) = x" "\<not> \<not> evicted"
  then have "es \<noteq> []" by (auto simp: MAX_ORPHAN_BLOCKS_def)
  then show "(es', es) \<in> measure length"
    using EvictOldest_length [of es] a(2,3) by (cases es) (auto simp: prod_eq_iff)
qed simp

declare evict_loop.simps [simp del]

definition OrphanPool_Insert :: "crypto_env \<Rightarrow> orphan_pool \<Rightarrow> block_t \<Rightarrow> u64 \<Rightarrow> u64 \<Rightarrow> orphan_pool" where
  "OrphanPool_Insert E p block height observedAtTipHeight =
     (let blockHash = Block_CalculateHash E block; p1 = OrphanPool_InitLocked p in
      if OrphanPool_FindByHashLocked p1 blockHash \<noteq> None then p1
      else p1\<lparr> g_orphans := Some (vec_push_back (evict_loop (orphans p1))
                  \<lparr> oe_block = block, oe_height = height, oe_observedAtTipHeight = observedAtTipHeight,
                    oe_sequence = g_nextSequence p1, oe_hash = blockHash \<rparr>),
               g_nextSequence := g_nextSequence p1 + 1 \<rparr>)"

definition OrphanPool_Contains :: "orphan_pool \<Rightarrow> byte list \<Rightarrow> bool" where
  "OrphanPool_Contains p blockHash = (OrphanPool_FindByHashLocked p blockHash \<noteq> None)"

definition OrphanPool_Size :: "orphan_pool \<Rightarrow> nat" where
  "OrphanPool_Size p = length (orphans p)"

section \<open>Removal and branch collection\<close>

definition OrphanPool_TakeByHashLocked :: "orphan_pool \<Rightarrow> byte list \<Rightarrow> orphan_pool \<times> block_t option" where
  "OrphanPool_TakeByHashLocked p blockHash =
     (case OrphanPool_FindByHashLocked p blockHash of
        None \<Rightarrow> (p, None)
      | Some index \<Rightarrow> (p\<lparr> g_orphans := Some (vec_pop_at (orphans p) index) \<rparr>, Some (oe_block (orphans p ! index))))"

definition OrphanPool_DropByHashLocked :: "orphan_pool \<Rightarrow> byte list \<Rightarrow> orphan_pool" where
  "OrphanPool_DropByHashLocked p blockHash =
     (case OrphanPool_FindByHashLocked p blockHash of
        None \<Rightarrow> p
      | Some index \<Rightarrow> p\<lparr> g_orphans := Some (vec_pop_at (orphans p) index) \<rparr>)"

definition OrphanPool_FindChildLocked :: "orphan_pool \<Rightarrow> u64 \<Rightarrow> byte list \<Rightarrow> orphan_entry_t option" where
  "OrphanPool_FindChildLocked p height parentHash =
     List.find (\<lambda>e. oe_height e = height \<and> prevHash (header (oe_block e)) = parentHash) (orphans p)"

text \<open>
  The loop of \<^verbatim>\<open>OrphanPool_CollectBranchLocked\<close>. Every round uses an entry of another height, so one more
  round than there are entries is enough fuel (\<open>collect_loop_fuel\<close>); \<open>None\<close> is running out of it.
\<close>

primrec collect_loop :: "nat \<Rightarrow> orphan_pool \<Rightarrow> u64 \<Rightarrow> byte list \<Rightarrow> orphan_entry_t list option" where
  "collect_loop 0 p cursor expectedPrevHash = None"
| "collect_loop (Suc fuel) p cursor expectedPrevHash =
     (case OrphanPool_FindChildLocked p cursor expectedPrevHash of
        None \<Rightarrow> Some []
      | Some e \<Rightarrow> map_option ((#) e) (collect_loop fuel p (cursor + 1) (oe_hash e)))"

definition earliest_observed :: "orphan_entry_t list \<Rightarrow> u64" where
  "earliest_observed es =
     foldl (\<lambda>m e. if oe_observedAtTipHeight e < m then oe_observedAtTipHeight e else m) UINT64_MAX es"

definition OrphanPool_CollectBranchLocked :: "orphan_pool \<Rightarrow> u64 \<Rightarrow> byte list \<Rightarrow> orphan_entry_t list \<times> u64" where
  "OrphanPool_CollectBranchLocked p forkHeight forkParentHash =
     (case collect_loop (Suc (length (orphans p))) p forkHeight forkParentHash of
        None \<Rightarrow> ([], 0)
      | Some es \<Rightarrow> if es = [] then ([], 0)
                   else (es, if earliest_observed es = UINT64_MAX then 0 else earliest_observed es))"

section \<open>Attaching\<close>

fun drop_all :: "orphan_pool \<Rightarrow> byte list list \<Rightarrow> orphan_pool" where
  "drop_all p [] = p"
| "drop_all p (h # hs) = drop_all (OrphanPool_DropByHashLocked p h) hs"

definition stale :: "crypto_env \<Rightarrow> blockchain_t \<Rightarrow> orphan_entry_t \<Rightarrow> bool" where
  "stale E chain e =
     (if unat (oe_height e) \<ge> Chain_Size chain then False
      else case Chain_GetBlockCopy chain (unat (oe_height e)) of
        None \<Rightarrow> False
      | Some local \<Rightarrow> Block_CalculateHash E local = oe_hash e)"

definition OrphanPool_PruneStale :: "crypto_env \<Rightarrow> blockchain_t \<Rightarrow> orphan_pool \<Rightarrow> orphan_pool" where
  "OrphanPool_PruneStale E chain p = drop_all p (map oe_hash (filter (stale E chain) (orphans p)))"

definition tip_parent_hash :: "crypto_env \<Rightarrow> blockchain_t \<Rightarrow> byte list option" where
  "tip_parent_hash E chain =
     (if Chain_Size chain > 0 then map_option (Block_CalculateHash E) (Chain_GetBlockCopy chain (Chain_Size chain - 1))
      else Some (replicate 32 0))"

lemma find_hash_Some: "find_hash es h = Some i \<Longrightarrow> i < length es \<and> oe_hash (es ! i) = h"
  by (induction es arbitrary: i) (auto split: if_splits)

lemma find_hash_None: "find_hash es h = None \<longleftrightarrow> h \<notin> oe_hash ` set es"
  by (induction es) (auto split: if_splits)

lemma orphans_Some [simp]: "orphans (p\<lparr> g_orphans := Some es \<rparr>) = es" "orphans (p\<lparr> g_orphans := Some es, g_nextSequence := n \<rparr>) = es"
  by (simp_all add: orphans_def)

lemma DropByHash_present:
  "h \<in> oe_hash ` set (orphans p) \<Longrightarrow> length (orphans (OrphanPool_DropByHashLocked p h)) = length (orphans p) - 1"
  using find_hash_None [of "orphans p" h] find_hash_Some [of "orphans p" h]
  by (auto simp: OrphanPool_DropByHashLocked_def OrphanPool_FindByHashLocked_def vec_pop_at_def split: option.splits)

lemma TakeByHash_Drop: "fst (OrphanPool_TakeByHashLocked p h) = OrphanPool_DropByHashLocked p h"
  by (simp add: OrphanPool_TakeByHashLocked_def OrphanPool_DropByHashLocked_def split: option.splits)

lemma FindChild_Some:
  "OrphanPool_FindChildLocked p height h = Some e \<Longrightarrow>
     e \<in> set (orphans p) \<and> oe_height e = height \<and> prevHash (header (oe_block e)) = h"
  by (auto simp: OrphanPool_FindChildLocked_def find_Some_iff)

lemma Drop_child_shorter:
  "OrphanPool_FindChildLocked p height h = Some e \<Longrightarrow>
     length (orphans (OrphanPool_DropByHashLocked p (oe_hash e))) < length (orphans p)"
  using FindChild_Some [of p height h e] DropByHash_present [of "oe_hash e" p] by (cases "orphans p") auto

function extend_tip_loop :: "crypto_env \<Rightarrow> orphan_pool \<Rightarrow> node_state \<Rightarrow> nat \<Rightarrow> orphan_pool \<times> node_state \<times> nat" where
  "extend_tip_loop E p st attached =
     (case tip_parent_hash E (g_chain st) of
        None \<Rightarrow> (p, st, attached)
      | Some tipHash \<Rightarrow>
          (case OrphanPool_FindChildLocked p (of_nat (Chain_Size (g_chain st))) tipHash of
             None \<Rightarrow> (p, st, attached)
           | Some e \<Rightarrow>
               (let (st', ok) = Chain_AddBlock E st (Block_Copy (oe_block e)) in
                if \<not> ok then extend_tip_loop E (OrphanPool_DropByHashLocked p (oe_hash e)) st' attached
                else extend_tip_loop E (fst (OrphanPool_TakeByHashLocked p (oe_hash e))) st' (attached + 1))))"
  by pat_completeness auto
termination
  by (relation "measure (\<lambda>(E, p, st, attached). length (orphans p))") (auto simp: TakeByHash_Drop Drop_child_shorter)

declare extend_tip_loop.simps [simp del]

definition OrphanPool_ExtendTip :: "crypto_env \<Rightarrow> orphan_pool \<Rightarrow> node_state \<Rightarrow> orphan_pool \<times> node_state \<times> nat" where
  "OrphanPool_ExtendTip E p st = extend_tip_loop E p st 0"


text \<open>
  The search for a competing branch, from the shallowest fork down; \<open>now\<close> is the clock read by each
  \<^verbatim>\<open>Chain_ReplaceBranch\<close>. Between two readings either the fork height or the pool changes, so indexing the
  readings by these two loses nothing.
\<close>

fun try_adopt :: "crypto_env \<Rightarrow> (orphan_pool \<Rightarrow> nat \<Rightarrow> u64) \<Rightarrow> bool \<Rightarrow> nat list \<Rightarrow> orphan_pool \<Rightarrow> node_state \<Rightarrow>
    orphan_pool \<times> node_state \<times> nat" where
  "try_adopt E now bypassPenalty [] p st = (p, st, 0)"
| "try_adopt E now bypassPenalty (forkHeight # forks) p st =
     (case Chain_GetBlockCopy (g_chain st) (forkHeight - 1) of
        None \<Rightarrow> try_adopt E now bypassPenalty forks p st
      | Some parent \<Rightarrow>
          (let (branch, observed) =
                 OrphanPool_CollectBranchLocked p (of_nat forkHeight) (Block_CalculateHash E parent) in
           if branch = [] then try_adopt E now bypassPenalty forks p st
           else let (st', adopted) = Chain_ReplaceBranch E (now p forkHeight) st forkHeight
                      (map (\<lambda>e. Block_Copy (oe_block e)) branch) observed bypassPenalty in
                if adopted then (drop_all p (map oe_hash branch), st', length branch)
                else try_adopt E now bypassPenalty forks p st'))"

definition OrphanPool_TryAdoptBranch :: "crypto_env \<Rightarrow> (orphan_pool \<Rightarrow> nat \<Rightarrow> u64) \<Rightarrow> orphan_pool \<Rightarrow> node_state \<Rightarrow> bool \<Rightarrow>
    orphan_pool \<times> node_state \<times> nat" where
  "OrphanPool_TryAdoptBranch E now p st bypassPenalty =
     (let chainSize = Chain_Size (g_chain st) in
      if chainSize = 0 then (p, st, 0)
      else try_adopt E now bypassPenalty (rev [1..<Suc chainSize]) p st)"

lemma Drop_le: "length (orphans (OrphanPool_DropByHashLocked p h)) \<le> length (orphans p)"
  by (auto simp: OrphanPool_DropByHashLocked_def vec_pop_at_def split: option.splits)

lemma drop_all_le: "length (orphans (drop_all p hs)) \<le> length (orphans p)"
  using Drop_le by (induction p hs rule: drop_all.induct) (auto intro: le_trans)

lemma drop_all_less:
  assumes "h \<in> oe_hash ` set (orphans p)" shows "length (orphans (drop_all p (h # hs))) < length (orphans p)"
proof -
  have "0 < length (orphans p)" using assms by auto
  then show ?thesis
    using DropByHash_present [OF assms] drop_all_le [of "OrphanPool_DropByHashLocked p h" hs]
    unfolding drop_all.simps by linarith
qed

lemma collect_loop_head:
  "collect_loop n p c h = Some (e # es) \<Longrightarrow> e \<in> set (orphans p)"
  by (cases n) (auto split: option.splits dest: FindChild_Some)

lemma CollectBranch_head: "OrphanPool_CollectBranchLocked p fork h = (e # es, observed) \<Longrightarrow> e \<in> set (orphans p)"
  by (auto simp: OrphanPool_CollectBranchLocked_def split: option.splits if_splits
      dest: collect_loop_head simp del: collect_loop.simps)

lemma try_adopt_pool:
  "try_adopt E now bypass forks p st = (p', st', n) \<Longrightarrow> n = 0 \<and> p' = p \<or> 0 < n \<and> length (orphans p') < length (orphans p)"
proof (induction E now bypass forks p st rule: try_adopt.induct)
  case (2 E now bypass forkHeight forks p st)
  show ?case
  proof (cases "Chain_GetBlockCopy (g_chain st) (forkHeight - 1)")
    case None
    then show ?thesis using 2 by simp
  next
    case (Some parent)
    obtain branch observed where b: "OrphanPool_CollectBranchLocked p (of_nat forkHeight) (Block_CalculateHash E parent) = (branch, observed)"
      by fastforce
    show ?thesis
    proof (cases branch)
      case Nil
      then show ?thesis using 2 Some b by simp
    next
      case (Cons e es)
      then have "oe_hash e \<in> oe_hash ` set (orphans p)" using CollectBranch_head b by blast
      note drop_all_less [OF this]
      then show ?thesis using 2 Some b Cons by (auto split: prod.splits if_splits simp del: drop_all.simps)
    qed
  qed
qed simp

lemma TryAdopt_pool:
  "OrphanPool_TryAdoptBranch E now p st bypass = (p', st', n) \<Longrightarrow>
     n = 0 \<and> p' = p \<or> 0 < n \<and> length (orphans p') < length (orphans p)"
  by (auto simp: OrphanPool_TryAdoptBranch_def Let_def split: if_splits dest!: try_adopt_pool simp del: try_adopt.simps upt_Suc)

lemma extend_tip_pool:
  "extend_tip_loop E p st n = (p', st', n') \<Longrightarrow>
     length (orphans p') \<le> length (orphans p) \<and> n \<le> n' \<and> (n < n' \<longrightarrow> length (orphans p') < length (orphans p))"
proof (induction E p st n rule: extend_tip_loop.induct)
  case (1 E p st n)
  show ?case
  proof (cases "tip_parent_hash E (g_chain st)")
    case None
    then show ?thesis using "1.prems" by (simp add: extend_tip_loop.simps)
  next
    case (Some tipHash)
    note tip = this
    show ?thesis
    proof (cases "OrphanPool_FindChildLocked p (of_nat (Chain_Size (g_chain st))) tipHash")
      case None
      then show ?thesis using "1.prems" tip by (simp add: extend_tip_loop.simps)
    next
      case (Some e)
      obtain st1 ok where a: "Chain_AddBlock E st (Block_Copy (oe_block e)) = (st1, ok)" by fastforce
      have "extend_tip_loop E (OrphanPool_DropByHashLocked p (oe_hash e)) st1 (if ok then n + 1 else n) = (p', st', n')"
        using "1.prems" tip Some a by (subst (asm) extend_tip_loop.simps) (auto simp: TakeByHash_Drop split: if_splits)
      then show ?thesis
        using "1.IH" [OF tip Some a [symmetric] refl] Drop_child_shorter [OF Some] by (cases ok) (auto simp: TakeByHash_Drop)
    qed
  qed
qed

lemma ExtendTip_pool:
  "OrphanPool_ExtendTip E p st = (p', st', n) \<Longrightarrow>
     length (orphans p') \<le> length (orphans p) \<and> (0 < n \<longrightarrow> length (orphans p') < length (orphans p))"
  using extend_tip_pool [of E p st 0 p' st' n] by (simp add: OrphanPool_ExtendTip_def)

text \<open>Each round that attaches something shortens the pool: the loop ends.\<close>

function attach_loop :: "crypto_env \<Rightarrow> (orphan_pool \<Rightarrow> nat \<Rightarrow> u64) \<Rightarrow> bool \<Rightarrow> orphan_pool \<Rightarrow> node_state \<Rightarrow> nat \<Rightarrow>
    orphan_pool \<times> node_state \<times> nat" where
  "attach_loop E now bypassPenalty p st attached =
     (let (p1, st1, extended) = OrphanPool_ExtendTip E p st;
          (p2, st2, adopted) = OrphanPool_TryAdoptBranch E now p1 st1 bypassPenalty;
          attached' = attached + extended + adopted
      in if extended = 0 \<and> adopted = 0 then (p2, st2, attached')
         else attach_loop E now bypassPenalty p2 st2 attached')"
  by pat_completeness auto
termination
proof (relation "measure (\<lambda>(E, now, bypass, p, st, attached). length (orphans p))", goal_cases)
  case (2 E now bypass p st attached x p1 y st1 extended z p2 w st2 adopted attached')
  have e: "OrphanPool_ExtendTip E p st = (p1, st1, extended)" "OrphanPool_TryAdoptBranch E now p1 st1 bypass = (p2, st2, adopted)"
    using 2 by auto
  show ?case using ExtendTip_pool [OF e(1)] TryAdopt_pool [OF e(2)] 2 by auto
qed simp

declare attach_loop.simps [simp del]

definition OrphanPool_AttemptAttachForced :: "crypto_env \<Rightarrow> (orphan_pool \<Rightarrow> nat \<Rightarrow> u64) \<Rightarrow> orphan_pool \<Rightarrow> node_state \<Rightarrow> bool \<Rightarrow>
    orphan_pool \<times> node_state \<times> nat" where
  "OrphanPool_AttemptAttachForced E now p st bypassPenalty =
     (if orphans p = [] then (p, st, 0)
      else let (p', st', attached) = attach_loop E now bypassPenalty p st 0
           in (OrphanPool_PruneStale E (g_chain st') p', st', attached))"

definition OrphanPool_AttemptAttach :: "crypto_env \<Rightarrow> (orphan_pool \<Rightarrow> nat \<Rightarrow> u64) \<Rightarrow> orphan_pool \<Rightarrow> node_state \<Rightarrow>
    orphan_pool \<times> node_state \<times> nat" where
  "OrphanPool_AttemptAttach E now p st = OrphanPool_AttemptAttachForced E now p st False"

section \<open>The pool as a bounded queue\<close>

definition pool_ok :: "crypto_env \<Rightarrow> orphan_pool \<Rightarrow> bool" where
  "pool_ok E p \<longleftrightarrow>
     list_all (\<lambda>e. oe_hash e = Block_CalculateHash E (oe_block e) \<and> oe_sequence e < g_nextSequence p) (orphans p) \<and>
     distinct (map oe_hash (orphans p)) \<and> sorted_wrt (<) (map oe_sequence (orphans p)) \<and>
     length (orphans p) \<le> MAX_ORPHAN_BLOCKS"

lemma oldest_index_stays: "list_all (\<lambda>e. s \<le> oe_sequence e) es \<Longrightarrow> oldest_index es i k s = k"
  by (induction es arbitrary: i) (auto simp: not_less [symmetric])

lemma oldest_index_sorted:
  assumes "sorted_wrt (<) (map oe_sequence es)" shows "oldest_index es 0 0 UINT64_MAX = 0"
proof (cases es)
  case (Cons e es')
  have "list_all (\<lambda>x. oe_sequence e \<le> oe_sequence x) es'" using assms Cons by (auto simp: list_all_iff intro: less_imp_le)
  then have "oldest_index es' 1 0 (oe_sequence e) = 0" by (rule oldest_index_stays)
  moreover have "\<not> oe_sequence e < UINT64_MAX \<Longrightarrow> list_all (\<lambda>x. UINT64_MAX \<le> oe_sequence x) es'"
    using assms Cons by (auto simp: list_all_iff dest: less_trans)
  ultimately show ?thesis using Cons oldest_index_stays [of UINT64_MAX es' 1 0] by simp
qed simp

lemma evict_loop_queue:
  assumes "sorted_wrt (<) (map oe_sequence es)" "length es \<le> MAX_ORPHAN_BLOCKS"
  shows "evict_loop es = (if length es = MAX_ORPHAN_BLOCKS then tl es else es)"
proof (cases es)
  case Nil
  then show ?thesis by (simp add: evict_loop.simps MAX_ORPHAN_BLOCKS_def)
next
  case (Cons e es')
  have "OrphanPool_EvictOldestLocked es = (es', True)"
    using oldest_index_sorted [OF assms(1)] Cons by (simp add: OrphanPool_EvictOldestLocked_def vec_pop_at_def)
  then show ?thesis using assms(2) Cons by (simp add: evict_loop.simps [of "e # es'"] evict_loop.simps [of es'])
qed

lemma orphans_InitLocked [simp]: "orphans (OrphanPool_InitLocked p) = orphans p"
  "g_nextSequence (OrphanPool_InitLocked p) = g_nextSequence p"
  by (auto simp: OrphanPool_InitLocked_def orphans_def)

lemma Contains_iff: "OrphanPool_Contains p h \<longleftrightarrow> h \<in> oe_hash ` set (orphans p)"
  using find_hash_None [of "orphans p" h] by (auto simp: OrphanPool_Contains_def OrphanPool_FindByHashLocked_def)

lemma Insert_orphans:
  assumes "pool_ok E p"
  shows "orphans (OrphanPool_Insert E p block height observed) =
    (if OrphanPool_Contains p (Block_CalculateHash E block) then orphans p
     else (if length (orphans p) = MAX_ORPHAN_BLOCKS then tl (orphans p) else orphans p) @
       [\<lparr> oe_block = block, oe_height = height, oe_observedAtTipHeight = observed,
          oe_sequence = g_nextSequence p, oe_hash = Block_CalculateHash E block \<rparr>])"
  using assms evict_loop_queue [of "orphans p"]
  by (simp add: OrphanPool_Insert_def pool_ok_def OrphanPool_Contains_def OrphanPool_FindByHashLocked_def
      vec_push_back_def Let_def)

lemma u64_less_next: "x \<noteq> UINT64_MAX \<Longrightarrow> x < x + 1"
proof -
  assume x: "x \<noteq> UINT64_MAX"
  have "x + 1 \<noteq> 0"
  proof
    assume "x + 1 = 0"
    then have "x = - 1" by (simp add: eq_neg_iff_add_eq_0)
    then show False using x by simp
  qed
  then show ?thesis using unatSuc [of x] by (simp add: word_less_nat_alt add.commute)
qed

lemma in_set_tl: "x \<in> set (tl xs) \<Longrightarrow> x \<in> set xs"
  by (cases xs) auto

lemma pool_ok_append:
  assumes "pool_ok E p" "g_nextSequence p \<noteq> UINT64_MAX" "orphans p' = es @ [e]" "g_nextSequence p' = g_nextSequence p + 1"
    and "es = orphans p \<and> length (orphans p) < MAX_ORPHAN_BLOCKS \<or> es = tl (orphans p)"
    and "oe_hash e = Block_CalculateHash E (oe_block e)" "oe_sequence e = g_nextSequence p" "oe_hash e \<notin> oe_hash ` set (orphans p)"
  shows "pool_ok E p'"
proof -
  have n: "g_nextSequence p < g_nextSequence p + 1" using assms(2) by (rule u64_less_next)
  have sub: "set es \<subseteq> set (orphans p)" using assms(5) in_set_tl by (auto simp: subset_iff)
  have "distinct (map oe_hash es)" "sorted_wrt (<) (map oe_sequence es)"
    using assms(1,5) by (cases "orphans p"; auto simp: pool_ok_def)+
  moreover have "oe_hash e \<notin> oe_hash ` set es" using assms(8) sub by blast
  moreover have "list_all (\<lambda>x. oe_hash x = Block_CalculateHash E (oe_block x) \<and> oe_sequence x < g_nextSequence p) es"
    using assms(1) sub by (auto simp: pool_ok_def list_all_iff)
  moreover have "length es < MAX_ORPHAN_BLOCKS"
    using assms(1,5) by (auto simp: pool_ok_def MAX_ORPHAN_BLOCKS_def)
  ultimately show ?thesis
    using assms(3,4,6,7) n by (auto simp: pool_ok_def sorted_wrt_append list_all_iff dest: less_trans)
qed

lemma Insert_pool_ok:
  assumes "pool_ok E p" "g_nextSequence p \<noteq> UINT64_MAX"
  shows "pool_ok E (OrphanPool_Insert E p block height observed)"
proof (cases "OrphanPool_Contains p (Block_CalculateHash E block)")
  let ?p' = "OrphanPool_Insert E p block height observed"
  note q = Insert_orphans [OF assms(1), of block height observed]
  have l: "length (orphans p) \<le> MAX_ORPHAN_BLOCKS" using assms(1) by (simp add: pool_ok_def)
  {
    case True
    then have "g_nextSequence ?p' = g_nextSequence p"
      by (simp add: OrphanPool_Insert_def OrphanPool_Contains_def OrphanPool_FindByHashLocked_def Let_def)
    then show ?thesis using assms(1) True q by (simp add: pool_ok_def)
  next
    case False
    then have "g_nextSequence ?p' = g_nextSequence p + 1"
      by (simp add: OrphanPool_Insert_def OrphanPool_Contains_def OrphanPool_FindByHashLocked_def Let_def)
    then show ?thesis using False l Contains_iff pool_ok_append [OF assms q [unfolded if_not_P [OF False]]] by auto
  }
qed

text \<open>
  The orphan pool is a bounded first-in first-out queue. While the sequence counter has not run out,
  inserting a block into a well-formed pool leaves a block with the same hash untouched, first observation
  stamp included; otherwise the entry is appended and, when the pool is full, exactly the oldest entry is
  evicted. The pool stays well formed: hashes are those of the blocks and distinct, at most 512 entries.
\<close>

lemma Insert_bounded_queue:
  assumes "pool_ok E p" and "g_nextSequence p \<noteq> UINT64_MAX"
  shows "pool_ok E (OrphanPool_Insert E p block height observed) \<and>
    OrphanPool_Contains (OrphanPool_Insert E p block height observed) (Block_CalculateHash E block) \<and>
    orphans (OrphanPool_Insert E p block height observed) =
      (if OrphanPool_Contains p (Block_CalculateHash E block) then orphans p
       else drop (Suc (OrphanPool_Size p) - MAX_ORPHAN_BLOCKS) (orphans p) @
         [\<lparr> oe_block = block, oe_height = height, oe_observedAtTipHeight = observed,
            oe_sequence = g_nextSequence p, oe_hash = Block_CalculateHash E block \<rparr>])"
proof -
  let ?p' = "OrphanPool_Insert E p block height observed"
  note q = Insert_orphans [OF assms(1), of block height observed]
  have l: "length (orphans p) \<le> MAX_ORPHAN_BLOCKS" using assms(1) by (simp add: pool_ok_def)
  have "pool_ok E ?p'" by (rule Insert_pool_ok [OF assms])
  moreover have "orphans ?p' = (if OrphanPool_Contains p (Block_CalculateHash E block) then orphans p
       else drop (Suc (OrphanPool_Size p) - MAX_ORPHAN_BLOCKS) (orphans p) @
         [\<lparr> oe_block = block, oe_height = height, oe_observedAtTipHeight = observed,
            oe_sequence = g_nextSequence p, oe_hash = Block_CalculateHash E block \<rparr>])"
    using q l by (auto simp: OrphanPool_Size_def drop_Suc)
  ultimately show ?thesis by (auto simp: Contains_iff)
qed

section \<open>Branch collection ends and finds a whole branch\<close>

fun linked :: "u64 \<Rightarrow> byte list \<Rightarrow> orphan_entry_t list \<Rightarrow> bool" where
  "linked c h [] = True"
| "linked c h (e # es) \<longleftrightarrow> oe_height e = c \<and> prevHash (header (oe_block e)) = h \<and> linked (c + 1) (oe_hash e) es"

lemma linked_heights: "linked c h es \<Longrightarrow> map oe_height es = map (\<lambda>i. c + of_nat i) [0..<length es]"
proof (induction c h es rule: linked.induct)
  case (2 c h e es)
  then show ?case by (simp add: map_upt_Suc add.assoc del: upt_Suc)
qed simp

lemma of_nat_inj_64: "n \<le> 2 ^ 64 \<Longrightarrow> inj_on (\<lambda>i. c + (of_nat i :: u64)) {0..<n}"
  by (rule inj_onI) (metis add_left_cancel atLeastLessThan_iff less_le_trans unat_of_nat_64)

lemma linked_distinct: "linked c h es \<Longrightarrow> length es \<le> 2 ^ 64 \<Longrightarrow> distinct es"
proof -
  assume l: "linked c h es" "length es \<le> 2 ^ 64"
  have "distinct (map oe_height es)"
    unfolding linked_heights [OF l(1)] distinct_map using of_nat_inj_64 [OF l(2), of c] by simp
  then show ?thesis by (simp add: distinct_map)
qed

lemma linked_fits:
  assumes "linked c h es" "set es \<subseteq> set xs" "length xs < 2 ^ 64" shows "length es \<le> length xs"
proof (rule ccontr)
  assume "\<not> length es \<le> length xs"
  then have n: "Suc (length xs) \<le> length es" by simp
  have "linked c h (take k ys)" if "linked c h ys" for k c h ys
    using that by (induction c h ys arbitrary: k rule: linked.induct) (auto simp: take_Cons split: nat.splits)
  then have t: "linked c h (take (Suc (length xs)) es)" using assms(1) .
  have "distinct (take (Suc (length xs)) es)" by (rule linked_distinct [OF t]) (use n assms(3) in simp)
  then have "card (set (take (Suc (length xs)) es)) = Suc (length xs)" using n by (simp add: distinct_card)
  moreover have "card (set (take (Suc (length xs)) es)) \<le> card (set xs)"
    using assms(2) set_take_subset [of "Suc (length xs)" es] by (intro card_mono) auto
  ultimately show False using card_length [of xs] by linarith
qed

lemma collect_loop_None:
  "collect_loop n p c h = None \<Longrightarrow> \<exists>es. length es = n \<and> linked c h es \<and> set es \<subseteq> set (orphans p)"
proof (induction n arbitrary: c h)
  case (Suc n)
  then obtain e where e: "OrphanPool_FindChildLocked p c h = Some e" "collect_loop n p (c + 1) (oe_hash e) = None"
    by (auto split: option.splits)
  from Suc.IH [OF e(2)] obtain es where "length es = n" "linked (c + 1) (oe_hash e) es" "set es \<subseteq> set (orphans p)" by blast
  then have "length (e # es) = Suc n \<and> linked c h (e # es) \<and> set (e # es) \<subseteq> set (orphans p)"
    using FindChild_Some [OF e(1)] by simp
  then show ?case by blast
qed simp

text \<open>The fuel of \<open>collect_loop\<close> is enough.\<close>

lemma collect_loop_fuel: "length (orphans p) < 2 ^ 64 \<Longrightarrow> \<exists>es. collect_loop (Suc (length (orphans p))) p c h = Some es"
  using collect_loop_None [of "Suc (length (orphans p))" p c h] linked_fits [of c h _ "orphans p"]
  by (metis Suc_n_not_le_n option.exhaust)

lemma collect_loop_Some:
  "collect_loop n p c h = Some es \<Longrightarrow>
     linked c h es \<and> set es \<subseteq> set (orphans p) \<and>
     OrphanPool_FindChildLocked p (c + of_nat (length es)) (last (h # map oe_hash es)) = None"
proof (induction n arbitrary: c h es)
  case (Suc n)
  show ?case
  proof (cases "OrphanPool_FindChildLocked p c h")
    case None
    then show ?thesis using Suc.prems by simp
  next
    case (Some e)
    then obtain es' where es: "collect_loop n p (c + 1) (oe_hash e) = Some es'" "es = e # es'" using Suc.prems by auto
    show ?thesis using Suc.IH [OF es(1)] FindChild_Some [OF Some] es(2) by (simp add: add.assoc)
  qed
qed simp

lemma earliest_le: "foldl (\<lambda>m e. if oe_observedAtTipHeight e < m then oe_observedAtTipHeight e else m) k es \<le> k"
  by (induction es arbitrary: k) (auto intro: order.trans less_imp_le)

lemma earliest_in:
  "foldl (\<lambda>m e. if oe_observedAtTipHeight e < m then oe_observedAtTipHeight e else m) k es
     \<in> insert k (oe_observedAtTipHeight ` set es)"
proof (induction es arbitrary: k)
  case (Cons e es)
  show ?case using Cons [of k] Cons [of "oe_observedAtTipHeight e"] by auto
qed simp

lemma earliest_min:
  "e \<in> set es \<Longrightarrow>
     foldl (\<lambda>m e. if oe_observedAtTipHeight e < m then oe_observedAtTipHeight e else m) k es \<le> oe_observedAtTipHeight e"
proof (induction es arbitrary: k)
  case (Cons x es)
  show ?case
  proof (cases "e \<in> set es")
    case False
    then have "e = x" using Cons.prems by simp
    then show ?thesis
      using earliest_le [of "oe_observedAtTipHeight x" es] earliest_le [of k es]
      by (auto simp: not_less intro: order.trans)
  qed (simp add: Cons.IH)
qed simp

text \<open>
  Collecting a branch always ends, and what it returns is a whole branch. With any pool a 64-bit size
  can describe, the result is a list of pooled entries of consecutive heights, each naming the hash of the
  one before it as its parent, starting at the fork parent; no pooled block extends it further; and the
  returned observation stamp is the smallest of the collected ones (0 when every stamp is the maximal one).
\<close>

lemma CollectBranch_whole_branch:
  assumes "OrphanPool_CollectBranchLocked p forkHeight forkParentHash = (es, observed)"
    and "length (orphans p) < 2 ^ 64"
  shows "(\<exists>fuel. collect_loop fuel p forkHeight forkParentHash = Some es) \<and>
    linked forkHeight forkParentHash es \<and> set es \<subseteq> set (orphans p) \<and>
    OrphanPool_FindChildLocked p (forkHeight + of_nat (length es)) (last (forkParentHash # map oe_hash es)) = None \<and>
    (\<forall>e\<in>set es. observed \<le> oe_observedAtTipHeight e) \<and>
    ((\<exists>e\<in>set es. oe_observedAtTipHeight e \<noteq> UINT64_MAX) \<longrightarrow> observed \<in> oe_observedAtTipHeight ` set es)"
proof -
  obtain es' where c: "collect_loop (Suc (length (orphans p))) p forkHeight forkParentHash = Some es'"
    using collect_loop_fuel [OF assms(2)] by blast
  then have es: "es' = es" "observed = (if es = [] \<or> earliest_observed es = UINT64_MAX then 0 else earliest_observed es)"
    using assms(1) by (auto simp: OrphanPool_CollectBranchLocked_def simp del: collect_loop.simps split: if_splits)
  have min: "earliest_observed es \<le> oe_observedAtTipHeight e" if "e \<in> set es" for e
    using earliest_min [OF that] by (simp add: earliest_observed_def)
  have "- 1 = UINT64_MAX" by simp
  then have top: "x \<le> UINT64_MAX" for x :: u64 using word_order.extremum [of x] by (simp only:)
  have "observed \<in> oe_observedAtTipHeight ` set es" if e: "e \<in> set es" "oe_observedAtTipHeight e \<noteq> UINT64_MAX" for e
  proof -
    have "earliest_observed es \<noteq> UINT64_MAX" using min [OF e(1)] e(2) top [of "oe_observedAtTipHeight e"] by auto
    then show ?thesis using es(2) e(1) earliest_in [of UINT64_MAX es] by (auto simp: earliest_observed_def)
  qed
  moreover have "observed \<le> oe_observedAtTipHeight e" if "e \<in> set es" for e using min [OF that] es(2) by simp
  ultimately show ?thesis using collect_loop_Some [OF c] c es(1) by blast
qed

section \<open>The attach step keeps the node and the pool sound\<close>

definition pool_addressed :: "orphan_pool \<Rightarrow> bool" where
  "pool_addressed p \<longleftrightarrow> list_all (\<lambda>e. block_addressed (oe_block e)) (orphans p)"

text \<open>\<open>shrunk p p' n\<close>: \<open>p'\<close> is \<open>p\<close> less at least \<open>n\<close> entries, in the same order.\<close>

definition shrunk :: "orphan_pool \<Rightarrow> orphan_pool \<Rightarrow> nat \<Rightarrow> bool" where
  "shrunk p p' n \<longleftrightarrow> (\<exists>P. orphans p' = filter P (orphans p)) \<and> g_nextSequence p' = g_nextSequence p \<and>
     length (orphans p') + n \<le> length (orphans p)"

lemma shrunk_refl [simp]: "shrunk p p 0"
  unfolding shrunk_def by (auto intro: exI [of _ "\<lambda>_. True"])

lemma shrunk_trans: "shrunk p p1 m \<Longrightarrow> shrunk p1 p2 n \<Longrightarrow> shrunk p p2 (m + n)"
  unfolding shrunk_def by (auto intro: exI [of _ "\<lambda>x. P x \<and> Q x" for P Q])

lemma distinct_map_filter: "distinct (map f xs) \<Longrightarrow> distinct (map f (filter P xs))"
  by (induction xs) auto

lemma sorted_wrt_map_filter: "sorted_wrt R (map f xs) \<Longrightarrow> sorted_wrt R (map f (filter P xs))"
  by (induction xs) auto

lemma shrunk_ok: "pool_ok E p \<Longrightarrow> pool_addressed p \<Longrightarrow> shrunk p p' n \<Longrightarrow> pool_ok E p' \<and> pool_addressed p'"
  by (auto simp: shrunk_def pool_ok_def pool_addressed_def list_all_iff distinct_map_filter sorted_wrt_map_filter
      dest: le_trans [OF le_add1])

lemma shrunk_okc:
  "pool_ok E p \<Longrightarrow> c \<longrightarrow> pool_addressed p \<Longrightarrow> shrunk p p' n \<Longrightarrow> pool_ok E p' \<and> (c \<longrightarrow> pool_addressed p')"
  by (auto simp: shrunk_def pool_ok_def pool_addressed_def list_all_iff distinct_map_filter sorted_wrt_map_filter
      dest: le_trans [OF le_add1])

lemma find_hash_pop:
  "distinct (map oe_hash es) \<Longrightarrow> find_hash es h = Some i \<Longrightarrow> vec_pop_at es i = filter (\<lambda>e. oe_hash e \<noteq> h) es"
proof (induction es arbitrary: i)
  case (Cons e es)
  show ?case
  proof (cases "oe_hash e = h")
    case True
    then have "filter (\<lambda>e. oe_hash e \<noteq> h) es = es" using Cons.prems(1) by (simp add: filter_id_conv image_iff) metis
    then show ?thesis using Cons.prems(2) True by (simp add: vec_pop_at_def)
  next
    case False
    then obtain j where "find_hash es h = Some j" "i = Suc j" using Cons.prems(2) by auto
    then show ?thesis using Cons False find_hash_Some [of es h j] by (auto simp: vec_pop_at_def)
  qed
qed simp

lemma Drop_filter:
  assumes "distinct (map oe_hash (orphans p))"
  shows "orphans (OrphanPool_DropByHashLocked p h) = filter (\<lambda>e. oe_hash e \<noteq> h) (orphans p)"
proof (cases "find_hash (orphans p) h")
  case None
  then have "filter (\<lambda>e. oe_hash e \<noteq> h) (orphans p) = orphans p" using find_hash_None by (fastforce simp: filter_id_conv)
  then show ?thesis using None by (simp add: OrphanPool_DropByHashLocked_def OrphanPool_FindByHashLocked_def)
next
  case (Some i)
  then show ?thesis
    using find_hash_pop [OF assms] by (simp add: OrphanPool_DropByHashLocked_def OrphanPool_FindByHashLocked_def)
qed

lemma Drop_nextSequence [simp]: "g_nextSequence (OrphanPool_DropByHashLocked p h) = g_nextSequence p"
  by (simp add: OrphanPool_DropByHashLocked_def split: option.split)

lemma drop_all_filter:
  "distinct (map oe_hash (orphans p)) \<Longrightarrow>
     orphans (drop_all p hs) = filter (\<lambda>e. oe_hash e \<notin> set hs) (orphans p) \<and> g_nextSequence (drop_all p hs) = g_nextSequence p"
proof (induction hs arbitrary: p)
  case (Cons h hs)
  then show ?case
    using Cons.IH [of "OrphanPool_DropByHashLocked p h"] by (simp add: Drop_filter distinct_map_filter conj_commute)
qed simp

lemma drop_all_shrunk:
  assumes "distinct (map oe_hash (orphans p))" "distinct hs" "set hs \<subseteq> oe_hash ` set (orphans p)"
  shows "shrunk p (drop_all p hs) (length hs)"
proof -
  let ?P = "\<lambda>e. oe_hash e \<notin> set hs"
  have "length (filter (\<lambda>e. \<not> ?P e) (orphans p)) = card (oe_hash ` {e \<in> set (orphans p). oe_hash e \<in> set hs})"
    using distinct_map_filter [OF assms(1), of "\<lambda>e. oe_hash e \<in> set hs"] distinct_card by fastforce
  also have "oe_hash ` {e \<in> set (orphans p). oe_hash e \<in> set hs} = set hs" using assms(3) by auto
  finally have "length hs + length (filter ?P (orphans p)) = length (orphans p)"
    using sum_length_filter_compl [of ?P "orphans p"] distinct_card [OF assms(2)] by simp
  then show ?thesis using drop_all_filter [OF assms(1), of hs] by (auto simp: shrunk_def)
qed

lemma Drop_shrunk:
  assumes "distinct (map oe_hash (orphans p))" "e \<in> set (orphans p)"
  shows "shrunk p (OrphanPool_DropByHashLocked p (oe_hash e)) 1"
  using drop_all_shrunk [OF assms(1), of "[oe_hash e]"] assms(2) by simp

lemma shrunk_weaken: "shrunk p p' n \<Longrightarrow> m \<le> n \<Longrightarrow> shrunk p p' m"
  by (auto simp: shrunk_def)

text \<open>
  The attach step, on any state the node can come to (\<open>c\<close> false) or on one with ledger and chain in step
  (\<open>c\<close> true, with a pool of addressed blocks).
\<close>

lemma extend_tip_sound:
  "extend_tip_loop E p st n = (p', st', n') \<Longrightarrow> reached E c st \<Longrightarrow> pool_ok E p \<Longrightarrow> (c \<longrightarrow> pool_addressed p) \<Longrightarrow>
     reached E c st' \<and> n \<le> n' \<and> shrunk p p' (n' - n)"
proof (induction E p st n rule: extend_tip_loop.induct)
  case (1 E p st n)
  consider "(p, st, n) = (p', st', n')"
    | tipHash e where "tip_parent_hash E (g_chain st) = Some tipHash"
        "OrphanPool_FindChildLocked p (of_nat (Chain_Size (g_chain st))) tipHash = Some e"
    using "1.prems"(1) by (auto simp: extend_tip_loop.simps [of E p st] split: option.splits)
  then show ?case
  proof cases
    case 1
    then show ?thesis using "1.prems" by auto
  next
    case (2 tipHash e)
    obtain st1 ok where a: "Chain_AddBlock E st (Block_Copy (oe_block e)) = (st1, ok)" by fastforce
    let ?p1 = "OrphanPool_DropByHashLocked p (oe_hash e)"
    have r: "extend_tip_loop E ?p1 st1 (if ok then n + 1 else n) = (p', st', n')"
      using "1.prems"(1) 2 a by (subst (asm) extend_tip_loop.simps) (auto simp: TakeByHash_Drop split: if_splits)
    have e: "e \<in> set (orphans p)" using FindChild_Some [OF 2(2)] by simp
    have d: "shrunk p ?p1 1" by (rule Drop_shrunk) (use "1.prems"(3) e in \<open>auto simp: pool_ok_def\<close>)
    have st1: "reached E c st1"
      by (rule reached_AddBlock [OF "1.prems"(2) _ a]) (use "1.prems"(4) e in \<open>auto simp: pool_addressed_def list_all_iff\<close>)
    note ok1 = shrunk_okc [OF "1.prems"(3,4) d]
    have "reached E c st' \<and> (if ok then n + 1 else n) \<le> n' \<and> shrunk ?p1 p' (n' - (if ok then n + 1 else n))"
      using "1.IH" [OF 2(1,2) a [symmetric] refl] r st1 ok1 by (cases ok) (auto simp: TakeByHash_Drop)
    then show ?thesis using shrunk_trans [OF d] shrunk_weaken [of p p' _ "n' - n"] by (cases ok) fastforce+
  qed
qed

lemma extend_tip_exhausts:
  "extend_tip_loop E p st n = (p', st', n') \<Longrightarrow> tip_parent_hash E (g_chain st') = Some h \<Longrightarrow>
     OrphanPool_FindChildLocked p' (of_nat (Chain_Size (g_chain st'))) h = None"
proof (induction E p st n rule: extend_tip_loop.induct)
  case (1 E p st n)
  show ?case
  proof (cases "(p, st, n) = (p', st', n') \<and> OrphanPool_FindChildLocked p (of_nat (Chain_Size (g_chain st))) h = None")
    case False
    then obtain tipHash e where 2: "tip_parent_hash E (g_chain st) = Some tipHash"
        "OrphanPool_FindChildLocked p (of_nat (Chain_Size (g_chain st))) tipHash = Some e"
      using "1.prems" by (auto simp: extend_tip_loop.simps [of E p st] split: option.splits)
    obtain st1 ok where a: "Chain_AddBlock E st (Block_Copy (oe_block e)) = (st1, ok)" by fastforce
    show ?thesis
      using "1.IH" [OF 2 a [symmetric] refl] "1.prems" 2 a
      by (auto simp: extend_tip_loop.simps [of E p st] split: if_splits)
  qed auto
qed

lemma try_adopt_sound:
  "try_adopt E now bypass forks p st = (p', st', n) \<Longrightarrow> reached E c st \<Longrightarrow> pool_ok E p \<Longrightarrow>
     reached E c st' \<and> shrunk p p' n"
proof (induction E now bypass forks p st rule: try_adopt.induct)
  case (2 E now bypass forkHeight forks p st)
  show ?case
  proof (cases "Chain_GetBlockCopy (g_chain st) (forkHeight - 1)")
    case None
    then show ?thesis using 2 by simp
  next
    case (Some parent)
    obtain branch observed where b: "OrphanPool_CollectBranchLocked p (of_nat forkHeight) (Block_CalculateHash E parent) = (branch, observed)"
      by fastforce
    obtain st1 adopted where r: "Chain_ReplaceBranch E (now p forkHeight) st forkHeight
        (map (\<lambda>e. Block_Copy (oe_block e)) branch) observed bypass = (st1, adopted)" by fastforce
    have st1: "reached E c st1" by (rule reach_keeps [OF "2.prems"(2) step_replace [OF r]])
    have len: "length (orphans p) < 2 ^ 64" using "2.prems"(3) by (simp add: pool_ok_def MAX_ORPHAN_BLOCKS_def)
    obtain es where "collect_loop (Suc (length (orphans p))) p (of_nat forkHeight) (Block_CalculateHash E parent) = Some es"
      using collect_loop_fuel [OF len] by blast
    then have l: "linked (of_nat forkHeight) (Block_CalculateHash E parent) branch" "set branch \<subseteq> set (orphans p)"
      using b collect_loop_Some by (fastforce simp: OrphanPool_CollectBranchLocked_def simp del: collect_loop.simps split: if_splits)+
    have "distinct branch" using linked_distinct [OF l(1)] linked_fits [OF l len] len by simp
    then have "distinct (map oe_hash branch)"
      using "2.prems"(3) l(2) by (auto simp: pool_ok_def distinct_map intro: inj_on_subset)
    then have s: "shrunk p (drop_all p (map oe_hash branch)) (length branch)"
      using drop_all_shrunk [of p "map oe_hash branch"] "2.prems"(3) l(2) by (auto simp: pool_ok_def)
    show ?thesis using 2 Some b r st1 s by (auto split: if_splits)
  qed
qed simp

lemma TryAdopt_sound:
  "OrphanPool_TryAdoptBranch E now p st bypass = (p', st', n) \<Longrightarrow> reached E c st \<Longrightarrow> pool_ok E p \<Longrightarrow>
     reached E c st' \<and> shrunk p p' n"
  by (auto simp: OrphanPool_TryAdoptBranch_def Let_def split: if_splits dest!: try_adopt_sound simp del: try_adopt.simps upt_Suc)

lemma ExtendTip_sound:
  "OrphanPool_ExtendTip E p st = (p', st', n) \<Longrightarrow> reached E c st \<Longrightarrow> pool_ok E p \<Longrightarrow> (c \<longrightarrow> pool_addressed p) \<Longrightarrow>
     reached E c st' \<and> shrunk p p' n"
  by (auto simp: OrphanPool_ExtendTip_def dest: extend_tip_sound)

lemma attach_loop_sound:
  "attach_loop E now bypass p st n = (p', st', n') \<Longrightarrow> reached E c st \<Longrightarrow> pool_ok E p \<Longrightarrow> (c \<longrightarrow> pool_addressed p) \<Longrightarrow>
     reached E c st' \<and> n \<le> n' \<and> shrunk p p' (n' - n)"
proof (induction E now bypass p st n rule: attach_loop.induct)
  case (1 E now bypass p st n)
  obtain p1 st1 x where e: "OrphanPool_ExtendTip E p st = (p1, st1, x)" using prod_cases3 by blast
  obtain p2 st2 y where a: "OrphanPool_TryAdoptBranch E now p1 st1 bypass = (p2, st2, y)" using prod_cases3 by blast
  note s1 = ExtendTip_sound [OF e "1.prems"(2-4)]
  note ok1 = shrunk_okc [OF "1.prems"(3,4), of p1 x]
  note s2 = TryAdopt_sound [OF a, OF conjunct1 [OF s1]]
  have s: "reached E c st2" "shrunk p p2 (x + y)" "pool_ok E p2" "c \<longrightarrow> pool_addressed p2"
    using s1 s2 ok1 shrunk_trans [of p p1 x p2 y] shrunk_okc [of E p1 c p2 y] by auto
  show ?case
  proof (cases "x = 0 \<and> y = 0")
    case True
    then show ?thesis using "1.prems"(1) e a s by (simp add: attach_loop.simps [of E now bypass p st])
  next
    case False
    have r: "attach_loop E now bypass p2 st2 (n + x + y) = (p', st', n')"
      using "1.prems"(1) e a False by (subst (asm) attach_loop.simps) auto
    have "reached E c st' \<and> n + x + y \<le> n' \<and> shrunk p2 p' (n' - (n + x + y))"
      using "1.IH" [OF e [symmetric] refl refl a [symmetric] refl refl refl False r s(1,3,4)] .
    then show ?thesis using shrunk_trans [OF s(2), of p' "n' - (n + x + y)"] by simp
  qed
qed

lemma PruneStale_filter:
  assumes "pool_ok E p"
  shows "orphans (OrphanPool_PruneStale E chain p) = filter (\<lambda>e. \<not> stale E chain e) (orphans p)"
    and "g_nextSequence (OrphanPool_PruneStale E chain p) = g_nextSequence p"
proof -
  have d: "distinct (map oe_hash (orphans p))" using assms by (simp add: pool_ok_def)
  then have i: "inj_on oe_hash (set (orphans p))" by (simp add: distinct_map)
  have "oe_hash e \<in> oe_hash ` set (filter (stale E chain) (orphans p)) \<longleftrightarrow> stale E chain e" if "e \<in> set (orphans p)" for e
    using inj_on_image_mem_iff [OF i that, of "set (filter (stale E chain) (orphans p))"] that by auto
  then show "orphans (OrphanPool_PruneStale E chain p) = filter (\<lambda>e. \<not> stale E chain e) (orphans p)"
    using drop_all_filter [OF d] by (simp add: OrphanPool_PruneStale_def cong: filter_cong)
  show "g_nextSequence (OrphanPool_PruneStale E chain p) = g_nextSequence p"
    using drop_all_filter [OF d] by (simp add: OrphanPool_PruneStale_def)
qed

definition demo_pool :: orphan_pool where
  "demo_pool = OrphanPool_Insert easy_env \<lparr> g_orphans = None, g_nextSequence = 0 \<rparr> (coinbase_block node1) 1 0"

lemma demo_pool_simps:
  "orphans demo_pool = [\<lparr> oe_block = coinbase_block node1, oe_height = 1, oe_observedAtTipHeight = 0,
     oe_sequence = 0, oe_hash = Block_CalculateHash easy_env (coinbase_block node1) \<rparr>]"
  "g_nextSequence demo_pool = 1"
  by (simp_all add: demo_pool_def OrphanPool_Insert_def OrphanPool_InitLocked_def OrphanPool_FindByHashLocked_def
      evict_loop.simps MAX_ORPHAN_BLOCKS_def vec_push_back_def orphans_def Let_def)

lemma demo_pool_ok: "pool_ok easy_env demo_pool" "pool_addressed demo_pool"
  by (simp_all add: pool_ok_def pool_addressed_def demo_pool_simps MAX_ORPHAN_BLOCKS_def block_addressed_def
      coinbase_block_def easy_block_def payments_addressed_def pays_nobody_def coinbase_of_def demo_tx_def)

lemma node1_adds: "\<exists>st. Chain_AddBlock easy_env node1 (coinbase_block node1) = (st, True)"
  using node1_block by (simp add: Chain_AddBlock_def case_prod_unfold Let_def coinbase_block_def easy_block_def)

lemma AttemptAttach_facts:
  assumes "OrphanPool_AttemptAttachForced E now p st bypass = (p', st', attached)"
    and "reached E c st" and "pool_ok E p" and "c \<longrightarrow> pool_addressed p"
  shows "reached E c st'" and "shrunk p p' attached" and "\<forall>e\<in>set (orphans p'). \<not> stale E (g_chain st') e"
proof -
  have "reached E c st' \<and> shrunk p p' attached \<and> (\<forall>e\<in>set (orphans p'). \<not> stale E (g_chain st') e)"
  proof (cases "orphans p = []")
    case True
    then show ?thesis using assms by (auto simp: OrphanPool_AttemptAttachForced_def)
  next
    case False
    then obtain p1 where l: "attach_loop E now bypass p st 0 = (p1, st', attached)" "p' = OrphanPool_PruneStale E (g_chain st') p1"
      using assms(1) by (auto simp: OrphanPool_AttemptAttachForced_def split: prod.splits)
    have s: "reached E c st'" "shrunk p p1 attached" using attach_loop_sound [OF l(1) assms(2-4)] by simp_all
    have ok1: "pool_ok E p1" using shrunk_okc [OF assms(3,4) s(2)] by simp
    note q = PruneStale_filter [OF ok1, of "g_chain st'", folded l(2)]
    have "shrunk p1 p' 0" using q by (auto simp: shrunk_def)
    then show ?thesis using s(1) shrunk_trans [OF s(2), of p' 0] q(1) by simp
  qed
  then show "reached E c st'" and "shrunk p p' attached" and "\<forall>e\<in>set (orphans p'). \<not> stale E (g_chain st') e"
    by simp_all
qed

text \<open>
  C8: the attach step keeps the pool and the chain sound, on any state the node can come to and any
  well-formed pool. The extend-then-adopt loop ends in such a state again, with a valid chain; every attached
  block leaves the pool exactly once, nothing enters it, and no block left in the pool is already on the
  chain. If the node was in step with its chain and no pooled block carries a payment to nobody (such a block
  can be pushed and then refused, see \<open>AddBlock_unaddressed_payment\<close>), the ledger is the replay of the new chain.
\<close>

theorem AttemptAttach_sound:
  assumes "OrphanPool_AttemptAttachForced E now p st bypass = (p', st', attached)"
    and "reached E in_step st" and "pool_ok E p"
  shows "reached E False st' \<and> Chain_IsValid E (g_chain st') \<and> pool_ok E p' \<and>
    set (orphans p') \<subseteq> set (orphans p) \<and> OrphanPool_Size p' + attached \<le> OrphanPool_Size p \<and>
    (\<forall>e\<in>set (orphans p'). \<not> stale E (g_chain st') e) \<and>
    (in_step \<and> pool_addressed p \<longrightarrow> reached E True st' \<and> synced st')"
proof -
  have st: "reached E False st" by (rule reached_weaken [OF assms(2)]) simp
  have none: "False \<longrightarrow> pool_addressed p" by simp
  note sh = AttemptAttach_facts(2,1,3) [OF assms(1) st assms(3) none]
  have "set (orphans p') \<subseteq> set (orphans p)" using sh(1) by (auto simp: shrunk_def)
  moreover have "pool_ok E p'" using shrunk_okc [OF assms(3) none sh(1)] by simp
  moreover have "reached E True st' \<and> synced st'" if i: "in_step" and a: "pool_addressed p"
  proof -
    have "reached E in_step st'" by (rule AttemptAttach_facts(1) [OF assms]) (simp add: a)
    then have "reached E True st'" using i by simp
    then show ?thesis using reachable_inv by blast
  qed
  moreover have "Chain_IsValid E (g_chain st')" using reached_chain [OF sh(2)] by (simp add: chain_inv_def)
  moreover have "OrphanPool_Size p' + attached \<le> OrphanPool_Size p" using sh(1) by (simp add: shrunk_def OrphanPool_Size_def)
  ultimately show ?thesis using sh(2,3) by blast
qed

theorem AttemptAttach_sound_witness:
  "\<exists>p' st' n. OrphanPool_AttemptAttachForced easy_env (\<lambda>_ _. 0) demo_pool node1 False = (p', st', n) \<and>
     reachable easy_env st' \<and> synced st' \<and> OrphanPool_Size p' + n \<le> 1"
proof -
  obtain p' st' n where r: "OrphanPool_AttemptAttachForced easy_env (\<lambda>_ _. 0) demo_pool node1 False = (p', st', n)"
    using prod_cases3 by blast
  from AttemptAttach_sound [OF r node1_reachable demo_pool_ok(1)] r demo_pool_ok(2) show ?thesis
    by (simp add: OrphanPool_Size_def demo_pool_simps)
qed

lemma AddBlock_extends:
  assumes "reachable E st" "Chain_AddBlock E st b = (st', ok)"
  shows "blocks (g_chain st') = blocks (g_chain st) @ (if ok then [b] else []) \<or> \<not> block_addressed b"
proof (cases "block_addressed b")
  case True
  have i: "chain_inv E st" "synced st" using reachable_inv [OF assms(1)] by auto
  obtain st1 where st1: "Chain_AddBlockLocked E st b = (st1, ok)" "st' = (if ok then Chain_OnTipAdvanced st1 else st1)"
    using AddBlock_Locked [OF assms(2)] by blast
  show ?thesis
  proof (cases ok)
    case t: True
    then show ?thesis using AddBlockLocked_blocks [OF i] st1 by simp
  next
    case False
    then show ?thesis using AddBlockLocked_False [OF i(1) synced_coins [OF i(2)], of b st1] st1 True by auto
  qed
qed simp

lemma extend_tip_blocks:
  "extend_tip_loop E p st n = (p', st', n') \<Longrightarrow> reachable E st \<Longrightarrow> pool_ok E p \<Longrightarrow> pool_addressed p \<Longrightarrow>
     \<exists>bs. blocks (g_chain st') = blocks (g_chain st) @ bs \<and> n' = n + length bs \<and> set bs \<subseteq> oe_block ` set (orphans p)"
proof (induction E p st n rule: extend_tip_loop.induct)
  case (1 E p st n)
  show ?case
  proof (cases "(p, st, n) = (p', st', n')")
    case False
    then obtain tipHash e where 2: "tip_parent_hash E (g_chain st) = Some tipHash"
        "OrphanPool_FindChildLocked p (of_nat (Chain_Size (g_chain st))) tipHash = Some e"
      using "1.prems" by (auto simp: extend_tip_loop.simps [of E p st] split: option.splits)
    obtain st1 ok where a: "Chain_AddBlock E st (Block_Copy (oe_block e)) = (st1, ok)" by fastforce
    let ?p1 = "OrphanPool_DropByHashLocked p (oe_hash e)"
    have r: "extend_tip_loop E ?p1 st1 (if ok then n + 1 else n) = (p', st', n')"
      using "1.prems"(1) 2 a by (subst (asm) extend_tip_loop.simps) (auto simp: TakeByHash_Drop split: if_splits)
    have e: "e \<in> set (orphans p)" "block_addressed (oe_block e)"
      using FindChild_Some [OF 2(2)] "1.prems"(4) by (auto simp: pool_addressed_def list_all_iff)
    have d: "shrunk p ?p1 1" by (rule Drop_shrunk) (use "1.prems"(3) e in \<open>auto simp: pool_ok_def\<close>)
    have st1: "reachable E st1" by (rule reached_AddBlock [OF "1.prems"(2) _ a]) (simp add: e)
    have b: "blocks (g_chain st1) = blocks (g_chain st) @ (if ok then [oe_block e] else [])"
      using AddBlock_extends [OF "1.prems"(2) a] e by simp
    have sub: "set (orphans ?p1) \<subseteq> set (orphans p)" using d by (auto simp: shrunk_def)
    have "\<exists>bs. blocks (g_chain st') = blocks (g_chain st1) @ bs \<and> n' = (if ok then n + 1 else n) + length bs \<and>
        set bs \<subseteq> oe_block ` set (orphans ?p1)"
      using "1.IH" [OF 2 a [symmetric] refl] r st1 shrunk_ok [OF "1.prems"(3,4) d] by (cases ok) (auto simp: TakeByHash_Drop)
    then obtain bs where "blocks (g_chain st') = blocks (g_chain st1) @ bs" "n' = (if ok then n + 1 else n) + length bs"
      "set bs \<subseteq> oe_block ` set (orphans ?p1)" by blast
    then have "blocks (g_chain st') = blocks (g_chain st) @ ((if ok then [oe_block e] else []) @ bs) \<and>
        n' = n + length ((if ok then [oe_block e] else []) @ bs) \<and>
        set ((if ok then [oe_block e] else []) @ bs) \<subseteq> oe_block ` set (orphans p)"
      using b e(1) sub by auto
    then show ?thesis by blast
  qed auto
qed

text \<open>
  A pooled block that the chain would accept on top of its tip does not wait. When the pool holds a
  child of the tip and the chain accepts it, extending the tip attaches it as the very next block, followed
  only by further pooled blocks, reports how many were attached, and stops only when the pool holds no
  child of the new tip.
\<close>

lemma ExtendTip_progress:
  assumes "OrphanPool_ExtendTip E p st = (p', st', attached)"
    and "reachable E st" and "pool_ok E p" and "pool_addressed p"
    and "tip_parent_hash E (g_chain st) = Some tipHash"
    and "OrphanPool_FindChildLocked p (of_nat (Chain_Size (g_chain st))) tipHash = Some e"
    and "Chain_AddBlock E st (oe_block e) = (st1, True)"
  shows "(\<exists>bs. blocks (g_chain st') = blocks (g_chain st) @ oe_block e # bs \<and> attached = Suc (length bs) \<and>
      set bs \<subseteq> oe_block ` set (orphans p)) \<and>
    (\<exists>tipHash'. tip_parent_hash E (g_chain st') = Some tipHash' \<and>
      OrphanPool_FindChildLocked p' (of_nat (Chain_Size (g_chain st'))) tipHash' = None)"
proof -
  let ?p1 = "OrphanPool_DropByHashLocked p (oe_hash e)"
  have l: "extend_tip_loop E ?p1 st1 1 = (p', st', attached)"
    using assms(1,5-7) by (simp add: OrphanPool_ExtendTip_def extend_tip_loop.simps [of E p st] TakeByHash_Drop)
  have e: "e \<in> set (orphans p)" "block_addressed (oe_block e)"
    using FindChild_Some [OF assms(6)] assms(4) by (auto simp: pool_addressed_def list_all_iff)
  have d: "shrunk p ?p1 1" by (rule Drop_shrunk) (use assms(3) e in \<open>auto simp: pool_ok_def\<close>)
  have st1: "reachable E st1" by (rule reached_AddBlock [OF assms(2) _ assms(7)]) simp
  have b: "blocks (g_chain st1) = blocks (g_chain st) @ [oe_block e]" using AddBlock_extends [OF assms(2,7)] e(2) by simp
  note ok = shrunk_ok [OF assms(3,4) d]
  obtain bs where bs: "blocks (g_chain st') = blocks (g_chain st1) @ bs" "attached = 1 + length bs"
      "set bs \<subseteq> oe_block ` set (orphans ?p1)"
    using extend_tip_blocks [OF l st1] ok by blast
  have r: "reachable E st'" using extend_tip_sound [OF l st1] ok by blast
  then have "chain_size (g_chain st') = length (blocks (g_chain st'))" using reachable_inv by (auto simp: chain_inv_def)
  then obtain h where "tip_parent_hash E (g_chain st') = Some h"
    using bs(1) b by (auto simp: tip_parent_hash_def Chain_GetBlockCopy_def vec_get_def Chain_Size_def)
  then show ?thesis using extend_tip_exhausts [OF l] bs b d by (auto simp: shrunk_def)
qed

end
