(* ===== verification/Net_Endpoints.thy ===== *)
theory Net_Endpoints
  imports Skala_Prelude
begin

text \<open>
  Socket addresses and connections (\<^verbatim>\<open>src/nets/net_node.c\<close>, \<^verbatim>\<open>include/tcpd/tcpconnection.h\<close>): the listen
  endpoint behind a connection, the checks that keep one connection per peer, and the selections over the
  connection table. Sockets, threads and locks are not modelled; a connection is a value with an identity
  that stands for its pointer.
\<close>

section \<open>Addresses\<close>

type_synonym u16 = "16 word"

text \<open>An IPv4 or IPv6 address in network byte order with its port, or another address family.\<close>

datatype sockaddr_storage = SA4 "byte list" u16 | SA6 "byte list" u16 | SA_other nat

definition IN6_IS_ADDR_V4MAPPED :: "byte list \<Rightarrow> bool" where
  "IN6_IS_ADDR_V4MAPPED ip \<longleftrightarrow> take 10 ip = replicate 10 0 \<and> take 2 (drop 10 ip) = [0xFF, 0xFF]"

fun NetNode_EndpointEqual :: "sockaddr_storage \<Rightarrow> sockaddr_storage \<Rightarrow> bool" where
  "NetNode_EndpointEqual (SA4 ip port) (SA4 ip' port') = (port = port' \<and> ip = ip')"
| "NetNode_EndpointEqual (SA6 ip port) (SA6 ip' port') = (port = port' \<and> ip = ip')"
| "NetNode_EndpointEqual _ _ = False"

lemma EndpointEqual_iff: "NetNode_EndpointEqual a b \<longleftrightarrow> a = b \<and> (\<forall>f. a \<noteq> SA_other f)"
  by (cases a; cases b) auto

section \<open>Connections\<close>

text \<open>The descriptor a listening or datagram socket ends with: one that cannot be bound is closed.\<close>

definition bound_socket :: "int \<Rightarrow> bool \<Rightarrow> int" where
  "bound_socket fd bound = (if fd \<ge> 0 then (if bound then fd else -1) else -1)"

datatype tcp_connection_role_t = ROLE_INBOUND | ROLE_OUTBOUND

record tcp_connection_t =
  conn_ptr :: nat
  peerAddr :: sockaddr_storage
  role :: tcp_connection_role_t
  peerListenPort :: u16
  peerNodeId :: u64
  disconnectedNotified :: bool
  pinCount :: int

fun sa_port :: "sockaddr_storage \<Rightarrow> u16" where
  "sa_port (SA4 ip port) = port"
| "sa_port (SA6 ip port) = port"
| "sa_port (SA_other f) = 0"

definition Node_ConnListenEndpoint :: "tcp_connection_t \<Rightarrow> sockaddr_storage option" where
  "Node_ConnListenEndpoint conn =
     (let listenP = (if role conn = ROLE_OUTBOUND then sa_port (peerAddr conn) else peerListenPort conn) in
      if listenP = 0 then None
      else case peerAddr conn of
        SA4 ip port \<Rightarrow> Some (SA4 ip listenP)
      | SA6 ip port \<Rightarrow> if IN6_IS_ADDR_V4MAPPED ip then Some (SA4 (drop 12 ip) listenP) else Some (SA6 ip listenP)
      | SA_other f \<Rightarrow> None)"

text \<open>
  \<^verbatim>\<open>extract_v4\<close> and the comparison of peer addresses without ports. Connections come from IPv4 or IPv6
  sockets; the source reads any other family as IPv4, which has no counterpart here (\<open>None\<close> and not equal).
\<close>

fun extract_v4 :: "sockaddr_storage \<Rightarrow> byte list option" where
  "extract_v4 (SA6 ip port) = (if IN6_IS_ADDR_V4MAPPED ip then Some (take 4 (drop 12 ip)) else None)"
| "extract_v4 (SA4 ip port) = Some ip"
| "extract_v4 (SA_other f) = None"

fun sa_ip :: "sockaddr_storage \<Rightarrow> byte list" where
  "sa_ip (SA4 ip port) = ip"
| "sa_ip (SA6 ip port) = ip"
| "sa_ip (SA_other f) = []"

definition TcpConnection_PeerAddrEqual :: "tcp_connection_t \<Rightarrow> tcp_connection_t \<Rightarrow> bool" where
  "TcpConnection_PeerAddrEqual a b =
     (case (extract_v4 (peerAddr a), extract_v4 (peerAddr b)) of
        (Some va, Some vb) \<Rightarrow> va = vb
      | (None, None) \<Rightarrow> sa_ip (peerAddr a) = sa_ip (peerAddr b)
      | _ \<Rightarrow> False)"

section \<open>The connection table\<close>

definition MAX_CONS :: nat where "MAX_CONS = 32"

text \<open>
  The \<^verbatim>\<open>outboundClients\<close> slots with the advertised height of each, and the slots of the server (\<open>None\<close>
  without a server).
\<close>

record net_conns =
  outboundClients :: "(tcp_connection_t option \<times> u64) list"
  serverClients :: "tcp_connection_t option list option"

definition outbound_conns :: "net_conns \<Rightarrow> tcp_connection_t list" where
  "outbound_conns n = List.map_filter fst (outboundClients n)"

definition inbound_conns :: "net_conns \<Rightarrow> tcp_connection_t list" where
  "inbound_conns n = (case serverClients n of None \<Rightarrow> [] | Some cs \<Rightarrow> List.map_filter (\<lambda>c. c) cs)"

definition has_endpoint :: "tcp_connection_t \<Rightarrow> sockaddr_storage \<Rightarrow> bool" where
  "has_endpoint c endpoint = (case Node_ConnListenEndpoint c of None \<Rightarrow> False | Some ep \<Rightarrow> NetNode_EndpointEqual ep endpoint)"

definition Node_HasOutboundTo :: "net_conns \<Rightarrow> sockaddr_storage \<Rightarrow> bool" where
  "Node_HasOutboundTo n endpoint = list_ex (\<lambda>c. has_endpoint c endpoint) (outbound_conns n)"

definition Node_HasOtherInboundFrom :: "net_conns \<Rightarrow> tcp_connection_t \<Rightarrow> sockaddr_storage \<Rightarrow> bool" where
  "Node_HasOtherInboundFrom n self endpoint =
     list_ex (\<lambda>other. \<not> (conn_ptr other = conn_ptr self \<or> disconnectedNotified other) \<and> has_endpoint other endpoint)
       (inbound_conns n)"

definition Node_HasOtherConnectionToNode :: "net_conns \<Rightarrow> tcp_connection_t \<Rightarrow> u64 \<Rightarrow> bool" where
  "Node_HasOtherConnectionToNode n self nid =
     (if nid = 0 then False
      else list_ex (\<lambda>c. \<not> (conn_ptr c = conn_ptr self \<or> disconnectedNotified c) \<and> role c = role self \<and> peerNodeId c = nid)
             (outbound_conns n @ inbound_conns n))"

definition Node_HasLiveConnectionTo :: "net_conns \<Rightarrow> sockaddr_storage \<Rightarrow> u64 \<Rightarrow> tcp_connection_t \<Rightarrow> bool" where
  "Node_HasLiveConnectionTo n endpoint nid exclude =
     list_ex (\<lambda>c. \<not> (conn_ptr c = conn_ptr exclude \<or> disconnectedNotified c) \<and>
                  (nid \<noteq> 0 \<and> peerNodeId c = nid \<or> has_endpoint c endpoint))
       (outbound_conns n @ inbound_conns n)"

fun collect_endpoints :: "nat \<Rightarrow> tcp_connection_t list \<Rightarrow> (sockaddr_storage \<times> u64) list \<Rightarrow> (sockaddr_storage \<times> u64) list" where
  "collect_endpoints maxOut [] out = out"
| "collect_endpoints maxOut (c # cs) out =
     (if length out \<ge> maxOut then out
      else if disconnectedNotified c then collect_endpoints maxOut cs out
      else case Node_ConnListenEndpoint c of
        None \<Rightarrow> collect_endpoints maxOut cs out
      | Some ep \<Rightarrow>
          if list_ex (\<lambda>(e, nid). NetNode_EndpointEqual e ep) out then collect_endpoints maxOut cs out
          else collect_endpoints maxOut cs (out @ [(ep, peerNodeId c)]))"

definition Node_GetPeerEndpoints :: "net_conns \<Rightarrow> nat \<Rightarrow> (sockaddr_storage \<times> u64) list" where
  "Node_GetPeerEndpoints n maxOut =
     (if maxOut = 0 then []
      else collect_endpoints maxOut (inbound_conns n) (collect_endpoints maxOut (outbound_conns n) []))"

fun best_outbound :: "(tcp_connection_t option \<times> u64) list \<Rightarrow> (tcp_connection_t \<times> u64) option \<Rightarrow> (tcp_connection_t \<times> u64) option" where
  "best_outbound [] best = best"
| "best_outbound ((slot, h) # slots) best =
     (case slot of
        None \<Rightarrow> best_outbound slots best
      | Some c \<Rightarrow>
          if disconnectedNotified c then best_outbound slots best
          else case best of
            None \<Rightarrow> best_outbound slots (Some (c, h))
          | Some (b, bestH) \<Rightarrow> best_outbound slots (if h > bestH then Some (c, h) else Some (b, bestH)))"

text \<open>A change to a connection is seen through its slot in the table.\<close>

definition set_slot :: "nat \<Rightarrow> (tcp_connection_t \<Rightarrow> tcp_connection_t) \<Rightarrow> tcp_connection_t option \<Rightarrow> tcp_connection_t option" where
  "set_slot p f slot = (case slot of None \<Rightarrow> None | Some c \<Rightarrow> if conn_ptr c = p then Some (f c) else Some c)"

definition upd_conn :: "nat \<Rightarrow> (tcp_connection_t \<Rightarrow> tcp_connection_t) \<Rightarrow> net_conns \<Rightarrow> net_conns" where
  "upd_conn p f n =
     n\<lparr> outboundClients := map (\<lambda>(slot, h). (set_slot p f slot, h)) (outboundClients n),
        serverClients := map_option (map (set_slot p f)) (serverClients n) \<rparr>"

definition TcpConnection_Pin :: "tcp_connection_t \<Rightarrow> tcp_connection_t" where
  "TcpConnection_Pin c = c\<lparr> pinCount := pinCount c + 1 \<rparr>"

definition TcpConnection_Unpin :: "tcp_connection_t \<Rightarrow> tcp_connection_t" where
  "TcpConnection_Unpin c = c\<lparr> pinCount := pinCount c - 1 \<rparr>"

definition TcpConnection_MarkDisconnectNotified :: "tcp_connection_t \<Rightarrow> tcp_connection_t" where
  "TcpConnection_MarkDisconnectNotified c = c\<lparr> disconnectedNotified := True \<rparr>"

text \<open>The best peer is pinned before the lock is released, so that the reaper cannot free it.\<close>

definition Node_GetBestOutboundPeer :: "net_conns \<Rightarrow> net_conns \<times> (tcp_connection_t \<times> u64) option" where
  "Node_GetBestOutboundPeer n =
     (case best_outbound (outboundClients n) None of
        None \<Rightarrow> (n, None)
      | Some (best, bestH) \<Rightarrow> (upd_conn (conn_ptr best) TcpConnection_Pin n, Some (TcpConnection_Pin best, bestH)))"

text \<open>Slots of disconnected, unpinned connections are freed.\<close>

definition Node_ReapDeadOutbound :: "net_conns \<Rightarrow> net_conns" where
  "Node_ReapDeadOutbound n =
     n\<lparr> outboundClients := map (\<lambda>(slot, h).
          case slot of
            None \<Rightarrow> (None, h)
          | Some c \<Rightarrow> if \<not> disconnectedNotified c \<or> pinCount c \<noteq> 0 then (Some c, h) else (None, 0)) (outboundClients n) \<rparr>"

definition Node_GetClientList :: "net_conns \<Rightarrow> tcp_connection_t list" where
  "Node_GetClientList n = filter (\<lambda>c. \<not> disconnectedNotified c) (outbound_conns n)"

section \<open>Relay targets\<close>

text \<open>The connections a block is relayed to: one per peer, not the peer it came from.\<close>

definition relay_skip :: "tcp_connection_t option \<Rightarrow> tcp_connection_t \<Rightarrow> bool" where
  "relay_skip sourceConn conn =
     (case sourceConn of
        None \<Rightarrow> False
      | Some src \<Rightarrow> conn_ptr conn = conn_ptr src \<or> (peerNodeId src \<noteq> 0 \<and> peerNodeId conn = peerNodeId src) \<or>
                    (peerNodeId src = 0 \<and> TcpConnection_PeerAddrEqual conn src))"

fun relay_targets :: "tcp_connection_t option \<Rightarrow> tcp_connection_t list \<Rightarrow> tcp_connection_t list \<Rightarrow> tcp_connection_t list" where
  "relay_targets sourceConn [] targets = targets"
| "relay_targets sourceConn (conn # conns) targets =
     (if length targets \<ge> MAX_CONS * 2 then targets
      else if disconnectedNotified conn \<or> relay_skip sourceConn conn then relay_targets sourceConn conns targets
      else if list_ex (\<lambda>t. peerNodeId conn \<noteq> 0 \<and> peerNodeId t = peerNodeId conn) targets
      then relay_targets sourceConn conns targets
      else relay_targets sourceConn conns (targets @ [conn]))"

definition broadcast_targets :: "net_conns \<Rightarrow> tcp_connection_t option \<Rightarrow> tcp_connection_t list" where
  "broadcast_targets n sourceConn =
     relay_targets sourceConn (inbound_conns n) (relay_targets sourceConn (outbound_conns n) [])"

section \<open>Lemmas\<close>

lemma relay_targets_sound:
  "relay_targets src conns ts = ts' \<Longrightarrow>
     (\<exists>new. ts' = ts @ new \<and> set new \<subseteq> set conns \<and> (\<forall>c\<in>set new. \<not> disconnectedNotified c \<and> \<not> relay_skip src c)) \<and>
     (distinct (filter (\<lambda>i. i \<noteq> 0) (map peerNodeId ts)) \<longrightarrow> distinct (filter (\<lambda>i. i \<noteq> 0) (map peerNodeId ts'))) \<and>
     (length ts \<le> MAX_CONS * 2 \<longrightarrow> length ts' \<le> MAX_CONS * 2)"
proof (induction src conns ts arbitrary: ts' rule: relay_targets.induct)
  case (2 src conn conns ts)
  consider "ts' = ts" | "relay_targets src conns ts = ts'"
      "length ts < MAX_CONS * 2" "disconnectedNotified conn \<or> relay_skip src conn \<or> list_ex (\<lambda>t. peerNodeId conn \<noteq> 0 \<and> peerNodeId t = peerNodeId conn) ts"
    | "relay_targets src conns (ts @ [conn]) = ts'" "length ts < MAX_CONS * 2" "\<not> (disconnectedNotified conn \<or> relay_skip src conn)"
      "\<not> list_ex (\<lambda>t. peerNodeId conn \<noteq> 0 \<and> peerNodeId t = peerNodeId conn) ts"
    using "2.prems" by (auto split: if_splits)
  then show ?case
  proof cases
    case 1
    then show ?thesis by auto
  next
    case b: 2
    have ih: "(\<exists>new. ts' = ts @ new \<and> set new \<subseteq> set conns \<and> (\<forall>c\<in>set new. \<not> disconnectedNotified c \<and> \<not> relay_skip src c)) \<and>
       (distinct (filter (\<lambda>i. i \<noteq> 0) (map peerNodeId ts)) \<longrightarrow> distinct (filter (\<lambda>i. i \<noteq> 0) (map peerNodeId ts'))) \<and>
       (length ts \<le> MAX_CONS * 2 \<longrightarrow> length ts' \<le> MAX_CONS * 2)"
    proof (cases "disconnectedNotified conn \<or> relay_skip src conn")
      case True
      then show ?thesis by (intro "2.IH"(1) b(1)) (use b(2) in simp_all)
    next
      case False
      then show ?thesis by (intro "2.IH"(2) b(1)) (use b(2,3) in simp_all)
    qed
    then obtain new where "ts' = ts @ new" "set new \<subseteq> set conns" "\<forall>c\<in>set new. \<not> disconnectedNotified c \<and> \<not> relay_skip src c"
      by blast
    moreover have "set conns \<subseteq> set (conn # conns)" by (rule set_subset_Cons)
    ultimately show ?thesis using ih by (meson subset_trans)
  next
    case c: 3
    have ih: "(\<exists>new. ts' = (ts @ [conn]) @ new \<and> set new \<subseteq> set conns \<and> (\<forall>c\<in>set new. \<not> disconnectedNotified c \<and> \<not> relay_skip src c)) \<and>
     (distinct (filter (\<lambda>i. i \<noteq> 0) (map peerNodeId (ts @ [conn]))) \<longrightarrow> distinct (filter (\<lambda>i. i \<noteq> 0) (map peerNodeId ts'))) \<and>
     (length (ts @ [conn]) \<le> MAX_CONS * 2 \<longrightarrow> length ts' \<le> MAX_CONS * 2)"
      using "2.IH"(3) [of ts'] c by auto
    then obtain new where n: "ts' = (ts @ [conn]) @ new" "set new \<subseteq> set conns" "\<forall>c\<in>set new. \<not> disconnectedNotified c \<and> \<not> relay_skip src c"
      by blast
    have "ts' = ts @ (conn # new)" "set (conn # new) \<subseteq> set (conn # conns)" "\<forall>c\<in>set (conn # new). \<not> disconnectedNotified c \<and> \<not> relay_skip src c"
      using n c(3) by auto
    moreover have "distinct (filter (\<lambda>i. i \<noteq> 0) (map peerNodeId ts)) \<longrightarrow> distinct (filter (\<lambda>i. i \<noteq> 0) (map peerNodeId (ts @ [conn])))"
      using c(4) by (cases "peerNodeId conn = 0") (auto simp: list_ex_iff)
    then have "distinct (filter (\<lambda>i. i \<noteq> 0) (map peerNodeId ts)) \<longrightarrow> distinct (filter (\<lambda>i. i \<noteq> 0) (map peerNodeId ts'))"
      using ih by blast
    ultimately show ?thesis using ih c(2) by (metis length_append_singleton less_eq_Suc_le)
  qed
qed simp

lemma relay_targets_mono: "set ts \<subseteq> set (relay_targets src conns ts)"
  by (induction src conns ts rule: relay_targets.induct) auto

lemma relay_targets_length: "length (relay_targets src conns ts) \<le> length ts + length conns"
  by (induction src conns ts rule: relay_targets.induct) auto

lemma relay_targets_complete:
  "length ts + length conns \<le> MAX_CONS * 2 \<Longrightarrow> c \<in> set conns \<Longrightarrow> \<not> disconnectedNotified c \<Longrightarrow> \<not> relay_skip src c \<Longrightarrow>
     \<exists>t\<in>set (relay_targets src conns ts). t = c \<or> peerNodeId c \<noteq> 0 \<and> peerNodeId t = peerNodeId c"
proof (induction src conns ts rule: relay_targets.induct)
  case (2 src conn conns ts)
  have room: "\<not> MAX_CONS * 2 \<le> length ts" using "2.prems"(1) by simp
  show ?case
  proof (cases "disconnectedNotified conn \<or> relay_skip src conn")
    case True
    then show ?thesis using 2 room by auto
  next
    case live: False
    show ?thesis
    proof (cases "list_ex (\<lambda>t. peerNodeId conn \<noteq> 0 \<and> peerNodeId t = peerNodeId conn) ts")
      case True
      have r: "relay_targets src (conn # conns) ts = relay_targets src conns ts" using live True room by simp
      show ?thesis
      proof (cases "c = conn")
        case True
        then show ?thesis
          using \<open>list_ex _ ts\<close> relay_targets_mono [of ts src conns] unfolding r by (auto simp: list_ex_iff)
      next
        case False
        then show ?thesis using "2.IH"(2) [OF room live True] "2.prems" unfolding r by auto
      qed
    next
      case False
      have r: "relay_targets src (conn # conns) ts = relay_targets src conns (ts @ [conn])" using live False room by simp
      show ?thesis
      proof (cases "c = conn")
        case True
        then show ?thesis using relay_targets_mono [of "ts @ [conn]" src conns] unfolding r by auto
      next
        case other: False
        then show ?thesis using "2.IH"(3) [OF room live False] "2.prems" unfolding r by auto
      qed
    qed
  qed
qed simp

section \<open>Property\<close>

text \<open>
  A block is relayed once to every peer. The connections chosen for a relay are live connections of the
  table, none of them leads back to the peer the block came from, and no two of them belong to the same
  node; and every live connection that does not lead back is chosen itself or through another connection to
  the same node, so that no peer is left out.
\<close>

lemma relay_once_per_peer:
  assumes "length (outbound_conns n) + length (inbound_conns n) \<le> 64"
  shows "set (broadcast_targets n src) \<subseteq> {c \<in> set (outbound_conns n @ inbound_conns n). \<not> disconnectedNotified c \<and> \<not> relay_skip src c} \<and>
    distinct (filter (\<lambda>i. i \<noteq> 0) (map peerNodeId (broadcast_targets n src))) \<and>
    (\<forall>c\<in>set (outbound_conns n @ inbound_conns n). disconnectedNotified c \<or> relay_skip src c \<or>
       (\<exists>t\<in>set (broadcast_targets n src). t = c \<or> peerNodeId c \<noteq> 0 \<and> peerNodeId t = peerNodeId c))"
proof -
  let ?o = "relay_targets src (outbound_conns n) []"
  obtain new1 where o: "?o = new1" "set new1 \<subseteq> set (outbound_conns n)" "\<forall>c\<in>set new1. \<not> disconnectedNotified c \<and> \<not> relay_skip src c"
    "distinct (filter (\<lambda>i. i \<noteq> 0) (map peerNodeId ?o))"
    using relay_targets_sound [of src "outbound_conns n" "[]" ?o] by auto
  obtain new2 where i: "broadcast_targets n src = ?o @ new2" "set new2 \<subseteq> set (inbound_conns n)"
    "\<forall>c\<in>set new2. \<not> disconnectedNotified c \<and> \<not> relay_skip src c"
    "distinct (filter (\<lambda>i. i \<noteq> 0) (map peerNodeId (broadcast_targets n src)))"
    using relay_targets_sound [of src "inbound_conns n" ?o "broadcast_targets n src"] o(4) by (auto simp: broadcast_targets_def)
  have len: "length ?o \<le> length (outbound_conns n)" by (rule relay_targets_length [of src "outbound_conns n" "[]", simplified])
  have out: "\<exists>t\<in>set (broadcast_targets n src). t = c \<or> peerNodeId c \<noteq> 0 \<and> peerNodeId t = peerNodeId c"
    if "c \<in> set (outbound_conns n)" "\<not> disconnectedNotified c" "\<not> relay_skip src c" for c
    using relay_targets_complete [of "[]" "outbound_conns n" c src] that assms i(1) by (auto simp: MAX_CONS_def)
  have inb: "\<exists>t\<in>set (broadcast_targets n src). t = c \<or> peerNodeId c \<noteq> 0 \<and> peerNodeId t = peerNodeId c"
    if "c \<in> set (inbound_conns n)" "\<not> disconnectedNotified c" "\<not> relay_skip src c" for c
    using relay_targets_complete [of ?o "inbound_conns n" c src] that assms len by (simp add: MAX_CONS_def broadcast_targets_def)
  show ?thesis using o i out inb by auto
qed

definition two_ways :: net_conns where
  "two_ways =
     (let c = (\<lambda>p r nid. \<lparr> conn_ptr = p, peerAddr = SA4 [10, 0, 0, 1] 9000, role = r, peerListenPort = 9000, peerNodeId = nid,
                          disconnectedNotified = False, pinCount = 0 \<rparr>)
      in \<lparr> outboundClients = [(Some (c 1 ROLE_OUTBOUND 3), 0), (None, 0)],
           serverClients = Some [Some (c 2 ROLE_INBOUND 3), Some (c 3 ROLE_INBOUND 4)] \<rparr>)"

end
