(* ===== verification/Node_Discovery.thy ===== *)
theory Node_Discovery
  imports Net_Endpoints
begin

text \<open>
  The table of known peers (\<^verbatim>\<open>src/nets/nodediscovery.c\<close>): learning endpoints from handshakes and from other
  peers, measuring their latency, and choosing whom to query and whom to dial on every tick. The clock, the
  local node identity and the interface addresses are arguments; packets and dials that a call causes are
  part of its result.
\<close>

section \<open>State\<close>

definition DISCOVERY_FANOUT :: nat where "DISCOVERY_FANOUT = 2"
definition DISCOVERY_MAX_HOPS :: nat where "DISCOVERY_MAX_HOPS = 3"
definition DISCOVERY_TARGET_CONNECTIONS :: nat where "DISCOVERY_TARGET_CONNECTIONS = 8"
definition DISCOVERY_MAX_KNOWN_PEERS :: nat where "DISCOVERY_MAX_KNOWN_PEERS = 256"
definition DISCOVERY_PEERS_RESPONSE_CAP :: nat where "DISCOVERY_PEERS_RESPONSE_CAP = 8"
definition DISCOVERY_MAX_PINGS_PER_TICK :: nat where "DISCOVERY_MAX_PINGS_PER_TICK = 8"
definition DISCOVERY_PING_TIMEOUT_MS :: u64 where "DISCOVERY_PING_TIMEOUT_MS = 5000"
definition DISCOVERY_PING_REFRESH_MS :: u64 where "DISCOVERY_PING_REFRESH_MS = 60000"
definition DISCOVERY_QUERY_INTERVAL_MS :: u64 where "DISCOVERY_QUERY_INTERVAL_MS = 15000"
definition DISCOVERY_CONNECT_RETRY_MS :: u64 where "DISCOVERY_CONNECT_RETRY_MS = 30000"
definition DISCOVERY_WIRE_ENTRY_SIZE :: nat where "DISCOVERY_WIRE_ENTRY_SIZE = 19"

datatype discovery_state_t = STATE_NEW | STATE_PINGED | STATE_REACHABLE | STATE_CONNECTED | STATE_UNREACHABLE

record discovered_peer_t =
  dp_addr :: sockaddr_storage
  pingMs :: u64
  dp_nodeId :: u64
  hop :: u32
  dp_state :: discovery_state_t
  pingPending :: bool
  lastPingMs :: u64
  lastQueryMs :: u64

record discovery_attempt_t =
  da_addr :: sockaddr_storage
  da_lastMs :: u64

record node_discovery =
  peers :: "discovered_peer_t list"
  selfEndpoints :: "sockaddr_storage list"
  connectAttempts :: "discovery_attempt_t list"

section \<open>Addresses\<close>

fun Discovery_AddrEqual :: "sockaddr_storage \<Rightarrow> sockaddr_storage \<Rightarrow> bool" where
  "Discovery_AddrEqual (SA4 ip port) (SA4 ip' port') = (port = port' \<and> ip = ip')"
| "Discovery_AddrEqual (SA6 ip port) (SA6 ip' port') = (port = port' \<and> ip = ip')"
| "Discovery_AddrEqual _ _ = False"

text \<open>The predicates of \<^verbatim>\<open>netinet/in.h\<close> on the sixteen bytes of an IPv6 address.\<close>

definition ip6_unusable :: "byte list \<Rightarrow> bool" where
  "ip6_unusable ip \<longleftrightarrow> ip = replicate 16 0 \<or> ip ! 0 = 0xFF \<or>
     (ip ! 0 = 0xFE \<and> (ip ! 1 AND 0xC0) = 0x80) \<or> (ip ! 0 = 0xFE \<and> (ip ! 1 AND 0xC0) = 0xC0)"

fun Discovery_IsUsableAddr :: "sockaddr_storage \<Rightarrow> bool" where
  "Discovery_IsUsableAddr (SA4 ip port) =
     (let host = of_nat (be_val ip) :: u32 in
      if port = 0 then False
      else if host = 0 \<or> host = 0xFFFFFFFF then False
      else if drop_bit 28 host = 0xE then False
      else if host AND 0xFFFF0000 = 0xA9FE0000 then False
      else True)"
| "Discovery_IsUsableAddr (SA6 ip port) = (if port = 0 then False else \<not> ip6_unusable ip)"
| "Discovery_IsUsableAddr (SA_other f) = False"

fun Discovery_NormaliseAddr :: "sockaddr_storage \<Rightarrow> sockaddr_storage" where
  "Discovery_NormaliseAddr (SA6 ip port) = (if IN6_IS_ADDR_V4MAPPED ip then SA4 (drop 12 ip) port else SA6 ip port)"
| "Discovery_NormaliseAddr a = a"

fun Discovery_AddrToWire :: "sockaddr_storage \<Rightarrow> byte list option" where
  "Discovery_AddrToWire (SA4 ip port) = Some ([4] @ ip @ replicate 12 0 @ le_bytes 2 (unat port))"
| "Discovery_AddrToWire (SA6 ip port) = Some ([6] @ ip @ le_bytes 2 (unat port))"
| "Discovery_AddrToWire (SA_other f) = None"

definition Discovery_WireToAddr :: "byte list \<Rightarrow> sockaddr_storage option" where
  "Discovery_WireToAddr w =
     (let port = of_nat (le_val (take 2 (drop 17 w))) :: u16 in
      if w ! 0 = 4 then (if port \<noteq> 0 then Some (SA4 (take 4 (drop 1 w)) port) else None)
      else if w ! 0 = 6 then (if port \<noteq> 0 then Some (Discovery_NormaliseAddr (SA6 (take 16 (drop 1 w)) port)) else None)
      else None)"

section \<open>Table operations\<close>

definition Discovery_IsSelfUnlocked :: "node_discovery \<Rightarrow> sockaddr_storage \<Rightarrow> bool" where
  "Discovery_IsSelfUnlocked disc addr = list_ex (\<lambda>self. Discovery_AddrEqual self addr) (selfEndpoints disc)"

definition Discovery_AddSelfUnlocked :: "node_discovery \<Rightarrow> sockaddr_storage \<Rightarrow> node_discovery" where
  "Discovery_AddSelfUnlocked disc addr =
     (if Discovery_IsSelfUnlocked disc addr then disc
      else disc\<lparr> selfEndpoints := vec_push_back (selfEndpoints disc) addr \<rparr>)"

fun Discovery_SeedSelfEndpoints :: "u16 \<Rightarrow> sockaddr_storage list \<Rightarrow> node_discovery \<Rightarrow> node_discovery" where
  "Discovery_SeedSelfEndpoints listenPort [] disc = disc"
| "Discovery_SeedSelfEndpoints listenPort (a # as) disc =
     (case a of
        SA4 ip port \<Rightarrow> Discovery_SeedSelfEndpoints listenPort as
          (Discovery_AddSelfUnlocked disc (Discovery_NormaliseAddr (SA4 ip listenPort)))
      | SA6 ip port \<Rightarrow> Discovery_SeedSelfEndpoints listenPort as
          (Discovery_AddSelfUnlocked disc (Discovery_NormaliseAddr (SA6 ip listenPort)))
      | SA_other f \<Rightarrow> Discovery_SeedSelfEndpoints listenPort as disc)"

definition NodeDiscovery_Create :: "u16 \<Rightarrow> sockaddr_storage list \<Rightarrow> node_discovery" where
  "NodeDiscovery_Create listenPort ifaddrs =
     Discovery_SeedSelfEndpoints listenPort ifaddrs \<lparr> peers = [], selfEndpoints = [], connectAttempts = [] \<rparr>"

fun find_peer :: "discovered_peer_t list \<Rightarrow> sockaddr_storage \<Rightarrow> nat option" where
  "find_peer [] addr = None"
| "find_peer (p # ps) addr = (if Discovery_AddrEqual (dp_addr p) addr then Some 0 else map_option Suc (find_peer ps addr))"

text \<open>The pointer to a table entry is its index.\<close>

definition Discovery_FindPtr :: "node_discovery \<Rightarrow> sockaddr_storage \<Rightarrow> nat option" where
  "Discovery_FindPtr disc addr = find_peer (peers disc) addr"

definition upd_peer :: "node_discovery \<Rightarrow> nat \<Rightarrow> (discovered_peer_t \<Rightarrow> discovered_peer_t) \<Rightarrow> node_discovery" where
  "upd_peer disc i f = disc\<lparr> peers := (peers disc)[i := f (peers disc ! i)] \<rparr>"

definition new_peer :: "sockaddr_storage \<Rightarrow> u32 \<Rightarrow> discovered_peer_t" where
  "new_peer addr h = \<lparr> dp_addr = addr, pingMs = UINT64_MAX, dp_nodeId = 0, hop = h, dp_state = STATE_NEW,
     pingPending = False, lastPingMs = 0, lastQueryMs = 0 \<rparr>"

definition Discovery_Upsert :: "node_discovery \<Rightarrow> sockaddr_storage \<Rightarrow> u32 \<Rightarrow> node_discovery \<times> nat option" where
  "Discovery_Upsert disc addr h =
     (if \<not> Discovery_IsUsableAddr addr then (disc, None)
      else if Discovery_IsSelfUnlocked disc addr then (disc, None)
      else case Discovery_FindPtr disc addr of
        Some i \<Rightarrow> (if h < hop (peers disc ! i) then upd_peer disc i (\<lambda>p. p\<lparr> hop := h \<rparr>) else disc, Some i)
      | None \<Rightarrow>
          if length (peers disc) \<ge> DISCOVERY_MAX_KNOWN_PEERS then (disc, None)
          else (disc\<lparr> peers := vec_push_back (peers disc) (new_peer addr h) \<rparr>, Some (length (peers disc))))"

definition Discovery_ConnectCooledDown :: "node_discovery \<Rightarrow> sockaddr_storage \<Rightarrow> u64 \<Rightarrow> bool" where
  "Discovery_ConnectCooledDown disc addr now =
     (case List.find (\<lambda>a. Discovery_AddrEqual (da_addr a) addr) (connectAttempts disc) of
        Some a \<Rightarrow> now - da_lastMs a \<ge> DISCOVERY_CONNECT_RETRY_MS
      | None \<Rightarrow> True)"

text \<open>\<open>Inl\<close> is the record of the same address, \<open>Inr\<close> the stalest one.\<close>

fun scan_attempts :: "discovery_attempt_t list \<Rightarrow> sockaddr_storage \<Rightarrow> nat \<Rightarrow> nat \<Rightarrow> u64 \<Rightarrow> nat + nat" where
  "scan_attempts [] addr i oldestIdx oldestMs = Inr oldestIdx"
| "scan_attempts (a # as) addr i oldestIdx oldestMs =
     (if Discovery_AddrEqual (da_addr a) addr then Inl i
      else if da_lastMs a < oldestMs then scan_attempts as addr (Suc i) i (da_lastMs a)
      else scan_attempts as addr (Suc i) oldestIdx oldestMs)"

definition Discovery_NoteConnectAttempt :: "node_discovery \<Rightarrow> sockaddr_storage \<Rightarrow> u64 \<Rightarrow> node_discovery" where
  "Discovery_NoteConnectAttempt disc addr now =
     (let as = connectAttempts disc; n = length as in
      case scan_attempts as addr 0 0 UINT64_MAX of
        Inl i \<Rightarrow> disc\<lparr> connectAttempts := as[i := (as ! i)\<lparr> da_lastMs := now \<rparr>] \<rparr>
      | Inr oldestIdx \<Rightarrow>
          if n \<ge> DISCOVERY_MAX_KNOWN_PEERS
          then disc\<lparr> connectAttempts := as[oldestIdx := \<lparr> da_addr = addr, da_lastMs = now \<rparr>] \<rparr>
          else disc\<lparr> connectAttempts := vec_push_back as \<lparr> da_addr = addr, da_lastMs = now \<rparr> \<rparr>)"

definition Discovery_RemoveUnlocked :: "node_discovery \<Rightarrow> sockaddr_storage \<Rightarrow> node_discovery" where
  "Discovery_RemoveUnlocked disc addr =
     (case find_peer (peers disc) addr of
        None \<Rightarrow> disc
      | Some i \<Rightarrow> disc\<lparr> peers := vec_pop_at (peers disc) i \<rparr>)"

section \<open>Callbacks\<close>

definition NodeDiscovery_OnPong :: "node_discovery \<Rightarrow> sockaddr_storage \<Rightarrow> u64 \<Rightarrow> node_discovery" where
  "NodeDiscovery_OnPong disc from rttMs =
     (case Discovery_FindPtr disc from of
        None \<Rightarrow> disc
      | Some i \<Rightarrow>
          if pingPending (peers disc ! i)
          then upd_peer disc i (\<lambda>p. p\<lparr> pingMs := rttMs, pingPending := False,
                 dp_state := (if dp_state p = STATE_PINGED then STATE_REACHABLE else dp_state p) \<rparr>)
          else disc)"

definition NodeDiscovery_OnPingTimeout :: "node_discovery \<Rightarrow> sockaddr_storage \<Rightarrow> node_discovery" where
  "NodeDiscovery_OnPingTimeout disc dest =
     (case Discovery_FindPtr disc dest of
        None \<Rightarrow> disc
      | Some i \<Rightarrow>
          if pingPending (peers disc ! i)
          then upd_peer disc i (\<lambda>p. p\<lparr> pingPending := False,
                 dp_state := (if dp_state p = STATE_PINGED then STATE_UNREACHABLE else dp_state p) \<rparr>)
          else disc)"

definition NodeDiscovery_RemovePeer :: "node_discovery \<Rightarrow> sockaddr_storage \<Rightarrow> node_discovery" where
  "NodeDiscovery_RemovePeer disc endpoint =
     (case find_peer (peers disc) endpoint of
        None \<Rightarrow> disc
      | Some i \<Rightarrow> disc\<lparr> peers := vec_pop_at (peers disc) i \<rparr>)"

definition NodeDiscovery_MarkSelfEndpoint :: "node_discovery \<Rightarrow> sockaddr_storage \<Rightarrow> node_discovery" where
  "NodeDiscovery_MarkSelfEndpoint disc endpoint =
     Discovery_RemoveUnlocked (Discovery_AddSelfUnlocked disc endpoint) endpoint"

definition NodeDiscovery_IsSelfEndpoint :: "node_discovery \<Rightarrow> sockaddr_storage \<Rightarrow> bool" where
  "NodeDiscovery_IsSelfEndpoint disc endpoint = Discovery_IsSelfUnlocked disc endpoint"

definition NodeDiscovery_NoteIdentity :: "u64 \<Rightarrow> node_discovery \<Rightarrow> sockaddr_storage \<Rightarrow> u64 \<Rightarrow> node_discovery" where
  "NodeDiscovery_NoteIdentity localNodeId disc endpoint nid =
     (if nid = 0 then disc
      else if nid = localNodeId then Discovery_RemoveUnlocked (Discovery_AddSelfUnlocked disc endpoint) endpoint
      else case Discovery_Upsert disc endpoint 0 of
        (disc', None) \<Rightarrow> disc'
      | (disc', Some i) \<Rightarrow> upd_peer disc' i (\<lambda>p. p\<lparr> dp_nodeId := nid \<rparr>))"

section \<open>Peer exchange\<close>

fun peers_entries :: "(sockaddr_storage \<times> u64) list \<Rightarrow> sockaddr_storage option \<Rightarrow> u64 \<Rightarrow> nat \<Rightarrow> byte list list" where
  "peers_entries [] reqEndpoint reqNodeId room = []"
| "peers_entries ((a, nid) # as) reqEndpoint reqNodeId room =
     (if room = 0 then []
      else if (case reqEndpoint of None \<Rightarrow> False | Some r \<Rightarrow> Discovery_AddrEqual a r)
      then peers_entries as reqEndpoint reqNodeId room
      else if reqNodeId \<noteq> 0 \<and> nid = reqNodeId then peers_entries as reqEndpoint reqNodeId room
      else case Discovery_AddrToWire a of
        None \<Rightarrow> peers_entries as reqEndpoint reqNodeId room
      | Some entry \<Rightarrow> entry # peers_entries as reqEndpoint reqNodeId (room - 1))"

text \<open>\<open>r\<close> is the reading of \<^verbatim>\<open>random_four_byte\<close>; the result is the payload of the PEERS reply.\<close>

definition NodeDiscovery_OnGetPeers :: "net_conns \<Rightarrow> tcp_connection_t \<Rightarrow> u32 \<Rightarrow> byte list" where
  "NodeDiscovery_OnGetPeers n fromConn r =
     (let all = Node_GetPeerEndpoints n (MAX_CONS * 2);
          total = length all;
          startIdx = (if total \<noteq> 0 then unat r mod total else 0);
          entries = peers_entries (drop startIdx all @ take startIdx all) (Node_ConnListenEndpoint fromConn)
                      (peerNodeId fromConn) DISCOVERY_PEERS_RESPONSE_CAP
      in le_bytes 2 (length entries) @ concat entries)"

fun fold_peers :: "byte list \<Rightarrow> nat \<Rightarrow> nat \<Rightarrow> u32 \<Rightarrow> node_discovery \<Rightarrow> node_discovery" where
  "fold_peers payload 0 added newHop disc = disc"
| "fold_peers payload (Suc left) added newHop disc =
     (if added \<ge> DISCOVERY_FANOUT then disc
      else case Discovery_WireToAddr (take DISCOVERY_WIRE_ENTRY_SIZE payload) of
        None \<Rightarrow> fold_peers (drop DISCOVERY_WIRE_ENTRY_SIZE payload) left added newHop disc
      | Some ep \<Rightarrow>
          if Discovery_FindPtr disc ep \<noteq> None
          then fold_peers (drop DISCOVERY_WIRE_ENTRY_SIZE payload) left added newHop disc
          else case Discovery_Upsert disc ep newHop of
            (disc', r) \<Rightarrow> fold_peers (drop DISCOVERY_WIRE_ENTRY_SIZE payload) left
                            (if r \<noteq> None then added + 1 else added) newHop disc')"

definition NodeDiscovery_OnPeersReceived :: "node_discovery \<Rightarrow> tcp_connection_t option \<Rightarrow> byte list \<Rightarrow> node_discovery" where
  "NodeDiscovery_OnPeersReceived disc fromConn payload =
     (if length payload < 2 then disc
      else let count = le_val (take 2 payload) in
        if length payload < 2 + count * DISCOVERY_WIRE_ENTRY_SIZE then disc
        else let srcHop = (case fromConn of
                             None \<Rightarrow> 0
                           | Some c \<Rightarrow>
                               (case Node_ConnListenEndpoint c of
                                  None \<Rightarrow> 0
                                | Some ep \<Rightarrow> (case Discovery_FindPtr disc ep of None \<Rightarrow> 0 | Some i \<Rightarrow> hop (peers disc ! i))));
                 newHop = srcHop + 1
             in if unat newHop \<le> DISCOVERY_MAX_HOPS then fold_peers (drop 2 payload) count 0 newHop disc else disc)"

section \<open>The tick\<close>

text \<open>Step 1: connected peers are known at distance zero; entries no longer connected are demoted.\<close>

fun seed_connected :: "(sockaddr_storage \<times> u64) list \<Rightarrow> node_discovery \<Rightarrow> node_discovery" where
  "seed_connected [] disc = disc"
| "seed_connected ((ep, nid) # eps) disc =
     (case Discovery_Upsert disc ep 0 of
        (disc', None) \<Rightarrow> seed_connected eps disc'
      | (disc', Some i) \<Rightarrow>
          seed_connected eps
            (upd_peer disc' i (\<lambda>p. p\<lparr> hop := 0, dp_state := STATE_CONNECTED,
                                      dp_nodeId := (if nid \<noteq> 0 then nid else dp_nodeId p) \<rparr>)))"

definition demote :: "(sockaddr_storage \<times> u64) list \<Rightarrow> discovered_peer_t \<Rightarrow> discovered_peer_t" where
  "demote outEps p =
     (if dp_state p \<noteq> STATE_CONNECTED then p
      else if list_ex (\<lambda>(ep, nid). Discovery_AddrEqual (dp_addr p) ep) outEps then p
      else p\<lparr> dp_state := (if pingMs p \<noteq> UINT64_MAX then STATE_REACHABLE else STATE_NEW) \<rparr>)"

text \<open>Step 2: ping new and stale entries; the result names the addresses pinged.\<close>

fun ping_loop :: "u64 \<Rightarrow> nat \<Rightarrow> discovered_peer_t list \<Rightarrow> discovered_peer_t list \<times> sockaddr_storage list" where
  "ping_loop now pings [] = ([], [])"
| "ping_loop now pings (p # ps) =
     (if pings \<ge> DISCOVERY_MAX_PINGS_PER_TICK then (p # ps, [])
      else if \<not> pingPending p \<and>
              (dp_state p = STATE_NEW \<or>
               dp_state p = STATE_REACHABLE \<and> now - lastPingMs p > DISCOVERY_PING_REFRESH_MS)
      then (let (ps', sent) = ping_loop now (pings + 1) ps in
            (p\<lparr> pingPending := True, lastPingMs := now,
                dp_state := (if dp_state p = STATE_NEW then STATE_PINGED else dp_state p) \<rparr> # ps',
             dp_addr p # sent))
      else (let (ps', sent) = ping_loop now pings ps in (p # ps', sent)))"

text \<open>Step 3: the timeout backstop.\<close>

definition ping_timeout :: "u64 \<Rightarrow> discovered_peer_t \<Rightarrow> discovered_peer_t" where
  "ping_timeout now p =
     (if dp_state p = STATE_PINGED \<and> pingPending p \<and> now - lastPingMs p > DISCOVERY_PING_TIMEOUT_MS
      then p\<lparr> pingPending := False, dp_state := STATE_UNREACHABLE \<rparr> else p)"

text \<open>Step 4: query connected peers, nearest first. The best candidate is a connection and its table index.\<close>

fun best_query :: "u64 \<Rightarrow> node_discovery \<Rightarrow> tcp_connection_t list \<Rightarrow> (tcp_connection_t \<times> nat) option \<Rightarrow> u64 \<Rightarrow>
    (tcp_connection_t \<times> nat) option" where
  "best_query now disc [] best bestPing = best"
| "best_query now disc (c # cs) best bestPing =
     (case (case Node_ConnListenEndpoint c of None \<Rightarrow> None | Some ep \<Rightarrow> Discovery_FindPtr disc ep) of
        None \<Rightarrow> best_query now disc cs best bestPing
      | Some i \<Rightarrow>
          (let p = peers disc ! i in
           if unat (hop p) \<ge> DISCOVERY_MAX_HOPS then best_query now disc cs best bestPing
           else if lastQueryMs p \<noteq> 0 \<and> now - lastQueryMs p < DISCOVERY_QUERY_INTERVAL_MS
           then best_query now disc cs best bestPing
           else if best = None \<or> pingMs p < bestPing then best_query now disc cs (Some (c, i)) (pingMs p)
           else best_query now disc cs best bestPing))"

fun query_loop :: "u64 \<Rightarrow> tcp_connection_t list \<Rightarrow> nat \<Rightarrow> node_discovery \<Rightarrow> node_discovery \<times> tcp_connection_t list" where
  "query_loop now outConns 0 disc = (disc, [])"
| "query_loop now outConns (Suc room) disc =
     (case best_query now disc outConns None UINT64_MAX of
        None \<Rightarrow> (disc, [])
      | Some (c, i) \<Rightarrow>
          (let (disc', toQuery) = query_loop now outConns room (upd_peer disc i (\<lambda>p. p\<lparr> lastQueryMs := now \<rparr>))
           in (disc', c # toQuery)))"

text \<open>Step 5: dial reachable, unconnected, cooled-down peers, nearest first.\<close>

definition dialable :: "u64 \<Rightarrow> (sockaddr_storage \<times> u64) list \<Rightarrow> node_discovery \<Rightarrow> discovered_peer_t \<Rightarrow> bool" where
  "dialable now outEps disc p \<longleftrightarrow>
     dp_state p = STATE_REACHABLE \<and> Discovery_ConnectCooledDown disc (dp_addr p) now \<and>
     \<not> list_ex (\<lambda>(ep, nid). Discovery_AddrEqual (dp_addr p) ep) outEps \<and>
     \<not> (dp_nodeId p \<noteq> 0 \<and> list_ex (\<lambda>(ep, nid). nid = dp_nodeId p) outEps)"

fun best_dial :: "discovered_peer_t list \<Rightarrow> discovered_peer_t option \<Rightarrow> discovered_peer_t option" where
  "best_dial [] best = best"
| "best_dial (p # ps) best =
     (case best of
        None \<Rightarrow> best_dial ps (Some p)
      | Some b \<Rightarrow> if pingMs p < pingMs b then best_dial ps (Some p) else best_dial ps (Some b))"

fun dial_loop :: "u64 \<Rightarrow> (sockaddr_storage \<times> u64) list \<Rightarrow> nat \<Rightarrow> nat \<Rightarrow> node_discovery \<Rightarrow> node_discovery \<times> sockaddr_storage list" where
  "dial_loop now outEps 0 dialed disc = (disc, [])"
| "dial_loop now outEps (Suc slots) dialed disc =
     (if dialed \<ge> MAX_CONS then (disc, [])
      else case best_dial (filter (dialable now outEps disc) (peers disc)) None of
        None \<Rightarrow> (disc, [])
      | Some best \<Rightarrow>
          (let disc1 = Discovery_NoteConnectAttempt disc (dp_addr best) now;
               sends = sa_port (dp_addr best) \<noteq> 0;
               (disc', toConnect) = dial_loop now outEps slots (if sends then dialed + 1 else dialed) disc1
           in (disc', if sends then dp_addr best # toConnect else toConnect)))"

record tick_actions =
  ta_pings :: "sockaddr_storage list"
  ta_queries :: "tcp_connection_t list"
  ta_dials :: "sockaddr_storage list"

definition NodeDiscovery_Iterate :: "u64 \<Rightarrow> net_conns \<Rightarrow> node_discovery \<Rightarrow> node_discovery \<times> tick_actions" where
  "NodeDiscovery_Iterate now n disc =
     (let outConns = Node_GetClientList n;
          outEps = List.map_filter (\<lambda>c. map_option (\<lambda>ep. (ep, peerNodeId c)) (Node_ConnListenEndpoint c)) outConns;
          d1 = seed_connected outEps disc;
          d2 = d1\<lparr> peers := map (demote outEps) (peers d1) \<rparr>;
          (ps, pinged) = ping_loop now 0 (peers d2);
          d3 = d2\<lparr> peers := map (ping_timeout now) ps \<rparr>;
          (d4, toQuery) = query_loop now outConns DISCOVERY_FANOUT d3;
          (d5, toConnect) =
            (if length outConns < DISCOVERY_TARGET_CONNECTIONS
             then dial_loop now outEps (DISCOVERY_TARGET_CONNECTIONS - length outConns) 0 d4 else (d4, []))
      in (d5, \<lparr> ta_pings = pinged, ta_queries = toQuery, ta_dials = toConnect \<rparr>))"

section \<open>The table invariant\<close>

lemma AddrEqual_iff: "Discovery_AddrEqual a b \<longleftrightarrow> a = b \<and> (\<forall>f. a \<noteq> SA_other f)"
  by (cases a; cases b) auto

definition peer_ok :: "node_discovery \<Rightarrow> discovered_peer_t \<Rightarrow> bool" where
  "peer_ok disc p \<longleftrightarrow> Discovery_IsUsableAddr (dp_addr p) \<and> Discovery_NormaliseAddr (dp_addr p) = dp_addr p \<and>
     dp_addr p \<notin> set (selfEndpoints disc) \<and> unat (hop p) \<le> DISCOVERY_MAX_HOPS"

definition disc_ok :: "node_discovery \<Rightarrow> bool" where
  "disc_ok disc \<longleftrightarrow> distinct (map dp_addr (peers disc)) \<and> list_all (peer_ok disc) (peers disc) \<and>
     length (peers disc) \<le> DISCOVERY_MAX_KNOWN_PEERS \<and> length (connectAttempts disc) \<le> DISCOVERY_MAX_KNOWN_PEERS"

lemma usable_not_other: "Discovery_IsUsableAddr a \<Longrightarrow> a \<noteq> SA_other f"
  by auto

lemma find_peer_Some: "find_peer ps a = Some i \<Longrightarrow> i < length ps \<and> dp_addr (ps ! i) = a"
  by (induction ps arbitrary: i) (auto simp: AddrEqual_iff split: if_splits)

lemma find_peer_None: "find_peer ps a = None \<Longrightarrow> (\<forall>f. a \<noteq> SA_other f) \<Longrightarrow> a \<notin> dp_addr ` set ps"
  by (induction ps) (auto simp: AddrEqual_iff split: if_splits)

text \<open>Changing entries in place keeps the invariant when the address is kept and the hop stays in range.\<close>

lemma disc_ok_update:
  assumes "disc_ok disc" "map dp_addr ps = map dp_addr (peers disc)" "\<forall>p\<in>set ps. unat (hop p) \<le> DISCOVERY_MAX_HOPS"
  shows "disc_ok (disc\<lparr> peers := ps \<rparr>)"
proof -
  have "peer_ok (disc\<lparr> peers := ps \<rparr>) p" if p: "p \<in> set ps" for p
  proof -
    have "dp_addr p \<in> dp_addr ` set (peers disc)" using p assms(2) by (metis image_eqI set_map)
    then obtain q where "q \<in> set (peers disc)" "dp_addr q = dp_addr p" by auto
    then show ?thesis using assms(1,3) p by (auto simp: disc_ok_def peer_ok_def list_all_iff)
  qed
  moreover have "length ps = length (peers disc)" using assms(2) by (metis length_map)
  ultimately show ?thesis using assms(1,2) by (simp add: disc_ok_def list_all_iff)
qed

lemma hops_ok: "disc_ok disc \<Longrightarrow> p \<in> set (peers disc) \<Longrightarrow> unat (hop p) \<le> DISCOVERY_MAX_HOPS"
  by (simp add: disc_ok_def list_all_iff peer_ok_def)

lemma upd_peer_ok:
  assumes "disc_ok disc" "\<And>p. dp_addr (f p) = dp_addr p" "\<And>p. unat (hop p) \<le> DISCOVERY_MAX_HOPS \<Longrightarrow> unat (hop (f p)) \<le> DISCOVERY_MAX_HOPS"
  shows "disc_ok (upd_peer disc i f)"
proof (cases "i < length (peers disc)")
  case True
  have "map dp_addr ((peers disc)[i := f (peers disc ! i)]) = map dp_addr (peers disc)"
    using True assms(2) by (simp add: map_update list_update_same_conv)
  moreover have "\<forall>p\<in>set ((peers disc)[i := f (peers disc ! i)]). unat (hop p) \<le> DISCOVERY_MAX_HOPS"
    using True assms(3) hops_ok [OF assms(1)] set_update_subset_insert [of "peers disc" i "f (peers disc ! i)"] by fastforce
  ultimately show ?thesis unfolding upd_peer_def by (rule disc_ok_update [OF assms(1)])
next
  case False
  then show ?thesis using assms(1) by (simp add: upd_peer_def list_update_beyond not_less)
qed

lemma upd_peer_simps [simp]: "selfEndpoints (upd_peer disc i f) = selfEndpoints disc"
  "connectAttempts (upd_peer disc i f) = connectAttempts disc" "length (peers (upd_peer disc i f)) = length (peers disc)"
  by (simp_all add: upd_peer_def)

lemma IsSelf_iff: "(\<forall>f. a \<noteq> SA_other f) \<Longrightarrow> Discovery_IsSelfUnlocked disc a \<longleftrightarrow> a \<in> set (selfEndpoints disc)"
  by (auto simp: Discovery_IsSelfUnlocked_def list_ex_iff AddrEqual_iff)

lemma Upsert_ok:
  assumes "disc_ok disc" "Discovery_Upsert disc a h = (disc', r)" "unat h \<le> DISCOVERY_MAX_HOPS" "Discovery_NormaliseAddr a = a"
  shows "disc_ok disc' \<and> selfEndpoints disc' = selfEndpoints disc \<and> connectAttempts disc' = connectAttempts disc \<and>
    length (peers disc') \<le> Suc (length (peers disc))"
proof -
  consider "disc' = disc" | i where "disc' = upd_peer disc i (\<lambda>p. p\<lparr> hop := h \<rparr>)"
    | "disc' = disc\<lparr> peers := peers disc @ [new_peer a h] \<rparr>" "Discovery_IsUsableAddr a" "\<not> Discovery_IsSelfUnlocked disc a"
      "find_peer (peers disc) a = None" "length (peers disc) < DISCOVERY_MAX_KNOWN_PEERS"
    using assms(2)
    by (auto simp: Discovery_Upsert_def Discovery_FindPtr_def vec_push_back_def split: if_splits option.splits)
  then show ?thesis
  proof cases
    case 1
    then show ?thesis using assms(1) by simp
  next
    case (2 i)
    have "disc_ok disc'" unfolding 2 by (rule upd_peer_ok [OF assms(1)]) (use assms(3) in simp_all)
    then show ?thesis using 2 by simp
  next
    case 3
    have "a \<notin> set (selfEndpoints disc)" "a \<notin> dp_addr ` set (peers disc)"
      using 3 IsSelf_iff [of a disc] find_peer_None [of "peers disc" a] usable_not_other by auto
    then show ?thesis
      using 3 assms(1,3,4) by (auto simp: disc_ok_def peer_ok_def list_all_iff new_peer_def)
  qed
qed

lemma map_vector_pop_at: "map f (vec_pop_at v i) = vec_pop_at (map f v) i"
  by (simp add: vec_pop_at_def take_map drop_map)

lemma distinct_vector_pop_at:
  assumes "distinct xs" "i < length xs"
  shows "distinct (vec_pop_at xs i)" "set (vec_pop_at xs i) = set xs - {xs ! i}"
proof -
  have s: "xs = take i xs @ xs ! i # drop (Suc i) xs" using assms(2) by (simp add: id_take_nth_drop)
  have p: "vec_pop_at xs i = take i xs @ drop (Suc i) xs" using assms(2) by (simp add: vec_pop_at_def)
  have d: "distinct (take i xs @ xs ! i # drop (Suc i) xs)" using assms(1) s by metis
  then show "distinct (vec_pop_at xs i)" unfolding p by auto
  have "set xs = set (take i xs @ xs ! i # drop (Suc i) xs)" using s by metis
  then show "set (vec_pop_at xs i) = set xs - {xs ! i}" unfolding p using d by auto
qed

lemma Remove_ok:
  assumes "distinct (map dp_addr (peers disc))" "\<forall>f. a \<noteq> SA_other f"
  shows "distinct (map dp_addr (peers (Discovery_RemoveUnlocked disc a)))"
    "dp_addr ` set (peers (Discovery_RemoveUnlocked disc a)) = dp_addr ` set (peers disc) - {a}"
    "set (peers (Discovery_RemoveUnlocked disc a)) \<subseteq> set (peers disc)"
    "selfEndpoints (Discovery_RemoveUnlocked disc a) = selfEndpoints disc"
    "connectAttempts (Discovery_RemoveUnlocked disc a) = connectAttempts disc"
    "length (peers (Discovery_RemoveUnlocked disc a)) \<le> length (peers disc)"
proof -
  note p = find_peer_Some [of "peers disc" a] find_peer_None [of "peers disc" a]
  note d = distinct_vector_pop_at [OF assms(1)]
  show "distinct (map dp_addr (peers (Discovery_RemoveUnlocked disc a)))"
    using p d assms by (auto simp: Discovery_RemoveUnlocked_def map_vector_pop_at split: option.splits)
  show "dp_addr ` set (peers (Discovery_RemoveUnlocked disc a)) = dp_addr ` set (peers disc) - {a}"
    using p d assms by (auto simp: Discovery_RemoveUnlocked_def set_map [symmetric] map_vector_pop_at simp del: set_map split: option.splits)
  show "set (peers (Discovery_RemoveUnlocked disc a)) \<subseteq> set (peers disc)"
    by (auto simp: Discovery_RemoveUnlocked_def vec_pop_at_def split: option.splits if_splits dest: in_set_takeD in_set_dropD)
  show "selfEndpoints (Discovery_RemoveUnlocked disc a) = selfEndpoints disc"
    "connectAttempts (Discovery_RemoveUnlocked disc a) = connectAttempts disc"
    "length (peers (Discovery_RemoveUnlocked disc a)) \<le> length (peers disc)"
    by (auto simp: Discovery_RemoveUnlocked_def vec_pop_at_def split: option.splits)
qed

lemma disc_ok_Remove:
  assumes "disc_ok disc" "\<forall>f. a \<noteq> SA_other f" shows "disc_ok (Discovery_RemoveUnlocked disc a)"
proof -
  have d: "distinct (map dp_addr (peers disc))" using assms(1) by (simp add: disc_ok_def)
  note r = Remove_ok [OF d assms(2)]
  have "peer_ok (Discovery_RemoveUnlocked disc a) p" if "p \<in> set (peers (Discovery_RemoveUnlocked disc a))" for p
    using assms(1) r(3,4) that by (auto simp: disc_ok_def list_all_iff peer_ok_def)
  then show ?thesis using assms(1) r by (auto simp: disc_ok_def list_all_iff)
qed

lemma RemovePeer_eq: "NodeDiscovery_RemovePeer disc a = Discovery_RemoveUnlocked disc a"
  by (simp add: NodeDiscovery_RemovePeer_def Discovery_RemoveUnlocked_def)

lemma MarkSelf_ok:
  assumes "disc_ok disc" "\<forall>f. a \<noteq> SA_other f" shows "disc_ok (Discovery_RemoveUnlocked (Discovery_AddSelfUnlocked disc a) a)"
proof -
  let ?d = "Discovery_AddSelfUnlocked disc a"
  have p: "peers ?d = peers disc" "connectAttempts ?d = connectAttempts disc" "set (selfEndpoints ?d) \<subseteq> insert a (set (selfEndpoints disc))"
    by (auto simp: Discovery_AddSelfUnlocked_def vec_push_back_def)
  have d: "distinct (map dp_addr (peers ?d))" using assms(1) p(1) by (simp add: disc_ok_def)
  note r = Remove_ok [OF d assms(2)]
  have "peer_ok (Discovery_RemoveUnlocked ?d a) q" if "q \<in> set (peers (Discovery_RemoveUnlocked ?d a))" for q
  proof -
    have "dp_addr q \<noteq> a" using r(2) that by blast
    moreover have "peer_ok disc q" using r(3) that p(1) assms(1) by (auto simp: disc_ok_def list_all_iff)
    ultimately show ?thesis using p(3) r(4) by (auto simp: peer_ok_def)
  qed
  then show ?thesis using assms(1) r p by (auto simp: disc_ok_def list_all_iff)
qed

lemma NoteIdentity_ok:
  assumes "disc_ok disc" "\<forall>f. a \<noteq> SA_other f" "Discovery_NormaliseAddr a = a"
  shows "disc_ok (NodeDiscovery_NoteIdentity localId disc a nid)"
proof -
  obtain disc' r where u: "Discovery_Upsert disc a 0 = (disc', r)" by fastforce
  have "disc_ok disc'" using Upsert_ok [OF assms(1) u _ assms(3)] by simp
  then show ?thesis
    using MarkSelf_ok [OF assms(1,2)] assms(1) u
    by (auto simp: NodeDiscovery_NoteIdentity_def upd_peer_ok split: option.splits)
qed

lemma OnPong_ok: "disc_ok disc \<Longrightarrow> disc_ok (NodeDiscovery_OnPong disc a rtt)"
  by (auto simp: NodeDiscovery_OnPong_def upd_peer_ok split: option.splits)

lemma OnPingTimeout_ok: "disc_ok disc \<Longrightarrow> disc_ok (NodeDiscovery_OnPingTimeout disc a)"
  by (auto simp: NodeDiscovery_OnPingTimeout_def upd_peer_ok split: option.splits)

lemma WireToAddr_normal: "Discovery_WireToAddr w = Some a \<Longrightarrow> Discovery_NormaliseAddr a = a"
  by (auto simp: Discovery_WireToAddr_def Let_def split: if_splits)

lemma ConnListenEndpoint_normal:
  assumes "Node_ConnListenEndpoint c = Some ep" shows "Discovery_NormaliseAddr ep = ep \<and> (\<forall>f. ep \<noteq> SA_other f)"
proof -
  have "case Node_ConnListenEndpoint c of None \<Rightarrow> True | Some ep \<Rightarrow> Discovery_NormaliseAddr ep = ep \<and> (\<forall>f. ep \<noteq> SA_other f)"
    by (cases "peerAddr c") (simp_all add: Node_ConnListenEndpoint_def Let_def)
  then show ?thesis using assms by simp
qed

lemma fold_peers_ok:
  "disc_ok disc \<Longrightarrow> unat newHop \<le> DISCOVERY_MAX_HOPS \<Longrightarrow>
     disc_ok (fold_peers payload n added newHop disc) \<and> selfEndpoints (fold_peers payload n added newHop disc) = selfEndpoints disc \<and>
     length (peers (fold_peers payload n added newHop disc)) + added \<le> length (peers disc) + max added DISCOVERY_FANOUT"
proof (induction payload n added newHop disc rule: fold_peers.induct)
  case (2 payload left added newHop disc)
  show ?case
  proof (cases "added \<ge> DISCOVERY_FANOUT")
    case True
    then show ?thesis using "2.prems" by simp
  next
    case f: False
    show ?thesis
    proof (cases "Discovery_WireToAddr (take DISCOVERY_WIRE_ENTRY_SIZE payload)")
      case None
      then show ?thesis using f "2.IH"(1) "2.prems" by simp
    next
      case (Some ep)
      obtain disc' r where u: "Discovery_Upsert disc ep newHop = (disc', r)" by fastforce
      note k = Upsert_ok [OF "2.prems"(1) u "2.prems"(2) WireToAddr_normal [OF Some]]
      have n: "r = None \<Longrightarrow> length (peers disc') = length (peers disc)"
        using u by (auto simp: Discovery_Upsert_def split: if_splits option.splits)
      show ?thesis
      proof (cases "Discovery_FindPtr disc ep")
        case None
        then show ?thesis
          using f Some u k n "2.IH"(3) [OF f Some _ u [symmetric]] "2.prems" by (cases r) auto
      next
        case g: (Some i)
        then show ?thesis using f Some "2.IH"(2) [OF f Some] "2.prems" by simp
      qed
    qed
  qed
qed simp

lemma OnPeersReceived_ok:
  assumes "disc_ok disc"
  shows "disc_ok (NodeDiscovery_OnPeersReceived disc c payload)"
    and "length (peers (NodeDiscovery_OnPeersReceived disc c payload)) \<le> length (peers disc) + DISCOVERY_FANOUT"
  using fold_peers_ok [OF assms, of _ "drop 2 payload" "le_val (take 2 payload)" 0] assms
  by (auto simp: NodeDiscovery_OnPeersReceived_def Let_def)

lemma NoteConnectAttempt_ok:
  "disc_ok disc \<Longrightarrow> disc_ok (Discovery_NoteConnectAttempt disc a now)"
  "peers (Discovery_NoteConnectAttempt disc a now) = peers disc"
  by (auto simp: Discovery_NoteConnectAttempt_def disc_ok_def peer_ok_def list_all_iff vec_push_back_def Let_def split: sum.splits)

lemma seed_connected_ok:
  "disc_ok disc \<Longrightarrow> \<forall>(ep, nid)\<in>set eps. Discovery_NormaliseAddr ep = ep \<Longrightarrow>
     disc_ok (seed_connected eps disc) \<and> selfEndpoints (seed_connected eps disc) = selfEndpoints disc \<and>
     connectAttempts (seed_connected eps disc) = connectAttempts disc"
proof (induction eps disc rule: seed_connected.induct)
  case (2 ep nid eps disc)
  obtain disc' r where u: "Discovery_Upsert disc ep 0 = (disc', r)" by fastforce
  have k: "disc_ok disc'" "selfEndpoints disc' = selfEndpoints disc" "connectAttempts disc' = connectAttempts disc"
    using Upsert_ok [OF "2.prems"(1) u] "2.prems"(2) by simp_all
  show ?case
  proof (cases r)
    case None
    then show ?thesis using "2.IH"(1) [OF u [symmetric] None] k "2.prems"(2) u by simp
  next
    case (Some i)
    then show ?thesis using "2.IH"(2) [OF u [symmetric] Some] k "2.prems"(2) u by (simp add: upd_peer_ok)
  qed
qed simp

lemma ping_loop_facts:
  "ping_loop now k ps = (ps', sent) \<Longrightarrow>
     map dp_addr ps' = map dp_addr ps \<and> map hop ps' = map hop ps \<and> set sent \<subseteq> dp_addr ` set ps \<and>
     (k \<le> DISCOVERY_MAX_PINGS_PER_TICK \<longrightarrow> k + length sent \<le> DISCOVERY_MAX_PINGS_PER_TICK)"
proof (induction now k ps arbitrary: ps' sent rule: ping_loop.induct)
  case (2 now k p ps)
  show ?case
  proof (cases "k \<ge> DISCOVERY_MAX_PINGS_PER_TICK")
    case True
    then show ?thesis using "2.prems" by auto
  next
    case f: False
    show ?thesis
    proof (cases "\<not> pingPending p \<and> (dp_state p = STATE_NEW \<or> dp_state p = STATE_REACHABLE \<and> now - lastPingMs p > DISCOVERY_PING_REFRESH_MS)")
      case True
      obtain ps1 s1 where r: "ping_loop now (k + 1) ps = (ps1, s1)" by fastforce
      let ?p = "p\<lparr> pingPending := True, lastPingMs := now, dp_state := (if dp_state p = STATE_NEW then STATE_PINGED else dp_state p) \<rparr>"
      have e: "ps' = ?p # ps1" "sent = dp_addr p # s1" using "2.prems" f True r by simp_all
      show ?thesis using "2.IH"(1) [OF f True r] e f by (auto simp: not_le)
    next
      case False
      obtain ps1 s1 where r: "ping_loop now k ps = (ps1, s1)" by fastforce
      have e: "ps' = p # ps1" "sent = s1" using "2.prems" f False r by simp_all
      show ?thesis using "2.IH"(2) [OF f False r] e f by auto
    qed
  qed
qed auto

lemma query_loop_facts:
  "query_loop now cs k disc = (disc', qs) \<Longrightarrow> disc_ok disc \<Longrightarrow>
     disc_ok disc' \<and> map dp_addr (peers disc') = map dp_addr (peers disc) \<and> map dp_state (peers disc') = map dp_state (peers disc) \<and>
     map dp_nodeId (peers disc') = map dp_nodeId (peers disc) \<and>
     selfEndpoints disc' = selfEndpoints disc \<and> connectAttempts disc' = connectAttempts disc \<and> length qs \<le> k"
proof (induction now cs k disc arbitrary: disc' qs rule: query_loop.induct)
  case (2 now cs k disc)
  show ?case
  proof (cases "best_query now disc cs None UINT64_MAX")
    case None
    then show ?thesis using "2.prems" by simp
  next
    case (Some b)
    then obtain c i where b: "best_query now disc cs None UINT64_MAX = Some (c, i)" by (cases b) simp
    let ?d = "upd_peer disc i (\<lambda>p. p\<lparr> lastQueryMs := now \<rparr>)"
    obtain d1 q1 where r: "query_loop now cs k ?d = (d1, q1)" by fastforce
    have m: "map g (peers ?d) = map g (peers disc)" if "g ((peers disc ! i)\<lparr> lastQueryMs := now \<rparr>) = g (peers disc ! i)" for g
      using that by (cases "i < length (peers disc)") (simp_all add: upd_peer_def map_update list_update_same_conv list_update_beyond not_less)
    have "disc_ok ?d" by (rule upd_peer_ok [OF "2.prems"(2)]) simp_all
    then show ?thesis using "2.IH" [OF b refl r] "2.prems" b r m [of dp_addr] m [of dp_state] m [of dp_nodeId] by auto
  qed
qed auto

section \<open>Dialing\<close>

lemma scan_attempts_Inl:
  "scan_attempts as b i k m = Inl j \<Longrightarrow>
     i \<le> j \<and> j < i + length as \<and>
     List.find (\<lambda>x. Discovery_AddrEqual (da_addr x) a) (as[j - i := (as ! (j - i))\<lparr> da_lastMs := now \<rparr>]) =
       (if Discovery_AddrEqual b a then Some ((as ! (j - i))\<lparr> da_lastMs := now \<rparr>)
        else List.find (\<lambda>x. Discovery_AddrEqual (da_addr x) a) as)"
proof (induction as arbitrary: i k m)
  case (Cons x as)
  show ?case
  proof (cases "Discovery_AddrEqual (da_addr x) b")
    case True
    then show ?thesis using Cons.prems by (auto simp: AddrEqual_iff)
  next
    case False
    then obtain k' m' where r: "scan_attempts as b (Suc i) k' m' = Inl j" using Cons.prems by (auto split: if_splits)
    have j: "j - i = Suc (j - Suc i)" "i \<le> j" "j < i + length (x # as)" using Cons.IH [OF r] by auto
    show ?thesis using Cons.IH [OF r] False unfolding j(1) by (auto simp: AddrEqual_iff)
  qed
qed simp

lemma scan_attempts_Inr:
  "scan_attempts as b i k m = Inr j \<Longrightarrow> Discovery_AddrEqual b a \<Longrightarrow> List.find (\<lambda>x. Discovery_AddrEqual (da_addr x) a) as = None"
  by (induction as arbitrary: i k m) (auto simp: AddrEqual_iff split: if_splits)

lemma find_append: "List.find P (xs @ ys) = (case List.find P xs of None \<Rightarrow> List.find P ys | Some x \<Rightarrow> Some x)"
  by (induction xs) auto

text \<open>While the record table has room, a dial is remembered and nothing else is forgotten.\<close>

lemma cooled_after_attempt:
  assumes "length (connectAttempts disc) < DISCOVERY_MAX_KNOWN_PEERS"
  shows "Discovery_ConnectCooledDown (Discovery_NoteConnectAttempt disc b now) a now \<longleftrightarrow>
     \<not> Discovery_AddrEqual b a \<and> Discovery_ConnectCooledDown disc a now"
    and "length (connectAttempts (Discovery_NoteConnectAttempt disc b now)) \<le> Suc (length (connectAttempts disc))"
proof -
  have z: "\<not> now - now \<ge> DISCOVERY_CONNECT_RETRY_MS" "0 < DISCOVERY_CONNECT_RETRY_MS"
    by (simp_all add: DISCOVERY_CONNECT_RETRY_MS_def)
  show "Discovery_ConnectCooledDown (Discovery_NoteConnectAttempt disc b now) a now \<longleftrightarrow>
     \<not> Discovery_AddrEqual b a \<and> Discovery_ConnectCooledDown disc a now"
  proof (cases "scan_attempts (connectAttempts disc) b 0 0 UINT64_MAX")
    case (Inl j)
    from scan_attempts_Inl [OF this, of a now] Inl z show ?thesis
      by (simp add: Discovery_NoteConnectAttempt_def Discovery_ConnectCooledDown_def Let_def)
  next
    case (Inr j)
    from scan_attempts_Inr [OF this, of a] Inr z assms show ?thesis
      by (auto simp: Discovery_NoteConnectAttempt_def Discovery_ConnectCooledDown_def Let_def vec_push_back_def find_append
          not_le split: option.splits)
  qed
  show "length (connectAttempts (Discovery_NoteConnectAttempt disc b now)) \<le> Suc (length (connectAttempts disc))"
    by (auto simp: Discovery_NoteConnectAttempt_def vec_push_back_def Let_def split: sum.splits)
qed

lemma best_dial_in: "best_dial ps b = Some p \<Longrightarrow> p \<in> set ps \<or> b = Some p"
  by (induction ps b rule: best_dial.induct) (auto split: option.splits if_splits)

lemma dial_loop_ok: "dial_loop now outEps slots dialed disc = (disc', toConnect) \<Longrightarrow> disc_ok disc \<Longrightarrow> disc_ok disc'"
proof (induction now outEps slots dialed disc arbitrary: disc' toConnect rule: dial_loop.induct)
  case (2 now outEps slots dialed disc)
  then show ?case
    using NoteConnectAttempt_ok(1) [OF "2.prems"(2)] by (auto simp: Let_def split: if_splits option.splits prod.splits)
qed simp

lemma dial_loop_facts:
  "dial_loop now outEps slots dialed disc = (disc', toConnect) \<Longrightarrow> disc_ok disc \<Longrightarrow>
     length (connectAttempts disc) + slots \<le> DISCOVERY_MAX_KNOWN_PEERS \<Longrightarrow>
     disc_ok disc' \<and> peers disc' = peers disc \<and> length toConnect \<le> slots \<and> distinct toConnect \<and>
     (\<forall>a\<in>set toConnect. Discovery_ConnectCooledDown disc a now \<and> (\<exists>p\<in>set (peers disc). dp_addr p = a \<and> dialable now outEps disc p))"
proof (induction now outEps slots dialed disc arbitrary: disc' toConnect rule: dial_loop.induct)
  case (2 now outEps slots dialed disc)
  show ?case
  proof (cases "dialed \<ge> MAX_CONS \<or> best_dial (filter (dialable now outEps disc) (peers disc)) None = None")
    case True
    then have "disc' = disc" "toConnect = []" using "2.prems"(1) by (auto split: if_splits)
    then show ?thesis using "2.prems"(2) by simp
  next
    case False
    then obtain best where b: "best_dial (filter (dialable now outEps disc) (peers disc)) None = Some best" "\<not> dialed \<ge> MAX_CONS" by auto
    then have m: "best \<in> set (peers disc)" "dialable now outEps disc best" using best_dial_in by fastforce+
    let ?d = "Discovery_NoteConnectAttempt disc (dp_addr best) now" and ?s = "sa_port (dp_addr best) \<noteq> 0"
    obtain d1 t1 where r: "dial_loop now outEps slots (if ?s then dialed + 1 else dialed) ?d = (d1, t1)" by fastforce
    have e: "disc' = d1" "toConnect = (if ?s then dp_addr best # t1 else t1)"
      using "2.prems"(1) b r by (simp_all add: Let_def)
    have room: "length (connectAttempts disc) < DISCOVERY_MAX_KNOWN_PEERS" using "2.prems"(3) by simp
    note c = cooled_after_attempt [OF room, of "dp_addr best" now]
    have ih: "disc_ok d1 \<and> peers d1 = peers ?d \<and> length t1 \<le> slots \<and> distinct t1 \<and>
       (\<forall>a\<in>set t1. Discovery_ConnectCooledDown ?d a now \<and> (\<exists>p\<in>set (peers ?d). dp_addr p = a \<and> dialable now outEps ?d p))"
      using "2.IH" [OF b(2,1) refl refl r] NoteConnectAttempt_ok(1) [OF "2.prems"(2)] c(2) "2.prems"(3) by simp
    have "\<forall>f. dp_addr best \<noteq> SA_other f"
      using "2.prems"(2) m(1) by (auto simp: disc_ok_def list_all_iff peer_ok_def dest: usable_not_other)
    then have "dp_addr best \<notin> set t1" using ih c(1) by (auto simp: AddrEqual_iff)
    moreover have "Discovery_ConnectCooledDown disc (dp_addr best) now" using m(2) by (simp add: dialable_def)
    moreover have mono: "dialable now outEps disc p" if "dialable now outEps ?d p" for p using that c(1) by (simp add: dialable_def)
    have "\<forall>a\<in>set t1. Discovery_ConnectCooledDown disc a now \<and> (\<exists>p\<in>set (peers disc). dp_addr p = a \<and> dialable now outEps disc p)"
    proof
      fix a
      assume "a \<in> set t1"
      then obtain p where "Discovery_ConnectCooledDown ?d a now" "p \<in> set (peers ?d)" "dp_addr p = a" "dialable now outEps ?d p"
        using ih by blast
      then show "Discovery_ConnectCooledDown disc a now \<and> (\<exists>p\<in>set (peers disc). dp_addr p = a \<and> dialable now outEps disc p)"
        using c(1) NoteConnectAttempt_ok(2) mono by auto
    qed
    ultimately show ?thesis using ih e m NoteConnectAttempt_ok(2) by auto
  qed
qed simp

section \<open>Properties\<close>

definition out_endpoints :: "net_conns \<Rightarrow> (sockaddr_storage \<times> u64) list" where
  "out_endpoints n = List.map_filter (\<lambda>c. map_option (\<lambda>ep. (ep, peerNodeId c)) (Node_ConnListenEndpoint c)) (Node_GetClientList n)"

lemma out_endpoints_iff:
  "(ep, nid) \<in> set (out_endpoints n) \<longleftrightarrow> (\<exists>c\<in>set (Node_GetClientList n). Node_ConnListenEndpoint c = Some ep \<and> peerNodeId c = nid)"
  by (force simp: out_endpoints_def List.map_filter_def)

lemma Iterate_cases:
  assumes "disc_ok disc" "NodeDiscovery_Iterate now n disc = (disc', acts)"
  shows "\<exists>d4. disc_ok d4 \<and> connectAttempts d4 = connectAttempts disc \<and> selfEndpoints d4 = selfEndpoints disc \<and>
    length (ta_pings acts) \<le> DISCOVERY_MAX_PINGS_PER_TICK \<and> length (ta_queries acts) \<le> DISCOVERY_FANOUT \<and>
    (disc', ta_dials acts) =
      (if length (Node_GetClientList n) < DISCOVERY_TARGET_CONNECTIONS
       then dial_loop now (out_endpoints n) (DISCOVERY_TARGET_CONNECTIONS - length (Node_GetClientList n)) 0 d4 else (d4, []))"
proof -
  define d1 where "d1 = seed_connected (out_endpoints n) disc"
  define d2 where "d2 = d1\<lparr> peers := map (demote (out_endpoints n)) (peers d1) \<rparr>"
  obtain ps pinged where p: "ping_loop now 0 (peers d2) = (ps, pinged)" by fastforce
  define d3 where "d3 = d2\<lparr> peers := map (ping_timeout now) ps \<rparr>"
  obtain d4 qs where q: "query_loop now (Node_GetClientList n) DISCOVERY_FANOUT d3 = (d4, qs)" by fastforce
  have n: "\<forall>(ep, nid)\<in>set (out_endpoints n). Discovery_NormaliseAddr ep = ep"
    using ConnListenEndpoint_normal by (auto simp: out_endpoints_iff)
  have o1: "disc_ok d1" "selfEndpoints d1 = selfEndpoints disc" "connectAttempts d1 = connectAttempts disc"
    using seed_connected_ok [OF assms(1) n] by (simp_all add: d1_def)
  have dm: "dp_addr (demote eps p) = dp_addr p" "hop (demote eps p) = hop p"
    "dp_addr (ping_timeout now p) = dp_addr p" "hop (ping_timeout now p) = hop p" for eps p
    by (simp_all add: demote_def ping_timeout_def)
  have o2: "disc_ok d2" unfolding d2_def
    by (rule disc_ok_update [OF o1(1)]) (use hops_ok [OF o1(1)] in \<open>auto simp: dm\<close>)
  note pf = ping_loop_facts [OF p]
  have hp: "unat (hop p) \<le> DISCOVERY_MAX_HOPS" if "p \<in> set ps" for p
  proof -
    have "hop p \<in> set (map hop (peers d2))" using pf that by (metis image_eqI set_map)
    then show ?thesis using hops_ok [OF o2] by auto
  qed
  have "map dp_addr (map (ping_timeout now) ps) = map dp_addr (peers d2)" using pf by (simp add: dm o_def)
  then have o3: "disc_ok d3" unfolding d3_def by (rule disc_ok_update [OF o2]) (simp add: dm hp)
  note qf = query_loop_facts [OF q o3]
  have "NodeDiscovery_Iterate now n disc = (let (d5, toConnect) =
            (if length (Node_GetClientList n) < DISCOVERY_TARGET_CONNECTIONS
             then dial_loop now (out_endpoints n) (DISCOVERY_TARGET_CONNECTIONS - length (Node_GetClientList n)) 0 d4 else (d4, []))
      in (d5, \<lparr> ta_pings = pinged, ta_queries = qs, ta_dials = toConnect \<rparr>))"
    unfolding NodeDiscovery_Iterate_def Let_def out_endpoints_def [symmetric] d1_def [symmetric] d2_def [symmetric] p prod.case
      d3_def [symmetric] q ..
  then have "(disc', ta_dials acts) =
      (if length (Node_GetClientList n) < DISCOVERY_TARGET_CONNECTIONS
       then dial_loop now (out_endpoints n) (DISCOVERY_TARGET_CONNECTIONS - length (Node_GetClientList n)) 0 d4 else (d4, []))"
    "ta_pings acts = pinged" "ta_queries acts = qs"
    using assms(2) by (auto simp: case_prod_unfold Let_def)
  then show ?thesis using qf pf o1 by (auto simp: d2_def d3_def)
qed

inductive discovery_step :: "u64 \<Rightarrow> node_discovery \<Rightarrow> node_discovery \<Rightarrow> bool" for localId where
  ds_pong: "discovery_step localId disc (NodeDiscovery_OnPong disc from rtt)"
| ds_timeout: "discovery_step localId disc (NodeDiscovery_OnPingTimeout disc dest)"
| ds_remove: "Node_ConnListenEndpoint c = Some ep \<Longrightarrow> discovery_step localId disc (NodeDiscovery_RemovePeer disc ep)"
| ds_self: "Node_ConnListenEndpoint c = Some ep \<Longrightarrow> discovery_step localId disc (NodeDiscovery_MarkSelfEndpoint disc ep)"
| ds_identity: "Node_ConnListenEndpoint c = Some ep \<Longrightarrow>
    discovery_step localId disc (NodeDiscovery_NoteIdentity localId disc ep nid)"
| ds_peers: "discovery_step localId disc (NodeDiscovery_OnPeersReceived disc c payload)"
| ds_tick: "NodeDiscovery_Iterate now n disc = (disc', acts) \<Longrightarrow> discovery_step localId disc disc'"

inductive discovery_reachable :: "u64 \<Rightarrow> node_discovery \<Rightarrow> bool" for localId where
  dr_start: "discovery_reachable localId (NodeDiscovery_Create listenPort ifaddrs)"
| dr_step: "discovery_reachable localId disc \<Longrightarrow> discovery_step localId disc disc' \<Longrightarrow> discovery_reachable localId disc'"

lemma discovery_step_ok: "discovery_step localId disc disc' \<Longrightarrow> disc_ok disc \<Longrightarrow> disc_ok disc'"
proof (induction rule: discovery_step.induct)
  case (ds_remove c ep disc)
  then show ?case using ConnListenEndpoint_normal [of c ep] by (simp add: RemovePeer_eq disc_ok_Remove)
next
  case (ds_self c ep disc)
  then show ?case using ConnListenEndpoint_normal [of c ep] by (simp add: NodeDiscovery_MarkSelfEndpoint_def MarkSelf_ok)
next
  case (ds_identity c ep disc nid)
  then show ?case using ConnListenEndpoint_normal [of c ep] by (simp add: NoteIdentity_ok)
next
  case (ds_tick now n disc disc' acts)
  obtain d4 where d4: "disc_ok d4" "(disc', ta_dials acts) =
      (if length (Node_GetClientList n) < DISCOVERY_TARGET_CONNECTIONS
       then dial_loop now (out_endpoints n) (DISCOVERY_TARGET_CONNECTIONS - length (Node_GetClientList n)) 0 d4 else (d4, []))"
    using Iterate_cases [OF ds_tick.prems ds_tick.hyps] by blast
  show ?case
  proof (cases "length (Node_GetClientList n) < DISCOVERY_TARGET_CONNECTIONS")
    case True
    then have "dial_loop now (out_endpoints n) (DISCOVERY_TARGET_CONNECTIONS - length (Node_GetClientList n)) 0 d4 = (disc', ta_dials acts)"
      using d4(2) by simp
    then show ?thesis using d4(1) by (rule dial_loop_ok)
  qed (use d4 in simp)
qed (simp_all add: OnPong_ok OnPingTimeout_ok OnPeersReceived_ok)

lemma Seed_peers: "peers (Discovery_SeedSelfEndpoints port as disc) = peers disc \<and>
    connectAttempts (Discovery_SeedSelfEndpoints port as disc) = connectAttempts disc"
  by (induction port as disc rule: Discovery_SeedSelfEndpoints.induct)
    (auto simp: Discovery_AddSelfUnlocked_def split: sockaddr_storage.splits)

lemma discovery_reachable_ok: "discovery_reachable localId disc \<Longrightarrow> disc_ok disc"
proof (induction rule: discovery_reachable.induct)
  case (dr_start listenPort ifaddrs)
  show ?case by (simp add: NodeDiscovery_Create_def disc_ok_def Seed_peers)
next
  case (dr_step disc disc')
  then show ?case using discovery_step_ok by blast
qed

text \<open>
  C29: in every state the peer table can reach, whatever peers send and whenever clocks tick, it holds at
  most 256 distinct endpoints; each of them can be dialed as written, is stored in its plain IPv4 form if
  it has one, is at most three hops away, and none is an endpoint of this node itself.
\<close>

theorem discovery_table_invariant:
  assumes "discovery_reachable localId disc"
  shows "distinct (map dp_addr (peers disc)) \<and> length (peers disc) \<le> 256 \<and> length (connectAttempts disc) \<le> 256 \<and>
    (\<forall>p\<in>set (peers disc). Discovery_IsUsableAddr (dp_addr p) \<and> Discovery_NormaliseAddr (dp_addr p) = dp_addr p \<and>
       unat (hop p) \<le> 3 \<and> \<not> NodeDiscovery_IsSelfEndpoint disc (dp_addr p))"
  using discovery_reachable_ok [OF assms] IsSelf_iff usable_not_other
  by (auto simp: disc_ok_def peer_ok_def list_all_iff DISCOVERY_MAX_KNOWN_PEERS_def DISCOVERY_MAX_HOPS_def NodeDiscovery_IsSelfEndpoint_def)

text \<open>A table that has learned one endpoint, 10.0.0.1:9000, from a PEERS message.\<close>

definition demo_peers :: "byte list" where
  "demo_peers = [1, 0] @ [4] @ [10, 0, 0, 1] @ replicate 12 0 @ [40, 35]"

definition demo_disc :: node_discovery where
  "demo_disc = NodeDiscovery_OnPeersReceived (NodeDiscovery_Create 8000 []) None demo_peers"

lemma demo_disc_peers: "demo_disc = \<lparr> peers = [new_peer (SA4 [10, 0, 0, 1] 9000) 1], selfEndpoints = [], connectAttempts = [] \<rparr>"
proof -
  have c: "le_val (take 2 demo_peers) = Suc 0" "length demo_peers = 21" by (simp_all add: demo_peers_def)
  have w: "Discovery_WireToAddr (take 19 (drop 2 demo_peers)) = Some (SA4 [10, 0, 0, 1] 9000)"
    by (simp add: demo_peers_def Discovery_WireToAddr_def)
  have u: "Discovery_IsUsableAddr (SA4 [10, 0, 0, 1] 9000)" by (simp add: Let_def)
  show ?thesis
    unfolding demo_disc_def NodeDiscovery_OnPeersReceived_def Let_def c
    by (simp add: DISCOVERY_WIRE_ENTRY_SIZE_def DISCOVERY_MAX_HOPS_def DISCOVERY_FANOUT_def NodeDiscovery_Create_def w u
        Discovery_FindPtr_def Discovery_Upsert_def Discovery_IsSelfUnlocked_def DISCOVERY_MAX_KNOWN_PEERS_def vec_push_back_def
        del: Discovery_IsUsableAddr.simps)
qed

theorem discovery_table_invariant_witness:
  "peers demo_disc = [new_peer (SA4 [10, 0, 0, 1] 9000) 1] \<and> \<not> NodeDiscovery_IsSelfEndpoint demo_disc (SA4 [10, 0, 0, 1] 9000)"
proof -
  have "discovery_reachable 7 demo_disc" unfolding demo_disc_def by (rule dr_step [OF dr_start ds_peers])
  from discovery_table_invariant [OF this] show ?thesis by (simp add: demo_disc_peers new_peer_def)
qed

text \<open>
  A tick dials only peers worth dialing. Every dial goes to an endpoint in the table that answered a
  ping, is not an endpoint of a live outbound connection, does not belong to a node such a connection
  already reaches, and was not dialed within the retry window; no endpoint is dialed twice, the dials never
  take the node above its target of eight outbound connections, and a tick sends at most eight pings and
  two queries. (The dial records must have room for the dials of one tick.)
\<close>

lemma Iterate_dials:
  assumes "discovery_reachable localId disc" and "NodeDiscovery_Iterate now n disc = (disc', acts)"
    and "length (connectAttempts disc) \<le> 248"
  shows "distinct (ta_dials acts) \<and> (ta_dials acts \<noteq> [] \<longrightarrow> length (ta_dials acts) + length (Node_GetClientList n) \<le> 8) \<and>
    length (ta_pings acts) \<le> 8 \<and> length (ta_queries acts) \<le> 2 \<and>
    (\<forall>a\<in>set (ta_dials acts). Discovery_ConnectCooledDown disc a now \<and>
       (\<exists>p\<in>set (peers disc'). dp_addr p = a \<and> dp_state p = STATE_REACHABLE \<and>
          (\<forall>c\<in>set (Node_GetClientList n). Node_ConnListenEndpoint c \<noteq> Some a \<and>
             (dp_nodeId p \<noteq> 0 \<and> Node_ConnListenEndpoint c \<noteq> None \<longrightarrow> peerNodeId c \<noteq> dp_nodeId p))))"
proof -
  note ok = discovery_reachable_ok [OF assms(1)]
  obtain d4 where d4: "disc_ok d4" "connectAttempts d4 = connectAttempts disc"
    "length (ta_pings acts) \<le> DISCOVERY_MAX_PINGS_PER_TICK" "length (ta_queries acts) \<le> DISCOVERY_FANOUT"
    "(disc', ta_dials acts) =
      (if length (Node_GetClientList n) < DISCOVERY_TARGET_CONNECTIONS
       then dial_loop now (out_endpoints n) (DISCOVERY_TARGET_CONNECTIONS - length (Node_GetClientList n)) 0 d4 else (d4, []))"
    using Iterate_cases [OF ok assms(2)] by blast
  note caps = d4(3,4) [unfolded DISCOVERY_MAX_PINGS_PER_TICK_def DISCOVERY_FANOUT_def]
  show ?thesis
  proof (cases "length (Node_GetClientList n) < DISCOVERY_TARGET_CONNECTIONS")
    case True
    let ?k = "DISCOVERY_TARGET_CONNECTIONS - length (Node_GetClientList n)"
    have l: "dial_loop now (out_endpoints n) ?k 0 d4 = (disc', ta_dials acts)" using d4(5) True by simp
    have "length (connectAttempts d4) + ?k \<le> DISCOVERY_MAX_KNOWN_PEERS"
      using assms(3) d4(2) by (simp add: DISCOVERY_TARGET_CONNECTIONS_def DISCOVERY_MAX_KNOWN_PEERS_def)
    note f = dial_loop_facts [OF l d4(1) this]
    have p: "dp_state p = STATE_REACHABLE \<and> (\<forall>c\<in>set (Node_GetClientList n). Node_ConnListenEndpoint c \<noteq> Some (dp_addr p) \<and>
             (dp_nodeId p \<noteq> 0 \<and> Node_ConnListenEndpoint c \<noteq> None \<longrightarrow> peerNodeId c \<noteq> dp_nodeId p))"
      if q: "dialable now (out_endpoints n) d4 p" for p
    proof -
      have "Node_ConnListenEndpoint c \<noteq> Some (dp_addr p) \<and>
             (dp_nodeId p \<noteq> 0 \<and> Node_ConnListenEndpoint c \<noteq> None \<longrightarrow> peerNodeId c \<noteq> dp_nodeId p)"
        if c: "c \<in> set (Node_GetClientList n)" for c
      proof -
        have "(ep, peerNodeId c) \<in> set (out_endpoints n)" if "Node_ConnListenEndpoint c = Some ep" for ep
          using c that out_endpoints_iff by blast
        then show ?thesis
          using q ConnListenEndpoint_normal [of c "dp_addr p"] by (fastforce simp: dialable_def list_ex_iff AddrEqual_iff)
      qed
      then show ?thesis using q by (simp add: dialable_def)
    qed
    have "Discovery_ConnectCooledDown disc a now" if "Discovery_ConnectCooledDown d4 a now" for a
      using that d4(2) by (simp add: Discovery_ConnectCooledDown_def)
    then have "\<forall>a\<in>set (ta_dials acts). Discovery_ConnectCooledDown disc a now \<and>
       (\<exists>p\<in>set (peers disc'). dp_addr p = a \<and> dp_state p = STATE_REACHABLE \<and>
          (\<forall>c\<in>set (Node_GetClientList n). Node_ConnListenEndpoint c \<noteq> Some a \<and>
             (dp_nodeId p \<noteq> 0 \<and> Node_ConnListenEndpoint c \<noteq> None \<longrightarrow> peerNodeId c \<noteq> dp_nodeId p)))"
      using f p by metis
    moreover have "length (ta_dials acts) + length (Node_GetClientList n) \<le> 8"
      using f True unfolding DISCOVERY_TARGET_CONNECTIONS_def by linarith
    ultimately show ?thesis using caps f by blast
  next
    case False
    then show ?thesis using d4(5) caps by simp
  qed
qed

abbreviation no_conns :: net_conns where
  "no_conns \<equiv> \<lparr> outboundClients = [], serverClients = None \<rparr>"

lemmas loops_numeral = dial_loop.simps(2) [where slots = "pred_numeral k" for k, folded numeral_eq_Suc]
  query_loop.simps(2) [where room = "pred_numeral k" for k, folded numeral_eq_Suc]

lemmas tick_simps = loops_numeral DISCOVERY_TARGET_CONNECTIONS_def DISCOVERY_FANOUT_def NodeDiscovery_Iterate_def Node_GetClientList_def outbound_conns_def List.map_filter_def demote_def new_peer_def
  DISCOVERY_MAX_PINGS_PER_TICK_def ping_timeout_def DISCOVERY_PING_TIMEOUT_MS_def DISCOVERY_PING_REFRESH_MS_def
  dialable_def MAX_CONS_def Discovery_ConnectCooledDown_def
  Discovery_NoteConnectAttempt_def DISCOVERY_MAX_KNOWN_PEERS_def DISCOVERY_CONNECT_RETRY_MS_def vec_push_back_def

definition demo_known :: node_discovery where
  "demo_known = NodeDiscovery_OnPong (fst (NodeDiscovery_Iterate 1 no_conns demo_disc)) (SA4 [10, 0, 0, 1] 9000) 20"

lemma demo_known_peers:
  "demo_known = demo_disc\<lparr> peers := [(new_peer (SA4 [10, 0, 0, 1] 9000) 1)\<lparr> pingMs := 20, lastPingMs := 1, dp_state := STATE_REACHABLE \<rparr>] \<rparr>"
  by (simp add: demo_known_def demo_disc_peers tick_simps NodeDiscovery_OnPong_def Discovery_FindPtr_def upd_peer_def)

lemma demo_known_reachable: "discovery_reachable 7 demo_known"
proof -
  have "discovery_reachable 7 demo_disc" unfolding demo_disc_def by (rule dr_step [OF dr_start ds_peers])
  then have "discovery_reachable 7 (fst (NodeDiscovery_Iterate 1 no_conns demo_disc))"
    by (rule dr_step) (rule ds_tick [OF surjective_pairing])
  then show ?thesis unfolding demo_known_def by (rule dr_step [OF _ ds_pong])
qed

lemma demo_known_tick: "ta_dials (snd (NodeDiscovery_Iterate 100 no_conns demo_known)) = [SA4 [10, 0, 0, 1] 9000]"
  by (simp add: demo_known_peers demo_disc_peers tick_simps)

end
