(* ===== verification/Tcp_Framing.thy ===== *)
theory Tcp_Framing
  imports Skala_Prelude
begin

text \<open>
  The framing of the TCP byte stream (\<^verbatim>\<open>src/tcpd/tcpconnection.c\<close>): a four-byte big-endian length before
  every payload, and the receiver that reassembles payloads from chunks of arbitrary size. The callback
  \<^verbatim>\<open>on_data\<close> is the list of delivered payloads; the loops around the socket calls are in \<open>Tcp_Stream\<close>.
\<close>

definition TCP_FRAME_HEADER_SIZE :: nat where "TCP_FRAME_HEADER_SIZE = 4"
definition TCP_MAX_FRAME_PAYLOAD :: nat where "TCP_MAX_FRAME_PAYLOAD = 1024 * 1024"

text \<open>
  The framing fields of \<^verbatim>\<open>tcp_connection_t\<close>; \<open>headerBuf\<close> and \<open>frameBuf\<close> hold the bytes read so far, their
  lengths are \<^verbatim>\<open>headerBytesRead\<close> and \<^verbatim>\<open>frameBytesRead\<close>.
\<close>

record framing =
  headerBuf :: "byte list"
  expectedPayloadLen :: nat
  frameBuf :: "byte list"

definition TcpConnection_ResetFramingState :: framing where
  "TcpConnection_ResetFramingState = \<lparr> headerBuf = [], expectedPayloadLen = 0, frameBuf = [] \<rparr>"

text \<open>
  The second half of the loop body: payload bytes, and the payload when it is complete. More bytes read
  than expected do not occur (\<open>framing_ok\<close>); there the unsigned difference of the source is a huge number.
\<close>

definition feed_frame :: "framing \<Rightarrow> byte list \<Rightarrow> framing \<times> byte list \<times> byte list option" where
  "feed_frame c input =
     (let frameRemaining = (if length (frameBuf c) \<le> expectedPayloadLen c then expectedPayloadLen c - length (frameBuf c)
                            else length input);
          n = (if length input < frameRemaining then length input else frameRemaining);
          buf = frameBuf c @ take n input
      in if length buf = expectedPayloadLen c
         then (TcpConnection_ResetFramingState, drop n input, Some buf)
         else (c\<lparr> frameBuf := buf \<rparr>, drop n input, None))"

definition deliver :: "byte list option \<Rightarrow> framing \<times> byte list list \<times> bool \<Rightarrow> framing \<times> byte list list \<times> bool" where
  "deliver p r = (case r of (c, ps, ok) \<Rightarrow> (c, (case p of None \<Rightarrow> ps | Some x \<Rightarrow> x # ps), ok))"

lemma feed_frame_shrinks: "feed_frame c input = (c', rest, p) \<Longrightarrow> length rest \<le> length input"
  by (auto simp: feed_frame_def Let_def split: if_splits)

lemma feed_frame_progress:
  "feed_frame c input = (c', rest, p) \<Longrightarrow> input \<noteq> [] \<Longrightarrow>
     length rest < length input \<or> length rest = length input \<and> headerBuf c' = []"
  by (auto simp: feed_frame_def TcpConnection_ResetFramingState_def Let_def split: if_splits)

function TcpConnection_FeedFramedData :: "framing \<Rightarrow> byte list \<Rightarrow> framing \<times> byte list list \<times> bool" where
  "TcpConnection_FeedFramedData c input =
     (if input = [] then (c, [], True)
      else if length (headerBuf c) < TCP_FRAME_HEADER_SIZE then
        (let needed = TCP_FRAME_HEADER_SIZE - length (headerBuf c);
             n = (if length input < needed then length input else needed);
             hdr = headerBuf c @ take n input;
             rest = drop n input
         in if length hdr < TCP_FRAME_HEADER_SIZE then TcpConnection_FeedFramedData (c\<lparr> headerBuf := hdr \<rparr>) rest
            else if be_val hdr > TCP_MAX_FRAME_PAYLOAD then (TcpConnection_ResetFramingState, [], False)
            else if be_val hdr = 0 then
              deliver (Some []) (TcpConnection_FeedFramedData (c\<lparr> headerBuf := [], expectedPayloadLen := 0 \<rparr>) rest)
            else (case feed_frame (c\<lparr> headerBuf := hdr, expectedPayloadLen := be_val hdr, frameBuf := [] \<rparr>) rest of
                    (c', rest', p) \<Rightarrow> deliver p (TcpConnection_FeedFramedData c' rest')))
      else (case feed_frame c input of (c', rest', p) \<Rightarrow> deliver p (TcpConnection_FeedFramedData c' rest')))"
  by pat_completeness auto
termination
proof (relation "measure (\<lambda>(c, input). 2 * length input + (if headerBuf c = [] then 0 else 1))", goal_cases)
  case (4 c input needed n hdr rest c' y rest' p)
  then have "length rest < length input" by (auto simp: TCP_FRAME_HEADER_SIZE_def split: if_splits)
  moreover have "length rest' \<le> length rest" using 4 feed_frame_shrinks by metis
  ultimately show ?case by auto
next
  case (5 c input c' y rest' p)
  have "length rest' < length input \<or> length rest' = length input \<and> headerBuf c' = []"
    using feed_frame_progress [of c input c' rest' p] 5 by simp
  then show ?case using 5 by (auto simp: TCP_FRAME_HEADER_SIZE_def)
next
  case (2 c input needed n hdr rest)
  then have "length rest < length input" by (auto simp: TCP_FRAME_HEADER_SIZE_def split: if_splits)
  then show ?case by simp
qed (auto simp: TCP_FRAME_HEADER_SIZE_def split: if_splits)

declare TcpConnection_FeedFramedData.simps [simp del]

text \<open>Sending: \<open>None\<close> is the refusal of an oversized payload; a socket that fails later is in \<open>Tcp_Stream\<close>.\<close>

definition be_bytes4 :: "nat \<Rightarrow> byte list" where
  "be_bytes4 n = rev (le_bytes 4 n)"

definition TcpConnection_SendFramed :: "byte list \<Rightarrow> byte list option" where
  "TcpConnection_SendFramed payload =
     (if length payload > TCP_MAX_FRAME_PAYLOAD then None else Some (be_bytes4 (length payload) @ payload))"

section \<open>Reassembly does not depend on the chunks\<close>

definition framing_ok :: "framing \<Rightarrow> bool" where
  "framing_ok c \<longleftrightarrow> length (headerBuf c) \<le> 4 \<and>
     (length (headerBuf c) = 4 \<longrightarrow> length (frameBuf c) < expectedPayloadLen c) \<and>
     (length (headerBuf c) < 4 \<longrightarrow> frameBuf c = [] \<and> expectedPayloadLen c = 0)"

text \<open>The reference: one byte at a time.\<close>

definition feed_byte :: "framing \<Rightarrow> byte \<Rightarrow> framing \<times> byte list option \<times> bool" where
  "feed_byte c b =
     (if length (headerBuf c) < 3 then (c\<lparr> headerBuf := headerBuf c @ [b] \<rparr>, None, True)
      else if length (headerBuf c) = 3 then
        (let n = be_val (headerBuf c @ [b]) in
         if n > TCP_MAX_FRAME_PAYLOAD then (TcpConnection_ResetFramingState, None, False)
         else if n = 0 then (TcpConnection_ResetFramingState, Some [], True)
         else (\<lparr> headerBuf = headerBuf c @ [b], expectedPayloadLen = n, frameBuf = [] \<rparr>, None, True))
      else if Suc (length (frameBuf c)) = expectedPayloadLen c then (TcpConnection_ResetFramingState, Some (frameBuf c @ [b]), True)
      else (c\<lparr> frameBuf := frameBuf c @ [b] \<rparr>, None, True))"

fun feed_bytes :: "framing \<Rightarrow> byte list \<Rightarrow> framing \<times> byte list list \<times> bool" where
  "feed_bytes c [] = (c, [], True)"
| "feed_bytes c (b # bs) =
     (case feed_byte c b of (c', p, ok) \<Rightarrow> if ok then deliver p (feed_bytes c' bs) else (c', [], False))"

lemma deliver_simps [simp]: "deliver None r = r" "deliver (Some x) (c, ps, ok) = (c, x # ps, ok)"
  by (simp_all add: deliver_def split: prod.splits)

lemma feed_byte_ok: "framing_ok c \<Longrightarrow> feed_byte c b = (c', p, ok) \<Longrightarrow> framing_ok c'"
  by (auto simp: framing_ok_def feed_byte_def TcpConnection_ResetFramingState_def Let_def split: if_splits)

lemma feed_bytes_header:
  "framing_ok c \<Longrightarrow> length (headerBuf c) + length xs < 4 \<Longrightarrow> feed_bytes c (xs @ ys) = feed_bytes (c\<lparr> headerBuf := headerBuf c @ xs \<rparr>) ys"
proof (induction xs arbitrary: c)
  case (Cons x xs)
  have "framing_ok (c\<lparr> headerBuf := headerBuf c @ [x] \<rparr>)" using Cons.prems by (auto simp: framing_ok_def)
  then show ?case using Cons.prems Cons.IH [of "c\<lparr> headerBuf := headerBuf c @ [x] \<rparr>"] by (simp add: feed_byte_def)
qed simp

lemma feed_bytes_payload:
  "framing_ok c \<Longrightarrow> length (headerBuf c) = 4 \<Longrightarrow> length (frameBuf c) + length xs < expectedPayloadLen c \<Longrightarrow>
     feed_bytes c (xs @ ys) = feed_bytes (c\<lparr> frameBuf := frameBuf c @ xs \<rparr>) ys"
proof (induction xs arbitrary: c)
  case (Cons x xs)
  have "framing_ok (c\<lparr> frameBuf := frameBuf c @ [x] \<rparr>)" using Cons.prems by (auto simp: framing_ok_def)
  then show ?case using Cons.prems Cons.IH [of "c\<lparr> frameBuf := frameBuf c @ [x] \<rparr>"] by (simp add: feed_byte_def)
qed simp

lemma feed_bytes_payload_done:
  assumes "framing_ok c" "length (headerBuf c) = 4" "length (frameBuf c) + length xs = expectedPayloadLen c" "xs \<noteq> []"
  shows "feed_bytes c (xs @ ys) = deliver (Some (frameBuf c @ xs)) (feed_bytes TcpConnection_ResetFramingState ys)"
proof -
  obtain zs z where x: "xs = zs @ [z]" using assms(4) rev_exhaust by blast
  have "feed_bytes c (zs @ z # ys) = feed_bytes (c\<lparr> frameBuf := frameBuf c @ zs \<rparr>) (z # ys)"
    by (rule feed_bytes_payload [OF assms(1,2)]) (use assms(3) x in simp)
  then show ?thesis using assms(2,3) x by (simp add: feed_byte_def)
qed

lemma feed_frame_bytes:
  assumes "framing_ok c" "length (headerBuf c) = 4" "feed_frame c input = (c', rest, p)"
  shows "feed_bytes c input = deliver p (feed_bytes c' rest) \<and> framing_ok c'"
proof -
  let ?r = "expectedPayloadLen c - length (frameBuf c)"
  have r: "0 < ?r" "length (frameBuf c) \<le> expectedPayloadLen c" using assms(1,2) by (auto simp: framing_ok_def)
  show ?thesis
  proof (cases "length input < ?r")
    case True
    then have "length (frameBuf c) + length input \<noteq> expectedPayloadLen c" by linarith
    then have "c' = c\<lparr> frameBuf := frameBuf c @ input \<rparr>" "rest = []" "p = None"
      using assms(3) r True by (simp_all add: feed_frame_def Let_def)
    then show ?thesis
      using feed_bytes_payload [OF assms(1,2), of input "[]"] True assms(1,2) by (auto simp: framing_ok_def)
  next
    case False
    then have e: "c' = TcpConnection_ResetFramingState" "rest = drop ?r input" "p = Some (frameBuf c @ take ?r input)"
      using assms(3) r by (auto simp: feed_frame_def Let_def)
    have "feed_bytes c (take ?r input @ rest) = deliver p (feed_bytes c' rest)"
      unfolding e(1,3) by (rule feed_bytes_payload_done [OF assms(1,2)]) (use False r in auto)
    then show ?thesis using e by (simp add: framing_ok_def TcpConnection_ResetFramingState_def)
  qed
qed

lemma framing_ok_reset [simp]: "framing_ok TcpConnection_ResetFramingState"
  by (simp add: framing_ok_def TcpConnection_ResetFramingState_def)

lemma feed_bytes_header_done:
  assumes "framing_ok c" "length (headerBuf c) + length xs = 4" "xs \<noteq> []"
  shows "feed_bytes c (xs @ ys) =
    (let n = be_val (headerBuf c @ xs) in
     if n > TCP_MAX_FRAME_PAYLOAD then (TcpConnection_ResetFramingState, [], False)
     else if n = 0 then deliver (Some []) (feed_bytes TcpConnection_ResetFramingState ys)
     else feed_bytes \<lparr> headerBuf = headerBuf c @ xs, expectedPayloadLen = n, frameBuf = [] \<rparr> ys)"
proof -
  obtain zs z where x: "xs = zs @ [z]" using assms(3) rev_exhaust by blast
  have "feed_bytes c (zs @ z # ys) = feed_bytes (c\<lparr> headerBuf := headerBuf c @ zs \<rparr>) (z # ys)"
    by (rule feed_bytes_header [OF assms(1)]) (use assms(2) x in simp)
  then show ?thesis using assms(2) x by (simp add: feed_byte_def Let_def)
qed

text \<open>The chunk-wise receiver is the byte-wise one.\<close>

lemma Feed_feed_bytes: "framing_ok c \<Longrightarrow> TcpConnection_FeedFramedData c input = feed_bytes c input"
proof (induction c input rule: TcpConnection_FeedFramedData.induct)
  case (1 c input)
  show ?case
  proof (cases "input = []")
    case True
    then show ?thesis by (simp add: TcpConnection_FeedFramedData.simps)
  next
    case ne: False
    show ?thesis
    proof (cases "length (headerBuf c) < 4")
      case False
      then have h: "length (headerBuf c) = 4" using "1.prems" by (simp add: framing_ok_def)
      obtain c' rest p where f: "feed_frame c input = (c', rest, p)" using prod_cases3 by blast
      have "TcpConnection_FeedFramedData c' rest = feed_bytes c' rest"
        using "1.IH"(4) [OF ne _ f [symmetric] refl] feed_frame_bytes [OF "1.prems" h f] False
        by (simp add: TCP_FRAME_HEADER_SIZE_def)
      then show ?thesis
        using feed_frame_bytes [OF "1.prems" h f] ne h f by (simp add: TcpConnection_FeedFramedData.simps [of c] TCP_FRAME_HEADER_SIZE_def)
    next
      case h: True
      then have z: "frameBuf c = []" "expectedPayloadLen c = 0" using "1.prems" by (simp_all add: framing_ok_def)
      let ?k = "4 - length (headerBuf c)"
      show ?thesis
      proof (cases "length input < ?k")
        case True
        then have "length (headerBuf c) + length input < 4" by linarith
        then show ?thesis
          using feed_bytes_header [OF "1.prems", of input "[]"] ne h True
          by (simp add: TcpConnection_FeedFramedData.simps [of c] TcpConnection_FeedFramedData.simps [of _ "[]"]
              TCP_FRAME_HEADER_SIZE_def Let_def)
      next
        case False
        let ?hdr = "headerBuf c @ take ?k input" and ?rest = "drop ?k input"
        note d = feed_bytes_header_done [OF "1.prems", of "take ?k input" ?rest]
        have l: "length ?hdr = 4" using False h by simp
        let ?c0 = "c\<lparr> headerBuf := [], expectedPayloadLen := 0 \<rparr>"
        have c0: "?c0 = TcpConnection_ResetFramingState" using z by (cases c) (simp add: TcpConnection_ResetFramingState_def)
        let ?c1 = "c\<lparr> headerBuf := ?hdr, expectedPayloadLen := be_val ?hdr, frameBuf := [] \<rparr>"
        have c1: "?c1 = \<lparr> headerBuf = ?hdr, expectedPayloadLen = be_val ?hdr, frameBuf = [] \<rparr>" by (cases c) simp
        obtain c' rest p where f: "feed_frame ?c1 ?rest = (c', rest, p)" using prod_cases3 by blast
        have ok1: "framing_ok ?c1" if "be_val ?hdr \<noteq> 0" using that l by (simp add: framing_ok_def)
        have big: "\<not> length ?hdr < TCP_FRAME_HEADER_SIZE" using l by (simp add: TCP_FRAME_HEADER_SIZE_def)
        have hh: "length (headerBuf c) < TCP_FRAME_HEADER_SIZE" "?k = TCP_FRAME_HEADER_SIZE - length (headerBuf c)"
          "?k = (if length input < ?k then length input else ?k)"
          using h False by (simp_all add: TCP_FRAME_HEADER_SIZE_def)
        have i2: "TcpConnection_FeedFramedData ?c0 ?rest = feed_bytes ?c0 ?rest"
          if "\<not> TCP_MAX_FRAME_PAYLOAD < be_val ?hdr" "be_val ?hdr = 0"
          using "1.IH"(2) [OF ne hh refl refl big that] by (simp add: c0)
        have i3: "TcpConnection_FeedFramedData c' rest = feed_bytes c' rest"
          if "\<not> TCP_MAX_FRAME_PAYLOAD < be_val ?hdr" "be_val ?hdr \<noteq> 0"
          using "1.IH"(3) [OF ne hh refl refl big that f [symmetric] refl] feed_frame_bytes [OF ok1 [OF that(2)] _ f] l by simp
        have frame: "feed_bytes ?c1 ?rest = deliver p (feed_bytes c' rest)" if "be_val ?hdr \<noteq> 0"
          using feed_frame_bytes [OF ok1 [OF that] _ f] l by simp
        show ?thesis
          using d False h ne i2 i3 f frame l
          by (simp add: TcpConnection_FeedFramedData.simps [of c] TCP_FRAME_HEADER_SIZE_def Let_def c0 c1)
      qed
    qed
  qed
qed

text \<open>Feeding chunk after chunk, as the receive loops of the server and the client do until one fails.\<close>

fun feed_chunks :: "framing \<Rightarrow> byte list list \<Rightarrow> framing \<times> byte list list \<times> bool" where
  "feed_chunks c [] = (c, [], True)"
| "feed_chunks c (chunk # chunks) =
     (case TcpConnection_FeedFramedData c chunk of
        (c', ps, ok) \<Rightarrow>
          if ok then (case feed_chunks c' chunks of (c'', ps', ok') \<Rightarrow> (c'', ps @ ps', ok')) else (c', ps, False))"

lemma feed_bytes_append:
  "feed_bytes c (xs @ ys) =
     (case feed_bytes c xs of (c', ps, ok) \<Rightarrow>
        if ok then (case feed_bytes c' ys of (c'', ps', ok') \<Rightarrow> (c'', ps @ ps', ok')) else (c', ps, False))"
proof (induction xs arbitrary: c)
  case (Cons x xs)
  obtain c' p ok where b: "feed_byte c x = (c', p, ok)" using prod_cases3 by blast
  show ?case using Cons.IH [of c'] b by (auto simp: deliver_def split: prod.splits option.splits)
qed simp

lemma feed_bytes_ok: "feed_bytes c xs = (c', ps, ok) \<Longrightarrow> framing_ok c \<Longrightarrow> framing_ok c'"
  by (induction c xs arbitrary: ps rule: feed_bytes.induct)
    (auto simp: deliver_def dest: feed_byte_ok split: prod.splits if_splits)

text \<open>Only the concatenation of the chunks matters.\<close>

lemma feed_chunks_concat: "framing_ok c \<Longrightarrow> feed_chunks c chunks = feed_bytes c (concat chunks)"
proof (induction chunks arbitrary: c)
  case (Cons chunk chunks)
  obtain c' ps ok where b: "feed_bytes c chunk = (c', ps, ok)" using prod_cases3 by blast
  show ?case
    using Cons.IH [OF feed_bytes_ok [OF b Cons.prems]] b by (simp add: Feed_feed_bytes [OF Cons.prems] feed_bytes_append)
qed simp

lemma be_val_be_bytes4: "n < 2 ^ 32 \<Longrightarrow> be_val (be_bytes4 n) = n"
proof -
  have r: "be_val (rev bs) = le_val bs" for bs by (induction bs) (auto simp: be_val_append)
  assume "n < 2 ^ 32"
  then show ?thesis by (simp add: be_bytes4_def r le_val_le_bytes)
qed

lemma feed_bytes_frame:
  assumes "TcpConnection_SendFramed p = Some bytes"
  shows "feed_bytes TcpConnection_ResetFramingState (bytes @ rest) = deliver (Some p) (feed_bytes TcpConnection_ResetFramingState rest)"
proof -
  have b: "bytes = be_bytes4 (length p) @ p" "length p \<le> TCP_MAX_FRAME_PAYLOAD"
    using assms by (auto simp: TcpConnection_SendFramed_def split: if_splits)
  have n: "be_val (be_bytes4 (length p)) = length p"
    by (rule be_val_be_bytes4) (use b(2) in \<open>simp add: TCP_MAX_FRAME_PAYLOAD_def\<close>)
  have l: "length (be_bytes4 (length p)) = 4" "be_bytes4 (length p) \<noteq> []"
    by (simp_all add: be_bytes4_def length_greater_0_conv [symmetric] del: length_greater_0_conv)
  let ?h = "\<lparr> headerBuf = be_bytes4 (length p), expectedPayloadLen = length p, frameBuf = [] \<rparr>"
  have e: "headerBuf TcpConnection_ResetFramingState = []" by (simp add: TcpConnection_ResetFramingState_def)
  have d: "feed_bytes TcpConnection_ResetFramingState (be_bytes4 (length p) @ p @ rest) =
      (if p = [] then deliver (Some []) (feed_bytes TcpConnection_ResetFramingState rest) else feed_bytes ?h (p @ rest))"
    using feed_bytes_header_done [OF framing_ok_reset, of "be_bytes4 (length p)" "p @ rest"] l n b(2)
    by (auto simp: e Let_def)
  show ?thesis
    using d feed_bytes_payload_done [of ?h p rest] l b(1) by (auto simp: framing_ok_def)
qed

lemma feed_bytes_frames:
  "list_all2 (\<lambda>p b. TcpConnection_SendFramed p = Some b) ps bs \<Longrightarrow>
     feed_bytes TcpConnection_ResetFramingState (concat bs) = (TcpConnection_ResetFramingState, ps, True)"
  by (induction rule: list_all2_induct) (simp_all add: feed_bytes_frame)

text \<open>
  Framing is transparent. Whatever payloads are sent, and however the network cuts the resulting byte
  stream into chunks, the receiver delivers exactly those payloads, in order and unchanged, and is then
  back in its initial state; it never reports an error on a stream the sender produced.
\<close>

lemma framing_transparent:
  assumes "list_all2 (\<lambda>p b. TcpConnection_SendFramed p = Some b) payloads frames" and "concat chunks = concat frames"
  shows "feed_chunks TcpConnection_ResetFramingState chunks = (TcpConnection_ResetFramingState, payloads, True)"
  using assms by (simp add: feed_chunks_concat feed_bytes_frames)

lemma be_bytes4_small: "n < 256 \<Longrightarrow> be_bytes4 n = [0, 0, 0, of_nat n]"
proof -
  have "(4::nat) = Suc (Suc (Suc (Suc 0)))" by simp
  then show "n < 256 \<Longrightarrow> be_bytes4 n = [0, 0, 0, of_nat n]" unfolding be_bytes4_def by (simp only: le_bytes.simps) simp
qed

end
