(* ===== verification/Net_Wire.thy ===== *)
theory Net_Wire
  imports Chain_Files Tcp_Framing
begin

text \<open>
  The packets of the peer-to-peer protocol (\<^verbatim>\<open>include/packettype.h\<close> and the encoders and decoders inside
  \<^verbatim>\<open>src/nets/net_node.c\<close>): packet types, blocks on the wire, the handshake payload, and the table of
  delivery receipts that the block download reads.
\<close>

section \<open>Packets\<close>

definition PACKET_TYPE_NONE :: byte where "PACKET_TYPE_NONE = 0"
definition PACKET_TYPE_HELLO :: byte where "PACKET_TYPE_HELLO = 1"
definition PACKET_TYPE_ACK_HELLO :: byte where "PACKET_TYPE_ACK_HELLO = 2"
definition PACKET_TYPE_FETCH_BLOCK :: byte where "PACKET_TYPE_FETCH_BLOCK = 3"
definition PACKET_TYPE_BLOCK_DATA :: byte where "PACKET_TYPE_BLOCK_DATA = 4"
definition PACKET_TYPE_BROADCAST_BLOCK :: byte where "PACKET_TYPE_BROADCAST_BLOCK = 5"
definition PACKET_TYPE_ACK_BLOCK :: byte where "PACKET_TYPE_ACK_BLOCK = 6"
definition PACKET_TYPE_BROADCAST_TX :: byte where "PACKET_TYPE_BROADCAST_TX = 7"
definition PACKET_TYPE_ACK_TX :: byte where "PACKET_TYPE_ACK_TX = 8"
definition PACKET_TYPE_ERROR :: byte where "PACKET_TYPE_ERROR = 9"
definition PACKET_TYPE_GET_PEERS :: byte where "PACKET_TYPE_GET_PEERS = 10"
definition PACKET_TYPE_PEERS :: byte where "PACKET_TYPE_PEERS = 11"
definition PACKET_TYPE_MAX :: byte where "PACKET_TYPE_MAX = 12"

lemmas packet_types = PACKET_TYPE_NONE_def PACKET_TYPE_HELLO_def PACKET_TYPE_ACK_HELLO_def PACKET_TYPE_FETCH_BLOCK_def
  PACKET_TYPE_BLOCK_DATA_def PACKET_TYPE_BROADCAST_BLOCK_def PACKET_TYPE_ACK_BLOCK_def PACKET_TYPE_BROADCAST_TX_def
  PACKET_TYPE_ACK_TX_def PACKET_TYPE_ERROR_def PACKET_TYPE_GET_PEERS_def PACKET_TYPE_PEERS_def PACKET_TYPE_MAX_def

definition PacketType_IsValid :: "byte \<Rightarrow> bool" where
  "PacketType_IsValid packetType \<longleftrightarrow> packetType > PACKET_TYPE_NONE \<and> packetType < PACKET_TYPE_MAX"

fun Node_DecodePacket :: "byte list \<Rightarrow> (byte \<times> byte list) option" where
  "Node_DecodePacket [] = None"
| "Node_DecodePacket (packetType # payload) = (if PacketType_IsValid packetType then Some (packetType, payload) else None)"

section \<open>Delivery receipts\<close>

datatype node_delivery_status_t = NODE_DELIVERY_APPENDED | NODE_DELIVERY_DUPLICATE | NODE_DELIVERY_ORPHANED | NODE_DELIVERY_REJECTED

record node_delivery_t =
  nd_height :: u64
  nd_status :: node_delivery_status_t
  nd_valid :: bool

definition NODE_DELIVERY_SLOTS :: nat where "NODE_DELIVERY_SLOTS = 512"

record delivery_table =
  g_deliveries :: "node_delivery_t list"
  g_deliveryNext :: nat

fun find_receipt :: "node_delivery_t list \<Rightarrow> u64 \<Rightarrow> nat option" where
  "find_receipt [] h = None"
| "find_receipt (d # ds) h = (if nd_valid d \<and> nd_height d = h then Some 0 else map_option Suc (find_receipt ds h))"

definition Node_NoteBlockDelivered :: "delivery_table \<Rightarrow> u64 \<Rightarrow> node_delivery_status_t \<Rightarrow> delivery_table" where
  "Node_NoteBlockDelivered t h status =
     (case find_receipt (g_deliveries t) h of
        Some i \<Rightarrow> t\<lparr> g_deliveries := (g_deliveries t)[i := (g_deliveries t ! i)\<lparr> nd_status := status \<rparr>] \<rparr>
      | None \<Rightarrow>
          t\<lparr> g_deliveries := (g_deliveries t)[g_deliveryNext t := \<lparr> nd_height = h, nd_status = status, nd_valid = True \<rparr>],
             g_deliveryNext := (g_deliveryNext t + 1) mod NODE_DELIVERY_SLOTS \<rparr>)"

definition Node_TakeBlockDelivery :: "delivery_table \<Rightarrow> u64 \<Rightarrow> delivery_table \<times> node_delivery_status_t option" where
  "Node_TakeBlockDelivery t h =
     (case find_receipt (g_deliveries t) h of
        None \<Rightarrow> (t, None)
      | Some i \<Rightarrow> (t\<lparr> g_deliveries := (g_deliveries t)[i := (g_deliveries t ! i)\<lparr> nd_valid := False \<rparr>] \<rparr>,
                   Some (nd_status (g_deliveries t ! i))))"

definition Node_ResetBlockDeliveries :: delivery_table where
  "Node_ResetBlockDeliveries =
     \<lparr> g_deliveries = replicate NODE_DELIVERY_SLOTS \<lparr> nd_height = 0, nd_status = NODE_DELIVERY_APPENDED, nd_valid = False \<rparr>,
       g_deliveryNext = 0 \<rparr>"

section \<open>Blocks on the wire\<close>

definition block_payload :: "u64 \<Rightarrow> block_t \<Rightarrow> byte list" where
  "block_payload h blk =
     (let txs = (case transactions blk of None \<Rightarrow> [] | Some txs \<Rightarrow> txs) in
      le_bytes 8 (unat h) @ header_image (header blk) @ le_bytes 8 (length txs) @ concat (map stx_image txs))"

definition parse_block :: "byte list \<Rightarrow> (u64 \<times> block_t) option" where
  "parse_block payload =
     (if length payload < 8 + 96 + 8 then None
      else let blockHeight = read_u64 0 payload;
               hdr = (header_of_image (bytes_at 8 96 payload))\<lparr> blockNumber := blockHeight \<rparr>;
               txCount = read_u64 104 payload;
               rest = drop 112 payload
           in if unat txCount > length rest div 232 then None
              else case read_records (unat txCount) 232 stx_of_image rest of
                None \<Rightarrow> None
              | Some (txs, rest') \<Rightarrow> Some (blockHeight, \<lparr> header = hdr, transactions = Some txs \<rparr>))"


lemma block_payload_bytes: "whole b \<Longrightarrow> block_payload h b = le_bytes 8 (unat h) @ block_bytes b"
  by (auto simp: block_payload_def block_bytes_def block_image_def whole_def split: option.splits)

lemma length_block_payload: "whole b \<Longrightarrow> length (block_payload h b) = 112 + 232 * length (the (transactions b))"
  by (simp add: block_payload_bytes length_block_bytes)

lemma parse_block_wf: "parse_block payload = Some (h, b) \<Longrightarrow> whole b \<and> blockNumber (header b) = h"
proof -
  have "header_wf (header_of_image (bytes_at 8 96 payload))" if "112 \<le> length payload"
    by (rule header_of_image_wf) (use that in \<open>simp add: bytes_at_def\<close>)
  then show "whole b \<and> blockNumber (header b) = h" if "parse_block payload = Some (h, b)"
    using that by (auto simp: parse_block_def Let_def whole_def block_wf_def header_wf_def dest!: read_stxs_wf
        split: if_splits option.splits)
qed

lemma parse_block_payload:
  assumes "whole b" "blockNumber (header b) = h" "length (the (transactions b)) < 2 ^ 64"
  shows "parse_block (block_payload h b) = Some (h, b)"
proof -
  have w: "header_wf (header b)" "\<forall>x\<in>set (the (transactions b)). stx_wf x"
    using assms(1) by (auto simp: whole_def block_wf_def list_all_iff)
  let ?txs = "the (transactions b)"
  let ?imgs = "concat (map stx_image ?txs)"
  have p: "block_payload h b = le_bytes 8 (unat h) @ header_image (header b) @ le_bytes 8 (length ?txs) @ ?imgs"
    using assms(1) by (auto simp: block_payload_def whole_def)
  have li: "length ?imgs = 232 * length ?txs" using stx_codec.length_images [OF w(2)] by simp
  have n: "le_val (le_bytes 8 (length ?txs)) = length ?txs" "le_val (le_bytes 8 (unat h)) = unat h"
    using assms(3) unsigned_less [of h, where 'a = nat] by (simp_all add: le_val_le_bytes)
  have r: "read_records (length ?txs) 232 stx_of_image ?imgs = Some (?txs, [])"
    using stx_codec.read_records_images [OF w(2), of "[]"] by simp
  have u: "unat (of_nat (length ?txs) :: u64) = length ?txs" using assms(3) by (simp add: unat_of_nat)
  have "(header b)\<lparr> blockNumber := h \<rparr> = header b" using assms(2) by simp
  then show ?thesis
    using length_header_image [OF w(1)] n r u li whole_eta [OF assms(1)]
    by (simp add: p parse_block_def read_u64_def bytes_at_simps header_image_roundtrip [OF w(1)] Let_def del: length_concat)
qed

section \<open>The receipt table as a map\<close>

definition one_each :: "node_delivery_t list \<Rightarrow> bool" where
  "one_each ds \<longleftrightarrow> (\<forall>i<length ds. \<forall>j<length ds. nd_valid (ds ! i) \<and> nd_valid (ds ! j) \<and> nd_height (ds ! i) = nd_height (ds ! j) \<longrightarrow> i = j)"

definition receipts_ok :: "delivery_table \<Rightarrow> bool" where
  "receipts_ok t \<longleftrightarrow> length (g_deliveries t) = NODE_DELIVERY_SLOTS \<and> g_deliveryNext t < NODE_DELIVERY_SLOTS \<and> one_each (g_deliveries t)"

definition receipt_in :: "node_delivery_t list \<Rightarrow> u64 \<Rightarrow> node_delivery_status_t option" where
  "receipt_in ds h = map_option (\<lambda>i. nd_status (ds ! i)) (find_receipt ds h)"

definition receipt_of :: "delivery_table \<Rightarrow> u64 \<Rightarrow> node_delivery_status_t option" where
  "receipt_of t h = receipt_in (g_deliveries t) h"

lemma find_receipt_Some: "find_receipt ds h = Some i \<Longrightarrow> i < length ds \<and> nd_valid (ds ! i) \<and> nd_height (ds ! i) = h"
  by (induction ds h arbitrary: i rule: find_receipt.induct) (auto split: if_splits)

lemma find_receipt_None: "find_receipt ds h = None \<Longrightarrow> i < length ds \<Longrightarrow> nd_valid (ds ! i) \<Longrightarrow> nd_height (ds ! i) \<noteq> h"
proof (induction ds h arbitrary: i rule: find_receipt.induct)
  case (2 d ds h)
  then show ?case by (cases i) (auto split: if_splits)
qed simp

lemma find_receipt_iff:
  assumes "one_each ds"
  shows "find_receipt ds h = Some i \<longleftrightarrow> i < length ds \<and> nd_valid (ds ! i) \<and> nd_height (ds ! i) = h"
proof
  assume i: "i < length ds \<and> nd_valid (ds ! i) \<and> nd_height (ds ! i) = h"
  then obtain j where "find_receipt ds h = Some j" using find_receipt_None [of ds h i] by (cases "find_receipt ds h") auto
  then show "find_receipt ds h = Some i" using find_receipt_Some [of ds h j] i assms unfolding one_each_def by blast
qed (rule find_receipt_Some)

lemma option_eqI: "(\<And>k. a = Some k \<longleftrightarrow> b = Some k) \<Longrightarrow> a = b"
  by (cases a; cases b) auto

text \<open>Overwriting one slot changes the map at the heights the old and the new slot stand for.\<close>

lemma receipt_of_update:
  assumes "one_each ds" "i < length ds" and "\<forall>j<length ds. j \<noteq> i \<longrightarrow> nd_valid d \<longrightarrow> nd_valid (ds ! j) \<longrightarrow> nd_height (ds ! j) \<noteq> nd_height d"
  shows "one_each (ds[i := d])"
    and "find_receipt (ds[i := d]) h =
      (if nd_valid d \<and> nd_height d = h then Some i else if find_receipt ds h = Some i then None else find_receipt ds h)"
proof -
  show one: "one_each (ds[i := d])"
    unfolding one_each_def
  proof (intro allI impI)
    fix j k
    assume jk: "j < length (ds[i := d])" "k < length (ds[i := d])"
      "nd_valid (ds[i := d] ! j) \<and> nd_valid (ds[i := d] ! k) \<and> nd_height (ds[i := d] ! j) = nd_height (ds[i := d] ! k)"
    then show "j = k"
      using assms by (cases "j = i"; cases "k = i") (auto simp: one_each_def)
  qed
  show "find_receipt (ds[i := d]) h =
      (if nd_valid d \<and> nd_height d = h then Some i else if find_receipt ds h = Some i then None else find_receipt ds h)"
  proof (rule option_eqI)
    fix k
    show "find_receipt (ds[i := d]) h = Some k \<longleftrightarrow>
        (if nd_valid d \<and> nd_height d = h then Some i else if find_receipt ds h = Some i then None else find_receipt ds h) = Some k"
      using assms(2,3) assms(1) [unfolded one_each_def, rule_format, of i k]
      by (cases "k = i") (auto simp: find_receipt_iff [OF one] find_receipt_iff [OF assms(1)] nth_list_update)
  qed
qed

lemma status_update:
  assumes "one_each ds" "i < length ds" and "\<forall>j<length ds. j \<noteq> i \<longrightarrow> nd_valid d \<longrightarrow> nd_valid (ds ! j) \<longrightarrow> nd_height (ds ! j) \<noteq> nd_height d"
  shows "receipt_in (ds[i := d]) h =
    (if nd_valid d \<and> nd_height d = h then Some (nd_status d) else if nd_valid (ds ! i) \<and> nd_height (ds ! i) = h then None
     else receipt_in ds h)"
proof (cases "find_receipt ds h = Some i")
  case True
  then show ?thesis
    using assms(2) find_receipt_Some [OF True] by (auto simp: receipt_in_def receipt_of_update(2) [OF assms])
next
  case False
  then have "\<not> (nd_valid (ds ! i) \<and> nd_height (ds ! i) = h)" using assms(2) find_receipt_iff [OF assms(1)] by blast
  then show ?thesis
    using assms(2) False by (cases "find_receipt ds h") (auto simp: receipt_in_def receipt_of_update(2) [OF assms])
qed

lemma NoteBlockDelivered_ok:
  assumes "receipts_ok t" shows "receipts_ok (Node_NoteBlockDelivered t h status)"
proof (cases "find_receipt (g_deliveries t) h")
  case None
  have "one_each ((g_deliveries t)[g_deliveryNext t := \<lparr> nd_height = h, nd_status = status, nd_valid = True \<rparr>])"
    by (rule receipt_of_update(1)) (use assms find_receipt_None [OF None] in \<open>auto simp: receipts_ok_def\<close>)
  then show ?thesis using assms None by (simp add: receipts_ok_def Node_NoteBlockDelivered_def NODE_DELIVERY_SLOTS_def)
next
  case (Some i)
  note f = find_receipt_Some [OF Some]
  have "one_each ((g_deliveries t)[i := (g_deliveries t ! i)\<lparr> nd_status := status \<rparr>])"
    by (rule receipt_of_update(1)) (use assms f in \<open>auto simp: receipts_ok_def one_each_def\<close>)
  then show ?thesis using assms Some by (simp add: receipts_ok_def Node_NoteBlockDelivered_def)
qed

lemma receipt_of_note:
  assumes "receipts_ok t" shows "receipt_of (Node_NoteBlockDelivered t h status) h = Some status"
proof (cases "find_receipt (g_deliveries t) h")
  case None
  have "receipt_in ((g_deliveries t)[g_deliveryNext t := \<lparr> nd_height = h, nd_status = status, nd_valid = True \<rparr>]) h = Some status"
    by (subst status_update) (use assms find_receipt_None [OF None] in \<open>auto simp: receipts_ok_def\<close>)
  then show ?thesis using None by (simp add: Node_NoteBlockDelivered_def receipt_of_def)
next
  case (Some i)
  note f = find_receipt_Some [OF Some]
  have "receipt_in ((g_deliveries t)[i := (g_deliveries t ! i)\<lparr> nd_status := status \<rparr>]) h = Some status"
    by (subst status_update) (use assms f in \<open>auto simp: receipts_ok_def one_each_def\<close>)
  then show ?thesis using Some by (simp add: Node_NoteBlockDelivered_def receipt_of_def)
qed

lemma TakeBlockDelivery_ok:
  assumes "receipts_ok t" shows "receipts_ok (fst (Node_TakeBlockDelivery t h))"
proof (cases "find_receipt (g_deliveries t) h")
  case None
  then show ?thesis using assms by (simp add: Node_TakeBlockDelivery_def)
next
  case (Some i)
  have "one_each ((g_deliveries t)[i := (g_deliveries t ! i)\<lparr> nd_valid := False \<rparr>])"
    by (rule receipt_of_update(1)) (use assms find_receipt_Some [OF Some] in \<open>auto simp: receipts_ok_def\<close>)
  then show ?thesis using assms Some by (simp add: receipts_ok_def Node_TakeBlockDelivery_def)
qed

text \<open>
  The delivery receipts behave as a map from heights to verdicts. Noting a delivery makes its verdict
  the receipt of that height and leaves the receipts of other heights alone, except that a note for a new
  height reuses the oldest slot of the ring of 512; taking a receipt returns it and removes it, so that it
  is taken once; no height ever has two receipts.
\<close>

lemma delivery_receipts:
  assumes "receipts_ok t"
  shows "let t' = Node_NoteBlockDelivered t h status; slot = g_deliveries t ! g_deliveryNext t; (t'', taken) = Node_TakeBlockDelivery t h in
    receipts_ok t' \<and> receipts_ok t'' \<and> receipt_of t' h = Some status \<and>
    (\<forall>h'. h' \<noteq> h \<longrightarrow> receipt_of t' h' =
       (if receipt_of t h = None \<and> nd_valid slot \<and> nd_height slot = h' then None else receipt_of t h')) \<and>
    taken = receipt_of t h \<and> receipt_of t'' = (receipt_of t)(h := None)"
proof -
  let ?ds = "g_deliveries t" and ?n = "g_deliveryNext t"
  have ok: "one_each ?ds" "?n < length ?ds" "length ?ds = NODE_DELIVERY_SLOTS" using assms by (auto simp: receipts_ok_def)
  have pos: "0 < NODE_DELIVERY_SLOTS" by (simp add: NODE_DELIVERY_SLOTS_def)
  show ?thesis
  proof (cases "find_receipt ?ds h")
    case None
    let ?d = "\<lparr> nd_height = h, nd_status = status, nd_valid = True \<rparr>"
    note u = receipt_of_update(1) [OF ok(1,2), of ?d] status_update [OF ok(1,2), of ?d]
    have "\<forall>j<length ?ds. j \<noteq> ?n \<longrightarrow> nd_valid ?d \<longrightarrow> nd_valid (?ds ! j) \<longrightarrow> nd_height (?ds ! j) \<noteq> nd_height ?d"
      using find_receipt_None [OF None] by simp
    then show ?thesis
      using u None ok pos receipt_in_def [of ?ds h]
      by (auto simp: Let_def Node_NoteBlockDelivered_def Node_TakeBlockDelivery_def receipts_ok_def receipt_of_def fun_eq_iff)
  next
    case (Some i)
    note f = find_receipt_Some [OF Some]
    let ?d = "(?ds ! i)\<lparr> nd_status := status \<rparr>" and ?e = "(?ds ! i)\<lparr> nd_valid := False \<rparr>"
    have "\<forall>j<length ?ds. j \<noteq> i \<longrightarrow> nd_valid ?d \<longrightarrow> nd_valid (?ds ! j) \<longrightarrow> nd_height (?ds ! j) \<noteq> nd_height ?d"
      using f ok(1) by (auto simp: one_each_def)
    note u = receipt_of_update(1) [OF ok(1) conjunct1 [OF f] this] receipt_of_update(1) [OF ok(1) conjunct1 [OF f], of ?e]
      status_update [OF ok(1) conjunct1 [OF f] this] status_update [OF ok(1) conjunct1 [OF f], of ?e]
    then show ?thesis
      using Some ok f receipt_in_def [of ?ds h]
      by (auto simp: Let_def Node_NoteBlockDelivered_def Node_TakeBlockDelivery_def receipts_ok_def receipt_of_def fun_eq_iff)
  qed
qed

lemma reset_receipts_ok: "receipts_ok Node_ResetBlockDeliveries"
  by (simp add: receipts_ok_def Node_ResetBlockDeliveries_def NODE_DELIVERY_SLOTS_def one_each_def)

section \<open>Blocks cross the wire\<close>

lemma block_fits_frame:
  "whole b \<Longrightarrow> TcpConnection_SendFramed (packetType # block_payload h b) = None \<longleftrightarrow> 4519 < length (the (transactions b))"
  by (auto simp: TcpConnection_SendFramed_def TCP_MAX_FRAME_PAYLOAD_def length_block_payload)

text \<open>
  A block survives the wire. A block sent as a packet, however the network cuts the byte stream, is
  delivered as one packet of the same type, and what the receiver parses out of it is the same height and
  the same block, every field of the header and every transaction. A block is sent exactly when it has
  at most 4519 transactions: a larger one exceeds the frame limit of 1 MiB and is refused by the sender.
\<close>

lemma block_crosses_wire:
  assumes "whole b" and "blockNumber (header b) = h" and "PacketType_IsValid packetType"
  shows "case TcpConnection_SendFramed (packetType # block_payload h b) of
      None \<Rightarrow> 4519 < length (the (transactions b))
    | Some framed \<Rightarrow> length (the (transactions b)) \<le> 4519 \<and>
        (\<forall>chunks. concat chunks = framed \<longrightarrow>
           feed_chunks TcpConnection_ResetFramingState chunks =
             (TcpConnection_ResetFramingState, [packetType # block_payload h b], True)) \<and>
        Node_DecodePacket (packetType # block_payload h b) = Some (packetType, block_payload h b) \<and>
        parse_block (block_payload h b) = Some (h, b)"
proof (cases "TcpConnection_SendFramed (packetType # block_payload h b)")
  case None
  then show ?thesis using block_fits_frame [OF assms(1)] by simp
next
  case (Some framed)
  have n: "length (the (transactions b)) \<le> 4519" using Some block_fits_frame [OF assms(1), of packetType h] by simp
  have "feed_chunks TcpConnection_ResetFramingState chunks =
      (TcpConnection_ResetFramingState, [packetType # block_payload h b], True)" if "concat chunks = framed" for chunks
    using that feed_bytes_frames [of "[packetType # block_payload h b]" "[framed]"] Some
    by (simp add: feed_chunks_concat)
  then show ?thesis using Some n assms(3) parse_block_payload [OF assms(1,2)] by simp
qed

end
