(* ===== verification/Net_Node.thy ===== *)
theory Net_Node
  imports Orphan_Pool Node_Discovery Net_Wire
begin

text \<open>
  The peer-to-peer node (\<^verbatim>\<open>src/nets/net_node.c\<close>): its state, and one function per callback and operation,
  from the node, the connection and the packet to the node and the list of visible actions (packets sent,
  connections closed, saves made, callbacks called). A callback runs to its end before the next one starts;
  the locks that the source takes for this are not modelled.
\<close>

section \<open>The node and its surroundings\<close>

text \<open>
  Discovery is \<open>None\<close> when the UDP socket could not be opened. The chain always exists while the node runs
  (\<^verbatim>\<open>main\<close> creates it first), so the branches for a missing chain are not modelled.
\<close>

record net_node =
  nn_node :: node_state
  nn_orphans :: orphan_pool
  nn_files :: chain_files
  nn_sheetFile :: "byte list option"
  nn_conns :: net_conns
  outboundCount :: nat
  nn_discovery :: "node_discovery option"
  nn_deliveries :: delivery_table
  seenBlocks :: "byte list list"

text \<open>
  What the outside answers while one callback runs: the clock, the file system at each save, the bucket
  orders of the balance map and of the transaction pool, a random number, which sends succeed, the address
  conversions and connections of the operating system, and the settings of the process.
\<close>

record net_world =
  w_now :: u64
  w_reorgNow :: "orphan_pool \<Rightarrow> nat \<Rightarrow> u64"
  w_io :: "nat \<Rightarrow> save_io"
  w_sheetIo :: "nat \<Rightarrow> sheet_io"
  w_sheetOrder :: "sheet \<Rightarrow> address list"
  w_poolOrder :: "pool \<Rightarrow> byte list list"
  w_random :: u32
  w_sendOk :: "nat \<Rightarrow> bool"
  w_pton4 :: "string \<Rightarrow> byte list option"
  w_pton6 :: "string \<Rightarrow> byte list option"
  w_ntop :: "sockaddr_storage \<Rightarrow> string option"
  w_connect :: "string \<Rightarrow> u16 \<Rightarrow> nat option"
  w_threadOk :: bool
  g_localNodeId :: u64
  g_listenPort :: u16
  g_forceOrphanReorgEnabled :: bool
  g_echoPeersEnabled :: bool

datatype net_action =
    Sent nat byte "byte list"
  | Closed nat
  | Saved bool chain_files
  | ForwardConnect nat
  | ForwardDisconnect nat
  | ForwardData nat "byte list"
  | Pinged sockaddr_storage

definition Node_GetCurrentBlockHeight :: "net_node \<Rightarrow> u64" where
  "Node_GetCurrentBlockHeight n = of_nat (Chain_Size (g_chain (nn_node n)))"

text \<open>A packet that does not fit a frame is not sent; the return value is 0 when it went out.\<close>

definition Node_SendPacket :: "net_world \<Rightarrow> nat \<Rightarrow> byte \<Rightarrow> byte list \<Rightarrow> net_action list \<times> int" where
  "Node_SendPacket w conn packetType payload =
     (if \<not> PacketType_IsValid packetType then ([], - 1)
      else case TcpConnection_SendFramed (packetType # payload) of
        None \<Rightarrow> ([], - 1)
      | Some framed \<Rightarrow> if w_sendOk w conn then ([Sent conn packetType payload], 0) else ([], - 1))"

text \<open>\<^verbatim>\<open>Chain_SaveToFile\<close> followed by \<^verbatim>\<open>BalanceSheet_SaveToFile\<close>; the results of both are ignored by the source.\<close>

definition persist_node :: "crypto_env \<Rightarrow> net_world \<Rightarrow> nat \<Rightarrow> net_node \<Rightarrow> net_node \<times> net_action" where
  "persist_node E w k n =
     (let st = nn_node n;
          (chain', f', ok) = Chain_SaveToFile E (w_io w k) (nn_files n) (g_chain st) (g_currentSupply st) (g_currentReward st);
          st' = st\<lparr> g_chain := chain', disk := load_disk f' \<rparr>;
          sheet' = fst (BalanceSheet_SaveToFile (w_sheetIo w k) (nn_sheetFile n) (g_sheetMap st') (w_sheetOrder w (g_sheetMap st')))
      in (n\<lparr> nn_node := st', nn_files := f', nn_sheetFile := sheet' \<rparr>, Saved ok f'))"

section \<open>Accepting blocks\<close>

datatype node_block_accept_result_t = NODE_BLOCK_REJECTED | NODE_BLOCK_ORPHAN_QUEUED | NODE_BLOCK_ACCEPTED | NODE_BLOCK_DUPLICATE

definition queue_orphan :: "crypto_env \<Rightarrow> net_node \<Rightarrow> block_t \<Rightarrow> u64 \<Rightarrow> u64 \<Rightarrow> net_node" where
  "queue_orphan E n blk blockHeight observed = n\<lparr> nn_orphans := OrphanPool_Insert E (nn_orphans n) blk blockHeight observed \<rparr>"

text \<open>Attach what the orphan pool holds and save when something was attached; the maintenance thread does the same.\<close>

definition attach_and_save :: "crypto_env \<Rightarrow> net_world \<Rightarrow> net_node \<Rightarrow> net_node \<times> net_action list" where
  "attach_and_save E w n =
     (case OrphanPool_AttemptAttach E (w_reorgNow w) (nn_orphans n) (nn_node n) of
        (p, st, attached) \<Rightarrow>
          let n1 = n\<lparr> nn_orphans := p, nn_node := st \<rparr>
          in if attached > 0 then (case persist_node E w 1 n1 of (n2, s) \<Rightarrow> (n2, [s])) else (n1, []))"

text \<open>The last part of \<^verbatim>\<open>Node_ParseAndAcceptBlock\<close>, once the block is on the chain.\<close>

definition after_accept :: "crypto_env \<Rightarrow> net_world \<Rightarrow> net_node \<Rightarrow> bool \<Rightarrow> net_node \<times> net_action list" where
  "after_accept E w n persist =
     (if persist then
        (case persist_node E w 0 n of
           (n1, s) \<Rightarrow> (case attach_and_save E w n1 of (n2, saves) \<Rightarrow> (n2, s # saves)))
      else attach_and_save E w n)"

definition Node_ParseAndAcceptBlock ::
  "crypto_env \<Rightarrow> net_world \<Rightarrow> net_node \<Rightarrow> byte list \<Rightarrow> bool \<Rightarrow> net_node \<times> net_action list \<times> node_block_accept_result_t" where
  "Node_ParseAndAcceptBlock E w n payload persist =
     (case parse_block payload of
        None \<Rightarrow> (n, [], NODE_BLOCK_REJECTED)
      | Some (blockHeight, blk) \<Rightarrow>
          if \<not> Block_HasValidStructure E blk then (n, [], NODE_BLOCK_REJECTED)
          else
            (let chain = g_chain (nn_node n);
                 chainSize = of_nat (Chain_Size chain) :: u64;
                 observed = (if chainSize > 0 then chainSize - 1 else 0);
                 number = blockNumber (header blk);
                 orphan = (queue_orphan E n blk blockHeight observed, [], NODE_BLOCK_ORPHAN_QUEUED)
             in if g_forceOrphanReorgEnabled w \<and> number > 0 then orphan
                else if number > chainSize then orphan
                else if number < chainSize then
                  (case Chain_GetBlockCopy chain (unat number) of
                     Some local \<Rightarrow>
                       if Block_CalculateHash E local = Block_CalculateHash E blk then (n, [], NODE_BLOCK_DUPLICATE) else orphan
                   | None \<Rightarrow> orphan)
                else if chainSize > 0 \<and>
                        (case Chain_GetBlockCopy chain (unat (chainSize - 1)) of
                           None \<Rightarrow> True
                         | Some tip \<Rightarrow> Block_CalculateHash E tip \<noteq> prevHash (header blk))
                then orphan
                else (case Chain_AddBlock E (nn_node n) blk of
                        (st', ok) \<Rightarrow>
                          if \<not> ok then (n\<lparr> nn_node := st' \<rparr>, [], NODE_BLOCK_REJECTED)
                          else (case after_accept E w (n\<lparr> nn_node := st' \<rparr>) persist of
                                  (n', acts) \<Rightarrow> (n', acts, NODE_BLOCK_ACCEPTED)))))"

text \<open>The block with its transactions, for serving and relaying; \<open>None\<close> when it cannot be found.\<close>

definition full_block :: "net_node \<Rightarrow> u64 \<Rightarrow> block_t option" where
  "full_block n h =
     (case Chain_GetBlockCopy (g_chain (nn_node n)) (unat h) of
        None \<Rightarrow> disk (nn_node n) (unat h)
      | Some blk \<Rightarrow>
          if transactions blk = None then (case disk (nn_node n) (unat h) of None \<Rightarrow> Some blk | Some full \<Rightarrow> Some full)
          else Some blk)"

fun relay_to :: "net_world \<Rightarrow> tcp_connection_t list \<Rightarrow> byte list \<Rightarrow> net_action list \<times> nat" where
  "relay_to w [] payload = ([], 0)"
| "relay_to w (c # cs) payload =
     (let (acts, rc) = Node_SendPacket w (conn_ptr c) PACKET_TYPE_BROADCAST_BLOCK payload;
          (acts', delivered) = relay_to w cs payload
      in (acts @ acts', if rc = 0 then delivered + 1 else delivered))"

fun broadcast_range :: "crypto_env \<Rightarrow> net_world \<Rightarrow> net_node \<Rightarrow> tcp_connection_t option \<Rightarrow> nat list \<Rightarrow> net_node \<times> net_action list" where
  "broadcast_range E w n source [] = (n, [])"
| "broadcast_range E w n source (h # hs) =
     (case full_block n (of_nat h) of
        None \<Rightarrow> broadcast_range E w n source hs
      | Some blk \<Rightarrow>
          if transactions blk = None then broadcast_range E w n source hs
          else let hash = Block_CalculateHash E blk in
            if hash \<in> set (seenBlocks n) then broadcast_range E w n source hs
            else let (acts, delivered) = relay_to w (broadcast_targets (nn_conns n) source) (block_payload (of_nat h) blk);
                     n1 = (if delivered > 0 then n\<lparr> seenBlocks := hash # seenBlocks n \<rparr> else n);
                     (n2, acts') = broadcast_range E w n1 source hs
                 in (n2, acts @ acts'))"

definition Node_BroadcastChainRange :: "crypto_env \<Rightarrow> net_world \<Rightarrow> net_node \<Rightarrow> nat \<Rightarrow> tcp_connection_t option \<Rightarrow> net_node \<times> net_action list" where
  "Node_BroadcastChainRange E w n startHeight source =
     (let chainSize = Chain_Size (g_chain (nn_node n)) in
      if startHeight \<ge> chainSize then (n, []) else broadcast_range E w n source [startHeight..<chainSize])"

section \<open>Transactions\<close>

fun send_all :: "net_world \<Rightarrow> tcp_connection_t list \<Rightarrow> byte \<Rightarrow> byte list \<Rightarrow> net_action list" where
  "send_all w [] packetType payload = []"
| "send_all w (c # cs) packetType payload = fst (Node_SendPacket w (conn_ptr c) packetType payload) @ send_all w cs packetType payload"

definition Node_BroadcastTransaction :: "net_world \<Rightarrow> net_node \<Rightarrow> signed_transaction_t \<Rightarrow> nat option \<Rightarrow> net_action list" where
  "Node_BroadcastTransaction w n tx excludeNode =
     send_all w (filter (\<lambda>c. Some (conn_ptr c) \<noteq> excludeNode) (outbound_conns (nn_conns n))) PACKET_TYPE_BROADCAST_TX (stx_image tx)"

definition on_broadcast_tx :: "crypto_env \<Rightarrow> net_world \<Rightarrow> net_node \<Rightarrow> nat \<Rightarrow> byte list \<Rightarrow> net_node \<times> net_action list \<times> bool" where
  "on_broadcast_tx E w n client payload =
     (if length payload \<noteq> 232 then (n, [], True)
      else let tx = stx_of_image payload; txHash = Transaction_CalculateHash E tx in
        if \<not> Transaction_Verify E tx then (n, [], False)
        else if \<not> TxMempool_PolicyAccepts tx (w_now w) then (n, [], False)
        else let st = nn_node n in
          if TxMempool_Lookup (g_txMempool st) txHash = None then
            (case TxMempool_Insert E (g_txMempool st) tx of
               (pool', r) \<Rightarrow>
                 let n' = n\<lparr> nn_node := st\<lparr> g_txMempool := pool' \<rparr> \<rparr> in
                 if r \<ge> 0 then (n', Node_BroadcastTransaction w n' tx (Some client), True) else (n', [], True))
          else (n, [], True))"

section \<open>Handshake\<close>

text \<open>The optional trailing fields of HELLO and ACK_HELLO.\<close>

definition hello_fields :: "tcp_connection_t \<Rightarrow> byte list \<Rightarrow> tcp_connection_t" where
  "hello_fields c payload =
     (let c1 = (if length payload \<ge> 14 then c\<lparr> peerListenPort := of_nat (le_val (bytes_at 12 2 payload)) \<rparr> else c)
      in if length payload \<ge> 22 then c1\<lparr> peerNodeId := read_u64 14 payload \<rparr> else c1)"

definition hello_payload :: "net_world \<Rightarrow> net_node \<Rightarrow> u32 \<Rightarrow> byte list" where
  "hello_payload w n protoVersion =
     le_bytes 4 (unat protoVersion) @ le_bytes 8 (unat (Node_GetCurrentBlockHeight n)) @
     le_bytes 2 (unat (g_listenPort w)) @ le_bytes 8 (unat (g_localNodeId w))"

datatype node_identity_result_t = NODE_IDENTITY_OK | NODE_IDENTITY_SELF | NODE_IDENTITY_DUPLICATE

definition with_discovery :: "(node_discovery \<Rightarrow> node_discovery) \<Rightarrow> net_node \<Rightarrow> net_node" where
  "with_discovery f n = n\<lparr> nn_discovery := map_option f (nn_discovery n) \<rparr>"

definition Node_CheckPeerIdentity :: "net_world \<Rightarrow> net_node \<Rightarrow> tcp_connection_t \<Rightarrow> net_node \<times> node_identity_result_t" where
  "Node_CheckPeerIdentity w n conn =
     (if peerNodeId conn = 0 then (n, NODE_IDENTITY_OK)
      else let ep = Node_ConnListenEndpoint conn in
        if peerNodeId conn = g_localNodeId w then
          (case ep of
             None \<Rightarrow> n
           | Some e \<Rightarrow> with_discovery (\<lambda>disc. NodeDiscovery_MarkSelfEndpoint disc e) n, NODE_IDENTITY_SELF)
        else let n' = (case ep of
                         None \<Rightarrow> n
                       | Some e \<Rightarrow> with_discovery (\<lambda>disc. NodeDiscovery_NoteIdentity (g_localNodeId w) disc e (peerNodeId conn)) n)
             in (n', if Node_HasOtherConnectionToNode (nn_conns n') conn (peerNodeId conn) then NODE_IDENTITY_DUPLICATE
                     else NODE_IDENTITY_OK))"

text \<open>The connection as the packet fields leave it, in its slot of the table too.\<close>

definition learn_fields :: "net_node \<Rightarrow> tcp_connection_t \<Rightarrow> byte list \<Rightarrow> net_node" where
  "learn_fields n client payload =
     n\<lparr> nn_conns := upd_conn (conn_ptr client) (\<lambda>c. hello_fields c payload) (nn_conns n) \<rparr>"

definition on_hello :: "net_world \<Rightarrow> net_node \<Rightarrow> tcp_connection_t \<Rightarrow> byte list \<Rightarrow> net_node \<times> net_action list \<times> bool" where
  "on_hello w n client payload =
     (if length payload < 12 then (n, [], False)
      else let protoVersion = of_nat (le_val (bytes_at 0 4 payload)) :: u32;
               c = hello_fields client payload;
               n1 = learn_fields n client payload;
               ack = fst (Node_SendPacket w (conn_ptr c) PACKET_TYPE_ACK_HELLO (hello_payload w n1 protoVersion))
           in case Node_CheckPeerIdentity w n1 c of
             (n2, NODE_IDENTITY_OK) \<Rightarrow>
               if peerNodeId c = 0 \<and> peerListenPort c \<noteq> 0 \<and>
                  (case Node_ConnListenEndpoint c of None \<Rightarrow> False | Some ep \<Rightarrow> Node_HasOtherInboundFrom (nn_conns n2) c ep)
               then (n2, ack @ [Closed (conn_ptr c)], False)
               else (n2, ack, True)
           | (n2, _) \<Rightarrow> (n2, ack @ [Closed (conn_ptr c)], False))"

fun set_height :: "(u64 \<Rightarrow> u64) \<Rightarrow> nat \<Rightarrow> (tcp_connection_t option \<times> u64) list \<Rightarrow> (tcp_connection_t option \<times> u64) list" where
  "set_height f p [] = []"
| "set_height f p ((slot, h) # slots) =
     (if map_option conn_ptr slot = Some p then (slot, f h) # slots else (slot, h) # set_height f p slots)"

definition note_height :: "net_node \<Rightarrow> nat \<Rightarrow> (u64 \<Rightarrow> u64) \<Rightarrow> net_node" where
  "note_height n p f = n\<lparr> nn_conns := (nn_conns n)\<lparr> outboundClients := set_height f p (outboundClients (nn_conns n)) \<rparr> \<rparr>"

definition on_ack_hello :: "net_world \<Rightarrow> net_node \<Rightarrow> tcp_connection_t \<Rightarrow> byte list \<Rightarrow> net_node \<times> net_action list \<times> bool" where
  "on_ack_hello w n client payload =
     (if length payload < 12 then (n, [], False)
      else let blockHeight = read_u64 4 payload;
               c = hello_fields client payload;
               n1 = learn_fields n client payload
           in case Node_CheckPeerIdentity w n1 c of
             (n2, NODE_IDENTITY_OK) \<Rightarrow> (note_height n2 (conn_ptr c) (\<lambda>_. blockHeight), [], True)
           | (n2, _) \<Rightarrow> (n2, [Closed (conn_ptr c)], False))"

section \<open>Packets of the server side\<close>

definition err :: "string \<Rightarrow> byte list" where
  "err msg = map (\<lambda>c. of_char c) msg"

definition on_fetch_block :: "net_world \<Rightarrow> net_node \<Rightarrow> nat \<Rightarrow> byte list \<Rightarrow> net_action list \<times> bool" where
  "on_fetch_block w n client payload =
     (if length payload \<noteq> 8 then ([], False)
      else let requestedHeight = read_u64 0 payload;
               reply_error = (\<lambda>msg. (fst (Node_SendPacket w client PACKET_TYPE_ERROR (err msg)), False))
           in if requestedHeight > Node_GetCurrentBlockHeight n
              then reply_error ''Requested block height is higher than my current height!''
              else case full_block n requestedHeight of
                None \<Rightarrow> reply_error ''Requested block not found!''
              | Some blk \<Rightarrow>
                  if transactions blk = None then reply_error ''Requested block missing transactions!''
                  else (fst (Node_SendPacket w client PACKET_TYPE_BLOCK_DATA (block_payload requestedHeight blk)), True))"

text \<open>
  A block that was pushed; the client side also raises the advertised height of the slot the packet came
  through. The relay leaves out the peer it came from.
\<close>

definition raise_height :: "u64 \<Rightarrow> u64 \<Rightarrow> u64" where
  "raise_height blockHeight h = (if h < blockHeight then blockHeight else h)"

definition on_broadcast_block ::
  "crypto_env \<Rightarrow> net_world \<Rightarrow> net_node \<Rightarrow> bool \<Rightarrow> tcp_connection_t \<Rightarrow> byte list \<Rightarrow> net_node \<times> net_action list" where
  "on_broadcast_block E w n clientSide client payload =
     (if length payload < 8 then (n, [])
      else let blockHeight = read_u64 0 payload in
        case Node_ParseAndAcceptBlock E w n payload True of
          (n1, acts, result) \<Rightarrow>
            if result \<noteq> NODE_BLOCK_ACCEPTED then (n1, acts)
            else let n2 = (if clientSide then note_height n1 (conn_ptr client) (raise_height blockHeight) else n1);
                     (n3, relay) = Node_BroadcastChainRange E w n2 (unat blockHeight) (Some client)
                 in (n3, acts @ relay))"

definition forward :: "nat \<Rightarrow> byte list \<Rightarrow> net_node \<times> net_action list \<times> bool \<Rightarrow> net_node \<times> net_action list" where
  "forward client payload r = (case r of (n, acts, go) \<Rightarrow> (n, if go then acts @ [ForwardData client payload] else acts))"

definition illegal :: "net_world \<Rightarrow> net_node \<Rightarrow> nat \<Rightarrow> string \<Rightarrow> net_node \<times> net_action list \<times> bool" where
  "illegal w n client msg = (n, fst (Node_SendPacket w client PACKET_TYPE_ERROR (err msg)) @ [Closed client], False)"

definition on_get_peers :: "net_world \<Rightarrow> net_node \<Rightarrow> tcp_connection_t \<Rightarrow> net_action list" where
  "on_get_peers w n client =
     (case nn_discovery n of
        None \<Rightarrow> []
      | Some disc \<Rightarrow> fst (Node_SendPacket w (conn_ptr client) PACKET_TYPE_PEERS (NodeDiscovery_OnGetPeers (nn_conns n) client (w_random w))))"

definition on_peers :: "net_node \<Rightarrow> tcp_connection_t \<Rightarrow> byte list \<Rightarrow> net_node" where
  "on_peers n client payload = with_discovery (\<lambda>disc. NodeDiscovery_OnPeersReceived disc (Some client) payload) n"

definition apos :: string where "apos = [CHR 0x27]"

text \<open>One packet: the node, the actions, and whether the packet is handed on to the callback of the application.\<close>

definition server_packet ::
  "crypto_env \<Rightarrow> net_world \<Rightarrow> net_node \<Rightarrow> tcp_connection_t \<Rightarrow> byte \<Rightarrow> byte list \<Rightarrow> net_node \<times> net_action list \<times> bool" where
  "server_packet E w n client packetType payload =
     (if packetType = PACKET_TYPE_HELLO then on_hello w n client payload
      else if packetType = PACKET_TYPE_ACK_HELLO then
        illegal w n (conn_ptr client) (''You can'' @ apos @ ''t ACK_HELLO me! I'' @ apos @ ''m a server!'')
      else if packetType = PACKET_TYPE_FETCH_BLOCK then (case on_fetch_block w n (conn_ptr client) payload of (acts, go) \<Rightarrow> (n, acts, go))
      else if packetType = PACKET_TYPE_BLOCK_DATA then
        illegal w n (conn_ptr client) (''You can'' @ apos @ ''t send me BLOCK_DATA! I'' @ apos @ ''m a server!'')
      else if packetType = PACKET_TYPE_BROADCAST_BLOCK then
        (case on_broadcast_block E w n False client payload of (n', acts) \<Rightarrow> (n', acts, True))
      else if packetType = PACKET_TYPE_ACK_BLOCK \<or> packetType = PACKET_TYPE_BROADCAST_TX
      then on_broadcast_tx E w n (conn_ptr client) payload
      else if packetType = PACKET_TYPE_ACK_TX \<or> packetType = PACKET_TYPE_ERROR then (n, [], True)
      else if packetType = PACKET_TYPE_GET_PEERS then (n, on_get_peers w n client, True)
      else if packetType = PACKET_TYPE_PEERS then (on_peers n client payload, [], True)
      else (n, [], False))"

definition Node_Server_OnData :: "crypto_env \<Rightarrow> net_world \<Rightarrow> net_node \<Rightarrow> tcp_connection_t \<Rightarrow> byte list \<Rightarrow> net_node \<times> net_action list" where
  "Node_Server_OnData E w n client frame =
     (case Node_DecodePacket frame of
        None \<Rightarrow> (n, [])
      | Some (packetType, payload) \<Rightarrow> forward (conn_ptr client) payload (server_packet E w n client packetType payload))"

section \<open>Packets of the client side\<close>

fun delivery_status :: "node_block_accept_result_t \<Rightarrow> node_delivery_status_t" where
  "delivery_status NODE_BLOCK_ACCEPTED = NODE_DELIVERY_APPENDED"
| "delivery_status NODE_BLOCK_DUPLICATE = NODE_DELIVERY_DUPLICATE"
| "delivery_status NODE_BLOCK_ORPHAN_QUEUED = NODE_DELIVERY_ORPHANED"
| "delivery_status NODE_BLOCK_REJECTED = NODE_DELIVERY_REJECTED"

definition on_block_data :: "crypto_env \<Rightarrow> net_world \<Rightarrow> net_node \<Rightarrow> tcp_connection_t \<Rightarrow> byte list \<Rightarrow> net_node \<times> net_action list" where
  "on_block_data E w n client payload =
     (if length payload < 8 then (n, [])
      else let blockHeight = read_u64 0 payload in
        case Node_ParseAndAcceptBlock E w n payload True of
          (n1, acts, result) \<Rightarrow>
            let n2 = n1\<lparr> nn_deliveries := Node_NoteBlockDelivered (nn_deliveries n1) blockHeight (delivery_status result) \<rparr>
            in if result \<noteq> NODE_BLOCK_ACCEPTED then (n2, acts)
               else let n3 = note_height n2 (conn_ptr client) (raise_height blockHeight);
                        (n4, relay) = Node_BroadcastChainRange E w n3 (unat blockHeight) (Some client)
                    in (n4, acts @ relay))"

text \<open>One packet: the node, the actions, and whether the packet is handed on to the callback of the application.\<close>

definition client_packet ::
  "crypto_env \<Rightarrow> net_world \<Rightarrow> net_node \<Rightarrow> tcp_connection_t \<Rightarrow> byte \<Rightarrow> byte list \<Rightarrow> net_node \<times> net_action list \<times> bool" where
  "client_packet E w n client packetType payload =
     (if packetType = PACKET_TYPE_HELLO then
        illegal w n (conn_ptr client) (''You can'' @ apos @ ''t HELLO me! I'' @ apos @ ''m a client!'')
      else if packetType = PACKET_TYPE_ACK_HELLO then on_ack_hello w n client payload
      else if packetType = PACKET_TYPE_FETCH_BLOCK then
        illegal w n (conn_ptr client) (''You can'' @ apos @ ''t FETCH_BLOCK from me! I'' @ apos @ ''m a client!'')
      else if packetType = PACKET_TYPE_BLOCK_DATA then
        (case on_block_data E w n client payload of (n', acts) \<Rightarrow> (n', acts, True))
      else if packetType = PACKET_TYPE_BROADCAST_BLOCK then
        (case on_broadcast_block E w n True client payload of (n', acts) \<Rightarrow> (n', acts, True))
      else if packetType = PACKET_TYPE_ACK_BLOCK \<or> packetType = PACKET_TYPE_BROADCAST_TX \<or>
              packetType = PACKET_TYPE_ACK_TX \<or> packetType = PACKET_TYPE_ERROR then (n, [], True)
      else if packetType = PACKET_TYPE_GET_PEERS then (n, on_get_peers w n client, True)
      else if packetType = PACKET_TYPE_PEERS then (on_peers n client payload, [], True)
      else (n, [], False))"

definition Node_Client_OnData :: "crypto_env \<Rightarrow> net_world \<Rightarrow> net_node \<Rightarrow> tcp_connection_t \<Rightarrow> byte list \<Rightarrow> net_node \<times> net_action list" where
  "Node_Client_OnData E w n client frame =
     (case Node_DecodePacket frame of
        None \<Rightarrow> (n, [])
      | Some (packetType, payload) \<Rightarrow> forward (conn_ptr client) payload (client_packet E w n client packetType payload))"

section \<open>Connecting and disconnecting\<close>

definition Node_Client_OnConnect :: "net_world \<Rightarrow> net_node \<Rightarrow> tcp_connection_t \<Rightarrow> net_action list" where
  "Node_Client_OnConnect w n client =
     ForwardConnect (conn_ptr client) #
     fst (Node_SendPacket w (conn_ptr client) PACKET_TYPE_HELLO (hello_payload w n PROTO_VERSION))"

definition NetNode_MakeEndpoint :: "net_world \<Rightarrow> string \<Rightarrow> u16 \<Rightarrow> sockaddr_storage option" where
  "NetNode_MakeEndpoint w ip port =
     (case w_pton4 w ip of
        Some a4 \<Rightarrow> Some (SA4 a4 port)
      | None \<Rightarrow>
          (case w_pton6 w ip of
             Some a6 \<Rightarrow> if IN6_IS_ADDR_V4MAPPED a6 then Some (SA4 (take 4 (drop 12 a6)) port) else Some (SA6 a6 port)
           | None \<Rightarrow> None))"

fun free_slot :: "(tcp_connection_t option \<times> u64) list \<Rightarrow> nat option" where
  "free_slot [] = None"
| "free_slot ((slot, h) # slots) = (if slot = None then Some 0 else map_option Suc (free_slot slots))"

text \<open>
  \<^verbatim>\<open>TcpClient_Connect\<close>: the socket work is \<open>w_connect\<close>, which gives the new connection its identity; the
  slot is filled before the callback sends HELLO, and emptied again when no thread can be started.
\<close>

definition TcpClient_Connect :: "net_world \<Rightarrow> net_node \<Rightarrow> nat \<Rightarrow> string \<Rightarrow> u16 \<Rightarrow> net_node \<times> net_action list \<times> bool" where
  "TcpClient_Connect w n i ip port =
     (let (slot, h) = outboundClients (nn_conns n) ! i;
          addr = (case w_pton6 w ip of Some a6 \<Rightarrow> Some (SA6 a6 port) | None \<Rightarrow> map_option (\<lambda>a4. SA4 a4 port) (w_pton4 w ip))
      in case (slot, addr, w_connect w ip port) of
           (None, Some a, Some p) \<Rightarrow>
             let conn = \<lparr> conn_ptr = p, peerAddr = a, role = ROLE_OUTBOUND, peerListenPort = 0, peerNodeId = 0,
                          disconnectedNotified = False, pinCount = 0 \<rparr>;
                 n1 = n\<lparr> nn_conns := (nn_conns n)\<lparr> outboundClients := (outboundClients (nn_conns n))[i := (Some conn, h)] \<rparr> \<rparr>;
                 acts = Node_Client_OnConnect w n1 conn
             in if w_threadOk w then (n1, acts, True) else (n, acts, False)
         | _ \<Rightarrow> (n, [], False))"

definition Node_ConnectPeer :: "net_world \<Rightarrow> net_node \<Rightarrow> string \<Rightarrow> u16 \<Rightarrow> net_node \<times> net_action list \<times> int" where
  "Node_ConnectPeer w n ip port =
     (let target = NetNode_MakeEndpoint w ip port in
      if (case (target, nn_discovery n) of (Some t, Some disc) \<Rightarrow> NodeDiscovery_IsSelfEndpoint disc t | _ \<Rightarrow> False)
      then (n, [], - 1)
      else if (case target of None \<Rightarrow> False | Some t \<Rightarrow> Node_HasOutboundTo (nn_conns n) t) then (n, [], 0)
      else case free_slot (outboundClients (nn_conns n)) of
        None \<Rightarrow> (n, [], - 1)
      | Some i \<Rightarrow>
          (case TcpClient_Connect w n i ip port of
             (n1, acts, ok) \<Rightarrow> if ok then (n1\<lparr> outboundCount := outboundCount n1 + 1 \<rparr>, acts, 0) else (n1, acts, - 1)))"

fun Node_ConnectStartupPeers :: "net_world \<Rightarrow> net_node \<Rightarrow> (string \<times> u16) list \<Rightarrow> net_node \<times> net_action list \<times> nat" where
  "Node_ConnectStartupPeers w n [] = (n, [], 0)"
| "Node_ConnectStartupPeers w n ((ip, port) # rest) =
     (case Node_ConnectPeer w n ip port of
        (n1, acts, rc) \<Rightarrow>
          (case Node_ConnectStartupPeers w n1 rest of
             (n2, acts', successes) \<Rightarrow> (n2, acts @ acts', if rc = 0 then successes + 1 else successes)))"

text \<open>A new inbound connection is already in its slot of the server; with echoing enabled it is dialled back.\<close>

definition peer_ip :: "net_world \<Rightarrow> tcp_connection_t \<Rightarrow> string option" where
  "peer_ip w c =
     (case peerAddr c of
        SA6 ip port \<Rightarrow> if IN6_IS_ADDR_V4MAPPED ip then w_ntop w (SA4 (take 4 (drop 12 ip)) 0) else w_ntop w (SA6 ip 0)
      | SA4 ip port \<Rightarrow> w_ntop w (SA4 ip 0)
      | SA_other f \<Rightarrow> None)"

definition Node_Server_OnConnect :: "net_world \<Rightarrow> net_node \<Rightarrow> tcp_connection_t \<Rightarrow> net_node \<times> net_action list" where
  "Node_Server_OnConnect w n client =
     (if g_echoPeersEnabled w then
        (case peer_ip w client of
           None \<Rightarrow> (n, [ForwardConnect (conn_ptr client)])
         | Some ip \<Rightarrow>
             if list_ex (\<lambda>c. TcpConnection_PeerAddrEqual c client) (outbound_conns (nn_conns n))
             then (n, [ForwardConnect (conn_ptr client)])
             else (case Node_ConnectPeer w n ip (g_listenPort w) of
                     (n1, acts, rc) \<Rightarrow> (n1, ForwardConnect (conn_ptr client) # acts)))
      else (n, [ForwardConnect (conn_ptr client)]))"

definition Node_HandlePeerDisconnect :: "net_node \<Rightarrow> tcp_connection_t \<Rightarrow> net_node" where
  "Node_HandlePeerDisconnect n conn =
     (case Node_ConnListenEndpoint conn of
        None \<Rightarrow> n
      | Some ep \<Rightarrow>
          if Node_HasLiveConnectionTo (nn_conns n) ep (peerNodeId conn) conn then n
          else with_discovery (\<lambda>disc. NodeDiscovery_RemovePeer disc ep) n)"

definition Node_Server_OnDisconnect :: "net_node \<Rightarrow> tcp_connection_t \<Rightarrow> net_node \<times> net_action list" where
  "Node_Server_OnDisconnect n client = (Node_HandlePeerDisconnect n client, [ForwardDisconnect (conn_ptr client)])"

definition Node_Client_OnDisconnect :: "net_node \<Rightarrow> tcp_connection_t \<Rightarrow> net_node \<times> net_action list" where
  "Node_Client_OnDisconnect n client =
     (let n1 = note_height n (conn_ptr client) (\<lambda>_. 0);
          n2 = (if outboundCount n1 > 0 then n1\<lparr> outboundCount := outboundCount n1 - 1 \<rparr> else n1)
      in (Node_HandlePeerDisconnect n2 client, [ForwardDisconnect (conn_ptr client)]))"

section \<open>Start\<close>

text \<open>
  The node at start-up with an empty data directory: \<^verbatim>\<open>Node_Create\<close> on the fresh chain of \<^verbatim>\<open>main\<close>. The
  interface addresses are \<open>None\<close> when UDP is not available and discovery is off.
\<close>

definition Node_Create :: "net_world \<Rightarrow> sockaddr_storage list option \<Rightarrow> net_node" where
  "Node_Create w ifaddrs =
     \<lparr> nn_node = fresh_node\<lparr> g_txMempool := TxMempool_Init \<rparr>, nn_orphans = \<lparr> g_orphans = Some [], g_nextSequence = 0 \<rparr>,
       nn_files = \<lparr> meta_file = None, data_file = None, table_file = None \<rparr>, nn_sheetFile = None,
       nn_conns = \<lparr> outboundClients = replicate MAX_CONS (None, 0), serverClients = Some (replicate MAX_CONS None) \<rparr>,
       outboundCount = 0, nn_discovery = map_option (NodeDiscovery_Create (g_listenPort w)) ifaddrs,
       nn_deliveries = Node_ResetBlockDeliveries, seenBlocks = [] \<rparr>"

section \<open>The maintenance tick\<close>

fun send_queries :: "net_world \<Rightarrow> tcp_connection_t list \<Rightarrow> net_action list" where
  "send_queries w [] = []"
| "send_queries w (c # cs) = fst (Node_SendPacket w (conn_ptr c) PACKET_TYPE_GET_PEERS []) @ send_queries w cs"

fun dial_all :: "net_world \<Rightarrow> net_node \<Rightarrow> sockaddr_storage list \<Rightarrow> net_node \<times> net_action list" where
  "dial_all w n [] = (n, [])"
| "dial_all w n (a # as) =
     (case w_ntop w a of
        None \<Rightarrow> dial_all w n as
      | Some ip \<Rightarrow>
          (case Node_ConnectPeer w n ip (sa_port a) of
             (n1, acts, rc) \<Rightarrow> (case dial_all w n1 as of (n2, acts') \<Rightarrow> (n2, acts @ acts'))))"

definition discovery_tick :: "net_world \<Rightarrow> net_node \<Rightarrow> net_node \<times> net_action list" where
  "discovery_tick w n =
     (case nn_discovery n of
        None \<Rightarrow> (n, [])
      | Some disc \<Rightarrow>
          (case NodeDiscovery_Iterate (w_now w) (nn_conns n) disc of
             (disc', tick) \<Rightarrow>
               (case dial_all w (n\<lparr> nn_discovery := Some disc' \<rparr>) (ta_dials tick) of
                  (n1, dials) \<Rightarrow> (n1, map Pinged (ta_pings tick) @ send_queries w (ta_queries tick) @ dials))))"

text \<open>One round of \<^verbatim>\<open>Node_MaintenanceThread\<close>.\<close>

definition Node_MaintenanceTick :: "crypto_env \<Rightarrow> net_world \<Rightarrow> net_node \<Rightarrow> net_node \<times> net_action list" where
  "Node_MaintenanceTick E w n =
     (let (n1, saves) = attach_and_save E w n;
          st = nn_node n1;
          n2 = n1\<lparr> nn_node := st\<lparr> g_txMempool := fst (TxMempool_PruneExpired (g_txMempool st) (w_poolOrder w (g_txMempool st)) (w_now w)) \<rparr> \<rparr>;
          n3 = n2\<lparr> nn_conns := Node_ReapDeadOutbound (nn_conns n2) \<rparr>;
          (n4, acts) = discovery_tick w n3
      in (n4, saves @ acts))"

end
