(* ===== verification/Block_Assembly.thy ===== *)
theory Block_Assembly
  imports Chain_History "HOL-Library.Multiset"
begin

text \<open>
  The miner of \<^verbatim>\<open>src/main.c\<close>, up to the block it hands to the chain: the order in which pooled transactions are
  considered (\<^verbatim>\<open>CompareTransactionPriority\<close>, \<^verbatim>\<open>OrderSameSenderByTimestamp\<close>), the selection
  (\<^verbatim>\<open>BuildSpendableMempoolSelection\<close>), the candidate block (\<^verbatim>\<open>BuildNextBlock\<close>, \<^verbatim>\<open>AddCoinbaseTransaction\<close>) and the
  nonce search (\<^verbatim>\<open>MineBlock\<close>). The search always ends, and the block it finds is accepted by the chain under
  conditions on the selected transactions that are stated exactly.
\<close>

section \<open>Order of the candidates\<close>

abbreviation tx_sender :: "signed_transaction_t \<Rightarrow> address" where
  "tx_sender tx \<equiv> senderAddress (transaction tx)"

abbreviation tx_time :: "signed_transaction_t \<Rightarrow> u64" where
  "tx_time tx \<equiv> tx_timestamp (transaction tx)"

fun memcmp :: "byte list \<Rightarrow> byte list \<Rightarrow> int" where
  "memcmp (x # xs) (y # ys) = (if x < y then - 1 else if y < x then 1 else memcmp xs ys)"
| "memcmp xs ys = 0"

definition CompareTransactionPriority :: "crypto_env \<Rightarrow> signed_transaction_t \<Rightarrow> signed_transaction_t \<Rightarrow> int" where
  "CompareTransactionPriority E left right =
     (if fee (transaction left) > fee (transaction right) then - 1
      else if fee (transaction left) < fee (transaction right) then 1
      else memcmp (Transaction_CalculateHash E left) (Transaction_CalculateHash E right))"

text \<open>
  The \<^verbatim>\<open>qsort\<close> of the C library, as an insertion sort. Which algorithm it uses does not matter: the pool holds
  one transaction per hash, and then the sorted order is unique (\<open>qsort_any\<close>).
\<close>

fun insert_by :: "('a \<Rightarrow> 'a \<Rightarrow> int) \<Rightarrow> 'a \<Rightarrow> 'a list \<Rightarrow> 'a list" where
  "insert_by cmp x [] = [x]"
| "insert_by cmp x (y # ys) = (if cmp x y \<le> 0 then x # y # ys else y # insert_by cmp x ys)"

definition qsort :: "('a \<Rightarrow> 'a \<Rightarrow> int) \<Rightarrow> 'a list \<Rightarrow> 'a list" where
  "qsort cmp xs = foldr (insert_by cmp) xs []"

fun earliest_slot :: "signed_transaction_t list \<Rightarrow> nat \<Rightarrow> nat \<Rightarrow> nat list \<Rightarrow> nat" where
  "earliest_slot txs i earliest [] = earliest"
| "earliest_slot txs i earliest (j # js) =
     (if tx_sender (txs ! j) \<noteq> tx_sender (txs ! i) then earliest_slot txs i earliest js
      else if tx_time (txs ! j) < tx_time (txs ! earliest) then earliest_slot txs i j js
      else earliest_slot txs i earliest js)"

fun order_slots :: "signed_transaction_t list \<Rightarrow> nat list \<Rightarrow> signed_transaction_t list" where
  "order_slots txs [] = txs"
| "order_slots txs (i # is) =
     (if Address_IsCoinbase (tx_sender (txs ! i)) then order_slots txs is
      else let earliest = earliest_slot txs i i [Suc i..<length txs]
           in order_slots (if earliest \<noteq> i then txs[i := txs ! earliest, earliest := txs ! i] else txs) is)"

definition OrderSameSenderByTimestamp :: "signed_transaction_t list \<Rightarrow> signed_transaction_t list" where
  "OrderSameSenderByTimestamp txs = (if length txs < 2 then txs else order_slots txs [0..<length txs])"

definition BuildSpendableMempoolSelection ::
  "crypto_env \<Rightarrow> sheet \<Rightarrow> pool \<Rightarrow> byte list list \<Rightarrow> signed_transaction_t list \<times> u64" where
  "BuildSpendableMempoolSelection E s p order =
     (let snapshot = TxMempool_Snapshot p order;
          ordered = (if length snapshot > 1 then OrderSameSenderByTimestamp (qsort (CompareTransactionPriority E) snapshot)
                     else snapshot)
      in BalanceSheet_SelectSpendableTransactions E s ordered)"

section \<open>The candidate block\<close>

definition BuildNextBlock :: "crypto_env \<Rightarrow> blockchain_t \<Rightarrow> u32 \<Rightarrow> byte \<Rightarrow> u64 \<Rightarrow> block_t" where
  "BuildNextBlock E chain target dagVote now =
     (let prev = (if Chain_Size chain > 0 then
                    (case Chain_GetBlockCopy chain (Chain_Size chain - 1) of
                       Some lastBlock \<Rightarrow> Block_CalculateHash E lastBlock
                     | None \<Rightarrow> replicate 32 0)
                  else replicate 32 0)
      in Block_Create\<lparr> header := (header Block_Create)\<lparr> reserved := [dagVote, 0, 0], version := 1,
           blockNumber := of_nat (Chain_Size chain), prevHash := prev, timestamp := now,
           difficultyTarget := target, nonce := 0 \<rparr> \<rparr>)"

definition coinbase_tx :: "address \<Rightarrow> u64 \<Rightarrow> u64 \<Rightarrow> signed_transaction_t" where
  "coinbase_tx minerAddress reward now =
     Transaction_Init\<lparr> transaction := (transaction Transaction_Init)\<lparr> tx_version := 1, amount1 := reward, fee := 0,
       recipientAddress1 := minerAddress, recipientAddress2 := replicate 32 0, amount2 := 0,
       compressedPublicKey := replicate 33 0, senderAddress := replicate 32 0xFF, tx_timestamp := now \<rparr> \<rparr>"

definition AddCoinbaseTransaction :: "block_t \<Rightarrow> address \<Rightarrow> u64 \<Rightarrow> u64 \<Rightarrow> block_t" where
  "AddCoinbaseTransaction block minerAddress reward now = Block_AddTransaction block (coinbase_tx minerAddress reward now)"

text \<open>
  The block one round of the \<^verbatim>\<open>mine\<close> command starts from; \<open>None\<close> where reward and fees together overflow.
  \<open>now1\<close> and \<open>now2\<close> are the two readings of the clock.
\<close>

definition candidate_block :: "crypto_env \<Rightarrow> node_state \<Rightarrow> byte list list \<Rightarrow> address \<Rightarrow> byte \<Rightarrow> u64 \<Rightarrow> u64 \<Rightarrow> block_t option" where
  "candidate_block E st order minerAddress dagVote now1 now2 =
     (let (acceptedTxs, totalFees) = BuildSpendableMempoolSelection E (g_sheetMap st) (g_txMempool st) order;
          block = BuildNextBlock E (g_chain st) (Chain_GetTargetForHeight (g_chain st) (Chain_Size (g_chain st))) dagVote now1
      in if UINT64_MAX - g_currentReward st < totalFees then None
         else Some (foldl Block_AddTransaction
                      (AddCoinbaseTransaction block minerAddress (g_currentReward st + totalFees) now2) acceptedTxs))"

section \<open>The nonce search\<close>

definition MINING_TIMESTAMP_REFRESH_MS :: u64 where "MINING_TIMESTAMP_REFRESH_MS = 2"
definition MINING_TIMESTAMP_CHECK_NONCES :: u64 where "MINING_TIMESTAMP_CHECK_NONCES = 16"

definition with_nonce :: "block_t \<Rightarrow> u64 \<Rightarrow> block_t" where
  "with_nonce b x = b\<lparr> header := (header b)\<lparr> nonce := x \<rparr> \<rparr>"

definition with_time :: "block_t \<Rightarrow> u64 \<Rightarrow> block_t" where
  "with_time b x = b\<lparr> header := (header b)\<lparr> timestamp := x \<rparr> \<rparr>"

definition room :: "u64 \<Rightarrow> nat" where
  "room x = 2 ^ 64 - unat x"

lemma nonce_rises: "n \<noteq> UINT64_MAX \<Longrightarrow> room (n + 1) < room n"
  using unat_lt_64 [of n] unat_lt_64 [of "n + 1"]
  by (auto simp: room_def unat_arith_simps split: if_splits)

lemma stamp_rises: "a < b \<Longrightarrow> room b < room a"
  using unat_lt_64 [of b] by (simp add: word_less_nat_alt room_def)

text \<open>
  The two nested loops of \<^verbatim>\<open>MineBlock\<close>; \<open>clock k\<close> is the \<open>k\<close>-th reading of the clock. Every refresh moves the
  timestamp strictly forward and every other round raises the nonce, so the loops end for every clock.
\<close>

function mine_loop :: "(block_t \<Rightarrow> bool) \<Rightarrow> (nat \<Rightarrow> u64) \<Rightarrow> block_t \<Rightarrow> u64 \<Rightarrow> u64 \<Rightarrow> nat \<Rightarrow> block_t \<times> bool" where
  "mine_loop powOk clock block n stampedAt k =
     (let b = with_nonce block n in
      if powOk b then (b, True)
      else if n = UINT64_MAX then (b, False)
      else if (n + 1) mod MINING_TIMESTAMP_CHECK_NONCES \<noteq> 0 then mine_loop powOk clock b (n + 1) stampedAt k
      else let now = clock k in
        if now > stampedAt \<and> now - stampedAt \<ge> MINING_TIMESTAMP_REFRESH_MS
        then mine_loop powOk clock (with_time b now) 0 now (Suc k)
        else mine_loop powOk clock b (n + 1) stampedAt (Suc k))"
  by pat_completeness auto

termination
  by (relation "measures [\<lambda>(powOk, clock, block, n, stampedAt, k). room stampedAt,
      \<lambda>(powOk, clock, block, n, stampedAt, k). room n]") (auto intro: nonce_rises stamp_rises)

declare mine_loop.simps [simp del]

text \<open>\<open>ref\<close> and \<open>reallocOk\<close> are the answers of the allocator to the DAG, without which the search is only slower.\<close>

definition MineBlock ::
  "crypto_env \<Rightarrow> (byte list \<Rightarrow> u64 \<Rightarrow> u32 \<Rightarrow> byte list \<Rightarrow> bool) option \<Rightarrow> bool \<Rightarrow> (nat \<Rightarrow> u64) \<Rightarrow> node_state \<Rightarrow> block_t
     \<Rightarrow> node_state \<times> block_t \<times> bool" where
  "MineBlock E ref reallocOk clock st block =
     (let height = blockNumber (header block);
          (chain', params) = Chain_DagParamsForHeightLocked E (g_chain st) (unat height);
          st1 = st\<lparr> g_chain := chain' \<rparr>
      in case params of
           None \<Rightarrow> (st1, block, False)
         | Some (dagBytes, seed) \<Rightarrow>
             (let epochIndex = height div of_nat EPOCH_LENGTH;
                  pow = fst (Block_EnsureAutolykos2Dag E ref reallocOk (g_pow st) epochIndex dagBytes seed);
                  (b, found) = mine_loop (\<lambda>b. Block_HasValidProofOfWorkWithParams E pow b epochIndex dagBytes seed)
                                 clock block 0 (timestamp (header block)) 0
              in (st1\<lparr> g_pow := pow \<rparr>, b, found)))"

text \<open>The first part of \<^verbatim>\<open>MineAndAppendBlock\<close>: merkle root, search, append.\<close>

definition with_merkle :: "crypto_env \<Rightarrow> block_t \<Rightarrow> block_t" where
  "with_merkle E b =
     (case Block_CalculateMerkleRoot E b of None \<Rightarrow> b | Some r \<Rightarrow> b\<lparr> header := (header b)\<lparr> merkleRoot := r \<rparr> \<rparr>)"

definition mine_and_add ::
  "crypto_env \<Rightarrow> (byte list \<Rightarrow> u64 \<Rightarrow> u32 \<Rightarrow> byte list \<Rightarrow> bool) option \<Rightarrow> bool \<Rightarrow> (nat \<Rightarrow> u64) \<Rightarrow> node_state \<Rightarrow> block_t
     \<Rightarrow> node_state \<times> block_t \<times> bool" where
  "mine_and_add E ref reallocOk clock st block =
     (case MineBlock E ref reallocOk clock st (with_merkle E block) of
        (st1, b, False) \<Rightarrow> (st1, b, False)
      | (st1, b, True) \<Rightarrow> (case Chain_AddBlock E st1 b of (st2, ok) \<Rightarrow> (st2, b, ok)))"

section \<open>Sorting\<close>

lemma mset_insert_by: "mset (insert_by cmp x ys) = add_mset x (mset ys)"
  by (induction ys) auto

lemma mset_qsort: "mset (qsort cmp xs) = mset xs"
  by (induction xs) (simp_all add: qsort_def mset_insert_by)

lemma sorted_insert_by:
  assumes "\<And>x y z. cmp x y \<le> 0 \<Longrightarrow> cmp y z \<le> 0 \<Longrightarrow> cmp x z \<le> 0" "\<And>x y. \<not> cmp x y \<le> 0 \<Longrightarrow> cmp y x \<le> 0"
    and "sorted_wrt (\<lambda>x y. cmp x y \<le> 0) ys"
  shows "sorted_wrt (\<lambda>x y. cmp x y \<le> 0) (insert_by cmp x ys)"
  using assms(3)
proof (induction ys)
  case (Cons y ys)
  have "set (insert_by cmp x ys) = insert x (set ys)"
    using mset_insert_by [of cmp x ys] by (metis set_mset_add_mset_insert set_mset_mset)
  moreover have "\<forall>z\<in>set ys. cmp x z \<le> 0" if "cmp x y \<le> 0" using that Cons.prems assms(1) by (meson sorted_wrt.simps(2))
  ultimately show ?case using Cons.IH Cons.prems assms(2) [of x y] by simp
qed simp

text \<open>A sorted arrangement is unique when the order is antisymmetric on the elements.\<close>

lemma sorted_wrt_unique:
  assumes "sorted_wrt R xs" "sorted_wrt R ys" "mset xs = mset ys"
    and "\<forall>x\<in>set xs. \<forall>y\<in>set xs. R x y \<longrightarrow> R y x \<longrightarrow> x = y"
  shows "xs = ys"
  using assms
proof (induction xs arbitrary: ys)
  case (Cons x xs)
  obtain y ys' where ys: "ys = y # ys'" using Cons.prems(3) by (cases ys) auto
  have set: "set ys = set (x # xs)" using Cons.prems(3) by (metis set_mset_mset)
  have "x = y"
  proof (rule ccontr)
    assume "x \<noteq> y"
    then have "y \<in> set xs" "x \<in> set ys'" using set ys by auto
    then show False using Cons.prems(1,2,4) ys \<open>x \<noteq> y\<close> by auto
  qed
  then show ?case using Cons.IH [of ys'] Cons.prems ys by simp
qed simp

lemma memcmp_le_trans:
  "length x = length y \<Longrightarrow> length y = length z \<Longrightarrow> memcmp x y \<le> 0 \<Longrightarrow> memcmp y z \<le> 0 \<Longrightarrow> memcmp x z \<le> 0"
proof (induction x y arbitrary: z rule: memcmp.induct)
  case (1 x xs y ys)
  then obtain z' zs where z: "z = z' # zs" by (cases z) auto
  then show ?case using 1 by (auto split: if_splits)
qed auto

lemma memcmp_swap: "memcmp x y = - memcmp y x"
  by (induction x y rule: memcmp.induct) auto

lemma memcmp_eq: "length x = length y \<Longrightarrow> memcmp x y = 0 \<longleftrightarrow> x = y"
  by (induction x y rule: memcmp.induct) auto

lemma length_txhash: "\<forall>x. length (SHA256 E x) = 32 \<Longrightarrow> length (Transaction_CalculateHash E t) = 32"
  by (simp add: Transaction_CalculateHash_def crypto_hash_to_32_def)

lemma Compare_total: "CompareTransactionPriority E x y = - CompareTransactionPriority E y x"
  using memcmp_swap [of "Transaction_CalculateHash E x"] by (auto simp: CompareTransactionPriority_def)

lemma Compare_trans:
  assumes "\<forall>x. length (SHA256 E x) = 32" "CompareTransactionPriority E x y \<le> 0" "CompareTransactionPriority E y z \<le> 0"
  shows "CompareTransactionPriority E x z \<le> 0"
proof -
  have l: "length (Transaction_CalculateHash E t) = 32" for t using assms(1) by (rule length_txhash)
  show ?thesis
    using assms(2,3) memcmp_le_trans [of "Transaction_CalculateHash E x" "Transaction_CalculateHash E y" "Transaction_CalculateHash E z"]
    by (auto simp: CompareTransactionPriority_def l split: if_splits)
qed

lemma qsort_sorted:
  assumes "\<forall>x. length (SHA256 E x) = 32"
  shows "sorted_wrt (\<lambda>x y. CompareTransactionPriority E x y \<le> 0) (qsort (CompareTransactionPriority E) xs)"
proof -
  have total: "CompareTransactionPriority E y x \<le> 0" if "\<not> CompareTransactionPriority E x y \<le> 0" for x y
    using that Compare_total [of E x y] by simp
  have "sorted_wrt (\<lambda>x y. CompareTransactionPriority E x y \<le> 0) (insert_by (CompareTransactionPriority E) x ys)"
    if "sorted_wrt (\<lambda>x y. CompareTransactionPriority E x y \<le> 0) ys" for x ys
    by (rule sorted_insert_by [of "CompareTransactionPriority E"]) (use Compare_trans [OF assms] total that in blast)+
  then show ?thesis unfolding qsort_def by (induction xs) simp_all
qed

text \<open>Whatever sorting algorithm the C library uses, the result on a pool with one transaction per hash is this one.\<close>

lemma qsort_any:
  assumes "\<forall>x. length (SHA256 E x) = 32" "inj_on (Transaction_CalculateHash E) (set xs)"
    and "mset ys = mset xs" "sorted_wrt (\<lambda>x y. CompareTransactionPriority E x y \<le> 0) ys"
  shows "ys = qsort (CompareTransactionPriority E) xs"
proof (rule sorted_wrt_unique [OF assms(4) qsort_sorted [OF assms(1)]])
  show "mset ys = mset (qsort (CompareTransactionPriority E) xs)" by (simp add: mset_qsort assms(3))
  have s: "set ys = set xs" using assms(3) by (metis set_mset_mset)
  show "\<forall>x\<in>set ys. \<forall>y\<in>set ys. CompareTransactionPriority E x y \<le> 0 \<longrightarrow> CompareTransactionPriority E y x \<le> 0 \<longrightarrow> x = y"
  proof (intro ballI impI)
    fix x y assume xy: "x \<in> set ys" "y \<in> set ys" "CompareTransactionPriority E x y \<le> 0" "CompareTransactionPriority E y x \<le> 0"
    then have "CompareTransactionPriority E x y = 0" using Compare_total [of E x y] by simp
    then have "memcmp (Transaction_CalculateHash E x) (Transaction_CalculateHash E y) = 0"
      by (simp add: CompareTransactionPriority_def split: if_splits)
    then have "Transaction_CalculateHash E x = Transaction_CalculateHash E y"
      using memcmp_eq length_txhash [OF assms(1)] by metis
    then show "x = y" using assms(2) s xy(1,2) by (auto dest: inj_onD)
  qed
qed

section \<open>Same-sender ordering\<close>

text \<open>\<open>in_time x y\<close>: a spend \<open>y\<close> that comes after \<open>x\<close> is not older when both have the same sender.\<close>

definition in_time :: "signed_transaction_t \<Rightarrow> signed_transaction_t \<Rightarrow> bool" where
  "in_time x y \<longleftrightarrow> Address_IsCoinbase (tx_sender x) \<or> tx_sender x \<noteq> tx_sender y \<or> tx_time x \<le> tx_time y"

lemma earliest_slot_facts:
  assumes "earliest_slot txs i e js = r" "tx_sender (txs ! e) = tx_sender (txs ! i)"
  shows "r \<in> insert e (set js) \<and> tx_sender (txs ! r) = tx_sender (txs ! i) \<and> tx_time (txs ! r) \<le> tx_time (txs ! e) \<and>
    (\<forall>j\<in>set js. tx_sender (txs ! j) = tx_sender (txs ! i) \<longrightarrow> tx_time (txs ! r) \<le> tx_time (txs ! j))"
  using assms
proof (induction txs i e js arbitrary: r rule: earliest_slot.induct)
  case (2 txs i e j js)
  consider "tx_sender (txs ! j) \<noteq> tx_sender (txs ! i)" | "tx_sender (txs ! j) = tx_sender (txs ! i)" "tx_time (txs ! j) < tx_time (txs ! e)"
    | "tx_sender (txs ! j) = tx_sender (txs ! i)" "\<not> tx_time (txs ! j) < tx_time (txs ! e)" by blast
  then show ?case
  proof cases
    case 1
    then show ?thesis using "2.IH"(1) [OF 1] "2.prems" by auto
  next
    case 2
    then show ?thesis using "2.IH"(2) [of r] "2.prems" by (auto intro: order_trans less_imp_le)
  next
    case 3
    then show ?thesis using "2.IH"(3) [of r] "2.prems" by (auto intro: order_trans)
  qed
qed auto

lemma map_swap_same:
  assumes "i < length xs" "j < length xs" "f (xs ! i) = f (xs ! j)"
  shows "map f (xs[i := xs ! j, j := xs ! i]) = map f xs"
  using assms by (auto intro!: nth_equalityI simp: nth_list_update)

text \<open>After round \<open>i\<close> the transaction in slot \<open>i\<close> is in time with respect to all later ones.\<close>

lemma order_step:
  assumes "i < length txs" "\<forall>a<i. \<forall>b<length txs. a < b \<longrightarrow> in_time (txs ! a) (txs ! b)"
    and "\<not> Address_IsCoinbase (tx_sender (txs ! i))" "e = earliest_slot txs i i [Suc i..<length txs]"
    and "txs' = (if e \<noteq> i then txs[i := txs ! e, e := txs ! i] else txs)"
  shows "mset txs' = mset txs" and "map tx_sender txs' = map tx_sender txs" and "length txs' = length txs"
    and "\<forall>a<Suc i. \<forall>b<length txs. a < b \<longrightarrow> in_time (txs' ! a) (txs' ! b)"
proof -
  note f = earliest_slot_facts [OF assms(4) [symmetric] refl]
  have e: "i \<le> e" "e < length txs" using f assms(1) by auto
  have s: "tx_sender (txs ! e) = tx_sender (txs ! i)" using f by blast
  show "mset txs' = mset txs" using assms(1,5) e mset_swap [of e txs i] by auto
  show "length txs' = length txs" by (simp add: assms(5))
  show "map tx_sender txs' = map tx_sender txs"
    using assms(5) map_swap_same [of i txs e tx_sender] assms(1) e(2) s by auto
  have nth: "txs' ! b = (if b = i then txs ! e else if b = e then txs ! i else txs ! b)" if "b < length txs" for b
    using that assms(1,5) e by (auto simp: nth_list_update)
  show "\<forall>a<Suc i. \<forall>b<length txs. a < b \<longrightarrow> in_time (txs' ! a) (txs' ! b)"
  proof (intro allI impI)
    fix a b assume ab: "a < Suc i" "b < length txs" "a < b"
    show "in_time (txs' ! a) (txs' ! b)"
    proof (cases "a = i")
      case True
      have "tx_time (txs ! e) \<le> tx_time (txs ! b)" if "tx_sender (txs ! b) = tx_sender (txs ! i)"
        using f that ab True by auto
      then show ?thesis using True nth [of a] nth [of b] ab f s by (auto simp: in_time_def)
    next
      case False
      then have "a < i" using ab by simp
      then show ?thesis using nth [of a] nth [of b] assms(1,2) ab e by auto
    qed
  qed
qed

lemma order_slots_facts:
  assumes "k \<le> length txs" "\<forall>a<k. \<forall>b<length txs. a < b \<longrightarrow> in_time (txs ! a) (txs ! b)"
  shows "let r = order_slots txs [k..<length txs] in
    mset r = mset txs \<and> map tx_sender r = map tx_sender txs \<and> sorted_wrt in_time r"
  using assms
proof (induction "length txs - k" arbitrary: k txs)
  case 0
  then show ?case by (auto simp: Let_def sorted_wrt_iff_nth_less)
next
  case (Suc m)
  then have k: "k < length txs" "[k..<length txs] = k # [Suc k..<length txs]" by (simp_all add: upt_conv_Cons)
  show ?case
  proof (cases "Address_IsCoinbase (tx_sender (txs ! k))")
    case True
    have "\<forall>a<Suc k. \<forall>b<length txs. a < b \<longrightarrow> in_time (txs ! a) (txs ! b)"
      using Suc.prems(2) True by (auto simp: less_Suc_eq in_time_def)
    then show ?thesis using Suc.hyps(1) [of txs "Suc k"] Suc.hyps(2) k True by simp
  next
    case False
    let ?e = "earliest_slot txs k k [Suc k..<length txs]"
    let ?t = "if ?e \<noteq> k then txs[k := txs ! ?e, ?e := txs ! k] else txs"
    note o = order_step [OF k(1) Suc.prems(2) False refl, of ?t, OF refl]
    have "order_slots txs [k..<length txs] = order_slots ?t [Suc k..<length ?t]"
      using False k o(3) by (simp add: Let_def)
    then show ?thesis using Suc.hyps(1) [of ?t "Suc k"] Suc.hyps(2) k o by simp
  qed
qed

lemma OrderSameSender_facts:
  "mset (OrderSameSenderByTimestamp txs) = mset txs" "map tx_sender (OrderSameSenderByTimestamp txs) = map tx_sender txs"
  "sorted_wrt in_time (OrderSameSenderByTimestamp txs)"
proof -
  have "sorted_wrt in_time txs" if "length txs < 2"
    using that by (cases txs) (auto simp: sorted_wrt_iff_nth_less)
  then show "mset (OrderSameSenderByTimestamp txs) = mset txs" "map tx_sender (OrderSameSenderByTimestamp txs) = map tx_sender txs"
    "sorted_wrt in_time (OrderSameSenderByTimestamp txs)"
    using order_slots_facts [of 0 txs] by (simp_all add: OrderSameSenderByTimestamp_def Let_def)
qed

section \<open>Selection\<close>

lemma spec_select_set: "set (fst (spec_select E b txs)) \<subseteq> {tx \<in> set txs. \<not> is_coinbase_tx tx \<and> Transaction_Verify E tx}"
  by (induction E b txs rule: spec_select.induct) (auto simp: Let_def case_prod_unfold is_coinbase_tx_def)

lemma spec_select_sorted: "sorted_wrt R txs \<Longrightarrow> sorted_wrt R (fst (spec_select E b txs))"
proof (induction txs arbitrary: b)
  case (Cons tx txs)
  then show ?case using spec_select_set [of E _ txs] by (auto simp: Let_def case_prod_unfold)
qed simp

text \<open>Selecting again from what was selected changes nothing.\<close>

lemma spec_select_idem: "fst (spec_select E b (fst (spec_select E b txs))) = fst (spec_select E b txs)"
  by (induction txs arbitrary: b) (auto simp: Let_def case_prod_unfold)

text \<open>For spends in time, the replay guard asks for new timestamps only.\<close>

lemma increasing_in_time:
  assumes "sorted_wrt in_time txs" "\<forall>tx\<in>set txs. \<not> is_coinbase_tx tx"
  shows "increasing_from f (map transaction txs) \<longleftrightarrow>
    (\<forall>tx\<in>set txs. f (tx_sender tx) < tx_time tx) \<and> distinct (map (\<lambda>tx. (tx_sender tx, tx_time tx)) txs)"
  using assms
proof (induction txs arbitrary: f)
  case (Cons tx txs)
  let ?f = "note_spend f (transaction tx)"
  have nc: "\<not> Address_IsCoinbase (tx_sender tx)" using Cons.prems(2) by (simp add: is_coinbase_tx_def)
  have f: "?f a = (if a = tx_sender tx then max (f a) (tx_time tx) else f a)" for a using nc by (simp add: note_spend_def)
  have le: "tx_time tx \<le> tx_time y" if "y \<in> set txs" "tx_sender y = tx_sender tx" for y
    using Cons.prems(1) that nc by (auto simp: in_time_def)
  have IH: "increasing_from ?f (map transaction txs) \<longleftrightarrow>
      (\<forall>y\<in>set txs. ?f (tx_sender y) < tx_time y) \<and> distinct (map (\<lambda>tx. (tx_sender tx, tx_time tx)) txs)"
    using Cons by simp
  have "(?f (tx_sender y) < tx_time y) \<longleftrightarrow> f (tx_sender y) < tx_time y \<and> (tx_sender tx, tx_time tx) \<noteq> (tx_sender y, tx_time y)"
    if "y \<in> set txs" for y
    using le [OF that] by (auto simp: f)
  then have "(\<forall>y\<in>set txs. ?f (tx_sender y) < tx_time y) \<longleftrightarrow> (\<forall>y\<in>set txs. f (tx_sender y) < tx_time y) \<and>
      (tx_sender tx, tx_time tx) \<notin> (\<lambda>y. (tx_sender y, tx_time y)) ` set txs" by blast
  then show ?case using IH nc by auto
qed simp

lemma coinbase_and_fees_spends:
  assumes "\<forall>tx\<in>set txs. \<not> is_coinbase_tx tx \<and> Transaction_Verify E tx" "unat acc + fees_of txs < 2 ^ 64"
  shows "coinbase_and_fees E expected txs True acc = Some (acc + of_nat (fees_of txs))"
  using assms
proof (induction txs arbitrary: acc)
  case (Cons tx txs)
  let ?f = "fee (transaction tx)"
  have s: "unat acc + unat ?f < 2 ^ 64" using Cons.prems(2) by (simp add: fees_of_def)
  then have u: "unat (acc + ?f) = unat acc + unat ?f" by (simp add: unat_word_ariths)
  have "\<not> UINT64_MAX - acc < ?f" using s unat_lt_64 [of acc] by (simp add: word_less_nat_alt unat_sub word_le_nat_alt)
  then have "coinbase_and_fees E expected (tx # txs) True acc = coinbase_and_fees E expected txs True (acc + ?f)"
    using Cons.prems(1) by (simp add: Let_def is_coinbase_tx_def)
  also have "\<dots> = Some (acc + ?f + of_nat (fees_of txs))"
    using Cons.IH [of "acc + ?f"] Cons.prems u by (simp add: fees_of_def)
  finally show ?case by (simp add: fees_of_def)
qed (simp add: fees_of_def)

section \<open>Search results\<close>

lemma with_simps [simp]:
  "transactions (with_nonce b x) = transactions b" "transactions (with_time b x) = transactions b"
  "with_nonce (with_nonce b x) y = with_nonce b y" "with_time (with_nonce b x) y = with_nonce (with_time b y) x"
  "with_time (with_time b x) y = with_time b y" "header (with_nonce b x) = (header b)\<lparr> nonce := x \<rparr>"
  "header (with_time b x) = (header b)\<lparr> timestamp := x \<rparr>"
  by (simp_all add: with_nonce_def with_time_def)

lemma mine_loop_facts:
  assumes "mine_loop powOk clock block n stampedAt k = (b, found)" "\<forall>x<n. \<not> powOk (with_nonce block x)"
    and "timestamp (header block) = stampedAt"
  shows "(found \<longrightarrow> powOk b) \<and> (\<not> found \<longrightarrow> (\<forall>x. \<not> powOk (with_nonce b x))) \<and>
    (\<exists>x t. b = with_nonce (with_time block t) x \<and> stampedAt \<le> t)"
  using assms
proof (induction powOk clock block n stampedAt k rule: mine_loop.induct)
  case (1 powOk clock block n stampedAt k)
  let ?b = "with_nonce block n"
  have self: "?b = with_nonce (with_time block stampedAt) n"
    using "1.prems"(3) by (auto simp: with_nonce_def with_time_def)
  note eq = "1.prems"(1) [unfolded mine_loop.simps [of powOk clock block n stampedAt k] Let_def]
  have tried: "\<forall>x<n + 1. \<not> powOk (with_nonce ?b x)" if "\<not> powOk ?b" "n \<noteq> UINT64_MAX"
  proof (intro allI impI)
    fix x assume "x < n + 1"
    moreover have "unat (n + 1) = unat n + 1" using that(2) unat_lt_64 [of n] by (auto simp: unat_arith_simps split: if_splits)
    ultimately have "x < n \<or> x = n" by (auto simp: word_less_nat_alt less_Suc_eq word_unat_eq_iff)
    then show "\<not> powOk (with_nonce ?b x)" using that(1) "1.prems"(2) by auto
  qed
  consider "powOk ?b" | "\<not> powOk ?b" "n = UINT64_MAX"
    | "\<not> powOk ?b" "n \<noteq> UINT64_MAX" "(n + 1) mod MINING_TIMESTAMP_CHECK_NONCES \<noteq> 0"
    | "\<not> powOk ?b" "n \<noteq> UINT64_MAX" "\<not> (n + 1) mod MINING_TIMESTAMP_CHECK_NONCES \<noteq> 0"
      "clock k > stampedAt \<and> clock k - stampedAt \<ge> MINING_TIMESTAMP_REFRESH_MS"
    | "\<not> powOk ?b" "n \<noteq> UINT64_MAX" "\<not> (n + 1) mod MINING_TIMESTAMP_CHECK_NONCES \<noteq> 0"
      "\<not> (clock k > stampedAt \<and> clock k - stampedAt \<ge> MINING_TIMESTAMP_REFRESH_MS)" by argo
  then show ?case
  proof cases
    case 1
    then have "(b, found) = (?b, True)" using eq by simp
    then show ?thesis using 1 self by blast
  next
    case 2
    have "x < n \<or> x = n" for x :: u64 using 2(2) unat_lt_64 [of x] by (auto simp: word_less_nat_alt word_unat_eq_iff)
    then have "\<forall>x. \<not> powOk (with_nonce ?b x)" using 2(1) "1.prems"(2) by (metis with_simps(3))
    moreover have "(b, found) = (?b, False)" using eq 2 by simp
    ultimately show ?thesis using self by blast
  next
    case 3
    then show ?thesis using "1.IH"(1) [OF refl 3] eq tried [OF 3(1,2)] "1.prems"(3) by simp
  next
    case 4
    have r: "mine_loop powOk clock (with_time ?b (clock k)) 0 (clock k) (Suc k) = (b, found)" using eq 4 by simp
    have "(found \<longrightarrow> powOk b) \<and> (\<not> found \<longrightarrow> (\<forall>x. \<not> powOk (with_nonce b x))) \<and>
        (\<exists>x t. b = with_nonce (with_time (with_time ?b (clock k)) t) x \<and> clock k \<le> t)"
      using "1.IH"(2) [OF refl 4(1-3) refl 4(4) r] by simp
    then show ?thesis using 4(4) by (metis less_imp_le order_trans with_simps(3-5))
  next
    case 5
    have "mine_loop powOk clock ?b (n + 1) stampedAt (Suc k) = (b, found)"
      using eq unfolding if_not_P [OF 5(1)] if_not_P [OF 5(2)] if_not_P [OF 5(3)] if_not_P [OF 5(4)] .
    then show ?thesis using "1.IH"(3) [OF refl 5(1-3) refl 5(4)] tried [OF 5(1,2)] "1.prems"(3) by simp
  qed
qed

lemma MineBlock_facts:
  assumes "MineBlock E ref reallocOk clock st block = (st1, b, found)" "dag_cache_ok (g_chain st)"
  shows "\<exists>cache pow x t. st1 = (with_cache st cache)\<lparr> g_pow := pow \<rparr> \<and> dag_cache_ok ((g_chain st)\<lparr> dagEpochs := cache \<rparr>) \<and>
    b = with_nonce (with_time block t) x \<and> timestamp (header block) \<le> t \<and>
    (found \<longrightarrow> (\<exists>dagBytes seed. dag_params_spec E (blocks (g_chain st)) (unat (blockNumber (header block))) = Some (dagBytes, seed) \<and>
       Block_HasValidProofOfWorkWithParams E pow b (blockNumber (header block) div of_nat EPOCH_LENGTH) dagBytes seed))"
proof -
  let ?h = "blockNumber (header block)"
  obtain cache where c: "Chain_DagParamsForHeightLocked E (g_chain st) (unat ?h) =
      ((g_chain st)\<lparr> dagEpochs := cache \<rparr>, dag_params_spec E (blocks (g_chain st)) (unat ?h))"
    "dag_cache_ok ((g_chain st)\<lparr> dagEpochs := cache \<rparr>)"
    using DagParams_spec [OF assms(2)] by blast
  have self: "block = with_nonce (with_time block (timestamp (header block))) (nonce (header block))"
    by (simp add: with_nonce_def with_time_def)
  show ?thesis
  proof (cases "dag_params_spec E (blocks (g_chain st)) (unat ?h)")
    case None
    then have "st1 = with_cache st cache" "b = block" "\<not> found"
      using assms(1) c(1) by (simp_all add: MineBlock_def Let_def with_cache_def)
    then show ?thesis
      using c(2) self by (intro exI [of _ cache] exI [of _ "g_pow st"] exI [of _ "nonce (header block)"]
          exI [of _ "timestamp (header block)"]) simp
  next
    case (Some params)
    obtain dagBytes seed where params: "params = (dagBytes, seed)" by fastforce
    let ?ep = "?h div of_nat EPOCH_LENGTH"
    let ?pow = "fst (Block_EnsureAutolykos2Dag E ref reallocOk (g_pow st) ?ep dagBytes seed)"
    let ?ok = "\<lambda>b. Block_HasValidProofOfWorkWithParams E ?pow b ?ep dagBytes seed"
    have l: "mine_loop ?ok clock block 0 (timestamp (header block)) 0 = (b, found)" "st1 = (with_cache st cache)\<lparr> g_pow := ?pow \<rparr>"
      using assms(1) c(1) Some params by (auto simp: MineBlock_def Let_def with_cache_def split: prod.splits)
    note f = mine_loop_facts [OF l(1) _ refl]
    obtain x t where xt: "b = with_nonce (with_time block t) x" "timestamp (header block) \<le> t" using f by auto
    show ?thesis
      using c(2) l(2) xt f Some params
      by (intro exI [of _ cache] exI [of _ ?pow] exI [of _ x] exI [of _ t]) auto
  qed
qed

section \<open>The candidate\<close>

lemma AddTransactions_simps:
  "transactions (foldl Block_AddTransaction block txs) = map_option (\<lambda>v. v @ txs) (transactions block)"
  "header (foldl Block_AddTransaction block txs) = header block"
  by (induction txs arbitrary: block)
    (simp_all add: Block_AddTransaction_def vec_push_back_def option.map_comp comp_def option.map_ident)

lemma coinbase_tx_simps [simp]:
  "tx_sender (coinbase_tx a r t) = replicate 32 0xFF" "amount1 (transaction (coinbase_tx a r t)) = r"
  "amount2 (transaction (coinbase_tx a r t)) = 0" "fee (transaction (coinbase_tx a r t)) = 0"
  "recipientAddress1 (transaction (coinbase_tx a r t)) = a" "recipientAddress2 (transaction (coinbase_tx a r t)) = replicate 32 0"
  by (simp_all add: coinbase_tx_def)

lemma coinbase_marker: "Address_IsCoinbase (replicate 32 0xFF)" "\<not> Address_IsCoinbase (replicate 32 0)"
  by (simp_all add: Address_IsCoinbase_def list_all_iff)

lemma coinbase_tx_verifies: "r \<noteq> 0 \<Longrightarrow> \<not> Address_IsCoinbase a \<Longrightarrow> Transaction_Verify E (coinbase_tx a r t)"
  by (simp add: Transaction_Verify_def Let_def coinbase_marker zeroAddress_def)

lemma candidate_facts:
  assumes "candidate_block E st order miner vote now1 now2 = Some block"
    and "BuildSpendableMempoolSelection E (g_sheetMap st) (g_txMempool st) order = (sel, fees)"
  shows "transactions block = Some (coinbase_tx miner (g_currentReward st + fees) now2 # sel)"
    and "blockNumber (header block) = of_nat (Chain_Size (g_chain st))"
    and "difficultyTarget (header block) = Chain_GetTargetForHeight (g_chain st) (Chain_Size (g_chain st))"
    and "0 < Chain_Size (g_chain st) \<Longrightarrow>
      prevHash (header block) = Block_CalculateHash E (blocks (g_chain st) ! (Chain_Size (g_chain st) - 1))"
    and "\<not> UINT64_MAX - g_currentReward st < fees"
  using assms
  by (auto simp: candidate_block_def AddTransactions_simps AddCoinbaseTransaction_def Block_AddTransaction_def Let_def
      vec_push_back_def BuildNextBlock_def Block_Create_def Chain_GetBlockCopy_def vec_get_def Chain_Size_def
      Block_Copy_def Block_CalculateHash_def
      split: if_splits option.splits)

lemma MineBlock_reachable:
  assumes "reached E c st" "MineBlock E ref reallocOk clock st block = (st1, b, found)"
  shows "reached E c st1" "blocks (g_chain st1) = blocks (g_chain st)" "disk st1 = disk st"
proof -
  let ?h = "blockNumber (header block)"
  obtain chain' params where d: "Chain_DagParamsForHeightLocked E (g_chain st) (unat ?h) = (chain', params)" by fastforce
  let ?st1 = "st\<lparr> g_chain := chain' \<rparr>"
  have r: "reached E c ?st1" using reach_keeps [OF assms(1) step_params [of E st "unat ?h"]] d by simp
  have "reached E c (?st1\<lparr> g_pow := fst (Block_EnsureAutolykos2Dag E ref reallocOk (g_pow st) ep bytes seed) \<rparr>)" for ep bytes seed
    by (rule reach_keeps [OF r step_dag [OF pow_ensure [OF reached_pow [OF assms(1)]]]])
  then show "reached E c st1"
    using assms(2) d r by (auto simp: MineBlock_def Let_def case_prod_unfold split: option.splits)
  have "dag_cache_ok (g_chain st)" using reached_chain [OF assms(1)] by (simp add: chain_inv_def)
  from MineBlock_facts [OF assms(2) this] show "blocks (g_chain st1) = blocks (g_chain st)" "disk st1 = disk st" by auto
qed

lemma merkle_level_lengths: "\<forall>x. length (SHA256 E x) = 32 \<Longrightarrow> \<forall>h\<in>set (merkle_level E hs). length h = 32"
  by (induction E hs rule: merkle_level.induct) (auto simp: sha256d_def)

lemma length_merkle_loop: "\<forall>x. length (SHA256 E x) = 32 \<Longrightarrow> \<forall>h\<in>set hs. length h = 32 \<Longrightarrow> hs \<noteq> [] \<Longrightarrow> length (hd (merkle_loop E hs)) = 32"
proof (induction E hs rule: merkle_loop.induct)
  case (1 E hs)
  show ?case
  proof (cases "length hs > 1")
    case True
    have "\<forall>h\<in>set (merkle_level E hs). length h = 32" "merkle_level E hs \<noteq> []"
      using merkle_level_lengths [OF "1.prems"(1)] length_merkle_level [of E hs] True by auto
    then show ?thesis using "1.IH" [OF True] "1.prems"(1) True by (simp add: merkle_loop.simps [of E hs])
  next
    case False
    then show ?thesis using "1.prems" by (simp add: merkle_loop.simps [of E hs])
  qed
qed

text \<open>What the miner puts into the block has the sizes of the C types when its inputs have.\<close>

lemma mined_block_wf:
  assumes "candidate_block E st order miner vote now1 now2 = Some block"
    and "BuildSpendableMempoolSelection E (g_sheetMap st) (g_txMempool st) order = (sel, fees)"
    and "\<forall>x. length (SHA256 E x) = 32" "length miner = 32" "list_all stx_wf sel"
  shows "block_wf (with_nonce (with_time (with_merkle E block) t) x)"
    and "(\<forall>tx\<in>set sel. \<not> pays_nobody (transaction tx)) \<Longrightarrow> block_addressed (with_nonce (with_time (with_merkle E block) t) x)"
proof -
  let ?cb = "coinbase_tx miner (g_currentReward st + fees) now2"
  note cand = candidate_facts [OF assms(1,2)]
  have "stx_wf Transaction_Init" by (simp add: Transaction_Init_def stx_of_image_wf)
  then have cb: "stx_wf ?cb" using assms(4) by (simp add: coinbase_tx_def stx_wf_def tx_wf_def)
  have m: "length (merkle_root E (map (Transaction_CalculateHash E) (?cb # sel))) = 32"
    using length_merkle_loop [OF assms(3), of "map (Transaction_CalculateHash E) (?cb # sel)"] length_txhash [OF assms(3)]
    by (simp add: merkle_root_def)
  have "header block = header (BuildNextBlock E (g_chain st) (Chain_GetTargetForHeight (g_chain st) (Chain_Size (g_chain st))) vote now1)"
    using assms(1,2) by (auto simp: candidate_block_def AddTransactions_simps AddCoinbaseTransaction_def Block_AddTransaction_def Let_def split: if_splits)
  then have h: "length (prevHash (header block)) = 32" "length (reserved (header block)) = 3"
    using assms(3) by (auto simp: BuildNextBlock_def Let_def Block_CalculateHash_def split: option.split)
  show "block_wf (with_nonce (with_time (with_merkle E block) t) x)"
    using cand(1) cb assms(5) m h by (simp add: block_wf_def header_wf_def with_merkle_def Block_CalculateMerkleRoot_def)
  show "block_addressed (with_nonce (with_time (with_merkle E block) t) x)" if "\<forall>tx\<in>set sel. \<not> pays_nobody (transaction tx)"
    using cand(1) that by (simp add: block_addressed_def with_merkle_def Block_CalculateMerkleRoot_def payments_addressed_def pays_nobody_def)
qed

section \<open>Acceptance of the mined block\<close>

lemma validate_mined:
  assumes "sheet_inv s" "finite_balances (sheet_bal s)" "total_balance (sheet_bal s) < TWO256"
    and "transactions b = Some (cb # sel)" "sel = fst (spec_select E (sheet_bal s) candidates)"
    and "cb = coinbase_tx miner (reward + of_nat (fees_of sel)) now" "unat reward + fees_of sel < 2 ^ 64"
    and "reward \<noteq> 0" "\<not> Address_IsCoinbase miner"
  shows "validate_economics E s reward b (cb # sel) =
    (if increasing_from (last_ts s) (map transaction sel) then Some (reward + of_nat (fees_of sel)) else None)"
proof -
  let ?fees = "of_nat (fees_of sel) :: u64"
  have sel: "\<forall>tx\<in>set sel. \<not> is_coinbase_tx tx \<and> Transaction_Verify E tx"
    using spec_select_set [of E "sheet_bal s" candidates] assms(5) by blast
  have cbm: "is_coinbase_tx cb" using assms(6) by (simp add: is_coinbase_tx_def coinbase_marker)
  have u: "unat ?fees = fees_of sel" using assms(7) by (simp add: unat_of_nat)
  then have nz: "unat (reward + ?fees) = unat reward + fees_of sel" using assms(7) by (simp add: unat_word_ariths)
  then have "reward + ?fees \<noteq> 0" using assms(8) by (auto simp: unat_eq_0)
  then have ver: "Transaction_Verify E cb" unfolding assms(6) using assms(9) by (rule coinbase_tx_verifies)
  have "BalanceSheet_SelectSpendableTransactions E s (cb # sel) = (sel, ?fees)"
    using SelectSpendable_refines [OF assms(1-3), of E "cb # sel"] cbm assms(5) spec_select_idem [of E "sheet_bal s" candidates]
    by (simp add: is_coinbase_tx_def)
  moreover have "nonCoinbaseCount (cb # sel) = length sel"
    using sel cbm by (simp add: nonCoinbaseCount_def is_coinbase_tx_def filter_id_conv)
  moreover have "\<not> UINT64_MAX - reward < ?fees"
    using assms(7) u unat_lt_64 [of reward] by (simp add: word_less_nat_alt unat_sub word_le_nat_alt)
  moreover have "coinbase_and_fees E (reward + ?fees) (cb # sel) False 0 = Some ?fees"
    using coinbase_and_fees_spends [OF sel, of 0 "reward + ?fees"] cbm ver assms(6,7,9)
    by (simp add: Let_def is_coinbase_tx_def coinbase_marker zeroAddress_def)
  moreover have "ordering_loop s [] (cb # sel) \<longleftrightarrow> increasing_from (last_ts s) (map transaction sel)"
    using cbm by (simp add: ordering_loop_increasing note_spend_def is_coinbase_tx_def)
  ultimately show ?thesis
    using assms(4) by (simp add: validate_economics_def Block_ValidateCoinbaseAndFees_def Chain_BlockRespectsSenderOrdering_def Let_def)
qed

lemma accepted_AddBlock:
  assumes "chain_inv E st" "coins_inv st" "transactions b = Some txs"
  shows "snd (Chain_AddBlock E st b) \<longleftrightarrow> accepted E st b \<noteq> None \<and> payments_addressed txs"
proof -
  obtain cache where c: "dag_cache_ok ((g_chain st)\<lparr> dagEpochs := cache \<rparr>)" "Chain_AddBlockLocked E st b =
      (case accepted E st b of
         None \<Rightarrow> (with_cache st cache, False)
       | Some expected \<Rightarrow> commit E (with_cache st cache) b (the (transactions b)) expected)"
    using AddBlockLocked_eq assms(1) by (metis chain_inv_def)
  have "snd (Chain_AddBlock E st b) = snd (Chain_AddBlockLocked E st b)"
    using assms(3) by (simp add: Chain_AddBlock_def Let_def case_prod_unfold)
  also have "\<dots> \<longleftrightarrow> accepted E st b \<noteq> None \<and> payments_addressed txs"
    using c(2) commit_addressed [OF assms(1,2) _ assms(3) c(1)] assms(3)
    by (auto simp: commit_simps split: option.splits)
  finally show ?thesis .
qed

lemma selection_facts:
  assumes "sheet_inv s" "finite_balances (sheet_bal s)" "total_balance (sheet_bal s) < TWO256"
    and "BuildSpendableMempoolSelection E s p order = (sel, fees)"
  shows "fees = of_nat (fees_of sel)" "\<exists>candidates. sel = fst (spec_select E (sheet_bal s) candidates)" "sorted_wrt in_time sel"
    "\<forall>tx\<in>set sel. \<not> is_coinbase_tx tx \<and> Transaction_Verify E tx"
proof -
  obtain candidates where c: "sel = fst (spec_select E (sheet_bal s) candidates)" "fees = of_nat (fees_of sel)" "sorted_wrt in_time candidates"
  proof -
    let ?snap = "TxMempool_Snapshot p order"
    let ?c = "if length ?snap > 1 then OrderSameSenderByTimestamp (qsort (CompareTransactionPriority E) ?snap) else ?snap"
    have "sorted_wrt in_time ?c"
    proof (cases "length ?snap > 1")
      case False
      then show ?thesis by (cases ?snap) auto
    qed (simp add: OrderSameSender_facts)
    then show ?thesis
      using that [of ?c] assms(4) SelectSpendable_refines [OF assms(1-3), of E ?c] by (simp add: BuildSpendableMempoolSelection_def Let_def)
  qed
  then show "fees = of_nat (fees_of sel)" "\<exists>candidates. sel = fst (spec_select E (sheet_bal s) candidates)" "sorted_wrt in_time sel"
    using spec_select_sorted by auto
  show "\<forall>tx\<in>set sel. \<not> is_coinbase_tx tx \<and> Transaction_Verify E tx"
    using c(1) spec_select_set [of E "sheet_bal s" candidates] by blast
qed

lemma mined_accepted:
  assumes "chain_inv E st" "coins_inv st" "length (blocks (g_chain st)) < 2 ^ 64"
    and "candidate_block E st order miner vote now1 now2 = Some block"
    and "BuildSpendableMempoolSelection E (g_sheetMap st) (g_txMempool st) order = (sel, fees)"
    and "MineBlock E ref reallocOk clock st (with_merkle E block) = (st1, b, True)"
    and "unat (g_currentReward st) + fees_of sel < 2 ^ 64" "g_currentReward st \<noteq> 0" "\<not> Address_IsCoinbase miner"
  shows "chain_inv E st1 \<and> coins_inv st1 \<and> accepted E st1 b =
    (if increasing_from (last_ts (g_sheetMap st)) (map transaction sel) then Some (g_currentReward st + fees) else None)"
    and "transactions b = Some (coinbase_tx miner (g_currentReward st + fees) now2 # sel)"
    and "g_sheetMap st1 = g_sheetMap st" and "blocks (g_chain st1) = blocks (g_chain st)"
proof -
  let ?bl = "with_merkle E block" and ?s = "g_sheetMap st"
  note cand = candidate_facts [OF assms(4,5)]
  have mk: "transactions ?bl = transactions block" "blockNumber (header ?bl) = blockNumber (header block)"
    "prevHash (header ?bl) = prevHash (header block)" "difficultyTarget (header ?bl) = difficultyTarget (header block)"
    by (simp_all add: with_merkle_def split: option.split)
  have cache: "dag_cache_ok (g_chain st)" using assms(1) by (simp add: chain_inv_def)
  obtain cache pow x t dagBytes seed where m: "st1 = (with_cache st cache)\<lparr> g_pow := pow \<rparr>" "dag_cache_ok ((g_chain st)\<lparr> dagEpochs := cache \<rparr>)"
    "b = with_nonce (with_time ?bl t) x" "dag_params_spec E (blocks (g_chain st)) (unat (blockNumber (header ?bl))) = Some (dagBytes, seed)"
    "Block_HasValidProofOfWorkWithParams E pow b (blockNumber (header ?bl) div of_nat EPOCH_LENGTH) dagBytes seed"
    using MineBlock_facts [OF assms(6) cache] by auto
  show "g_sheetMap st1 = g_sheetMap st" "blocks (g_chain st1) = blocks (g_chain st)" by (simp_all add: m(1))
  show tb: "transactions b = Some (coinbase_tx miner (g_currentReward st + fees) now2 # sel)" using m(3) mk(1) cand(1) by simp
  have hb: "blockNumber (header b) = of_nat (length (blocks (g_chain st)))" "blockNumber (header b) = blockNumber (header ?bl)"
    "prevHash (header b) = prevHash (header block)" "difficultyTarget (header b) = difficultyTarget (header block)"
    using m(3) mk cand(2) by (simp_all add: Chain_Size_def)
  have n: "unat (blockNumber (header b)) = length (blocks (g_chain st))" using hb(1) assms(3) by (simp add: unat_of_nat)
  have tip: "extends_tip E (g_chain st1) b"
    using n m(1) hb(3) cand(4) by (auto simp: extends_tip_def Let_def vec_get_def Chain_Size_def)
  have si: "sheet_inv ?s" "finite_balances (sheet_bal ?s)" "total_balance (sheet_bal ?s) < TWO256"
    using assms(2) coins_room(1) [OF assms(1,2)] by (simp_all add: coins_inv_def)
  note sel = selection_facts [OF si assms(5)]
  obtain candidates where c: "sel = fst (spec_select E (sheet_bal ?s) candidates)" using sel(2) by blast
  have "accepted E st1 b = validate_economics E ?s (g_currentReward st) b (coinbase_tx miner (g_currentReward st + fees) now2 # sel)"
    using tip tb m(1,4,5) hb cand(3) GetTarget_blocks [of "g_chain (with_cache st cache)" "g_chain st"]
    by (simp add: accepted_def Chain_Size_def)
  also have "\<dots> = (if increasing_from (last_ts ?s) (map transaction sel) then Some (g_currentReward st + fees) else None)"
    using validate_mined [OF si tb c _ assms(7-9)] sel(1) by simp
  finally have "accepted E st1 b = \<dots>" .
  moreover have "chain_inv E st1"
    using assms(1) m(1,2) IsValid_blocks [of "(g_chain st)\<lparr> dagEpochs := cache \<rparr>" "g_chain st" E] by (simp add: chain_inv_def with_cache_def)
  moreover have "coins_inv st1" using assms(2) m(1) by (simp add: coins_inv_def)
  ultimately show "chain_inv E st1 \<and> coins_inv st1 \<and> accepted E st1 b =
    (if increasing_from (last_ts ?s) (map transaction sel) then Some (g_currentReward st + fees) else None)" by simp
qed

section \<open>Properties\<close>

text \<open>
  C20: when a mined block is accepted, exactly. In every state of the node with ledger and chain in step, for
  every content of the pool, the block that the miner assembles and finds a nonce for is appended if and only
  if every selected transaction is newer than the last one of its sender on the chain, no two of them have the
  same sender and the same timestamp, and none pays a second amount to nobody. (The order of the spends and
  their cover, the coinbase amount, difficulty and proof of work are never the reason for a refusal.) The
  selection itself checks none of these conditions, so one transaction that violates them makes every mined
  block fail while it is pooled. An appended block consists of a coinbase that pays the miner the reward plus
  the fees of all selected spends, followed by these spends, and the balances afterwards are the result of
  exactly these transfers.
\<close>

theorem mined_block_accepted_iff:
  assumes "reachable E st" and "length (blocks (g_chain st)) < 2 ^ 64"
    and "candidate_block E st order miner vote now1 now2 = Some block"
    and "BuildSpendableMempoolSelection E (g_sheetMap st) (g_txMempool st) order = (sel, fees)"
    and "MineBlock E ref reallocOk clock st (with_merkle E block) = (st1, b, True)"
    and "unat (g_currentReward st) + fees_of sel < 2 ^ 64" and "g_currentReward st \<noteq> 0" and "\<not> Address_IsCoinbase miner"
    and "mine_and_add E ref reallocOk clock st block = (st', b', ok)"
  shows "(ok \<longleftrightarrow> (\<forall>tx\<in>set sel. last_ts (g_sheetMap st) (tx_sender tx) < tx_time tx \<and> \<not> pays_nobody (transaction tx)) \<and>
      distinct (map (\<lambda>tx. (tx_sender tx, tx_time tx)) sel)) \<and>
    (ok \<longrightarrow> blocks (g_chain st') = blocks (g_chain st) @ [b'] \<and>
      (\<exists>coinbase. transactions b' = Some (coinbase # sel) \<and> recipientAddress1 (transaction coinbase) = miner \<and>
         unat (amount1 (transaction coinbase)) = unat (g_currentReward st) + fees_of sel \<and>
         spec_block (sheet_bal (g_sheetMap st)) (map transaction (coinbase # sel)) = Some (sheet_bal (g_sheetMap st'))))"
proof -
  let ?s = "g_sheetMap st" and ?cb = "coinbase_tx miner (g_currentReward st + fees) now2"
  have inv: "chain_inv E st" "coins_inv st" using reachable_inv [OF assms(1)] synced_coins by auto
  note acc = mined_accepted [OF inv assms(2-8)]
  have si: "sheet_inv ?s" "finite_balances (sheet_bal ?s)" "total_balance (sheet_bal ?s) < TWO256"
    using inv(2) coins_room(1) [OF inv] by (simp_all add: coins_inv_def)
  note sel = selection_facts [OF si assms(4)]
  have run: "Chain_AddBlock E st1 b = (st', ok)" "b' = b" using assms(5,9) by (auto simp: mine_and_add_def split: prod.splits)
  have "ok \<longleftrightarrow> snd (Chain_AddBlock E st1 b)" using run(1) by simp
  also have "\<dots> \<longleftrightarrow> increasing_from (last_ts ?s) (map transaction sel) \<and> payments_addressed (?cb # sel)"
    using accepted_AddBlock [OF _ _ acc(2)] acc(1) by auto
  also have "payments_addressed (?cb # sel) \<longleftrightarrow> (\<forall>tx\<in>set sel. \<not> pays_nobody (transaction tx))"
    by (auto simp: payments_addressed_def pays_nobody_def)
  finally have iff: "ok \<longleftrightarrow> (\<forall>tx\<in>set sel. last_ts ?s (tx_sender tx) < tx_time tx \<and> \<not> pays_nobody (transaction tx)) \<and>
      distinct (map (\<lambda>tx. (tx_sender tx, tx_time tx)) sel)" using increasing_in_time [OF sel(3)] sel(4) by auto
  have paid: "unat (amount1 (transaction ?cb)) = unat (g_currentReward st) + fees_of sel" "recipientAddress1 (transaction ?cb) = miner"
    using assms(6) sel(1) by (simp_all add: coinbase_tx_def unat_word_ariths unat_of_nat)
  have "\<exists>e. appended E st1 b (?cb # sel) e st'" if ok
    using AddBlock_appended [of E st1 b st'] acc(1,2) run(1) that by auto
  then show ?thesis using iff paid acc(2-4) run(2) by (auto simp: appended_def)
qed

text \<open>
  Ordering each sender's transactions keeps the fee ranking. The result is a permutation of the ranked
  list in which every position keeps its sender, and of two spends of one sender the one that comes first
  is not the newer one.
\<close>

lemma OrderSameSenderByTimestamp_correct:
  "let r = OrderSameSenderByTimestamp txs in
    mset r = mset txs \<and> map tx_sender r = map tx_sender txs \<and> sorted_wrt in_time r"
  using OrderSameSender_facts [of txs] by (simp add: Let_def)

text \<open>
  The nonce search ends whatever the clock shows, and its answer is right: a block that it reports has a
  valid proof of work and differs from the given one in the nonce and a timestamp that is not earlier; it
  reports failure only when no nonce at all solves the header with the timestamp it stopped at.
\<close>

lemma MineBlock_search:
  assumes "mine_loop powOk clock block 0 (timestamp (header block)) 0 = (b, found)"
  shows "(if found then powOk b else \<forall>x. \<not> powOk (with_nonce b x)) \<and>
    (\<exists>x t. b = with_nonce (with_time block t) x \<and> timestamp (header block) \<le> t)"
  using mine_loop_facts [OF assms _ refl] by simp

text \<open>A new node mines its first block.\<close>

definition first_candidate :: block_t where
  "first_candidate = the (candidate_block easy_env fresh_node [] (replicate 32 7) 0 0 0)"

lemma first_selection: "BuildSpendableMempoolSelection easy_env (g_sheetMap fresh_node) (g_txMempool fresh_node) [] = ([], 0)"
  by (simp add: BuildSpendableMempoolSelection_def fresh_node_def TxMempool_Snapshot_def TxMempool_Init_def
      List.map_filter_def BalanceSheet_SelectSpendableTransactions_def)

lemma first_candidate: "candidate_block easy_env fresh_node [] (replicate 32 7) 0 0 0 = Some first_candidate"
  using first_selection by (simp add: candidate_block_def first_candidate_def)

lemma easy_pow_any:
  assumes "DecodeCompactTarget (difficultyTarget (header block)) = Some target" "length target = 32" "\<not> g_dagReady pow"
  shows "Block_HasValidProofOfWorkWithParams easy_env pow block ep (2 * 2 ^ 30) sd"
proof -
  have "Block_PowHashHeavy easy_env p block ep (2 * 2 ^ 30) sd = None" if "\<not> g_dagReady p" for p
    using that by (simp add: Block_PowHashHeavy_def dag_usable_def split: option.split)
  from this [OF assms(3)] this [of pow_initial] show ?thesis
    using easy_pow [OF assms(1,2), of ep sd] assms(1)
    by (simp add: Block_HasValidProofOfWorkWithParams_def pow_initial_def split: option.splits)
qed

lemma first_found:
  "\<exists>st1 b. MineBlock easy_env None False (\<lambda>_. 0) fresh_node (with_merkle easy_env first_candidate) = (st1, b, True)"
proof -
  let ?b = "with_merkle easy_env first_candidate"
  note cand = candidate_facts [OF first_candidate first_selection]
  have h: "blockNumber (header ?b) = 0" "difficultyTarget (header ?b) = INITIAL_DIFFICULTY"
    using cand(2,3) by (simp_all add: with_merkle_def fresh_node_def Chain_Create_def Chain_Size_def Chain_GetTargetForHeight_def
        DIFFICULTY_ADJUSTMENT_INTERVAL_def split: option.split)
  obtain cache where c: "Chain_DagParamsForHeightLocked easy_env (g_chain fresh_node) 0 = (cache, Some (2 * 2 ^ 30, replicate 32 0))"
    using DagParams_spec [of "g_chain fresh_node" easy_env 0]
    by (auto simp: dag_params_spec_def EPOCH_LENGTH_def DAG_BASE_SIZE_def fresh_node_def Chain_Create_def dag_cache_ok_def cache_ok_def)
  let ?pow = "fst (Block_EnsureAutolykos2Dag easy_env None False pow_initial 0 (2 * 2 ^ 30) (replicate 32 0))"
  have "\<not> g_dagReady ?pow"
    by (simp add: Block_EnsureAutolykos2Dag_def dag_usable_def pow_initial_def Autolykos2_DagAllocate_def Let_def)
  moreover obtain target where "DecodeCompactTarget INITIAL_DIFFICULTY = Some target" "length target = 32" using easy_target by blast
  ultimately have "Block_HasValidProofOfWorkWithParams easy_env ?pow (with_nonce ?b 0) 0 (2 * 2 ^ 30) (replicate 32 0)"
    using easy_pow_any [of "with_nonce ?b 0" target ?pow] h(2) by simp
  then show ?thesis
    using h(1) c by (simp add: MineBlock_def Let_def fresh_node_def mine_loop.simps [of _ _ _ 0])
qed

theorem mined_block_accepted_iff_witness:
  "snd (snd (mine_and_add easy_env None False (\<lambda>_. 0) fresh_node first_candidate))"
proof -
  obtain st1 b where m: "MineBlock easy_env None False (\<lambda>_. 0) fresh_node (with_merkle easy_env first_candidate) = (st1, b, True)"
    using first_found by blast
  obtain st' b' ok where r: "mine_and_add easy_env None False (\<lambda>_. 0) fresh_node first_candidate = (st', b', ok)"
    using prod_cases3 by blast
  have "g_currentReward fresh_node \<noteq> 0" "length (blocks (g_chain fresh_node)) < 2 ^ 64" "\<not> Address_IsCoinbase (replicate 32 7)"
    by (simp_all add: fresh_node_simps Address_IsCoinbase_def list_all_iff)
  then show ?thesis
    using mined_block_accepted_iff [OF reach_start _ first_candidate first_selection m _ _ _ r] r unat_lt_64 [of "g_currentReward fresh_node"]
    by (simp add: fees_of_def)
qed

end
