(* ===== verification/Node_Commands.thy ===== *)
theory Node_Commands
  imports Net_Node Block_Assembly
begin

text \<open>
  The commands of \<^verbatim>\<open>src/main.c\<close> that change the node: mining, sending a transaction, flushing, voting and
  wiping the chain. A command is a function of the node to the node it leaves and its effects, like the
  packet handlers of \<open>Net_Node\<close>. While the miner searches, the chain lock is free and packets may arrive;
  here a round of mining is one step, so a competing block that arrives meanwhile counts as arriving before
  or after it.
\<close>

section \<open>Mining\<close>

text \<open>What the outside answers during one round: the allocator, the clock of the search, two more clock readings.\<close>

record mine_io =
  mi_ref :: "(byte list \<Rightarrow> u64 \<Rightarrow> u32 \<Rightarrow> byte list \<Rightarrow> bool) option"
  mi_realloc :: bool
  mi_clock :: "nat \<Rightarrow> u64"
  mi_now1 :: u64
  mi_now2 :: u64

definition MineAndAppendBlock :: "crypto_env \<Rightarrow> net_world \<Rightarrow> mine_io \<Rightarrow> net_node \<Rightarrow> block_t \<Rightarrow> net_node \<times> net_action list \<times> bool" where
  "MineAndAppendBlock E w io n block =
     (case mine_and_add E (mi_ref io) (mi_realloc io) (mi_clock io) (nn_node n) block of
        (st', b, ok) \<Rightarrow>
          let n1 = n\<lparr> nn_node := st' \<rparr>
          in if \<not> ok then (n1, [], False)
             else (case attach_and_save E w n1 of (n2, saves) \<Rightarrow> (n2, saves, True)))"

text \<open>The return value is true when both files were written.\<close>

definition FlushChainAndSheet :: "crypto_env \<Rightarrow> net_world \<Rightarrow> nat \<Rightarrow> net_node \<Rightarrow> net_node \<times> net_action list \<times> bool" where
  "FlushChainAndSheet E w k n =
     (case persist_node E w k n of
        (n', a) \<Rightarrow>
          (n', [a], (case a of Saved chainSaved f \<Rightarrow> chainSaved | _ \<Rightarrow> False) \<and>
             snd (BalanceSheet_SaveToFile (w_sheetIo w k) (nn_sheetFile n) (g_sheetMap (nn_node n)) (w_sheetOrder w (g_sheetMap (nn_node n))))))"

text \<open>Round \<open>i\<close> of the \<^verbatim>\<open>mine\<close> command; false stops the command.\<close>

definition mine_round :: "crypto_env \<Rightarrow> address \<Rightarrow> byte \<Rightarrow> net_node \<Rightarrow> nat \<Rightarrow> net_world \<times> mine_io \<Rightarrow> net_node \<times> net_action list \<times> bool" where
  "mine_round E minerAddress dagVote n i wio =
     (let (w, io) = wio; st = nn_node n in
      case candidate_block E st (w_poolOrder w (g_txMempool st)) minerAddress dagVote (mi_now1 io) (mi_now2 io) of
        None \<Rightarrow> (n, [], False)
      | Some block \<Rightarrow>
          (case MineAndAppendBlock E w io n block of
             (n1, saves, ok) \<Rightarrow>
               if \<not> ok then (n1, saves, False)
               else (case Node_BroadcastChainRange E w n1 (Chain_Size (g_chain (nn_node n1)) - 1) None of
                       (n2, relay) \<Rightarrow>
                         if i mod 50 = 0
                         then (case FlushChainAndSheet E w 2 n2 of (n3, flush, saved) \<Rightarrow> (n3, saves @ relay @ flush, True))
                         else (n2, saves @ relay, True))))"

fun mine_rounds :: "crypto_env \<Rightarrow> address \<Rightarrow> byte \<Rightarrow> net_node \<Rightarrow> nat \<Rightarrow> (net_world \<times> mine_io) list \<Rightarrow> net_node \<times> net_action list \<times> bool" where
  "mine_rounds E minerAddress dagVote n i [] = (n, [], True)"
| "mine_rounds E minerAddress dagVote n i (wio # wios) =
     (case mine_round E minerAddress dagVote n i wio of
        (n1, acts, ok) \<Rightarrow>
          if \<not> ok then (n1, acts, False)
          else (case mine_rounds E minerAddress dagVote n1 (Suc i) wios of (n2, acts', ok') \<Rightarrow> (n2, acts @ acts', ok')))"

definition mine_command :: "crypto_env \<Rightarrow> net_world \<Rightarrow> address \<Rightarrow> byte \<Rightarrow> net_node \<Rightarrow> (net_world \<times> mine_io) list \<Rightarrow> net_node \<times> net_action list" where
  "mine_command E w minerAddress dagVote n wios =
     (case mine_rounds E minerAddress dagVote n 0 wios of
        (n1, acts, minedAll) \<Rightarrow>
          if minedAll then (case FlushChainAndSheet E w 3 n1 of (n2, flush, saved) \<Rightarrow> (n2, acts @ flush)) else (n1, acts))"

definition dagvote_command :: "byte \<Rightarrow> string \<Rightarrow> byte" where
  "dagvote_command g_dagVote voteStr =
     (if voteStr = ''grow'' then 0 else if voteStr = ''hold'' then 1 else if voteStr = ''down'' then 2 else g_dagVote)"

section \<open>Sending\<close>

record wallet =
  minerAddress :: address
  minerPrivateKey :: "byte list"
  minerCompressedPubkey :: "byte list"

definition spend_of :: "wallet \<Rightarrow> address \<Rightarrow> u64 \<Rightarrow> u64 \<Rightarrow> u64 \<Rightarrow> signed_transaction_t" where
  "spend_of wl recipientAddress amount txFee now =
     Transaction_Init\<lparr> transaction := (transaction Transaction_Init)\<lparr> tx_version := 1, fee := txFee, amount1 := amount,
       amount2 := 0, tx_timestamp := now, senderAddress := minerAddress wl, recipientAddress1 := recipientAddress,
       recipientAddress2 := replicate 32 0, compressedPublicKey := minerCompressedPubkey wl \<rparr> \<rparr>"

datatype send_result = SEND_INVALID_ADDRESS | SEND_INVALID_AMOUNT | SEND_FEE_OVERFLOW | SEND_NO_BALANCE
  | SEND_INSUFFICIENT | SEND_OUTSIDE_WINDOW | SEND_POOL_FAILED | SEND_POOLED signed_transaction_t

text \<open>
  The \<^verbatim>\<open>send\<close> command after its numbers have been read. The block that the source builds on the way is never
  used. \<open>now1\<close> and \<open>now2\<close> are the readings of the clock for the timestamp and for the admission policy.
\<close>

definition send_command ::
  "crypto_env \<Rightarrow> net_world \<Rightarrow> wallet \<Rightarrow> net_node \<Rightarrow> string \<Rightarrow> u64 \<Rightarrow> u64 \<Rightarrow> bool \<Rightarrow> u64 \<Rightarrow> u64 \<Rightarrow> net_node \<times> net_action list \<times> send_result" where
  "send_command E w wl n addressStr amount txFee broadcast now1 now2 =
     (case ParseHexAddress32 addressStr of
        None \<Rightarrow> (n, [], SEND_INVALID_ADDRESS)
      | Some recipientAddress \<Rightarrow>
          if amount = 0 then (n, [], SEND_INVALID_AMOUNT)
          else if txFee > UINT64_MAX - amount then (n, [], SEND_FEE_OVERFLOW)
          else (case BalanceSheet_Lookup (g_sheetMap (nn_node n)) (minerAddress wl) of
                  None \<Rightarrow> (n, [], SEND_NO_BALANCE)
                | Some senderEntry \<Rightarrow>
                    if uint256_cmp (balance senderEntry) (uint256_from_u64 amount) < 0 then (n, [], SEND_INSUFFICIENT)
                    else let tx = Transaction_Sign E (spend_of wl recipientAddress amount txFee now1) (minerPrivateKey wl) in
                      if \<not> TxMempool_PolicyAccepts tx now2 then (n, [], SEND_OUTSIDE_WINDOW)
                      else (case TxMempool_Insert E (g_txMempool (nn_node n)) tx of
                              (pool', r) \<Rightarrow>
                                let n' = n\<lparr> nn_node := (nn_node n)\<lparr> g_txMempool := pool' \<rparr> \<rparr>
                                in if r < 0 then (n', [], SEND_POOL_FAILED)
                                   else (n', if broadcast then Node_BroadcastTransaction w n' tx None else [], SEND_POOLED tx))))"

section \<open>Wiping\<close>

text \<open>\<^verbatim>\<open>WipeChainFiles\<close> removes the four files, then the chain and the ledger start afresh.\<close>

definition wipechain_command :: "net_node \<Rightarrow> net_node" where
  "wipechain_command n =
     n\<lparr> nn_node := wipechain (nn_node n), nn_files := \<lparr> meta_file = None, data_file = None, table_file = None \<rparr>,
        nn_sheetFile := None \<rparr>"

end
