(* ===== verification/Chain_Restore.thy ===== *)
theory Chain_Restore
  imports Chain_History
begin

text \<open>
  Atomicity of a branch replacement: when \<^verbatim>\<open>Chain_ReplaceBranch\<close> gives up after it has begun to swap
  blocks, the original blocks are accepted again one by one and the node ends where it started. The
  argument needs that the verdict on a block depends on the chain below it only: on the headers, on the
  balances and timestamps its transactions define, and on a block reward that is settled by height and
  supply alone.
\<close>

section \<open>The verdict on a block as a function of the ledger\<close>

definition spec_economics ::
  "crypto_env \<Rightarrow> balances \<Rightarrow> (address \<Rightarrow> u64) \<Rightarrow> u64 \<Rightarrow> block_t \<Rightarrow> signed_transaction_t list \<Rightarrow> u64 option" where
  "spec_economics E bal ts reward block txs =
     (let spendable = fst (spec_select E bal txs); totalFees = of_nat (fees_of spendable)
      in if txs = [] \<or> length spendable \<noteq> nonCoinbaseCount txs \<or> UINT64_MAX - reward < totalFees \<or>
            Block_ValidateCoinbaseAndFees E block (reward + totalFees) \<noteq> Some totalFees \<or>
            \<not> increasing_from ts (map transaction txs)
         then None else Some (reward + totalFees))"

lemma validate_economics_spec:
  assumes "sheet_inv s" "finite_balances (sheet_bal s)" "total_balance (sheet_bal s) < TWO256"
    and "transactions block = Some txs"
  shows "validate_economics E s reward block txs = spec_economics E (sheet_bal s) (last_ts s) reward block txs"
proof -
  have ord: "Chain_BlockRespectsSenderOrdering s block = increasing_from (last_ts s) (map transaction txs)"
    using assms(4) ordering_loop_increasing [of s "[]" txs] by (simp add: Chain_BlockRespectsSenderOrdering_def)
  show ?thesis
    by (auto simp: validate_economics_def spec_economics_def SelectSpendable_refines [OF assms(1-3)] ord Let_def
        split: option.splits)
qed

definition chain_of :: "block_t list \<Rightarrow> blockchain_t" where
  "chain_of bs = \<lparr> blocks = bs, chain_size = length bs, dagEpochs = [] \<rparr>"

definition acceptable ::
  "crypto_env \<Rightarrow> block_t list \<Rightarrow> balances \<Rightarrow> (address \<Rightarrow> u64) \<Rightarrow> u64 \<Rightarrow> block_t \<Rightarrow> u64 option" where
  "acceptable E bs bal ts reward block =
     (case transactions block of
        None \<Rightarrow> None
      | Some txs \<Rightarrow>
          if extends_tip E (chain_of bs) block \<and>
             (case dag_params_spec E bs (unat (blockNumber (header block))) of
                None \<Rightarrow> False
              | Some (dagBytes, dagSeed) \<Rightarrow>
                  Block_HasValidProofOfWorkWithParams E pow_initial block
                    (blockNumber (header block) div of_nat EPOCH_LENGTH) dagBytes dagSeed) \<and>
             difficultyTarget (header block) = Chain_GetTargetForHeight (chain_of bs) (length bs)
          then spec_economics E bal ts reward block txs
          else None)"

lemma accepted_acceptable:
  assumes "pow_inv E (g_pow st)" "chain_inv E st" "coins_inv st"
  shows "accepted E st block =
    acceptable E (blocks (g_chain st)) (sheet_bal (g_sheetMap st)) (last_ts (g_sheetMap st)) (g_currentReward st) block"
proof (cases "transactions block")
  case None
  then show ?thesis by (simp add: accepted_def acceptable_def)
next
  case (Some txs)
  have "validate_economics E (g_sheetMap st) (g_currentReward st) block txs =
      spec_economics E (sheet_bal (g_sheetMap st)) (last_ts (g_sheetMap st)) (g_currentReward st) block txs"
    using validate_economics_spec [OF _ _ _ Some] coins_room(1) [OF assms(2,3)] assms(3) by (simp add: coins_inv_def)
  moreover have "extends_tip E (g_chain st) block = extends_tip E (chain_of (blocks (g_chain st))) block"
    by (simp add: extends_tip_def chain_of_def)
  moreover have "Chain_GetTargetForHeight (g_chain st) h = Chain_GetTargetForHeight (chain_of (blocks (g_chain st))) h" for h
    by (rule GetTarget_blocks) (simp add: chain_of_def)
  ultimately show ?thesis
    using Some unfolding accepted_def acceptable_def ProofOfWork_light [OF assms(1)] by simp
qed

section \<open>The verdict depends on headers only\<close>

lemma strip_eq: "strip b = \<lparr> header = header b, transactions = None \<rparr>"
  by (cases b) (simp add: strip_def)

lemma ComputeTarget_strip:
  "Chain_ComputeTargetAtHeight (chain_of (map strip bs)) h t = Chain_ComputeTargetAtHeight (chain_of bs) h t"
  by (auto simp: Chain_ComputeTargetAtHeight_def chain_of_def vec_get_def DIFFICULTY_ADJUSTMENT_INTERVAL_def Let_def)

lemma GetTarget_strip: "Chain_GetTargetForHeight (chain_of (map strip bs)) h = Chain_GetTargetForHeight (chain_of bs) h"
proof -
  have "target_loop k (chain_of (map strip bs)) h t = target_loop k (chain_of bs) h t" for k h t
    by (induction k arbitrary: h t) (simp_all add: ComputeTarget_strip)
  then show ?thesis by (simp add: Chain_GetTargetForHeight_def)
qed

lemma dag_params_strip: "dag_params_spec E (map strip bs) h = dag_params_spec E bs h"
proof -
  have "map strip bs ! (k * EPOCH_LENGTH - 1) = strip (bs ! (k * EPOCH_LENGTH - 1))" if "\<not> length bs < k * EPOCH_LENGTH" "k \<noteq> 0" for k
  proof -
    have "0 < k * EPOCH_LENGTH" using that(2) by (simp add: EPOCH_LENGTH_def)
    then show ?thesis using that(1) by (intro nth_map) linarith
  qed
  then show ?thesis by (auto simp: dag_params_spec_def dag_strip Let_def)
qed

lemma acceptable_strip: "acceptable E (map strip bs) = acceptable E bs"
proof (intro ext)
  fix bal ts reward b
  have "extends_tip E (chain_of (map strip bs)) b = extends_tip E (chain_of bs) b"
    by (auto simp: extends_tip_def chain_of_def vec_get_def Let_def)
  then show "acceptable E (map strip bs) bal ts reward b = acceptable E bs bal ts reward b"
    unfolding acceptable_def length_map dag_params_strip GetTarget_strip by (simp only:)
qed

lemma acceptable_headers: "map header as = map header bs \<Longrightarrow> acceptable E as = acceptable E bs"
proof -
  assume "map header as = map header bs"
  then have "map (\<lambda>h. \<lparr> header = h, transactions = None \<rparr>) (map header as) = map (\<lambda>h. \<lparr> header = h, transactions = None \<rparr>) (map header bs)"
    by simp
  then have "map strip as = map strip bs" by (simp add: strip_eq [abs_def] o_def)
  then show ?thesis using acceptable_strip by metis
qed

section \<open>Settled rewards\<close>

text \<open>
  The reward rule reads the running reward in its inflation phase. It is settled at a supply and height
  where it does not.
\<close>

definition settled :: "uint256_t \<Rightarrow> u64 \<Rightarrow> bool" where
  "settled S h \<longleftrightarrow> (\<forall>g g'. fst (CalculateBlockRewardAtHeight S h g) = fst (CalculateBlockRewardAtHeight S h g'))"

definition reward_of :: "uint256_t \<Rightarrow> u64 \<Rightarrow> u64" where
  "reward_of S h = fst (CalculateBlockRewardAtHeight S h 0)"

lemma reward_settled: "settled S h \<Longrightarrow> fst (CalculateBlockRewardAtHeight S h g) = reward_of S h"
  by (auto simp: settled_def reward_of_def)

lemma settled_phase_one:
  assumes "h < 3000000" and "u256_val S < 2 ^ 64 - 1" and "750000000000 < (2 ^ 64 - 1 - u256_val S) div 2 ^ 20"
  shows "settled S h"
  unfolding settled_def using phase_one_reward [OF assms] by (metis fst_conv)

section \<open>The ledger a list of blocks defines\<close>

definition blocks_txs :: "block_t list \<Rightarrow> transaction_t list" where
  "blocks_txs bs = concat (map (\<lambda>b. map transaction (the (transactions b))) bs)"

definition ledger_of :: "block_t list \<Rightarrow> balances" where
  "ledger_of bs = the (spec_block (\<lambda>_. 0) (blocks_txs bs))"

definition times_of :: "block_t list \<Rightarrow> address \<Rightarrow> u64" where
  "times_of bs = foldl note_spend (\<lambda>_. 0) (blocks_txs bs)"

definition u256_of_nat :: "nat \<Rightarrow> uint256_t" where
  "u256_of_nat n = U256 (of_nat n) (of_nat (n div 2 ^ 64)) (of_nat (n div 2 ^ 128)) (of_nat (n div 2 ^ 192))"

definition supply_of :: "block_t list \<Rightarrow> uint256_t" where
  "supply_of bs = u256_of_nat (coinbase_payout (blocks_txs bs))"

definition in_memory :: "block_t list \<Rightarrow> bool" where
  "in_memory bs \<longleftrightarrow> (\<forall>b\<in>set bs. transactions b \<noteq> None)"

text \<open>Every block was acceptable on top of the ones below it, at a settled reward.\<close>

definition validated :: "crypto_env \<Rightarrow> block_t list \<Rightarrow> bool" where
  "validated E bs \<longleftrightarrow> in_memory bs \<and>
     (\<forall>i \<le> length bs. settled (supply_of (take i bs)) (of_nat i)) \<and>
     (\<forall>i < length bs. acceptable E (take i bs) (ledger_of (take i bs)) (times_of (take i bs))
        (reward_of (supply_of (take i bs)) (of_nat i)) (bs ! i) \<noteq> None)"

lemma u256_of_nat_val: "n < TWO256 \<Longrightarrow> u256_val (u256_of_nat n) = n"
proof -
  assume n: "n < TWO256"
  let ?B = "18446744073709551616 :: nat"
  have e: "n div 2 ^ 64 = n div ?B" "n div 2 ^ 128 = n div ?B div ?B" "n div 2 ^ 192 = n div ?B div ?B div ?B"
    by (simp_all flip: div_mult2_eq)
  have "n div ?B div ?B div ?B < ?B" using n by (simp add: TWO256_def flip: div_mult2_eq)
  then have "u256_val (u256_of_nat n) = n mod ?B + ?B * (n div ?B mod ?B + ?B * (n div ?B div ?B mod ?B + ?B * (n div ?B div ?B div ?B)))"
    unfolding u256_of_nat_def e by (simp add: u256_val_def unat_of_nat)
  also have "\<dots> = n"
    using mod_mult_div_eq [of n ?B] mod_mult_div_eq [of "n div ?B" ?B] mod_mult_div_eq [of "n div ?B div ?B" ?B]
    by simp
  finally show ?thesis .
qed

lemma in_memory_nth: "in_memory bs \<Longrightarrow> i < length bs \<Longrightarrow> \<exists>txs. transactions (bs ! i) = Some txs"
  using nth_mem [of i bs] by (auto simp: in_memory_def)

section \<open>A node that holds a prefix of a chain\<close>

text \<open>
  The node holds the headers of the first \<open>i\<close> blocks of \<open>bs\<close> and can read each of these blocks with its
  transactions, from memory or from its files, and its reward is the one they define.
\<close>

definition follows :: "crypto_env \<Rightarrow> block_t list \<Rightarrow> nat \<Rightarrow> node_state \<Rightarrow> bool" where
  "follows E bs i st \<longleftrightarrow> i \<le> length bs \<and> pow_inv E (g_pow st) \<and> map header (blocks (g_chain st)) = map header (take i bs) \<and>
     (\<forall>j<i. Chain_BorrowBlockTransactions st j = Some (bs ! j)) \<and>
     g_currentReward st = reward_of (supply_of (take i bs)) (of_nat i)"

lemma follows_length: "follows E bs i st \<Longrightarrow> length (blocks (g_chain st)) = i"
  using map_eq_imp_length_eq [of header "blocks (g_chain st)" header "take i bs"] by (simp add: follows_def)

lemma follows_history:
  assumes "follows E bs i st" "in_memory bs" shows "map transaction (chain_history st i) = blocks_txs (take i bs)"
proof -
  have "map (block_txs st) [0..<i] = map (\<lambda>b. the (transactions b)) (take i bs)"
  proof (rule nth_equalityI)
    show "map (block_txs st) [0..<i] ! j = map (\<lambda>b. the (transactions b)) (take i bs) ! j" if "j < length (map (block_txs st) [0..<i])" for j
      using that assms in_memory_nth [OF assms(2), of j] by (auto simp: follows_def block_txs_def)
  qed (use assms(1) in \<open>simp add: follows_def\<close>)
  then show ?thesis by (simp add: chain_history_def blocks_txs_def map_concat o_def)
qed

lemma follows_ledger:
  assumes "follows E bs i st" "in_memory bs" "synced st"
  shows "sheet_bal (g_sheetMap st) = ledger_of (take i bs)" and "last_ts (g_sheetMap st) = times_of (take i bs)"
    and "g_currentSupply st = supply_of (take i bs)"
proof -
  have h: "map transaction (chain_history st (length (blocks (g_chain st)))) = blocks_txs (take i bs)"
    using follows_history [OF assms(1,2)] follows_length [OF assms(1)] by simp
  show "sheet_bal (g_sheetMap st) = ledger_of (take i bs)" "last_ts (g_sheetMap st) = times_of (take i bs)"
    using assms(3) by (simp_all add: synced_def Let_def h ledger_of_def times_of_def)
  have "u256_val (g_currentSupply st) = coinbase_payout (blocks_txs (take i bs))" using assms(3) by (simp add: synced_def Let_def h)
  then have "u256_val (supply_of (take i bs)) = u256_val (g_currentSupply st)"
    using u256_of_nat_val u256_val_bound [of "g_currentSupply st"] by (simp add: supply_of_def)
  then show "g_currentSupply st = supply_of (take i bs)" by (intro u256_val_eq) simp
qed

section \<open>Appending validated blocks again\<close>

lemma AddBlockLocked_accepted:
  assumes "chain_inv E st" "coins_inv st" "accepted E st b = Some e" "block_addressed b"
  shows "\<exists>st'. Chain_AddBlockLocked E st b = (st', True)"
proof -
  obtain cache where c: "dag_cache_ok ((g_chain st)\<lparr> dagEpochs := cache \<rparr>)"
    "Chain_AddBlockLocked E st b = commit E (with_cache st cache) b (the (transactions b)) e"
    using AddBlockLocked_eq [of st E b] assms(1,3) by (auto simp: chain_inv_def)
  obtain txs where t: "transactions b = Some txs" using accepted_facts [OF assms(3)] by blast
  have "snd (commit E (with_cache st cache) b txs e)"
    using commit_addressed [OF assms(1-3) t c(1)] assms(4) t by (simp add: commit_simps block_addressed_def)
  then show ?thesis using c(2) t by (metis option.sel surjective_pairing eqTrueI)
qed

lemma follows_accepted:
  assumes "follows E bs i st" "in_memory bs" "chain_inv E st" "synced st"
  shows "accepted E st b = acceptable E (take i bs) (ledger_of (take i bs)) (times_of (take i bs)) (reward_of (supply_of (take i bs)) (of_nat i)) b"
  using accepted_acceptable [OF _ assms(3) synced_coins [OF assms(4)], of b] follows_ledger [OF assms(1,2,4)] assms(1)
    acceptable_headers [of "blocks (g_chain st)" "take i bs" E] by (simp add: follows_def)

lemma follows_AddBlockLocked:
  assumes "validated E bs" "block_addressed (bs ! i)" "follows E bs i st" "chain_inv E st" "synced st" "i < length bs"
  shows "\<exists>st'. Chain_AddBlockLocked E st (bs ! i) = (st', True) \<and> follows E bs (Suc i) st' \<and> extends_tip E (g_chain st) (bs ! i)"
proof -
  let ?b = "bs ! i"
  have mem: "in_memory bs" using assms(1) by (simp add: validated_def)
  have len: "length (blocks (g_chain st)) = i" by (rule follows_length [OF assms(3)])
  have f: "pow_inv E (g_pow st)" "map header (blocks (g_chain st)) = map header (take i bs)"
    "g_currentReward st = reward_of (supply_of (take i bs)) (of_nat i)" "\<forall>j<i. Chain_BorrowBlockTransactions st j = Some (bs ! j)"
    using assms(3) by (simp_all add: follows_def)
  note coins = synced_coins [OF assms(5)]
  note follows_accepted [OF assms(3) mem assms(4,5), of ?b]
  then obtain e where acc: "accepted E st ?b = Some e" using assms(1,6) by (auto simp: validated_def)
  obtain st1 where r: "Chain_AddBlockLocked E st ?b = (st1, True)" using AddBlockLocked_accepted [OF assms(4) coins acc assms(2)] by blast
  obtain txs where t: "transactions ?b = Some txs" using in_memory_nth [OF mem assms(6)] by blast
  have i1: "chain_inv E st1" "g_pow st1 = g_pow st" "disk st1 = disk st" "synced st1"
    using AddBlockLocked_inv [OF assms(4) coins r] AddBlockLocked_synced [OF assms(4,5) r] by auto
  have b1: "blocks (g_chain st1) = blocks (g_chain st) @ [?b]" using AddBlockLocked_blocks [OF assms(4,5) r] by simp
  have bo: "Chain_BorrowBlockTransactions st1 j = Some (bs ! j)" if "j < Suc i" for j
  proof (cases "j = i")
    case True
    then show ?thesis using b1 len t by (simp add: Chain_BorrowBlockTransactions_def vec_get_def nth_append)
  next
    case False
    then have "Chain_BorrowBlockTransactions st1 j = Chain_BorrowBlockTransactions st j"
      using that b1 len i1(3) by (simp add: Chain_BorrowBlockTransactions_def vec_get_def nth_append)
    then show ?thesis using that False f(4) by simp
  qed
  have hd: "map header (blocks (g_chain st1)) = map header (take (Suc i) bs)"
    using b1 f(2) assms(6) by (simp add: take_Suc_conv_app_nth)
  obtain e' where ap: "appended E st ?b (the (transactions ?b)) e' st1" using AddBlockLocked_True [OF assms(4) coins r] by blast
  have "follows E bs (Suc i) (st1\<lparr> g_currentReward := reward_of (supply_of (take (Suc i) bs)) (of_nat (Suc i)) \<rparr>)"
    using assms(6) f(1) i1(2) hd bo borrow_same [of "st1\<lparr> g_currentReward := _ \<rparr>" st1] by (simp add: follows_def)
  moreover have "synced (st1\<lparr> g_currentReward := x \<rparr>)" for x by (rule synced_same [OF i1(4)]) simp_all
  ultimately have sup: "g_currentSupply st1 = supply_of (take (Suc i) bs)" using follows_ledger(3) [OF _ mem] by fastforce
  have "settled (supply_of (take (Suc i) bs)) (of_nat (Suc i))" using assms(1,6) by (simp only: validated_def)
  then have "g_currentReward st1 = reward_of (supply_of (take (Suc i) bs)) (of_nat (Suc i))"
    using ap reward_settled b1 len by (simp add: appended_def sup)
  then have "follows E bs (Suc i) st1" using assms(6) f(1) i1(2) hd bo by (simp add: follows_def)
  moreover have "extends_tip E (g_chain st) ?b" using accepted_facts [OF acc] by blast
  ultimately show ?thesis using r by blast
qed

lemma add_blocks_again:
  assumes "validated E bs" "list_all block_addressed bs" "follows E bs i st" "chain_inv E st" "synced st" "i \<le> length bs"
  shows "\<exists>st'. add_blocks E st (drop i bs) = (st', True) \<and> follows E bs (length bs) st' \<and> chain_inv E st' \<and> synced st'"
  using assms(6,3-5)
proof (induction "length bs - i" arbitrary: i st)
  case 0
  then show ?case by simp
next
  case (Suc k)
  then have i: "i < length bs" by simp
  have "block_addressed (bs ! i)" using assms(2) i by (simp add: list_all_length)
  then obtain st1 where st1: "Chain_AddBlockLocked E st (bs ! i) = (st1, True)" "follows E bs (Suc i) st1"
    using follows_AddBlockLocked [OF assms(1) _ Suc.prems(2-4) i] by blast
  have s1: "chain_inv E st1" "synced st1"
    using AddBlockLocked_chain [OF Suc.prems(3) st1(1)] AddBlockLocked_synced [OF Suc.prems(3,4) st1(1)] by auto
  have "drop i bs = bs ! i # drop (Suc i) bs" using i by (simp add: Cons_nth_drop_Suc)
  then show ?case using Suc.hyps(1) [of "Suc i" st1] Suc.hyps(2) st1 s1 i by auto
qed

section \<open>Rolling back to a validated prefix\<close>

lemma validated_settled: "validated E bs \<Longrightarrow> i \<le> length bs \<Longrightarrow> settled (supply_of (take i bs)) (of_nat i)"
  by (simp add: validated_def)

lemma follows_extends:
  assumes "follows E bs i st" "extends st st'" "k \<le> i"
  shows "take k (map header (blocks (g_chain st'))) = map header (take k bs)"
    and "\<forall>j<k. Chain_BorrowBlockTransactions st' j = Some (bs ! j)"
proof -
  have len: "length (blocks (g_chain st)) = i" by (rule follows_length [OF assms(1)])
  have "take k (map header (blocks (g_chain st'))) = take k (map header (blocks (g_chain st)))"
    using assms(2,3) len by (auto simp: extends_def)
  also have "\<dots> = map header (take k bs)" using assms(1,3) by (simp add: follows_def take_map min_absorb1)
  finally show "take k (map header (blocks (g_chain st'))) = map header (take k bs)" .
  show "\<forall>j<k. Chain_BorrowBlockTransactions st' j = Some (bs ! j)"
    using extends_borrow [OF assms(2)] assms(1,3) len by (simp add: follows_def)
qed

lemma Rollback_follows:
  assumes "validated E bs" "chain_inv E st" "pow_inv E (g_pow st)" "history_ok st i"
    and "i < length (blocks (g_chain st))" "take i (map header (blocks (g_chain st))) = map header (take i bs)"
    and "\<forall>j<i. Chain_BorrowBlockTransactions st j = Some (bs ! j)" "i \<le> length bs"
    and "Chain_RollbackToHeightLocked E st i = (st', ok)"
  shows "ok \<and> follows E bs i st' \<and> chain_inv E st' \<and> synced st'"
proof -
  note r = Rollback_facts [OF assms(2,4,5,9)]
  have mem: "in_memory bs" using assms(1) by (simp add: validated_def)
  have "Chain_BorrowBlockTransactions st' j = Chain_BorrowBlockTransactions st j" if "j < i" for j
    using r that assms(5) by (simp add: Chain_BorrowBlockTransactions_def vec_get_def)
  then have bo: "\<forall>j<i. Chain_BorrowBlockTransactions st' j = Some (bs ! j)" using assms(7) by simp
  have hd: "map header (blocks (g_chain st')) = map header (take i bs)" using r assms(6) by (simp add: take_map)
  define x where "x = reward_of (supply_of (take i bs)) (of_nat i)"
  have "follows E bs i (st'\<lparr> g_currentReward := x \<rparr>)"
    using bo hd r assms(3,8) borrow_same [of "st'\<lparr> g_currentReward := x \<rparr>" st'] by (simp add: follows_def x_def)
  moreover have "synced (st'\<lparr> g_currentReward := x \<rparr>)" by (rule synced_same [of st']) (use r in simp_all)
  ultimately have "g_currentSupply st' = supply_of (take i bs)" using follows_ledger(3) [OF _ mem] by fastforce
  then have "g_currentReward st' = x"
    using r reward_settled [OF validated_settled [OF assms(1,8)]] by (simp add: x_def)
  then show ?thesis using r bo hd assms(3,8) by (simp add: follows_def x_def)
qed

section \<open>A failed replacement\<close>

lemma follows_addressed:
  assumes "follows E bs (length bs) st" "in_memory bs" "synced st"
  shows "list_all block_addressed bs"
proof -
  have len: "length (blocks (g_chain st)) = length bs" by (rule follows_length [OF assms(1)])
  have "block_addressed (bs ! i)" if i: "i < length bs" for i
  proof -
    obtain txs where t: "transactions (bs ! i) = Some txs" using in_memory_nth [OF assms(2) i] by blast
    then have "block_txs st i = txs" using i assms(1) by (simp add: block_txs_def follows_def)
    then have "set txs \<subseteq> set (chain_history st (length bs))" using i by (auto simp: chain_history_def)
    then show ?thesis
      using assms(3) t by (auto simp: synced_def Let_def history_ok_def block_addressed_def payments_addressed_def len)
  qed
  then show ?thesis by (simp add: list_all_length)
qed

lemma add_blocks_first_refused:
  assumes "chain_inv E st" "synced st" "add_blocks E st bs = (st', False)"
    and "length (blocks (g_chain st')) \<le> length (blocks (g_chain st))"
  shows "\<exists>cache. st' = with_cache st cache"
proof (cases bs)
  case Nil
  then show ?thesis using assms(3) by simp
next
  case (Cons b rest)
  obtain st1 ok1 where l: "Chain_AddBlockLocked E st b = (st1, ok1)" by fastforce
  show ?thesis
  proof (cases ok1)
    case True
    then have r: "Chain_AddBlockLocked E st b = (st1, True)" "add_blocks E st1 rest = (st', False)"
      using l assms(3) Cons by simp_all
    have "chain_inv E st1" "synced st1"
      using AddBlockLocked_inv [OF assms(1) synced_coins [OF assms(2)] r(1)] AddBlockLocked_synced [OF assms(1,2) r(1)] by auto
    from add_blocks_facts [OF this r(2)] have "length (blocks (g_chain st1)) \<le> length (blocks (g_chain st'))"
      by (auto simp: extends_def)
    then show ?thesis using AddBlockLocked_blocks [OF assms(1,2) r(1)] assms(4) by simp
  next
    case False
    then have f: "Chain_AddBlockLocked E st b = (st', False)" using l assms(3) Cons by simp
    from AddBlockLocked_False [OF assms(1) synced_coins [OF assms(2)] f] show ?thesis using assms(4) by auto
  qed
qed

lemma follows_snapshot:
  assumes "follows E bs (length bs) st" "k \<le> length bs" "snapshot_blocks st [k..<length bs] = Some snapshot"
  shows "snapshot = drop k bs"
proof -
  have "map Some snapshot = map Some (drop k bs)"
  proof (rule nth_equalityI)
    show len: "length (map Some snapshot) = length (map Some (drop k bs))"
      using arg_cong [OF snapshot_blocks_Some [OF assms(3)], of length] by simp
    show "map Some snapshot ! i = map Some (drop k bs) ! i" if "i < length (map Some snapshot)" for i
      using that len snapshot_blocks_Some [OF assms(3)] assms(1,2) by (simp add: follows_def)
  qed
  then show ?thesis by (simp add: inj_map_eq_map)
qed

lemma follows_with_cache: "follows E bs i st \<Longrightarrow> follows E bs i (with_cache st cache)"
  using borrow_same [of "with_cache st cache" st] by (simp add: follows_def)

lemma swap_branch_restores:
  assumes "validated E bs" "follows E bs (length bs) st" "chain_inv E st" "synced st" "forkHeight \<le> length bs"
    and "swap_branch E st forkHeight (drop forkHeight bs) candidate = (st', False)"
  shows "follows E bs (length bs) st' \<and> chain_inv E st' \<and> synced st'"
proof -
  have len: "length (blocks (g_chain st)) = length bs" by (rule follows_length [OF assms(2)])
  have mem: "in_memory bs" and pow: "pow_inv E (g_pow st)" using assms(1,2) by (simp_all add: validated_def follows_def)
  note addr = follows_addressed [OF assms(2) mem assms(4)]
  have h: "history_ok st forkHeight" using assms(4,5) len history_ok_mono by (auto simp: synced_def Let_def)
  obtain st1 ok1 where r1: "Chain_RollbackToHeightLocked E st forkHeight = (st1, ok1)" by fastforce
  have f1: "ok1 \<and> follows E bs forkHeight st1 \<and> chain_inv E st1 \<and> synced st1"
  proof (cases "forkHeight < length bs")
    case True
    then show ?thesis
      using Rollback_follows [OF assms(1,3) pow h _ follows_extends [OF assms(2) extends_refl assms(5)] assms(5) r1] len by simp
  next
    case False
    then show ?thesis using Rollback_noop [of st forkHeight E] r1 len assms(2-5) by simp
  qed
  then have s1: "follows E bs forkHeight st1" "chain_inv E st1" "synced st1" by simp_all
  have len1: "length (blocks (g_chain st1)) = forkHeight" by (rule follows_length [OF s1(1)])
  obtain st2 ok2 where r2: "add_blocks E st1 candidate = (st2, ok2)" by fastforce
  have "\<not> ok2" using assms(6) f1 r1 r2 by (auto simp: swap_branch_def)
  then have r2: "add_blocks E st1 candidate = (st2, False)" using r2 by simp
  note f2 = add_blocks_facts [OF s1(2,3) r2]
  then have e2: "extends st1 st2" by blast
  have h2: "history_ok st2 forkHeight"
    using extends_history(2) [OF e2, of forkHeight] s1(3) len1 by (simp add: synced_def Let_def)
  have pow2: "pow_inv E (g_pow st2)" using e2 s1(1) by (simp add: extends_def follows_def)
  obtain st3 ok3 where r3: "Chain_RollbackToHeightLocked E st2 forkHeight = (st3, ok3)" by fastforce
  have f3: "ok3 \<and> follows E bs forkHeight st3 \<and> chain_inv E st3 \<and> synced st3"
  proof (cases "forkHeight < length (blocks (g_chain st2))")
    case True
    show ?thesis
      by (rule Rollback_follows [OF assms(1) conjunct1 [OF f2] pow2 h2 True follows_extends [OF s1(1) e2 order.refl] assms(5) r3])
  next
    case False
    then obtain cache where "st2 = with_cache st1 cache"
      using add_blocks_first_refused [OF s1(2,3) r2] len1 by auto
    then have "follows E bs forkHeight st2" "synced st2" using follows_with_cache [OF s1(1)] synced_with_cache [OF s1(3)] by simp_all
    then show ?thesis using Rollback_noop [of st2 forkHeight E] False r3 f2 by simp
  qed
  then have s3: "follows E bs forkHeight st3" "chain_inv E st3" "synced st3" by simp_all
  obtain st4 where r4: "add_blocks E st3 (drop forkHeight bs) = (st4, True)" "follows E bs (length bs) st4" "chain_inv E st4" "synced st4"
    using add_blocks_again [OF assms(1) addr s3 assms(5)] by blast
  have "st' = st4" using assms(6) r1 f1 r2 r3 f3 r4 by (simp add: swap_branch_def)
  then show ?thesis using r4(2-4) by simp
qed

section \<open>Growing a validated chain\<close>

lemma follows_longer: "follows E bs i st \<Longrightarrow> i \<le> length bs \<Longrightarrow> follows E (bs @ cs) i st"
  by (simp add: follows_def nth_append)

lemma validated_append:
  assumes "validated E bs" "follows E bs (length bs) st" "chain_inv E st" "synced st"
    and "Chain_AddBlockLocked E st block = (st', True)" "settled (supply_of (bs @ [block])) (of_nat (Suc (length bs)))"
  shows "validated E (bs @ [block]) \<and> follows E (bs @ [block]) (Suc (length bs)) st'"
proof -
  have n: "pow_inv E (g_pow st)" "map header (blocks (g_chain st)) = map header bs"
    "g_currentReward st = reward_of (supply_of bs) (of_nat (length bs))"
    using assms(2) by (simp_all add: follows_def)
  note coins = synced_coins [OF assms(4)]
  obtain e where e: "accepted E st block = Some e" "appended E st block (the (transactions block)) e st'"
    using AddBlockLocked_True [OF assms(3) coins assms(5)] by blast
  have mem: "in_memory bs" "in_memory (bs @ [block])"
    using assms(1) e(2) by (auto simp: validated_def in_memory_def appended_def)
  have acc: "acceptable E bs (ledger_of bs) (times_of bs) (reward_of (supply_of bs) (of_nat (length bs))) block = Some e"
    using accepted_acceptable [OF n(1) assms(3) coins, of block] follows_ledger [OF assms(2) mem(1) assms(4)] n(3) e(1)
      acceptable_headers [OF n(2)] by simp
  have "acceptable E (take i (bs @ [block])) (ledger_of (take i (bs @ [block]))) (times_of (take i (bs @ [block])))
      (reward_of (supply_of (take i (bs @ [block]))) (of_nat i)) ((bs @ [block]) ! i) \<noteq> None" if "i < Suc (length bs)" for i
    using assms(1) acc that by (cases "i = length bs") (auto simp: validated_def nth_append)
  moreover have "settled (supply_of (take i (bs @ [block]))) (of_nat i)" if "i \<le> Suc (length bs)" for i
    using validated_settled [OF assms(1), of i] assms(6) that by (cases "i = Suc (length bs)") simp_all
  ultimately have val: "validated E (bs @ [block])" using mem(2) by (simp add: validated_def)
  have "block_addressed ((bs @ [block]) ! length bs)" using e(2) by (auto simp: block_addressed_def appended_def split: option.split)
  from follows_AddBlockLocked [OF val this follows_longer [OF assms(2)] assms(3,4)] show ?thesis using val assms(5) by auto
qed

lemma fresh_validated: "validated E []" "pow_inv E (g_pow fresh_node)" "follows E [] 0 fresh_node"
proof -
  have s0: "supply_of [] = uint256_from_u64 0"
    by (simp add: supply_of_def blocks_txs_def coinbase_payout_def u256_of_nat_def uint256_from_u64_def)
  have set0: "settled (supply_of []) 0" unfolding s0 by (rule settled_phase_one) simp_all
  then show "validated E []" by (simp add: validated_def in_memory_def)
  show "pow_inv E (g_pow fresh_node)" by (simp add: fresh_node_simps pow_inv_def pow_initial_def)
  moreover have "g_currentReward fresh_node = reward_of (supply_of []) 0"
    using reward_settled [OF set0, of 750000000000] by (simp add: fresh_node_def s0 Chain_Size_def Chain_Create_def)
  ultimately show "follows E [] 0 fresh_node" by (simp add: follows_def fresh_node_simps)
qed

section \<open>Property\<close>

text \<open>
  C7: a branch replacement that answers false changes nothing. Take a node with ledger and chain in step
  that holds a validated chain \<open>bs\<close> (each block acceptable on the ones below, at heights and supplies where the
  reward rule does not read the running reward), with the transactions of any of its blocks in memory or only
  in the files. Whenever \<^verbatim>\<open>Chain_ReplaceBranch\<close> answers false, at whatever point of the swap the candidate
  branch was refused, the node has its original headers, every block reads back with its original
  transactions, and balances, timestamps, supply and reward are the original ones.
\<close>

theorem ReplaceBranch_atomic:
  assumes "chain_inv E st" and "synced st" and "validated E bs" and "follows E bs (length bs) st"
    and "Chain_ReplaceBranch E now st forkHeight newBlocks observed bypass = (st', False)"
  shows "map header (blocks (g_chain st')) = map header (blocks (g_chain st)) \<and>
    (\<forall>i < length (blocks (g_chain st)). Chain_BorrowBlockTransactions st' i = Chain_BorrowBlockTransactions st i) \<and>
    sheet_bal (g_sheetMap st') = sheet_bal (g_sheetMap st) \<and> last_ts (g_sheetMap st') = last_ts (g_sheetMap st) \<and>
    g_currentSupply st' = g_currentSupply st \<and> g_currentReward st' = g_currentReward st"
  using ReplaceBranch_cases [OF assms(5)]
proof
  assume "\<not> False \<and> (st' = st \<or> st' = Chain_OnTipAdvanced st)"
  then show ?thesis using borrow_same [of "Chain_OnTipAdvanced st" st] by auto
next
  let ?n = "length (blocks (g_chain st))"
  assume r: "may_replace E now st forkHeight newBlocks observed bypass \<and>
     (\<exists>snapshot st1. snapshot_blocks st [forkHeight..<?n] = Some snapshot \<and>
        swap_branch E st forkHeight snapshot newBlocks = (st1, False) \<and> st' = Chain_OnTipAdvanced st1)"
  then obtain snapshot st1 where s: "snapshot_blocks st [forkHeight..<?n] = Some snapshot"
    "swap_branch E st forkHeight snapshot newBlocks = (st1, False)" "st' = Chain_OnTipAdvanced st1" by blast
  have len: "?n = length bs" by (rule follows_length [OF assms(4)])
  have le: "forkHeight \<le> length bs" using r len by (simp add: may_replace_def)
  have mem: "in_memory bs" using assms(3) by (simp add: validated_def)
  have snap: "snapshot = drop forkHeight bs" by (rule follows_snapshot [OF assms(4) le s(1) [unfolded len]])
  have f1: "follows E bs (length bs) st1" "synced st1"
    using swap_branch_restores [OF assms(3,4,1,2) le] s(2) by (auto simp: snap)
  have "Chain_BorrowBlockTransactions st' i = Chain_BorrowBlockTransactions st i" if "i < ?n" for i
    using that len f1(1) assms(4) borrow_same [of st' st1] by (simp add: follows_def s(3))
  moreover have "map header (blocks (g_chain st')) = map header (blocks (g_chain st))" "g_currentReward st' = g_currentReward st"
    using f1(1) assms(4) by (simp_all add: follows_def s(3))
  ultimately show ?thesis
    using follows_ledger [OF f1(1) mem f1(2)] follows_ledger [OF assms(4) mem assms(2)] by (simp add: s(3))
qed

text \<open>
  A node with two blocks, both saved and dropped from memory, and a linked, heavier branch whose first
  coinbase claims the wrong amount: the second block is rolled back and put back.
\<close>

definition two_blocks :: "block_t list" where
  "two_blocks = [coinbase_block fresh_node, coinbase_block node1]"

definition saved_two :: node_state where
  "saved_two = (let st = fst (Chain_AddBlockLocked easy_env node1 (coinbase_block node1))
     in st\<lparr> g_chain := (g_chain st)\<lparr> blocks := map strip (blocks (g_chain st)) \<rparr>,
            disk := (\<lambda>i. if i < 2 then Some (two_blocks ! i) else None) \<rparr>)"

definition bad_branch :: "block_t list" where
  "bad_branch = (let bad = easy_block 1 (tip_hash node1) [coinbase_of 1] in [bad, easy_block 2 (Block_CalculateHash easy_env bad) []])"

lemma coinbase_payout_block: "coinbase_payout (blocks_txs (bs @ [coinbase_block st])) =
    coinbase_payout (blocks_txs bs) + unat (g_currentReward st)"
  by (simp add: blocks_txs_def coinbase_block_def easy_block_def coinbase_payout_append)
    (simp add: coinbase_payout_def coinbase_of_def demo_tx_def Address_IsCoinbase_def list_all_iff payout_total_def)

lemma node1_validated:
  "validated easy_env [coinbase_block fresh_node]" "follows easy_env [coinbase_block fresh_node] 1 node1"
  "g_currentReward node1 = 17592169267200"
proof -
  let ?b = "coinbase_block fresh_node"
  have i: "chain_inv easy_env fresh_node" "synced fresh_node" using reachable_inv [OF reach_start] by auto
  obtain st1 where st1: "Chain_AddBlockLocked easy_env fresh_node ?b = (st1, True)" "node1 = Chain_OnTipAdvanced st1"
    using AddBlock_Locked [OF node1_added] by (metis (full_types))
  have p: "coinbase_payout (blocks_txs ([] @ [?b])) = 17592186044415"
    unfolding coinbase_payout_block by (simp add: fresh_node_simps) (simp add: blocks_txs_def coinbase_payout_def)
  have v: "u256_val (supply_of ([] @ [?b])) = 17592186044415"
    unfolding supply_of_def p by (rule u256_of_nat_val) (simp add: TWO256_def)
  have s: "settled (supply_of ([] @ [?b])) (of_nat (Suc (length [])))"
    by (rule settled_phase_one) (simp_all only: v, simp_all)
  from validated_append [OF fresh_validated(1) _ i st1(1) s] fresh_validated(3)
  have r: "validated easy_env [?b]" "follows easy_env [?b] 1 st1" by simp_all
  show "validated easy_env [?b]" by (rule r(1))
  show f: "follows easy_env [?b] 1 node1" using r(2) borrow_same [of node1 st1] by (simp add: follows_def st1(2))
  have "g_currentReward node1 = reward_of (supply_of [?b]) 1" using f by (simp add: follows_def)
  also have "supply_of [?b] = U256 17592186044415 0 0 0" using p by (simp add: supply_of_def u256_of_nat_def)
  also have "reward_of (U256 17592186044415 0 0 0) 1 = 17592169267200"
    unfolding reward_of_def CalculateBlockRewardAtHeight_def Let_def
    by (simp add: word_le_nat_alt word_less_nat_alt unat_div unat_sub PHASE1_TARGET_BLOCKS_def EMISSION_ACCELERATION_FACTOR_def M_CAP_def TAIL_EMISSION_def
      MONERO_EMISSION_SPEED_FACTOR_def)
  finally show "g_currentReward node1 = 17592169267200" .
qed

lemma saved_two_facts:
  "chain_inv easy_env saved_two" "synced saved_two" "validated easy_env two_blocks" "follows easy_env two_blocks 2 saved_two"
  "blocks (g_chain saved_two) = map strip two_blocks"
proof -
  let ?c = "coinbase_block node1" and ?bs = "[coinbase_block fresh_node]"
  obtain st where st: "Chain_AddBlockLocked easy_env node1 ?c = (st, True)" using node1_block by (metis (full_types) eq_snd_iff)
  have n: "chain_inv easy_env node1" "synced node1" using reachable_inv [OF node1_reachable] by auto
  have p: "coinbase_payout (blocks_txs (?bs @ [?c])) = 35184355311615"
    unfolding coinbase_payout_block node1_validated(3) using coinbase_payout_block [of "[]" fresh_node]
    by (simp add: fresh_node_simps) (simp add: blocks_txs_def coinbase_payout_def)
  have v: "u256_val (supply_of (?bs @ [?c])) = 35184355311615"
    unfolding supply_of_def p by (rule u256_of_nat_val) (simp add: TWO256_def)
  have s: "settled (supply_of (?bs @ [?c])) (of_nat (Suc (length ?bs)))"
    by (rule settled_phase_one) (simp_all only: v, simp_all)
  from validated_append [OF node1_validated(1) _ n st s] node1_validated(2)
  have r: "validated easy_env two_blocks" "follows easy_env two_blocks 2 st" by (simp_all add: two_blocks_def numeral_2_eq_2)
  show "validated easy_env two_blocks" by (rule r(1))
  have b: "blocks (g_chain st) = two_blocks" using AddBlockLocked_blocks [OF n st] by (simp add: node1_simps two_blocks_def)
  have i: "chain_inv easy_env st" "synced st" using AddBlockLocked_chain [OF n(1) st] AddBlockLocked_synced [OF n st] by auto
  have e: "saved_two = st\<lparr> g_chain := (g_chain st)\<lparr> blocks := map strip (blocks (g_chain st)) \<rparr>,
      disk := (\<lambda>i. if i < 2 then Some (two_blocks ! i) else None) \<rparr>" by (simp add: saved_two_def st)
  show sb: "blocks (g_chain saved_two) = map strip two_blocks" by (simp add: e b)
  have bo: "Chain_BorrowBlockTransactions saved_two j = Chain_BorrowBlockTransactions st j" if "j < 2" for j
    using that r(2) by (auto simp: follows_def Chain_BorrowBlockTransactions_def vec_get_def e b two_blocks_def strip_def less_2_cases_iff)
  then show "follows easy_env two_blocks 2 saved_two"
    using r(2) by (simp add: follows_def sb) (simp add: e two_blocks_def strip_def)
  show "chain_inv easy_env saved_two" using i(1) by (simp add: e chain_inv_def Chain_IsValid_strip dag_cache_strip)
  have len: "length (blocks (g_chain saved_two)) = 2" "length (blocks (g_chain st)) = 2" by (simp_all add: sb b two_blocks_def)
  have "g_sheetMap saved_two = g_sheetMap st" "g_currentSupply saved_two = g_currentSupply st" by (simp_all add: e)
  then show "synced saved_two" using i(2) history_cong [of 2 saved_two st] bo by (simp add: synced_def Let_def len)
qed

lemma bad_branch_refused:
  assumes "follows easy_env two_blocks 1 st" "chain_inv easy_env st" "synced st"
  shows "\<not> snd (add_blocks easy_env st bad_branch)"
proof -
  let ?bad = "easy_block 1 (tip_hash node1) [coinbase_of 1]"
  have n: "chain_inv easy_env node1" "synced node1" using reachable_inv [OF node1_reachable] by auto
  have c: "Address_IsCoinbase (senderAddress (transaction (coinbase_of 1)))" "amount1 (transaction (coinbase_of 1)) = 1"
    by (simp_all add: coinbase_of_def demo_tx_def Address_IsCoinbase_def list_all_iff)
  have "BalanceSheet_SelectSpendableTransactions easy_env (g_sheetMap node1) [coinbase_of 1] = ([], 0)"
    using c(1) by (simp add: BalanceSheet_SelectSpendableTransactions_def)
  then have "validate_economics easy_env (g_sheetMap node1) (g_currentReward node1) ?bad [coinbase_of 1] = None"
    using c by (auto simp: validate_economics_def Block_ValidateCoinbaseAndFees_def easy_block_def Let_def node1_validated(3)
        split: option.splits)
  then have no: "accepted easy_env node1 ?bad = None"
    using easy_accepted [of node1 1 "tip_hash node1" "[coinbase_of 1]"] by (simp add: node1_simps tip_hash_def)
  have f1: "follows easy_env two_blocks 1 node1"
    using follows_longer [OF node1_validated(2), of "[coinbase_block node1]"] by (simp add: two_blocks_def)
  have mem: "in_memory two_blocks" using saved_two_facts(3) by (simp add: validated_def)
  have "accepted easy_env st ?bad = None"
    using no follows_accepted [OF f1 mem n, of ?bad] follows_accepted [OF assms(1) mem assms(2,3), of ?bad] by simp
  then have "\<not> snd (Chain_AddBlockLocked easy_env st ?bad)"
    using AddBlockLocked_eq [of st easy_env ?bad] assms(2) by (auto simp: chain_inv_def)
  then show ?thesis by (simp add: bad_branch_def Let_def case_prod_unfold)
qed

lemma bad_branch_heavier: "may_replace easy_env 0 saved_two 1 bad_branch 0 True"
proof -
  have "block_work b = block_work (coinbase_block node1)" if "difficultyTarget (header b) = INITIAL_DIFFICULTY" for b
    using that by (simp add: block_work_def coinbase_block_def easy_block_def)
  moreover have "0 < block_work (coinbase_block node1)"
    by (simp add: block_work_def coinbase_block_def easy_block_def INITIAL_DIFFICULTY_def compact_value_def compact_mantissa_def
        compact_exponent_def)
  moreover have "tip_hash node1 = Block_CalculateHash easy_env (coinbase_block fresh_node)" by (simp add: tip_hash_def node1_simps)
  moreover have "Block_CalculateHash easy_env (strip b) = Block_CalculateHash easy_env b" "block_work (strip b) = block_work b" for b
    by (simp_all add: Block_CalculateHash_def block_work_def strip_def)
  ultimately show ?thesis
    by (simp add: may_replace_def bad_branch_def Let_def branch_work_def saved_two_facts(5) two_blocks_def Chain_BranchIsLinkedLocked_def
        vec_get_def easy_block_def)
qed

theorem ReplaceBranch_atomic_witness:
  "may_replace easy_env 0 saved_two 1 bad_branch 0 True \<and>
   (\<exists>st'. Chain_ReplaceBranch easy_env 0 saved_two 1 bad_branch 0 True = (st', False) \<and>
      Chain_BorrowBlockTransactions st' 1 = Some (coinbase_block node1) \<and> g_currentSupply st' = g_currentSupply saved_two)"
proof -
  obtain st' ok where r: "Chain_ReplaceBranch easy_env 0 saved_two 1 bad_branch 0 True = (st', ok)" by fastforce
  note f = saved_two_facts
  have len: "length two_blocks = 2" by (simp add: two_blocks_def)
  have fo: "follows easy_env two_blocks (length two_blocks) saved_two" using f(4) by (simp add: len)
  have "\<not> ok"
  proof
    assume ok
    then obtain sn st1 where s: "swap_branch easy_env saved_two 1 sn bad_branch = (st1, True)" using ReplaceBranch_cases [OF r] by auto
    obtain st2 ok2 where r2: "Chain_RollbackToHeightLocked easy_env saved_two 1 = (st2, ok2)" by fastforce
    have "history_ok saved_two 1" using f(2) history_ok_mono by (auto simp: synced_def Let_def f(5) len)
    from Rollback_follows [OF f(3,1) _ this _ follows_extends [OF f(4) extends_refl] _ r2] f(4)
    have "ok2 \<and> follows easy_env two_blocks 1 st2 \<and> chain_inv easy_env st2 \<and> synced st2" by (simp add: f(5) len follows_def)
    then show False using bad_branch_refused [of st2] s r2 by (auto simp: swap_branch_def Let_def case_prod_unfold split: if_splits)
  qed
  then have r: "Chain_ReplaceBranch easy_env 0 saved_two 1 bad_branch 0 True = (st', False)" using r by simp
  have "Chain_BorrowBlockTransactions saved_two 1 = Some (coinbase_block node1)" using f(4) by (simp add: follows_def two_blocks_def)
  with ReplaceBranch_atomic [OF f(1-3) fo r] r bad_branch_heavier show ?thesis by (simp add: f(5) len)
qed

end
