(* ===== verification/Net_Sound.thy ===== *)
theory Net_Sound
  imports Node_Commands Chain_Restore
begin

text \<open>
  What the packet handlers of \<open>Net_Node\<close> guarantee whatever bytes the peers send and whether saves succeed or not:
  the chain of the node stays valid and the orphan pool, the peer table and the receipts stay well formed
  (\<open>net_inv E False\<close>). As long as saves succeed and no block pays nobody, the ledger moreover stays in step with the
  chain and every block can be served with its transactions (\<open>net_inv E True\<close>). From this follow the properties
  of serving blocks and of synchronising one node from another.
\<close>

section \<open>Where the blocks of a chain come from\<close>

text \<open>\<open>grown S st st'\<close>: the chain of \<open>st'\<close> is a prefix of that of \<open>st\<close> followed by blocks of \<open>S\<close>; the disk is the same.\<close>

definition grown :: "block_t set \<Rightarrow> node_state \<Rightarrow> node_state \<Rightarrow> bool" where
  "grown S st st' \<longleftrightarrow> disk st' = disk st \<and> (\<exists>k extra. blocks (g_chain st') = take k (blocks (g_chain st)) @ extra \<and> set extra \<subseteq> S)"

lemma grown_same: "blocks (g_chain st') = blocks (g_chain st) \<Longrightarrow> disk st' = disk st \<Longrightarrow> grown S st st'"
  unfolding grown_def by (metis append_Nil2 empty_subsetI order.refl set_empty2 take_all)

lemma grown_trans: "grown S st st1 \<Longrightarrow> grown S st1 st2 \<Longrightarrow> grown S st st2"
proof -
  assume "grown S st st1" "grown S st1 st2"
  then obtain k e j f where g: "blocks (g_chain st1) = take k (blocks (g_chain st)) @ e" "set e \<subseteq> S"
    "blocks (g_chain st2) = take j (blocks (g_chain st1)) @ f" "set f \<subseteq> S" "disk st2 = disk st"
    by (auto simp: grown_def)
  let ?bs = "blocks (g_chain st)"
  have "blocks (g_chain st2) = take (min j k) ?bs @ (take (j - length (take k ?bs)) e @ f)" using g(1,3) by simp
  moreover have "set (take (j - length (take k ?bs)) e @ f) \<subseteq> S" using g(2,4) set_take_subset [of _ e] by auto
  ultimately show ?thesis using g(5) unfolding grown_def by blast
qed

lemma grown_mono: "grown S st st' \<Longrightarrow> S \<subseteq> T \<Longrightarrow> grown T st st'"
  unfolding grown_def by blast

lemma grown_after: "grown S st st1 \<Longrightarrow> g_chain st2 = g_chain st1 \<Longrightarrow> disk st2 = disk st1 \<Longrightarrow> grown S st st2"
  unfolding grown_def by simp

lemma DagParams_blocks: "blocks (fst (Chain_DagParamsForHeightLocked E chain h)) = blocks chain"
  by (simp add: Chain_DagParamsForHeightLocked_def Chain_ExtendDagEpochsLocked_def case_prod_unfold Let_def split: option.split)

lemma AddBlockLocked_grown:
  assumes "Chain_AddBlockLocked E st b = (st', ok)" "block_wf b"
  shows "grown {b. whole b} st st'"
proof (cases "transactions b")
  case None
  then show ?thesis using assms(1) grown_same [of st st] by (simp add: Chain_AddBlockLocked_def)
next
  case (Some txs)
  then have "whole b" using assms(2) by (simp add: whole_def)
  have "disk st' = disk st \<and> (blocks (g_chain st') = blocks (g_chain st) \<or> blocks (g_chain st') = blocks (g_chain st) @ [b])"
    using assms(1) Some DagParams_blocks [of E "g_chain st"]
    by (auto simp: Chain_AddBlockLocked_def Let_def case_prod_unfold vec_push_back_def split: if_splits option.splits)
  then show ?thesis
    using \<open>whole b\<close> grown_same [of st' st] unfolding grown_def by (auto intro: exI [of _ "length (blocks (g_chain st))"])
qed

lemma AddBlock_grown:
  assumes "Chain_AddBlock E st b = (st', ok)" "block_wf b"
  shows "grown {b. whole b} st st'"
proof (cases "transactions b = None")
  case True
  then show ?thesis using assms(1) grown_same [of st st] by (simp add: Chain_AddBlock_def)
next
  case False
  then obtain st1 where "Chain_AddBlockLocked E st b = (st1, ok)" "st' = (if ok then Chain_OnTipAdvanced st1 else st1)"
    using assms(1) by (auto simp: Chain_AddBlock_def split: prod.splits if_splits)
  then show ?thesis using grown_after [OF AddBlockLocked_grown [OF _ assms(2)], of E st st1 ok st'] by (simp add: Chain_OnTipAdvanced_def)
qed

lemma RollbackLocked_grown: "Chain_RollbackToHeightLocked E st height = (st', ok) \<Longrightarrow> grown S st st'"
proof -
  assume r: "Chain_RollbackToHeightLocked E st height = (st', ok)"
  let ?bs = "blocks (g_chain st)"
  show ?thesis
  proof (cases "length ?bs \<le> height")
    case True
    then show ?thesis using r grown_same [of st st] by (simp add: Chain_RollbackToHeightLocked_def)
  next
    case False
    have p: "pop_down ?bs (rev [height..<length ?bs]) = take height ?bs" using pop_down_take [of height "length ?bs" ?bs] False by simp
    have "disk st' = disk st \<and> blocks (g_chain st') = take height ?bs @ []"
      using r False p by (auto simp: Chain_RollbackToHeightLocked_def Let_def Chain_InvalidateDagEpochs_def split: prod.splits option.splits)
    then show ?thesis unfolding grown_def by (metis empty_subsetI set_empty2)
  qed
qed

lemma add_blocks_grown:
  "add_blocks E st bs = (st', ok) \<Longrightarrow> list_all block_wf bs \<Longrightarrow> grown {b. whole b} st st'"
proof (induction bs arbitrary: st)
  case Nil
  then show ?case using grown_same [of st st] by simp
next
  case (Cons b bs)
  obtain st1 ok1 where a: "Chain_AddBlockLocked E st b = (st1, ok1)" by fastforce
  have g: "grown {b. whole b} st st1" using AddBlockLocked_grown [OF a] Cons.prems(2) by simp
  show ?case using Cons a g grown_trans [OF g, of st'] by (cases ok1) auto
qed

lemma swap_branch_grown:
  assumes "swap_branch E st forkHeight snapshot candidate = (st', ok)" "list_all block_wf snapshot" "list_all block_wf candidate"
  shows "grown {b. whole b} st st'"
proof -
  obtain st1 r1 where a: "Chain_RollbackToHeightLocked E st forkHeight = (st1, r1)" by fastforce
  obtain st2 r2 where b: "add_blocks E st1 candidate = (st2, r2)" by fastforce
  obtain st3 r3 where c: "Chain_RollbackToHeightLocked E st2 forkHeight = (st3, r3)" by fastforce
  obtain st4 r4 where d: "add_blocks E st3 snapshot = (st4, r4)" by fastforce
  note g1 = RollbackLocked_grown [OF a, of "{b. whole b}"]
  note g2 = grown_trans [OF g1 add_blocks_grown [OF b assms(3)]]
  note g3 = grown_trans [OF g2 RollbackLocked_grown [OF c]]
  note g4 = grown_trans [OF g3 add_blocks_grown [OF d assms(2)]]
  show ?thesis using assms(1) a b c d g1 g2 g3 g4 by (auto simp: swap_branch_def split: if_splits)
qed

section \<open>Every block can be served\<close>

definition servable :: "node_state \<Rightarrow> bool" where
  "servable st \<longleftrightarrow> list_all block_wf (blocks (g_chain st)) \<and>
     (\<forall>i<length (blocks (g_chain st)). \<exists>b. Chain_BorrowBlockTransactions st i = Some b \<and> whole b \<and> header b = header (blocks (g_chain st) ! i))"

lemma servable_grown:
  assumes "servable st" "grown {b. whole b} st st'"
  shows "servable st'"
proof -
  obtain k extra where g: "blocks (g_chain st') = take k (blocks (g_chain st)) @ extra" "set extra \<subseteq> {b. whole b}" "disk st' = disk st"
    using assms(2) by (auto simp: grown_def)
  let ?bs = "blocks (g_chain st)" and ?bs' = "blocks (g_chain st')"
  have wf: "list_all block_wf ?bs'"
    using assms(1) g(1,2) set_take_subset [of k ?bs] by (auto simp: servable_def list_all_iff whole_def)
  have "\<exists>b. Chain_BorrowBlockTransactions st' i = Some b \<and> whole b \<and> header b = header (?bs' ! i)" if i: "i < length ?bs'" for i
  proof (cases "i < length (take k ?bs)")
    case True
    then have "?bs' ! i = ?bs ! i" "i < length ?bs" using g(1) by (auto simp: nth_append)
    moreover from this have "Chain_BorrowBlockTransactions st' i = Chain_BorrowBlockTransactions st i"
      using i g(3) by (simp add: Chain_BorrowBlockTransactions_def vec_get_def)
    ultimately show ?thesis using assms(1) by (auto simp: servable_def)
  next
    case False
    then have "?bs' ! i \<in> set extra" using g(1) i by (auto simp: nth_append)
    then have "whole (?bs' ! i)" using g(2) by blast
    then show ?thesis using i by (simp add: Chain_BorrowBlockTransactions_def vec_get_def whole_def)
  qed
  then show ?thesis using wf by (simp add: servable_def)
qed

lemma ReplaceBranch_grown:
  assumes "Chain_ReplaceBranch E now st forkHeight newBlocks observed bypass = (st', ok)" "servable st" "list_all block_wf newBlocks"
  shows "grown {b. whole b} st st'"
  using ReplaceBranch_cases [OF assms(1)]
proof
  assume "\<not> ok \<and> (st' = st \<or> st' = Chain_OnTipAdvanced st)"
  then show ?thesis using grown_same [of st' st] by (auto simp: Chain_OnTipAdvanced_def)
next
  assume "may_replace E now st forkHeight newBlocks observed bypass \<and>
     (\<exists>snapshot st1. snapshot_blocks st [forkHeight..<length (blocks (g_chain st))] = Some snapshot \<and>
        swap_branch E st forkHeight snapshot newBlocks = (st1, ok) \<and> st' = Chain_OnTipAdvanced st1)"
  then obtain snapshot st1 where s: "snapshot_blocks st [forkHeight..<length (blocks (g_chain st))] = Some snapshot"
    "swap_branch E st forkHeight snapshot newBlocks = (st1, ok)" "st' = Chain_OnTipAdvanced st1" by blast
  have wf: "snapshot_blocks st is = Some bs \<Longrightarrow> \<forall>i\<in>set is. i < length (blocks (g_chain st)) \<Longrightarrow> list_all block_wf bs" for "is" bs
    using assms(2) by (induction "is" arbitrary: bs) (auto simp: servable_def whole_def split: option.splits)
  show ?thesis
    using grown_after [OF swap_branch_grown [OF s(2) wf [OF s(1)] assms(3)], of st'] s(3) by (simp add: Chain_OnTipAdvanced_def)
qed

section \<open>Attaching orphans\<close>

definition orphans_wf :: "orphan_pool \<Rightarrow> bool" where
  "orphans_wf p \<longleftrightarrow> list_all (\<lambda>e. block_wf (oe_block e)) (orphans p)"

lemma Drop_subset: "set (orphans (OrphanPool_DropByHashLocked p h)) \<subseteq> set (orphans p)"
  by (auto simp: OrphanPool_DropByHashLocked_def vec_pop_at_def split: option.splits dest: in_set_takeD in_set_dropD)

lemma drop_all_subset: "set (orphans (drop_all p hs)) \<subseteq> set (orphans p)"
  using Drop_subset by (induction p hs rule: drop_all.induct) fastforce+

lemma orphans_wf_subset: "orphans_wf p \<Longrightarrow> set (orphans p') \<subseteq> set (orphans p) \<Longrightarrow> orphans_wf p'"
  by (auto simp: orphans_wf_def list_all_iff)

text \<open>A node that keeps serving its blocks, from the same disk.\<close>

definition serves_on :: "node_state \<Rightarrow> node_state \<Rightarrow> bool" where
  "serves_on st st' \<longleftrightarrow> servable st' \<and> disk st' = disk st"

lemma grown_serves: "servable st \<Longrightarrow> grown {b. whole b} st st' \<Longrightarrow> serves_on st st'"
  using servable_grown by (auto simp: serves_on_def grown_def)

lemma serves_trans: "serves_on st st1 \<Longrightarrow> serves_on st1 st2 \<Longrightarrow> serves_on st st2"
  by (simp add: serves_on_def)

lemma extend_tip_serves:
  "extend_tip_loop E p st n = (p', st', n') \<Longrightarrow> servable st \<Longrightarrow> orphans_wf p \<Longrightarrow> serves_on st st' \<and> orphans_wf p'"
proof (induction E p st n rule: extend_tip_loop.induct)
  case (1 E p st n)
  show ?case
  proof (cases "(p, st, n) = (p', st', n')")
    case False
    then obtain tipHash e where 2: "tip_parent_hash E (g_chain st) = Some tipHash"
        "OrphanPool_FindChildLocked p (of_nat (Chain_Size (g_chain st))) tipHash = Some e"
      using "1.prems" by (auto simp: extend_tip_loop.simps [of E p st] split: option.splits)
    obtain st1 ok where a: "Chain_AddBlock E st (Block_Copy (oe_block e)) = (st1, ok)" by fastforce
    let ?p1 = "OrphanPool_DropByHashLocked p (oe_hash e)"
    have r: "extend_tip_loop E ?p1 st1 (if ok then n + 1 else n) = (p', st', n')"
      using "1.prems"(1) 2 a by (subst (asm) extend_tip_loop.simps) (auto simp: TakeByHash_Drop split: if_splits)
    have e: "block_wf (Block_Copy (oe_block e))" using FindChild_Some [OF 2(2)] "1.prems"(3) by (auto simp: orphans_wf_def list_all_iff)
    have s: "serves_on st st1" by (rule grown_serves [OF "1.prems"(2) AddBlock_grown [OF a e]])
    have "serves_on st1 st' \<and> orphans_wf p'"
      using "1.IH" [OF 2 a [symmetric] refl] r s orphans_wf_subset [OF "1.prems"(3) Drop_subset]
      by (cases ok) (auto simp: TakeByHash_Drop serves_on_def)
    then show ?thesis using serves_trans [OF s] by blast
  qed (use "1.prems" in \<open>auto simp: serves_on_def\<close>)
qed

lemma collect_loop_subset: "collect_loop k p c h = Some es \<Longrightarrow> set es \<subseteq> set (orphans p)"
proof (induction k arbitrary: c h es)
  case (Suc k)
  then show ?case using Suc.IH by (fastforce split: option.splits dest!: FindChild_Some)
qed simp

lemma CollectBranch_subset: "OrphanPool_CollectBranchLocked p fork h = (es, observed) \<Longrightarrow> set es \<subseteq> set (orphans p)"
  by (auto simp: OrphanPool_CollectBranchLocked_def split: option.splits if_splits
      dest: collect_loop_subset simp del: collect_loop.simps)

lemma try_adopt_serves:
  "try_adopt E now bypass forks p st = (p', st', n) \<Longrightarrow> servable st \<Longrightarrow> orphans_wf p \<Longrightarrow> serves_on st st' \<and> orphans_wf p'"
proof (induction E now bypass forks p st rule: try_adopt.induct)
  case (2 E now bypass forkHeight forks p st)
  show ?case
  proof (cases "Chain_GetBlockCopy (g_chain st) (forkHeight - 1)")
    case None
    then show ?thesis using 2 by simp
  next
    case (Some parent)
    obtain branch observed where b: "OrphanPool_CollectBranchLocked p (of_nat forkHeight) (Block_CalculateHash E parent) = (branch, observed)"
      by fastforce
    obtain st1 adopted where r: "Chain_ReplaceBranch E (now p forkHeight) st forkHeight
        (map (\<lambda>e. Block_Copy (oe_block e)) branch) observed bypass = (st1, adopted)" by fastforce
    have "list_all block_wf (map (\<lambda>e. Block_Copy (oe_block e)) branch)"
      using CollectBranch_subset [OF b] "2.prems"(3) by (auto simp: orphans_wf_def list_all_iff)
    note s = grown_serves [OF "2.prems"(2) ReplaceBranch_grown [OF r "2.prems"(2) this]]
    consider "branch = []" | "branch \<noteq> []" "adopted" | "branch \<noteq> []" "\<not> adopted" by blast
    then show ?thesis
    proof cases
      case 1
      then show ?thesis using "2.IH"(2) [OF Some b [symmetric] refl] "2.prems" Some b by simp
    next
      case adopt: 2
      then have "p' = drop_all p (map oe_hash branch)" "st' = st1" using "2.prems"(1) Some b r by simp_all
      then show ?thesis using s orphans_wf_subset [OF "2.prems"(3) drop_all_subset] by simp
    next
      case refused: 3
      have "try_adopt E now bypass forks p st1 = (p', st', n)" using "2.prems"(1) Some b r refused by simp
      then have "serves_on st1 st' \<and> orphans_wf p'"
        using "2.IH"(3) [OF Some b [symmetric] refl] refused r s "2.prems"(3) by (simp add: serves_on_def)
      then show ?thesis using serves_trans [OF s] by blast
    qed
  qed
qed (simp add: serves_on_def)

lemma attach_loop_serves:
  "attach_loop E now bypass p st n = (p', st', n') \<Longrightarrow> servable st \<Longrightarrow> orphans_wf p \<Longrightarrow> serves_on st st' \<and> orphans_wf p'"
proof (induction E now bypass p st n rule: attach_loop.induct)
  case (1 E now bypass p st n)
  obtain p1 st1 x where e: "OrphanPool_ExtendTip E p st = (p1, st1, x)" using prod_cases3 by blast
  obtain p2 st2 y where a: "OrphanPool_TryAdoptBranch E now p1 st1 bypass = (p2, st2, y)" using prod_cases3 by blast
  have s1: "serves_on st st1" "orphans_wf p1"
    using e extend_tip_serves "1.prems"(2,3) by (auto simp: OrphanPool_ExtendTip_def)
  have s2: "serves_on st1 st2" "orphans_wf p2"
    using a try_adopt_serves [of E now bypass _ p1 st1 p2 st2 y] s1
    by (auto simp: OrphanPool_TryAdoptBranch_def serves_on_def Let_def simp del: try_adopt.simps upt_Suc split: if_splits)
  note s = serves_trans [OF s1(1) s2(1)] s2(2)
  show ?case
  proof (cases "x = 0 \<and> y = 0")
    case True
    then show ?thesis using "1.prems"(1) e a s by (simp add: attach_loop.simps [of E now bypass p st])
  next
    case False
    have r: "attach_loop E now bypass p2 st2 (n + x + y) = (p', st', n')"
      using "1.prems"(1) e a False by (subst (asm) attach_loop.simps) auto
    have "servable st2" using s(1) by (simp add: serves_on_def)
    then have "serves_on st2 st' \<and> orphans_wf p'"
      using "1.IH" [OF e [symmetric] refl refl a [symmetric] refl refl refl False r _ s(2)] by blast
    then show ?thesis using serves_trans [OF s(1)] by blast
  qed
qed

lemma AttemptAttach_serves:
  assumes "OrphanPool_AttemptAttachForced E now p st bypass = (p', st', n)" "servable st" "orphans_wf p"
  shows "serves_on st st' \<and> orphans_wf p'"
proof (cases "orphans p = []")
  case True
  then show ?thesis using assms by (auto simp: OrphanPool_AttemptAttachForced_def serves_on_def)
next
  case False
  then obtain p1 where l: "attach_loop E now bypass p st 0 = (p1, st', n)" "p' = OrphanPool_PruneStale E (g_chain st') p1"
    using assms(1) by (auto simp: OrphanPool_AttemptAttachForced_def split: prod.splits)
  have "set (orphans p') \<subseteq> set (orphans p1)" unfolding l(2) OrphanPool_PruneStale_def using drop_all_subset by (auto simp: Let_def)
  then show ?thesis using attach_loop_serves [OF l(1) assms(2,3)] orphans_wf_subset by blast
qed

section \<open>What the chain operations leave on disk\<close>

lemma AddBlockLocked_disk: "disk (fst (Chain_AddBlockLocked E st b)) = disk st"
  by (simp add: Chain_AddBlockLocked_def Let_def case_prod_unfold split: option.split)

lemma AddBlock_disk: "Chain_AddBlock E st b = (st', ok) \<Longrightarrow> disk st' = disk st"
  using AddBlock_Locked [of E st b st' ok] AddBlockLocked_disk [of E st b] by (auto split: if_splits)

lemma add_blocks_disk: "disk (fst (add_blocks E st bs)) = disk st"
  by (induction bs arbitrary: st) (simp_all add: Let_def case_prod_unfold AddBlockLocked_disk)

lemma RollbackLocked_disk: "disk (fst (Chain_RollbackToHeightLocked E st height)) = disk st"
  by (simp add: Chain_RollbackToHeightLocked_def Let_def case_prod_unfold split: option.split)

lemma ReplaceBranch_disk:
  assumes "Chain_ReplaceBranch E now st forkHeight newBlocks observed bypass = (st', ok)"
  shows "disk st' = disk st"
  using ReplaceBranch_cases [OF assms]
proof
  assume "may_replace E now st forkHeight newBlocks observed bypass \<and>
    (\<exists>snapshot st1. snapshot_blocks st [forkHeight..<length (blocks (g_chain st))] = Some snapshot \<and>
      swap_branch E st forkHeight snapshot newBlocks = (st1, ok) \<and> st' = Chain_OnTipAdvanced st1)"
  then obtain snapshot st1 where s: "swap_branch E st forkHeight snapshot newBlocks = (st1, ok)" "st' = Chain_OnTipAdvanced st1" by blast
  have "disk (fst (swap_branch E st forkHeight snapshot newBlocks)) = disk st"
    by (simp add: swap_branch_def Let_def case_prod_unfold add_blocks_disk RollbackLocked_disk)
  then show ?thesis using s by simp
qed auto

lemma extend_tip_disk: "extend_tip_loop E p st n = (p', st', n') \<Longrightarrow> disk st' = disk st"
proof (induction E p st n rule: extend_tip_loop.induct)
  case (1 E p st n)
  show ?case
  proof (cases "(p, st, n) = (p', st', n')")
    case False
    then obtain tipHash e where 2: "tip_parent_hash E (g_chain st) = Some tipHash"
        "OrphanPool_FindChildLocked p (of_nat (Chain_Size (g_chain st))) tipHash = Some e"
      using "1.prems" by (auto simp: extend_tip_loop.simps [of E p st] split: option.splits)
    obtain st1 ok where a: "Chain_AddBlock E st (Block_Copy (oe_block e)) = (st1, ok)" by fastforce
    have "disk st' = disk st1"
      using "1.IH" [OF 2 a [symmetric] refl] "1.prems" 2 a by (auto simp: extend_tip_loop.simps [of E p st] split: if_splits)
    then show ?thesis using AddBlock_disk [OF a] by simp
  qed simp
qed

lemma try_adopt_disk: "try_adopt E now bypass forks p st = (p', st', n) \<Longrightarrow> disk st' = disk st"
proof (induction E now bypass forks p st rule: try_adopt.induct)
  case (2 E now bypass forkHeight forks p st)
  show ?case
  proof (cases "Chain_GetBlockCopy (g_chain st) (forkHeight - 1)")
    case None
    then show ?thesis using 2 by simp
  next
    case (Some parent)
    obtain branch observed where b: "OrphanPool_CollectBranchLocked p (of_nat forkHeight) (Block_CalculateHash E parent) = (branch, observed)"
      by fastforce
    obtain st1 adopted where r: "Chain_ReplaceBranch E (now p forkHeight) st forkHeight
        (map (\<lambda>e. Block_Copy (oe_block e)) branch) observed bypass = (st1, adopted)" by fastforce
    consider "branch = []" | "branch \<noteq> []" "adopted" | "branch \<noteq> []" "\<not> adopted" by blast
    then show ?thesis
    proof cases
      case 1
      then show ?thesis using "2.IH"(2) [OF Some b [symmetric] refl] "2.prems" Some b by simp
    next
      case adopt: 2
      then have "st' = st1" using "2.prems"(1) Some b r by simp
      then show ?thesis using ReplaceBranch_disk [OF r] by simp
    next
      case refused: 3
      have "try_adopt E now bypass forks p st1 = (p', st', n)" using "2.prems"(1) Some b r refused by simp
      then have "disk st' = disk st1" using "2.IH"(3) [OF Some b [symmetric] refl] refused r by simp
      then show ?thesis using ReplaceBranch_disk [OF r] by simp
    qed
  qed
qed simp

lemma attach_loop_disk: "attach_loop E now bypass p st n = (p', st', n') \<Longrightarrow> disk st' = disk st"
proof (induction E now bypass p st n rule: attach_loop.induct)
  case (1 E now bypass p st n)
  obtain p1 st1 x where e: "OrphanPool_ExtendTip E p st = (p1, st1, x)" using prod_cases3 by blast
  obtain p2 st2 y where a: "OrphanPool_TryAdoptBranch E now p1 st1 bypass = (p2, st2, y)" using prod_cases3 by blast
  have d1: "disk st1 = disk st" using e extend_tip_disk by (auto simp: OrphanPool_ExtendTip_def)
  have d2: "disk st2 = disk st1"
    using a try_adopt_disk [of E now bypass _ p1 st1 p2 st2 y]
    by (auto simp: OrphanPool_TryAdoptBranch_def Let_def simp del: try_adopt.simps upt_Suc split: if_splits)
  show ?case
  proof (cases "x = 0 \<and> y = 0")
    case True
    then show ?thesis using "1.prems" e a d1 d2 by (simp add: attach_loop.simps [of E now bypass p st])
  next
    case False
    have r: "attach_loop E now bypass p2 st2 (n + x + y) = (p', st', n')"
      using "1.prems" e a False by (subst (asm) attach_loop.simps) auto
    then show ?thesis using "1.IH" [OF e [symmetric] refl refl a [symmetric] refl refl refl False r] d1 d2 by simp
  qed
qed

lemma AttemptAttach_disk: "OrphanPool_AttemptAttachForced E now p st bypass = (p', st', n) \<Longrightarrow> disk st' = disk st"
  using attach_loop_disk by (auto simp: OrphanPool_AttemptAttachForced_def split: if_splits prod.splits)

section \<open>The invariant of the running node\<close>

text \<open>
  With \<open>c\<close> false this is what holds after any packets, any commands and any failures of the file system; with
  \<open>c\<close> true it adds that ledger and chain are in step, that every block can be read with its transactions, and
  that the orphan pool holds well-formed, addressed blocks only.
\<close>

definition net_inv :: "crypto_env \<Rightarrow> bool \<Rightarrow> net_node \<Rightarrow> bool" where
  "net_inv E c n \<longleftrightarrow> reached E c (nn_node n) \<and> disk (nn_node n) = load_disk (nn_files n) \<and> pool_ok E (nn_orphans n) \<and>
     (case nn_discovery n of None \<Rightarrow> True | Some disc \<Rightarrow> disc_ok disc) \<and> receipts_ok (nn_deliveries n) \<and>
     (c \<longrightarrow> servable (nn_node n) \<and> pool_addressed (nn_orphans n) \<and> orphans_wf (nn_orphans n))"

abbreviation net_ok :: "crypto_env \<Rightarrow> net_node \<Rightarrow> bool" where
  "net_ok E n \<equiv> net_inv E True n"

lemmas net_ok_iff = net_inv_def [where c = True, simplified]

lemma net_inv_weaken: "net_inv E c n \<Longrightarrow> (c' \<Longrightarrow> c) \<Longrightarrow> net_inv E c' n"
  using reached_weaken by (auto simp: net_inv_def)

text \<open>The saves among the actions all succeeded, into files a \<^verbatim>\<open>long\<close> can address.\<close>

definition saves_ok :: "net_action list \<Rightarrow> bool" where
  "saves_ok acts \<longleftrightarrow> list_all (\<lambda>a. case a of Saved ok f \<Rightarrow> ok \<and> files_fit f | _ \<Rightarrow> True) acts"

lemma saves_ok_simps [simp]:
  "saves_ok []" "saves_ok (as @ bs) \<longleftrightarrow> saves_ok as \<and> saves_ok bs"
  "saves_ok (Saved ok f # as) \<longleftrightarrow> ok \<and> files_fit f \<and> saves_ok as"
  by (auto simp: saves_ok_def)

lemma save_length:
  assumes "Chain_SaveToFile E io f chain curSupply curReward = (chain', f', True)" "list_all block_wf (blocks chain)" "files_fit f'"
  shows "length (blocks chain) < 2 ^ 64"
proof -
  obtain bs d t where s: "save_blocks io f 0 0 (blocks chain) = (bs, Some (d, t))"
    "f' = \<lparr> meta_file = Some (meta_image (length bs) (fst (tip_fields E bs)) curSupply (snd (tip_fields E bs)) curReward),
           data_file = Some d, table_file = Some t \<rparr>"
    using SaveToFile_True [OF assms(1)] by blast
  from save_blocks_Some [OF s(1) assms(2)] obtain fbs where fbs: "length fbs = length (blocks chain)"
    "t = concat (map table_image (table_entries 0 0 fbs))" by auto
  have "length t = 24 * length (blocks chain)" using table_codec.length_images [of "table_entries 0 0 fbs"] fbs by simp
  then show ?thesis using assms(3) s(2) by (simp add: files_fit_def LONG_MAX_def)
qed

text \<open>A save that succeeds: the chain in memory is reduced to headers, every block reads back as before.\<close>

lemma persist_node_eq:
  assumes "persist_node E w k n = (n', a)"
    and "Chain_SaveToFile E (w_io w k) (nn_files n) (g_chain (nn_node n)) (g_currentSupply (nn_node n)) (g_currentReward (nn_node n)) = (chain', f', ok)"
  shows "nn_node n' = (nn_node n)\<lparr> g_chain := chain', disk := load_disk f' \<rparr>" "nn_files n' = f'" "nn_orphans n' = nn_orphans n"
    "nn_discovery n' = nn_discovery n" "nn_deliveries n' = nn_deliveries n" "a = Saved ok f'" "nn_conns n' = nn_conns n"
  using assms by (auto simp: persist_node_def Let_def)

lemma persist_node_facts:
  assumes "net_ok E n" "persist_node E w k n = (n', a)" "saves_ok [a]" "\<forall>x. length (SHA256 E x) = 32"
  shows "net_ok E n'" and "blocks (g_chain (nn_node n')) = map strip (blocks (g_chain (nn_node n)))"
    and "\<forall>i<length (blocks (g_chain (nn_node n))).
      Chain_BorrowBlockTransactions (nn_node n') i = Chain_BorrowBlockTransactions (nn_node n) i"
    and "nn_conns n' = nn_conns n"
proof -
  let ?st = "nn_node n"
  obtain chain' f' ok where s: "Chain_SaveToFile E (w_io w k) (nn_files n) (g_chain ?st) (g_currentSupply ?st) (g_currentReward ?st) = (chain', f', ok)"
    using prod_cases3 by blast
  let ?st' = "?st\<lparr> g_chain := chain', disk := load_disk f' \<rparr>"
  note n' = persist_node_eq [OF assms(2) s]
  have ok: "ok" "files_fit f'" using assms(3) n'(6) by simp_all
  have h: "disk ?st = load_disk (nn_files n)" "list_all block_wf (blocks (g_chain ?st))" "servable ?st" "reachable E ?st"
    using assms(1) by (simp_all add: net_ok_iff servable_def)
  note sv = s [unfolded eqTrueI [OF ok(1)]]
  note len = save_length [OF sv h(2) ok(2)]
  have r: "reachable E ?st'"
    by (rule reach_step [OF h(4) step_save [OF s h(1)]]) (use ok h(2) len assms(4) in \<open>simp add: save_complete_def\<close>)
  note b = SaveToFile_borrow [OF sv h(1,2) ok(2) spec [OF assms(4)] len]
  have c: "chain' = (g_chain ?st)\<lparr> blocks := map strip (blocks (g_chain ?st)) \<rparr>" by (rule b(1))
  show "blocks (g_chain (nn_node n')) = map strip (blocks (g_chain ?st))" using n'(1) c by simp
  show bo: "\<forall>i<length (blocks (g_chain ?st)). Chain_BorrowBlockTransactions (nn_node n') i = Chain_BorrowBlockTransactions ?st i"
    using b(2) n'(1) by simp
  have "servable ?st'"
    using h(2,3) b(2) c by (auto simp: servable_def list_all_iff block_wf_def)
  then show "net_ok E n'" using assms(1) n' r by (simp add: net_ok_iff)
  show "nn_conns n' = nn_conns n" by (rule n'(7))
qed

lemma persist_ok:
  assumes "net_inv E c n" "persist_node E w k n = (n', a)" "c \<longrightarrow> saves_ok [a]" "\<forall>x. length (SHA256 E x) = 32"
  shows "net_inv E c n'"
proof (cases c)
  case True
  then show ?thesis using persist_node_facts(1) [OF _ assms(2) _ assms(4)] assms(1,3) by simp
next
  case False
  obtain chain' f' ok where s: "Chain_SaveToFile E (w_io w k) (nn_files n) (g_chain (nn_node n)) (g_currentSupply (nn_node n))
      (g_currentReward (nn_node n)) = (chain', f', ok)" using prod_cases3 by blast
  note n' = persist_node_eq [OF assms(2) s]
  have "disk (nn_node n) = load_disk (nn_files n)" "reached E c (nn_node n)" using assms(1) by (simp_all add: net_inv_def)
  from reach_step [OF this(2) step_save [OF s this(1)]] False have "reached E c (nn_node n')" by (simp add: n'(1))
  then show ?thesis using assms(1) False n' by (simp add: net_inv_def)
qed

lemma attach_ok:
  assumes "OrphanPool_AttemptAttachForced E now (nn_orphans n) (nn_node n) bypass = (p, st, k)" "net_inv E g n"
  shows "net_inv E g (n\<lparr> nn_orphans := p, nn_node := st \<rparr>)"
proof -
  have h: "reached E g (nn_node n)" "pool_ok E (nn_orphans n)" "g \<longrightarrow> pool_addressed (nn_orphans n)"
    "g \<longrightarrow> servable (nn_node n) \<and> orphans_wf (nn_orphans n)"
    using assms(2) by (simp_all add: net_inv_def)
  note f = AttemptAttach_facts [OF assms(1) h(1-3)]
  have "g \<longrightarrow> serves_on (nn_node n) st \<and> orphans_wf p" using AttemptAttach_serves [OF assms(1)] h(4) by simp
  moreover have "disk st = disk (nn_node n)" by (rule AttemptAttach_disk [OF assms(1)])
  ultimately show ?thesis
    using assms(2) f(1) shrunk_okc [OF h(2,3) f(2)] by (simp add: net_inv_def serves_on_def)
qed

lemma attach_and_save_ok:
  assumes "net_inv E g n" "attach_and_save E w n = (n', acts)" "g \<longrightarrow> saves_ok acts" "\<forall>x. length (SHA256 E x) = 32"
  shows "net_inv E g n'"
proof -
  obtain p st k where a: "OrphanPool_AttemptAttach E (w_reorgNow w) (nn_orphans n) (nn_node n) = (p, st, k)"
    using prod_cases3 by blast
  let ?n1 = "n\<lparr> nn_orphans := p, nn_node := st \<rparr>"
  have n1: "net_inv E g ?n1" by (rule attach_ok [OF a [unfolded OrphanPool_AttemptAttach_def] assms(1)])
  show ?thesis
  proof (cases "k > 0")
    case True
    obtain n2 s where p: "persist_node E w 1 ?n1 = (n2, s)" by fastforce
    then show ?thesis using persist_ok [OF n1 p] assms a True by (simp add: attach_and_save_def Let_def)
  next
    case False
    then show ?thesis using n1 assms(2) a by (simp add: attach_and_save_def Let_def)
  qed
qed

lemma after_accept_ok:
  assumes "net_inv E g n" "after_accept E w n persist = (n', acts)" "g \<longrightarrow> saves_ok acts" "\<forall>x. length (SHA256 E x) = 32"
  shows "net_inv E g n'"
proof (cases persist)
  case True
  obtain n1 s where p: "persist_node E w 0 n = (n1, s)" by fastforce
  obtain n2 ss where q: "attach_and_save E w n1 = (n2, ss)" by fastforce
  have "acts = s # ss" "n' = n2" using assms(2) True p q by (simp_all add: after_accept_def)
  then have s: "g \<longrightarrow> saves_ok [s]" "g \<longrightarrow> saves_ok ss" using assms(3) by (simp_all add: saves_ok_def)
  then show ?thesis
    using attach_and_save_ok [OF persist_ok [OF assms(1) p s(1) assms(4)] q s(2) assms(4)] \<open>n' = n2\<close> by simp
next
  case False
  then show ?thesis using attach_and_save_ok [OF assms(1) _ assms(3,4)] assms(2) by (simp add: after_accept_def)
qed

text \<open>
  A block in a packet must not carry the unaddressed payment of \<open>AddBlock_unaddressed_payment\<close>, which the
  chain accepts only half way.
\<close>

definition payload_addressed :: "byte list \<Rightarrow> bool" where
  "payload_addressed payload \<longleftrightarrow> (case parse_block payload of None \<Rightarrow> True | Some (h, b) \<Rightarrow> block_addressed b)"

lemma queue_orphan_ok:
  assumes "net_inv E g n" "g \<longrightarrow> block_wf b \<and> block_addressed b" "g_nextSequence (nn_orphans n) \<noteq> UINT64_MAX"
  shows "net_inv E g (queue_orphan E n b h observed)"
proof -
  let ?p = "nn_orphans n"
  have ok: "pool_ok E ?p" using assms(1) by (simp add: net_inv_def)
  have sub: "\<forall>e\<in>set (orphans (OrphanPool_Insert E ?p b h observed)). e \<in> set (orphans ?p) \<or> oe_block e = b"
    by (auto simp: Insert_orphans [OF ok] dest: in_set_tl split: if_splits)
  have "g \<longrightarrow> orphans_wf (OrphanPool_Insert E ?p b h observed) \<and> pool_addressed (OrphanPool_Insert E ?p b h observed)"
    using sub assms(1,2) by (auto simp: net_inv_def orphans_wf_def pool_addressed_def list_all_iff)
  then show ?thesis using assms(1) Insert_pool_ok [OF ok assms(3)] by (simp add: queue_orphan_def net_inv_def)
qed

text \<open>Appending a block, whatever the chain answers.\<close>

lemma add_ok:
  assumes "net_inv E g n" "Chain_AddBlock E (nn_node n) b = (st', ok)" "g \<longrightarrow> block_wf b \<and> block_addressed b"
  shows "net_inv E g (n\<lparr> nn_node := st' \<rparr>)"
proof -
  have "reached E g st'" by (rule reached_AddBlock [OF _ _ assms(2)]) (use assms(1,3) in \<open>simp_all add: net_inv_def\<close>)
  moreover have "g \<longrightarrow> serves_on (nn_node n) st'"
    using grown_serves [OF _ AddBlock_grown [OF assms(2)]] assms(1,3) by (simp add: net_inv_def)
  ultimately show ?thesis using assms(1) AddBlock_disk [OF assms(2)] by (simp add: net_inv_def serves_on_def)
qed

lemma ParseAndAccept_ok:
  assumes "net_inv E g n" "Node_ParseAndAcceptBlock E w n payload persist = (n', acts, r)" "g \<longrightarrow> saves_ok acts"
    and "g \<longrightarrow> payload_addressed payload" "g_nextSequence (nn_orphans n) \<noteq> UINT64_MAX" "\<forall>x. length (SHA256 E x) = 32"
  shows "net_inv E g n'"
proof (cases "n' = n")
  case False
  then obtain h b where p: "parse_block payload = Some (h, b)" "Block_HasValidStructure E b"
    using assms(2) by (auto simp: Node_ParseAndAcceptBlock_def split: option.splits if_splits)
  have b: "g \<longrightarrow> block_wf b \<and> block_addressed b"
    using parse_block_wf [OF p(1)] p(1) assms(4) by (auto simp: whole_def payload_addressed_def)
  obtain st' ok where a: "Chain_AddBlock E (nn_node n) b = (st', ok)" by fastforce
  obtain n2 acts2 where f: "after_accept E w (n\<lparr> nn_node := st' \<rparr>) persist = (n2, acts2)" by fastforce
  have st': "net_inv E g (n\<lparr> nn_node := st' \<rparr>)" by (rule add_ok [OF assms(1) a b])
  have "(\<exists>h observed. n' = queue_orphan E n b h observed) \<or> n' = n \<or> (n' = n\<lparr> nn_node := st' \<rparr>) \<or> (n' = n2 \<and> acts = acts2)"
    using assms(2) p a f unfolding Node_ParseAndAcceptBlock_def Let_def by (simp split: if_splits option.splits) blast+
  then show ?thesis using queue_orphan_ok [OF assms(1) b assms(5)] assms(1,3) st' after_accept_ok [OF st' f _ assms(6)] by blast
qed (use assms(1) in simp)

text \<open>Relaying only adds to the set of seen blocks.\<close>

lemma broadcast_range_node:
  "broadcast_range E w n source hs = (n', acts) \<Longrightarrow> \<exists>seen. n' = n\<lparr> seenBlocks := seen \<rparr>"
proof (induction E w n source hs arbitrary: n' acts rule: broadcast_range.induct)
  case (1 E w n source)
  then show ?case by (auto intro: exI [of _ "seenBlocks n"])
next
  case (2 E w n source h hs)
  show ?case
  proof (cases "full_block n (of_nat h)")
    case None
    then show ?thesis using 2 by simp
  next
    case (Some blk)
    let ?hash = "Block_CalculateHash E blk"
    show ?thesis
    proof (cases "transactions blk = None \<or> ?hash \<in> set (seenBlocks n)")
      case True
      then show ?thesis using 2 Some by (auto simp: Let_def split: if_splits)
    next
      case False
      obtain as d where r: "relay_to w (broadcast_targets (nn_conns n) source) (block_payload (of_nat h) blk) = (as, d)" by fastforce
      let ?n1 = "if d > 0 then n\<lparr> seenBlocks := ?hash # seenBlocks n \<rparr> else n"
      obtain n2 as2 where b: "broadcast_range E w ?n1 source hs = (n2, as2)" by fastforce
      obtain txs where "transactions blk = Some txs" "?hash \<notin> set (seenBlocks n)" using False by auto
      then have "n' = n2" using "2.prems" Some r b by (simp add: Let_def del: relay_to.simps)
      then obtain seen where "n' = ?n1\<lparr> seenBlocks := seen \<rparr>"
        using "2.IH"(4) [OF Some _ refl _ r [symmetric] refl refl b] False by auto
      then show ?thesis by (auto split: if_splits)
    qed
  qed
qed

lemma BroadcastChainRange_ok:
  assumes "Node_BroadcastChainRange E w n h source = (n', acts)" "net_inv E g n" shows "net_inv E g n'"
proof (cases "h \<ge> Chain_Size (g_chain (nn_node n))")
  case True
  then show ?thesis using assms by (simp add: Node_BroadcastChainRange_def Let_def)
next
  case False
  then obtain seen where "n' = n\<lparr> seenBlocks := seen \<rparr>"
    using assms(1) broadcast_range_node [of E w n source _ n' acts] by (auto simp: Node_BroadcastChainRange_def Let_def)
  then show ?thesis using assms(2) by (simp add: net_inv_def)
qed

section \<open>Every callback keeps the invariant\<close>

lemma with_discovery_ok:
  "net_inv E g n \<Longrightarrow> (\<And>disc. discovery_step lid disc (f disc)) \<Longrightarrow> net_inv E g (with_discovery f n)"
  using discovery_step_ok [of lid] by (auto simp: net_inv_def with_discovery_def split: option.splits)

lemma CheckPeerIdentity_ok:
  assumes "net_inv E g n" "Node_CheckPeerIdentity w n c = (n', r)" shows "net_inv E g n'"
proof (cases "Node_ConnListenEndpoint c")
  case None
  then show ?thesis using assms by (auto simp: Node_CheckPeerIdentity_def Let_def split: if_splits)
next
  case (Some ep)
  have "net_inv E g (with_discovery (\<lambda>disc. NodeDiscovery_MarkSelfEndpoint disc ep) n)"
    by (rule with_discovery_ok [OF assms(1) ds_self [OF Some]])
  moreover have "net_inv E g (with_discovery (\<lambda>disc. NodeDiscovery_NoteIdentity (g_localNodeId w) disc ep (peerNodeId c)) n)"
    by (rule with_discovery_ok [OF assms(1) ds_identity [OF Some]])
  ultimately show ?thesis using assms Some by (auto simp: Node_CheckPeerIdentity_def Let_def split: if_splits)
qed

lemma net_ok_conns [simp]:
  "net_inv E g (n\<lparr> nn_conns := c \<rparr>) = net_inv E g n" "net_inv E g (n\<lparr> outboundCount := k \<rparr>) = net_inv E g n"
  "net_inv E g (learn_fields n client payload) = net_inv E g n" "net_inv E g (note_height n p f) = net_inv E g n"
  by (simp_all add: net_inv_def learn_fields_def note_height_def)

lemma on_hello_ok: "net_inv E g n \<Longrightarrow> on_hello w n c payload = (n', acts, go) \<Longrightarrow> net_inv E g n'"
  using CheckPeerIdentity_ok [of E g "learn_fields n c payload" w "hello_fields c payload"]
  by (auto simp: on_hello_def Let_def split: if_splits prod.splits node_identity_result_t.splits)

lemma on_ack_hello_ok: "net_inv E g n \<Longrightarrow> on_ack_hello w n c payload = (n', acts, go) \<Longrightarrow> net_inv E g n'"
  using CheckPeerIdentity_ok [of E g "learn_fields n c payload" w "hello_fields c payload"]
  by (auto simp: on_ack_hello_def Let_def split: if_splits prod.splits node_identity_result_t.splits)

lemma on_peers_ok: "net_inv E g n \<Longrightarrow> net_inv E g (on_peers n c payload)"
  unfolding on_peers_def by (rule with_discovery_ok) (auto intro: ds_peers)

lemma pool_ok_node:
  assumes "net_inv E g n" "node_step E Keeps (nn_node n) ((nn_node n)\<lparr> g_txMempool := p \<rparr>)"
  shows "net_inv E g (n\<lparr> nn_node := (nn_node n)\<lparr> g_txMempool := p \<rparr> \<rparr>)"
proof -
  have "reached E g ((nn_node n)\<lparr> g_txMempool := p \<rparr>)" by (rule reach_keeps [OF _ assms(2)]) (use assms(1) in \<open>simp add: net_inv_def\<close>)
  moreover have "g \<longrightarrow> servable ((nn_node n)\<lparr> g_txMempool := p \<rparr>)"
    using assms(1) servable_grown [of "nn_node n"] grown_same [of _ "nn_node n"] by (simp add: net_inv_def)
  ultimately show ?thesis using assms(1) by (simp add: net_inv_def)
qed

lemma submit_ok:
  "net_inv E g n \<Longrightarrow> net_inv E g (n\<lparr> nn_node := (nn_node n)\<lparr> g_txMempool := fst (TxMempool_Insert E (g_txMempool (nn_node n)) tx) \<rparr> \<rparr>)"
  by (erule pool_ok_node) (rule step_submit)

lemma on_broadcast_tx_ok:
  assumes "net_inv E g n" "on_broadcast_tx E w n c payload = (n', acts, go)" shows "net_inv E g n'"
proof (cases "n' = n")
  case False
  then have "n' = n\<lparr> nn_node := (nn_node n)\<lparr> g_txMempool := fst (TxMempool_Insert E (g_txMempool (nn_node n)) (stx_of_image payload)) \<rparr> \<rparr>"
    using assms(2) by (auto simp: on_broadcast_tx_def Let_def split: if_splits prod.splits)
  then show ?thesis using submit_ok [OF assms(1)] by simp
qed (use assms(1) in simp)

text \<open>The side conditions of a packet: where \<open>g\<close> asks for it, its block is addressed; the orphan counter has not run out.\<close>

definition tame :: "bool \<Rightarrow> net_node \<Rightarrow> byte list \<Rightarrow> bool" where
  "tame g n payload \<longleftrightarrow> (g \<longrightarrow> payload_addressed payload) \<and> g_nextSequence (nn_orphans n) \<noteq> UINT64_MAX"

lemma on_broadcast_block_ok:
  assumes "net_inv E g n" "on_broadcast_block E w n side c payload = (n', acts)" "g \<longrightarrow> saves_ok acts" "tame g n payload" "\<forall>x. length (SHA256 E x) = 32"
  shows "net_inv E g n'"
proof (cases "length payload < 8")
  case True
  then show ?thesis using assms(1,2) by (simp add: on_broadcast_block_def)
next
  case False
  obtain n1 as r where p: "Node_ParseAndAcceptBlock E w n payload True = (n1, as, r)" using prod_cases3 by blast
  have "g \<longrightarrow> saves_ok as" using assms(2,3) False p by (auto simp: on_broadcast_block_def Let_def split: if_splits prod.splits)
  then have "net_inv E g n1" using ParseAndAccept_ok [OF assms(1) p] assms(4,5) by (simp add: tame_def)
  then show ?thesis
    using assms(2) False p BroadcastChainRange_ok
    by (auto simp: on_broadcast_block_def Let_def split: if_splits prod.splits)
qed

lemma on_block_data_ok:
  assumes "net_inv E g n" "on_block_data E w n c payload = (n', acts)" "g \<longrightarrow> saves_ok acts" "tame g n payload" "\<forall>x. length (SHA256 E x) = 32"
  shows "net_inv E g n'"
proof (cases "length payload < 8")
  case True
  then show ?thesis using assms(1,2) by (simp add: on_block_data_def)
next
  case False
  obtain n1 as r where p: "Node_ParseAndAcceptBlock E w n payload True = (n1, as, r)" using prod_cases3 by blast
  have "g \<longrightarrow> saves_ok as" using assms(2,3) False p by (auto simp: on_block_data_def Let_def split: if_splits prod.splits)
  then have "net_inv E g n1" using ParseAndAccept_ok [OF assms(1) p] assms(4,5) by (simp add: tame_def)
  then have "net_inv E g (n1\<lparr> nn_deliveries := Node_NoteBlockDelivered (nn_deliveries n1) h s \<rparr>)" for h s
    using NoteBlockDelivered_ok by (simp add: net_inv_def)
  then show ?thesis
    using assms(2) False p BroadcastChainRange_ok
    by (auto simp: on_block_data_def Let_def split: if_splits prod.splits)
qed

lemma server_packet_ok:
  assumes "net_inv E g n" "server_packet E w n c t payload = (n', acts, go)" "g \<longrightarrow> saves_ok acts" "tame g n payload" "\<forall>x. length (SHA256 E x) = 32"
  shows "net_inv E g n'"
proof -
  have "(n', acts, go) = on_hello w n c payload \<or> on_broadcast_block E w n False c payload = (n', acts) \<or>
      (n', acts, go) = on_broadcast_tx E w n (conn_ptr c) payload \<or> n' = on_peers n c payload \<or> n' = n"
    using assms(2) unfolding server_packet_def illegal_def by (simp split: if_splits prod.splits)
  then show ?thesis
    using assms(1) on_hello_ok [OF assms(1)] on_broadcast_tx_ok [OF assms(1)] on_peers_ok [OF assms(1)]
      on_broadcast_block_ok [OF assms(1) _ assms(3-5)] by metis
qed

lemma client_packet_ok:
  assumes "net_inv E g n" "client_packet E w n c t payload = (n', acts, go)" "g \<longrightarrow> saves_ok acts" "tame g n payload" "\<forall>x. length (SHA256 E x) = 32"
  shows "net_inv E g n'"
proof -
  have "(n', acts, go) = on_ack_hello w n c payload \<or> on_broadcast_block E w n True c payload = (n', acts) \<or>
      on_block_data E w n c payload = (n', acts) \<or> n' = on_peers n c payload \<or> n' = n"
    using assms(2) unfolding client_packet_def illegal_def by (simp split: if_splits prod.splits)
  then show ?thesis
    using assms(1) on_ack_hello_ok [OF assms(1)] on_peers_ok [OF assms(1)]
      on_broadcast_block_ok [OF assms(1) _ assms(3-5)] on_block_data_ok [OF assms(1) _ assms(3-5)] by metis
qed

definition tame_frame :: "bool \<Rightarrow> net_node \<Rightarrow> byte list \<Rightarrow> bool" where
  "tame_frame g n frame \<longleftrightarrow> tame g n (drop 1 frame)"

lemma DecodePacket_payload: "Node_DecodePacket frame = Some (t, payload) \<Longrightarrow> payload = drop 1 frame"
  by (cases frame) (auto split: if_splits)

lemma forward_cases: "forward p payload r = (n', acts) \<Longrightarrow> \<exists>as go. r = (n', as, go) \<and> (saves_ok acts \<longrightarrow> saves_ok as)"
  by (cases r) (auto simp: forward_def split: if_splits)

lemma Server_OnData_ok:
  assumes "net_inv E g n" "Node_Server_OnData E w n c frame = (n', acts)" "g \<longrightarrow> saves_ok acts" "tame_frame g n frame" "\<forall>x. length (SHA256 E x) = 32"
  shows "net_inv E g n'"
proof (cases "Node_DecodePacket frame")
  case (Some tp)
  then obtain t payload where d: "Node_DecodePacket frame = Some (t, payload)" by (cases tp) auto
  then obtain as go where "server_packet E w n c t payload = (n', as, go)" "g \<longrightarrow> saves_ok as"
    using forward_cases [of "conn_ptr c" payload "server_packet E w n c t payload" n' acts] assms(2,3)
    by (auto simp: Node_Server_OnData_def)
  then show ?thesis
    using server_packet_ok [OF assms(1)] assms(4,5) DecodePacket_payload [OF d] by (simp add: tame_frame_def)
qed (use assms(1,2) in \<open>simp add: Node_Server_OnData_def\<close>)

lemma Client_OnData_ok:
  assumes "net_inv E g n" "Node_Client_OnData E w n c frame = (n', acts)" "g \<longrightarrow> saves_ok acts" "tame_frame g n frame" "\<forall>x. length (SHA256 E x) = 32"
  shows "net_inv E g n'"
proof (cases "Node_DecodePacket frame")
  case (Some tp)
  then obtain t payload where d: "Node_DecodePacket frame = Some (t, payload)" by (cases tp) auto
  then obtain as go where "client_packet E w n c t payload = (n', as, go)" "g \<longrightarrow> saves_ok as"
    using forward_cases [of "conn_ptr c" payload "client_packet E w n c t payload" n' acts] assms(2,3)
    by (auto simp: Node_Client_OnData_def)
  then show ?thesis
    using client_packet_ok [OF assms(1)] assms(4,5) DecodePacket_payload [OF d] by (simp add: tame_frame_def)
qed (use assms(1,2) in \<open>simp add: Node_Client_OnData_def\<close>)

lemma ConnectPeer_ok: "Node_ConnectPeer w n ip port = (n', acts, rc) \<Longrightarrow> net_inv E g n' = net_inv E g n"
  by (auto simp: Node_ConnectPeer_def TcpClient_Connect_def Let_def split: if_splits option.splits prod.splits)

lemma Server_OnConnect_ok: "Node_Server_OnConnect w n c = (n', acts) \<Longrightarrow> net_inv E g n' = net_inv E g n"
  using ConnectPeer_ok by (auto simp: Node_Server_OnConnect_def split: if_splits option.splits prod.splits)

lemma HandlePeerDisconnect_ok: "net_inv E g n \<Longrightarrow> net_inv E g (Node_HandlePeerDisconnect n c)"
  using with_discovery_ok [OF _ ds_remove] by (auto simp: Node_HandlePeerDisconnect_def split: option.splits)

lemma Client_OnDisconnect_ok: "net_inv E g n \<Longrightarrow> net_inv E g (fst (Node_Client_OnDisconnect n c))"
  using HandlePeerDisconnect_ok by (auto simp: Node_Client_OnDisconnect_def Let_def)

lemma dial_all_ok: "dial_all w n as = (n', acts) \<Longrightarrow> net_inv E g n' = net_inv E g n"
  using ConnectPeer_ok by (induction w n as arbitrary: n' acts rule: dial_all.induct) (fastforce split: option.splits prod.splits)+

lemma discovery_tick_ok:
  assumes "discovery_tick w n = (n', acts)" "net_inv E g n" shows "net_inv E g n'"
proof (cases "nn_discovery n")
  case None
  then show ?thesis using assms by (simp add: discovery_tick_def)
next
  case (Some disc)
  obtain disc' tick where i: "NodeDiscovery_Iterate (w_now w) (nn_conns n) disc = (disc', tick)" by fastforce
  have "disc_ok disc'" using discovery_step_ok [OF ds_tick [OF i]] assms(2) Some by (simp add: net_inv_def)
  then have "net_inv E g (n\<lparr> nn_discovery := Some disc' \<rparr>)" using assms(2) by (simp add: net_inv_def)
  then show ?thesis using assms(1) Some i dial_all_ok by (auto simp: discovery_tick_def split: prod.splits)
qed

lemma MaintenanceTick_ok:
  assumes "net_inv E g n" "Node_MaintenanceTick E w n = (n', acts)" "g \<longrightarrow> saves_ok acts" "\<forall>x. length (SHA256 E x) = 32"
  shows "net_inv E g n'"
proof -
  obtain n1 saves where a: "attach_and_save E w n = (n1, saves)" by fastforce
  let ?st = "nn_node n1"
  let ?st2 = "?st\<lparr> g_txMempool := fst (TxMempool_PruneExpired (g_txMempool ?st) (w_poolOrder w (g_txMempool ?st)) (w_now w)) \<rparr>"
  let ?n3 = "n1\<lparr> nn_node := ?st2, nn_conns := Node_ReapDeadOutbound (nn_conns n1) \<rparr>"
  obtain n4 as where t: "discovery_tick w ?n3 = (n4, as)" by fastforce
  have e: "n' = n4" "acts = saves @ as" using assms(2) a t by (auto simp: Node_MaintenanceTick_def Let_def)
  have n1: "net_inv E g n1" using attach_and_save_ok [OF assms(1) a _ assms(4)] assms(3) e(2) by simp
  have "net_inv E g (n1\<lparr> nn_node := ?st2 \<rparr>)" by (rule pool_ok_node [OF n1 step_prune])
  then have "net_inv E g ?n3" by (simp add: net_inv_def)
  then show ?thesis using discovery_tick_ok [OF t] e(1) by simp
qed

section \<open>Every command keeps the invariant\<close>

text \<open>
  The side conditions of a mining round: the miner's address and the selected transactions have the sizes of
  their C types, and none of these is the unaddressed payment of \<open>AddBlock_unaddressed_payment\<close>.
\<close>

definition minable :: "crypto_env \<Rightarrow> net_world \<Rightarrow> address \<Rightarrow> net_node \<Rightarrow> bool" where
  "minable E w miner n \<longleftrightarrow> length miner = 32 \<and>
     list_all (\<lambda>tx. stx_wf tx \<and> \<not> pays_nobody (transaction tx))
       (fst (BuildSpendableMempoolSelection E (g_sheetMap (nn_node n)) (g_txMempool (nn_node n)) (w_poolOrder w (g_txMempool (nn_node n)))))"

lemma mine_and_add_ok:
  assumes "net_inv E g n" "g \<longrightarrow> minable E w miner n" "\<forall>x. length (SHA256 E x) = 32"
    and "candidate_block E (nn_node n) (w_poolOrder w (g_txMempool (nn_node n))) miner vote now1 now2 = Some block"
    and "mine_and_add E ref reallocOk clock (nn_node n) block = (st', b, ok)"
  shows "net_inv E g (n\<lparr> nn_node := st' \<rparr>)"
proof -
  let ?st = "nn_node n"
  obtain st1 b1 found where m: "MineBlock E ref reallocOk clock ?st (with_merkle E block) = (st1, b1, found)" using prod_cases3 by blast
  have st: "reached E g ?st" "g \<longrightarrow> servable ?st" using assms(1) by (simp_all add: net_inv_def)
  note r1 = MineBlock_reachable [OF st(1) m]
  have sv1: "g \<longrightarrow> servable st1" using servable_grown [OF _ grown_same] st(2) r1 by blast
  then have n1: "net_inv E g (n\<lparr> nn_node := st1 \<rparr>)" using assms(1) r1 by (simp add: net_inv_def)
  show ?thesis
  proof (cases found)
    case False
    then show ?thesis using n1 assms(5) m by (simp add: mine_and_add_def)
  next
    case True
    obtain st2 ok2 where a: "Chain_AddBlock E st1 b1 = (st2, ok2)" by fastforce
    obtain sel fees where sel: "BuildSpendableMempoolSelection E (g_sheetMap ?st) (g_txMempool ?st) (w_poolOrder w (g_txMempool ?st)) = (sel, fees)"
      by fastforce
    have "dag_cache_ok (g_chain ?st)" using reached_chain [OF st(1)] by (simp add: chain_inv_def)
    then obtain x t where x: "b1 = with_nonce (with_time (with_merkle E block) t) x" using MineBlock_facts [OF m] by blast
    have "block_wf b1 \<and> block_addressed b1" if g
    proof -
      have ty: "length miner = 32" "list_all stx_wf sel" "\<forall>tx\<in>set sel. \<not> pays_nobody (transaction tx)"
        using assms(2) sel that by (auto simp: minable_def list_all_iff)
      show ?thesis using mined_block_wf [OF assms(4) sel assms(3) ty(1,2)] ty(3) x by auto
    qed
    then have "net_inv E g (n\<lparr> nn_node := st2 \<rparr>)" using add_ok [OF n1, of b1 st2 ok2] a by simp
    then show ?thesis using assms(5) m True a by (simp add: mine_and_add_def)
  qed
qed

lemma Flush_ok:
  assumes "net_inv E g n" "FlushChainAndSheet E w k n = (n', acts, ok)" "g \<longrightarrow> saves_ok acts" "\<forall>x. length (SHA256 E x) = 32"
  shows "net_inv E g n'"
  using assms persist_ok [OF assms(1) _ _ assms(4), of w k n'] by (auto simp: FlushChainAndSheet_def split: prod.splits)

lemma mine_round_ok:
  assumes "net_inv E g n" "mine_round E miner vote n i (w, io) = (n', acts, ok)" "g \<longrightarrow> saves_ok acts" "g \<longrightarrow> minable E w miner n" "\<forall>x. length (SHA256 E x) = 32"
  shows "net_inv E g n'"
proof (cases "candidate_block E (nn_node n) (w_poolOrder w (g_txMempool (nn_node n))) miner vote (mi_now1 io) (mi_now2 io)")
  case None
  then show ?thesis using assms(1,2) by (simp add: mine_round_def Let_def)
next
  case (Some block)
  obtain st' b found where m: "mine_and_add E (mi_ref io) (mi_realloc io) (mi_clock io) (nn_node n) block = (st', b, found)"
    using prod_cases3 by blast
  note n1 = mine_and_add_ok [OF assms(1,4,5) Some m]
  show ?thesis
  proof (cases found)
    case False
    then show ?thesis using n1 assms(2) Some m by (simp add: mine_round_def MineAndAppendBlock_def Let_def)
  next
    case True
    obtain n2 saves where a: "attach_and_save E w (n\<lparr> nn_node := st' \<rparr>) = (n2, saves)" by fastforce
    obtain n3 relay where r: "Node_BroadcastChainRange E w n2 (Chain_Size (g_chain (nn_node n2)) - 1) None = (n3, relay)" by fastforce
    obtain n4 flush saved where f: "FlushChainAndSheet E w 2 n3 = (n4, flush, saved)" using prod_cases3 by blast
    have e: "n' = (if i mod 50 = 0 then n4 else n3)" "acts = saves @ relay @ (if i mod 50 = 0 then flush else [])"
      using assms(2) Some m True a r f by (auto simp: mine_round_def MineAndAppendBlock_def Let_def)
    have s: "g \<longrightarrow> saves_ok saves" "i mod 50 = 0 \<Longrightarrow> g \<longrightarrow> saves_ok flush" using assms(3) e(2) by auto
    have "net_inv E g n3" by (rule BroadcastChainRange_ok [OF r attach_and_save_ok [OF n1 a s(1) assms(5)]])
    then show ?thesis using e(1) s(2) Flush_ok [OF _ f _ assms(5)] by simp
  qed
qed

lemma send_ok:
  assumes "net_inv E g n" "send_command E w wl n addressStr amount txFee broadcast now1 now2 = (n', acts, r)"
  shows "net_inv E g n'"
proof -
  let ?p = "g_txMempool (nn_node n)"
  have split: "(case TxMempool_Insert E ?p tx of (pool', r) \<Rightarrow> f pool' r) = f (fst (TxMempool_Insert E ?p tx)) (snd (TxMempool_Insert E ?p tx))"
    for tx and f :: "_ \<Rightarrow> _ \<Rightarrow> net_node \<times> net_action list \<times> send_result" by (simp add: prod.case_eq_if)
  show ?thesis
    using assms submit_ok [OF assms(1)] by (auto simp: send_command_def split Let_def split: option.splits if_splits)
qed

lemma load_disk_empty: "load_disk \<lparr> meta_file = None, data_file = None, table_file = None \<rparr> = (\<lambda>_. None)"
  by (simp add: load_disk_def Chain_LoadBlockFromFile_def fun_eq_iff)

lemma wipe_ok: "net_inv E g n \<Longrightarrow> net_inv E g (wipechain_command n)"
  using reach_step [OF _ step_wipe, of E g "nn_node n"]
  by (simp add: net_inv_def wipechain_command_def load_disk_empty servable_def wipechain_def Chain_Wipe_def Chain_ClearBlocks_def
      Chain_InvalidateDagEpochs_def Let_def)

section \<open>The running node\<close>

text \<open>
  Everything that happens to the node, in any order and with any outcome: packets on inbound and outbound
  connections, connects and disconnects, maintenance ticks, pings, the receipts the download takes, whatever
  the transport does to the table of connections, and the commands of the operator. The label of a step tells
  whether it was \<open>fair\<close>: every save in it succeeded and the block it handed to the chain or the pool carries no
  payment to nobody. A packet that may queue a block needs the 64-bit counter of the orphan pool not to have
  run out, that is, fewer than \<open>2 ^ 64 - 1\<close> blocks were ever queued.
\<close>

inductive net_step :: "crypto_env \<Rightarrow> bool \<Rightarrow> net_node \<Rightarrow> net_node \<Rightarrow> bool" for E where
  net_server_data: "Node_Server_OnData E w n c frame = (n', acts) \<Longrightarrow> g_nextSequence (nn_orphans n) \<noteq> UINT64_MAX \<Longrightarrow>
    net_step E (saves_ok acts \<and> payload_addressed (drop 1 frame)) n n'"
| net_client_data: "Node_Client_OnData E w n c frame = (n', acts) \<Longrightarrow> g_nextSequence (nn_orphans n) \<noteq> UINT64_MAX \<Longrightarrow>
    net_step E (saves_ok acts \<and> payload_addressed (drop 1 frame)) n n'"
| net_server_connect: "Node_Server_OnConnect w n c = (n', acts) \<Longrightarrow> net_step E True n n'"
| net_connect: "Node_ConnectPeer w n ip port = (n', acts, rc) \<Longrightarrow> net_step E True n n'"
| net_server_disconnect: "Node_Server_OnDisconnect n c = (n', acts) \<Longrightarrow> net_step E True n n'"
| net_client_disconnect: "Node_Client_OnDisconnect n c = (n', acts) \<Longrightarrow> net_step E True n n'"
| net_tick: "Node_MaintenanceTick E w n = (n', acts) \<Longrightarrow> net_step E (saves_ok acts) n n'"
| net_pong: "net_step E True n (with_discovery (\<lambda>disc. NodeDiscovery_OnPong disc a rtt) n)"
| net_ping_timeout: "net_step E True n (with_discovery (\<lambda>disc. NodeDiscovery_OnPingTimeout disc a) n)"
| net_take: "net_step E True n (n\<lparr> nn_deliveries := fst (Node_TakeBlockDelivery (nn_deliveries n) h) \<rparr>)"
| net_reset: "net_step E True n (n\<lparr> nn_deliveries := Node_ResetBlockDeliveries \<rparr>)"
| net_transport: "net_step E True n (n\<lparr> nn_conns := conns \<rparr>)"
| net_mine: "mine_round E miner vote n i (w, io) = (n', acts, ok) \<Longrightarrow> net_step E (saves_ok acts \<and> minable E w miner n) n n'"
| net_send: "send_command E w wl n addressStr amount txFee broadcast now1 now2 = (n', acts, r) \<Longrightarrow> net_step E True n n'"
| net_flush: "FlushChainAndSheet E w k n = (n', acts, ok) \<Longrightarrow> net_step E (saves_ok acts) n n'"
| net_wipe: "net_step E True n (wipechain_command n)"

text \<open>\<open>net_run E fair n\<close>: the node can come to \<open>n\<close> from its creation; \<open>fair\<close> when all steps on the way were fair.\<close>

inductive net_run :: "crypto_env \<Rightarrow> bool \<Rightarrow> net_node \<Rightarrow> bool" for E where
  net_start: "net_run E True (Node_Create w ifaddrs)"
| net_next: "net_run E fair n \<Longrightarrow> net_step E f n n' \<Longrightarrow> net_run E (fair \<and> f) n'"

lemma net_step_ok: "net_step E f n n' \<Longrightarrow> \<forall>x. length (SHA256 E x) = 32 \<Longrightarrow> net_inv E g n \<Longrightarrow> (g \<longrightarrow> f) \<Longrightarrow> net_inv E g n'"
proof (induction rule: net_step.induct)
  case (net_server_data w n c frame n' acts)
  then show ?case using Server_OnData_ok [OF net_server_data.prems(2) net_server_data.hyps(1)] by (simp add: tame_frame_def tame_def)
next
  case (net_client_data w n c frame n' acts)
  then show ?case using Client_OnData_ok [OF net_client_data.prems(2) net_client_data.hyps(1)] by (simp add: tame_frame_def tame_def)
next
  case (net_server_disconnect n c n' acts)
  then show ?case using HandlePeerDisconnect_ok by (auto simp: Node_Server_OnDisconnect_def)
next
  case (net_client_disconnect n c n' acts)
  then show ?case using Client_OnDisconnect_ok [of E g n c] by simp
next
  case (net_pong n a rtt)
  show ?case by (rule with_discovery_ok [OF net_pong.prems(2) ds_pong])
next
  case (net_ping_timeout n a)
  show ?case by (rule with_discovery_ok [OF net_ping_timeout.prems(2) ds_timeout])
next
  case (net_take n h)
  then show ?case using TakeBlockDelivery_ok by (simp add: net_inv_def)
next
  case (net_reset n)
  then show ?case using reset_receipts_ok by (simp add: net_inv_def)
next
  case (net_tick w n n' acts)
  then show ?case using MaintenanceTick_ok by blast
next
  case (net_mine miner vote n i w io n' acts ok)
  then show ?case using mine_round_ok [OF net_mine.prems(2) net_mine.hyps] by simp
next
  case (net_flush w k n n' acts ok)
  then show ?case using Flush_ok by blast
qed (auto dest: send_ok wipe_ok simp: Server_OnConnect_ok ConnectPeer_ok)

lemma Node_Create_ok: "net_inv E g (Node_Create w ifaddrs)"
proof -
  note load_disk_empty
  moreover have "fresh_node\<lparr> g_txMempool := TxMempool_Init \<rparr> = fresh_node" by (simp add: fresh_node_def)
  moreover have "disc_ok (NodeDiscovery_Create p as)" for p as by (rule discovery_reachable_ok [OF dr_start])
  ultimately show ?thesis
    using reach_start [of E g] reset_receipts_ok
    by (simp add: net_inv_def Node_Create_def servable_def fresh_node_def Chain_Create_def pool_ok_def pool_addressed_def orphans_wf_def
        orphans_def MAX_ORPHAN_BLOCKS_def split: option.splits)
qed

lemma net_run_ok: "net_run E fair n \<Longrightarrow> \<forall>x. length (SHA256 E x) = 32 \<Longrightarrow> net_inv E fair n"
proof (induction rule: net_run.induct)
  case (net_next fair n f n')
  have "net_inv E (fair \<and> f) n" by (rule net_inv_weaken [OF net_next.IH [OF net_next.prems]]) simp
  then show ?case using net_step_ok [OF net_next.hyps(2) net_next.prems] by simp
qed (rule Node_Create_ok)

text \<open>
  What the network threads do to the node while another thread waits: any number of steps (\<open>g\<close> false), or any
  number of fair steps (\<open>g\<close> true).
\<close>

definition net_steps :: "crypto_env \<Rightarrow> bool \<Rightarrow> net_node \<Rightarrow> net_node \<Rightarrow> bool" where
  "net_steps E g = (\<lambda>n n'. \<exists>f. net_step E f n n' \<and> (g \<longrightarrow> f))\<^sup>*\<^sup>*"

definition by_network :: "crypto_env \<Rightarrow> bool \<Rightarrow> (net_node \<Rightarrow> net_node) \<Rightarrow> bool" where
  "by_network E g bg \<longleftrightarrow> (\<forall>n. net_steps E g n (bg n))"

definition keeps_inv :: "crypto_env \<Rightarrow> bool \<Rightarrow> (net_node \<Rightarrow> net_node) \<Rightarrow> bool" where
  "keeps_inv E g bg \<longleftrightarrow> (\<forall>n. net_inv E g n \<longrightarrow> net_inv E g (bg n))"

lemma net_steps_ok: "net_steps E g n n' \<Longrightarrow> \<forall>x. length (SHA256 E x) = 32 \<Longrightarrow> net_inv E g n \<Longrightarrow> net_inv E g n'"
  unfolding net_steps_def by (induction rule: rtranclp_induct) (auto dest: net_step_ok)

lemma by_network_keeps: "by_network E g bg \<Longrightarrow> \<forall>x. length (SHA256 E x) = 32 \<Longrightarrow> keeps_inv E g bg"
  unfolding by_network_def keeps_inv_def by (blast intro: net_steps_ok)

lemma net_steps_refl [simp]: "net_steps E g n n"
  by (simp add: net_steps_def)

lemma net_steps_one: "net_step E f n n' \<Longrightarrow> (g \<longrightarrow> f) \<Longrightarrow> net_steps E g n n'"
  unfolding net_steps_def by (rule r_into_rtranclp) blast

lemma net_steps_weaken: "net_steps E g n n' \<Longrightarrow> (g' \<Longrightarrow> g) \<Longrightarrow> net_steps E g' n n'"
  unfolding net_steps_def by (erule rtranclp_mono [THEN predicate2D, rotated]) auto

lemma by_network_weaken: "by_network E g bg \<Longrightarrow> (g' \<Longrightarrow> g) \<Longrightarrow> by_network E g' bg"
  unfolding by_network_def by (blast intro: net_steps_weaken)

section \<open>Serving blocks\<close>

lemma full_block_borrow:
  assumes "h < length (blocks (g_chain (nn_node n)))" "h < 2 ^ 64" "Chain_BorrowBlockTransactions (nn_node n) h = Some b"
  shows "full_block n (of_nat h) = Some b"
proof -
  have u: "unat (of_nat h :: u64) = h" by (rule unat_of_nat_64 [OF assms(2)])
  then show ?thesis
    using assms(1,3) by (cases "transactions (blocks (g_chain (nn_node n)) ! h)")
      (auto simp: full_block_def Chain_GetBlockCopy_def Chain_BorrowBlockTransactions_def vec_get_def)
qed

lemma read_le_bytes8: "h < 2 ^ 64 \<Longrightarrow> read_u64 0 (le_bytes 8 h @ rest) = of_nat h"
  by (simp add: read_u64_def bytes_at_def le_val_le_bytes)

lemma fetch_block_served:
  assumes "net_ok E n" "h < length (blocks (g_chain (nn_node n)))" "length (blocks (g_chain (nn_node n))) < 2 ^ 64"
  shows "\<exists>b. Chain_BorrowBlockTransactions (nn_node n) h = Some b \<and> whole b \<and> blockNumber (header b) = of_nat h \<and>
    on_fetch_block w n p (le_bytes 8 h) =
      (fst (Node_SendPacket w p PACKET_TYPE_BLOCK_DATA (block_payload (of_nat h) b)), True)"
proof -
  let ?st = "nn_node n"
  obtain b where b: "Chain_BorrowBlockTransactions ?st h = Some b" "whole b" "header b = header (blocks (g_chain ?st) ! h)"
    using assms(1,2) by (auto simp: net_ok_iff servable_def)
  have "Chain_IsValid E (g_chain ?st)" using reachable_inv assms(1) by (auto simp: net_ok_iff chain_inv_def)
  then have bn: "blockNumber (header b) = of_nat h" using assms(2) b(3) by (simp add: Chain_IsValid_nth)
  have "full_block n (of_nat h) = Some b" by (rule full_block_borrow [OF assms(2) _ b(1)]) (use assms(2,3) in simp)
  moreover have "\<not> (of_nat h :: u64) > Node_GetCurrentBlockHeight n"
    using assms(2,3) by (simp add: Node_GetCurrentBlockHeight_def Chain_Size_def word_less_nat_alt unat_of_nat_64 del: of_nat_less_iff)
  moreover have "read_u64 0 (le_bytes 8 h) = of_nat h" using read_le_bytes8 [of h "[]"] assms(2,3) by simp
  ultimately have "on_fetch_block w n p (le_bytes 8 h) =
      (fst (Node_SendPacket w p PACKET_TYPE_BLOCK_DATA (block_payload (of_nat h) b)), True)"
    using b(2) by (simp add: on_fetch_block_def Let_def whole_def)
  then show ?thesis using b bn by blast
qed

end
