(* ===== verification/Net_Sync.thy ===== *)
theory Net_Sync
  imports Net_Sound
begin

text \<open>
  Downloading a chain: a node that is sent the blocks of a valid chain one after the other ends with exactly
  this chain, whatever its own files and memory look like on the way. The verdict on a block depends on the
  headers below it and on the ledger they define, so it does not matter that the node drops the transactions
  of its blocks from memory after each save.
\<close>

section \<open>The next block of a chain is accepted\<close>

lemma follows_AddBlock:
  assumes "validated E bs" "block_addressed (bs ! i)" "follows E bs i st" "chain_inv E st" "synced st" "i < length bs"
  shows "\<exists>st'. Chain_AddBlock E st (bs ! i) = (st', True) \<and> follows E bs (Suc i) st' \<and> extends_tip E (g_chain st) (bs ! i)"
proof -
  obtain st1 where r: "Chain_AddBlockLocked E st (bs ! i) = (st1, True)" "follows E bs (Suc i) st1" "extends_tip E (g_chain st) (bs ! i)"
    using follows_AddBlockLocked [OF assms] by blast
  have "in_memory bs" using assms(1) by (simp add: validated_def)
  then obtain txs where t: "transactions (bs ! i) = Some txs" using in_memory_nth assms(6) by blast
  have "follows E bs (Suc i) (Chain_OnTipAdvanced st1)"
    using r(2) borrow_same [of "Chain_OnTipAdvanced st1" st1] by (simp add: follows_def)
  moreover have "Chain_AddBlock E st (bs ! i) = (Chain_OnTipAdvanced st1, True)" using r(1) t by (simp add: Chain_AddBlock_def)
  ultimately show ?thesis using r(3) by blast
qed

section \<open>One block of the download\<close>

lemma persist_follows:
  assumes "net_ok E n" "persist_node E w k n = (n', a)" "saves_ok [a]" "\<forall>x. length (SHA256 E x) = 32" "follows E bs i (nn_node n)"
  shows "follows E bs i (nn_node n')"
proof -
  note p = persist_node_facts [OF assms(1-4)]
  have "g_pow (nn_node n') = g_pow (nn_node n)" "g_currentReward (nn_node n') = g_currentReward (nn_node n)"
    using assms(2) by (auto simp: persist_node_def Let_def split: prod.splits)
  then show ?thesis
    using assms(5) p(2,3) follows_length [OF assms(5)] by (auto simp: follows_def o_def)
qed

lemma persist_pool: "persist_node E w k n = (n', a) \<Longrightarrow> nn_orphans n' = nn_orphans n \<and> nn_deliveries n' = nn_deliveries n"
  by (auto simp: persist_node_def Let_def split: prod.splits)

lemma attach_nothing: "orphans (nn_orphans n) = [] \<Longrightarrow> attach_and_save E w n = (n, [])"
  by (simp add: attach_and_save_def OrphanPool_AttemptAttach_def OrphanPool_AttemptAttachForced_def)

text \<open>A world whose file system works: the save of a node that follows \<open>bs\<close> succeeds.\<close>

definition disk_works :: "net_world \<Rightarrow> bool" where
  "disk_works w \<longleftrightarrow> (\<forall>k. dir_ready (w_io w k) \<and> renamed (w_io w k) = 3 \<and> (\<forall>i. written (w_io w k) i))"

lemma persist_succeeds:
  assumes "net_ok E n" "disk_works w" "follows E bs i (nn_node n)" "fits bs" "persist_node E w k n = (n', a)"
  shows "saves_ok [a]"
proof -
  let ?st = "nn_node n"
  have len: "length (blocks (g_chain ?st)) = i" "i \<le> length bs" using follows_length [OF assms(3)] assms(3) by (auto simp: follows_def)
  have h: "disk ?st = load_disk (nn_files n)" "list_all block_wf (blocks (g_chain ?st))"
    using assms(1) by (simp_all add: net_ok_iff servable_def)
  have st: "\<forall>j<length (take i bs). stored (nn_files n) j (blocks (g_chain ?st) ! j) = Some (take i bs ! j)"
    using stored_borrow [OF h(1)] assms(3) len by (auto simp: follows_def)
  have l: "length (take i bs) = length (blocks (g_chain ?st))" using len by simp
  have w: "dir_ready (w_io w k)" "renamed (w_io w k) = 3" "\<forall>j<length (blocks (g_chain ?st)). written (w_io w k) j"
    using assms(2) by (simp_all add: disk_works_def)
  obtain chain' f' where s: "Chain_SaveToFile E (w_io w k) (nn_files n) (g_chain ?st) (g_currentSupply ?st) (g_currentReward ?st) = (chain', f', True)"
    "data_file f' = Some (concat (map block_bytes (take i bs)))" "table_file f' = Some (concat (map table_image (table_entries 0 0 (take i bs))))"
    using SaveToFile_succeeds [OF w h(2) l st, of E "g_currentSupply ?st" "g_currentReward ?st"] by blast
  have "length (concat (map table_image (table_entries 0 0 (take i bs)))) \<le> LONG_MAX"
    using table_codec.length_images [of "table_entries 0 0 (take i bs)"] assms(4) len(2) by (simp add: fits_def del: length_concat)
  then have "files_fit f'" using s(2,3) fits_offset [OF assms(4), of i] by (simp add: files_fit_def del: length_concat)
  moreover have "a = Saved True f'" using assms(5) s(1) by (auto simp: persist_node_def Let_def)
  ultimately show ?thesis by simp
qed

text \<open>The blocks that can be sent and accepted: complete, well structured, with addressed payments.\<close>

definition sendable :: "crypto_env \<Rightarrow> block_t \<Rightarrow> bool" where
  "sendable E b \<longleftrightarrow> whole b \<and> block_addressed b \<and> Block_HasValidStructure E b \<and> length (the (transactions b)) < 2 ^ 64"

lemma accept_next:
  assumes "validated E bs" "sendable E (bs ! i)" "i < length bs" "length bs < 2 ^ 64" "\<forall>x. length (SHA256 E x) = 32"
    and "net_ok E n" "follows E bs i (nn_node n)" "orphans (nn_orphans n) = []" "\<not> g_forceOrphanReorgEnabled w"
    and "disk_works w" "fits bs" "Node_ParseAndAcceptBlock E w n (block_payload (of_nat i) (bs ! i)) True = (n', acts, r)"
  shows "r = NODE_BLOCK_ACCEPTED \<and> net_ok E n' \<and> follows E bs (Suc i) (nn_node n') \<and> nn_orphans n' = nn_orphans n \<and>
    nn_deliveries n' = nn_deliveries n \<and> saves_ok acts"
proof -
  let ?b = "bs ! i" and ?st = "nn_node n"
  have b: "whole ?b" "block_addressed ?b" "Block_HasValidStructure E ?b" "length (the (transactions ?b)) < 2 ^ 64"
    using assms(2) by (simp_all add: sendable_def)
  have inv: "chain_inv E ?st" "synced ?st" "reachable E ?st" "servable ?st" using assms(6) reachable_inv by (auto simp: net_ok_iff)
  obtain st1 where a: "Chain_AddBlock E ?st ?b = (st1, True)" "follows E bs (Suc i) st1" "extends_tip E (g_chain ?st) ?b"
    using follows_AddBlock [OF assms(1) b(2) assms(7) inv(1,2) assms(3)] by blast
  have len: "length (blocks (g_chain ?st)) = i" by (rule follows_length [OF assms(7)])
  have i: "i < 2 ^ 64" "unat (of_nat i :: u64) = i" using assms(3,4) unat_of_nat_64 by auto
  have bn: "blockNumber (header ?b) = of_nat i"
    using a(3) len i by (auto simp: extends_tip_def Let_def word_unat_eq_iff split: if_splits)
  note ps = parse_block_payload [OF b(1) bn b(4)]
  have tip: "\<not> ((of_nat i :: u64) > 0 \<and>
      (case Chain_GetBlockCopy (g_chain ?st) (unat (of_nat i - 1 :: u64)) of
         None \<Rightarrow> True | Some tip \<Rightarrow> Block_CalculateHash E tip \<noteq> prevHash (header ?b)))"
  proof (cases "i = 0")
    case False
    then have "unat (of_nat i - 1 :: u64) = i - 1" using i by (metis of_nat_1 of_nat_diff One_nat_def Suc_leI gr0I less_imp_diff_less unat_of_nat_64)
    then show ?thesis
      using a(3) False len by (auto simp: extends_tip_def Chain_GetBlockCopy_def Let_def split: if_splits option.splits)
  qed simp
  let ?n1 = "n\<lparr> nn_node := st1 \<rparr>"
  obtain n2 s where p: "persist_node E w 0 ?n1 = (n2, s)" by fastforce
  have pool2: "nn_orphans n2 = nn_orphans n" "nn_deliveries n2 = nn_deliveries n" using persist_pool [OF p] by simp_all
  have "after_accept E w ?n1 True = (n2, [s])"
    using p attach_nothing [of n2] pool2(1) assms(8) by (simp add: after_accept_def)
  then have res: "n' = n2" "acts = [s]" "r = NODE_BLOCK_ACCEPTED"
    using assms(9,12) ps b(3) a(1) tip bn len i
    by (auto simp: Node_ParseAndAcceptBlock_def Let_def Chain_Size_def word_less_nat_alt)
  have n1: "net_ok E ?n1"
    using assms(6) reached_AddBlock [OF inv(3) _ a(1)] b(2) grown_serves [OF inv(4) AddBlock_grown [OF a(1)]] b(1)
    by (simp add: net_ok_iff serves_on_def whole_def)
  have sv: "saves_ok [s]" using persist_succeeds [OF n1 assms(10) _ assms(11) p, of "Suc i"] a(2) by simp
  show ?thesis
    using persist_node_facts(1) [OF n1 p sv assms(5)] persist_follows [OF n1 p sv assms(5), of bs "Suc i"] a(2) res pool2 sv by simp
qed

section \<open>The whole download\<close>

text \<open>Packets that arrive on one outbound connection, each with what the outside answers while it is handled.\<close>

fun receive_all :: "crypto_env \<Rightarrow> tcp_connection_t \<Rightarrow> net_node \<Rightarrow> (net_world \<times> byte list) list \<Rightarrow> net_node \<times> net_action list" where
  "receive_all E c n [] = (n, [])"
| "receive_all E c n ((w, frame) # rest) =
     (case Node_Client_OnData E w n c frame of
        (n1, acts) \<Rightarrow> (case receive_all E c n1 rest of (n2, acts') \<Rightarrow> (n2, acts @ acts')))"

definition block_frame :: "nat \<Rightarrow> block_t \<Rightarrow> byte list" where
  "block_frame i b = PACKET_TYPE_BLOCK_DATA # block_payload (of_nat i) b"

lemma Client_block_data:
  "Node_Client_OnData E w n c (block_frame i b) =
     (case on_block_data E w n c (block_payload (of_nat i) b) of
        (n', acts) \<Rightarrow> (n', acts @ [ForwardData (conn_ptr c) (block_payload (of_nat i) b)]))"
  by (simp add: Node_Client_OnData_def block_frame_def PacketType_IsValid_def packet_types client_packet_def forward_def
      split: prod.split)

lemma BroadcastChainRange_node: "Node_BroadcastChainRange E w n h source = (n', acts) \<Longrightarrow> \<exists>seen. n' = n\<lparr> seenBlocks := seen \<rparr>"
  using broadcast_range_node [of E w n source _ n' acts] exI [of "\<lambda>seen. n = n\<lparr> seenBlocks := seen \<rparr>" "seenBlocks n"]
  by (auto simp: Node_BroadcastChainRange_def Let_def split: if_splits)

lemma SendPacket_saves: "saves_ok (fst (Node_SendPacket w p t payload))"
  by (simp add: Node_SendPacket_def saves_ok_def split: option.split)

lemma relay_saves: "saves_ok (fst (relay_to w cs payload))"
  by (induction cs) (simp_all add: case_prod_unfold Let_def SendPacket_saves)

lemma broadcast_range_saves: "saves_ok (snd (broadcast_range E w n source hs))"
  by (induction hs arbitrary: n) (auto simp: case_prod_unfold Let_def relay_saves split: option.split)

lemma BroadcastChainRange_saves: "Node_BroadcastChainRange E w n h source = (n', acts) \<Longrightarrow> saves_ok acts"
  using broadcast_range_saves [of E w n source] by (auto simp: Node_BroadcastChainRange_def Let_def split: if_splits) (metis snd_conv)

lemma receive_next:
  assumes "validated E bs" "sendable E (bs ! i)" "i < length bs" "length bs < 2 ^ 64" "\<forall>x. length (SHA256 E x) = 32"
    and "net_ok E n" "follows E bs i (nn_node n)" "orphans (nn_orphans n) = []" "\<not> g_forceOrphanReorgEnabled w"
    and "disk_works w" "fits bs" "Node_Client_OnData E w n c (block_frame i (bs ! i)) = (n', acts)"
  shows "net_ok E n' \<and> follows E bs (Suc i) (nn_node n') \<and> orphans (nn_orphans n') = [] \<and>
    receipt_of (nn_deliveries n') (of_nat i) = Some NODE_DELIVERY_APPENDED \<and> saves_ok acts"
proof -
  let ?p = "block_payload (of_nat i) (bs ! i)"
  obtain n1 as r where p: "Node_ParseAndAcceptBlock E w n ?p True = (n1, as, r)" using prod_cases3 by blast
  have i: "i < 2 ^ 64" using assms(3,4) by simp
  have h: "read_u64 0 ?p = of_nat i" "\<not> length ?p < 8"
    using read_le_bytes8 [OF i] i unat_of_nat_64 [OF i] by (simp_all add: block_payload_def Let_def)
  note a = accept_next [OF assms(1-11) p]
  let ?n2 = "n1\<lparr> nn_deliveries := Node_NoteBlockDelivered (nn_deliveries n1) (of_nat i) NODE_DELIVERY_APPENDED \<rparr>"
  obtain n4 relay where b: "Node_BroadcastChainRange E w (note_height ?n2 (conn_ptr c) (raise_height (of_nat i))) (unat (of_nat i :: u64)) (Some c) = (n4, relay)"
    by fastforce
  have e: "n' = n4" "acts = (as @ relay) @ [ForwardData (conn_ptr c) ?p]"
    using assms(12) p h a b by (simp_all add: Client_block_data on_block_data_def Let_def)
  have "saves_ok acts" using e(2) a BroadcastChainRange_saves [OF b] by (simp add: saves_ok_def)
  obtain seen where n': "n' = (note_height ?n2 (conn_ptr c) (raise_height (of_nat i)))\<lparr> seenBlocks := seen \<rparr>"
    using BroadcastChainRange_node [OF b] e(1) by blast
  have ok1: "net_ok E n1" using a by blast
  then have d: "receipts_ok (nn_deliveries n1)" by (simp add: net_ok_iff)
  have "net_ok E n'" using ok1 NoteBlockDelivered_ok [OF d] n' by (simp add: net_ok_iff note_height_def)
  then show ?thesis using a assms(8) n' receipt_of_note [OF d] \<open>saves_ok acts\<close> by (simp add: note_height_def)
qed

lemma receive_all_follows:
  "receive_all E c n (map (\<lambda>j. (ws j, block_frame j (bs ! j))) [i..<length bs]) = (n', acts) \<Longrightarrow> i \<le> length bs \<Longrightarrow>
     validated E bs \<Longrightarrow> list_all (sendable E) bs \<Longrightarrow> length bs < 2 ^ 64 \<Longrightarrow> fits bs \<Longrightarrow> \<forall>x. length (SHA256 E x) = 32 \<Longrightarrow>
     \<forall>j<length bs. \<not> g_forceOrphanReorgEnabled (ws j) \<and> disk_works (ws j) \<Longrightarrow>
     net_ok E n \<Longrightarrow> follows E bs i (nn_node n) \<Longrightarrow> orphans (nn_orphans n) = [] \<Longrightarrow>
     net_ok E n' \<and> follows E bs (length bs) (nn_node n')"
proof (induction "length bs - i" arbitrary: i n acts)
  case 0
  then show ?case by simp
next
  case (Suc k)
  then have i: "i < length bs" by simp
  obtain n1 as where a: "Node_Client_OnData E (ws i) n c (block_frame i (bs ! i)) = (n1, as)" by fastforce
  obtain n2 as2 where b: "receive_all E c n1 (map (\<lambda>j. (ws j, block_frame j (bs ! j))) [Suc i..<length bs]) = (n2, as2)" by fastforce
  have e: "n' = n2" using Suc.prems(1) i a b by (simp add: upt_conv_Cons)
  have w: "sendable E (bs ! i)" "\<not> g_forceOrphanReorgEnabled (ws i)" "disk_works (ws i)"
    using Suc.prems(4,8) i by (simp_all add: list_all_length)
  note nx = receive_next [OF Suc.prems(3) w(1) i Suc.prems(5,7,9-11) w(2,3) Suc.prems(6) a]
  have "k = length bs - Suc i" using Suc.hyps(2) by simp
  from Suc.hyps(1) [OF this b [folded e] _ Suc.prems(3-8)] nx i show ?case by simp
qed

lemma fresh_follows: "validated E bs \<Longrightarrow> follows E bs 0 fresh_node"
proof -
  assume "validated E bs"
  then have "settled (supply_of (take 0 bs)) (of_nat 0)" unfolding validated_def by blast
  moreover have "supply_of [] = uint256_from_u64 0"
    by (simp add: supply_of_def blocks_txs_def coinbase_payout_def u256_of_nat_def uint256_from_u64_def)
  ultimately have "g_currentReward fresh_node = reward_of (supply_of []) 0"
    using reward_settled [of "supply_of []" 0 750000000000] by (simp add: fresh_node_def Chain_Size_def Chain_Create_def)
  then show ?thesis by (simp add: follows_def fresh_node_simps pow_inv_def pow_initial_def)
qed

section \<open>A concrete first block\<close>

definition quiet_world :: net_world where
  "quiet_world = \<lparr> w_now = 0, w_reorgNow = (\<lambda>_ _. 0), w_io = (\<lambda>_. \<lparr> dir_ready = True, written = (\<lambda>_. True), renamed = 3 \<rparr>),
     w_sheetIo = (\<lambda>_. \<lparr> sheet_opens = True, sheet_written = (\<lambda>_. True) \<rparr>), w_sheetOrder = (\<lambda>_. []), w_poolOrder = (\<lambda>_. []), w_random = 0, w_sendOk = (\<lambda>_. True), w_pton4 = (\<lambda>_. None),
     w_pton6 = (\<lambda>_. None), w_ntop = (\<lambda>_. None), w_connect = (\<lambda>_ _. None), w_threadOk = True, g_localNodeId = 7,
     g_listenPort = 9000, g_forceOrphanReorgEnabled = False, g_echoPeersEnabled = False \<rparr>"

definition wire_tx :: signed_transaction_t where
  "wire_tx = coinbase_of (g_currentReward fresh_node)"

definition wire_block :: block_t where
  "wire_block = \<lparr> header = (header Block_Create)\<lparr> blockNumber := 0, difficultyTarget := INITIAL_DIFFICULTY,
     merkleRoot := Transaction_CalculateHash easy_env wire_tx, reserved := [0, 0, 0] \<rparr>, transactions = Some [wire_tx] \<rparr>"

lemma easy_sha: "\<forall>x. length (SHA256 easy_env x) = 32"
  by (auto simp: easy_env_def demo_env_def)

lemma wire_tx_facts:
  "Transaction_Verify easy_env wire_tx" "Address_IsCoinbase (senderAddress (transaction wire_tx))"
  "\<not> Address_IsCoinbase (recipientAddress1 (transaction wire_tx))" "fee (transaction wire_tx) = 0" "amount2 (transaction wire_tx) = 0"
  "amount1 (transaction wire_tx) = 17592186044415" "recipientAddress2 (transaction wire_tx) = zeroAddress" "stx_wf wire_tx"
  using coinbase_of_verifies [of "g_currentReward fresh_node"]
  by (simp_all add: wire_tx_def fresh_node_simps coinbase_of_def demo_tx_def Address_IsCoinbase_def list_all_iff stx_wf_def tx_wf_def zeroAddress_def)

lemma wire_block_sendable: "sendable easy_env wire_block"
proof -
  have h: "length (Transaction_CalculateHash easy_env wire_tx) = 32"
    using easy_sha by (simp add: Transaction_CalculateHash_def sha256d_def)
  have "whole wire_block"
    using wire_tx_facts(8) h header_of_image_wf [of "replicate 96 0"]
    by (simp add: whole_def block_wf_def wire_block_def header_wf_def Block_Create_def)
  moreover have "block_addressed wire_block"
    using wire_tx_facts by (simp add: block_addressed_def wire_block_def payments_addressed_def pays_nobody_def)
  moreover have "Block_HasValidStructure easy_env wire_block"
    using wire_tx_facts
    by (simp add: Block_HasValidStructure_def wire_block_def Block_CalculateMerkleRoot_def merkle_root_def merkle_loop.simps [of _ "[_]"]
        Block_HasValidVote_def DAG_VOTE_MAX_def Block_AllTransactionsValid_def Block_Create_def Let_def)
  ultimately show ?thesis by (simp add: sendable_def) (simp add: wire_block_def)
qed

lemma wire_block_accepted: "accepted easy_env fresh_node wire_block = Some 17592186044415"
proof -
  have t: "transactions wire_block = Some [wire_tx]" by (simp add: wire_block_def)
  have r: "g_currentReward fresh_node = 17592186044415" by (simp add: fresh_node_simps)
  have "BalanceSheet_SelectSpendableTransactions easy_env (g_sheetMap fresh_node) [wire_tx] = ([], 0)"
    using wire_tx_facts by (simp add: BalanceSheet_SelectSpendableTransactions_def)
  moreover have "coinbase_and_fees easy_env 17592186044415 [wire_tx] False 0 = Some 0"
    using wire_tx_facts by (simp add: Let_def)
  ultimately have "validate_economics easy_env (g_sheetMap fresh_node) (g_currentReward fresh_node) wire_block [wire_tx] = Some 17592186044415"
    using wire_tx_facts t r by (simp add: validate_economics_def nonCoinbaseCount_def Block_ValidateCoinbaseAndFees_def
        Chain_BlockRespectsSenderOrdering_def Let_def)
  then show ?thesis
    using easy_accepted_block [OF _ _ _ _ t, of fresh_node 0] by (simp add: fresh_node_simps) (simp add: wire_block_def Block_Create_def)
qed

lemma wire_block_validated: "validated easy_env [wire_block]"
proof -
  have i: "chain_inv easy_env fresh_node" "synced fresh_node" using reachable_inv [OF reach_start] by auto
  obtain st1 where st1: "Chain_AddBlockLocked easy_env fresh_node wire_block = (st1, True)"
    using AddBlockLocked_accepted [OF i(1) synced_coins [OF i(2)] wire_block_accepted] wire_block_sendable by (auto simp: sendable_def)
  have p: "coinbase_payout (blocks_txs [wire_block]) = 17592186044415"
    using wire_tx_facts by (simp add: blocks_txs_def wire_block_def coinbase_payout_def payout_total_def)
  have v: "u256_val (supply_of [wire_block]) = 17592186044415"
    unfolding supply_of_def p by (rule u256_of_nat_val) (simp add: TWO256_def)
  have "settled (supply_of ([] @ [wire_block])) (of_nat (Suc (length [])))" by (rule settled_phase_one) (simp_all add: v)
  from validated_append [OF fresh_validated(1) _ i st1 this] fresh_validated(3) show "validated easy_env [wire_block]" by simp
qed

lemma wire_block_fits: "fits [wire_block]"
  using length_block_bytes [of wire_block] wire_block_sendable by (simp add: fits_def LONG_MAX_def sendable_def) (simp add: wire_block_def)

section \<open>Properties\<close>

text \<open>
  C3: a whole chain can be downloaded. Take any chain of well-structured blocks, each acceptable on the ones
  below it at a settled reward, that fits its files. A new node that receives these blocks one after the
  other, as BLOCK_DATA packets on an outbound connection, while its disk works, ends with exactly these
  headers, serves exactly these blocks, and has the balances and the supply that their transactions define.
\<close>

theorem download_whole_chain:
  assumes "validated E bs" and "list_all (sendable E) bs" and "length bs < 2 ^ 64" and "fits bs"
    and "\<forall>x. length (SHA256 E x) = 32" and "\<forall>j<length bs. \<not> g_forceOrphanReorgEnabled (ws j) \<and> disk_works (ws j)"
    and "receive_all E c (Node_Create w ifaddrs) (map (\<lambda>j. (ws j, block_frame j (bs ! j))) [0..<length bs]) = (n', acts)"
  shows "let st = nn_node n' in map header (blocks (g_chain st)) = map header bs \<and> Chain_IsValid E (g_chain st) \<and>
    (\<forall>j<length bs. Chain_BorrowBlockTransactions st j = Some (bs ! j)) \<and>
    sheet_bal (g_sheetMap st) = ledger_of bs \<and> g_currentSupply st = supply_of bs"
proof -
  have "nn_node (Node_Create w ifaddrs) = fresh_node" by (simp add: Node_Create_def fresh_node_def)
  then have r: "net_ok E n'" "follows E bs (length bs) (nn_node n')"
    using receive_all_follows [OF assms(7) _ assms(1-6) Node_Create_ok] fresh_follows [OF assms(1)] by (auto simp: Node_Create_def orphans_def)
  have "chain_inv E (nn_node n')" "synced (nn_node n')" using r(1) reachable_inv by (auto simp: net_ok_iff)
  then show ?thesis
    using r(2) follows_ledger [OF r(2)] assms(1) by (simp add: Let_def chain_inv_def follows_def validated_def)
qed

definition wire_conn :: tcp_connection_t where
  "wire_conn = \<lparr> conn_ptr = 1, peerAddr = SA4 [10, 0, 0, 1] 9000, role = ROLE_OUTBOUND, peerListenPort = 0, peerNodeId = 3,
     disconnectedNotified = False, pinCount = 0 \<rparr>"

theorem download_whole_chain_witness:
  "\<exists>n' acts. receive_all easy_env wire_conn (Node_Create quiet_world None) [(quiet_world, block_frame 0 wire_block)] = (n', acts) \<and>
     map header (blocks (g_chain (nn_node n'))) = [header wire_block] \<and>
     Chain_BorrowBlockTransactions (nn_node n') 0 = Some wire_block"
proof -
  obtain n' acts where r: "receive_all easy_env wire_conn (Node_Create quiet_world None) [(quiet_world, block_frame 0 wire_block)] = (n', acts)"
    by fastforce
  have q: "\<not> g_forceOrphanReorgEnabled quiet_world" "disk_works quiet_world" by (simp_all add: quiet_world_def disk_works_def)
  show ?thesis
    using download_whole_chain [of easy_env "[wire_block]" "\<lambda>_. quiet_world" wire_conn quiet_world None n' acts]
      wire_block_validated wire_block_sendable wire_block_fits easy_sha q r by (auto simp: Let_def)
qed

text \<open>
  C2: whatever reaches a node over the network, it stays sound. In every state a running node can get into, by
  packets with any bytes on any connection, connects, disconnects, ticks, pings and commands in any order,
  with saves that succeed or fail, and with peer blocks of any content: its chain is numbered and linked by
  hashes, the orphan pool has at most 512 blocks, no two with the same hash, and the peer table at most 256
  entries (fewer than \<open>2 ^ 64 - 1\<close> blocks having been queued in the orphan pool). If moreover every save so far
  succeeded and no block or mined spend carried a payment to nobody (the case of
  \<open>AddBlock_unaddressed_payment\<close>), then the balances are the replay of the chain and every block can be read
  back with its transactions.
\<close>

theorem network_keeps_node_sound:
  assumes "net_run E fair n" and "\<forall>x. length (SHA256 E x) = 32"
  shows "let st = nn_node n; len = length (blocks (g_chain st)) in
    Chain_IsValid E (g_chain st) \<and>
    OrphanPool_Size (nn_orphans n) \<le> 512 \<and> distinct (map oe_hash (orphans (nn_orphans n))) \<and>
    (case nn_discovery n of None \<Rightarrow> True | Some disc \<Rightarrow> length (peers disc) \<le> 256) \<and>
    (fair \<longrightarrow>
      spec_block (\<lambda>_. 0) (map transaction (chain_history st len)) = Some (sheet_bal (g_sheetMap st)) \<and>
      (\<forall>i<len. \<exists>b. Chain_BorrowBlockTransactions st i = Some b \<and> transactions b \<noteq> None \<and> header b = header (blocks (g_chain st) ! i)))"
proof -
  have inv: "net_inv E fair n" by (rule net_run_ok [OF assms])
  then have "chain_inv E (nn_node n)" using reached_chain by (auto simp: net_inv_def)
  moreover have "synced (nn_node n)" if fair using inv that reachable_inv by (auto simp: net_inv_def)
  moreover have "\<forall>i<length (blocks (g_chain (nn_node n))). \<exists>b. Chain_BorrowBlockTransactions (nn_node n) i = Some b \<and>
      transactions b \<noteq> None \<and> header b = header (blocks (g_chain (nn_node n)) ! i)" if fair
    using inv that by (auto simp: net_inv_def servable_def whole_def)
  ultimately show ?thesis
    using inv by (auto simp: Let_def net_inv_def chain_inv_def synced_def pool_ok_def OrphanPool_Size_def MAX_ORPHAN_BLOCKS_def
        disc_ok_def DISCOVERY_MAX_KNOWN_PEERS_def split: option.splits)
qed

text \<open>
  C26: a block of the chain is served on request. A node that has block \<open>h\<close> answers FETCH_BLOCK for \<open>h\<close> with
  one BLOCK_DATA packet that parses into exactly this block, whether its transactions are in memory or on
  disk, and changes nothing; the only exceptions are a connection that fails and a block of more than 4519
  transactions, which does not fit a frame: then nothing at all is sent.
\<close>

theorem FETCH_BLOCK_served:
  assumes "net_ok E n" and "h < Chain_Size (g_chain (nn_node n))" and "Chain_Size (g_chain (nn_node n)) < 2 ^ 64"
  shows "\<exists>b. Chain_BorrowBlockTransactions (nn_node n) h = Some b \<and>
    Node_Server_OnData E w n c (PACKET_TYPE_FETCH_BLOCK # le_bytes 8 h) =
      (n, (if w_sendOk w (conn_ptr c) \<and> length (the (transactions b)) \<le> 4519
           then [Sent (conn_ptr c) PACKET_TYPE_BLOCK_DATA (block_payload (of_nat h) b)] else []) @
          [ForwardData (conn_ptr c) (le_bytes 8 h)]) \<and>
    (length (the (transactions b)) \<le> 4519 \<longrightarrow> parse_block (block_payload (of_nat h) b) = Some (of_nat h, b))"
proof -
  obtain b where b: "Chain_BorrowBlockTransactions (nn_node n) h = Some b" "whole b" "blockNumber (header b) = of_nat h"
    "on_fetch_block w n (conn_ptr c) (le_bytes 8 h) =
      (fst (Node_SendPacket w (conn_ptr c) PACKET_TYPE_BLOCK_DATA (block_payload (of_nat h) b)), True)"
    using fetch_block_served [OF assms(1)] assms(2,3) unfolding Chain_Size_def by blast
  have "fst (Node_SendPacket w (conn_ptr c) PACKET_TYPE_BLOCK_DATA (block_payload (of_nat h) b)) =
      (if w_sendOk w (conn_ptr c) \<and> length (the (transactions b)) \<le> 4519
       then [Sent (conn_ptr c) PACKET_TYPE_BLOCK_DATA (block_payload (of_nat h) b)] else [])"
    using block_fits_frame [OF b(2), of PACKET_TYPE_BLOCK_DATA "of_nat h"]
    by (auto simp: Node_SendPacket_def PacketType_IsValid_def packet_types split: option.splits)
  then show ?thesis
    using b parse_block_payload [OF b(2,3)]
    by (auto simp: Node_Server_OnData_def PacketType_IsValid_def packet_types server_packet_def forward_def)
qed

text \<open>The node that has just received the first block.\<close>

definition wire_node :: net_node where
  "wire_node = fst (Node_Client_OnData easy_env quiet_world (Node_Create quiet_world None) wire_conn (block_frame 0 wire_block))"

lemma wire_node_facts:
  "net_ok easy_env wire_node" "follows easy_env [wire_block] 1 (nn_node wire_node)" "net_run easy_env True wire_node"
  and wire_node_step: "net_step easy_env True (Node_Create quiet_world None) wire_node"
proof -
  let ?n = "Node_Create quiet_world None"
  obtain acts where r: "Node_Client_OnData easy_env quiet_world ?n wire_conn (block_frame 0 ([wire_block] ! 0)) = (wire_node, acts)"
    by (metis nth_Cons_0 prod.collapse wire_node_def)
  have f: "nn_node ?n = fresh_node" "orphans (nn_orphans ?n) = []" by (simp_all add: Node_Create_def fresh_node_def orphans_def)
  have q: "\<not> g_forceOrphanReorgEnabled quiet_world" "disk_works quiet_world" by (simp_all add: quiet_world_def disk_works_def)
  have x: "net_ok easy_env wire_node \<and> follows easy_env [wire_block] (Suc 0) (nn_node wire_node) \<and> orphans (nn_orphans wire_node) = [] \<and>
      receipt_of (nn_deliveries wire_node) (of_nat 0) = Some NODE_DELIVERY_APPENDED \<and> saves_ok acts"
    using receive_next [OF wire_block_validated _ _ _ easy_sha Node_Create_ok _ f(2) q wire_block_fits r]
      wire_block_sendable fresh_follows [OF wire_block_validated] f(1) by simp
  then show "net_ok easy_env wire_node" "follows easy_env [wire_block] 1 (nn_node wire_node)" by simp_all
  have "payload_addressed (block_payload (of_nat 0) wire_block)"
    using parse_block_payload [of wire_block "of_nat 0"] wire_block_sendable
    by (simp add: payload_addressed_def sendable_def) (simp add: wire_block_def)
  moreover have "drop 1 (block_frame 0 ([wire_block] ! 0)) = block_payload (of_nat 0) wire_block" by (simp add: block_frame_def)
  moreover have "g_nextSequence (nn_orphans ?n) \<noteq> UINT64_MAX" by (simp add: Node_Create_def)
  ultimately show step: "net_step easy_env True ?n wire_node" using net_client_data [OF r] x by simp
  from net_next [OF net_start step] show "net_run easy_env True wire_node" by simp
qed

theorem network_keeps_node_sound_witness:
  "Chain_IsValid easy_env (g_chain (nn_node wire_node)) \<and> OrphanPool_Size (nn_orphans wire_node) \<le> 512 \<and>
   (\<exists>b. Chain_BorrowBlockTransactions (nn_node wire_node) 0 = Some b \<and> transactions b \<noteq> None)"
proof -
  have "length (blocks (g_chain (nn_node wire_node))) = 1" by (rule follows_length [OF wire_node_facts(2)])
  then show ?thesis using network_keeps_node_sound [OF wire_node_facts(3) easy_sha] by (auto simp: Let_def)
qed

theorem FETCH_BLOCK_served_witness:
  "Node_Server_OnData easy_env quiet_world wire_node wire_conn (PACKET_TYPE_FETCH_BLOCK # le_bytes 8 0) =
     (wire_node, [Sent 1 PACKET_TYPE_BLOCK_DATA (block_payload 0 wire_block), ForwardData 1 (le_bytes 8 0)])"
proof -
  have l: "Chain_Size (g_chain (nn_node wire_node)) = 1" using follows_length [OF wire_node_facts(2)] by (simp add: Chain_Size_def)
  have b: "Chain_BorrowBlockTransactions (nn_node wire_node) 0 = Some wire_block" using wire_node_facts(2) by (simp add: follows_def)
  have t: "length (the (transactions wire_block)) = 1" by (simp add: wire_block_def)
  have q: "w_sendOk quiet_world p" "conn_ptr wire_conn = 1" for p by (simp_all add: quiet_world_def wire_conn_def)
  show ?thesis
    using FETCH_BLOCK_served [OF wire_node_facts(1), of 0 quiet_world wire_conn] l b t q by simp
qed

lemma set_height_conns: "set (List.map_filter fst (set_height f p slots)) = set (List.map_filter fst slots)"
  by (induction f p slots rule: set_height.induct) (auto simp: map_filter_simps split: option.splits)

text \<open>
  C27: at most one connection per node and direction survives the handshake. When HELLO or ACK_HELLO is
  accepted from a peer that names itself, the peer is not this node itself, and no other live connection of
  the same direction belongs to the same node.
\<close>

theorem handshake_one_per_node:
  assumes "on_hello w n c payload = (n', acts, True) \<or> on_ack_hello w n c payload = (n', acts, True)"
    and "peerNodeId (hello_fields c payload) \<noteq> 0"
  shows "let nid = peerNodeId (hello_fields c payload) in nid \<noteq> g_localNodeId w \<and> Closed (conn_ptr c) \<notin> set acts \<and>
    (\<forall>d\<in>set (outbound_conns (nn_conns n') @ inbound_conns (nn_conns n')).
       conn_ptr d \<noteq> conn_ptr c \<and> \<not> disconnectedNotified d \<and> role d = role c \<longrightarrow> peerNodeId d \<noteq> nid)"
proof -
  let ?c = "hello_fields c payload" and ?n1 = "learn_fields n c payload"
  obtain n2 r where i: "Node_CheckPeerIdentity w ?n1 ?c = (n2, r)" by fastforce
  have c: "conn_ptr ?c = conn_ptr c" "role ?c = role c" by (simp_all add: hello_fields_def Let_def)
  have no_close: "Closed p \<notin> set (fst (Node_SendPacket w q t pl))" for p q t pl by (simp add: Node_SendPacket_def split: option.split)
  have r: "r = NODE_IDENTITY_OK \<and> nn_conns n' = nn_conns n2 \<and> Closed (conn_ptr c) \<notin> set acts \<or>
      r = NODE_IDENTITY_OK \<and> n' = note_height n2 (conn_ptr c) (\<lambda>_. read_u64 4 payload) \<and> acts = []"
    using assms(1) i c no_close
    by (auto simp: on_hello_def on_ack_hello_def Let_def split: if_splits node_identity_result_t.splits)
  have conns: "set (outbound_conns (nn_conns (note_height n2 p f))) = set (outbound_conns (nn_conns n2))"
    "inbound_conns (nn_conns (note_height n2 p f)) = inbound_conns (nn_conns n2)" for p f
    using set_height_conns by (auto simp: note_height_def outbound_conns_def inbound_conns_def)
  have "peerNodeId ?c \<noteq> g_localNodeId w" "\<not> Node_HasOtherConnectionToNode (nn_conns n2) ?c (peerNodeId ?c)"
    using i r assms(2) by (auto simp: Node_CheckPeerIdentity_def Let_def split: if_splits)
  then show ?thesis
    using r conns assms(2) c by (auto simp: Let_def Node_HasOtherConnectionToNode_def list_ex_iff)
qed

definition wire_hello :: "byte list" where
  "wire_hello = le_bytes 4 1 @ le_bytes 8 0 @ le_bytes 2 9000 @ le_bytes 8 5"

lemma wire_hello_id: "peerNodeId (hello_fields wire_conn wire_hello) = 5"
  by (simp add: hello_fields_def wire_hello_def read_u64_def bytes_at_def le_val_le_bytes Let_def)

theorem handshake_one_per_node_witness:
  "\<exists>n' acts. on_ack_hello quiet_world (Node_Create quiet_world None) wire_conn wire_hello = (n', acts, True) \<and>
     peerNodeId (hello_fields wire_conn wire_hello) \<noteq> g_localNodeId quiet_world"
proof -
  let ?n = "learn_fields (Node_Create quiet_world None) wire_conn wire_hello" and ?c = "hello_fields wire_conn wire_hello"
  have no: "outbound_conns (nn_conns ?n) = []" "inbound_conns (nn_conns ?n) = []"
    by (simp_all add: learn_fields_def upd_conn_def Node_Create_def outbound_conns_def inbound_conns_def MAX_CONS_def
        set_slot_def List.map_filter_def)
  have "snd (Node_CheckPeerIdentity quiet_world ?n ?c) = NODE_IDENTITY_OK"
    using no by (simp add: Node_CheckPeerIdentity_def wire_hello_id quiet_world_def Node_HasOtherConnectionToNode_def
        with_discovery_def Let_def split: option.split)
  then obtain n2 where "Node_CheckPeerIdentity quiet_world ?n ?c = (n2, NODE_IDENTITY_OK)" by (metis prod.collapse)
  then obtain n' acts where r: "on_ack_hello quiet_world (Node_Create quiet_world None) wire_conn wire_hello = (n', acts, True)"
    by (simp add: on_ack_hello_def Let_def) (simp add: wire_hello_def)
  from handshake_one_per_node [of quiet_world "Node_Create quiet_world None" wire_conn wire_hello n' acts] r
  show ?thesis by (simp add: wire_hello_id Let_def)
qed

end
