(* ===== verification/Sync_Window.thy ===== *)
theory Sync_Window
  imports Net_Sync
begin

text \<open>
  The \<^verbatim>\<open>sync\<close> command of \<^verbatim>\<open>src/main.c\<close>: a window of outstanding FETCH_BLOCK requests to one peer, the walk back to
  the fork point when the peer is on another branch, and the rounds around them. The blocks themselves
  arrive on network threads and are handled by \<open>Net_Node\<close>; the command sees the chain grow and takes the
  receipts. What those threads do to the node is an argument of each turn of the loop and of each poll; it
  happens between the turns, not in the middle of one.
\<close>

section \<open>Constants\<close>

definition SYNC_REQUEST_TIMEOUT_MS :: u64 where "SYNC_REQUEST_TIMEOUT_MS = 5000"
definition MAX_SYNC_RETRIES :: nat where "MAX_SYNC_RETRIES = 4"
definition MAX_PARALLEL_FETCHES :: nat where "MAX_PARALLEL_FETCHES = 8"
definition REORG_FETCH_DEPTH :: u64 where "REORG_FETCH_DEPTH = 128"
definition MAX_FORK_PROBE_ROUNDS :: nat where "MAX_FORK_PROBE_ROUNDS = 3"

definition send_fetch :: "net_world \<Rightarrow> nat \<Rightarrow> u64 \<Rightarrow> net_action list \<times> bool" where
  "send_fetch w conn h = (case Node_SendPacket w conn PACKET_TYPE_FETCH_BLOCK (le_bytes 8 (unat h)) of (acts, r) \<Rightarrow> (acts, r = 0))"

section \<open>The walk to the fork point\<close>

text \<open>
  Outside answers of one walk: the world at the \<open>k\<close>-th request, and for the \<open>j\<close>-th batch what the network
  threads do before each poll that fits before the deadline.
\<close>

record walk_io =
  wk_world :: "nat \<Rightarrow> net_world"
  wk_wait :: "nat \<Rightarrow> (net_node \<Rightarrow> net_node) list"

text \<open>One batch of requests, at most \<open>free\<close>: the heights sent, the next height, and whether the walk is exhausted.\<close>

fun fill_batch :: "(nat \<Rightarrow> net_world) \<Rightarrow> nat \<Rightarrow> nat \<Rightarrow> nat \<Rightarrow> u64 \<Rightarrow> u64 \<Rightarrow> u64 list \<times> u64 \<times> bool \<times> net_action list" where
  "fill_batch ws conn k 0 floorHeight h = ([], h, False, [])"
| "fill_batch ws conn k (Suc free) floorHeight h =
     (case send_fetch (ws k) conn h of
        (acts, ok) \<Rightarrow>
          if \<not> ok then ([], h, True, acts)
          else if h = floorHeight then ([h], h, True, acts)
          else (case fill_batch ws conn (Suc k) free floorHeight (h - 1) of
                  (hs, h', exhausted, acts') \<Rightarrow> (h # hs, h', exhausted, acts @ acts')))"

text \<open>One poll takes the receipts that are there for the heights not yet answered.\<close>

fun take_receipts :: "delivery_table \<Rightarrow> (u64 \<times> node_delivery_status_t option) list \<Rightarrow>
    delivery_table \<times> (u64 \<times> node_delivery_status_t option) list" where
  "take_receipts t [] = (t, [])"
| "take_receipts t ((h, Some status) # es) = (case take_receipts t es of (t', es') \<Rightarrow> (t', (h, Some status) # es'))"
| "take_receipts t ((h, None) # es) =
     (case Node_TakeBlockDelivery t h of
        (t1, got) \<Rightarrow> (case take_receipts t1 es of (t', es') \<Rightarrow> (t', (h, got) # es')))"

definition outstanding :: "(u64 \<times> node_delivery_status_t option) list \<Rightarrow> bool" where
  "outstanding es = list_ex (\<lambda>(h, got). got = None) es"

fun wait_batch :: "(net_node \<Rightarrow> net_node) list \<Rightarrow> net_node \<Rightarrow> (u64 \<times> node_delivery_status_t option) list \<Rightarrow>
    net_node \<times> (u64 \<times> node_delivery_status_t option) list" where
  "wait_batch [] n es = (n, es)"
| "wait_batch (bg # bgs) n es =
     (if \<not> outstanding es then (n, es)
      else let n1 = bg n; (t, es') = take_receipts (nn_deliveries n1) es
           in wait_batch bgs (n1\<lparr> nn_deliveries := t \<rparr>) es')"

definition shared_block :: "(u64 \<times> node_delivery_status_t option) list \<Rightarrow> bool" where
  "shared_block es = list_ex (\<lambda>(h, got). got = Some NODE_DELIVERY_DUPLICATE \<or> got = Some NODE_DELIVERY_APPENDED) es"

lemma fill_batch_next: "fill_batch ws conn k free lo h = (hs, h', False, acts) \<Longrightarrow> length hs = free \<and> unat (h' - lo) + free = unat (h - lo)"
proof (induction free arbitrary: k h hs acts)
  case (Suc free)
  obtain as hs1 as1 where s: "h \<noteq> lo" "fill_batch ws conn (Suc k) free lo (h - 1) = (hs1, h', False, as1)" "hs = h # hs1"
    using Suc.prems by (auto split: prod.splits if_splits)
  have "h - lo \<noteq> 0" using s(1) by simp
  then have "unat (h - lo - 1) + 1 = unat (h - lo)" by (metis add.commute unat_minus_one Suc_pred' plus_1_eq_Suc unat_gt_0)
  moreover have "h - lo - 1 = h - 1 - lo" by (simp only: diff_diff_add add.commute)
  ultimately have "unat (h - 1 - lo) + 1 = unat (h - lo)" by simp
  then show ?case using Suc.IH [OF s(2)] s(3) by simp
qed simp

text \<open>
  The loop over the batches; every batch that does not end the walk brings the next height closer to the
  lowest one, so the walk ends whatever the peer answers.
\<close>

function fork_walk :: "walk_io \<Rightarrow> nat \<Rightarrow> nat \<Rightarrow> nat \<Rightarrow> u64 \<Rightarrow> u64 \<Rightarrow> net_node \<Rightarrow> net_node \<times> net_action list \<times> bool" where
  "fork_walk io conn j k floorHeight h n =
     (case fill_batch (wk_world io) conn k MAX_PARALLEL_FETCHES floorHeight h of
        (hs, h', exhausted, acts) \<Rightarrow>
          if hs = [] then (n, acts, False)
          else (case wait_batch (wk_wait io j) n (map (\<lambda>h. (h, None)) hs) of
                  (n1, es) \<Rightarrow>
                    if shared_block es then (n1, acts, True)
                    else if outstanding es then (n1, acts, False)
                    else if exhausted then (n1, acts, False)
                    else (case fork_walk io conn (Suc j) (k + length hs) floorHeight h' n1 of
                            (n2, acts2, found) \<Rightarrow> (n2, acts @ acts2, found))))"
  by pat_completeness auto

termination fork_walk
  by (relation "measure (\<lambda>(io, conn, j, k, floorHeight, h, n). unat (h - floorHeight))")
    (auto dest!: fill_batch_next [OF sym] simp: MAX_PARALLEL_FETCHES_def)

declare fork_walk.simps [simp del]

definition RequestForkWindow :: "walk_io \<Rightarrow> nat \<Rightarrow> u64 \<Rightarrow> net_node \<Rightarrow> net_node \<times> net_action list \<times> bool" where
  "RequestForkWindow io conn topHeight n =
     (let floorHeight = (if topHeight > REORG_FETCH_DEPTH then topHeight - REORG_FETCH_DEPTH else 0)
      in fork_walk io conn 0 0 floorHeight topHeight n)"

section \<open>The window of outstanding requests\<close>

record fetch_slot =
  fs_height :: u64
  fs_retry :: nat
  fs_sent :: u64

record sync_state =
  sy_next :: u64
  sy_window :: "fetch_slot list"
  sy_prev :: "byte list"
  sy_located :: bool
  sy_pooled :: u64
  sy_probes :: nat

text \<open>
  Outside answers of one turn of the window loop: what the network threads have done since the last one, the
  world at each new request and at each retry, the time, the walk it may start and the clock of an attach.
\<close>

record turn_io =
  tn_bg :: "net_node \<Rightarrow> net_node"
  tn_fill :: "nat \<Rightarrow> net_world"
  tn_retry :: "nat \<Rightarrow> net_world"
  tn_now :: u64
  tn_walk :: walk_io
  tn_attach :: "orphan_pool \<Rightarrow> nat \<Rightarrow> u64"

fun fill_window :: "(nat \<Rightarrow> net_world) \<Rightarrow> nat \<Rightarrow> u64 \<Rightarrow> nat \<Rightarrow> nat \<Rightarrow> u64 \<Rightarrow> fetch_slot list \<times> u64 \<times> net_action list" where
  "fill_window ws conn stop k 0 h = ([], h, [])"
| "fill_window ws conn stop k (Suc free) h =
     (if h < stop then
        (case send_fetch (ws k) conn h of
           (acts, ok) \<Rightarrow>
             if \<not> ok then ([], h, acts)
             else (case fill_window ws conn stop (Suc k) free (h + 1) of
                     (xs, h', acts') \<Rightarrow> (\<lparr> fs_height = h, fs_retry = 0, fs_sent = w_now (ws k) \<rparr> # xs, h', acts @ acts')))
      else ([], h, []))"

definition attach_forced :: "crypto_env \<Rightarrow> (orphan_pool \<Rightarrow> nat \<Rightarrow> u64) \<Rightarrow> bool \<Rightarrow> net_node \<Rightarrow> net_node \<times> nat" where
  "attach_forced E clock forceSync n =
     (case OrphanPool_AttemptAttachForced E clock (nn_orphans n) (nn_node n) forceSync of
        (p, st, attached) \<Rightarrow> (n\<lparr> nn_orphans := p, nn_node := st \<rparr>, attached))"

definition tip_hash_or :: "crypto_env \<Rightarrow> byte list \<Rightarrow> net_node \<Rightarrow> byte list" where
  "tip_hash_or E prev n =
     (let chain = g_chain (nn_node n) in
      if Chain_Size chain > 0
      then (case Chain_GetBlockCopy chain (Chain_Size chain - 1) of None \<Rightarrow> prev | Some tip \<Rightarrow> Block_CalculateHash E tip)
      else replicate 32 0)"

text \<open>The window and the expected parent start over from the current tip.\<close>

definition realign :: "crypto_env \<Rightarrow> net_node \<Rightarrow> sync_state \<Rightarrow> sync_state" where
  "realign E n s = s\<lparr> sy_next := of_nat (Chain_Size (g_chain (nn_node n))), sy_window := [], sy_prev := tip_hash_or E (sy_prev s) n \<rparr>"

text \<open>The answer for \<open>x\<close> was applied to the chain.\<close>

definition slot_applied ::
  "crypto_env \<Rightarrow> bool \<Rightarrow> nat \<Rightarrow> turn_io \<Rightarrow> fetch_slot list \<Rightarrow> fetch_slot \<Rightarrow> net_node \<Rightarrow> sync_state \<Rightarrow> net_node \<times> sync_state \<times> net_action list" where
  "slot_applied E forceSync conn io others x n s =
     (case Chain_GetBlockCopy (g_chain (nn_node n)) (unat (fs_height x)) of
        None \<Rightarrow> (n, s\<lparr> sy_window := others \<rparr>, [])
      | Some fetched \<Rightarrow>
          if prevHash (header fetched) \<noteq> sy_prev s then
            (case RequestForkWindow (tn_walk io) conn (fs_height x) n of
               (n1, acts, found) \<Rightarrow>
                 (case attach_forced E (tn_attach io) forceSync n1 of (n2, attached) \<Rightarrow> (n2, realign E n2 s, acts)))
          else (n, s\<lparr> sy_window := others, sy_prev := Block_CalculateHash E fetched \<rparr>, []))"

text \<open>
  The answer for \<open>x\<close> arrived but did not extend the chain: the fork point is looked for once, then the block
  counts as delivered and after every window full of them the pool is tried again.
\<close>

definition slot_delivered ::
  "crypto_env \<Rightarrow> bool \<Rightarrow> turn_io \<Rightarrow> fetch_slot list \<Rightarrow> net_action list \<Rightarrow> net_node \<Rightarrow> sync_state \<Rightarrow> net_node \<times> sync_state \<times> net_action list" where
  "slot_delivered E forceSync io others acts n s =
     (let s2 = s\<lparr> sy_window := others, sy_pooled := sy_pooled s + 1 \<rparr> in
      if sy_pooled s2 \<ge> of_nat MAX_PARALLEL_FETCHES then
        (case attach_forced E (tn_attach io) forceSync n of
           (n2, attached) \<Rightarrow>
             let s3 = s2\<lparr> sy_pooled := 0 \<rparr>
             in (n2, if attached > 0 then (realign E n2 s3)\<lparr> sy_located := False \<rparr> else s3, acts))
      else (n, s2, acts))"

definition slot_pooled ::
  "crypto_env \<Rightarrow> bool \<Rightarrow> nat \<Rightarrow> turn_io \<Rightarrow> u64 \<Rightarrow> fetch_slot list \<Rightarrow> fetch_slot \<Rightarrow> net_node \<Rightarrow> sync_state \<Rightarrow> net_node \<times> sync_state \<times> net_action list" where
  "slot_pooled E forceSync conn io stop others x n s =
     (if sy_located s then slot_delivered E forceSync io others [] n s
      else case RequestForkWindow (tn_walk io) conn (fs_height x) n of
        (n1, acts, found) \<Rightarrow>
          let s1 = s\<lparr> sy_probes := Suc (sy_probes s), sy_located := found \<rparr>
          in if \<not> found then (n1, s1\<lparr> sy_window := [], sy_next := stop \<rparr>, acts)
             else slot_delivered E forceSync io others acts n1 s1)"

text \<open>
  The loop over the slots: \<open>before\<close> are the slots already looked at in this turn. A slot that is settled ends
  the turn; a retry does not.
\<close>

fun poll_window ::
  "crypto_env \<Rightarrow> bool \<Rightarrow> nat \<Rightarrow> turn_io \<Rightarrow> u64 \<Rightarrow> fetch_slot list \<Rightarrow> fetch_slot list \<Rightarrow> net_node \<Rightarrow> sync_state \<Rightarrow>
     net_node \<times> sync_state \<times> net_action list" where
  "poll_window E forceSync conn io stop before [] n s = (n, s\<lparr> sy_window := before \<rparr>, [])"
| "poll_window E forceSync conn io stop before (x # rest) n s =
     (if of_nat (Chain_Size (g_chain (nn_node n))) > fs_height x then slot_applied E forceSync conn io (before @ rest) x n s
      else (case Node_TakeBlockDelivery (nn_deliveries n) (fs_height x) of
              (t, got) \<Rightarrow>
                let n1 = n\<lparr> nn_deliveries := t \<rparr> in
                if got \<noteq> None \<and> got \<noteq> Some NODE_DELIVERY_APPENDED
                then slot_pooled E forceSync conn io stop (before @ rest) x n1 s
                else let now = tn_now io;
                         elapsed = (if now > fs_sent x then now - fs_sent x else 0) in
                  if elapsed > SYNC_REQUEST_TIMEOUT_MS then
                    (if fs_retry x < MAX_SYNC_RETRIES then
                       (let w = tn_retry io (length before);
                            (acts, ok) = send_fetch w conn (fs_height x);
                            x' = x\<lparr> fs_retry := Suc (fs_retry x), fs_sent := (if ok then w_now w else fs_sent x) \<rparr>;
                            (n2, s2, acts2) = poll_window E forceSync conn io stop (before @ [x']) rest n1 s
                        in (n2, s2, acts @ acts2))
                     else (n1, s\<lparr> sy_window := [] \<rparr>, []))
                  else poll_window E forceSync conn io stop (before @ [x]) rest n1 s))"

definition sync_turn ::
  "crypto_env \<Rightarrow> bool \<Rightarrow> nat \<Rightarrow> u64 \<Rightarrow> turn_io \<Rightarrow> net_node \<Rightarrow> sync_state \<Rightarrow> net_node \<times> sync_state \<times> net_action list" where
  "sync_turn E forceSync conn stop io n s =
     (let n1 = tn_bg io n;
          (xs, h', acts) = fill_window (tn_fill io) conn stop 0 (MAX_PARALLEL_FETCHES - length (sy_window s)) (sy_next s);
          s1 = s\<lparr> sy_next := h', sy_window := sy_window s @ xs \<rparr>
      in if sy_window s1 = [] then (n1, s1, acts)
         else case poll_window E forceSync conn io stop [] (sy_window s1) n1 s1 of (n2, s2, acts2) \<Rightarrow> (n2, s2, acts @ acts2))"

definition sync_active :: "u64 \<Rightarrow> sync_state \<Rightarrow> bool" where
  "sync_active stop s \<longleftrightarrow> sy_next s < stop \<or> sy_window s \<noteq> []"

text \<open>The window loop for as many turns as there are inputs; it is over when the state is not active.\<close>

fun sync_turns ::
  "crypto_env \<Rightarrow> bool \<Rightarrow> nat \<Rightarrow> u64 \<Rightarrow> turn_io list \<Rightarrow> net_node \<Rightarrow> sync_state \<Rightarrow> net_node \<times> sync_state \<times> net_action list" where
  "sync_turns E forceSync conn stop [] n s = (n, s, [])"
| "sync_turns E forceSync conn stop (io # ios) n s =
     (if \<not> sync_active stop s then (n, s, [])
      else case sync_turn E forceSync conn stop io n s of
        (n1, s1, acts) \<Rightarrow>
          (case sync_turns E forceSync conn stop ios n1 s1 of (n2, s2, acts2) \<Rightarrow> (n2, s2, acts @ acts2)))"

section \<open>The rounds\<close>

record round_io =
  rd_turns :: "turn_io list"
  rd_drain :: "orphan_pool \<Rightarrow> nat \<Rightarrow> u64"
  rd_walk :: walk_io
  rd_probe :: "orphan_pool \<Rightarrow> nat \<Rightarrow> u64"

datatype sync_verdict = SYNC_BUSY | SYNC_AGAIN | SYNC_STOP

fun peer_height :: "nat \<Rightarrow> (tcp_connection_t option \<times> u64) list \<Rightarrow> u64 \<Rightarrow> u64" where
  "peer_height conn [] old = old"
| "peer_height conn ((slot, h) # slots) old =
     (case slot of None \<Rightarrow> peer_height conn slots old | Some c \<Rightarrow> if conn_ptr c = conn then h else peer_height conn slots old)"

text \<open>What follows when the window has drained: the peer height for the next round and whether there is one.\<close>

definition after_window ::
  "crypto_env \<Rightarrow> bool \<Rightarrow> nat \<Rightarrow> round_io \<Rightarrow> u64 \<Rightarrow> u64 \<Rightarrow> net_node \<Rightarrow> sync_state \<Rightarrow>
     net_node \<times> sync_state \<times> net_action list \<times> u64 \<times> sync_verdict" where
  "after_window E forceSync conn io localHeight peerHeight n s =
     (let (n2, s2) = (if sy_pooled s > 0 then (fst (attach_forced E (rd_drain io) forceSync n), s\<lparr> sy_pooled := 0 \<rparr>) else (n, s));
          newLocal = of_nat (Chain_Size (g_chain (nn_node n2)))
      in if newLocal \<ge> peerHeight then (n2, s2, [], peerHeight, SYNC_STOP)
         else let peerHeight' = peer_height conn (outboundClients (nn_conns n2)) peerHeight in
           if \<not> newLocal > localHeight then
             (if peerHeight' > newLocal \<and> sy_probes s2 < MAX_FORK_PROBE_ROUNDS then
                (case RequestForkWindow (rd_walk io) conn newLocal n2 of
                   (n3, acts, foundCommon) \<Rightarrow>
                     let (n4, attached) = (if foundCommon then attach_forced E (rd_probe io) forceSync n3 else (n3, 0))
                     in (n4, s2\<lparr> sy_probes := Suc (sy_probes s2) \<rparr>, acts, peerHeight', if attached > 0 then SYNC_AGAIN else SYNC_STOP))
              else (n2, s2, [], peerHeight', SYNC_STOP))
           else (n2, s2, [], peerHeight', if newLocal \<ge> peerHeight' then SYNC_STOP else SYNC_AGAIN))"

definition sync_round ::
  "crypto_env \<Rightarrow> bool \<Rightarrow> nat \<Rightarrow> round_io \<Rightarrow> u64 \<Rightarrow> net_node \<Rightarrow> sync_state \<Rightarrow> net_node \<times> sync_state \<times> net_action list \<times> u64 \<times> sync_verdict" where
  "sync_round E forceSync conn io peerHeight n s =
     (let localHeight = of_nat (Chain_Size (g_chain (nn_node n)));
          s0 = s\<lparr> sy_next := localHeight, sy_window := [], sy_prev := tip_hash_or E (replicate 32 0) n \<rparr>
      in case sync_turns E forceSync conn peerHeight (rd_turns io) n s0 of
           (n1, s1, acts) \<Rightarrow>
             if sync_active peerHeight s1 then (n1, s1, acts, peerHeight, SYNC_BUSY)
             else case after_window E forceSync conn io localHeight peerHeight n1 s1 of
               (n2, s2, acts2, peerHeight', v) \<Rightarrow> (n2, s2, acts @ acts2, peerHeight', v))"

fun sync_rounds ::
  "crypto_env \<Rightarrow> bool \<Rightarrow> nat \<Rightarrow> round_io list \<Rightarrow> u64 \<Rightarrow> net_node \<Rightarrow> sync_state \<Rightarrow> net_node \<times> net_action list \<times> sync_verdict" where
  "sync_rounds E forceSync conn [] peerHeight n s = (n, [], SYNC_AGAIN)"
| "sync_rounds E forceSync conn (io # ios) peerHeight n s =
     (case sync_round E forceSync conn io peerHeight n s of
        (n1, s1, acts, peerHeight', v) \<Rightarrow>
          if v \<noteq> SYNC_AGAIN then (n1, acts, v)
          else case sync_rounds E forceSync conn ios peerHeight' n1 s1 of (n2, acts2, v2) \<Rightarrow> (n2, acts @ acts2, v2))"

text \<open>The whole command; the pin of the peer is released when the rounds are over.\<close>

definition sync_command :: "crypto_env \<Rightarrow> bool \<Rightarrow> round_io list \<Rightarrow> net_node \<Rightarrow> net_node \<times> net_action list \<times> sync_verdict" where
  "sync_command E forceSync ios n =
     (case Node_GetBestOutboundPeer (nn_conns n) of
        (conns, None) \<Rightarrow> (n\<lparr> nn_conns := conns \<rparr>, [], SYNC_STOP)
      | (conns, Some (peer, peerHeight)) \<Rightarrow>
          let n1 = n\<lparr> nn_conns := conns, nn_deliveries := Node_ResetBlockDeliveries \<rparr>;
              s0 = \<lparr> sy_next = 0, sy_window = [], sy_prev = [], sy_located = False, sy_pooled = 0, sy_probes = 0 \<rparr>
          in case sync_rounds E forceSync (conn_ptr peer) ios peerHeight n1 s0 of
               (n2, acts, v) \<Rightarrow>
                 (if v = SYNC_STOP then n2\<lparr> nn_conns := upd_conn (conn_ptr peer) TcpConnection_Unpin (nn_conns n2) \<rparr> else n2, acts, v))"

section \<open>The walk back\<close>

definition walk_keeps :: "crypto_env \<Rightarrow> bool \<Rightarrow> walk_io \<Rightarrow> bool" where
  "walk_keeps E g io \<longleftrightarrow> (\<forall>j. list_all (keeps_inv E g) (wk_wait io j))"

lemma net_inv_deliveries: "net_inv E g n \<Longrightarrow> receipts_ok t \<Longrightarrow> net_inv E g (n\<lparr> nn_deliveries := t \<rparr>)"
  by (simp add: net_inv_def)

lemma net_inv_receipts: "net_inv E g n \<Longrightarrow> receipts_ok (nn_deliveries n)"
  by (simp add: net_inv_def)

lemma take_receipts_ok: "receipts_ok t \<Longrightarrow> receipts_ok (fst (take_receipts t es))"
proof (induction t es rule: take_receipts.induct)
  case (3 t h es)
  then show ?case using TakeBlockDelivery_ok [of t h] by (simp add: case_prod_unfold) (metis prod.collapse)
qed (simp_all add: case_prod_unfold)

lemma wait_batch_ok: "net_inv E g n \<Longrightarrow> list_all (keeps_inv E g) bgs \<Longrightarrow> net_inv E g (fst (wait_batch bgs n es))"
proof (induction bgs arbitrary: n es)
  case (Cons bg bgs)
  have "net_inv E g (bg n)" using Cons.prems by (simp add: keeps_inv_def)
  then have "net_inv E g ((bg n)\<lparr> nn_deliveries := fst (take_receipts (nn_deliveries (bg n)) es) \<rparr>)"
    by (intro net_inv_deliveries take_receipts_ok net_inv_receipts)
  then show ?case using Cons by (simp add: Let_def case_prod_unfold)
qed simp

lemma fork_walk_ok: "net_inv E g n \<Longrightarrow> walk_keeps E g io \<Longrightarrow> net_inv E g (fst (fork_walk io conn j k lo h n))"
proof (induction io conn j k lo h n rule: fork_walk.induct)
  case (1 io conn j k lo h n)
  obtain hs h' ex acts where f: "fill_batch (wk_world io) conn k MAX_PARALLEL_FETCHES lo h = (hs, h', ex, acts)" by (metis prod_cases4)
  obtain n1 es where w: "wait_batch (wk_wait io j) n (map (\<lambda>h. (h, None)) hs) = (n1, es)" by fastforce
  have "net_inv E g n1" using wait_batch_ok [OF "1.prems"(1)] "1.prems"(2) w by (metis fst_conv walk_keeps_def)
  then show ?case
    using "1.IH" [OF f [symmetric] refl refl _ w [symmetric]] "1.prems" by (simp add: fork_walk.simps [of io] f w case_prod_unfold)
qed

text \<open>The requests for \<open>m\<close> heights downwards from \<open>h\<close>.\<close>

definition requests_down :: "nat \<Rightarrow> nat \<Rightarrow> nat \<Rightarrow> net_action list" where
  "requests_down conn h m = map (\<lambda>i. Sent conn PACKET_TYPE_FETCH_BLOCK (le_bytes 8 (h - i))) [0..<m]"

lemma requests_down_Suc: "requests_down conn h (Suc m) = Sent conn PACKET_TYPE_FETCH_BLOCK (le_bytes 8 h) # requests_down conn (h - 1) m"
  unfolding requests_down_def upt_conv_Cons [OF zero_less_Suc] map_Suc_upt [symmetric] by simp

lemma requests_down_add: "requests_down conn h (a + b) = requests_down conn h a @ requests_down conn (h - a) b"
  by (induction a arbitrary: h) (simp_all add: requests_down_Suc, simp add: requests_down_def)

lemma send_fetch_cases: "send_fetch w conn h = (if w_sendOk w conn then ([Sent conn PACKET_TYPE_FETCH_BLOCK (le_bytes 8 (unat h))], True) else ([], False))"
proof -
  have "TcpConnection_SendFramed (PACKET_TYPE_FETCH_BLOCK # le_bytes 8 (unat h)) \<noteq> None"
    by (simp add: TcpConnection_SendFramed_def TCP_MAX_FRAME_PAYLOAD_def)
  then show ?thesis by (auto simp: send_fetch_def Node_SendPacket_def PacketType_IsValid_def packet_types split: option.split)
qed

lemma fill_batch_requests:
  "fill_batch ws conn k free lo h = (hs, h', ex, acts) \<Longrightarrow> lo \<le> h \<Longrightarrow>
     acts = requests_down conn (unat h) (length hs) \<and> length hs \<le> Suc (unat h - unat lo) \<and>
     (ex \<or> unat h' = unat h - length hs \<and> lo \<le> h' \<and> length hs \<le> unat h - unat lo)"
proof (induction free arbitrary: k h hs acts)
  case 0
  then show ?case by (auto simp: requests_down_def)
next
  case (Suc free)
  show ?case
  proof (cases "\<not> w_sendOk (ws k) conn \<or> h = lo")
    case True
    then show ?thesis using Suc.prems by (auto simp: send_fetch_cases requests_down_Suc requests_down_def split: if_splits)
  next
    case False
    then obtain hs1 acts1 where r: "fill_batch ws conn (Suc k) free lo (h - 1) = (hs1, h', ex, acts1)" "hs = h # hs1"
      "acts = Sent conn PACKET_TYPE_FETCH_BLOCK (le_bytes 8 (unat h)) # acts1"
      using Suc.prems(1) by (auto simp: send_fetch_cases split: prod.splits)
    have lt: "unat lo < unat h" using False Suc.prems(2) by (metis order_le_less word_less_nat_alt)
    then have u: "unat (h - 1) = unat h - 1" by (metis gr_implies_not0 unat_eq_zero unat_minus_one)
    then have "lo \<le> h - 1" using lt by (simp add: word_le_nat_alt)
    from Suc.IH [OF r(1) this] show ?thesis using r(2,3) u lt by (auto simp: requests_down_Suc)
  qed
qed

lemma fork_walk_requests:
  "fork_walk io conn j k lo h n = (n', acts, found) \<Longrightarrow> lo \<le> h \<Longrightarrow>
     \<exists>m \<le> Suc (unat h - unat lo). acts = requests_down conn (unat h) m"
proof (induction io conn j k lo h n arbitrary: n' acts found rule: fork_walk.induct)
  case (1 io conn j k lo h n)
  obtain hs h' ex as where f: "fill_batch (wk_world io) conn k MAX_PARALLEL_FETCHES lo h = (hs, h', ex, as)" by (metis prod_cases4)
  obtain n1 es where w: "wait_batch (wk_wait io j) n (map (\<lambda>h. (h, None)) hs) = (n1, es)" by fastforce
  note fb = fill_batch_requests [OF f "1.prems"(2)]
  show ?case
  proof (cases "hs = [] \<or> shared_block es \<or> outstanding es \<or> ex")
    case True
    then have "acts = as" using "1.prems"(1) by (auto simp: fork_walk.simps [of io] f w split: if_splits)
    then show ?thesis using fb by blast
  next
    case False
    obtain n2 acts2 found2 where r: "fork_walk io conn (Suc j) (k + length hs) lo h' n1 = (n2, acts2, found2)" by (metis prod_cases3)
    have a: "acts = as @ acts2" using "1.prems"(1) False r by (simp add: fork_walk.simps [of io conn j] f w)
    have b: "unat h' = unat h - length hs" "lo \<le> h'" "length hs \<le> unat h - unat lo" using fb False by auto
    obtain m where m: "m \<le> Suc (unat h' - unat lo)" "acts2 = requests_down conn (unat h') m"
      using "1.IH" [OF f [symmetric] refl refl _ w [symmetric]] False r b(2) by blast
    have "acts = requests_down conn (unat h) (length hs + m)" using a fb m(2) b(1) by (simp add: requests_down_add)
    moreover have "length hs + m \<le> Suc (unat h - unat lo)" using m(1) b(1,3) by simp
    ultimately show ?thesis by blast
  qed
qed

section \<open>The window\<close>

definition slots_ok :: "u64 \<Rightarrow> fetch_slot list \<Rightarrow> bool" where
  "slots_ok next xs \<longleftrightarrow> length xs \<le> MAX_PARALLEL_FETCHES \<and> sorted_wrt (<) (map fs_height xs) \<and>
     (\<forall>x\<in>set xs. fs_height x < next \<and> fs_retry x \<le> MAX_SYNC_RETRIES)"

definition window_ok :: "sync_state \<Rightarrow> bool" where
  "window_ok s \<longleftrightarrow> slots_ok (sy_next s) (sy_window s)"

lemma slots_ok_Nil [simp]: "slots_ok h []"
  by (simp add: slots_ok_def)

lemma slots_ok_remove: "slots_ok h (xs @ x # ys) \<Longrightarrow> slots_ok h (xs @ ys)"
  by (auto simp: slots_ok_def sorted_wrt_append)

lemma slots_ok_retry:
  "slots_ok h (xs @ x # ys) \<Longrightarrow> fs_height x' = fs_height x \<Longrightarrow> fs_retry x' \<le> MAX_SYNC_RETRIES \<Longrightarrow> slots_ok h ((xs @ [x']) @ ys)"
  by (auto simp: slots_ok_def sorted_wrt_append)

lemma word_less_Suc: "(h :: u64) < stop \<Longrightarrow> h < h + 1"
  using unat_lt_64 [of stop] by (simp add: word_less_nat_alt unat_word_ariths)

lemma fill_window_slots:
  "fill_window ws conn stop k free h = (xs, h', acts) \<Longrightarrow>
     length xs \<le> free \<and> sorted_wrt (<) (map fs_height xs) \<and> h \<le> h' \<and> (\<forall>x\<in>set xs. h \<le> fs_height x \<and> fs_height x < h' \<and> fs_retry x = 0)"
proof (induction free arbitrary: k h xs acts)
  case (Suc free)
  show ?case
  proof (cases "h < stop \<and> w_sendOk (ws k) conn")
    case True
    then obtain ys acts1 where r: "fill_window ws conn stop (Suc k) free (h + 1) = (ys, h', acts1)"
      "xs = \<lparr> fs_height = h, fs_retry = 0, fs_sent = w_now (ws k) \<rparr> # ys"
      using Suc.prems by (auto simp: send_fetch_cases split: prod.splits)
    have "h < h + 1" using word_less_Suc True by blast
    then show ?thesis using Suc.IH [OF r(1)] r(2) by auto
  next
    case False
    then show ?thesis using Suc.prems by (auto simp: send_fetch_cases split: if_splits)
  qed
qed simp

lemma slots_ok_fill:
  assumes "slots_ok h xs" "fill_window ws conn stop k (MAX_PARALLEL_FETCHES - length xs) h = (ys, h', acts)"
  shows "slots_ok h' (xs @ ys)"
  using fill_window_slots [OF assms(2)] assms(1) by (fastforce simp: slots_ok_def sorted_wrt_append)

definition turn_keeps :: "crypto_env \<Rightarrow> bool \<Rightarrow> turn_io \<Rightarrow> bool" where
  "turn_keeps E g io \<longleftrightarrow> keeps_inv E g (tn_bg io) \<and> walk_keeps E g (tn_walk io)"

lemma attach_forced_ok: "attach_forced E clock force n = (n', k) \<Longrightarrow> net_inv E g n \<Longrightarrow> net_inv E g n'"
  using attach_ok [of E clock n force] by (auto simp: attach_forced_def split: prod.splits)

lemma ForkWindow_ok: "RequestForkWindow io conn h n = (n', acts, found) \<Longrightarrow> net_inv E g n \<Longrightarrow> walk_keeps E g io \<Longrightarrow> net_inv E g n'"
  using fork_walk_ok [of E g n io conn 0 0] by (metis RequestForkWindow_def fst_conv)

definition sound :: "crypto_env \<Rightarrow> bool \<Rightarrow> net_node \<times> sync_state \<times> net_action list \<Rightarrow> bool" where
  "sound E g r \<longleftrightarrow> net_inv E g (fst r) \<and> window_ok (fst (snd r))"

lemma sound_simp: "sound E g (n, s, acts) \<longleftrightarrow> net_inv E g n \<and> slots_ok (sy_next s) (sy_window s)"
  by (simp add: sound_def window_ok_def)

lemma sound_more: "sound E g r \<Longrightarrow> sound E g (case r of (n, s, acts2) \<Rightarrow> (n, s, acts @ acts2))"
  by (simp add: sound_def case_prod_unfold)

lemma slot_applied_sound:
  assumes "net_inv E g n" "turn_keeps E g io" "slots_ok (sy_next s) others"
  shows "sound E g (slot_applied E force conn io others x n s)"
proof -
  obtain n1 acts found where w: "RequestForkWindow (tn_walk io) conn (fs_height x) n = (n1, acts, found)" by (metis prod_cases3)
  obtain n2 k where a: "attach_forced E (tn_attach io) force n1 = (n2, k)" by fastforce
  have "net_inv E g n2" using attach_forced_ok [OF a] ForkWindow_ok [OF w assms(1)] assms(2) by (simp add: turn_keeps_def)
  then show ?thesis using assms(1,3) w a by (simp add: sound_def slot_applied_def window_ok_def realign_def split: option.split)
qed

lemma slot_delivered_sound:
  assumes "net_inv E g n" "slots_ok (sy_next s) others"
  shows "sound E g (slot_delivered E force io others acts n s)"
proof -
  obtain n2 k where a: "attach_forced E (tn_attach io) force n = (n2, k)" by fastforce
  have "net_inv E g n2" by (rule attach_forced_ok [OF a assms(1)])
  then show ?thesis using assms by (simp add: slot_delivered_def a Let_def sound_simp realign_def)
qed

lemma slot_pooled_sound:
  assumes "net_inv E g n" "turn_keeps E g io" "slots_ok (sy_next s) others"
  shows "sound E g (slot_pooled E force conn io stop others x n s)"
proof -
  obtain n1 acts found where w: "RequestForkWindow (tn_walk io) conn (fs_height x) n = (n1, acts, found)" by (metis prod_cases3)
  have "net_inv E g n1" using ForkWindow_ok [OF w assms(1)] assms(2) by (simp add: turn_keeps_def)
  then show ?thesis using slot_delivered_sound assms(1,3) by (simp add: slot_pooled_def w Let_def sound_simp)
qed

lemma poll_window_sound:
  "net_inv E g n \<Longrightarrow> turn_keeps E g io \<Longrightarrow> slots_ok (sy_next s) (before @ xs) \<Longrightarrow>
     sound E g (poll_window E force conn io stop before xs n s)"
proof (induction xs arbitrary: before n)
  case Nil
  then show ?case by (simp add: sound_def window_ok_def)
next
  case (Cons x xs)
  obtain t got where t: "Node_TakeBlockDelivery (nn_deliveries n) (fs_height x) = (t, got)" by fastforce
  let ?n1 = "n\<lparr> nn_deliveries := t \<rparr>" and ?rm = "before @ xs"
  have n1: "net_inv E g ?n1"
    using net_inv_deliveries [OF Cons.prems(1)] TakeBlockDelivery_ok [OF net_inv_receipts [OF Cons.prems(1)], of "fs_height x"] t by simp
  have rm: "slots_ok (sy_next s) ?rm" by (rule slots_ok_remove [OF Cons.prems(3)])
  have go: "sound E g (poll_window E force conn io stop (before @ [x']) xs ?n1 s)"
    if "fs_height x' = fs_height x" "fs_retry x' \<le> MAX_SYNC_RETRIES" for x'
    by (rule Cons.IH [OF n1 Cons.prems(2) slots_ok_retry [OF Cons.prems(3) that]])
  have "fs_retry x \<le> MAX_SYNC_RETRIES" using Cons.prems(3) by (simp add: slots_ok_def)
  note keep = go [OF refl this]
  have retry: "sound E g (poll_window E force conn io stop (before @ [x\<lparr> fs_retry := Suc (fs_retry x), fs_sent := w \<rparr>]) xs ?n1 s)"
    if "fs_retry x < MAX_SYNC_RETRIES" for w by (rule go) (use that in simp_all)
  have over: "sound E g (?n1, s\<lparr> sy_window := [] \<rparr>, [])" using n1 by (simp add: sound_simp)
  obtain as ok where sf: "send_fetch (tn_retry io (length before)) conn (fs_height x) = (as, ok)" by fastforce
  show ?case
    unfolding poll_window.simps t sf prod.case Let_def
    using slot_applied_sound [OF Cons.prems(1,2) rm] slot_pooled_sound [OF n1 Cons.prems(2) rm] keep over sound_more [OF retry]
    by simp
qed

lemma sync_turn_sound:
  assumes "net_inv E g n" "window_ok s" "turn_keeps E g io"
  shows "sound E g (sync_turn E force conn stop io n s)"
proof -
  obtain xs h' acts where f: "fill_window (tn_fill io) conn stop 0 (MAX_PARALLEL_FETCHES - length (sy_window s)) (sy_next s) = (xs, h', acts)"
    by (metis prod_cases3)
  have "slots_ok h' (sy_window s @ xs)" using slots_ok_fill [OF _ f] assms(2) by (simp add: window_ok_def)
  moreover have "net_inv E g (tn_bg io n)" using assms(1,3) by (simp add: turn_keeps_def keeps_inv_def)
  ultimately show ?thesis
    using poll_window_sound [of E g "tn_bg io n" io "s\<lparr> sy_next := h', sy_window := sy_window s @ xs \<rparr>" "[]" "sy_window s @ xs" force conn stop] assms(3)
    by (simp add: sync_turn_def f Let_def case_prod_unfold) (simp add: sound_def window_ok_def)
qed

lemma sync_turns_sound:
  "net_inv E g n \<Longrightarrow> window_ok s \<Longrightarrow> list_all (turn_keeps E g) ios \<Longrightarrow> sound E g (sync_turns E force conn stop ios n s)"
proof (induction ios arbitrary: n s)
  case (Cons io ios)
  obtain n1 s1 acts where t: "sync_turn E force conn stop io n s = (n1, s1, acts)" by (metis prod_cases3)
  have "net_inv E g n1 \<and> window_ok s1" using sync_turn_sound [OF Cons.prems(1,2), of io force conn stop] Cons.prems(3) t by (simp add: sound_def)
  then show ?case using Cons t by (simp add: case_prod_unfold) (simp add: sound_def)
qed (simp add: sound_def)

section \<open>The whole command\<close>

definition round_keeps :: "crypto_env \<Rightarrow> bool \<Rightarrow> round_io \<Rightarrow> bool" where
  "round_keeps E g io \<longleftrightarrow> list_all (turn_keeps E g) (rd_turns io) \<and> walk_keeps E g (rd_walk io)"

lemma after_window_ok:
  assumes "net_inv E g n" "round_keeps E g io"
  shows "net_inv E g (fst (after_window E force conn io localHeight peerHeight n s))"
proof -
  obtain n2 s2 where d: "(if sy_pooled s > 0 then (fst (attach_forced E (rd_drain io) force n), s\<lparr> sy_pooled := 0 \<rparr>) else (n, s)) = (n2, s2)" by fastforce
  have n2: "net_inv E g n2" using d assms(1) attach_forced_ok [OF prod.collapse [symmetric]] by (auto split: if_splits)
  obtain n3 acts found where w: "RequestForkWindow (rd_walk io) conn (of_nat (Chain_Size (g_chain (nn_node n2)))) n2 = (n3, acts, found)" by (metis prod_cases3)
  have n3: "net_inv E g n3" using ForkWindow_ok [OF w n2] assms(2) by (simp add: round_keeps_def)
  obtain n4 k where a: "attach_forced E (rd_probe io) force n3 = (n4, k)" by fastforce
  have "net_inv E g n4" by (rule attach_forced_ok [OF a n3])
  then show ?thesis using n2 n3 unfolding after_window_def d Let_def prod.case w by (cases found) (simp_all add: a)
qed

lemma sync_round_ok:
  assumes "net_inv E g n" "round_keeps E g io"
  shows "net_inv E g (fst (sync_round E force conn io peerHeight n s))"
proof -
  let ?h = "of_nat (Chain_Size (g_chain (nn_node n))) :: u64"
  let ?s = "s\<lparr> sy_next := ?h, sy_window := [], sy_prev := tip_hash_or E (replicate 32 0) n \<rparr>"
  obtain n1 s1 acts where t: "sync_turns E force conn peerHeight (rd_turns io) n ?s = (n1, s1, acts)" by (metis prod_cases3)
  have "sound E g (sync_turns E force conn peerHeight (rd_turns io) n ?s)"
    using assms by (intro sync_turns_sound) (simp_all add: window_ok_def round_keeps_def)
  then have "net_inv E g n1" using t by (simp add: sound_def)
  from after_window_ok [OF this assms(2)] show ?thesis
    using \<open>net_inv E g n1\<close> unfolding sync_round_def Let_def t prod.case by (simp add: case_prod_unfold)
qed

lemma sync_rounds_ok:
  "net_inv E g n \<Longrightarrow> list_all (round_keeps E g) ios \<Longrightarrow> net_inv E g (fst (sync_rounds E force conn ios peerHeight n s))"
proof (induction ios arbitrary: peerHeight n s)
  case (Cons io ios)
  have "net_inv E g (fst (sync_round E force conn io peerHeight n s))" using Cons.prems by (intro sync_round_ok) simp_all
  then show ?case using Cons by (simp add: case_prod_unfold)
qed simp

lemma sync_command_ok:
  assumes "net_inv E g n" "list_all (round_keeps E g) ios"
  shows "net_inv E g (fst (sync_command E force ios n))"
proof -
  have conns: "net_inv E g (m\<lparr> nn_conns := c \<rparr>)" if "net_inv E g m" for m c using that by (simp add: net_inv_def)
  have start: "net_inv E g (n\<lparr> nn_conns := c, nn_deliveries := Node_ResetBlockDeliveries \<rparr>)" for c
    using assms(1) reset_receipts_ok by (simp add: net_inv_def)
  note r = sync_rounds_ok [OF start assms(2)]
  show ?thesis
    using r conns [OF r] conns [OF assms(1)] by (simp add: sync_command_def case_prod_unfold Let_def split: prod.split option.split)
qed

section \<open>Draining the window\<close>

text \<open>The slots are the heights from \<open>a\<close> on, and the parent expected is the one of block \<open>a\<close>.\<close>

definition aligned :: "crypto_env \<Rightarrow> block_t list \<Rightarrow> u64 \<Rightarrow> nat \<Rightarrow> sync_state \<Rightarrow> bool" where
  "aligned E bs stop a s \<longleftrightarrow> map fs_height (sy_window s) = map of_nat [a..<unat (sy_next s)] \<and> a \<le> unat (sy_next s) \<and> sy_next s \<le> stop \<and>
     (a < length bs \<longrightarrow> sy_prev s = prevHash (header (bs ! a)))"

lemma fill_window_heights:
  "\<forall>k. w_sendOk (ws k) conn \<Longrightarrow> h \<le> stop \<Longrightarrow> fill_window ws conn stop k free h = (xs, h', acts) \<Longrightarrow>
     map fs_height xs = map of_nat [unat h..<unat h'] \<and> h \<le> h' \<and> h' \<le> stop \<and> (0 < free \<and> h < stop \<longrightarrow> h < h')"
proof (induction free arbitrary: k h xs acts)
  case (Suc free)
  show ?case
  proof (cases "h < stop")
    case True
    have lt: "h < h + 1" using word_less_Suc [OF True] .
    then have u: "unat (h + 1) = Suc (unat h)" by (simp add: word_less_nat_alt unat_word_ariths split: if_splits)
    have le: "h + 1 \<le> stop" using True u by (simp add: word_le_nat_alt word_less_nat_alt)
    obtain ys acts1 where r: "fill_window ws conn stop (Suc k) free (h + 1) = (ys, h', acts1)"
      "xs = \<lparr> fs_height = h, fs_retry = 0, fs_sent = w_now (ws k) \<rparr> # ys"
      using Suc.prems(1,3) True by (auto simp: send_fetch_cases split: prod.splits)
    note ih = Suc.IH [OF Suc.prems(1) le r(1)]
    have "h < h'" using ih lt by auto
    then have "unat h < unat h'" by (simp add: word_less_nat_alt)
    then show ?thesis using ih r(2) u \<open>h < h'\<close> by (simp add: upt_conv_Cons)
  next
    case False
    then show ?thesis using Suc.prems(2,3) by simp
  qed
qed simp

text \<open>A turn in which the requests go out and the chain holds \<open>bs\<close>.\<close>

definition chain_there :: "block_t list \<Rightarrow> nat \<Rightarrow> turn_io \<Rightarrow> bool" where
  "chain_there bs conn io \<longleftrightarrow> (\<forall>n. blocks (g_chain (nn_node (tn_bg io n))) = bs) \<and> (\<forall>k. w_sendOk (tn_fill io k) conn)"

lemma turn_drains:
  assumes "Chain_IsValid E (chain_of bs)" "unat stop \<le> length bs" "length bs < 2 ^ 64" "aligned E bs stop a s" "sync_active stop s" "chain_there bs conn io"
  shows "aligned E bs stop (Suc a) (fst (snd (sync_turn E force conn stop io n s)))" and "a < unat stop"
proof -
  let ?n = "tn_bg io n"
  obtain xs h' acts where f: "fill_window (tn_fill io) conn stop 0 (MAX_PARALLEL_FETCHES - length (sy_window s)) (sy_next s) = (xs, h', acts)"
    by (metis prod_cases3)
  have al: "map fs_height (sy_window s) = map of_nat [a..<unat (sy_next s)]" "a \<le> unat (sy_next s)" "sy_next s \<le> stop"
    using assms(4) by (simp_all add: aligned_def)
  have bs: "blocks (g_chain (nn_node ?n)) = bs" "\<forall>k. w_sendOk (tn_fill io k) conn" using assms(6) by (auto simp: chain_there_def)
  note fw = fill_window_heights [OF bs(2) al(3) f]
  have le: "unat (sy_next s) \<le> unat h'" "unat h' \<le> unat stop" using fw by (simp_all add: word_le_nat_alt)
  have w: "map fs_height (sy_window s @ xs) = map of_nat [a..<unat h']"
    using al(1,2) fw le(1) upt_add_eq_append [of a "unat (sy_next s)" "unat h' - unat (sy_next s)"] by simp
  have "sy_next s < h' \<or> sy_window s \<noteq> []" using assms(5) fw by (auto simp: sync_active_def MAX_PARALLEL_FETCHES_def)
  then have lt: "a < unat h'"
  proof
    assume "sy_window s \<noteq> []"
    then have "a < unat (sy_next s)" using al(1) by (metis Nil_is_map_conv not_less upt_conv_Nil)
    then show ?thesis using le(1) by simp
  qed (use al(2) in \<open>simp add: word_less_nat_alt\<close>)
  then show a: "a < unat stop" using le(2) by simp
  obtain x rest where x: "sy_window s @ xs = x # rest" using w lt by (cases "sy_window s @ xs") auto
  then have ne: "sy_window s = [] \<Longrightarrow> xs \<noteq> []" by auto
  have hx: "fs_height x = of_nat a" "map fs_height rest = map of_nat [Suc a..<unat h']" using w lt x by (simp_all add: upt_conv_Cons)
  have ab: "a < length bs" using a assms(2) by simp
  have ua: "unat (fs_height x) = a" using hx(1) unat_of_nat_64 [of a] ab assms(3) by simp
  have "(of_nat (Chain_Size (g_chain (nn_node ?n))) :: u64) > fs_height x"
    using ua ab unat_of_nat_64 [OF assms(3)] by (simp add: Chain_Size_def bs(1) word_less_nat_alt)
  moreover have "sy_prev s = prevHash (header (bs ! a))" using assms(4) ab by (simp add: aligned_def)
  moreover have "Chain_GetBlockCopy (g_chain (nn_node ?n)) a = Some (bs ! a)" using ab by (simp add: Chain_GetBlockCopy_def vec_get_def bs(1))
  ultimately have "fst (snd (sync_turn E force conn stop io n s)) =
      s\<lparr> sy_next := h', sy_window := rest, sy_prev := Block_CalculateHash E (bs ! a) \<rparr>"
    by (simp add: sync_turn_def f Let_def case_prod_unfold x slot_applied_def ua) (use ne in blast)
  moreover have "Suc a < length bs \<longrightarrow> Block_CalculateHash E (bs ! a) = prevHash (header (bs ! Suc a))"
    using assms(1) by (auto simp: Chain_IsValid_nth chain_of_def)
  ultimately show "aligned E bs stop (Suc a) (fst (snd (sync_turn E force conn stop io n s)))"
    using hx(2) lt fw by (simp add: aligned_def)
qed

lemma turns_drain:
  "Chain_IsValid E (chain_of bs) \<Longrightarrow> unat stop \<le> length bs \<Longrightarrow> length bs < 2 ^ 64 \<Longrightarrow> aligned E bs stop a s \<Longrightarrow>
     list_all (chain_there bs conn) ios \<Longrightarrow> unat stop - a \<le> length ios \<Longrightarrow>
     \<not> sync_active stop (fst (snd (sync_turns E force conn stop ios n s)))"
proof (induction ios arbitrary: a n s)
  case Nil
  then have "a = unat (sy_next s)" "unat (sy_next s) = unat stop" by (auto simp: aligned_def word_le_nat_alt)
  then show ?case using Nil.prems(4) by (simp add: sync_active_def aligned_def word_less_nat_alt)
next
  case (Cons io ios)
  show ?case
  proof (cases "sync_active stop s")
    case True
    obtain n1 s1 acts where t: "sync_turn E force conn stop io n s = (n1, s1, acts)" by (metis prod_cases3)
    have io: "chain_there bs conn io" "list_all (chain_there bs conn) ios" using Cons.prems(5) by simp_all
    have "aligned E bs stop (Suc a) s1" using turn_drains(1) [OF Cons.prems(1-4) True io(1), of force n] t by simp
    from Cons.IH [OF Cons.prems(1-3) this io(2)] show ?thesis using Cons.prems(6) True t by (simp add: case_prod_unfold)
  qed simp
qed

lemma turns_stuck:
  "sy_window s = [] \<Longrightarrow> sy_next s < stop \<Longrightarrow> list_all (\<lambda>io. \<forall>k. \<not> w_sendOk (tn_fill io k) conn) ios \<Longrightarrow>
     snd (sync_turns E force conn stop ios n s) = (s, [])"
proof (induction ios arbitrary: n)
  case (Cons io ios)
  have "sync_turn E force conn stop io n s = (tn_bg io n, s, [])"
    using Cons.prems by (simp add: sync_turn_def MAX_PARALLEL_FETCHES_def send_fetch_cases eval_nat_numeral Let_def)
  then show ?case using Cons by (simp add: sync_active_def case_prod_unfold)
qed simp

section \<open>Properties\<close>

text \<open>The network activity that a turn, a walk and a round leave room for consists of steps of the node's network.\<close>

definition walk_by_network :: "crypto_env \<Rightarrow> bool \<Rightarrow> walk_io \<Rightarrow> bool" where
  "walk_by_network E g io \<longleftrightarrow> (\<forall>j. list_all (by_network E g) (wk_wait io j))"

definition turn_by_network :: "crypto_env \<Rightarrow> bool \<Rightarrow> turn_io \<Rightarrow> bool" where
  "turn_by_network E g io \<longleftrightarrow> by_network E g (tn_bg io) \<and> walk_by_network E g (tn_walk io)"

definition round_by_network :: "crypto_env \<Rightarrow> bool \<Rightarrow> round_io \<Rightarrow> bool" where
  "round_by_network E g io \<longleftrightarrow> list_all (turn_by_network E g) (rd_turns io) \<and> walk_by_network E g (rd_walk io)"

lemma walk_network_keeps: "walk_by_network E g io \<Longrightarrow> \<forall>x. length (SHA256 E x) = 32 \<Longrightarrow> walk_keeps E g io"
  using by_network_keeps by (auto simp: walk_by_network_def walk_keeps_def list_all_iff)

lemma turn_network_keeps: "turn_by_network E g io \<Longrightarrow> \<forall>x. length (SHA256 E x) = 32 \<Longrightarrow> turn_keeps E g io"
  using by_network_keeps walk_network_keeps by (auto simp: turn_by_network_def turn_keeps_def)

lemma round_network_keeps: "round_by_network E g io \<Longrightarrow> \<forall>x. length (SHA256 E x) = 32 \<Longrightarrow> round_keeps E g io"
  using turn_network_keeps walk_network_keeps by (auto simp: round_by_network_def round_keeps_def list_all_iff)

lemma round_network_weaken: "round_by_network E g io \<Longrightarrow> (g' \<Longrightarrow> g) \<Longrightarrow> round_by_network E g' io"
  using by_network_weaken [of E g _ g']
  by (auto simp: round_by_network_def turn_by_network_def walk_by_network_def list_all_iff)

text \<open>
  C17: whatever the peer answers, in whatever order and however late, the window of the sync command never has
  more than eight requests outstanding, for strictly ascending heights below the next one to ask for, none
  repeated more than four times. Between the turns the network threads take any steps (packets of any content,
  failing saves included); the chain of the node stays valid. If these steps are fair (their saves succeed and
  their blocks pay nobody without an address) and the node was in step with its chain before, its ledger is the
  replay of its chain afterwards.
\<close>

theorem sync_window_invariant:
  assumes "net_inv E fair n" and "list_all (turn_by_network E fair) ios" and "sy_window s = []"
    and "sync_turns E forceSync conn stop ios n s = (n', s', acts)" and "\<forall>x. length (SHA256 E x) = 32"
  shows "length (sy_window s') \<le> 8 \<and> sorted_wrt (<) (map fs_height (sy_window s')) \<and>
    list_all (\<lambda>x. fs_height x < sy_next s' \<and> fs_retry x \<le> 4) (sy_window s') \<and>
    net_inv E fair n' \<and> Chain_IsValid E (g_chain (nn_node n')) \<and> (fair \<longrightarrow> synced (nn_node n'))"
proof -
  have "list_all (turn_keeps E fair) ios" using assms(2,5) turn_network_keeps by (auto simp: list_all_iff)
  then have "sound E fair (n', s', acts)"
    using sync_turns_sound [OF assms(1), of s ios forceSync conn stop] assms(3,4) by (simp add: window_ok_def)
  then have r: "net_inv E fair n'" "slots_ok (sy_next s') (sy_window s')" by (simp_all add: sound_simp)
  moreover have "chain_inv E (nn_node n')" using r(1) reached_chain by (auto simp: net_inv_def)
  moreover have "synced (nn_node n')" if fair using r(1) that reachable_inv by (auto simp: net_inv_def)
  ultimately show ?thesis
    by (simp add: slots_ok_def list_all_iff chain_inv_def MAX_PARALLEL_FETCHES_def MAX_SYNC_RETRIES_def)
qed

text \<open>
  C18: the walk to the fork point ends whatever the peer answers and whatever the network threads do to the
  node meanwhile. It asks for the heights from the top one downwards without a gap and without a repetition,
  at most 129 of them and none below zero, and sends nothing else.
\<close>

theorem RequestForkWindow_bounded:
  assumes "RequestForkWindow io conn topHeight n = (n', acts, found)"
  shows "\<exists>m. m \<le> 129 \<and> m \<le> Suc (unat topHeight) \<and>
    acts = map (\<lambda>i. Sent conn PACKET_TYPE_FETCH_BLOCK (le_bytes 8 (unat topHeight - i))) [0..<m]"
proof -
  let ?lo = "if topHeight > REORG_FETCH_DEPTH then topHeight - REORG_FETCH_DEPTH else 0 :: u64"
  have f: "fork_walk io conn 0 0 ?lo topHeight n = (n', acts, found)" using assms by (simp add: RequestForkWindow_def)
  have lo: "unat topHeight - unat ?lo \<le> 128" "?lo \<le> topHeight"
    by (auto simp: REORG_FETCH_DEPTH_def word_less_nat_alt word_le_nat_alt unat_sub)
  obtain m where "m \<le> Suc (unat topHeight - unat ?lo)" "acts = requests_down conn (unat topHeight) m"
    using fork_walk_requests [OF f lo(2)] by blast
  then show ?thesis using lo(1) by (intro exI [of _ m]) (simp add: requests_down_def)
qed

text \<open>
  The window loop ends once the blocks are there. Take a turn in which the network threads have brought
  the chain to the peer's height: from then on, while requests can be sent, every turn settles the lowest
  outstanding height, so after as many turns as there are heights left the loop is over.
\<close>

lemma sync_window_drains:
  assumes "Chain_IsValid E (chain_of bs)" and "unat stop \<le> length bs" and "length bs < 2 ^ 64"
    and "sy_window s = []" and "sy_next s \<le> stop" and "sy_next s < stop \<Longrightarrow> sy_prev s = prevHash (header (bs ! unat (sy_next s)))"
    and "list_all (chain_there bs conn) ios" and "unat stop - unat (sy_next s) \<le> length ios"
  shows "\<not> sync_active stop (fst (snd (sync_turns E forceSync conn stop ios n s)))"
proof (cases "sy_next s < stop")
  case True
  then have "aligned E bs stop (unat (sy_next s)) s" using assms(4-6) by (simp add: aligned_def)
  from turns_drain [OF assms(1-3) this assms(7,8)] show ?thesis .
next
  case False
  then show ?thesis using assms(4) by (cases ios) (simp_all add: sync_active_def)
qed

text \<open>
  C19: a sync from a peer that cannot be reached any more never ends. When nothing is outstanding, heights are
  left to ask for and no request can be sent, every turn leaves the loop exactly where it was, so that it is
  still active after any number of turns, and the command never gives control back.
\<close>

theorem sync_stuck_on_dead_peer:
  assumes "sy_window s = []" and "sy_next s < stop" and "list_all (\<lambda>io. \<forall>k. \<not> w_sendOk (tn_fill io k) conn) ios"
  shows "snd (sync_turns E forceSync conn stop ios n s) = (s, []) \<and> sync_active stop s"
  using turns_stuck [OF assms] assms(2) by (simp add: sync_active_def)

section \<open>Concrete runs\<close>

definition idle_walk :: walk_io where
  "idle_walk = \<lparr> wk_world = (\<lambda>_. quiet_world), wk_wait = (\<lambda>_. [id]) \<rparr>"

definition idle_turn :: turn_io where
  "idle_turn = \<lparr> tn_bg = id, tn_fill = (\<lambda>_. quiet_world), tn_retry = (\<lambda>_. quiet_world), tn_now = 0, tn_walk = idle_walk, tn_attach = (\<lambda>_ _. 0) \<rparr>"

definition dead_turn :: turn_io where
  "dead_turn = idle_turn\<lparr> tn_fill := (\<lambda>_. quiet_world\<lparr> w_sendOk := (\<lambda>_. False) \<rparr>) \<rparr>"

definition sync_start :: sync_state where
  "sync_start = \<lparr> sy_next = 0, sy_window = [], sy_prev = replicate 32 0, sy_located = False, sy_pooled = 0, sy_probes = 0 \<rparr>"

text \<open>A turn in which the peer's first block arrives.\<close>

definition deliver :: "net_node \<Rightarrow> net_node" where
  "deliver n = (if n = Node_Create quiet_world None then wire_node else n)"

definition block_turn :: turn_io where
  "block_turn = idle_turn\<lparr> tn_bg := deliver \<rparr>"

lemma deliver_network: "by_network easy_env True deliver"
  using net_steps_one [OF wire_node_step] by (auto simp: by_network_def deliver_def)

lemma block_turn_network: "turn_by_network easy_env True block_turn"
  using deliver_network by (simp add: turn_by_network_def walk_by_network_def block_turn_def idle_turn_def idle_walk_def) (simp add: by_network_def)

theorem sync_window_invariant_witness:
  "\<exists>n' s' acts. sync_turns easy_env False 1 3 [block_turn, idle_turn] (Node_Create quiet_world None) sync_start = (n', s', acts) \<and>
     length (sy_window s') \<le> 8 \<and> synced (nn_node n')"
proof -
  obtain n' s' acts where r: "sync_turns easy_env False 1 3 [block_turn, idle_turn] (Node_Create quiet_world None) sync_start = (n', s', acts)"
    by (metis prod_cases3)
  have "turn_by_network easy_env True idle_turn"
    by (simp add: turn_by_network_def walk_by_network_def idle_turn_def idle_walk_def by_network_def)
  then have "list_all (turn_by_network easy_env True) [block_turn, idle_turn]" using block_turn_network by simp
  from sync_window_invariant [OF Node_Create_ok this _ r easy_sha] r show ?thesis by (simp add: sync_start_def)
qed

theorem RequestForkWindow_bounded_witness:
  "\<exists>n' acts found m. RequestForkWindow idle_walk 1 200 (Node_Create quiet_world None) = (n', acts, found) \<and> m \<le> 129 \<and>
     acts = map (\<lambda>i. Sent 1 PACKET_TYPE_FETCH_BLOCK (le_bytes 8 (200 - i))) [0..<m]"
proof -
  obtain n' acts found where r: "RequestForkWindow idle_walk 1 200 (Node_Create quiet_world None) = (n', acts, found)" by (metis prod_cases3)
  from RequestForkWindow_bounded [OF r] r show ?thesis by auto
qed

theorem sync_stuck_on_dead_peer_witness:
  "sync_active 5 (fst (snd (sync_turns easy_env False 1 5 [dead_turn, dead_turn, dead_turn] (Node_Create quiet_world None) sync_start)))"
  using sync_stuck_on_dead_peer [of sync_start 5 1 "[dead_turn, dead_turn, dead_turn]" easy_env False "Node_Create quiet_world None"]
  by (simp add: sync_start_def dead_turn_def idle_turn_def del: sync_turns.simps)

end
