(* ===== verification/Node_Startup.thy ===== *)
theory Node_Startup
  imports Net_Sync
begin

text \<open>
  Start-up from stored files and the \<^verbatim>\<open>fullverify\<close> command of \<^verbatim>\<open>src/main.c\<close>. Start-up reads the headers, rebuilds
  supply and reward from the blocks on disk, reads the balance sheet and wipes everything when the headers do
  not link. The full verification re-derives every header and coinbase of the stored chain from genesis.
\<close>

section \<open>Full verification\<close>

text \<open>\<open>None\<close> when the C function answers false; the memo table of the chain may grow on the way.\<close>

definition ComputeHistoricalAutolykosHashFromChain ::
  "crypto_env \<Rightarrow> blockchain_t \<Rightarrow> block_t \<Rightarrow> nat \<Rightarrow> blockchain_t \<times> byte list option" where
  "ComputeHistoricalAutolykosHashFromChain E chain block blockHeight =
     (case Chain_DagParamsForHeightLocked E chain blockHeight of
        (chain', None) \<Rightarrow> (chain', None)
      | (chain', Some (dagBytes, seed)) \<Rightarrow>
          (chain', Autolykos2_LightHashAtHeight E seed (header_image (header block)) (nonce (header block))
                     (of_nat blockHeight) dagBytes))"

fun coinbase_fee_loop :: "signed_transaction_t list \<Rightarrow> u64 option \<Rightarrow> u64 \<Rightarrow> (u64 option \<times> u64) option" where
  "coinbase_fee_loop [] coinbaseAmount totalFees = Some (coinbaseAmount, totalFees)"
| "coinbase_fee_loop (tx # txs) coinbaseAmount totalFees =
     (if Address_IsCoinbase (senderAddress (transaction tx)) then
        (if coinbaseAmount \<noteq> None then None else coinbase_fee_loop txs (Some (amount1 (transaction tx))) totalFees)
      else if UINT64_MAX - totalFees < fee (transaction tx) then None
      else coinbase_fee_loop txs coinbaseAmount (totalFees + fee (transaction tx)))"

definition Block_GetCoinbaseAndFeeTotals :: "block_t \<Rightarrow> (u64 \<times> u64) option" where
  "Block_GetCoinbaseAndFeeTotals block =
     (case transactions block of
        None \<Rightarrow> None
      | Some txs \<Rightarrow>
          (case coinbase_fee_loop txs None 0 of
             Some (Some coinbaseAmount, totalFees) \<Rightarrow> Some (coinbaseAmount, totalFees)
           | _ \<Rightarrow> None))"

definition prev_hash_ok :: "crypto_env \<Rightarrow> blockchain_t \<Rightarrow> nat \<Rightarrow> block_t \<Rightarrow> bool" where
  "prev_hash_ok E chain i blk =
     (if i = 0 then prevHash (header blk) = replicate 32 0
      else (case Chain_GetBlockCopy chain (i - 1) of
              None \<Rightarrow> False
            | Some prevBlk \<Rightarrow> prevHash (header blk) = Block_CalculateHash E prevBlk))"

definition next_difficulty :: "blockchain_t \<Rightarrow> nat \<Rightarrow> u32 \<Rightarrow> u32" where
  "next_difficulty chain i expectedDifficulty =
     (if i < DIFFICULTY_ADJUSTMENT_INTERVAL then INITIAL_DIFFICULTY
      else if i mod DIFFICULTY_ADJUSTMENT_INTERVAL = 0 then Chain_ComputeTargetAtHeight chain i expectedDifficulty
      else expectedDifficulty)"

definition hash_meets_target :: "u32 \<Rightarrow> byte list option \<Rightarrow> bool" where
  "hash_meets_target bits powHash =
     (case powHash of
        None \<Rightarrow> False
      | Some h \<Rightarrow> (case DecodeCompactTarget bits of None \<Rightarrow> False | Some target \<Rightarrow> CompareHashToTarget h target \<le> 0))"

text \<open>
  One turn of the loop: the chain with its memo table, and on success the running supply and difficulty.
  The length of \<open>prevChain\<close>, a list of headers of which only the number is used, is \<open>i\<close>.
\<close>

definition verify_block ::
  "crypto_env \<Rightarrow> u64 \<Rightarrow> blockchain_t \<Rightarrow> nat \<Rightarrow> uint256_t \<Rightarrow> u32 \<Rightarrow> blockchain_t \<times> (uint256_t \<times> u32) option" where
  "verify_block E reward chain i replaySupply expectedDifficulty =
     (case Chain_GetBlockCopy chain i of
        None \<Rightarrow> (chain, None)
      | Some blk \<Rightarrow>
          if transactions blk = None then (chain, None)
          else if blockNumber (header blk) \<noteq> of_nat i then (chain, None)
          else if \<not> prev_hash_ok E chain i blk then (chain, None)
          else let expected = next_difficulty chain i expectedDifficulty in
            if difficultyTarget (header blk) \<noteq> expected then (chain, None)
            else (case ComputeHistoricalAutolykosHashFromChain E chain blk i of
                    (chain', powHash) \<Rightarrow>
                      if \<not> hash_meets_target (difficultyTarget (header blk)) powHash then (chain', None)
                      else let expectedReward = fst (CalculateBlockRewardAtHeight replaySupply (of_nat i) reward) in
                        if \<not> Block_AllTransactionsValid E blk then (chain', None)
                        else (case Block_GetCoinbaseAndFeeTotals blk of
                                None \<Rightarrow> (chain', None)
                              | Some (coinbaseAmount, totalFees) \<Rightarrow>
                                  if UINT64_MAX - expectedReward < totalFees \<or> coinbaseAmount \<noteq> expectedReward + totalFees
                                  then (chain', None)
                                  else if Block_CalculateMerkleRoot E blk \<noteq> Some (merkleRoot (header blk)) then (chain', None)
                                  else (chain', Some (fst (uint256_add_u64 replaySupply coinbaseAmount), expected)))))"

fun verify_loop :: "crypto_env \<Rightarrow> u64 \<Rightarrow> blockchain_t \<Rightarrow> nat list \<Rightarrow> uint256_t \<Rightarrow> u32 \<Rightarrow> bool" where
  "verify_loop E reward chain [] replaySupply expectedDifficulty = True"
| "verify_loop E reward chain (i # is) replaySupply expectedDifficulty =
     (case verify_block E reward chain i replaySupply expectedDifficulty of
        (chain', None) \<Rightarrow> False
      | (chain', Some (supply, difficulty)) \<Rightarrow> verify_loop E reward chain' is supply difficulty)"

definition VerifyChainFully :: "crypto_env \<Rightarrow> u64 \<Rightarrow> blockchain_t \<Rightarrow> bool" where
  "VerifyChainFully E reward chain =
     verify_loop E reward chain [0..<Chain_Size chain] (uint256_from_u64 0) INITIAL_DIFFICULTY"

text \<open>The command verifies the chain on disk; the running node is only asked for its current reward.\<close>

definition fullverify_command :: "crypto_env \<Rightarrow> u64 \<Rightarrow> chain_files \<Rightarrow> bool" where
  "fullverify_command E reward f =
     (case Chain_LoadFromFile f Chain_Create True of
        (verifyChain, out, loaded) \<Rightarrow> loaded \<and> VerifyChainFully E reward verifyChain)"

section \<open>Start-up\<close>

definition process_start :: "chain_files \<Rightarrow> node_state" where
  "process_start f =
     \<lparr> g_chain = Chain_Create, g_currentSupply = uint256_from_u64 0, g_currentReward = 750000000000,
       g_currentBlockHeight = 0, g_difficultyTarget = INITIAL_DIFFICULTY, g_sheetMap = BalanceSheet_Init,
       g_txMempool = TxMempool_Init, g_pow = pow_initial, disk = load_disk f \<rparr>"

text \<open>The globals keep their value where the metadata file ends before the field.\<close>

definition with_meta :: "load_out \<Rightarrow> node_state \<Rightarrow> node_state" where
  "with_meta out st =
     st\<lparr> g_currentSupply := (case outCurrentSupply out of None \<Rightarrow> g_currentSupply st | Some s \<Rightarrow> s),
         g_difficultyTarget := (case outDifficultyTarget out of None \<Rightarrow> g_difficultyTarget st | Some t \<Rightarrow> t),
         g_currentReward := (case outCurrentReward out of None \<Rightarrow> g_currentReward st | Some r \<Rightarrow> r) \<rparr>"

definition load_chain :: "chain_files \<Rightarrow> node_state \<Rightarrow> node_state" where
  "load_chain f st =
     (case Chain_LoadFromFile f (g_chain st) False of
        (chain', out, loaded) \<Rightarrow>
          let st1 = with_meta out (st\<lparr> g_chain := chain' \<rparr>)
          in if loaded then Chain_OnTipAdvanced (fst (Chain_RecomputeRuntimeState st1)) else st1)"

definition first_reward :: "node_state \<Rightarrow> node_state" where
  "first_reward st =
     (let effectivePhase1Blocks =
        (if PHASE1_TARGET_BLOCKS div EMISSION_ACCELERATION_FACTOR > 0
         then PHASE1_TARGET_BLOCKS div EMISSION_ACCELERATION_FACTOR else 1)
      in if of_nat (Chain_Size (g_chain st)) < effectivePhase1Blocks \<or> g_currentReward st = 0
         then st\<lparr> g_currentReward := fst (CalculateBlockRewardAtHeight (g_currentSupply st)
                                            (of_nat (Chain_Size (g_chain st))) (g_currentReward st)) \<rparr>
         else st)"

text \<open>The node and the files that \<^verbatim>\<open>main\<close> reaches its command loop with.\<close>

definition start_up :: "crypto_env \<Rightarrow> chain_files \<Rightarrow> byte list option \<Rightarrow> node_state \<times> chain_files \<times> byte list option" where
  "start_up E f sheetFile =
     (let st1 = load_chain f (process_start f);
          st2 = st1\<lparr> g_sheetMap := fst (BalanceSheet_LoadFromFile (g_sheetMap st1) sheetFile) \<rparr>;
          st3 = first_reward st2;
          st4 = st3\<lparr> g_chain := fst (Chain_DagParamsForHeightLocked E (g_chain st3) (Chain_Size (g_chain st3))) \<rparr>
      in if Chain_Size (g_chain st4) > 0 \<and> \<not> Chain_IsValid E (g_chain st4)
         then (wipechain st4, \<lparr> meta_file = None, data_file = None, table_file = None \<rparr>, None)
         else (st4, f, sheetFile))"

section \<open>The running values of the verification\<close>

lemma target_loop_snoc:
  "target_loop (Suc k) chain h t =
     Chain_ComputeTargetAtHeight chain (h + k * DIFFICULTY_ADJUSTMENT_INTERVAL) (target_loop k chain h t)"
proof (induction k arbitrary: h t)
  case (Suc k)
  have "target_loop (Suc (Suc k)) chain h t =
      Chain_ComputeTargetAtHeight chain (h + DIFFICULTY_ADJUSTMENT_INTERVAL + k * DIFFICULTY_ADJUSTMENT_INTERVAL)
        (target_loop k chain (h + DIFFICULTY_ADJUSTMENT_INTERVAL) (Chain_ComputeTargetAtHeight chain h t))"
    unfolding target_loop.simps(2) [of "Suc k"] by (rule Suc.IH)
  then show ?case by (simp only: target_loop.simps(2) mult_Suc add.assoc)
qed simp

lemma next_difficulty_target:
  assumes "0 < i"
  shows "next_difficulty chain i (Chain_GetTargetForHeight chain (i - 1)) = Chain_GetTargetForHeight chain i"
proof -
  let ?I = DIFFICULTY_ADJUSTMENT_INTERVAL
  have I: "0 < ?I" by (simp add: DIFFICULTY_ADJUSTMENT_INTERVAL_def)
  consider "i < ?I" | "?I \<le> i" "i mod ?I = 0" | "?I \<le> i" "i mod ?I \<noteq> 0" by linarith
  then show ?thesis
  proof cases
    case 2
    then obtain k where k: "i = Suc k * ?I" using assms I by (metis mod_0_imp_dvd dvd_def mult.commute not0_implies_Suc mult_0_right less_irrefl)
    then have "i - 1 = k * ?I + (?I - 1)" using I by simp
    then have "(i - 1) div ?I = k + (?I - 1) div ?I" using I div_mult_self1 [of ?I "?I - 1" k] by (metis add.commute mult.commute less_irrefl)
    then have "(i - 1) div ?I = k" using I by simp
    moreover have "i div ?I = Suc k" using k I by simp
    ultimately show ?thesis
      using 2 k target_loop_snoc [of k chain ?I INITIAL_DIFFICULTY] by (simp add: next_difficulty_def Chain_GetTargetForHeight_def del: target_loop.simps)
  next
    case 3
    then have "(i - 1) div ?I = i div ?I" using assms by (metis Suc_pred' div_Suc)
    then show ?thesis using 3 by (simp add: next_difficulty_def Chain_GetTargetForHeight_def)
  qed (simp add: next_difficulty_def Chain_GetTargetForHeight_def)
qed

definition difficulty_before :: "blockchain_t \<Rightarrow> nat \<Rightarrow> u32" where
  "difficulty_before chain i = (if i = 0 then INITIAL_DIFFICULTY else Chain_GetTargetForHeight chain (i - 1))"

lemma next_difficulty_before: "next_difficulty chain i (difficulty_before chain i) = Chain_GetTargetForHeight chain i"
  using next_difficulty_target [of i chain]
  by (cases "i = 0") (simp_all add: difficulty_before_def next_difficulty_def Chain_GetTargetForHeight_def DIFFICULTY_ADJUSTMENT_INTERVAL_def)

lemma ComputeTarget_take:
  "h \<le> i \<Longrightarrow> i \<le> length bs \<Longrightarrow> Chain_ComputeTargetAtHeight (chain_of (take i bs)) h t = Chain_ComputeTargetAtHeight (chain_of bs) h t"
  by (auto simp: Chain_ComputeTargetAtHeight_def chain_of_def vec_get_def DIFFICULTY_ADJUSTMENT_INTERVAL_def Let_def min_def)

lemma GetTarget_take:
  assumes "i \<le> length bs"
  shows "Chain_GetTargetForHeight (chain_of (take i bs)) i = Chain_GetTargetForHeight (chain_of bs) i"
proof -
  let ?I = DIFFICULTY_ADJUSTMENT_INTERVAL
  have "target_loop k (chain_of (take i bs)) ?I t = target_loop k (chain_of bs) ?I t" if "k * ?I \<le> i" for k t
    using that
  proof (induction k)
    case (Suc k)
    then have "?I + k * ?I \<le> i" by simp
    then show ?case
      using Suc ComputeTarget_take [OF _ assms] unfolding target_loop_snoc by (simp del: target_loop.simps)
  qed simp
  then show ?thesis by (simp add: Chain_GetTargetForHeight_def)
qed

lemma dag_params_take:
  assumes "i \<le> length bs"
  shows "dag_params_spec E (take i bs) i = dag_params_spec E bs i"
proof -
  let ?k = "i div EPOCH_LENGTH"
  have k: "?k * EPOCH_LENGTH \<le> i" by simp
  then have "dag_size_spec bs ?k = dag_size_spec (take i bs) ?k"
    using dag_size_spec_append [of ?k "take i bs" "drop i bs"] assms by simp
  moreover have "?k \<noteq> 0 \<Longrightarrow> ?k * EPOCH_LENGTH - 1 < i"
    using k by (metis EPOCH_LENGTH_def diff_less less_le_trans less_one mult_pos_pos neq0_conv not_le zero_less_numeral)
  moreover have "\<not> length (take i bs) < ?k * EPOCH_LENGTH" "\<not> length bs < ?k * EPOCH_LENGTH" using k assms by (simp_all only: length_take min_absorb2 not_less)
  ultimately show ?thesis by (simp add: dag_params_spec_def Let_def)
qed

lemma coinbase_fee_loop_sound:
  "coinbase_and_fees E ex txs (cb \<noteq> None) fees = Some f \<Longrightarrow>
     coinbase_fee_loop txs cb fees = Some (Some (case cb of None \<Rightarrow> ex | Some c \<Rightarrow> c), f)"
proof (induction txs arbitrary: cb fees)
  case (Cons tx txs)
  show ?case
  proof (cases "is_coinbase_tx tx")
    case True
    from coinbase_and_fees_coinbase [OF True Cons.prems]
    have "cb = None" "amount1 (transaction tx) = ex" "coinbase_and_fees E ex txs (Some ex \<noteq> None) fees = Some f" by auto
    then show ?thesis using Cons.IH [of "Some ex"] True by (simp add: is_coinbase_tx_def)
  next
    case False
    then show ?thesis using coinbase_and_fees_spend [OF False Cons.prems] Cons.IH [of cb] by (simp add: is_coinbase_tx_def)
  qed
qed (auto split: if_splits)

section \<open>A chain of accepted blocks verifies\<close>

lemma acceptable_facts:
  assumes "acceptable E bs bal ts reward block \<noteq> None"
  obtains txs dagBytes dagSeed fees where "transactions block = Some txs" "unat (blockNumber (header block)) = length bs"
    "0 < length bs \<longrightarrow> prevHash (header block) = Block_CalculateHash E (bs ! (length bs - 1))"
    "dag_params_spec E bs (length bs) = Some (dagBytes, dagSeed)"
    "Block_HasValidProofOfWorkWithParams E pow_initial block (blockNumber (header block) div of_nat EPOCH_LENGTH) dagBytes dagSeed"
    "difficultyTarget (header block) = Chain_GetTargetForHeight (chain_of bs) (length bs)"
    "\<not> UINT64_MAX - reward < fees" "coinbase_and_fees E (reward + fees) txs False 0 = Some fees"
proof -
  obtain txs where t: "transactions block = Some txs" using assms by (auto simp: acceptable_def split: option.splits)
  have x: "extends_tip E (chain_of bs) block" "spec_economics E bal ts reward block txs \<noteq> None"
    "difficultyTarget (header block) = Chain_GetTargetForHeight (chain_of bs) (length bs)"
    using assms t by (auto simp: acceptable_def split: if_splits)
  have n: "unat (blockNumber (header block)) = length bs" using x(1) by (simp add: extends_tip_def chain_of_def Let_def split: if_splits)
  have l: "0 < length bs \<longrightarrow> prevHash (header block) = Block_CalculateHash E (bs ! (length bs - 1))"
    using x(1) by (auto simp: extends_tip_def chain_of_def vec_get_def Let_def split: if_splits)
  have "case dag_params_spec E bs (length bs) of None \<Rightarrow> False | Some (dagBytes, dagSeed) \<Rightarrow>
      Block_HasValidProofOfWorkWithParams E pow_initial block (blockNumber (header block) div of_nat EPOCH_LENGTH) dagBytes dagSeed"
    using assms t n by (simp add: acceptable_def split: if_splits)
  then obtain dagBytes dagSeed where d: "dag_params_spec E bs (length bs) = Some (dagBytes, dagSeed)"
    "Block_HasValidProofOfWorkWithParams E pow_initial block (blockNumber (header block) div of_nat EPOCH_LENGTH) dagBytes dagSeed"
    by (auto split: option.splits)
  let ?fees = "of_nat (fees_of (fst (spec_select E bal txs))) :: u64"
  have "\<not> UINT64_MAX - reward < ?fees" "Block_ValidateCoinbaseAndFees E block (reward + ?fees) = Some ?fees"
    using x(2) by (auto simp: spec_economics_def Let_def split: if_splits)
  then show ?thesis using that [OF t n l d x(3)] t by (simp add: Block_ValidateCoinbaseAndFees_def)
qed

lemma ProofOfWork_initial:
  "Block_HasValidProofOfWorkWithParams E pow_initial block epochIndex dagBytes seed \<Longrightarrow>
     hash_meets_target (difficultyTarget (header block)) (Block_PowHashLight E block dagBytes seed)"
  by (auto simp: Block_HasValidProofOfWorkWithParams_def hash_meets_target_def Block_PowHashHeavy_def pow_initial_def dag_usable_def
      split: option.splits)

lemma supply_of_Suc:
  assumes "i < length bs" "transactions (bs ! i) = Some txs" "coinbase_payout (map transaction txs) = unat x"
    and "coinbase_payout (blocks_txs (take (Suc i) bs)) < TWO256"
  shows "fst (uint256_add_u64 (supply_of (take i bs)) x) = supply_of (take (Suc i) bs)"
proof -
  have p: "coinbase_payout (blocks_txs (take (Suc i) bs)) = coinbase_payout (blocks_txs (take i bs)) + unat x"
    using assms(1-3) by (simp add: take_Suc_conv_app_nth blocks_txs_def coinbase_payout_append)
  then have "coinbase_payout (blocks_txs (take i bs)) < TWO256" using assms(4) by simp
  then have "u256_val (fst (uint256_add_u64 (supply_of (take i bs)) x)) = u256_val (supply_of (take (Suc i) bs))"
    using p assms(4) uint256_add_u64_no_overflow(1) u256_of_nat_val by (simp add: supply_of_def)
  then show ?thesis by (rule u256_val_eq)
qed

lemma coinbase_and_fees_payout:
  assumes "coinbase_and_fees E ex txs False 0 = Some fees"
  shows "coinbase_payout (map transaction txs) = unat ex"
proof -
  obtain cb where cb: "filter is_coinbase_tx txs = [cb]" "amount1 (transaction cb) = ex" and ver: "\<forall>tx\<in>set txs. Transaction_Verify E tx"
    using coinbase_and_fees_sound [OF assms] by auto
  have "cb \<in> set (filter is_coinbase_tx txs)" using cb(1) by simp
  then have "amount2 (transaction cb) = 0" using ver Verify_amounts by fastforce
  then show ?thesis using cb by (simp add: coinbase_payout_txs payout_total_def)
qed

lemma validated_facts:
  assumes "validated E bs" "i < length bs"
  obtains txs dagBytes dagSeed fees where "transactions (bs ! i) = Some txs" "unat (blockNumber (header (bs ! i))) = i"
    "0 < i \<longrightarrow> prevHash (header (bs ! i)) = Block_CalculateHash E (bs ! (i - 1))"
    "dag_params_spec E bs i = Some (dagBytes, dagSeed)"
    "hash_meets_target (difficultyTarget (header (bs ! i))) (Block_PowHashLight E (bs ! i) dagBytes dagSeed)"
    "difficultyTarget (header (bs ! i)) = Chain_GetTargetForHeight (chain_of bs) i"
    "\<not> UINT64_MAX - reward_of (supply_of (take i bs)) (of_nat i) < fees"
    "coinbase_and_fees E (reward_of (supply_of (take i bs)) (of_nat i) + fees) txs False 0 = Some fees"
proof -
  have "acceptable E (take i bs) (ledger_of (take i bs)) (times_of (take i bs)) (reward_of (supply_of (take i bs)) (of_nat i)) (bs ! i) \<noteq> None"
    using assms by (simp add: validated_def)
  then obtain txs dagBytes dagSeed fees where f: "transactions (bs ! i) = Some txs" "unat (blockNumber (header (bs ! i))) = length (take i bs)"
    "0 < length (take i bs) \<longrightarrow> prevHash (header (bs ! i)) = Block_CalculateHash E (take i bs ! (length (take i bs) - 1))"
    "dag_params_spec E (take i bs) (length (take i bs)) = Some (dagBytes, dagSeed)"
    "Block_HasValidProofOfWorkWithParams E pow_initial (bs ! i) (blockNumber (header (bs ! i)) div of_nat EPOCH_LENGTH) dagBytes dagSeed"
    "difficultyTarget (header (bs ! i)) = Chain_GetTargetForHeight (chain_of (take i bs)) (length (take i bs))"
    "\<not> UINT64_MAX - reward_of (supply_of (take i bs)) (of_nat i) < fees"
    "coinbase_and_fees E (reward_of (supply_of (take i bs)) (of_nat i) + fees) txs False 0 = Some fees"
    by (rule acceptable_facts)
  have l: "length (take i bs) = i" using assms(2) by simp
  show ?thesis
    using that [OF f(1) _ _ _ ProofOfWork_initial [OF f(5)] _ f(7,8)] f(2-4,6) assms(2) dag_params_take [of i bs E] GetTarget_take [of i bs]
    unfolding l by simp
qed

lemma validated_payout:
  assumes "validated E bs" "i \<le> length bs"
  shows "coinbase_payout (blocks_txs (take i bs)) \<le> 2 ^ 64 * i"
  using assms(2)
proof (induction i)
  case (Suc i)
  obtain txs fees where t: "transactions (bs ! i) = Some txs"
    "coinbase_and_fees E (reward_of (supply_of (take i bs)) (of_nat i) + fees) txs False 0 = Some fees"
    using validated_facts [OF assms(1), of i] Suc.prems by (metis Suc_le_lessD)
  have "coinbase_payout (map transaction txs) < 2 ^ 64" using coinbase_and_fees_payout [OF t(2)] unat_lt_64 by simp
  then show ?case using Suc t(1) by (simp add: take_Suc_conv_app_nth blocks_txs_def coinbase_payout_append)
qed (simp add: blocks_txs_def coinbase_payout_def)

lemma validated_room: "validated E bs \<Longrightarrow> i \<le> length bs \<Longrightarrow> length bs < 2 ^ 64 \<Longrightarrow> coinbase_payout (blocks_txs (take i bs)) < TWO256"
proof -
  assume a: "validated E bs" "i \<le> length bs" "length bs < 2 ^ 64"
  have "2 ^ 64 * i \<le> 2 ^ 64 * 2 ^ 64" using a(2,3) by simp
  then have "coinbase_payout (blocks_txs (take i bs)) \<le> 2 ^ 64 * 2 ^ 64" using validated_payout [OF a(1,2)] by (rule order_trans [rotated])
  also have "\<dots> < TWO256" by (simp add: TWO256_def)
  finally show ?thesis .
qed

text \<open>What the network checks of a block before the chain sees it, and the parent of the first block.\<close>

definition well_built :: "crypto_env \<Rightarrow> block_t list \<Rightarrow> bool" where
  "well_built E bs \<longleftrightarrow> list_all (Block_HasValidStructure E) bs \<and> (bs = [] \<or> prevHash (header (hd bs)) = replicate 32 0)"

lemma verify_block_ok:
  assumes "validated E bs" "well_built E bs" "length bs < 2 ^ 64" "i < length bs" "blocks chain = bs" "dag_cache_ok chain"
  shows "\<exists>cache. verify_block E reward chain i (supply_of (take i bs)) (difficulty_before chain i) =
      (chain\<lparr> dagEpochs := cache \<rparr>, Some (supply_of (take (Suc i) bs), difficulty_before chain (Suc i))) \<and>
    dag_cache_ok (chain\<lparr> dagEpochs := cache \<rparr>)"
proof -
  let ?b = "bs ! i" and ?r = "reward_of (supply_of (take i bs)) (of_nat i)"
  obtain txs dagBytes dagSeed fees where f: "transactions ?b = Some txs" "unat (blockNumber (header ?b)) = i"
    "0 < i \<longrightarrow> prevHash (header ?b) = Block_CalculateHash E (bs ! (i - 1))" "dag_params_spec E bs i = Some (dagBytes, dagSeed)"
    "hash_meets_target (difficultyTarget (header ?b)) (Block_PowHashLight E ?b dagBytes dagSeed)"
    "difficultyTarget (header ?b) = Chain_GetTargetForHeight (chain_of bs) i" "\<not> UINT64_MAX - ?r < fees"
    "coinbase_and_fees E (?r + fees) txs False 0 = Some fees"
    by (rule validated_facts [OF assms(1,4)])
  obtain cache where c: "Chain_DagParamsForHeightLocked E chain i = (chain\<lparr> dagEpochs := cache \<rparr>, dag_params_spec E bs i)"
    "dag_cache_ok (chain\<lparr> dagEpochs := cache \<rparr>)"
    using DagParams_spec [OF assms(6), of E i] assms(5) by auto
  have bn: "blockNumber (header ?b) = of_nat i" using arg_cong [OF f(2), of "of_nat :: nat \<Rightarrow> u64"] by simp
  have copy: "Chain_GetBlockCopy chain i = Some ?b" using assms(4,5) by (simp add: Chain_GetBlockCopy_def vec_get_def)
  have ph: "prev_hash_ok E chain i ?b"
    using f(3) assms(2,4,5) by (auto simp: prev_hash_ok_def Chain_GetBlockCopy_def vec_get_def well_built_def hd_conv_nth)
  have tgt: "Chain_GetTargetForHeight chain i = difficultyTarget (header ?b)"
    unfolding f(6) by (rule GetTarget_blocks) (simp add: assms(5) chain_of_def)
  have pow: "ComputeHistoricalAutolykosHashFromChain E chain ?b i = (chain\<lparr> dagEpochs := cache \<rparr>, Block_PowHashLight E ?b dagBytes dagSeed)"
    by (simp add: ComputeHistoricalAutolykosHashFromChain_def c(1) f(4) Block_PowHashLight_def bn)
  have st: "Block_HasValidStructure E ?b" using assms(2,4) by (simp add: well_built_def list_all_length)
  have reward: "fst (CalculateBlockRewardAtHeight (supply_of (take i bs)) (of_nat i) reward) = ?r"
    using reward_settled validated_settled [OF assms(1), of i] assms(4) by simp
  have tot: "Block_GetCoinbaseAndFeeTotals ?b = Some (?r + fees, fees)"
    using coinbase_fee_loop_sound [of E "?r + fees" txs None 0 fees] f(8) by (simp add: Block_GetCoinbaseAndFeeTotals_def f(1))
  have sup: "fst (uint256_add_u64 (supply_of (take i bs)) (?r + fees)) = supply_of (take (Suc i) bs)"
    by (rule supply_of_Suc [OF assms(4) f(1) coinbase_and_fees_payout [OF f(8)] validated_room [OF assms(1) _ assms(3)]]) (use assms(4) in simp)
  have "difficulty_before chain (Suc i) = difficultyTarget (header ?b)" by (simp add: difficulty_before_def tgt)
  then show ?thesis
    using st f(1,5,7) c(2)
    by (intro exI [of _ cache]) (simp add: verify_block_def copy bn ph next_difficulty_before tgt pow reward tot sup Block_HasValidStructure_def)
qed

lemma verify_loop_ok:
  assumes "validated E bs" "well_built E bs" "length bs < 2 ^ 64"
  shows "i \<le> length bs \<Longrightarrow> blocks chain = bs \<Longrightarrow> dag_cache_ok chain \<Longrightarrow>
    verify_loop E reward chain [i..<length bs] (supply_of (take i bs)) (difficulty_before chain i)"
proof (induction "length bs - i" arbitrary: i chain)
  case (Suc k)
  then have i: "i < length bs" by simp
  obtain cache where v: "verify_block E reward chain i (supply_of (take i bs)) (difficulty_before chain i) =
      (chain\<lparr> dagEpochs := cache \<rparr>, Some (supply_of (take (Suc i) bs), difficulty_before chain (Suc i)))"
    "dag_cache_ok (chain\<lparr> dagEpochs := cache \<rparr>)"
    using verify_block_ok [OF assms i Suc.prems(2,3)] by blast
  have "difficulty_before (chain\<lparr> dagEpochs := cache \<rparr>) (Suc i) = difficulty_before chain (Suc i)" by (simp add: difficulty_before_def)
  moreover have "verify_loop E reward (chain\<lparr> dagEpochs := cache \<rparr>) [Suc i..<length bs] (supply_of (take (Suc i) bs))
      (difficulty_before (chain\<lparr> dagEpochs := cache \<rparr>) (Suc i))"
    using Suc.hyps(2) i Suc.prems(2) v(2) by (intro Suc.hyps(1)) simp_all
  ultimately show ?case using v(1) i by (simp add: upt_conv_Cons)
qed simp

lemma VerifyChainFully_ok:
  assumes "validated E bs" "well_built E bs" "length bs < 2 ^ 64" "blocks chain = bs" "dag_cache_ok chain"
  shows "VerifyChainFully E reward chain"
proof -
  have "supply_of (take 0 bs) = uint256_from_u64 0" by (simp add: supply_of_def blocks_txs_def coinbase_payout_def u256_of_nat_def uint256_from_u64_def)
  then show ?thesis
    using verify_loop_ok [OF assms(1-3) _ assms(4,5), of 0 reward] assms(4)
    by (simp add: VerifyChainFully_def Chain_Size_def difficulty_before_def)
qed

section \<open>The running reward is a fixed point of the reward rule\<close>

lemma inflation_again:
  "fst (GetInflationRateRewardAtHeight S h (fst (GetInflationRateRewardAtHeight S h g))) = fst (GetInflationRateRewardAtHeight S h g)"
  by (simp add: GetInflationRateRewardAtHeight_def Let_def)

lemma reward_two_ways: "(\<forall>g. CalculateBlockRewardAtHeight S h g = GetInflationRateRewardAtHeight S h g) \<or>
    (\<exists>r. \<forall>g. CalculateBlockRewardAtHeight S h g = (r, g))"
proof -
  have three: "(\<And>g. F g = (if a then I g else if b then I g else if c then (r, g) else I g)) \<Longrightarrow> (\<forall>g. F g = I g) \<or> (\<exists>r. \<forall>g. F g = (r, g))"
    for F I :: "u64 \<Rightarrow> u64 \<times> u64" and a b c r by simp
  show ?thesis by (rule three) (rule CalculateBlockRewardAtHeight_def [unfolded Let_def])
qed

lemma reward_again: "fst (CalculateBlockRewardAtHeight S h (fst (CalculateBlockRewardAtHeight S h g))) = fst (CalculateBlockRewardAtHeight S h g)"
  using reward_two_ways [of S h] inflation_again by auto

definition reward_ok :: "node_state \<Rightarrow> bool" where
  "reward_ok st \<longleftrightarrow> fst (CalculateBlockRewardAtHeight (g_currentSupply st) (of_nat (length (blocks (g_chain st)))) (g_currentReward st))
     = g_currentReward st"

lemma reward_okI:
  "g_currentReward st = fst (CalculateBlockRewardAtHeight (g_currentSupply st) (of_nat (length (blocks (g_chain st)))) g) \<Longrightarrow> reward_ok st"
  by (simp add: reward_ok_def reward_again)

lemma reward_ok_same:
  "reward_ok st \<Longrightarrow> blocks (g_chain st') = blocks (g_chain st) \<Longrightarrow> g_currentSupply st' = g_currentSupply st \<Longrightarrow>
     g_currentReward st' = g_currentReward st \<Longrightarrow> reward_ok st'"
  by (simp add: reward_ok_def)

lemma AddBlockLocked_reward:
  assumes "chain_inv E st" "synced st" "reward_ok st" "Chain_AddBlockLocked E st b = (st', ok)"
  shows "reward_ok st' \<or> (\<not> ok \<and> \<not> block_addressed b \<and> length (blocks (g_chain st)) < length (blocks (g_chain st')))"
proof (cases ok)
  case True
  obtain e where "appended E st b (the (transactions b)) e st'"
    using AddBlockLocked_True [OF assms(1) synced_coins [OF assms(2)]] assms(4) True by auto
  then have "reward_ok st'" by (intro reward_okI [where g = "g_currentReward st"]) (simp add: appended_def)
  then show ?thesis ..
next
  case False
  then have "Chain_AddBlockLocked E st b = (st', False)" using assms(4) by simp
  from AddBlockLocked_False [OF assms(1) synced_coins [OF assms(2)] this] show ?thesis
    using assms(3) False reward_ok_same [OF assms(3), of st'] by auto
qed

lemma add_blocks_reward:
  "add_blocks E st bs = (st', ok) \<Longrightarrow> chain_inv E st \<Longrightarrow> synced st \<Longrightarrow> reward_ok st \<Longrightarrow>
     reward_ok st' \<or> (\<not> ok \<and> \<not> list_all block_addressed bs \<and> length (blocks (g_chain st)) < length (blocks (g_chain st')))"
proof (induction bs arbitrary: st)
  case (Cons b bs)
  obtain st1 ok1 where l: "Chain_AddBlockLocked E st b = (st1, ok1)" by fastforce
  show ?case
  proof (cases ok1)
    case True
    then have r: "Chain_AddBlockLocked E st b = (st1, True)" "add_blocks E st1 bs = (st', ok)" using l Cons.prems(1) by simp_all
    have i: "chain_inv E st1" "synced st1"
      using AddBlockLocked_inv [OF Cons.prems(2) synced_coins [OF Cons.prems(3)] r(1)] AddBlockLocked_synced [OF Cons.prems(2,3) r(1)] by auto
    have "reward_ok st1" using AddBlockLocked_reward [OF Cons.prems(2-4) r(1)] by simp
    from Cons.IH [OF r(2) i this] show ?thesis using AddBlockLocked_blocks [OF Cons.prems(2,3) r(1)] by auto
  next
    case False
    then show ?thesis using AddBlockLocked_reward [OF Cons.prems(2-4) l] l Cons.prems(1) by auto
  qed
qed simp

lemma Rollback_reward:
  assumes "Chain_RollbackToHeightLocked E st h = (st', True)" "reward_ok st \<or> h < length (blocks (g_chain st))"
  shows "reward_ok st'"
proof (cases "length (blocks (g_chain st)) \<le> h")
  case True
  then show ?thesis using assms by (simp add: Chain_RollbackToHeightLocked_def)
next
  case False
  then show ?thesis
    using assms(1)
    by (intro reward_okI [where g = "g_currentReward st"])
      (auto simp: Chain_RollbackToHeightLocked_def Let_def Chain_InvalidateDagEpochs_def split: prod.splits option.splits)
qed

lemma swap_branch_reward:
  assumes "chain_inv E st" "synced st" "reward_ok st" "forkHeight \<le> length (blocks (g_chain st))" "list_all block_addressed snapshot"
    and "swap_branch E st forkHeight snapshot candidate = (st', ok)"
  shows "reward_ok st'"
proof -
  have h: "history_ok st forkHeight" using assms(2,4) history_ok_mono by (auto simp: synced_def Let_def)
  obtain st1 ok1 where r1: "Chain_RollbackToHeightLocked E st forkHeight = (st1, ok1)" by fastforce
  have f1: "ok1" "chain_inv E st1" "synced st1" "length (blocks (g_chain st1)) = forkHeight"
    using Rollback_synced [OF assms(1) h disjI2 [OF assms(2)] r1] assms(4) by auto
  have w1: "reward_ok st1" using Rollback_reward [of E st forkHeight st1] r1 f1(1) assms(3) by simp
  obtain st2 ok2 where r2: "add_blocks E st1 candidate = (st2, ok2)" by fastforce
  note f2 = add_blocks_facts [OF f1(2,3) r2] and w2 = add_blocks_reward [OF r2 f1(2,3) w1]
  obtain st3 ok3 where r3: "Chain_RollbackToHeightLocked E st2 forkHeight = (st3, ok3)" by fastforce
  show ?thesis
  proof (cases ok2)
    case True
    then show ?thesis using assms(6) r1 f1(1) r2 w2 by (simp add: swap_branch_def)
  next
    case False
    have "history_ok st2 forkHeight" using extends_history(2) [of st1 st2 forkHeight] f2 f1(3,4) by (simp add: synced_def Let_def)
    from Rollback_synced [OF conjunct1 [OF f2] this _ r3] have f3: "ok3" "chain_inv E st3" "synced st3" using f2 f1(4) by auto
    have w3: "reward_ok st3" using Rollback_reward [of E st2 forkHeight st3] r3 f3(1) w2 f1(4) by auto
    obtain st4 ok4 where r4: "add_blocks E st3 snapshot = (st4, ok4)" by fastforce
    have "st' = st4" using assms(6) r1 f1(1) r2 False r3 f3(1) r4 by (simp add: swap_branch_def)
    then show ?thesis using add_blocks_reward [OF r4 f3(2,3) w3] assms(5) by simp
  qed
qed

lemma OnTipAdvanced_reward: "reward_ok st \<Longrightarrow> reward_ok (Chain_OnTipAdvanced st)"
  by (erule reward_ok_same) (simp_all add: Chain_OnTipAdvanced_def)

lemma AddBlock_reward:
  assumes "chain_inv E st" "synced st" "reward_ok st" "Chain_AddBlock E st block = (st', ok)" "add_effect st st' ok \<noteq> Breaks"
  shows "reward_ok st'"
proof -
  obtain st1 where st1: "Chain_AddBlockLocked E st block = (st1, ok)" "st' = (if ok then Chain_OnTipAdvanced st1 else st1)"
    using AddBlock_Locked [OF assms(4)] by blast
  then show ?thesis
    using AddBlockLocked_reward [OF assms(1-3) st1(1)] assms(5) by (auto simp: add_effect_def intro: OnTipAdvanced_reward split: if_splits)
qed

lemma Rollback_step_reward:
  assumes "chain_inv E st" "synced st" "reward_ok st" "Chain_RollbackToHeight E st height = (st', ok)"
  shows "reward_ok st'"
proof -
  obtain st1 where st1: "Chain_RollbackToHeightLocked E st height = (st1, ok)" "st' = Chain_OnTipAdvanced st1"
    using assms(4) by (auto simp: Chain_RollbackToHeight_def Let_def split: prod.splits)
  have ok using RollbackToHeight_synced [OF assms(1,2,4)] by blast
  then show ?thesis using st1 Rollback_reward [of E st height st1] assms(3) by (auto intro: OnTipAdvanced_reward)
qed

lemma ReplaceBranch_reward:
  assumes "chain_inv E st" "synced st" "reward_ok st" "Chain_ReplaceBranch E now st forkHeight newBlocks observed bypass = (st', ok)"
  shows "reward_ok st'"
  using ReplaceBranch_cases [OF assms(4)]
proof
  assume r: "may_replace E now st forkHeight newBlocks observed bypass \<and>
    (\<exists>snapshot st1. snapshot_blocks st [forkHeight..<length (blocks (g_chain st))] = Some snapshot \<and>
      swap_branch E st forkHeight snapshot newBlocks = (st1, ok) \<and> st' = Chain_OnTipAdvanced st1)"
  then obtain snapshot st1 where s: "snapshot_blocks st [forkHeight..<length (blocks (g_chain st))] = Some snapshot"
    "swap_branch E st forkHeight snapshot newBlocks = (st1, ok)" "st' = Chain_OnTipAdvanced st1" by blast
  have le: "forkHeight \<le> length (blocks (g_chain st))" using r by (simp add: may_replace_def)
  have "list_all block_addressed snapshot"
    using snapshot_addressed [OF _ s(1)] assms(2) by (simp add: synced_def Let_def)
  from swap_branch_reward [OF assms(1-3) le this s(2)] show ?thesis using s(3) OnTipAdvanced_reward by simp
qed (use assms(3) OnTipAdvanced_reward in auto)

lemma node_step_reward:
  "node_step E e st st' \<Longrightarrow> chain_inv E st \<Longrightarrow> e = Restarts \<or> synced st \<and> reward_ok st \<Longrightarrow> e \<noteq> Breaks \<Longrightarrow> reward_ok st'"
proof (induction rule: node_step.induct)
  case (step_add st block st' ok)
  then show ?case using AddBlock_reward by (auto simp: add_effect_def split: if_splits)
next
  case (step_rollback st height st' ok)
  then show ?case using Rollback_step_reward by blast
next
  case (step_replace now st forkHeight newBlocks observed bypass st' ok)
  then show ?case using ReplaceBranch_reward by blast
next
  case (step_params st height)
  obtain cache where "fst (Chain_DagParamsForHeightLocked E (g_chain st) height) = (g_chain st)\<lparr> dagEpochs := cache \<rparr>"
    using DagParams_spec [of "g_chain st" E height] step_params.prems(1) by (auto simp: chain_inv_def)
  then show ?case using step_params.prems(2) by (auto intro: reward_ok_same)
next
  case (step_wipe st)
  show ?case
    by (rule reward_okI [where g = "g_currentReward st"]) (simp add: wipechain_def Chain_Wipe_def Chain_ClearBlocks_def Chain_InvalidateDagEpochs_def Chain_Size_def Let_def)
next
  case (step_save io f st chain' f' ok)
  obtain bs where "chain' = (g_chain st)\<lparr> blocks := bs \<rparr>" "map strip bs = map strip (blocks (g_chain st))"
    using SaveToFile_strips [OF step_save.hyps(1)] by blast
  moreover have "reward_ok st" using step_save.prems(2) by (auto split: if_splits)
  ultimately show ?case using map_eq_imp_length_eq [of strip bs strip "blocks (g_chain st)"] by (simp add: reward_ok_def)
qed (auto intro: reward_ok_same)

lemma reachable_reward: "reachable E st \<Longrightarrow> reward_ok st"
proof -
  have "node_run E c st \<Longrightarrow> c \<longrightarrow> reward_ok st" for c st
  proof (induction rule: node_run.induct)
    case run_start
    show ?case using reward_okI [where g = 750000000000] by (simp add: fresh_node_def Chain_Size_def Chain_Create_def)
  next
    case (run_step c st e st')
    then show ?case using node_step_reward [OF run_step.hyps(2)] node_run_inv [OF run_step.hyps(1)] by (cases e) auto
  qed
  then show "reachable E st \<Longrightarrow> reward_ok st" by (auto simp: reached_def)
qed

section \<open>What start-up rebuilds\<close>

lemma coinbase_supply_val:
  "\<forall>tx\<in>set txs. replayable (transaction tx) \<Longrightarrow> u256_val s + coinbase_payout (map transaction txs) < TWO256 \<Longrightarrow>
     \<exists>s'. coinbase_supply s txs = Some s' \<and> u256_val s' = u256_val s + coinbase_payout (map transaction txs)"
proof (induction txs arbitrary: s)
  case (Cons tx txs)
  let ?t = "transaction tx"
  show ?case
  proof (cases "Address_IsCoinbase (senderAddress ?t)")
    case True
    have p: "coinbase_payout (map transaction (tx # txs)) = unat (amount1 ?t) + coinbase_payout (map transaction txs)"
      using Cons.prems(1) True by (simp add: coinbase_payout_def payout_total_def replayable_def)
    then have "u256_val s + unat (amount1 ?t) < TWO256" using Cons.prems(2) by simp
    note a = uint256_add_u64_no_overflow [OF this]
    have "\<exists>s'. coinbase_supply (fst (uint256_add_u64 s (amount1 ?t))) txs = Some s' \<and>
        u256_val s' = u256_val (fst (uint256_add_u64 s (amount1 ?t))) + coinbase_payout (map transaction txs)"
      using Cons.prems p a by (intro Cons.IH) simp_all
    then show ?thesis using True p a by (auto simp: case_prod_unfold)
  next
    case False
    then have "coinbase_payout (map transaction (tx # txs)) = coinbase_payout (map transaction txs)" by (simp add: coinbase_payout_def)
    then show ?thesis using Cons False by simp
  qed
qed (simp add: coinbase_payout_def)

lemma recompute_supply_val:
  "\<forall>i\<in>set ixs. Chain_BorrowBlockTransactions st i \<noteq> None \<Longrightarrow> \<forall>tx\<in>set (concat (map (block_txs st) ixs)). replayable (transaction tx) \<Longrightarrow>
     u256_val s + coinbase_payout (map transaction (concat (map (block_txs st) ixs))) < TWO256 \<Longrightarrow>
     \<exists>s'. recompute_supply st ixs s = Some s' \<and>
       u256_val s' = u256_val s + coinbase_payout (map transaction (concat (map (block_txs st) ixs)))"
proof (induction ixs arbitrary: s)
  case (Cons i ixs)
  obtain b where b: "Chain_BorrowBlockTransactions st i = Some b" using Cons.prems(1) by auto
  then have t: "(case transactions b of None \<Rightarrow> [] | Some txs \<Rightarrow> txs) = block_txs st i" by (simp add: block_txs_def)
  have room: "u256_val s + coinbase_payout (map transaction (block_txs st i)) < TWO256" using Cons.prems(3) by (simp add: coinbase_payout_append)
  have "\<forall>tx\<in>set (block_txs st i). replayable (transaction tx)" using Cons.prems(2) by simp
  from coinbase_supply_val [OF this room] obtain s1 where s1: "coinbase_supply s (block_txs st i) = Some s1"
    "u256_val s1 = u256_val s + coinbase_payout (map transaction (block_txs st i))" by blast
  have "\<exists>s'. recompute_supply st ixs s1 = Some s' \<and> u256_val s' = u256_val s1 + coinbase_payout (map transaction (concat (map (block_txs st) ixs)))"
    using Cons.prems s1 by (intro Cons.IH) (simp_all add: coinbase_payout_append)
  then show ?case using b t s1 by (auto simp: coinbase_payout_append)
qed (simp add: coinbase_payout_def)

lemma Recompute_history:
  assumes "history_ok st (length (blocks (g_chain st)))" "chain_size (g_chain st) = length (blocks (g_chain st))"
    and "length (blocks (g_chain st)) \<le> 2 ^ 64"
    and "u256_val S = coinbase_payout (map transaction (chain_history st (length (blocks (g_chain st)))))"
  shows "Chain_RecomputeRuntimeState st =
    (st\<lparr> g_currentSupply := S,
         g_currentReward := fst (CalculateBlockRewardAtHeight S (of_nat (length (blocks (g_chain st)))) (g_currentReward st)) \<rparr>, True)"
proof -
  let ?n = "length (blocks (g_chain st))"
  have z: "u256_val (uint256_from_u64 0) = 0" by (simp add: uint256_from_u64_val)
  have "2 ^ 64 * ?n \<le> 2 ^ 64 * 2 ^ 64" using assms(3) by simp
  then have "coinbase_payout (map transaction (chain_history st ?n)) < TWO256"
    using history_payout [OF assms(1)] by (simp add: TWO256_def)
  then obtain s' where s': "recompute_supply st [0..<?n] (uint256_from_u64 0) = Some s'"
    "u256_val s' = coinbase_payout (map transaction (chain_history st ?n))"
    using recompute_supply_val [of "[0..<?n]" st "uint256_from_u64 0"] assms(1) by (auto simp: chain_history_def history_ok_def readable_def z)
  then have "s' = S" using assms(4) u256_val_eq by simp
  then show ?thesis using s'(1) assms(2) by (simp add: Chain_RecomputeRuntimeState_def)
qed

text \<open>
  The addresses in the sheet are \<open>uint8_t[32]\<close> arrays, and a walk over the hash map visits every one of them.
\<close>

definition sheet_walk :: "net_world \<Rightarrow> sheet \<Rightarrow> bool" where
  "sheet_walk w s \<longleftrightarrow> (case s of None \<Rightarrow> False | Some m \<Rightarrow> set (w_sheetOrder w s) = dom m \<and> (\<forall>a\<in>dom m. length a = 32))"

lemma saved_files:
  assumes "net_ok E n" "persist_node E w k n = (n', Saved True f')" "files_fit f'" "\<forall>x. length (SHA256 E x) = 32"
  shows "Chain_LoadFromFile f' chain False =
      ((Chain_ClearBlocks chain)\<lparr> blocks := map strip (blocks (g_chain (nn_node n))), chain_size := length (blocks (g_chain (nn_node n))) \<rparr>,
       \<lparr> outLastSavedHash = Some (fst (tip_fields E (blocks (g_chain (nn_node n))))), outCurrentSupply = Some (g_currentSupply (nn_node n)),
         outDifficultyTarget = Some (snd (tip_fields E (blocks (g_chain (nn_node n))))), outCurrentReward = Some (g_currentReward (nn_node n)) \<rparr>, True)"
    and "nn_files n' = f'" "nn_node n' = (nn_node n)\<lparr> g_chain := (g_chain (nn_node n))\<lparr> blocks := map strip (blocks (g_chain (nn_node n))) \<rparr>, disk := load_disk f' \<rparr>"
proof -
  let ?st = "nn_node n" and ?bs = "blocks (g_chain (nn_node n))"
  obtain chain' g ok where s0: "Chain_SaveToFile E (w_io w k) (nn_files n) (g_chain ?st) (g_currentSupply ?st) (g_currentReward ?st) = (chain', g, ok)"
    using prod_cases3 by blast
  then have e: "g = f'" "ok" "nn_files n' = f'" "nn_node n' = ?st\<lparr> g_chain := chain', disk := load_disk f' \<rparr>"
    using assms(2) by (auto simp: persist_node_def Let_def)
  note s = s0 [unfolded e(1) eqTrueI [OF e(2)]]
  have h: "disk ?st = load_disk (nn_files n)" "list_all block_wf ?bs" "servable ?st" using assms(1) by (simp_all add: net_ok_iff servable_def)
  note len = save_length [OF s h(2) assms(3)]
  note hold = SaveToFile_holds [OF s h(2) len spec [OF assms(4)]]
  then obtain fbs where fbs: "length fbs = length ?bs" "\<forall>j<length fbs. stored (nn_files n) j (?bs ! j) = Some (fbs ! j)" "list_all whole fbs" "holds f' fbs"
    by blast
  have "header (fbs ! j) = header (?bs ! j)" if j: "j < length ?bs" for j
  proof -
    have "Chain_BorrowBlockTransactions ?st j = Some (fbs ! j)" using stored_borrow [OF h(1) j] fbs(1,2) j by simp
    then show ?thesis using h(3) j by (auto simp: servable_def)
  qed
  then have "map strip fbs = map strip ?bs" using fbs(1) by (intro nth_equalityI) (simp_all add: strip_eq)
  then show "Chain_LoadFromFile f' chain False =
      ((Chain_ClearBlocks chain)\<lparr> blocks := map strip ?bs, chain_size := length ?bs \<rparr>,
       \<lparr> outLastSavedHash = Some (fst (tip_fields E ?bs)), outCurrentSupply = Some (g_currentSupply ?st),
         outDifficultyTarget = Some (snd (tip_fields E ?bs)), outCurrentReward = Some (g_currentReward ?st) \<rparr>, True)"
    using LoadFromFile_holds [OF fbs(4) files_fit_fits [OF assms(3) fbs(4)] fbs(3) conjunct1 [OF conjunct2 [OF hold]], of chain False] fbs(1) by simp
  show "nn_files n' = f'" "nn_node n' = ?st\<lparr> g_chain := (g_chain ?st)\<lparr> blocks := map strip ?bs \<rparr>, disk := load_disk f' \<rparr>"
    using e(3,4) hold by (simp_all add: strip_def [abs_def])
qed

lemma first_reward_ok: "reward_ok st \<Longrightarrow> first_reward st = st"
  by (simp add: first_reward_def Let_def reward_ok_def Chain_Size_def)

lemma start_up_saved:
  assumes "net_ok E n" "persist_node E w k n = (n', Saved True f')" "files_fit f'" "\<forall>x. length (SHA256 E x) = 32"
    and "sheet_walk w (g_sheetMap (nn_node n))" "BalanceSheet_SaveToFile (w_sheetIo w k) (nn_sheetFile n) (g_sheetMap (nn_node n)) (w_sheetOrder w (g_sheetMap (nn_node n))) =
      (nn_sheetFile n', True)"
  shows "\<exists>cache. start_up E (nn_files n') (nn_sheetFile n') =
      ((nn_node n')\<lparr> g_chain := (g_chain (nn_node n'))\<lparr> dagEpochs := cache \<rparr>, g_currentBlockHeight := 0,
         g_difficultyTarget := Chain_GetTargetForHeight (g_chain (nn_node n')) (length (blocks (g_chain (nn_node n')))),
         g_txMempool := TxMempool_Init, g_pow := pow_initial \<rparr>, nn_files n', nn_sheetFile n') \<and>
    dag_cache_ok ((g_chain (nn_node n'))\<lparr> dagEpochs := cache \<rparr>)"
proof -
  let ?st = "nn_node n" and ?st' = "nn_node n'" and ?bs = "blocks (g_chain (nn_node n))"
  note f = saved_files [OF assms(1-4)]
  have ok: "net_ok E n'" using persist_node_facts(1) [OF assms(1,2) _ assms(4)] assms(3) by simp
  then have inv: "chain_inv E ?st'" "synced ?st'" "reward_ok ?st'" using reachable_inv reachable_reward by (auto simp: net_ok_iff)
  let ?c = "\<lparr> blocks = map strip ?bs, chain_size = length ?bs, dagEpochs = [] \<rparr>"
  have c: "(Chain_ClearBlocks Chain_Create)\<lparr> blocks := map strip ?bs, chain_size := length ?bs \<rparr> = ?c"
    by (simp add: Chain_ClearBlocks_def Chain_InvalidateDagEpochs_def Chain_Create_def)
  define st1 where "st1 = (process_start f')\<lparr> g_chain := ?c, g_currentSupply := g_currentSupply ?st,
      g_difficultyTarget := snd (tip_fields E ?bs), g_currentReward := g_currentReward ?st \<rparr>"
  have b1: "blocks (g_chain st1) = blocks (g_chain ?st')" "disk st1 = disk ?st'" by (simp_all add: st1_def process_start_def f(3))
  have hist: "\<forall>i < length (blocks (g_chain st1)). Chain_BorrowBlockTransactions st1 i = Chain_BorrowBlockTransactions ?st' i"
    unfolding Chain_BorrowBlockTransactions_def b1 by simp
  have "history_ok st1 (length (blocks (g_chain st1)))" "u256_val (g_currentSupply ?st) = coinbase_payout (map transaction (chain_history st1 (length (blocks (g_chain st1)))))"
    using inv(2) history_cong [OF hist] by (simp_all add: synced_def Let_def b1 f(3))
  moreover have "chain_size (g_chain st1) = length (blocks (g_chain st1))" by (simp add: st1_def)
  moreover have "length (blocks (g_chain st1)) \<le> 2 ^ 64" using inv(1) b1 by (simp add: chain_inv_def)
  ultimately have "Chain_RecomputeRuntimeState st1 = (st1\<lparr> g_currentSupply := g_currentSupply ?st,
      g_currentReward := fst (CalculateBlockRewardAtHeight (g_currentSupply ?st) (of_nat (length (blocks (g_chain st1)))) (g_currentReward st1)) \<rparr>, True)"
    by (intro Recompute_history) simp_all
  then have rec: "fst (Chain_RecomputeRuntimeState st1) = st1" using inv(3) by (simp add: reward_ok_def b1(1) f(3)) (simp add: st1_def)
  have load: "load_chain f' (process_start f') = Chain_OnTipAdvanced st1"
    using rec f(1) [of Chain_Create, unfolded c] by (simp add: load_chain_def process_start_def with_meta_def st1_def)
  obtain m where m: "g_sheetMap ?st = Some m" "map_wf m" using inv(2) by (auto simp: synced_def Let_def sheet_inv_def f(3))
  have sheet: "fst (BalanceSheet_LoadFromFile BalanceSheet_Init (nn_sheetFile n')) = g_sheetMap ?st"
    using BalanceSheet_save_load [OF m(2), of "w_sheetOrder w (Some m)"] assms(5,6) m(1) by (simp add: sheet_walk_def)
  define st2 where "st2 = (Chain_OnTipAdvanced st1)\<lparr> g_sheetMap := g_sheetMap ?st \<rparr>"
  have rw: "first_reward st2 = st2"
    by (rule first_reward_ok, rule reward_ok_same [OF inv(3)]) (simp_all add: st2_def Chain_OnTipAdvanced_def b1 f(3), simp_all add: st1_def)
  have v: "dag_cache_ok (g_chain st2)" by (simp add: st2_def Chain_OnTipAdvanced_def st1_def dag_cache_ok_def cache_ok_def)
  obtain cache where cache: "fst (Chain_DagParamsForHeightLocked E (g_chain st2) (Chain_Size (g_chain st2))) = (g_chain st2)\<lparr> dagEpochs := cache \<rparr>"
    "dag_cache_ok ((g_chain st2)\<lparr> dagEpochs := cache \<rparr>)"
    using DagParams_spec [OF v, of E "Chain_Size (g_chain st2)"] by auto
  let ?st3 = "st2\<lparr> g_chain := (g_chain st2)\<lparr> dagEpochs := cache \<rparr> \<rparr>"
  have valid: "Chain_IsValid E (g_chain ?st3)"
    using inv(1) IsValid_blocks [of "g_chain ?st3" "g_chain ?st'" E] b1(1) by (simp add: chain_inv_def st2_def Chain_OnTipAdvanced_def)
  have "g_sheetMap (Chain_OnTipAdvanced st1) = BalanceSheet_Init" by (simp add: Chain_OnTipAdvanced_def st1_def process_start_def)
  then have "start_up E f' (nn_sheetFile n') = (?st3, f', nn_sheetFile n')"
    using valid unfolding start_up_def Let_def load by (simp add: sheet rw cache(1) flip: st2_def)
  moreover have "?st3 = ?st'\<lparr> g_chain := (g_chain ?st')\<lparr> dagEpochs := cache \<rparr>, g_currentBlockHeight := 0,
      g_difficultyTarget := Chain_GetTargetForHeight (g_chain ?st') (length (blocks (g_chain ?st'))), g_txMempool := TxMempool_Init, g_pow := pow_initial \<rparr>"
    using inv(1) GetTarget_blocks [of ?c "g_chain ?st'"]
    by (simp add: st2_def Chain_OnTipAdvanced_def st1_def process_start_def f(3) Chain_Size_def chain_inv_def)
  moreover have "dag_cache_ok ((g_chain ?st')\<lparr> dagEpochs := cache \<rparr>)"
    using cache(2) by (simp add: dag_cache_ok_def st2_def Chain_OnTipAdvanced_def b1)
  ultimately show ?thesis using f(2) by auto
qed

section \<open>Properties\<close>

text \<open>
  A node that is stopped after a flush and started again is the node it was. Start-up from the files of a
  successful flush finds the same headers, can read the same transactions, has the same balances and replay
  guards, the same supply and reward and the target the next block must meet; its chain is valid and its
  ledger the replay of it. Only the pool, the memo tables and the mining DAG start empty.
\<close>

lemma restart_restores_node:
  assumes "net_ok E n" and "FlushChainAndSheet E w k n = (n', acts, True)" and "saves_ok acts" and "\<forall>x. length (SHA256 E x) = 32"
    and "sheet_walk w (g_sheetMap (nn_node n))" and "start_up E (nn_files n') (nn_sheetFile n') = (st', f', sheetFile')"
  shows "let st = nn_node n; len = length (blocks (g_chain st)) in
    map header (blocks (g_chain st')) = map header (blocks (g_chain st)) \<and>
    (\<forall>i<len. Chain_BorrowBlockTransactions st' i = Chain_BorrowBlockTransactions st i) \<and>
    g_sheetMap st' = g_sheetMap st \<and> g_currentSupply st' = g_currentSupply st \<and> g_currentReward st' = g_currentReward st \<and>
    g_difficultyTarget st' = Chain_GetTargetForHeight (g_chain st') len \<and>
    chain_inv E st' \<and> synced st' \<and> f' = nn_files n' \<and> sheetFile' = nn_sheetFile n'"
proof -
  let ?st = "nn_node n" and ?st' = "nn_node n'"
  obtain a where p: "persist_node E w k n = (n', a)" "acts = [a]"
    "snd (BalanceSheet_SaveToFile (w_sheetIo w k) (nn_sheetFile n) (g_sheetMap ?st) (w_sheetOrder w (g_sheetMap ?st)))"
    using assms(2) by (auto simp: FlushChainAndSheet_def split: prod.splits)
  obtain g where g: "a = Saved True g" "files_fit g"
    using p assms(2,3) by (cases a) (auto simp: FlushChainAndSheet_def)
  have "BalanceSheet_SaveToFile (w_sheetIo w k) (nn_sheetFile n) (g_sheetMap ?st) (w_sheetOrder w (g_sheetMap ?st)) = (nn_sheetFile n', True)"
    using p(1,3) by (auto simp: prod_eq_iff persist_node_def Let_def split: prod.splits)
  from start_up_saved [OF assms(1) p(1) [unfolded g(1)] g(2) assms(4,5) this]
  obtain cache where st': "st' = ?st'\<lparr> g_chain := (g_chain ?st')\<lparr> dagEpochs := cache \<rparr>, g_currentBlockHeight := 0,
      g_difficultyTarget := Chain_GetTargetForHeight (g_chain ?st') (length (blocks (g_chain ?st'))),
      g_txMempool := TxMempool_Init, g_pow := pow_initial \<rparr>" "dag_cache_ok (g_chain st')"
    "f' = nn_files n'" "sheetFile' = nn_sheetFile n'" using assms(6) by auto
  have s: "saves_ok [a]" using g by simp
  note q = persist_node_facts [OF assms(1) p(1) s assms(4)] and f = saved_files(3) [OF assms(1) p(1) [unfolded g(1)] g(2) assms(4)]
  have inv: "chain_inv E ?st'" "synced ?st'" using q(1) reachable_inv by (auto simp: net_ok_iff)
  have b: "Chain_BorrowBlockTransactions st' i = Chain_BorrowBlockTransactions ?st' i" for i
    by (rule borrow_same) (simp_all add: st'(1))
  have "synced (with_cache ?st' cache)" by (rule synced_with_cache [OF inv(2)])
  then have "synced st'" by (rule synced_same) (simp_all add: st'(1) with_cache_def)
  moreover have "chain_inv E st'"
    using inv(1) st'(2) IsValid_blocks [of "g_chain st'" "g_chain ?st'" E] by (simp add: chain_inv_def) (simp add: st'(1))
  ultimately show ?thesis
    using q(2,3) b st'(3,4) by (simp add: Let_def) (simp add: st'(1) f)
qed

text \<open>
  The full verification accepts what the acceptance rules accepted. Take any chain of well-structured blocks, each
  acceptable on the ones below it at a settled reward, whose first block names no parent. Once it has been
  saved, \<^verbatim>\<open>fullverify\<close> reads it back and answers that the chain is in order, whatever reward the node is at:
  every height, link, target, proof of work, coinbase and merkle root it re-derives is the one accepted.
\<close>

lemma fullverify_accepts_stored_chain:
  assumes "validated E bs" and "well_built E bs" and "list_all whole bs" and "length bs < 2 ^ 64" and "\<forall>x. length (SHA256 E x) = 32"
    and "Chain_SaveToFile E io f chain curSupply curReward = (chain', f', True)" and "blocks chain = bs" and "files_fit f'"
  shows "fullverify_command E reward f'"
proof -
  have wf: "list_all block_wf (blocks chain)" using assms(3,7) by (auto simp: list_all_iff whole_def)
  have len: "length (blocks chain) < 2 ^ 64" using assms(4,7) by simp
  note h = SaveToFile_holds [OF assms(6) wf len spec [OF assms(5)]]
  then obtain fbs where fbs: "length fbs = length bs" "\<forall>k<length fbs. stored f k (bs ! k) = Some (fbs ! k)" "list_all whole fbs" "holds f' fbs"
    using assms(7) by blast
  have "fbs ! i = bs ! i" if "i < length bs" for i
    using that fbs(1,2) in_memory_nth [of bs i] assms(1) by (auto simp: stored_def validated_def)
  then have "fbs = bs" using fbs(1) by (intro nth_equalityI) simp_all
  then have "fst (Chain_LoadFromFile f' Chain_Create True) = (Chain_ClearBlocks Chain_Create)\<lparr> blocks := bs, chain_size := length bs \<rparr>"
    "snd (snd (Chain_LoadFromFile f' Chain_Create True))"
    using LoadFromFile_holds [OF fbs(4) files_fit_fits [OF assms(8) fbs(4)] fbs(3) conjunct1 [OF conjunct2 [OF h]], of Chain_Create True] by simp_all
  moreover have "dag_cache_ok ((Chain_ClearBlocks Chain_Create)\<lparr> blocks := bs, chain_size := length bs \<rparr>)"
    by (simp add: Chain_ClearBlocks_def Chain_InvalidateDagEpochs_def dag_cache_ok_def cache_ok_def)
  ultimately show ?thesis
    using VerifyChainFully_ok [OF assms(1,2,4), of "(Chain_ClearBlocks Chain_Create)\<lparr> blocks := bs, chain_size := length bs \<rparr>" reward]
    by (simp add: fullverify_command_def case_prod_unfold)
qed

section \<open>A node with one block, flushed and restarted\<close>

definition flush_world :: net_world where
  "flush_world = quiet_world\<lparr> w_sheetOrder := (\<lambda>_. [replicate 32 2]) \<rparr>"

definition flush_node :: net_node where
  "flush_node = (Node_Create flush_world None)\<lparr> nn_node := fst (Chain_AddBlock easy_env fresh_node wire_block) \<rparr>"

lemma wire_block_added: "\<exists>st. Chain_AddBlock easy_env fresh_node wire_block = (st, True)"
proof -
  have i: "chain_inv easy_env fresh_node" "coins_inv fresh_node" using reachable_inv [OF reach_start] synced_coins by auto
  show ?thesis
    using AddBlockLocked_accepted [OF i wire_block_accepted] wire_block_sendable
    by (auto simp: sendable_def Chain_AddBlock_def) (simp add: wire_block_def)
qed

lemma flush_node_facts:
  "net_ok easy_env flush_node" "blocks (g_chain (nn_node flush_node)) = [wire_block]"
  "g_sheetMap (nn_node flush_node) = Some [replicate 32 2 \<mapsto> (fresh_entry (replicate 32 2))\<lparr> balance := uint256_from_u64 17592186044415 \<rparr>]"
proof -
  obtain st where a: "Chain_AddBlock easy_env fresh_node wire_block = (st, True)" using wire_block_added by blast
  have st: "nn_node flush_node = st" by (simp add: flush_node_def a)
  have w: "whole wire_block" "block_addressed wire_block" using wire_block_sendable by (simp_all add: sendable_def)
  have base: "net_ok easy_env (Node_Create flush_world None)" "nn_node (Node_Create flush_world None) = fresh_node"
    by (rule Node_Create_ok) (simp add: Node_Create_def fresh_node_def)
  have sv: "serves_on fresh_node st"
    using grown_serves [OF _ AddBlock_grown [OF a]] base w(1) by (simp add: net_ok_iff whole_def)
  have "reachable easy_env st" by (rule reached_AddBlock [OF reach_start _ a]) (simp add: w(2))
  then show "net_ok easy_env flush_node"
    using base sv by (simp add: net_ok_iff st serves_on_def) (simp add: flush_node_def)
  obtain st1 where l: "Chain_AddBlockLocked easy_env fresh_node wire_block = (st1, True)" "st = Chain_OnTipAdvanced st1"
    using AddBlock_Locked [OF a] by auto
  have i: "dag_cache_ok (g_chain fresh_node)" using reachable_inv [OF reach_start] by (auto simp: chain_inv_def)
  have t: "transactions wire_block = Some [wire_tx]" by (simp add: wire_block_def)
  obtain cache where "commit easy_env (with_cache fresh_node cache) wire_block [wire_tx] 17592186044415 = (st1, True)"
    using AddBlockLocked_eq [OF i, of easy_env wire_block] wire_block_accepted l(1) t by auto
  then have c: "st1 = fst (commit easy_env (with_cache fresh_node cache) wire_block [wire_tx] 17592186044415)" by simp
  show "blocks (g_chain (nn_node flush_node)) = [wire_block]"
    by (simp add: st l(2) Chain_OnTipAdvanced_def c commit_simps fresh_node_simps)
  have "recipientAddress1 (transaction wire_tx) = replicate 32 2" by (simp add: wire_tx_def coinbase_of_def)
  moreover have "CreditAddress BalanceSheet_Init (replicate 32 2) 17592186044415 =
      (Some [replicate 32 2 \<mapsto> (fresh_entry (replicate 32 2))\<lparr> balance := uint256_from_u64 17592186044415 \<rparr>], True)"
    by (simp add: CreditAddress_def BalanceSheet_Lookup_def BalanceSheet_Insert_def BalanceSheet_InsertLocked_def BalanceSheet_Init_def fresh_entry_def)
  ultimately have "fst (ledger_tx BalanceSheet_Init (transaction wire_tx)) =
      Some [replicate 32 2 \<mapsto> (fresh_entry (replicate 32 2))\<lparr> balance := uint256_from_u64 17592186044415 \<rparr>]"
    using wire_tx_facts by (simp add: ledger_tx_def ledger_credit_def)
  then show "g_sheetMap (nn_node flush_node) = Some [replicate 32 2 \<mapsto> (fresh_entry (replicate 32 2))\<lparr> balance := uint256_from_u64 17592186044415 \<rparr>]"
    by (simp add: st l(2) Chain_OnTipAdvanced_def c commit_simps fresh_node_def case_prod_unfold Let_def)
qed

lemma flush_succeeds:
  "\<exists>n' acts. FlushChainAndSheet easy_env flush_world 0 flush_node = (n', acts, True) \<and> saves_ok acts"
proof -
  let ?st = "nn_node flush_node"
  have io: "dir_ready (w_io flush_world 0)" "renamed (w_io flush_world 0) = 3" "\<forall>k<length (blocks (g_chain ?st)). written (w_io flush_world 0) k"
    by (simp_all add: flush_world_def quiet_world_def)
  have wf: "list_all block_wf (blocks (g_chain ?st))" "stored (nn_files flush_node) 0 wire_block = Some wire_block"
    using wire_block_sendable by (auto simp: flush_node_facts(2) sendable_def whole_def stored_def)
  then obtain chain' f' where s: "Chain_SaveToFile easy_env (w_io flush_world 0) (nn_files flush_node) (g_chain ?st) (g_currentSupply ?st) (g_currentReward ?st) = (chain', f', True)"
    "data_file f' = Some (concat (map block_bytes [wire_block]))" "table_file f' = Some (concat (map table_image (table_entries 0 0 [wire_block])))"
    using SaveToFile_succeeds [OF io wf(1), of "[wire_block]" "nn_files flush_node" easy_env "g_currentSupply ?st" "g_currentReward ?st"]
    by (auto simp: flush_node_facts(2))
  have "files_fit f'"
    using wire_block_fits table_codec.length_images [of "table_entries 0 0 [wire_block]"] by (simp add: files_fit_def s(2,3) fits_def del: table_entries.simps)
  moreover have "snd (BalanceSheet_SaveToFile (w_sheetIo flush_world 0) (nn_sheetFile flush_node) (g_sheetMap ?st) (w_sheetOrder flush_world (g_sheetMap ?st)))"
    by (rule save_succeeds) (simp_all add: flush_node_facts(3) flush_world_def quiet_world_def)
  ultimately show ?thesis using s(1) by (simp add: FlushChainAndSheet_def persist_node_def Let_def)
qed

end
