(* ===== verification/Command_Line.thy ===== *)
theory Command_Line
  imports Console_Text Sync_Window Node_Startup
begin

text \<open>
  The prompt of \<^verbatim>\<open>src/main.c\<close>: the wallet file, the commands from the typed line to their effect on the running
  node, and the loop around them. What a command prints is the value of type \<open>reply\<close> it gives; what the
  outside answers during a command (clock, disk, sockets, the mining rounds, the turns of a sync, random keys,
  the bytes an uninitialised variable happens to hold) is its \<open>console_io\<close>.
\<close>

section \<open>Keys and the wallet file\<close>

text \<open>Attempt \<open>i\<close> of a key generation draws the bytes \<open>ks_rand i\<close>; the other fields are libsecp256k1.\<close>

record key_source =
  ks_rand :: "nat \<Rightarrow> byte list"
  ec_pubkey_create :: "byte list \<Rightarrow> byte list option"
  ec_pubkey_serialize :: "byte list \<Rightarrow> byte list option"

definition AddressFromCompressedPubkey :: "crypto_env \<Rightarrow> byte list \<Rightarrow> address" where
  "AddressFromCompressedPubkey E compressedPubkey = SHA256 E compressedPubkey"

fun generate_loop :: "crypto_env \<Rightarrow> key_source \<Rightarrow> nat \<Rightarrow> nat \<Rightarrow> wallet option" where
  "generate_loop E ks attempt 0 = None"
| "generate_loop E ks attempt (Suc todo) =
     (let privateKey = ks_rand ks attempt in
      if \<not> ec_seckey_verify E privateKey then generate_loop E ks (Suc attempt) todo
      else case ec_pubkey_create ks privateKey of
        None \<Rightarrow> generate_loop E ks (Suc attempt) todo
      | Some pubkey \<Rightarrow>
          (case ec_pubkey_serialize ks pubkey of
             None \<Rightarrow> generate_loop E ks (Suc attempt) todo
           | Some compressedPubkey \<Rightarrow>
               if length compressedPubkey \<noteq> 33 then generate_loop E ks (Suc attempt) todo
               else Some \<lparr> minerAddress = AddressFromCompressedPubkey E compressedPubkey, minerPrivateKey = privateKey,
                           minerCompressedPubkey = compressedPubkey \<rparr>))"

definition GenerateRandomTestAddress :: "crypto_env \<Rightarrow> key_source \<Rightarrow> wallet option" where
  "GenerateRandomTestAddress E ks = generate_loop E ks 0 4096"

definition wallet_image :: "wallet \<Rightarrow> byte list" where
  "wallet_image wl = minerPrivateKey wl @ minerCompressedPubkey wl @ minerAddress wl"

definition read_wallet :: "byte list \<Rightarrow> wallet option" where
  "read_wallet f =
     (if length f < 32 then None
      else if length (drop 32 f) < 33 then None
      else if length (drop 65 f) < 32 then None
      else Some \<lparr> minerAddress = take 32 (drop 65 f), minerPrivateKey = take 32 f, minerCompressedPubkey = take 33 (drop 32 f) \<rparr>)"

text \<open>
  The identity a process starts with, \<open>None\<close> when it exits instead, and the wallet file it leaves. \<open>opened\<close> is
  whether an existing file could be opened for reading, \<open>creatable\<close> whether it could be opened for writing, and
  \<open>writable\<close> how many bytes could be written. The condition on \<^verbatim>\<open>errno\<close> in front of the second branch is always true.
\<close>

definition load_wallet :: "crypto_env \<Rightarrow> key_source \<Rightarrow> bool \<Rightarrow> bool \<Rightarrow> nat \<Rightarrow> byte list option \<Rightarrow> wallet option \<times> byte list option" where
  "load_wallet E ks opened creatable writable file =
     (case (if opened then file else None) of
        Some f \<Rightarrow> (read_wallet f, file)
      | None \<Rightarrow>
          (case GenerateRandomTestAddress E ks of
             None \<Rightarrow> (None, file)
           | Some wl \<Rightarrow>
               if \<not> creatable then (None, file)
               else if writable < length (wallet_image wl) then (None, Some (take writable (wallet_image wl)))
               else (Some wl, Some (wallet_image wl))))"

section \<open>Settings\<close>

text \<open>The settings from the environment; an empty or unusable value leaves a setting as it was.\<close>

record runtime_config =
  rc_chainDataDir :: string
  rc_listenPort :: u16
  rc_echoPeersEnabled :: bool
  rc_forceOrphanReorgEnabled :: bool

definition setting :: "(string \<Rightarrow> string option) \<Rightarrow> string \<Rightarrow> string option" where
  "setting getenv name = (case getenv name of None \<Rightarrow> None | Some v \<Rightarrow> if v = [] then None else Some v)"

definition env_port :: "u16 \<Rightarrow> string \<Rightarrow> u16" where
  "env_port old portStr =
     (case strtol 10 portStr of
        (parsed, rest) \<Rightarrow> if rest \<noteq> portStr \<and> rest = [] \<and> parsed > 0 \<and> parsed \<le> 65535 then of_int parsed else old)"

definition ApplyRuntimeConfigFromEnv :: "(string \<Rightarrow> string option) \<Rightarrow> runtime_config \<Rightarrow> runtime_config" where
  "ApplyRuntimeConfigFromEnv getenv cfg =
     cfg\<lparr> rc_chainDataDir := (case setting getenv ''SKALACOIN_CHAIN_DATA_DIR'' of None \<Rightarrow> rc_chainDataDir cfg | Some v \<Rightarrow> v),
          rc_listenPort := (case setting getenv ''SKALACOIN_LISTEN_PORT'' of None \<Rightarrow> rc_listenPort cfg | Some v \<Rightarrow> env_port (rc_listenPort cfg) v),
          rc_echoPeersEnabled := (case setting getenv ''SKALACOIN_ECHO_PEERS'' of None \<Rightarrow> rc_echoPeersEnabled cfg | Some v \<Rightarrow> v \<noteq> ''0''),
          rc_forceOrphanReorgEnabled := (case setting getenv ''SKALACOIN_FORCE_ORPHAN_REORG'' of
             None \<Rightarrow> rc_forceOrphanReorgEnabled cfg | Some v \<Rightarrow> v \<noteq> ''0'') \<rparr>"

text \<open>The arguments of the process: the throttle to set, if any; \<open>None\<close> when the process exits.\<close>

definition startup_args :: "string list \<Rightarrow> u64 option option" where
  "startup_args argv =
     (case argv of
        [] \<Rightarrow> Some None
      | a # rest \<Rightarrow>
          if a \<noteq> ''--throttle'' then None
          else (case rest of [] \<Rightarrow> Some (Some 1000) | v # _ \<Rightarrow> map_option Some (number_arg v)))"

text \<open>The listening port is never zero.\<close>

lemma config_port_nonzero: "rc_listenPort cfg \<noteq> 0 \<Longrightarrow> rc_listenPort (ApplyRuntimeConfigFromEnv getenv cfg) \<noteq> 0"
proof -
  have "(of_int p :: u16) \<noteq> 0" if "0 < p" "p \<le> 65535" for p
  proof -
    have "uint (of_int p :: u16) = p" using that by (simp add: unsigned_of_int take_bit_eq_mod)
    then show ?thesis using that by auto
  qed
  then show "rc_listenPort cfg \<noteq> 0 \<Longrightarrow> rc_listenPort (ApplyRuntimeConfigFromEnv getenv cfg) \<noteq> 0"
    by (auto simp: ApplyRuntimeConfigFromEnv_def env_port_def split: option.split prod.split)
qed

section \<open>The console\<close>

record console =
  co_node :: net_node
  co_wallet :: wallet
  g_dagVote :: byte

record console_io =
  ci_world :: net_world
  ci_mine :: "nat \<Rightarrow> net_world \<times> mine_io"
  ci_sync :: "round_io list"
  ci_now1 :: u64
  ci_now2 :: u64
  ci_stack :: "byte list"
  ci_numeric4 :: "string \<Rightarrow> bool"
  ci_numeric6 :: "string \<Rightarrow> bool"
  ci_keys :: key_source

datatype reply =
    R_Usage | R_Invalid | R_Unknown | R_Quit
  | R_Vote byte | R_Mined | R_Send send_result
  | R_Raw_Rejected | R_Raw_Outside_Window | R_Raw_Pool_Failed | R_Raw_Pooled signed_transaction_t
  | R_Sync sync_verdict | R_Not_Found | R_Tx signed_transaction_t "byte list"
  | R_Block block_t u64 "byte list" "byte list" | R_Block_Failed
  | R_Balance address string | R_All_Balances
  | R_Connect string u16 bool | R_Peers | R_Flushed bool | R_Verified bool | R_Wiped | R_Address "string option"

definition with_node :: "console \<Rightarrow> net_node \<Rightarrow> console" where
  "with_node c n = c\<lparr> co_node := n \<rparr>"

section \<open>Commands that change the node\<close>

fun cmd_dagvote :: "console \<Rightarrow> string list \<Rightarrow> console \<times> reply" where
  "cmd_dagvote c [] = (c, R_Vote (g_dagVote c))"
| "cmd_dagvote c (voteStr # _) =
     (if voteStr \<in> {''grow'', ''hold'', ''down''}
      then (let v = dagvote_command (g_dagVote c) voteStr in (c\<lparr> g_dagVote := v \<rparr>, R_Vote v))
      else (c, R_Usage))"

fun cmd_mine :: "crypto_env \<Rightarrow> console_io \<Rightarrow> console \<Rightarrow> string list \<Rightarrow> console \<times> net_action list \<times> reply" where
  "cmd_mine E io c [] = (c, [], R_Usage)"
| "cmd_mine E io c (blocksStr # _) =
     (case number_arg blocksStr of
        None \<Rightarrow> (c, [], R_Invalid)
      | Some requested \<Rightarrow>
          (case mine_command E (ci_world io) (minerAddress (co_wallet c)) (g_dagVote c) (co_node c)
                  (map (ci_mine io) [0..<unat requested]) of
             (n, acts) \<Rightarrow> (with_node c n, acts, R_Mined)))"

text \<open>The optional arguments: \<open>None\<close> when they are wrong.\<close>

definition fee_arg :: "string list \<Rightarrow> u64 option" where
  "fee_arg opts = (case opts of [] \<Rightarrow> Some 0 | feeStr # _ \<Rightarrow> number_arg feeStr)"

definition broadcast_arg :: "string list \<Rightarrow> bool option" where
  "broadcast_arg opts =
     (case opts of
        feeStr # broadcastStr # _ \<Rightarrow> if broadcastStr = ''false'' then Some False else if broadcastStr = ''true'' then Some True else None
      | _ \<Rightarrow> Some True)"

fun cmd_send :: "crypto_env \<Rightarrow> console_io \<Rightarrow> console \<Rightarrow> string list \<Rightarrow> console \<times> net_action list \<times> reply" where
  "cmd_send E io c (addressStr # amountStr # opts) =
     (case ParseHexAddress32 addressStr of
        None \<Rightarrow> (c, [], R_Send SEND_INVALID_ADDRESS)
      | Some _ \<Rightarrow>
          (case number_arg amountStr of
             None \<Rightarrow> (c, [], R_Send SEND_INVALID_AMOUNT)
           | Some amount \<Rightarrow>
               if amount = 0 then (c, [], R_Send SEND_INVALID_AMOUNT)
               else (case fee_arg opts of
                  None \<Rightarrow> (c, [], R_Invalid)
                | Some txFee \<Rightarrow>
                    (case broadcast_arg opts of
                       None \<Rightarrow> (c, [], R_Invalid)
                     | Some broadcast \<Rightarrow>
                         (case send_command E (ci_world io) (co_wallet c) (co_node c) addressStr amount txFee broadcast
                                 (ci_now1 io) (ci_now2 io) of
                            (n, acts, r) \<Rightarrow> (with_node c n, acts, R_Send r))))))"
| "cmd_send E io c _ = (c, [], R_Usage)"

text \<open>
  The bytes of the variable \<^verbatim>\<open>tx\<close> of \<^verbatim>\<open>sendrawtx\<close>, which held \<open>stack\<close> before: a pair that is not hexadecimal is
  reported, and its byte stays what it was.
\<close>

fun raw_bytes :: "byte list \<Rightarrow> string \<Rightarrow> byte list" where
  "raw_bytes (b # stack) (hi # lo # s) =
     (case strtoull 16 [hi, lo] of (byteValue, rest) \<Rightarrow> (if rest \<noteq> [] then b else ucast byteValue) # raw_bytes stack s)"
| "raw_bytes stack s = stack"

fun cmd_sendrawtx :: "crypto_env \<Rightarrow> console_io \<Rightarrow> console \<Rightarrow> string list \<Rightarrow> console \<times> net_action list \<times> reply" where
  "cmd_sendrawtx E io c [] = (c, [], R_Usage)"
| "cmd_sendrawtx E io c (rawTxHex # _) =
     (if length rawTxHex \<noteq> 464 then (c, [], R_Invalid)
      else
        let tx = stx_of_image (raw_bytes (ci_stack io) rawTxHex) in
        if \<not> Transaction_Verify E tx then (c, [], R_Raw_Rejected)
        else if \<not> TxMempool_PolicyAccepts tx (ci_now1 io) then (c, [], R_Raw_Outside_Window)
        else (case TxMempool_Insert E (g_txMempool (nn_node (co_node c))) tx of
                (pool', r) \<Rightarrow>
                  let n' = (co_node c)\<lparr> nn_node := (nn_node (co_node c))\<lparr> g_txMempool := pool' \<rparr> \<rparr>
                  in if r < 0 then (with_node c n', [], R_Raw_Pool_Failed)
                     else (with_node c n', Node_BroadcastTransaction (ci_world io) n' tx None, R_Raw_Pooled tx)))"

fun cmd_sync :: "crypto_env \<Rightarrow> console_io \<Rightarrow> console \<Rightarrow> string list \<Rightarrow> console \<times> net_action list \<times> reply" where
  "cmd_sync E io c args =
     (if args \<noteq> [] \<and> hd args \<noteq> ''force'' then (c, [], R_Usage)
      else case sync_command E (args \<noteq> []) (ci_sync io) (co_node c) of (n, acts, v) \<Rightarrow> (with_node c n, acts, R_Sync v))"

definition IsValidIPv4 :: "console_io \<Rightarrow> string \<Rightarrow> bool" where
  "IsValidIPv4 io ip \<longleftrightarrow> ip \<noteq> [] \<and> ci_numeric4 io ip"

definition IsValidIPv6 :: "console_io \<Rightarrow> string \<Rightarrow> bool" where
  "IsValidIPv6 io ip \<longleftrightarrow> ip \<noteq> [] \<and> ci_numeric6 io ip"

definition connect_to :: "console_io \<Rightarrow> console \<Rightarrow> string \<Rightarrow> u16 \<Rightarrow> console \<times> net_action list \<times> reply" where
  "connect_to io c ipStr port =
     (case Node_ConnectPeer (ci_world io) (co_node c) ipStr port of
        (n, acts, rc) \<Rightarrow> (with_node c n, acts, R_Connect ipStr port (rc = 0)))"

fun cmd_connect :: "console_io \<Rightarrow> console \<Rightarrow> string list \<Rightarrow> console \<times> net_action list \<times> reply" where
  "cmd_connect io c [ipStr] =
     (if \<not> IsValidIPv4 io ipStr \<and> \<not> IsValidIPv6 io ipStr then (c, [], R_Invalid)
      else connect_to io c ipStr (g_listenPort (ci_world io)))"
| "cmd_connect io c [ipStr, portStr] =
     (if \<not> IsValidIPv4 io ipStr \<and> \<not> IsValidIPv6 io ipStr then (c, [], R_Invalid)
      else case port_arg portStr of None \<Rightarrow> (c, [], R_Invalid) | Some port \<Rightarrow> connect_to io c ipStr port)"
| "cmd_connect io c _ = (c, [], R_Usage)"

definition cmd_flushchain :: "crypto_env \<Rightarrow> console_io \<Rightarrow> console \<Rightarrow> console \<times> net_action list \<times> reply" where
  "cmd_flushchain E io c =
     (case FlushChainAndSheet E (ci_world io) 0 (co_node c) of (n, acts, ok) \<Rightarrow> (with_node c n, acts, R_Flushed ok))"

section \<open>Commands that only look\<close>

fun cmd_txpooldetail :: "crypto_env \<Rightarrow> console \<Rightarrow> string list \<Rightarrow> reply" where
  "cmd_txpooldetail E c [] = R_Usage"
| "cmd_txpooldetail E c (hashStr # _) =
     (case ParseHexAddress32 hashStr of
        None \<Rightarrow> R_Invalid
      | Some txHash \<Rightarrow>
          (case TxMempool_Lookup (g_txMempool (nn_node (co_node c))) txHash of
             None \<Rightarrow> R_Not_Found
           | Some tx \<Rightarrow> R_Tx tx (Transaction_CalculateHash E tx)))"

definition ComputeHistoricalAutolykosHashFromDisk :: "crypto_env \<Rightarrow> chain_files \<Rightarrow> nat \<Rightarrow> block_t \<Rightarrow> byte list option" where
  "ComputeHistoricalAutolykosHashFromDisk E f blockHeight block =
     (case Chain_LoadFromFile f Chain_Create False of
        (headerChain, out, loaded) \<Rightarrow>
          if loaded then snd (ComputeHistoricalAutolykosHashFromChain E headerChain block blockHeight) else None)"

fun cmd_blockdetail :: "crypto_env \<Rightarrow> console \<Rightarrow> string list \<Rightarrow> reply" where
  "cmd_blockdetail E c [blockNumberStr] =
     (case number_arg blockNumberStr of
        None \<Rightarrow> R_Invalid
      | Some requestedBlock \<Rightarrow>
          (case Chain_LoadBlockFromFile (nn_files (co_node c)) requestedBlock False of
             (None, _) \<Rightarrow> R_Not_Found
           | (Some detailBlock, txCount) \<Rightarrow>
               (case ComputeHistoricalAutolykosHashFromDisk E (nn_files (co_node c)) (unat requestedBlock) detailBlock of
                  None \<Rightarrow> R_Block_Failed
                | Some powHash \<Rightarrow> R_Block detailBlock txCount (Block_CalculateHash E detailBlock) powHash)))"
| "cmd_blockdetail E c _ = R_Usage"

definition balance_of :: "console \<Rightarrow> address \<Rightarrow> reply" where
  "balance_of c effectiveAddress =
     R_Balance effectiveAddress
       (the (Uint256ToDecimal (case BalanceSheet_Lookup (g_sheetMap (nn_node (co_node c))) effectiveAddress of
               None \<Rightarrow> uint256_from_u64 0 | Some entry \<Rightarrow> balance entry) 80))"

fun cmd_balance :: "console \<Rightarrow> string list \<Rightarrow> reply" where
  "cmd_balance c [] = balance_of c (minerAddress (co_wallet c))"
| "cmd_balance c [addressStr] =
     (if addressStr = ''all'' then R_All_Balances
      else case ParseHexAddress32 addressStr of None \<Rightarrow> R_Invalid | Some queryAddress \<Rightarrow> balance_of c queryAddress)"
| "cmd_balance c _ = R_Usage"

definition cmd_fullverify :: "crypto_env \<Rightarrow> console \<Rightarrow> reply" where
  "cmd_fullverify E c = R_Verified (fullverify_command E (g_currentReward (nn_node (co_node c))) (nn_files (co_node c)))"

definition cmd_genaddr :: "crypto_env \<Rightarrow> console_io \<Rightarrow> reply" where
  "cmd_genaddr E io = R_Address (map_option (\<lambda>wl. AddressToHexString (minerAddress wl)) (GenerateRandomTestAddress E (ci_keys io)))"

section \<open>The loop\<close>

definition quiet :: "console \<Rightarrow> reply \<Rightarrow> console \<times> net_action list \<times> reply" where
  "quiet c r = (c, [], r)"

definition run_command :: "crypto_env \<Rightarrow> console_io \<Rightarrow> console \<Rightarrow> string \<Rightarrow> string list \<Rightarrow> console \<times> net_action list \<times> reply" where
  "run_command E io c cmd args =
     (if cmd = ''dagvote'' then (case cmd_dagvote c args of (c', r) \<Rightarrow> quiet c' r)
      else if cmd = ''mine'' then cmd_mine E io c args
      else if cmd = ''send'' then cmd_send E io c args
      else if cmd = ''sendrawtx'' then cmd_sendrawtx E io c args
      else if cmd = ''sync'' then cmd_sync E io c args
      else if cmd = ''txpooldetail'' then quiet c (cmd_txpooldetail E c args)
      else if cmd = ''blockdetail'' then quiet c (cmd_blockdetail E c args)
      else if cmd = ''balance'' then quiet c (cmd_balance c args)
      else if cmd = ''connect'' then cmd_connect io c args
      else if cmd = ''peers'' then quiet c (if args \<noteq> [] then R_Usage else R_Peers)
      else if cmd = ''flushchain'' then cmd_flushchain E io c
      else if cmd = ''fullverify'' then quiet c (cmd_fullverify E c)
      else if cmd = ''wipechain'' then quiet (with_node c (wipechain_command (co_node c))) R_Wiped
      else if cmd = ''genaddr'' then quiet c (cmd_genaddr E io)
      else if cmd = ''exit'' \<or> cmd = ''quit'' then quiet c R_Quit
      else quiet c R_Unknown)"

text \<open>The lines \<^verbatim>\<open>fgets\<close> cuts the input into; a line that does not fit the buffer counts as several.\<close>

lemma fgets_loop_shorter: "fgets_loop (Suc n) (c # input) = (l, rest) \<Longrightarrow> length rest \<le> length input"
proof -
  have "fgets_loop m s = (l, r) \<Longrightarrow> length r \<le> length s" for m s l r
    by (induction m s arbitrary: l r rule: fgets_loop.induct) (auto split: if_splits prod.splits simp: le_SucI)
  then show "fgets_loop (Suc n) (c # input) = (l, rest) \<Longrightarrow> length rest \<le> length input" by (auto split: if_splits prod.splits)
qed

lemma fgets_shorter: "fgets 1024 input = Some (line, rest) \<Longrightarrow> length rest < length input"
  by (cases input) (auto simp: fgets_def numeral_eq_Suc simp del: fgets_loop.simps dest!: fgets_loop_shorter)

function input_lines :: "string \<Rightarrow> string list" where
  "input_lines input = (case fgets 1024 input of None \<Rightarrow> [] | Some (line, rest) \<Rightarrow> cut_line line # input_lines rest)"
  by pat_completeness auto
termination by (relation "measure length") (auto simp: fgets_shorter)

declare input_lines.simps [simp del]

text \<open>
  The loop over the lines. Before each command the network threads have done \<open>bg\<close> to the node. Empty lines and
  lines of blanks are skipped.
\<close>

fun command_loop :: "crypto_env \<Rightarrow> ((net_node \<Rightarrow> net_node) \<times> console_io) list \<Rightarrow> string list \<Rightarrow> console \<Rightarrow> console \<times> net_action list \<times> reply list" where
  "command_loop E ((bg, io) # ios) (line # lines) c =
     (let c1 = with_node c (bg (co_node c)) in
      case words_of line of
        [] \<Rightarrow> command_loop E ios lines c1
      | cmd # args \<Rightarrow>
          (case run_command E io c1 cmd args of
             (c2, acts, r) \<Rightarrow>
               if r = R_Quit then (c2, acts, [r])
               else (case command_loop E ios lines c2 of (c3, acts', rs) \<Rightarrow> (c3, acts @ acts', r # rs))))"
| "command_loop E _ _ c = (c, [], [])"

text \<open>The whole session: the loop on the input, and the flush at the end of \<^verbatim>\<open>main\<close>.\<close>

definition main_session ::
  "crypto_env \<Rightarrow> ((net_node \<Rightarrow> net_node) \<times> console_io) list \<Rightarrow> net_world \<Rightarrow> string \<Rightarrow> console \<Rightarrow> console \<times> net_action list \<times> reply list \<times> bool" where
  "main_session E ios w input c =
     (case command_loop E ios (input_lines input) c of
        (c1, acts, rs) \<Rightarrow>
          (case FlushChainAndSheet E w 0 (co_node c1) of (n, flush, ok) \<Rightarrow> (with_node c1 n, acts @ flush, rs, ok)))"

section \<open>Every command keeps the node sound\<close>

text \<open>The side condition of mining (\<open>minable\<close>) in each round that takes place.\<close>

fun rounds_minable :: "crypto_env \<Rightarrow> address \<Rightarrow> byte \<Rightarrow> net_node \<Rightarrow> nat \<Rightarrow> (net_world \<times> mine_io) list \<Rightarrow> bool" where
  "rounds_minable E miner vote n i [] = True"
| "rounds_minable E miner vote n i ((w, io) # wios) =
     (minable E w miner n \<and>
      (case mine_round E miner vote n i (w, io) of (n1, acts, ok) \<Rightarrow> ok \<longrightarrow> rounds_minable E miner vote n1 (Suc i) wios))"

lemma mine_rounds_ok:
  "mine_rounds E miner vote n i wios = (n', acts, ok) \<Longrightarrow> net_inv E g n \<Longrightarrow> (g \<longrightarrow> saves_ok acts) \<Longrightarrow> (g \<longrightarrow> rounds_minable E miner vote n i wios) \<Longrightarrow>
     \<forall>x. length (SHA256 E x) = 32 \<Longrightarrow> net_inv E g n'"
proof (induction wios arbitrary: n i acts)
  case (Cons wio wios)
  obtain w io where wio: "wio = (w, io)" by fastforce
  obtain n1 as1 ok1 where r: "mine_round E miner vote n i (w, io) = (n1, as1, ok1)" using prod_cases3 by blast
  have m: "g \<longrightarrow> minable E w miner n" "ok1 \<longrightarrow> g \<longrightarrow> rounds_minable E miner vote n1 (Suc i) wios" using Cons.prems(4) wio r by simp_all
  have "g \<longrightarrow> saves_ok as1" using Cons.prems(1,3) wio r by (auto split: if_splits prod.splits)
  then have n1: "net_inv E g n1" by (rule mine_round_ok [OF Cons.prems(2) r _ m(1) Cons.prems(5)])
  show ?case
  proof (cases ok1)
    case True
    obtain as2 where "mine_rounds E miner vote n1 (Suc i) wios = (n', as2, ok)" "acts = as1 @ as2"
      using Cons.prems(1) wio r True by (auto split: prod.splits)
    then show ?thesis using Cons.IH [OF _ n1] Cons.prems(3,5) m(2) True by simp
  qed (use n1 Cons.prems(1) wio r in simp)
qed simp

lemma mine_command_ok:
  assumes "mine_command E w miner vote n wios = (n', acts)" "net_inv E g n" "g \<longrightarrow> saves_ok acts" "g \<longrightarrow> rounds_minable E miner vote n 0 wios"
    and "\<forall>x. length (SHA256 E x) = 32"
  shows "net_inv E g n'"
proof -
  obtain n1 as1 ok where r: "mine_rounds E miner vote n 0 wios = (n1, as1, ok)" using prod_cases3 by blast
  have "g \<longrightarrow> saves_ok as1" using assms(1,3) r by (auto simp: mine_command_def split: if_splits prod.splits)
  then have n1: "net_inv E g n1" using mine_rounds_ok [OF r assms(2) _ assms(4,5)] by simp
  then show ?thesis using assms(1,3,5) r Flush_ok [OF n1] by (auto simp: mine_command_def split: if_splits prod.splits)
qed

text \<open>
  What a command needs: the network steps around it keep the invariant, and where \<open>g\<close> asks for it the rounds of
  a \<^verbatim>\<open>mine\<close> command are minable.
\<close>

definition mine_minable :: "crypto_env \<Rightarrow> console_io \<Rightarrow> console \<Rightarrow> string \<Rightarrow> string list \<Rightarrow> bool" where
  "mine_minable E io c cmd args \<longleftrightarrow>
     (cmd = ''mine'' \<longrightarrow> (\<forall>k. args \<noteq> [] \<and> number_arg (hd args) = Some k \<longrightarrow>
        rounds_minable E (minerAddress (co_wallet c)) (g_dagVote c) (co_node c) 0 (map (ci_mine io) [0..<unat k])))"

definition io_keeps :: "crypto_env \<Rightarrow> bool \<Rightarrow> console_io \<Rightarrow> console \<Rightarrow> string \<Rightarrow> string list \<Rightarrow> bool" where
  "io_keeps E g io c cmd args \<longleftrightarrow> list_all (round_keeps E g) (ci_sync io) \<and> (g \<longrightarrow> mine_minable E io c cmd args)"

lemma with_node_simps [simp]:
  "co_node (with_node c n) = n" "co_wallet (with_node c n) = co_wallet c" "g_dagVote (with_node c n) = g_dagVote c"
  by (simp_all add: with_node_def)

definition keeps :: "crypto_env \<Rightarrow> bool \<Rightarrow> console \<Rightarrow> console \<times> net_action list \<times> reply \<Rightarrow> bool" where
  "keeps E g c r \<longleftrightarrow> ((g \<longrightarrow> saves_ok (fst (snd r))) \<longrightarrow> net_inv E g (co_node c) \<longrightarrow> net_inv E g (co_node (fst r))) \<and> co_wallet (fst r) = co_wallet c"

lemma keeps_same [simp]: "keeps E g c (c, acts, r)" "keeps E g c (quiet c r)"
  by (simp_all add: keeps_def quiet_def)

lemma keeps_with_node: "(net_inv E g (co_node c) \<Longrightarrow> g \<longrightarrow> saves_ok acts \<Longrightarrow> net_inv E g n) \<Longrightarrow> keeps E g c (with_node c n, acts, r)"
  by (simp add: keeps_def)

lemma keeps_mine:
  assumes "io_keeps E g io c ''mine'' args" "\<forall>x. length (SHA256 E x) = 32"
  shows "keeps E g c (cmd_mine E io c args)"
proof (cases args)
  case (Cons s more)
  show ?thesis
  proof (cases "number_arg s")
    case (Some k)
    obtain n acts where m: "mine_command E (ci_world io) (minerAddress (co_wallet c)) (g_dagVote c) (co_node c) (map (ci_mine io) [0..<unat k]) = (n, acts)"
      by fastforce
    have "keeps E g c (with_node c n, acts, R_Mined)"
      by (rule keeps_with_node, rule mine_command_ok [OF m]) (use assms Cons Some in \<open>simp_all add: io_keeps_def mine_minable_def\<close>)
    then show ?thesis using Cons Some m by simp
  qed (simp add: Cons)
qed simp

lemma keeps_send: "keeps E g c (cmd_send E io c args)"
proof (cases "(E, io, c, args)" rule: cmd_send.cases)
  case (1 E' io' c' a m opts)
  have "keeps E g c (case send_command E w (co_wallet c) (co_node c) a k f b t1 t2 of (n, acts, r) \<Rightarrow> (with_node c n, acts, R_Send r))" for w k f b t1 t2
    by (auto split: prod.splits intro!: keeps_with_node dest: send_ok)
  then show ?thesis using 1 by (auto split: option.splits simp del: prod.case)
qed auto

lemma keeps_raw: "keeps E g c (cmd_sendrawtx E io c args)"
proof (cases args)
  case (Cons h more)
  let ?tx = "stx_of_image (raw_bytes (ci_stack io) h)" and ?p = "g_txMempool (nn_node (co_node c))"
  obtain pool' r where i: "TxMempool_Insert E ?p ?tx = (pool', r)" by fastforce
  have "net_inv E g (co_node c) \<Longrightarrow> net_inv E g ((co_node c)\<lparr> nn_node := (nn_node (co_node c))\<lparr> g_txMempool := pool' \<rparr> \<rparr>)"
    using submit_ok [of E g "co_node c" ?tx] i by simp
  then have "keeps E g c (with_node c ((co_node c)\<lparr> nn_node := (nn_node (co_node c))\<lparr> g_txMempool := pool' \<rparr> \<rparr>), acts, x)" for acts x
    by (rule keeps_with_node)
  then show ?thesis using Cons i by (simp add: Let_def)
qed simp

lemma keeps_sync: "io_keeps E g io c cmd args \<Longrightarrow> keeps E g c (cmd_sync E io c args)"
  using sync_command_ok [of E g "co_node c" "ci_sync io" "args \<noteq> []"]
  by (auto simp: io_keeps_def mine_minable_def split: prod.splits intro!: keeps_with_node)

lemma keeps_connect: "keeps E g c (cmd_connect io c args)"
proof -
  have "keeps E g c (connect_to io c ip port)" for ip port
    by (auto simp: connect_to_def split: prod.splits intro!: keeps_with_node dest!: ConnectPeer_ok [of _ _ _ _ _ _ _ E g])
  then show ?thesis by (cases "(io, c, args)" rule: cmd_connect.cases) (auto split: option.splits)
qed

lemma keeps_flush: "\<forall>x. length (SHA256 E x) = 32 \<Longrightarrow> keeps E g c (cmd_flushchain E io c)"
  by (auto simp: cmd_flushchain_def split: prod.splits intro!: keeps_with_node dest: Flush_ok)

lemma keeps_run_command:
  assumes "io_keeps E g io c cmd args" "\<forall>x. length (SHA256 E x) = 32"
  shows "keeps E g c (run_command E io c cmd args)"
proof -
  have "keeps E g c (case cmd_dagvote c args of (c', r) \<Rightarrow> quiet c' r)"
    by (cases "(c, args)" rule: cmd_dagvote.cases) (auto simp: keeps_def quiet_def Let_def)
  moreover have "keeps E g c (quiet (with_node c (wipechain_command (co_node c))) R_Wiped)" using wipe_ok by (simp add: keeps_def quiet_def)
  moreover have "cmd = ''mine'' \<longrightarrow> keeps E g c (cmd_mine E io c args)" "keeps E g c (cmd_sync E io c args)" "keeps E g c (cmd_flushchain E io c)"
    using assms keeps_mine keeps_sync keeps_flush by blast+
  ultimately show ?thesis using keeps_send keeps_raw keeps_connect by (simp add: run_command_def del: cmd_sync.simps)
qed

text \<open>No \<^verbatim>\<open>mine\<close> command that is reached selects a spend that pays nobody.\<close>

fun mines_addressed :: "crypto_env \<Rightarrow> ((net_node \<Rightarrow> net_node) \<times> console_io) list \<Rightarrow> string list \<Rightarrow> console \<Rightarrow> bool" where
  "mines_addressed E ((bg, io) # ios) (line # lines) c =
     (let c1 = with_node c (bg (co_node c)) in
      case words_of line of
        [] \<Rightarrow> mines_addressed E ios lines c1
      | cmd # args \<Rightarrow>
          mine_minable E io c1 cmd args \<and>
          (case run_command E io c1 cmd args of (c2, acts, r) \<Rightarrow> r \<noteq> R_Quit \<longrightarrow> mines_addressed E ios lines c2))"
| "mines_addressed E _ _ c = True"

text \<open>The network threads take network steps before each command and during a sync.\<close>

definition session_network :: "crypto_env \<Rightarrow> bool \<Rightarrow> ((net_node \<Rightarrow> net_node) \<times> console_io) list \<Rightarrow> bool" where
  "session_network E g ios \<longleftrightarrow> list_all (\<lambda>(bg, io). by_network E g bg \<and> list_all (round_by_network E g) (ci_sync io)) ios"

lemma session_network_weaken: "session_network E g ios \<Longrightarrow> (g' \<Longrightarrow> g) \<Longrightarrow> session_network E g' ios"
  using by_network_weaken [of E g _ g'] round_network_weaken [of E g _ g']
  by (auto simp: session_network_def list_all_iff)

lemma command_loop_ok:
  "command_loop E ios lines c = (c', acts, rs) \<Longrightarrow> net_inv E g (co_node c) \<Longrightarrow> (g \<longrightarrow> saves_ok acts \<and> mines_addressed E ios lines c) \<Longrightarrow>
     session_network E g ios \<Longrightarrow> \<forall>x. length (SHA256 E x) = 32 \<Longrightarrow> net_inv E g (co_node c') \<and> co_wallet c' = co_wallet c"
proof (induction E ios lines c arbitrary: acts rs rule: command_loop.induct)
  case (1 E bg io ios line lines c)
  let ?c1 = "with_node c (bg (co_node c))"
  have nw: "by_network E g bg" "list_all (round_by_network E g) (ci_sync io)" "session_network E g ios"
    using 1(6) by (simp_all add: session_network_def)
  have c1: "net_inv E g (co_node ?c1)" using by_network_keeps [OF nw(1) 1(7)] 1(4) by (simp add: keeps_inv_def)
  show ?case
  proof (cases "words_of line")
    case Nil
    have "command_loop E ios lines ?c1 = (c', acts, rs)" "g \<longrightarrow> saves_ok acts \<and> mines_addressed E ios lines ?c1"
      using 1(3,5) Nil by (simp_all add: Let_def)
    from 1(1) [OF refl Nil this(1) c1 this(2) nw(3) 1(7)] show ?thesis by simp
  next
    case (Cons cmd args)
    obtain c2 as1 r where run: "run_command E io ?c1 cmd args = (c2, as1, r)" using prod_cases3 by blast
    have f: "g \<longrightarrow> mine_minable E io ?c1 cmd args" "r \<noteq> R_Quit \<longrightarrow> g \<longrightarrow> mines_addressed E ios lines c2"
      using 1(5) Cons run by (simp_all add: Let_def)
    have "io_keeps E g io ?c1 cmd args"
      using f(1) nw(2) round_network_keeps [OF _ 1(7)] by (auto simp: io_keeps_def list_all_iff)
    from keeps_run_command [OF this 1(7)]
    have k: "(g \<longrightarrow> saves_ok as1) \<longrightarrow> net_inv E g (co_node c2)" "co_wallet c2 = co_wallet c"
      using run c1 by (simp_all add: keeps_def)
    show ?thesis
    proof (cases "r = R_Quit")
      case True
      then show ?thesis using 1(3,5) Cons run k by simp
    next
      case False
      obtain as2 rs2 where l: "command_loop E ios lines c2 = (c', as2, rs2)" "acts = as1 @ as2"
        using 1(3) Cons run False by (auto split: prod.splits)
      have "net_inv E g (co_node c2)" "g \<longrightarrow> saves_ok as2 \<and> mines_addressed E ios lines c2" using k 1(5) l(2) f(2) False by simp_all
      then have "net_inv E g (co_node c') \<and> co_wallet c' = co_wallet c2"
        using 1(2) [OF refl Cons run [symmetric] refl False l(1)] nw(3) 1(7) by simp
      then show ?thesis using k(2) by simp
    qed
  qed
qed auto

text \<open>The state after a restart, compared with the state the session ended in.\<close>

definition restored :: "crypto_env \<Rightarrow> node_state \<Rightarrow> node_state \<Rightarrow> bool" where
  "restored E st st' \<longleftrightarrow>
     map header (blocks (g_chain st')) = map header (blocks (g_chain st)) \<and> g_sheetMap st' = g_sheetMap st \<and>
     g_currentSupply st' = g_currentSupply st \<and> g_currentReward st' = g_currentReward st \<and>
     (\<forall>i<length (blocks (g_chain st)). Chain_BorrowBlockTransactions st' i = Chain_BorrowBlockTransactions st i) \<and>
     Chain_IsValid E (g_chain st') \<and>
     spec_block (\<lambda>_. 0) (map transaction (chain_history st' (length (blocks (g_chain st'))))) = Some (sheet_bal (g_sheetMap st'))"

lemma flush_restored:
  assumes "net_ok E n" "FlushChainAndSheet E w k n = (n', acts, True)" "saves_ok acts" "\<forall>x. length (SHA256 E x) = 32"
    and "sheet_walk w (g_sheetMap (nn_node n'))"
  shows "restored E (nn_node n') (fst (start_up E (nn_files n') (nn_sheetFile n')))"
proof -
  obtain st' f' sf where u: "start_up E (nn_files n') (nn_sheetFile n') = (st', f', sf)" using prod_cases3 by blast
  obtain a where p: "persist_node E w k n = (n', a)" "acts = [a]" using assms(2) by (auto simp: FlushChainAndSheet_def split: prod.splits)
  obtain h where h: "a = Saved True h" "files_fit h" using p assms(2,3) by (cases a) (auto simp: FlushChainAndSheet_def)
  have s: "saves_ok [a]" using assms(3) p(2) by simp
  note f = saved_files(3) [OF assms(1) p(1) [unfolded h(1)] h(2) assms(4)]
  have "sheet_walk w (g_sheetMap (nn_node n))" using assms(5) f by simp
  note r = restart_restores_node [OF assms(1-4) this u]
  have b: "\<forall>i<length (blocks (g_chain (nn_node n))). Chain_BorrowBlockTransactions (nn_node n') i = Chain_BorrowBlockTransactions (nn_node n) i"
    by (rule persist_node_facts(3) [OF assms(1) p(1) s assms(4)])
  have hd: "map header (map strip bs) = map header bs" for bs by (simp add: strip_eq)
  show ?thesis using r b hd by (simp add: restored_def u Let_def chain_inv_def synced_def f)
qed

text \<open>
  C13: whatever is typed, the node survives it and comes back as it was. In a session that reads any input at
  its prompt while the network threads take any steps in between, whatever is mined or sent, and whether its
  saves succeed or not, the chain stays valid and the wallet is never touched. If the session began with ledger
  and chain in step, its network steps were fair (saves succeed, no peer block pays nobody), its own saves
  and the final flush succeeded, and no spend selected for mining pays nobody, then the next start finds the
  same headers, balances, supply and reward, every block readable, and a ledger that is the replay of the chain.
\<close>

theorem session_survives_restart:
  assumes "net_inv E fair (co_node c)" and "main_session E ios w input c = (c', acts, rs, saved)"
    and "session_network E fair ios" and "\<forall>x. length (SHA256 E x) = 32"
  shows "Chain_IsValid E (g_chain (nn_node (co_node c'))) \<and> co_wallet c' = co_wallet c \<and>
    (fair \<and> saved \<and> saves_ok acts \<and> mines_addressed E ios (input_lines input) c \<and> sheet_walk w (g_sheetMap (nn_node (co_node c'))) \<longrightarrow>
       restored E (nn_node (co_node c')) (fst (start_up E (nn_files (co_node c')) (nn_sheetFile (co_node c')))))"
proof -
  obtain c1 as1 n as2 where l: "command_loop E ios (input_lines input) c = (c1, as1, rs)"
    "FlushChainAndSheet E w 0 (co_node c1) = (n, as2, saved)" "c' = with_node c1 n" "acts = as1 @ as2"
    using assms(2) by (auto simp: main_session_def split: prod.splits)
  have i0: "net_inv E False (co_node c)" by (rule net_inv_weaken [OF assms(1)]) simp
  have w0: "session_network E False ios" by (rule session_network_weaken [OF assms(3)]) simp
  have c0: "net_inv E False (co_node c1)" "co_wallet c1 = co_wallet c"
    using command_loop_ok [OF l(1) i0 _ w0 assms(4)] by simp_all
  have "net_inv E False n" using Flush_ok [OF c0(1) l(2) _ assms(4)] by simp
  then have "Chain_IsValid E (g_chain (nn_node n))" using reached_chain by (auto simp: net_inv_def chain_inv_def)
  moreover have "restored E (nn_node n) (fst (start_up E (nn_files n) (nn_sheetFile n)))"
    if "fair" "saved" "saves_ok acts" "mines_addressed E ios (input_lines input) c" "sheet_walk w (g_sheetMap (nn_node n))"
  proof (rule flush_restored)
    show "net_ok E (co_node c1)"
      using command_loop_ok [OF l(1), of True] assms(1,3,4) that(1,3,4) l(4) by simp
  qed (use that l(2,4) assms(4) in auto)
  ultimately show ?thesis using c0(2) by (simp add: l(3))
qed

section \<open>A short session\<close>

definition demo_wallet :: wallet where
  "demo_wallet = \<lparr> minerAddress = replicate 32 2, minerPrivateKey = replicate 32 1, minerCompressedPubkey = replicate 33 2 \<rparr>"

definition demo_io :: console_io where
  "demo_io = \<lparr> ci_world = flush_world, ci_mine = (\<lambda>_. (flush_world, \<lparr> mi_ref = None, mi_realloc = True, mi_clock = (\<lambda>_. 0), mi_now1 = 0, mi_now2 = 0 \<rparr>)),
     ci_sync = [], ci_now1 = 0, ci_now2 = 0, ci_stack = replicate 232 0, ci_numeric4 = (\<lambda>_. False), ci_numeric6 = (\<lambda>_. False),
     ci_keys = \<lparr> ks_rand = (\<lambda>_. []), ec_pubkey_create = (\<lambda>_. None), ec_pubkey_serialize = (\<lambda>_. None) \<rparr> \<rparr>"

definition demo_console :: console where
  "demo_console = \<lparr> co_node = flush_node, co_wallet = demo_wallet, g_dagVote = 0 \<rparr>"

definition demo_input :: string where
  "demo_input = ''balance'' @ [CHR 0x0A] @ ''exit'' @ [CHR 0x0A]"

lemma demo_lines: "input_lines demo_input = [''balance'', ''exit'']"
  by (simp add: demo_input_def input_lines.simps fgets_def numeral_eq_Suc cut_line_def)

lemma demo_loop:
  "command_loop easy_env [(id, demo_io), (id, demo_io)] [''balance'', ''exit''] demo_console = (demo_console, [], [balance_of demo_console (replicate 32 2), R_Quit])"
  "mines_addressed easy_env [(id, demo_io), (id, demo_io)] [''balance'', ''exit''] demo_console"
proof -
  have w: "words_of ''balance'' = [''balance'']" "words_of ''exit'' = [''exit'']" by (rule words_of_Cons(1); simp add: blank_def)+
  have c: "with_node demo_console (id (co_node demo_console)) = demo_console" by (simp add: with_node_def)
  have b: "balance_of demo_console a \<noteq> R_Quit" for a by (simp add: balance_of_def)
  show "command_loop easy_env [(id, demo_io), (id, demo_io)] [''balance'', ''exit''] demo_console = (demo_console, [], [balance_of demo_console (replicate 32 2), R_Quit])"
    using b by (simp add: w run_command_def quiet_def c demo_console_def [THEN arg_cong, of co_wallet] demo_wallet_def del: id_apply)
  show "mines_addressed easy_env [(id, demo_io), (id, demo_io)] [''balance'', ''exit''] demo_console"
    using b by (simp add: w run_command_def quiet_def c mine_minable_def Let_def del: id_apply)
qed

theorem session_survives_restart_witness:
  "\<exists>c' acts rs. main_session easy_env [(id, demo_io), (id, demo_io)] flush_world demo_input demo_console = (c', acts, rs, True) \<and>
     length rs = 2 \<and> restored easy_env (nn_node (co_node c')) (fst (start_up easy_env (nn_files (co_node c')) (nn_sheetFile (co_node c'))))"
proof -
  obtain n' acts where f: "FlushChainAndSheet easy_env flush_world 0 flush_node = (n', acts, True)" "saves_ok acts" using flush_succeeds by blast
  have m: "main_session easy_env [(id, demo_io), (id, demo_io)] flush_world demo_input demo_console =
      (with_node demo_console n', acts, [balance_of demo_console (replicate 32 2), R_Quit], True)"
    unfolding main_session_def demo_lines demo_loop(1) using f(1) by (simp add: demo_console_def)
  have "g_sheetMap (nn_node n') = g_sheetMap (nn_node flush_node)"
    using f(1) by (auto simp: FlushChainAndSheet_def persist_node_def Let_def split: prod.splits)
  then have "sheet_walk flush_world (g_sheetMap (nn_node (co_node (with_node demo_console n'))))"
    by (simp add: sheet_walk_def flush_node_facts(3) flush_world_def)
  moreover have "net_ok easy_env (co_node demo_console)" using flush_node_facts(1) by (simp add: demo_console_def)
  moreover have "session_network easy_env True [(id, demo_io), (id, demo_io)]" by (simp add: session_network_def by_network_def demo_io_def)
  ultimately show ?thesis
    using session_survives_restart [OF _ m _ easy_sha, of True] m f(2) demo_loop(2) demo_lines by auto
qed

end
