(* ===== verification/Command_Spend.thy ===== *)
theory Command_Spend
  imports Command_Line
begin

text \<open>
  What the operator's spending commands do: the wallet survives a restart, \<^verbatim>\<open>sendrawtx\<close> pools and sends the
  transaction that was typed, and \<^verbatim>\<open>send\<close> signs the one its arguments describe; and where they fail.
\<close>

section \<open>Raw transactions\<close>

lemma to_hex_Cons: "to_hex (b # bs) = hex_digit (unat (drop_bit 4 b)) # hex_digit (unat (b AND 0x0F)) # to_hex bs"
  by (simp add: to_hex_def)

lemma byte_of_nibbles: "(ucast (of_nat (unat (drop_bit 4 b) * 16 + unat (b AND 0x0F)) :: u64) :: byte) = b"
proof -
  have "b AND 0x0F = take_bit 4 b" using and_mask_take_bit [of b 4] by simp
  then have "unat (b AND 0x0F) = unat b mod 16" by (simp only: unat_take_bit) simp
  moreover have "unat (drop_bit 4 b) = unat b div 16" by (simp add: unat_drop_bit)
  ultimately have "unat (drop_bit 4 b) * 16 + unat (b AND 0x0F) = unat b" by simp
  then show ?thesis using unat_lt_8 [of b] by (simp add: word_unat_eq_iff unat_ucast_take)
qed

lemma raw_pair: fixes b :: byte shows "strtoull 16 [hex_digit (unat (drop_bit 4 b)), hex_digit (unat (b AND 0x0F))] = (of_nat (unat (drop_bit 4 b) * 16 + unat (b AND 0x0F)), [])"
  using nibble_bounds [of b] by (rule strtoull_hex_pair)

lemma raw_bytes_hex: "length stack = length bs \<Longrightarrow> raw_bytes stack (to_hex bs) = bs"
proof (induction bs arbitrary: stack)
  case (Cons b bs)
  obtain s stack' where "stack = s # stack'" "length stack' = length bs" using Cons.prems by (cases stack) auto
  then show ?case using Cons.IH byte_of_nibbles [of b] by (simp add: to_hex_Cons raw_pair)
qed (simp add: to_hex_def)

text \<open>A pair that is not hexadecimal leaves the byte of the stack.\<close>

lemma raw_bytes_bad_pair:
  "length stack = length bs \<Longrightarrow> i < length bs \<Longrightarrow> raw_bytes stack ((to_hex bs)[2 * i := CHR ''z'', Suc (2 * i) := CHR ''z'']) = bs[i := stack ! i]"
proof (induction bs arbitrary: stack i)
  case (Cons b bs)
  obtain s stack' where st: "stack = s # stack'" "length stack' = length bs" using Cons.prems by (cases stack) auto
  have z: "strtoull 16 [CHR ''z'', CHR ''z''] = (0, ''zz'')" by (simp add: strtoull_def scan_number_def isspace_def digit_of_def hex_value_def)
  show ?case
  proof (cases i)
    case 0
    then show ?thesis using st raw_bytes_hex [OF st(2)] z by (simp add: to_hex_Cons)
  next
    case (Suc j)
    then show ?thesis using st Cons.IH [OF st(2), of j] Cons.prems byte_of_nibbles [of b] by (simp add: to_hex_Cons raw_pair)
  qed
qed simp

text \<open>A transaction goes out on every outbound connection that works.\<close>

lemma send_all_sends:
  "conn \<in> set cs \<Longrightarrow> w_sendOk w (conn_ptr conn) \<Longrightarrow> length payload < TCP_MAX_FRAME_PAYLOAD \<Longrightarrow> PacketType_IsValid t \<Longrightarrow>
     Sent (conn_ptr conn) t payload \<in> set (send_all w cs t payload)"
  by (induction cs) (auto simp: Node_SendPacket_def TcpConnection_SendFramed_def)

lemma broadcast_sends:
  assumes "stx_wf tx" "conn \<in> set (outbound_conns (nn_conns n))" "w_sendOk w (conn_ptr conn)"
  shows "Sent (conn_ptr conn) PACKET_TYPE_BROADCAST_TX (stx_image tx) \<in> set (Node_BroadcastTransaction w n tx None)"
  unfolding Node_BroadcastTransaction_def using assms stx_codec.image_length [OF assms(1)]
  by (intro send_all_sends) (simp_all add: TCP_MAX_FRAME_PAYLOAD_def PacketType_IsValid_def packet_types)

lemma hex_nonblank: "list_all (\<lambda>c. \<not> blank c) (to_hex bs)"
  using hex_digit_plain nibble_bounds by (induction bs) (auto simp: to_hex_Cons, simp add: to_hex_def)

definition pooled :: "crypto_env \<Rightarrow> console \<Rightarrow> signed_transaction_t \<Rightarrow> console" where
  "pooled E c tx = with_node c ((co_node c)\<lparr> nn_node := (nn_node (co_node c))\<lparr>
     g_txMempool := fst (TxMempool_Insert E (g_txMempool (nn_node (co_node c))) tx) \<rparr> \<rparr>)"

lemma sendrawtx_accepts:
  assumes "length h = 464" "stx_of_image (raw_bytes (ci_stack io) h) = tx" "Transaction_Verify E tx" "TxMempool_PolicyAccepts tx (ci_now1 io)"
    and "g_txMempool (nn_node (co_node c)) = Some m"
  shows "run_command E io c ''sendrawtx'' [h] = (pooled E c tx, Node_BroadcastTransaction (ci_world io) (co_node (pooled E c tx)) tx None, R_Raw_Pooled tx)"
proof -
  have "snd (TxMempool_Insert E (Some m) tx) \<ge> 0" by (simp add: TxMempool_Insert_def Let_def)
  then show ?thesis using assms by (simp add: run_command_def pooled_def Let_def case_prod_unfold)
qed

text \<open>
  C14: \<^verbatim>\<open>sendrawtx\<close> pools and sends exactly the transaction typed. The hexadecimal notation of any transaction that
  verifies and is dated within the admission window is one word of the line; the command puts this transaction
  into the pool, sends it on every outbound connection that works, and \<^verbatim>\<open>txpooldetail\<close> with the hash it prints
  then shows it.
\<close>

theorem sendrawtx_pools_typed:
  assumes "stx_wf tx" and "Transaction_Verify E tx" and "TxMempool_PolicyAccepts tx (ci_now1 io)"
    and "g_txMempool (nn_node (co_node c)) = Some m" and "length (ci_stack io) = 232" and "\<forall>x. length (SHA256 E x) = 32"
  shows "words_of (''sendrawtx '' @ to_hex (stx_image tx)) = [''sendrawtx'', to_hex (stx_image tx)] \<and>
    (\<exists>c' acts. run_command E io c ''sendrawtx'' [to_hex (stx_image tx)] = (c', acts, R_Raw_Pooled tx) \<and>
       (\<forall>conn \<in> set (outbound_conns (nn_conns (co_node c))). w_sendOk (ci_world io) (conn_ptr conn) \<longrightarrow>
          Sent (conn_ptr conn) PACKET_TYPE_BROADCAST_TX (stx_image tx) \<in> set acts) \<and>
       run_command E io c' ''txpooldetail'' [AddressToHexString (Transaction_CalculateHash E tx)] = (c', [], R_Tx tx (Transaction_CalculateHash E tx)))"
proof -
  let ?h = "to_hex (stx_image tx)" and ?x = "Transaction_CalculateHash E tx"
  have len: "length (stx_image tx) = 232" by (rule stx_codec.image_length [OF assms(1)])
  then have h: "length ?h = 464" "?h \<noteq> []" using length_to_hex [of "stx_image tx"] by auto
  have "words_of (''sendrawtx'' @ CHR '' '' # ?h) = [''sendrawtx'', ?h]"
    using words_of_Cons(2) [of "''sendrawtx''" ?h] words_of_Cons(1) [OF h(2) hex_nonblank] by (simp add: blank_def)
  moreover have "stx_of_image (raw_bytes (ci_stack io) ?h) = tx"
    using raw_bytes_hex [of "ci_stack io" "stx_image tx"] len assms(5) stx_codec.dec_image [OF assms(1)] by simp
  note run = sendrawtx_accepts [OF h(1) this assms(2-4)]
  have "length ?x = 32" using assms(6) by (simp add: Transaction_CalculateHash_def sha256d_def)
  then have "ParseHexAddress32 (AddressToHexString ?x) = Some ?x"
    using length_to_hex [of ?x] by (simp add: ParseHexAddress32_def AddressToHexString_def skip_0x_to_hex parse_hex_pairs_to_hex Let_def)
  moreover have "TxMempool_Lookup (g_txMempool (nn_node (co_node (pooled E c tx)))) ?x = Some tx"
    using assms(4) by (simp add: pooled_def TxMempool_Insert_def TxMempool_Lookup_def Let_def)
  ultimately show ?thesis using run broadcast_sends [OF assms(1)] by (auto simp: run_command_def quiet_def pooled_def)
qed

text \<open>
  \<^verbatim>\<open>sendrawtx\<close> does not stop at a character that is not hexadecimal. With such a pair at byte \<open>i\<close> it goes on with
  the byte its uninitialised variable happens to hold there, and if that makes a valid transaction, pools and
  sends one nobody typed.
\<close>

lemma sendrawtx_uninitialised_byte:
  assumes "stx_wf tx" and "i < 232" and "length (ci_stack io) = 232" and "tx' = stx_of_image ((stx_image tx)[i := ci_stack io ! i])"
    and "Transaction_Verify E tx'" and "TxMempool_PolicyAccepts tx' (ci_now1 io)" and "g_txMempool (nn_node (co_node c)) = Some m"
  shows "\<exists>c' acts. run_command E io c ''sendrawtx'' [(to_hex (stx_image tx))[2 * i := CHR ''z'', Suc (2 * i) := CHR ''z'']] = (c', acts, R_Raw_Pooled tx')"
proof -
  have len: "length (stx_image tx) = 232" by (rule stx_codec.image_length [OF assms(1)])
  then have "stx_of_image (raw_bytes (ci_stack io) ((to_hex (stx_image tx))[2 * i := CHR ''z'', Suc (2 * i) := CHR ''z''])) = tx'"
    using raw_bytes_bad_pair [of "ci_stack io" "stx_image tx" i] assms(2-4) by simp
  moreover have "length ((to_hex (stx_image tx))[2 * i := CHR ''z'', Suc (2 * i) := CHR ''z'']) = 464" using length_to_hex [of "stx_image tx"] len by simp
  ultimately show ?thesis using sendrawtx_accepts [OF _ _ assms(5-7)] by blast
qed

section \<open>Sending\<close>

lemma send_pooled:
  assumes "send_command E w wl n a amount txFee broadcast now1 now2 = (n', acts, SEND_POOLED tx)"
  shows "\<exists>recipient. ParseHexAddress32 a = Some recipient \<and> amount \<noteq> 0 \<and> tx = Transaction_Sign E (spend_of wl recipient amount txFee now1) (minerPrivateKey wl) \<and>
    TxMempool_Lookup (g_txMempool (nn_node n')) (Transaction_CalculateHash E tx) = Some tx"
  using assms by (auto simp: send_command_def TxMempool_Insert_def TxMempool_Lookup_def Let_def split: option.splits if_splits prod.splits)

text \<open>
  C15: \<^verbatim>\<open>send\<close> signs the payment its arguments describe, and nothing checks that it is one. What is pooled pays the
  typed amount and fee to the typed address, and it verifies if and only if the fee does not exceed the amount
  and the recipient is not the coinbase marker: otherwise the node pools and sends a transaction that every
  node, itself included, rejects.
\<close>

theorem send_verifies_iff:
  assumes "cmd_send E io c (addressStr # amountStr # opts) = (c', acts, R_Send (SEND_POOLED tx))"
    and "ecdsa_signs E (minerPrivateKey (co_wallet c)) (minerCompressedPubkey (co_wallet c))"
    and "minerAddress (co_wallet c) = AddressFromCompressedPubkey E (minerCompressedPubkey (co_wallet c))"
    and "\<not> Address_IsCoinbase (minerAddress (co_wallet c))"
  shows "ParseHexAddress32 addressStr = Some (recipientAddress1 (transaction tx)) \<and> number_arg amountStr = Some (amount1 (transaction tx)) \<and>
    fee_arg opts = Some (fee (transaction tx)) \<and> senderAddress (transaction tx) = minerAddress (co_wallet c) \<and> amount2 (transaction tx) = 0 \<and>
    TxMempool_Lookup (g_txMempool (nn_node (co_node c'))) (Transaction_CalculateHash E tx) = Some tx \<and>
    (Transaction_Verify E tx \<longleftrightarrow> fee (transaction tx) \<le> amount1 (transaction tx) \<and> \<not> Address_IsCoinbase (recipientAddress1 (transaction tx)))"
proof -
  obtain amount txFee bc n where s: "number_arg amountStr = Some amount" "fee_arg opts = Some txFee"
    "send_command E (ci_world io) (co_wallet c) (co_node c) addressStr amount txFee bc (ci_now1 io) (ci_now2 io) = (n, acts, SEND_POOLED tx)"
    "c' = with_node c n"
    using assms(1) by (auto split: option.splits if_splits prod.splits)
  from send_pooled [OF s(3)] obtain recipient where r: "ParseHexAddress32 addressStr = Some recipient" "amount \<noteq> 0"
    "tx = Transaction_Sign E (spend_of (co_wallet c) recipient amount txFee (ci_now1 io)) (minerPrivateKey (co_wallet c))"
    "TxMempool_Lookup (g_txMempool (nn_node n)) (Transaction_CalculateHash E tx) = Some tx" by blast
  let ?s = "spend_of (co_wallet c) recipient amount txFee (ci_now1 io)"
  have t: "transaction tx = transaction ?s" by (simp add: r(3) Transaction_Sign_def)
  have f: "recipientAddress1 (transaction ?s) = recipient" "amount1 (transaction ?s) = amount" "fee (transaction ?s) = txFee"
    "senderAddress (transaction ?s) = minerAddress (co_wallet c)" "amount2 (transaction ?s) = 0" "recipientAddress2 (transaction ?s) = zeroAddress"
    "compressedPublicKey (transaction ?s) = minerCompressedPubkey (co_wallet c)" "tx_version (transaction ?s) = 1"
    by (simp_all add: spend_of_def zeroAddress_def)
  have z: "\<not> Address_IsCoinbase zeroAddress" by (simp add: Address_IsCoinbase_def zeroAddress_def list_all_iff)
  have "Transaction_Verify E tx" if "txFee \<le> amount" "\<not> Address_IsCoinbase recipient"
    unfolding r(3) by (rule Transaction_Sign_Verify) (use assms(2-4) r(2) that z in \<open>simp_all add: f AddressFromCompressedPubkey_def\<close>)
  moreover have "txFee \<le> amount \<and> \<not> Address_IsCoinbase recipient" if "Transaction_Verify E tx"
    using that assms(4) by (auto simp: Transaction_Verify_def t f Let_def split: if_splits)
  ultimately show ?thesis using s r t f by auto
qed

section \<open>The wallet\<close>

lemma generate_loop_facts:
  "generate_loop E ks i k = Some wl \<Longrightarrow> \<exists>j pub. minerPrivateKey wl = ks_rand ks j \<and> ec_seckey_verify E (minerPrivateKey wl) \<and>
     ec_pubkey_create ks (minerPrivateKey wl) = Some pub \<and> ec_pubkey_serialize ks pub = Some (minerCompressedPubkey wl) \<and>
     length (minerCompressedPubkey wl) = 33 \<and> minerAddress wl = AddressFromCompressedPubkey E (minerCompressedPubkey wl)"
  by (induction E ks i k rule: generate_loop.induct) (auto simp: Let_def split: if_splits option.splits)

lemma read_wallet_image:
  "length (minerPrivateKey wl) = 32 \<Longrightarrow> length (minerCompressedPubkey wl) = 33 \<Longrightarrow> length (minerAddress wl) = 32 \<Longrightarrow> read_wallet (wallet_image wl) = Some wl"
  by (simp add: read_wallet_def wallet_image_def)

text \<open>
  The identity of a node outlives the process. The wallet made on the first start belongs to its key, the address
  being the hash of the public key, and every later start that can read the file comes up with the same wallet and
  leaves the file alone; a file cut off anywhere makes the process exit instead of using a part of a key.
\<close>

lemma wallet_persists:
  assumes "load_wallet E ks opened creatable writable None = (Some wl, file)" and "\<forall>i. length (ks_rand ks i) = 32" and "\<forall>x. length (SHA256 E x) = 32"
  shows "file = Some (wallet_image wl) \<and> load_wallet E ks' True creatable' writable' file = (Some wl, file) \<and>
    ec_seckey_verify E (minerPrivateKey wl) \<and> minerAddress wl = AddressFromCompressedPubkey E (minerCompressedPubkey wl) \<and>
    (\<forall>k < 97. load_wallet E ks' True creatable' writable' (Some (take k (wallet_image wl))) = (None, Some (take k (wallet_image wl))))"
proof -
  have g: "generate_loop E ks 0 4096 = Some wl" "file = Some (wallet_image wl)"
    using assms(1) by (auto simp: load_wallet_def GenerateRandomTestAddress_def split: option.splits if_splits)
  from generate_loop_facts [OF g(1)] assms(2,3) have f: "length (minerPrivateKey wl) = 32" "length (minerCompressedPubkey wl) = 33" "length (minerAddress wl) = 32"
    "ec_seckey_verify E (minerPrivateKey wl)" "minerAddress wl = AddressFromCompressedPubkey E (minerCompressedPubkey wl)"
    by (auto simp: AddressFromCompressedPubkey_def)
  have "length (wallet_image wl) = 97" using f(1-3) by (simp add: wallet_image_def)
  then have "read_wallet (take k (wallet_image wl)) = None" if "k < 97" for k using that by (auto simp: read_wallet_def)
  then show ?thesis using g(2) read_wallet_image [OF f(1-3)] f(4,5) by (simp add: load_wallet_def)
qed

text \<open>A start that cannot read an existing file for any reason replaces the key in it.\<close>

lemma unreadable_wallet_replaced:
  "GenerateRandomTestAddress E ks = Some wl \<Longrightarrow> length (wallet_image wl) \<le> writable \<Longrightarrow>
     load_wallet E ks False True writable (Some old) = (Some wl, Some (wallet_image wl))"
  by (simp add: load_wallet_def)

section \<open>Balances\<close>

text \<open>
  C16: \<^verbatim>\<open>balance\<close> prints the balance. The string shown for an address is the decimal notation of its 256-bit balance,
  zero for one that is not in the sheet, never truncated; and reading it back as an amount gives that number, or
  the largest amount there is when it does not fit 64 bits.
\<close>

theorem balance_prints_decimal:
  "\<exists>v. cmd_balance c [AddressToHexString a] = (if length a = 32 then R_Balance a (dec v) else R_Invalid) \<and>
     v = (case BalanceSheet_Lookup (g_sheetMap (nn_node (co_node c))) a of None \<Rightarrow> 0 | Some entry \<Rightarrow> u256_val (balance entry)) \<and>
     number_arg (dec v) = Some (if v < 2 ^ 64 then of_nat v else UINT64_MAX)"
proof -
  let ?b = "case BalanceSheet_Lookup (g_sheetMap (nn_node (co_node c))) a of None \<Rightarrow> uint256_from_u64 0 | Some entry \<Rightarrow> balance entry"
  have p: "ParseHexAddress32 (AddressToHexString a) = (if length a = 32 then Some a else None)"
    using length_to_hex [of a] by (simp add: ParseHexAddress32_def AddressToHexString_def skip_0x_to_hex parse_hex_pairs_to_hex Let_def)
  have "length (dec (u256_val ?b)) \<le> Suc 77" using u256_val_bound [of ?b] TWO256_digits by (intro length_dec) simp
  then have d: "Uint256ToDecimal ?b 80 = Some (dec (u256_val ?b))" by (simp add: ToDecimal_dec)
  have "even (length (AddressToHexString a))" using length_to_hex [of a] by (simp add: AddressToHexString_def)
  then have n: "AddressToHexString a \<noteq> ''all''" by auto
  have "u256_val ?b = (case BalanceSheet_Lookup (g_sheetMap (nn_node (co_node c))) a of None \<Rightarrow> 0 | Some entry \<Rightarrow> u256_val (balance entry))"
    by (simp split: option.split)
  then show ?thesis using p d n number_arg_dec by (simp add: balance_of_def)
qed

section \<open>Concrete commands\<close>

definition demo_paying :: wallet where
  "demo_paying = \<lparr> minerAddress = replicate 32 2, minerPrivateKey = replicate 32 1, minerCompressedPubkey = replicate 33 2 \<rparr>"

definition spend_console :: console where
  "spend_console = \<lparr> co_node = (Node_Create quiet_world None)\<lparr> nn_node := fresh_node\<lparr> g_sheetMap :=
       Some [replicate 32 2 \<mapsto> (fresh_entry (replicate 32 2))\<lparr> balance := uint256_from_u64 1000 \<rparr>] \<rparr> \<rparr>, co_wallet = demo_paying, g_dagVote = 0 \<rparr>"

text \<open>Signatures of 64 bytes: the first 32 of the digest, padded.\<close>

definition console_env :: crypto_env where
  "console_env = demo_env\<lparr> ecdsa_sign := (\<lambda>d k. Some (take 32 (d @ replicate 32 0))), ecdsa_signature_serialize_compact := (\<lambda>s. s @ replicate 32 0),
     ecdsa_signature_parse_compact := (\<lambda>s. Some (take 32 s)), ecdsa_verify := (\<lambda>s d p. s = take 32 (d @ replicate 32 0)) \<rparr>"

definition console_tx :: signed_transaction_t where
  "console_tx = Transaction_Sign console_env demo_tx []"

lemma console_env_facts: "\<forall>x. length (SHA256 console_env x) = 32" "ecdsa_signs console_env sk pk" "SHA256 console_env (replicate 33 2) = replicate 32 2"
  by (simp_all add: console_env_def demo_env_def ecdsa_signs_def min_def)

lemma console_tx_ok:
  "stx_wf console_tx" "Transaction_Verify console_env console_tx" "TxMempool_PolicyAccepts console_tx 5"
  "g_txMempool (nn_node (co_node spend_console)) = Some Map.empty"
proof -
  have "length (Crypto_SignData console_env d []) = 64" for d
    by (simp add: Crypto_SignData_def console_env_def demo_env_def crypto_hash_to_32_def min_def)
  then show "stx_wf console_tx" by (simp add: stx_wf_def tx_wf_def console_tx_def Transaction_Sign_def demo_tx_def zeroAddress_def)
  show "Transaction_Verify console_env console_tx"
    unfolding console_tx_def by (rule Transaction_Sign_Verify [OF console_env_facts(2)])
      (simp_all add: demo_tx_def console_env_facts(3) Address_IsCoinbase_def zeroAddress_def list_all_iff)
qed (simp_all add: console_tx_def Transaction_Sign_def demo_tx_def TxMempool_PolicyAccepts_def spend_console_def fresh_node_def TxMempool_Init_def)

theorem sendrawtx_pools_typed_witness:
  "\<exists>c' acts. run_command console_env (demo_io\<lparr> ci_now1 := 5 \<rparr>) spend_console ''sendrawtx'' [to_hex (stx_image console_tx)] = (c', acts, R_Raw_Pooled console_tx)"
  using sendrawtx_pools_typed [OF console_tx_ok(1,2) _ console_tx_ok(4) _ console_env_facts(1), of "demo_io\<lparr> ci_now1 := 5 \<rparr>"] console_tx_ok(3)
  by (auto simp: demo_io_def)

text \<open>Paying ten with a fee of eleven.\<close>

lemma demo_args: "number_arg ''10'' = Some 10" "fee_arg [''11''] = Some 11" "broadcast_arg [''11''] = Some True"
  by (simp_all add: number_arg_def strtoull_def scan_number_def isspace_def digit_of_def hex_value_def fee_arg_def broadcast_arg_def)

lemma demo_send:
  "\<exists>c' acts tx. cmd_send console_env demo_io spend_console [to_hex (replicate 32 3), ''10'', ''11''] = (c', acts, R_Send (SEND_POOLED tx))"
proof -
  have p: "ParseHexAddress32 (to_hex (replicate 32 3)) = Some (replicate 32 3)"
    using length_to_hex [of "replicate 32 3"] by (simp add: ParseHexAddress32_def skip_0x_to_hex parse_hex_pairs_to_hex Let_def)
  have l: "BalanceSheet_Lookup (g_sheetMap (nn_node (co_node spend_console))) (minerAddress (co_wallet spend_console)) =
      Some ((fresh_entry (replicate 32 2))\<lparr> balance := uint256_from_u64 1000 \<rparr>)"
    by (simp add: spend_console_def demo_paying_def BalanceSheet_Lookup_def)
  have u: "\<not> uint256_cmp (uint256_from_u64 1000) (uint256_from_u64 10) < 0" by (simp add: uint256_cmp_val)
  have f: "\<not> (11 :: u64) > UINT64_MAX - 10" by simp
  have w: "TxMempool_PolicyAccepts (Transaction_Sign console_env (spend_of wl r x y 0) sk) 0" for wl r x y sk
    by (simp add: TxMempool_PolicyAccepts_def Transaction_Sign_def spend_of_def)
  have t: "ci_now1 demo_io = 0" "ci_now2 demo_io = 0" by (simp_all add: demo_io_def)
  show ?thesis
    using p l u f w console_tx_ok(4) by (simp add: send_command_def demo_args t TxMempool_Insert_def Let_def)
qed

theorem send_verifies_iff_witness:
  "\<exists>c' acts tx. cmd_send console_env demo_io spend_console [to_hex (replicate 32 3), ''10'', ''11''] = (c', acts, R_Send (SEND_POOLED tx)) \<and>
     \<not> Transaction_Verify console_env tx"
proof -
  obtain c' acts tx where s: "cmd_send console_env demo_io spend_console [to_hex (replicate 32 3), ''10'', ''11''] = (c', acts, R_Send (SEND_POOLED tx))"
    using demo_send by blast
  have w: "minerAddress (co_wallet spend_console) = AddressFromCompressedPubkey console_env (minerCompressedPubkey (co_wallet spend_console))"
    "\<not> Address_IsCoinbase (minerAddress (co_wallet spend_console))"
    by (simp_all add: spend_console_def demo_paying_def AddressFromCompressedPubkey_def console_env_facts(3) Address_IsCoinbase_def list_all_iff)
  note v = send_verifies_iff [OF s console_env_facts(2) w, unfolded demo_args(1,2)]
  then have "amount1 (transaction tx) = 10" "fee (transaction tx) = 11" by simp_all
  then show ?thesis using v s by auto
qed

definition demo_keys :: key_source where
  "demo_keys = \<lparr> ks_rand = (\<lambda>_. replicate 32 1), ec_pubkey_create = Some, ec_pubkey_serialize = (\<lambda>p. Some (2 # p)) \<rparr>"

end
