(* ===== verification/Udp_Node.thy ===== *)
theory Udp_Node
  imports Node_Discovery Utils "HOL-Library.Multiset"
begin

text \<open>
  The UDP daemon that measures latencies (\<^verbatim>\<open>src/udpd/udpnode.c\<close>): the table of pending pings, the answers to pings
  and pongs, the retry thread, start and stop, and the callbacks into the peer discovery (\<^verbatim>\<open>src/nets/net_node.c\<close>).
  What the operating system answers (descriptors, clock, random nonces, whether a thread can be started) is an
  argument; datagrams sent and callbacks made are results. The table is changed under its lock, so an operation
  on it is atomic.
\<close>

section \<open>State\<close>

definition UDP_PING_RETRY_INTERVAL_MS :: u64 where "UDP_PING_RETRY_INTERVAL_MS = 1000"
definition UDP_PING_MAX_RETRIES :: nat where "UDP_PING_MAX_RETRIES = 3"
definition UDP_MAX_PENDING_PINGS :: nat where "UDP_MAX_PENDING_PINGS = 64"
definition UDP_PACKET_TYPE_PING :: byte where "UDP_PACKET_TYPE_PING = 1"
definition UDP_PACKET_TYPE_PONG :: byte where "UDP_PACKET_TYPE_PONG = 2"
definition UDP_PING_WIRE_SIZE :: nat where "UDP_PING_WIRE_SIZE = 9"
definition UDP_PONG_WIRE_SIZE :: nat where "UDP_PONG_WIRE_SIZE = 13"

lemmas udp_consts = UDP_PING_RETRY_INTERVAL_MS_def UDP_PING_MAX_RETRIES_def UDP_MAX_PENDING_PINGS_def UDP_PACKET_TYPE_PING_def
  UDP_PACKET_TYPE_PONG_def UDP_PING_WIRE_SIZE_def UDP_PONG_WIRE_SIZE_def

record pending_ping_t =
  pp_nonce :: u64
  pp_dest :: sockaddr_storage
  pp_lastSentMs :: u64
  pp_retries :: nat
  pp_active :: bool

text \<open>A thread handle is \<open>None\<close> as long as no thread has been started into it.\<close>

record udp_node_t =
  un_sockFd :: int
  un_sockFdV4 :: int
  un_isRunning :: bool
  recvThreadV6 :: "nat option"
  recvThreadV4 :: "nat option"
  retryThread :: "nat option"
  pendingPings :: "pending_ping_t list"

text \<open>A datagram: socket, bytes, destination; and the two callbacks.\<close>

type_synonym datagram = "int \<times> byte list \<times> sockaddr_storage"

datatype udp_event = On_Pong sockaddr_storage u64 u32 u64 | On_Ping_Timeout sockaddr_storage u64

definition no_ping :: pending_ping_t where
  "no_ping = \<lparr> pp_nonce = 0, pp_dest = SA_other 0, pp_lastSentMs = 0, pp_retries = 0, pp_active = False \<rparr>"

section \<open>Life cycle\<close>

text \<open>
  \<open>fd6\<close> and \<open>fd4\<close> are what \<^verbatim>\<open>socket\<close> returns, \<open>bound6\<close> and \<open>bound4\<close> whether \<^verbatim>\<open>bind\<close> succeeds; a descriptor that cannot
  be bound is closed.
\<close>

definition UdpNode_Init :: "int \<Rightarrow> bool \<Rightarrow> int \<Rightarrow> bool \<Rightarrow> int \<times> udp_node_t" where
  "UdpNode_Init fd6 bound6 fd4 bound4 =
     (let node = \<lparr> un_sockFd = bound_socket fd6 bound6, un_sockFdV4 = bound_socket fd4 bound4, un_isRunning = False,
                   recvThreadV6 = None, recvThreadV4 = None, retryThread = None,
                   pendingPings = replicate UDP_MAX_PENDING_PINGS no_ping \<rparr>
      in if un_sockFd node < 0 \<and> un_sockFdV4 node < 0 then (-1, node) else (0, node))"

text \<open>\<open>t6\<close>, \<open>t4\<close> and \<open>tr\<close> are the handles of the started threads, \<open>None\<close> when one could not be started.\<close>

definition UdpNode_Start :: "nat option \<Rightarrow> nat option \<Rightarrow> nat option \<Rightarrow> udp_node_t \<Rightarrow> int \<times> udp_node_t" where
  "UdpNode_Start t6 t4 tr node =
     (if un_isRunning node then (-1, node)
      else if un_sockFd node < 0 \<and> un_sockFdV4 node < 0 then (-1, node)
      else
        let n1 = node\<lparr> un_isRunning := True \<rparr>;
            n2 = (if un_sockFd n1 \<ge> 0 \<and> t6 \<noteq> None then n1\<lparr> recvThreadV6 := t6 \<rparr> else n1);
            n3 = (if un_sockFdV4 n2 \<ge> 0 \<and> t4 \<noteq> None then n2\<lparr> recvThreadV4 := t4 \<rparr> else n2);
            n4 = (if tr \<noteq> None then n3\<lparr> retryThread := tr \<rparr> else n3);
            anyStarted = (un_sockFd n1 \<ge> 0 \<and> t6 \<noteq> None \<or> un_sockFdV4 n2 \<ge> 0 \<and> t4 \<noteq> None \<or> tr \<noteq> None)
        in if \<not> anyStarted then (-1, n4\<lparr> un_isRunning := False \<rparr>) else (0, n4))"

text \<open>Joining a handle no thread was started into is undefined behaviour and has no result.\<close>

definition pthread_join :: "nat option \<Rightarrow> unit option" where
  "pthread_join t = map_option (\<lambda>_. ()) t"

definition UdpNode_Stop :: "udp_node_t \<Rightarrow> udp_node_t option" where
  "UdpNode_Stop node =
     (if \<not> un_isRunning node then Some node
      else
        let n1 = node\<lparr> un_isRunning := False, un_sockFd := -1, un_sockFdV4 := -1 \<rparr>
        in Option.bind (pthread_join (recvThreadV6 n1)) (\<lambda>_.
           Option.bind (pthread_join (recvThreadV4 n1)) (\<lambda>_.
           Option.bind (pthread_join (retryThread n1)) (\<lambda>_. Some n1))))"

definition UdpNode_Destroy :: "udp_node_t \<Rightarrow> udp_node_t" where
  "UdpNode_Destroy node = node\<lparr> un_sockFd := -1, un_sockFdV4 := -1 \<rparr>"

section \<open>Pings\<close>

definition ping_packet :: "u64 \<Rightarrow> byte list" where
  "ping_packet nonce = UDP_PACKET_TYPE_PING # le_bytes 8 (unat nonce)"

fun UdpNode_SendRawPing :: "udp_node_t \<Rightarrow> u64 \<Rightarrow> sockaddr_storage \<Rightarrow> datagram list" where
  "UdpNode_SendRawPing node nonce (SA6 ip port) =
     (if un_sockFd node \<ge> 0 then [(un_sockFd node, ping_packet nonce, SA6 ip port)] else [])"
| "UdpNode_SendRawPing node nonce (SA4 ip port) =
     (if un_sockFdV4 node \<ge> 0 then [(un_sockFdV4 node, ping_packet nonce, SA4 ip port)] else [])"
| "UdpNode_SendRawPing node nonce (SA_other f) = []"

fun first_free :: "pending_ping_t list \<Rightarrow> nat \<Rightarrow> nat option" where
  "first_free [] i = None"
| "first_free (p # ps) i = (if \<not> pp_active p then Some i else first_free ps (Suc i))"

definition UdpNode_SendPing :: "u64 \<Rightarrow> u64 \<Rightarrow> udp_node_t \<Rightarrow> sockaddr_storage \<Rightarrow> int \<times> udp_node_t \<times> datagram list" where
  "UdpNode_SendPing nonce now node dest =
     (if un_sockFd node < 0 \<and> un_sockFdV4 node < 0 then (-1, node, [])
      else case first_free (pendingPings node) 0 of
        None \<Rightarrow> (-1, node, [])
      | Some slot \<Rightarrow>
          let ping = \<lparr> pp_nonce = nonce, pp_dest = dest, pp_lastSentMs = now, pp_retries = 0, pp_active = True \<rparr>;
              node' = node\<lparr> pendingPings := (pendingPings node)[slot := ping] \<rparr>
          in (0, node', UdpNode_SendRawPing node' nonce dest))"

section \<open>Incoming datagrams\<close>

definition pong_packet :: "u64 \<Rightarrow> byte list" where
  "pong_packet nonce = UDP_PACKET_TYPE_PONG # le_bytes 8 (unat nonce) @ le_bytes 4 (unat PROTO_VERSION)"

text \<open>The first active ping with the nonce.\<close>

fun find_ping :: "u64 \<Rightarrow> pending_ping_t list \<Rightarrow> nat \<Rightarrow> nat option" where
  "find_ping nonce [] i = None"
| "find_ping nonce (p # ps) i = (if pp_active p \<and> pp_nonce p = nonce then Some i else find_ping nonce ps (Suc i))"

definition handle_pong :: "u64 \<Rightarrow> udp_node_t \<Rightarrow> byte list \<Rightarrow> sockaddr_storage \<Rightarrow> udp_node_t \<times> udp_event list" where
  "handle_pong now node buf from =
     (let nonce = of_nat (le_val (bytes_at 1 8 buf)); protoVer = of_nat (le_val (bytes_at 9 4 buf))
      in case find_ping nonce (pendingPings node) 0 of
           None \<Rightarrow> (node, [])
         | Some i \<Rightarrow>
             let p = pendingPings node ! i;
                 rttMs = (if now \<ge> pp_lastSentMs p then now - pp_lastSentMs p else 0)
             in (node\<lparr> pendingPings := (pendingPings node)[i := p\<lparr> pp_active := False \<rparr>] \<rparr>, [On_Pong from nonce protoVer rttMs]))"

definition UdpNode_HandlePacket ::
  "u64 \<Rightarrow> udp_node_t \<Rightarrow> int \<Rightarrow> byte list \<Rightarrow> sockaddr_storage \<Rightarrow> udp_node_t \<times> datagram list \<times> udp_event list" where
  "UdpNode_HandlePacket now node fromSock buf from =
     (if buf = [] then (node, [], [])
      else if buf ! 0 = UDP_PACKET_TYPE_PING then
        (if length buf < UDP_PING_WIRE_SIZE then (node, [], [])
         else (node, [(fromSock, pong_packet (of_nat (le_val (bytes_at 1 8 buf))), from)], []))
      else if buf ! 0 = UDP_PACKET_TYPE_PONG then
        (if length buf < UDP_PONG_WIRE_SIZE then (node, [], [])
         else case handle_pong now node buf from of (node', evs) \<Rightarrow> (node', [], evs))
      else (node, [], []))"

section \<open>The retry thread\<close>

text \<open>One entry of the table in one round: the entry left, the datagrams and the time-outs.\<close>

definition retry_one :: "u64 \<Rightarrow> udp_node_t \<Rightarrow> pending_ping_t \<Rightarrow> pending_ping_t \<times> datagram list \<times> udp_event list" where
  "retry_one now node p =
     (if \<not> pp_active p then (p, [], [])
      else if now - pp_lastSentMs p < UDP_PING_RETRY_INTERVAL_MS then (p, [], [])
      else if pp_retries p \<ge> UDP_PING_MAX_RETRIES then (p\<lparr> pp_active := False \<rparr>, [], [On_Ping_Timeout (pp_dest p) (pp_nonce p)])
      else (p\<lparr> pp_retries := pp_retries p + 1, pp_lastSentMs := now \<rparr>, UdpNode_SendRawPing node (pp_nonce p) (pp_dest p), []))"

fun retry_pings :: "u64 \<Rightarrow> udp_node_t \<Rightarrow> pending_ping_t list \<Rightarrow> pending_ping_t list \<times> datagram list \<times> udp_event list" where
  "retry_pings now node [] = ([], [], [])"
| "retry_pings now node (p # ps) =
     (case retry_one now node p of (p', ds, evs) \<Rightarrow>
      case retry_pings now node ps of (ps', ds', evs') \<Rightarrow> (p' # ps', ds @ ds', evs @ evs'))"

text \<open>One round of \<^verbatim>\<open>UdpNode_RetryThreadProc\<close>; the time-out callbacks are made after the lock has been released.\<close>

definition UdpNode_RetryTick :: "u64 \<Rightarrow> udp_node_t \<Rightarrow> udp_node_t \<times> datagram list \<times> udp_event list" where
  "UdpNode_RetryTick now node =
     (case retry_pings now node (pendingPings node) of (ps, ds, evs) \<Rightarrow> (node\<lparr> pendingPings := ps \<rparr>, ds, evs))"

section \<open>Callbacks into the discovery\<close>

definition Node_OnPongThunk :: "node_discovery option \<Rightarrow> sockaddr_storage \<Rightarrow> u64 \<Rightarrow> node_discovery option" where
  "Node_OnPongThunk discovery from rttMs = map_option (\<lambda>disc. NodeDiscovery_OnPong disc from rttMs) discovery"

definition Node_OnPingTimeoutThunk :: "node_discovery option \<Rightarrow> sockaddr_storage \<Rightarrow> node_discovery option" where
  "Node_OnPingTimeoutThunk discovery dest = map_option (\<lambda>disc. NodeDiscovery_OnPingTimeout disc dest) discovery"

fun run_callback :: "udp_event \<Rightarrow> node_discovery option \<Rightarrow> node_discovery option" where
  "run_callback (On_Pong from nonce protoVer rttMs) discovery = Node_OnPongThunk discovery from rttMs"
| "run_callback (On_Ping_Timeout dest nonce) discovery = Node_OnPingTimeoutThunk discovery dest"

section \<open>Sequences of inputs\<close>

text \<open>
  What can happen to the running daemon: a round of the retry thread, a ping asked for, a datagram received.
  \<open>udp_do\<close> gives the node left, the nonces of the pings taken on, the datagrams sent and the callbacks made.
\<close>

datatype udp_input = Tick u64 | Ask u64 u64 sockaddr_storage | Packet u64 int "byte list" sockaddr_storage

fun udp_do :: "udp_input \<Rightarrow> udp_node_t \<Rightarrow> udp_node_t \<times> u64 list \<times> datagram list \<times> udp_event list" where
  "udp_do (Tick now) node = (case UdpNode_RetryTick now node of (node', ds, evs) \<Rightarrow> (node', [], ds, evs))"
| "udp_do (Ask nonce now dest) node =
     (case UdpNode_SendPing nonce now node dest of (r, node', ds) \<Rightarrow> (node', if r = 0 then [nonce] else [], ds, []))"
| "udp_do (Packet now sock buf from) node =
     (case UdpNode_HandlePacket now node sock buf from of (node', ds, evs) \<Rightarrow> (node', [], ds, evs))"

fun udp_run :: "udp_input list \<Rightarrow> udp_node_t \<Rightarrow> udp_node_t \<times> u64 list \<times> datagram list \<times> udp_event list" where
  "udp_run [] node = (node, [], [], [])"
| "udp_run (i # is) node =
     (case udp_do i node of (n1, as, ds, evs) \<Rightarrow>
      case udp_run is n1 of (n2, as', ds', evs') \<Rightarrow> (n2, as @ as', ds @ ds', evs @ evs'))"

fun ev_nonce :: "udp_event \<Rightarrow> u64" where
  "ev_nonce (On_Pong from nonce protoVer rttMs) = nonce"
| "ev_nonce (On_Ping_Timeout dest nonce) = nonce"

definition open_nonces :: "pending_ping_t list \<Rightarrow> u64 multiset" where
  "open_nonces ps = mset (map pp_nonce (filter pp_active ps))"

definition table_ok :: "udp_node_t \<Rightarrow> bool" where
  "table_ok node \<longleftrightarrow> length (pendingPings node) = UDP_MAX_PENDING_PINGS \<and> list_all (\<lambda>p. pp_retries p \<le> UDP_PING_MAX_RETRIES) (pendingPings node)"

lemma open_nonces_simps [simp]:
  "open_nonces [] = {#}" "open_nonces (p # ps) = (if pp_active p then {# pp_nonce p #} else {#}) + open_nonces ps"
  by (simp_all add: open_nonces_def)

lemma open_nonces_update:
  assumes "i < length ps"
  shows "open_nonces (ps[i := p]) + (if pp_active (ps ! i) then {# pp_nonce (ps ! i) #} else {#}) =
    open_nonces ps + (if pp_active p then {# pp_nonce p #} else {#})"
  using assms
proof (induction ps arbitrary: i)
  case (Cons q ps)
  show ?case
  proof (cases i)
    case (Suc j)
    then show ?thesis using Cons.IH [of j] Cons.prems by (simp add: ac_simps split: if_splits)
  qed (simp add: ac_simps)
qed simp

lemma first_free_Some: "first_free ps i = Some k \<Longrightarrow> i \<le> k \<and> k < i + length ps \<and> \<not> pp_active (ps ! (k - i))"
  by (induction ps i rule: first_free.induct) (auto simp: nth_Cons' split: if_splits)

lemma find_ping_Some: "find_ping n ps i = Some k \<Longrightarrow> i \<le> k \<and> k < i + length ps \<and> pp_active (ps ! (k - i)) \<and> pp_nonce (ps ! (k - i)) = n"
  by (induction n ps i rule: find_ping.induct) (auto simp: nth_Cons' split: if_splits)

lemma table_ok_update:
  "table_ok node \<Longrightarrow> pp_retries p \<le> UDP_PING_MAX_RETRIES \<Longrightarrow> table_ok (node\<lparr> pendingPings := (pendingPings node)[i := p] \<rparr>)"
  by (auto simp: table_ok_def list_all_iff dest!: set_update_subset_insert [THEN subsetD])

lemma retry_pings_ok:
  "retry_pings now node ps = (ps', ds, evs) \<Longrightarrow> length ps' = length ps \<and> open_nonces ps = open_nonces ps' + mset (map ev_nonce evs) \<and>
     (list_all (\<lambda>p. pp_retries p \<le> UDP_PING_MAX_RETRIES) ps \<longrightarrow> list_all (\<lambda>p. pp_retries p \<le> UDP_PING_MAX_RETRIES) ps')"
proof (induction ps arbitrary: ps' ds evs)
  case (Cons p ps)
  obtain p' ds1 ev1 where p: "retry_one now node p = (p', ds1, ev1)" using prod_cases3 by blast
  obtain qs ds2 ev2 where q: "retry_pings now node ps = (qs, ds2, ev2)" using prod_cases3 by blast
  have r: "ps' = p' # qs" "evs = ev1 @ ev2" using Cons.prems p q by simp_all
  have "(if pp_active p then {# pp_nonce p #} else {#}) = (if pp_active p' then {# pp_nonce p' #} else {#}) + mset (map ev_nonce ev1)"
    "pp_retries p \<le> UDP_PING_MAX_RETRIES \<longrightarrow> pp_retries p' \<le> UDP_PING_MAX_RETRIES"
    using p by (auto simp: retry_one_def split: if_splits)
  then show ?case using Cons.IH [OF q] r by (auto simp: ac_simps)
qed simp

lemma udp_do_ok:
  assumes "table_ok node" "udp_do i node = (node', as, ds, evs)"
  shows "table_ok node' \<and> open_nonces (pendingPings node) + mset as = open_nonces (pendingPings node') + mset (map ev_nonce evs)"
proof (cases i)
  case (Tick now)
  obtain ps where "retry_pings now node (pendingPings node) = (ps, ds, evs)" "node' = node\<lparr> pendingPings := ps \<rparr>" "as = []"
    using assms(2) Tick by (auto simp: UdpNode_RetryTick_def split: prod.splits)
  then show ?thesis using assms(1) retry_pings_ok [of now node "pendingPings node" ps ds evs] by (simp add: table_ok_def)
next
  case (Ask nonce now dest)
  show ?thesis
  proof (cases "first_free (pendingPings node) 0")
    case None
    then show ?thesis using assms Ask by (auto simp: UdpNode_SendPing_def split: if_splits)
  next
    case (Some k)
    let ?p = "\<lparr> pp_nonce = nonce, pp_dest = dest, pp_lastSentMs = now, pp_retries = 0, pp_active = True \<rparr>"
    have k: "k < length (pendingPings node)" "\<not> pp_active (pendingPings node ! k)" using first_free_Some [OF Some] by simp_all
    have "open_nonces ((pendingPings node)[k := ?p]) = open_nonces (pendingPings node) + {# nonce #}" using open_nonces_update [OF k(1), of ?p] k(2) by simp
    moreover have "table_ok (node\<lparr> pendingPings := (pendingPings node)[k := ?p] \<rparr>)" using table_ok_update [OF assms(1), of ?p k] by simp
    ultimately show ?thesis using assms Ask Some by (auto simp: UdpNode_SendPing_def Let_def split: if_splits)
  qed
next
  case (Packet now sock buf src)
  show ?thesis
  proof (cases "find_ping (of_nat (le_val (bytes_at 1 8 buf))) (pendingPings node) 0")
    case None
    then show ?thesis using assms Packet by (auto simp: UdpNode_HandlePacket_def handle_pong_def Let_def split: if_splits)
  next
    case (Some k)
    let ?p = "(pendingPings node ! k)\<lparr> pp_active := False \<rparr>"
    have k: "k < length (pendingPings node)" "pp_active (pendingPings node ! k)" "pp_nonce (pendingPings node ! k) = of_nat (le_val (bytes_at 1 8 buf))"
      using find_ping_Some [OF Some] by simp_all
    have "open_nonces ((pendingPings node)[k := ?p]) + {# of_nat (le_val (bytes_at 1 8 buf)) #} = open_nonces (pendingPings node)"
      using open_nonces_update [OF k(1), of ?p] k(2,3) by simp
    moreover have "pp_retries (pendingPings node ! k) \<le> UDP_PING_MAX_RETRIES" using assms(1) k(1) by (simp add: table_ok_def list_all_length)
    then have "table_ok (node\<lparr> pendingPings := (pendingPings node)[k := ?p] \<rparr>)" using table_ok_update [OF assms(1), of ?p k] by simp
    ultimately show ?thesis using assms Packet Some by (auto simp: UdpNode_HandlePacket_def handle_pong_def Let_def split: if_splits)
  qed
qed

lemma udp_run_ok:
  "table_ok node \<Longrightarrow> udp_run is node = (node', as, ds, evs) \<Longrightarrow>
     table_ok node' \<and> open_nonces (pendingPings node) + mset as = open_nonces (pendingPings node') + mset (map ev_nonce evs)"
proof (induction "is" arbitrary: node as ds evs)
  case (Cons i "is")
  obtain n1 as1 ds1 ev1 where d: "udp_do i node = (n1, as1, ds1, ev1)" using prod_cases4 by blast
  obtain n2 as2 ds2 ev2 where r: "udp_run is n1 = (n2, as2, ds2, ev2)" using prod_cases4 by blast
  have e: "node' = n2" "as = as1 @ as2" "evs = ev1 @ ev2" using Cons.prems(2) d r by simp_all
  have "table_ok n1" and 1: "open_nonces (pendingPings node) + mset as1 = open_nonces (pendingPings n1) + mset (map ev_nonce ev1)"
    using udp_do_ok [OF Cons.prems(1) d] by simp_all
  then have 2: "table_ok n2" "open_nonces (pendingPings n1) + mset as2 = open_nonces (pendingPings n2) + mset (map ev_nonce ev2)"
    using Cons.IH [of n1 as2 ds2 ev2] r e(1) by simp_all
  have "open_nonces (pendingPings node) + mset as = (open_nonces (pendingPings n1) + mset as2) + mset (map ev_nonce ev1)"
    unfolding e(2) mset_append union_assoc [symmetric] 1 by (simp add: ac_simps)
  then show ?case unfolding 2(2) using 2(1) e(1,3) by (simp add: ac_simps)
qed simp

section \<open>A ping that is not answered\<close>

text \<open>The inputs leave slot \<open>k\<close> with nonce \<open>n\<close> alone: no pong with this nonce arrives.\<close>

fun no_answer :: "u64 \<Rightarrow> udp_input \<Rightarrow> bool" where
  "no_answer n (Packet now sock buf src) = (\<not> (buf \<noteq> [] \<and> buf ! 0 = UDP_PACKET_TYPE_PONG \<and> length buf \<ge> UDP_PONG_WIRE_SIZE \<and> of_nat (le_val (bytes_at 1 8 buf)) = n))"
| "no_answer n i = True"

fun tick_times :: "udp_input list \<Rightarrow> nat list" where
  "tick_times [] = []"
| "tick_times (Tick now # is) = unat now # tick_times is"
| "tick_times (i # is) = tick_times is"

text \<open>The clock readings \<open>ts\<close> follow \<open>c\<close> with steps of at most \<open>g\<close>.\<close>

fun steady :: "nat \<Rightarrow> nat \<Rightarrow> nat list \<Rightarrow> bool" where
  "steady g c [] = True"
| "steady g c (t # ts) = (c \<le> t \<and> t \<le> c + g \<and> steady g t ts)"

lemma retry_pings_nth:
  "retry_pings now node ps = (ps', ds, evs) \<Longrightarrow> k < length ps \<Longrightarrow>
     ps' ! k = fst (retry_one now node (ps ! k)) \<and> set (snd (snd (retry_one now node (ps ! k)))) \<subseteq> set evs"
proof (induction ps arbitrary: k ps' ds evs)
  case (Cons p ps)
  obtain p' ds1 ev1 where p: "retry_one now node p = (p', ds1, ev1)" using prod_cases3 by blast
  obtain qs ds2 ev2 where q: "retry_pings now node ps = (qs, ds2, ev2)" using prod_cases3 by blast
  have r: "ps' = p' # qs" "evs = ev1 @ ev2" using Cons.prems(1) p q by simp_all
  show ?case using Cons.IH [OF q, of "k - 1"] Cons.prems(2) r p by (cases k) auto
qed simp

lemma udp_do_other:
  assumes "udp_do i node = (node', asks, ds, evs)" "k < length (pendingPings node)" "pp_active (pendingPings node ! k)"
    "no_answer (pp_nonce (pendingPings node ! k)) i" "\<forall>now. i \<noteq> Tick now"
  shows "pendingPings node' ! k = pendingPings node ! k \<and> length (pendingPings node') = length (pendingPings node)"
proof (cases i)
  case (Tick now)
  then show ?thesis using assms(5) by simp
next
  case (Ask nonce now dest)
  show ?thesis
  proof (cases "first_free (pendingPings node) 0")
    case (Some j)
    then have "j \<noteq> k" using first_free_Some [OF Some] assms(3) by auto
    then show ?thesis using assms(1) Ask Some by (auto simp: UdpNode_SendPing_def Let_def split: if_splits)
  qed (use assms(1) Ask in \<open>auto simp: UdpNode_SendPing_def split: if_splits\<close>)
next
  case (Packet now sock buf src)
  show ?thesis
  proof (cases "find_ping (of_nat (le_val (bytes_at 1 8 buf))) (pendingPings node) 0")
    case None
    then show ?thesis using assms(1) Packet by (auto simp: UdpNode_HandlePacket_def handle_pong_def Let_def split: if_splits)
  next
    case (Some j)
    then show ?thesis using assms(1,4) Packet find_ping_Some [OF Some]
      by (cases "j = k") (auto simp: UdpNode_HandlePacket_def handle_pong_def Let_def split: if_splits)
  qed
qed

lemma udp_run_Cons:
  assumes "udp_run (i # is) node = (node', asks, ds, evs)"
  obtains n1 a1 d1 e1 a2 d2 e2 where "udp_do i node = (n1, a1, d1, e1)" "udp_run is n1 = (node', a2, d2, e2)" "asks = a1 @ a2" "ds = d1 @ d2" "evs = e1 @ e2"
  using assms by (auto split: prod.splits)

lemma word_gap: "unat s \<le> unat t \<Longrightarrow> unat ((t :: u64) - s) = unat t - unat s"
  by (simp add: unat_sub word_le_nat_alt)

text \<open>One round of the retry thread seen from one active slot.\<close>

lemma tick_slot:
  assumes "udp_do (Tick now) node = (n1, a1, d1, e1)" "k < length (pendingPings node)" "p = pendingPings node ! k" "pp_active p"
    "unat (pp_lastSentMs p) \<le> unat now"
  obtains (waiting) "unat now < unat (pp_lastSentMs p) + 1000" "pendingPings n1 ! k = p" "k < length (pendingPings n1)"
    | (again) "unat (pp_lastSentMs p) + 1000 \<le> unat now" "pp_retries p < 3" "k < length (pendingPings n1)"
        "pendingPings n1 ! k = p\<lparr> pp_retries := pp_retries p + 1, pp_lastSentMs := now \<rparr>"
    | (given_up) "On_Ping_Timeout (pp_dest p) (pp_nonce p) \<in> set e1"
proof -
  obtain ps where ps: "retry_pings now node (pendingPings node) = (ps, d1, e1)" "pendingPings n1 = ps"
    using assms(1) by (auto simp: UdpNode_RetryTick_def split: prod.splits)
  note q = retry_pings_nth [OF ps(1) assms(2), folded assms(3)]
  have len: "k < length (pendingPings n1)" using retry_pings_ok [OF ps(1)] ps(2) assms(2) by simp
  have due: "now - pp_lastSentMs p < UDP_PING_RETRY_INTERVAL_MS \<longleftrightarrow> unat now < unat (pp_lastSentMs p) + 1000"
    using word_gap [OF assms(5)] assms(5) by (auto simp: udp_consts word_less_nat_alt)
  show ?thesis
  proof (cases "unat now < unat (pp_lastSentMs p) + 1000")
    case True
    then show ?thesis using waiting q ps(2) len due assms(4) by (simp add: retry_one_def)
  next
    case False
    then show ?thesis using again given_up q ps(2) len due assms(4) by (cases "pp_retries p < 3") (simp_all add: retry_one_def udp_consts)
  qed
qed

lemma rounds_left: "r < 3 \<Longrightarrow> (4 - r) * d = d + (3 - r) * (d :: nat)"
proof -
  assume "r < 3"
  then have "4 - r = Suc (3 - r)" by simp
  then show ?thesis by simp
qed

lemma ping_runs_out:
  assumes "udp_run is node = (node', asks, ds, evs)" "list_all (no_answer n) is" "k < length (pendingPings node)"
    "p = pendingPings node ! k" "pp_active p" "pp_nonce p = n" "pp_retries p \<le> 3"
    "unat (pp_lastSentMs p) \<le> c" "c < unat (pp_lastSentMs p) + 1000" "steady g c (tick_times is)"
    "\<exists>t \<in> set (tick_times is). unat (pp_lastSentMs p) + (4 - pp_retries p) * (1000 + g) \<le> t"
  shows "On_Ping_Timeout (pp_dest p) n \<in> set evs"
  using assms
proof (induction "is" arbitrary: node p c asks ds evs)
  case (Cons i "is")
  obtain n1 a1 d1 e1 a2 d2 e2 where r: "udp_do i node = (n1, a1, d1, e1)" "udp_run is n1 = (node', a2, d2, e2)" "evs = e1 @ e2"
    using Cons.prems(1) by (rule udp_run_Cons)
  have na: "list_all (no_answer n) is" "no_answer n i" using Cons.prems(2) by simp_all
  show ?case
  proof (cases "\<exists>now. i = Tick now")
    case False
    then have "pendingPings n1 ! k = p" "k < length (pendingPings n1)" "tick_times (i # is) = tick_times is"
      using udp_do_other [OF r(1) Cons.prems(3)] Cons.prems(3-6) na(2) by (auto, cases i, auto)
    then show ?thesis using Cons.IH [OF r(2) na(1), of p c] Cons.prems(5-11) r(3) by auto
  next
    case True
    then obtain now where i: "i = Tick now" by blast
    have st: "c \<le> unat now" "unat now \<le> c + g" "steady g (unat now) (tick_times is)" using Cons.prems(10) i by simp_all
    have le: "unat (pp_lastSentMs p) \<le> unat now" using Cons.prems(8) st(1) by simp
    from r(1) [unfolded i] Cons.prems(3,4,5) le show ?thesis
    proof (cases rule: tick_slot)
      case waiting
      have "unat now < unat (pp_lastSentMs p) + 1 * (1000 + g)" using waiting(1) by simp
      also have "\<dots> \<le> unat (pp_lastSentMs p) + (4 - pp_retries p) * (1000 + g)" using Cons.prems(7) by (intro add_left_mono mult_le_mono1) simp
      finally have "\<exists>t \<in> set (tick_times is). unat (pp_lastSentMs p) + (4 - pp_retries p) * (1000 + g) \<le> t"
        using Cons.prems(11) i by (auto simp: not_less [symmetric])
      then show ?thesis using Cons.IH [OF r(2) na(1) waiting(3), of p "unat now"] waiting Cons.prems(5-8) st le r(3) by auto
    next
      case again
      have "unat now + (3 - pp_retries p) * (1000 + g) < unat (pp_lastSentMs p) + (4 - pp_retries p) * (1000 + g)"
        unfolding rounds_left [OF again(2)] using st(2) Cons.prems(9) by simp
      moreover obtain t where t: "t \<in> set (tick_times (i # is))" "unat (pp_lastSentMs p) + (4 - pp_retries p) * (1000 + g) \<le> t" using Cons.prems(11) by blast
      ultimately have lt: "unat now + (3 - pp_retries p) * (1000 + g) < t" using less_le_trans by blast
      then have "t \<in> set (tick_times is)" using t(1) i by auto
      then have "\<exists>t \<in> set (tick_times is). unat now + (3 - pp_retries p) * (1000 + g) \<le> t" using lt less_imp_le by blast
      then show ?thesis
        using Cons.IH [OF r(2) na(1) again(3), of "p\<lparr> pp_retries := pp_retries p + 1, pp_lastSentMs := now \<rparr>" "unat now"] again Cons.prems(5,6) st(3) r(3) by auto
    next
      case given_up
      then show ?thesis using Cons.prems(6) r(3) by simp
    qed
  qed
qed simp

section \<open>A ping that is answered\<close>

lemma find_ping_fresh:
  "k < length ps \<Longrightarrow> pp_active (ps ! k) \<Longrightarrow> pp_nonce (ps ! k) = n \<Longrightarrow> \<forall>j < k. pp_active (ps ! j) \<longrightarrow> pp_nonce (ps ! j) \<noteq> n \<Longrightarrow>
     find_ping n ps i = Some (i + k)"
proof (induction ps arbitrary: k i)
  case (Cons p ps)
  show ?case
  proof (cases k)
    case (Suc j)
    have "\<not> (pp_active p \<and> pp_nonce p = n)" using Cons.prems(4) Suc by auto
    moreover have "\<forall>l < j. pp_active (ps ! l) \<longrightarrow> pp_nonce (ps ! l) \<noteq> n" using Cons.prems(4) Suc by auto
    ultimately show ?thesis using Cons.IH [of j "Suc i"] Cons.prems(1-3) Suc by simp
  qed (use Cons.prems in simp)
qed simp

lemma read_nonce [simp]: "of_nat (le_val (bytes_at 1 8 (b # le_bytes 8 (unat (n :: u64)) @ bs))) = n"
proof -
  have "bytes_at 1 8 (b # le_bytes 8 (unat n) @ bs) = le_bytes 8 (unat n)" by (simp add: bytes_at_simps)
  then show ?thesis using unat_lt_64 [of n] by (simp add: le_val_le_bytes)
qed

lemma pong_answers_ping: "UdpNode_HandlePacket now node sock (ping_packet n) src = (node, [(sock, pong_packet n, src)], [])"
  using read_nonce [of UDP_PACKET_TYPE_PING n "[]"] by (simp add: UdpNode_HandlePacket_def ping_packet_def udp_consts)

lemma pong_read: "length (pong_packet n) = UDP_PONG_WIRE_SIZE" "pong_packet n ! 0 = UDP_PACKET_TYPE_PONG" "pong_packet n \<noteq> []"
  "of_nat (le_val (bytes_at 1 8 (pong_packet n))) = n" "of_nat (le_val (bytes_at 9 4 (pong_packet n))) = PROTO_VERSION"
proof -
  show "of_nat (le_val (bytes_at 1 8 (pong_packet n))) = n" unfolding pong_packet_def by (rule read_nonce)
  have "bytes_at 9 4 (pong_packet n) = le_bytes 4 (unat PROTO_VERSION)" by (simp add: pong_packet_def bytes_at_simps)
  then show "of_nat (le_val (bytes_at 9 4 (pong_packet n))) = PROTO_VERSION" using unat_lt_32 [of PROTO_VERSION] by (simp add: le_val_le_bytes)
qed (simp_all add: pong_packet_def udp_consts)

section \<open>Properties\<close>

text \<open>
  C34: every ping ends once. Whatever pings are asked for, whatever datagrams arrive and however the retry thread
  runs, the nonces of the pings taken on are exactly those still pending together with those reported as answered
  or as timed out; the table keeps its 64 entries and no entry is retried more than three times.
\<close>

theorem udp_pings_end_once:
  assumes "UdpNode_Init fd6 bound6 fd4 bound4 = (r, node0)" and "udp_run is node0 = (node, asks, ds, evs)"
  shows "mset asks = open_nonces (pendingPings node) + mset (map ev_nonce evs) \<and> length (pendingPings node) = UDP_MAX_PENDING_PINGS \<and>
    list_all (\<lambda>p. pp_retries p \<le> UDP_PING_MAX_RETRIES) (pendingPings node)"
proof -
  have n: "pendingPings node0 = replicate UDP_MAX_PENDING_PINGS no_ping" using assms(1) by (auto simp: UdpNode_Init_def Let_def split: if_splits)
  then have "table_ok node0" "open_nonces (pendingPings node0) = {#}" by (simp_all add: table_ok_def no_ping_def list_all_length open_nonces_def)
  then show ?thesis using udp_run_ok [OF _ assms(2)] by (simp add: table_ok_def)
qed

text \<open>
  An unanswered ping is given up in time. If the retry thread looks at the clock at least every \<open>g\<close>
  milliseconds and no pong with its nonce arrives, a ping is reported as timed out by the first look
  \<open>4 * (1000 + g)\<close> milliseconds after it was sent or earlier, whatever else the daemon does meanwhile.
\<close>

lemma udp_ping_gives_up:
  assumes "UdpNode_SendPing nonce now node dest = (0, node1, ds1)" and "udp_run is node1 = (node2, asks, ds, evs)"
    and "list_all (no_answer nonce) is" and "steady g (unat now) (tick_times is)"
    and "\<exists>t \<in> set (tick_times is). unat now + 4 * (1000 + g) \<le> t"
  shows "On_Ping_Timeout dest nonce \<in> set evs"
proof -
  obtain k where k: "first_free (pendingPings node) 0 = Some k" using assms(1) by (auto simp: UdpNode_SendPing_def split: if_splits option.splits)
  let ?p = "\<lparr> pp_nonce = nonce, pp_dest = dest, pp_lastSentMs = now, pp_retries = 0, pp_active = True \<rparr>"
  have len: "k < length (pendingPings node)" using first_free_Some [OF k] by simp
  have "pendingPings node1 = (pendingPings node)[k := ?p]" using assms(1) k by (auto simp: UdpNode_SendPing_def Let_def split: if_splits)
  then have k1: "k < length (pendingPings node1)" "pendingPings node1 ! k = ?p" using len by simp_all
  show ?thesis using ping_runs_out [OF assms(2,3) k1(1) refl, of "unat now" g] k1(2) assms(4,5) by simp
qed

text \<open>
  A ping and its pong. A ping taken on leaves as a datagram; the peer that receives it answers with a pong,
  and when that arrives the slot is free again and the callback reports the peer, the nonce, the protocol version
  and the time since sending; the discovery then holds the peer as reachable with this latency.
\<close>

lemma udp_ping_pong:
  assumes "UdpNode_SendPing nonce now node dest = (0, node1, ds1)" and "now \<le> now'"
    and "\<forall>p \<in> set (pendingPings node). pp_active p \<longrightarrow> pp_nonce p \<noteq> nonce"
    and "Discovery_FindPtr disc dest = Some i" and "i < length (peers disc)" and "pingPending (peers disc ! i)" and "dp_state (peers disc ! i) = STATE_PINGED"
  shows "(\<forall>d \<in> set ds1. snd d = (ping_packet nonce, dest)) \<and>
    UdpNode_HandlePacket t other sock (ping_packet nonce) src = (other, [(sock, pong_packet nonce, src)], []) \<and>
    (\<exists>node2. UdpNode_HandlePacket now' node1 sock' (pong_packet nonce) dest = (node2, [], [On_Pong dest nonce PROTO_VERSION (now' - now)]) \<and>
       open_nonces (pendingPings node2) = open_nonces (pendingPings node)) \<and>
    (\<exists>disc'. run_callback (On_Pong dest nonce PROTO_VERSION (now' - now)) (Some disc) = Some disc' \<and>
       dp_state (peers disc' ! i) = STATE_REACHABLE \<and> pingMs (peers disc' ! i) = now' - now \<and> \<not> pingPending (peers disc' ! i))"
proof -
  obtain k where k: "first_free (pendingPings node) 0 = Some k" using assms(1) by (auto simp: UdpNode_SendPing_def split: if_splits option.splits)
  let ?p = "\<lparr> pp_nonce = nonce, pp_dest = dest, pp_lastSentMs = now, pp_retries = 0, pp_active = True \<rparr>"
  have kl: "k < length (pendingPings node)" "\<not> pp_active (pendingPings node ! k)" using first_free_Some [OF k] by simp_all
  have n1: "pendingPings node1 = (pendingPings node)[k := ?p]" "ds1 = UdpNode_SendRawPing node1 nonce dest"
    using assms(1) k by (auto simp: UdpNode_SendPing_def Let_def split: if_splits)
  have "\<forall>j < k. pp_active (pendingPings node ! j) \<longrightarrow> pp_nonce (pendingPings node ! j) \<noteq> nonce" using assms(3) kl(1) by simp
  then have "find_ping nonce (pendingPings node1) 0 = Some k"
    using find_ping_fresh [of k "pendingPings node1" nonce 0] kl(1) n1(1) by simp
  then have "UdpNode_HandlePacket now' node1 sock' (pong_packet nonce) dest =
      (node1\<lparr> pendingPings := (pendingPings node)[k := ?p\<lparr> pp_active := False \<rparr>] \<rparr>, [], [On_Pong dest nonce PROTO_VERSION (now' - now)])"
    using pong_read kl(1) n1(1) assms(2) by (simp add: UdpNode_HandlePacket_def handle_pong_def udp_consts Let_def)
  moreover have "open_nonces ((pendingPings node)[k := ?p\<lparr> pp_active := False \<rparr>]) = open_nonces (pendingPings node)"
    using open_nonces_update [OF kl(1), of "?p\<lparr> pp_active := False \<rparr>"] kl(2) by simp
  moreover have "\<forall>d \<in> set ds1. snd d = (ping_packet nonce, dest)" unfolding n1(2) by (cases dest) auto
  moreover have "\<exists>disc'. run_callback (On_Pong dest nonce PROTO_VERSION (now' - now)) (Some disc) = Some disc' \<and>
      dp_state (peers disc' ! i) = STATE_REACHABLE \<and> pingMs (peers disc' ! i) = now' - now \<and> \<not> pingPending (peers disc' ! i)"
    using assms(4-7) by (simp add: Node_OnPongThunk_def NodeDiscovery_OnPong_def upd_peer_def)
  ultimately show ?thesis using pong_answers_ping by simp
qed

text \<open>
  C35: the daemon stops cleanly only if every one of its three threads was started. On a machine without IPv6 (or
  IPv4) it starts and works, but stopping it joins the thread that was never started.
\<close>

theorem UdpNode_Stop_joins_missing_thread:
  assumes "UdpNode_Init fd6 bound6 fd4 bound4 = (0, node0)" and "UdpNode_Start t6 t4 tr node0 = (0, node)"
  shows "UdpNode_Stop node = None \<longleftrightarrow> fd6 < 0 \<or> \<not> bound6 \<or> fd4 < 0 \<or> \<not> bound4 \<or> t6 = None \<or> t4 = None \<or> tr = None"
  using assms by (cases t6; cases t4; cases tr)
    (auto simp: UdpNode_Init_def UdpNode_Start_def UdpNode_Stop_def bound_socket_def pthread_join_def Let_def split: if_splits)

section \<open>A daemon with both sockets\<close>

definition demo_udp :: udp_node_t where
  "demo_udp = snd (UdpNode_Init 3 True 4 True)"

definition demo_peer :: sockaddr_storage where
  "demo_peer = SA4 [10, 0, 0, 1] 9000"

definition demo_asked :: udp_node_t where
  "demo_asked = fst (snd (UdpNode_SendPing 99 1000 demo_udp demo_peer))"

lemma demo_udp_init: "UdpNode_Init 3 True 4 True = (0, demo_udp)"
  by (simp add: demo_udp_def UdpNode_Init_def bound_socket_def Let_def)

lemma demo_asks: "UdpNode_SendPing 99 1000 demo_udp demo_peer = (0, demo_asked, [(4, ping_packet 99, demo_peer)])"
proof -
  have "pendingPings demo_udp = no_ping # replicate 63 no_ping"
    by (simp add: demo_udp_def UdpNode_Init_def Let_def UDP_MAX_PENDING_PINGS_def numeral_eq_Suc)
  then have "first_free (pendingPings demo_udp) 0 = Some 0" by (simp add: no_ping_def)
  moreover have "un_sockFd demo_udp = 3" "un_sockFdV4 demo_udp = 4" by (simp_all add: demo_udp_def UdpNode_Init_def bound_socket_def Let_def)
  ultimately show ?thesis by (simp add: demo_asked_def UdpNode_SendPing_def Let_def demo_peer_def)
qed

theorem udp_pings_end_once_witness:
  "\<exists>node asks ds evs. udp_run [Ask 99 1000 demo_peer, Tick 2500, Packet 2600 4 (pong_packet 99) demo_peer] demo_udp = (node, asks, ds, evs) \<and>
     mset asks = open_nonces (pendingPings node) + mset (map ev_nonce evs) \<and> length (pendingPings node) = 64"
proof -
  obtain node asks ds evs where r: "udp_run [Ask 99 1000 demo_peer, Tick 2500, Packet 2600 4 (pong_packet 99) demo_peer] demo_udp = (node, asks, ds, evs)"
    using prod_cases4 by blast
  show ?thesis using udp_pings_end_once [OF demo_udp_init r] r by (auto simp: UDP_MAX_PENDING_PINGS_def)
qed

theorem UdpNode_Stop_joins_missing_thread_witness:
  "\<exists>node0 node. UdpNode_Init (-1) False 4 True = (0, node0) \<and> UdpNode_Start None (Some 1) (Some 2) node0 = (0, node) \<and> UdpNode_Stop node = None"
proof -
  let ?n0 = "snd (UdpNode_Init (-1) False 4 True)"
  have 0: "UdpNode_Init (-1) False 4 True = (0, ?n0)" by (simp add: UdpNode_Init_def bound_socket_def Let_def)
  have 1: "UdpNode_Start None (Some 1) (Some 2) ?n0 = (0, snd (UdpNode_Start None (Some 1) (Some 2) ?n0))"
    by (simp add: UdpNode_Start_def UdpNode_Init_def bound_socket_def Let_def)
  show ?thesis using UdpNode_Stop_joins_missing_thread [OF 0 1] 0 1 by auto
qed

end
