(* ===== verification/Tcp_Server.thy ===== *)
theory Tcp_Server
  imports Net_Endpoints
begin

text \<open>
  The threads of the TCP server (\<^verbatim>\<open>src/tcpd/tcpserver.c\<close>): two accept threads, one thread per client, and the thread
  that stops the server, with the client slots, the connections on the heap and the thread handles they share.
  What a thread does under \<^verbatim>\<open>clientsMutex\<close> is one step; the steps of different threads interleave in any order.
  Connections are named by their address, which is never reused; reading a freed one, and joining a thread that
  was never started or is detached, are undefined behaviour and have no result. The threads that relay a block
  (\<^verbatim>\<open>Node_BroadcastChainRange\<close> in \<^verbatim>\<open>net_node.c\<close>) are steps as well: they pin the connections of the slots under the lock and send on
  them after releasing it. A client whose thread cannot be started, for want of a thread or of memory for its
  arguments, is the step \<^verbatim>\<open>Thread_Fails\<close>; the array of handles \<^verbatim>\<open>TcpServer_Stop\<close> allocates is taken to fit in memory.
\<close>

section \<open>State\<close>

record tcp_server_t =
  ts_sockFd :: int
  ts_sockFdV4 :: int
  ts_isRunning :: bool
  ts_maxClients :: nat
  ts_clientsArr :: "nat option list option"

text \<open>The part of \<^verbatim>\<open>tcp_connection_t\<close> the threads synchronise on.\<close>

record shared_conn =
  sc_closing :: bool
  sc_disconnectNotified :: bool

datatype io_thread = Not_Started | Receiving | Hung_Up | Ended

datatype accept_pc = No_Thread | Accepting | Registered nat | Left

datatype stop_pc = Not_Stopping | Waiting | Joining "nat list" | Stopped

datatype callback = On_Connect nat | On_Disconnect nat

text \<open>
  \<open>io\<close> is the state of the thread of a connection; \<open>detached\<close> and \<open>joined\<close> the threads that have been; \<open>held\<close> the
  connections some relaying thread has pinned and not yet sent on, once for each pin: \<^verbatim>\<open>pinCount\<close> is the number of
  times a connection occurs there.
\<close>

record tcp_world =
  server :: tcp_server_t
  conns :: "nat \<Rightarrow> shared_conn option"
  next_addr :: nat
  io :: "nat \<Rightarrow> io_thread"
  acceptV6 :: accept_pc
  acceptV4 :: accept_pc
  stopping :: stop_pc
  detached :: "nat set"
  joined :: "nat set"
  callbacks :: "callback list"
  held :: "nat list"

section \<open>Sequential functions\<close>

definition TcpServer_Create :: tcp_server_t where
  "TcpServer_Create = \<lparr> ts_sockFd = -1, ts_sockFdV4 = -1, ts_isRunning = False, ts_maxClients = 0, ts_clientsArr = None \<rparr>"

text \<open>As in the source, a socket that could not be opened leaves the field as it was.\<close>

definition TcpServer_Init :: "int \<Rightarrow> bool \<Rightarrow> int \<Rightarrow> bool \<Rightarrow> tcp_server_t \<Rightarrow> tcp_server_t" where
  "TcpServer_Init fd6 bound6 fd4 bound4 svr =
     (let s1 = (if bound_socket fd6 bound6 \<ge> 0 then svr\<lparr> ts_sockFd := fd6 \<rparr> else svr)
      in if bound_socket fd4 bound4 \<ge> 0 then s1\<lparr> ts_sockFdV4 := fd4 \<rparr> else s1)"

fun find_client :: "nat option list \<Rightarrow> nat \<Rightarrow> nat \<Rightarrow> nat option" where
  "find_client [] ptr i = None"
| "find_client (c # cs) ptr i = (if c = Some ptr then Some i else find_client cs ptr (Suc i))"

definition Generic_FindClientInArrayByPtr :: "nat option list option \<Rightarrow> nat \<Rightarrow> nat \<Rightarrow> nat option" where
  "Generic_FindClientInArrayByPtr arr ptr len = (case arr of None \<Rightarrow> None | Some cs \<Rightarrow> find_client (take len cs) ptr 0)"

definition TcpServer_RemoveClientByPtrUnlocked :: "tcp_server_t \<Rightarrow> nat \<Rightarrow> bool \<times> tcp_server_t" where
  "TcpServer_RemoveClientByPtrUnlocked svr cli =
     (case ts_clientsArr svr of
        None \<Rightarrow> (False, svr)
      | Some cs \<Rightarrow> (case Generic_FindClientInArrayByPtr (Some cs) cli (ts_maxClients svr) of
           None \<Rightarrow> (False, svr)
         | Some idx \<Rightarrow> (True, svr\<lparr> ts_clientsArr := Some (cs[idx := None]) \<rparr>)))"

fun free_client_slot :: "nat option list \<Rightarrow> nat \<Rightarrow> nat option" where
  "free_client_slot [] i = None"
| "free_client_slot (c # cs) i = (if c = None then Some i else free_client_slot cs (Suc i))"

definition TcpConnection_RequestClose :: "nat \<Rightarrow> tcp_world \<Rightarrow> tcp_world option" where
  "TcpConnection_RequestClose cli w =
     (case conns w cli of None \<Rightarrow> None | Some c \<Rightarrow> Some (w\<lparr> conns := (conns w)(cli \<mapsto> c\<lparr> sc_closing := True \<rparr>) \<rparr>))"

section \<open>Starting\<close>

definition idle_world :: "tcp_server_t \<Rightarrow> tcp_world" where
  "idle_world svr = \<lparr> server = svr, conns = Map.empty, next_addr = 0, io = (\<lambda>_. Not_Started), acceptV6 = No_Thread, acceptV4 = No_Thread,
     stopping = Not_Stopping, detached = {}, joined = {}, callbacks = [], held = [] \<rparr>"

text \<open>\<open>l6\<close> and \<open>l4\<close>: whether \<^verbatim>\<open>listen\<close> succeeds; \<open>t6\<close> and \<open>t4\<close>: whether the accept threads can be started.\<close>

definition TcpServer_Start :: "bool \<Rightarrow> bool \<Rightarrow> bool \<Rightarrow> bool \<Rightarrow> int \<Rightarrow> tcp_world \<Rightarrow> tcp_world" where
  "TcpServer_Start l6 l4 t6 t4 maxcons w =
     (let svr = server w in
      if ts_sockFd svr < 0 \<and> ts_sockFdV4 svr < 0 \<or> maxcons \<le> 0 \<or> ts_isRunning svr then w
      else
        let s1 = (if ts_sockFd svr \<ge> 0 \<and> \<not> l6 then svr\<lparr> ts_sockFd := -1 \<rparr> else svr);
            s2 = (if ts_sockFdV4 s1 \<ge> 0 \<and> \<not> l4 then s1\<lparr> ts_sockFdV4 := -1 \<rparr> else s1)
        in if ts_sockFd s2 < 0 \<and> ts_sockFdV4 s2 < 0 then w\<lparr> server := s2 \<rparr>
           else
             let s3 = s2\<lparr> ts_maxClients := nat maxcons, ts_clientsArr := Some (replicate (nat maxcons) None), ts_isRunning := True \<rparr>;
                 v6 = (ts_sockFd s3 \<ge> 0 \<and> t6); v4 = (ts_sockFdV4 s3 \<ge> 0 \<and> t4)
             in if \<not> v6 \<and> \<not> v4 then w\<lparr> server := s3\<lparr> ts_isRunning := False, ts_clientsArr := None, ts_maxClients := 0 \<rparr> \<rparr>
                else w\<lparr> server := s3, acceptV6 := (if v6 then Accepting else No_Thread), acceptV4 := (if v4 then Accepting else No_Thread) \<rparr>)"

section \<open>The accept threads\<close>

definition accept_pc_of :: "bool \<Rightarrow> tcp_world \<Rightarrow> accept_pc" where
  "accept_pc_of v6 w = (if v6 then acceptV6 w else acceptV4 w)"

definition set_accept_pc :: "bool \<Rightarrow> accept_pc \<Rightarrow> tcp_world \<Rightarrow> tcp_world" where
  "set_accept_pc v6 pc w = (if v6 then w\<lparr> acceptV6 := pc \<rparr> else w\<lparr> acceptV4 := pc \<rparr>)"

text \<open>
  A client has connected: it is put into the first free slot and announced, or closed when there is none. Nothing
  checks \<^verbatim>\<open>isRunning\<close> between \<^verbatim>\<open>accept\<close> and the registration.
\<close>

definition accept_client :: "bool \<Rightarrow> tcp_world \<Rightarrow> tcp_world option" where
  "accept_client v6 w =
     (let heapCli = next_addr w;
          w1 = w\<lparr> conns := (conns w)(heapCli \<mapsto> \<lparr> sc_closing = False, sc_disconnectNotified = False \<rparr>), next_addr := Suc heapCli \<rparr>
      in case ts_clientsArr (server w1) of
           None \<Rightarrow> None
         | Some cs \<Rightarrow> (case free_client_slot (take (ts_maxClients (server w1)) cs) 0 of
              None \<Rightarrow> Some (w1\<lparr> conns := (conns w1)(heapCli := None) \<rparr>)
            | Some i \<Rightarrow> Some (set_accept_pc v6 (Registered heapCli)
                (w1\<lparr> server := (server w1)\<lparr> ts_clientsArr := Some (cs[i := Some heapCli]) \<rparr>, callbacks := callbacks w1 @ [On_Connect heapCli] \<rparr>))))"

definition start_client_thread :: "bool \<Rightarrow> tcp_world \<Rightarrow> tcp_world option" where
  "start_client_thread v6 w =
     (case accept_pc_of v6 w of
        Registered cli \<Rightarrow>
          (if conns w cli = None then None
           else Some (set_accept_pc v6 Accepting (w\<lparr> io := (io w)(cli := Receiving) \<rparr>)))
      | _ \<Rightarrow> None)"

text \<open>
  A join returns once the thread has ended (\<open>Some True\<close>), blocks until then (\<open>Some False\<close>), and is undefined for a
  handle no thread was started into and for a detached thread.
\<close>

definition join_io :: "nat \<Rightarrow> tcp_world \<Rightarrow> bool option" where
  "join_io cli w = (if io w cli = Not_Started \<or> cli \<in> detached w then None else Some (io w cli = Ended))"

text \<open>\<^verbatim>\<open>TcpServer_Disconnect\<close> up to and including the look at the thread it joins.\<close>

definition TcpServer_Disconnect :: "nat \<Rightarrow> tcp_world \<Rightarrow> (bool \<times> tcp_world) option" where
  "TcpServer_Disconnect cli w =
     (case TcpConnection_RequestClose cli w of
        None \<Rightarrow> None
      | Some w1 \<Rightarrow> (case join_io cli w1 of None \<Rightarrow> None | Some done \<Rightarrow> Some (done, w1)))"

definition client_thread_fails :: "bool \<Rightarrow> tcp_world \<Rightarrow> tcp_world option" where
  "client_thread_fails v6 w =
     (case accept_pc_of v6 w of
        Registered cli \<Rightarrow> map_option (\<lambda>(done, w1). set_accept_pc v6 Accepting w1) (TcpServer_Disconnect cli w)
      | _ \<Rightarrow> None)"

section \<open>The client threads\<close>

text \<open>The receive loop of \<^verbatim>\<open>TcpServer_clientthreadprocess\<close> has ended: the connection is closed and its owner told, once.\<close>

definition client_hangs_up :: "nat \<Rightarrow> tcp_world \<Rightarrow> tcp_world option" where
  "client_hangs_up cli w =
     (case TcpConnection_RequestClose cli w of
        None \<Rightarrow> None
      | Some w1 \<Rightarrow> (case conns w1 cli of
           None \<Rightarrow> None
         | Some c \<Rightarrow>
             let w2 = (if \<not> sc_disconnectNotified c
                       then w1\<lparr> conns := (conns w1)(cli \<mapsto> c\<lparr> sc_disconnectNotified := True \<rparr>), callbacks := callbacks w1 @ [On_Disconnect cli] \<rparr>
                       else w1)
             in Some (w2\<lparr> io := (io w2)(cli := Hung_Up) \<rparr>)))"

text \<open>The rest of the thread, under the lock: leave the array, detach if nobody claimed the handle, free the connection.\<close>

definition client_leaves :: "nat \<Rightarrow> tcp_world \<Rightarrow> tcp_world option" where
  "client_leaves cli w =
     (if conns w cli = None then None
      else case TcpServer_RemoveClientByPtrUnlocked (server w) cli of
        (removed, svr) \<Rightarrow>
          let w1 = w\<lparr> server := svr \<rparr>;
              w2 = (if removed then w1\<lparr> detached := insert cli (detached w1) \<rparr> else w1)
          in Some (w2\<lparr> conns := (conns w2)(cli := None), io := (io w2)(cli := Ended) \<rparr>))"

section \<open>Stopping\<close>

definition stop_begins :: "tcp_world \<Rightarrow> tcp_world option" where
  "stop_begins w = Some (w\<lparr> server := (server w)\<lparr> ts_isRunning := False, ts_sockFd := -1, ts_sockFdV4 := -1 \<rparr>, stopping := Waiting \<rparr>)"

text \<open>The walk over the slots: ask each client to close, take its handle, clear its slot.\<close>

fun claim_slots :: "nat option list \<Rightarrow> tcp_world \<Rightarrow> (nat option list \<times> nat list \<times> tcp_world) option" where
  "claim_slots [] w = Some ([], [], w)"
| "claim_slots (None # cs) w = map_option (\<lambda>(cs', hs, w'). (None # cs', hs, w')) (claim_slots cs w)"
| "claim_slots (Some cli # cs) w =
     (case TcpConnection_RequestClose cli w of
        None \<Rightarrow> None
      | Some w1 \<Rightarrow> map_option (\<lambda>(cs', hs, w'). (None # cs', cli # hs, w')) (claim_slots cs w1))"

definition stop_collects :: "tcp_world \<Rightarrow> tcp_world option" where
  "stop_collects w =
     (case ts_clientsArr (server w) of
        None \<Rightarrow> Some (w\<lparr> stopping := Joining [] \<rparr>)
      | Some cs \<Rightarrow> map_option (\<lambda>(cs', hs, w'). w'\<lparr> server := (server w')\<lparr> ts_clientsArr := Some cs' \<rparr>, stopping := Joining hs \<rparr>)
          (claim_slots cs w))"

definition stop_joins :: "tcp_world \<Rightarrow> tcp_world option" where
  "stop_joins w =
     (case stopping w of
        Joining (h # hs) \<Rightarrow> (case join_io h w of
            None \<Rightarrow> None
          | Some done \<Rightarrow> Some (if done then w\<lparr> stopping := Joining hs, joined := insert h (joined w) \<rparr> else w))
      | _ \<Rightarrow> None)"

definition stop_ends :: "tcp_world \<Rightarrow> tcp_world option" where
  "stop_ends w = Some (w\<lparr> server := (server w)\<lparr> ts_clientsArr := None, ts_maxClients := 0 \<rparr>, stopping := Stopped \<rparr>)"

section \<open>Relaying a block\<close>

text \<open>
  The walk of \<^verbatim>\<open>Node_BroadcastChainRange\<close> over the slots, which looks at every connection: one whose owner has been told of the
  disconnect is passed over, and so are those in \<open>skip\<close> (the source of the block, a peer already queued, a full
  table); the others are pinned.
\<close>

fun pin_slots :: "nat list \<Rightarrow> nat option list \<Rightarrow> tcp_world \<Rightarrow> nat list option" where
  "pin_slots skip [] w = Some []"
| "pin_slots skip (None # cs) w = pin_slots skip cs w"
| "pin_slots skip (Some conn # cs) w =
     (case conns w conn of
        None \<Rightarrow> None
      | Some c \<Rightarrow> map_option (\<lambda>ts. if sc_disconnectNotified c \<or> conn \<in> set skip then ts else conn # ts) (pin_slots skip cs w))"

definition relay_pins :: "nat list \<Rightarrow> tcp_world \<Rightarrow> tcp_world option" where
  "relay_pins skip w =
     (case ts_clientsArr (server w) of
        None \<Rightarrow> Some w
      | Some cs \<Rightarrow> map_option (\<lambda>ts. w\<lparr> held := held w @ ts \<rparr>) (pin_slots skip (take (ts_maxClients (server w)) cs) w))"

text \<open>With no lock held: send on a pinned connection, then unpin it.\<close>

definition relay_sends :: "nat \<Rightarrow> tcp_world \<Rightarrow> tcp_world option" where
  "relay_sends conn w = (if conns w conn = None then None else Some (w\<lparr> held := remove1 conn (held w) \<rparr>))"

section \<open>Interleavings\<close>

datatype tcp_action =
    Accept bool | Start_Thread bool | Thread_Fails bool | Accept_Leaves bool
  | Hang_Up nat | Leave nat
  | Stop_Begins | Stop_Collects | Stop_Joins | Stop_Ends
  | Relay_Pins "nat list" | Relay_Sends nat

text \<open>
  When a step can be taken: an accept thread leaves its loop once the server is no longer running, a stopping thread
  waits for the accept threads, and for each claimed handle until its thread has ended; a relay can begin at any time
  and sends on what it has pinned.
\<close>

fun enabled :: "tcp_action \<Rightarrow> tcp_world \<Rightarrow> bool" where
  "enabled (Accept v6) w = (accept_pc_of v6 w = Accepting)"
| "enabled (Start_Thread v6) w = (\<exists>c. accept_pc_of v6 w = Registered c)"
| "enabled (Thread_Fails v6) w = (\<exists>c. accept_pc_of v6 w = Registered c)"
| "enabled (Accept_Leaves v6) w = (accept_pc_of v6 w = Accepting \<and> \<not> ts_isRunning (server w))"
| "enabled (Hang_Up c) w = (io w c = Receiving)"
| "enabled (Leave c) w = (io w c = Hung_Up)"
| "enabled Stop_Begins w = (stopping w = Not_Stopping \<and> ts_isRunning (server w))"
| "enabled Stop_Collects w = (stopping w = Waiting \<and> acceptV6 w \<in> {No_Thread, Left} \<and> acceptV4 w \<in> {No_Thread, Left})"
| "enabled Stop_Joins w = (\<exists>h hs. stopping w = Joining (h # hs) \<and> join_io h w \<noteq> Some False)"
| "enabled Stop_Ends w = (stopping w = Joining [])"
| "enabled (Relay_Pins skip) w = True"
| "enabled (Relay_Sends c) w = (c \<in> set (held w))"

fun tcp_do :: "tcp_action \<Rightarrow> tcp_world \<Rightarrow> tcp_world option" where
  "tcp_do (Accept v6) w = accept_client v6 w"
| "tcp_do (Start_Thread v6) w = start_client_thread v6 w"
| "tcp_do (Thread_Fails v6) w = client_thread_fails v6 w"
| "tcp_do (Accept_Leaves v6) w = Some (set_accept_pc v6 Left w)"
| "tcp_do (Hang_Up c) w = client_hangs_up c w"
| "tcp_do (Leave c) w = client_leaves c w"
| "tcp_do Stop_Begins w = stop_begins w"
| "tcp_do Stop_Collects w = stop_collects w"
| "tcp_do Stop_Joins w = stop_joins w"
| "tcp_do Stop_Ends w = stop_ends w"
| "tcp_do (Relay_Pins skip) w = relay_pins skip w"
| "tcp_do (Relay_Sends c) w = relay_sends c w"

text \<open>The states a started server reaches by any steps of its threads, as long as none of them is undefined.\<close>

inductive tcp_reachable :: "tcp_world \<Rightarrow> bool" where
  tcp_started: "svr = TcpServer_Init fd6 bound6 fd4 bound4 TcpServer_Create \<Longrightarrow> w = TcpServer_Start l6 l4 t6 t4 maxcons (idle_world svr) \<Longrightarrow>
     ts_isRunning (server w) \<Longrightarrow> tcp_reachable w"
| tcp_stepped: "tcp_reachable w \<Longrightarrow> enabled a w \<Longrightarrow> tcp_do a w = Some w' \<Longrightarrow> tcp_reachable w'"

end
