(* ===== verification/Tcp_Server_Safe.thy ===== *)
theory Tcp_Server_Safe
  imports Tcp_Server
begin

text \<open>
  What holds in every interleaving of the threads of the TCP server: the accept, client and stopping threads never
  use a connection that has been freed, every client thread is either joined or detached, once, and stopping the
  server leaves nothing behind. Two steps are undefined: the accept thread joining a client thread it failed to
  start, and a relay sending on a pinned connection whose thread has freed it meanwhile.
\<close>

section \<open>One connection\<close>

text \<open>
  What the threads know of one connection: whether it is in a slot, on the heap, the state of its thread, whether an
  accept thread is about to start that thread, whether its handle has been claimed, detached or joined, and which
  callbacks have been made for it.
\<close>

record conn_view =
  v_slot :: bool
  v_conn :: "shared_conn option"
  v_io :: io_thread
  v_reg :: bool
  v_claim :: bool
  v_detached :: bool
  v_joined :: bool
  v_connect :: bool
  v_disconnect :: bool

definition slots :: "tcp_server_t \<Rightarrow> nat set" where
  "slots svr = (case ts_clientsArr svr of None \<Rightarrow> {} | Some cs \<Rightarrow> {c. Some c \<in> set cs})"

fun claims :: "stop_pc \<Rightarrow> nat list" where
  "claims (Joining hs) = hs"
| "claims _ = []"

definition view :: "tcp_world \<Rightarrow> nat \<Rightarrow> conn_view" where
  "view w c = \<lparr> v_slot = (c \<in> slots (server w)), v_conn = conns w c, v_io = io w c,
     v_reg = (acceptV6 w = Registered c \<or> acceptV4 w = Registered c), v_claim = (c \<in> set (claims (stopping w))),
     v_detached = (c \<in> detached w), v_joined = (c \<in> joined w),
     v_connect = (On_Connect c \<in> set (callbacks w)), v_disconnect = (On_Disconnect c \<in> set (callbacks w)) \<rparr>"

definition view_ok :: "conn_view \<Rightarrow> bool" where
  "view_ok v \<longleftrightarrow>
     (v_conn v \<noteq> None \<longleftrightarrow> v_slot v \<or> v_claim v \<and> v_io v \<in> {Receiving, Hung_Up}) \<and>
     (v_slot v \<longrightarrow> v_io v \<noteq> Ended \<and> \<not> v_claim v) \<and>
     (v_reg v \<longleftrightarrow> v_slot v \<and> v_io v = Not_Started) \<and>
     (v_io v \<in> {Receiving, Hung_Up} \<longrightarrow> v_conn v \<noteq> None) \<and>
     (v_claim v \<longrightarrow> v_io v \<noteq> Not_Started) \<and>
     (v_io v = Ended \<longrightarrow> v_detached v \<or> v_joined v \<or> v_claim v) \<and>
     (v_detached v \<longrightarrow> v_io v = Ended \<and> \<not> v_joined v \<and> \<not> v_claim v) \<and> (v_joined v \<longrightarrow> v_io v = Ended \<and> \<not> v_claim v) \<and>
     (v_connect v \<longleftrightarrow> v_slot v \<or> v_io v \<noteq> Not_Started) \<and> (v_disconnect v \<longleftrightarrow> v_io v \<in> {Hung_Up, Ended}) \<and>
     (\<forall>x. v_conn v = Some x \<longrightarrow> sc_disconnectNotified x = (v_io v = Hung_Up))"

section \<open>All of them\<close>

definition uniq :: "nat option list \<Rightarrow> bool" where
  "uniq cs \<longleftrightarrow> (\<forall>i j c. i < length cs \<longrightarrow> j < length cs \<longrightarrow> cs ! i = Some c \<longrightarrow> cs ! j = Some c \<longrightarrow> i = j)"

definition arr_ok :: "tcp_world \<Rightarrow> bool" where
  "arr_ok w \<longleftrightarrow> (ts_clientsArr (server w) = None \<longrightarrow> stopping w = Stopped) \<and>
     (\<forall>cs. ts_clientsArr (server w) = Some cs \<longrightarrow> length cs = ts_maxClients (server w) \<and> uniq cs)"

definition phase_ok :: "tcp_world \<Rightarrow> bool" where
  "phase_ok w \<longleftrightarrow> (stopping w \<noteq> Not_Stopping \<longrightarrow> \<not> ts_isRunning (server w)) \<and>
     (stopping w \<notin> {Not_Stopping, Waiting} \<longrightarrow> slots (server w) = {} \<and> acceptV6 w \<in> {No_Thread, Left} \<and> acceptV4 w \<in> {No_Thread, Left})"

definition tcp_ok :: "tcp_world \<Rightarrow> bool" where
  "tcp_ok w \<longleftrightarrow> (\<forall>c. view_ok (view w c)) \<and> (\<forall>c \<ge> next_addr w. c \<notin> slots (server w) \<and> io w c = Not_Started) \<and> arr_ok w \<and> phase_ok w \<and>
     (\<forall>c. \<not> (acceptV6 w = Registered c \<and> acceptV4 w = Registered c)) \<and> distinct (claims (stopping w)) \<and> distinct (callbacks w)"

lemma tcp_okD:
  assumes "tcp_ok w"
  shows "view_ok (view w c)" "next_addr w \<le> c \<Longrightarrow> c \<notin> slots (server w) \<and> io w c = Not_Started" "arr_ok w" "phase_ok w"
    "acceptV6 w = Registered c \<Longrightarrow> acceptV4 w \<noteq> Registered c" "distinct (claims (stopping w))" "distinct (callbacks w)"
  using assms by (auto simp: tcp_ok_def)

lemma nth_upd: "j < length xs \<Longrightarrow> xs[i := y] ! j = (if i = j then y else xs ! j)"
  by (cases "i < length xs") (simp_all add: nth_list_update)

lemma slots_fill:
  assumes "i < length cs" "cs ! i = None"
  shows "{c. Some c \<in> set (cs[i := Some x])} = insert x {c. Some c \<in> set cs}"
proof -
  have "Some c \<in> set (cs[i := Some x]) \<longleftrightarrow> c = x \<or> Some c \<in> set cs" for c
  proof
    assume "c = x \<or> Some c \<in> set cs"
    then show "Some c \<in> set (cs[i := Some x])"
    proof
      assume "Some c \<in> set cs"
      then obtain j where "j < length cs" "cs ! j = Some c" by (auto simp: in_set_conv_nth)
      then show ?thesis using assms(2) nth_upd [of j cs i "Some x"] by (metis length_list_update nth_mem option.distinct(1))
    qed (use assms(1) set_update_memI in fast)
  qed (use set_update_subset_insert [of cs i "Some x"] in auto)
  then show ?thesis by blast
qed

lemma slots_clear:
  assumes "i < length cs" "cs ! i = Some x" "uniq cs"
  shows "{c. Some c \<in> set (cs[i := None])} = {c. Some c \<in> set cs} - {x}"
proof -
  have "Some c \<in> set (cs[i := None]) \<longleftrightarrow> Some c \<in> set cs \<and> c \<noteq> x" for c
  proof
    assume "Some c \<in> set (cs[i := None])"
    then obtain j where j: "j < length cs" "cs[i := None] ! j = Some c" by (auto simp: in_set_conv_nth)
    then have "i \<noteq> j" "cs ! j = Some c" using nth_upd [of j cs i None] by (auto split: if_splits)
    then show "Some c \<in> set cs \<and> c \<noteq> x" using assms j(1) unfolding uniq_def by (metis nth_mem)
  next
    assume c: "Some c \<in> set cs \<and> c \<noteq> x"
    then obtain j where j: "j < length cs" "cs ! j = Some c" by (auto simp: in_set_conv_nth)
    then have "cs[i := None] ! j = Some c" using c assms(2) nth_upd [of j cs i None] by auto
    then show "Some c \<in> set (cs[i := None])" using j(1) by (metis length_list_update nth_mem)
  qed
  then show ?thesis by blast
qed

lemma uniq_fill: "uniq cs \<Longrightarrow> Some x \<notin> set cs \<Longrightarrow> uniq (cs[i := Some x])"
  unfolding uniq_def by (auto simp: nth_upd in_set_conv_nth split: if_splits)

lemma uniq_clear: "uniq cs \<Longrightarrow> uniq (cs[i := None])"
  unfolding uniq_def by (auto simp: nth_upd split: if_splits)

lemma uniq_Cons: "uniq (x # cs) \<Longrightarrow> uniq cs \<and> (\<forall>c. x = Some c \<longrightarrow> Some c \<notin> set cs)"
proof -
  assume u: "uniq (x # cs)"
  have "uniq cs" unfolding uniq_def
  proof (intro allI impI)
    fix i j c assume "i < length cs" "j < length cs" "cs ! i = Some c" "cs ! j = Some c"
    then show "i = j" using u [unfolded uniq_def, rule_format, of "Suc i" "Suc j" c] by simp
  qed
  moreover have "Some c \<notin> set cs" if "x = Some c" for c
  proof
    assume "Some c \<in> set cs"
    then obtain j where "j < length cs" "cs ! j = Some c" by (auto simp: in_set_conv_nth)
    then show False using u [unfolded uniq_def, rule_format, of 0 "Suc j" c] that by simp
  qed
  ultimately show ?thesis by blast
qed

lemma free_client_slot_Some: "free_client_slot cs i = Some k \<Longrightarrow> i \<le> k \<and> k < i + length cs \<and> cs ! (k - i) = None"
  by (induction cs i rule: free_client_slot.induct) (auto simp: nth_Cons' split: if_splits)

lemma find_client_Some: "find_client cs p i = Some k \<Longrightarrow> i \<le> k \<and> k < i + length cs \<and> cs ! (k - i) = Some p"
  by (induction cs p i rule: find_client.induct) (auto simp: nth_Cons' split: if_splits)

lemma find_client_None: "find_client cs p i = None \<longleftrightarrow> Some p \<notin> set cs"
  by (induction cs p i rule: find_client.induct) auto

text \<open>Leaving the array.\<close>

lemma remove_client_ok:
  assumes "arr_ok w" "TcpServer_RemoveClientByPtrUnlocked (server w) cli = (removed, svr)"
  shows "removed \<longleftrightarrow> cli \<in> slots (server w)" "slots svr = slots (server w) - {cli}" "ts_isRunning svr = ts_isRunning (server w)"
    "ts_clientsArr svr = None \<longleftrightarrow> ts_clientsArr (server w) = None" "\<forall>cs. ts_clientsArr svr = Some cs \<longrightarrow> length cs = ts_maxClients svr \<and> uniq cs"
proof -
  have "(removed \<longleftrightarrow> cli \<in> slots (server w)) \<and> slots svr = slots (server w) - {cli} \<and> ts_isRunning svr = ts_isRunning (server w) \<and>
    (ts_clientsArr svr = None \<longleftrightarrow> ts_clientsArr (server w) = None) \<and> (\<forall>cs. ts_clientsArr svr = Some cs \<longrightarrow> length cs = ts_maxClients svr \<and> uniq cs)"
  proof (cases "ts_clientsArr (server w)")
    case None
    then show ?thesis using assms(2) by (auto simp: TcpServer_RemoveClientByPtrUnlocked_def slots_def)
  next
    case (Some cs)
    then have cs: "length cs = ts_maxClients (server w)" "uniq cs" "slots (server w) = {c. Some c \<in> set cs}" using assms(1) by (simp_all add: arr_ok_def slots_def)
    show ?thesis
    proof (cases "find_client cs cli 0")
      case None
      then show ?thesis using assms(2) Some cs find_client_None [of cs cli 0]
        by (auto simp: TcpServer_RemoveClientByPtrUnlocked_def Generic_FindClientInArrayByPtr_def)
    next
      case (Some k)
      have k: "k < length cs" "cs ! k = Some cli" using find_client_Some [OF Some] by simp_all
      have "svr = (server w)\<lparr> ts_clientsArr := Some (cs[k := None]) \<rparr>" "removed"
        using assms(2) \<open>ts_clientsArr (server w) = Some cs\<close> Some cs(1) by (auto simp: TcpServer_RemoveClientByPtrUnlocked_def Generic_FindClientInArrayByPtr_def)
      moreover have "Some cli \<in> set cs" using k by (metis nth_mem)
      ultimately show ?thesis using slots_clear [OF k cs(2)] cs uniq_clear [OF cs(2)] \<open>ts_clientsArr (server w) = Some cs\<close> by (simp add: slots_def)
    qed
  qed
  then show "removed \<longleftrightarrow> cli \<in> slots (server w)" "slots svr = slots (server w) - {cli}" "ts_isRunning svr = ts_isRunning (server w)"
    "ts_clientsArr svr = None \<longleftrightarrow> ts_clientsArr (server w) = None" "\<forall>cs. ts_clientsArr svr = Some cs \<longrightarrow> length cs = ts_maxClients svr \<and> uniq cs" by blast+
qed

section \<open>Every step keeps the invariant\<close>

lemma view_simps [simp]:
  "v_slot (view w c) = (c \<in> slots (server w))" "v_conn (view w c) = conns w c" "v_io (view w c) = io w c"
  "v_reg (view w c) = (acceptV6 w = Registered c \<or> acceptV4 w = Registered c)" "v_claim (view w c) = (c \<in> set (claims (stopping w)))"
  "v_detached (view w c) = (c \<in> detached w)" "v_joined (view w c) = (c \<in> joined w)"
  "v_connect (view w c) = (On_Connect c \<in> set (callbacks w))" "v_disconnect (view w c) = (On_Disconnect c \<in> set (callbacks w))"
  by (simp_all add: view_def)

text \<open>A step that touches the connection \<open>c\<close> only.\<close>

lemma tcp_ok_change:
  assumes "tcp_ok w" "\<And>d. d \<noteq> c \<Longrightarrow> view w' d = view w d" "view_ok (view w' c)" "next_addr w \<le> next_addr w'" "c < next_addr w'" "arr_ok w'" "phase_ok w'"
    "\<And>d. \<not> (acceptV6 w' = Registered d \<and> acceptV4 w' = Registered d)" "distinct (claims (stopping w'))" "distinct (callbacks w')"
  shows "tcp_ok w'"
proof -
  have "view_ok (view w' d)" for d using assms(2,3) tcp_okD(1) [OF assms(1), of d] by (cases "d = c") simp_all
  moreover have "d \<notin> slots (server w') \<and> io w' d = Not_Started" if "next_addr w' \<le> d" for d
  proof -
    have "d \<noteq> c" "next_addr w \<le> d" using that assms(4,5) by auto
    then have "view w' d = view w d" "d \<notin> slots (server w) \<and> io w d = Not_Started" using assms(2) tcp_okD(2) [OF assms(1)] by blast+
    then show ?thesis by (metis view_simps(1,3))
  qed
  ultimately show ?thesis using assms(6-10) by (auto simp: tcp_ok_def)
qed

lemma tcp_ok_same:
  assumes "tcp_ok w" "\<And>d. view w' d = view w d" "next_addr w \<le> next_addr w'" "arr_ok w'" "phase_ok w'"
    "\<And>d. \<not> (acceptV6 w' = Registered d \<and> acceptV4 w' = Registered d)" "distinct (claims (stopping w'))" "distinct (callbacks w')"
  shows "tcp_ok w'"
proof -
  have "d \<notin> slots (server w') \<and> io w' d = Not_Started" if "next_addr w' \<le> d" for d
    using assms(2) [of d] tcp_okD(2) [OF assms(1), of d] that assms(3) by (metis le_trans view_simps(1,3))
  then show ?thesis using assms(2,4-8) tcp_okD(1) [OF assms(1)] by (simp add: tcp_ok_def)
qed

lemma fresh_view:
  assumes "tcp_ok w"
  shows "conns w (next_addr w) = None" "next_addr w \<notin> slots (server w)" "io w (next_addr w) = Not_Started" "On_Connect (next_addr w) \<notin> set (callbacks w)"
    "acceptV6 w \<noteq> Registered (next_addr w)" "acceptV4 w \<noteq> Registered (next_addr w)" "next_addr w \<notin> set (claims (stopping w))"
    "next_addr w \<notin> detached w" "next_addr w \<notin> joined w" "On_Disconnect (next_addr w) \<notin> set (callbacks w)"
  using tcp_okD(1,2) [OF assms, of "next_addr w"] by (auto simp: view_ok_def)

lemma set_accept_pc_simps [simp]:
  "server (set_accept_pc v pc w) = server w" "conns (set_accept_pc v pc w) = conns w" "io (set_accept_pc v pc w) = io w" "next_addr (set_accept_pc v pc w) = next_addr w"
  "stopping (set_accept_pc v pc w) = stopping w" "detached (set_accept_pc v pc w) = detached w" "joined (set_accept_pc v pc w) = joined w"
  "callbacks (set_accept_pc v pc w) = callbacks w" "acceptV6 (set_accept_pc v pc w) = (if v then pc else acceptV6 w)" "acceptV4 (set_accept_pc v pc w) = (if v then acceptV4 w else pc)"
  by (simp_all add: set_accept_pc_def)

lemma accept_ok:
  assumes "tcp_ok w" "accept_pc_of v6 w = Accepting"
  shows "\<exists>w'. accept_client v6 w = Some w' \<and> tcp_ok w'"
proof -
  let ?c = "next_addr w"
  note fr = fresh_view [OF assms(1)] and ph = tcp_okD(4) [OF assms(1)]
  have run: "stopping w \<in> {Not_Stopping, Waiting}" using ph assms(2) by (auto simp: phase_ok_def accept_pc_of_def split: if_splits)
  then obtain cs where cs: "ts_clientsArr (server w) = Some cs" using tcp_okD(3) [OF assms(1)] by (auto simp: arr_ok_def)
  then have arr: "length cs = ts_maxClients (server w)" "uniq cs" "slots (server w) = {c. Some c \<in> set cs}" using tcp_okD(3) [OF assms(1)] by (simp_all add: arr_ok_def slots_def)
  show ?thesis
  proof (cases "free_client_slot cs 0")
    case None
    let ?w = "w\<lparr> next_addr := Suc ?c \<rparr>"
    have "accept_client v6 w = Some ?w" using None cs arr(1) fr(1) by (simp add: accept_client_def Let_def fun_upd_idem)
    moreover have "tcp_ok ?w" using tcp_okD(3-7) [OF assms(1)] by (intro tcp_ok_same [OF assms(1)]) (auto simp: view_def arr_ok_def phase_ok_def)
    ultimately show ?thesis by blast
  next
    case (Some i)
    have i: "i < length cs" "cs ! i = None" using free_client_slot_Some [OF Some] by simp_all
    let ?w = "set_accept_pc v6 (Registered ?c) (w\<lparr> conns := (conns w)(?c \<mapsto> \<lparr> sc_closing = False, sc_disconnectNotified = False \<rparr>), next_addr := Suc ?c,
      server := (server w)\<lparr> ts_clientsArr := Some (cs[i := Some ?c]) \<rparr>, callbacks := callbacks w @ [On_Connect ?c] \<rparr>)"
    have a: "accept_client v6 w = Some ?w" using Some cs arr(1) by (simp add: accept_client_def Let_def)
    have sl: "slots (server ?w) = insert ?c (slots (server w))" using slots_fill [OF i, of ?c] arr(3) by (simp add: slots_def)
    have pc: "accept_pc_of v6 w \<noteq> Registered d" for d using assms(2) by simp
    have "view ?w d = view w d" if "d \<noteq> ?c" for d
      using that sl pc [of d] by (cases v6) (simp_all add: view_def accept_pc_of_def)
    moreover have "view_ok (view ?w ?c)" using sl fr by (cases v6) (auto simp: view_ok_def)
    moreover have "arr_ok ?w" using arr uniq_fill [OF arr(2), of ?c i] fr(2) by (simp add: arr_ok_def)
    moreover have "phase_ok ?w" using ph run by (auto simp: phase_ok_def)
    ultimately have "tcp_ok ?w" using tcp_okD(5,6,7) [OF assms(1)] fr
      by (intro tcp_ok_change [OF assms(1), of ?c]) (auto split: if_splits)
    then show ?thesis using a by blast
  qed
qed

lemma start_thread_ok:
  assumes "tcp_ok w" "accept_pc_of v6 w = Registered c"
  shows "\<exists>w'. start_client_thread v6 w = Some w' \<and> tcp_ok w'"
proof -
  have v: "view_ok (view w c)" and ph: "phase_ok w" and o: "\<And>d. acceptV6 w = Registered d \<Longrightarrow> acceptV4 w \<noteq> Registered d"
    using tcp_okD(1,4,5) [OF assms(1)] by blast+
  have r: "acceptV6 w = Registered c \<or> acceptV4 w = Registered c" using assms(2) by (auto simp: accept_pc_of_def split: if_splits)
  then have c: "c \<in> slots (server w)" "io w c = Not_Started" "conns w c \<noteq> None" using v by (auto simp: view_ok_def)
  then have lt: "c < next_addr w" using tcp_okD(2) [OF assms(1), of c] by (meson not_le)
  let ?w = "set_accept_pc v6 Accepting (w\<lparr> io := (io w)(c := Receiving) \<rparr>)"
  have "start_client_thread v6 w = Some ?w" using assms(2) c(3) by (simp add: start_client_thread_def)
  moreover have "view ?w d = view w d" if "d \<noteq> c" for d using that assms(2) by (cases v6) (simp_all add: view_def accept_pc_of_def)
  moreover have "view_ok (view ?w c)" using v r c o [of c] assms(2) by (cases v6) (auto simp: view_ok_def accept_pc_of_def)
  moreover have "phase_ok ?w" using ph assms(2) by (auto simp: phase_ok_def accept_pc_of_def split: if_splits)
  moreover have "arr_ok ?w" using tcp_okD(3) [OF assms(1)] by (simp add: arr_ok_def)
  ultimately show ?thesis using tcp_okD(5,6,7) [OF assms(1)] lt by (intro exI [of _ ?w] conjI tcp_ok_change [OF assms(1), of c]) auto
qed

lemma accept_leaves_ok:
  assumes "tcp_ok w" "accept_pc_of v6 w = Accepting"
  shows "tcp_ok (set_accept_pc v6 Left w)"
proof -
  have "view (set_accept_pc v6 Left w) d = view w d" for d using assms(2) by (cases v6) (simp_all add: view_def accept_pc_of_def)
  moreover have "phase_ok (set_accept_pc v6 Left w)" "arr_ok (set_accept_pc v6 Left w)" using tcp_okD(3,4) [OF assms(1)] by (auto simp: phase_ok_def arr_ok_def)
  ultimately show ?thesis using tcp_okD(5-7) [OF assms(1)] by (intro tcp_ok_same [OF assms(1)]) auto
qed

lemma started_lt: "tcp_ok w \<Longrightarrow> io w c \<noteq> Not_Started \<Longrightarrow> c < next_addr w"
  using tcp_okD(2) [of w c] by (meson not_le)

lemma hang_up_ok:
  assumes "tcp_ok w" "io w c = Receiving"
  shows "\<exists>w'. client_hangs_up c w = Some w' \<and> tcp_ok w'"
proof -
  note v = tcp_okD(1) [OF assms(1), of c]
  then obtain x where x: "conns w c = Some x" "\<not> sc_disconnectNotified x" using assms(2) by (auto simp: view_ok_def)
  let ?w = "w\<lparr> conns := (conns w)(c \<mapsto> x\<lparr> sc_closing := True, sc_disconnectNotified := True \<rparr>), callbacks := callbacks w @ [On_Disconnect c],
    io := (io w)(c := Hung_Up) \<rparr>"
  have "client_hangs_up c w = Some ?w" using x by (simp add: client_hangs_up_def TcpConnection_RequestClose_def Let_def)
  moreover have "view_ok (view ?w c)" using v assms(2) x(1) by (auto simp: view_ok_def)
  moreover have "On_Disconnect c \<notin> set (callbacks w)" using v assms(2) by (auto simp: view_ok_def)
  moreover have "arr_ok ?w" "phase_ok ?w" using tcp_okD(3,4) [OF assms(1)] by (auto simp: arr_ok_def phase_ok_def)
  ultimately show ?thesis using tcp_okD(5-7) [OF assms(1)] started_lt [OF assms(1), of c] assms(2)
    by (intro exI [of _ ?w] conjI tcp_ok_change [OF assms(1), of c]) (auto simp: view_def)
qed

lemma leave_ok:
  assumes "tcp_ok w" "io w c = Hung_Up"
  shows "\<exists>w'. client_leaves c w = Some w' \<and> tcp_ok w'"
proof -
  note v = tcp_okD(1) [OF assms(1), of c]
  have live: "conns w c \<noteq> None" using v assms(2) by (auto simp: view_ok_def)
  obtain removed svr where r: "TcpServer_RemoveClientByPtrUnlocked (server w) c = (removed, svr)" by fastforce
  note s = remove_client_ok [OF tcp_okD(3) [OF assms(1)] r]
  let ?w = "w\<lparr> server := svr, detached := (if removed then insert c (detached w) else detached w), conns := (conns w)(c := None), io := (io w)(c := Ended) \<rparr>"
  have "client_leaves c w = Some ?w" using live r by (simp add: client_leaves_def Let_def)
  moreover have "view ?w d = view w d" if "d \<noteq> c" for d using that s(2) by (simp add: view_def)
  moreover have "view_ok (view ?w c)" using v assms(2) s(1,2) by (cases removed) (auto simp: view_ok_def)
  moreover have "arr_ok ?w" using s(4,5) tcp_okD(3) [OF assms(1)] by (auto simp: arr_ok_def)
  moreover have "phase_ok ?w" using tcp_okD(4) [OF assms(1)] s(2,3) by (auto simp: phase_ok_def)
  ultimately show ?thesis using tcp_okD(5-7) [OF assms(1)] started_lt [OF assms(1), of c] assms(2)
    by (intro exI [of _ ?w] conjI tcp_ok_change [OF assms(1), of c]) auto
qed

lemma stop_begins_ok:
  assumes "tcp_ok w" "stopping w = Not_Stopping"
  shows "\<exists>w'. stop_begins w = Some w' \<and> tcp_ok w'"
proof -
  let ?w = "w\<lparr> server := (server w)\<lparr> ts_isRunning := False, ts_sockFd := -1, ts_sockFdV4 := -1 \<rparr>, stopping := Waiting \<rparr>"
  have "slots (server ?w) = slots (server w)" by (simp add: slots_def)
  then have "view ?w d = view w d" for d using assms(2) by (simp add: view_def)
  moreover have "arr_ok ?w" "phase_ok ?w" using tcp_okD(3) [OF assms(1)] assms(2) by (auto simp: arr_ok_def phase_ok_def)
  ultimately have "tcp_ok ?w" using tcp_okD(5-7) [OF assms(1)] by (intro tcp_ok_same [OF assms(1)]) auto
  then show ?thesis by (simp add: stop_begins_def)
qed

text \<open>The walk over the slots closes and claims exactly the registered clients.\<close>

lemma claim_slots_ok:
  "\<forall>c. Some c \<in> set cs \<longrightarrow> conns w c \<noteq> None \<Longrightarrow> \<exists>hs w'. claim_slots cs w = Some (replicate (length cs) None, hs, w') \<and> set hs = {c. Some c \<in> set cs} \<and>
     (uniq cs \<longrightarrow> distinct hs) \<and> (\<exists>m. w' = w\<lparr> conns := m \<rparr> \<and> (\<forall>c. m c = (if Some c \<in> set cs then map_option (\<lambda>x. x\<lparr> sc_closing := True \<rparr>) (conns w c) else conns w c)))"
proof (induction cs arbitrary: w)
  case Nil
  then show ?case by (auto intro!: exI [of _ "conns w"])
next
  case (Cons x cs)
  show ?case
  proof (cases x)
    case None
    obtain hs w' m where r: "claim_slots cs w = Some (replicate (length cs) None, hs, w')" "set hs = {c. Some c \<in> set cs}" "uniq cs \<longrightarrow> distinct hs"
      "w' = w\<lparr> conns := m \<rparr>" "\<forall>c. m c = (if Some c \<in> set cs then map_option (\<lambda>x. x\<lparr> sc_closing := True \<rparr>) (conns w c) else conns w c)"
      using Cons.IH [of w] Cons.prems by auto
    then show ?thesis using None uniq_Cons [of None cs] by auto
  next
    case (Some c)
    obtain y where y: "conns w c = Some y" using Cons.prems Some by auto
    let ?w = "w\<lparr> conns := (conns w)(c \<mapsto> y\<lparr> sc_closing := True \<rparr>) \<rparr>"
    have live: "\<forall>d. Some d \<in> set cs \<longrightarrow> conns ?w d \<noteq> None" using Cons.prems by auto
    obtain hs w' m where r: "claim_slots cs ?w = Some (replicate (length cs) None, hs, w')" "set hs = {c. Some c \<in> set cs}" "uniq cs \<longrightarrow> distinct hs"
      "w' = ?w\<lparr> conns := m \<rparr>" "\<forall>d. m d = (if Some d \<in> set cs then map_option (\<lambda>x. x\<lparr> sc_closing := True \<rparr>) (conns ?w d) else conns ?w d)"
      using Cons.IH [OF live] by blast
    have "claim_slots (x # cs) w = Some (replicate (length (x # cs)) None, c # hs, w')" using Some y r(1) by (simp add: TcpConnection_RequestClose_def)
    moreover have "uniq (x # cs) \<longrightarrow> distinct (c # hs)" using r(2,3) Some uniq_Cons [of x cs] by auto
    moreover have "m d = (if Some d \<in> set (x # cs) then map_option (\<lambda>x. x\<lparr> sc_closing := True \<rparr>) (conns w d) else conns w d)" for d
      using r(5) Some y by (cases "d = c") auto
    ultimately show ?thesis using r(2,4) Some by (intro exI [of _ "c # hs"] exI [of _ w']) auto
  qed
qed

lemma stop_collects_ok:
  assumes "tcp_ok w" "enabled Stop_Collects w"
  shows "\<exists>w'. stop_collects w = Some w' \<and> tcp_ok w'"
proof -
  have st: "stopping w = Waiting" "acceptV6 w \<in> {No_Thread, Left}" "acceptV4 w \<in> {No_Thread, Left}" using assms(2) by simp_all
  obtain cs where cs: "ts_clientsArr (server w) = Some cs" "length cs = ts_maxClients (server w)" "uniq cs" "slots (server w) = {c. Some c \<in> set cs}"
    using tcp_okD(3) [OF assms(1)] st(1) by (auto simp: arr_ok_def slots_def)
  have v: "view_ok (view w c)" for c using tcp_okD(1) [OF assms(1)] .
  have live: "\<forall>c. Some c \<in> set cs \<longrightarrow> conns w c \<noteq> None" using v cs(4) by (auto simp: view_ok_def)
  obtain hs w1 m where r: "claim_slots cs w = Some (replicate (length cs) None, hs, w1)" "set hs = {c. Some c \<in> set cs}" "distinct hs" "w1 = w\<lparr> conns := m \<rparr>"
    "\<forall>c. m c = (if Some c \<in> set cs then map_option (\<lambda>x. x\<lparr> sc_closing := True \<rparr>) (conns w c) else conns w c)"
    using claim_slots_ok [OF live] cs(3) by auto
  let ?w = "w\<lparr> conns := m, server := (server w)\<lparr> ts_clientsArr := Some (replicate (length cs) None) \<rparr>, stopping := Joining hs \<rparr>"
  have "stop_collects w = Some ?w" using cs(1) r(1,4) by (simp add: stop_collects_def)
  moreover have sl: "slots (server ?w) = {}" by (auto simp: slots_def)
  have mc: "m c = (if c \<in> slots (server w) then map_option (\<lambda>x. x\<lparr> sc_closing := True \<rparr>) (conns w c) else conns w c)" for c using r(5) cs(4) by simp
  have "view_ok (view ?w c)" for c
  proof (cases "c \<in> slots (server w)")
    case True
    then have f: "io w c \<noteq> Not_Started" "io w c \<noteq> Ended" "c \<in> set hs" using v [of c] st r(2) cs(4) by (auto simp: view_ok_def)
    obtain x where x: "conns w c = Some x" using v [of c] True by (auto simp: view_ok_def)
    then have "m c = Some (x\<lparr> sc_closing := True \<rparr>)" using mc [of c] True by simp
    then show ?thesis using v [of c] f x True sl st by (cases "io w c") (simp_all add: view_ok_def)
  next
    case False
    then have "m c = conns w c" "c \<notin> set hs" using mc [of c] r(2) cs(4) by simp_all
    then show ?thesis using v [of c] False sl st(1) by (auto simp: view_ok_def)
  qed
  moreover have "uniq (replicate (length cs) None)" by (simp add: uniq_def)
  then have "arr_ok ?w" "phase_ok ?w" using cs(2) sl st tcp_okD(4) [OF assms(1)] by (auto simp: arr_ok_def phase_ok_def)
  ultimately show ?thesis using tcp_okD(2,5,7) [OF assms(1)] r(3) sl by (intro exI [of _ ?w]) (auto simp: tcp_ok_def)
qed

lemma stop_joins_ok:
  assumes "tcp_ok w" "enabled Stop_Joins w"
  shows "\<exists>w'. stop_joins w = Some w' \<and> tcp_ok w'"
proof -
  obtain h hs where h: "stopping w = Joining (h # hs)" "join_io h w \<noteq> Some False" using assms(2) by auto
  note v = tcp_okD(1) [OF assms(1), of h]
  have d: "distinct (h # hs)" using tcp_okD(6) [OF assms(1)] h(1) by simp
  have "io w h \<noteq> Not_Started" "h \<notin> detached w" using v h(1) by (auto simp: view_ok_def)
  then have j: "join_io h w = Some True" "io w h = Ended" using h(2) by (auto simp: join_io_def split: if_splits)
  let ?w = "w\<lparr> stopping := Joining hs, joined := insert h (joined w) \<rparr>"
  have "stop_joins w = Some ?w" using h(1) j(1) by (simp add: stop_joins_def)
  moreover have "view ?w c = view w c" if "c \<noteq> h" for c using that h(1) by (simp add: view_def)
  moreover have "view_ok (view ?w h)" using v h(1) j(2) d by (auto simp: view_ok_def)
  moreover have "arr_ok ?w" "phase_ok ?w" using tcp_okD(3,4) [OF assms(1)] h(1) by (auto simp: arr_ok_def phase_ok_def)
  ultimately show ?thesis using tcp_okD(5,7) [OF assms(1)] d started_lt [OF assms(1), of h] j(2)
    by (intro exI [of _ ?w] conjI tcp_ok_change [OF assms(1), of h]) auto
qed

lemma stop_ends_ok:
  assumes "tcp_ok w" "stopping w = Joining []"
  shows "\<exists>w'. stop_ends w = Some w' \<and> tcp_ok w'"
proof -
  let ?w = "w\<lparr> server := (server w)\<lparr> ts_clientsArr := None, ts_maxClients := 0 \<rparr>, stopping := Stopped \<rparr>"
  have "slots (server w) = {}" using tcp_okD(4) [OF assms(1)] assms(2) by (simp add: phase_ok_def)
  then have sl: "slots (server ?w) = slots (server w)" by (simp add: slots_def)
  then have "view ?w d = view w d" for d using assms(2) by (simp add: view_def)
  moreover have "arr_ok ?w" "phase_ok ?w" using tcp_okD(4) [OF assms(1)] assms(2) sl by (auto simp: arr_ok_def phase_ok_def)
  ultimately have "tcp_ok ?w" using tcp_okD(5,7) [OF assms(1)] by (intro tcp_ok_same [OF assms(1)]) auto
  then show ?thesis by (simp add: stop_ends_def)
qed

lemma pin_slots_live: "\<forall>c. Some c \<in> set cs \<longrightarrow> conns w c \<noteq> None \<Longrightarrow> \<exists>ts. pin_slots skip cs w = Some ts"
  by (induction skip cs w rule: pin_slots.induct) auto

lemma tcp_ok_held [simp]: "tcp_ok (w\<lparr> held := hs \<rparr>) = tcp_ok w"
  by (simp add: tcp_ok_def view_def arr_ok_def phase_ok_def)

lemma relay_pins_ok:
  assumes "tcp_ok w"
  shows "\<exists>w'. relay_pins skip w = Some w' \<and> tcp_ok w'"
proof (cases "ts_clientsArr (server w)")
  case (Some cs)
  have "\<forall>c. Some c \<in> set (take (ts_maxClients (server w)) cs) \<longrightarrow> conns w c \<noteq> None"
  proof (intro allI impI)
    fix c assume "Some c \<in> set (take (ts_maxClients (server w)) cs)"
    then have "c \<in> slots (server w)" using Some by (auto simp: slots_def dest: in_set_takeD)
    then show "conns w c \<noteq> None" using tcp_okD(1) [OF assms, of c] by (auto simp: view_ok_def)
  qed
  from pin_slots_live [OF this, of skip] show ?thesis using Some assms by (auto simp: relay_pins_def)
qed (use assms in \<open>simp add: relay_pins_def\<close>)

text \<open>The accept thread joins a thread that does not exist.\<close>

lemma thread_fails_undefined:
  assumes "tcp_ok w" "accept_pc_of v6 w = Registered c"
  shows "client_thread_fails v6 w = None" "conns w c \<noteq> None" "c \<in> slots (server w)"
proof -
  have "acceptV6 w = Registered c \<or> acceptV4 w = Registered c" using assms(2) by (auto simp: accept_pc_of_def split: if_splits)
  then have c: "c \<in> slots (server w)" "io w c = Not_Started" "conns w c \<noteq> None"
    using tcp_okD(1) [OF assms(1), of c] by (auto simp: view_ok_def)
  then show "conns w c \<noteq> None" "c \<in> slots (server w)" by simp_all
  show "client_thread_fails v6 w = None"
    using assms(2) c by (auto simp: client_thread_fails_def TcpServer_Disconnect_def TcpConnection_RequestClose_def join_io_def)
qed

text \<open>The two undefined steps; every other step that can be taken keeps the invariant.\<close>

definition undefined_step :: "tcp_action \<Rightarrow> tcp_world \<Rightarrow> bool" where
  "undefined_step a w = (case a of Thread_Fails v6 \<Rightarrow> True | Relay_Sends c \<Rightarrow> conns w c = None | _ \<Rightarrow> False)"

lemma tcp_do_undefined:
  assumes "tcp_ok w" "enabled a w" "undefined_step a w"
  shows "tcp_do a w = None"
  using assms thread_fails_undefined(1) [OF assms(1)] by (auto simp: undefined_step_def relay_sends_def split: tcp_action.splits)

lemma tcp_do_ok:
  assumes "tcp_ok w" "enabled a w" "\<not> undefined_step a w"
  shows "\<exists>w'. tcp_do a w = Some w' \<and> tcp_ok w'"
proof (cases a)
  case (Start_Thread v6)
  then obtain c where "accept_pc_of v6 w = Registered c" using assms(2) by auto
  then show ?thesis using Start_Thread start_thread_ok [OF assms(1)] by simp
next
  case Stop_Collects
  then show ?thesis using stop_collects_ok [OF assms(1)] assms(2) by simp
next
  case Stop_Joins
  then show ?thesis using stop_joins_ok [OF assms(1)] assms(2) by simp
next
  case (Relay_Pins skip)
  then show ?thesis using relay_pins_ok [OF assms(1)] by simp
next
  case (Relay_Sends c)
  then show ?thesis using assms by (auto simp: undefined_step_def relay_sends_def)
next
  case (Thread_Fails v6)
  then show ?thesis using assms(3) by (simp add: undefined_step_def)
qed (use assms(1,2) accept_ok accept_leaves_ok hang_up_ok leave_ok stop_begins_ok stop_ends_ok in auto)

lemma tcp_do_keeps: "tcp_ok w \<Longrightarrow> enabled a w \<Longrightarrow> tcp_do a w = Some w' \<Longrightarrow> tcp_ok w'"
  using tcp_do_ok tcp_do_undefined by (metis option.distinct(1) option.inject)

lemma started_ok:
  assumes "svr = TcpServer_Init fd6 bound6 fd4 bound4 TcpServer_Create" "w = TcpServer_Start l6 l4 t6 t4 maxcons (idle_world svr)" "ts_isRunning (server w)"
  shows "tcp_ok w"
proof -
  have nr: "\<not> ts_isRunning svr" using assms(1) by (simp add: TcpServer_Init_def TcpServer_Create_def Let_def)
  have w: "conns w = Map.empty" "io w = (\<lambda>_. Not_Started)" "stopping w = Not_Stopping" "detached w = {}" "joined w = {}" "callbacks w = []"
    "acceptV6 w \<in> {No_Thread, Accepting}" "acceptV4 w \<in> {No_Thread, Accepting}"
    unfolding assms(2) TcpServer_Start_def idle_world_def Let_def by (simp_all split: if_split)
  have "ts_clientsArr (server w) = Some (replicate (nat maxcons) None) \<and> ts_maxClients (server w) = nat maxcons"
    using assms(3) nr unfolding assms(2) TcpServer_Start_def idle_world_def Let_def by (auto split: if_splits)
  then have "arr_ok w" "slots (server w) = {}" by (auto simp: arr_ok_def slots_def uniq_def)
  then show ?thesis using w by (auto simp: tcp_ok_def view_ok_def phase_ok_def)
qed

lemma tcp_reachable_ok: "tcp_reachable w \<Longrightarrow> tcp_ok w"
proof (induction rule: tcp_reachable.induct)
  case (tcp_stepped w a w')
  then show ?case using tcp_do_keeps [of w a w'] by simp
qed (use started_ok in blast)

section \<open>Stopping comes to an end\<close>

text \<open>Steps of the threads in which no further client is accepted, nor a block relayed.\<close>

definition stop_action :: "tcp_action \<Rightarrow> bool" where
  "stop_action a = (case a of Accept v6 \<Rightarrow> False | Relay_Pins skip \<Rightarrow> False | Relay_Sends c \<Rightarrow> False | _ \<Rightarrow> True)"

lemma stop_action_simps [simp]:
  "stop_action (Start_Thread v6)" "stop_action (Accept_Leaves v6)" "stop_action (Hang_Up c)" "stop_action (Leave c)"
  "stop_action Stop_Collects" "stop_action Stop_Joins" "stop_action Stop_Ends" "\<not> stop_action (Accept v6)"
  by (simp_all add: stop_action_def)

inductive stop_run :: "tcp_world \<Rightarrow> tcp_world \<Rightarrow> bool" where
  stop_run_refl: "stop_run w w"
| stop_run_step: "enabled a w \<Longrightarrow> stop_action a \<Longrightarrow> tcp_do a w = Some w1 \<Longrightarrow> stop_run w1 w2 \<Longrightarrow> stop_run w w2"

lemma stop_run_one: "enabled a w \<Longrightarrow> stop_action a \<Longrightarrow> tcp_do a w = Some w1 \<Longrightarrow> stop_run w w1"
  using stop_run_step stop_run_refl by blast

lemma stop_run_trans: "stop_run w1 w2 \<Longrightarrow> stop_run w2 w3 \<Longrightarrow> stop_run w1 w3"
  by (induction rule: stop_run.induct) (auto intro: stop_run_step)

lemma stop_run_reachable: "stop_run w w' \<Longrightarrow> tcp_reachable w \<Longrightarrow> tcp_reachable w'"
  by (induction rule: stop_run.induct) (auto intro: tcp_stepped)

text \<open>A client thread runs to its end.\<close>

lemma client_ends:
  assumes "tcp_ok w" "io w c \<noteq> Not_Started"
  shows "\<exists>w'. stop_run w w' \<and> tcp_ok w' \<and> io w' c = Ended \<and> stopping w' = stopping w"
proof -
  have hung: "\<exists>w'. stop_run w w' \<and> tcp_ok w' \<and> io w' c = Ended \<and> stopping w' = stopping w" if w: "tcp_ok w" "io w c = Hung_Up" for w
  proof -
    obtain w' where "client_leaves c w = Some w'" "tcp_ok w'" using leave_ok [OF w] by blast
    moreover from this have "io w' c = Ended" "stopping w' = stopping w" by (auto simp: client_leaves_def Let_def split: if_splits prod.splits)
    ultimately show ?thesis using stop_run_one [of "Leave c" w w'] w(2) by auto
  qed
  show ?thesis
  proof (cases "io w c")
    case Receiving
    then obtain w1 where w1: "client_hangs_up c w = Some w1" "tcp_ok w1" using hang_up_ok [OF assms(1)] by blast
    then have "io w1 c = Hung_Up" "stopping w1 = stopping w"
      by (auto simp: client_hangs_up_def TcpConnection_RequestClose_def Let_def split: option.splits)
    moreover have "stop_run w w1" using stop_run_one [of "Hang_Up c" w w1] Receiving w1(1) by simp
    ultimately show ?thesis using hung [OF w1(2)] stop_run_trans by metis
  qed (use assms hung stop_run_refl in auto)
qed

lemma joins_end: "tcp_ok w \<Longrightarrow> stopping w = Joining hs \<Longrightarrow> \<exists>w'. stop_run w w' \<and> tcp_ok w' \<and> stopping w' = Stopped"
proof (induction hs arbitrary: w)
  case Nil
  then obtain w' where "stop_ends w = Some w'" "tcp_ok w'" using stop_ends_ok by blast
  moreover from this have "stopping w' = Stopped" by (auto simp: stop_ends_def)
  ultimately show ?case using stop_run_one [of Stop_Ends w w'] Nil(2) by auto
next
  case (Cons h hs)
  have "io w h \<noteq> Not_Started" using tcp_okD(1) [OF Cons.prems(1), of h] Cons.prems(2) by (auto simp: view_ok_def)
  then obtain w1 where w1: "stop_run w w1" "tcp_ok w1" "io w1 h = Ended" "stopping w1 = Joining (h # hs)" using client_ends [OF Cons.prems(1)] Cons.prems(2) by metis
  have "h \<notin> detached w1" using tcp_okD(1) [OF w1(2), of h] w1(4) by (auto simp: view_ok_def)
  then have j: "join_io h w1 = Some True" using w1(3) by (simp add: join_io_def)
  then have en: "enabled Stop_Joins w1" using w1(4) by simp
  then obtain w2 where w2: "stop_joins w1 = Some w2" "tcp_ok w2" using stop_joins_ok [OF w1(2)] by blast
  then have "stopping w2 = Joining hs" using w1(4) j by (auto simp: stop_joins_def)
  moreover have "stop_run w1 w2" using stop_run_one [OF en, of w2] w2(1) by simp
  ultimately show ?case using Cons.IH [OF w2(2)] stop_run_trans [OF w1(1)] stop_run_trans by metis
qed

text \<open>An accept thread that is not running any more leaves.\<close>

lemma accept_thread_leaves:
  assumes "tcp_ok w" "stopping w = Waiting"
  shows "\<exists>w'. stop_run w w' \<and> tcp_ok w' \<and> stopping w' = Waiting \<and> accept_pc_of v6 w' \<in> {No_Thread, Left} \<and> accept_pc_of (\<not> v6) w' = accept_pc_of (\<not> v6) w"
proof -
  have acc: "\<exists>w'. stop_run w w' \<and> tcp_ok w' \<and> stopping w' = Waiting \<and> accept_pc_of v6 w' \<in> {No_Thread, Left} \<and> accept_pc_of (\<not> v6) w' = accept_pc_of (\<not> v6) w"
    if w: "tcp_ok w" "stopping w = Waiting" "accept_pc_of v6 w = Accepting" for w
  proof -
    have "\<not> ts_isRunning (server w)" using tcp_okD(4) [OF w(1)] w(2) by (simp add: phase_ok_def)
    then have "stop_run w (set_accept_pc v6 Left w)" using stop_run_one [of "Accept_Leaves v6" w] w(3) by simp
    then show ?thesis using accept_leaves_ok [OF w(1,3)] w(2) by (intro exI [of _ "set_accept_pc v6 Left w"]) (auto simp: accept_pc_of_def)
  qed
  show ?thesis
  proof (cases "accept_pc_of v6 w")
    case (Registered c)
    then obtain w1 where w1: "start_client_thread v6 w = Some w1" "tcp_ok w1" using start_thread_ok [OF assms(1)] by blast
    then have "stopping w1 = Waiting" "accept_pc_of v6 w1 = Accepting" "accept_pc_of (\<not> v6) w1 = accept_pc_of (\<not> v6) w"
      using Registered assms(2) by (auto simp: start_client_thread_def accept_pc_of_def split: if_splits)
    moreover have "stop_run w w1" using stop_run_one [of "Start_Thread v6" w w1] Registered w1(1) by simp
    ultimately show ?thesis using acc [OF w1(2)] stop_run_trans by metis
  qed (use assms acc stop_run_refl in auto)
qed

lemma stop_ends_somehow:
  assumes "tcp_ok w" "stopping w = Waiting"
  shows "\<exists>w'. stop_run w w' \<and> tcp_ok w' \<and> stopping w' = Stopped"
proof -
  obtain w1 where w1: "stop_run w w1" "tcp_ok w1" "stopping w1 = Waiting" "accept_pc_of True w1 \<in> {No_Thread, Left}" using accept_thread_leaves [OF assms, of True] by blast
  obtain w2 where w2: "stop_run w1 w2" "tcp_ok w2" "stopping w2 = Waiting" "accept_pc_of False w2 \<in> {No_Thread, Left}" "accept_pc_of True w2 = accept_pc_of True w1"
    using accept_thread_leaves [OF w1(2,3), of False] by auto
  have en: "enabled Stop_Collects w2" using w1(4) w2(3-5) by (simp add: accept_pc_of_def)
  then obtain w3 where w3: "stop_collects w2 = Some w3" "tcp_ok w3" using stop_collects_ok [OF w2(2)] by blast
  have "stop_run w2 w3" using stop_run_one [OF en, of w3] w3(1) by simp
  moreover obtain hs where "stopping w3 = Joining hs" using w3(1) by (auto simp: stop_collects_def split: option.splits)
  ultimately show ?thesis using joins_end [OF w3(2)] w1(1) w2(1) stop_run_trans by metis
qed

section \<open>Properties\<close>

lemma slots_bounded:
  assumes "tcp_ok w"
  shows "card (slots (server w)) \<le> ts_maxClients (server w)"
proof (cases "ts_clientsArr (server w)")
  case (Some cs)
  have "slots (server w) \<subseteq> the ` set cs" using Some by (auto simp: slots_def) (metis image_eqI option.sel)
  then have "card (slots (server w)) \<le> card (the ` set cs)" by (rule card_mono [rotated]) simp
  also have "\<dots> \<le> length cs" by (meson card_image_le card_length finite_set le_trans)
  finally show ?thesis using Some tcp_okD(3) [OF assms] by (simp add: arr_ok_def)
qed (simp add: slots_def)

text \<open>At the end of the stop nothing is left, whichever way the threads have run.\<close>

lemma stopped_clean:
  assumes "tcp_ok w" "stopping w = Stopped"
  shows "conns w = Map.empty \<and> distinct (callbacks w) \<and>
    (\<forall>c. (On_Connect c \<in> set (callbacks w) \<longleftrightarrow> io w c = Ended) \<and> (On_Disconnect c \<in> set (callbacks w) \<longleftrightarrow> io w c = Ended) \<and>
       (io w c = Ended \<longleftrightarrow> (c \<in> joined w) \<noteq> (c \<in> detached w)))"
proof -
  have sl: "slots (server w) = {}" using tcp_okD(4) [OF assms(1)] assms(2) by (simp add: phase_ok_def)
  have v: "view_ok (view w c)" for c using tcp_okD(1) [OF assms(1)] .
  have "conns w c = None" for c using v [of c] sl assms(2) by (auto simp: view_ok_def)
  then have e: "conns w = Map.empty" by blast
  have i: "io w c = Ended \<or> io w c = Not_Started" for c using v [of c] e by (cases "io w c") (auto simp: view_ok_def)
  have "(On_Connect c \<in> set (callbacks w) \<longleftrightarrow> io w c = Ended) \<and> (On_Disconnect c \<in> set (callbacks w) \<longleftrightarrow> io w c = Ended) \<and>
       (io w c = Ended \<longleftrightarrow> (c \<in> joined w) \<noteq> (c \<in> detached w))" for c
    using v [of c] i [of c] sl assms(2) by (auto simp: view_ok_def)
  then show ?thesis using e tcp_okD(7) [OF assms(1)] by blast
qed

text \<open>A relaying thread holds connections of clients that were announced.\<close>

lemma pin_slots_subset: "pin_slots skip cs w = Some ts \<Longrightarrow> set ts \<subseteq> {c. Some c \<in> set cs}"
proof (induction skip cs w arbitrary: ts rule: pin_slots.induct)
  case (3 skip conn cs w)
  then obtain x us where x: "conns w conn = Some x" "pin_slots skip cs w = Some us" "ts = (if sc_disconnectNotified x \<or> conn \<in> set skip then us else conn # us)"
    by (auto split: option.splits)
  then show ?case using "3.IH" [OF x(1,2)] by auto
qed auto

lemma claim_slots_keeps: "claim_slots cs w = Some (cs', hs, w') \<Longrightarrow> callbacks w' = callbacks w \<and> held w' = held w"
proof (induction cs w arbitrary: cs' hs w' rule: claim_slots.induct)
  case (2 cs w)
  obtain ds where "claim_slots cs w = Some (ds, hs, w')" using "2.prems" by auto
  then show ?case by (rule "2.IH")
next
  case (3 cli cs w)
  obtain w1 ds js where w1: "TcpConnection_RequestClose cli w = Some w1" "claim_slots cs w1 = Some (ds, js, w')" using "3.prems" by (auto split: option.splits)
  have "callbacks w1 = callbacks w \<and> held w1 = held w" using w1(1) by (auto simp: TcpConnection_RequestClose_def split: option.splits)
  then show ?case using "3.IH" [OF w1] by simp
qed simp

lemma set_accept_pc_held [simp]: "held (set_accept_pc v pc w) = held w"
  by (simp add: set_accept_pc_def)

lemma relay_pins_held:
  assumes "relay_pins skip w = Some w'"
  shows "callbacks w' = callbacks w" "set (held w') \<subseteq> set (held w) \<union> slots (server w)"
proof (atomize (full), cases "ts_clientsArr (server w)")
  case (Some cs)
  then obtain ts where ts: "pin_slots skip (take (ts_maxClients (server w)) cs) w = Some ts" "w' = w\<lparr> held := held w @ ts \<rparr>"
    using assms by (auto simp: relay_pins_def)
  have "{c. Some c \<in> set (take (ts_maxClients (server w)) cs)} \<subseteq> slots (server w)" using Some by (auto simp: slots_def dest: in_set_takeD)
  then show "callbacks w' = callbacks w \<and> set (held w') \<subseteq> set (held w) \<union> slots (server w)" using ts(2) pin_slots_subset [OF ts(1)] by auto
qed (use assms in \<open>simp add: relay_pins_def\<close>)

lemma client_step_held:
  "client_hangs_up c w = Some w' \<Longrightarrow> set (callbacks w) \<subseteq> set (callbacks w') \<and> held w' = held w"
  "client_leaves c w = Some w' \<Longrightarrow> callbacks w' = callbacks w \<and> held w' = held w"
  by (auto simp: client_hangs_up_def client_leaves_def TcpConnection_RequestClose_def Let_def split: option.splits if_splits prod.splits)

lemma accept_step_held:
  "accept_client v6 w = Some w' \<Longrightarrow> set (callbacks w) \<subseteq> set (callbacks w') \<and> held w' = held w"
  "start_client_thread v6 w = Some w' \<Longrightarrow> callbacks w' = callbacks w \<and> held w' = held w"
  "client_thread_fails v6 w = Some w' \<Longrightarrow> callbacks w' = callbacks w \<and> held w' = held w"
  by (auto simp: accept_client_def start_client_thread_def client_thread_fails_def TcpServer_Disconnect_def TcpConnection_RequestClose_def Let_def
    split: option.splits if_splits accept_pc.splits)

lemma stop_step_held:
  "stop_begins w = Some w' \<Longrightarrow> callbacks w' = callbacks w \<and> held w' = held w"
  "stop_collects w = Some w' \<Longrightarrow> callbacks w' = callbacks w \<and> held w' = held w"
  "stop_joins w = Some w' \<Longrightarrow> callbacks w' = callbacks w \<and> held w' = held w"
  "stop_ends w = Some w' \<Longrightarrow> callbacks w' = callbacks w \<and> held w' = held w"
  by (auto simp: stop_begins_def stop_collects_def stop_joins_def stop_ends_def split: option.splits stop_pc.splits list.splits dest!: claim_slots_keeps)

lemma tcp_do_held:
  assumes "tcp_do a w = Some w'"
  shows "set (callbacks w) \<subseteq> set (callbacks w') \<and> set (held w') \<subseteq> set (held w) \<union> slots (server w)"
proof (cases a)
  case (Relay_Pins skip)
  then show ?thesis using assms relay_pins_held [of skip w w'] by simp
next
  case (Relay_Sends c)
  then show ?thesis using assms set_remove1_subset [of c "held w"] by (auto simp: relay_sends_def split: if_splits)
qed (use assms in \<open>auto dest: client_step_held accept_step_held stop_step_held\<close>)

lemma held_announced: "tcp_reachable w \<Longrightarrow> c \<in> set (held w) \<Longrightarrow> On_Connect c \<in> set (callbacks w)"
proof (induction arbitrary: c rule: tcp_reachable.induct)
  case (tcp_started svr fd6 bound6 fd4 bound4 w l6 l4 t6 t4 maxcons)
  have "held w = []" unfolding tcp_started(2) TcpServer_Start_def idle_world_def Let_def by (simp split: if_split)
  then show ?case using tcp_started.prems by simp
next
  case (tcp_stepped w a w')
  note m = tcp_do_held [OF tcp_stepped.hyps(3)]
  consider "c \<in> set (held w)" | "c \<in> slots (server w)" using m tcp_stepped.prems by blast
  then have "On_Connect c \<in> set (callbacks w)"
  proof cases
    case 2
    then show ?thesis using tcp_okD(1) [OF tcp_reachable_ok [OF tcp_stepped.hyps(1)], of c] by (auto simp: view_ok_def)
  qed (rule tcp_stepped.IH)
  then show ?case using m by blast
qed

lemma held_freed_iff:
  assumes "tcp_reachable w" "c \<in> set (held w)"
  shows "conns w c = None \<longleftrightarrow> io w c = Ended"
  using held_announced [OF assms] tcp_okD(1) [OF tcp_reachable_ok [OF assms(1)], of c] by (cases "io w c") (auto simp: view_ok_def)

text \<open>
  C32: which steps of the server's threads are memory safe, in every interleaving and with client threads that fail to
  start. In every reachable state a step that can be taken is undefined exactly when the accept thread fails to start
  the thread of a client (it then joins the thread that does not exist) or a relay sends on an inbound connection it
  has pinned and whose thread has ended meanwhile (the thread frees the connection without looking at the pins). Every
  other step reads only connections that are alive and joins only threads that were started and not detached; the
  connections in the slots are alive and no more than the slots, and a connection is freed exactly when its thread ends.
\<close>

theorem tcp_server_memory_safe:
  assumes "tcp_reachable w" and "enabled a w"
  shows "(tcp_do a w = None \<longleftrightarrow> (\<exists>v6. a = Thread_Fails v6) \<or> (\<exists>c. a = Relay_Sends c \<and> io w c = Ended)) \<and>
    card (slots (server w)) \<le> ts_maxClients (server w) \<and> (\<forall>c \<in> slots (server w). conns w c \<noteq> None) \<and>
    (\<forall>c. io w c = Ended \<longrightarrow> conns w c = None) \<and> (\<forall>c. io w c \<in> {Receiving, Hung_Up} \<longrightarrow> conns w c \<noteq> None)"
proof -
  note ok = tcp_reachable_ok [OF assms(1)]
  have "conns w c = None" if "io w c = Ended" for c using tcp_okD(1) [OF ok, of c] that by (auto simp: view_ok_def)
  moreover have "conns w c \<noteq> None" if "c \<in> slots (server w) \<or> io w c \<in> {Receiving, Hung_Up}" for c
    using tcp_okD(1) [OF ok, of c] that by (auto simp: view_ok_def)
  moreover have "tcp_do a w = None \<longleftrightarrow> undefined_step a w" using tcp_do_ok [OF ok assms(2)] tcp_do_undefined [OF ok assms(2)] by (metis option.distinct(1))
  moreover have "undefined_step a w \<longleftrightarrow> (\<exists>v6. a = Thread_Fails v6) \<or> (\<exists>c. a = Relay_Sends c \<and> io w c = Ended)"
    using held_freed_iff [OF assms(1)] assms(2) by (cases a) (auto simp: undefined_step_def)
  ultimately show ?thesis using slots_bounded [OF ok] by auto
qed

text \<open>
  C33: stopping leaves nothing behind. Whenever and in whatever interleaving the stop has come to its end, every
  connection has been freed, every client that was announced has been reported as disconnected, once, and every client
  thread has ended and been either joined or detached, not both; and from every state in which the server is being
  stopped the threads can get to that end, by steps none of which accepts a client or relays a block.
\<close>

theorem tcp_server_stops_clean:
  assumes "tcp_reachable w"
  shows "(stopping w = Stopped \<longrightarrow> conns w = Map.empty \<and> distinct (callbacks w) \<and>
      (\<forall>c. (On_Connect c \<in> set (callbacks w) \<longleftrightarrow> io w c = Ended) \<and> (On_Disconnect c \<in> set (callbacks w) \<longleftrightarrow> io w c = Ended) \<and>
         (io w c = Ended \<longleftrightarrow> (c \<in> joined w) \<noteq> (c \<in> detached w)))) \<and>
    (stopping w \<noteq> Not_Stopping \<longrightarrow> (\<exists>w'. stop_run w w' \<and> tcp_reachable w' \<and> stopping w' = Stopped))"
proof -
  note ok = tcp_reachable_ok [OF assms]
  have "\<exists>w'. stop_run w w' \<and> stopping w' = Stopped" if "stopping w \<noteq> Not_Stopping"
    using that stop_ends_somehow [OF ok] joins_end [OF ok] stop_run_refl by (cases "stopping w") auto
  then show ?thesis using stopped_clean [OF ok] stop_run_reachable [OF _ assms] by blast
qed

text \<open>
  A client whose thread cannot be started brings the server into undefined behaviour: the accept thread
  disconnects it, which joins the thread that does not exist.
\<close>

lemma tcp_thread_failure_undefined:
  assumes "tcp_reachable w" and "accept_pc_of v6 w = Registered c"
  shows "tcp_do (Thread_Fails v6) w = None \<and> conns w c \<noteq> None \<and> c \<in> slots (server w)"
  using thread_fails_undefined [OF tcp_reachable_ok [OF assms(1)] assms(2)] by simp

section \<open>A server with two slots\<close>

definition demo_tcp :: tcp_world where
  "demo_tcp = TcpServer_Start True True True True 2 (idle_world (TcpServer_Init 3 True 4 True TcpServer_Create))"

lemma demo_tcp_eq:
  "demo_tcp = (idle_world \<lparr> ts_sockFd = 3, ts_sockFdV4 = 4, ts_isRunning = True, ts_maxClients = 2, ts_clientsArr = Some [None, None] \<rparr>)
     \<lparr> acceptV6 := Accepting, acceptV4 := Accepting \<rparr>"
  by (simp add: demo_tcp_def TcpServer_Start_def TcpServer_Init_def TcpServer_Create_def idle_world_def bound_socket_def Let_def numeral_2_eq_2)

lemma demo_tcp_reachable: "tcp_reachable demo_tcp"
  by (rule tcp_started [OF refl, of _ True True True True 2 3 True 4 True]) (simp_all add: demo_tcp_def [symmetric], simp add: demo_tcp_eq idle_world_def)

text \<open>One client has connected over IPv6.\<close>

definition demo_client :: tcp_world where
  "demo_client = the (accept_client True demo_tcp)"

lemma demo_client_facts: "accept_client True demo_tcp = Some demo_client" "acceptV6 demo_client = Registered 0" "stopping demo_client = Not_Stopping"
  "ts_isRunning (server demo_client)" "slots (server demo_client) = {0}"
  by (auto simp: demo_client_def demo_tcp_eq accept_client_def idle_world_def slots_def set_accept_pc_def)

lemma demo_client_reachable: "tcp_reachable demo_client"
  by (rule tcp_stepped [OF demo_tcp_reachable, of "Accept True"]) (simp_all add: demo_client_facts, simp add: demo_tcp_eq accept_pc_of_def)

text \<open>
  The client's thread is running, a relay has pinned its connection, the client hangs up and its thread frees the
  connection.
\<close>

definition demo_pinned :: tcp_world where
  "demo_pinned = the (relay_pins [] (the (start_client_thread True demo_client)))"

definition demo_freed :: tcp_world where
  "demo_freed = the (client_leaves 0 (the (client_hangs_up 0 demo_pinned)))"

lemmas demo_tcp_defs = demo_pinned_def demo_freed_def demo_client_def demo_tcp_eq accept_client_def idle_world_def set_accept_pc_def accept_pc_of_def
  start_client_thread_def relay_pins_def client_hangs_up_def client_leaves_def TcpConnection_RequestClose_def TcpServer_RemoveClientByPtrUnlocked_def
  Generic_FindClientInArrayByPtr_def Let_def numeral_2_eq_2

lemma demo_pinned_reachable: "tcp_reachable demo_pinned"
proof -
  obtain w where w: "start_client_thread True demo_client = Some w" "relay_pins [] w = Some demo_pinned" by (simp add: demo_tcp_defs)
  have "tcp_reachable w" by (rule tcp_stepped [OF demo_client_reachable, of "Start_Thread True"]) (use w(1) demo_client_facts(2) in \<open>simp_all add: accept_pc_of_def\<close>)
  then show ?thesis by (rule tcp_stepped [of _ "Relay_Pins []"]) (use w(2) in simp_all)
qed

lemma demo_freed_reachable: "tcp_reachable demo_freed" "held demo_freed = [0]" "io demo_freed 0 = Ended"
proof -
  obtain w where w: "client_hangs_up 0 demo_pinned = Some w" "client_leaves 0 w = Some demo_freed" "io demo_pinned 0 = Receiving" "io w 0 = Hung_Up"
    by (simp add: demo_tcp_defs)
  have "tcp_reachable w" by (rule tcp_stepped [OF demo_pinned_reachable, of "Hang_Up 0"]) (use w in simp_all)
  then show "tcp_reachable demo_freed" by (rule tcp_stepped [of _ "Leave 0"]) (use w in simp_all)
  show "held demo_freed = [0]" "io demo_freed 0 = Ended" by (simp_all add: demo_tcp_defs)
qed

text \<open>The relay then sends on freed memory.\<close>

lemma relay_use_after_free: "tcp_reachable demo_freed \<and> enabled (Relay_Sends 0) demo_freed \<and> tcp_do (Relay_Sends 0) demo_freed = None"
  using demo_freed_reachable held_freed_iff [of demo_freed 0] by (simp add: relay_sends_def)

theorem tcp_server_memory_safe_witness:
  "tcp_do (Start_Thread True) demo_client \<noteq> None \<and> conns demo_client 0 \<noteq> None \<and> tcp_do (Relay_Sends 0) demo_freed = None"
proof -
  have "enabled (Start_Thread True) demo_client" "enabled (Relay_Sends 0) demo_freed"
    using demo_client_facts(2) demo_freed_reachable(2) by (simp_all add: accept_pc_of_def)
  from tcp_server_memory_safe [OF demo_client_reachable this(1)] tcp_server_memory_safe [OF demo_freed_reachable(1) this(2)]
  show ?thesis using demo_client_facts(5) demo_freed_reachable(3) by simp
qed

theorem tcp_server_stops_clean_witness:
  "\<exists>w w'. stop_begins demo_client = Some w \<and> stop_run w w' \<and> stopping w' = Stopped \<and> conns w' = Map.empty"
proof -
  obtain w where w: "stop_begins demo_client = Some w" "stopping w = Waiting" by (auto simp: stop_begins_def)
  have r: "tcp_reachable w" by (rule tcp_stepped [OF demo_client_reachable, of Stop_Begins]) (simp_all add: demo_client_facts w(1))
  then obtain w' where w': "stop_run w w'" "tcp_reachable w'" "stopping w' = Stopped" using tcp_server_stops_clean [OF r] w(2) by auto
  then show ?thesis using tcp_server_stops_clean [OF w'(2)] w(1) by blast
qed

end
