(* ===== verification/Dlibc_Heap.thy ===== *)
theory Dlibc_Heap
  imports Skala_Prelude "HOL-Library.Monad_Syntax"
begin

text \<open>
  The memory that the containers of \<^verbatim>\<open>include/dlibc\<close> work on. A pointer is an allocation and an offset; an
  allocation is live while the heap maps it to its bytes. Everything the C standard leaves undefined (reading
  or writing outside a live allocation, freeing twice, copying between overlapping ranges with \<^verbatim>\<open>memcpy\<close>) has
  no result, \<open>None\<close>. What the C library decides, whether an allocation succeeds, whether a reallocation moves
  and what fresh memory contains, is an argument, \<open>allocator\<close>, asked anew for every request.
\<close>

type_synonym ptr = "nat \<times> nat"

record 'v c_heap =
  h_data :: "nat \<Rightarrow> byte list option"
  h_struct :: "nat \<Rightarrow> 'v option"
  h_next :: nat
  h_calls :: nat
  h_log :: "(nat \<times> byte list) list"

text \<open>
  \<open>h_next\<close> bounds the identifiers in use, \<open>h_calls\<close> counts the requests, and \<open>h_log\<close> lists the calls of element
  destructors, each with the bytes of the slot it was given.
\<close>

record allocator =
  al_ok :: "nat \<Rightarrow> bool"
  al_stay :: "nat \<Rightarrow> bool"
  al_junk :: "nat \<Rightarrow> nat \<Rightarrow> byte"

section \<open>Slices of byte strings\<close>

definition splice_at :: "nat \<Rightarrow> byte list \<Rightarrow> byte list \<Rightarrow> byte list" where
  "splice_at off xs bs = take off bs @ xs @ drop (off + length xs) bs"

lemma length_bytes_at [simp]: "off + n \<le> length bs \<Longrightarrow> length (bytes_at off n bs) = n"
  by (simp add: bytes_at_def)

lemma length_splice_at [simp]: "off + length xs \<le> length bs \<Longrightarrow> length (splice_at off xs bs) = length bs"
  by (simp add: splice_at_def)

lemma bytes_at_nested: "a + n \<le> m \<Longrightarrow> bytes_at a n (bytes_at b m bs) = bytes_at (a + b) n bs"
  by (simp add: bytes_at_def take_drop drop_drop min_def ac_simps)

lemma bytes_at_before: "a + n \<le> off \<Longrightarrow> off \<le> length bs \<Longrightarrow> bytes_at a n (splice_at off xs bs) = bytes_at a n bs"
  by (simp add: bytes_at_def splice_at_def take_drop min_def)

lemma bytes_at_inside: "off \<le> a \<Longrightarrow> a + n \<le> off + length xs \<Longrightarrow> off \<le> length bs \<Longrightarrow> bytes_at a n (splice_at off xs bs) = bytes_at (a - off) n xs"
  by (simp add: bytes_at_def splice_at_def)

lemma bytes_at_after: "off + length xs \<le> a \<Longrightarrow> off \<le> length bs \<Longrightarrow> bytes_at a n (splice_at off xs bs) = bytes_at a n bs"
  by (simp add: bytes_at_def splice_at_def)

lemma bytes_at_append: "a + n \<le> length xs \<Longrightarrow> bytes_at a n (xs @ ys) = bytes_at a n xs"
  by (simp add: bytes_at_def)

lemma bytes_at_take: "a + n \<le> m \<Longrightarrow> bytes_at a n (take m bs) = bytes_at a n bs"
  using bytes_at_nested [of a n m 0 bs] by (simp add: bytes_at_def)

text \<open>The first \<open>n\<close> slots of \<open>sz\<close> bytes each.\<close>

definition slots :: "nat \<Rightarrow> nat \<Rightarrow> byte list \<Rightarrow> byte list list" where
  "slots n sz bs = map (\<lambda>i. bytes_at (i * sz) sz bs) [0..<n]"

lemma length_slots [simp]: "length (slots n sz bs) = n"
  by (simp add: slots_def)

lemma nth_slots [simp]: "i < n \<Longrightarrow> slots n sz bs ! i = bytes_at (i * sz) sz bs"
  by (simp add: slots_def)

lemma slots_Suc: "slots (Suc n) sz bs = slots n sz bs @ [bytes_at (n * sz) sz bs]"
  by (simp add: slots_def)

lemma slots_cong: "(\<And>i. i < n \<Longrightarrow> bytes_at (i * sz) sz bs' = bytes_at (i * sz) sz bs) \<Longrightarrow> slots n sz bs' = slots n sz bs"
  by (simp add: slots_def)

lemma mul_le_off: "i < n \<Longrightarrow> i * sz + sz \<le> n * (sz :: nat)"
  using mult_le_mono1 [of "Suc i" n sz] by simp

lemma slots_eqI: "length xs = n \<Longrightarrow> (\<And>j. j < n \<Longrightarrow> bytes_at (j * sz) sz bs = xs ! j) \<Longrightarrow> slots n sz bs = xs"
  by (simp add: list_eq_iff_nth_eq)

lemma slots_splice:
  assumes "i < n" "n * sz \<le> length bs" "length x = sz"
  shows "slots n sz (splice_at (i * sz) x bs) = (slots n sz bs)[i := x]"
proof (rule slots_eqI)
  fix j assume j: "j < n"
  have len: "i * sz \<le> length bs" using mul_le_off [OF assms(1), of sz] assms(2) by simp
  consider "j < i" | "j = i" | "i < j" by linarith
  then show "bytes_at (j * sz) sz (splice_at (i * sz) x bs) = (slots n sz bs)[i := x] ! j"
  proof cases
    case 1
    then show ?thesis using bytes_at_before [OF mul_le_off len, of j] j by simp
  next
    case 2
    then show ?thesis using assms(1,3) len by (simp add: bytes_at_inside bytes_at_all)
  next
    case 3
    then show ?thesis using bytes_at_after [of "i * sz" x "j * sz" bs sz] mul_le_off [OF 3, of sz] assms(3) len j by simp
  qed
qed simp

lemma slots_snoc:
  assumes "Suc n * sz \<le> length bs" "length x = sz"
  shows "slots (Suc n) sz (splice_at (n * sz) x bs) = slots n sz bs @ [x]"
  using slots_splice [OF lessI assms] by (simp add: slots_Suc list_update_append)

text \<open>Moving the slots above \<open>i\<close> down or those from \<open>i\<close> on up, in one piece.\<close>

lemma slots_close:
  assumes "i < n" "n * sz \<le> length bs"
  shows "slots (n - 1) sz (splice_at (i * sz) (bytes_at (Suc i * sz) ((n - Suc i) * sz) bs) bs) = vec_pop_at (slots n sz bs) i"
proof (rule slots_eqI)
  show "length (vec_pop_at (slots n sz bs) i) = n - 1" using assms(1) by (simp add: vec_pop_at_def)
  fix j assume j: "j < n - 1"
  let ?mid = "bytes_at (Suc i * sz) ((n - Suc i) * sz) bs"
  have "Suc i * sz + (n - Suc i) * sz = n * sz" using assms(1) by (metis Suc_leI add_mult_distrib le_add_diff_inverse)
  then have len: "length ?mid = (n - Suc i) * sz" "i * sz \<le> length bs" using assms(2) by simp_all
  show "bytes_at (j * sz) sz (splice_at (i * sz) ?mid bs) = vec_pop_at (slots n sz bs) i ! j"
  proof (cases "j < i")
    case True
    then show ?thesis using bytes_at_before [OF mul_le_off [OF True] len(2)] assms(1) by (simp add: vec_pop_at_def nth_append)
  next
    case False
    then obtain k where k: "j = i + k" by (metis le_add_diff_inverse not_less)
    then have le: "k * sz + sz \<le> (n - Suc i) * sz" using j mul_le_off [of k "n - Suc i" sz] by simp
    have "bytes_at (j * sz) sz (splice_at (i * sz) ?mid bs) = bytes_at (k * sz) sz ?mid"
      using bytes_at_inside [of "i * sz" "j * sz" sz ?mid bs] le len k by (simp add: add_mult_distrib)
    also have "\<dots> = bytes_at (Suc j * sz) sz bs" unfolding bytes_at_nested [OF le] by (rule arg_cong [where f = "\<lambda>m. bytes_at m sz bs"]) (simp add: k algebra_simps)
    finally show ?thesis using False j assms(1) by (simp add: vec_pop_at_def nth_append)
  qed
qed

lemma slots_open:
  assumes "i \<le> n" "Suc n * sz \<le> length bs" "length x = sz"
  shows "slots (Suc n) sz (splice_at (i * sz) x (splice_at (Suc i * sz) (bytes_at (i * sz) ((n - i) * sz) bs) bs)) =
    take i (slots n sz bs) @ x # drop i (slots n sz bs)"
proof -
  let ?mid = "bytes_at (i * sz) ((n - i) * sz) bs"
  let ?bs = "splice_at (Suc i * sz) ?mid bs"
  have "i * sz + (n - i) * sz = n * sz" using assms(1) by (metis add_mult_distrib le_add_diff_inverse)
  then have len: "length ?mid = (n - i) * sz" "Suc i * sz + length ?mid \<le> length bs" using assms(2) by simp_all
  have old: "bytes_at (j * sz) sz ?bs = (if j < i then slots n sz bs ! j else slots n sz bs ! (j - 1))" if jn: "j < Suc n" "j \<noteq> i" for j
  proof (cases "j < i")
    case True
    then have "j * sz + sz \<le> Suc i * sz" using mul_le_off [OF True, of sz] by simp
    then show ?thesis using bytes_at_before [of "j * sz" sz "Suc i * sz" bs ?mid] len True assms(1) by simp
  next
    case False
    then have "Suc i \<le> j" using jn(2) by simp
    then obtain k where k: "j = Suc i + k" using le_Suc_ex by blast
    then have le: "k * sz + sz \<le> (n - i) * sz" using jn(1) mul_le_off [of k "n - i" sz] by simp
    have "bytes_at (j * sz) sz ?bs = bytes_at (k * sz) sz ?mid"
      using bytes_at_inside [of "Suc i * sz" "j * sz" sz ?mid bs] le len k by (simp add: add_mult_distrib)
    also have "\<dots> = bytes_at ((j - 1) * sz) sz bs" unfolding bytes_at_nested [OF le] by (rule arg_cong [where f = "\<lambda>m. bytes_at m sz bs"]) (simp add: k algebra_simps)
    finally show ?thesis using False k jn(1) by simp
  qed
  have "slots (Suc n) sz (splice_at (i * sz) x ?bs) = (slots (Suc n) sz ?bs)[i := x]"
    using slots_splice [of i "Suc n" sz ?bs x] assms len(2) by simp
  also have "\<dots> = take i (slots n sz bs) @ x # drop i (slots n sz bs)"
    using assms(1) old by (intro nth_equalityI) (auto simp: nth_list_update nth_append nth_Cons' simp del: upt_Suc)
  finally show ?thesis .
qed

lemma unat_next: "(x :: u64) < y \<Longrightarrow> unat (x + 1) = Suc (unat x)"
proof -
  assume "x < y"
  then have "unat x < unat y" "unat y < 2 ^ 64" using unsigned_less [of y] by (simp_all add: word_less_nat_alt)
  then show ?thesis by (simp add: unat_word_ariths)
qed

section \<open>The C library\<close>

definition c_malloc :: "allocator \<Rightarrow> nat \<Rightarrow> 'v c_heap \<Rightarrow> nat option \<times> 'v c_heap" where
  "c_malloc al n h =
     (let k = h_calls h; h1 = h\<lparr> h_calls := Suc k \<rparr> in
      if al_ok al k
      then (Some (h_next h), h1\<lparr> h_data := (h_data h)(h_next h \<mapsto> map (al_junk al k) [0..<n]), h_next := Suc (h_next h) \<rparr>)
      else (None, h1))"

text \<open>A reallocation keeps the common prefix; when it moves, the old allocation is gone.\<close>

definition c_realloc :: "allocator \<Rightarrow> nat option \<Rightarrow> nat \<Rightarrow> 'v c_heap \<Rightarrow> (nat option \<times> 'v c_heap) option" where
  "c_realloc al p n h =
     (case p of
        None \<Rightarrow> Some (c_malloc al n h)
      | Some b \<Rightarrow> do {
          old \<leftarrow> h_data h b;
          let k = h_calls h;
          let h1 = h\<lparr> h_calls := Suc k \<rparr>;
          let new = take n old @ map (al_junk al k) [length old..<n];
          Some (if \<not> al_ok al k then (None, h1)
                else if al_stay al k then (Some b, h1\<lparr> h_data := (h_data h)(b \<mapsto> new) \<rparr>)
                else (Some (h_next h), h1\<lparr> h_data := (h_data h)(b := None, h_next h \<mapsto> new), h_next := Suc (h_next h) \<rparr>))
        })"

definition c_free :: "nat option \<Rightarrow> 'v c_heap \<Rightarrow> 'v c_heap option" where
  "c_free p h =
     (case p of
        None \<Rightarrow> Some h
      | Some b \<Rightarrow> if h_data h b = None then None else Some (h\<lparr> h_data := (h_data h)(b := None) \<rparr>))"

definition load :: "ptr \<Rightarrow> nat \<Rightarrow> 'v c_heap \<Rightarrow> byte list option" where
  "load p n h = do { bs \<leftarrow> h_data h (fst p); if snd p + n \<le> length bs then Some (bytes_at (snd p) n bs) else None }"

definition store :: "ptr \<Rightarrow> byte list \<Rightarrow> 'v c_heap \<Rightarrow> 'v c_heap option" where
  "store p xs h =
     do { bs \<leftarrow> h_data h (fst p);
          if snd p + length xs \<le> length bs then Some (h\<lparr> h_data := (h_data h)(fst p \<mapsto> splice_at (snd p) xs bs) \<rparr>) else None }"

definition c_memmove :: "ptr \<Rightarrow> ptr \<Rightarrow> nat \<Rightarrow> 'v c_heap \<Rightarrow> 'v c_heap option" where
  "c_memmove dst src n h = do { xs \<leftarrow> load src n h; store dst xs h }"

definition c_memcpy :: "ptr \<Rightarrow> ptr \<Rightarrow> nat \<Rightarrow> 'v c_heap \<Rightarrow> 'v c_heap option" where
  "c_memcpy dst src n h =
     (if fst dst = fst src \<and> snd dst < snd src + n \<and> snd src < snd dst + n then None else c_memmove dst src n h)"

text \<open>Structs are allocations of their own, of one type.\<close>

definition new_struct :: "allocator \<Rightarrow> 'v \<Rightarrow> 'v c_heap \<Rightarrow> nat option \<times> 'v c_heap" where
  "new_struct al v h =
     (let k = h_calls h; h1 = h\<lparr> h_calls := Suc k \<rparr> in
      if al_ok al k then (Some (h_next h), h1\<lparr> h_struct := (h_struct h)(h_next h \<mapsto> v), h_next := Suc (h_next h) \<rparr>)
      else (None, h1))"

definition put_struct :: "nat \<Rightarrow> 'v \<Rightarrow> 'v c_heap \<Rightarrow> 'v c_heap" where
  "put_struct p v h = h\<lparr> h_struct := (h_struct h)(p \<mapsto> v) \<rparr>"

definition free_struct :: "nat \<Rightarrow> 'v c_heap \<Rightarrow> 'v c_heap option" where
  "free_struct p h = (if h_struct h p = None then None else Some (h\<lparr> h_struct := (h_struct h)(p := None) \<rparr>))"

lemmas heap_defs = c_malloc_def c_realloc_def c_free_def load_def store_def c_memmove_def c_memcpy_def new_struct_def put_struct_def
  free_struct_def

lemma load_in [simp]: "h_data h b = Some bs \<Longrightarrow> off + n \<le> length bs \<Longrightarrow> load (b, off) n h = Some (bytes_at off n bs)"
  by (simp add: load_def)

lemma load_SomeD: "load p n h = Some xs \<Longrightarrow> \<exists>bs. h_data h (fst p) = Some bs \<and> snd p + n \<le> length bs \<and> xs = bytes_at (snd p) n bs"
  by (auto simp: load_def split: bind_splits if_splits)

lemma load_length: "load p n h = Some xs \<Longrightarrow> length xs = n"
  by (auto simp: load_def split: bind_splits if_splits)

lemma store_in [simp]:
  "h_data h b = Some bs \<Longrightarrow> off + length xs \<le> length bs \<Longrightarrow>
     store (b, off) xs h = Some (h\<lparr> h_data := (h_data h)(b \<mapsto> splice_at off xs bs) \<rparr>)"
  by (simp add: store_def)

end
