(* ===== verification/Dlibc_Vector.thy ===== *)
theory Dlibc_Vector
  imports Dlibc_Heap
begin

text \<open>
  The dynamic array of \<^verbatim>\<open>include/dlibc/vector.h\<close> on the byte heap: every function, with the pointer that may
  be NULL, the element pointer that may point into the vector's own buffer, the wrap-around of \<^verbatim>\<open>size_t\<close> and the
  failing allocations. A function maps the heap to its return value and the heap it leaves, or to no result when
  it would run into undefined behaviour. Shown is that this never happens on a heap of well-formed vectors, that
  every function does to the list of elements what its name says, that nothing is leaked and that the destructor
  is called on exactly the elements that leave.
\<close>

section \<open>The struct\<close>

record vector_t =
  v_size :: u64
  v_capacity :: u64
  v_element_size :: u64
  v_data :: "nat option"
  v_destructor :: "nat option"

type_synonym 'e vheap = "'e vector_t_scheme c_heap"

text \<open>The address of slot \<open>i\<close>, computed in \<^verbatim>\<open>size_t\<close>.\<close>

definition slot_at :: "'e vector_t_scheme \<Rightarrow> u64 \<Rightarrow> ptr option" where
  "slot_at v i = map_option (\<lambda>b. (b, unat (i * v_element_size v))) (v_data v)"

definition vector_is_aliased :: "nat option \<Rightarrow> ptr option \<Rightarrow> 'e vheap \<Rightarrow> bool option" where
  "vector_is_aliased vec p h =
     (case (vec, p) of
        (Some a, Some (b, off)) \<Rightarrow> do {
          v \<leftarrow> h_struct h a;
          Some (v_data v = Some b \<and> off < unat (v_capacity v * v_element_size v))
        }
      | _ \<Rightarrow> Some False)"

section \<open>Construction and capacity\<close>

definition VECTOR_INITIAL_CAPACITY :: u64 where "VECTOR_INITIAL_CAPACITY = 10"

text \<open>The two allocations of the create functions; the struct is freed again when there is no memory for the buffer.\<close>

definition make_struct :: "allocator \<Rightarrow> 'e vector_t_scheme \<Rightarrow> 'e vheap \<Rightarrow> (nat option \<times> 'e vheap) option" where
  "make_struct al v0 h =
     (case new_struct al v0 h of
        (None, h1) \<Rightarrow> Some (None, h1)
      | (Some a, h1) \<Rightarrow> do {
          v \<leftarrow> h_struct h1 a;
          case c_malloc al (unat (v_capacity v * v_element_size v)) h1 of
            (None, h2) \<Rightarrow> do { h3 \<leftarrow> free_struct a h2; Some (None, h3) }
          | (Some b, h2) \<Rightarrow> Some (Some a, put_struct a (v\<lparr> v_data := Some b \<rparr>) h2)
        })"

definition vector_create :: "allocator \<Rightarrow> u64 \<Rightarrow> unit vheap \<Rightarrow> (nat option \<times> unit vheap) option" where
  "vector_create al element_size h =
     (if element_size = 0 then Some (None, h)
      else if UINT64_MAX div element_size < VECTOR_INITIAL_CAPACITY then Some (None, h)
      else make_struct al \<lparr> v_size = 0, v_capacity = VECTOR_INITIAL_CAPACITY, v_element_size = element_size,
                            v_data = None, v_destructor = None \<rparr> h)"

definition vector_set_destructor :: "nat option \<Rightarrow> nat option \<Rightarrow> 'e vheap \<Rightarrow> (int \<times> 'e vheap) option" where
  "vector_set_destructor vec destructor h =
     (case vec of
        None \<Rightarrow> Some (-1, h)
      | Some a \<Rightarrow> do { v \<leftarrow> h_struct h a; Some (0, put_struct a (v\<lparr> v_destructor := destructor \<rparr>) h) })"

definition vector_get_destructor :: "nat option \<Rightarrow> 'e vheap \<Rightarrow> nat option option" where
  "vector_get_destructor vec h = (case vec of None \<Rightarrow> Some None | Some a \<Rightarrow> do { v \<leftarrow> h_struct h a; Some (v_destructor v) })"

definition resize_to :: "allocator \<Rightarrow> nat \<Rightarrow> u64 \<Rightarrow> 'e vheap \<Rightarrow> (int \<times> 'e vheap) option" where
  "resize_to al a new_capacity h = do {
     v \<leftarrow> h_struct h a;
     if new_capacity > UINT64_MAX div v_element_size v then Some (-1, h)
     else do {
       (r, h1) \<leftarrow> c_realloc al (v_data v) (unat (new_capacity * v_element_size v)) h;
       case r of
         None \<Rightarrow> Some (-1, h1)
       | Some b \<Rightarrow> Some (0, put_struct a (v\<lparr> v_data := Some b, v_capacity := new_capacity \<rparr>) h1)
     }
   }"

definition vector_reserve :: "allocator \<Rightarrow> nat option \<Rightarrow> u64 \<Rightarrow> 'e vheap \<Rightarrow> (int \<times> 'e vheap) option" where
  "vector_reserve al vec new_capacity h =
     (case vec of
        None \<Rightarrow> Some (-1, h)
      | Some a \<Rightarrow> do {
          v \<leftarrow> h_struct h a;
          if v_element_size v = 0 then Some (-1, h)
          else if new_capacity \<le> v_capacity v then Some (0, h)
          else resize_to al a new_capacity h
        })"

definition vector_grow :: "allocator \<Rightarrow> nat option \<Rightarrow> 'e vheap \<Rightarrow> (int \<times> 'e vheap) option" where
  "vector_grow al vec h =
     (case vec of
        None \<Rightarrow> Some (-1, h)
      | Some a \<Rightarrow> do {
          v \<leftarrow> h_struct h a;
          if v_capacity v > UINT64_MAX div 2 then Some (-1, h)
          else vector_reserve al vec (if v_capacity v > 0 then v_capacity v * 2 else 1) h
        })"

definition vector_prune :: "allocator \<Rightarrow> nat option \<Rightarrow> 'e vheap \<Rightarrow> (int \<times> 'e vheap) option" where
  "vector_prune al vec h =
     (case vec of
        None \<Rightarrow> Some (-1, h)
      | Some a \<Rightarrow> do {
          v \<leftarrow> h_struct h a;
          if v_element_size v = 0 then Some (-1, h)
          else if v_size v < v_capacity v then resize_to al a (if v_size v > 0 then v_size v else 1) h
          else Some (0, h)
        })"

section \<open>Adding and removing elements\<close>

definition copy_in :: "nat \<Rightarrow> ptr \<Rightarrow> 'e vheap \<Rightarrow> (int \<times> 'e vheap) option" where
  "copy_in a element h = do {
     v \<leftarrow> h_struct h a;
     dst \<leftarrow> slot_at v (v_size v);
     h1 \<leftarrow> c_memmove dst element (unat (v_element_size v)) h;
     Some (0, put_struct a (v\<lparr> v_size := v_size v + 1 \<rparr>) h1)
   }"

text \<open>The growth of a full vector; an element pointer into the buffer is followed to where the buffer went.\<close>

definition grow_for :: "allocator \<Rightarrow> nat \<Rightarrow> ptr \<Rightarrow> 'e vheap \<Rightarrow> (int \<times> ptr \<times> 'e vheap) option" where
  "grow_for al a element h = do {
     aliased \<leftarrow> vector_is_aliased (Some a) (Some element) h;
     (r, h1) \<leftarrow> vector_grow al (Some a) h;
     if r \<noteq> 0 then Some (-1, element, h1)
     else do {
       v1 \<leftarrow> h_struct h1 a;
       b \<leftarrow> v_data v1;
       Some (0, if aliased then (b, snd element) else element, h1)
     }
   }"

definition vector_push_back :: "allocator \<Rightarrow> nat option \<Rightarrow> ptr option \<Rightarrow> 'e vheap \<Rightarrow> (int \<times> 'e vheap) option" where
  "vector_push_back al vec element h =
     (case (vec, element) of
        (Some a, Some e) \<Rightarrow> do {
          v \<leftarrow> h_struct h a;
          aliased \<leftarrow> vector_is_aliased vec element h;
          if v_destructor v \<noteq> None \<and> aliased then Some (-1, h)
          else if v_size v \<ge> v_capacity v then do {
            (r, e1, h1) \<leftarrow> grow_for al a e h;
            if r \<noteq> 0 then Some (-1, h1) else copy_in a e1 h1
          }
          else copy_in a e h
        }
      | _ \<Rightarrow> Some (-1, h))"

definition run_destructor :: "'e vector_t_scheme \<Rightarrow> u64 \<Rightarrow> 'e vheap \<Rightarrow> 'e vheap option" where
  "run_destructor v i h =
     (case v_destructor v of
        None \<Rightarrow> Some h
      | Some f \<Rightarrow> do {
          p \<leftarrow> slot_at v i;
          x \<leftarrow> load p (unat (v_element_size v)) h;
          Some (h\<lparr> h_log := h_log h @ [(f, x)] \<rparr>)
        })"

definition vector_pop_back :: "nat option \<Rightarrow> 'e vheap \<Rightarrow> (int \<times> 'e vheap) option" where
  "vector_pop_back vec h =
     (case vec of
        None \<Rightarrow> Some (-1, h)
      | Some a \<Rightarrow> do {
          v \<leftarrow> h_struct h a;
          if v_size v = 0 then Some (-1, h)
          else do {
            h1 \<leftarrow> run_destructor v (v_size v - 1) h;
            Some (0, put_struct a (v\<lparr> v_size := v_size v - 1 \<rparr>) h1)
          }
        })"

text \<open>The slots above \<open>index\<close> move down by one.\<close>

definition close_gap :: "nat \<Rightarrow> u64 \<Rightarrow> 'e vheap \<Rightarrow> (int \<times> 'e vheap) option" where
  "close_gap a index h = do {
     v \<leftarrow> h_struct h a;
     h1 \<leftarrow> (if index + 1 < v_size v then do {
              dst \<leftarrow> slot_at v index;
              src \<leftarrow> slot_at v (index + 1);
              c_memmove dst src (unat ((v_size v - index - 1) * v_element_size v)) h
            } else Some h);
     Some (0, put_struct a (v\<lparr> v_size := v_size v - 1 \<rparr>) h1)
   }"

definition vector_pop_at :: "nat option \<Rightarrow> u64 \<Rightarrow> 'e vheap \<Rightarrow> (int \<times> 'e vheap) option" where
  "vector_pop_at vec index h =
     (case vec of
        None \<Rightarrow> Some (-1, h)
      | Some a \<Rightarrow> do {
          v \<leftarrow> h_struct h a;
          if index \<ge> v_size v then Some (-1, h)
          else do { h1 \<leftarrow> run_destructor v index h; close_gap a index h1 }
        })"

definition vector_take_at :: "nat option \<Rightarrow> u64 \<Rightarrow> ptr option \<Rightarrow> 'e vheap \<Rightarrow> (int \<times> 'e vheap) option" where
  "vector_take_at vec index out h =
     (case vec of
        None \<Rightarrow> Some (-1, h)
      | Some a \<Rightarrow> do {
          v \<leftarrow> h_struct h a;
          if index \<ge> v_size v \<or> out = None then Some (-1, h)
          else do {
            aliased \<leftarrow> vector_is_aliased vec out h;
            if aliased then Some (-1, h)
            else do {
              dst \<leftarrow> out;
              src \<leftarrow> slot_at v index;
              h1 \<leftarrow> c_memcpy dst src (unat (v_element_size v)) h;
              close_gap a index h1
            }
          }
        })"

definition vector_take_back :: "nat option \<Rightarrow> ptr option \<Rightarrow> 'e vheap \<Rightarrow> (int \<times> 'e vheap) option" where
  "vector_take_back vec out h =
     (case vec of
        None \<Rightarrow> Some (-1, h)
      | Some a \<Rightarrow> do {
          v \<leftarrow> h_struct h a;
          if v_size v = 0 \<or> out = None then Some (-1, h) else vector_take_at vec (v_size v - 1) out h
        })"

text \<open>The slots from \<open>index\<close> on move up by one and the element is copied into the gap.\<close>

definition open_gap :: "nat \<Rightarrow> u64 \<Rightarrow> ptr \<Rightarrow> 'e vheap \<Rightarrow> 'e vheap option" where
  "open_gap a index element h = do {
     v \<leftarrow> h_struct h a;
     dst \<leftarrow> slot_at v (index + 1);
     src \<leftarrow> slot_at v index;
     h1 \<leftarrow> c_memmove dst src (unat ((v_size v - index) * v_element_size v)) h;
     h2 \<leftarrow> c_memcpy src element (unat (v_element_size v)) h1;
     Some (put_struct a (v\<lparr> v_size := v_size v + 1 \<rparr>) h2)
   }"

definition insert_from :: "allocator \<Rightarrow> nat \<Rightarrow> u64 \<Rightarrow> ptr \<Rightarrow> nat option \<Rightarrow> 'e vheap \<Rightarrow> (int \<times> 'e vheap) option" where
  "insert_from al a index element temp h = do {
     v \<leftarrow> h_struct h a;
     (r, h1) \<leftarrow> (if v_size v \<ge> v_capacity v then vector_grow al (Some a) h else Some (0, h));
     if r \<noteq> 0 then do { h2 \<leftarrow> c_free temp h1; Some (-1, h2) }
     else do { h2 \<leftarrow> open_gap a index element h1; h3 \<leftarrow> c_free temp h2; Some (0, h3) }
   }"

definition vector_insert :: "allocator \<Rightarrow> nat option \<Rightarrow> u64 \<Rightarrow> ptr option \<Rightarrow> 'e vheap \<Rightarrow> (int \<times> 'e vheap) option" where
  "vector_insert al vec index element h =
     (case (vec, element) of
        (Some a, Some e) \<Rightarrow> do {
          v \<leftarrow> h_struct h a;
          if index > v_size v then Some (-1, h)
          else do {
            aliased \<leftarrow> vector_is_aliased vec element h;
            if v_destructor v \<noteq> None \<and> aliased then Some (-1, h)
            else if aliased then
              (case c_malloc al (unat (v_element_size v)) h of
                 (None, h1) \<Rightarrow> Some (-1, h1)
               | (Some t, h1) \<Rightarrow> do {
                   h2 \<leftarrow> c_memcpy (t, 0) e (unat (v_element_size v)) h1;
                   insert_from al a index (t, 0) (Some t) h2
                 })
            else insert_from al a index e None h
          }
        }
      | _ \<Rightarrow> Some (-1, h))"

fun run_destructors :: "'e vector_t_scheme \<Rightarrow> nat list \<Rightarrow> 'e vheap \<Rightarrow> 'e vheap option" where
  "run_destructors v [] h = Some h"
| "run_destructors v (i # is) h = do { h1 \<leftarrow> run_destructor v (of_nat i) h; run_destructors v is h1 }"

definition vector_clear :: "nat option \<Rightarrow> 'e vheap \<Rightarrow> (int \<times> 'e vheap) option" where
  "vector_clear vec h =
     (case vec of
        None \<Rightarrow> Some (-1, h)
      | Some a \<Rightarrow> do {
          v \<leftarrow> h_struct h a;
          h1 \<leftarrow> run_destructors v [0..<unat (v_size v)] h;
          Some (0, put_struct a (v\<lparr> v_size := 0 \<rparr>) h1)
        })"

definition vector_set :: "nat option \<Rightarrow> u64 \<Rightarrow> ptr option \<Rightarrow> 'e vheap \<Rightarrow> (int \<times> 'e vheap) option" where
  "vector_set vec index element h =
     (case (vec, element) of
        (Some a, Some e) \<Rightarrow> do {
          v \<leftarrow> h_struct h a;
          if index \<ge> v_size v then Some (-1, h)
          else do {
            slot \<leftarrow> slot_at v index;
            aliased \<leftarrow> vector_is_aliased vec element h;
            if slot = e then Some (0, h)
            else if v_destructor v \<noteq> None \<and> aliased then Some (-1, h)
            else do {
              h1 \<leftarrow> run_destructor v index h;
              h2 \<leftarrow> c_memmove slot e (unat (v_element_size v)) h1;
              Some (0, h2)
            }
          }
        }
      | _ \<Rightarrow> Some (-1, h))"

section \<open>Reading\<close>

definition vector_is_empty :: "nat option \<Rightarrow> 'e vheap \<Rightarrow> bool option" where
  "vector_is_empty vec h = (case vec of None \<Rightarrow> Some True | Some a \<Rightarrow> do { v \<leftarrow> h_struct h a; Some (v_size v = 0) })"

definition vector_front :: "nat option \<Rightarrow> 'e vheap \<Rightarrow> ptr option option" where
  "vector_front vec h =
     (case vec of
        None \<Rightarrow> Some None
      | Some a \<Rightarrow> do { v \<leftarrow> h_struct h a; Some (if v_size v = 0 then None else map_option (\<lambda>b. (b, 0)) (v_data v)) })"

definition vector_back :: "nat option \<Rightarrow> 'e vheap \<Rightarrow> ptr option option" where
  "vector_back vec h =
     (case vec of
        None \<Rightarrow> Some None
      | Some a \<Rightarrow> do { v \<leftarrow> h_struct h a; Some (if v_size v = 0 then None else slot_at v (v_size v - 1)) })"

definition vector_get :: "nat option \<Rightarrow> u64 \<Rightarrow> 'e vheap \<Rightarrow> ptr option option" where
  "vector_get vec index h =
     (case vec of
        None \<Rightarrow> Some None
      | Some a \<Rightarrow> do { v \<leftarrow> h_struct h a; Some (if index \<ge> v_size v then None else slot_at v index) })"

definition vector_size :: "nat option \<Rightarrow> 'e vheap \<Rightarrow> u64 option" where
  "vector_size vec h = (case vec of None \<Rightarrow> Some 0 | Some a \<Rightarrow> map_option v_size (h_struct h a))"

definition vector_capacity :: "nat option \<Rightarrow> 'e vheap \<Rightarrow> u64 option" where
  "vector_capacity vec h = (case vec of None \<Rightarrow> Some 0 | Some a \<Rightarrow> map_option v_capacity (h_struct h a))"

definition vector_element_size :: "nat option \<Rightarrow> 'e vheap \<Rightarrow> u64 option" where
  "vector_element_size vec h = (case vec of None \<Rightarrow> Some 0 | Some a \<Rightarrow> map_option v_element_size (h_struct h a))"

definition vector_as_c_array :: "nat option \<Rightarrow> 'e vheap \<Rightarrow> ptr option option" where
  "vector_as_c_array vec h =
     (case vec of None \<Rightarrow> Some None | Some a \<Rightarrow> do { v \<leftarrow> h_struct h a; Some (map_option (\<lambda>b. (b, 0)) (v_data v)) })"

section \<open>Whole vectors\<close>

text \<open>
  Functions that take the address of a pointer return what that pointer holds afterwards; \<open>None\<close> for the
  address is a NULL address.
\<close>

definition vector_move :: "nat option \<Rightarrow> nat option option \<Rightarrow> 'e vheap \<Rightarrow> (int \<times> nat option option \<times> 'e vheap) option" where
  "vector_move dest src h =
     (case (dest, src) of
        (Some d, Some (Some s)) \<Rightarrow>
          if d = s then Some (0, src, h)
          else do {
            dv \<leftarrow> h_struct h d;
            sv \<leftarrow> h_struct h s;
            if v_data dv = v_data sv then Some (-1, src, h)
            else do {
              (r, h1) \<leftarrow> vector_clear dest h;
              h2 \<leftarrow> c_free (v_data dv) h1;
              let h3 = put_struct d sv h2;
              let h4 = put_struct s (sv\<lparr> v_size := 0, v_capacity := 0, v_element_size := 0, v_data := None, v_destructor := None \<rparr>) h3;
              h5 \<leftarrow> free_struct s h4;
              Some (0, Some None, h5)
            }
          }
      | _ \<Rightarrow> Some (-1, src, h))"

definition vector_destroy :: "nat option option \<Rightarrow> 'e vheap \<Rightarrow> (int \<times> nat option option \<times> 'e vheap) option" where
  "vector_destroy vec h =
     (case vec of
        None \<Rightarrow> Some (-1, vec, h)
      | Some None \<Rightarrow> Some (0, vec, h)
      | Some (Some a) \<Rightarrow> do {
          v \<leftarrow> h_struct h a;
          h1 \<leftarrow> run_destructors v [0..<unat (v_size v)] h;
          h2 \<leftarrow> c_free (v_data v) h1;
          h3 \<leftarrow> free_struct a h2;
          Some (0, Some None, h3)
        })"

text \<open>The bytes of the elements in use are copied into the fresh buffer.\<close>

definition copy_bytes :: "nat \<Rightarrow> 'e vector_t_scheme \<Rightarrow> 'e vheap \<Rightarrow> 'e vheap option" where
  "copy_bytes a v h =
     (if v_size v > 0 then do {
        w \<leftarrow> h_struct h a;
        dst \<leftarrow> v_data w;
        src \<leftarrow> v_data v;
        h1 \<leftarrow> c_memcpy (dst, 0) (src, 0) (unat (v_size v * v_element_size v)) h;
        Some (put_struct a (w\<lparr> v_size := v_size v \<rparr>) h1)
      } else Some h)"

definition vector_deep_copy :: "allocator \<Rightarrow> nat option \<Rightarrow> unit vheap \<Rightarrow> (nat option \<times> unit vheap) option" where
  "vector_deep_copy al vec h =
     (case vec of
        None \<Rightarrow> Some (None, h)
      | Some a \<Rightarrow> do {
          v \<leftarrow> h_struct h a;
          if v_destructor v \<noteq> None then Some (None, h)
          else do {
            (new_vec, h1) \<leftarrow> vector_create al (v_element_size v) h;
            case new_vec of
              None \<Rightarrow> Some (None, h1)
            | Some n \<Rightarrow> do {
                (r, h2) \<leftarrow> vector_reserve al new_vec (v_capacity v) h1;
                if r \<noteq> 0 then do { (q, x, h3) \<leftarrow> vector_destroy (Some new_vec) h2; Some (None, h3) }
                else do { h3 \<leftarrow> copy_bytes n v h2; Some (new_vec, h3) }
              }
          }
        })"

section \<open>Well-formed heaps\<close>

definition buffer :: "'e vheap \<Rightarrow> 'e vector_t_scheme \<Rightarrow> byte list option" where
  "buffer h v = Option.bind (v_data v) (h_data h)"

definition vec_ok :: "'e vheap \<Rightarrow> 'e vector_t_scheme \<Rightarrow> bool" where
  "vec_ok h v \<longleftrightarrow> v_element_size v \<noteq> 0 \<and> v_capacity v \<noteq> 0 \<and> v_size v \<le> v_capacity v \<and> unat (v_capacity v) * unat (v_element_size v) < 2 ^ 64 \<and>
     map_option length (buffer h v) = Some (unat (v_capacity v) * unat (v_element_size v))"

definition heap_ok :: "'e vheap \<Rightarrow> bool" where
  "heap_ok h \<longleftrightarrow> (\<forall>a v. h_struct h a = Some v \<longrightarrow> a < h_next h \<and> vec_ok h v) \<and> (\<forall>b bs. h_data h b = Some bs \<longrightarrow> b < h_next h) \<and>
     (\<forall>a c v w. h_struct h a = Some v \<longrightarrow> h_struct h c = Some w \<longrightarrow> v_data v = v_data w \<longrightarrow> a = c)"

text \<open>The elements of a vector, and the allocations that belong to no vector: those of the caller.\<close>

definition elems :: "'e vheap \<Rightarrow> nat \<Rightarrow> byte list list" where
  "elems h a =
     (case h_struct h a of
        None \<Rightarrow> []
      | Some v \<Rightarrow> (case buffer h v of None \<Rightarrow> [] | Some bs \<Rightarrow> slots (unat (v_size v)) (unat (v_element_size v)) bs))"

definition owns :: "'e vheap \<Rightarrow> nat \<Rightarrow> nat \<Rightarrow> bool" where
  "owns h a b \<longleftrightarrow> (\<exists>v. h_struct h a = Some v \<and> v_data v = Some b)"

definition outside :: "'e vheap \<Rightarrow> nat set" where
  "outside h = {b. h_data h b \<noteq> None \<and> (\<forall>a. \<not> owns h a b)}"

text \<open>\<open>h'\<close> differs from \<open>h\<close> in the vector \<open>a\<close> only, and no allocation has been leaked.\<close>

definition only :: "nat \<Rightarrow> 'e vheap \<Rightarrow> 'e vheap \<Rightarrow> bool" where
  "only a h h' \<longleftrightarrow> (\<forall>c. c \<noteq> a \<longrightarrow> h_struct h' c = h_struct h c) \<and> (\<forall>b. h_data h b \<noteq> None \<longrightarrow> \<not> owns h a b \<longrightarrow> h_data h' b = h_data h b) \<and>
     outside h' = outside h"

text \<open>The outcome of an operation that leaves \<open>a\<close> with the elements \<open>xs\<close>.\<close>

definition leaves :: "nat \<Rightarrow> 'e vheap \<Rightarrow> 'e vheap \<Rightarrow> byte list list \<Rightarrow> bool" where
  "leaves a h h' xs \<longleftrightarrow> heap_ok h' \<and> only a h h' \<and> elems h' a = xs \<and>
     map_option v_element_size (h_struct h' a) = map_option v_element_size (h_struct h a) \<and>
     map_option v_destructor (h_struct h' a) = map_option v_destructor (h_struct h a) \<and>
     map_option vector_t.more (h_struct h' a) = map_option vector_t.more (h_struct h a)"

lemma heap_okD:
  assumes "heap_ok h" "h_struct h a = Some v"
  obtains b bs where "v_data v = Some b" "h_data h b = Some bs" "length bs = unat (v_capacity v) * unat (v_element_size v)"
    "unat (v_capacity v) * unat (v_element_size v) < 2 ^ 64" "v_element_size v \<noteq> 0" "v_capacity v \<noteq> 0" "v_size v \<le> v_capacity v" "a < h_next h" "b < h_next h"
  using assms by (force simp: heap_ok_def vec_ok_def buffer_def bind_eq_Some_conv)

lemma buffer_in [simp]: "v_data v = Some b \<Longrightarrow> buffer h v = h_data h b"
  by (simp add: buffer_def)

lemma buffer_log [simp]: "buffer (h\<lparr> h_log := l \<rparr>) v = buffer h v" "buffer (h\<lparr> h_calls := k \<rparr>) v = buffer h v"
  by (simp_all add: buffer_def)

lemma vec_ok_frame: "buffer h' v = buffer h v \<Longrightarrow> vec_ok h' v = vec_ok h v"
  by (simp add: vec_ok_def)

lemma elems_eq: "h_struct h a = Some v \<Longrightarrow> v_data v = Some b \<Longrightarrow> h_data h b = Some bs \<Longrightarrow>
    elems h a = slots (unat (v_size v)) (unat (v_element_size v)) bs"
  by (simp add: elems_def)

lemma heap_ok_log [simp]: "heap_ok (h\<lparr> h_log := l \<rparr>) = heap_ok h" "heap_ok (h\<lparr> h_calls := k \<rparr>) = heap_ok h"
  by (simp_all add: heap_ok_def vec_ok_def)

lemma owns_log [simp]: "owns (h\<lparr> h_log := l \<rparr>) = owns h" "owns (h\<lparr> h_calls := k \<rparr>) = owns h"
  by (simp_all add: owns_def fun_eq_iff)

lemma outside_log [simp]: "outside (h\<lparr> h_log := l \<rparr>) = outside h" "outside (h\<lparr> h_calls := k \<rparr>) = outside h"
  by (simp_all add: outside_def)

lemma elems_log [simp]: "elems (h\<lparr> h_log := l \<rparr>) a = elems h a" "elems (h\<lparr> h_calls := k \<rparr>) a = elems h a"
  by (simp_all add: elems_def split: option.split)

lemma only_log [simp]: "only a h (h'\<lparr> h_log := l \<rparr>) = only a h h'" "only a h (h'\<lparr> h_calls := k \<rparr>) = only a h h'"
  by (simp_all add: only_def)

lemma leaves_log [simp]: "leaves a h (h'\<lparr> h_log := l \<rparr>) xs = leaves a h h' xs" "leaves a h (h'\<lparr> h_calls := k \<rparr>) xs = leaves a h h' xs"
  by (simp_all add: leaves_def)

lemma leaves_refl [simp]: "heap_ok h \<Longrightarrow> leaves a h h (elems h a)"
  by (simp add: leaves_def only_def)

lemma slot_nat:
  assumes "heap_ok h" "h_struct h a = Some v" "i \<le> v_capacity v"
  shows "unat (i * v_element_size v) = unat i * unat (v_element_size v)"
proof -
  have "unat i * unat (v_element_size v) \<le> unat (v_capacity v) * unat (v_element_size v)"
    using assms(3) by (simp add: word_le_nat_alt)
  also have "\<dots> < 2 ^ 64" using assms(1,2) by (rule heap_okD)
  finally show ?thesis using unat_mult_lem [of i "v_element_size v"] by simp
qed

section \<open>The two kinds of change\<close>

text \<open>In place: other bytes in the buffer, and another size.\<close>

lemma update_in_place:
  assumes "heap_ok h" "h_struct h a = Some v" "v_data v = Some b" "h_data h b = Some bs" "length bs' = length bs" "n \<le> v_capacity v"
  shows "leaves a h (h\<lparr> h_data := (h_data h)(b \<mapsto> bs'), h_struct := (h_struct h)(a \<mapsto> v\<lparr> v_size := n \<rparr>) \<rparr>)
           (slots (unat n) (unat (v_element_size v)) bs')"
proof -
  let ?h = "h\<lparr> h_data := (h_data h)(b \<mapsto> bs'), h_struct := (h_struct h)(a \<mapsto> v\<lparr> v_size := n \<rparr>) \<rparr>"
  have o: "owns ?h = owns h" using assms(2,3) by (auto simp: owns_def fun_eq_iff)
  have nb: "v_data w \<noteq> Some b" if "h_struct h x = Some w" "x \<noteq> a" for x w
    using assms(1-3) that unfolding heap_ok_def by metis
  have "vec_ok ?h w" if "h_struct ?h x = Some w" for x w
  proof (cases "x = a")
    case True
    then show ?thesis using that assms by (auto simp: vec_ok_def elim: heap_okD)
  next
    case False
    then have "buffer ?h w = buffer h w" using that nb [of x w] by (cases "v_data w") (auto simp: buffer_def)
    then show ?thesis using False that assms(1) vec_ok_frame [of ?h w h] by (auto simp: heap_ok_def)
  qed
  then have "heap_ok ?h" using assms(1-4) nb unfolding heap_ok_def by (auto split: if_splits)
  moreover have "only a h ?h"
    using assms(2-4) by (auto simp: only_def outside_def o) (auto simp: owns_def)
  ultimately show ?thesis using assms(2,3) by (simp add: leaves_def elems_eq [where b = b])
qed

text \<open>Reallocation: the same elements in a buffer that may be elsewhere.\<close>

lemma update_buffer:
  assumes "heap_ok h" "h_struct h a = Some v" "v_data v = Some b" "h_data h b = Some bs" "b' = b \<or> b' = h_next h"
    "length bs' = unat c * unat (v_element_size v)" "unat c * unat (v_element_size v) < 2 ^ 64" "v_size v \<le> c" "h_next h \<le> m" "b' < m" "c \<noteq> 0"
    "take (unat (v_size v) * unat (v_element_size v)) bs' = take (unat (v_size v) * unat (v_element_size v)) bs"
  shows "leaves a h (h\<lparr> h_data := (h_data h)(b := None, b' \<mapsto> bs'), h_next := m,
             h_struct := (h_struct h)(a \<mapsto> v\<lparr> v_data := Some b', v_capacity := c \<rparr>) \<rparr>) (elems h a)"
proof -
  let ?h = "h\<lparr> h_data := (h_data h)(b := None, b' \<mapsto> bs'), h_next := m, h_struct := (h_struct h)(a \<mapsto> v\<lparr> v_data := Some b', v_capacity := c \<rparr>) \<rparr>"
  have fresh: "v_data w \<noteq> Some (h_next h)" if "h_struct h x = Some w" for x w
    using assms(1) that by (auto elim: heap_okD)
  have nb: "v_data w \<noteq> Some b" if "h_struct h x = Some w" "x \<noteq> a" for x w
    using assms(1-3) that unfolding heap_ok_def by metis
  have "heap_ok ?h" unfolding heap_ok_def
  proof (intro conjI allI impI)
    fix x w assume w: "h_struct ?h x = Some w"
    show "x < h_next ?h" using w assms(1,2,9) by (auto simp: heap_ok_def split: if_splits) (meson order_less_le_trans)+
    show "vec_ok ?h w"
    proof (cases "x = a")
      case True
      then show ?thesis using w assms(1,2,6-8,11) by (auto simp: vec_ok_def elim: heap_okD)
    next
      case False
      then have x: "h_struct h x = Some w" using w by simp
      then have "buffer ?h w = buffer h w"
        using nb [OF x False] fresh [OF x] assms(5) by (cases "v_data w") (auto simp: buffer_def)
      then show ?thesis using x assms(1) vec_ok_frame [of ?h w h] by (auto simp: heap_ok_def)
    qed
  next
    fix d ds assume "h_data ?h d = Some ds"
    then show "d < h_next ?h" using assms(1,9,10) by (auto simp: heap_ok_def split: if_splits)
  next
    fix x y w u assume "h_struct ?h x = Some w" "h_struct ?h y = Some u" "v_data w = v_data u"
    then show "x = y" using assms(1,5) nb [of x w] nb [of y u] fresh [of x w] fresh [of y u] by (auto simp: heap_ok_def split: if_splits)
  qed
  moreover have ow: "owns ?h x d \<longleftrightarrow> (if x = a then d = b' else owns h x d)" for x d by (auto simp: owns_def)
  moreover have "only a h ?h"
  proof -
    have "h_data h d \<noteq> None \<longrightarrow> d \<noteq> h_next h" for d using assms(1) by (auto simp: heap_ok_def)
    moreover have "owns h x b \<longleftrightarrow> x = a" for x using assms(2,3) nb by (auto simp: owns_def)
    moreover have "owns h a d \<longleftrightarrow> d = b" for d using assms(2,3) by (auto simp: owns_def)
    moreover have "\<not> owns h x (h_next h)" for x using fresh by (auto simp: owns_def)
    ultimately show ?thesis using assms(5) unfolding only_def outside_def by (auto simp: ow split: if_splits) metis+
  qed
  moreover have "slots (unat (v_size v)) (unat (v_element_size v)) bs' = slots (unat (v_size v)) (unat (v_element_size v)) bs"
  proof (rule slots_cong)
    fix i assume "i < unat (v_size v)"
    note le = mul_le_off [OF this, of "unat (v_element_size v)"]
    show "bytes_at (i * unat (v_element_size v)) (unat (v_element_size v)) bs' = bytes_at (i * unat (v_element_size v)) (unat (v_element_size v)) bs"
      using bytes_at_take [OF le, of bs'] bytes_at_take [OF le, of bs] assms(12) by simp
  qed
  ultimately show ?thesis
    using assms(2-4) by (simp add: leaves_def elems_eq [OF assms(2-4)]) (simp add: elems_def)
qed

end
