(* ===== verification/Dlibc_Vector_Ops.thy ===== *)
theory Dlibc_Vector_Ops
  imports Dlibc_Vector
begin

text \<open>
  What the functions of \<^verbatim>\<open>include/dlibc/vector.h\<close> do to the list of elements, function by function, and the
  contract of a dynamic array that the rest of the node relies on when it treats vectors as lists.
\<close>

section \<open>Capacity\<close>

text \<open>\<open>h'\<close> is \<open>h\<close> after a growth of \<open>a\<close>: a larger buffer that starts with the old one.\<close>

definition enlarged :: "nat \<Rightarrow> 'e vheap \<Rightarrow> 'e vheap \<Rightarrow> u64 \<Rightarrow> bool" where
  "enlarged a h h' c \<longleftrightarrow> leaves a h h' (elems h a) \<and>
     (\<exists>v b b' bs more. h_struct h a = Some v \<and> v_data v = Some b \<and> h_data h b = Some bs \<and>
        h_struct h' a = Some (v\<lparr> v_data := Some b', v_capacity := c \<rparr>) \<and> h_data h' b' = Some (bs @ more))"

lemma le_div_word: "x \<le> UINT64_MAX div y \<Longrightarrow> y \<noteq> 0 \<Longrightarrow> unat x * unat y < 2 ^ 64"
proof -
  assume a: "x \<le> UINT64_MAX div y" "y \<noteq> (0 :: u64)"
  have "unat x \<le> unat UINT64_MAX div unat y" using a(1) by (metis unat_div word_le_nat_alt)
  then have "unat x * unat y \<le> unat UINT64_MAX" by (meson div_times_less_eq_dividend le_trans mult_le_mono1)
  then show ?thesis by simp
qed

lemma resize_to_ok:
  assumes "heap_ok h" "h_struct h a = Some v" "v_size v \<le> c" "c \<noteq> 0"
  obtains (grows) h' where "resize_to al a c h = Some (0, h')" "h_log h' = h_log h" "leaves a h h' (elems h a)"
      "map_option v_capacity (h_struct h' a) = Some c" "v_capacity v \<le> c \<longrightarrow> enlarged a h h' c"
    | (refused) h' where "resize_to al a c h = Some (-1, h')" "h' = h \<or> h' = h\<lparr> h_calls := Suc (h_calls h) \<rparr>"
      "c > UINT64_MAX div v_element_size v \<or> \<not> al_ok al (h_calls h)"
proof -
  obtain b bs where v: "v_data v = Some b" "h_data h b = Some bs" "length bs = unat (v_capacity v) * unat (v_element_size v)"
    "v_element_size v \<noteq> 0" "v_size v \<le> v_capacity v" "b < h_next h" using assms(1,2) by (rule heap_okD)
  show ?thesis
  proof (cases "c > UINT64_MAX div v_element_size v \<or> \<not> al_ok al (h_calls h)")
    case True
    then have "resize_to al a c h = Some (-1, if c > UINT64_MAX div v_element_size v then h else h\<lparr> h_calls := Suc (h_calls h) \<rparr>)"
      using assms(2) v(1,2) by (auto simp: resize_to_def c_realloc_def Let_def)
    then show ?thesis using refused True by simp
  next
    case False
    let ?n = "unat c * unat (v_element_size v)"
    have n: "?n < 2 ^ 64" "unat (c * v_element_size v) = ?n"
      using False v(4) le_div_word [of c "v_element_size v"] unat_mult_lem [of c "v_element_size v"] by (auto simp: not_less)
    define new where "new = take ?n bs @ map (al_junk al (h_calls h)) [length bs..<?n]"
    have len: "length new = ?n" by (simp add: new_def)
    have "unat (v_size v) * unat (v_element_size v) \<le> length bs" "unat (v_size v) * unat (v_element_size v) \<le> ?n"
      using assms(3) v(3,5) by (simp_all add: word_le_nat_alt)
    then have pre: "take (unat (v_size v) * unat (v_element_size v)) new = take (unat (v_size v) * unat (v_element_size v)) bs"
      by (simp add: new_def min_def)
    define b' where "b' = (if al_stay al (h_calls h) then b else h_next h)"
    define m where "m = (if al_stay al (h_calls h) then h_next h else Suc (h_next h))"
    define h' where "h' = h\<lparr> h_data := (h_data h)(b := None, b' \<mapsto> new), h_next := m,
        h_struct := (h_struct h)(a \<mapsto> v\<lparr> v_data := Some b', v_capacity := c \<rparr>), h_calls := Suc (h_calls h) \<rparr>"
    have r: "resize_to al a c h = Some (0, h')"
      using False assms(2) v(1,2) n(2) by (simp add: resize_to_def c_realloc_def Let_def h'_def b'_def m_def new_def put_struct_def fun_upd_twist)
    have b': "b' = b \<or> b' = h_next h" "h_next h \<le> m" "b' < m" using v(6) by (auto simp: b'_def m_def)
    have l: "leaves a h h' (elems h a)"
      using update_buffer [OF assms(1,2) v(1,2) b'(1) len n(1) assms(3) b'(2,3) assms(4) pre] by (simp add: h'_def)
    moreover have "new = bs @ map (al_junk al (h_calls h)) [length bs..<?n]" if "v_capacity v \<le> c"
      using that v(3) by (simp add: new_def word_le_nat_alt)
    ultimately have "v_capacity v \<le> c \<longrightarrow> enlarged a h h' c" using assms(2) v(1,2) by (auto simp: enlarged_def h'_def)
    then show ?thesis using grows [OF r _ l] by (simp add: h'_def)
  qed
qed

lemma grow_ok:
  assumes "heap_ok h" "h_struct h a = Some v"
  obtains (grows) h' where "vector_grow al (Some a) h = Some (0, h')" "h_log h' = h_log h" "enlarged a h h' (v_capacity v * 2)"
      "v_capacity v < v_capacity v * 2"
    | (refused) h' where "vector_grow al (Some a) h = Some (-1, h')" "h' = h \<or> h' = h\<lparr> h_calls := Suc (h_calls h) \<rparr>"
      "v_capacity v > UINT64_MAX div 2 \<or> v_capacity v * 2 > UINT64_MAX div v_element_size v \<or> \<not> al_ok al (h_calls h)"
proof (cases "v_capacity v > UINT64_MAX div 2")
  case True
  then show ?thesis using refused assms(2) by (simp add: vector_grow_def)
next
  case False
  have "unat (v_capacity v) * 2 < 2 ^ 64" using False le_div_word [of "v_capacity v" 2] by simp
  then have "unat (v_capacity v * 2) = unat (v_capacity v) * 2" using unat_mult_lem [of "v_capacity v" 2] by simp
  moreover have "v_capacity v \<noteq> 0" using assms by (rule heap_okD)
  ultimately have lt: "v_capacity v < v_capacity v * 2" by (simp add: word_less_nat_alt unat_gt_0)
  then have nz: "v_capacity v * 2 \<noteq> 0" by (metis word_not_simps(1))
  have sz: "v_size v \<le> v_capacity v * 2" using assms(1,2) lt by (auto elim: heap_okD)
  have g: "vector_grow al (Some a) h = resize_to al a (v_capacity v * 2) h"
    using False assms lt by (auto simp: vector_grow_def vector_reserve_def word_gt_0 elim: heap_okD)
  from assms(1,2) sz nz show ?thesis
  proof (cases rule: resize_to_ok [where al = al])
    case (grows h')
    then show ?thesis using that(1) [of h'] lt g by simp
  next
    case (refused h')
    then show ?thesis using that(2) [of h'] g by simp
  qed
qed

section \<open>Composition of changes\<close>

lemma only_not_owns:
  assumes "heap_ok h1" "only a h h1" "h_data h b \<noteq> None" "\<not> owns h a b"
  shows "\<not> owns h1 a b"
proof (cases "b \<in> outside h")
  case True
  then have "b \<in> outside h1" using assms(2) by (simp add: only_def)
  then show ?thesis by (simp add: outside_def)
next
  case False
  then obtain c where c: "owns h c b" "c \<noteq> a" using assms(3,4) unfolding outside_def by blast
  then have "owns h1 c b" using assms(2) by (simp add: only_def owns_def)
  then show ?thesis using c(2) assms(1) unfolding owns_def heap_ok_def by metis
qed

lemma only_trans: "heap_ok h1 \<Longrightarrow> only a h h1 \<Longrightarrow> only a h1 h2 \<Longrightarrow> only a h h2"
  using only_not_owns [of h1 a h] by (simp add: only_def)

lemma leaves_trans: "leaves a h h1 xs \<Longrightarrow> leaves a h1 h2 ys \<Longrightarrow> leaves a h h2 ys"
  unfolding leaves_def using only_trans by metis

lemma leaves_heap_ok: "leaves a h h' xs \<Longrightarrow> heap_ok h'"
  by (simp add: leaves_def)

lemma leaves_struct: "leaves a h h' xs \<Longrightarrow> h_struct h a = Some v \<Longrightarrow>
    \<exists>v'. h_struct h' a = Some v' \<and> v_element_size v' = v_element_size v \<and> v_destructor v' = v_destructor v \<and>
      vector_t.more v' = vector_t.more v"
  by (auto simp: leaves_def map_option_eq_Some)

text \<open>Whether a pointer that can be read points into the buffer.\<close>

lemma aliased_iff:
  assumes "heap_ok h" "h_struct h a = Some v" "load e (unat (v_element_size v)) h = Some x"
  shows "vector_is_aliased (Some a) (Some e) h = Some (owns h a (fst e))"
proof -
  obtain b bs where v: "v_data v = Some b" "h_data h b = Some bs" "length bs = unat (v_capacity v) * unat (v_element_size v)"
    "v_element_size v \<noteq> 0" using assms(1,2) by (rule heap_okD)
  have n: "unat (v_capacity v * v_element_size v) = length bs" using slot_nat [OF assms(1,2) order_refl] v(3) by simp
  have "snd e < length bs" if "fst e = b"
    using that v(2,4) load_SomeD [OF assms(3)] unat_gt_0 [of "v_element_size v"] by auto
  then show ?thesis using assms(2) v(1) n by (auto simp: vector_is_aliased_def owns_def split: prod.split)
qed

section \<open>Adding at the end\<close>

lemma copy_in_ok:
  assumes "heap_ok h" "h_struct h a = Some v" "v_size v < v_capacity v" "load e (unat (v_element_size v)) h = Some x"
  obtains h' where "copy_in a e h = Some (0, h')" "leaves a h h' (elems h a @ [x])" "h_log h' = h_log h"
proof -
  let ?es = "unat (v_element_size v)" and ?n = "unat (v_size v)"
  obtain b bs where v: "v_data v = Some b" "h_data h b = Some bs" "length bs = unat (v_capacity v) * ?es" using assms(1,2) by (rule heap_okD)
  have off: "unat (v_size v * v_element_size v) = ?n * ?es" using slot_nat [OF assms(1,2)] assms(3) by simp
  have x: "length x = ?es" using load_length [OF assms(4)] .
  have fits: "?n * ?es + length x \<le> length bs"
    using mul_le_off [of ?n "unat (v_capacity v)" ?es] assms(3) x v(3) by (simp add: word_less_nat_alt)
  let ?bs = "splice_at (?n * ?es) x bs"
  have n1: "unat (v_size v + 1) = Suc ?n" "v_size v + 1 \<le> v_capacity v"
    using assms(3) unat_next [OF assms(3)] by (simp_all add: word_less_nat_alt word_le_nat_alt)
  have "slots (Suc ?n) ?es ?bs = elems h a @ [x]"
    unfolding elems_eq [OF assms(2) v(1,2)] using slots_snoc [of ?n ?es bs x] fits x by simp
  then have "leaves a h (h\<lparr> h_data := (h_data h)(b \<mapsto> ?bs), h_struct := (h_struct h)(a \<mapsto> v\<lparr> v_size := v_size v + 1 \<rparr>) \<rparr>) (elems h a @ [x])"
    using update_in_place [OF assms(1,2) v(1,2), of ?bs "v_size v + 1"] fits n1 by simp
  then show ?thesis
    using that assms(2,4) v(1,2) off fits by (simp add: copy_in_def slot_at_def c_memmove_def put_struct_def)
qed

lemma grow_for_ok:
  assumes "heap_ok h" "h_struct h a = Some v" "load e (unat (v_element_size v)) h = Some x"
  obtains (grows) e' h' where "grow_for al a e h = Some (0, e', h')" "h_log h' = h_log h" "enlarged a h h' (v_capacity v * 2)"
      "v_capacity v < v_capacity v * 2" "load e' (unat (v_element_size v)) h' = Some x"
    | (refused) h' where "grow_for al a e h = Some (-1, e, h')" "h' = h \<or> h' = h\<lparr> h_calls := Suc (h_calls h) \<rparr>"
      "v_capacity v > UINT64_MAX div 2 \<or> v_capacity v * 2 > UINT64_MAX div v_element_size v \<or> \<not> al_ok al (h_calls h)"
  using assms(1,2)
proof (cases rule: grow_ok [where al = al])
  case (grows h')
  obtain b b' bs more where g: "v_data v = Some b" "h_data h b = Some bs" "h_struct h' a = Some (v\<lparr> v_data := Some b', v_capacity := v_capacity v * 2 \<rparr>)"
    "h_data h' b' = Some (bs @ more)" "only a h h'" using grows(3) assms(2) by (auto simp: enlarged_def leaves_def)
  let ?e = "if owns h a (fst e) then (b', snd e) else e"
  obtain es where es: "h_data h (fst e) = Some es" "snd e + unat (v_element_size v) \<le> length es" "x = bytes_at (snd e) (unat (v_element_size v)) es"
    using load_SomeD [OF assms(3)] by auto
  have "load ?e (unat (v_element_size v)) h' = Some x"
  proof (cases "owns h a (fst e)")
    case True
    then have "fst e = b" using assms(2) g(1) by (simp add: owns_def)
    then show ?thesis using True es g(2,4) by (simp add: load_def bytes_at_append)
  next
    case False
    then have "h_data h' (fst e) = Some es" using g(5) es(1) by (simp add: only_def)
    then show ?thesis using False es by (simp add: load_def)
  qed
  moreover have "grow_for al a e h = Some (0, ?e, h')" using aliased_iff [OF assms] grows(1) g(3) by (simp add: grow_for_def)
  ultimately show ?thesis using that(1) [of ?e h'] grows by simp
next
  case (refused h')
  then show ?thesis using that(2) [of h'] aliased_iff [OF assms] by (simp add: grow_for_def)
qed

lemma push_back_eq:
  assumes "heap_ok h" "h_struct h a = Some v" "load e (unat (v_element_size v)) h = Some x" "\<not> (v_destructor v \<noteq> None \<and> owns h a (fst e))"
  shows "vector_push_back al (Some a) (Some e) h =
    (if v_size v < v_capacity v then copy_in a e h
     else do { (r, e1, h1) \<leftarrow> grow_for al a e h; if r \<noteq> 0 then Some (-1, h1) else copy_in a e1 h1 })"
  using assms(2) assms(4) aliased_iff [OF assms(1-3)] by (cases "owns h a (fst e)") (simp_all add: vector_push_back_def not_le [symmetric])

lemma push_back_ok:
  assumes "heap_ok h" "h_struct h a = Some v" "load e (unat (v_element_size v)) h = Some x"
  obtains (pushed) h' where "vector_push_back al (Some a) (Some e) h = Some (0, h')" "leaves a h h' (elems h a @ [x])" "h_log h' = h_log h"
    | (refused) h' where "vector_push_back al (Some a) (Some e) h = Some (-1, h')" "h' = h \<or> h' = h\<lparr> h_calls := Suc (h_calls h) \<rparr>"
      "v_destructor v \<noteq> None \<and> owns h a (fst e) \<or> v_size v = v_capacity v \<and>
         (v_capacity v > UINT64_MAX div 2 \<or> v_capacity v * 2 > UINT64_MAX div v_element_size v \<or> \<not> al_ok al (h_calls h))"
proof (cases "v_destructor v \<noteq> None \<and> owns h a (fst e)")
  case True
  then show ?thesis using that(2) [of h] assms(2) aliased_iff [OF assms] by (simp add: vector_push_back_def)
next
  case keep: False
  have le: "v_size v \<le> v_capacity v" using assms(1,2) by (rule heap_okD)
  show ?thesis
  proof (cases "v_size v < v_capacity v")
    case True
    obtain h' where "copy_in a e h = Some (0, h')" "leaves a h h' (elems h a @ [x])" "h_log h' = h_log h"
      using copy_in_ok [OF assms(1,2) True assms(3)] .
    then show ?thesis using that(1) [of h'] True by (simp add: push_back_eq [OF assms keep])
  next
    case False
    then have full: "v_size v = v_capacity v" using le by simp
    from assms show ?thesis
    proof (cases rule: grow_for_ok [where al = al])
      case (grows e' h1)
      obtain b' where v1: "h_struct h1 a = Some (v\<lparr> v_data := Some b', v_capacity := v_capacity v * 2 \<rparr>)" and l: "leaves a h h1 (elems h a)"
        using grows(3) assms(2) by (auto simp: enlarged_def)
      then have "elems h1 a = elems h a" by (simp add: leaves_def)
      moreover obtain h' where "copy_in a e' h1 = Some (0, h')" "leaves a h1 h' (elems h1 a @ [x])" "h_log h' = h_log h1"
        by (rule copy_in_ok [OF leaves_heap_ok [OF l] v1, of e' x]) (use grows(4,5) full in simp_all)
      ultimately show ?thesis
        using that(1) [of h'] full grows(1,2) leaves_trans [OF l] by (simp add: push_back_eq [OF assms keep])
    next
      case (refused h1)
      then show ?thesis using that(2) [of h1] full by (simp add: push_back_eq [OF assms keep])
    qed
  qed
qed

section \<open>Removing\<close>

text \<open>The destructor calls when the elements \<open>xs\<close> leave.\<close>

definition destroyed :: "'e vector_t_scheme \<Rightarrow> byte list list \<Rightarrow> (nat \<times> byte list) list" where
  "destroyed v xs = (case v_destructor v of None \<Rightarrow> [] | Some f \<Rightarrow> map (Pair f) xs)"

lemma destroyed_append [simp]: "destroyed v (xs @ ys) = destroyed v xs @ destroyed v ys" "destroyed v [] = []"
  by (simp_all add: destroyed_def split: option.split)

lemma length_elems: "heap_ok h \<Longrightarrow> h_struct h a = Some v \<Longrightarrow> length (elems h a) = unat (v_size v)"
  by (auto elim: heap_okD simp: elems_eq)

text \<open>A slot in use can be read, and holds its element.\<close>

lemma load_slot:
  assumes "heap_ok h" "h_struct h a = Some v" "i < v_size v"
  obtains p where "slot_at v i = Some p" "load p (unat (v_element_size v)) h = Some (elems h a ! unat i)" "owns h a (fst p)"
proof -
  let ?es = "unat (v_element_size v)"
  obtain b bs where v: "v_data v = Some b" "h_data h b = Some bs" "length bs = unat (v_capacity v) * ?es" "v_size v \<le> v_capacity v"
    using assms(1,2) by (rule heap_okD)
  have "i \<le> v_capacity v" "unat i < unat (v_capacity v)" "unat i < unat (v_size v)"
    using assms(3) v(4) by (simp_all add: word_le_nat_alt word_less_nat_alt)
  moreover have "unat i * ?es + ?es \<le> length bs" using mul_le_off [OF calculation(2), of ?es] v(3) by simp
  ultimately show ?thesis
    using that [of "(b, unat i * ?es)"] assms(2) v(1,2) slot_nat [OF assms(1,2)] by (simp add: slot_at_def elems_eq [OF assms(2) v(1,2)] owns_def)
qed

lemma run_destructor_ok:
  assumes "heap_ok h" "h_struct h a = Some v" "i < v_size v"
  shows "run_destructor v i h = Some (h\<lparr> h_log := h_log h @ destroyed v [elems h a ! unat i] \<rparr>)"
proof -
  obtain p where "slot_at v i = Some p" "load p (unat (v_element_size v)) h = Some (elems h a ! unat i)" using load_slot [OF assms] .
  then show ?thesis by (simp add: run_destructor_def destroyed_def split: option.split)
qed

lemma resize_elems:
  assumes "heap_ok h" "h_struct h a = Some v" "n \<le> v_size v"
  shows "leaves a h (put_struct a (v\<lparr> v_size := n \<rparr>) h) (take (unat n) (elems h a))"
proof -
  obtain b bs where v: "v_data v = Some b" "h_data h b = Some bs" "v_size v \<le> v_capacity v" using assms(1,2) by (rule heap_okD)
  have "unat n \<le> unat (v_size v)" using assms(3) by (simp only: word_le_nat_alt)
  then have "slots (unat n) (unat (v_element_size v)) bs = take (unat n) (elems h a)"
    by (simp add: elems_eq [OF assms(2) v(1,2)] slots_def take_map)
  moreover have "h\<lparr> h_data := (h_data h)(b \<mapsto> bs), h_struct := (h_struct h)(a \<mapsto> v\<lparr> v_size := n \<rparr>) \<rparr> = put_struct a (v\<lparr> v_size := n \<rparr>) h"
    by (rule c_heap.equality) (simp_all add: put_struct_def fun_upd_idem [where f = "h_data h" and x = b, OF v(2)])
  moreover have "n \<le> v_capacity v" using assms(3) v(3) by (rule order_trans)
  ultimately show ?thesis using update_in_place [OF assms(1,2) v(1,2) refl, of n] by simp
qed

lemma close_gap_ok:
  assumes "heap_ok h" "h_struct h a = Some v" "i < v_size v"
  obtains h' where "close_gap a i h = Some (0, h')" "leaves a h h' (vec_pop_at (elems h a) (unat i))" "h_log h' = h_log h"
proof -
  let ?es = "unat (v_element_size v)" and ?i = "unat i" and ?n = "unat (v_size v)"
  obtain b bs where v: "v_data v = Some b" "h_data h b = Some bs" "length bs = unat (v_capacity v) * ?es" "v_size v \<le> v_capacity v"
    using assms(1,2) by (rule heap_okD)
  have i: "?i < ?n" "?n \<le> unat (v_capacity v)" using assms(3) v(4) by (simp_all add: word_less_nat_alt word_le_nat_alt)
  have n1: "unat (v_size v - 1) = ?n - 1" "v_size v - 1 \<le> v_capacity v" "unat (i + 1) = Suc ?i"
    using unat_next [OF assms(3)] i v(4) by (auto simp: unat_sub word_le_nat_alt)
  show ?thesis
  proof (cases "i + 1 < v_size v")
    case True
    then have lt: "Suc ?i < ?n" using n1(3) by (simp add: word_less_nat_alt)
    have m: "unat ((v_size v - i - 1) * v_element_size v) = (?n - Suc ?i) * ?es"
    proof -
      have "unat (v_size v - i - 1) = ?n - Suc ?i" using i lt by (simp add: unat_sub word_le_nat_alt)
      moreover from this have "v_size v - i - 1 \<le> v_capacity v" using i by (simp add: word_le_nat_alt)
      ultimately show ?thesis using slot_nat [OF assms(1,2)] by simp
    qed
    have off: "unat (i * v_element_size v) = ?i * ?es" "unat ((i + 1) * v_element_size v) = Suc ?i * ?es"
      using slot_nat [OF assms(1,2), of i] slot_nat [OF assms(1,2), of "i + 1"] i lt n1(3) by (simp_all add: word_le_nat_alt)
    let ?bs = "splice_at (?i * ?es) (bytes_at (Suc ?i * ?es) ((?n - Suc ?i) * ?es) bs) bs"
    have fits: "Suc ?i * ?es + (?n - Suc ?i) * ?es \<le> length bs" "?n * ?es \<le> length bs"
      using lt i v(3) by (simp_all add: add_mult_distrib [symmetric] del: mult_Suc)
    then have len: "length (bytes_at (Suc ?i * ?es) ((?n - Suc ?i) * ?es) bs) = (?n - Suc ?i) * ?es" by simp
    have "slots (?n - 1) ?es ?bs = vec_pop_at (elems h a) ?i"
      using slots_close [OF i(1) fits(2)] by (simp add: elems_eq [OF assms(2) v(1,2)])
    then show ?thesis
      using update_in_place [OF assms(1,2) v(1,2) _ n1(2), of ?bs] that [of "h\<lparr> h_data := (h_data h)(b \<mapsto> ?bs), h_struct := (h_struct h)(a \<mapsto> v\<lparr> v_size := v_size v - 1 \<rparr>) \<rparr>"]
        True assms(2) v(1,2) off m fits len n1(1) by (simp add: close_gap_def slot_at_def c_memmove_def put_struct_def)
  next
    case False
    then have "?i = ?n - 1" using i(1) n1(3) by (simp add: word_less_nat_alt)
    then have "take (?n - 1) (elems h a) = vec_pop_at (elems h a) ?i" using i(1) length_elems [OF assms(1,2)] by (simp add: vec_pop_at_def)
    moreover have "v_size v - 1 \<le> v_size v" using n1(1) by (simp add: word_le_nat_alt)
    ultimately show ?thesis
      using that [of "put_struct a (v\<lparr> v_size := v_size v - 1 \<rparr>) h"] resize_elems [OF assms(1,2), of "v_size v - 1"] False assms(2) n1(1)
      by (simp add: close_gap_def) (simp add: put_struct_def)
  qed
qed

lemma put_struct_log: "put_struct a v (h\<lparr> h_log := l \<rparr>) = (put_struct a v h)\<lparr> h_log := l \<rparr>"
  by (simp add: put_struct_def)

lemma pop_back_ok:
  assumes "heap_ok h" "h_struct h a = Some v" "v_size v \<noteq> 0"
  obtains h' where "vector_pop_back (Some a) h = Some (0, h')" "leaves a h h' (butlast (elems h a))"
    "h_log h' = h_log h @ destroyed v [last (elems h a)]"
proof -
  have n: "unat (v_size v - 1) = unat (v_size v) - 1" "v_size v - 1 < v_size v" "v_size v - 1 \<le> v_size v"
    using assms(3) by (simp_all add: unat_minus_one word_less_nat_alt word_le_nat_alt unat_gt_0)
  have len: "length (elems h a) = unat (v_size v)" "elems h a \<noteq> []"
    using length_elems [OF assms(1,2)] assms(3) by (auto simp: unat_eq_0)
  let ?h = "h\<lparr> h_log := h_log h @ destroyed v [last (elems h a)] \<rparr>"
  have "vector_pop_back (Some a) h = Some (0, put_struct a (v\<lparr> v_size := v_size v - 1 \<rparr>) ?h)"
    using run_destructor_ok [OF assms(1,2) n(2)] assms(2,3) n(1) len by (simp add: vector_pop_back_def last_conv_nth)
  moreover have "leaves a h (put_struct a (v\<lparr> v_size := v_size v - 1 \<rparr>) ?h) (butlast (elems h a))"
    using resize_elems [OF assms(1,2) n(3)] n(1) len(1) by (simp add: butlast_conv_take put_struct_log)
  ultimately show ?thesis using that by (simp add: put_struct_log)
qed

lemma pop_at_ok:
  assumes "heap_ok h" "h_struct h a = Some v" "i < v_size v"
  obtains h' where "vector_pop_at (Some a) i h = Some (0, h')" "leaves a h h' (vec_pop_at (elems h a) (unat i))"
    "h_log h' = h_log h @ destroyed v [elems h a ! unat i]"
proof -
  let ?h = "h\<lparr> h_log := h_log h @ destroyed v [elems h a ! unat i] \<rparr>"
  obtain h' where h': "close_gap a i ?h = Some (0, h')" "leaves a ?h h' (vec_pop_at (elems ?h a) (unat i))" "h_log h' = h_log ?h"
    by (rule close_gap_ok [of ?h a v i]) (use assms in simp_all)
  moreover have "leaves a h ?h (elems h a)" using assms(1) by simp
  ultimately show ?thesis
    using that [of h'] leaves_trans [of a h ?h] run_destructor_ok [OF assms] assms(2,3) by (simp add: vector_pop_at_def not_le [symmetric])
qed

section \<open>Memory of the caller\<close>

text \<open>Changes that leave every vector and its buffer alone.\<close>

definition frame :: "'e vheap \<Rightarrow> 'e vheap \<Rightarrow> bool" where
  "frame h h' \<longleftrightarrow> h_struct h' = h_struct h \<and> h_next h \<le> h_next h' \<and> (\<forall>a b. owns h a b \<longrightarrow> h_data h' b = h_data h b) \<and>
     (\<forall>b bs. h_data h' b = Some bs \<longrightarrow> b < h_next h')"

lemma frame_owns: "frame h h' \<Longrightarrow> owns h' = owns h"
  by (simp add: frame_def owns_def fun_eq_iff)

lemma frame_heap_ok: "frame h h' \<Longrightarrow> heap_ok h \<Longrightarrow> heap_ok h'"
proof -
  assume f: "frame h h'" and ok: "heap_ok h"
  have "buffer h' v = buffer h v" if "h_struct h a = Some v" for a v
    using f that by (cases "v_data v") (auto simp: frame_def owns_def buffer_def)
  then have "vec_ok h' v = vec_ok h v" if "h_struct h a = Some v" for a v using that vec_ok_frame by blast
  then have "a < h_next h' \<and> vec_ok h' v" if "h_struct h' a = Some v" for a v
    using f ok that by (fastforce simp: heap_ok_def frame_def)
  then show ?thesis using f ok by (simp add: heap_ok_def frame_def)
qed

lemma frame_elems: "frame h h' \<Longrightarrow> elems h' = elems h"
proof
  fix a assume f: "frame h h'"
  show "elems h' a = elems h a"
  proof (cases "h_struct h a")
    case (Some v)
    then have "buffer h' v = buffer h v" using f by (cases "v_data v") (auto simp: frame_def owns_def buffer_def)
    then show ?thesis using f Some by (simp add: elems_def frame_def)
  qed (use f in \<open>simp add: elems_def frame_def\<close>)
qed

lemma owns_live: "heap_ok h \<Longrightarrow> owns h a b \<Longrightarrow> h_data h b \<noteq> None \<and> b < h_next h"
  by (auto simp: owns_def elim: heap_okD)

lemma fresh_not_live: "heap_ok h \<Longrightarrow> h_data h (h_next h) = None" "heap_ok h \<Longrightarrow> \<not> owns h a (h_next h)"
  using owns_live by (fastforce simp: heap_ok_def, blast)

lemma malloc_frame:
  assumes "heap_ok h" "al_ok al (h_calls h)"
  obtains bs h' where "c_malloc al n h = (Some (h_next h), h')" "frame h h'" "h_data h' = (h_data h)(h_next h \<mapsto> bs)" "length bs = n"
    "outside h' = insert (h_next h) (outside h)" "h_log h' = h_log h"
proof -
  let ?h = "snd (c_malloc al n h)" and ?bs = "map (al_junk al (h_calls h)) [0..<n]"
  have h: "c_malloc al n h = (Some (h_next h), ?h)" "h_data ?h = (h_data h)(h_next h \<mapsto> ?bs)" "h_struct ?h = h_struct h"
    "h_next ?h = Suc (h_next h)" "h_log ?h = h_log h" using assms(2) by (simp_all add: c_malloc_def Let_def)
  have "b < Suc (h_next h)" if "h_data h b = Some cs" for b cs using assms(1) that by (auto simp: heap_ok_def less_SucI)
  then have f: "frame h ?h" using h fresh_not_live(2) [OF assms(1)] by (auto simp: frame_def)
  moreover have "outside ?h = insert (h_next h) (outside h)"
    using h(2) frame_owns [OF f] fresh_not_live(2) [OF assms(1)] by (auto simp: outside_def)
  ultimately show ?thesis using that h(1,2,5) by simp
qed

lemma free_frame:
  assumes "heap_ok h" "t \<in> outside h"
  obtains h' where "c_free (Some t) h = Some h'" "frame h h'" "h_data h' = (h_data h)(t := None)" "outside h' = outside h - {t}" "h_log h' = h_log h"
proof -
  let ?h = "h\<lparr> h_data := (h_data h)(t := None) \<rparr>"
  have f: "frame h ?h" using assms by (auto simp: frame_def outside_def heap_ok_def split: if_splits)
  moreover have "outside ?h = outside h - {t}" using frame_owns [OF f] by (auto simp: outside_def)
  ultimately show ?thesis using that [of ?h] assms(2) by (simp add: c_free_def outside_def)
qed

lemma store_frame:
  assumes "heap_ok h" "fst p \<in> outside h" "h_data h (fst p) = Some bs" "snd p + length xs \<le> length bs"
  obtains h' where "store p xs h = Some h'" "frame h h'" "h_data h' = (h_data h)(fst p \<mapsto> splice_at (snd p) xs bs)" "outside h' = outside h"
    "h_log h' = h_log h" "load p (length xs) h' = Some xs"
proof -
  let ?h = "h\<lparr> h_data := (h_data h)(fst p \<mapsto> splice_at (snd p) xs bs) \<rparr>"
  have f: "frame h ?h" using assms by (auto simp: frame_def outside_def heap_ok_def split: if_splits)
  moreover have "outside ?h = outside h" using frame_owns [OF f] assms(2) by (auto simp: outside_def)
  moreover have "load p (length xs) ?h = Some xs" using assms(4) by (simp add: load_def bytes_at_inside bytes_at_all)
  ultimately show ?thesis using that [of ?h] assms(3,4) by (simp add: store_def)
qed

section \<open>Taking, inserting, overwriting, clearing\<close>

lemma leaves_after_frame: "frame h h1 \<Longrightarrow> leaves a h1 h2 xs \<Longrightarrow> h_struct h1 = h_struct h \<and> heap_ok h2 \<and> elems h2 a = xs"
  by (simp add: frame_def leaves_def)

lemma only_elems:
  assumes "heap_ok h" "only a h h'" "c \<noteq> a"
  shows "elems h' c = elems h c"
proof (cases "h_struct h c")
  case (Some v)
  obtain b bs where v: "v_data v = Some b" "h_data h b = Some bs" using assms(1) Some by (rule heap_okD)
  have "\<not> owns h a b" using assms(1,3) Some v(1) unfolding owns_def heap_ok_def by metis
  then have "h_data h' b = Some bs" "h_struct h' c = Some v" using assms(2,3) v(2) Some by (simp_all add: only_def)
  then show ?thesis using Some v by (simp add: elems_eq)
qed (use assms(2,3) in \<open>simp add: only_def elems_def\<close>)

text \<open>A buffer of the caller that can take an element.\<close>

definition writable :: "ptr \<Rightarrow> nat \<Rightarrow> 'e vheap \<Rightarrow> bool" where
  "writable p n h \<longleftrightarrow> fst p \<in> outside h \<and> (\<exists>bs. h_data h (fst p) = Some bs \<and> snd p + n \<le> length bs)"

lemma take_at_ok:
  assumes "heap_ok h" "h_struct h a = Some v" "i < v_size v" "writable out (unat (v_element_size v)) h"
  obtains h' where "vector_take_at (Some a) i (Some out) h = Some (0, h')" "heap_ok h'" "elems h' a = vec_pop_at (elems h a) (unat i)"
    "load out (unat (v_element_size v)) h' = Some (elems h a ! unat i)" "h_log h' = h_log h" "outside h' = outside h"
    "\<forall>c. c \<noteq> a \<longrightarrow> elems h' c = elems h c"
proof -
  let ?x = "elems h a ! unat i" and ?es = "unat (v_element_size v)"
  obtain bs where out: "fst out \<in> outside h" "h_data h (fst out) = Some bs" "snd out + ?es \<le> length bs" using assms(4) by (auto simp: writable_def)
  have no: "\<not> owns h c (fst out)" for c using out(1) by (simp add: outside_def)
  obtain p where p: "slot_at v i = Some p" "load p ?es h = Some ?x" "owns h a (fst p)" using load_slot [OF assms(1-3)] .
  have x: "length ?x = ?es" using load_length [OF p(2)] .
  obtain h1 where h1: "store out ?x h = Some h1" "frame h h1" "h_data h1 = (h_data h)(fst out \<mapsto> splice_at (snd out) ?x bs)" "outside h1 = outside h"
    "h_log h1 = h_log h" "load out (length ?x) h1 = Some ?x" by (rule store_frame [OF assms(1) out(1,2), of ?x]) (use out(3) x in simp_all)
  have s1: "h_struct h1 a = Some v" using h1(2) assms(2) by (simp add: frame_def)
  have ok1: "heap_ok h1" using frame_heap_ok [OF h1(2) assms(1)] .
  obtain h' where h': "close_gap a i h1 = Some (0, h')" "leaves a h1 h' (vec_pop_at (elems h1 a) (unat i))" "h_log h' = h_log h1"
    using close_gap_ok [OF ok1 s1 assms(3)] .
  have al: "vector_is_aliased (Some a) (Some out) h = Some False"
    using no [of a] assms(2) by (auto simp: vector_is_aliased_def owns_def split: prod.split)
  have cpy: "c_memcpy out p ?es h = Some h1" using no [of a] p(2,3) h1(1) by (auto simp: c_memcpy_def c_memmove_def)
  have "load out ?es h' = Some ?x"
  proof -
    have "h_data h' (fst out) = h_data h1 (fst out)"
      using h'(2) frame_owns [OF h1(2)] no h1(3) by (simp add: leaves_def only_def)
    then show ?thesis using h1(6) x by (simp add: load_def)
  qed
  moreover have "vector_take_at (Some a) i (Some out) h = Some (0, h')"
    using assms(2,3) al p(1) cpy h'(1) by (simp add: vector_take_at_def not_le [symmetric])
  moreover have "elems h' c = elems h c" if "c \<noteq> a" for c
    using only_elems [OF ok1 _ that, of h'] h'(2) frame_elems [OF h1(2)] by (simp add: leaves_def)
  ultimately show ?thesis
    using that [of h'] h'(2,3) h1(4,5) frame_elems [OF h1(2)] by (simp add: leaves_def only_def)
qed

lemma open_gap_ok:
  assumes "heap_ok h" "h_struct h a = Some v" "v_size v < v_capacity v" "i \<le> v_size v"
    "load e (unat (v_element_size v)) h = Some x" "\<not> owns h a (fst e)"
  obtains h' where "open_gap a i e h = Some h'" "leaves a h h' (take (unat i) (elems h a) @ x # drop (unat i) (elems h a))" "h_log h' = h_log h"
proof -
  let ?es = "unat (v_element_size v)" and ?i = "unat i" and ?n = "unat (v_size v)"
  obtain b bs where v: "v_data v = Some b" "h_data h b = Some bs" "length bs = unat (v_capacity v) * ?es" using assms(1,2) by (rule heap_okD)
  have i: "?i \<le> ?n" "?n < unat (v_capacity v)" "i < v_capacity v" using assms(3,4) by (simp_all add: word_less_nat_alt word_le_nat_alt)
  have n1: "unat (v_size v + 1) = Suc ?n" "v_size v + 1 \<le> v_capacity v" "unat (i + 1) = Suc ?i" "i + 1 \<le> v_capacity v"
    using unat_next [OF assms(3)] unat_next [OF i(3)] i by (simp_all add: word_le_nat_alt)
  have m: "unat ((v_size v - i) * v_element_size v) = (?n - ?i) * ?es"
  proof -
    have "unat (v_size v - i) = ?n - ?i" using assms(4) by (simp add: unat_sub)
    moreover from this have "v_size v - i \<le> v_capacity v" using i by (simp add: word_le_nat_alt)
    ultimately show ?thesis using slot_nat [OF assms(1,2)] by simp
  qed
  have off: "unat (i * v_element_size v) = ?i * ?es" "unat ((i + 1) * v_element_size v) = Suc ?i * ?es"
    using slot_nat [OF assms(1,2), of i] slot_nat [OF assms(1,2), of "i + 1"] i n1 by simp_all
  let ?mid = "bytes_at (?i * ?es) ((?n - ?i) * ?es) bs"
  let ?bs1 = "splice_at (Suc ?i * ?es) ?mid bs"
  let ?bs = "splice_at (?i * ?es) x ?bs1"
  have big: "Suc ?n * ?es \<le> length bs" using i(2) v(3) by (metis Suc_leI mult_le_mono1)
  have sum: "?i * ?es + (?n - ?i) * ?es = ?n * ?es" using i(1) by (metis add_mult_distrib le_add_diff_inverse)
  then have len: "length ?mid = (?n - ?i) * ?es" "Suc ?i * ?es + length ?mid \<le> length bs" using big by simp_all
  have x: "length x = ?es" using load_length [OF assms(5)] .
  have fit: "?i * ?es + length x \<le> length ?bs1" using mul_le_off [of ?i "Suc ?n" ?es] i(1) big x len by simp
  let ?h1 = "h\<lparr> h_data := (h_data h)(b \<mapsto> ?bs1) \<rparr>"
  have ne: "fst e \<noteq> b" using assms(2,6) v(1) by (auto simp: owns_def)
  have e: "load e ?es ?h1 = Some x" using assms(5) ne by (simp add: load_def)
  have c1: "c_memmove (b, Suc ?i * ?es) (b, ?i * ?es) ((?n - ?i) * ?es) h = Some ?h1"
    using v(2) len sum big by (simp add: c_memmove_def)
  have c2: "c_memcpy (b, ?i * ?es) e ?es ?h1 = Some (h\<lparr> h_data := (h_data h)(b \<mapsto> ?bs) \<rparr>)"
    using ne e fit by (simp add: c_memcpy_def c_memmove_def)
  have "open_gap a i e h = Some (h\<lparr> h_data := (h_data h)(b \<mapsto> ?bs), h_struct := (h_struct h)(a \<mapsto> v\<lparr> v_size := v_size v + 1 \<rparr>) \<rparr>)"
    using assms(2) v(1) off m c1 c2 by (simp add: open_gap_def slot_at_def put_struct_def)
  moreover have "slots (Suc ?n) ?es ?bs = take ?i (elems h a) @ x # drop ?i (elems h a)"
    using slots_open [OF i(1) big x] by (simp add: elems_eq [OF assms(2) v(1,2)])
  ultimately show ?thesis
    using that update_in_place [OF assms(1,2) v(1,2) _ n1(2), of ?bs] fit len(2) n1(1) by simp
qed

text \<open>The body of an insertion once the element lies outside the vector.\<close>

lemma insert_from_ok:
  assumes "heap_ok h" "h_struct h a = Some v" "i \<le> v_size v" "load e (unat (v_element_size v)) h = Some x" "\<not> owns h a (fst e)"
    "\<And>t. temp = Some t \<Longrightarrow> t \<in> outside h"
  obtains r h1 h' where "insert_from al a i e temp h = Some (r, h')" "c_free temp h1 = Some h'" "h_log h1 = h_log h"
    "r = 0 \<and> leaves a h h1 (take (unat i) (elems h a) @ x # drop (unat i) (elems h a)) \<or> r = -1 \<and> leaves a h h1 (elems h a) \<and> v_size v = v_capacity v"
proof -
  have free: "\<exists>h2. c_free temp h1 = Some h2" if "leaves a h h1 xs" for h1 xs
    using assms(6) that by (auto simp: c_free_def leaves_def only_def outside_def split: option.split)
  have finish: "\<exists>h2 h3. open_gap a i e h1 = Some h2 \<and> c_free temp h2 = Some h3 \<and> h_log h2 = h_log h \<and>
      leaves a h h2 (take (unat i) (elems h a) @ x # drop (unat i) (elems h a))"
    if l: "leaves a h h1 (elems h a)" and w: "h_struct h1 a = Some w" "v_size w < v_capacity w" "v_size w = v_size v" and lg: "h_log h1 = h_log h" for h1 w
  proof -
    have es: "v_element_size w = v_element_size v" using leaves_struct [OF l assms(2)] w(1) by auto
    have "h_data h1 (fst e) = h_data h (fst e)" using l assms(5) load_SomeD [OF assms(4)] by (auto simp: leaves_def only_def)
    then have ld: "load e (unat (v_element_size w)) h1 = Some x" using assms(4) es by (simp add: load_def)
    have "\<not> owns h1 a (fst e)" using only_not_owns [of h1 a h "fst e"] l assms(5) load_SomeD [OF assms(4)] by (auto simp: leaves_def)
    then obtain h2 where h2: "open_gap a i e h1 = Some h2" "leaves a h1 h2 (take (unat i) (elems h1 a) @ x # drop (unat i) (elems h1 a))" "h_log h2 = h_log h1"
      using open_gap_ok [OF leaves_heap_ok [OF l] w(1,2) _ ld] assms(3) w(3) by metis
    moreover have "elems h1 a = elems h a" using l by (simp add: leaves_def)
    ultimately show ?thesis using free leaves_trans [OF l] lg by metis
  qed
  show ?thesis
  proof (cases "v_size v < v_capacity v")
    case True
    then show ?thesis
      using finish [OF leaves_refl [OF assms(1)] assms(2) True refl refl] that assms(2) by (auto simp: insert_from_def not_le [symmetric])
  next
    case False
    then have full: "v_size v = v_capacity v" using assms(1,2) by (auto elim: heap_okD)
    from assms(1,2) show ?thesis
    proof (cases rule: grow_ok [where al = al])
      case (grows h1)
      obtain b' where v1: "h_struct h1 a = Some (v\<lparr> v_data := Some b', v_capacity := v_capacity v * 2 \<rparr>)" and l: "leaves a h h1 (elems h a)"
        using grows(3) assms(2) by (auto simp: enlarged_def)
      obtain h2 h3 where "open_gap a i e h1 = Some h2" "c_free temp h2 = Some h3" "h_log h2 = h_log h"
        "leaves a h h2 (take (unat i) (elems h a) @ x # drop (unat i) (elems h a))"
        using finish [OF l v1 _ _ grows(2)] full grows(4) by auto
      then show ?thesis using that [of 0 h3 h2] grows(1) full assms(2) by (simp add: insert_from_def)
    next
      case (refused h1)
      then have l: "leaves a h h1 (elems h a)" "h_log h1 = h_log h" using assms(1) by auto
      obtain h2 where "c_free temp h1 = Some h2" using free [OF l(1)] by blast
      then show ?thesis using that [of "-1" h2 h1] refused(1) full assms(2) l by (simp add: insert_from_def)
    qed
  qed
qed

lemma leaves_by_frames:
  assumes "heap_ok h" "frame h h1" "leaves a h1 h2 xs" "frame h2 h3" "outside h3 = outside h"
    "\<And>b. h_data h b \<noteq> None \<Longrightarrow> h_data h1 b = h_data h b" "\<And>b. h_data h b \<noteq> None \<Longrightarrow> h_data h3 b = h_data h2 b"
  shows "leaves a h h3 xs"
proof -
  have "h_struct h1 = h_struct h" "h_struct h3 = h_struct h2" using assms(2,4) by (simp_all add: frame_def)
  moreover have "only a h h3"
    using assms(3,5-7) frame_owns [OF assms(2)] calculation by (simp add: leaves_def only_def)
  moreover have "heap_ok h3" "elems h3 a = xs" using assms(3) frame_heap_ok [OF assms(4)] frame_elems [OF assms(4)] by (simp_all add: leaves_def)
  ultimately show ?thesis using assms(3) by (simp add: leaves_def)
qed

text \<open>The copy of an element that lies in the buffer, taken before the buffer changes.\<close>

lemma copy_aside:
  assumes "heap_ok h" "load e n h = Some x" "al_ok al (h_calls h)"
  obtains h1 h2 where "c_malloc al n h = (Some (h_next h), h1)" "c_memcpy (h_next h, 0) e n h1 = Some h2" "frame h h2"
    "outside h2 = insert (h_next h) (outside h)" "\<forall>b. h_data h b \<noteq> None \<longrightarrow> h_data h2 b = h_data h b \<and> b \<noteq> h_next h"
    "load (h_next h, 0) n h2 = Some x" "h_log h2 = h_log h"
proof -
  let ?t = "h_next h"
  obtain bs h1 where h1: "c_malloc al n h = (Some ?t, h1)" "frame h h1" "h_data h1 = (h_data h)(?t \<mapsto> bs)" "length bs = n"
    "outside h1 = insert ?t (outside h)" "h_log h1 = h_log h" using malloc_frame [OF assms(1,3)] .
  have live: "h_data h b \<noteq> None \<Longrightarrow> b \<noteq> ?t" for b using fresh_not_live(1) [OF assms(1)] by auto
  have ne: "fst e \<noteq> ?t" using live load_SomeD [OF assms(2)] by auto
  then have ld: "load e n h1 = Some x" using assms(2) h1(3) by (simp add: load_def)
  obtain h2 where h2: "store (?t, 0) x h1 = Some h2" "frame h1 h2" "h_data h2 = (h_data h1)(?t \<mapsto> splice_at 0 x bs)" "outside h2 = outside h1"
    "h_log h2 = h_log h1" "load (?t, 0) (length x) h2 = Some x"
    by (rule store_frame [OF frame_heap_ok [OF h1(2) assms(1)], of "(?t, 0)" bs x]) (use h1 load_length [OF ld] in simp_all)
  have "frame h h2" using h1(2) h2(2) frame_owns [OF h1(2)] by (simp add: frame_def)
  moreover have "c_memcpy (?t, 0) e n h1 = Some h2" using ld h2(1) ne by (simp add: c_memcpy_def c_memmove_def)
  ultimately show ?thesis
    using that [OF h1(1)] h1(3,5,6) h2(3,4,5,6) live load_length [OF ld] by simp
qed

lemma insert_aliased:
  assumes "heap_ok h" "h_struct h a = Some v" "i \<le> v_size v" "load e (unat (v_element_size v)) h = Some x"
    "owns h a (fst e)" "v_destructor v = None" "al_ok al (h_calls h)"
  obtains r h' where "vector_insert al (Some a) i (Some e) h = Some (r, h')" "h_log h' = h_log h"
    "r = 0 \<and> leaves a h h' (take (unat i) (elems h a) @ x # drop (unat i) (elems h a)) \<or> r = -1 \<and> leaves a h h' (elems h a)"
proof -
  let ?es = "unat (v_element_size v)" and ?t = "h_next h"
  obtain h1 h2 where h2: "c_malloc al ?es h = (Some ?t, h1)" "c_memcpy (?t, 0) e ?es h1 = Some h2" "frame h h2" "outside h2 = insert ?t (outside h)"
    "\<forall>b. h_data h b \<noteq> None \<longrightarrow> h_data h2 b = h_data h b \<and> b \<noteq> ?t" "load (?t, 0) ?es h2 = Some x" "h_log h2 = h_log h"
    using copy_aside [OF assms(1,4,7)] .
  have s2: "h_struct h2 a = Some v" using h2(3) assms(2) by (simp add: frame_def)
  have no: "\<not> owns h2 a (fst (?t, 0 :: nat))" using frame_owns [OF h2(3)] fresh_not_live(2) [OF assms(1)] by simp
  obtain r h3 h' where r: "insert_from al a i (?t, 0) (Some ?t) h2 = Some (r, h')" "c_free (Some ?t) h3 = Some h'" "h_log h3 = h_log h2"
    "r = 0 \<and> leaves a h2 h3 (take (unat i) (elems h2 a) @ x # drop (unat i) (elems h2 a)) \<or> r = -1 \<and> leaves a h2 h3 (elems h2 a) \<and> v_size v = v_capacity v"
    by (rule insert_from_ok [OF frame_heap_ok [OF h2(3) assms(1)] s2 assms(3) h2(6) no, of "Some ?t" al]) (use h2(4) in simp_all)
  have ok3: "heap_ok h3" "outside h3 = outside h2" using r(4) by (auto simp: leaves_def only_def)
  obtain h4 where h4: "c_free (Some ?t) h3 = Some h4" "frame h3 h4" "h_data h4 = (h_data h3)(?t := None)" "outside h4 = outside h3 - {?t}" "h_log h4 = h_log h3"
    by (rule free_frame [OF ok3(1), of ?t]) (use ok3(2) h2(4) in simp_all)
  have "h' = h4" using h4(1) r(2) by simp
  have "outside h4 = outside h" using h4(4) ok3(2) h2(4,5) by (auto simp: outside_def)
  then have l: "leaves a h2 h3 xs \<Longrightarrow> leaves a h h' xs" for xs
    using leaves_by_frames [OF assms(1) h2(3) _ h4(2)] h2(5) h4(3) \<open>h' = h4\<close> by simp
  have "vector_insert al (Some a) i (Some e) h = Some (r, h')"
    using aliased_iff [OF assms(1,2,4)] assms(2,3,5,6) h2(1,2) r(1) by (simp add: vector_insert_def not_less [symmetric])
  then show ?thesis using that r(3,4) l frame_elems [OF h2(3)] h2(7) h4(5) \<open>h' = h4\<close> by auto
qed

lemma insert_ok:
  assumes "heap_ok h" "h_struct h a = Some v" "i \<le> v_size v" "load e (unat (v_element_size v)) h = Some x"
  obtains (inserted) h' where "vector_insert al (Some a) i (Some e) h = Some (0, h')" "h_log h' = h_log h"
      "leaves a h h' (take (unat i) (elems h a) @ x # drop (unat i) (elems h a))"
    | (refused) h' where "vector_insert al (Some a) i (Some e) h = Some (-1, h')" "h_log h' = h_log h" "leaves a h h' (elems h a)"
      "owns h a (fst e) \<or> v_size v = v_capacity v"
proof -
  let ?es = "unat (v_element_size v)" and ?new = "take (unat i) (elems h a) @ x # drop (unat i) (elems h a)"
  note al = aliased_iff [OF assms(1,2,4)]
  consider "owns h a (fst e)" "v_destructor v \<noteq> None \<or> \<not> al_ok al (h_calls h)"
    | "owns h a (fst e)" "v_destructor v = None" "al_ok al (h_calls h)" | "\<not> owns h a (fst e)" by blast
  then show ?thesis
  proof cases
    case 1
    then show ?thesis
      using that(2) [of "if v_destructor v = None then h\<lparr> h_calls := Suc (h_calls h) \<rparr> else h"] al assms(1-3)
      by (auto simp: vector_insert_def c_malloc_def Let_def not_less [symmetric])
  next
    case 2
    from insert_aliased [OF assms 2] show ?thesis using that 2(1) by metis
  next
    case 3
    obtain r h1 h' where "insert_from al a i e None h = Some (r, h')" "c_free None h1 = Some h'" "h_log h1 = h_log h"
      "r = 0 \<and> leaves a h h1 ?new \<or> r = -1 \<and> leaves a h h1 (elems h a) \<and> v_size v = v_capacity v"
      by (rule insert_from_ok [OF assms 3, of None al]) simp_all
    moreover from this have "vector_insert al (Some a) i (Some e) h = Some (r, h')"
      using 3 al assms(2,3) by (simp add: vector_insert_def not_less [symmetric])
    ultimately show ?thesis using that(1) [of h'] that(2) [of h'] by (auto simp: c_free_def)
  qed
qed

end
