(* ===== verification/Dlibc_Vector_Spec.thy ===== *)
theory Dlibc_Vector_Spec
  imports Dlibc_Vector_Ops "HOL-Library.Multiset"
begin

text \<open>
  Whole vectors (creation, clearing, moving, deep copies, destruction), the contract of a dynamic array with its
  clients, and the properties of \<^verbatim>\<open>include/dlibc/vector.h\<close>.
\<close>

section \<open>Overwriting and clearing\<close>

lemma set_ok:
  assumes "heap_ok h" "h_struct h a = Some v" "i < v_size v" "load e (unat (v_element_size v)) h = Some x"
    "v_destructor v = None \<or> \<not> owns h a (fst e)"
  obtains h' where "vector_set (Some a) i (Some e) h = Some (0, h')" "leaves a h h' ((elems h a)[unat i := x])"
    "h_log h' = h_log h @ (if slot_at v i = Some e then [] else destroyed v [elems h a ! unat i])"
proof -
  let ?es = "unat (v_element_size v)"
  obtain p where p: "slot_at v i = Some p" "load p ?es h = Some (elems h a ! unat i)" "owns h a (fst p)" using load_slot [OF assms(1-3)] .
  note al = aliased_iff [OF assms(1,2,4)]
  show ?thesis
  proof (cases "p = e")
    case True
    then have "(elems h a)[unat i := x] = elems h a" using p(2) assms(4) by (simp add: list_update_id)
    then show ?thesis using that [of h] True p(1) al assms(1-3) by (simp add: vector_set_def not_le [symmetric])
  next
    case False
    obtain b bs where v: "v_data v = Some b" "h_data h b = Some bs" "length bs = unat (v_capacity v) * ?es" "v_size v \<le> v_capacity v"
      using assms(1,2) by (rule heap_okD)
    have i: "unat i < unat (v_size v)" "i \<le> v_capacity v" "unat (v_size v) \<le> unat (v_capacity v)"
      using assms(3) v(4) by (simp_all add: word_less_nat_alt word_le_nat_alt)
    then have pb: "p = (b, unat i * ?es)" using p(1) v(1) slot_nat [OF assms(1,2)] by (simp add: slot_at_def)
    have big: "unat (v_size v) * ?es \<le> length bs" using i(3) v(3) by simp
    let ?l = "h_log h @ destroyed v [elems h a ! unat i]" and ?bs = "splice_at (unat i * ?es) x bs"
    have x: "length x = ?es" using load_length [OF assms(4)] .
    have fit: "unat i * ?es + length x \<le> length bs" using mul_le_off [OF i(1), of ?es] big x by simp
    have "load e ?es (h\<lparr> h_log := ?l \<rparr>) = Some x" using assms(4) by (simp add: load_def)
    then have "c_memmove p e ?es (h\<lparr> h_log := ?l \<rparr>) = Some (h\<lparr> h_data := (h_data h)(b \<mapsto> ?bs), h_log := ?l \<rparr>)"
      using pb v(2) fit by (simp add: c_memmove_def)
    then have "vector_set (Some a) i (Some e) h = Some (0, h\<lparr> h_data := (h_data h)(b \<mapsto> ?bs), h_log := ?l \<rparr>)"
      using assms(2,3,5) al p(1) False run_destructor_ok [OF assms(1-3)] by (auto simp: vector_set_def not_le [symmetric])
    moreover have "leaves a h (h\<lparr> h_data := (h_data h)(b \<mapsto> ?bs) \<rparr>) ((elems h a)[unat i := x])"
    proof -
      have "h\<lparr> h_data := (h_data h)(b \<mapsto> ?bs), h_struct := (h_struct h)(a \<mapsto> v\<lparr> v_size := v_size v \<rparr>) \<rparr> = h\<lparr> h_data := (h_data h)(b \<mapsto> ?bs) \<rparr>"
        by (rule c_heap.equality) (simp_all add: fun_upd_idem [where f = "h_struct h" and x = a, OF assms(2)])
      then show ?thesis
        using update_in_place [OF assms(1,2) v(1,2) _ v(4), of ?bs] fit slots_splice [OF i(1) big x] by (simp add: elems_eq [OF assms(2) v(1,2)])
    qed
    ultimately show ?thesis using that False p(1) by simp
  qed
qed

lemma run_destructors_ok:
  assumes "heap_ok h" "h_struct h a = Some v"
  shows "set is \<subseteq> {0..<unat (v_size v)} \<Longrightarrow>
    run_destructors v is (h\<lparr> h_log := l \<rparr>) = Some (h\<lparr> h_log := l @ destroyed v (map (\<lambda>i. elems h a ! i) is) \<rparr>)"
proof (induction "is" arbitrary: l)
  case (Cons i "is")
  have "i < unat (v_size v)" using Cons.prems by simp
  moreover have "unat (v_size v) < 2 ^ 64" using unsigned_less [of "v_size v"] by simp
  ultimately have i: "unat (of_nat i :: u64) = i" "(of_nat i :: u64) < v_size v"
    using unat_of_nat_64 [of i] by (simp_all add: word_less_nat_alt)
  have r: "run_destructor v (of_nat i) (h\<lparr> h_log := l \<rparr>) = Some (h\<lparr> h_log := l @ destroyed v [elems h a ! i] \<rparr>)"
    using run_destructor_ok [of "h\<lparr> h_log := l \<rparr>" a v "of_nat i"] assms i by simp
  have "run_destructors v is (h\<lparr> h_log := l @ destroyed v [elems h a ! i] \<rparr>) =
      Some (h\<lparr> h_log := (l @ destroyed v [elems h a ! i]) @ destroyed v (map ((!) (elems h a)) is) \<rparr>)"
    using Cons.prems by (intro Cons.IH) simp
  moreover have "destroyed v (elems h a ! i # map ((!) (elems h a)) is) = destroyed v [elems h a ! i] @ destroyed v (map ((!) (elems h a)) is)"
    by (simp add: destroyed_def split: option.split)
  ultimately show ?case by (simp only: run_destructors.simps r Option.bind.bind_lunit list.map append_assoc)
qed simp

lemma run_all_destructors:
  assumes "heap_ok h" "h_struct h a = Some v"
  shows "run_destructors v [0..<unat (v_size v)] h = Some (h\<lparr> h_log := h_log h @ destroyed v (elems h a) \<rparr>)"
proof -
  have "map (\<lambda>i. elems h a ! i) [0..<unat (v_size v)] = elems h a" using map_nth [of "elems h a"] length_elems [OF assms] by simp
  then show ?thesis using run_destructors_ok [OF assms, of "[0..<unat (v_size v)]" "h_log h"] by simp
qed

lemma clear_ok:
  assumes "heap_ok h" "h_struct h a = Some v"
  shows "vector_clear (Some a) h = Some (0, (put_struct a (v\<lparr> v_size := 0 \<rparr>) h)\<lparr> h_log := h_log h @ destroyed v (elems h a) \<rparr>)"
    and "leaves a h (put_struct a (v\<lparr> v_size := 0 \<rparr>) h) []"
  using run_all_destructors [OF assms] assms(2) resize_elems [OF assms, of 0] by (simp_all add: vector_clear_def put_struct_log)

section \<open>Creation and destruction\<close>

lemma destroy_ok:
  assumes "heap_ok h" "h_struct h a = Some v"
  obtains h' where "vector_destroy (Some (Some a)) h = Some (0, Some None, h')" "heap_ok h'" "only a h h'" "h_struct h' a = None"
    "h_log h' = h_log h @ destroyed v (elems h a)" "\<forall>b. owns h a b \<longrightarrow> h_data h' b = None"
proof -
  obtain b bs where v: "v_data v = Some b" "h_data h b = Some bs" using assms by (rule heap_okD)
  let ?h = "h\<lparr> h_data := (h_data h)(b := None), h_struct := (h_struct h)(a := None) \<rparr>" and ?l = "h_log h @ destroyed v (elems h a)"
  have d: "vector_destroy (Some (Some a)) h = Some (0, Some None, ?h\<lparr> h_log := ?l \<rparr>)"
    using run_all_destructors [OF assms] assms(2) v by (simp add: vector_destroy_def c_free_def free_struct_def)
  have nb: "v_data w \<noteq> Some b" if "h_struct h x = Some w" "x \<noteq> a" for x w
    using assms that v(1) unfolding heap_ok_def by metis
  have "vec_ok ?h w" if "h_struct ?h x = Some w" for x w
  proof -
    have x: "h_struct h x = Some w" "x \<noteq> a" using that by (auto split: if_splits)
    then have "buffer ?h w = buffer h w" using nb [OF x] by (cases "v_data w") (auto simp: buffer_def)
    then show ?thesis using x(1) assms(1) vec_ok_frame [of ?h w h] by (auto simp: heap_ok_def)
  qed
  then have "heap_ok ?h" using assms(1) unfolding heap_ok_def by (auto split: if_splits)
  moreover have ow: "owns ?h x c \<longleftrightarrow> x \<noteq> a \<and> owns h x c" for x c by (auto simp: owns_def)
  have "owns h a c \<longleftrightarrow> c = b" for c using assms(2) v(1) by (auto simp: owns_def)
  then have "only a h ?h" unfolding only_def outside_def by (auto simp: ow split: if_splits) metis
  ultimately show ?thesis using that [OF d] v(1) assms(2) by (simp add: owns_def)
qed

lemma add_vector:
  assumes "heap_ok h" "h_struct h a = None" "a < m" "b < m" "h_next h \<le> m" "h_data h b = None" "\<forall>c. \<not> owns h c b" "vec_ok h' v" "v_data v = Some b"
    "h_struct h' = (h_struct h)(a \<mapsto> v)" "h_data h' = (h_data h)(b \<mapsto> bs)" "h_next h' = m"
  shows "heap_ok h'" and "only a h h'"
proof -
  have ow: "owns h' x c \<longleftrightarrow> (if x = a then c = b else owns h x c)" for x c using assms(9,10) by (auto simp: owns_def)
  have na: "\<not> owns h a c" for c using assms(2) by (simp add: owns_def)
  have nb: "v_data w \<noteq> Some b" if "h_struct h x = Some w" for x w using assms(7) that by (auto simp: owns_def)
  have new: "x < m \<and> vec_ok h' w" if "h_struct h' x = Some w" for x w
  proof (cases "x = a")
    case True
    then show ?thesis using that assms(3,8,10) by simp
  next
    case False
    then have x: "h_struct h x = Some w" using that assms(10) by simp
    have "buffer h' w = buffer h w" using nb [OF x] assms(11) by (cases "v_data w") (auto simp: buffer_def)
    moreover have "x < h_next h" "vec_ok h w" using x assms(1) by (simp_all add: heap_ok_def)
    ultimately show ?thesis using assms(5) vec_ok_frame [of h' w h] by simp
  qed
  have "c < h_next h" if "h_data h c = Some cs" for c cs using assms(1) that by (simp add: heap_ok_def)
  then have live: "c < m" if "h_data h' c = Some cs" for c cs
    using that assms(4,5,11) by (cases "c = b") (auto dest: order_less_le_trans)
  have uniq: "x = y" if "h_struct h' x = Some w" "h_struct h' y = Some u" "v_data w = v_data u" for x y w u
  proof (cases "x = a \<or> y = a")
    case True
    then show ?thesis using that assms(9,10) nb [of x w] nb [of y u] by (auto split: if_splits)
  next
    case False
    then have "h_struct h x = Some w" "h_struct h y = Some u" using that(1,2) assms(10) by simp_all
    then show ?thesis using assms(1) that(3) unfolding heap_ok_def by metis
  qed
  show "heap_ok h'" unfolding heap_ok_def assms(12) using new live uniq by metis
  have "c \<in> outside h' \<longleftrightarrow> c \<in> outside h" for c
    using assms(6,11) na by (cases "c = b") (auto simp: outside_def ow, metis)
  then have "outside h' = outside h" by blast
  then show "only a h h'" using assms(6,10,11) by (auto simp: only_def)
qed

lemma heap_ok_unused: "heap_ok h \<Longrightarrow> h_struct h (h_next h) = None"
  by (cases "h_struct h (h_next h)") (auto simp: heap_ok_def)

lemma make_struct_ok:
  assumes "heap_ok h" "v_size v = 0" "v_capacity v = 10" "v_data v = None" "v_element_size v \<noteq> 0" "\<not> UINT64_MAX div v_element_size v < 10"
  obtains (created) h' b where "make_struct al v h = Some (Some (h_next h), h')" "heap_ok h'" "only (h_next h) h h'"
      "elems h' (h_next h) = []" "h_log h' = h_log h" "h_struct h' (h_next h) = Some (v\<lparr> v_data := Some b \<rparr>)"
    | (refused) h' where "make_struct al v h = Some (None, h')" "frame h h'" "h_data h' = h_data h" "h_log h' = h_log h"
      "\<not> al_ok al (h_calls h) \<or> \<not> al_ok al (Suc (h_calls h))"
proof -
  let ?a = "h_next h" and ?es = "v_element_size v"
  have live: "\<And>b bs. h_data h b = Some bs \<Longrightarrow> b < h_next h" "h_struct h ?a = None" using assms(1) heap_ok_unused [OF assms(1)] by (auto simp: heap_ok_def)
  consider "\<not> al_ok al (h_calls h)" | "al_ok al (h_calls h)" "\<not> al_ok al (Suc (h_calls h))" | "al_ok al (h_calls h)" "al_ok al (Suc (h_calls h))" by blast
  then show ?thesis
  proof cases
    case 1
    moreover have "make_struct al v h = Some (None, h\<lparr> h_calls := Suc (h_calls h) \<rparr>)" using 1 by (simp add: make_struct_def new_struct_def Let_def)
    moreover have "frame h (h\<lparr> h_calls := Suc (h_calls h) \<rparr>)" using live(1) by (auto simp: frame_def)
    ultimately show ?thesis using refused by simp
  next
    case 2
    have "(h_struct h)(?a := None) = h_struct h" using live(2) by (simp add: fun_upd_idem)
    then have "make_struct al v h = Some (None, h\<lparr> h_calls := Suc (Suc (h_calls h)), h_next := Suc ?a \<rparr>)"
      using 2 by (simp add: make_struct_def new_struct_def c_malloc_def free_struct_def Let_def)
    moreover have "frame h (h\<lparr> h_calls := Suc (Suc (h_calls h)), h_next := Suc ?a \<rparr>)" using live(1) by (auto simp: frame_def intro: less_SucI)
    ultimately show ?thesis using refused 2(2) by simp
  next
    case 3
    let ?bs = "map (al_junk al (Suc (h_calls h))) [0..<unat (10 * ?es)]" and ?w = "v\<lparr> v_data := Some (Suc ?a) \<rparr>"
    let ?h = "h\<lparr> h_struct := (h_struct h)(?a \<mapsto> ?w), h_data := (h_data h)(Suc ?a \<mapsto> ?bs), h_next := Suc (Suc ?a), h_calls := Suc (Suc (h_calls h)) \<rparr>"
    have c: "make_struct al v h = Some (Some ?a, ?h)"
      using 3 assms(3) by (simp add: make_struct_def new_struct_def c_malloc_def put_struct_def Let_def)
    have n: "10 * unat ?es < 2 ^ 64" using assms(5,6) le_div_word [of 10 ?es] by (auto simp: not_less)
    then have "unat (10 * ?es) = 10 * unat ?es" using unat_mult_lem [of 10 ?es] by simp
    then have "vec_ok ?h ?w" using assms n by (simp add: vec_ok_def)
    moreover have "h_data h (Suc ?a) = None" using live(1) [of "Suc ?a"] by (cases "h_data h (Suc ?a)") auto
    moreover have "\<forall>c. \<not> owns h c (Suc ?a)" using owns_live [OF assms(1), of _ "Suc ?a"] by auto
    ultimately have "heap_ok ?h" "only ?a h ?h"
      using add_vector [OF assms(1) live(2), of "Suc (Suc ?a)" "Suc ?a" ?h ?w ?bs] by simp_all
    then show ?thesis using created [OF c] assms(2) by (simp add: elems_eq slots_def)
  qed
qed

lemma create_ok:
  assumes "heap_ok h"
  obtains (created) h' where "vector_create al es h = Some (Some (h_next h), h')" "heap_ok h'" "only (h_next h) h h'"
      "elems h' (h_next h) = []" "h_struct h (h_next h) = None" "h_log h' = h_log h"
      "\<exists>b. h_struct h' (h_next h) = Some \<lparr> v_size = 0, v_capacity = 10, v_element_size = es, v_data = Some b, v_destructor = None \<rparr>"
    | (refused) h' where "vector_create al es h = Some (None, h')" "frame h h'" "h_data h' = h_data h" "h_log h' = h_log h"
      "es = 0 \<or> UINT64_MAX div es < 10 \<or> \<not> al_ok al (h_calls h) \<or> \<not> al_ok al (Suc (h_calls h))"
proof (cases "es = 0 \<or> UINT64_MAX div es < 10")
  case True
  moreover have "frame h h" using assms by (auto simp: frame_def heap_ok_def)
  ultimately show ?thesis using refused [of h] by (auto simp: vector_create_def VECTOR_INITIAL_CAPACITY_def)
next
  case False
  let ?v = "\<lparr> v_size = 0, v_capacity = 10, v_element_size = es, v_data = None, v_destructor = None \<rparr> :: vector_t"
  have c: "vector_create al es h = make_struct al ?v h" using False by (simp add: vector_create_def VECTOR_INITIAL_CAPACITY_def)
  show ?thesis
  proof (rule make_struct_ok [OF assms, of ?v al])
    fix h' b assume "make_struct al ?v h = Some (Some (h_next h), h')" "heap_ok h'" "only (h_next h) h h'" "elems h' (h_next h) = []"
      "h_log h' = h_log h" "h_struct h' (h_next h) = Some (?v\<lparr> v_data := Some b \<rparr>)"
    then show ?thesis using created [of h'] c heap_ok_unused [OF assms] by simp
  qed (use False c refused in simp_all)
qed

section \<open>Moving and copying\<close>

lemma heap_ok_uniq: "heap_ok h \<Longrightarrow> h_struct h a = Some v \<Longrightarrow> h_struct h c = Some w \<Longrightarrow> v_data v = v_data w \<Longrightarrow> a = c"
  unfolding heap_ok_def by blast

lemma move_ok:
  assumes "heap_ok h" "h_struct h d = Some dv" "h_struct h s = Some sv" "d \<noteq> s"
  obtains h' where "vector_move (Some d) (Some (Some s)) h = Some (0, Some None, h')" "heap_ok h'" "elems h' d = elems h s"
    "h_struct h' d = Some sv" "h_struct h' s = None" "\<forall>c. c \<noteq> d \<longrightarrow> c \<noteq> s \<longrightarrow> elems h' c = elems h c" "outside h' = outside h"
    "h_log h' = h_log h @ destroyed dv (elems h d)"
proof -
  obtain b bs where dd: "v_data dv = Some b" "h_data h b = Some bs" using assms(1,2) by (rule heap_okD)
  obtain b' bs' where ss: "v_data sv = Some b'" "h_data h b' = Some bs'" using assms(1,3) by (rule heap_okD)
  have nb: "v_data w \<noteq> Some b" if "h_struct h x = Some w" "x \<noteq> d" for x w using heap_ok_uniq [OF assms(1) that(1) assms(2)] that(2) dd(1) by auto
  then have ne: "b' \<noteq> b" using assms(3,4) ss(1) by auto
  define h' where "h' = h\<lparr> h_data := (h_data h)(b := None), h_struct := (h_struct h)(d \<mapsto> sv, s := None), h_log := h_log h @ destroyed dv (elems h d) \<rparr>"
  have m: "vector_move (Some d) (Some (Some s)) h = Some (0, Some None, h')"
    using assms clear_ok(1) [OF assms(1,2)] dd ss ne
    by (simp add: vector_move_def c_free_def free_struct_def put_struct_def Let_def h'_def fun_upd_twist)
  have st: "h_struct h' x = Some w \<Longrightarrow> \<exists>y. h_struct h y = Some w \<and> y \<noteq> d \<and> (x = d \<and> y = s \<or> x = y \<and> x \<noteq> s)" for x w
    using assms(3,4) by (auto simp: h'_def split: if_splits)
  have buf: "buffer h' w = buffer h w" if "h_struct h x = Some w" "x \<noteq> d" for x w
    using nb [OF that] by (cases "v_data w") (auto simp: buffer_def h'_def)
  have "heap_ok h'" unfolding heap_ok_def
  proof (intro conjI allI impI)
    fix x w assume "h_struct h' x = Some w"
    then obtain y where y: "h_struct h y = Some w" "y \<noteq> d" "x = d \<or> x = y" using st by blast
    show "x < h_next h'" using y assms(1,2) by (auto simp: heap_ok_def h'_def)
    show "vec_ok h' w" using y(1) assms(1) vec_ok_frame [OF buf [OF y(1,2)]] by (simp add: heap_ok_def)
  next
    fix x y w u assume a: "h_struct h' x = Some w" "h_struct h' y = Some u" "v_data w = v_data u"
    obtain x' y' where "h_struct h x' = Some w" "x = d \<and> x' = s \<or> x = x' \<and> x \<noteq> s \<and> x' \<noteq> d" "h_struct h y' = Some u" "y = d \<and> y' = s \<or> y = y' \<and> y \<noteq> s \<and> y' \<noteq> d"
      using st [OF a(1)] st [OF a(2)] by blast
    moreover from this have "x' = y'" using heap_ok_uniq [OF assms(1) _ _ a(3)] by blast
    ultimately show "x = y" by auto
  qed (use assms(1) in \<open>auto simp: heap_ok_def h'_def split: if_splits\<close>)
  moreover have "elems h' d = elems h s" using assms(3) buf [OF assms(3)] assms(4) by (simp add: elems_def h'_def [symmetric]) (simp add: h'_def)
  moreover have "elems h' c = elems h c" if "c \<noteq> d" "c \<noteq> s" for c
    using that buf [of c] by (cases "h_struct h c") (simp_all add: elems_def, simp_all add: h'_def)
  moreover have "outside h' = outside h"
  proof -
    have "owns h' x c \<longleftrightarrow> (if x = d then owns h s c else x \<noteq> s \<and> owns h x c)" for x c using assms(3,4) by (auto simp: owns_def h'_def)
    moreover have od: "owns h d c \<longleftrightarrow> c = b" for c using assms(2) dd(1) by (auto simp: owns_def)
    ultimately have "(\<forall>x. \<not> owns h' x c) \<longleftrightarrow> (\<forall>x. \<not> owns h x c)" if "c \<noteq> b" for c using that assms(4) by (metis (full_types))
    moreover have "h_data h' c = (if c = b then None else h_data h c)" for c by (simp add: h'_def)
    ultimately have "c \<in> outside h' \<longleftrightarrow> c \<in> outside h" for c using od [of b] by (cases "c = b") (auto simp: outside_def)
    then show ?thesis by blast
  qed
  ultimately show ?thesis using that [OF m] assms(4) by (simp add: h'_def)
qed

lemma slots_copied:
  assumes "n * sz \<le> length src" "n * sz \<le> length dst"
  shows "slots n sz (splice_at 0 (bytes_at 0 (n * sz) src) dst) = slots n sz src"
proof (rule slots_cong)
  fix i assume "i < n"
  note le = mul_le_off [OF this, of sz]
  show "bytes_at (i * sz) sz (splice_at 0 (bytes_at 0 (n * sz) src) dst) = bytes_at (i * sz) sz src"
    using bytes_at_inside [of 0 "i * sz" sz "bytes_at 0 (n * sz) src" dst] bytes_at_nested [OF le, of 0 src] le assms(1) by simp
qed

lemma copy_bytes_ok:
  assumes "heap_ok h" "h_struct h n = Some w" "h_struct h a = Some v" "n \<noteq> a" "v_size w = 0" "v_element_size w = v_element_size v" "v_size v \<le> v_capacity w"
  obtains h' where "copy_bytes n v h = Some h'" "leaves n h h' (elems h a)" "h_log h' = h_log h"
proof (cases "v_size v > 0")
  case True
  let ?es = "unat (v_element_size v)" and ?k = "unat (v_size v)"
  obtain b bs where v: "v_data v = Some b" "h_data h b = Some bs" "length bs = unat (v_capacity v) * ?es" "v_size v \<le> v_capacity v" using assms(1,3) by (rule heap_okD)
  obtain c cs where w: "v_data w = Some c" "h_data h c = Some cs" "length cs = unat (v_capacity w) * ?es" using assms(1,2) assms(6) by (metis heap_okD)
  have ne: "c \<noteq> b" using heap_ok_uniq [OF assms(1-3)] assms(4) v(1) w(1) by auto
  have k: "?k * ?es \<le> length bs" "?k * ?es \<le> length cs" using v(3,4) w(3) assms(7) by (simp_all add: word_le_nat_alt)
  have off: "unat (v_size v * v_element_size v) = ?k * ?es" using slot_nat [OF assms(1,3) v(4)] .
  let ?cs = "splice_at 0 (bytes_at 0 (?k * ?es) bs) cs"
  let ?h = "h\<lparr> h_data := (h_data h)(c \<mapsto> ?cs), h_struct := (h_struct h)(n \<mapsto> w\<lparr> v_size := v_size v \<rparr>) \<rparr>"
  have "copy_bytes n v h = Some ?h"
    using True assms(2) v(1,2) w(1,2) ne off k by (simp add: copy_bytes_def c_memcpy_def c_memmove_def put_struct_def)
  moreover have "leaves n h ?h (slots ?k ?es ?cs)"
    using update_in_place [OF assms(1,2) w(1,2) _ assms(7), of ?cs] k assms(6) by simp
  ultimately show ?thesis using that [of ?h] slots_copied [OF k] by (simp add: elems_eq [OF assms(3) v(1,2)])
next
  case False
  then have "v_size v = 0" by (simp add: word_gt_0)
  then have "elems h a = elems h n" using length_elems [OF assms(1,2)] length_elems [OF assms(1,3)] assms(5) by simp
  then show ?thesis using that [of h] False assms(1) by (simp add: copy_bytes_def)
qed

lemma reserve_ok:
  assumes "heap_ok h" "h_struct h a = Some v"
  obtains (reserved) h' w where "vector_reserve al (Some a) c h = Some (0, h')" "leaves a h h' (elems h a)" "h_log h' = h_log h"
      "h_struct h' a = Some w" "v_size w = v_size v" "c \<le> v_capacity w" "v_element_size w = v_element_size v"
    | (refused) h' where "vector_reserve al (Some a) c h = Some (-1, h')" "h' = h \<or> h' = h\<lparr> h_calls := Suc (h_calls h) \<rparr>"
      "c > UINT64_MAX div v_element_size v \<or> \<not> al_ok al (h_calls h)"
proof -
  have es: "v_element_size v \<noteq> 0" "v_size v \<le> v_capacity v" "v_capacity v \<noteq> 0" using assms by (auto elim: heap_okD)
  show ?thesis
  proof (cases "c \<le> v_capacity v")
    case True
    then show ?thesis using reserved [of h v] assms es by (simp add: vector_reserve_def)
  next
    case False
    then have sz: "v_size v \<le> c" "c \<noteq> 0" using es(2,3) by auto
    have r: "vector_reserve al (Some a) c h = resize_to al a c h" using False es(1) assms(2) by (simp add: vector_reserve_def)
    from assms sz show ?thesis
    proof (cases rule: resize_to_ok [where al = al])
      case (grows h')
      obtain w where w: "h_struct h' a = Some w" "v_capacity w = c" "v_element_size w = v_element_size v"
        using grows(3,4) leaves_struct [OF grows(3) assms(2)] by auto
      have "unat (v_size w) = unat (v_size v)"
        using length_elems [OF leaves_heap_ok [OF grows(3)] w(1)] length_elems [OF assms] grows(3) by (simp add: leaves_def)
      then show ?thesis using reserved [of h' w] grows(1-3) w r by (simp add: word_unat_eq_iff)
    next
      case (refused h')
      then show ?thesis using that(2) [of h'] r by simp
    qed
  qed
qed

lemma only_struct: "only n h h' \<Longrightarrow> c \<noteq> n \<Longrightarrow> h_struct h' c = h_struct h c"
  by (simp add: only_def)

lemma deep_copy_ok:
  assumes "heap_ok h" "h_struct h a = Some v" "v_destructor v = None"
  obtains (copied) h' n where "vector_deep_copy al (Some a) h = Some (Some n, h')" "heap_ok h'" "only n h h'" "h_struct h n = None"
      "elems h' n = elems h a" "h_log h' = h_log h"
    | (refused) h' where "vector_deep_copy al (Some a) h = Some (None, h')" "heap_ok h'" "h_log h' = h_log h" "\<forall>c. elems h' c = elems h c" "outside h' = outside h"
proof -
  let ?n = "h_next h" and ?es = "v_element_size v"
  have na: "?n \<noteq> a" "a \<noteq> ?n" using heap_ok_unused [OF assms(1)] assms(2) by auto
  from assms(1) show ?thesis
  proof (cases rule: create_ok [where al = al and es = ?es])
    case (refused h1)
    then have "owns h1 = owns h" "heap_ok h1" "elems h1 = elems h"
      using frame_owns frame_elems frame_heap_ok [OF refused(2) assms(1)] by blast+
    then show ?thesis using that(2) [of h1] refused assms(2,3) by (simp add: vector_deep_copy_def outside_def)
  next
    case (created h1)
    then obtain b where w: "h_struct h1 ?n = Some \<lparr> v_size = 0, v_capacity = 10, v_element_size = ?es, v_data = Some b, v_destructor = None \<rparr>" by blast
    from created(2) w show ?thesis
    proof (cases rule: reserve_ok [where al = al and c = "v_capacity v"])
      case (reserved h2 u)
      have o2: "only ?n h h2" using only_trans [OF created(2,3)] reserved(2) by (simp add: leaves_def)
      then have v2: "h_struct h2 a = Some v" using only_struct [OF o2 na(2)] assms(2) by simp
      have "v_size v \<le> v_capacity u" using assms(1,2) reserved(6) by (auto elim: heap_okD)
      then obtain h3 where h3: "copy_bytes ?n v h2 = Some h3" "leaves ?n h2 h3 (elems h2 a)" "h_log h3 = h_log h2"
        using copy_bytes_ok [OF leaves_heap_ok [OF reserved(2)] reserved(4) v2 na(1)] reserved(5,7) by auto
      have "elems h2 a = elems h a" using only_elems [OF assms(1) o2 na(2)] .
      moreover have "only ?n h h3" using only_trans [OF leaves_heap_ok [OF reserved(2)] o2] h3(2) by (simp add: leaves_def)
      moreover have "vector_deep_copy al (Some a) h = Some (Some ?n, h3)"
        using assms(2,3) created(1) reserved(1) h3(1) by (simp add: vector_deep_copy_def)
      ultimately show ?thesis using that(1) h3 created(5,6) reserved(3) by (simp add: leaves_def)
    next
      case (refused h2)
      then have ok2: "heap_ok h2" "h_struct h2 = h_struct h1" "only ?n h h2" "elems h2 = elems h1" "h_log h2 = h_log h1"
        using created(2,3) by (auto simp: fun_eq_iff)
      obtain h3 where h3: "vector_destroy (Some (Some ?n)) h2 = Some (0, Some None, h3)" "heap_ok h3" "only ?n h2 h3" "h_struct h3 ?n = None"
        "h_log h3 = h_log h2 @ destroyed \<lparr> v_size = 0, v_capacity = 10, v_element_size = ?es, v_data = Some b, v_destructor = None \<rparr> (elems h2 ?n)"
        using destroy_ok [OF ok2(1)] w ok2(2) by metis
      have o3: "only ?n h h3" using only_trans [OF ok2(1,3) h3(3)] .
      have "elems h3 c = elems h c" for c
        using only_elems [OF assms(1) o3] h3(4) created(5) by (cases "c = ?n") (simp_all add: elems_def)
      moreover have "vector_deep_copy al (Some a) h = Some (None, h3)"
        using assms(2,3) created(1) refused(1) h3(1) by (simp add: vector_deep_copy_def)
      ultimately show ?thesis using that(2) [of h3] h3(2,5) o3 ok2(5) created(6) by (simp add: only_def destroyed_def)
    qed
  qed
qed

lemma prune_ok:
  assumes "heap_ok h" "h_struct h a = Some v"
  obtains r h' where "vector_prune al (Some a) h = Some (r, h')" "r = 0 \<or> r = -1" "leaves a h h' (elems h a)" "h_log h' = h_log h"
proof -
  have es: "v_element_size v \<noteq> 0" using assms by (auto elim: heap_okD)
  show ?thesis
  proof (cases "v_size v < v_capacity v")
    case True
    let ?c = "if v_size v > 0 then v_size v else 1"
    have p: "vector_prune al (Some a) h = resize_to al a ?c h" using True es assms(2) by (simp add: vector_prune_def)
    have c: "v_size v \<le> ?c" "?c \<noteq> 0" by (auto simp: word_gt_0)
    from assms c show ?thesis
      by (cases rule: resize_to_ok [where al = al]) (use that p assms(1) in auto)
  next
    case False
    then show ?thesis using that [of 0 h] es assms by (simp add: vector_prune_def)
  qed
qed

section \<open>Sequences of operations\<close>

datatype vec_op = Push_Back ptr | Pop_Back | Pop_At u64 | Insert u64 ptr | Set_At u64 ptr | Clear | Reserve u64 | Prune

fun vec_do :: "allocator \<Rightarrow> nat \<Rightarrow> vec_op \<Rightarrow> 'e vheap \<Rightarrow> (int \<times> 'e vheap) option" where
  "vec_do al a (Push_Back p) h = vector_push_back al (Some a) (Some p) h"
| "vec_do al a Pop_Back h = vector_pop_back (Some a) h"
| "vec_do al a (Pop_At i) h = vector_pop_at (Some a) i h"
| "vec_do al a (Insert i p) h = vector_insert al (Some a) i (Some p) h"
| "vec_do al a (Set_At i p) h = vector_set (Some a) i (Some p) h"
| "vec_do al a Clear h = vector_clear (Some a) h"
| "vec_do al a (Reserve c) h = vector_reserve al (Some a) c h"
| "vec_do al a Prune h = vector_prune al (Some a) h"

fun vec_run :: "allocator \<Rightarrow> nat \<Rightarrow> vec_op list \<Rightarrow> 'e vheap \<Rightarrow> (int list \<times> 'e vheap) option" where
  "vec_run al a [] h = Some ([], h)"
| "vec_run al a (op # ops) h = do { (r, h1) \<leftarrow> vec_do al a op h; (rs, h2) \<leftarrow> vec_run al a ops h1; Some (r # rs, h2) }"

text \<open>
  The specification over lists: what an operation with return code \<open>r\<close> may make of \<open>xs\<close>, and the elements that
  leave. Only growing may fail on a valid argument.
\<close>

fun list_step :: "(ptr \<Rightarrow> byte list) \<Rightarrow> vec_op \<Rightarrow> int \<Rightarrow> byte list list \<Rightarrow> byte list list \<Rightarrow> byte list list \<Rightarrow> bool" where
  "list_step val (Push_Back p) r xs ys gone = (gone = [] \<and> (r = 0 \<and> ys = xs @ [val p] \<or> r = -1 \<and> ys = xs))"
| "list_step val Pop_Back r xs ys gone =
     (if xs = [] then r = -1 \<and> ys = xs \<and> gone = [] else r = 0 \<and> ys = butlast xs \<and> gone = [last xs])"
| "list_step val (Pop_At i) r xs ys gone =
     (if unat i < length xs then r = 0 \<and> ys = take (unat i) xs @ drop (Suc (unat i)) xs \<and> gone = [xs ! unat i] else r = -1 \<and> ys = xs \<and> gone = [])"
| "list_step val (Insert i p) r xs ys gone =
     (gone = [] \<and> (r = 0 \<and> unat i \<le> length xs \<and> ys = take (unat i) xs @ val p # drop (unat i) xs \<or> r = -1 \<and> ys = xs))"
| "list_step val (Set_At i p) r xs ys gone =
     (if unat i < length xs then r = 0 \<and> ys = xs[unat i := val p] \<and> gone = [xs ! unat i] else r = -1 \<and> ys = xs \<and> gone = [])"
| "list_step val Clear r xs ys gone = (r = 0 \<and> ys = [] \<and> gone = xs)"
| "list_step val (Reserve c) r xs ys gone = ((r = 0 \<or> r = -1) \<and> ys = xs \<and> gone = [])"
| "list_step val Prune r xs ys gone = ((r = 0 \<or> r = -1) \<and> ys = xs \<and> gone = [])"

inductive list_run :: "(ptr \<Rightarrow> byte list) \<Rightarrow> vec_op list \<Rightarrow> int list \<Rightarrow> byte list list \<Rightarrow> byte list list \<Rightarrow> byte list list \<Rightarrow> bool"
  for val where
  list_run_done: "list_run val [] [] xs xs []"
| list_run_step: "list_step val op r xs ys gone \<Longrightarrow> list_run val ops rs ys zs gone' \<Longrightarrow> list_run val (op # ops) (r # rs) xs zs (gone @ gone')"

fun op_ptrs :: "vec_op \<Rightarrow> ptr list" where
  "op_ptrs (Push_Back p) = [p]"
| "op_ptrs (Insert i p) = [p]"
| "op_ptrs (Set_At i p) = [p]"
| "op_ptrs op = []"

text \<open>A pointer of the caller to an element for the vector \<open>a\<close>.\<close>

definition caller_value :: "nat \<Rightarrow> 'e vheap \<Rightarrow> ptr \<Rightarrow> byte list option" where
  "caller_value a h p = do { v \<leftarrow> h_struct h a; if fst p \<in> outside h then load p (unat (v_element_size v)) h else None }"

lemma caller_valueD:
  assumes "caller_value a h p = Some x" "h_struct h a = Some v"
  shows "load p (unat (v_element_size v)) h = Some x" "\<not> owns h c (fst p)"
  using assms by (auto simp: caller_value_def outside_def split: if_splits)

lemma leaves_caller: "leaves a h h' xs \<Longrightarrow> h_struct h a = Some v \<Longrightarrow> caller_value a h' p = caller_value a h p"
proof -
  assume l: "leaves a h h' xs" and v: "h_struct h a = Some v"
  obtain v' where v': "h_struct h' a = Some v'" "v_element_size v' = v_element_size v" using leaves_struct [OF l v] by blast
  have "h_data h' (fst p) = h_data h (fst p)" if "fst p \<in> outside h" using l that by (auto simp: leaves_def only_def outside_def)
  moreover have "outside h' = outside h" using l by (simp add: leaves_def only_def)
  ultimately show ?thesis using v v' by (simp add: caller_value_def load_def)
qed

text \<open>One operation on the heap does what the specification allows, and calls the destructor on what leaves.\<close>

definition simulates :: "allocator \<Rightarrow> nat \<Rightarrow> (ptr \<Rightarrow> byte list) \<Rightarrow> vec_op \<Rightarrow> 'e vector_t_scheme \<Rightarrow> 'e vheap \<Rightarrow> bool" where
  "simulates al a val op v h \<longleftrightarrow> (\<exists>r ys gone h'. vec_do al a op h = Some (r, h') \<and> leaves a h h' ys \<and>
     list_step val op r (elems h a) ys gone \<and> h_log h' = h_log h @ destroyed v gone)"

lemma simulatesI: "vec_do al a op h = Some (r, h') \<Longrightarrow> leaves a h h' ys \<Longrightarrow> list_step val op r (elems h a) ys gone \<Longrightarrow>
    h_log h' = h_log h @ destroyed v gone \<Longrightarrow> simulates al a val op v h"
  unfolding simulates_def by blast

lemma simulates_refused: "vec_do al a op h = Some (r, h') \<Longrightarrow> heap_ok h \<Longrightarrow> h' = h \<or> h' = h\<lparr> h_calls := Suc (h_calls h) \<rparr> \<Longrightarrow>
    list_step val op r (elems h a) (elems h a) [] \<Longrightarrow> simulates al a val op v h"
  by (rule simulatesI) auto

lemma index_iff: "heap_ok h \<Longrightarrow> h_struct h a = Some v \<Longrightarrow> unat i < length (elems h a) \<longleftrightarrow> i < v_size v"
  "heap_ok h \<Longrightarrow> h_struct h a = Some v \<Longrightarrow> unat i \<le> length (elems h a) \<longleftrightarrow> i \<le> v_size v"
  by (simp_all add: length_elems word_less_nat_alt word_le_nat_alt)

lemma push_back_simulates:
  assumes "heap_ok h" "h_struct h a = Some v" "caller_value a h p = Some (val p)"
  shows "simulates al a val (Push_Back p) v h"
  using assms(1,2) caller_valueD(1) [OF assms(3,2)]
proof (cases rule: push_back_ok [where al = al])
  case (pushed h')
  then show ?thesis by (intro simulatesI [where r = 0 and h' = h' and gone = "[]"]) simp_all
next
  case (refused h')
  then show ?thesis by (intro simulates_refused [where r = "-1", OF _ assms(1)]) simp_all
qed

lemma pop_back_simulates:
  assumes "heap_ok h" "h_struct h a = Some v"
  shows "simulates al a val Pop_Back v h"
proof (cases "v_size v = 0")
  case True
  then have "elems h a = []" using length_elems [OF assms] by simp
  then show ?thesis using True assms by (intro simulates_refused [where r = "-1" and h' = h]) (simp_all add: vector_pop_back_def)
next
  case False
  then have "elems h a \<noteq> []" using length_elems [OF assms] by (auto simp: unat_eq_0)
  moreover obtain h' where "vector_pop_back (Some a) h = Some (0, h')" "leaves a h h' (butlast (elems h a))"
    "h_log h' = h_log h @ destroyed v [last (elems h a)]" using pop_back_ok [OF assms False] .
  ultimately show ?thesis by (intro simulatesI [where r = 0 and h' = h']) simp_all
qed

lemma pop_at_simulates:
  assumes "heap_ok h" "h_struct h a = Some v"
  shows "simulates al a val (Pop_At i) v h"
proof (cases "i < v_size v")
  case True
  obtain h' where "vector_pop_at (Some a) i h = Some (0, h')" "leaves a h h' (vec_pop_at (elems h a) (unat i))"
    "h_log h' = h_log h @ destroyed v [elems h a ! unat i]" using pop_at_ok [OF assms True] .
  then show ?thesis using True index_iff(1) [OF assms] by (intro simulatesI [where r = 0 and h' = h']) (simp_all add: vec_pop_at_def)
next
  case False
  then show ?thesis using assms index_iff(1) [OF assms] by (intro simulates_refused [where r = "-1" and h' = h]) (simp_all add: vector_pop_at_def not_less not_le)
qed

lemma insert_simulates:
  assumes "heap_ok h" "h_struct h a = Some v" "caller_value a h p = Some (val p)"
  shows "simulates al a val (Insert i p) v h"
proof (cases "i \<le> v_size v")
  case True
  from assms(1,2) True caller_valueD(1) [OF assms(3,2)] show ?thesis
  proof (cases rule: insert_ok [where al = al])
    case (inserted h')
    then show ?thesis using True index_iff(2) [OF assms(1,2)] by (intro simulatesI [where r = 0 and h' = h' and gone = "[]"]) simp_all
  next
    case (refused h')
    then show ?thesis by (intro simulatesI [where r = "-1" and h' = h' and gone = "[]"]) simp_all
  qed
next
  case False
  then show ?thesis using assms(1,2) by (intro simulates_refused [where r = "-1" and h' = h]) (simp_all add: vector_insert_def not_less not_le)
qed

lemma set_simulates:
  assumes "heap_ok h" "h_struct h a = Some v" "caller_value a h p = Some (val p)"
  shows "simulates al a val (Set_At i p) v h"
proof (cases "i < v_size v")
  case True
  note p = caller_valueD [OF assms(3,2)]
  obtain q where "slot_at v i = Some q" "owns h a (fst q)" using load_slot [OF assms(1,2) True] by metis
  then have "slot_at v i \<noteq> Some p" using p(2) by auto
  moreover obtain h' where "vector_set (Some a) i (Some p) h = Some (0, h')" "leaves a h h' ((elems h a)[unat i := val p])"
    "h_log h' = h_log h @ (if slot_at v i = Some p then [] else destroyed v [elems h a ! unat i])"
    using set_ok [OF assms(1,2) True p(1)] p(2) by metis
  ultimately show ?thesis using True index_iff(1) [OF assms(1,2)] by (intro simulatesI [where r = 0 and h' = h']) simp_all
next
  case False
  then show ?thesis using assms index_iff(1) [OF assms(1,2)] by (intro simulates_refused [where r = "-1" and h' = h]) (simp_all add: vector_set_def not_less not_le)
qed

lemma resize_simulates:
  assumes "heap_ok h" "h_struct h a = Some v"
  shows "simulates al a val (Reserve c) v h" and "simulates al a val Prune v h" and "simulates al a val Clear v h"
proof -
  from assms show "simulates al a val (Reserve c) v h"
  proof (cases rule: reserve_ok [where al = al and c = c])
    case (reserved h' w)
    then show ?thesis by (intro simulatesI [where r = 0 and h' = h' and gone = "[]"]) simp_all
  next
    case (refused h')
    then show ?thesis by (intro simulates_refused [where r = "-1", OF _ assms(1)]) simp_all
  qed
  obtain r h' where "vector_prune al (Some a) h = Some (r, h')" "r = 0 \<or> r = -1" "leaves a h h' (elems h a)" "h_log h' = h_log h"
    using prune_ok [OF assms] .
  then show "simulates al a val Prune v h" by (intro simulatesI [where r = r and h' = h' and gone = "[]"]) simp_all
  show "simulates al a val Clear v h"
    using clear_ok [OF assms] by (intro simulatesI [where r = 0 and ys = "[]" and gone = "elems h a"
        and h' = "(put_struct a (v\<lparr> v_size := 0 \<rparr>) h)\<lparr> h_log := h_log h @ destroyed v (elems h a) \<rparr>"]) simp_all
qed

lemmas vec_do_simulates = push_back_simulates pop_back_simulates pop_at_simulates insert_simulates set_simulates resize_simulates

lemma vec_run_ok:
  assumes "heap_ok h" "h_struct h a = Some v" "\<forall>op \<in> set ops. \<forall>p \<in> set (op_ptrs op). caller_value a h p = Some (val p)"
  shows "\<exists>rs h' gone. vec_run al a ops h = Some (rs, h') \<and> leaves a h h' (elems h' a) \<and> list_run val ops rs (elems h a) (elems h' a) gone \<and>
    h_log h' = h_log h @ destroyed v gone"
  using assms
proof (induction ops arbitrary: h v)
  case Nil
  have "leaves a h h (elems h a)" using Nil(1) by simp
  then show ?case using list_run_done [of val "elems h a"] by (intro exI [of _ "[]"] exI [of _ h]) simp
next
  case (Cons op ops)
  have "simulates al a val op v h"
    using Cons.prems by (cases op) (simp_all add: vec_do_simulates)
  then obtain r ys gone h1 where s: "vec_do al a op h = Some (r, h1)" "leaves a h h1 ys" "list_step val op r (elems h a) ys gone"
    "h_log h1 = h_log h @ destroyed v gone" unfolding simulates_def by blast
  obtain v1 where v1: "h_struct h1 a = Some v1" "v_destructor v1 = v_destructor v" using leaves_struct [OF s(2) Cons.prems(2)] by blast
  have "\<forall>op \<in> set ops. \<forall>p \<in> set (op_ptrs op). caller_value a h1 p = Some (val p)"
    using Cons.prems(3) leaves_caller [OF s(2) Cons.prems(2)] by simp
  from Cons.IH [OF leaves_heap_ok [OF s(2)] v1(1) this] obtain rs h' gone' where t: "vec_run al a ops h1 = Some (rs, h')"
    "leaves a h1 h' (elems h' a)" "list_run val ops rs (elems h1 a) (elems h' a) gone'" "h_log h' = h_log h1 @ destroyed v1 gone'" by blast
  have "list_run val (op # ops) (r # rs) (elems h a) (elems h' a) (gone @ gone')"
    using list_run_step [OF s(3)] t(3) s(2) by (simp add: leaves_def)
  moreover have "destroyed v1 gone' = destroyed v gone'" using v1(2) by (simp add: destroyed_def)
  ultimately show ?case using s(1,4) t(1,4) leaves_trans [OF s(2) t(2)] by (intro exI [of _ "r # rs"] exI [of _ h'] exI [of _ "gone @ gone'"]) simp
qed

text \<open>The elements that successful calls have put in.\<close>

fun op_value :: "(ptr \<Rightarrow> byte list) \<Rightarrow> vec_op \<Rightarrow> byte list list" where
  "op_value val (Push_Back p) = [val p]"
| "op_value val (Insert i p) = [val p]"
| "op_value val (Set_At i p) = [val p]"
| "op_value val op = []"

fun added :: "(ptr \<Rightarrow> byte list) \<Rightarrow> vec_op list \<Rightarrow> int list \<Rightarrow> byte list list" where
  "added val (op # ops) (r # rs) = (if r = 0 then op_value val op else []) @ added val ops rs"
| "added val _ _ = []"

lemma mset_pop: "i < length xs \<Longrightarrow> mset (take i xs @ drop (Suc i) xs) + {# xs ! i #} = mset xs"
  by (metis add_mset_add_single append.assoc append_Cons append_Nil id_take_nth_drop mset.simps(2) mset_append union_mset_add_mset_right)

lemma list_step_mset: "list_step val op r xs ys gone \<Longrightarrow> mset ys + mset gone = mset xs + mset (if r = 0 then op_value val op else [])"
proof (cases op)
  case (Insert i p)
  assume "list_step val op r xs ys gone"
  moreover have "mset (take (unat i) xs) + mset (drop (unat i) xs) = mset xs" by (metis append_take_drop_id mset_append)
  ultimately show ?thesis using Insert by auto
next
  case Pop_Back
  assume "list_step val op r xs ys gone"
  then show ?thesis using Pop_Back by (cases xs rule: rev_cases) auto
next
  case (Set_At i p)
  assume "list_step val op r xs ys gone"
  then show ?thesis using Set_At by (auto simp: mset_update insert_DiffM split: if_splits)
qed (use mset_pop in \<open>auto split: if_splits\<close>)

lemma list_run_mset: "list_run val ops rs xs zs gone \<Longrightarrow> mset zs + mset gone = mset xs + mset (added val ops rs)"
proof (induction rule: list_run.induct)
  case (list_run_step op r xs ys gone ops rs zs gone')
  have "mset zs + mset (gone @ gone') = mset gone + (mset zs + mset gone')" by (simp add: ac_simps)
  also have "\<dots> = (mset ys + mset gone) + mset (added val ops rs)" unfolding list_run_step.IH by (simp add: ac_simps)
  also have "\<dots> = mset xs + mset (added val (op # ops) (r # rs))" unfolding list_step_mset [OF list_run_step.hyps(1)] by simp
  finally show ?case .
qed simp

text \<open>Changing a function pointer of a struct changes nothing else.\<close>

lemma put_same_layout:
  assumes "heap_ok h" "h_struct h a = Some v"
    and same: "v_size w = v_size v" "v_capacity w = v_capacity v" "v_element_size w = v_element_size v" "v_data w = v_data v"
  shows "heap_ok (put_struct a w h)" "only a h (put_struct a w h)" "elems (put_struct a w h) a = elems h a"
proof -
  let ?h = "put_struct a w h"
  have st: "h_struct ?h x = (if x = a then Some w else h_struct h x)" "h_data ?h = h_data h" "h_next ?h = h_next h" for x by (simp_all add: put_struct_def)
  have ow: "owns ?h x b \<longleftrightarrow> owns h x b" for x b using assms(2) st(1) same(4) by (auto simp: owns_def)
  have buf: "buffer ?h u = buffer h u" "buffer h w = buffer h v" for u using st(2) same(4) by (simp_all add: buffer_def)
  have "vec_ok ?h w" using assms vec_ok_frame [OF buf(1), of w] buf(2) by (simp add: heap_ok_def vec_ok_def)
  then have 1: "x < h_next ?h \<and> vec_ok ?h u" if "h_struct ?h x = Some u" for x u
    using that assms vec_ok_frame [OF buf(1), of u] st by (cases "x = a") (auto simp: heap_ok_def)
  have 2: "x = y" if "h_struct ?h x = Some u" "h_struct ?h y = Some t" "v_data u = v_data t" for x y u t
  proof -
    have "\<exists>u'. h_struct h x = Some u' \<and> v_data u' = v_data u" if "h_struct ?h x = Some u" for x u
      using that assms(2) same(4) st(1) [of x] by (cases "x = a") auto
    then show ?thesis using heap_ok_uniq [OF assms(1)] that by metis
  qed
  show "heap_ok ?h" using 1 2 assms(1) st(2,3) unfolding heap_ok_def by metis
  show "only a h ?h" using st by (simp add: only_def outside_def ow)
  show "elems ?h a = elems h a" using assms(2) same st(1) [of a] buf by (simp add: elems_def split: option.split)
qed

lemma set_destructor_ok:
  assumes "heap_ok h" "h_struct h a = Some v"
  obtains h' where "vector_set_destructor (Some a) f h = Some (0, h')" "heap_ok h'" "only a h h'" "h_struct h' a = Some (v\<lparr> v_destructor := f \<rparr>)"
    "elems h' a = elems h a" "h_log h' = h_log h"
  using that [of "put_struct a (v\<lparr> v_destructor := f \<rparr>) h"] put_same_layout [OF assms, of "v\<lparr> v_destructor := f \<rparr>"] assms(2)
  by (simp add: vector_set_destructor_def) (simp add: put_struct_def)

lemma heap_live: "heap_ok h \<Longrightarrow> {b. h_data h b \<noteq> None} = outside h \<union> {b. \<exists>a. owns h a b}"
  using owns_live by (auto simp: outside_def)

section \<open>The contract of a dynamic array\<close>

text \<open>
  What the rest of the node uses of a vector: appending and removing by index, through return codes. \<open>val\<close> reads
  an element the client points to. Pushing one element after another until the first refusal is the loop with
  which the node copies transactions and blocks; removing the first element until none is left is how it empties
  queues.
\<close>

fun push_all :: "('s \<Rightarrow> 'p \<Rightarrow> (int \<times> 's) option) \<Rightarrow> 'p list \<Rightarrow> 's \<Rightarrow> (nat \<times> 's) option" where
  "push_all push [] s = Some (0, s)"
| "push_all push (p # ps) s =
     do { (r, s1) \<leftarrow> push s p; if r \<noteq> 0 then Some (0, s1) else do { (k, s2) \<leftarrow> push_all push ps s1; Some (Suc k, s2) } }"

fun drain :: "('s \<Rightarrow> nat \<Rightarrow> (int \<times> 's) option) \<Rightarrow> nat \<Rightarrow> 's \<Rightarrow> 's option" where
  "drain pop 0 s = Some s"
| "drain pop (Suc n) s = do { (r, s1) \<leftarrow> pop s 0; drain pop n s1 }"

locale dynamic_array =
  fixes ok :: "'s \<Rightarrow> bool" and contents :: "'s \<Rightarrow> 'x list" and val :: "'s \<Rightarrow> 'p \<Rightarrow> 'x option"
    and push :: "'s \<Rightarrow> 'p \<Rightarrow> (int \<times> 's) option" and pop :: "'s \<Rightarrow> nat \<Rightarrow> (int \<times> 's) option"
  assumes push_law: "ok s \<Longrightarrow> val s p = Some x \<Longrightarrow>
      \<exists>r s'. push s p = Some (r, s') \<and> ok s' \<and> val s' = val s \<and> contents s' = (if r = 0 then contents s @ [x] else contents s)"
    and pop_law: "ok s \<Longrightarrow> i < length (contents s) \<Longrightarrow>
      \<exists>s'. pop s i = Some (0, s') \<and> ok s' \<and> val s' = val s \<and> contents s' = vec_pop_at (contents s) i"
begin

lemma push_all_prefix:
  "ok s \<Longrightarrow> list_all2 (\<lambda>p x. val s p = Some x) ps xs \<Longrightarrow>
     \<exists>k s'. push_all push ps s = Some (k, s') \<and> k \<le> length xs \<and> ok s' \<and> val s' = val s \<and> contents s' = contents s @ take k xs"
proof (induction ps arbitrary: s xs)
  case (Cons p ps)
  then obtain x ys where xs: "xs = x # ys" "val s p = Some x" "list_all2 (\<lambda>p x. val s p = Some x) ps ys" by (cases xs) auto
  obtain r s1 where s1: "push s p = Some (r, s1)" "ok s1" "val s1 = val s" "contents s1 = (if r = 0 then contents s @ [x] else contents s)"
    using push_law [OF Cons.prems(1) xs(2)] by blast
  show ?case
  proof (cases "r = 0")
    case True
    obtain k s' where "push_all push ps s1 = Some (k, s')" "k \<le> length ys" "ok s'" "val s' = val s1" "contents s' = contents s1 @ take k ys"
      using Cons.IH [OF s1(2), of ys] xs(3) s1(3) by auto
    then show ?thesis using True s1 xs(1) by (intro exI [of _ "Suc k"] exI [of _ s']) simp
  next
    case False
    then show ?thesis using s1 by (intro exI [of _ 0] exI [of _ s1]) simp
  qed
qed simp

lemma drain_all: "ok s \<Longrightarrow> n = length (contents s) \<Longrightarrow> \<exists>s'. drain pop n s = Some s' \<and> ok s' \<and> contents s' = []"
proof (induction n arbitrary: s)
  case (Suc n)
  obtain s1 where s1: "pop s 0 = Some (0, s1)" "ok s1" "contents s1 = vec_pop_at (contents s) 0" using pop_law [of s 0] Suc.prems by (metis zero_less_Suc)
  then have "n = length (contents s1)" using Suc.prems(2) by (auto simp: vec_pop_at_def)
  from Suc.IH [OF s1(2) this] s1(1) show ?case by auto
qed simp

end

text \<open>Lists with their accessors of the prelude satisfy the contract, and so do the vectors on the byte heap.\<close>

interpretation listvec: dynamic_array "\<lambda>s. True" "\<lambda>s. s" "\<lambda>s. Some" "\<lambda>s x. Some (0, vec_push_back s x)" "\<lambda>s i. Some (0, vec_pop_at s i)"
  by unfold_locales (simp_all add: vec_push_back_def)

definition vec_live :: "nat \<Rightarrow> 'e vheap \<Rightarrow> bool" where
  "vec_live a h \<longleftrightarrow> heap_ok h \<and> h_struct h a \<noteq> None"

lemma vec_live_leaves: "vec_live a h \<Longrightarrow> leaves a h h' xs \<Longrightarrow> vec_live a h' \<and> caller_value a h' = caller_value a h \<and> elems h' a = xs"
proof -
  assume l: "vec_live a h" "leaves a h h' xs"
  then obtain v where v: "h_struct h a = Some v" by (auto simp: vec_live_def)
  then show ?thesis using l(2) leaves_struct [OF l(2) v] leaves_caller [OF l(2) v] by (auto simp: vec_live_def leaves_def fun_eq_iff)
qed

interpretation bytevec: dynamic_array "vec_live a" "\<lambda>h. elems h a" "caller_value a" "\<lambda>h p. vector_push_back al (Some a) (Some p) h"
    "\<lambda>h i. vector_pop_at (Some a) (of_nat i) h" for al a
proof unfold_locales
  fix h :: "'e vheap" and p x assume h: "vec_live a h" and p: "caller_value a h p = Some x"
  obtain v where v: "heap_ok h" "h_struct h a = Some v" using h by (auto simp: vec_live_def)
  show "\<exists>r h'. vector_push_back al (Some a) (Some p) h = Some (r, h') \<and> vec_live a h' \<and> caller_value a h' = caller_value a h \<and>
      elems h' a = (if r = 0 then elems h a @ [x] else elems h a)"
    using v caller_valueD(1) [OF p v(2)]
  proof (cases rule: push_back_ok [where al = al])
    case (pushed h')
    then show ?thesis using vec_live_leaves [OF h pushed(2)] by simp
  next
    case (refused h')
    then have "leaves a h h' (elems h a)" using v(1) by auto
    then show ?thesis using refused(1) vec_live_leaves [OF h] by simp
  qed
next
  fix h :: "'e vheap" and i assume h: "vec_live a h" and i: "i < length (elems h a)"
  obtain v where v: "heap_ok h" "h_struct h a = Some v" using h by (auto simp: vec_live_def)
  have "unat (v_size v) < 2 ^ 64" using unsigned_less [of "v_size v"] by simp
  then have u: "unat (of_nat i :: u64) = i" "(of_nat i :: u64) < v_size v"
    using i length_elems [OF v] unat_of_nat_64 [of i] by (simp_all add: word_less_nat_alt)
  obtain h' where "vector_pop_at (Some a) (of_nat i) h = Some (0, h')" "leaves a h h' (vec_pop_at (elems h a) (unat (of_nat i :: u64)))"
    using pop_at_ok [OF v u(2)] by metis
  then show "\<exists>h'. vector_pop_at (Some a) (of_nat i) h = Some (0, h') \<and> vec_live a h' \<and> caller_value a h' = caller_value a h \<and>
      elems h' a = vec_pop_at (elems h a) i"
    using vec_live_leaves [OF h] u(1) by auto
qed

section \<open>Properties\<close>

text \<open>
  C37: a vector is a list. Whatever sequence of operations runs on a vector, with element pointers into memory of
  the caller, with arguments in and out of range and with any of the allocations failing, no operation reads or
  writes outside live memory or frees anything twice; the elements and the return codes are those the list
  specification allows, the destructor is called exactly on the elements that leave, in order, and no other
  vector and no memory of the caller is touched or leaked.
\<close>

theorem vector_refines_list:
  assumes "heap_ok h" and "h_struct h a = Some v" and "\<forall>op \<in> set ops. \<forall>p \<in> set (op_ptrs op). caller_value a h p = Some (val p)"
  shows "\<exists>rs h' gone. vec_run al a ops h = Some (rs, h') \<and> list_run val ops rs (elems h a) (elems h' a) gone \<and>
    h_log h' = h_log h @ destroyed v gone \<and> heap_ok h' \<and> outside h' = outside h \<and> (\<forall>c. c \<noteq> a \<longrightarrow> elems h' c = elems h c)"
proof -
  obtain rs h' gone where r: "vec_run al a ops h = Some (rs, h')" "leaves a h h' (elems h' a)" "list_run val ops rs (elems h a) (elems h' a) gone"
    "h_log h' = h_log h @ destroyed v gone" using vec_run_ok [OF assms, of al] by blast
  have o: "only a h h'" using r(2) by (simp add: leaves_def)
  have "\<forall>c. c \<noteq> a \<longrightarrow> elems h' c = elems h c" using only_elems [OF assms(1) o] by simp
  moreover have "outside h' = outside h" using o by (simp add: only_def)
  ultimately show ?thesis using r(1,3,4) leaves_heap_ok [OF r(2)] by (intro exI [of _ rs] exI [of _ h'] exI [of _ gone]) simp
qed

text \<open>
  Nothing is leaked and nothing destroyed twice. From the creation of a vector with an element destructor to
  its destruction, with any operations in between, every element that a successful call has put in is destroyed
  exactly once and nothing else is; afterwards exactly the allocations and vectors from before are live, with
  their contents.
\<close>

lemma vector_lifecycle:
  assumes "heap_ok h" and "vector_create al es h = Some (Some a, h1)" and "vector_set_destructor (Some a) (Some f) h1 = Some (0, h2)"
    and "\<forall>op \<in> set ops. \<forall>p \<in> set (op_ptrs op). caller_value a h2 p = Some (val p)"
  shows "\<exists>rs h3 h4 calls. vec_run al a ops h2 = Some (rs, h3) \<and> vector_destroy (Some (Some a)) h3 = Some (0, Some None, h4) \<and>
    h_log h4 = h_log h @ calls \<and> mset calls = mset (map (Pair f) (added val ops rs)) \<and>
    h_struct h4 = h_struct h \<and> h_data h4 = h_data h"
proof -
  obtain v where c: "heap_ok h1" "only a h h1" "elems h1 a = []" "h_struct h a = None" "h_log h1 = h_log h" "h_struct h1 a = Some v"
    by (rule create_ok [OF assms(1), of al es]) (use assms(2) in auto)
  obtain h2' where "vector_set_destructor (Some a) (Some f) h1 = Some (0, h2')" "heap_ok h2'" "only a h1 h2'" "h_struct h2' a = Some (v\<lparr> v_destructor := Some f \<rparr>)"
    "elems h2' a = elems h1 a" "h_log h2' = h_log h1" using set_destructor_ok [OF c(1,6)] .
  then have d: "heap_ok h2" "only a h1 h2" "h_struct h2 a = Some (v\<lparr> v_destructor := Some f \<rparr>)" "elems h2 a = []" "h_log h2 = h_log h"
    using assms(3) c(3,5) by simp_all
  obtain rs h3 gone where r: "vec_run al a ops h2 = Some (rs, h3)" "leaves a h2 h3 (elems h3 a)" "list_run val ops rs [] (elems h3 a) gone"
    "h_log h3 = h_log h @ map (Pair f) gone" using vec_run_ok [OF d(1,3) assms(4), of al] d(4,5) by (auto simp: destroyed_def)
  obtain v3 where v3: "h_struct h3 a = Some v3" "v_destructor v3 = Some f" using leaves_struct [OF r(2) d(3)] by auto
  obtain h4 where h4: "vector_destroy (Some (Some a)) h3 = Some (0, Some None, h4)" "heap_ok h4" "only a h3 h4" "h_struct h4 a = None"
    "h_log h4 = h_log h3 @ destroyed v3 (elems h3 a)" using destroy_ok [OF leaves_heap_ok [OF r(2)] v3(1)] .
  have o: "only a h h4"
    using only_trans [OF leaves_heap_ok [OF r(2)] only_trans [OF d(1) only_trans [OF c(1,2) d(2)]] h4(3)] r(2) by (simp add: leaves_def)
  have "h_struct h4 x = h_struct h x" for x using o h4(4) c(4) by (cases "x = a") (simp_all add: only_def)
  then have s: "h_struct h4 = h_struct h" by (rule ext)
  moreover have "h_data h4 b = h_data h b" for b
  proof (cases "h_data h b")
    case (Some bs)
    then show ?thesis using o c(4) by (simp add: only_def owns_def)
  next
    case None
    have "owns h4 = owns h" using s by (simp add: owns_def fun_eq_iff)
    then have "{b. h_data h4 b \<noteq> None} = {b. h_data h b \<noteq> None}" using heap_live [OF h4(2)] heap_live [OF assms(1)] o by (simp add: only_def)
    then show ?thesis using None by (metis (mono_tags) mem_Collect_eq)
  qed
  moreover have "mset gone + mset (elems h3 a) = mset (added val ops rs)" using list_run_mset [OF r(3)] by (simp add: ac_simps)
  then have "mset (map (Pair f) gone @ destroyed v3 (elems h3 a)) = mset (map (Pair f) (added val ops rs))"
    using v3(2) by (simp add: destroyed_def image_mset_union [symmetric] del: image_mset_union)
  ultimately show ?thesis using r(1,4) h4(1,5) by (intro exI [of _ rs] exI [of _ h3] exI [of _ h4]) (simp add: fun_eq_iff)
qed

text \<open>
  An element of the vector itself may be pushed, inserted or stored, although the call may move or shift the
  buffer the pointer points into. Without a destructor the value the slot had at the call arrives, and a call
  fails only when it has to allocate; with a destructor the first two are refused and change nothing.
\<close>

lemma vector_own_element:
  assumes "heap_ok h" and "h_struct h a = Some v" and "vector_get (Some a) i h = Some (Some p)" and "j < v_size v"
  shows "let xs = elems h a; x = elems h a ! unat i in
    (if v_destructor v = None then
       (\<exists>r h'. vector_push_back al (Some a) (Some p) h = Some (r, h') \<and> heap_ok h' \<and>
          (r = 0 \<and> elems h' a = xs @ [x] \<or> r = -1 \<and> elems h' a = xs \<and> v_size v = v_capacity v)) \<and>
       (\<exists>r h'. vector_insert al (Some a) j (Some p) h = Some (r, h') \<and> heap_ok h' \<and>
          (r = 0 \<and> elems h' a = take (unat j) xs @ x # drop (unat j) xs \<or> r = -1 \<and> elems h' a = xs)) \<and>
       (\<exists>h'. vector_set (Some a) j (Some p) h = Some (0, h') \<and> heap_ok h' \<and> elems h' a = xs[unat j := x])
     else vector_push_back al (Some a) (Some p) h = Some (-1, h) \<and> vector_insert al (Some a) j (Some p) h = Some (-1, h))"
proof -
  have i: "i < v_size v" "slot_at v i = Some p" using assms(2,3) by (auto simp: vector_get_def split: if_splits)
  obtain q where "slot_at v i = Some q" "load q (unat (v_element_size v)) h = Some (elems h a ! unat i)" "owns h a (fst q)"
    using load_slot [OF assms(1,2) i(1)] .
  then have p: "load p (unat (v_element_size v)) h = Some (elems h a ! unat i)" "owns h a (fst p)" using i(2) by simp_all
  note al = aliased_iff [OF assms(1,2) p(1)]
  show ?thesis
  proof (cases "v_destructor v = None")
    case True
    have "\<exists>r h'. vector_push_back al (Some a) (Some p) h = Some (r, h') \<and> heap_ok h' \<and>
        (r = 0 \<and> elems h' a = elems h a @ [elems h a ! unat i] \<or> r = -1 \<and> elems h' a = elems h a \<and> v_size v = v_capacity v)"
      using assms(1,2) p(1) by (cases rule: push_back_ok [where al = al]) (use True assms(1) in \<open>auto simp: leaves_def\<close>)
    moreover have "\<exists>r h'. vector_insert al (Some a) j (Some p) h = Some (r, h') \<and> heap_ok h' \<and>
        (r = 0 \<and> elems h' a = take (unat j) (elems h a) @ elems h a ! unat i # drop (unat j) (elems h a) \<or> r = -1 \<and> elems h' a = elems h a)"
      using assms(1,2) less_imp_le [OF assms(4)] p(1) by (cases rule: insert_ok [where al = al]) (auto simp: leaves_def)
    moreover obtain h' where "vector_set (Some a) j (Some p) h = Some (0, h')" "leaves a h h' ((elems h a)[unat j := elems h a ! unat i])"
      using set_ok [OF assms(1,2,4) p(1)] True by metis
    ultimately show ?thesis using True by (auto simp: leaves_def)
  next
    case False
    then show ?thesis using assms(2,4) p(2) al by (auto simp: vector_push_back_def vector_insert_def)
  qed
qed

section \<open>A vector of two-byte elements\<close>

definition demo_al :: allocator where
  "demo_al = \<lparr> al_ok = (\<lambda>_. True), al_stay = (\<lambda>_. False), al_junk = (\<lambda>_ _. 0) \<rparr>"

definition demo_heap :: "unit vheap" where
  "demo_heap = \<lparr> h_data = [0 \<mapsto> [1, 2, 3, 4]], h_struct = Map.empty, h_next = 3, h_calls = 0, h_log = [] \<rparr>"

definition demo_vec :: vector_t where
  "demo_vec = \<lparr> v_size = 1, v_capacity = 1, v_element_size = 2, v_data = Some 2, v_destructor = None \<rparr>"

text \<open>One vector, at 3, full with the single element \<open>[7, 8]\<close>.\<close>

definition demo_full :: "unit vheap" where
  "demo_full = \<lparr> h_data = [0 \<mapsto> [1, 2, 3, 4], 2 \<mapsto> [7, 8]], h_struct = [3 \<mapsto> demo_vec], h_next = 4, h_calls = 0, h_log = [] \<rparr>"

lemma demo_heaps_ok: "heap_ok demo_heap" "heap_ok demo_full"
  by (auto simp: heap_ok_def demo_heap_def demo_full_def demo_vec_def vec_ok_def split: if_splits)

lemma demo_full_facts: "h_struct demo_full 3 = Some demo_vec" "elems demo_full 3 = [[7, 8]]" "outside demo_full = {0}"
  by (auto simp: demo_full_def demo_vec_def elems_eq slots_def bytes_at_def outside_def owns_def elems_def split: if_splits)

definition demo_val :: "ptr \<Rightarrow> byte list" where
  "demo_val p = (if snd p = 0 then [1, 2] else [3, 4])"

lemma demo_caller: "caller_value 3 demo_full (0, 0) = Some (demo_val (0, 0))" "caller_value 3 demo_full (0, 2) = Some (demo_val (0, 2))"
  using demo_full_facts by (simp_all add: caller_value_def demo_val_def demo_vec_def load_def bytes_at_def demo_full_def)

theorem vector_refines_list_witness:
  "\<exists>rs h' gone. vec_run demo_al 3 [Push_Back (0, 2), Set_At 0 (0, 0), Pop_At 5] demo_full = Some (rs, h') \<and>
     list_run demo_val [Push_Back (0, 2), Set_At 0 (0, 0), Pop_At 5] rs [[7, 8]] (elems h' 3) gone \<and> outside h' = {0}"
  using vector_refines_list [OF demo_heaps_ok(2) demo_full_facts(1), of "[Push_Back (0, 2), Set_At 0 (0, 0), Pop_At 5]" demo_val demo_al]
    demo_caller demo_full_facts(2,3) by auto

end
