(* ===== verification/Dlibc_Set.thy ===== *)
theory Dlibc_Set
  imports Dlibc_Vector_Spec
begin

text \<open>
  The set of \<^verbatim>\<open>include/dlibc/set.h\<close> on the byte heap: a vector with an equality rule. The struct extends that of a
  vector by the comparator, a function of the caller named by its address; \<open>cmp\<close> is what such functions return for
  two elements, with 0 for equal. Where the header repeats \<^verbatim>\<open>vector.h\<close> line by line (aliasing, capacity, clearing,
  moving, destroying, reading the fields) the definition is that of the vector, at the type of sets.
\<close>

section \<open>The struct\<close>

record set_t = vector_t +
  s_comparator :: "nat option"

type_synonym sheap = "set_t c_heap"
type_synonym comparators = "nat \<Rightarrow> byte list \<Rightarrow> byte list \<Rightarrow> int"

definition SET_NPOS :: u64 where "SET_NPOS = UINT64_MAX"
definition SET_INITIAL_CAPACITY :: u64 where "SET_INITIAL_CAPACITY = 10"

definition set_is_aliased :: "nat option \<Rightarrow> ptr option \<Rightarrow> sheap \<Rightarrow> bool option" where
  "set_is_aliased st p h = vector_is_aliased st p h"

definition set_elements_equal :: "comparators \<Rightarrow> nat option \<Rightarrow> ptr option \<Rightarrow> ptr option \<Rightarrow> sheap \<Rightarrow> bool option" where
  "set_elements_equal cmp st a b h =
     (case (st, a, b) of
        (Some s, Some p, Some q) \<Rightarrow> do {
          v \<leftarrow> h_struct h s;
          x \<leftarrow> load p (unat (v_element_size v)) h;
          y \<leftarrow> load q (unat (v_element_size v)) h;
          Some (case s_comparator v of None \<Rightarrow> x = y | Some c \<Rightarrow> cmp c x y = 0)
        }
      | _ \<Rightarrow> Some False)"

section \<open>Construction, capacity, fields\<close>

definition set_create :: "allocator \<Rightarrow> u64 \<Rightarrow> sheap \<Rightarrow> (nat option \<times> sheap) option" where
  "set_create al element_size h =
     (if element_size = 0 then Some (None, h)
      else if UINT64_MAX div element_size < SET_INITIAL_CAPACITY then Some (None, h)
      else make_struct al \<lparr> v_size = 0, v_capacity = SET_INITIAL_CAPACITY, v_element_size = element_size,
                            v_data = None, v_destructor = None, s_comparator = None \<rparr> h)"

definition set_set_destructor :: "nat option \<Rightarrow> nat option \<Rightarrow> sheap \<Rightarrow> (int \<times> sheap) option" where
  "set_set_destructor st destructor h = vector_set_destructor st destructor h"

definition set_get_destructor :: "nat option \<Rightarrow> sheap \<Rightarrow> nat option option" where
  "set_get_destructor st h = vector_get_destructor st h"

definition set_set_comparator :: "nat option \<Rightarrow> nat option \<Rightarrow> sheap \<Rightarrow> (int \<times> sheap) option" where
  "set_set_comparator st comparator h =
     (case st of
        None \<Rightarrow> Some (-1, h)
      | Some a \<Rightarrow> do { v \<leftarrow> h_struct h a; Some (0, put_struct a (v\<lparr> s_comparator := comparator \<rparr>) h) })"

definition set_get_comparator :: "nat option \<Rightarrow> sheap \<Rightarrow> nat option option" where
  "set_get_comparator st h = (case st of None \<Rightarrow> Some None | Some a \<Rightarrow> do { v \<leftarrow> h_struct h a; Some (s_comparator v) })"

definition set_reserve :: "allocator \<Rightarrow> nat option \<Rightarrow> u64 \<Rightarrow> sheap \<Rightarrow> (int \<times> sheap) option" where
  "set_reserve al st new_capacity h = vector_reserve al st new_capacity h"

definition set_grow :: "allocator \<Rightarrow> nat option \<Rightarrow> sheap \<Rightarrow> (int \<times> sheap) option" where
  "set_grow al st h = vector_grow al st h"

definition set_prune :: "allocator \<Rightarrow> nat option \<Rightarrow> sheap \<Rightarrow> (int \<times> sheap) option" where
  "set_prune al st h = vector_prune al st h"

definition set_clear :: "nat option \<Rightarrow> sheap \<Rightarrow> (int \<times> sheap) option" where
  "set_clear st h = vector_clear st h"

definition set_is_empty :: "nat option \<Rightarrow> sheap \<Rightarrow> bool option" where
  "set_is_empty st h = vector_is_empty st h"

definition set_get_const :: "nat option \<Rightarrow> u64 \<Rightarrow> sheap \<Rightarrow> ptr option option" where
  "set_get_const st index h = vector_get st index h"

definition set_size :: "nat option \<Rightarrow> sheap \<Rightarrow> u64 option" where
  "set_size st h = vector_size st h"

definition set_capacity :: "nat option \<Rightarrow> sheap \<Rightarrow> u64 option" where
  "set_capacity st h = vector_capacity st h"

definition set_element_size :: "nat option \<Rightarrow> sheap \<Rightarrow> u64 option" where
  "set_element_size st h = vector_element_size st h"

definition set_as_c_array :: "nat option \<Rightarrow> sheap \<Rightarrow> ptr option option" where
  "set_as_c_array st h = vector_as_c_array st h"

definition set_move :: "nat option \<Rightarrow> nat option option \<Rightarrow> sheap \<Rightarrow> (int \<times> nat option option \<times> sheap) option" where
  "set_move dest src h = vector_move dest src h"

definition set_destroy :: "nat option option \<Rightarrow> sheap \<Rightarrow> (int \<times> nat option option \<times> sheap) option" where
  "set_destroy st h = vector_destroy st h"

section \<open>Looking up, inserting, removing\<close>

fun find_in :: "comparators \<Rightarrow> nat \<Rightarrow> ptr \<Rightarrow> nat list \<Rightarrow> sheap \<Rightarrow> u64 option" where
  "find_in cmp s element [] h = Some SET_NPOS"
| "find_in cmp s element (i # is) h = do {
     v \<leftarrow> h_struct h s;
     slot \<leftarrow> slot_at v (of_nat i);
     eq \<leftarrow> set_elements_equal cmp (Some s) (Some slot) (Some element) h;
     if eq then Some (of_nat i) else find_in cmp s element is h
   }"

definition set_find :: "comparators \<Rightarrow> nat option \<Rightarrow> ptr option \<Rightarrow> sheap \<Rightarrow> u64 option" where
  "set_find cmp st element h =
     (case (st, element) of
        (Some s, Some e) \<Rightarrow> do { v \<leftarrow> h_struct h s; find_in cmp s e [0..<unat (v_size v)] h }
      | _ \<Rightarrow> Some SET_NPOS)"

definition set_contains :: "comparators \<Rightarrow> nat option \<Rightarrow> ptr option \<Rightarrow> sheap \<Rightarrow> bool option" where
  "set_contains cmp st element h = do { i \<leftarrow> set_find cmp st element h; Some (i \<noteq> SET_NPOS) }"

definition set_insert :: "comparators \<Rightarrow> allocator \<Rightarrow> nat option \<Rightarrow> ptr option \<Rightarrow> sheap \<Rightarrow> (int \<times> sheap) option" where
  "set_insert cmp al st element h =
     (case (st, element) of
        (Some a, Some e) \<Rightarrow> do {
          v \<leftarrow> h_struct h a;
          aliased \<leftarrow> set_is_aliased st element h;
          if v_destructor v \<noteq> None \<and> aliased then Some (-1, h)
          else do {
            i \<leftarrow> set_find cmp st element h;
            if i \<noteq> SET_NPOS then Some (1, h)
            else if v_size v \<ge> v_capacity v then do {
              (r, e1, h1) \<leftarrow> grow_for al a e h;
              if r \<noteq> 0 then Some (-1, h1) else copy_in a e1 h1
            }
            else copy_in a e h
          }
        }
      | _ \<Rightarrow> Some (-1, h))"

text \<open>The last element moves into the slot that has become free.\<close>

definition fill_hole :: "nat \<Rightarrow> u64 \<Rightarrow> sheap \<Rightarrow> (int \<times> sheap) option" where
  "fill_hole a index h = do {
     v \<leftarrow> h_struct h a;
     let last = v_size v - 1;
     h1 \<leftarrow> (if index \<noteq> last then do {
              dst \<leftarrow> slot_at v index;
              src \<leftarrow> slot_at v last;
              c_memcpy dst src (unat (v_element_size v)) h
            } else Some h);
     Some (0, put_struct a (v\<lparr> v_size := v_size v - 1 \<rparr>) h1)
   }"

definition set_remove_at :: "nat option \<Rightarrow> u64 \<Rightarrow> sheap \<Rightarrow> (int \<times> sheap) option" where
  "set_remove_at st index h =
     (case st of
        None \<Rightarrow> Some (-1, h)
      | Some a \<Rightarrow> do {
          v \<leftarrow> h_struct h a;
          if index \<ge> v_size v then Some (-1, h)
          else do { h1 \<leftarrow> run_destructor v index h; fill_hole a index h1 }
        })"

definition set_remove :: "comparators \<Rightarrow> nat option \<Rightarrow> ptr option \<Rightarrow> sheap \<Rightarrow> (int \<times> sheap) option" where
  "set_remove cmp st element h =
     (case (st, element) of
        (Some a, Some e) \<Rightarrow> do {
          index \<leftarrow> set_find cmp st element h;
          if index = SET_NPOS then Some (1, h) else set_remove_at st index h
        }
      | _ \<Rightarrow> Some (-1, h))"

definition set_take_at :: "nat option \<Rightarrow> u64 \<Rightarrow> ptr option \<Rightarrow> sheap \<Rightarrow> (int \<times> sheap) option" where
  "set_take_at st index out h =
     (case st of
        None \<Rightarrow> Some (-1, h)
      | Some a \<Rightarrow> do {
          v \<leftarrow> h_struct h a;
          if index \<ge> v_size v \<or> out = None then Some (-1, h)
          else do {
            aliased \<leftarrow> set_is_aliased st out h;
            if aliased then Some (-1, h)
            else do {
              dst \<leftarrow> out;
              slot \<leftarrow> slot_at v index;
              h1 \<leftarrow> c_memcpy dst slot (unat (v_element_size v)) h;
              fill_hole a index h1
            }
          }
        })"

definition set_take :: "comparators \<Rightarrow> nat option \<Rightarrow> ptr option \<Rightarrow> ptr option \<Rightarrow> sheap \<Rightarrow> (int \<times> sheap) option" where
  "set_take cmp st element out h =
     (if st = None \<or> element = None \<or> out = None then Some (-1, h)
      else do {
        aliased \<leftarrow> set_is_aliased st out h;
        if aliased then Some (-1, h)
        else do {
          index \<leftarrow> set_find cmp st element h;
          if index = SET_NPOS then Some (1, h) else set_take_at st index out h
        }
      })"

section \<open>Removing duplicates\<close>

text \<open>
  The inner loop removes from slot \<open>j\<close> on what is equal to the element in slot \<open>i\<close>; after a removal slot \<open>j\<close> holds
  what was the last element and is looked at again. A run that does not end would have no result.
\<close>

partial_function (option) dedupe_inner :: "comparators \<Rightarrow> nat \<Rightarrow> u64 \<Rightarrow> u64 \<Rightarrow> sheap \<Rightarrow> sheap option" where
  "dedupe_inner cmp a i j h = do {
     v \<leftarrow> h_struct h a;
     if j < v_size v then do {
       kept \<leftarrow> slot_at v i;
       candidate \<leftarrow> slot_at v j;
       eq \<leftarrow> set_elements_equal cmp (Some a) (Some kept) (Some candidate) h;
       if eq then do { (r, h1) \<leftarrow> set_remove_at (Some a) j h; dedupe_inner cmp a i j h1 }
       else dedupe_inner cmp a i (j + 1) h
     } else Some h
   }"

partial_function (option) dedupe_outer :: "comparators \<Rightarrow> nat \<Rightarrow> u64 \<Rightarrow> sheap \<Rightarrow> sheap option" where
  "dedupe_outer cmp a i h = do {
     v \<leftarrow> h_struct h a;
     if i + 1 < v_size v then do { h1 \<leftarrow> dedupe_inner cmp a i (i + 1) h; dedupe_outer cmp a (i + 1) h1 }
     else Some h
   }"

definition set_dedupe :: "comparators \<Rightarrow> nat option \<Rightarrow> sheap \<Rightarrow> (int \<times> sheap) option" where
  "set_dedupe cmp st h = (case st of None \<Rightarrow> Some (-1, h) | Some a \<Rightarrow> do { h1 \<leftarrow> dedupe_outer cmp a 0 h; Some (0, h1) })"

section \<open>Set operations\<close>

definition set_deep_copy :: "allocator \<Rightarrow> nat option \<Rightarrow> sheap \<Rightarrow> (nat option \<times> sheap) option" where
  "set_deep_copy al st h =
     (case st of
        None \<Rightarrow> Some (None, h)
      | Some a \<Rightarrow> do {
          v \<leftarrow> h_struct h a;
          if v_destructor v \<noteq> None then Some (None, h)
          else do {
            (new_set, h1) \<leftarrow> set_create al (v_element_size v) h;
            case new_set of
              None \<Rightarrow> Some (None, h1)
            | Some n \<Rightarrow> do {
                w \<leftarrow> h_struct h1 n;
                let h2 = put_struct n (w\<lparr> s_comparator := s_comparator v \<rparr>) h1;
                (r, h3) \<leftarrow> set_reserve al new_set (v_capacity v) h2;
                if r \<noteq> 0 then do { (q, x, h4) \<leftarrow> set_destroy (Some new_set) h3; Some (None, h4) }
                else do { h4 \<leftarrow> copy_bytes n v h3; Some (new_set, h4) }
              }
          }
        })"

definition set_is_compatible :: "nat option \<Rightarrow> nat option \<Rightarrow> sheap \<Rightarrow> bool option" where
  "set_is_compatible a b h =
     (case (a, b) of
        (Some s, Some t) \<Rightarrow> do {
          v \<leftarrow> h_struct h s;
          w \<leftarrow> h_struct h t;
          Some (v_element_size v = v_element_size w \<and> s_comparator v = s_comparator w \<and> v_destructor v = None \<and> v_destructor w = None)
        }
      | _ \<Rightarrow> Some False)"

text \<open>
  The loop that inserts the elements of \<open>s\<close> for which \<open>keep\<close> holds into \<open>res\<close>. Its first result is whether no
  insertion failed; after a failure the result has been destroyed.
\<close>

fun insert_loop ::
  "comparators \<Rightarrow> allocator \<Rightarrow> (ptr \<Rightarrow> sheap \<Rightarrow> bool option) \<Rightarrow> nat \<Rightarrow> nat \<Rightarrow> nat list \<Rightarrow> sheap \<Rightarrow> (bool \<times> sheap) option" where
  "insert_loop cmp al keep res s [] h = Some (True, h)"
| "insert_loop cmp al keep res s (i # is) h = do {
     v \<leftarrow> h_struct h s;
     element \<leftarrow> slot_at v (of_nat i);
     k \<leftarrow> keep element h;
     if \<not> k then insert_loop cmp al keep res s is h
     else do {
       (r, h1) \<leftarrow> set_insert cmp al (Some res) (Some element) h;
       if r < 0 then do { (q, x, h2) \<leftarrow> set_destroy (Some (Some res)) h1; Some (False, h2) }
       else insert_loop cmp al keep res s is h1
     }
   }"

text \<open>An empty result with the comparator of \<open>a\<close>; \<open>None\<close> when the sets cannot be combined or memory is short.\<close>

definition fresh_result :: "allocator \<Rightarrow> nat option \<Rightarrow> nat option \<Rightarrow> sheap \<Rightarrow> (nat option \<times> sheap) option" where
  "fresh_result al a b h = do {
     ok \<leftarrow> set_is_compatible a b h;
     if \<not> ok then Some (None, h)
     else do {
       s \<leftarrow> a;
       v \<leftarrow> h_struct h s;
       (result, h1) \<leftarrow> set_create al (v_element_size v) h;
       case result of
         None \<Rightarrow> Some (None, h1)
       | Some n \<Rightarrow> do { w \<leftarrow> h_struct h1 n; Some (result, put_struct n (w\<lparr> s_comparator := s_comparator v \<rparr>) h1) }
     }
   }"

definition size_of :: "nat \<Rightarrow> sheap \<Rightarrow> nat option" where
  "size_of s h = map_option (\<lambda>v. unat (v_size v)) (h_struct h s)"

definition set_union :: "comparators \<Rightarrow> allocator \<Rightarrow> nat option \<Rightarrow> nat option \<Rightarrow> sheap \<Rightarrow> (nat option \<times> sheap) option" where
  "set_union cmp al a b h = do {
     (result, h1) \<leftarrow> fresh_result al a b h;
     case result of
       None \<Rightarrow> Some (None, h1)
     | Some n \<Rightarrow> do {
         s \<leftarrow> a; m \<leftarrow> size_of s h1;
         (ok1, h2) \<leftarrow> insert_loop cmp al (\<lambda>_ _. Some True) n s [0..<m] h1;
         if \<not> ok1 then Some (None, h2)
         else do {
           t \<leftarrow> b; k \<leftarrow> size_of t h2;
           (ok2, h3) \<leftarrow> insert_loop cmp al (\<lambda>_ _. Some True) n t [0..<k] h2;
           Some (if ok2 then result else None, h3)
         }
       }
   }"

definition set_filtered ::
  "comparators \<Rightarrow> allocator \<Rightarrow> (ptr \<Rightarrow> sheap \<Rightarrow> bool option) \<Rightarrow> nat option \<Rightarrow> nat option \<Rightarrow> sheap \<Rightarrow> (nat option \<times> sheap) option" where
  "set_filtered cmp al keep a b h = do {
     (result, h1) \<leftarrow> fresh_result al a b h;
     case result of
       None \<Rightarrow> Some (None, h1)
     | Some n \<Rightarrow> do {
         s \<leftarrow> a; m \<leftarrow> size_of s h1;
         (ok, h2) \<leftarrow> insert_loop cmp al keep n s [0..<m] h1;
         Some (if ok then result else None, h2)
       }
   }"

definition set_intersection :: "comparators \<Rightarrow> allocator \<Rightarrow> nat option \<Rightarrow> nat option \<Rightarrow> sheap \<Rightarrow> (nat option \<times> sheap) option" where
  "set_intersection cmp al a b h = set_filtered cmp al (\<lambda>e h. set_contains cmp b (Some e) h) a b h"

definition set_difference :: "comparators \<Rightarrow> allocator \<Rightarrow> nat option \<Rightarrow> nat option \<Rightarrow> sheap \<Rightarrow> (nat option \<times> sheap) option" where
  "set_difference cmp al a b h = set_filtered cmp al (\<lambda>e h. map_option Not (set_contains cmp b (Some e) h)) a b h"

fun subset_loop :: "comparators \<Rightarrow> nat \<Rightarrow> nat option \<Rightarrow> nat list \<Rightarrow> sheap \<Rightarrow> bool option" where
  "subset_loop cmp s b [] h = Some True"
| "subset_loop cmp s b (i # is) h = do {
     v \<leftarrow> h_struct h s;
     element \<leftarrow> slot_at v (of_nat i);
     c \<leftarrow> set_contains cmp b (Some element) h;
     if \<not> c then Some False else subset_loop cmp s b is h
   }"

definition set_is_subset :: "comparators \<Rightarrow> nat option \<Rightarrow> nat option \<Rightarrow> sheap \<Rightarrow> bool option" where
  "set_is_subset cmp a b h =
     (case (a, b) of
        (Some s, Some t) \<Rightarrow> do {
          v \<leftarrow> h_struct h s;
          w \<leftarrow> h_struct h t;
          if v_element_size v \<noteq> v_element_size w \<or> s_comparator v \<noteq> s_comparator w then Some False
          else subset_loop cmp s b [0..<unat (v_size v)] h
        }
      | _ \<Rightarrow> Some False)"

definition set_is_equal :: "comparators \<Rightarrow> nat option \<Rightarrow> nat option \<Rightarrow> sheap \<Rightarrow> bool option" where
  "set_is_equal cmp a b h =
     (case (a, b) of
        (Some s, Some t) \<Rightarrow> do {
          v \<leftarrow> h_struct h s;
          w \<leftarrow> h_struct h t;
          if v_size v \<noteq> v_size w then Some False
          else do { sub \<leftarrow> set_is_subset cmp a b h; if \<not> sub then Some False else set_is_subset cmp b a h }
        }
      | _ \<Rightarrow> Some False)"

end
