(* ===== verification/Dlibc_Set_Spec.thy ===== *)
theory Dlibc_Set_Spec
  imports Dlibc_Set
begin

text \<open>
  What the functions of \<^verbatim>\<open>include/dlibc/set.h\<close> do: every set holds pairwise unequal elements, and the operations
  are those of mathematical sets up to the equality rule.
\<close>

section \<open>The equality rule\<close>

definition eqv :: "comparators \<Rightarrow> nat option \<Rightarrow> byte list \<Rightarrow> byte list \<Rightarrow> bool" where
  "eqv cmp c x y = (case c of None \<Rightarrow> x = y | Some f \<Rightarrow> cmp f x y = 0)"

text \<open>The rule the header asks of a comparator.\<close>

definition consistent :: "comparators \<Rightarrow> bool" where
  "consistent cmp \<longleftrightarrow> (\<forall>f x. cmp f x x = 0) \<and> (\<forall>f x y. cmp f x y = 0 \<longrightarrow> cmp f y x = 0) \<and>
     (\<forall>f x y z. cmp f x y = 0 \<longrightarrow> cmp f y z = 0 \<longrightarrow> cmp f x z = 0)"

lemma eqv_refl: "consistent cmp \<Longrightarrow> eqv cmp c x x"
  by (simp add: consistent_def eqv_def split: option.split)

lemma eqv_sym:
  assumes "consistent cmp" "eqv cmp c x y"
  shows "eqv cmp c y x"
proof (cases c)
  case (Some f)
  have "cmp f x y = 0 \<longrightarrow> cmp f y x = 0" using assms(1) unfolding consistent_def by blast
  then show ?thesis using Some assms(2) by (simp add: eqv_def)
qed (use assms(2) in \<open>simp add: eqv_def\<close>)

lemma eqv_trans:
  assumes "consistent cmp" "eqv cmp c x y" "eqv cmp c y z"
  shows "eqv cmp c x z"
proof (cases c)
  case (Some f)
  have "cmp f x y = 0 \<longrightarrow> cmp f y z = 0 \<longrightarrow> cmp f x z = 0" using assms(1) unfolding consistent_def by blast
  then show ?thesis using Some assms(2,3) by (simp add: eqv_def)
qed (use assms(2,3) in \<open>simp add: eqv_def\<close>)

definition member :: "comparators \<Rightarrow> nat option \<Rightarrow> byte list list \<Rightarrow> byte list \<Rightarrow> bool" where
  "member cmp c xs x \<longleftrightarrow> (\<exists>y \<in> set xs. eqv cmp c y x)"

definition unique :: "comparators \<Rightarrow> nat option \<Rightarrow> byte list list \<Rightarrow> bool" where
  "unique cmp c xs \<longleftrightarrow> (\<forall>i j. i < length xs \<longrightarrow> j < length xs \<longrightarrow> eqv cmp c (xs ! i) (xs ! j) \<longrightarrow> i = j)"

lemma elements_equal_ok:
  "h_struct h s = Some v \<Longrightarrow> load p (unat (v_element_size v)) h = Some x \<Longrightarrow> load q (unat (v_element_size v)) h = Some y \<Longrightarrow>
     set_elements_equal cmp (Some s) (Some p) (Some q) h = Some (eqv cmp (s_comparator v) x y)"
  by (simp add: set_elements_equal_def eqv_def)

lemma of_nat_index:
  assumes "heap_ok h" "h_struct h s = Some v" "i < length (elems h s)"
  shows "unat (of_nat i :: u64) = i" "(of_nat i :: u64) < v_size v" "(of_nat i :: u64) \<noteq> SET_NPOS"
proof -
  have n: "unat (v_size v) < 2 ^ 64" using unsigned_less [of "v_size v"] by simp
  show u: "unat (of_nat i :: u64) = i" using n assms(3) length_elems [OF assms(1,2)] unat_of_nat_64 [of i] by simp
  show "(of_nat i :: u64) < v_size v" using u assms(3) length_elems [OF assms(1,2)] by (simp add: word_less_nat_alt)
  have "i \<noteq> unat SET_NPOS" using n assms(3) length_elems [OF assms(1,2)] by (simp add: SET_NPOS_def)
  then show "(of_nat i :: u64) \<noteq> SET_NPOS" using u by metis
qed

section \<open>Looking up\<close>

lemma find_in_ok:
  assumes "heap_ok h" "h_struct h s = Some v" "load e (unat (v_element_size v)) h = Some x"
  shows "set is \<subseteq> {0..<length (elems h s)} \<Longrightarrow>
    find_in cmp s e is h = Some (case List.find (\<lambda>i. eqv cmp (s_comparator v) (elems h s ! i) x) is of None \<Rightarrow> SET_NPOS | Some i \<Rightarrow> of_nat i)"
proof (induction "is")
  case (Cons i "is")
  then have i: "i < length (elems h s)" by simp
  obtain p where p: "slot_at v (of_nat i) = Some p" "load p (unat (v_element_size v)) h = Some (elems h s ! i)"
    using load_slot [OF assms(1,2) of_nat_index(2) [OF assms(1,2) i]] of_nat_index(1) [OF assms(1,2) i] by metis
  show ?case using Cons assms(2) p(1) elements_equal_ok [OF assms(2) p(2) assms(3), of cmp] by simp
qed simp

lemma set_find_ok:
  assumes "heap_ok h" "h_struct h s = Some v" "load e (unat (v_element_size v)) h = Some x"
  obtains (found) i where "i < length (elems h s)" "eqv cmp (s_comparator v) (elems h s ! i) x" "set_find cmp (Some s) (Some e) h = Some (of_nat i)"
      "(of_nat i :: u64) \<noteq> SET_NPOS"
    | (absent) "set_find cmp (Some s) (Some e) h = Some SET_NPOS" "\<not> member cmp (s_comparator v) (elems h s) x"
proof -
  let ?P = "\<lambda>i. eqv cmp (s_comparator v) (elems h s ! i) x"
  have f: "set_find cmp (Some s) (Some e) h = Some (case List.find ?P [0..<length (elems h s)] of None \<Rightarrow> SET_NPOS | Some i \<Rightarrow> of_nat i)"
    using find_in_ok [OF assms, of "[0..<length (elems h s)]" cmp] assms(2) length_elems [OF assms(1,2)] by (simp add: set_find_def)
  show ?thesis
  proof (cases "List.find ?P [0..<length (elems h s)]")
    case None
    then have "\<not> member cmp (s_comparator v) (elems h s) x" by (auto simp: find_None_iff member_def in_set_conv_nth)
    then show ?thesis using absent f None by simp
  next
    case (Some i)
    then have "i < length (elems h s)" "?P i" by (auto simp: find_Some_iff)
    then show ?thesis using found f Some of_nat_index(3) [OF assms(1,2)] by simp
  qed
qed

lemma contains_ok:
  assumes "heap_ok h" "h_struct h s = Some v" "load e (unat (v_element_size v)) h = Some x"
  shows "set_contains cmp (Some s) (Some e) h = Some (member cmp (s_comparator v) (elems h s) x)"
  using assms
proof (cases rule: set_find_ok [where cmp = cmp])
  case (found i)
  then have "member cmp (s_comparator v) (elems h s) x" by (auto simp: member_def)
  then show ?thesis using found(3,4) by (simp add: set_contains_def)
next
  case absent
  then show ?thesis by (simp add: set_contains_def)
qed

section \<open>Inserting\<close>

definition cannot_grow :: "allocator \<Rightarrow> set_t \<Rightarrow> sheap \<Rightarrow> bool" where
  "cannot_grow al v h \<longleftrightarrow> v_capacity v > UINT64_MAX div 2 \<or> v_capacity v * 2 > UINT64_MAX div v_element_size v \<or> \<not> al_ok al (h_calls h)"

lemma set_insert_ok:
  assumes "heap_ok h" "h_struct h a = Some v" "load e (unat (v_element_size v)) h = Some x"
  obtains (inserted) h' where "set_insert cmp al (Some a) (Some e) h = Some (0, h')" "leaves a h h' (elems h a @ [x])" "h_log h' = h_log h"
      "\<not> member cmp (s_comparator v) (elems h a) x"
    | (present) "set_insert cmp al (Some a) (Some e) h = Some (1, h)" "member cmp (s_comparator v) (elems h a) x"
    | (refused) h' where "set_insert cmp al (Some a) (Some e) h = Some (-1, h')" "h' = h \<or> h' = h\<lparr> h_calls := Suc (h_calls h) \<rparr>"
      "v_destructor v \<noteq> None \<and> owns h a (fst e) \<or> v_size v = v_capacity v \<and> cannot_grow al v h \<and> \<not> member cmp (s_comparator v) (elems h a) x"
proof (cases "v_destructor v \<noteq> None \<and> owns h a (fst e)")
  case True
  then show ?thesis using that(3) [of h] assms(2) aliased_iff [OF assms] by (simp add: set_insert_def set_is_aliased_def)
next
  case keep: False
  from assms show ?thesis
  proof (cases rule: set_find_ok [where cmp = cmp])
    case (found i)
    then have "member cmp (s_comparator v) (elems h a) x" by (auto simp: member_def)
    moreover have "set_insert cmp al (Some a) (Some e) h = Some (1, h)"
      using keep assms(2) aliased_iff [OF assms] found(3,4) by (cases "owns h a (fst e)") (simp_all add: set_insert_def set_is_aliased_def)
    ultimately show ?thesis using that(2) by blast
  next
    case absent
    have i: "set_insert cmp al (Some a) (Some e) h = vector_push_back al (Some a) (Some e) h"
      using keep assms(2) aliased_iff [OF assms] absent(1) by (cases "owns h a (fst e)") (simp_all add: set_insert_def set_is_aliased_def vector_push_back_def)
    from assms show ?thesis
    proof (cases rule: push_back_ok [where al = al])
      case (pushed h')
      then show ?thesis using that(1) i absent(2) by simp
    next
      case (refused h')
      then show ?thesis using that(3) [of h'] i absent(2) by (auto simp: cannot_grow_def)
    qed
  qed
qed

lemma unique_snoc: "consistent cmp \<Longrightarrow> unique cmp c xs \<Longrightarrow> \<not> member cmp c xs x \<Longrightarrow> unique cmp c (xs @ [x])"
  unfolding unique_def member_def by (auto simp: nth_append less_Suc_eq dest: eqv_sym)

lemma member_snoc: "member cmp c (xs @ [x]) z \<longleftrightarrow> member cmp c xs z \<or> eqv cmp c x z"
  by (auto simp: member_def)

lemma member_eqv: "consistent cmp \<Longrightarrow> member cmp c xs x \<Longrightarrow> eqv cmp c x z \<Longrightarrow> member cmp c xs z"
  unfolding member_def by (blast intro: eqv_trans)

section \<open>Removing\<close>

definition swap_out :: "byte list list \<Rightarrow> nat \<Rightarrow> byte list list" where
  "swap_out xs i = butlast (xs[i := last xs])"

lemma fill_hole_ok:
  assumes "heap_ok h" "h_struct h a = Some v" "i < v_size v"
  obtains h' where "fill_hole a i h = Some (0, h')" "leaves a h h' (swap_out (elems h a) (unat i))" "h_log h' = h_log h"
proof -
  let ?es = "unat (v_element_size v)" and ?i = "unat i" and ?n = "unat (v_size v)"
  obtain b bs where v: "v_data v = Some b" "h_data h b = Some bs" "length bs = unat (v_capacity v) * ?es" "v_size v \<le> v_capacity v"
    using assms(1,2) by (rule heap_okD)
  have i: "?i < ?n" "?n \<le> unat (v_capacity v)" using assms(3) v(4) by (simp_all add: word_less_nat_alt word_le_nat_alt)
  have l: "unat (v_size v - 1) = ?n - 1" "v_size v - 1 < v_size v" "v_size v - 1 \<le> v_size v" "v_size v - 1 \<le> v_capacity v"
    using i v(4) by (auto simp: unat_sub word_le_nat_alt word_less_nat_alt)
  have ne: "elems h a \<noteq> []" and len: "length (elems h a) = ?n" using length_elems [OF assms(1,2)] i(1) by auto
  have las: "last (elems h a) = elems h a ! (?n - 1)" using ne len by (simp add: last_conv_nth)
  show ?thesis
  proof (cases "i = v_size v - 1")
    case True
    then have "swap_out (elems h a) ?i = take (?n - 1) (elems h a)"
      using l(1) las len by (simp add: swap_out_def butlast_conv_take)
    then show ?thesis
      using that [of "put_struct a (v\<lparr> v_size := v_size v - 1 \<rparr>) h"] resize_elems [OF assms(1,2) l(3)] l(1) True assms(2)
      by (simp add: fill_hole_def) (simp add: put_struct_def)
  next
    case False
    then have lt: "?i < ?n - 1" using i(1) l(1) by (metis Suc_pred' less_Suc_eq unat_eq_0 gr_zeroI not_less_zero word_unat_eq_iff)
    let ?x = "bytes_at ((?n - 1) * ?es) ?es bs"
    have big: "?n * ?es \<le> length bs" using i(2) v(3) by simp
    have off: "unat (i * v_element_size v) = ?i * ?es" "unat ((v_size v - 1) * v_element_size v) = (?n - 1) * ?es"
      using slot_nat [OF assms(1,2), of i] slot_nat [OF assms(1,2) l(4)] l(1) i by (simp_all add: word_le_nat_alt)
    have fit: "(?n - 1) * ?es + ?es \<le> length bs" "?i * ?es + ?es \<le> (?n - 1) * ?es" using mul_le_off [of "?n - 1" ?n ?es] mul_le_off [OF lt, of ?es] i(1) big by simp_all
    then have x: "length ?x = ?es" by simp
    let ?bs = "splice_at (?i * ?es) ?x bs"
    have "c_memcpy (b, ?i * ?es) (b, (?n - 1) * ?es) ?es h = Some (h\<lparr> h_data := (h_data h)(b \<mapsto> ?bs) \<rparr>)"
      using v(2) fit x by (simp add: c_memcpy_def c_memmove_def)
    then have "fill_hole a i h = Some (0, h\<lparr> h_data := (h_data h)(b \<mapsto> ?bs), h_struct := (h_struct h)(a \<mapsto> v\<lparr> v_size := v_size v - 1 \<rparr>) \<rparr>)"
      using False assms(2) v(1) off by (simp add: fill_hole_def slot_at_def put_struct_def Let_def)
    moreover have "slots (?n - 1) ?es ?bs = swap_out (elems h a) ?i"
    proof -
      have xl: "?x = last (elems h a)" using las i(1) by (simp add: elems_eq [OF assms(2) v(1,2)])
      have "slots (?n - 1) ?es ?bs = take (?n - 1) (slots ?n ?es ?bs)" by (simp add: slots_def take_map)
      also have "slots ?n ?es ?bs = (elems h a)[?i := ?x]" using slots_splice [OF i(1) big x] by (simp add: elems_eq [OF assms(2) v(1,2)])
      finally show ?thesis unfolding xl using len by (simp add: swap_out_def butlast_conv_take)
    qed
    ultimately show ?thesis
      using that update_in_place [OF assms(1,2) v(1,2) _ l(4), of ?bs] fit x l(1) by simp
  qed
qed

lemma remove_at_ok:
  assumes "heap_ok h" "h_struct h a = Some v" "i < v_size v"
  obtains h' where "set_remove_at (Some a) i h = Some (0, h')" "leaves a h h' (swap_out (elems h a) (unat i))"
    "h_log h' = h_log h @ destroyed v [elems h a ! unat i]"
proof -
  let ?h = "h\<lparr> h_log := h_log h @ destroyed v [elems h a ! unat i] \<rparr>"
  obtain h' where h': "fill_hole a i ?h = Some (0, h')" "leaves a ?h h' (swap_out (elems ?h a) (unat i))" "h_log h' = h_log ?h"
    by (rule fill_hole_ok [of ?h a v i]) (use assms in simp_all)
  moreover have "leaves a h ?h (elems h a)" using assms(1) by simp
  ultimately show ?thesis
    using that [of h'] leaves_trans [of a h ?h] run_destructor_ok [OF assms] assms(2,3) by (simp add: set_remove_at_def not_le [symmetric])
qed

lemma length_swap_out [simp]: "length (swap_out xs i) = length xs - 1"
  by (simp add: swap_out_def)

lemma nth_swap_out: "j < length xs - 1 \<Longrightarrow> swap_out xs i ! j = xs ! (if j = i then length xs - 1 else j)"
  by (cases xs rule: rev_cases) (simp_all add: swap_out_def nth_butlast nth_list_update)

lemma mset_swap_out:
  assumes "i < length xs"
  shows "add_mset (xs ! i) (mset (swap_out xs i)) = mset xs"
proof (cases "i = length xs - 1")
  case True
  then show ?thesis using assms by (cases xs rule: rev_cases) (simp_all add: swap_out_def)
next
  case False
  then obtain ys y where xs: "xs = ys @ [y]" "i < length ys" using assms by (cases xs rule: rev_cases) auto
  then have "mset (ys[i := y]) + {# ys ! i #} = mset ys + {# y #}" by (simp add: mset_update insert_DiffM)
  then show ?thesis using xs by (simp add: swap_out_def list_update_append nth_append)
qed

lemma member_mset: "member cmp c xs x \<longleftrightarrow> (\<exists>y \<in># mset xs. eqv cmp c y x)"
  by (simp add: member_def)

lemma member_swap_out: "i < length xs \<Longrightarrow> member cmp c xs x \<longleftrightarrow> eqv cmp c (xs ! i) x \<or> member cmp c (swap_out xs i) x"
  unfolding member_mset mset_swap_out [symmetric] by auto

lemma unique_swap_out:
  assumes "unique cmp c xs" "i < length xs"
  shows "unique cmp c (swap_out xs i)"
  unfolding unique_def
proof (intro allI impI)
  fix j k assume jk: "j < length (swap_out xs i)" "k < length (swap_out xs i)" "eqv cmp c (swap_out xs i ! j) (swap_out xs i ! k)"
  let ?m = "\<lambda>j. if j = i then length xs - 1 else j"
  have "swap_out xs i ! j = xs ! ?m j" "swap_out xs i ! k = xs ! ?m k" "?m j < length xs" "?m k < length xs"
    using jk(1,2) assms(2) by (auto simp: nth_swap_out)
  then have "?m j = ?m k" using jk(3) assms(1) by (auto simp: unique_def)
  then show "j = k" using jk(1,2) by (auto split: if_splits)
qed

lemma unique_member_swap_out:
  assumes "consistent cmp" "unique cmp c xs" "i < length xs"
  shows "member cmp c (swap_out xs i) x \<longleftrightarrow> member cmp c xs x \<and> \<not> eqv cmp c (xs ! i) x"
proof -
  have "\<not> eqv cmp c (xs ! i) x" if m: "member cmp c (swap_out xs i) x"
  proof
    assume e: "eqv cmp c (xs ! i) x"
    obtain j where j: "j < length xs - 1" "eqv cmp c (swap_out xs i ! j) x" using m by (auto simp: member_def in_set_conv_nth)
    let ?k = "if j = i then length xs - 1 else j"
    have k: "swap_out xs i ! j = xs ! ?k" "?k < length xs" "?k \<noteq> i" using j(1) assms(3) by (auto simp: nth_swap_out)
    have "eqv cmp c (xs ! ?k) (xs ! i)" using eqv_trans [OF assms(1) j(2) eqv_sym [OF assms(1) e]] k(1) by simp
    then show False using assms(2,3) k(2,3) unfolding unique_def by blast
  qed
  then show ?thesis using member_swap_out [OF assms(3)] by blast
qed

lemma set_remove_ok:
  assumes "heap_ok h" "h_struct h a = Some v" "load e (unat (v_element_size v)) h = Some x"
  obtains (removed) i h' where "set_remove cmp (Some a) (Some e) h = Some (0, h')" "i < length (elems h a)" "eqv cmp (s_comparator v) (elems h a ! i) x"
      "leaves a h h' (swap_out (elems h a) i)" "h_log h' = h_log h @ destroyed v [elems h a ! i]"
    | (absent) "set_remove cmp (Some a) (Some e) h = Some (1, h)" "\<not> member cmp (s_comparator v) (elems h a) x"
  using assms
proof (cases rule: set_find_ok [where cmp = cmp])
  case (found i)
  note u = of_nat_index [OF assms(1,2) found(1)]
  obtain h' where "set_remove_at (Some a) (of_nat i) h = Some (0, h')" "leaves a h h' (swap_out (elems h a) (unat (of_nat i :: u64)))"
    "h_log h' = h_log h @ destroyed v [elems h a ! unat (of_nat i :: u64)]" using remove_at_ok [OF assms(1,2) u(2)] .
  then show ?thesis using that(1) [of h' i] found u by (simp add: set_remove_def)
next
  case absent
  then show ?thesis using that(2) by (simp add: set_remove_def)
qed

lemma leaves_set: "leaves a h h' xs \<Longrightarrow> h_struct h a = Some v \<Longrightarrow>
    \<exists>v'. h_struct h' a = Some v' \<and> v_element_size v' = v_element_size v \<and> v_destructor v' = v_destructor v \<and> s_comparator v' = s_comparator v"
proof -
  assume "leaves a h h' xs" "h_struct h a = Some v"
  from leaves_struct [OF this] obtain v' where v': "h_struct h' a = Some v'" "v_element_size v' = v_element_size v" "v_destructor v' = v_destructor v"
    "vector_t.more v' = vector_t.more v" by blast
  moreover from v'(4) have "s_comparator v' = s_comparator v" by (cases v; cases v') simp
  ultimately show ?thesis by blast
qed

section \<open>Removing duplicates\<close>

text \<open>\<open>ys\<close> is \<open>xs\<close> without the elements \<open>gone\<close>, with the first \<open>m\<close> elements in place.\<close>

definition pruned :: "nat \<Rightarrow> byte list list \<Rightarrow> byte list list \<Rightarrow> byte list list \<Rightarrow> bool" where
  "pruned m xs ys gone \<longleftrightarrow> mset ys + mset gone = mset xs \<and> m \<le> length ys \<and> take m ys = take m xs"

lemma pruned_refl: "m \<le> length xs \<Longrightarrow> pruned m xs xs []"
  by (simp add: pruned_def)

lemma pruned_nth: "pruned m xs ys gone \<Longrightarrow> k < m \<Longrightarrow> ys ! k = xs ! k"
  unfolding pruned_def by (metis nth_take)

lemma pruned_less: "pruned m xs ys gone \<Longrightarrow> k \<le> m \<Longrightarrow> pruned k xs ys gone"
  unfolding pruned_def by (metis le_trans min.absorb1 take_take)

lemma pruned_trans: "pruned m xs ys gone \<Longrightarrow> pruned m ys zs gone' \<Longrightarrow> pruned m xs zs (gone @ gone')"
  unfolding pruned_def by (metis mset_append union_assoc union_commute)

lemma pruned_remove:
  assumes "j < length xs" "pruned j (swap_out xs j) ys gone"
  shows "pruned j xs ys (xs ! j # gone)"
proof -
  have "swap_out xs j ! k = xs ! k" if "k < j" for k using that assms(1) by (simp add: nth_swap_out)
  then have "take j (swap_out xs j) = take j xs" using assms(1) by (intro nth_take_lemma) auto
  moreover have "mset ys + mset gone = mset (swap_out xs j)" using assms(2) by (simp add: pruned_def)
  then have "mset ys + mset (xs ! j # gone) = mset xs" using mset_swap_out [OF assms(1)] by simp
  ultimately show ?thesis using assms(2) by (simp add: pruned_def)
qed

lemma pruned_drop: "pruned m xs ys gone \<Longrightarrow> k \<le> m \<Longrightarrow> set (drop k ys) \<subseteq> set (drop k xs)"
proof -
  assume "pruned m xs ys gone" "k \<le> m"
  then have "pruned k xs ys gone" by (rule pruned_less)
  then have p: "mset ys + mset gone = mset xs" "take k ys = take k xs" by (simp_all add: pruned_def)
  have "mset ys = mset (take k ys) + mset (drop k ys)" "mset xs = mset (take k xs) + mset (drop k xs)"
    by (simp_all flip: mset_append)
  then have "mset (drop k ys) + mset gone = mset (drop k xs)" using p by (simp add: ac_simps)
  then have "mset (drop k ys) \<subseteq># mset (drop k xs)" by (metis mset_subset_eq_add_left)
  then show ?thesis using set_mset_mono by fastforce
qed

text \<open>What the inner loop leaves from slot \<open>j\<close> on for the element \<open>x\<close> it compares with.\<close>

definition cleaned :: "comparators \<Rightarrow> nat \<Rightarrow> byte list \<Rightarrow> nat \<Rightarrow> set_t \<Rightarrow> sheap \<Rightarrow> sheap \<Rightarrow> byte list list \<Rightarrow> bool" where
  "cleaned cmp a x j v h h' gone \<longleftrightarrow> leaves a h h' (elems h' a) \<and> h_log h' = h_log h @ destroyed v gone \<and> pruned j (elems h a) (elems h' a) gone \<and>
     list_all (eqv cmp (s_comparator v) x) gone \<and> list_all (\<lambda>y. \<not> eqv cmp (s_comparator v) x y) (drop j (elems h' a))"

lemma cleaned_done: "heap_ok h \<Longrightarrow> length (elems h a) = j \<Longrightarrow> cleaned cmp a x j v h h []"
  by (simp add: cleaned_def pruned_refl)

lemma cleaned_remove:
  assumes "j < length (elems h a)" "leaves a h h1 (swap_out (elems h a) j)" "h_log h1 = h_log h @ destroyed v [elems h a ! j]"
    "eqv cmp (s_comparator v) x (elems h a ! j)" "v_destructor v1 = v_destructor v" "s_comparator v1 = s_comparator v" "cleaned cmp a x j v1 h1 h' gone"
  shows "cleaned cmp a x j v h h' (elems h a ! j # gone)"
proof -
  have "elems h1 a = swap_out (elems h a) j" using assms(2) by (simp add: leaves_def)
  then have "pruned j (elems h a) (elems h' a) (elems h a ! j # gone)" using pruned_remove [OF assms(1)] assms(7) by (simp add: cleaned_def)
  moreover have "h_log h' = h_log h @ destroyed v (elems h a ! j # gone)"
    using assms(3,5,7) by (simp add: cleaned_def destroyed_def split: option.splits)
  ultimately show ?thesis using assms(4,6,7) leaves_trans [OF assms(2)] by (simp add: cleaned_def)
qed

lemma cleaned_skip:
  assumes "j < length (elems h a)" "\<not> eqv cmp (s_comparator v) x (elems h a ! j)" "cleaned cmp a x (Suc j) v h h' gone"
  shows "cleaned cmp a x j v h h' gone"
proof -
  have p: "pruned (Suc j) (elems h a) (elems h' a) gone" using assms(3) by (simp add: cleaned_def)
  then have "drop j (elems h' a) = elems h a ! j # drop (Suc j) (elems h' a)"
    using pruned_nth [OF p, of j] by (simp add: pruned_def Cons_nth_drop_Suc [symmetric])
  then show ?thesis using assms(2,3) pruned_less [OF p, of j] by (simp add: cleaned_def)
qed

lemma dedupe_inner_ok:
  assumes "heap_ok h" "h_struct h a = Some v" "unat i < unat j" "unat j \<le> length (elems h a)"
  shows "\<exists>h' gone. dedupe_inner cmp a i j h = Some h' \<and> cleaned cmp a (elems h a ! unat i) (unat j) v h h' gone"
  using assms
proof (induction "length (elems h a) - unat j" arbitrary: h v j)
  case 0
  then have "\<not> j < v_size v" using length_elems [OF 0(2,3)] by (simp add: word_less_nat_alt)
  then have "dedupe_inner cmp a i j h = Some h" using 0(3) by (simp add: dedupe_inner.simps)
  moreover have "length (elems h a) = unat j" using 0(1,5) by simp
  ultimately show ?case using cleaned_done [OF 0(2), of a "unat j" cmp "elems h a ! unat i" v] by blast
next
  case (Suc n)
  note len = length_elems [OF Suc.prems(1,2)]
  have n: "unat i < unat (v_size v)" "unat j < unat (v_size v)" "unat j < length (elems h a)" using Suc.hyps(2) Suc.prems(3) len by simp_all
  then have ij: "i < v_size v" "j < v_size v" by (simp_all add: word_less_nat_alt)
  obtain p where p: "slot_at v i = Some p" "load p (unat (v_element_size v)) h = Some (elems h a ! unat i)"
    using load_slot [OF Suc.prems(1,2) ij(1)] by metis
  obtain q where q: "slot_at v j = Some q" "load q (unat (v_element_size v)) h = Some (elems h a ! unat j)"
    using load_slot [OF Suc.prems(1,2) ij(2)] by metis
  note step = dedupe_inner.simps [of cmp a i j h] and eq = elements_equal_ok [OF Suc.prems(2) p(2) q(2), of cmp]
  let ?x = "elems h a ! unat i"
  show ?case
  proof (cases "eqv cmp (s_comparator v) ?x (elems h a ! unat j)")
    case True
    obtain h1 where h1: "set_remove_at (Some a) j h = Some (0, h1)" "leaves a h h1 (swap_out (elems h a) (unat j))"
      "h_log h1 = h_log h @ destroyed v [elems h a ! unat j]" using remove_at_ok [OF Suc.prems(1,2) ij(2)] .
    obtain v1 where v1: "h_struct h1 a = Some v1" "v_destructor v1 = v_destructor v" "s_comparator v1 = s_comparator v"
      using leaves_set [OF h1(2) Suc.prems(2)] by blast
    have e1: "elems h1 a = swap_out (elems h a) (unat j)" using h1(2) by (simp add: leaves_def)
    have xi: "elems h1 a ! unat i = ?x" using e1 Suc.prems(3) n(3) by (simp add: nth_swap_out)
    have m: "n = length (elems h1 a) - unat j" "unat j \<le> length (elems h1 a)" using Suc.hyps(2) e1 n(3) by simp_all
    obtain h' gone where h': "dedupe_inner cmp a i j h1 = Some h'" "cleaned cmp a ?x (unat j) v1 h1 h' gone"
      using Suc.hyps(1) [OF m(1) leaves_heap_ok [OF h1(2)] v1(1) Suc.prems(3) m(2)] xi by metis
    then show ?thesis
      using cleaned_remove [OF n(3) h1(2,3) True v1(2,3) h'(2)] step Suc.prems(2) ij(2) p(1) q(1) eq True h1(1) by auto
  next
    case False
    have j1: "unat (j + 1) = Suc (unat j)" using unat_next [OF ij(2)] .
    have m: "n = length (elems h a) - unat (j + 1)" "unat i < unat (j + 1)" "unat (j + 1) \<le> length (elems h a)"
      using Suc.hyps(2) Suc.prems(3) j1 n(3) by simp_all
    obtain h' gone where h': "dedupe_inner cmp a i (j + 1) h = Some h'" "cleaned cmp a ?x (Suc (unat j)) v h h' gone"
      using Suc.hyps(1) [OF m(1) Suc.prems(1,2) m(2,3)] j1 by metis
    then show ?thesis
      using cleaned_skip [OF n(3) False h'(2)] step Suc.prems(2) ij(2) p(1) q(1) eq False by auto
  qed
qed

text \<open>The first \<open>m\<close> elements have no equal further up.\<close>

definition heads :: "comparators \<Rightarrow> nat option \<Rightarrow> nat \<Rightarrow> byte list list \<Rightarrow> bool" where
  "heads cmp c m xs \<longleftrightarrow> (\<forall>k < m. \<forall>y \<in> set (drop (Suc k) xs). \<not> eqv cmp c (xs ! k) y)"

lemma heads_pruned: "heads cmp c m xs \<Longrightarrow> pruned m xs ys gone \<Longrightarrow> heads cmp c m ys"
  unfolding heads_def
proof (intro allI impI ballI)
  fix k y assume h: "\<forall>k < m. \<forall>y \<in> set (drop (Suc k) xs). \<not> eqv cmp c (xs ! k) y" and p: "pruned m xs ys gone" and k: "k < m" "y \<in> set (drop (Suc k) ys)"
  have "y \<in> set (drop (Suc k) xs)" using pruned_drop [OF p, of "Suc k"] k by auto
  then show "\<not> eqv cmp c (ys ! k) y" using h k(1) pruned_nth [OF p k(1)] by simp
qed

lemma heads_unique:
  assumes "consistent cmp" "heads cmp c (length xs - 1) xs"
  shows "unique cmp c xs"
proof -
  have lt: "\<not> eqv cmp c (xs ! i) (xs ! j)" if "i < j" "j < length xs" for i j
  proof -
    have "xs ! j = drop (Suc i) xs ! (j - Suc i)" "j - Suc i < length (drop (Suc i) xs)" using that by simp_all
    then have "xs ! j \<in> set (drop (Suc i) xs)" by (metis nth_mem)
    then show ?thesis using assms(2) that by (simp add: heads_def)
  qed
  show ?thesis unfolding unique_def
  proof (intro allI impI)
    fix i j assume ij: "i < length xs" "j < length xs" "eqv cmp c (xs ! i) (xs ! j)"
    then show "i = j" using lt [of i j] lt [of j i] eqv_sym [OF assms(1) ij(3)] by (meson linorder_neqE_nat)
  qed
qed

lemma dedupe_outer_ok:
  assumes "consistent cmp" "heap_ok h" "h_struct h a = Some v" "heads cmp (s_comparator v) (unat i) (elems h a)" "unat i \<le> length (elems h a)" "Suc (unat i) < 2 ^ 64"
  shows "\<exists>h' gone. dedupe_outer cmp a i h = Some h' \<and> leaves a h h' (elems h' a) \<and> h_log h' = h_log h @ destroyed v gone \<and>
    pruned (unat i) (elems h a) (elems h' a) gone \<and> unique cmp (s_comparator v) (elems h' a) \<and>
    list_all (member cmp (s_comparator v) (elems h' a)) gone"
  using assms(2-6)
proof (induction "length (elems h a) - unat i" arbitrary: h v i rule: less_induct)
  case less
  note len = length_elems [OF less.prems(1,2)] and step = dedupe_outer.simps [of cmp a i h]
  have i1: "unat (i + 1) = Suc (unat i)" using less.prems(5) unat_add_lem [of i 1] by simp
  show ?case
  proof (cases "Suc (unat i) < length (elems h a)")
    case True
    then have lt: "unat (i + 1) = Suc (unat i)" "i + 1 < v_size v" using i1 len by (simp_all add: word_less_nat_alt)
    obtain h1 gone1 where h1: "dedupe_inner cmp a i (i + 1) h = Some h1" "cleaned cmp a (elems h a ! unat i) (Suc (unat i)) v h h1 gone1"
      using dedupe_inner_ok [OF less.prems(1,2), of i "i + 1" cmp] True lt(1) by auto
    have p1: "pruned (Suc (unat i)) (elems h a) (elems h1 a) gone1" and l1: "leaves a h h1 (elems h1 a)" using h1(2) by (simp_all add: cleaned_def)
    obtain v1 where v1: "h_struct h1 a = Some v1" "v_destructor v1 = v_destructor v" "s_comparator v1 = s_comparator v"
      using leaves_set [OF l1 less.prems(2)] by blast
    have "heads cmp (s_comparator v) (unat i) (elems h1 a)" using heads_pruned [OF less.prems(3)] pruned_less [OF p1, of "unat i"] by simp
    then have hd1: "heads cmp (s_comparator v1) (unat (i + 1)) (elems h1 a)"
      using h1(2) pruned_nth [OF p1, of "unat i"] v1(3) lt(1) by (auto simp: heads_def cleaned_def list_all_iff less_Suc_eq)
    have "length (elems h1 a) \<le> length (elems h a)" "Suc (unat i) \<le> length (elems h1 a)"
      using p1 unfolding pruned_def by (metis le_add1 size_mset size_union)+
    then have m: "length (elems h1 a) - unat (i + 1) < length (elems h a) - unat i" "unat (i + 1) \<le> length (elems h1 a)" using True lt(1) by simp_all
    have "unat (v_size v) < 2 ^ 64" using unsigned_less [of "v_size v"] by simp
    then have m3: "Suc (unat (i + 1)) < 2 ^ 64" using True lt(1) len by simp
    obtain h' gone where h': "dedupe_outer cmp a (i + 1) h1 = Some h'" "leaves a h1 h' (elems h' a)" "h_log h' = h_log h1 @ destroyed v1 gone"
      "pruned (Suc (unat i)) (elems h1 a) (elems h' a) gone" "unique cmp (s_comparator v) (elems h' a)" "list_all (member cmp (s_comparator v) (elems h' a)) gone"
      using less.hyps [OF m(1) leaves_heap_ok [OF l1] v1(1) hd1 m(2) m3] v1(3) lt(1) by auto
    have "elems h a ! unat i \<in> set (elems h' a)"
      using pruned_nth [OF p1, of "unat i"] pruned_nth [OF h'(4), of "unat i"] h'(4) by (metis lessI less_le_trans nth_mem pruned_def)
    then have "list_all (member cmp (s_comparator v) (elems h' a)) gone1" using h1(2) by (auto simp: cleaned_def list_all_iff member_def)
    moreover have "h_log h' = h_log h @ destroyed v (gone1 @ gone)" using h'(3) h1(2) v1(2) by (simp add: cleaned_def destroyed_def split: option.splits)
    moreover have "pruned (unat i) (elems h a) (elems h' a) (gone1 @ gone)" using pruned_trans [OF p1 h'(4)] pruned_less by fastforce
    moreover have "dedupe_outer cmp a i h = Some h'" using step less.prems(2) lt(2) h1(1) h'(1) by simp
    ultimately show ?thesis using leaves_trans [OF l1 h'(2)] h'(5,6) by (intro exI [of _ h'] exI [of _ "gone1 @ gone"]) simp
  next
    case False
    then have "dedupe_outer cmp a i h = Some h" using step less.prems(2) i1 len by (simp add: word_less_nat_alt)
    moreover have "heads cmp (s_comparator v) (length (elems h a) - 1) (elems h a)"
      using less.prems(3) False by (auto simp: heads_def)
    ultimately show ?thesis
      using heads_unique [OF assms(1)] pruned_refl [OF less.prems(4)] less.prems(1) by (intro exI [of _ h] exI [of _ "[]"]) simp
  qed
qed

section \<open>Sequences of operations\<close>

datatype set_op = Add ptr | Delete ptr | Delete_At u64 | Lookup ptr | Empty_Out | Make_Room u64 | Shrink | Dedupe

fun set_do :: "comparators \<Rightarrow> allocator \<Rightarrow> nat \<Rightarrow> set_op \<Rightarrow> sheap \<Rightarrow> (int \<times> sheap) option" where
  "set_do cmp al a (Add p) h = set_insert cmp al (Some a) (Some p) h"
| "set_do cmp al a (Delete p) h = set_remove cmp (Some a) (Some p) h"
| "set_do cmp al a (Delete_At i) h = set_remove_at (Some a) i h"
| "set_do cmp al a (Lookup p) h = do { c \<leftarrow> set_contains cmp (Some a) (Some p) h; Some (of_bool c, h) }"
| "set_do cmp al a Empty_Out h = set_clear (Some a) h"
| "set_do cmp al a (Make_Room c) h = set_reserve al (Some a) c h"
| "set_do cmp al a Shrink h = set_prune al (Some a) h"
| "set_do cmp al a Dedupe h = set_dedupe cmp (Some a) h"

fun set_run :: "comparators \<Rightarrow> allocator \<Rightarrow> nat \<Rightarrow> set_op list \<Rightarrow> sheap \<Rightarrow> (int list \<times> sheap) option" where
  "set_run cmp al a [] h = Some ([], h)"
| "set_run cmp al a (op # ops) h = do { (r, h1) \<leftarrow> set_do cmp al a op h; (rs, h2) \<leftarrow> set_run cmp al a ops h1; Some (r # rs, h2) }"

text \<open>
  The specification over mathematical sets that are closed under the equality rule \<open>E\<close>: what an operation with
  return code \<open>r\<close> may make of \<open>S\<close>.
\<close>

fun set_step :: "(byte list \<Rightarrow> byte list \<Rightarrow> bool) \<Rightarrow> (ptr \<Rightarrow> byte list) \<Rightarrow> set_op \<Rightarrow> int \<Rightarrow> byte list set \<Rightarrow> byte list set \<Rightarrow> bool" where
  "set_step E val (Add p) r S T = (if val p \<in> S then r = 1 \<and> T = S else r = 0 \<and> T = S \<union> {z. E (val p) z} \<or> r = -1 \<and> T = S)"
| "set_step E val (Delete p) r S T = (if val p \<in> S then r = 0 \<and> T = S - {z. E (val p) z} else r = 1 \<and> T = S)"
| "set_step E val (Delete_At i) r S T = ((\<exists>x \<in> S. r = 0 \<and> T = S - {z. E x z}) \<or> r = -1 \<and> T = S)"
| "set_step E val (Lookup p) r S T = (r = of_bool (val p \<in> S) \<and> T = S)"
| "set_step E val Empty_Out r S T = (r = 0 \<and> T = {})"
| "set_step E val (Make_Room c) r S T = ((r = 0 \<or> r = -1) \<and> T = S)"
| "set_step E val Shrink r S T = ((r = 0 \<or> r = -1) \<and> T = S)"
| "set_step E val Dedupe r S T = (r = 0 \<and> T = S)"

inductive set_steps :: "(byte list \<Rightarrow> byte list \<Rightarrow> bool) \<Rightarrow> (ptr \<Rightarrow> byte list) \<Rightarrow> set_op list \<Rightarrow> int list \<Rightarrow> byte list set \<Rightarrow> byte list set \<Rightarrow> bool"
  for E val where
  set_steps_done: "set_steps E val [] [] S S"
| set_steps_step: "set_step E val op r S T \<Longrightarrow> set_steps E val ops rs T U \<Longrightarrow> set_steps E val (op # ops) (r # rs) S U"

fun set_op_ptrs :: "set_op \<Rightarrow> ptr list" where
  "set_op_ptrs (Add p) = [p]"
| "set_op_ptrs (Delete p) = [p]"
| "set_op_ptrs (Lookup p) = [p]"
| "set_op_ptrs op = []"

definition members :: "comparators \<Rightarrow> nat option \<Rightarrow> byte list list \<Rightarrow> byte list set" where
  "members cmp c xs = {z. member cmp c xs z}"

definition set_simulates :: "comparators \<Rightarrow> allocator \<Rightarrow> nat \<Rightarrow> (ptr \<Rightarrow> byte list) \<Rightarrow> set_op \<Rightarrow> set_t \<Rightarrow> sheap \<Rightarrow> bool" where
  "set_simulates cmp al a val op v h \<longleftrightarrow> (\<exists>r ys h'. set_do cmp al a op h = Some (r, h') \<and> leaves a h h' ys \<and> unique cmp (s_comparator v) ys \<and>
     set_step (eqv cmp (s_comparator v)) val op r (members cmp (s_comparator v) (elems h a)) (members cmp (s_comparator v) ys))"

lemma set_simulatesI: "set_do cmp al a op h = Some (r, h') \<Longrightarrow> leaves a h h' ys \<Longrightarrow> unique cmp (s_comparator v) ys \<Longrightarrow>
    set_step (eqv cmp (s_comparator v)) val op r (members cmp (s_comparator v) (elems h a)) (members cmp (s_comparator v) ys) \<Longrightarrow>
    set_simulates cmp al a val op v h"
  unfolding set_simulates_def by blast

text \<open>Removing the element in one slot removes its class.\<close>

lemma members_swap_out:
  assumes "consistent cmp" "unique cmp c xs" "i < length xs" "eqv cmp c (xs ! i) x"
  shows "members cmp c (swap_out xs i) = members cmp c xs - {z. eqv cmp c x z}" and "x \<in> members cmp c xs"
proof -
  have "eqv cmp c (xs ! i) z \<longleftrightarrow> eqv cmp c x z" for z using assms(1,4) eqv_sym eqv_trans by metis
  then show "members cmp c (swap_out xs i) = members cmp c xs - {z. eqv cmp c x z}"
    using unique_member_swap_out [OF assms(1-3)] by (auto simp: members_def)
  show "x \<in> members cmp c xs" using assms(3,4) by (auto simp: members_def member_def)
qed

lemma set_insert_simulates:
  assumes "consistent cmp" "heap_ok h" "h_struct h a = Some v" "unique cmp (s_comparator v) (elems h a)" "caller_value a h p = Some (val p)"
  shows "set_simulates cmp al a val (Add p) v h"
  using assms(2,3) caller_valueD(1) [OF assms(5,3)]
proof (cases rule: set_insert_ok [where cmp = cmp and al = al])
  case (inserted h')
  then show ?thesis
    using unique_snoc [OF assms(1,4)] by (intro set_simulatesI [of _ _ _ _ _ 0 h']) (auto simp: members_def member_snoc)
next
  case present
  then show ?thesis using assms(2,4) by (intro set_simulatesI [of _ _ _ _ _ 1 h "elems h a"]) (auto simp: members_def)
next
  case (refused h')
  then have "leaves a h h' (elems h a)" using assms(2) by auto
  moreover have "val p \<notin> members cmp (s_comparator v) (elems h a)"
    using refused(3) caller_valueD(2) [OF assms(5,3), of a] by (simp add: members_def)
  ultimately show ?thesis using refused(1) assms(4) by (intro set_simulatesI [of _ _ _ _ _ "-1" h' "elems h a"]) auto
qed

lemma set_remove_simulates:
  assumes "consistent cmp" "heap_ok h" "h_struct h a = Some v" "unique cmp (s_comparator v) (elems h a)" "caller_value a h p = Some (val p)"
  shows "set_simulates cmp al a val (Delete p) v h"
  using assms(2,3) caller_valueD(1) [OF assms(5,3)]
proof (cases rule: set_remove_ok [where cmp = cmp])
  case (removed i h')
  then show ?thesis
    using members_swap_out [OF assms(1,4) removed(2,3)] unique_swap_out [OF assms(4) removed(2)]
    by (intro set_simulatesI [of _ _ _ _ _ 0 h']) auto
next
  case absent
  then show ?thesis using assms(2,4) by (intro set_simulatesI [of _ _ _ _ _ 1 h "elems h a"]) (auto simp: members_def)
qed

lemma set_remove_at_simulates:
  assumes "consistent cmp" "heap_ok h" "h_struct h a = Some v" "unique cmp (s_comparator v) (elems h a)"
  shows "set_simulates cmp al a val (Delete_At i) v h"
proof (cases "i < v_size v")
  case True
  then have i: "unat i < length (elems h a)" using index_iff(1) [OF assms(2,3)] by simp
  obtain h' where h': "set_remove_at (Some a) i h = Some (0, h')" "leaves a h h' (swap_out (elems h a) (unat i))"
    using remove_at_ok [OF assms(2,3) True] by metis
  note m = members_swap_out [OF assms(1,4) i eqv_refl [OF assms(1)]]
  show ?thesis using h' m unique_swap_out [OF assms(4) i] by (intro set_simulatesI [of _ _ _ _ _ 0 h']) auto
next
  case False
  then show ?thesis using assms(2,3,4) by (intro set_simulatesI [of _ _ _ _ _ "-1" h "elems h a"]) (simp_all add: set_remove_at_def not_less)
qed

lemma set_lookup_simulates:
  assumes "heap_ok h" "h_struct h a = Some v" "unique cmp (s_comparator v) (elems h a)" "caller_value a h p = Some (val p)"
  shows "set_simulates cmp al a val (Lookup p) v h"
  using contains_ok [OF assms(1,2) caller_valueD(1) [OF assms(4,2)], of cmp] assms(1,3)
  by (intro set_simulatesI [of _ _ _ _ _ _ h "elems h a"]) (simp_all add: members_def)

lemma set_room_simulates:
  assumes "heap_ok h" "h_struct h a = Some v" "unique cmp (s_comparator v) (elems h a)"
  shows "set_simulates cmp al a val (Make_Room c) v h" "set_simulates cmp al a val Shrink v h" "set_simulates cmp al a val Empty_Out v h"
proof -
  from assms(1,2) show "set_simulates cmp al a val (Make_Room c) v h"
  proof (cases rule: reserve_ok [where al = al and c = c])
    case (reserved h' w)
    then show ?thesis using assms(3) by (intro set_simulatesI [of _ _ _ _ _ 0 h' "elems h a"]) (simp_all add: set_reserve_def)
  next
    case (refused h')
    then have "leaves a h h' (elems h a)" using assms(1) by auto
    then show ?thesis using refused(1) assms(3) by (intro set_simulatesI [of _ _ _ _ _ "-1" h' "elems h a"]) (simp_all add: set_reserve_def)
  qed
  obtain r h' where "vector_prune al (Some a) h = Some (r, h')" "r = 0 \<or> r = -1" "leaves a h h' (elems h a)"
    using prune_ok [OF assms(1,2)] by metis
  then show "set_simulates cmp al a val Shrink v h"
    using assms(3) by (intro set_simulatesI [of _ _ _ _ _ r h' "elems h a"]) (simp_all add: set_prune_def)
  show "set_simulates cmp al a val Empty_Out v h"
    using clear_ok [OF assms(1,2)] by (intro set_simulatesI [where r = 0 and ys = "[]"
        and h' = "(put_struct a (v\<lparr> v_size := 0 \<rparr>) h)\<lparr> h_log := h_log h @ destroyed v (elems h a) \<rparr>"])
      (simp_all add: set_clear_def unique_def members_def member_def)
qed

lemma set_dedupe_ok:
  assumes "consistent cmp" "heap_ok h" "h_struct h a = Some v"
  obtains h' gone where "set_dedupe cmp (Some a) h = Some (0, h')" "leaves a h h' (elems h' a)" "h_log h' = h_log h @ destroyed v gone"
    "mset (elems h' a) + mset gone = mset (elems h a)" "unique cmp (s_comparator v) (elems h' a)"
    "members cmp (s_comparator v) (elems h' a) = members cmp (s_comparator v) (elems h a)"
proof -
  have "heads cmp (s_comparator v) (unat (0 :: u64)) (elems h a)" by (simp add: heads_def)
  then obtain h' gone where d: "dedupe_outer cmp a 0 h = Some h'" "leaves a h h' (elems h' a)" "h_log h' = h_log h @ destroyed v gone"
    "pruned (unat (0 :: u64)) (elems h a) (elems h' a) gone" "unique cmp (s_comparator v) (elems h' a)" "list_all (member cmp (s_comparator v) (elems h' a)) gone"
    using dedupe_outer_ok [OF assms(1-3), of 0] by auto
  have m: "mset (elems h' a) + mset gone = mset (elems h a)" using d(4) by (simp add: pruned_def)
  then have "set (elems h a) = set (elems h' a) \<union> set gone" by (metis set_mset_mset set_mset_union)
  then have "member cmp (s_comparator v) (elems h a) z \<longleftrightarrow> member cmp (s_comparator v) (elems h' a) z" for z
    using d(6) member_eqv [OF assms(1)] by (auto simp: list_all_iff member_def) blast
  then have "members cmp (s_comparator v) (elems h' a) = members cmp (s_comparator v) (elems h a)" by (simp add: members_def)
  then show ?thesis using that [of h' gone] d m by (simp add: set_dedupe_def)
qed

lemma set_dedupe_simulates:
  assumes "consistent cmp" "heap_ok h" "h_struct h a = Some v"
  shows "set_simulates cmp al a val Dedupe v h"
proof -
  obtain h' where "set_dedupe cmp (Some a) h = Some (0, h')" "leaves a h h' (elems h' a)" "unique cmp (s_comparator v) (elems h' a)"
    "members cmp (s_comparator v) (elems h' a) = members cmp (s_comparator v) (elems h a)" using set_dedupe_ok [OF assms] by metis
  then show ?thesis by (intro set_simulatesI [of _ _ _ _ _ 0 h' "elems h' a"]) simp_all
qed

lemmas set_do_simulates = set_insert_simulates set_remove_simulates set_remove_at_simulates set_lookup_simulates set_room_simulates set_dedupe_simulates

lemma set_run_ok:
  assumes "consistent cmp" "heap_ok h" "h_struct h a = Some v" "unique cmp (s_comparator v) (elems h a)"
    "\<forall>op \<in> set ops. \<forall>p \<in> set (set_op_ptrs op). caller_value a h p = Some (val p)"
  shows "\<exists>rs h'. set_run cmp al a ops h = Some (rs, h') \<and> leaves a h h' (elems h' a) \<and> unique cmp (s_comparator v) (elems h' a) \<and>
    set_steps (eqv cmp (s_comparator v)) val ops rs (members cmp (s_comparator v) (elems h a)) (members cmp (s_comparator v) (elems h' a))"
  using assms(2-5)
proof (induction ops arbitrary: h v)
  case Nil
  then show ?case using set_steps_done by (intro exI [of _ "[]"] exI [of _ h]) simp
next
  case (Cons op ops)
  have "set_simulates cmp al a val op v h"
    using Cons.prems assms(1) by (cases op) (simp_all add: set_do_simulates)
  then obtain r ys h1 where s: "set_do cmp al a op h = Some (r, h1)" "leaves a h h1 ys" "unique cmp (s_comparator v) ys"
    "set_step (eqv cmp (s_comparator v)) val op r (members cmp (s_comparator v) (elems h a)) (members cmp (s_comparator v) ys)"
    unfolding set_simulates_def by blast
  obtain v1 where v1: "h_struct h1 a = Some v1" "s_comparator v1 = s_comparator v" using leaves_set [OF s(2) Cons.prems(2)] by blast
  have "\<forall>op \<in> set ops. \<forall>p \<in> set (set_op_ptrs op). caller_value a h1 p = Some (val p)"
    using Cons.prems(4) leaves_caller [OF s(2) Cons.prems(2)] by simp
  moreover have e: "elems h1 a = ys" using s(2) by (simp add: leaves_def)
  ultimately obtain rs h' where t: "set_run cmp al a ops h1 = Some (rs, h')" "leaves a h1 h' (elems h' a)" "unique cmp (s_comparator v) (elems h' a)"
    "set_steps (eqv cmp (s_comparator v)) val ops rs (members cmp (s_comparator v) ys) (members cmp (s_comparator v) (elems h' a))"
    using Cons.IH [OF leaves_heap_ok [OF s(2)] v1(1)] v1(2) s(3) by auto
  then show ?case using s(1) set_steps_step [OF s(4) t(4)] leaves_trans [OF s(2) t(2)]
    by (intro exI [of _ "r # rs"] exI [of _ h']) simp
qed

end
