(* ===== verification/Dlibc_Set_Algebra.thy ===== *)
theory Dlibc_Set_Algebra
  imports Dlibc_Set_Spec
begin

text \<open>
  The operations of \<^verbatim>\<open>include/dlibc/set.h\<close> on two sets: union, intersection and difference build a new set that
  holds exactly the members it should, and inclusion and equality are decided by membership.
\<close>

section \<open>The empty result\<close>

lemma set_create_ok:
  assumes "heap_ok h"
  obtains (created) h' b where "set_create al es h = Some (Some (h_next h), h')" "heap_ok h'" "only (h_next h) h h'" "elems h' (h_next h) = []" "h_log h' = h_log h"
      "h_struct h' (h_next h) = Some \<lparr> v_size = 0, v_capacity = 10, v_element_size = es, v_data = Some b, v_destructor = None, s_comparator = None \<rparr>"
    | (refused) h' where "set_create al es h = Some (None, h')" "frame h h'" "h_data h' = h_data h" "h_log h' = h_log h"
      "es = 0 \<or> UINT64_MAX div es < 10 \<or> \<not> al_ok al (h_calls h) \<or> \<not> al_ok al (Suc (h_calls h))"
proof (cases "es = 0 \<or> UINT64_MAX div es < 10")
  case True
  moreover have "frame h h" using assms by (auto simp: frame_def heap_ok_def)
  ultimately show ?thesis using refused [of h] by (auto simp: set_create_def SET_INITIAL_CAPACITY_def)
next
  case False
  let ?v = "\<lparr> v_size = 0, v_capacity = 10, v_element_size = es, v_data = None, v_destructor = None, s_comparator = None \<rparr> :: set_t"
  have c: "set_create al es h = make_struct al ?v h" using False by (simp add: set_create_def SET_INITIAL_CAPACITY_def)
  show ?thesis
  proof (rule make_struct_ok [OF assms, of ?v al])
    fix h' b assume "make_struct al ?v h = Some (Some (h_next h), h')" "heap_ok h'" "only (h_next h) h h'" "elems h' (h_next h) = []"
      "h_log h' = h_log h" "h_struct h' (h_next h) = Some (?v\<lparr> v_data := Some b \<rparr>)"
    then show ?thesis using created [of h'] c by simp
  qed (use False c refused in simp_all)
qed

text \<open>The heap is as before up to freed memory and the count of allocations.\<close>

definition same_sets :: "sheap \<Rightarrow> sheap \<Rightarrow> bool" where
  "same_sets h h' \<longleftrightarrow> heap_ok h' \<and> h_struct h' = h_struct h \<and> elems h' = elems h \<and> outside h' = outside h \<and> h_log h' = h_log h"

lemma fresh_result_ok:
  assumes "heap_ok h" "h_struct h a = Some v" "h_struct h b = Some w"
    and "v_element_size w = v_element_size v" "s_comparator w = s_comparator v" "v_destructor v = None" "v_destructor w = None"
  obtains (created) h' n u where "fresh_result al (Some a) (Some b) h = Some (Some n, h')" "heap_ok h'" "only n h h'" "h_struct h n = None" "elems h' n = []"
      "h_log h' = h_log h" "h_struct h' n = Some u" "v_element_size u = v_element_size v" "s_comparator u = s_comparator v" "v_destructor u = None"
    | (refused) h' where "fresh_result al (Some a) (Some b) h = Some (None, h')" "same_sets h h'"
      "v_element_size v = 0 \<or> UINT64_MAX div v_element_size v < 10 \<or> \<not> al_ok al (h_calls h) \<or> \<not> al_ok al (Suc (h_calls h))"
proof -
  have f: "fresh_result al (Some a) (Some b) h = do {
      (result, h1) \<leftarrow> set_create al (v_element_size v) h;
      case result of None \<Rightarrow> Some (None, h1)
      | Some n \<Rightarrow> do { w \<leftarrow> h_struct h1 n; Some (result, put_struct n (w\<lparr> s_comparator := s_comparator v \<rparr>) h1) } }"
    using assms by (simp add: fresh_result_def set_is_compatible_def)
  from assms(1) show ?thesis
  proof (cases rule: set_create_ok [where al = al and es = "v_element_size v"])
    case (created h1 d)
    let ?u = "\<lparr> v_size = 0, v_capacity = 10, v_element_size = v_element_size v, v_data = Some d, v_destructor = None, s_comparator = s_comparator v \<rparr> :: set_t"
    note p = put_same_layout [OF created(2,6), of ?u]
    have "only (h_next h) h (put_struct (h_next h) ?u h1)" using only_trans [OF created(2,3) p(2)] by simp
    moreover have "h_struct (put_struct (h_next h) ?u h1) (h_next h) = Some ?u" by (simp add: put_struct_def)
    ultimately show ?thesis
      using that(1) [of "h_next h" "put_struct (h_next h) ?u h1" ?u] p(1,3) created f heap_ok_unused [OF assms(1)]
      by (simp add: put_struct_def)
  next
    case (refused h1)
    have "owns h1 = owns h" "heap_ok h1" "elems h1 = elems h" using refused(2) frame_owns frame_elems frame_heap_ok [OF refused(2) assms(1)] by blast+
    moreover have "h_struct h1 = h_struct h" using refused(2) by (simp add: frame_def)
    ultimately have "same_sets h h1" using refused(3,4) by (simp add: same_sets_def outside_def)
    then show ?thesis using that(2) refused(1,5) f by simp
  qed
qed

section \<open>The loops that fill the result\<close>

lemma word_le_div: "unat x * unat y < 2 ^ 64 \<Longrightarrow> y \<noteq> 0 \<Longrightarrow> x \<le> UINT64_MAX div (y :: u64)"
proof -
  assume "unat x * unat y < 2 ^ 64" "y \<noteq> 0"
  then have "unat x \<le> unat UINT64_MAX div unat y" by (simp add: less_eq_div_iff_mult_less_eq unat_gt_0)
  then show ?thesis by (metis unat_div word_le_nat_alt)
qed

lemma can_grow:
  assumes "\<And>k. al_ok al k" "v_element_size v \<noteq> 0" "2 * unat (v_capacity v) * unat (v_element_size v) < 2 ^ 64"
  shows "\<not> cannot_grow al v h"
proof -
  have es: "1 \<le> unat (v_element_size v)" using assms(2) by (simp add: Suc_le_eq unat_gt_0)
  have "2 * unat (v_capacity v) * 1 \<le> 2 * unat (v_capacity v) * unat (v_element_size v)" using es by (rule mult_le_mono2)
  then have c: "unat (v_capacity v) * 2 < 2 ^ 64" using assms(3) by linarith
  then have "unat (v_capacity v * 2) = unat (v_capacity v) * 2" using unat_mult_lem [of "v_capacity v" 2] by simp
  then show ?thesis using word_le_div [of "v_capacity v * 2" "v_element_size v"] word_le_div [of "v_capacity v" 2] assms c
    by (auto simp: cannot_grow_def not_less mult.commute)
qed

text \<open>A heap in which the new set \<open>n\<close> is being filled with elements for the set \<open>v\<close> of \<open>h0\<close>.\<close>

definition filling :: "comparators \<Rightarrow> set_t \<Rightarrow> nat \<Rightarrow> sheap \<Rightarrow> sheap \<Rightarrow> bool" where
  "filling cmp v n h0 h \<longleftrightarrow> heap_ok h \<and> only n h0 h \<and> h_log h = h_log h0 \<and> unique cmp (s_comparator v) (elems h n) \<and>
     (\<exists>u. h_struct h n = Some u \<and> v_element_size u = v_element_size v \<and> s_comparator u = s_comparator v \<and> v_destructor u = None)"

lemma filling_leaves:
  assumes "filling cmp v n h0 h" "leaves n h h1 ys" "h_log h1 = h_log h" "unique cmp (s_comparator v) ys"
  shows "filling cmp v n h0 h1"
proof -
  obtain u where u: "h_struct h n = Some u" "v_element_size u = v_element_size v" "s_comparator u = s_comparator v" "v_destructor u = None"
    using assms(1) by (auto simp: filling_def)
  have "only n h0 h1" using assms(1,2) only_trans [of h n h0 h1] by (simp add: filling_def leaves_def)
  then show ?thesis using assms leaves_set [OF assms(2) u(1)] u(2-4) by (auto simp: filling_def leaves_def)
qed

lemma destroy_result:
  assumes "heap_ok h0" "h_struct h0 n = None" "filling cmp v n h0 h"
  obtains h' where "set_destroy (Some (Some n)) h = Some (0, Some None, h')" "same_sets h0 h'"
proof -
  obtain u where u: "heap_ok h" "h_struct h n = Some u" "v_destructor u = None" "only n h0 h" "h_log h = h_log h0" using assms(3) by (auto simp: filling_def)
  obtain h' where h': "vector_destroy (Some (Some n)) h = Some (0, Some None, h')" "heap_ok h'" "only n h h'" "h_struct h' n = None"
    "h_log h' = h_log h @ destroyed u (elems h n)" using destroy_ok [OF u(1,2)] .
  have o: "only n h0 h'" using only_trans [OF u(1,4) h'(3)] .
  have "h_struct h' c = h_struct h0 c" "elems h' c = elems h0 c" for c
    using o h'(4) assms(2) only_struct [OF o, of c] only_elems [OF assms(1) o, of c] by (cases "c = n"; simp add: elems_def)+
  then show ?thesis using that [of h'] h' u(3,5) o by (simp add: same_sets_def set_destroy_def destroyed_def fun_eq_iff only_def)
qed

text \<open>An element of another set can still be read while the result is filled.\<close>

lemma load_source:
  assumes "heap_ok h0" "h_struct h0 n = None" "filling cmp v n h0 h" "h_struct h0 s = Some w" "v_element_size w = v_element_size v" "i < length (elems h0 s)"
  obtains e where "h_struct h s = Some w" "slot_at w (of_nat i) = Some e" "load e (unat (v_element_size v)) h = Some (elems h0 s ! i)"
proof -
  have f: "heap_ok h" "only n h0 h" using assms(3) by (simp_all add: filling_def)
  have ne: "s \<noteq> n" using assms(2,4) by auto
  have w: "h_struct h s = Some w" "elems h s = elems h0 s" using only_struct [OF f(2) ne] only_elems [OF assms(1) f(2) ne] assms(4) by simp_all
  have i: "i < length (elems h s)" using assms(6) w(2) by simp
  show ?thesis using load_slot [OF f(1) w(1) of_nat_index(2) [OF f(1) w(1) i]] of_nat_index(1) [OF f(1) w(1) i] w that assms(5) by metis
qed

text \<open>
  What a loop that copies the elements \<open>xs\<close> into \<open>n\<close> ends with: all their classes in the result, or, when an
  insertion fails, no result and the old sets. With memory and room enough no insertion fails.
\<close>

definition filled :: "comparators \<Rightarrow> allocator \<Rightarrow> set_t \<Rightarrow> nat \<Rightarrow> sheap \<Rightarrow> sheap \<Rightarrow> byte list list \<Rightarrow> bool \<Rightarrow> sheap \<Rightarrow> bool" where
  "filled cmp al v n h0 h xs ok h' \<longleftrightarrow>
     (if ok then filling cmp v n h0 h' \<and> length (elems h' n) \<le> length (elems h n) + length xs \<and>
        members cmp (s_comparator v) (elems h' n) = members cmp (s_comparator v) (elems h n) \<union> members cmp (s_comparator v) xs
      else same_sets h0 h' \<and> \<not> ((\<forall>k. al_ok al k) \<and> 2 * (length (elems h n) + length xs) * unat (v_element_size v) < 2 ^ 64))"

lemma filled_none: "filling cmp v n h0 h \<Longrightarrow> filled cmp al v n h0 h [] True h"
  by (simp add: filled_def members_def member_def)

lemma members_Cons: "members cmp c (x # xs) = {z. eqv cmp c x z} \<union> members cmp c xs"
  by (auto simp: members_def member_def)

lemma members_closed: "consistent cmp \<Longrightarrow> member cmp c xs x \<Longrightarrow> {z. eqv cmp c x z} \<subseteq> members cmp c xs"
  using member_eqv by (auto simp: members_def)

lemma mult_room: "2 * (a + b) * c < (2 :: nat) ^ 64 \<Longrightarrow> a' + b' \<le> a + b \<Longrightarrow> 2 * (a' + b') * c < 2 ^ 64"
  by (meson le_less_trans mult_le_mono1 mult_le_mono2)

lemma filled_step:
  assumes "filled cmp al v n h0 h1 xs ok h'" "members cmp (s_comparator v) (elems h1 n) = members cmp (s_comparator v) (elems h n) \<union> {z. eqv cmp (s_comparator v) x z}"
    "length (elems h1 n) \<le> Suc (length (elems h n))"
  shows "filled cmp al v n h0 h (x # xs) ok h'"
  using assms mult_room [of "length (elems h n)" "length (x # xs)" "unat (v_element_size v)" "length (elems h1 n)" "length xs"]
  by (auto simp: filled_def members_Cons)

lemma insert_refused_room:
  assumes "heap_ok h" "h_struct h n = Some u" "v_size u = v_capacity u" "cannot_grow al u h"
  shows "\<not> ((\<forall>k. al_ok al k) \<and> 2 * (length (elems h n) + k) * unat (v_element_size u) < 2 ^ 64)"
proof
  assume a: "(\<forall>k. al_ok al k) \<and> 2 * (length (elems h n) + k) * unat (v_element_size u) < 2 ^ 64"
  have "v_element_size u \<noteq> 0" using assms(1,2) by (auto elim: heap_okD)
  moreover have "2 * unat (v_capacity u) * unat (v_element_size u) < 2 ^ 64"
    using mult_room [of "length (elems h n)" k "unat (v_element_size u)" "length (elems h n)" 0] a assms(3) length_elems [OF assms(1,2)] by simp
  ultimately show False using can_grow assms(4) a by blast
qed

lemma insert_loop_ok:
  assumes "consistent cmp" "heap_ok h0" "h_struct h0 n = None" "h_struct h0 s = Some w" "v_element_size w = v_element_size v"
    and keep: "\<And>e x h. filling cmp v n h0 h \<Longrightarrow> load e (unat (v_element_size v)) h = Some x \<Longrightarrow> keep e h = Some (K x)"
    and "filling cmp v n h0 h" "set is \<subseteq> {0..<length (elems h0 s)}"
  shows "\<exists>ok h'. insert_loop cmp al keep n s is h = Some (ok, h') \<and> filled cmp al v n h0 h (filter K (map ((!) (elems h0 s)) is)) ok h'"
  using assms(7,8)
proof (induction "is" arbitrary: h)
  case Nil
  then show ?case using filled_none by auto
next
  case (Cons i "is")
  let ?x = "elems h0 s ! i" and ?xs = "filter K (map ((!) (elems h0 s)) is)"
  have i: "i < length (elems h0 s)" "set is \<subseteq> {0..<length (elems h0 s)}" using Cons.prems(2) by auto
  obtain e where e: "h_struct h s = Some w" "slot_at w (of_nat i) = Some e" "load e (unat (v_element_size v)) h = Some ?x"
    using load_source [OF assms(2,3) Cons.prems(1) assms(4,5) i(1)] .
  note k = keep [OF Cons.prems(1) e(3)]
  show ?case
  proof (cases "K ?x")
    case False
    then show ?thesis using Cons.IH [OF Cons.prems(1) i(2)] e(1,2) k by auto
  next
    case True
    obtain u where u: "heap_ok h" "h_struct h n = Some u" "v_element_size u = v_element_size v" "s_comparator u = s_comparator v" "v_destructor u = None"
      "unique cmp (s_comparator v) (elems h n)" using Cons.prems(1) by (auto simp: filling_def)
    have l: "load e (unat (v_element_size u)) h = Some ?x" using e(3) u(3) by simp
    from u(1,2) l show ?thesis
    proof (cases rule: set_insert_ok [where cmp = cmp and al = al])
      case (inserted h1)
      have e1: "elems h1 n = elems h n @ [?x]" using inserted(2) by (simp add: leaves_def)
      have f1: "filling cmp v n h0 h1" using filling_leaves [OF Cons.prems(1) inserted(2,3)] unique_snoc [OF assms(1) u(6)] inserted(4) u(4) by simp
      obtain ok h' where r: "insert_loop cmp al keep n s is h1 = Some (ok, h')" "filled cmp al v n h0 h1 ?xs ok h'" using Cons.IH [OF f1 i(2)] by blast
      have "filled cmp al v n h0 h (?x # ?xs) ok h'" using filled_step [OF r(2)] e1 by (auto simp: members_def member_snoc)
      then show ?thesis using r(1) True e(1,2) k inserted(1) by auto
    next
      case present
      obtain ok h' where r: "insert_loop cmp al keep n s is h = Some (ok, h')" "filled cmp al v n h0 h ?xs ok h'" using Cons.IH [OF Cons.prems(1) i(2)] by blast
      have "members cmp (s_comparator v) (elems h n) = members cmp (s_comparator v) (elems h n) \<union> {z. eqv cmp (s_comparator v) ?x z}"
        using members_closed [OF assms(1) present(2)] u(4) by auto
      then have "filled cmp al v n h0 h (?x # ?xs) ok h'" by (intro filled_step [OF r(2)]) simp_all
      then show ?thesis using r(1) True e(1,2) k present(1) by auto
    next
      case (refused h1)
      have f1: "filling cmp v n h0 h1" using Cons.prems(1) refused(2) u(1) filling_leaves [OF Cons.prems(1), of h1 "elems h n"] u(6) by auto
      obtain h' where d: "set_destroy (Some (Some n)) h1 = Some (0, Some None, h')" "same_sets h0 h'" using destroy_result [OF assms(2,3) f1] .
      have "\<not> ((\<forall>k. al_ok al k) \<and> 2 * (length (elems h n) + length (?x # ?xs)) * unat (v_element_size v) < 2 ^ 64)"
        using insert_refused_room [OF u(1,2), of al "length (?x # ?xs)"] refused(3) u(3,5) by simp
      then have "filled cmp al v n h0 h (?x # ?xs) False h'" using d(2) by (simp add: filled_def)
      then show ?thesis using True e(1,2) k refused(1) d(1) by auto
    qed
  qed
qed

section \<open>Union, intersection, difference\<close>

text \<open>Two sets that may be combined.\<close>

definition combinable :: "sheap \<Rightarrow> nat \<Rightarrow> nat \<Rightarrow> set_t \<Rightarrow> bool" where
  "combinable h a b v \<longleftrightarrow> heap_ok h \<and> h_struct h a = Some v \<and> v_destructor v = None \<and>
     (\<exists>w. h_struct h b = Some w \<and> v_element_size w = v_element_size v \<and> s_comparator w = s_comparator v \<and> v_destructor w = None)"

text \<open>Memory for a result with up to \<open>k\<close> elements.\<close>

definition roomy :: "allocator \<Rightarrow> set_t \<Rightarrow> nat \<Rightarrow> bool" where
  "roomy al v k \<longleftrightarrow> (\<forall>i. al_ok al i) \<and> 10 * unat (v_element_size v) < 2 ^ 64 \<and> 2 * k * unat (v_element_size v) < 2 ^ 64"

text \<open>A new set with the members \<open>M\<close> and everything else as it was; no result only for want of memory.\<close>

definition new_set_with :: "comparators \<Rightarrow> allocator \<Rightarrow> set_t \<Rightarrow> nat \<Rightarrow> sheap \<Rightarrow> byte list set \<Rightarrow> nat option \<times> sheap \<Rightarrow> bool" where
  "new_set_with cmp al v k h M = (\<lambda>(r, h'). case r of
       None \<Rightarrow> same_sets h h' \<and> \<not> roomy al v k
     | Some n \<Rightarrow> h_struct h n = None \<and> filling cmp v n h h' \<and> members cmp (s_comparator v) (elems h' n) = M)"

lemma fresh_refused:
  assumes "heap_ok h" "h_struct h a = Some v" "roomy al v k"
  shows "\<not> (v_element_size v = 0 \<or> UINT64_MAX div v_element_size v < 10 \<or> \<not> al_ok al i \<or> \<not> al_ok al j)"
proof -
  have "v_element_size v \<noteq> 0" using assms(1,2) by (auto elim: heap_okD)
  then show ?thesis using assms(3) word_le_div [of 10 "v_element_size v"] by (auto simp: roomy_def not_less)
qed

lemma map_nth_all: "map ((!) xs) [0..<length xs] = xs"
  by (rule map_nth)

lemma fresh_filling:
  assumes "heap_ok h'" "only n h h'" "elems h' n = []" "h_log h' = h_log h" "h_struct h' n = Some u"
    "v_element_size u = v_element_size v" "s_comparator u = s_comparator v" "v_destructor u = None"
  shows "filling cmp v n h h'" "members cmp (s_comparator v) (elems h' n) = {}"
  using assms by (auto simp: filling_def unique_def members_def member_def)

lemma size_of_source:
  assumes "heap_ok h0" "h_struct h0 n = None" "filling cmp v n h0 h" "h_struct h0 s = Some w"
  shows "size_of s h = Some (length (elems h0 s))"
proof -
  have "s \<noteq> n" using assms(2,4) by auto
  then show ?thesis using assms(3,4) length_elems [OF assms(1,4)] by (simp add: size_of_def filling_def only_def)
qed

lemma set_filtered_ok:
  assumes "consistent cmp" "combinable h a b v"
    and keep: "\<And>n e x h'. h_struct h n = None \<Longrightarrow> filling cmp v n h h' \<Longrightarrow> load e (unat (v_element_size v)) h' = Some x \<Longrightarrow> keep e h' = Some (K x)"
  shows "\<exists>r. set_filtered cmp al keep (Some a) (Some b) h = Some r \<and>
    new_set_with cmp al v (length (elems h a)) h (members cmp (s_comparator v) (filter K (elems h a))) r"
proof -
  obtain w where c: "heap_ok h" "h_struct h a = Some v" "h_struct h b = Some w" "v_element_size w = v_element_size v" "s_comparator w = s_comparator v"
    "v_destructor v = None" "v_destructor w = None" using assms(2) by (auto simp: combinable_def)
  from c show ?thesis
  proof (cases rule: fresh_result_ok [where al = al])
    case (created h1 n u)
    note f = fresh_filling [where cmp = cmp, OF created(2,3,5-10)]
    have "\<exists>ok h'. insert_loop cmp al keep n a [0..<length (elems h a)] h1 = Some (ok, h') \<and>
        filled cmp al v n h h1 (filter K (map ((!) (elems h a)) [0..<length (elems h a)])) ok h'"
      by (rule insert_loop_ok [OF assms(1) c(1) created(4) c(2) _ _ f(1)]) (use keep [OF created(4)] in simp_all)
    then obtain ok h' where l: "insert_loop cmp al keep n a [0..<length (elems h a)] h1 = Some (ok, h')"
      "filled cmp al v n h h1 (filter K (elems h a)) ok h'" unfolding map_nth_all by blast
    have "set_filtered cmp al keep (Some a) (Some b) h = Some (if ok then Some n else None, h')"
      using created(1) l(1) size_of_source [OF c(1) created(4) f(1) c(2)] by (simp add: set_filtered_def)
    moreover have "new_set_with cmp al v (length (elems h a)) h (members cmp (s_comparator v) (filter K (elems h a))) (if ok then Some n else None, h')"
      using l(2) created(4,5) f(2) mult_room [of 0 "length (elems h a)" "unat (v_element_size v)" 0 "length (filter K (elems h a))"]
      by (auto simp: new_set_with_def filled_def roomy_def)
    ultimately show ?thesis by blast
  next
    case (refused h1)
    then have "new_set_with cmp al v (length (elems h a)) h (members cmp (s_comparator v) (filter K (elems h a))) (None, h1)"
      using fresh_refused [OF c(1,2)] by (auto simp: new_set_with_def)
    then show ?thesis using refused(1) by (auto simp: set_filtered_def)
  qed
qed

lemma set_union_ok:
  assumes "consistent cmp" "combinable h a b v"
  shows "\<exists>r. set_union cmp al (Some a) (Some b) h = Some r \<and>
    new_set_with cmp al v (length (elems h a) + length (elems h b)) h (members cmp (s_comparator v) (elems h a) \<union> members cmp (s_comparator v) (elems h b)) r"
proof -
  let ?k = "length (elems h a) + length (elems h b)" and ?M = "members cmp (s_comparator v) (elems h a) \<union> members cmp (s_comparator v) (elems h b)"
  obtain w where c: "heap_ok h" "h_struct h a = Some v" "h_struct h b = Some w" "v_element_size w = v_element_size v" "s_comparator w = s_comparator v"
    "v_destructor v = None" "v_destructor w = None" using assms(2) by (auto simp: combinable_def)
  have copy: "\<exists>ok h'. insert_loop cmp al (\<lambda>_ _. Some True) n s [0..<length (elems h s)] h1 = Some (ok, h') \<and> filled cmp al v n h h1 (elems h s) ok h'"
    if "h_struct h n = None" "h_struct h s = Some x" "v_element_size x = v_element_size v" "filling cmp v n h h1" for n s x h1
    using insert_loop_ok [OF assms(1) c(1) that(1-3), of "\<lambda>_ _. Some True" "\<lambda>_. True" h1 "[0..<length (elems h s)]" al] that(4)
    by (simp add: map_nth_all)
  from c show ?thesis
  proof (cases rule: fresh_result_ok [where al = al])
    case (created h1 n u)
    note f = fresh_filling [where cmp = cmp, OF created(2,3,5-10)]
    obtain ok1 h2 where l1: "insert_loop cmp al (\<lambda>_ _. Some True) n a [0..<length (elems h a)] h1 = Some (ok1, h2)" "filled cmp al v n h h1 (elems h a) ok1 h2"
      using copy [OF created(4) c(2) refl f(1)] by blast
    note sz1 = size_of_source [OF c(1) created(4) f(1) c(2)]
    show ?thesis
    proof (cases ok1)
      case True
      have f2: "filling cmp v n h h2" "members cmp (s_comparator v) (elems h2 n) = members cmp (s_comparator v) (elems h a)"
        "length (elems h2 n) \<le> length (elems h a)" using l1(2) True f(2) created(5) by (simp_all add: filled_def)
      obtain ok2 h3 where l2: "insert_loop cmp al (\<lambda>_ _. Some True) n b [0..<length (elems h b)] h2 = Some (ok2, h3)" "filled cmp al v n h h2 (elems h b) ok2 h3"
        using copy [OF created(4) c(3,4) f2(1)] by blast
      have "set_union cmp al (Some a) (Some b) h = Some (if ok2 then Some n else None, h3)"
        using created(1) l1(1) l2(1) sz1 True size_of_source [OF c(1) created(4) f2(1) c(3)] by (simp add: set_union_def)
      moreover have "new_set_with cmp al v ?k h ?M (if ok2 then Some n else None, h3)"
        using l2(2) f2(2,3) created(4) mult_room [of "length (elems h a)" "length (elems h b)" "unat (v_element_size v)" "length (elems h2 n)" "length (elems h b)"]
        by (auto simp: new_set_with_def filled_def roomy_def)
      ultimately show ?thesis by blast
    next
      case False
      have "set_union cmp al (Some a) (Some b) h = Some (None, h2)" using created(1) l1(1) sz1 False by (simp add: set_union_def)
      moreover have "new_set_with cmp al v ?k h ?M (None, h2)"
        using l1(2) False created(5) mult_room [of "length (elems h a)" "length (elems h b)" "unat (v_element_size v)" 0 "length (elems h a)"]
        by (auto simp: new_set_with_def filled_def roomy_def)
      ultimately show ?thesis by blast
    qed
  next
    case (refused h1)
    then have "new_set_with cmp al v ?k h ?M (None, h1)" using fresh_refused [OF c(1,2)] by (auto simp: new_set_with_def)
    then show ?thesis using refused(1) by (auto simp: set_union_def)
  qed
qed

lemma contains_source:
  assumes "combinable h a b v" "h_struct h n = None" "filling cmp v n h h'" "load e (unat (v_element_size v)) h' = Some x"
  shows "set_contains cmp (Some b) (Some e) h' = Some (member cmp (s_comparator v) (elems h b) x)"
proof -
  obtain w where w: "heap_ok h" "h_struct h b = Some w" "v_element_size w = v_element_size v" "s_comparator w = s_comparator v"
    using assms(1) by (auto simp: combinable_def)
  have ne: "b \<noteq> n" and f: "heap_ok h'" "only n h h'" using assms(2,3) w(2) by (auto simp: filling_def)
  have "elems h' b = elems h b" "h_struct h' b = Some w" using only_elems [OF w(1) f(2) ne] only_struct [OF f(2) ne] w(2) by simp_all
  then show ?thesis using contains_ok [OF f(1), of b w e x cmp] w(3,4) assms(4) by simp
qed

text \<open>Filtering by membership in a closed set filters the classes.\<close>

lemma members_filter:
  assumes "consistent cmp"
  shows "members cmp c (filter (member cmp c ys) xs) = members cmp c xs \<inter> members cmp c ys"
    and "members cmp c (filter (\<lambda>x. \<not> member cmp c ys x) xs) = members cmp c xs - members cmp c ys"
proof -
  have "member cmp c ys x \<longleftrightarrow> member cmp c ys z" if "eqv cmp c x z" for x z
    using that member_eqv [OF assms] eqv_sym [OF assms] by metis
  then show "members cmp c (filter (member cmp c ys) xs) = members cmp c xs \<inter> members cmp c ys"
    "members cmp c (filter (\<lambda>x. \<not> member cmp c ys x) xs) = members cmp c xs - members cmp c ys"
    by (auto simp: members_def member_def [of _ _ xs] member_def [of _ _ "filter _ _"])
qed

section \<open>Inclusion and equality\<close>

lemma subset_loop_ok:
  assumes "heap_ok h" "h_struct h a = Some v" "h_struct h b = Some w" "v_element_size w = v_element_size v" "s_comparator w = s_comparator v"
  shows "set is \<subseteq> {0..<length (elems h a)} \<Longrightarrow>
    subset_loop cmp a (Some b) is h = Some (\<forall>i \<in> set is. member cmp (s_comparator v) (elems h b) (elems h a ! i))"
proof (induction "is")
  case (Cons i "is")
  then have i: "i < length (elems h a)" by simp
  obtain e where e: "slot_at v (of_nat i) = Some e" "load e (unat (v_element_size v)) h = Some (elems h a ! i)"
    using load_slot [OF assms(1,2) of_nat_index(2) [OF assms(1,2) i]] of_nat_index(1) [OF assms(1,2) i] by metis
  have "set_contains cmp (Some b) (Some e) h = Some (member cmp (s_comparator v) (elems h b) (elems h a ! i))"
    using contains_ok [OF assms(1,3), of e _ cmp] e(2) assms(4,5) by simp
  then show ?case using Cons assms(2) e(1) by simp
qed simp

lemma members_subset: "consistent cmp \<Longrightarrow> members cmp c xs \<subseteq> members cmp c ys \<longleftrightarrow> (\<forall>x \<in> set xs. member cmp c ys x)"
proof
  assume "consistent cmp" "members cmp c xs \<subseteq> members cmp c ys"
  then show "\<forall>x \<in> set xs. member cmp c ys x" using eqv_refl by (auto simp: members_def member_def) blast
next
  assume c: "consistent cmp" and s: "\<forall>x \<in> set xs. member cmp c ys x"
  show "members cmp c xs \<subseteq> members cmp c ys"
  proof
    fix z assume "z \<in> members cmp c xs"
    then obtain x where "x \<in> set xs" "eqv cmp c x z" by (auto simp: members_def member_def)
    then have "member cmp c ys z" using s member_eqv [OF c, of c] by blast
    then show "z \<in> members cmp c ys" by (simp add: members_def)
  qed
qed

lemma is_subset_ok:
  assumes "consistent cmp" "heap_ok h" "h_struct h a = Some v" "h_struct h b = Some w" "v_element_size w = v_element_size v" "s_comparator w = s_comparator v"
  shows "set_is_subset cmp (Some a) (Some b) h = Some (members cmp (s_comparator v) (elems h a) \<subseteq> members cmp (s_comparator v) (elems h b))"
proof -
  have "(\<forall>i \<in> set [0..<length (elems h a)]. member cmp (s_comparator v) (elems h b) (elems h a ! i)) \<longleftrightarrow>
      (\<forall>x \<in> set (elems h a). member cmp (s_comparator v) (elems h b) x)" by (auto simp: all_set_conv_all_nth)
  then have "subset_loop cmp a (Some b) [0..<unat (v_size v)] h = Some (members cmp (s_comparator v) (elems h a) \<subseteq> members cmp (s_comparator v) (elems h b))"
    using subset_loop_ok [OF assms(2-6), of "[0..<length (elems h a)]" cmp] members_subset [OF assms(1)] length_elems [OF assms(2,3)] by simp
  then show ?thesis using assms(3-6) by (simp add: set_is_subset_def)
qed

lemma unique_length:
  assumes "consistent cmp" "unique cmp c xs" "members cmp c xs \<subseteq> members cmp c ys"
  shows "length xs \<le> length ys"
proof -
  have "\<exists>j < length ys. eqv cmp c (ys ! j) (xs ! i)" if "i < length xs" for i
  proof -
    have "member cmp c ys (xs ! i)" using assms(3) that members_subset [OF assms(1), of c xs ys] by simp
    then show ?thesis by (auto simp: member_def in_set_conv_nth)
  qed
  then obtain f where f: "\<And>i. i < length xs \<Longrightarrow> f i < length ys \<and> eqv cmp c (ys ! f i) (xs ! i)" by metis
  have "inj_on f {..<length xs}"
  proof (rule inj_onI)
    fix i j assume ij: "i \<in> {..<length xs}" "j \<in> {..<length xs}" "f i = f j"
    then have "eqv cmp c (xs ! i) (xs ! j)" using f [of i] f [of j] eqv_sym [OF assms(1)] eqv_trans [OF assms(1)] by (metis lessThan_iff)
    then show "i = j" using assms(2) ij(1,2) by (simp add: unique_def)
  qed
  moreover have "f ` {..<length xs} \<subseteq> {..<length ys}" using f by auto
  ultimately show ?thesis using card_inj_on_le [of f "{..<length xs}" "{..<length ys}"] by simp
qed

lemma is_equal_ok:
  assumes "consistent cmp" "heap_ok h" "h_struct h a = Some v" "h_struct h b = Some w" "v_element_size w = v_element_size v" "s_comparator w = s_comparator v"
    and "unique cmp (s_comparator v) (elems h a)" "unique cmp (s_comparator v) (elems h b)"
  shows "set_is_equal cmp (Some a) (Some b) h = Some (members cmp (s_comparator v) (elems h a) = members cmp (s_comparator v) (elems h b))"
proof -
  have "v_size v = v_size w" if "members cmp (s_comparator v) (elems h a) = members cmp (s_comparator v) (elems h b)"
    using unique_length [OF assms(1,7)] unique_length [OF assms(1,8)] that length_elems [OF assms(2,3)] length_elems [OF assms(2,4)]
    by (metis antisym order_refl word_unat_eq_iff)
  moreover have "set_is_subset cmp (Some b) (Some a) h = Some (members cmp (s_comparator v) (elems h b) \<subseteq> members cmp (s_comparator v) (elems h a))"
    using is_subset_ok [OF assms(1,2,4,3)] assms(5,6) by simp
  ultimately show ?thesis using assms(3,4) is_subset_ok [OF assms(1-6)] by (auto simp: set_is_equal_def)
qed

section \<open>Properties\<close>

text \<open>
  C38: a set is a mathematical set. Whatever sequence of insertions, removals, look-ups, clearing, resizing and
  deduplication runs on a set, with element pointers into memory of the caller and with any of the allocations
  failing, nothing outside live memory is touched; the members under the set's equality rule and the return codes
  are those the specification allows, no two elements are ever equal, and no other set and no memory of the caller
  is changed or leaked.
\<close>

theorem set_refines_sets:
  assumes "consistent cmp" and "heap_ok h" and "h_struct h a = Some v" and "unique cmp (s_comparator v) (elems h a)"
    and "\<forall>op \<in> set ops. \<forall>p \<in> set (set_op_ptrs op). caller_value a h p = Some (val p)"
  shows "\<exists>rs h'. set_run cmp al a ops h = Some (rs, h') \<and> unique cmp (s_comparator v) (elems h' a) \<and>
    set_steps (eqv cmp (s_comparator v)) val ops rs (members cmp (s_comparator v) (elems h a)) (members cmp (s_comparator v) (elems h' a)) \<and>
    heap_ok h' \<and> outside h' = outside h \<and> (\<forall>c. c \<noteq> a \<longrightarrow> elems h' c = elems h c)"
proof -
  obtain rs h' where r: "set_run cmp al a ops h = Some (rs, h')" "leaves a h h' (elems h' a)" "unique cmp (s_comparator v) (elems h' a)"
    "set_steps (eqv cmp (s_comparator v)) val ops rs (members cmp (s_comparator v) (elems h a)) (members cmp (s_comparator v) (elems h' a))"
    using set_run_ok [OF assms, of al] by blast
  have o: "only a h h'" using r(2) by (simp add: leaves_def)
  then have "outside h' = outside h" "\<forall>c. c \<noteq> a \<longrightarrow> elems h' c = elems h c" using only_elems [OF assms(2) o] by (simp_all add: only_def)
  then show ?thesis using r leaves_heap_ok [OF r(2)] by blast
qed

text \<open>
  C39: deduplication always ends and restores uniqueness, whatever the set held before: what is left and what the
  destructor was called on together are the elements there were, no two that are left are equal, and the members
  are the same.
\<close>

theorem set_dedupe_restores:
  assumes "consistent cmp" and "heap_ok h" and "h_struct h a = Some v"
  shows "\<exists>h' gone. set_dedupe cmp (Some a) h = Some (0, h') \<and> unique cmp (s_comparator v) (elems h' a) \<and>
    mset (elems h' a) + mset gone = mset (elems h a) \<and> h_log h' = h_log h @ destroyed v gone \<and>
    members cmp (s_comparator v) (elems h' a) = members cmp (s_comparator v) (elems h a) \<and> heap_ok h' \<and> only a h h'"
proof -
  obtain h' gone where d: "set_dedupe cmp (Some a) h = Some (0, h')" "leaves a h h' (elems h' a)" "h_log h' = h_log h @ destroyed v gone"
    "mset (elems h' a) + mset gone = mset (elems h a)" "unique cmp (s_comparator v) (elems h' a)"
    "members cmp (s_comparator v) (elems h' a) = members cmp (s_comparator v) (elems h a)" using set_dedupe_ok [OF assms] .
  then show ?thesis by (intro exI [of _ h'] exI [of _ gone]) (simp add: leaves_def)
qed

text \<open>
  C40: union, intersection and difference of two sets with the same rule give a new set with exactly the members
  they should, without equal elements, and change nothing else; they fail only for want of memory, and then
  leave the sets as they were and nothing allocated. The inclusion and the equality test decide inclusion and
  equality of the members.
\<close>

theorem set_algebra:
  assumes "consistent cmp" and "combinable h a b v" and "unique cmp (s_comparator v) (elems h a)" and "unique cmp (s_comparator v) (elems h b)"
  shows "let A = members cmp (s_comparator v) (elems h a); B = members cmp (s_comparator v) (elems h b); m = length (elems h a); k = length (elems h b) in
    (\<exists>r. set_union cmp al (Some a) (Some b) h = Some r \<and> new_set_with cmp al v (m + k) h (A \<union> B) r) \<and>
    (\<exists>r. set_intersection cmp al (Some a) (Some b) h = Some r \<and> new_set_with cmp al v m h (A \<inter> B) r) \<and>
    (\<exists>r. set_difference cmp al (Some a) (Some b) h = Some r \<and> new_set_with cmp al v m h (A - B) r) \<and>
    set_is_subset cmp (Some a) (Some b) h = Some (A \<subseteq> B) \<and> set_is_equal cmp (Some a) (Some b) h = Some (A = B)"
proof -
  obtain w where w: "heap_ok h" "h_struct h a = Some v" "h_struct h b = Some w" "v_element_size w = v_element_size v" "s_comparator w = s_comparator v"
    using assms(2) by (auto simp: combinable_def)
  have "\<exists>r. set_intersection cmp al (Some a) (Some b) h = Some r \<and>
      new_set_with cmp al v (length (elems h a)) h (members cmp (s_comparator v) (filter (member cmp (s_comparator v) (elems h b)) (elems h a))) r"
    unfolding set_intersection_def using contains_source [OF assms(2)] by (intro set_filtered_ok [OF assms(1,2)]) simp
  moreover have "\<exists>r. set_difference cmp al (Some a) (Some b) h = Some r \<and>
      new_set_with cmp al v (length (elems h a)) h (members cmp (s_comparator v) (filter (\<lambda>x. \<not> member cmp (s_comparator v) (elems h b) x) (elems h a))) r"
    unfolding set_difference_def using contains_source [OF assms(2)] by (intro set_filtered_ok [OF assms(1,2)]) simp
  ultimately show ?thesis
    using set_union_ok [OF assms(1,2), of al] is_subset_ok [OF assms(1) w] is_equal_ok [OF assms(1) w assms(3,4)] members_filter [OF assms(1)]
    by (simp add: Let_def)
qed

section \<open>Sets of one-byte elements\<close>

text \<open>Comparator 1 compares the low four bits.\<close>

definition demo_cmp :: comparators where
  "demo_cmp f x y = (if map (\<lambda>b. take_bit 4 b) x = map (\<lambda>b. take_bit 4 b) y then 0 else 1)"

definition demo_set :: "nat \<Rightarrow> nat option \<Rightarrow> u64 \<Rightarrow> set_t" where
  "demo_set b c n = \<lparr> v_size = n, v_capacity = 4, v_element_size = 1, v_data = Some b, v_destructor = None, s_comparator = c \<rparr>"

definition demo_sets :: "nat option \<Rightarrow> sheap" where
  "demo_sets c = \<lparr> h_data = [0 \<mapsto> [5, 2], 1 \<mapsto> [0x11, 0x21, 0x12, 0x22], 2 \<mapsto> [0x11, 3, 0, 0]],
     h_struct = [3 \<mapsto> demo_set 1 c 4, 4 \<mapsto> demo_set 2 c 2], h_next = 5, h_calls = 0, h_log = [] \<rparr>"

lemma demo_consistent: "consistent demo_cmp"
  by (auto simp: consistent_def demo_cmp_def)

lemma demo_sets_ok: "heap_ok (demo_sets c)"
  by (auto simp: heap_ok_def demo_sets_def demo_set_def vec_ok_def split: if_splits)

lemma demo_sets_facts: "h_struct (demo_sets c) 3 = Some (demo_set 1 c 4)" "h_struct (demo_sets c) 4 = Some (demo_set 2 c 2)"
  "elems (demo_sets c) 3 = [[0x11], [0x21], [0x12], [0x22]]" "elems (demo_sets c) 4 = [[0x11], [3]]"
  by (auto simp: demo_sets_def demo_set_def slots_def bytes_at_def elems_def upt_conv_Cons)

lemma demo_sets_outside: "outside (demo_sets c) = {0}"
proof -
  have "owns (demo_sets c) 3 1" "owns (demo_sets c) 4 2" "\<not> owns (demo_sets c) a 0" for a
    by (auto simp: owns_def demo_sets_def demo_set_def split: if_splits)
  moreover have "{b. h_data (demo_sets c) b \<noteq> None} = {0, 1, 2}" by (auto simp: demo_sets_def split: if_splits)
  ultimately show ?thesis unfolding outside_def by blast
qed

text \<open>
  Of equal elements deduplication does not always keep the one with the lowest index: once the last element has
  been moved down over a removed one it comes before its equals.
\<close>

declare dedupe_inner.simps [code] dedupe_outer.simps [code]

lemma dedupe_keeps_moved_element:
  "map_option (\<lambda>(r, h). (r, elems h 3)) (set_dedupe demo_cmp (Some 3) (demo_sets (Some 1))) = Some (0, [[0x11], [0x22]])"
  by code_simp

definition demo_set_val :: "ptr \<Rightarrow> byte list" where
  "demo_set_val p = (if snd p = 0 then [5] else [2])"

lemma demo_set_caller: "caller_value 3 (demo_sets c) (0, 0) = Some (demo_set_val (0, 0))" "caller_value 3 (demo_sets c) (0, 1) = Some (demo_set_val (0, 1))"
  unfolding caller_value_def demo_sets_facts demo_sets_outside by (simp_all add: demo_set_def load_def bytes_at_def demo_sets_def demo_set_val_def)

lemma demo_unique: "unique demo_cmp None (elems (demo_sets None) 3)" "unique demo_cmp None (elems (demo_sets None) 4)"
  unfolding demo_sets_facts by (auto simp: unique_def eqv_def less_Suc_eq nth_Cons' split: if_splits)

theorem set_refines_sets_witness:
  "\<exists>rs h'. set_run demo_cmp demo_al 3 [Add (0, 0), Delete (0, 1), Delete_At 1, Lookup (0, 0)] (demo_sets None) = Some (rs, h') \<and>
     unique demo_cmp None (elems h' 3) \<and> heap_ok h' \<and> outside h' = {0} \<and> elems h' 4 = [[0x11], [3]]"
proof -
  have "\<forall>op \<in> set [Add (0, 0), Delete (0, 1), Delete_At 1, Lookup (0, 0)]. \<forall>p \<in> set (set_op_ptrs op). caller_value 3 (demo_sets None) p = Some (demo_set_val p)"
    using demo_set_caller by simp
  moreover have "s_comparator (demo_set 1 None 4) = None" by (simp add: demo_set_def)
  ultimately show ?thesis
    using set_refines_sets [OF demo_consistent demo_sets_ok demo_sets_facts(1), of None "[Add (0, 0), Delete (0, 1), Delete_At 1, Lookup (0, 0)]" demo_set_val demo_al]
      demo_unique(1) demo_sets_facts(4) demo_sets_outside by (metis numeral_eq_iff semiring_norm(88))
qed

theorem set_dedupe_restores_witness:
  "\<exists>h' gone. set_dedupe demo_cmp (Some 3) (demo_sets (Some 1)) = Some (0, h') \<and> unique demo_cmp (Some 1) (elems h' 3) \<and>
     mset (elems h' 3) + mset gone = {# [0x11], [0x21], [0x12], [0x22] #}"
  using set_dedupe_restores [OF demo_consistent demo_sets_ok demo_sets_facts(1), of "Some 1"] unfolding demo_sets_facts
  by (auto simp: demo_set_def)

lemma members_default: "members cmp None xs = set xs"
  by (auto simp: members_def member_def eqv_def)

theorem set_algebra_witness:
  "\<exists>n h'. set_intersection demo_cmp demo_al (Some 3) (Some 4) (demo_sets None) = Some (Some n, h') \<and> members demo_cmp None (elems h' n) = {[0x11]} \<and>
     set_is_subset demo_cmp (Some 3) (Some 4) (demo_sets None) = Some False"
proof -
  have c: "combinable (demo_sets None) 3 4 (demo_set 1 None 4)"
    unfolding combinable_def demo_sets_facts using demo_sets_ok by (simp add: demo_set_def)
  have v: "s_comparator (demo_set 1 None 4) = None" "v_element_size (demo_set 1 None 4) = 1" by (simp_all add: demo_set_def)
  have m: "members demo_cmp None [[0x11], [0x21], [0x12], [0x22]] \<inter> members demo_cmp None [[0x11], [3]] = {[0x11]}"
    "\<not> members demo_cmp None [[0x11], [0x21], [0x12], [0x22]] \<subseteq> members demo_cmp None [[0x11], [3]]"
    unfolding members_default by simp_all
  have "length [[0x11 :: byte], [0x21], [0x12], [0x22]] = 4" by simp
  note all = set_algebra [OF demo_consistent c, of demo_al, unfolded v demo_sets_facts Let_def m(1) this, OF demo_unique [unfolded demo_sets_facts]]
  from all [THEN conjunct2, THEN conjunct1] obtain r where r: "set_intersection demo_cmp demo_al (Some 3) (Some 4) (demo_sets None) = Some r"
    "new_set_with demo_cmp demo_al (demo_set 1 None 4) 4 (demo_sets None) {[0x11]} r" by blast
  have "set_is_subset demo_cmp (Some 3) (Some 4) (demo_sets None) = Some False"
    using all [THEN conjunct2, THEN conjunct2, THEN conjunct2, THEN conjunct1] m(2) by simp
  moreover have "roomy demo_al (demo_set 1 None 4) 4" by (simp add: roomy_def demo_al_def demo_set_def)
  ultimately show ?thesis using r v(1) by (cases r; cases "fst r") (auto simp: new_set_with_def)
qed

end
