(* ===== verification/Khash.thy ===== *)
theory Khash
  imports Utils
begin

text \<open>
  The hash table of \<^verbatim>\<open>include/khash/khash.h\<close> behind the balance sheet and the transaction pool: open addressing with
  triangular probing, two flag bits per bucket packed into 32-bit words, deletion marks, and a resize that moves the
  elements in place by kicking out whatever lies where they belong. Buckets are numbered by natural numbers; the
  number of buckets is a power of two, so that \<^verbatim>\<open>& mask\<close> is the remainder. A loop that might not end has no result.
  The allocations of a resize succeed or fail as an argument says; memory \<^verbatim>\<open>realloc\<close> adds holds any value.
\<close>

section \<open>Flags\<close>

definition ac_shift :: "nat \<Rightarrow> nat" where
  "ac_shift i = 2 * (i mod 16)"

definition ac_isempty :: "u32 list \<Rightarrow> nat \<Rightarrow> bool" where
  "ac_isempty flag i \<longleftrightarrow> drop_bit (ac_shift i) (flag ! (i div 16)) AND 2 \<noteq> 0"

definition ac_isdel :: "u32 list \<Rightarrow> nat \<Rightarrow> bool" where
  "ac_isdel flag i \<longleftrightarrow> drop_bit (ac_shift i) (flag ! (i div 16)) AND 1 \<noteq> 0"

definition ac_iseither :: "u32 list \<Rightarrow> nat \<Rightarrow> bool" where
  "ac_iseither flag i \<longleftrightarrow> drop_bit (ac_shift i) (flag ! (i div 16)) AND 3 \<noteq> 0"

definition ac_set_isempty_false :: "u32 list \<Rightarrow> nat \<Rightarrow> u32 list" where
  "ac_set_isempty_false flag i = flag[i div 16 := flag ! (i div 16) AND NOT (push_bit (ac_shift i) 2)]"

definition ac_set_isboth_false :: "u32 list \<Rightarrow> nat \<Rightarrow> u32 list" where
  "ac_set_isboth_false flag i = flag[i div 16 := flag ! (i div 16) AND NOT (push_bit (ac_shift i) 3)]"

definition ac_set_isdel_true :: "u32 list \<Rightarrow> nat \<Rightarrow> u32 list" where
  "ac_set_isdel_true flag i = flag[i div 16 := flag ! (i div 16) OR push_bit (ac_shift i) 1]"

definition ac_fsize :: "nat \<Rightarrow> nat" where
  "ac_fsize m = (if m < 16 then 1 else m div 16)"

text \<open>\<^verbatim>\<open>memset(flags, 0xaa, ...)\<close>: every bucket empty.\<close>

definition fresh_flags :: "nat \<Rightarrow> u32 list" where
  "fresh_flags m = replicate (ac_fsize m) 0xaaaaaaaa"

section \<open>The table\<close>

record ('k, 'v) kh =
  n_buckets :: nat
  kh_size :: nat
  n_occupied :: nat
  upper_bound :: nat
  kh_flags :: "u32 list"
  kh_keys :: "'k list"
  kh_vals :: "'v list"

definition kh_init :: "('k, 'v) kh" where
  "kh_init = \<lparr> n_buckets = 0, kh_size = 0, n_occupied = 0, upper_bound = 0, kh_flags = [], kh_keys = [], kh_vals = [] \<rparr>"

definition kh_clear :: "('k, 'v) kh \<Rightarrow> ('k, 'v) kh" where
  "kh_clear h =
     (if kh_flags h \<noteq> [] then h\<lparr> kh_flags := fresh_flags (n_buckets h), kh_size := 0, n_occupied := 0 \<rparr> else h)"

text \<open>\<^verbatim>\<open>(khint_t)(n * __ac_HASH_UPPER + 0.5)\<close>: no multiple of 0.77 of a power of two is near enough to a half for rounding to matter.\<close>

definition hash_upper :: "nat \<Rightarrow> nat" where
  "hash_upper n = (77 * n + 50) div 100"

definition kroundup32 :: "u32 \<Rightarrow> u32" where
  "kroundup32 x =
     (let x = x - 1; x = x OR drop_bit 1 x; x = x OR drop_bit 2 x; x = x OR drop_bit 4 x;
          x = x OR drop_bit 8 x; x = x OR drop_bit 16 x
      in x + 1)"

section \<open>Lookup\<close>

partial_function (option) get_loop :: "('k, 'v) kh \<Rightarrow> 'k \<Rightarrow> nat \<Rightarrow> nat \<Rightarrow> nat \<Rightarrow> nat option" where
  "get_loop h key start i step =
     (if \<not> ac_isempty (kh_flags h) i \<and> (ac_isdel (kh_flags h) i \<or> kh_keys h ! i \<noteq> key)
      then (if (i + Suc step) mod n_buckets h = start then Some (n_buckets h)
            else get_loop h key start ((i + Suc step) mod n_buckets h) (Suc step))
      else Some (if ac_iseither (kh_flags h) i then n_buckets h else i))"

definition kh_get :: "('k \<Rightarrow> u32) \<Rightarrow> ('k, 'v) kh \<Rightarrow> 'k \<Rightarrow> nat option" where
  "kh_get hash_func h key =
     (if n_buckets h \<noteq> 0 then (let i = unat (hash_func key) mod n_buckets h in get_loop h key i i 0) else Some 0)"

section \<open>Resizing\<close>

partial_function (option) free_bucket :: "u32 list \<Rightarrow> nat \<Rightarrow> nat \<Rightarrow> nat \<Rightarrow> nat option" where
  "free_bucket new_flags m i step =
     (if \<not> ac_isempty new_flags i then free_bucket new_flags m ((i + Suc step) mod m) (Suc step) else Some i)"

text \<open>The element in hand goes to its bucket of the new table; an element of the old table that lies there is next.\<close>

partial_function (option) kick_out ::
  "('k \<Rightarrow> u32) \<Rightarrow> nat \<Rightarrow> ('k, 'v) kh \<Rightarrow> u32 list \<Rightarrow> 'k \<Rightarrow> 'v \<Rightarrow> (('k, 'v) kh \<times> u32 list) option" where
  "kick_out hash_func m h new_flags key val =
     Option.bind (free_bucket new_flags m (unat (hash_func key) mod m) 0) (\<lambda>i.
       if i < n_buckets h \<and> \<not> ac_iseither (kh_flags h) i
       then kick_out hash_func m
              (h\<lparr> kh_keys := (kh_keys h)[i := key], kh_vals := (kh_vals h)[i := val], kh_flags := ac_set_isdel_true (kh_flags h) i \<rparr>)
              (ac_set_isempty_false new_flags i) (kh_keys h ! i) (kh_vals h ! i)
       else Some (h\<lparr> kh_keys := (kh_keys h)[i := key], kh_vals := (kh_vals h)[i := val] \<rparr>, ac_set_isempty_false new_flags i))"

fun rehash_loop :: "('k \<Rightarrow> u32) \<Rightarrow> nat \<Rightarrow> nat list \<Rightarrow> ('k, 'v) kh \<Rightarrow> u32 list \<Rightarrow> (('k, 'v) kh \<times> u32 list) option" where
  "rehash_loop hash_func m [] h new_flags = Some (h, new_flags)"
| "rehash_loop hash_func m (j # js) h new_flags =
     (if \<not> ac_iseither (kh_flags h) j
      then Option.bind (kick_out hash_func m (h\<lparr> kh_flags := ac_set_isdel_true (kh_flags h) j \<rparr>) new_flags (kh_keys h ! j) (kh_vals h ! j))
             (\<lambda>(h', new_flags'). rehash_loop hash_func m js h' new_flags')
      else rehash_loop hash_func m js h new_flags)"

text \<open>Whether the three allocations of a resize succeed, and the contents of the memory they add.\<close>

record ('k, 'v) kh_alloc =
  flags_ok :: bool
  keys_ok :: bool
  vals_ok :: bool
  junk_key :: 'k
  junk_val :: 'v

definition new_size :: "u32 \<Rightarrow> nat" where
  "new_size n = (let m = unat (kroundup32 n) in if m < 4 then 4 else m)"

text \<open>\<^verbatim>\<open>krealloc\<close> to \<open>m\<close> elements.\<close>

definition krealloc :: "nat \<Rightarrow> 'a \<Rightarrow> 'a list \<Rightarrow> 'a list" where
  "krealloc m junk xs = take m xs @ replicate (m - length xs) junk"

definition after_rehash :: "('k, 'v) kh_alloc \<Rightarrow> nat \<Rightarrow> ('k, 'v) kh \<Rightarrow> u32 list \<Rightarrow> ('k, 'v) kh" where
  "after_rehash al m h new_flags =
     (let h1 = (if n_buckets h > m
                then h\<lparr> kh_keys := krealloc m (junk_key al) (kh_keys h), kh_vals := krealloc m (junk_val al) (kh_vals h) \<rparr> else h)
      in h1\<lparr> kh_flags := new_flags, n_buckets := m, n_occupied := kh_size h1, upper_bound := hash_upper m \<rparr>)"

definition kh_resize :: "('k \<Rightarrow> u32) \<Rightarrow> ('k, 'v) kh_alloc \<Rightarrow> ('k, 'v) kh \<Rightarrow> u32 \<Rightarrow> (('k, 'v) kh \<times> int) option" where
  "kh_resize hash_func al h new_n_buckets =
     (let m = new_size new_n_buckets; expand = n_buckets h < m in
      if kh_size h \<ge> hash_upper m then Some (h, 0)
      else if \<not> flags_ok al then Some (h, -1)
      else if expand \<and> \<not> keys_ok al then Some (h, -1)
      else
        let h1 = (if expand then h\<lparr> kh_keys := krealloc m (junk_key al) (kh_keys h) \<rparr> else h) in
        if expand \<and> \<not> vals_ok al then Some (h1, -1)
        else
          let h2 = (if expand then h1\<lparr> kh_vals := krealloc m (junk_val al) (kh_vals h1) \<rparr> else h1)
          in map_option (\<lambda>(h3, new_flags). (after_rehash al m h3 new_flags, 0)) (rehash_loop hash_func m [0..<n_buckets h2] h2 (fresh_flags m)))"

section \<open>Insertion and deletion\<close>

text \<open>The probing loop of \<^verbatim>\<open>kh_put\<close>: \<^verbatim>\<open>x\<close>, \<^verbatim>\<open>i\<close> and \<^verbatim>\<open>site\<close> as it leaves them.\<close>

partial_function (option) put_loop :: "('k, 'v) kh \<Rightarrow> 'k \<Rightarrow> nat \<Rightarrow> nat \<Rightarrow> nat \<Rightarrow> nat \<Rightarrow> (nat \<times> nat \<times> nat) option" where
  "put_loop h key start i step site =
     (if \<not> ac_isempty (kh_flags h) i \<and> (ac_isdel (kh_flags h) i \<or> kh_keys h ! i \<noteq> key)
      then (let site' = (if ac_isdel (kh_flags h) i then i else site); i' = (i + Suc step) mod n_buckets h
            in if i' = start then Some (site', i', site') else put_loop h key start i' (Suc step) site')
      else Some (n_buckets h, i, site))"

definition put_bucket :: "('k \<Rightarrow> u32) \<Rightarrow> ('k, 'v) kh \<Rightarrow> 'k \<Rightarrow> nat option" where
  "put_bucket hash_func h key =
     (let i = unat (hash_func key) mod n_buckets h in
      if ac_isempty (kh_flags h) i then Some i
      else map_option (\<lambda>(x, i, site).
             if x = n_buckets h then (if ac_isempty (kh_flags h) i \<and> site \<noteq> n_buckets h then site else i) else x)
           (put_loop h key i i 0 (n_buckets h)))"

definition fill_bucket :: "('k, 'v) kh \<Rightarrow> 'k \<Rightarrow> nat \<Rightarrow> ('k, 'v) kh \<times> nat \<times> int" where
  "fill_bucket h key x =
     (if ac_isempty (kh_flags h) x
      then (h\<lparr> kh_keys := (kh_keys h)[x := key], kh_flags := ac_set_isboth_false (kh_flags h) x, kh_size := kh_size h + 1,
               n_occupied := n_occupied h + 1 \<rparr>, x, 1)
      else if ac_isdel (kh_flags h) x
      then (h\<lparr> kh_keys := (kh_keys h)[x := key], kh_flags := ac_set_isboth_false (kh_flags h) x, kh_size := kh_size h + 1 \<rparr>, x, 2)
      else (h, x, 0))"

definition kh_put :: "('k \<Rightarrow> u32) \<Rightarrow> ('k, 'v) kh_alloc \<Rightarrow> ('k, 'v) kh \<Rightarrow> 'k \<Rightarrow> (('k, 'v) kh \<times> nat \<times> int) option" where
  "kh_put hash_func al h key =
     Option.bind
       (if n_occupied h \<ge> upper_bound h
        then (if n_buckets h > 2 * kh_size h then kh_resize hash_func al h (of_nat (n_buckets h) - 1)
              else kh_resize hash_func al h (of_nat (n_buckets h) + 1))
        else Some (h, 0))
       (\<lambda>(h1, rc). if rc < 0 then Some (h1, n_buckets h1, -1)
                   else map_option (fill_bucket h1 key) (put_bucket hash_func h1 key))"

definition kh_del :: "('k, 'v) kh \<Rightarrow> nat \<Rightarrow> ('k, 'v) kh" where
  "kh_del h x =
     (if x \<noteq> n_buckets h \<and> \<not> ac_iseither (kh_flags h) x
      then h\<lparr> kh_flags := ac_set_isdel_true (kh_flags h) x, kh_size := kh_size h - 1 \<rparr> else h)"

definition kh_exist :: "('k, 'v) kh \<Rightarrow> nat \<Rightarrow> bool" where
  "kh_exist h x \<longleftrightarrow> \<not> ac_iseither (kh_flags h) x"

section \<open>The hash of a 32-byte key\<close>

definition hash_key32 :: "byte list \<Rightarrow> u32" where
  "hash_key32 k = foldl (\<lambda>hash b. (hash XOR ucast b) * 16777619) 2166136261 k"

end
