(* ===== verification/Khash_Probe.thy ===== *)
theory Khash_Probe
  imports Khash
begin

text \<open>
  The two ingredients of the hash table: what the flag macros read after a write, and that the probe sequence, steps of
  growing length over a power of two of buckets, visits every bucket once before it repeats.
\<close>

section \<open>Flags as bits\<close>

definition flag_len :: "u32 list \<Rightarrow> nat \<Rightarrow> bool" where
  "flag_len f n \<longleftrightarrow> (\<forall>i<n. i div 16 < length f)"

lemma flag_lenD: "flag_len f n \<Longrightarrow> i < n \<Longrightarrow> i div 16 < length f"
  by (simp add: flag_len_def)

lemma flag_len_fresh [simp]: "flag_len (fresh_flags (2 ^ b)) (2 ^ b)"
proof -
  have "i div 16 < ac_fsize (2 ^ b)" if "i < 2 ^ b" for i
  proof (cases "(2 :: nat) ^ b < 16")
    case True
    then show ?thesis using that by (simp add: ac_fsize_def)
  next
    case False
    then have "b \<ge> 4" using power_strict_increasing [of b 4 "2 :: nat"] by (cases "b < 4") auto
    then have "(2 :: nat) ^ b = 16 * 2 ^ (b - 4)" using power_add [of "2 :: nat" 4 "b - 4"] by simp
    then show ?thesis using that False by (simp add: ac_fsize_def less_mult_imp_div_less mult.commute)
  qed
  then show ?thesis by (simp add: flag_len_def fresh_flags_def)
qed

lemma flag_bits:
  "ac_isempty f i \<longleftrightarrow> bit (f ! (i div 16)) (Suc (ac_shift i))" "ac_isdel f i \<longleftrightarrow> bit (f ! (i div 16)) (ac_shift i)"
  "ac_iseither f i \<longleftrightarrow> ac_isempty f i \<or> ac_isdel f i"
proof -
  have 1: "(x AND 1 \<noteq> 0) = bit x 0" "(x AND 2 \<noteq> 0) = bit x 1" for x :: u32
    using and_exp_eq_0_iff_not_bit [of x 0] and_exp_eq_0_iff_not_bit [of x 1] by simp_all
  have 3: "(x AND 3 \<noteq> 0) = (bit x 0 \<or> bit x 1)" for x :: u32
  proof -
    have "(3 :: u32) = 1 OR 2" by simp
    then have "x AND 3 = (x AND 1) OR (x AND 2)" by (simp only: bit.conj_disj_distrib)
    then show ?thesis using 1 by (simp add: or_eq_0_iff)
  qed
  show "ac_isempty f i \<longleftrightarrow> bit (f ! (i div 16)) (Suc (ac_shift i))" "ac_isdel f i \<longleftrightarrow> bit (f ! (i div 16)) (ac_shift i)"
    by (simp_all add: ac_isempty_def ac_isdel_def 1 bit_drop_bit_eq)
  then show "ac_iseither f i \<longleftrightarrow> ac_isempty f i \<or> ac_isdel f i"
    by (auto simp: ac_iseither_def 3 bit_drop_bit_eq)
qed

lemma shift_bound: "ac_shift i \<le> 30"
  by (simp add: ac_shift_def)

lemma same_slot: "i div 16 = j div 16 \<Longrightarrow> ac_shift i = ac_shift j \<longleftrightarrow> i = (j :: nat)"
  by (metis ac_shift_def div_mult_mod_eq mult_cancel1 zero_neq_numeral)

lemma shift_parity: "Suc (ac_shift i) \<noteq> ac_shift j" "ac_shift i \<noteq> Suc (ac_shift j)"
proof -
  have "even (ac_shift i)" "even (ac_shift j)" by (simp_all add: ac_shift_def)
  then show "Suc (ac_shift i) \<noteq> ac_shift j" "ac_shift i \<noteq> Suc (ac_shift j)" by (metis even_Suc)+
qed

lemma set_flag_simps:
  assumes "i div 16 < length f"
  shows "ac_isempty (ac_set_isdel_true f i) j \<longleftrightarrow> ac_isempty f j" "ac_isdel (ac_set_isdel_true f i) j \<longleftrightarrow> j = i \<or> ac_isdel f j"
    "ac_isempty (ac_set_isempty_false f i) j \<longleftrightarrow> j \<noteq> i \<and> ac_isempty f j" "ac_isdel (ac_set_isempty_false f i) j \<longleftrightarrow> ac_isdel f j"
    "ac_isempty (ac_set_isboth_false f i) j \<longleftrightarrow> j \<noteq> i \<and> ac_isempty f j" "ac_isdel (ac_set_isboth_false f i) j \<longleftrightarrow> j \<noteq> i \<and> ac_isdel f j"
proof -
  note s = shift_bound [of i] shift_bound [of j] shift_parity [of i j] shift_parity [of j i]
  have three: "bit (3 :: int) n \<longleftrightarrow> n = 0 \<or> n = 1" for n
  proof (cases n)
    case (Suc m)
    then show ?thesis by (cases m) (simp_all add: bit_Suc)
  qed simp
  have u: "f[i div 16 := w] ! (j div 16) = (if j div 16 = i div 16 then w else f ! (j div 16))" for w using assms by simp
  have e: "j div 16 = i div 16 \<Longrightarrow> ac_shift j = ac_shift i \<longleftrightarrow> j = i" using same_slot [of j i] by blast
  show "ac_isempty (ac_set_isdel_true f i) j \<longleftrightarrow> ac_isempty f j" "ac_isdel (ac_set_isdel_true f i) j \<longleftrightarrow> j = i \<or> ac_isdel f j"
    "ac_isempty (ac_set_isempty_false f i) j \<longleftrightarrow> j \<noteq> i \<and> ac_isempty f j" "ac_isdel (ac_set_isempty_false f i) j \<longleftrightarrow> ac_isdel f j"
    "ac_isempty (ac_set_isboth_false f i) j \<longleftrightarrow> j \<noteq> i \<and> ac_isempty f j" "ac_isdel (ac_set_isboth_false f i) j \<longleftrightarrow> j \<noteq> i \<and> ac_isdel f j"
    unfolding flag_bits ac_set_isdel_true_def ac_set_isempty_false_def ac_set_isboth_false_def u
    using s e by (auto simp: bit_simps three)
qed

lemma flag_len_set [simp]:
  "flag_len (ac_set_isdel_true f i) n = flag_len f n" "flag_len (ac_set_isempty_false f i) n = flag_len f n" "flag_len (ac_set_isboth_false f i) n = flag_len f n"
  by (simp_all add: flag_len_def ac_set_isdel_true_def ac_set_isempty_false_def ac_set_isboth_false_def)

lemma fresh_flags_empty: "flag_len (fresh_flags n) n \<Longrightarrow> i < n \<Longrightarrow> ac_isempty (fresh_flags n) i \<and> \<not> ac_isdel (fresh_flags n) i"
proof -
  assume "flag_len (fresh_flags n) n" "i < n"
  then have e: "fresh_flags n ! (i div 16) = 0xaaaaaaaa" using flag_lenD [of "fresh_flags n" n i] by (simp add: fresh_flags_def)
  have "list_all (\<lambda>m. bit (0xaaaaaaaa :: u32) (Suc (2 * m)) \<and> \<not> bit (0xaaaaaaaa :: u32) (2 * m)) [0..<16]" by code_simp
  then have "bit (0xaaaaaaaa :: u32) (Suc (2 * m)) \<and> \<not> bit (0xaaaaaaaa :: u32) (2 * m)" if "m < 16" for m using that by (simp add: list_all_iff)
  then show ?thesis unfolding flag_bits e ac_shift_def by simp
qed

section \<open>The probe sequence\<close>

definition tri :: "nat \<Rightarrow> nat" where
  "tri s = s * (s + 1) div 2"

lemma tri_Suc: "tri (Suc s) = tri s + Suc s"
proof -
  have "Suc s * (Suc s + 1) = s * (s + 1) + 2 * Suc s" by simp
  then show ?thesis unfolding tri_def by simp
qed

lemma tri_0 [simp]: "tri 0 = 0"
  by (simp add: tri_def)

lemma two_tri: "2 * tri s = s * (s + 1)"
  by (simp add: tri_def)

definition probe :: "nat \<Rightarrow> nat \<Rightarrow> nat \<Rightarrow> nat" where
  "probe n k s = (k + tri s) mod n"

lemma probe_Suc: "(probe n k s + Suc s) mod n = probe n k (Suc s)"
  unfolding probe_def tri_Suc by (simp only: mod_add_left_eq add.assoc)

lemma probe_Suc' [simp]: "Suc (probe n k s + s) mod n = probe n k (Suc s)"
  using probe_Suc [of n k s] by simp

lemma probe_0: "probe n k 0 = k mod n"
  by (simp add: probe_def)

lemma probe_less: "0 < n \<Longrightarrow> probe n k s < n"
  by (simp add: probe_def)

lemma odd_power_coprime: "odd (x :: nat) \<Longrightarrow> coprime (2 ^ m) x"
  by simp

lemma tri_distinct:
  assumes "a < c" "c < 2 ^ b"
  shows "\<not> 2 ^ b dvd tri c - tri a"
proof
  assume d: "2 ^ b dvd tri c - tri a"
  have "2 * (tri c - tri a) = c * (c + 1) - a * (a + 1)" using two_tri by (simp add: diff_mult_distrib2)
  also have "\<dots> = (c - a) * (c + a + 1)"
  proof -
    obtain x where "c = a + x" using assms(1) less_imp_add_positive by blast
    then show ?thesis by (simp add: algebra_simps)
  qed
  finally have "2 ^ Suc b dvd (c - a) * (c + a + 1)" using d mult_dvd_mono [of 2 2] by (metis dvd_refl power_Suc)
  moreover have "odd (c - a) \<or> odd (c + a + 1)" using assms(1) by (auto simp: even_diff_nat)
  ultimately have "2 ^ Suc b dvd c + a + 1 \<or> 2 ^ Suc b dvd c - a"
    by (metis coprime_dvd_mult_left_iff coprime_dvd_mult_right_iff odd_power_coprime)
  then have "2 ^ Suc b \<le> c + a + 1 \<or> 2 ^ Suc b \<le> c - a" using assms(1) by (auto dest: dvd_imp_le)
  then show False using assms by auto
qed

lemma probe_inj:
  assumes "probe (2 ^ b) k a = probe (2 ^ b) k c" "a < 2 ^ b" "c < 2 ^ b"
  shows "a = c"
proof -
  have "\<not> probe (2 ^ b) k x = probe (2 ^ b) k y" if "x < y" "y < 2 ^ b" for x y
  proof
    assume "probe (2 ^ b) k x = probe (2 ^ b) k y"
    moreover have "tri x \<le> tri y" unfolding tri_def using that(1) by (intro div_le_mono mult_le_mono) simp_all
    ultimately have "2 ^ b dvd (k + tri y) - (k + tri x)" using mod_eq_dvd_iff_nat [of "k + tri x" "k + tri y" "2 ^ b"] by (simp add: probe_def)
    then show False using tri_distinct [OF that] by simp
  qed
  then show ?thesis using assms by (metis linorder_neqE_nat)
qed

lemma probe_onto: "x < 2 ^ b \<Longrightarrow> \<exists>s < 2 ^ b. probe (2 ^ b) k s = x"
proof -
  assume x: "x < 2 ^ b"
  have "inj_on (probe (2 ^ b) k) {..<2 ^ b}" using probe_inj by (auto simp: inj_on_def)
  moreover have "probe (2 ^ b) k ` {..<2 ^ b} \<subseteq> {..<2 ^ b}" using probe_less by auto
  ultimately have "probe (2 ^ b) k ` {..<2 ^ b} = {..<2 ^ b}" by (intro card_subset_eq) (simp_all add: card_image)
  then have "x \<in> probe (2 ^ b) k ` {..<2 ^ b}" using x by simp
  then show ?thesis by auto
qed

text \<open>The first probe at a bucket with a given property.\<close>

lemma first_probe:
  assumes "x < 2 ^ b" "P x"
  shows "\<exists>s. s < 2 ^ b \<and> P (probe (2 ^ b) k s) \<and> (\<forall>j < s. \<not> P (probe (2 ^ b) k j))"
proof -
  obtain t where t: "t < 2 ^ b" "probe (2 ^ b) k t = x" using probe_onto [OF assms(1)] by blast
  let ?s = "LEAST s. P (probe (2 ^ b) k s)"
  have "P (probe (2 ^ b) k ?s)" using t(2) assms(2) LeastI [of "\<lambda>s. P (probe (2 ^ b) k s)" t] by simp
  moreover have "?s \<le> t" using t(2) assms(2) by (intro Least_le) simp
  moreover have "\<forall>j < ?s. \<not> P (probe (2 ^ b) k j)" using not_less_Least by blast
  ultimately show ?thesis using t(1) by (meson le_less_trans)
qed

section \<open>The loops along the probe sequence\<close>

definition passes :: "('k, 'v) kh \<Rightarrow> 'k \<Rightarrow> nat \<Rightarrow> bool" where
  "passes h key i \<longleftrightarrow> \<not> ac_isempty (kh_flags h) i \<and> (ac_isdel (kh_flags h) i \<or> kh_keys h ! i \<noteq> key)"

lemma get_loop_step:
  "get_loop h key start i step =
     (if passes h key i then (if (i + Suc step) mod n_buckets h = start then Some (n_buckets h) else get_loop h key start ((i + Suc step) mod n_buckets h) (Suc step))
      else Some (if ac_iseither (kh_flags h) i then n_buckets h else i))"
  unfolding get_loop.simps [of h key start i step] passes_def [symmetric] by (rule refl)

lemma put_loop_step:
  "put_loop h key start i step site =
     (if passes h key i
      then (if (i + Suc step) mod n_buckets h = start then (let site' = if ac_isdel (kh_flags h) i then i else site in Some (site', start, site'))
            else put_loop h key start ((i + Suc step) mod n_buckets h) (Suc step) (if ac_isdel (kh_flags h) i then i else site))
      else Some (n_buckets h, i, site))"
  unfolding put_loop.simps [of h key start i step site] passes_def [symmetric] Let_def by auto

lemma get_loop_run:
  assumes "n_buckets h = 2 ^ b" "t < 2 ^ b" "\<forall>j<t. passes h key (probe (2 ^ b) k j)" "\<not> passes h key (probe (2 ^ b) k t)" "s \<le> t"
  shows "get_loop h key (probe (2 ^ b) k 0) (probe (2 ^ b) k s) s =
    Some (if ac_iseither (kh_flags h) (probe (2 ^ b) k t) then n_buckets h else probe (2 ^ b) k t)"
  using assms(5)
proof (induction "t - s" arbitrary: s)
  case 0
  then show ?case using assms(1,4) by (simp add: get_loop_step [of h key _ _ s])
next
  case (Suc d)
  then have "s < t" by simp
  then have "passes h key (probe (2 ^ b) k s)" "probe (2 ^ b) k (Suc s) \<noteq> probe (2 ^ b) k 0"
    using assms(2,3) probe_inj [of b k "Suc s" 0] by auto
  then show ?case using Suc(1) [of "Suc s"] Suc(2) \<open>s < t\<close> assms(1)
    by (simp add: get_loop_step [of h key _ _ s])
qed

lemma free_bucket_run:
  assumes "ac_isempty f (probe m k t)" "\<forall>j<t. \<not> ac_isempty f (probe m k j)" "s \<le> t"
  shows "free_bucket f m (probe m k s) s = Some (probe m k t)"
  using assms(3)
proof (induction "t - s" arbitrary: s)
  case 0
  then show ?case using assms(1) by (subst free_bucket.simps) simp
next
  case (Suc d)
  then show ?case using Suc(1) [of "Suc s"] assms(2) by (subst free_bucket.simps) (simp add: probe_Suc)
qed

text \<open>The loop of an insertion remembers the last deleted bucket it passed.\<close>

lemma put_loop_run:
  assumes "n_buckets h = 2 ^ b" "t < 2 ^ b" "\<forall>j<t. passes h key (probe (2 ^ b) k j)" "\<not> passes h key (probe (2 ^ b) k t)" "s \<le> t"
  shows "\<exists>site'. put_loop h key (probe (2 ^ b) k 0) (probe (2 ^ b) k s) s site = Some (n_buckets h, probe (2 ^ b) k t, site') \<and>
    (site' = site \<or> (\<exists>j<t. site' = probe (2 ^ b) k j \<and> ac_isdel (kh_flags h) site' \<and> \<not> ac_isempty (kh_flags h) site'))"
  using assms(5)
proof (induction "t - s" arbitrary: s site)
  case 0
  then show ?case using assms(1,4) by (simp add: put_loop_step [of h key _ _ s])
next
  case (Suc d)
  then have st: "s < t" by simp
  then have p: "passes h key (probe (2 ^ b) k s)" "probe (2 ^ b) k (Suc s) \<noteq> probe (2 ^ b) k 0"
    using assms(2,3) probe_inj [of b k "Suc s" 0] by auto
  let ?site = "if ac_isdel (kh_flags h) (probe (2 ^ b) k s) then probe (2 ^ b) k s else site"
  have "put_loop h key (probe (2 ^ b) k 0) (probe (2 ^ b) k s) s site = put_loop h key (probe (2 ^ b) k 0) (probe (2 ^ b) k (Suc s)) (Suc s) ?site"
    using p assms(1) by (simp add: put_loop_step [of h key _ _ s])
  moreover have "\<not> ac_isempty (kh_flags h) (probe (2 ^ b) k s)" using p(1) by (simp add: passes_def)
  moreover have "d = t - Suc s" "Suc s \<le> t" using Suc(2) st by simp_all
  ultimately show ?case using Suc(1) [of "Suc s" ?site] st by (auto split: if_splits)
qed

end
