(* ===== verification/Khash_Spec.thy ===== *)
theory Khash_Spec
  imports Khash_Probe
begin

text \<open>
  The hash table implements a finite map: the invariant of the table, the map it stands for, and what lookup,
  insertion and deletion do to it, as long as the table is not resized (\<open>Khash_Resize\<close>).
\<close>

section \<open>The invariant\<close>

definition live :: "('k, 'v) kh \<Rightarrow> nat set" where
  "live h = {i. i < n_buckets h \<and> \<not> ac_iseither (kh_flags h) i}"

definition filled :: "u32 list \<Rightarrow> nat \<Rightarrow> nat set" where
  "filled f n = {i. i < n \<and> \<not> ac_isempty f i}"

text \<open>The bucket is found by probing for the key: no empty bucket comes before it.\<close>

definition chained :: "('k \<Rightarrow> u32) \<Rightarrow> nat \<Rightarrow> u32 list \<Rightarrow> 'k \<Rightarrow> nat \<Rightarrow> bool" where
  "chained hash_func n f key x \<longleftrightarrow>
     (\<exists>s < n. probe n (unat (hash_func key)) s = x \<and> (\<forall>j < s. \<not> ac_isempty f (probe n (unat (hash_func key)) j)))"

definition kh_ok :: "('k \<Rightarrow> u32) \<Rightarrow> ('k, 'v) kh \<Rightarrow> bool" where
  "kh_ok hash_func h \<longleftrightarrow>
     (n_buckets h = 0 \<or> (\<exists>b \<ge> 2. n_buckets h = 2 ^ b)) \<and> flag_len (kh_flags h) (n_buckets h) \<and>
     n_buckets h \<le> length (kh_keys h) \<and> n_buckets h \<le> length (kh_vals h) \<and>
     upper_bound h = hash_upper (n_buckets h) \<and> n_occupied h \<le> upper_bound h \<and>
     kh_size h = card (live h) \<and> n_occupied h = card (filled (kh_flags h) (n_buckets h)) \<and>
     inj_on (\<lambda>i. kh_keys h ! i) (live h) \<and> (\<forall>i \<in> live h. chained hash_func (n_buckets h) (kh_flags h) (kh_keys h ! i) i)"

text \<open>The entries in the order of the buckets, and the map they form.\<close>

definition kh_pairs :: "('k, 'v) kh \<Rightarrow> ('k \<times> 'v) list" where
  "kh_pairs h = map (\<lambda>i. (kh_keys h ! i, kh_vals h ! i)) (filter (kh_exist h) [0..<n_buckets h])"

definition kh_map :: "('k, 'v) kh \<Rightarrow> 'k \<Rightarrow> 'v option" where
  "kh_map h = map_of (kh_pairs h)"

lemma live_filled: "live h \<subseteq> filled (kh_flags h) (n_buckets h)"
  by (auto simp: live_def filled_def flag_bits(3))

lemma finite_live [simp]: "finite (live h)" "finite (filled f n)"
  by (simp_all add: live_def filled_def)

lemma chained_mono: "chained hash_func n f key x \<Longrightarrow> \<forall>j<n. \<not> ac_isempty f j \<longrightarrow> \<not> ac_isempty f' j \<Longrightarrow> chained hash_func n f' key x"
  unfolding chained_def using probe_less by (metis less_nat_zero_code linorder_neqE_nat)

lemma kh_okD:
  assumes "kh_ok hash_func h"
  shows "n_buckets h = 0 \<or> (\<exists>b \<ge> 2. n_buckets h = 2 ^ b)" "flag_len (kh_flags h) (n_buckets h)"
    "n_buckets h \<le> length (kh_keys h)" "n_buckets h \<le> length (kh_vals h)" "upper_bound h = hash_upper (n_buckets h)" "n_occupied h \<le> upper_bound h"
    "kh_size h = card (live h)" "n_occupied h = card (filled (kh_flags h) (n_buckets h))" "inj_on (\<lambda>i. kh_keys h ! i) (live h)"
    "i \<in> live h \<Longrightarrow> chained hash_func (n_buckets h) (kh_flags h) (kh_keys h ! i) i"
  using assms by (auto simp: kh_ok_def)

lemma hash_upper_less: "2 \<le> b \<Longrightarrow> hash_upper (2 ^ b) < 2 ^ b"
proof -
  assume "2 \<le> b"
  then have "(4 :: nat) \<le> 2 ^ b" using power_increasing [of 2 b "2 :: nat"] by simp
  then show ?thesis by (simp add: hash_upper_def)
qed

lemma some_empty:
  assumes "kh_ok hash_func h" "n_buckets h \<noteq> 0"
  shows "\<exists>e < n_buckets h. ac_isempty (kh_flags h) e"
proof (rule ccontr)
  assume "\<not> ?thesis"
  then have "filled (kh_flags h) (n_buckets h) = {..<n_buckets h}" by (auto simp: filled_def)
  then show False using kh_okD(1,5,6,8) [OF assms(1)] assms(2) hash_upper_less by fastforce
qed

lemma kh_pairs_keys:
  assumes "kh_ok hash_func h"
  shows "distinct (map fst (kh_pairs h))"
proof -
  have "set (filter (kh_exist h) [0..<n_buckets h]) = live h" by (auto simp: live_def kh_exist_def)
  then show ?thesis
    using kh_okD(9) [OF assms] by (simp add: kh_pairs_def distinct_map o_def)
qed

lemma kh_map_iff:
  assumes "kh_ok hash_func h"
  shows "kh_map h key = Some v \<longleftrightarrow> (\<exists>i \<in> live h. kh_keys h ! i = key \<and> kh_vals h ! i = v)"
  unfolding kh_map_def map_of_eq_Some_iff [OF kh_pairs_keys [OF assms]]
  by (auto simp: kh_pairs_def live_def kh_exist_def)

lemma kh_map_None:
  assumes "kh_ok hash_func h"
  shows "kh_map h key = None \<longleftrightarrow> (\<forall>i \<in> live h. kh_keys h ! i \<noteq> key)"
  using kh_map_iff [OF assms, of key] by (metis not_Some_eq)

section \<open>Lookup\<close>

lemma probes_pass:
  assumes "kh_ok hash_func h" "x \<in> live h" "kh_keys h ! x = key" "n_buckets h = 2 ^ b"
  shows "\<exists>t < 2 ^ b. probe (2 ^ b) (unat (hash_func key)) t = x \<and> (\<forall>j<t. passes h key (probe (2 ^ b) (unat (hash_func key)) j)) \<and> \<not> passes h key x"
proof -
  let ?p = "probe (2 ^ b) (unat (hash_func key))"
  obtain t where t: "t < 2 ^ b" "?p t = x" "\<forall>j<t. \<not> ac_isempty (kh_flags h) (?p j)"
    using kh_okD(10) [OF assms(1,2)] assms(3,4) by (auto simp: chained_def)
  have "passes h key (?p j)" if "j < t" for j
  proof (rule ccontr)
    assume "\<not> passes h key (?p j)"
    then have l: "?p j \<in> live h" "kh_keys h ! ?p j = key" using t(3) that assms(4) probe_less [of "2 ^ b"] by (auto simp: passes_def live_def flag_bits(3))
    then have "?p j = ?p t" using inj_onD [OF kh_okD(9) [OF assms(1)]] assms(2,3) t(2) by simp
    then show False using probe_inj [of b _ j t] t(1) that by simp
  qed
  moreover have "\<not> passes h key x" using assms(2,3) by (simp add: passes_def live_def flag_bits(3))
  ultimately show ?thesis using t by auto
qed

lemma probes_miss:
  assumes "kh_ok hash_func h" "\<forall>i \<in> live h. kh_keys h ! i \<noteq> key" "n_buckets h = 2 ^ b"
  shows "\<exists>t < 2 ^ b. ac_isempty (kh_flags h) (probe (2 ^ b) k t) \<and> (\<forall>j<t. passes h key (probe (2 ^ b) k j))"
proof -
  obtain e where "e < 2 ^ b" "ac_isempty (kh_flags h) e" using some_empty [OF assms(1)] assms(3) by auto
  from first_probe [of e b "ac_isempty (kh_flags h)" k, OF this] obtain t where t: "t < 2 ^ b" "ac_isempty (kh_flags h) (probe (2 ^ b) k t)"
    "\<forall>j<t. \<not> ac_isempty (kh_flags h) (probe (2 ^ b) k j)" by blast
  have "passes h key (probe (2 ^ b) k j)" if "j < t" for j
    using t(3) that assms(2,3) probe_less [of "2 ^ b" k j] by (auto simp: passes_def live_def flag_bits(3))
  then show ?thesis using t by blast
qed

lemma kh_get_hit:
  assumes "kh_ok hash_func h" "x \<in> live h" "kh_keys h ! x = key"
  shows "kh_get hash_func h key = Some x"
proof -
  have n: "n_buckets h \<noteq> 0" using assms(2) by (auto simp: live_def)
  then obtain b where b: "n_buckets h = 2 ^ b" using kh_okD(1) [OF assms(1)] by auto
  let ?k = "unat (hash_func key)"
  obtain t where t: "t < 2 ^ b" "probe (2 ^ b) ?k t = x" "\<forall>j<t. passes h key (probe (2 ^ b) ?k j)" "\<not> passes h key x"
    using probes_pass [OF assms b] by blast
  have "\<not> ac_iseither (kh_flags h) x" using assms(2) by (simp add: live_def)
  then show ?thesis
    using get_loop_run [OF b t(1,3), of 0] t(2,4) n b by (simp add: kh_get_def probe_0 Let_def)
qed

lemma kh_get_miss:
  assumes "kh_ok hash_func h" "\<forall>i \<in> live h. kh_keys h ! i \<noteq> key"
  shows "kh_get hash_func h key = Some (n_buckets h)"
proof (cases "n_buckets h = 0")
  case False
  then obtain b where b: "n_buckets h = 2 ^ b" using kh_okD(1) [OF assms(1)] by auto
  let ?k = "unat (hash_func key)"
  obtain t where t: "t < 2 ^ b" "ac_isempty (kh_flags h) (probe (2 ^ b) ?k t)" "\<forall>j<t. passes h key (probe (2 ^ b) ?k j)"
    using probes_miss [OF assms b] by blast
  then have "\<not> passes h key (probe (2 ^ b) ?k t)" "ac_iseither (kh_flags h) (probe (2 ^ b) ?k t)" by (simp_all add: passes_def flag_bits(3))
  then show ?thesis using get_loop_run [OF b t(1,3), of 0] False b by (simp add: kh_get_def probe_0 Let_def)
qed (simp add: kh_get_def)

section \<open>Insertion\<close>

lemma put_bucket_hit:
  assumes "kh_ok hash_func h" "x \<in> live h" "kh_keys h ! x = key"
  shows "put_bucket hash_func h key = Some x"
proof -
  have "n_buckets h \<noteq> 0" using assms(2) by (auto simp: live_def)
  then obtain b where b: "n_buckets h = 2 ^ b" using kh_okD(1) [OF assms(1)] by auto
  let ?k = "unat (hash_func key)"
  obtain t where t: "t < 2 ^ b" "probe (2 ^ b) ?k t = x" "\<forall>j<t. passes h key (probe (2 ^ b) ?k j)" "\<not> passes h key x"
    using probes_pass [OF assms b] by blast
  have x: "\<not> ac_isempty (kh_flags h) x" using assms(2) by (simp add: live_def flag_bits(3))
  have "\<not> ac_isempty (kh_flags h) (probe (2 ^ b) ?k 0)" using t x by (cases "t = 0") (auto simp: passes_def)
  then show ?thesis
    using put_loop_run [OF b t(1,3), of 0 "n_buckets h"] t(2,4) x b by (auto simp: put_bucket_def probe_0 Let_def)
qed

lemma put_bucket_miss:
  assumes "kh_ok hash_func h" "\<forall>i \<in> live h. kh_keys h ! i \<noteq> key" "n_buckets h \<noteq> 0"
  shows "\<exists>x. put_bucket hash_func h key = Some x \<and> x < n_buckets h \<and> x \<notin> live h \<and> chained hash_func (n_buckets h) (kh_flags h) key x"
proof -
  obtain b where b: "n_buckets h = 2 ^ b" using kh_okD(1) [OF assms(1)] assms(3) by auto
  let ?k = "unat (hash_func key)" let ?p = "probe (2 ^ b) ?k"
  obtain t where t: "t < 2 ^ b" "ac_isempty (kh_flags h) (?p t)" "\<forall>j<t. passes h key (?p j)"
    using probes_miss [OF assms(1,2) b] by blast
  have ne: "\<forall>j<t. \<not> ac_isempty (kh_flags h) (?p j)" using t(3) by (simp add: passes_def)
  have ok: "?p j < n_buckets h" "chained hash_func (n_buckets h) (kh_flags h) key (?p j)" if "j \<le> t" for j
    using that t(1) ne b probe_less [of "2 ^ b"] unfolding chained_def by (auto intro!: exI [of _ j])
  show ?thesis
  proof (cases "t = 0")
    case True
    then show ?thesis using t(2) ok [of 0] b by (auto simp: put_bucket_def probe_0 live_def flag_bits(3) Let_def)
  next
    case False
    then have n0: "\<not> ac_isempty (kh_flags h) (?p 0)" using ne by blast
    have "\<not> passes h key (?p t)" using t(2) by (simp add: passes_def)
    from put_loop_run [OF b t(1,3) this, of 0 "n_buckets h"]
    obtain site where s: "put_loop h key (?p 0) (?p 0) 0 (n_buckets h) = Some (n_buckets h, ?p t, site)"
      "site = n_buckets h \<or> (\<exists>j<t. site = ?p j \<and> ac_isdel (kh_flags h) site \<and> \<not> ac_isempty (kh_flags h) site)" by auto
    have r: "put_bucket hash_func h key = Some (if site \<noteq> n_buckets h then site else ?p t)"
      using s(1) n0 t(2) b by (simp add: put_bucket_def probe_0 Let_def)
    show ?thesis
    proof (cases "site = n_buckets h")
      case True
      then show ?thesis using r ok [of t] t(2) by (simp add: live_def flag_bits(3))
    next
      case False
      then obtain j where j: "j < t" "site = ?p j" "ac_isdel (kh_flags h) site" using s(2) by blast
      then show ?thesis using r False ok [of j] by (simp add: live_def flag_bits(3))
    qed
  qed
qed

text \<open>Writing a new key into a free bucket on its probe path.\<close>

lemma fill_bucket_ok:
  assumes "kh_ok hash_func h" "n_occupied h < upper_bound h" "\<forall>i \<in> live h. kh_keys h ! i \<noteq> key"
    and "x < n_buckets h" "x \<notin> live h" "chained hash_func (n_buckets h) (kh_flags h) key x" "fill_bucket h key x = (h', y, r)"
  shows "kh_ok hash_func h' \<and> y = x \<and> 0 < r \<and> n_buckets h' = n_buckets h \<and> live h' = insert x (live h) \<and> kh_vals h' = kh_vals h \<and>
    kh_keys h' = (kh_keys h)[x := key]"
proof -
  let ?f = "kh_flags h" and ?n = "n_buckets h"
  note ok = kh_okD [OF assms(1)]
  note sf = set_flag_simps [OF flag_lenD [OF ok(2) assms(4)]]
  have f: "ac_isempty ?f x \<or> ac_isdel ?f x" using assms(4,5) by (simp add: live_def flag_bits(3))
  have h': "h' = h\<lparr> kh_keys := (kh_keys h)[x := key], kh_flags := ac_set_isboth_false ?f x, kh_size := kh_size h + 1,
      n_occupied := (if ac_isempty ?f x then n_occupied h + 1 else n_occupied h) \<rparr>" "y = x" "0 < r"
    using assms(7) f by (auto simp: fill_bucket_def split: if_splits)
  have l: "live h' = insert x (live h)" using assms(4) by (auto simp: live_def h' flag_bits(3) sf)
  have fl: "filled (kh_flags h') ?n = insert x (filled ?f ?n)" using assms(4) by (auto simp: filled_def h' sf)
  have oc: "n_occupied h' = card (filled (kh_flags h') ?n)"
  proof (cases "ac_isempty ?f x")
    case True
    then have "x \<notin> filled ?f ?n" by (simp add: filled_def)
    then show ?thesis unfolding fl using True ok(8) by (simp add: h')
  next
    case False
    then have "insert x (filled ?f ?n) = filled ?f ?n" using assms(4) by (auto simp: filled_def)
    then show ?thesis unfolding fl using False ok(8) by (simp add: h')
  qed
  have k: "kh_keys h' ! i = (if i = x then key else kh_keys h ! i)" if "i \<in> live h'" for i
    using that l ok(3) assms(4) by (auto simp: h' live_def nth_list_update)
  have inj: "inj_on (\<lambda>i. kh_keys h' ! i) (live h')"
  proof (rule inj_onI)
    fix i j assume "i \<in> live h'" "j \<in> live h'" "kh_keys h' ! i = kh_keys h' ! j"
    then show "i = j" using k l assms(3,5) inj_onD [OF ok(9), of i j] by (auto split: if_splits)
  qed
  have ch: "chained hash_func ?n (kh_flags h') (kh_keys h' ! i) i" if "i \<in> live h'" for i
  proof (rule chained_mono)
    show "chained hash_func ?n ?f (kh_keys h' ! i) i" using k [OF that] that l assms(6) ok(10) [of i] by auto
    show "\<forall>j<?n. \<not> ac_isempty ?f j \<longrightarrow> \<not> ac_isempty (kh_flags h') j" by (simp add: h' sf)
  qed
  have "kh_size h' = card (live h')" using l ok(7) assms(5) by (simp add: h')
  moreover have "n_occupied h' \<le> upper_bound h'" using assms(2) by (simp add: h')
  moreover have "n_buckets h' = ?n" "flag_len (kh_flags h') ?n" "?n \<le> length (kh_keys h')" "?n \<le> length (kh_vals h')" "upper_bound h' = hash_upper ?n"
    using ok(2-5) by (simp_all add: h')
  ultimately have "kh_ok hash_func h'" using ok(1) oc inj ch unfolding kh_ok_def by auto
  then show ?thesis using l h' by simp
qed

section \<open>Values and deletion\<close>

definition kh_set_value :: "('k, 'v) kh \<Rightarrow> nat \<Rightarrow> 'v \<Rightarrow> ('k, 'v) kh" where
  "kh_set_value h x v = h\<lparr> kh_vals := (kh_vals h)[x := v] \<rparr>"

lemma kh_set_value_ok: "kh_ok hash_func h \<Longrightarrow> kh_ok hash_func (kh_set_value h x v)"
  by (simp add: kh_ok_def kh_set_value_def live_def)

lemma kh_set_value_map:
  assumes "kh_ok hash_func h" "x \<in> live h"
  shows "kh_map (kh_set_value h x v) = (kh_map h)(kh_keys h ! x \<mapsto> v)"
proof
  fix q
  let ?h = "kh_set_value h x v"
  note ok' = kh_set_value_ok [OF assms(1), of x v]
  have l: "live ?h = live h" "kh_keys ?h = kh_keys h" by (simp_all add: kh_set_value_def live_def)
  have x: "x < length (kh_vals h)" using assms(2) kh_okD(4) [OF assms(1)] by (simp add: live_def)
  show "kh_map ?h q = ((kh_map h)(kh_keys h ! x \<mapsto> v)) q"
  proof (cases "q = kh_keys h ! x")
    case True
    have "kh_vals ?h ! x = v" using x by (simp add: kh_set_value_def)
    then have "kh_map ?h q = Some v" unfolding kh_map_iff [OF ok'] l using assms(2) True by blast
    then show ?thesis using True by simp
  next
    case False
    have "kh_vals ?h ! i = kh_vals h ! i" if "kh_keys h ! i = q" for i using that False by (cases "i = x") (simp_all add: kh_set_value_def)
    then have "kh_map ?h q = Some u \<longleftrightarrow> kh_map h q = Some u" for u unfolding kh_map_iff [OF ok'] kh_map_iff [OF assms(1)] l by auto
    then have "kh_map ?h q = kh_map h q" by (metis not_Some_eq)
    then show ?thesis using False by simp
  qed
qed

lemma kh_del_ok:
  assumes "kh_ok hash_func h" "x \<in> live h"
  shows "kh_ok hash_func (kh_del h x)" "kh_map (kh_del h x) = (kh_map h)(kh_keys h ! x := None)"
proof -
  let ?f = "kh_flags h" and ?n = "n_buckets h" and ?h = "kh_del h x"
  note ok = kh_okD [OF assms(1)]
  have x: "x < ?n" "\<not> ac_iseither ?f x" using assms(2) by (simp_all add: live_def)
  note sf = set_flag_simps [OF flag_lenD [OF ok(2) x(1)]]
  have h': "?h = h\<lparr> kh_flags := ac_set_isdel_true ?f x, kh_size := kh_size h - 1 \<rparr>" using x by (simp add: kh_del_def)
  have l: "live ?h = live h - {x}" by (auto simp: live_def h' flag_bits(3) sf)
  have fl: "filled (kh_flags ?h) ?n = filled ?f ?n" by (simp add: filled_def h' sf)
  have "inj_on (\<lambda>i. kh_keys ?h ! i) (live ?h)" using ok(9) l by (auto simp: h' inj_on_def)
  moreover have "chained hash_func ?n (kh_flags ?h) (kh_keys ?h ! i) i" if "i \<in> live ?h" for i
    using chained_mono [OF ok(10), of i "kh_flags ?h"] that l by (simp add: h' sf)
  moreover have "kh_size ?h = card (live ?h)" using l ok(7) assms(2) by (simp add: h' card_Diff_singleton)
  ultimately show ok': "kh_ok hash_func ?h" using ok(1-6,8) fl unfolding kh_ok_def by (simp add: h')
  show "kh_map ?h = (kh_map h)(kh_keys h ! x := None)"
  proof
    fix q
    have k: "kh_keys ?h = kh_keys h" "kh_vals ?h = kh_vals h" by (simp_all add: h')
    show "kh_map ?h q = ((kh_map h)(kh_keys h ! x := None)) q"
    proof (cases "q = kh_keys h ! x")
      case True
      have "\<forall>i \<in> live ?h. kh_keys ?h ! i \<noteq> q" using l True inj_onD [OF ok(9)] assms(2) by (auto simp: k)
      then show ?thesis using kh_map_None [OF ok'] True by simp
    next
      case False
      have "kh_map ?h q = Some u \<longleftrightarrow> kh_map h q = Some u" for u
        using kh_map_iff [OF ok', of q u] kh_map_iff [OF assms(1), of q u] False l by (auto simp: k)
      then have "kh_map ?h q = kh_map h q" by (metis not_Some_eq)
      then show ?thesis using False by simp
    qed
  qed
qed

lemma kh_clear_ok:
  assumes "kh_ok hash_func h"
  shows "kh_ok hash_func (kh_clear h)" "kh_map (kh_clear h) = Map.empty"
proof -
  let ?n = "n_buckets h"
  note ok = kh_okD [OF assms]
  show c: "kh_ok hash_func (kh_clear h)"
  proof (cases "kh_flags h = []")
    case True
    then show ?thesis using assms by (simp add: kh_clear_def)
  next
    case False
    have fl: "flag_len (fresh_flags ?n) ?n" using ok(1) by (auto simp: flag_len_def [of _ 0])
    then have e: "live (kh_clear h) = {}" "filled (fresh_flags ?n) ?n = {}"
      using False fresh_flags_empty by (auto simp: live_def filled_def kh_clear_def flag_bits(3))
    then show ?thesis using ok(1,3-6) fl False unfolding kh_ok_def by (simp add: kh_clear_def)
  qed
  have "live (kh_clear h) = {}"
  proof (cases "kh_flags h = []")
    case True
    then have "?n = 0" using ok(2) by (cases ?n) (auto simp: flag_len_def)
    then show ?thesis by (simp add: live_def kh_clear_def)
  next
    case False
    have "flag_len (fresh_flags ?n) ?n" using ok(1) by (auto simp: flag_len_def [of _ 0])
    then show ?thesis using False fresh_flags_empty by (auto simp: live_def kh_clear_def flag_bits(3))
  qed
  then show "kh_map (kh_clear h) = Map.empty" using kh_map_None [OF c] by auto
qed

lemma kh_init_ok: "kh_ok hash_func kh_init" "kh_map kh_init = Map.empty"
  by (simp_all add: kh_ok_def kh_init_def flag_len_def live_def filled_def hash_upper_def kh_map_def kh_pairs_def)

end
