(* ===== verification/Khash_Resize.thy ===== *)
theory Khash_Resize
  imports Khash_Spec
begin

text \<open>
  Resizing: the loop that moves the elements of the table in place, kicking out what lies where they belong, keeps
  every element exactly once and ends; with it, insertion and the whole map.
\<close>

section \<open>The state of a rehash\<close>

text \<open>
  While elements move there are buckets of the old table not yet emptied (\<open>live h\<close>) and buckets of the new one already
  filled (\<open>filled nf m\<close>); together they hold what the table held, without the element in hand.
\<close>

definition held :: "('k, 'v) kh \<Rightarrow> u32 list \<Rightarrow> nat \<Rightarrow> nat set" where
  "held h nf m = live h \<union> filled nf m"

definition contents :: "('k, 'v) kh \<Rightarrow> nat set \<Rightarrow> ('k \<times> 'v) set" where
  "contents h I = (\<lambda>i. (kh_keys h ! i, kh_vals h ! i)) ` I"

definition moving :: "('k \<Rightarrow> u32) \<Rightarrow> nat \<Rightarrow> ('k, 'v) kh \<Rightarrow> u32 list \<Rightarrow> bool" where
  "moving hash_func m h nf \<longleftrightarrow>
     flag_len (kh_flags h) (n_buckets h) \<and> flag_len nf m \<and> n_buckets h \<le> length (kh_keys h) \<and> n_buckets h \<le> length (kh_vals h) \<and>
     m \<le> length (kh_keys h) \<and> m \<le> length (kh_vals h) \<and> live h \<inter> filled nf m = {} \<and> (\<forall>i<m. \<not> ac_isdel nf i) \<and>
     inj_on (\<lambda>i. kh_keys h ! i) (held h nf m) \<and> (\<forall>i \<in> filled nf m. chained hash_func m nf (kh_keys h ! i) i)"

definition same_frame :: "('k, 'v) kh \<Rightarrow> ('k, 'v) kh \<Rightarrow> bool" where
  "same_frame h h' \<longleftrightarrow> n_buckets h' = n_buckets h \<and> kh_size h' = kh_size h \<and> length (kh_keys h') = length (kh_keys h) \<and> length (kh_vals h') = length (kh_vals h)"

lemma finite_held [simp]: "finite (held h nf m)"
  by (simp add: held_def)

lemma held_below: "i \<in> held h nf m \<Longrightarrow> moving hash_func m h nf \<Longrightarrow> i < length (kh_keys h) \<and> i < length (kh_vals h)"
  by (auto simp: held_def live_def filled_def moving_def)

text \<open>The free bucket for a key: every bucket probed before it is filled.\<close>

lemma free_bucket_found:
  assumes "card (filled nf (2 ^ c)) < 2 ^ c"
  shows "\<exists>i. free_bucket nf (2 ^ c) (unat (hash_func key) mod 2 ^ c) 0 = Some i \<and> i < 2 ^ c \<and> ac_isempty nf i \<and> chained hash_func (2 ^ c) nf key i"
proof -
  have "\<exists>e < 2 ^ c. ac_isempty nf e"
  proof (rule ccontr)
    assume "\<not> ?thesis"
    then have "filled nf (2 ^ c) = {..<2 ^ c}" by (auto simp: filled_def)
    then show False using assms by simp
  qed
  then obtain e where "e < 2 ^ c" "ac_isempty nf e" by blast
  from first_probe [of e c "ac_isempty nf" "unat (hash_func key)", OF this] obtain t where t: "t < 2 ^ c"
    "ac_isempty nf (probe (2 ^ c) (unat (hash_func key)) t)" "\<forall>j<t. \<not> ac_isempty nf (probe (2 ^ c) (unat (hash_func key)) j)" by blast
  then show ?thesis
    using free_bucket_run [OF t(2,3), of 0] probe_less [of "2 ^ c" "unat (hash_func key)" t] unfolding chained_def by (auto simp: probe_0)
qed

text \<open>One placement, into bucket \<open>i\<close>.\<close>

definition placed :: "('k, 'v) kh \<Rightarrow> nat \<Rightarrow> 'k \<Rightarrow> 'v \<Rightarrow> ('k, 'v) kh" where
  "placed h i key val = h\<lparr> kh_keys := (kh_keys h)[i := key], kh_vals := (kh_vals h)[i := val] \<rparr>"

lemma placed_simps [simp]:
  "n_buckets (placed h i key val) = n_buckets h" "kh_flags (placed h i key val) = kh_flags h" "kh_size (placed h i key val) = kh_size h"
  "live (placed h i key val) = live h" "length (kh_keys (placed h i key val)) = length (kh_keys h)" "length (kh_vals (placed h i key val)) = length (kh_vals h)"
  by (simp_all add: placed_def live_def)

lemma place_moving:
  assumes "moving hash_func m h nf" "i < m" "ac_isempty nf i" "chained hash_func m nf key i" "\<forall>j \<in> held h nf m. kh_keys h ! j \<noteq> key"
    and "flag_len g (n_buckets h)" "\<forall>j < n_buckets h. ac_iseither g j \<longleftrightarrow> ac_iseither (kh_flags h) j \<or> j = i"
  shows "moving hash_func m ((placed h i key val)\<lparr> kh_flags := g \<rparr>) (ac_set_isempty_false nf i)"
    and "held ((placed h i key val)\<lparr> kh_flags := g \<rparr>) (ac_set_isempty_false nf i) m = insert i (held h nf m)"
    and "contents ((placed h i key val)\<lparr> kh_flags := g \<rparr>) (insert i (held h nf m)) = insert (key, val) (contents h (held h nf m - {i}))"
    and "live ((placed h i key val)\<lparr> kh_flags := g \<rparr>) = live h - {i}"
proof -
  let ?h = "(placed h i key val)\<lparr> kh_flags := g \<rparr>" and ?nf = "ac_set_isempty_false nf i"
  have mv: "flag_len nf m" "m \<le> length (kh_keys h)" "m \<le> length (kh_vals h)" "live h \<inter> filled nf m = {}" "\<forall>j<m. \<not> ac_isdel nf j"
    "inj_on (\<lambda>j. kh_keys h ! j) (held h nf m)" "\<forall>j \<in> filled nf m. chained hash_func m nf (kh_keys h ! j) j"
    using assms(1) by (simp_all add: moving_def)
  note sf = set_flag_simps [OF flag_lenD [OF mv(1) assms(2)]]
  have nf: "filled ?nf m = insert i (filled nf m)" "i \<notin> filled nf m" using assms(2,3) by (auto simp: filled_def sf)
  show l: "live ?h = live h - {i}" using assms(7) by (auto simp: live_def)
  show hd: "held ?h ?nf m = insert i (held h nf m)" using l nf by (auto simp: held_def)
  have k: "kh_keys (placed h i key val) ! j = (if j = i then key else kh_keys h ! j)" "kh_vals (placed h i key val) ! j = (if j = i then val else kh_vals h ! j)" for j
    using assms(2) mv(2,3) by (simp_all add: placed_def nth_list_update)
  have "contents ?h (held h nf m - {i}) = contents h (held h nf m - {i})" unfolding contents_def by (rule image_cong) (auto simp: k)
  moreover have "contents ?h (insert i (held h nf m)) = insert (kh_keys ?h ! i, kh_vals ?h ! i) (contents ?h (held h nf m - {i}))"
    unfolding contents_def by (subst insert_Diff_single [symmetric]) (simp only: image_insert)
  ultimately show "contents ?h (insert i (held h nf m)) = insert (key, val) (contents h (held h nf m - {i}))" by (simp add: k)
  have "inj_on (\<lambda>j. kh_keys ?h ! j) (held ?h ?nf m)"
  proof (rule inj_onI)
    fix a b assume "a \<in> held ?h ?nf m" "b \<in> held ?h ?nf m" "kh_keys ?h ! a = kh_keys ?h ! b"
    then show "a = b" using hd k(1) assms(5) inj_onD [OF mv(6), of a b] by (auto split: if_splits)
  qed
  moreover have "chained hash_func m ?nf (kh_keys ?h ! j) j" if "j \<in> filled ?nf m" for j
  proof (rule chained_mono)
    show "chained hash_func m nf (kh_keys ?h ! j) j" using that nf k(1) assms(4) mv(7) by auto
  qed (simp add: sf)
  moreover have "live ?h \<inter> filled ?nf m = {}" using l nf(1) mv(4) by auto
  moreover have "\<forall>j<m. \<not> ac_isdel ?nf j" using mv(5) by (simp add: sf)
  ultimately show "moving hash_func m ?h ?nf" using assms(1,6) by (simp add: moving_def)
qed

lemma flags_same: "h\<lparr> kh_flags := kh_flags h \<rparr> = h"
  by simp

section \<open>The kick-out loop\<close>

lemma kick_out_ok:
  "moving hash_func (2 ^ c) h nf \<Longrightarrow> \<forall>j \<in> held h nf (2 ^ c). kh_keys h ! j \<noteq> key \<Longrightarrow> card (held h nf (2 ^ c)) < 2 ^ c \<Longrightarrow>
     \<exists>h' nf'. kick_out hash_func (2 ^ c) h nf key val = Some (h', nf') \<and> moving hash_func (2 ^ c) h' nf' \<and> same_frame h h' \<and> live h' \<subseteq> live h \<and>
       contents h' (held h' nf' (2 ^ c)) = insert (key, val) (contents h (held h nf (2 ^ c))) \<and>
       card (held h' nf' (2 ^ c)) = Suc (card (held h nf (2 ^ c)))"
proof (induction "card (live h)" arbitrary: h nf key val rule: less_induct)
  case less
  let ?m = "2 ^ c"
  note mv = less.prems(1)
  have "card (filled nf ?m) \<le> card (held h nf ?m)" by (rule card_mono) (auto simp: held_def)
  then obtain i where i: "free_bucket nf ?m (unat (hash_func key) mod ?m) 0 = Some i" "i < ?m" "ac_isempty nf i" "chained hash_func ?m nf key i"
    using free_bucket_found [of nf c hash_func key] less.prems(3) by auto
  have fl: "flag_len (kh_flags h) (n_buckets h)" using mv by (simp add: moving_def)
  have nf: "i \<notin> filled nf ?m" using i(3) by (simp add: filled_def)
  show ?case
  proof (cases "i \<in> live h")
    case True
    let ?g = "ac_set_isdel_true (kh_flags h) i"
    let ?h = "(placed h i key val)\<lparr> kh_flags := ?g \<rparr>" and ?nf = "ac_set_isempty_false nf i"
    have ib: "i < n_buckets h" "\<not> ac_iseither (kh_flags h) i" using True by (simp_all add: live_def)
    have g: "flag_len ?g (n_buckets h)" "\<forall>j < n_buckets h. ac_iseither ?g j \<longleftrightarrow> ac_iseither (kh_flags h) j \<or> j = i"
      using fl set_flag_simps(1,2) [OF flag_lenD [OF fl ib(1)]] by (auto simp: flag_bits(3))
    note pm = place_moving [OF mv i(2,3,4) less.prems(2) g, of val]
    have ih: "i \<in> held h nf ?m" using True by (simp add: held_def)
    then have hd: "held ?h ?nf ?m = held h nf ?m" using pm(2) by auto
    have step: "kick_out hash_func ?m h nf key val = kick_out hash_func ?m ?h ?nf (kh_keys h ! i) (kh_vals h ! i)"
      using i(1) ib by (subst kick_out.simps) (simp add: placed_def)
    have "card (live ?h) < card (live h)" using pm(4) True by (intro psubset_card_mono) auto
    moreover have "\<forall>j \<in> held ?h ?nf ?m. kh_keys ?h ! j \<noteq> kh_keys h ! i"
    proof
      fix j assume j: "j \<in> held ?h ?nf ?m"
      have inj: "inj_on (\<lambda>j. kh_keys h ! j) (held h nf ?m)" using mv by (simp add: moving_def)
      show "kh_keys ?h ! j \<noteq> kh_keys h ! i"
        using j hd less.prems(2) ih held_below [OF ih mv] inj_onD [OF inj, of j i] by (cases "j = i") (auto simp: placed_def)
    qed
    ultimately obtain h' nf' where r: "kick_out hash_func ?m ?h ?nf (kh_keys h ! i) (kh_vals h ! i) = Some (h', nf')" "moving hash_func ?m h' nf'"
      "same_frame ?h h'" "live h' \<subseteq> live ?h" "contents h' (held h' nf' ?m) = insert (kh_keys h ! i, kh_vals h ! i) (contents ?h (held ?h ?nf ?m))"
      "card (held h' nf' ?m) = Suc (card (held ?h ?nf ?m))"
      using less.hyps [of ?h ?nf "kh_keys h ! i" "kh_vals h ! i"] pm(1) hd less.prems(3) by (auto simp del: placed_simps)
    have "insert (kh_keys h ! i, kh_vals h ! i) (contents h (held h nf ?m - {i})) = contents h (held h nf ?m)"
      using ih by (auto simp: contents_def)
    then have "contents h' (held h' nf' ?m) = insert (key, val) (contents h (held h nf ?m))"
      unfolding r(5) pm(2,3) by blast
    moreover have "same_frame h h'" using r(3) by (simp add: same_frame_def)
    moreover have "live h' \<subseteq> live h" using r(4) pm(4) by blast
    moreover have "card (held h' nf' ?m) = Suc (card (held h nf ?m))" using r(6) hd by simp
    ultimately show ?thesis using r(1,2) step by simp
  next
    case False
    let ?h = "placed h i key val" and ?nf = "ac_set_isempty_false nf i"
    have g: "\<forall>j < n_buckets h. ac_iseither (kh_flags h) j \<longleftrightarrow> ac_iseither (kh_flags h) j \<or> j = i" using False by (auto simp: live_def)
    have e: "(placed h i key val)\<lparr> kh_flags := kh_flags h \<rparr> = placed h i key val" by (simp add: placed_def)
    note pm = place_moving [OF mv i(2,3,4) less.prems(2) fl g, of val, unfolded e]
    have "i \<notin> held h nf ?m" using False nf by (simp add: held_def)
    then have "card (held ?h ?nf ?m) = Suc (card (held h nf ?m))" "held h nf ?m - {i} = held h nf ?m" using pm(2) by auto
    moreover have "kick_out hash_func ?m h nf key val = Some (?h, ?nf)"
      using i(1) False by (subst kick_out.simps) (auto simp: placed_def live_def)
    moreover have "same_frame h ?h" by (simp add: same_frame_def)
    moreover have "live ?h \<subseteq> live h" by simp
    moreover have "contents ?h (held ?h ?nf ?m) = insert (key, val) (contents h (held h nf ?m))" unfolding pm(2,3) calculation(2) ..
    ultimately show ?thesis using pm(1) by blast
  qed
qed


section \<open>The whole rehash\<close>

lemma rehash_loop_ok:
  "moving hash_func (2 ^ c) h nf \<Longrightarrow> card (held h nf (2 ^ c)) \<le> 2 ^ c \<Longrightarrow> set js \<subseteq> {..<n_buckets h} \<Longrightarrow>
     \<exists>h' nf'. rehash_loop hash_func (2 ^ c) js h nf = Some (h', nf') \<and> moving hash_func (2 ^ c) h' nf' \<and> same_frame h h' \<and> live h' \<subseteq> live h - set js \<and>
       contents h' (held h' nf' (2 ^ c)) = contents h (held h nf (2 ^ c)) \<and> card (held h' nf' (2 ^ c)) = card (held h nf (2 ^ c))"
proof (induction js arbitrary: h nf)
  case Nil
  then show ?case by (auto simp: same_frame_def)
next
  case (Cons j js)
  let ?m = "2 ^ c"
  note mv = Cons.prems(1)
  show ?case
  proof (cases "ac_iseither (kh_flags h) j")
    case True
    then have "j \<notin> live h" by (simp add: live_def)
    then show ?thesis using Cons.IH [OF mv Cons.prems(2)] Cons.prems(3) True by fastforce
  next
    case False
    let ?g = "h\<lparr> kh_flags := ac_set_isdel_true (kh_flags h) j \<rparr>"
    have j: "j \<in> live h" "j < n_buckets h" using False Cons.prems(3) by (auto simp: live_def)
    have fl: "flag_len (kh_flags h) (n_buckets h)" "live h \<inter> filled nf ?m = {}" "inj_on (\<lambda>i. kh_keys h ! i) (held h nf ?m)" using mv by (simp_all add: moving_def)
    note sf = set_flag_simps [OF flag_lenD [OF fl(1) j(2)]]
    have l: "live ?g = live h - {j}" by (auto simp: live_def flag_bits(3) sf)
    then have hd: "held ?g nf ?m = held h nf ?m - {j}" "j \<in> held h nf ?m" using fl(2) j(1) by (auto simp: held_def)
    then have cd: "Suc (card (held ?g nf ?m)) = card (held h nf ?m)" using card_Suc_Diff1 [of "held h nf ?m" j] by simp
    have "inj_on (\<lambda>i. kh_keys h ! i) (held ?g nf ?m)" using fl(3) hd(1) by (auto intro: inj_on_subset)
    then have mg: "moving hash_func ?m ?g nf" using mv l by (auto simp: moving_def)
    have ng: "\<forall>i \<in> held ?g nf ?m. kh_keys ?g ! i \<noteq> kh_keys h ! j" using hd inj_onD [OF fl(3), of _ j] by auto
    from kick_out_ok [OF mg ng, of "kh_vals h ! j"] cd Cons.prems(2) obtain h1 nf1 where
      r: "kick_out hash_func ?m ?g nf (kh_keys h ! j) (kh_vals h ! j) = Some (h1, nf1)" "moving hash_func ?m h1 nf1" "same_frame ?g h1" "live h1 \<subseteq> live ?g"
        "contents h1 (held h1 nf1 ?m) = insert (kh_keys h ! j, kh_vals h ! j) (contents ?g (held ?g nf ?m))" "card (held h1 nf1 ?m) = card (held h nf ?m)"
      by auto
    have "contents h1 (held h1 nf1 ?m) = contents h (held h nf ?m)" unfolding r(5) hd(1) using hd(2) by (auto simp: contents_def)
    moreover have "n_buckets h1 = n_buckets h" using r(3) by (simp add: same_frame_def)
    moreover obtain h' nf' where "rehash_loop hash_func ?m js h1 nf1 = Some (h', nf')" "moving hash_func ?m h' nf'" "same_frame h1 h'" "live h' \<subseteq> live h1 - set js"
        "contents h' (held h' nf' ?m) = contents h1 (held h1 nf1 ?m)" "card (held h' nf' ?m) = card (held h1 nf1 ?m)"
      using Cons.IH [OF r(2)] r(6) Cons.prems(2,3) calculation(2) by auto
    moreover have "same_frame h h'" using r(3) calculation(5) by (simp add: same_frame_def)
    ultimately show ?thesis using False r(1,4,6) l by auto
  qed
qed

text \<open>From a table that satisfies the invariant: nothing is filled yet in the new one.\<close>

lemma moving_start:
  assumes "kh_ok hash_func h" "2 ^ c \<le> length ks" "2 ^ c \<le> length vs" "n_buckets h \<le> length ks" "n_buckets h \<le> length vs"
    and "\<forall>i < n_buckets h. ks ! i = kh_keys h ! i \<and> vs ! i = kh_vals h ! i"
  shows "moving hash_func (2 ^ c) (h\<lparr> kh_keys := ks, kh_vals := vs \<rparr>) (fresh_flags (2 ^ c))"
    and "held (h\<lparr> kh_keys := ks, kh_vals := vs \<rparr>) (fresh_flags (2 ^ c)) (2 ^ c) = live h"
    and "contents (h\<lparr> kh_keys := ks, kh_vals := vs \<rparr>) (live h) = contents h (live h)"
proof -
  let ?h = "h\<lparr> kh_keys := ks, kh_vals := vs \<rparr>"
  note ok = kh_okD [OF assms(1)]
  have fr: "\<forall>i < 2 ^ c. ac_isempty (fresh_flags (2 ^ c)) i \<and> \<not> ac_isdel (fresh_flags (2 ^ c)) i" using fresh_flags_empty flag_len_fresh by blast
  have f: "filled (fresh_flags (2 ^ c)) (2 ^ c) = {}" and l: "live ?h = live h" using fr by (auto simp: filled_def live_def)
  then show hd: "held ?h (fresh_flags (2 ^ c)) (2 ^ c) = live h" by (simp add: held_def)
  have lv: "i < n_buckets h" if "i \<in> live h" for i using that by (simp add: live_def)
  show "contents ?h (live h) = contents h (live h)" unfolding contents_def using assms(6) lv by (intro image_cong) auto
  have "inj_on (\<lambda>i. ks ! i) (live h)" using ok(9) assms(6) lv by (auto simp: inj_on_def)
  then show "moving hash_func (2 ^ c) ?h (fresh_flags (2 ^ c))" using ok(2) assms(2-5) f l hd fr by (simp add: moving_def)
qed

lemma after_rehash_ok:
  assumes "moving hash_func (2 ^ c) h nf" "live h = {}" "2 \<le> c" "kh_size h = card (filled nf (2 ^ c))" "kh_size h < hash_upper (2 ^ c)"
  shows "kh_ok hash_func (after_rehash al (2 ^ c) h nf)"
    and "contents (after_rehash al (2 ^ c) h nf) (live (after_rehash al (2 ^ c) h nf)) = contents h (filled nf (2 ^ c))"
proof -
  let ?m = "2 ^ c" and ?h = "after_rehash al (2 ^ c) h nf"
  have mv: "flag_len nf ?m" "?m \<le> length (kh_keys h)" "?m \<le> length (kh_vals h)" "\<forall>i<?m. \<not> ac_isdel nf i"
    "inj_on (\<lambda>i. kh_keys h ! i) (filled nf ?m)" "\<forall>i \<in> filled nf ?m. chained hash_func ?m nf (kh_keys h ! i) i"
    using assms(1,2) by (simp_all add: moving_def held_def)
  have s: "n_buckets ?h = ?m" "kh_flags ?h = nf" "kh_size ?h = kh_size h" "n_occupied ?h = kh_size h" "upper_bound ?h = hash_upper ?m"
    by (simp_all add: after_rehash_def Let_def)
  have l: "live ?h = filled nf ?m" using mv(4) by (auto simp: live_def filled_def s flag_bits(3))
  have n: "kh_keys ?h ! i = kh_keys h ! i" "kh_vals ?h ! i = kh_vals h ! i" if "i \<in> filled nf ?m" for i
    using that mv(2,3) by (auto simp: after_rehash_def Let_def krealloc_def filled_def nth_append)
  have "?m \<le> length (kh_keys ?h)" "?m \<le> length (kh_vals ?h)" using mv(2,3) by (auto simp: after_rehash_def Let_def krealloc_def)
  moreover have "inj_on (\<lambda>i. kh_keys ?h ! i) (filled nf ?m)" using mv(5) n by (auto simp: inj_on_def)
  ultimately show "kh_ok hash_func ?h" unfolding kh_ok_def s l using mv(1,6) n assms(3-5) by auto
  show "contents ?h (live ?h) = contents h (filled nf ?m)" unfolding contents_def l using n by (intro image_cong) auto
qed

lemma kh_map_contents:
  assumes "kh_ok hash_func h" "kh_ok hash_func h'" "contents h' (live h') = contents h (live h)"
  shows "kh_map h' = kh_map h"
proof
  fix q
  have e: "kh_map g q = Some v \<longleftrightarrow> (q, v) \<in> contents g (live g)" if "kh_ok hash_func g" for g v
    unfolding kh_map_iff [OF that] contents_def by auto
  show "kh_map h' q = kh_map h q" using e [OF assms(1)] e [OF assms(2)] assms(3) by (metis not_Some_eq)
qed

text \<open>
  A resize to a power of two keeps the invariant and the map, whichever allocation fails; when it does its work the
  table has that many buckets.
\<close>

definition resized :: "('k \<Rightarrow> u32) \<Rightarrow> nat \<Rightarrow> ('k, 'v) kh \<Rightarrow> ('k, 'v) kh \<times> int \<Rightarrow> bool" where
  "resized hash_func m h r \<longleftrightarrow>
     (case r of (h', rc) \<Rightarrow> kh_ok hash_func h' \<and> kh_map h' = kh_map h \<and> kh_size h' = kh_size h \<and>
        (rc = -1 \<and> n_buckets h' = n_buckets h \<or> rc = 0 \<and> n_buckets h' = m \<and> n_occupied h' < upper_bound h'))"

lemma grow_values_ok:
  assumes "kh_ok hash_func h" "n_buckets h \<le> m"
  shows "kh_ok hash_func (h\<lparr> kh_keys := krealloc m x (kh_keys h) \<rparr>)" "kh_map (h\<lparr> kh_keys := krealloc m x (kh_keys h) \<rparr>) = kh_map h"
proof -
  let ?h = "h\<lparr> kh_keys := krealloc m x (kh_keys h) \<rparr>"
  note ok = kh_okD [OF assms(1)]
  have l: "live ?h = live h" by (simp add: live_def)
  have n: "kh_keys ?h ! i = kh_keys h ! i" if "i \<in> live h" for i using that ok(3) assms(2) by (simp add: krealloc_def live_def nth_append)
  have "n_buckets h \<le> length (kh_keys ?h)" using ok(3) assms(2) by (simp add: krealloc_def)
  moreover have "inj_on (\<lambda>i. kh_keys ?h ! i) (live h)" using ok(9) n by (auto simp: inj_on_def)
  moreover have "\<forall>i \<in> live h. chained hash_func (n_buckets h) (kh_flags h) (kh_keys ?h ! i) i" using ok(10) n by simp
  ultimately show g: "kh_ok hash_func ?h" using ok(1,2,4-8) unfolding kh_ok_def l by simp
  have "contents ?h (live ?h) = contents h (live h)" unfolding contents_def l using n by (intro image_cong) auto
  then show "kh_map ?h = kh_map h" by (rule kh_map_contents [OF assms(1) g])
qed

lemma rehash_all:
  assumes "kh_ok hash_func h" "2 ^ c \<le> length ks" "2 ^ c \<le> length vs" "n_buckets h \<le> length ks" "n_buckets h \<le> length vs"
    and "\<forall>i < n_buckets h. ks ! i = kh_keys h ! i \<and> vs ! i = kh_vals h ! i" "2 \<le> c" "kh_size h < hash_upper (2 ^ c)"
  shows "\<exists>h3 nf. rehash_loop hash_func (2 ^ c) [0..<n_buckets h] (h\<lparr> kh_keys := ks, kh_vals := vs \<rparr>) (fresh_flags (2 ^ c)) = Some (h3, nf) \<and>
    resized hash_func (2 ^ c) h (after_rehash al (2 ^ c) h3 nf, 0)"
proof -
  let ?m = "2 ^ c" and ?h2 = "h\<lparr> kh_keys := ks, kh_vals := vs \<rparr>"
  note ok = kh_okD [OF assms(1)] and ms = moving_start [OF assms(1-6)]
  have "hash_upper ?m < ?m" by (rule hash_upper_less [OF assms(7)])
  then have "card (held ?h2 (fresh_flags ?m) ?m) \<le> ?m" unfolding ms(2) using ok(7) assms(8) by linarith
  from rehash_loop_ok [OF ms(1) this, of "[0..<n_buckets h]"] obtain h3 nf where
    r: "rehash_loop hash_func ?m [0..<n_buckets h] ?h2 (fresh_flags ?m) = Some (h3, nf)" "moving hash_func ?m h3 nf" "same_frame ?h2 h3"
      "live h3 \<subseteq> live ?h2 - {0..<n_buckets h}" "contents h3 (held h3 nf ?m) = contents h (live h)" "card (held h3 nf ?m) = card (live h)"
    unfolding ms(2,3) by (auto simp: lessThan_atLeast0)
  have "live ?h2 \<subseteq> {0..<n_buckets h}" by (auto simp: live_def)
  then have l: "live h3 = {}" using r(4) by blast
  then have hd: "held h3 nf ?m = filled nf ?m" by (simp add: held_def)
  have sz: "kh_size h3 = kh_size h" using r(3) by (simp add: same_frame_def)
  note ar = after_rehash_ok [OF r(2) l assms(7), unfolded sz, of al]
  have k: "kh_ok hash_func (after_rehash al ?m h3 nf)" using ar(1) r(6) ok(7) assms(8) unfolding hd by simp
  moreover have "kh_map (after_rehash al ?m h3 nf) = kh_map h"
    using kh_map_contents [OF assms(1) k] ar(2) r(5,6) ok(7) assms(8) unfolding hd by simp
  ultimately have "resized hash_func ?m h (after_rehash al ?m h3 nf, 0)" using assms(8) sz by (simp add: resized_def after_rehash_def Let_def)
  then show ?thesis using r(1) by blast
qed

lemma kh_resize_ok:
  assumes "kh_ok hash_func h" "new_size n = 2 ^ c" "2 \<le> c" "kh_size h < hash_upper (2 ^ c)"
  shows "\<exists>r. kh_resize hash_func al h n = Some r \<and> resized hash_func (2 ^ c) h r"
proof -
  let ?m = "2 ^ c" and ?ex = "n_buckets h < 2 ^ c"
  let ?ks = "if ?ex then krealloc ?m (junk_key al) (kh_keys h) else kh_keys h"
  let ?vs = "if ?ex then krealloc ?m (junk_val al) (kh_vals h) else kh_vals h"
  let ?h2 = "h\<lparr> kh_keys := ?ks, kh_vals := ?vs \<rparr>"
  note ok = kh_okD [OF assms(1)]
  consider (fail) "\<not> flags_ok al \<or> ?ex \<and> \<not> keys_ok al" | (vals) "flags_ok al" "?ex" "keys_ok al" "\<not> vals_ok al" | (work) "flags_ok al" "\<not> ?ex \<or> keys_ok al \<and> vals_ok al" by blast
  then show ?thesis
  proof cases
    case fail
    then have "kh_resize hash_func al h n = Some (h, -1)" using assms(2,4) by (auto simp: kh_resize_def Let_def)
    then show ?thesis using assms(1) by (simp add: resized_def)
  next
    case vals
    then have "kh_resize hash_func al h n = Some (h\<lparr> kh_keys := krealloc ?m (junk_key al) (kh_keys h) \<rparr>, -1)" using assms(2,4) by (auto simp: kh_resize_def Let_def)
    then show ?thesis using grow_values_ok [OF assms(1), of ?m "junk_key al"] vals(2) by (simp add: resized_def)
  next
    case work
    have run: "kh_resize hash_func al h n = map_option (\<lambda>(h3, nf). (after_rehash al ?m h3 nf, 0)) (rehash_loop hash_func ?m [0..<n_buckets h] ?h2 (fresh_flags ?m))"
      using work assms(2,4) by (auto simp: kh_resize_def Let_def)
    have kv: "?m \<le> length ?ks" "?m \<le> length ?vs" "n_buckets h \<le> length ?ks" "n_buckets h \<le> length ?vs"
      "\<forall>i < n_buckets h. ?ks ! i = kh_keys h ! i \<and> ?vs ! i = kh_vals h ! i" using ok(3,4) by (auto simp: krealloc_def nth_append)
    from rehash_all [OF assms(1) kv assms(3,4), of al] show ?thesis using run by force
  qed
qed

end
