(* ===== verification/Khash_Map.thy ===== *)
theory Khash_Map
  imports Khash_Resize
begin

text \<open>
  What the balance sheet and the transaction pool do with their hash table, store, look up, erase, walk and purge, and
  that any sequence of it behaves as a map, whatever the hash function and whichever allocation fails. The proof goes
  through a contract for components that refine a specification step by step up to a number of steps: the table has
  32-bit sizes, and the number of buckets stays below four times the number of insertions.
\<close>

section \<open>The uses of the table\<close>

definition kh_lookup :: "('k \<Rightarrow> u32) \<Rightarrow> ('k, 'v) kh \<Rightarrow> 'k \<Rightarrow> 'v option option" where
  "kh_lookup hash_func h key = map_option (\<lambda>k. if k \<noteq> n_buckets h then Some (kh_vals h ! k) else None) (kh_get hash_func h key)"

definition kh_store :: "('k \<Rightarrow> u32) \<Rightarrow> ('k, 'v) kh_alloc \<Rightarrow> ('k, 'v) kh \<Rightarrow> 'k \<Rightarrow> 'v \<Rightarrow> (('k, 'v) kh \<times> bool) option" where
  "kh_store hash_func al h key v =
     map_option (\<lambda>(h', k, _). if k = n_buckets h' then (h', False) else (kh_set_value h' k v, True)) (kh_put hash_func al h key)"

definition kh_erase :: "('k \<Rightarrow> u32) \<Rightarrow> ('k, 'v) kh \<Rightarrow> 'k \<Rightarrow> (('k, 'v) kh \<times> bool) option" where
  "kh_erase hash_func h key =
     map_option (\<lambda>k. if k = n_buckets h then (h, False) else (kh_del h k, True)) (kh_get hash_func h key)"

text \<open>A walk over the buckets that deletes the entries whose value has a property, as the expiry of the pool does.\<close>

fun kh_purge :: "('v \<Rightarrow> bool) \<Rightarrow> nat list \<Rightarrow> ('k, 'v) kh \<Rightarrow> ('k, 'v) kh" where
  "kh_purge P [] h = h"
| "kh_purge P (k # ks) h = kh_purge P ks (if kh_exist h k \<and> P (kh_vals h ! k) then kh_del h k else h)"

datatype ('k, 'v) kh_op = KStore "('k, 'v) kh_alloc" 'k 'v | KErase 'k | KPurge "'v \<Rightarrow> bool" | KClear

fun kh_step :: "('k \<Rightarrow> u32) \<Rightarrow> ('k, 'v) kh_op \<Rightarrow> ('k, 'v) kh \<Rightarrow> (('k, 'v) kh \<times> bool) option" where
  "kh_step hash_func (KStore al key v) h = kh_store hash_func al h key v"
| "kh_step hash_func (KErase key) h = kh_erase hash_func h key"
| "kh_step hash_func (KPurge P) h = Some (kh_purge P [0..<n_buckets h] h, True)"
| "kh_step hash_func KClear h = Some (kh_clear h, True)"

text \<open>The same on a map; no result when the outcome is not one the operation may have.\<close>

fun map_step :: "('k, 'v) kh_op \<Rightarrow> bool \<Rightarrow> ('k \<Rightarrow> 'v option) \<Rightarrow> ('k \<Rightarrow> 'v option) option" where
  "map_step (KStore al key v) r m =
     (if r then Some (m(key \<mapsto> v)) else if flags_ok al \<and> keys_ok al \<and> vals_ok al then None else Some m)"
| "map_step (KErase key) r m = (if r = (m key \<noteq> None) then Some (m(key := None)) else None)"
| "map_step (KPurge P) r m = Some (\<lambda>key. case m key of Some v \<Rightarrow> if P v then None else Some v | None \<Rightarrow> None)"
| "map_step KClear r m = Some Map.empty"

section \<open>Refinement up to a number of steps\<close>

fun run_ops :: "('op \<Rightarrow> 's \<Rightarrow> ('s \<times> bool) option) \<Rightarrow> 'op list \<Rightarrow> 's \<Rightarrow> ('s \<times> bool list) option" where
  "run_ops step [] s = Some (s, [])"
| "run_ops step (p # ps) s = Option.bind (step p s) (\<lambda>(s', r). map_option (\<lambda>(t, rs). (t, r # rs)) (run_ops step ps s'))"

fun run_spec :: "('op \<Rightarrow> bool \<Rightarrow> 'm \<Rightarrow> 'm option) \<Rightarrow> ('op \<times> bool) list \<Rightarrow> 'm \<Rightarrow> 'm option" where
  "run_spec spec [] m = Some m"
| "run_spec spec ((p, r) # ps) m = Option.bind (spec p r m) (run_spec spec ps)"

locale bounded_refinement =
  fixes step :: "'op \<Rightarrow> 's \<Rightarrow> ('s \<times> bool) option"
    and spec :: "'op \<Rightarrow> bool \<Rightarrow> 'm \<Rightarrow> 'm option"
    and abs :: "'s \<Rightarrow> 'm"
    and inv :: "nat \<Rightarrow> 's \<Rightarrow> bool"
    and limit :: nat
  assumes simulates: "inv k s \<Longrightarrow> k < limit \<Longrightarrow> \<exists>s' r. step p s = Some (s', r) \<and> inv (Suc k) s' \<and> spec p r (abs s) = Some (abs s')"
begin

lemma runs:
  "inv k s \<Longrightarrow> k + length ps \<le> limit \<Longrightarrow>
     \<exists>s' rs. run_ops step ps s = Some (s', rs) \<and> inv (k + length ps) s' \<and> length rs = length ps \<and> run_spec spec (zip ps rs) (abs s) = Some (abs s')"
proof (induction ps arbitrary: k s)
  case (Cons p ps)
  then have "k < limit" "Suc k + length ps \<le> limit" by simp_all
  then show ?case using simulates [OF Cons.prems(1), of p] Cons.IH [of "Suc k"] by fastforce
qed simp

end

section \<open>Sizes\<close>

lemma kroundup32_step:
  assumes "2 \<le> b" "b < 31"
  shows "kroundup32 (2 ^ b - 1) = 2 ^ b \<and> kroundup32 (2 ^ b + 1) = 2 ^ Suc b"
proof -
  have "b = 2 \<or> b = 3 \<or> b = 4 \<or> b = 5 \<or> b = 6 \<or> b = 7 \<or> b = 8 \<or> b = 9 \<or> b = 10 \<or> b = 11 \<or> b = 12 \<or> b = 13 \<or> b = 14 \<or> b = 15 \<or> b = 16 \<or>
      b = 17 \<or> b = 18 \<or> b = 19 \<or> b = 20 \<or> b = 21 \<or> b = 22 \<or> b = 23 \<or> b = 24 \<or> b = 25 \<or> b = 26 \<or> b = 27 \<or> b = 28 \<or> b = 29 \<or> b = 30"
    using assms by presburger
  then show ?thesis by (elim disjE) (simp_all add: kroundup32_def Let_def)
qed

lemma unat_power32: "b < 32 \<Longrightarrow> unat ((2 :: u32) ^ b) = 2 ^ b"
proof -
  assume "b < 32"
  then have "(2 :: nat) ^ b < 2 ^ 32" by (intro power_strict_increasing) simp_all
  moreover have "unat ((2 :: u32) ^ b) = unat (of_nat (2 ^ b) :: u32)" by simp
  ultimately show ?thesis unfolding unat_of_nat by (simp add: take_bit_nat_eq_self)
qed

lemma new_size_step:
  assumes "2 \<le> b" "b < 31"
  shows "new_size (of_nat (2 ^ b) - 1) = 2 ^ b" "new_size (of_nat (2 ^ b) + 1) = 2 ^ Suc b"
proof -
  have "(4 :: nat) \<le> 2 ^ b" using power_increasing [of 2 b "2 :: nat"] assms(1) by simp
  then show "new_size (of_nat (2 ^ b) - 1) = 2 ^ b" "new_size (of_nat (2 ^ b) + 1) = 2 ^ Suc b"
    using kroundup32_step [OF assms] assms unat_power32 [of b] unat_power32 [of "Suc b"] by (simp_all add: new_size_def Let_def)
qed

lemma new_size_first: "new_size 1 = 2 ^ 2"
  by code_simp

lemma size_occupied: "kh_ok hash_func h \<Longrightarrow> kh_size h \<le> n_occupied h"
  using card_mono [OF _ live_filled [of h]] kh_okD(7,8) by fastforce

lemma live_size_room: "n > 2 * s \<Longrightarrow> 4 \<le> n \<Longrightarrow> s < hash_upper n"
  by (simp add: hash_upper_def Suc_le_eq [symmetric] less_eq_div_iff_mult_less_eq)

lemma double_room: "s \<le> hash_upper n \<Longrightarrow> 4 \<le> n \<Longrightarrow> s < hash_upper (2 * n)"
  by (simp add: hash_upper_def Suc_le_eq [symmetric] less_eq_div_iff_mult_less_eq)

lemma make_room:
  assumes "kh_ok hash_func h" "n_buckets h < 2 ^ 31" "n_occupied h \<ge> upper_bound h"
  shows "\<exists>r m. (if n_buckets h > 2 * kh_size h then kh_resize hash_func al h (of_nat (n_buckets h) - 1) else kh_resize hash_func al h (of_nat (n_buckets h) + 1)) = Some r \<and>
    resized hash_func m h r \<and> m \<le> max (n_buckets h) (4 + 4 * kh_size h)"
proof -
  note ok = kh_okD [OF assms(1)]
  consider (first) "n_buckets h = 0" | (same) b where "2 \<le> b" "n_buckets h = 2 ^ b" "n_buckets h > 2 * kh_size h" | (double) b where "2 \<le> b" "n_buckets h = 2 ^ b" "n_buckets h \<le> 2 * kh_size h"
    using ok(1) by fastforce
  then show ?thesis
  proof cases
    case first
    then have "kh_size h = 0" using ok(7) by (simp add: live_def)
    then have "kh_size h < hash_upper (2 ^ 2)" by (simp add: hash_upper_def)
    from kh_resize_ok [OF assms(1) new_size_first order_refl this, of al] show ?thesis
      using first by (auto intro!: exI [of _ "4 :: nat"])
  next
    case same
    then have b: "b < 31" "4 \<le> n_buckets h" using assms(2) power_increasing [of 2 b "2 :: nat"] power_less_imp_less_exp [of "2 :: nat" b 31] by simp_all
    then have "kh_size h < hash_upper (2 ^ b)" using live_size_room [OF same(3)] same(2) by simp
    from kh_resize_ok [OF assms(1) new_size_step(1) [OF same(1) b(1)] same(1) this, of al] show ?thesis using same by fastforce
  next
    case double
    then have b: "b < 31" "4 \<le> n_buckets h" using assms(2) power_increasing [of 2 b "2 :: nat"] power_less_imp_less_exp [of "2 :: nat" b 31] by simp_all
    have "kh_size h \<le> hash_upper (n_buckets h)" using size_occupied [OF assms(1)] ok(5,6) by simp
    then have "kh_size h < hash_upper (2 ^ Suc b)" using double_room b(2) double(2) by simp
    from kh_resize_ok [OF assms(1) new_size_step(2) [OF double(1) b(1)] _ this, of al] double(1) obtain r where
      "kh_resize hash_func al h (of_nat (2 ^ b) + 1) = Some r" "resized hash_func (2 ^ Suc b) h r" by auto
    moreover have "2 ^ Suc b \<le> 4 * kh_size h" using double(2,3) by simp
    ultimately show ?thesis using double(2,3) by (intro exI [of _ r] exI [of _ "2 ^ Suc b"]) (simp only: not_less [symmetric] if_False, auto)
  qed
qed


section \<open>Insertion\<close>

lemma kh_resize_fails: "kh_resize hash_func al h n = Some (h', rc) \<Longrightarrow> rc < 0 \<Longrightarrow> \<not> (flags_ok al \<and> keys_ok al \<and> vals_ok al)"
  by (auto simp: kh_resize_def Let_def split: if_splits)

definition put_done :: "('k \<Rightarrow> u32) \<Rightarrow> ('k, 'v) kh \<Rightarrow> 'k \<Rightarrow> ('k, 'v) kh \<times> nat \<times> int \<Rightarrow> bool" where
  "put_done hash_func h key r \<longleftrightarrow>
     (case r of (h', x, rc) \<Rightarrow> kh_ok hash_func h' \<and> n_buckets h' = n_buckets h \<and> kh_size h' \<le> Suc (kh_size h) \<and> 0 \<le> rc \<and>
        x \<in> live h' \<and> kh_keys h' ! x = key \<and> (\<forall>q. q \<noteq> key \<longrightarrow> kh_map h' q = kh_map h q) \<and> (rc = 0 \<longleftrightarrow> kh_map h key \<noteq> None))"

lemma put_in_place:
  assumes "kh_ok hash_func h" "n_occupied h < upper_bound h"
  shows "\<exists>x. put_bucket hash_func h key = Some x \<and> put_done hash_func h key (fill_bucket h key x)"
proof (cases "\<exists>x \<in> live h. kh_keys h ! x = key")
  case True
  then obtain x where x: "x \<in> live h" "kh_keys h ! x = key" by blast
  moreover have "\<not> ac_isempty (kh_flags h) x" "\<not> ac_isdel (kh_flags h) x" using x(1) by (simp_all add: live_def flag_bits(3))
  moreover have "kh_map h key \<noteq> None" using kh_map_None [OF assms(1), of key] x by blast
  ultimately show ?thesis using put_bucket_hit [OF assms(1) x] assms(1) by (auto simp: fill_bucket_def put_done_def)
next
  case False
  then have miss: "\<forall>i \<in> live h. kh_keys h ! i \<noteq> key" by blast
  have "n_buckets h \<noteq> 0" using assms kh_okD(5) [OF assms(1)] by (cases "n_buckets h") (auto simp: hash_upper_def)
  then obtain x where x: "put_bucket hash_func h key = Some x" "x < n_buckets h" "x \<notin> live h" "chained hash_func (n_buckets h) (kh_flags h) key x"
    using put_bucket_miss [OF assms(1) miss] by blast
  obtain h' y r where f: "fill_bucket h key x = (h', y, r)" by (metis prod_cases3)
  note k = fill_bucket_ok [OF assms miss x(2-4) f]
  then have ok': "kh_ok hash_func h'" and l: "live h' = insert x (live h)" "kh_keys h' = (kh_keys h)[x := key]" "kh_vals h' = kh_vals h" by simp_all
  have len: "x < length (kh_keys h)" using x(2) kh_okD(3) [OF assms(1)] by simp
  have "kh_map h' q = kh_map h q" if "q \<noteq> key" for q
  proof -
    have "kh_map h' q = Some v \<longleftrightarrow> kh_map h q = Some v" for v
      unfolding kh_map_iff [OF ok'] kh_map_iff [OF assms(1)] l using that len x(3) by (auto simp: nth_list_update)
    then show ?thesis by (metis not_Some_eq)
  qed
  moreover have "kh_size h' = Suc (kh_size h)" using kh_okD(7) [OF ok'] kh_okD(7) [OF assms(1)] l(1) x(3) by simp
  moreover have "kh_map h key = None" using kh_map_None [OF assms(1)] miss by blast
  ultimately show ?thesis using k f x(1) len by (auto simp: put_done_def l)
qed

text \<open>Insertion as a whole: without memory for a needed resize the map is as before, otherwise the key has a bucket.\<close>

lemma kh_put_ok:
  assumes "kh_ok hash_func h" "n_buckets h < 2 ^ 31"
  shows "\<exists>g r. kh_put hash_func al h key = Some r \<and> kh_ok hash_func g \<and> kh_map g = kh_map h \<and> kh_size g = kh_size h \<and> n_buckets g \<le> max (n_buckets h) (4 + 4 * kh_size h) \<and>
    (r = (g, n_buckets g, -1) \<and> \<not> (flags_ok al \<and> keys_ok al \<and> vals_ok al) \<or> put_done hash_func g key r)"
proof (cases "n_occupied h \<ge> upper_bound h")
  case False
  then obtain x where "put_bucket hash_func h key = Some x" "put_done hash_func h key (fill_bucket h key x)" using put_in_place [OF assms(1), of key] by auto
  then show ?thesis using False assms(1) by (intro exI [of _ h] exI [of _ "fill_bucket h key x"]) (simp add: kh_put_def)
next
  case True
  from make_room [OF assms True, of al] obtain g rc m where
    r: "(if n_buckets h > 2 * kh_size h then kh_resize hash_func al h (of_nat (n_buckets h) - 1) else kh_resize hash_func al h (of_nat (n_buckets h) + 1)) = Some (g, rc)"
      "resized hash_func m h (g, rc)" "m \<le> max (n_buckets h) (4 + 4 * kh_size h)" by (metis surj_pair)
  have p: "kh_put hash_func al h key = (if rc < 0 then Some (g, n_buckets g, -1) else map_option (fill_bucket g key) (put_bucket hash_func g key))"
    using True r(1) by (simp add: kh_put_def)
  have g: "kh_ok hash_func g" "kh_map g = kh_map h" "kh_size g = kh_size h" "n_buckets g \<le> max (n_buckets h) (4 + 4 * kh_size h)"
    using r(2,3) by (auto simp: resized_def)
  show ?thesis
  proof (cases "rc < 0")
    case True
    then have "\<not> (flags_ok al \<and> keys_ok al \<and> vals_ok al)" using r(1) kh_resize_fails by (metis (full_types))
    then show ?thesis using p g True by auto
  next
    case False
    then have "n_occupied g < upper_bound g" using r(2) by (auto simp: resized_def)
    then obtain x where "put_bucket hash_func g key = Some x" "put_done hash_func g key (fill_bucket g key x)" using put_in_place [OF g(1), of key] by auto
    then show ?thesis using p g False by (intro exI [of _ g] exI [of _ "fill_bucket g key x"]) simp
  qed
qed

section \<open>The uses as map operations\<close>

lemma kh_lookup_ok: "kh_ok hash_func h \<Longrightarrow> kh_lookup hash_func h key = Some (kh_map h key)"
proof -
  assume ok: "kh_ok hash_func h"
  show ?thesis
  proof (cases "kh_map h key")
    case None
    then show ?thesis using kh_get_miss [OF ok] kh_map_None [OF ok, of key] by (simp add: kh_lookup_def)
  next
    case (Some v)
    then obtain i where i: "i \<in> live h" "kh_keys h ! i = key" "kh_vals h ! i = v" using kh_map_iff [OF ok] by blast
    then have "i \<noteq> n_buckets h" by (simp add: live_def)
    then show ?thesis using kh_get_hit [OF ok i(1,2)] i(3) Some by (simp add: kh_lookup_def)
  qed
qed

lemma kh_set_value_frame [simp]: "n_buckets (kh_set_value h x v) = n_buckets h" "kh_size (kh_set_value h x v) = kh_size h"
  by (simp_all add: kh_set_value_def)

lemma kh_store_ok:
  assumes "kh_ok hash_func h" "n_buckets h < 2 ^ 31"
  shows "\<exists>h' r. kh_store hash_func al h key v = Some (h', r) \<and> kh_ok hash_func h' \<and> map_step (KStore al key v) r (kh_map h) = Some (kh_map h') \<and>
    kh_size h' \<le> Suc (kh_size h) \<and> n_buckets h' \<le> max (n_buckets h) (4 + 4 * kh_size h)"
proof -
  from kh_put_ok [OF assms, of al key] obtain g r where
    g: "kh_put hash_func al h key = Some r" "kh_ok hash_func g" "kh_map g = kh_map h" "kh_size g = kh_size h" "n_buckets g \<le> max (n_buckets h) (4 + 4 * kh_size h)"
      "r = (g, n_buckets g, -1) \<and> \<not> (flags_ok al \<and> keys_ok al \<and> vals_ok al) \<or> put_done hash_func g key r" by blast
  show ?thesis
  proof (cases "put_done hash_func g key r")
    case False
    then show ?thesis using g by (auto simp: kh_store_def)
  next
    case True
    obtain h' x rc where r: "r = (h', x, rc)" by (metis prod_cases3)
    have p: "kh_ok hash_func h'" "n_buckets h' = n_buckets g" "kh_size h' \<le> Suc (kh_size g)" "x \<in> live h'" "kh_keys h' ! x = key" "\<forall>q. q \<noteq> key \<longrightarrow> kh_map h' q = kh_map g q"
      using True by (simp_all add: put_done_def r)
    have "x \<noteq> n_buckets h'" using p(4) by (simp add: live_def)
    then have "kh_store hash_func al h key v = Some (kh_set_value h' x v, True)" using g(1) by (simp add: kh_store_def r)
    moreover have "kh_map (kh_set_value h' x v) = (kh_map h)(key \<mapsto> v)" unfolding kh_set_value_map [OF p(1,4)] p(5) using p(6) g(3) by auto
    ultimately show ?thesis using kh_set_value_ok [OF p(1)] p(2,3) g(4,5) by (intro exI [of _ "kh_set_value h' x v"] exI [of _ True]) simp
  qed
qed

lemma kh_del_frame [simp]: "n_buckets (kh_del h x) = n_buckets h" "kh_size (kh_del h x) \<le> kh_size h"
  by (simp_all add: kh_del_def)

lemma kh_erase_ok:
  assumes "kh_ok hash_func h"
  shows "\<exists>h' r. kh_erase hash_func h key = Some (h', r) \<and> kh_ok hash_func h' \<and> map_step (KErase key) r (kh_map h) = Some (kh_map h') \<and>
    kh_size h' \<le> kh_size h \<and> n_buckets h' = n_buckets h"
proof (cases "kh_map h key")
  case None
  then have "kh_erase hash_func h key = Some (h, False)" using kh_get_miss [OF assms] kh_map_None [OF assms, of key] by (simp add: kh_erase_def)
  then show ?thesis using assms None by (intro exI [of _ h] exI [of _ False]) (simp add: fun_upd_idem)
next
  case (Some v)
  then obtain i where i: "i \<in> live h" "kh_keys h ! i = key" using kh_map_iff [OF assms] by blast
  then have "i \<noteq> n_buckets h" by (simp add: live_def)
  then have "kh_erase hash_func h key = Some (kh_del h i, True)" using kh_get_hit [OF assms i] by (simp add: kh_erase_def)
  then show ?thesis using kh_del_ok [OF assms i(1)] i(2) Some by (intro exI [of _ "kh_del h i"] exI [of _ True]) simp
qed

text \<open>The walk that deletes meets every entry once; deleting moves nothing.\<close>

lemma kh_purge_ok:
  "kh_ok hash_func h \<Longrightarrow> set ks \<subseteq> {..<n_buckets h} \<Longrightarrow>
     kh_ok hash_func (kh_purge P ks h) \<and> n_buckets (kh_purge P ks h) = n_buckets h \<and> kh_size (kh_purge P ks h) \<le> kh_size h \<and>
     kh_keys (kh_purge P ks h) = kh_keys h \<and> kh_vals (kh_purge P ks h) = kh_vals h \<and> live (kh_purge P ks h) = {i \<in> live h. \<not> (i \<in> set ks \<and> P (kh_vals h ! i))}"
proof (induction ks arbitrary: h)
  case (Cons k ks)
  let ?g = "if kh_exist h k \<and> P (kh_vals h ! k) then kh_del h k else h"
  have k: "k < n_buckets h" using Cons.prems(2) by simp
  then have lv: "k \<in> live h \<longleftrightarrow> kh_exist h k" by (simp add: live_def kh_exist_def)
  have "kh_ok hash_func ?g" using kh_del_ok(1) [OF Cons.prems(1), of k] Cons.prems(1) lv by simp
  moreover have "kh_keys ?g = kh_keys h" "kh_vals ?g = kh_vals h" "n_buckets ?g = n_buckets h" "kh_size ?g \<le> kh_size h" by (simp_all add: kh_del_def)
  moreover have "live ?g = live h - (if P (kh_vals h ! k) then {k} else {})"
    using k flag_lenD [OF kh_okD(2) [OF Cons.prems(1)] k] by (auto simp: live_def kh_exist_def kh_del_def flag_bits(3) set_flag_simps)
  ultimately show ?case using Cons.IH [of ?g] Cons.prems(2) by (auto split: if_splits)
qed simp

lemma kh_purge_map:
  assumes "kh_ok hash_func h"
  shows "kh_map (kh_purge P [0..<n_buckets h] h) = (\<lambda>key. case kh_map h key of Some v \<Rightarrow> if P v then None else Some v | None \<Rightarrow> None)"
proof
  fix key
  let ?g = "kh_purge P [0..<n_buckets h] h"
  have "set [0..<n_buckets h] \<subseteq> {..<n_buckets h}" by auto
  note g = kh_purge_ok [OF assms this, of P]
  have lv: "live ?g = {i \<in> live h. \<not> P (kh_vals h ! i)}" using g unfolding live_def [of h] by auto
  have ok: "kh_ok hash_func ?g" and kv: "kh_keys ?g = kh_keys h" "kh_vals ?g = kh_vals h" using g by blast+
  have e: "kh_map ?g key = Some v \<longleftrightarrow> kh_map h key = Some v \<and> \<not> P v" for v
    unfolding kh_map_iff [OF ok] kh_map_iff [OF assms] kv lv by auto
  show "kh_map ?g key = (case kh_map h key of Some v \<Rightarrow> if P v then None else Some v | None \<Rightarrow> None)"
  proof (cases "kh_map ?g key")
    case None
    then show ?thesis using e by (cases "kh_map h key") auto
  next
    case (Some v)
    then show ?thesis using e [of v] by simp
  qed
qed


section \<open>Any sequence of operations\<close>

text \<open>After \<open>k\<close> operations the table holds at most \<open>k\<close> entries and has at most \<open>4 + 4 * k\<close> buckets.\<close>

definition khash_inv :: "('k \<Rightarrow> u32) \<Rightarrow> nat \<Rightarrow> ('k, 'v) kh \<Rightarrow> bool" where
  "khash_inv hash_func k h \<longleftrightarrow> kh_ok hash_func h \<and> kh_size h \<le> k \<and> n_buckets h \<le> 4 + 4 * k"

lemma kh_clear_frame [simp]: "n_buckets (kh_clear h) = n_buckets h" "kh_size (kh_clear h) \<le> kh_size h"
  by (simp_all add: kh_clear_def)

lemma kh_step_simulates:
  assumes "khash_inv hash_func k h" "k < 2 ^ 28"
  shows "\<exists>h' r. kh_step hash_func p h = Some (h', r) \<and> khash_inv hash_func (Suc k) h' \<and> map_step p r (kh_map h) = Some (kh_map h')"
proof -
  have ok: "kh_ok hash_func h" and b: "kh_size h \<le> k" "n_buckets h \<le> 4 + 4 * k" using assms(1) by (simp_all add: khash_inv_def)
  show ?thesis
  proof (cases p)
    case (KStore al key v)
    have "n_buckets h < 2 ^ 31" using b(2) assms(2) by simp
    from kh_store_ok [OF ok this, of al key v] obtain h' r where
      r: "kh_store hash_func al h key v = Some (h', r)" "kh_ok hash_func h'" "map_step (KStore al key v) r (kh_map h) = Some (kh_map h')"
        "kh_size h' \<le> Suc (kh_size h)" "n_buckets h' \<le> max (n_buckets h) (4 + 4 * kh_size h)" by blast
    then have "khash_inv hash_func (Suc k) h'" using b by (simp add: khash_inv_def)
    then show ?thesis unfolding KStore kh_step.simps using r(1,3) by blast
  next
    case (KErase key)
    from kh_erase_ok [OF ok, of key] obtain h' r where
      r: "kh_erase hash_func h key = Some (h', r)" "kh_ok hash_func h'" "map_step (KErase key) r (kh_map h) = Some (kh_map h')" "kh_size h' \<le> kh_size h" "n_buckets h' = n_buckets h" by blast
    then have "khash_inv hash_func (Suc k) h'" using b by (simp add: khash_inv_def)
    then show ?thesis unfolding KErase kh_step.simps using r(1,3) by blast
  next
    case (KPurge P)
    have "set [0..<n_buckets h] \<subseteq> {..<n_buckets h}" by auto
    then show ?thesis using kh_purge_ok [OF ok, of "[0..<n_buckets h]" P] kh_purge_map [OF ok, of P] b
      by (intro exI [of _ "kh_purge P [0..<n_buckets h] h"] exI [of _ True]) (simp add: KPurge khash_inv_def)
  next
    case KClear
    have "kh_size (kh_clear h) \<le> Suc k" using kh_clear_frame(2) [of h] b(1) by linarith
    then show ?thesis using KClear kh_clear_ok [OF ok] b by (intro exI [of _ "kh_clear h"] exI [of _ True]) (simp add: khash_inv_def)
  qed
qed

interpretation khash: bounded_refinement "kh_step hash_func" map_step kh_map "khash_inv hash_func" "2 ^ 28" for hash_func :: "'k \<Rightarrow> u32"
  by unfold_locales (rule kh_step_simulates)

lemma kh_walk:
  assumes "kh_ok hash_func h"
  shows "distinct (map fst (kh_pairs h))" "kh_size h = length (kh_pairs h)"
proof -
  show "distinct (map fst (kh_pairs h))" by (rule kh_pairs_keys [OF assms])
  have "set (filter (kh_exist h) [0..<n_buckets h]) = live h" by (auto simp: live_def kh_exist_def)
  then have "card (live h) = length (filter (kh_exist h) [0..<n_buckets h])" using distinct_card [of "filter (kh_exist h) [0..<n_buckets h]"] by simp
  then show "kh_size h = length (kh_pairs h)" using kh_okD(7) [OF assms] by (simp add: kh_pairs_def)
qed

text \<open>
  C36: The hash table is a map. Whatever the hash function, every sequence of up to 2^28 stores, erasures, purges
  and clears on a table that starts empty runs to its end (no probe or kick-out loop is endless), with the outcomes the same
  operations have on a map: a store is lost only when memory for a resize is refused, and then nothing else is; an
  erasure reports whether the key was there. Afterwards a lookup of any key gives what the map has, a walk over the
  buckets meets every entry exactly once, and the recorded size is their number.
\<close>

theorem khash_refines_map:
  assumes "length ops \<le> 2 ^ 28"
  shows "\<exists>h rs. run_ops (kh_step hash_func) ops kh_init = Some (h, rs) \<and> length rs = length ops \<and>
    run_spec map_step (zip ops rs) Map.empty = Some (map_of (kh_pairs h)) \<and>
    (\<forall>key. kh_lookup hash_func h key = Some (map_of (kh_pairs h) key)) \<and> distinct (map fst (kh_pairs h)) \<and> kh_size h = length (kh_pairs h)"
proof -
  have "khash_inv hash_func 0 (kh_init :: ('a, 'b) kh)" using kh_init_ok(1) [of hash_func] by (simp add: khash_inv_def) (simp add: kh_init_def)
  from khash.runs [OF this, of ops] assms obtain h rs where
    r: "run_ops (kh_step hash_func) ops kh_init = Some (h, rs)" "khash_inv hash_func (length ops) h" "length rs = length ops"
      "run_spec map_step (zip ops rs) Map.empty = Some (kh_map h)" by (auto simp: kh_init_ok(2))
  have ok: "kh_ok hash_func h" using r(2) by (simp add: khash_inv_def)
  show ?thesis using r(1,3,4) kh_lookup_ok [OF ok] kh_walk [OF ok] unfolding kh_map_def by blast
qed

theorem khash_refines_map_witness:
  "\<exists>h rs. run_ops (kh_step hash_key32)
      [KStore \<lparr> flags_ok = True, keys_ok = True, vals_ok = True, junk_key = [], junk_val = 0 \<rparr> (replicate 32 1) (5 :: nat),
       KStore \<lparr> flags_ok = True, keys_ok = True, vals_ok = True, junk_key = [], junk_val = 0 \<rparr> (replicate 32 2) 7, KErase (replicate 32 1)] kh_init = Some (h, rs) \<and>
     kh_lookup hash_key32 h (replicate 32 1) = Some None \<and> kh_lookup hash_key32 h (replicate 32 2) = Some (Some 7)"
proof -
  let ?al = "\<lparr> flags_ok = True, keys_ok = True, vals_ok = True, junk_key = [], junk_val = 0 :: nat \<rparr>"
  let ?ops = "[KStore ?al (replicate 32 1) (5 :: nat), KStore ?al (replicate 32 2) 7, KErase (replicate 32 (1 :: byte))]"
  obtain h rs where r: "run_ops (kh_step hash_key32) ?ops kh_init = Some (h, rs)" "length rs = length ?ops"
    "run_spec map_step (zip ?ops rs) Map.empty = Some (map_of (kh_pairs h))" "\<forall>key. kh_lookup hash_key32 h key = Some (map_of (kh_pairs h) key)"
    using khash_refines_map [of ?ops hash_key32] by auto
  obtain a b c where rs: "rs = [a, b, c]" using r(2) by (auto simp: length_Suc_conv numeral_3_eq_3)
  have ne: "replicate 32 (1 :: byte) \<noteq> replicate 32 2" by (simp add: replicate_eq_replicate)
  have "map_of (kh_pairs h) = (Map.empty (replicate 32 1 \<mapsto> 5, replicate 32 2 \<mapsto> 7)) (replicate 32 1 := None)"
    using r(3) unfolding rs by (auto split: if_splits)
  then show ?thesis using r(1,4) ne by (intro exI conjI) auto
qed

end
