(* ===== verification/Tcp_Stream.thy ===== *)
theory Tcp_Stream
  imports Tcp_Framing
begin

text \<open>
  What lies between the frames of \<open>Tcp_Framing\<close> and the socket (\<^verbatim>\<open>src/tcpd/tcpconnection.c\<close>, \<^verbatim>\<open>src/tcpd/tcpclient.c\<close>, the client
  thread of \<^verbatim>\<open>src/tcpd/tcpserver.c\<close>): the loop that sends with short writes, the loop that receives, the buffer handed to
  the callback, and the one notification when a connection ends. The answers of \<^verbatim>\<open>send\<close> and \<^verbatim>\<open>recv\<close> are arguments; a
  call that is still waiting for an answer has no result.
\<close>

section \<open>Sending\<close>

text \<open>\<open>Sent n\<close> is a return value of \<open>n\<close>, at most the length asked for; \<open>Send_Interrupted\<close> is \<^verbatim>\<open>EINTR\<close>.\<close>

datatype send_result = Sent nat | Send_Interrupted | Send_Error

text \<open>The return code, the bytes that went out and the answers not used.\<close>

fun TcpConnection_SendRaw :: "send_result list \<Rightarrow> byte list \<Rightarrow> (int \<times> byte list \<times> send_result list) option" where
  "TcpConnection_SendRaw answers [] = Some (0, [], answers)"
| "TcpConnection_SendRaw [] (b # bs) = None"
| "TcpConnection_SendRaw (Send_Interrupted # answers) (b # bs) = TcpConnection_SendRaw answers (b # bs)"
| "TcpConnection_SendRaw (Send_Error # answers) (b # bs) = Some (-1, [], answers)"
| "TcpConnection_SendRaw (Sent n # answers) (b # bs) =
     (if n = 0 then Some (-1, [], answers)
      else map_option (\<lambda>(rc, out, rest). (rc, take n (b # bs) @ out, rest)) (TcpConnection_SendRaw answers (drop n (b # bs))))"

text \<open>\<^verbatim>\<open>TcpConnection_SendFramed\<close> with its two raw sends.\<close>

definition send_framed :: "send_result list \<Rightarrow> byte list \<Rightarrow> (int \<times> byte list \<times> send_result list) option" where
  "send_framed answers payload =
     (if length payload > TCP_MAX_FRAME_PAYLOAD then Some (-1, [], answers)
      else Option.bind (TcpConnection_SendRaw answers (be_bytes4 (length payload))) (\<lambda>(rc, out, answers').
        if rc = 0 \<and> payload \<noteq> []
        then map_option (\<lambda>(rc', out', answers''). (rc', out @ out', answers'')) (TcpConnection_SendRaw answers' payload)
        else Some (rc, out, answers')))"

text \<open>
  A sender that sends one payload after the other and stops at the first that fails: how many were sent, and the
  bytes on the stream. It is the use of a connection the round trip is stated for: after a send that broke off inside a
  frame, nothing that follows on the stream can be framed again.
\<close>

fun send_until_failure :: "send_result list \<Rightarrow> byte list list \<Rightarrow> (nat \<times> byte list) option" where
  "send_until_failure answers [] = Some (0, [])"
| "send_until_failure answers (p # ps) =
     Option.bind (send_framed answers p) (\<lambda>(rc, out, answers').
       if rc = 0 then map_option (\<lambda>(n, out'). (Suc n, out @ out')) (send_until_failure answers' ps) else Some (0, out))"

section \<open>The buffer for the callback\<close>

record data_buffer =
  dataBuf :: "byte list"
  dataBufLen :: nat
  dataBufCap :: nat

definition TcpConnection_SetDataBuffer :: "bool \<Rightarrow> byte list \<Rightarrow> data_buffer \<Rightarrow> data_buffer \<times> int" where
  "TcpConnection_SetDataBuffer realloc_ok data b =
     (if length data > dataBufCap b \<and> \<not> realloc_ok then (b, -1)
      else
        let b1 = (if length data > dataBufCap b
                  then b\<lparr> dataBuf := dataBuf b @ replicate (length data - length (dataBuf b)) 0, dataBufCap := length data \<rparr> else b)
        in (b1\<lparr> dataBuf := data @ drop (length data) (dataBuf b1), dataBufLen := length data \<rparr>, 0))"

text \<open>The callback reads \<^verbatim>\<open>dataBufLen\<close> bytes of \<^verbatim>\<open>dataBuf\<close>, which are the payload; the buffer never shrinks.\<close>

definition data_buffer_ok :: "data_buffer \<Rightarrow> bool" where
  "data_buffer_ok b \<longleftrightarrow> length (dataBuf b) = dataBufCap b \<and> dataBufLen b \<le> dataBufCap b"

lemma SetDataBuffer_holds:
  assumes "data_buffer_ok b" "TcpConnection_SetDataBuffer ok data b = (b', rc)"
  shows "data_buffer_ok b'" "rc = 0 \<Longrightarrow> take (dataBufLen b') (dataBuf b') = data" "rc \<noteq> 0 \<Longrightarrow> b' = b \<and> \<not> ok" "dataBufCap b \<le> dataBufCap b'"
  using assms by (auto simp: TcpConnection_SetDataBuffer_def data_buffer_ok_def Let_def split: if_splits)

section \<open>A connection and its thread\<close>

record stream_conn =
  sc_framing :: framing
  closing :: bool
  disconnectedNotified :: bool
  has_on_disconnect :: bool

datatype stream_event = Data_Received "byte list" | Disconnected

definition TcpConnection_Init :: "int \<Rightarrow> bool \<Rightarrow> bool \<Rightarrow> stream_conn option" where
  "TcpConnection_Init sockFd send_lock_ok state_lock_ok =
     (if sockFd < 0 \<or> \<not> send_lock_ok \<or> \<not> state_lock_ok then None
      else Some \<lparr> sc_framing = TcpConnection_ResetFramingState, closing = False, disconnectedNotified = False, has_on_disconnect = False \<rparr>)"

text \<open>\<open>Recv_Bytes []\<close> is the return value 0, the end of the stream.\<close>

datatype recv_result = Recv_Bytes "byte list" | Recv_Interrupted | Recv_Error

fun receive_loop :: "recv_result list \<Rightarrow> stream_conn \<Rightarrow> (stream_conn \<times> stream_event list) option" where
  "receive_loop [] c = None"
| "receive_loop (Recv_Interrupted # rs) c = receive_loop rs c"
| "receive_loop (Recv_Error # rs) c = Some (c, [])"
| "receive_loop (Recv_Bytes bs # rs) c =
     (if bs = [] then Some (c, [])
      else case TcpConnection_FeedFramedData (sc_framing c) bs of (f, ps, ok) \<Rightarrow>
        if ok then map_option (\<lambda>(c', evs). (c', map Data_Received ps @ evs)) (receive_loop rs (c\<lparr> sc_framing := f \<rparr>))
        else Some (c\<lparr> sc_framing := f \<rparr>, map Data_Received ps))"

definition notify_disconnect :: "stream_conn \<Rightarrow> stream_conn \<times> stream_event list" where
  "notify_disconnect c =
     (if \<not> disconnectedNotified c \<and> has_on_disconnect c then (c\<lparr> disconnectedNotified := True \<rparr>, [Disconnected]) else (c, []))"

definition TcpClient_ThreadProc :: "recv_result list \<Rightarrow> stream_conn \<Rightarrow> (stream_conn \<times> stream_event list) option" where
  "TcpClient_ThreadProc rs c =
     map_option (\<lambda>(c1, evs). case notify_disconnect c1 of (c2, e) \<Rightarrow> (c2, evs @ e)) (receive_loop rs c)"

text \<open>The thread of the server up to where it takes the lock of the table of clients.\<close>

definition TcpServer_clientthreadprocess :: "recv_result list \<Rightarrow> stream_conn \<Rightarrow> (stream_conn \<times> stream_event list) option" where
  "TcpServer_clientthreadprocess rs c =
     map_option (\<lambda>(c1, evs). case notify_disconnect (c1\<lparr> closing := True \<rparr>) of (c2, e) \<Rightarrow> (c2, evs @ e)) (receive_loop rs c)"

text \<open>
  Disconnecting a client from another thread: the receiving thread, if it has not ended yet, runs to its end on the
  answers still to come before the join returns. The connection is freed.
\<close>

definition TcpClient_Disconnect :: "recv_result list option \<Rightarrow> stream_conn option \<Rightarrow> (stream_conn option \<times> stream_event list) option" where
  "TcpClient_Disconnect running connection =
     (case connection of
        None \<Rightarrow> Some (None, [])
      | Some c \<Rightarrow>
          map_option (\<lambda>(c1, evs). (None, evs @ snd (notify_disconnect c1)))
            (case running of None \<Rightarrow> Some (c\<lparr> closing := True \<rparr>, []) | Some rs \<Rightarrow> TcpClient_ThreadProc rs (c\<lparr> closing := True \<rparr>)))"

section \<open>What goes out\<close>

lemma SendRaw_cases:
  "TcpConnection_SendRaw answers data = Some (rc, out, rest) \<Longrightarrow> rc = 0 \<and> out = data \<or> rc = -1 \<and> (\<exists>lost. lost \<noteq> [] \<and> data = out @ lost)"
proof (induction answers data arbitrary: out rule: TcpConnection_SendRaw.induct)
  case (5 n answers b bs)
  show ?case
  proof (cases "n = 0")
    case False
    then obtain out' where o: "TcpConnection_SendRaw answers (drop n (b # bs)) = Some (rc, out', rest)" "out = take n (b # bs) @ out'" using 5(2) by auto
    have e: "b # bs = take n (b # bs) @ drop n (b # bs)" by (rule append_take_drop_id [symmetric])
    from 5(1) [OF False o(1)] show ?thesis
    proof
      assume "rc = 0 \<and> out' = drop n (b # bs)"
      then show ?thesis using o(2) by (simp only: append_take_drop_id) simp
    next
      assume "rc = -1 \<and> (\<exists>rest. rest \<noteq> [] \<and> drop n (b # bs) = out' @ rest)"
      then obtain z where z: "rc = -1" "z \<noteq> []" "drop n (b # bs) = out' @ z" by blast
      then have "b # bs = out @ z" using e unfolding o(2) by simp
      then show ?thesis using z by blast
    qed
  qed (use 5(2) in simp)
qed auto

text \<open>Without an error, sending ends: as many positive answers as there are bytes are enough.\<close>

lemma SendRaw_completes:
  "Send_Error \<notin> set answers \<Longrightarrow> Sent 0 \<notin> set answers \<Longrightarrow> length data \<le> length (filter (\<lambda>a. a \<noteq> Send_Interrupted) answers) \<Longrightarrow>
     \<exists>rest. TcpConnection_SendRaw answers data = Some (0, data, rest)"
proof (induction answers data rule: TcpConnection_SendRaw.induct)
  case (5 n answers b bs)
  then have "n \<noteq> 0" by auto
  moreover have "length (drop n (b # bs)) \<le> length (filter (\<lambda>a. a \<noteq> Send_Interrupted) answers)" using 5(4) \<open>n \<noteq> 0\<close> by auto
  ultimately obtain rest where "TcpConnection_SendRaw answers (drop n (b # bs)) = Some (0, drop n (b # bs), rest)" using 5 by auto
  then show ?case using \<open>n \<noteq> 0\<close> by simp
qed auto

lemma send_framed_cases:
  assumes "send_framed answers p = Some (rc, out, rest)"
  shows "rc = 0 \<and> TcpConnection_SendFramed p = Some out \<or>
    rc \<noteq> 0 \<and> (out = [] \<or> (\<exists>lost. lost \<noteq> [] \<and> TcpConnection_SendFramed p = Some (out @ lost)))"
proof (cases "length p > TCP_MAX_FRAME_PAYLOAD")
  case True
  then show ?thesis using assms by (simp add: send_framed_def)
next
  case False
  let ?h = "be_bytes4 (length p)"
  from assms False obtain rc1 out1 rest1 where
    h: "TcpConnection_SendRaw answers ?h = Some (rc1, out1, rest1)" by (auto simp: send_framed_def bind_eq_Some_conv)
  show ?thesis
  proof (cases "rc1 = 0 \<and> p \<noteq> []")
    case True
    then have "out1 = ?h" using SendRaw_cases [OF h] by auto
    moreover obtain out2 where "TcpConnection_SendRaw rest1 p = Some (rc, out2, rest)" "out = out1 @ out2"
      using assms False h True by (auto simp: send_framed_def)
    ultimately show ?thesis using SendRaw_cases [of rest1 p rc out2 rest] False by (auto simp: TcpConnection_SendFramed_def)
  next
    case False2: False
    then have "rc = rc1" "out = out1" using assms False h by (auto simp: send_framed_def)
    then show ?thesis using SendRaw_cases [OF h] False False2 by (auto simp: TcpConnection_SendFramed_def)
  qed
qed

text \<open>A frame that is cut short delivers nothing.\<close>

lemma feed_bytes_cut:
  assumes "TcpConnection_SendFramed p = Some (out @ lost)" "lost \<noteq> []"
  shows "\<exists>f. feed_bytes TcpConnection_ResetFramingState out = (f, [], True)"
proof -
  let ?h = "be_bytes4 (length p)"
  have e: "out @ lost = ?h @ p" "length p \<le> TCP_MAX_FRAME_PAYLOAD" using assms(1) by (auto simp: TcpConnection_SendFramed_def split: if_splits)
  have l: "length ?h = 4" "?h \<noteq> []" by (simp_all add: be_bytes4_def length_greater_0_conv [symmetric] del: length_greater_0_conv)
  have n: "be_val ?h = length p" by (rule be_val_be_bytes4) (use e(2) in \<open>simp add: TCP_MAX_FRAME_PAYLOAD_def\<close>)
  have r: "headerBuf TcpConnection_ResetFramingState = []" by (simp add: TcpConnection_ResetFramingState_def)
  show ?thesis
  proof (cases "length out < 4")
    case True
    then show ?thesis using feed_bytes_header [OF framing_ok_reset, of out "[]"] r by simp
  next
    case False
    then have "take 4 out = ?h" using arg_cong [OF e(1), of "take 4"] l(1) by simp
    then obtain q where h: "out = ?h @ q" by (metis append_take_drop_id)
    then have q: "out = ?h @ q" "p = q @ lost" using e(1) by simp_all
    let ?c = "\<lparr> headerBuf = ?h, expectedPayloadLen = length p, frameBuf = [] \<rparr>"
    have "0 < length p" "length q < length p" using q(2) assms(2) by simp_all
    then have "feed_bytes TcpConnection_ResetFramingState out = feed_bytes ?c q" "framing_ok ?c"
      using feed_bytes_header_done [OF framing_ok_reset, of ?h q] l n e(2) q(1) by (simp_all add: r Let_def framing_ok_def)
    then show ?thesis using feed_bytes_payload [of ?c q "[]"] \<open>length q < length p\<close> l(1) by simp
  qed
qed

lemma send_until_failure_received:
  "send_until_failure answers ps = Some (n, out) \<Longrightarrow> n \<le> length ps \<and> (\<exists>f. feed_bytes TcpConnection_ResetFramingState out = (f, take n ps, True))"
proof (induction ps arbitrary: answers n out)
  case (Cons p ps)
  then obtain rc out1 rest where s: "send_framed answers p = Some (rc, out1, rest)" by (auto simp: bind_eq_Some_conv)
  show ?case
  proof (cases "rc = 0")
    case True
    then obtain m out2 where m: "send_until_failure rest ps = Some (m, out2)" "n = Suc m" "out = out1 @ out2" using Cons.prems s by auto
    moreover have "TcpConnection_SendFramed p = Some out1" using send_framed_cases [OF s] True by simp
    ultimately show ?thesis using Cons.IH [OF m(1)] by (auto simp: feed_bytes_frame)
  next
    case False
    then have "n = 0" "out = out1" using Cons.prems s by auto
    then show ?thesis using send_framed_cases [OF s] False feed_bytes_cut by fastforce
  qed
qed simp

section \<open>What comes in\<close>

text \<open>Answers of \<^verbatim>\<open>recv\<close> while the stream goes on, and the bytes in them.\<close>

fun stream_bytes :: "recv_result list \<Rightarrow> byte list option" where
  "stream_bytes [] = Some []"
| "stream_bytes (Recv_Bytes bs # rs) = (if bs = [] then None else map_option ((@) bs) (stream_bytes rs))"
| "stream_bytes (Recv_Interrupted # rs) = stream_bytes rs"
| "stream_bytes (Recv_Error # rs) = None"

lemma receive_loop_stream:
  "stream_bytes rs = Some bytes \<Longrightarrow> framing_ok (sc_framing c) \<Longrightarrow> feed_bytes (sc_framing c) bytes = (f, ps, True) \<Longrightarrow> stop \<in> {Recv_Error, Recv_Bytes []} \<Longrightarrow>
     receive_loop (rs @ stop # rest) c = Some (c\<lparr> sc_framing := f \<rparr>, map Data_Received ps)"
proof (induction rs arbitrary: bytes c ps rule: stream_bytes.induct)
  case 1
  then show ?case by auto
next
  case (2 bs rs)
  then obtain bytes' where b: "bs \<noteq> []" "stream_bytes rs = Some bytes'" "bytes = bs @ bytes'" by (auto split: if_splits)
  obtain f1 ps1 ok where s: "feed_bytes (sc_framing c) bs = (f1, ps1, ok)" using prod_cases3 by blast
  then obtain ps2 where r: "ok" "feed_bytes f1 bytes' = (f, ps2, True)" "ps = ps1 @ ps2"
    using 2(4) b(3) by (auto simp: feed_bytes_append split: prod.splits if_splits)
  have "receive_loop (rs @ stop # rest) (c\<lparr> sc_framing := f1 \<rparr>) = Some (c\<lparr> sc_framing := f \<rparr>, map Data_Received ps2)"
    using 2(1) [OF b(1,2), of "c\<lparr> sc_framing := f1 \<rparr>" ps2] feed_bytes_ok [OF s 2(3)] r(2) 2(5) by simp
  then show ?case using b(1) s r(1,3) Feed_feed_bytes [OF 2(3)] by simp
qed auto

section \<open>From one end to the other\<close>

definition connected :: stream_conn where
  "connected = \<lparr> sc_framing = TcpConnection_ResetFramingState, closing = False, disconnectedNotified = False, has_on_disconnect = True \<rparr>"

text \<open>
  C28: Payloads cross a connection whole, in order and up to the first that could not be sent. Whatever the sockets
  do (short writes, interrupted calls, an error in the middle of a frame, pieces of any size), the thread at the other
  end, of a client or of the server, calls back with exactly the payloads whose sending was reported as done and nothing of the
  frame that broke off, and then reports the end of the connection once: disconnecting afterwards does not report it again.
\<close>

theorem payloads_cross_connection:
  assumes "send_until_failure answers payloads = Some (n, bytes)" and "stream_bytes pieces = Some bytes" and "stop \<in> {Recv_Error, Recv_Bytes []}"
  shows "n \<le> length payloads \<and>
    (\<exists>c c'. TcpClient_ThreadProc (pieces @ stop # rest) connected = Some (c, map Data_Received (take n payloads) @ [Disconnected]) \<and>
       TcpClient_Disconnect None (Some c) = Some (None, []) \<and>
       TcpClient_Disconnect (Some (pieces @ stop # rest)) (Some connected) = Some (None, map Data_Received (take n payloads) @ [Disconnected]) \<and>
       TcpServer_clientthreadprocess (pieces @ stop # rest) connected = Some (c', map Data_Received (take n payloads) @ [Disconnected]))"
proof -
  obtain f where f: "n \<le> length payloads" "feed_bytes TcpConnection_ResetFramingState bytes = (f, take n payloads, True)" using send_until_failure_received [OF assms(1)] by blast
  have "receive_loop (pieces @ stop # rest) c = Some (c\<lparr> sc_framing := f \<rparr>, map Data_Received (take n payloads))" if "sc_framing c = TcpConnection_ResetFramingState" for c
    by (rule receive_loop_stream [OF assms(2) _ _ assms(3)]) (use f(2) that in simp_all)
  then show ?thesis using f(1)
    by (simp add: TcpClient_ThreadProc_def TcpServer_clientthreadprocess_def TcpClient_Disconnect_def notify_disconnect_def connected_def)
qed

theorem payloads_cross_connection_witness:
  "\<exists>c. TcpClient_ThreadProc [Recv_Bytes [0, 0], Recv_Interrupted, Recv_Bytes [0, 2, 7], Recv_Bytes [8, 0], Recv_Error] connected =
     Some (c, [Data_Received [7, 8], Disconnected])"
proof -
  have s: "send_until_failure [Sent 3, Send_Interrupted, Sent 1, Sent 2, Sent 1, Send_Error] [[7, 8], [9]] = Some (1, [0, 0, 0, 2, 7, 8, 0])"
    by (simp add: send_framed_def TCP_MAX_FRAME_PAYLOAD_def be_bytes4_small)
  show ?thesis
    using payloads_cross_connection [OF s, of "[Recv_Bytes [0, 0], Recv_Interrupted, Recv_Bytes [0, 2, 7], Recv_Bytes [8, 0]]" Recv_Error "[]"] by auto
qed

end
