(* ===== verification/Numgen.thy ===== *)
theory Numgen
  imports Utils
begin

text \<open>
  The random numbers of \<^verbatim>\<open>src/numgen.c\<close>. The values \<^verbatim>\<open>rand()\<close> returns are a sequence, and the state is the number of
  values used; what \<^verbatim>\<open>/dev/urandom\<close>, the clock and \<^verbatim>\<open>getpid\<close> give are arguments.
\<close>

definition random_byte :: "(nat \<Rightarrow> nat) \<Rightarrow> nat \<Rightarrow> byte \<times> nat" where
  "random_byte rand k = (of_nat (rand k mod 256), Suc k)"

fun random_bytes :: "(nat \<Rightarrow> nat) \<Rightarrow> nat \<Rightarrow> nat \<Rightarrow> byte list \<times> nat" where
  "random_bytes rand 0 k = ([], k)"
| "random_bytes rand (Suc n) k =
     (case random_byte rand k of (b, k1) \<Rightarrow> case random_bytes rand n k1 of (bs, k2) \<Rightarrow> (b # bs, k2))"

text \<open>\<^verbatim>\<open>memcpy\<close> of the bytes into an integer, least significant first.\<close>

definition random_two_byte :: "(nat \<Rightarrow> nat) \<Rightarrow> nat \<Rightarrow> 16 word \<times> nat" where
  "random_two_byte rand k = (case random_bytes rand 2 k of (bs, k') \<Rightarrow> (of_nat (le_val bs), k'))"

definition random_four_byte :: "(nat \<Rightarrow> nat) \<Rightarrow> nat \<Rightarrow> u32 \<times> nat" where
  "random_four_byte rand k = (case random_bytes rand 4 k of (bs, k') \<Rightarrow> (of_nat (le_val bs), k'))"

definition random_eight_byte :: "(nat \<Rightarrow> nat) \<Rightarrow> nat \<Rightarrow> u64 \<times> nat" where
  "random_eight_byte rand k = (case random_bytes rand 8 k of (bs, k') \<Rightarrow> (of_nat (le_val bs), k'))"

text \<open>\<open>urandom\<close>: the bytes \<^verbatim>\<open>fread\<close> got, none when the device cannot be opened; \<open>clock\<close>: seconds and nanoseconds, when it can be read.\<close>

definition random_secure_eight_byte :: "byte list option \<Rightarrow> (u64 \<times> u64) option \<Rightarrow> u64 \<Rightarrow> (nat \<Rightarrow> nat) \<Rightarrow> nat \<Rightarrow> u64 \<times> nat" where
  "random_secure_eight_byte urandom clock pid rand k =
     (let got = (case urandom of None \<Rightarrow> [] | Some bs \<Rightarrow> bs); x = of_nat (le_val got) :: u64 in
      if length got = 8 \<and> x \<noteq> 0 then (x, k)
      else
        let (tv_sec, tv_nsec) = (case clock of None \<Rightarrow> (0, 0) | Some t \<Rightarrow> t);
            (x, k') = random_eight_byte rand k;
            x = x XOR tv_nsec;
            x = x XOR push_bit 16 tv_sec;
            x = x XOR push_bit 40 pid
        in (if x \<noteq> 0 then x else 1, k'))"

section \<open>Lemmas\<close>

lemma random_bytes_value: "random_bytes rand n k = (map (\<lambda>i. of_nat (rand i mod 256)) [k..<k + n], k + n)"
proof (induction n arbitrary: k)
  case (Suc n)
  have "[k..<k + Suc n] = k # [Suc k..<Suc k + n]" by (subst upt_conv_Cons) simp_all
  then show ?case using Suc [of "Suc k"] by (simp add: random_byte_def del: upt_Suc)
qed simp

text \<open>A node identity is never 0, which on the wire means that none is advertised.\<close>

lemma random_secure_eight_byte_nonzero: "fst (random_secure_eight_byte urandom clock pid rand k) \<noteq> 0"
  by (simp add: random_secure_eight_byte_def Let_def split: prod.split)

text \<open>With \<^verbatim>\<open>/dev/urandom\<close> the identity is the eight bytes read and \<^verbatim>\<open>rand()\<close> is not touched.\<close>

lemma random_secure_eight_byte_urandom:
  "length bs = 8 \<Longrightarrow> of_nat (le_val bs) \<noteq> (0 :: u64) \<Longrightarrow> random_secure_eight_byte (Some bs) clock pid rand k = (of_nat (le_val bs), k)"
  by (simp add: random_secure_eight_byte_def)

text \<open>
  Without it, nodes started together from the same seed still get different identities when their process ids
  differ: the ids are moved beyond each other's bits. The one exception is a value of 0, which becomes 1.
\<close>

lemma random_secure_eight_byte_separates:
  assumes "pid \<noteq> pid'" "unat pid < 2 ^ 24" "unat pid' < 2 ^ 24"
    and "fst (random_secure_eight_byte None clock pid rand k) \<noteq> 1" "fst (random_secure_eight_byte None clock pid' rand k) \<noteq> 1"
  shows "fst (random_secure_eight_byte None clock pid rand k) \<noteq> fst (random_secure_eight_byte None clock pid' rand k)"
proof
  assume eq: "fst (random_secure_eight_byte None clock pid rand k) = fst (random_secure_eight_byte None clock pid' rand k)"
  obtain s ns where c: "(case clock of None \<Rightarrow> (0, 0) | Some t \<Rightarrow> t) = (s, ns)" by fastforce
  let ?x = "(fst (random_eight_byte rand k) XOR ns) XOR push_bit 16 s"
  have v: "fst (random_secure_eight_byte None clock q rand k) = (if ?x XOR push_bit 40 q \<noteq> 0 then ?x XOR push_bit 40 q else 1)" for q
    by (simp add: random_secure_eight_byte_def c Let_def split: prod.split)
  have "?x XOR push_bit 40 pid = ?x XOR push_bit 40 pid'" using eq assms(4,5) unfolding v by (auto split: if_splits)
  then have "?x XOR (?x XOR push_bit 40 pid) = ?x XOR (?x XOR push_bit 40 pid')" by (rule arg_cong)
  then have e: "push_bit 40 pid = push_bit 40 pid'" by (simp only: xor.assoc [symmetric] xor_self_eq xor.left_neutral)
  have u: "unat (push_bit 40 q) = 1099511627776 * unat q" if "unat q < 2 ^ 24" for q :: u64
  proof -
    have "1099511627776 * unat q < 18446744073709551616" using that by simp
    then show ?thesis by (simp add: push_bit_eq_mult unat_word_ariths mult.commute)
  qed
  have "1099511627776 * unat pid = 1099511627776 * unat pid'" using arg_cong [OF e, of unat] unfolding u [OF assms(2)] u [OF assms(3)] .
  then have "unat pid = unat pid'" by simp
  then show False using assms(1) by (simp add: word_unat_eq_iff)
qed

end
