(* ===== verification/Spec2Isabelle.thy ===== *)
theory Spec2Isabelle
  imports Command_Spend Udp_Node Tcp_Server_Safe Dlibc_Set_Algebra Khash_Map Tcp_Stream Numgen
begin

text \<open>
  Skalacoin is a proof-of-work cryptocurrency node in C (\<^verbatim>\<open>src/src\<close>, \<^verbatim>\<open>src/include\<close>). A node keeps a chain of
  blocks, a ledger of account balances derived from it, a pool of pending transactions and a pool of
  blocks that do not fit the chain yet; it mines, exchanges blocks and transactions with peers and stores
  its state in files. This development models the node's own logic as HOL functions and proves what makes
  it correct. It is a shallow embedding: a C function becomes a function of the state it reads to the
  state it leaves and its return value, a failed call is a value (\<open>None\<close>, \<open>False\<close>, a negative number) and
  every early return is a branch. Machine integers are words of their width; structs are records, and their
  packed byte images are lists of bytes.

  \<^bold>\<open>Theories and sources.\<close>

  \<^item> \<open>Skala_Prelude\<close>: byte images, vectors as lists, the contracts \<open>byte_codec\<close> (a packed struct decodes to
    what was encoded; interpreted for headers, transactions, balance entries, table entries and 256-bit
    integers) and \<open>keyed_map\<close> (a map keyed by a field of its values; interpreted for the balance sheet and
    the transaction pool).
  \<^item> \<open>Uint256\<close> (\<^verbatim>\<open>include/uint256.h\<close>): the 256-bit routines against natural-number arithmetic.
  \<^item> \<open>Utils\<close>, \<open>Crypto\<close> (\<^verbatim>\<open>include/utils.h\<close>, \<^verbatim>\<open>src/crypto/crypto.c\<close>, \<^verbatim>\<open>src/blake2/blake2.c\<close>): target comparison and
    decoding, hexadecimal addresses, hashing and signing. OpenSSL and libsecp256k1 are the fields of the
    record \<open>crypto_env\<close>, an argument of everything that hashes or verifies; what a theorem needs of them is
    a hypothesis.
  \<^item> \<open>Transaction\<close> (\<^verbatim>\<open>src/block/transaction.c\<close>), \<open>Autolykos2\<close> (\<^verbatim>\<open>src/autolykos2/autolykos2.c\<close>), \<open>Block\<close>
    (\<^verbatim>\<open>src/block/block.c\<close>): signing and verification, the memory-hard hash with and without its table, block
    hashing, merkle roots, coinbase rules, proof of work.
  \<^item> \<open>Fetch_Scheduler\<close> (\<^verbatim>\<open>src/nets/fetch_scheduler.c\<close>): the delay a reorganisation has to wait.
  \<^item> \<open>Account_Ledger\<close>: the abstract specification, balances as a function from addresses to numbers and
    transactions as transfers. It models no code; the concrete ledgers refine it.
  \<^item> \<open>Balance_Sheet\<close> (\<^verbatim>\<open>src/balance_sheet.c\<close> and the debit and credit helpers of \<^verbatim>\<open>src/block/chain.c\<close>),
    \<open>Tx_Mempool\<close> (\<^verbatim>\<open>src/txmempool.c\<close>), \<open>Emission\<close> (\<^verbatim>\<open>include/constants.h\<close>): the sheet and its file, spend
    selection, the pool with its admission window and expiry, the reward schedule.
  \<^item> \<open>Chain_Consensus\<close> (\<^verbatim>\<open>src/block/chain.c\<close>): linkage, difficulty, cumulative work, the voted DAG size and its
    memo table.
  \<^item> \<open>Chain_Node\<close> (\<^verbatim>\<open>src/block/chain.c\<close>, \<^verbatim>\<open>include/runtime_state.h\<close>): the node state and the operations that
    change it, append, rollback, branch replacement, wiping and recomputation.
  \<^item> \<open>Chain_Files\<close> (the file functions of \<^verbatim>\<open>src/block/chain.c\<close>, \<^verbatim>\<open>include/storage/block_table.h\<close>): saving and
    loading the chain byte for byte.
  \<^item> \<open>Chain_Ledger\<close>, \<open>Chain_Accept\<close>, \<open>Chain_History\<close>, \<open>Chain_Restore\<close>: the proofs about these operations, from
    one ledger pass through one accepted block to every state the node can reach.
  \<^item> \<open>Orphan_Pool\<close> (\<^verbatim>\<open>src/nets/orphan_pool.c\<close>): the bounded pool, branch collection and the attach loop.
  \<^item> \<open>Tcp_Framing\<close> (\<^verbatim>\<open>src/tcpd/tcpconnection.c\<close>): the length-prefixed frames of a connection and their
    reassembly from arbitrary pieces.
  \<^item> \<open>Tcp_Stream\<close> (\<^verbatim>\<open>src/tcpd/tcpconnection.c\<close>, \<^verbatim>\<open>src/tcpd/tcpclient.c\<close>, \<^verbatim>\<open>src/tcpd/tcpserver.c\<close>): the loops that send and receive
    on a socket whose answers are given, and the one notification when a connection ends: payloads cross whole, in
    order and up to the first that could not be sent.
  \<^item> \<open>Numgen\<close> (\<^verbatim>\<open>src/numgen.c\<close>): the random numbers; a node identity is never 0.
  \<^item> \<open>Net_Endpoints\<close> (\<^verbatim>\<open>src/nets/net_node.c\<close>, \<^verbatim>\<open>src/tcpd/tcpconnection.c\<close>): the connection table, which
    connections belong to the same peer, whom a block is relayed to, pinning and reaping.
  \<^item> \<open>Tcp_Server\<close>, \<open>Tcp_Server_Safe\<close> (\<^verbatim>\<open>src/tcpd/tcpserver.c\<close>, the inbound part of the relay in \<^verbatim>\<open>src/nets/net_node.c\<close>): the accept, client, stopping
    and block-relaying threads with the slots, connections, handles and pins they share. A critical section is one step,
    \<open>tcp_reachable\<close> closes over all interleavings, threads that fail to start included, and a use after free or a join
    of a thread that is not there has no result.
  \<^item> \<open>Udp_Node\<close> (\<^verbatim>\<open>src/udpd/udpnode.c\<close>): pending pings, pongs, retries and time-outs, start and stop, and the
    callbacks into the discovery.
  \<^item> \<open>Node_Discovery\<close> (\<^verbatim>\<open>src/nets/nodediscovery.c\<close>): the peer table, peer exchange and the periodic tick with
    the pings, queries and dials it decides on.
  \<^item> \<open>Net_Wire\<close> (\<^verbatim>\<open>include/packettype.h\<close>, \<^verbatim>\<open>src/nets/net_node.c\<close>): packet types, the encoding of blocks and
    the delivery receipts of the synchronisation.
  \<^item> \<open>Net_Node\<close> (\<^verbatim>\<open>src/nets/net_node.c\<close>, \<^verbatim>\<open>src/tcpd/tcpclient.c\<close>): the running node, its packet handlers on both
    sides of a connection, connecting, disconnecting and the maintenance tick. A handler is a function of
    the node and of what the outside answers meanwhile (\<open>net_world\<close>: clock, disk, sockets, settings) to the
    node it leaves and the list of its effects (\<open>net_action\<close>).
  \<^item> \<open>Block_Assembly\<close>, \<open>Node_Commands\<close> (\<^verbatim>\<open>src/main.c\<close>): selecting and ordering pooled spends, building the next
    block, the nonce search, appending and flushing; the commands mine, send, dagvote and wipechain on the
    running node.
  \<^item> \<open>Net_Sound\<close>, \<open>Net_Sync\<close>: the proofs about the running node, the step relation \<open>net_step\<close> over all handlers and
    commands with whatever outcome, labelled with whether the step was fair (its saves succeeded and none of its
    blocks pays nobody), and the runs \<open>net_run\<close>.
  \<^item> \<open>Sync_Window\<close> (\<^verbatim>\<open>src/main.c\<close>): the sync command, its window of outstanding requests, the walk back to the
    fork point and the rounds; what the network threads do between its turns is an argument of each turn.
  \<^item> \<open>Node_Startup\<close> (\<^verbatim>\<open>src/main.c\<close>): start-up from stored files and the full verification of them.
  \<^item> \<open>Console_Text\<close>, \<open>Command_Line\<close>, \<open>Command_Spend\<close> (\<^verbatim>\<open>src/main.c\<close>, \<^verbatim>\<open>include/utils.h\<close>): the prompt, from the bytes
    typed to the effect on the node: reading lines, words and numbers as the C library does, decimal printing,
    settings, the wallet file, every command and the loop around them. What a command prints is a value of \<open>reply\<close>.
  \<^item> \<open>Dlibc_Heap\<close>, \<open>Dlibc_Vector\<close>, \<open>Dlibc_Set\<close> (\<^verbatim>\<open>include/dlibc/vector.h\<close>, \<^verbatim>\<open>include/dlibc/set.h\<close>): the containers on a
    heap of byte arrays and structs, with pointers, offsets computed in machine words, allocations that may fail and
    a log of destructor calls; an access outside live memory has no result. \<open>Dlibc_Vector_Ops\<close>, \<open>Dlibc_Vector_Spec\<close>,
    \<open>Dlibc_Set_Spec\<close>, \<open>Dlibc_Set_Algebra\<close>: what the operations do. The rest of the development uses lists for vectors;
    both satisfy the contract \<open>dynamic_array\<close>.
  \<^item> \<open>Khash\<close> (\<^verbatim>\<open>include/khash/khash.h\<close>): the hash table behind the ledger and the pool, with its packed flags, probing,
    deletion marks and the resize that moves elements in place. \<open>Khash_Probe\<close>: the flag macros and the probe
    sequence; \<open>Khash_Spec\<close>: the invariant and the map; \<open>Khash_Resize\<close>: the kick-out loop ends and loses nothing;
    \<open>Khash_Map\<close>: the uses of the table in \<^verbatim>\<open>src/txmempool.c\<close> and \<^verbatim>\<open>src/balance_sheet.c\<close>, and their refinement of a map through
    the contract \<open>bounded_refinement\<close>.

  \<^bold>\<open>What is shown.\<close> The arithmetic, encodings and comparisons compute the numbers they stand for; parsing and
  printing, signing and verifying, saving and loading, framing and reassembly are inverse to each other. A
  block that is appended has passed every consensus rule; appending applies exactly its transactions to the
  abstract ledger and mints exactly the reward. Every state of the node is reached by \<open>node_step\<close>, which takes each
  operation with each of its outcomes and is labelled with what the outcome does to the ledger (\<open>ledger_effect\<close>). Two
  outcomes take the ledger out of step with the chain, both findings: a validated block that pays a second amount to
  the zero address is refused after it has been pushed (\<open>AddBlock_unaddressed_payment\<close>), and a save that breaks off has
  already dropped transactions; every other refusal changes nothing. In every state the chain is numbered and linked;
  in every state reached without these two outcomes since the start or the last wipe the ledger is the replay of the
  chain from genesis, no spend is in the chain twice, and rolling back rebuilds exactly the ledger of the remaining
  blocks. A branch is adopted only if it is linked, heavier and has served its delay, and a failed adoption
  restores the old chain and what its blocks read back with, from memory or from disk. The orphan pool is a
  bounded queue, its loops end, and attaching keeps the chain valid, and the ledger in step when no pooled block pays the
  zero address. Over the network, no sequence of packets, connects, disconnects, ticks and commands breaks the chain or
  the bounds of pools and tables, and fair steps keep the ledger the replay of the chain and every block readable; a
  node serves every block of its chain, and a new node that receives the blocks of a valid
  chain ends with that chain and its ledger. The peer table stays bounded and clean, a handshake leaves one
  connection per node and direction, and a block is relayed once to every peer. A mined block is accepted
  by its own chain exactly when its spends are newer than what their senders spent before, and none pays the zero address;
  whatever is typed, the chain stays valid, and after a fair session whose saves succeeded a node restarted from its
  flush is the node it was; a stored chain passes the full verification;
  the window of a sync stays bounded and drains once the blocks are there. The prompt pools and sends the
  transaction that was typed and prints balances as they are. The containers refine lists and mathematical sets, never
  touch memory they do not own, and destroy every element once. The threads of the TCP server use no freed
  connection and join no missing thread but in two cases, both findings: the thread of a client cannot be started
  (\<open>tcp_thread_failure_undefined\<close>), and a relay sends on a pinned connection whose client has left
  (\<open>relay_use_after_free\<close>); a stop that has ended has everything freed and every thread joined or detached; a ping ends in one
  callback, by a pong or in time. The hash table is a map for every hash function and whichever allocation
  fails. Where the code fails (a thread that cannot be started, a missing socket, a
  peer that is gone, a save that breaks off, a payment to the zero address), the failure is a theorem.

  \<^bold>\<open>Bounds and fuel.\<close> Loops whose end is not structural are functions with a termination proof; the one loop
  with fuel, \<open>collect_loop\<close>, has one round more than the pool has entries, which is enough because every
  round uses another entry (\<open>collect_loop_fuel\<close>). Statements about 64-bit heights and file offsets assume
  that these fit, as written in their hypotheses.

  \<^bold>\<open>Not modelled.\<close> Locks and threads outside \<open>Tcp_Server\<close>: every operation is atomic, as the locks of the source
  make it, and the callbacks of the network run one after the other, in any order. Two commands hold no lock all the
  time: mining is one step from the search to the append, and during a sync the network acts between the turns of the
  window loop. A run assumes that fewer than 2^64 - 1 blocks are ever queued as orphans. Failing allocations: outside the
  containers they are taken to succeed. The socket calls themselves, terminal input and output, the
  generator behind random numbers and clocks: readings of the clock and answers of the file system and of the sockets
  are arguments. The ledger and the pool keep partial maps where the code has a hash
  table, with the order of a walk as an argument; \<open>Khash_Map\<close> shows that the table is such a map. Of \<^verbatim>\<open>include/khash\<close>, the
  release of a table and the variants for integer and string keys. Of \<^verbatim>\<open>src/main.c\<close>, the text that is printed, the signal handler and the teardown at exit.
\<close>

end
